(* ===== verification/QPrelude.thy ===== *)
theory QPrelude
  imports Main "HOL-Library.Word" "HOL-Library.Char_ord" "HOL-Library.List_Lexorder"
    "HOL-Library.Monad_Syntax" "HOL-Library.Sublist"
begin

text \<open>
  Shared vocabulary of the development.

  \<^item> \<open>bytes\<close>: a \<open>std::string\<close> or \<open>std::string_view\<close> is a list of characters; \<open>char\<close> has 256
    values, so a character is a byte.  With \<open>List_Lexorder\<close> and \<open>Char_ord\<close> the order of the type
    is the bytewise comparator the storage engine is opened with.
  \<^item> A C++ function that may leave through \<open>qdb_throw\<close> or \<open>qdb_assert\<close> (both raise
    \<open>FatalException\<close>, which nothing catches on the data path) returns an \<open>option\<close>: \<open>None\<close> is the
    fatal exception.  \<open>qdb_assert b\<close> is \<open>assert_that b\<close>.
  \<^item> \<open>uint64_t\<close> is \<open>64 word\<close>; \<open>int64_t\<close> is \<open>int\<close>, read from and written to eight bytes in two's
    complement.
\<close>

type_synonym bytes = "char list"
type_synonym u64 = "64 word"

named_theorems keysimps \<open>equations between encoded storage keys\<close>
named_theorems viewsimps \<open>what an operation does to the contents a client can read\<close>
named_theorems opdefs \<open>definitions of the state machine's operations, to be unfolded together\<close>

subsection \<open>Assertions\<close>

definition assert_that :: "bool \<Rightarrow> unit option" where
  "assert_that b = (if b then Some () else None)"

lemma assert_that_simps [simp]:
  "assert_that True = Some ()"
  "assert_that False = None"
  by (simp_all add: assert_that_def)

lemma assert_that_eq_Some [simp]: "assert_that b = Some u \<longleftrightarrow> b"
  by (simp add: assert_that_def)

subsection \<open>Lists\<close>

lemma last_Cons_cases: "last (x # xs) = (if xs = [] then x else last xs)"
  by simp

lemma takeWhile_append_stop: "(\<forall>x\<in>set xs. P x) \<Longrightarrow> \<not> P y \<Longrightarrow> takeWhile P (xs @ y # ys) = xs"
  by (induction xs) auto

lemma sorted_wrt_less_distinct: "sorted_wrt (<) (xs :: 'a :: linorder list) \<Longrightarrow> distinct xs"
  by (simp add: strict_sorted_iff)

text \<open>
  In the bytewise order the strings with a given prefix are an interval that starts at the
  prefix itself: a key that is at least \<open>p\<close> and at most a key with prefix \<open>p\<close> has prefix \<open>p\<close>.
\<close>

lemma prefix_le: "prefix p (x :: bytes) \<Longrightarrow> p \<le> x"
  by (induction p arbitrary: x) (auto simp: prefix_def)

lemma append_less_append: "p @ x < p @ (y :: bytes) \<longleftrightarrow> x < y"
  by (induction p) auto

lemma append_le_append: "p @ x \<le> p @ (y :: bytes) \<longleftrightarrow> x \<le> y"
  by (induction p) auto

lemma prefix_interval:
  fixes p x y :: bytes
  assumes "p \<le> x" "x \<le> y" "prefix p y"
  shows "prefix p x"
  using assms
proof (induction p arbitrary: x y)
  case Nil
  then show ?case by simp
next
  case (Cons a p)
  then obtain y' where y: "y = a # y'" "prefix p y'"
    by (cases y) auto
  from Cons.prems(1) obtain b x' where x: "x = b # x'"
    by (cases x) auto
  with Cons.prems y have "a = b" "p \<le> x'" "x' \<le> y'"
    by auto
  with Cons.IH y x show ?case by auto
qed

lemma takeWhile_prefix_filter:
  fixes xs :: "(bytes \<times> 'v) list"
  assumes "sorted (map fst xs)" "\<forall>e\<in>set xs. p \<le> fst e"
  shows "takeWhile (\<lambda>e. prefix p (fst e)) xs = filter (\<lambda>e. prefix p (fst e)) xs"
  using assms
proof (induction xs)
  case Nil
  then show ?case by simp
next
  case (Cons e xs)
  show ?case
  proof (cases "prefix p (fst e)")
    case True
    with Cons show ?thesis by simp
  next
    case False
    have "\<not> prefix p (fst e')" if "e' \<in> set xs" for e'
    proof
      assume "prefix p (fst e')"
      moreover have "fst e \<le> fst e'" using Cons.prems that by simp
      moreover have "p \<le> fst e" using Cons.prems by simp
      ultimately show False using prefix_interval False by blast
    qed
    with False show ?thesis by simp
  qed
qed

lemma sorted_entries_unique:
  fixes xs ys :: "('a :: linorder \<times> 'b) list"
  assumes "sorted_wrt (<) (map fst xs)" "sorted_wrt (<) (map fst ys)" "set xs = set ys"
  shows "xs = ys"
proof (rule nth_equalityI)
  have keys: "map fst xs = map fst ys"
    using assms by (intro strict_sorted_equal) auto
  then show len: "length xs = length ys" by (metis length_map)
  fix i assume i: "i < length xs"
  have "fst (xs ! i) = fst (ys ! i)"
    using keys i len by (metis nth_map)
  moreover have "xs ! i \<in> set xs" "ys ! i \<in> set xs"
    using i len assms(3) nth_mem by metis+
  moreover have "distinct (map fst xs)"
    using assms(1) by (rule sorted_wrt_less_distinct)
  ultimately show "xs ! i = ys ! i"
    by (metis eq_key_imp_eq_value prod.collapse)
qed

end
