(* ===== verification/BinaryString.thy ===== *)
theory BinaryString
  imports QPrelude
begin

text \<open>
  \<^verbatim>\<open>src/src/utils/IntToBinaryString.hh\<close> and the two integer helpers of
  \<^verbatim>\<open>src/src/raft/RaftCommon.hh\<close>: 64-bit integers as eight bytes, big endian for storage keys
  and values (so that the bytewise order of the encodings is the numeric order), host order
  (little endian) inside serialized raft entries.
\<close>

unbundle bit_operations_syntax

subsection \<open>Bytes of a word\<close>

definition byte_at :: "u64 \<Rightarrow> nat \<Rightarrow> char" where
  "byte_at w i = char_of (drop_bit (8 * i) (unat w))"

definition le64_bytes :: "u64 \<Rightarrow> bytes" where
  "le64_bytes w = map (byte_at w) [0..<8]"

definition le64_word :: "bytes \<Rightarrow> u64" where
  "le64_word bs = word_of_nat (horner_sum of_char 256 (take 8 bs))"

subsection \<open>Conversions of the source\<close>

text \<open>
  \<open>htobe64\<close> followed by \<open>memcpy\<close> stores the most significant byte first; a reader copies eight
  bytes from the start of the buffer and converts back.  A reader is never given fewer than
  eight bytes by its callers; the model reads what there is.
\<close>

definition unsignedIntToBinaryString :: "u64 \<Rightarrow> bytes" where
  "unsignedIntToBinaryString num = rev (le64_bytes num)"

definition binaryStringToUnsignedInt :: "bytes \<Rightarrow> u64" where
  "binaryStringToUnsignedInt buff = le64_word (rev (take 8 buff))"

definition intToBinaryString :: "int \<Rightarrow> bytes" where
  "intToBinaryString num = unsignedIntToBinaryString (word_of_int num)"

definition binaryStringToInt :: "bytes \<Rightarrow> int" where
  "binaryStringToInt buff = sint (binaryStringToUnsignedInt buff)"

definition append_int_to_string :: "int \<Rightarrow> bytes" where
  "append_int_to_string source = le64_bytes (word_of_int source)"

definition fetch_int_from_string :: "bytes \<Rightarrow> int" where
  "fetch_int_from_string pos = sint (le64_word pos)"

text \<open>The integers an \<open>int64_t\<close> holds.\<close>

definition int64 :: "int \<Rightarrow> bool" where
  "int64 i \<longleftrightarrow> - (2 ^ 63) \<le> i \<and> i < 2 ^ 63"

subsection \<open>Round trips\<close>

lemma length_le64_bytes [simp]: "length (le64_bytes w) = 8"
  by (simp add: le64_bytes_def)

lemma upt_8: "[0..<8] = [0, 1, 2, 3, 4, 5, 6, 7]"
  by (simp add: upt_rec)

lemma unat_lt_256: "unat (w :: u64) < 256 ^ 8"
proof -
  have "unat w < 2 ^ LENGTH(64)" by (rule unsigned_less)
  then show ?thesis by simp
qed

lemma horner_bytes:
  fixes n :: nat
  assumes "n < 256 ^ k"
  shows "horner_sum of_char 256 (map (\<lambda>i. char_of (drop_bit (8 * i) n)) [0..<k]) = n"
  using assms
proof (induction k arbitrary: n)
  case 0
  then show ?case by simp
next
  case (Suc k)
  have split: "[0..<Suc k] = 0 # map Suc [0..<k]"
    by (simp add: upt_conv_Cons map_Suc_upt del: upt_Suc)
  have shift: "drop_bit (8 * Suc i) n = drop_bit (8 * i) (n div 256)" for i
    by (simp add: drop_bit_eq_div div_mult2_eq power_add)
  have "n div 256 < 256 ^ k"
    using Suc.prems by (simp add: less_mult_imp_div_less)
  from Suc.IH [OF this]
  have "horner_sum of_char 256 (map (\<lambda>i. char_of (drop_bit (8 * Suc i) n)) [0..<k]) = n div 256"
    by (simp only: shift)
  then show ?case
    by (simp add: split comp_def del: upt_Suc)
qed

lemma le64_roundtrip [simp]: "le64_word (le64_bytes w) = w"
proof -
  from horner_bytes [OF unat_lt_256 [of w]]
  have "horner_sum of_char 256 (map (byte_at w) [0..<8]) = unat w"
    by (simp add: byte_at_def [abs_def])
  then show ?thesis
    by (simp add: le64_word_def le64_bytes_def)
qed

lemma le64_word_append [simp]: "le64_word (le64_bytes w @ xs) = w"
  using le64_roundtrip [of w] by (simp add: le64_word_def)

lemma length_unsignedIntToBinaryString [simp]: "length (unsignedIntToBinaryString w) = 8"
  by (simp add: unsignedIntToBinaryString_def)

lemma length_intToBinaryString [simp]: "length (intToBinaryString i) = 8"
  by (simp add: intToBinaryString_def)

lemma length_append_int [simp]: "length (append_int_to_string i) = 8"
  by (simp add: append_int_to_string_def)

lemma unsigned_roundtrip_append [simp]:
  "binaryStringToUnsignedInt (unsignedIntToBinaryString w @ xs) = w"
  by (simp add: unsignedIntToBinaryString_def binaryStringToUnsignedInt_def)

lemma unsigned_roundtrip [simp]:
  "binaryStringToUnsignedInt (unsignedIntToBinaryString w) = w"
  using unsigned_roundtrip_append [of w "[]"] by simp

lemma sint_word_of_int: "int64 i \<Longrightarrow> sint (word_of_int i :: u64) = i"
  by (simp add: int64_def sint_sbintrunc' signed_take_bit_int_eq_self)

lemma int_roundtrip_append [simp]:
  "int64 i \<Longrightarrow> binaryStringToInt (intToBinaryString i @ xs) = i"
  by (simp add: binaryStringToInt_def intToBinaryString_def sint_word_of_int)

lemma int_roundtrip [simp]: "int64 i \<Longrightarrow> binaryStringToInt (intToBinaryString i) = i"
  using int_roundtrip_append [of i "[]"] by simp

lemma fetch_append_int [simp]:
  "int64 i \<Longrightarrow> fetch_int_from_string (append_int_to_string i @ xs) = i"
  by (simp add: fetch_int_from_string_def append_int_to_string_def sint_word_of_int)

lemma unsignedIntToBinaryString_inj [simp]:
  "unsignedIntToBinaryString a = unsignedIntToBinaryString b \<longleftrightarrow> a = b"
  by (metis unsigned_roundtrip)

subsection \<open>The big endian encoding keeps the order\<close>

lemma horner_rev_bound: "horner_sum of_char (256 :: nat) (rev xs) < 256 ^ length xs"
proof (induction xs)
  case Nil
  then show ?case by simp
next
  case (Cons x xs)
  have "of_char x \<le> (255 :: nat)"
    using nat_of_char_less_256 [of x] by linarith
  then have "256 ^ length xs * of_char x \<le> 256 ^ length xs * (255 :: nat)"
    by simp
  from add_less_le_mono [OF Cons.IH this] show ?case
    by (simp add: horner_sum_append)
qed

lemma bytes_less_iff_horner:
  fixes xs ys :: bytes
  assumes "length xs = length ys"
  shows "xs < ys \<longleftrightarrow> horner_sum of_char (256 :: nat) (rev xs) < horner_sum of_char 256 (rev ys)"
  using assms
proof (induction xs ys rule: list_induct2)
  case Nil
  then show ?case by simp
next
  case (Cons x xs y ys)
  let ?h = "\<lambda>zs. horner_sum of_char (256 :: nat) (rev zs)"
  let ?B = "(256 :: nat) ^ length ys"
  have bounds: "?h xs < ?B" "?h ys < ?B"
    using horner_rev_bound [of xs] horner_rev_bound [of ys] Cons.hyps by simp_all
  have digit: "?h xs + ?B * m < ?h ys + ?B * n" if "m < n" for m n :: nat
  proof -
    have "?B * Suc m \<le> ?B * n" using that by (intro mult_le_mono2) simp
    with bounds show ?thesis by simp
  qed
  have digit': "\<not> ?h xs + ?B * m < ?h ys + ?B * n" if "n < m" for m n :: nat
  proof -
    have "?B * Suc n \<le> ?B * m" using that by (intro mult_le_mono2) simp
    with bounds show ?thesis by simp
  qed
  show ?case
  proof (cases "x = y")
    case True
    with Cons show ?thesis by (simp add: horner_sum_append)
  next
    case False
    then have "x < y \<longleftrightarrow> of_char x < (of_char y :: nat)" "of_char x \<noteq> (of_char y :: nat)"
      by (simp_all add: less_char_def)
    then consider (lt) "x < y" "of_char x < (of_char y :: nat)"
      | (gt) "\<not> x < y" "of_char y < (of_char x :: nat)"
      by linarith
    then show ?thesis
    proof cases
      case lt
      with Cons.hyps digit show ?thesis by (simp add: horner_sum_append)
    next
      case gt
      with False Cons.hyps digit' show ?thesis by (simp add: horner_sum_append)
    qed
  qed
qed

lemma horner_unsigned: "horner_sum of_char 256 (rev (unsignedIntToBinaryString w)) = unat w"
proof -
  from horner_bytes [OF unat_lt_256 [of w]] show ?thesis
    by (simp add: unsignedIntToBinaryString_def le64_bytes_def byte_at_def [abs_def])
qed

lemma unsignedIntToBinaryString_less [simp]:
  "unsignedIntToBinaryString a < unsignedIntToBinaryString b \<longleftrightarrow> a < b"
  by (simp add: bytes_less_iff_horner horner_unsigned word_less_nat_alt)

lemma unsignedIntToBinaryString_le [simp]:
  "unsignedIntToBinaryString a \<le> unsignedIntToBinaryString b \<longleftrightarrow> a \<le> b"
  by (simp add: le_less)

end
