(* ===== verification/TextUtils.thy ===== *)
theory TextUtils
  imports BinaryString
begin

text \<open>
  The text helpers of \<^verbatim>\<open>src/src/utils/StringUtils.hh\<close>, \<^verbatim>\<open>src/src/utils/ParseUtils.hh\<close>,
  \<^verbatim>\<open>src/src/Utils.hh\<close>, \<^verbatim>\<open>src/src/Utils.cc\<close> and \<^verbatim>\<open>src/src/storage/PatternMatching.hh\<close>:
  prefix tests, counting, splitting, decimal numbers.  The C library functions the code calls
  (\<open>strtoll\<close>, \<open>std::to_string\<close>, \<open>tolower\<close>) are written out for the C locale.  A
  \<open>string_view\<close> given to \<open>strtoll\<close> is taken to be terminated where the view ends.
\<close>

subsection \<open>StringUtils\<close>

fun countOccurences :: "bytes \<Rightarrow> char \<Rightarrow> nat" where
  "countOccurences [] c = 0"
| "countOccurences (x # xs) c = (if x = c then 1 else 0) + countOccurences xs c"

definition startsWith :: "bytes \<Rightarrow> bytes \<Rightarrow> bool" where
  "startsWith str pre =
     (if length pre > length str then False
      else (\<forall>i < length pre. str ! i = pre ! i))"

definition endsWith :: "bytes \<Rightarrow> bytes \<Rightarrow> bool" where
  "endsWith str suf =
     (if length suf > length str then False
      else (\<forall>i < length suf. str ! (length str - length suf + i) = suf ! i))"

definition isPrefix :: "bytes \<Rightarrow> bytes \<Rightarrow> bool" where
  "isPrefix pre buff =
     (if length buff < length pre then False
      else (\<forall>i < length pre. buff ! i = pre ! i))"

definition hexDigit :: "nat \<Rightarrow> char" where
  "hexDigit n = ''0123456789abcdef'' ! n"

definition base16Encode :: "bytes \<Rightarrow> bytes" where
  "base16Encode source =
     concat (map (\<lambda>c. [hexDigit (of_char c div 16), hexDigit (of_char c mod 16)]) source)"

definition rightPad :: "bytes \<Rightarrow> nat \<Rightarrow> char \<Rightarrow> bytes" where
  "rightPad source targetSize padder = source @ replicate (targetSize - length source) padder"

definition extractPatternPrefix :: "bytes \<Rightarrow> bytes" where
  "extractPatternPrefix pattern =
     takeWhile (\<lambda>c. \<not> (c = CHR ''?'' \<or> c = CHR ''*'' \<or> c = CHR ''['' \<or> c = CHR '']''
                      \<or> c = CHR 0x5C)) pattern"

lemma prefix_iff_nth:
  "prefix pre str \<longleftrightarrow> length pre \<le> length str \<and> (\<forall>i < length pre. str ! i = pre ! i)"
proof (induction pre arbitrary: str)
  case Nil
  then show ?case by simp
next
  case (Cons x pre)
  then show ?case
    by (cases str) (auto simp: less_Suc_eq_0_disj)
qed

lemma startsWith_prefix [simp]: "startsWith str pre \<longleftrightarrow> prefix pre str"
  by (auto simp: startsWith_def prefix_iff_nth)

lemma isPrefix_startsWith: "isPrefix pre buff = startsWith buff pre"
  by (simp only: isPrefix_def startsWith_def)

lemma endsWith_suffix [simp]: "endsWith str suf \<longleftrightarrow> suffix suf str"
proof (cases "length suf \<le> length str")
  case True
  have "suffix suf str \<longleftrightarrow> drop (length str - length suf) str = suf"
    by (auto simp: suffix_def) (metis append_take_drop_id)
  also have "\<dots> \<longleftrightarrow> endsWith str suf"
    using True by (auto simp: endsWith_def list_eq_iff_nth_eq)
  finally show ?thesis by simp
next
  case False
  then show ?thesis by (auto simp: endsWith_def dest: suffix_length_le)
qed

lemma countOccurences_count: "countOccurences xs c = count_list xs c"
  by (induction xs) auto

lemma length_base16Encode: "length (base16Encode source) = 2 * length source"
  by (induction source) (auto simp: base16Encode_def)

lemma extractPatternPrefix_prefix: "prefix (extractPatternPrefix p) p"
  by (simp add: extractPatternPrefix_def takeWhile_is_prefix)

subsection \<open>Vectors\<close>

definition boolToString :: "bool \<Rightarrow> bytes" where
  "boolToString b = (if b then ''TRUE'' else ''FALSE'')"

fun contains :: "'a list \<Rightarrow> 'a \<Rightarrow> bool" where
  "contains [] element = False"
| "contains (x # v) element = (if x = element then True else contains v element)"

fun erase_element :: "'a list \<Rightarrow> 'a \<Rightarrow> 'a list \<times> bool" where
  "erase_element [] element = ([], False)"
| "erase_element (x # v) element =
     (if x = element then (v, True)
      else (case erase_element v element of (v', b) \<Rightarrow> (x # v', b)))"

definition checkUnique :: "'a list \<Rightarrow> bool" where
  "checkUnique v \<longleftrightarrow>
     (\<forall>i < length v. \<forall>j < length v. \<not> (i \<noteq> j \<and> v ! i = v ! j))"

lemma contains_set [simp]: "contains v x \<longleftrightarrow> x \<in> set v"
  by (induction v) auto

lemma erase_element_eq [simp]: "erase_element v x = (remove1 x v, x \<in> set v)"
  by (induction v) auto

lemma checkUnique_distinct [simp]: "checkUnique v \<longleftrightarrow> distinct v"
  by (auto simp: checkUnique_def distinct_conv_nth)

subsection \<open>Splitting\<close>

text \<open>\<open>std::string::find\<close>, and the loop of \<open>split\<close>.  With an empty token the loop of the source
  does not end: it is \<open>None\<close> here, and every caller passes a one-character token.\<close>

fun find_sub :: "bytes \<Rightarrow> bytes \<Rightarrow> nat option" where
  "find_sub token [] = (if token = [] then Some 0 else None)"
| "find_sub token (x # xs) =
     (if prefix token (x # xs) then Some 0 else map_option Suc (find_sub token xs))"

lemma find_sub_bound: "find_sub token data = Some p \<Longrightarrow> p + length token \<le> length data"
  by (induction data arbitrary: p) (auto split: if_splits dest: prefix_length_le)

function split :: "bytes \<Rightarrow> bytes \<Rightarrow> bytes list option" where
  "split data token =
     (if token = [] then None
      else case find_sub token data of
             None \<Rightarrow> Some [data]
           | Some pos \<Rightarrow>
               map_option (Cons (take pos data)) (split (drop (pos + length token) data) token))"
  by pat_completeness auto
termination
proof (relation "measure (\<lambda>(data, token). length data)", goal_cases)
  case 1
  then show ?case by simp
next
  case (2 data token p)
  then have "0 < length token" "p + length token \<le> length data"
    using find_sub_bound by auto
  then have "length data - (p + length token) < length data"
    by linarith
  then show ?case by simp
qed

declare split.simps [simp del]

lemma find_sub_single_None: "c \<notin> set xs \<Longrightarrow> find_sub [c] xs = None"
  by (induction xs) (auto simp: prefix_def)

lemma find_sub_single_Some: "c \<notin> set xs \<Longrightarrow> find_sub [c] (xs @ c # ys) = Some (length xs)"
  by (induction xs) (auto simp: prefix_def)

lemma split_single_last: "c \<notin> set xs \<Longrightarrow> split xs [c] = Some [xs]"
  by (subst split.simps) (simp add: find_sub_single_None)

lemma split_single_Cons:
  "c \<notin> set xs \<Longrightarrow> split (xs @ c # ys) [c] = map_option (Cons xs) (split ys [c])"
  by (subst split.simps) (simp add: find_sub_single_Some)

text \<open>The inverse of splitting: the parts joined by a one-character separator.\<close>

fun join :: "char \<Rightarrow> bytes list \<Rightarrow> bytes" where
  "join c [] = []"
| "join c [x] = x"
| "join c (x # y # zs) = x @ c # join c (y # zs)"

lemma split_join: "parts \<noteq> [] \<Longrightarrow> \<forall>x \<in> set parts. c \<notin> set x \<Longrightarrow> split (join c parts) [c] = Some parts"
  by (induction c parts rule: join.induct) (auto simp: split_single_last split_single_Cons)

subsection \<open>Decimal numbers\<close>

definition LLONG_MAX :: int where "LLONG_MAX = 2 ^ 63 - 1"
definition LLONG_MIN :: int where "LLONG_MIN = - (2 ^ 63)"

definition is_digit :: "char \<Rightarrow> bool" where
  "is_digit c \<longleftrightarrow> 48 \<le> (of_char c :: nat) \<and> of_char c \<le> (57 :: nat)"

definition is_space :: "char \<Rightarrow> bool" where
  "is_space c \<longleftrightarrow> of_char c = (32 :: nat) \<or> 9 \<le> (of_char c :: nat) \<and> of_char c \<le> (13 :: nat)"

fun digits_value :: "nat \<Rightarrow> bytes \<Rightarrow> nat" where
  "digits_value acc [] = acc"
| "digits_value acc (c # cs) = digits_value (10 * acc + (of_char c - 48)) cs"

text \<open>
  \<open>strtoll(str, &endptr, 10)\<close>: blanks, an optional sign, decimal digits; the value saturates;
  the second component is the unread rest, the whole input when there is no digit.
\<close>

definition strtoll :: "bytes \<Rightarrow> int \<times> bytes" where
  "strtoll str =
     (let s = dropWhile is_space str;
          (neg, t) = (case s of c # cs \<Rightarrow> if c = CHR ''-'' then (True, cs)
                                         else if c = CHR ''+'' then (False, cs) else (False, s)
                      | [] \<Rightarrow> (False, s));
          ds = takeWhile is_digit t;
          n = int (digits_value 0 ds)
      in if ds = [] then (0, str)
         else (max LLONG_MIN (min LLONG_MAX (if neg then - n else n)), dropWhile is_digit t))"

definition parseInt64 :: "bytes \<Rightarrow> int option" where
  "parseInt64 str =
     (case strtoll str of (ret, rest) \<Rightarrow>
        if rest \<noteq> [] \<or> ret = LLONG_MIN \<or> ret = LLONG_MAX then None else Some ret)"

text \<open>The sum of two variables of type \<open>int64_t\<close>: overflow is undefined behaviour, \<^const>\<open>None\<close>.\<close>

definition checkedAdd :: "int \<Rightarrow> int \<Rightarrow> int option" where
  "checkedAdd a b = (if - (2 ^ 63) \<le> a + b \<and> a + b < 2 ^ 63 then Some (a + b) else None)"

lemma checkedAdd_int64 [simp]:
  "int64 (a + b) \<Longrightarrow> checkedAdd a b = Some (a + b)" "\<not> int64 (a + b) \<Longrightarrow> checkedAdd a b = None"
  by (simp_all add: checkedAdd_def int64_def)

text \<open>\<open>std::to_string\<close>.\<close>

fun digits_of :: "nat \<Rightarrow> bytes" where
  "digits_of n = (if n < 10 then [char_of (48 + n)]
                  else digits_of (n div 10) @ [char_of (48 + n mod 10)])"

declare digits_of.simps [simp del]

definition to_string :: "int \<Rightarrow> bytes" where
  "to_string i = (if i < 0 then CHR ''-'' # digits_of (nat (- i)) else digits_of (nat i))"

lemma digits_value_append:
  "digits_value acc (xs @ [c]) = 10 * digits_value acc xs + (of_char c - 48)"
  by (induction xs arbitrary: acc) auto

lemma of_char_digit: "n < 10 \<Longrightarrow> of_char (char_of (48 + n :: nat) :: char) = (48 + n :: nat)"
  by (simp add: take_bit_eq_mod)

lemma digits_of_nonempty [simp]: "digits_of n \<noteq> []"
  by (subst digits_of.simps) simp

lemma digits_of_digits: "c \<in> set (digits_of n) \<Longrightarrow> is_digit c"
proof (induction n rule: digits_of.induct)
  case (1 n)
  have d: "is_digit (char_of (48 + m))" if "m < 10" for m :: nat
    using that by (simp add: is_digit_def of_char_digit del: of_char_of)
  show ?case
    using "1.prems" "1.IH" by (subst (asm) digits_of.simps) (auto simp: d split: if_splits)
qed

lemma digits_value_of [simp]: "digits_value 0 (digits_of n) = n"
proof (induction n rule: digits_of.induct)
  case (1 n)
  then show ?case
    by (subst digits_of.simps)
      (simp add: digits_value_append of_char_digit del: of_char_of)
qed

lemma takeWhile_digits_of [simp]: "takeWhile is_digit (digits_of n) = digits_of n"
  by (simp add: digits_of_digits takeWhile_eq_all_conv)

lemma dropWhile_digits_of [simp]: "dropWhile is_digit (digits_of n) = []"
  by (simp add: digits_of_digits)

lemma digit_not_space: "is_digit c \<Longrightarrow> \<not> is_space c"
  by (auto simp: is_digit_def is_space_def)

lemma digit_not_sign: "is_digit c \<Longrightarrow> c \<noteq> CHR ''-'' \<and> c \<noteq> CHR ''+''"
  by (auto simp: is_digit_def)

lemma digits_of_Cons:
  obtains d ds where "digits_of n = d # ds" "is_digit d"
proof (cases "digits_of n")
  case (Cons d ds)
  with that digits_of_digits [of d n] show ?thesis by auto
qed simp

lemma strtoll_digits_of: "strtoll (digits_of n) = (max LLONG_MIN (min LLONG_MAX (int n)), [])"
proof (rule digits_of_Cons [of n])
  fix d ds assume d: "digits_of n = d # ds" "is_digit d"
  have parts: "takeWhile is_digit ds = ds" "\<forall>x\<in>set ds. is_digit x" "dropWhile is_digit (d # ds) = []"
      "digits_value 0 (d # ds) = n"
    using takeWhile_digits_of [of n] dropWhile_digits_of [of n] digits_value_of [of n] d
    by simp_all
  from d digit_not_space digit_not_sign show ?thesis
    by (simp add: strtoll_def Let_def parts del: digits_value.simps)
qed

lemma strtoll_minus_digits_of:
  "strtoll (CHR ''-'' # digits_of n) = (max LLONG_MIN (min LLONG_MAX (- int n)), [])"
  by (simp add: strtoll_def Let_def is_space_def)

lemma parseInt64_to_string:
  assumes "LLONG_MIN < i" "i < LLONG_MAX"
  shows "parseInt64 (to_string i) = Some i"
  using assms
  by (simp add: parseInt64_def to_string_def strtoll_digits_of strtoll_minus_digits_of
      max_def min_def)

end
