(* ===== verification/KeyDescriptors.thy ===== *)
theory KeyDescriptors
  imports TextUtils
begin

text \<open>
  \<^verbatim>\<open>src/src/storage/KeyDescriptor.hh\<close>: the descriptor stored for every redis key, with its
  type, its size and, for deques, leases and versioned hashes, two 64-bit markers.  The class
  is a record, its constructor from a string a parser that may assert, \<open>serialize\<close> a printer
  that may assert.
\<close>

datatype KeyType = kNull | kParseError | kString | kHash | kSet | kDeque | kLocalityHash
  | kLease | kVersionedHash

fun keyTypeChar :: "KeyType \<Rightarrow> char" where
  "keyTypeChar kNull = CHR 0x00"
| "keyTypeChar kParseError = CHR ''=''"
| "keyTypeChar kString = CHR ''a''"
| "keyTypeChar kHash = CHR ''b''"
| "keyTypeChar kSet = CHR ''c''"
| "keyTypeChar kDeque = CHR ''d''"
| "keyTypeChar kLocalityHash = CHR ''e''"
| "keyTypeChar kLease = CHR ''f''"
| "keyTypeChar kVersionedHash = CHR ''g''"

definition parseKeyType :: "char \<Rightarrow> KeyType" where
  "parseKeyType c =
     (if c = keyTypeChar kString then kString
      else if c = keyTypeChar kHash then kHash
      else if c = keyTypeChar kSet then kSet
      else if c = keyTypeChar kDeque then kDeque
      else if c = keyTypeChar kLocalityHash then kLocalityHash
      else if c = keyTypeChar kLease then kLease
      else if c = keyTypeChar kVersionedHash then kVersionedHash
      else kParseError)"

fun keyTypeAsString :: "KeyType \<Rightarrow> bytes option" where
  "keyTypeAsString kNull = Some ''none''"
| "keyTypeAsString kParseError = None"
| "keyTypeAsString kString = Some ''string''"
| "keyTypeAsString kSet = Some ''set''"
| "keyTypeAsString kHash = Some ''hash''"
| "keyTypeAsString kDeque = Some ''deque''"
| "keyTypeAsString kLocalityHash = Some ''locality hash''"
| "keyTypeAsString kLease = Some ''lease''"
| "keyTypeAsString kVersionedHash = Some ''versioned hash''"

datatype Direction = kLeft | kRight

fun flipDirection :: "Direction \<Rightarrow> Direction" where
  "flipDirection kLeft = kRight"
| "flipDirection kRight = kLeft"

record key_descriptor =
  keyType :: KeyType
  sz :: int
  startIndex :: u64
  endIndex :: u64

definition kIndexInitialValue :: u64 where
  "kIndexInitialValue = 0x7FFFFFFFFFFFFFFF"

definition emptyDescriptor :: key_descriptor where
  "emptyDescriptor = \<lparr>keyType = kNull, sz = 0, startIndex = kIndexInitialValue,
                      endIndex = kIndexInitialValue\<rparr>"

definition kHashDescriptorSize :: nat where "kHashDescriptorSize = 1 + 8"
definition kDequeDescriptorSize :: nat where "kDequeDescriptorSize = 1 + 8 + 2 * 8"
definition kVersionedHashDescriptorSize :: nat where "kVersionedHashDescriptorSize = 1 + 8 + 1 * 8"
definition kOffsetSize :: nat where "kOffsetSize = 1"
definition kOffsetStartIndex :: nat where "kOffsetStartIndex = 1 + 8"
definition kOffsetEndIndex :: nat where "kOffsetEndIndex = 1 + 8 + 8"

lemmas descriptor_layout = kHashDescriptorSize_def kDequeDescriptorSize_def
  kVersionedHashDescriptorSize_def kOffsetSize_def kOffsetStartIndex_def kOffsetEndIndex_def

subsection \<open>Constructor and accessors\<close>

definition parseDescriptor :: "bytes \<Rightarrow> key_descriptor option" where
  "parseDescriptor str = do {
     assert_that (length str \<noteq> 0);
     let kt = parseKeyType (str ! 0);
     if kt \<in> {kString, kSet, kHash, kLocalityHash} then do {
       assert_that (length str = kHashDescriptorSize);
       Some (emptyDescriptor\<lparr>keyType := kt, sz := binaryStringToInt (drop kOffsetSize str)\<rparr>)
     }
     else if kt \<in> {kDeque, kLease} then do {
       assert_that (length str = kDequeDescriptorSize);
       let s = binaryStringToInt (drop kOffsetSize str);
       let start = word_of_int (binaryStringToInt (drop kOffsetStartIndex str));
       let fin = word_of_int (binaryStringToInt (drop kOffsetEndIndex str));
       assert_that (start \<le> fin);
       Some \<lparr>keyType = kt, sz = s, startIndex = start, endIndex = fin\<rparr>
     }
     else if kt = kVersionedHash then do {
       assert_that (length str = kVersionedHashDescriptorSize);
       Some (emptyDescriptor\<lparr>keyType := kt, sz := binaryStringToInt (drop kOffsetSize str),
              startIndex := word_of_int (binaryStringToInt (drop kOffsetStartIndex str))\<rparr>)
     }
     else None
   }"

definition descriptorEmpty :: "key_descriptor \<Rightarrow> bool" where
  "descriptorEmpty d \<longleftrightarrow> keyType d = kNull"

definition getSize :: "key_descriptor \<Rightarrow> int option" where
  "getSize d = do { assert_that (keyType d \<noteq> kParseError); Some (sz d) }"

definition getStartIndex :: "key_descriptor \<Rightarrow> u64 option" where
  "getStartIndex d = do {
     assert_that (keyType d = kDeque \<or> keyType d = kLease \<or> keyType d = kVersionedHash);
     Some (startIndex d) }"

definition getEndIndex :: "key_descriptor \<Rightarrow> u64 option" where
  "getEndIndex d = do { assert_that (keyType d = kDeque \<or> keyType d = kLease); Some (endIndex d) }"

definition setSize :: "int \<Rightarrow> key_descriptor \<Rightarrow> key_descriptor option" where
  "setSize newval d = do {
     assert_that (keyType d \<noteq> kParseError \<and> keyType d \<noteq> kNull);
     Some (d\<lparr>sz := newval\<rparr>) }"

definition setStartIndex :: "u64 \<Rightarrow> key_descriptor \<Rightarrow> key_descriptor option" where
  "setStartIndex newval d = do {
     assert_that (keyType d = kDeque \<or> keyType d = kLease \<or> keyType d = kVersionedHash);
     Some (d\<lparr>startIndex := newval\<rparr>) }"

definition setEndIndex :: "u64 \<Rightarrow> key_descriptor \<Rightarrow> key_descriptor option" where
  "setEndIndex newval d = do {
     assert_that (keyType d = kDeque \<or> keyType d = kLease);
     Some (d\<lparr>endIndex := newval\<rparr>) }"

definition getListIndex :: "Direction \<Rightarrow> key_descriptor \<Rightarrow> u64 option" where
  "getListIndex direction d = do {
     assert_that (keyType d = kDeque);
     Some (if direction = kLeft then startIndex d else endIndex d) }"

definition setListIndex :: "Direction \<Rightarrow> u64 \<Rightarrow> key_descriptor \<Rightarrow> key_descriptor option" where
  "setListIndex direction newindex d = do {
     assert_that (keyType d = kDeque);
     Some (if direction = kLeft then d\<lparr>startIndex := newindex\<rparr> else d\<lparr>endIndex := newindex\<rparr>) }"

lemmas descriptor_access = getSize_def getStartIndex_def getEndIndex_def setSize_def
  setStartIndex_def setEndIndex_def getListIndex_def setListIndex_def

definition serializeDescriptor :: "key_descriptor \<Rightarrow> bytes option" where
  "serializeDescriptor d =
     (if keyType d \<in> {kString, kSet, kHash, kLocalityHash} then
        Some (keyTypeChar (keyType d) # intToBinaryString (sz d))
      else if keyType d \<in> {kDeque, kLease} then do {
        assert_that (startIndex d \<le> endIndex d);
        Some (keyTypeChar (keyType d) # intToBinaryString (sz d)
              @ intToBinaryString (sint (startIndex d)) @ intToBinaryString (sint (endIndex d)))
      }
      else if keyType d = kVersionedHash then
        Some (keyTypeChar (keyType d) # intToBinaryString (sz d)
              @ intToBinaryString (sint (startIndex d)))
      else None)"

subsection \<open>Round trip\<close>

lemma parseKeyType_char [simp]:
  "parseKeyType (keyTypeChar kt) = (if kt = kNull then kParseError else kt)"
  by (cases kt) (simp_all add: parseKeyType_def)

lemma keyTypeChar_inj [simp]: "keyTypeChar a = keyTypeChar b \<longleftrightarrow> a = b"
  by (cases a; cases b) simp_all

lemma int64_sint [simp]: "int64 (sint (w :: u64))"
  using sint_ge [of w] sint_lt [of w] by (simp add: int64_def)

lemma drop8_int [simp]: "drop 8 (intToBinaryString i @ xs) = xs"
  by simp

text \<open>
  A descriptor the program can hold: a serializable type, a size in range, markers in order for
  the types that use them and at their initial value for those that do not.
\<close>

definition wfDescriptor :: "key_descriptor \<Rightarrow> bool" where
  "wfDescriptor d \<longleftrightarrow>
     keyType d \<noteq> kNull \<and> keyType d \<noteq> kParseError \<and> int64 (sz d)
     \<and> (keyType d \<in> {kDeque, kLease} \<longrightarrow> startIndex d \<le> endIndex d)
     \<and> (keyType d \<notin> {kDeque, kLease, kVersionedHash} \<longrightarrow> startIndex d = kIndexInitialValue)
     \<and> (keyType d \<notin> {kDeque, kLease} \<longrightarrow> endIndex d = kIndexInitialValue)"

lemma serialize_Some: "wfDescriptor d \<Longrightarrow> \<exists>s. serializeDescriptor d = Some s"
  by (cases "keyType d") (auto simp: serializeDescriptor_def wfDescriptor_def)

lemma parse_serialize [simp]:
  assumes "wfDescriptor d" "serializeDescriptor d = Some s"
  shows "parseDescriptor s = Some d"
  using assms
  by (cases d; cases "keyType d")
    (auto simp: wfDescriptor_def serializeDescriptor_def parseDescriptor_def emptyDescriptor_def
      parseKeyType_def Let_def descriptor_layout)

end
