(* ===== verification/KeyLocators.thy ===== *)
theory KeyLocators
  imports KeyDescriptors
begin

text \<open>
  \<^verbatim>\<open>src/src/storage/KeyLocators.hh\<close> and the key names of
  \<^verbatim>\<open>src/src/storage/KeyConstants.hh\<close>: how redis keys, fields and internal entries are laid
  out in the flat key space of the storage engine.  Each locator is the byte string its
  \<open>toView()\<close> returns; the buffer arithmetic behind it is in theory \<open>LocatorBuffers\<close>.
\<close>

subsection \<open>Escaping\<close>

fun escapeHash :: "bytes \<Rightarrow> bytes" where
  "escapeHash [] = []"
| "escapeHash (c # str) =
     (if c \<noteq> CHR ''#'' then c # escapeHash str else CHR ''|'' # CHR ''#'' # escapeHash str)"

definition appendEscaped :: "bytes \<Rightarrow> bytes" where
  "appendEscaped str = escapeHash str @ ''##''"

lemma length_escapeHash: "length (escapeHash str) = length str + countOccurences str CHR ''#''"
  by (induction str) auto

subsection \<open>Locators\<close>

definition kInternal :: char where "kInternal = CHR ''_''"
definition kConfiguration :: char where "kConfiguration = CHR ''~''"
definition kDescriptor :: char where "kDescriptor = CHR ''!''"
definition kExpirationEvent :: char where "kExpirationEvent = CHR ''@''"

definition kData :: char where "kData = CHR ''d''"
definition kIndex :: char where "kIndex = CHR ''i''"

definition descriptorLocator :: "bytes \<Rightarrow> bytes" where
  "descriptorLocator redisKey = kDescriptor # redisKey"

definition stringLocator :: "bytes \<Rightarrow> bytes" where
  "stringLocator redisKey = keyTypeChar kString # redisKey"

definition fieldPrefix :: "KeyType \<Rightarrow> bytes \<Rightarrow> bytes" where
  "fieldPrefix kt redisKey = keyTypeChar kt # appendEscaped redisKey"

definition fieldKey :: "KeyType \<Rightarrow> bytes \<Rightarrow> bytes \<Rightarrow> bytes" where
  "fieldKey kt redisKey field = fieldPrefix kt redisKey @ field"

definition fieldLocatorPrefix :: "KeyType \<Rightarrow> bytes \<Rightarrow> bytes option" where
  "fieldLocatorPrefix kt redisKey = do {
     assert_that (kt = kHash \<or> kt = kSet \<or> kt = kDeque \<or> kt = kVersionedHash);
     Some (fieldPrefix kt redisKey) }"

definition fieldLocator :: "KeyType \<Rightarrow> bytes \<Rightarrow> bytes \<Rightarrow> bytes option" where
  "fieldLocator kt redisKey field = do {
     pre \<leftarrow> fieldLocatorPrefix kt redisKey;
     Some (pre @ field) }"

definition localityFieldPrefix :: "bytes \<Rightarrow> bytes" where
  "localityFieldPrefix redisKey = fieldPrefix kLocalityHash redisKey @ [kData]"

definition localityFieldKey :: "bytes \<Rightarrow> bytes \<Rightarrow> bytes \<Rightarrow> bytes" where
  "localityFieldKey redisKey hint field = localityFieldPrefix redisKey @ appendEscaped hint @ field"

definition localityFieldLocator :: "bytes \<Rightarrow> bytes \<Rightarrow> bytes \<Rightarrow> bytes option" where
  "localityFieldLocator redisKey hint field = do {
     assert_that (redisKey \<noteq> []);
     assert_that (hint \<noteq> []);
     Some (localityFieldKey redisKey hint field) }"

definition localityIndexPrefix :: "bytes \<Rightarrow> bytes" where
  "localityIndexPrefix redisKey = fieldPrefix kLocalityHash redisKey @ [kIndex]"

definition localityIndexKey :: "bytes \<Rightarrow> bytes \<Rightarrow> bytes" where
  "localityIndexKey redisKey field = localityIndexPrefix redisKey @ field"

definition localityIndexLocator :: "bytes \<Rightarrow> bytes \<Rightarrow> bytes option" where
  "localityIndexLocator redisKey field = do {
     assert_that (redisKey \<noteq> []);
     assert_that (field \<noteq> []);
     Some (localityIndexKey redisKey field) }"

definition leaseLocator :: "bytes \<Rightarrow> bytes" where
  "leaseLocator redisKey = keyTypeChar kLease # redisKey"

definition expirationEventLocator :: "u64 \<Rightarrow> bytes \<Rightarrow> bytes" where
  "expirationEventLocator deadline redisKey =
     kExpirationEvent # unsignedIntToBinaryString deadline @ redisKey"

definition configurationLocator :: "bytes \<Rightarrow> bytes" where
  "configurationLocator key = kConfiguration # key"

definition kStateMachine_Format :: bytes where "kStateMachine_Format = ''__format''"
definition kStateMachine_LastApplied :: bytes where "kStateMachine_LastApplied = ''__last-applied''"
definition kStateMachine_InBulkload :: bytes where "kStateMachine_InBulkload = ''__in-bulkload''"
definition kStateMachine_Clock :: bytes where "kStateMachine_Clock = ''__clock''"

lemmas locator_defs = descriptorLocator_def stringLocator_def fieldKey_def fieldPrefix_def
  localityFieldKey_def localityFieldPrefix_def localityIndexKey_def localityIndexPrefix_def
  leaseLocator_def expirationEventLocator_def configurationLocator_def
  kInternal_def kConfiguration_def kDescriptor_def kExpirationEvent_def kData_def kIndex_def
  kStateMachine_Format_def kStateMachine_LastApplied_def kStateMachine_InBulkload_def
  kStateMachine_Clock_def

subsection \<open>When the escaping can be undone\<close>

text \<open>
  Only \<open>#\<close> is escaped, not the escape character itself: a key that ends in \<open>|\<close> cannot be told
  from one that ends in \<open>#\<close>.  Every other key can.
\<close>

definition okKey :: "bytes \<Rightarrow> bool" where
  "okKey k \<longleftrightarrow> (k = [] \<or> last k \<noteq> CHR ''|'')"

lemma okKey_Nil [simp]: "okKey []"
  by (simp add: okKey_def)

lemma okKey_Cons: "okKey (c # k) \<longleftrightarrow> (if k = [] then c \<noteq> CHR ''|'' else okKey k)"
  by (simp add: okKey_def)

lemma escapeHash_starts_hash: "escapeHash k @ ''##'' @ f = CHR ''#'' # xs \<Longrightarrow> k = []"
  by (cases k) (auto split: if_splits)

lemma appendEscaped_Cons:
  "appendEscaped (c # k) @ f =
     (if c = CHR ''#'' then CHR ''|'' # CHR ''#'' # appendEscaped k @ f else c # appendEscaped k @ f)"
  by (simp add: appendEscaped_def)

lemma appendEscaped_starts_hash: "appendEscaped k @ f = CHR ''#'' # xs \<Longrightarrow> k = []"
  using escapeHash_starts_hash [of k f xs] by (simp add: appendEscaped_def)

lemma appendEscaped_heads_differ:
  assumes "appendEscaped (c # k) @ f = appendEscaped (d # k') @ f'" "c \<noteq> d"
  shows "c = CHR ''|'' \<and> k = [] \<or> d = CHR ''|'' \<and> k' = []"
proof (cases "c = CHR ''#''")
  case True
  with assms have "d = CHR ''|''" "appendEscaped k' @ f' = CHR ''#'' # appendEscaped k @ f"
    by (auto simp: appendEscaped_Cons)
  then show ?thesis using appendEscaped_starts_hash by blast
next
  case False
  with assms have "c = CHR ''|''" "appendEscaped k @ f = CHR ''#'' # appendEscaped k' @ f'"
    by (auto simp: appendEscaped_Cons split: if_splits)
  then show ?thesis using appendEscaped_starts_hash by blast
qed

lemma appendEscaped_eq:
  assumes "okKey k" "okKey k'"
  shows "appendEscaped k @ f = appendEscaped k' @ f' \<longleftrightarrow> k = k' \<and> f = f'"
proof
  assume "appendEscaped k @ f = appendEscaped k' @ f'"
  then show "k = k' \<and> f = f'"
    using assms
  proof (induction k arbitrary: k')
    case Nil
    then show ?case
      by (cases k') (auto simp: appendEscaped_def split: if_splits)
  next
    case (Cons c k)
    show ?case
    proof (cases k')
      case Nil
      with Cons.prems show ?thesis by (auto simp: appendEscaped_def split: if_splits)
    next
      case (Cons d ds)
      have tails: "okKey k" "okKey ds"
        using Cons.prems Cons by (auto simp: okKey_Cons split: if_splits)
      have "c = d"
        using appendEscaped_heads_differ [of c k f d ds f'] Cons.prems Cons
        by (cases "c = d") (auto simp: okKey_Cons)
      with Cons Cons.prems(1) have "appendEscaped k @ f = appendEscaped ds @ f'"
        by (auto simp: appendEscaped_Cons split: if_splits)
      with Cons.IH tails Cons \<open>c = d\<close> show ?thesis by simp
    qed
  qed
qed simp

text \<open>The collision, for every key.\<close>

lemma appendEscaped_collision:
  "appendEscaped (k @ ''|'') @ CHR ''#'' # f = appendEscaped (k @ ''#'') @ f"
proof -
  have "escapeHash (k @ xs) = escapeHash k @ escapeHash xs" for xs
    by (induction k) auto
  then show ?thesis by (simp add: appendEscaped_def)
qed

subsection \<open>Equations between storage keys\<close>

lemma fieldKey_eq [keysimps]:
  "okKey k \<Longrightarrow> okKey k' \<Longrightarrow>
   fieldKey kt k f = fieldKey kt' k' f' \<longleftrightarrow> kt = kt' \<and> k = k' \<and> f = f'"
  by (auto simp: fieldKey_def fieldPrefix_def appendEscaped_eq)

lemma localityFieldKey_eq [keysimps]:
  "okKey k \<Longrightarrow> okKey k' \<Longrightarrow> okKey h \<Longrightarrow> okKey h' \<Longrightarrow>
   localityFieldKey k h f = localityFieldKey k' h' f' \<longleftrightarrow> k = k' \<and> h = h' \<and> f = f'"
  using appendEscaped_eq [of k k' "kData # appendEscaped h @ f" "kData # appendEscaped h' @ f'"]
  by (auto simp: localityFieldKey_def localityFieldPrefix_def fieldPrefix_def appendEscaped_eq)

lemma localityIndexKey_eq [keysimps]:
  "okKey k \<Longrightarrow> okKey k' \<Longrightarrow>
   localityIndexKey k f = localityIndexKey k' f' \<longleftrightarrow> k = k' \<and> f = f'"
  using appendEscaped_eq [of k k' "kIndex # f" "kIndex # f'"]
  by (auto simp: localityIndexKey_def localityIndexPrefix_def fieldPrefix_def)

lemma locality_data_index_neq [keysimps]:
  assumes "okKey k" "okKey k'"
  shows "localityFieldKey k h f \<noteq> localityIndexKey k' f'"
    and "localityIndexKey k' f' \<noteq> localityFieldKey k h f"
  using appendEscaped_eq [of k k' "kData # appendEscaped h @ f" "kIndex # f'"] assms
  by (auto simp: localityFieldKey_def localityIndexKey_def localityFieldPrefix_def
      localityIndexPrefix_def fieldPrefix_def kData_def kIndex_def)

lemma singleton_locators_eq [keysimps]:
  "descriptorLocator k = descriptorLocator k' \<longleftrightarrow> k = k'"
  "stringLocator k = stringLocator k' \<longleftrightarrow> k = k'"
  "leaseLocator k = leaseLocator k' \<longleftrightarrow> k = k'"
  "configurationLocator k = configurationLocator k' \<longleftrightarrow> k = k'"
  "expirationEventLocator d k = expirationEventLocator d' k' \<longleftrightarrow> d = d' \<and> k = k'"
  by (auto simp: locator_defs)

text \<open>Entries of different kinds start with different bytes.\<close>

lemma locator_hd [simp]:
  "hd (descriptorLocator k) = CHR ''!''"
  "hd (stringLocator k) = CHR ''a''"
  "hd (fieldKey kt k f) = keyTypeChar kt"
  "hd (fieldPrefix kt k) = keyTypeChar kt"
  "hd (localityFieldKey k h f) = CHR ''e''"
  "hd (localityIndexKey k f) = CHR ''e''"
  "hd (leaseLocator k) = CHR ''f''"
  "hd (expirationEventLocator d k) = CHR ''@''"
  "hd (configurationLocator k) = CHR ''~''"
  "hd kStateMachine_Format = CHR ''_''"
  "hd kStateMachine_LastApplied = CHR ''_''"
  "hd kStateMachine_InBulkload = CHR ''_''"
  "hd kStateMachine_Clock = CHR ''_''"
  by (simp_all add: locator_defs)

lemma neq_by_hd: "hd x \<noteq> hd y \<Longrightarrow> x \<noteq> y"
  by auto

lemma keyTypeChar_not_internal [simp]:
  "keyTypeChar kt \<noteq> CHR ''!''" "keyTypeChar kt \<noteq> CHR ''@''" "keyTypeChar kt \<noteq> CHR ''~''"
  "keyTypeChar kt \<noteq> CHR ''_''" "CHR ''!'' \<noteq> keyTypeChar kt" "CHR ''@'' \<noteq> keyTypeChar kt"
  "CHR ''~'' \<noteq> keyTypeChar kt" "CHR ''_'' \<noteq> keyTypeChar kt"
  by (cases kt; simp)+

lemma descriptor_neq [simp]:
  "descriptorLocator k \<noteq> stringLocator k'" "stringLocator k' \<noteq> descriptorLocator k"
  "descriptorLocator k \<noteq> fieldKey kt k' f" "fieldKey kt k' f \<noteq> descriptorLocator k"
  "descriptorLocator k \<noteq> localityFieldKey k' h f" "localityFieldKey k' h f \<noteq> descriptorLocator k"
  "descriptorLocator k \<noteq> localityIndexKey k' f" "localityIndexKey k' f \<noteq> descriptorLocator k"
  "descriptorLocator k \<noteq> leaseLocator k'" "leaseLocator k' \<noteq> descriptorLocator k"
  "descriptorLocator k \<noteq> expirationEventLocator d k'" "expirationEventLocator d k' \<noteq> descriptorLocator k"
  "descriptorLocator k \<noteq> configurationLocator k'" "configurationLocator k' \<noteq> descriptorLocator k"
  by (rule neq_by_hd, simp)+

lemma expiration_neq [simp]:
  "expirationEventLocator d k \<noteq> stringLocator k'" "stringLocator k' \<noteq> expirationEventLocator d k"
  "expirationEventLocator d k \<noteq> fieldKey kt k' f" "fieldKey kt k' f \<noteq> expirationEventLocator d k"
  "expirationEventLocator d k \<noteq> localityFieldKey k' h f" "localityFieldKey k' h f \<noteq> expirationEventLocator d k"
  "expirationEventLocator d k \<noteq> localityIndexKey k' f" "localityIndexKey k' f \<noteq> expirationEventLocator d k"
  "expirationEventLocator d k \<noteq> leaseLocator k'" "leaseLocator k' \<noteq> expirationEventLocator d k"
  "expirationEventLocator d k \<noteq> configurationLocator k'" "configurationLocator k' \<noteq> expirationEventLocator d k"
  by (rule neq_by_hd, simp)+

lemma clock_neq [simp]:
  "kStateMachine_Clock \<noteq> descriptorLocator k" "descriptorLocator k \<noteq> kStateMachine_Clock"
  "kStateMachine_Clock \<noteq> stringLocator k" "stringLocator k \<noteq> kStateMachine_Clock"
  "kStateMachine_Clock \<noteq> fieldKey kt k f" "fieldKey kt k f \<noteq> kStateMachine_Clock"
  "kStateMachine_Clock \<noteq> localityFieldKey k h f" "localityFieldKey k h f \<noteq> kStateMachine_Clock"
  "kStateMachine_Clock \<noteq> localityIndexKey k f" "localityIndexKey k f \<noteq> kStateMachine_Clock"
  "kStateMachine_Clock \<noteq> leaseLocator k" "leaseLocator k \<noteq> kStateMachine_Clock"
  "kStateMachine_Clock \<noteq> expirationEventLocator d k" "expirationEventLocator d k \<noteq> kStateMachine_Clock"
  by (rule neq_by_hd, simp)+

lemma field_other_neq:
  "kt \<noteq> kString \<Longrightarrow> fieldKey kt k f \<noteq> stringLocator k'"
  "kt \<noteq> kString \<Longrightarrow> stringLocator k' \<noteq> fieldKey kt k f"
  "kt \<noteq> kLease \<Longrightarrow> fieldKey kt k f \<noteq> leaseLocator k'"
  "kt \<noteq> kLease \<Longrightarrow> leaseLocator k' \<noteq> fieldKey kt k f"
  "kt \<noteq> kLocalityHash \<Longrightarrow> fieldKey kt k f \<noteq> localityFieldKey k' h f'"
  "kt \<noteq> kLocalityHash \<Longrightarrow> localityFieldKey k' h f' \<noteq> fieldKey kt k f"
  "kt \<noteq> kLocalityHash \<Longrightarrow> fieldKey kt k f \<noteq> localityIndexKey k' f'"
  "kt \<noteq> kLocalityHash \<Longrightarrow> localityIndexKey k' f' \<noteq> fieldKey kt k f"
  by (rule neq_by_hd, cases kt, simp_all)+

lemma string_lease_locality_neq [simp]:
  "stringLocator k \<noteq> leaseLocator k'" "leaseLocator k' \<noteq> stringLocator k"
  "stringLocator k \<noteq> localityFieldKey k' h f" "localityFieldKey k' h f \<noteq> stringLocator k"
  "stringLocator k \<noteq> localityIndexKey k' f" "localityIndexKey k' f \<noteq> stringLocator k"
  "leaseLocator k \<noteq> localityFieldKey k' h f" "localityFieldKey k' h f \<noteq> leaseLocator k"
  "leaseLocator k \<noteq> localityIndexKey k' f" "localityIndexKey k' f \<noteq> leaseLocator k"
  by (rule neq_by_hd, simp)+

lemma prefix_fieldPrefix_iff: "prefix (fieldPrefix kt k) x \<longleftrightarrow> (\<exists>f. x = fieldKey kt k f)"
  by (auto simp: prefix_def fieldKey_def)

lemma fieldKey_same_eq [simp]: "fieldKey kt k f = fieldKey kt k f' \<longleftrightarrow> f = f'"
  by (simp add: fieldKey_def)

lemma drop_fieldPrefix [simp]: "drop (length (fieldPrefix kt k)) (fieldKey kt k f) = f"
  by (simp add: fieldKey_def)

end
