(* ===== verification/RocksStore.thy ===== *)
theory RocksStore
  imports KeyLocators
begin

text \<open>
  The storage engine and \<^verbatim>\<open>src/src/storage/StagingArea.hh\<close>.

  RocksDB is not part of the repository: the operations the code calls are the fields of a
  record \<open>rocksdb\<close> over an unknown database type and an unknown write batch type, and the
  behaviour its documentation promises is the predicate \<open>rocksdb_laws\<close>.  Every definition that
  reaches the engine takes the record as its first argument \<open>api\<close>.

  \<open>StagingArea\<close> is one transaction over the state machine: reads see the batch over the
  database, writes go to the batch, \<open>commit\<close> applies it.  A read-only area reads the snapshot
  taken when it was made; an area in bulk-load mode reads nothing.
\<close>

subsection \<open>The engine\<close>

datatype get_status = GetOk bytes | GetNotFound | GetError

text \<open>The options of a write the code sets; the others keep their defaults.\<close>

record write_options =
  opt_sync :: bool
  opt_disableWAL :: bool

record ('db, 'wb) rocksdb =
  db_get :: "'db \<Rightarrow> bytes \<Rightarrow> get_status"
  db_put :: "'db \<Rightarrow> bytes \<Rightarrow> bytes \<Rightarrow> bool \<times> 'db"
  db_delete :: "'db \<Rightarrow> bytes \<Rightarrow> bool \<times> 'db"
  db_write :: "write_options \<Rightarrow> 'db \<Rightarrow> 'wb \<Rightarrow> bool \<times> 'db"
  db_recover :: "'db \<Rightarrow> 'db"
  db_iter :: "'db \<Rightarrow> bytes \<Rightarrow> (bytes \<times> bytes) list"
  wb_empty :: 'wb
  wb_put :: "'wb \<Rightarrow> bytes \<Rightarrow> bytes \<Rightarrow> bool \<times> 'wb"
  wb_delete :: "'wb \<Rightarrow> bytes \<Rightarrow> bool \<times> 'wb"
  wb_single_delete :: "'wb \<Rightarrow> bytes \<Rightarrow> bool \<times> 'wb"
  wb_get :: "'wb \<Rightarrow> bytes \<Rightarrow> get_status"
  wb_get_db :: "'db \<Rightarrow> 'wb \<Rightarrow> bytes \<Rightarrow> get_status"
  wb_iter :: "'db \<Rightarrow> 'wb \<Rightarrow> bytes \<Rightarrow> (bytes \<times> bytes) list"

definition found :: "get_status \<Rightarrow> bytes option" where
  "found s = (case s of GetOk v \<Rightarrow> Some v | _ \<Rightarrow> None)"

definition status_of :: "bytes option \<Rightarrow> get_status" where
  "status_of v = (case v of Some x \<Rightarrow> GetOk x | None \<Rightarrow> GetNotFound)"

lemma found_status_of [simp]: "found (status_of v) = v"
  by (simp add: found_def status_of_def split: option.splits)

lemma status_of_simps [simp]:
  "status_of None = GetNotFound" "status_of (Some x) = GetOk x"
  "status_of v = GetNotFound \<longleftrightarrow> v = None" "status_of v = GetOk x \<longleftrightarrow> v = Some x"
  "status_of v \<noteq> GetError"
  by (auto simp: status_of_def split: option.splits)

text \<open>
  An iteration positioned with \<open>Seek(p)\<close> yields the entries whose keys are at least \<open>p\<close>, in the
  order of the comparator, each once.
\<close>

definition iterates :: "(bytes \<times> bytes) list \<Rightarrow> bytes \<Rightarrow> (bytes \<Rightarrow> bytes option) \<Rightarrow> bool" where
  "iterates es p m \<longleftrightarrow>
     sorted_wrt (<) (map fst es) \<and> (\<forall>k v. (k, v) \<in> set es \<longleftrightarrow> p \<le> k \<and> m k = Some v)"

text \<open>
  What the documentation of the engine promises, for a database that reports no I/O error:
  reads return what was written last, a batch over a database reads like the database after the
  batch is written, iteration is ordered.  \<open>SingleDelete\<close> removes a key that was put once.
\<close>

definition accessLaws :: "('db, 'wb) rocksdb \<Rightarrow> bool" where
  "accessLaws api \<longleftrightarrow>
     (\<forall>d k. db_get api d k \<noteq> GetError)
   \<and> (\<forall>d w k. wb_get_db api d w k \<noteq> GetError)
   \<and> (\<forall>w k. wb_get api w k \<noteq> GetError)
   \<and> (\<forall>d k v. fst (db_put api d k v)
        \<and> (\<forall>x. db_get api (snd (db_put api d k v)) x = (if x = k then GetOk v else db_get api d x)))
   \<and> (\<forall>opts d w. fst (db_write api opts d w)
        \<and> (\<forall>x. db_get api (snd (db_write api opts d w)) x = wb_get_db api d w x))
   \<and> (\<forall>d x. wb_get_db api d (wb_empty api) x = db_get api d x)
   \<and> (\<forall>x. wb_get api (wb_empty api) x = GetNotFound)
   \<and> (\<forall>w k v. fst (wb_put api w k v)
        \<and> (\<forall>x. wb_get api (snd (wb_put api w k v)) x = (if x = k then GetOk v else wb_get api w x))
        \<and> (\<forall>d x. wb_get_db api d (snd (wb_put api w k v)) x
                = (if x = k then GetOk v else wb_get_db api d w x)))
   \<and> (\<forall>w k. fst (wb_delete api w k)
        \<and> (\<forall>x. wb_get api (snd (wb_delete api w k)) x
                = (if x = k then GetNotFound else wb_get api w x))
        \<and> (\<forall>d x. wb_get_db api d (snd (wb_delete api w k)) x
                = (if x = k then GetNotFound else wb_get_db api d w x)))
   \<and> (\<forall>w k. fst (wb_single_delete api w k)
        \<and> (\<forall>x. wb_get api (snd (wb_single_delete api w k)) x
                = (if x = k then GetNotFound else wb_get api w x))
        \<and> (\<forall>d x. wb_get_db api d (snd (wb_single_delete api w k)) x
                = (if x = k then GetNotFound else wb_get_db api d w x)))
   \<and> (\<forall>d p. iterates (db_iter api d p) p (\<lambda>k. found (db_get api d k)))
   \<and> (\<forall>d w p. iterates (wb_iter api d w p) p (\<lambda>k. found (wb_get_db api d w k)))
   \<and> (\<forall>d k. fst (db_delete api d k)
        \<and> (\<forall>x. db_get api (snd (db_delete api d k)) x
                = (if x = k then GetNotFound else db_get api d x)))"

text \<open>
  \<open>db_recover\<close> is what is found when the database is opened again after the process died.  A write
  that goes through the write-ahead log, as every write does by default, is found there over what was
  safe before it.  Nothing is promised for a write that disables the log.
\<close>

definition crashLaws :: "('db, 'wb) rocksdb \<Rightarrow> bool" where
  "crashLaws api \<longleftrightarrow>
     (\<forall>d k v x. db_get api (db_recover api (snd (db_put api d k v))) x
        = (if x = k then GetOk v else db_get api (db_recover api d) x))
   \<and> (\<forall>d k x. db_get api (db_recover api (snd (db_delete api d k))) x
        = (if x = k then GetNotFound else db_get api (db_recover api d) x))
   \<and> (\<forall>opts d w x. \<not> opt_disableWAL opts \<longrightarrow>
        db_get api (db_recover api (snd (db_write api opts d w))) x = wb_get_db api (db_recover api d) w x)
   \<and> (\<forall>d d' w x. db_get api d x = db_get api d' x \<longrightarrow> wb_get_db api d w x = wb_get_db api d' w x)"

definition rocksdb_laws :: "('db, 'wb) rocksdb \<Rightarrow> bool" where
  "rocksdb_laws api \<longleftrightarrow> accessLaws api \<and> crashLaws api"

lemma rocksdb_lawsD:
  assumes "rocksdb_laws api"
  shows "db_get api d k = status_of (found (db_get api d k))"
    and "wb_get_db api d w k = status_of (found (wb_get_db api d w k))"
    and "wb_get api w k = status_of (found (wb_get api w k))"
    and "fst (db_put api d k v)"
    and "db_get api (snd (db_put api d k v)) x = (if x = k then GetOk v else db_get api d x)"
    and "fst (db_write api opts d w)"
    and "db_get api (snd (db_write api opts d w)) x = wb_get_db api d w x"
    and "wb_get_db api d (wb_empty api) x = db_get api d x"
    and "wb_get api (wb_empty api) x = GetNotFound"
    and "fst (wb_put api w k v)"
    and "wb_get api (snd (wb_put api w k v)) x = (if x = k then GetOk v else wb_get api w x)"
    and "wb_get_db api d (snd (wb_put api w k v)) x = (if x = k then GetOk v else wb_get_db api d w x)"
    and "fst (wb_delete api w k)"
    and "wb_get api (snd (wb_delete api w k)) x = (if x = k then GetNotFound else wb_get api w x)"
    and "wb_get_db api d (snd (wb_delete api w k)) x
           = (if x = k then GetNotFound else wb_get_db api d w x)"
    and "fst (wb_single_delete api w k)"
    and "wb_get api (snd (wb_single_delete api w k)) x
           = (if x = k then GetNotFound else wb_get api w x)"
    and "wb_get_db api d (snd (wb_single_delete api w k)) x
           = (if x = k then GetNotFound else wb_get_db api d w x)"
    and "iterates (db_iter api d p) p (\<lambda>k. found (db_get api d k))"
    and "iterates (wb_iter api d w p) p (\<lambda>k. found (wb_get_db api d w k))"
    and "fst (db_delete api d k)"
    and "db_get api (snd (db_delete api d k)) x = (if x = k then GetNotFound else db_get api d x)"
  using assms unfolding rocksdb_laws_def accessLaws_def
  by (auto simp: found_def status_of_def split: get_status.splits)

lemma rocksdb_crashD:
  assumes "rocksdb_laws api"
  shows "db_get api (db_recover api (snd (db_put api d k v))) x = (if x = k then GetOk v else db_get api (db_recover api d) x)"
    and "db_get api (db_recover api (snd (db_delete api d k))) x = (if x = k then GetNotFound else db_get api (db_recover api d) x)"
    and "\<not> opt_disableWAL opts \<Longrightarrow>
      db_get api (db_recover api (snd (db_write api opts d w))) x = wb_get_db api (db_recover api d) w x"
    and "db_get api d x = db_get api d' x \<Longrightarrow> wb_get_db api d w x = wb_get_db api d' w x"
  using assms unfolding rocksdb_laws_def crashLaws_def by (blast, blast, blast, blast)

end
