(* ===== verification/ExpirationCache.thy ===== *)
theory ExpirationCache
  imports QPrelude
begin

text \<open>
  \<^verbatim>\<open>src/src/storage/ExpirationEventCache.cc\<close>: the in-memory copy of the pending lease
  expirations.  The \<open>std::multimap\<close> is the list of its entries in iteration order (a new entry
  goes after those with an equal key), the \<open>std::set\<close> a set.
\<close>

record expiration_cache =
  mContents :: "(u64 \<times> bytes) list"
  mStoredLeases :: "bytes set"

definition emptyCache :: expiration_cache where
  "emptyCache = \<lparr>mContents = [], mStoredLeases = {}\<rparr>"

fun multimap_emplace :: "u64 \<Rightarrow> bytes \<Rightarrow> (u64 \<times> bytes) list \<Rightarrow> (u64 \<times> bytes) list" where
  "multimap_emplace cl x [] = [(cl, x)]"
| "multimap_emplace cl x (e # es) =
     (if cl < fst e then (cl, x) # e # es else e # multimap_emplace cl x es)"

definition cacheInsert :: "u64 \<Rightarrow> bytes \<Rightarrow> expiration_cache \<Rightarrow> expiration_cache option" where
  "cacheInsert cl leaseName c = do {
     assert_that (leaseName \<notin> mStoredLeases c);
     Some (c\<lparr>mContents := multimap_emplace cl leaseName (mContents c),
            mStoredLeases := insert leaseName (mStoredLeases c)\<rparr>) }"

definition cacheEmpty :: "expiration_cache \<Rightarrow> bool" where
  "cacheEmpty c \<longleftrightarrow> mContents c = []"

definition getFrontDeadline :: "expiration_cache \<Rightarrow> u64" where
  "getFrontDeadline c = fst (hd (mContents c))"

definition getFrontLease :: "expiration_cache \<Rightarrow> bytes" where
  "getFrontLease c = snd (hd (mContents c))"

definition cachePopFront :: "expiration_cache \<Rightarrow> expiration_cache option" where
  "cachePopFront c = do {
     assert_that (mContents c \<noteq> []);
     assert_that (getFrontLease c \<in> mStoredLeases c);
     Some (c\<lparr>mContents := tl (mContents c), mStoredLeases := mStoredLeases c - {getFrontLease c}\<rparr>) }"

text \<open>The walk over the entries equal to \<open>cl\<close>, from the first one.\<close>

fun removeRun :: "u64 \<Rightarrow> bytes \<Rightarrow> (u64 \<times> bytes) list \<Rightarrow> (u64 \<times> bytes) list option" where
  "removeRun cl leaseName [] = None"
| "removeRun cl leaseName (e # es) =
     (if fst e \<noteq> cl then None
      else if snd e = leaseName then Some es
      else map_option (Cons e) (removeRun cl leaseName es))"

definition cacheRemove :: "u64 \<Rightarrow> bytes \<Rightarrow> expiration_cache \<Rightarrow> expiration_cache option" where
  "cacheRemove cl leaseName c = do {
     rest \<leftarrow> removeRun cl leaseName (dropWhile (\<lambda>e. fst e \<noteq> cl) (mContents c));
     assert_that (leaseName \<in> mStoredLeases c);
     Some (c\<lparr>mContents := takeWhile (\<lambda>e. fst e \<noteq> cl) (mContents c) @ rest,
            mStoredLeases := mStoredLeases c - {leaseName}\<rparr>) }"

definition cacheSize :: "expiration_cache \<Rightarrow> nat" where
  "cacheSize c = length (mContents c)"

definition cacheClear :: "expiration_cache \<Rightarrow> expiration_cache" where
  "cacheClear c = c\<lparr>mStoredLeases := {}, mContents := []\<rparr>"

subsection \<open>Invariant\<close>

definition cacheInv :: "expiration_cache \<Rightarrow> bool" where
  "cacheInv c \<longleftrightarrow> sorted (map fst (mContents c)) \<and> distinct (map snd (mContents c))
                 \<and> mStoredLeases c = set (map snd (mContents c))"

lemma emptyCache_inv [simp]: "cacheInv emptyCache"
  by (simp add: cacheInv_def emptyCache_def)

lemma cacheClear_inv [simp]: "cacheInv (cacheClear c)"
  by (simp add: cacheInv_def cacheClear_def)

lemma set_multimap_emplace [simp]: "set (multimap_emplace cl x es) = insert (cl, x) (set es)"
  by (induction es) auto

lemma sorted_multimap_emplace:
  "sorted (map fst es) \<Longrightarrow> sorted (map fst (multimap_emplace cl x es))"
  by (induction es) (auto simp: not_less)

lemma distinct_multimap_emplace:
  "distinct (map snd es) \<Longrightarrow> x \<notin> snd ` set es \<Longrightarrow> distinct (map snd (multimap_emplace cl x es))"
  by (induction es) auto

lemma cacheInsert_ok:
  assumes "cacheInv c" "x \<notin> snd ` set (mContents c)"
  shows "\<exists>c'. cacheInsert cl x c = Some c' \<and> cacheInv c'
    \<and> set (mContents c') = insert (cl, x) (set (mContents c))"
  using assms
  by (auto simp: cacheInsert_def cacheInv_def sorted_multimap_emplace distinct_multimap_emplace)

lemma removeRun_append:
  "removeRun cl x (dropWhile (\<lambda>e. fst e \<noteq> cl) es) = Some rest \<Longrightarrow>
   \<exists>as bs. es = as @ (cl, x) # bs \<and> takeWhile (\<lambda>e. fst e \<noteq> cl) es @ rest = as @ bs"
proof (induction es arbitrary: rest)
  case Nil
  then show ?case by simp
next
  case (Cons e es)
  show ?case
  proof (cases "fst e = cl")
    case False
    with Cons obtain as bs
      where "es = as @ (cl, x) # bs" "takeWhile (\<lambda>e. fst e \<noteq> cl) es @ rest = as @ bs"
      by auto
    with False show ?thesis by (intro exI [of _ "e # as"] exI [of _ bs]) simp
  next
    case True
    have "\<exists>as bs. es' = as @ (cl, x) # bs \<and> rest' = as @ bs"
      if "removeRun cl x es' = Some rest'" for es' rest'
      using that
    proof (induction es' arbitrary: rest')
      case (Cons e' es')
      show ?case
      proof (cases "e' = (cl, x)")
        case True
        with Cons.prems show ?thesis by (intro exI [of _ "[]"] exI [of _ es']) simp
      next
        case False
        with Cons.prems obtain r where "removeRun cl x es' = Some r" "rest' = e' # r"
          by (cases e') (auto split: if_splits)
        moreover from Cons.IH [OF this(1)] obtain as bs
          where "es' = as @ (cl, x) # bs" "r = as @ bs" by blast
        ultimately show ?thesis by (intro exI [of _ "e' # as"] exI [of _ bs]) simp
      qed
    qed simp
    with Cons.prems True show ?thesis by simp
  qed
qed

lemma removeRun_exists:
  assumes "sorted (map fst es)" "(cl, x) \<in> set es"
  shows "\<exists>rest. removeRun cl x (dropWhile (\<lambda>e. fst e \<noteq> cl) es) = Some rest"
  using assms
proof (induction es)
  case Nil
  then show ?case by simp
next
  case (Cons e es)
  show ?case
  proof (cases "fst e = cl \<and> snd e \<noteq> x")
    case True
    with Cons.prems have mem: "(cl, x) \<in> set es" by (cases e) auto
    have "dropWhile (\<lambda>e. fst e \<noteq> cl) es = es"
    proof (cases es)
      case (Cons e' es')
      with Cons.prems True mem have "fst e \<le> fst e'" "fst e' \<le> cl" by auto
      with Cons True show ?thesis by simp
    qed simp
    with Cons mem True show ?thesis by auto
  next
    case False
    with Cons show ?thesis by (cases e) auto
  qed
qed

lemma cacheRemove_ok:
  assumes "cacheInv c" "(cl, x) \<in> set (mContents c)"
  shows "\<exists>c'. cacheRemove cl x c = Some c' \<and> cacheInv c'
    \<and> set (mContents c') = set (mContents c) - {(cl, x)}
    \<and> length (mContents c) = Suc (length (mContents c'))"
proof -
  obtain rest where r: "removeRun cl x (dropWhile (\<lambda>e. fst e \<noteq> cl) (mContents c)) = Some rest"
    using removeRun_exists [of "mContents c" cl x] assms by (auto simp: cacheInv_def)
  from removeRun_append [OF r] obtain as bs where ab: "mContents c = as @ (cl, x) # bs"
      "takeWhile (\<lambda>e. fst e \<noteq> cl) (mContents c) @ rest = as @ bs"
    by blast
  with assms have "sorted (map fst (as @ bs))" "distinct (map snd (as @ bs))"
      "snd ` set (as @ bs) = mStoredLeases c - {x}" "set (as @ bs) = set (mContents c) - {(cl, x)}"
    by (auto simp: cacheInv_def sorted_append image_iff)
  with ab r assms show ?thesis
    by (auto simp: cacheRemove_def cacheInv_def)
qed

lemma getFront_minimal:
  "cacheInv c \<Longrightarrow> (cl, x) \<in> set (mContents c) \<Longrightarrow> getFrontDeadline c \<le> cl"
  by (cases "mContents c") (auto simp: cacheInv_def getFrontDeadline_def)

lemma getFront_in:
  "\<not> cacheEmpty c \<Longrightarrow> (getFrontDeadline c, getFrontLease c) \<in> set (mContents c)"
  by (cases "mContents c") (auto simp: getFrontDeadline_def getFrontLease_def cacheEmpty_def)

end
