(* ===== verification/Timekeepers.thy ===== *)
theory Timekeepers
  imports QPrelude
begin

text \<open>
  \<^verbatim>\<open>src/src/Timekeeper.cc\<close>: the dynamic clock of a leader, the static clock plus the time since it
  was set.  The argument \<open>now\<close> of the operations is the reading of the steady clock, in
  milliseconds.
\<close>

record timekeeper =
  staticClock :: u64
  anchorPoint :: nat

definition newTimekeeper :: "nat \<Rightarrow> u64 \<Rightarrow> timekeeper" where
  "newTimekeeper now startup = \<lparr>staticClock = startup, anchorPoint = now\<rparr>"

definition tk_reset :: "nat \<Rightarrow> u64 \<Rightarrow> timekeeper \<Rightarrow> timekeeper" where
  "tk_reset now startup tk = tk\<lparr>staticClock := startup, anchorPoint := now\<rparr>"

definition tk_synchronize :: "nat \<Rightarrow> u64 \<Rightarrow> timekeeper \<Rightarrow> timekeeper option" where
  "tk_synchronize now newval tk = do {
     assert_that (staticClock tk \<le> newval);
     Some (tk\<lparr>anchorPoint := now, staticClock := newval\<rparr>) }"

definition getTimeSinceAnchor :: "nat \<Rightarrow> timekeeper \<Rightarrow> nat" where
  "getTimeSinceAnchor now tk = now - anchorPoint tk"

definition getDynamicTime :: "nat \<Rightarrow> timekeeper \<Rightarrow> u64" where
  "getDynamicTime now tk = staticClock tk + word_of_nat (getTimeSinceAnchor now tk)"

text \<open>
  While nothing overflows, the dynamic clock is never behind the static one and follows the steady
  clock; a synchronization restarts it at the new value.
\<close>

lemma unat_getDynamicTime:
  assumes "unat (staticClock tk) + (now - anchorPoint tk) < 2 ^ 64"
  shows "unat (getDynamicTime now tk) = unat (staticClock tk) + (now - anchorPoint tk)"
  using assms by (simp add: getDynamicTime_def getTimeSinceAnchor_def unat_word_ariths take_bit_eq_mod
      unat_of_nat mod_add_right_eq)

lemma getDynamicTime_mono:
  assumes "now \<le> later" "unat (staticClock tk) + (later - anchorPoint tk) < 2 ^ 64"
  shows "getDynamicTime now tk \<le> getDynamicTime later tk"
  using assms unat_getDynamicTime [of tk later] unat_getDynamicTime [of tk now]
  by (simp add: word_le_nat_alt)

lemma tk_synchronize_ok:
  "staticClock tk \<le> c \<Longrightarrow> \<exists>tk'. tk_synchronize now c tk = Some tk' \<and> getDynamicTime now tk' = c"
  by (simp add: tk_synchronize_def getDynamicTime_def getTimeSinceAnchor_def)

end
