(* ===== verification/StagingAreas.thy ===== *)
theory StagingAreas
  imports RocksStore ExpirationCache Timekeepers
begin

text \<open>
  \<^verbatim>\<open>src/src/storage/StagingArea.hh\<close> over the state of \<^verbatim>\<open>src/src/StateMachine.hh\<close>, and the
  interface the state machine's operations use of it: the locale \<open>kv_staging\<close>, interpreted on
  the staging area.  The view of an area is what a client can read through it.
\<close>

subsection \<open>State\<close>

text \<open>
  The snapshot is a pointer: \<open>None\<close> is the null pointer, which the constructor leaves in an area
  that is not read-only.  A \<open>Get\<close> through a null snapshot is \<open>GetError\<close> (\<open>snapshotGet\<close>).
\<close>

text \<open>\<open>VersionedHashRevision\<close> and \<open>VersionedHashRevisionTracker\<close>.\<close>

record vhash_revision =
  currentRevision :: u64
  updateBatch :: "(bytes \<times> bytes) list"

definition emptyRevision :: vhash_revision where
  "emptyRevision = \<lparr>currentRevision = 0, updateBatch = []\<rparr>"

definition setRevisionNumber :: "u64 \<Rightarrow> vhash_revision \<Rightarrow> vhash_revision option" where
  "setRevisionNumber rv r =
     (if currentRevision r \<noteq> 0 then do { assert_that (currentRevision r = rv); Some r }
      else Some (r\<lparr>currentRevision := rv\<rparr>))"

definition addUpdate :: "bytes \<Rightarrow> bytes \<Rightarrow> vhash_revision \<Rightarrow> vhash_revision" where
  "addUpdate field val r = r\<lparr>updateBatch := updateBatch r @ [(field, val)]\<rparr>"

definition forKey :: "(bytes \<rightharpoonup> vhash_revision) \<Rightarrow> bytes \<Rightarrow> vhash_revision" where
  "forKey t key = (case t key of Some r \<Rightarrow> r | None \<Rightarrow> emptyRevision)"

record 'db state_machine =
  sm_db :: 'db
  sm_bulkLoad :: bool
  sm_writeAheadLog :: bool
  lastApplied :: int
  mExpirationCache :: expiration_cache
  timeKeeper :: timekeeper

record ('db, 'wb) staging =
  stateMachine :: "'db state_machine"
  bulkLoad :: bool
  readOnly :: bool
  snapshot :: "'db option"
  writeBatch :: 'wb
  writeBatchWithIndex :: 'wb
  revisionTracker :: "bytes \<rightharpoonup> vhash_revision"

definition newStagingArea ::
  "('db, 'wb) rocksdb \<Rightarrow> 'db state_machine \<Rightarrow> bool \<Rightarrow> ('db, 'wb) staging" where
  "newStagingArea api sm onlyreads =
     \<lparr>stateMachine = sm, bulkLoad = sm_bulkLoad sm, readOnly = onlyreads,
      snapshot = (if onlyreads then Some (sm_db sm) else None),
      writeBatch = wb_empty api, writeBatchWithIndex = wb_empty api, revisionTracker = Map.empty\<rparr>"

subsection \<open>Operations\<close>

definition snapshotGet ::
  "('db, 'wb) rocksdb \<Rightarrow> ('db, 'wb) staging \<Rightarrow> bytes \<Rightarrow> get_status" where
  "snapshotGet api st key =
     (case snapshot st of Some db \<Rightarrow> db_get api db key | None \<Rightarrow> GetError)"

definition readFromWriteBatch ::
  "('db, 'wb) rocksdb \<Rightarrow> ('db, 'wb) staging \<Rightarrow> bytes \<Rightarrow> get_status option" where
  "readFromWriteBatch api st key =
     (if readOnly st then None
      else if bulkLoad st then Some GetNotFound
      else Some (wb_get api (writeBatchWithIndex st) key))"

definition getForUpdate ::
  "('db, 'wb) rocksdb \<Rightarrow> ('db, 'wb) staging \<Rightarrow> bytes \<Rightarrow> get_status option" where
  "getForUpdate api st key =
     (if readOnly st then None
      else if bulkLoad st then Some GetNotFound
      else Some (wb_get_db api (sm_db (stateMachine st)) (writeBatchWithIndex st) key))"

definition sa_exists :: "('db, 'wb) rocksdb \<Rightarrow> ('db, 'wb) staging \<Rightarrow> bytes \<Rightarrow> get_status" where
  "sa_exists api st key =
     (if bulkLoad st then GetNotFound
      else if readOnly st then snapshotGet api st key
      else wb_get_db api (sm_db (stateMachine st)) (writeBatchWithIndex st) key)"

definition sa_get :: "('db, 'wb) rocksdb \<Rightarrow> ('db, 'wb) staging \<Rightarrow> bytes \<Rightarrow> get_status" where
  "sa_get api st key =
     (if bulkLoad st then GetNotFound
      else if readOnly st then snapshotGet api st key
      else wb_get_db api (sm_db (stateMachine st)) (writeBatchWithIndex st) key)"

definition sa_put ::
  "('db, 'wb) rocksdb \<Rightarrow> ('db, 'wb) staging \<Rightarrow> bytes \<Rightarrow> bytes \<Rightarrow> ('db, 'wb) staging option" where
  "sa_put api st key val =
     (if readOnly st then None
      else if bulkLoad st then
        (if key = [] then None
         else if key ! 0 = kDescriptor then Some st
         else Some (st\<lparr>writeBatch := snd (wb_put api (writeBatch st) key val)\<rparr>))
      else do {
        assert_that (fst (wb_put api (writeBatchWithIndex st) key val));
        Some (st\<lparr>writeBatchWithIndex := snd (wb_put api (writeBatchWithIndex st) key val)\<rparr>) })"

definition sa_del ::
  "('db, 'wb) rocksdb \<Rightarrow> ('db, 'wb) staging \<Rightarrow> bytes \<Rightarrow> ('db, 'wb) staging option" where
  "sa_del api st key =
     (if readOnly st then None
      else if bulkLoad st then None
      else do {
        assert_that (fst (wb_delete api (writeBatchWithIndex st) key));
        Some (st\<lparr>writeBatchWithIndex := snd (wb_delete api (writeBatchWithIndex st) key)\<rparr>) })"

definition sa_singleDelete ::
  "('db, 'wb) rocksdb \<Rightarrow> ('db, 'wb) staging \<Rightarrow> bytes \<Rightarrow> ('db, 'wb) staging option" where
  "sa_singleDelete api st key =
     (if readOnly st then None
      else if bulkLoad st then None
      else do {
        assert_that (fst (wb_single_delete api (writeBatchWithIndex st) key));
        Some (st\<lparr>writeBatchWithIndex := snd (wb_single_delete api (writeBatchWithIndex st) key)\<rparr>) })"

text \<open>\<open>getIterator()\<close> followed by \<open>Seek(seek)\<close>: the entries the iteration yields.\<close>

definition sa_iter ::
  "('db, 'wb) rocksdb \<Rightarrow> ('db, 'wb) staging \<Rightarrow> bytes \<Rightarrow> (bytes \<times> bytes) list" where
  "sa_iter api st seek =
     (if readOnly st then (case snapshot st of Some db \<Rightarrow> db_iter api db seek | None \<Rightarrow> [])
      else if bulkLoad st then []
      else wb_iter api (sm_db (stateMachine st)) (writeBatchWithIndex st) seek)"

text \<open>\<open>StateMachine::commitTransaction\<close> and \<open>StateMachine::commitBatch\<close>, then \<open>commit\<close>.\<close>

definition commitTransaction ::
  "('db, 'wb) rocksdb \<Rightarrow> 'db state_machine \<Rightarrow> 'wb \<Rightarrow> int \<Rightarrow> 'db state_machine option" where
  "commitTransaction api sm wb index = do {
     assert_that (\<not> (index \<le> 0 \<and> lastApplied sm > 0));
     wb' \<leftarrow> (if index > 0 then do {
                assert_that (index = lastApplied sm + 1);
                assert_that (fst (wb_put api wb kStateMachine_LastApplied (intToBinaryString index)));
                Some (snd (wb_put api wb kStateMachine_LastApplied (intToBinaryString index)))
              } else Some wb);
     let (ok, db') = db_write api \<lparr>opt_sync = False, opt_disableWAL = (\<not> sm_writeAheadLog sm)\<rparr> (sm_db sm) wb';
     assert_that ok;
     Some (sm\<lparr>sm_db := db', lastApplied := (if index > 0 then index else lastApplied sm)\<rparr>)
   }"

definition commitBatch ::
  "('db, 'wb) rocksdb \<Rightarrow> 'db state_machine \<Rightarrow> 'wb \<Rightarrow> 'db state_machine option" where
  "commitBatch api sm wb = do {
     let (ok, db') = db_write api \<lparr>opt_sync = False, opt_disableWAL = (\<not> sm_writeAheadLog sm)\<rparr> (sm_db sm) wb;
     assert_that ok;
     Some (sm\<lparr>sm_db := db'\<rparr>)
   }"

definition sa_commit ::
  "('db, 'wb) rocksdb \<Rightarrow> ('db, 'wb) staging \<Rightarrow> int \<Rightarrow> 'db state_machine option" where
  "sa_commit api st index =
     (if readOnly st then None
      else if bulkLoad st then do {
        assert_that (index = 0);
        commitBatch api (stateMachine st) (writeBatch st) }
      else commitTransaction api (stateMachine st) (writeBatchWithIndex st) index)"

subsection \<open>The contents a client reads\<close>

definition sa_view :: "('db, 'wb) rocksdb \<Rightarrow> ('db, 'wb) staging \<Rightarrow> bytes \<Rightarrow> bytes option" where
  "sa_view api st k = found (sa_get api st k)"

definition db_view :: "('db, 'wb) rocksdb \<Rightarrow> 'db state_machine \<Rightarrow> bytes \<Rightarrow> bytes option" where
  "db_view api sm k = found (db_get api (sm_db sm) k)"

text \<open>An area that can be read, and one that can be read and written.\<close>

definition sa_readable :: "('db, 'wb) rocksdb \<Rightarrow> ('db, 'wb) staging \<Rightarrow> bool" where
  "sa_readable api st \<longleftrightarrow>
     rocksdb_laws api \<and> \<not> bulkLoad st \<and> (readOnly st \<longrightarrow> snapshot st \<noteq> None)"

definition sa_ok :: "('db, 'wb) rocksdb \<Rightarrow> ('db, 'wb) staging \<Rightarrow> bool" where
  "sa_ok api st \<longleftrightarrow> rocksdb_laws api \<and> \<not> bulkLoad st \<and> \<not> readOnly st"

text \<open>The states after a successful write.\<close>

definition put_st ::
  "('db, 'wb) rocksdb \<Rightarrow> ('db, 'wb) staging \<Rightarrow> bytes \<Rightarrow> bytes \<Rightarrow> ('db, 'wb) staging" where
  "put_st api st k v = st\<lparr>writeBatchWithIndex := snd (wb_put api (writeBatchWithIndex st) k v)\<rparr>"

definition del_st ::
  "('db, 'wb) rocksdb \<Rightarrow> ('db, 'wb) staging \<Rightarrow> bytes \<Rightarrow> ('db, 'wb) staging" where
  "del_st api st k = st\<lparr>writeBatchWithIndex := snd (wb_delete api (writeBatchWithIndex st) k)\<rparr>"

definition single_del_st ::
  "('db, 'wb) rocksdb \<Rightarrow> ('db, 'wb) staging \<Rightarrow> bytes \<Rightarrow> ('db, 'wb) staging" where
  "single_del_st api st k =
     st\<lparr>writeBatchWithIndex := snd (wb_single_delete api (writeBatchWithIndex st) k)\<rparr>"

lemma sa_ok_readable [simp, intro]: "sa_ok api st \<Longrightarrow> sa_readable api st"
  by (simp add: sa_ok_def sa_readable_def)

subsection \<open>The interface of the operations\<close>

text \<open>
  Reading: \<open>get\<close> returns the view, an iteration yields it in order.  Clients that scan a prefix
  (the collection commands of the state machine) see every entry with that prefix and no other.
\<close>

locale kv_staging =
  fixes invar :: "'s \<Rightarrow> bool"
    and view :: "'s \<Rightarrow> bytes \<Rightarrow> bytes option"
    and get :: "'s \<Rightarrow> bytes \<Rightarrow> get_status"
    and iter :: "'s \<Rightarrow> bytes \<Rightarrow> (bytes \<times> bytes) list"
  assumes get_view: "invar s \<Longrightarrow> get s k = status_of (view s k)"
    and iter_view: "invar s \<Longrightarrow> iterates (iter s p) p (view s)"
begin

definition scan :: "'s \<Rightarrow> bytes \<Rightarrow> (bytes \<times> bytes) list" where
  "scan s p = takeWhile (\<lambda>e. prefix p (fst e)) (iter s p)"

lemma iter_sorted: "invar s \<Longrightarrow> sorted (map fst (iter s p)) \<and> distinct (map fst (iter s p))"
  using iter_view [of s p] by (simp add: iterates_def strict_sorted_iff)

lemma scan_filter:
  assumes "invar s"
  shows "scan s p = filter (\<lambda>e. prefix p (fst e)) (iter s p)"
  unfolding scan_def
  using iter_view [OF assms, of p] iter_sorted [OF assms, of p]
  by (intro takeWhile_prefix_filter) (auto simp: iterates_def)

lemma set_scan:
  assumes "invar s"
  shows "set (scan s p) = {(k, v). prefix p k \<and> view s k = Some v}"
  using iter_view [OF assms, of p] prefix_le
  by (fastforce simp: scan_filter [OF assms] iterates_def)

lemma distinct_scan: "invar s \<Longrightarrow> distinct (map fst (scan s p))"
  by (simp add: scan_filter iter_sorted distinct_map_filter)

lemma sorted_scan: "invar s \<Longrightarrow> sorted (map fst (scan s p))"
  using iter_sorted [of s p] by (simp add: scan_filter sorted_filter)

lemma length_scan:
  assumes "invar s"
  shows "length (scan s p) = card {k \<in> dom (view s). prefix p k}"
proof -
  have "fst ` set (scan s p) = {k \<in> dom (view s). prefix p k}"
    by (auto simp: set_scan [OF assms] image_iff)
  then show ?thesis
    using distinct_card [OF distinct_scan [OF assms, of p]] by simp
qed

lemma finite_prefix: "invar s \<Longrightarrow> finite {k \<in> dom (view s). prefix p k}"
proof -
  assume inv: "invar s"
  have "{k \<in> dom (view s). prefix p k} = fst ` set (scan s p)"
    by (auto simp: set_scan [OF inv] image_iff)
  then show ?thesis by simp
qed

end

text \<open>Writing: \<open>put\<close> and the two deletions succeed and update the view at one key.\<close>

locale kv_writable = kv_staging invar view get iter
  for invar :: "'s \<Rightarrow> bool"
    and view :: "'s \<Rightarrow> bytes \<Rightarrow> bytes option"
    and get :: "'s \<Rightarrow> bytes \<Rightarrow> get_status"
    and iter :: "'s \<Rightarrow> bytes \<Rightarrow> (bytes \<times> bytes) list" +
  fixes put :: "'s \<Rightarrow> bytes \<Rightarrow> bytes \<Rightarrow> 's option"
    and del :: "'s \<Rightarrow> bytes \<Rightarrow> 's option"
    and put_to :: "'s \<Rightarrow> bytes \<Rightarrow> bytes \<Rightarrow> 's"
    and del_to :: "'s \<Rightarrow> bytes \<Rightarrow> 's"
  assumes put_Some: "invar s \<Longrightarrow> put s k v = Some (put_to s k v)"
    and put_invar: "invar s \<Longrightarrow> invar (put_to s k v)"
    and put_view: "invar s \<Longrightarrow> view (put_to s k v) = (view s)(k \<mapsto> v)"
    and del_Some: "invar s \<Longrightarrow> del s k = Some (del_to s k)"
    and del_invar: "invar s \<Longrightarrow> invar (del_to s k)"
    and del_view: "invar s \<Longrightarrow> view (del_to s k) = (view s)(k := None)"
begin

lemmas writes = put_Some put_invar put_view del_Some del_invar del_view

text \<open>Deleting a list of keys one after the other.\<close>

fun del_all :: "'s \<Rightarrow> bytes list \<Rightarrow> 's" where
  "del_all s [] = s"
| "del_all s (k # ks) = del_all (del_to s k) ks"

lemma del_all_invar: "invar s \<Longrightarrow> invar (del_all s ks)"
  by (induction ks arbitrary: s) (auto simp: writes)

lemma del_all_view: "invar s \<Longrightarrow> view (del_all s ks) = view s |` (- set ks)"
  by (induction ks arbitrary: s) (auto simp: writes restrict_map_def fun_eq_iff)

end

lemma sa_laws: "sa_ok api st \<Longrightarrow> rocksdb_laws api"
  by (simp add: sa_ok_def)

interpretation sar: kv_staging "sa_readable api" "sa_view api" "sa_get api" "sa_iter api" for api
proof
  fix s :: "('a, 'b) staging" and k p :: bytes
  assume r: "sa_readable api s"
  then have laws: "rocksdb_laws api" by (simp add: sa_readable_def)
  show "sa_get api s k = status_of (sa_view api s k)"
    using rocksdb_lawsD(1,2) [OF laws] r
    by (auto simp: sa_view_def sa_get_def sa_readable_def snapshotGet_def)
  show "iterates (sa_iter api s p) p (sa_view api s)"
    using rocksdb_lawsD(19,20) [OF laws] r
    by (auto simp: sa_view_def [abs_def] sa_get_def sa_iter_def sa_readable_def snapshotGet_def)
qed

interpretation saw: kv_writable "sa_ok api" "sa_view api" "sa_get api" "sa_iter api"
  "sa_put api" "sa_del api" "put_st api" "del_st api" for api
proof (unfold_locales, goal_cases)
  case (1 s k)
  then show ?case by (simp add: sar.get_view)
next
  case (2 s p)
  then show ?case by (simp add: sar.iter_view)
next
  case (3 s k v)
  then show ?case
    using rocksdb_lawsD(10) [OF sa_laws [OF 3]] by (simp add: sa_put_def put_st_def sa_ok_def)
next
  case (4 s k v)
  then show ?case by (simp add: put_st_def sa_ok_def)
next
  case (5 s k v)
  then show ?case
    using rocksdb_lawsD(12) [OF sa_laws [OF 5]]
    by (auto simp: sa_view_def sa_get_def put_st_def sa_ok_def found_def)
next
  case (6 s k)
  then show ?case
    using rocksdb_lawsD(13) [OF sa_laws [OF 6]] by (simp add: sa_del_def del_st_def sa_ok_def)
next
  case (7 s k)
  then show ?case by (simp add: del_st_def sa_ok_def)
next
  case (8 s k)
  then show ?case
    using rocksdb_lawsD(15) [OF sa_laws [OF 8]]
    by (auto simp: sa_view_def sa_get_def del_st_def sa_ok_def found_def)
qed

text \<open>The same deletions through \<open>SingleDelete\<close>.\<close>

interpretation sas: kv_writable "sa_ok api" "sa_view api" "sa_get api" "sa_iter api"
  "sa_put api" "sa_singleDelete api" "put_st api" "single_del_st api" for api
proof (unfold_locales, goal_cases)
  case (4 s k)
  then show ?case
    using rocksdb_lawsD(16) [OF sa_laws [OF 4]]
    by (simp add: sa_singleDelete_def single_del_st_def sa_ok_def)
next
  case (5 s k)
  then show ?case by (simp add: single_del_st_def sa_ok_def)
next
  case (6 s k)
  then show ?case
    using rocksdb_lawsD(18) [OF sa_laws [OF 6]]
    by (auto simp: sa_view_def sa_get_def single_del_st_def sa_ok_def found_def)
qed (simp_all add: saw.writes)

lemmas [simp] = saw.writes sas.del_Some sas.del_invar sas.del_view sar.get_view

end
