(* ===== verification/WriteOperations.thy ===== *)
theory WriteOperations
  imports StagingAreas
begin

text \<open>
  The part of \<^verbatim>\<open>src/src/StateMachine.cc\<close> every operation goes through: key descriptors read
  from a staging area, type checks, and the class \<open>StateMachine::WriteOperation\<close>.  A write
  operation is a record; its methods take the staging area they write to.  The destructor
  terminates the process when the operation was not finalized, so it may be \<open>None\<close> too.
\<close>

datatype status = OK | NotFound | InvalidArgument bytes | IOError

definition wrong_type :: status where
  "wrong_type = InvalidArgument ''WRONGTYPE Operation against a key holding the wrong kind of value''"

definition malformed :: "bytes \<Rightarrow> status" where
  "malformed message = InvalidArgument message"

definition read_status :: "get_status \<Rightarrow> status \<times> bytes" where
  "read_status g = (case g of GetOk v \<Rightarrow> (OK, v) | GetNotFound \<Rightarrow> (NotFound, []) | GetError \<Rightarrow> (IOError, []))"

text \<open>\<open>ASSERT_OK_OR_NOTFOUND(st)\<close> followed by \<open>st.ok()\<close>, and \<open>THROW_ON_ERROR\<close>.\<close>

definition ok_or_notfound :: "get_status \<Rightarrow> bool option" where
  "ok_or_notfound g = (case g of GetOk v \<Rightarrow> Some True | GetNotFound \<Rightarrow> Some False | GetError \<Rightarrow> None)"

definition throw_on_error :: "get_status \<Rightarrow> bytes option" where
  "throw_on_error g = (case g of GetOk v \<Rightarrow> Some v | _ \<Rightarrow> None)"

lemma read_simps [simp]:
  "ok_or_notfound (status_of v) = Some (v \<noteq> None)"
  "throw_on_error (status_of v) = v"
  "read_status (status_of v) = (case v of Some x \<Rightarrow> (OK, x) | None \<Rightarrow> (NotFound, []))"
  by (auto simp: ok_or_notfound_def throw_on_error_def read_status_def status_of_def
      split: option.splits)

lemma status_simps [simp]:
  "ok_or_notfound (GetOk x) = Some True" "ok_or_notfound GetNotFound = Some False"
  "throw_on_error (GetOk x) = Some x" "throw_on_error GetNotFound = None"
  "read_status (GetOk x) = (OK, x)" "read_status GetNotFound = (NotFound, [])"
  by (simp_all add: ok_or_notfound_def throw_on_error_def read_status_def)

subsection \<open>Key descriptors\<close>

definition constructDescriptor :: "get_status \<Rightarrow> key_descriptor option" where
  "constructDescriptor g =
     (case g of GetNotFound \<Rightarrow> Some emptyDescriptor
      | GetError \<Rightarrow> None
      | GetOk serialization \<Rightarrow> parseDescriptor serialization)"

definition getKeyDescriptor ::
  "('db, 'wb) rocksdb \<Rightarrow> ('db, 'wb) staging \<Rightarrow> bytes \<Rightarrow> key_descriptor option" where
  "getKeyDescriptor api st redisKey = constructDescriptor (sa_get api st (descriptorLocator redisKey))"

definition lockKeyDescriptor ::
  "('db, 'wb) rocksdb \<Rightarrow> ('db, 'wb) staging \<Rightarrow> bytes \<Rightarrow> key_descriptor option" where
  "lockKeyDescriptor api st dlocator = do {
     g \<leftarrow> getForUpdate api st dlocator;
     constructDescriptor g }"

definition assertKeyType ::
  "('db, 'wb) rocksdb \<Rightarrow> ('db, 'wb) staging \<Rightarrow> bytes \<Rightarrow> KeyType \<Rightarrow> bool option" where
  "assertKeyType api st key kt = do {
     keyinfo \<leftarrow> getKeyDescriptor api st key;
     Some (\<not> (\<not> descriptorEmpty keyinfo \<and> keyType keyinfo \<noteq> kt)) }"

definition isWrongType :: "key_descriptor \<Rightarrow> KeyType \<Rightarrow> bool" where
  "isWrongType d kt \<longleftrightarrow> \<not> descriptorEmpty d \<and> keyType d \<noteq> kt"

subsection \<open>WriteOperation\<close>

record write_operation =
  redisKey :: bytes
  expectedType :: KeyType
  keyinfo :: key_descriptor
  redisKeyExists :: bool
  isValid :: bool
  finalized :: bool

definition newWriteOperation ::
  "('db, 'wb) rocksdb \<Rightarrow> ('db, 'wb) staging \<Rightarrow> bytes \<Rightarrow> KeyType \<Rightarrow> write_operation option" where
  "newWriteOperation api st key kt = do {
     g \<leftarrow> getForUpdate api st (descriptorLocator key);
     info \<leftarrow> constructDescriptor g;
     let valid = (descriptorEmpty info \<or> keyType info = kt);
     info' \<leftarrow> (if descriptorEmpty info \<and> valid then
                 (if kt = kVersionedHash then setStartIndex 0 (info\<lparr>keyType := kt\<rparr>)
                  else Some (info\<lparr>keyType := kt\<rparr>))
               else Some info);
     Some \<lparr>redisKey = key, expectedType = kt, keyinfo = info',
           redisKeyExists = (\<not> descriptorEmpty info), isValid = valid, finalized = (\<not> valid)\<rparr>
   }"

definition wo_destroy :: "write_operation \<Rightarrow> unit option" where
  "wo_destroy op = assert_that (finalized op)"

definition assertWritable :: "write_operation \<Rightarrow> unit option" where
  "assertWritable op = do { assert_that (isValid op); assert_that (\<not> finalized op) }"

definition descriptorModifiedAlreadyInWriteBatch ::
  "('db, 'wb) rocksdb \<Rightarrow> ('db, 'wb) staging \<Rightarrow> write_operation \<Rightarrow> bool option" where
  "descriptorModifiedAlreadyInWriteBatch api st op = do {
     g \<leftarrow> readFromWriteBatch api st (descriptorLocator (redisKey op));
     ok_or_notfound g }"

definition wo_getField ::
  "('db, 'wb) rocksdb \<Rightarrow> ('db, 'wb) staging \<Rightarrow> write_operation \<Rightarrow> bytes \<Rightarrow> (bool \<times> bytes) option" where
  "wo_getField api st op field = do {
     assertWritable op;
     loc \<leftarrow> fieldLocator (keyType (keyinfo op)) (redisKey op) field;
     ok \<leftarrow> ok_or_notfound (sa_get api st loc);
     Some (ok, snd (read_status (sa_get api st loc))) }"

definition wo_getLocalityIndex ::
  "('db, 'wb) rocksdb \<Rightarrow> ('db, 'wb) staging \<Rightarrow> write_operation \<Rightarrow> bytes \<Rightarrow> (bool \<times> bytes) option" where
  "wo_getLocalityIndex api st op field = do {
     assertWritable op;
     assert_that (keyType (keyinfo op) = kLocalityHash);
     loc \<leftarrow> localityIndexLocator (redisKey op) field;
     ok \<leftarrow> ok_or_notfound (sa_get api st loc);
     Some (ok, snd (read_status (sa_get api st loc))) }"

definition wo_getAndDeleteLocalityIndex ::
  "('db, 'wb) rocksdb \<Rightarrow> ('db, 'wb) staging \<Rightarrow> write_operation \<Rightarrow> bytes
    \<Rightarrow> (bool \<times> bytes \<times> ('db, 'wb) staging) option" where
  "wo_getAndDeleteLocalityIndex api st op field = do {
     assertWritable op;
     assert_that (keyType (keyinfo op) = kLocalityHash);
     loc \<leftarrow> localityIndexLocator (redisKey op) field;
     ok \<leftarrow> ok_or_notfound (sa_get api st loc);
     st' \<leftarrow> (if ok then sa_del api st loc else Some st);
     Some (ok, snd (read_status (sa_get api st loc)), st') }"

definition wo_keySize :: "write_operation \<Rightarrow> int option" where
  "wo_keySize op = getSize (keyinfo op)"

definition wo_write ::
  "('db, 'wb) rocksdb \<Rightarrow> ('db, 'wb) staging \<Rightarrow> write_operation \<Rightarrow> bytes \<Rightarrow> ('db, 'wb) staging option" where
  "wo_write api st op val = do {
     assertWritable op;
     if keyType (keyinfo op) = kString then sa_put api st (stringLocator (redisKey op)) val
     else if keyType (keyinfo op) = kLease then sa_put api st (leaseLocator (redisKey op)) val
     else None }"

definition wo_writeField ::
  "('db, 'wb) rocksdb \<Rightarrow> ('db, 'wb) staging \<Rightarrow> write_operation \<Rightarrow> bytes \<Rightarrow> bytes
    \<Rightarrow> ('db, 'wb) staging option" where
  "wo_writeField api st op field val = do {
     assertWritable op;
     assert_that (\<not> (keyType (keyinfo op) \<noteq> kHash \<and> keyType (keyinfo op) \<noteq> kSet
                     \<and> keyType (keyinfo op) \<noteq> kDeque \<and> keyType (keyinfo op) \<noteq> kVersionedHash));
     loc \<leftarrow> fieldLocator (keyType (keyinfo op)) (redisKey op) field;
     sa_put api st loc val }"

definition wo_writeLocalityField ::
  "('db, 'wb) rocksdb \<Rightarrow> ('db, 'wb) staging \<Rightarrow> write_operation \<Rightarrow> bytes \<Rightarrow> bytes \<Rightarrow> bytes
    \<Rightarrow> ('db, 'wb) staging option" where
  "wo_writeLocalityField api st op hint field val = do {
     assertWritable op;
     assert_that (keyType (keyinfo op) = kLocalityHash);
     loc \<leftarrow> localityFieldLocator (redisKey op) hint field;
     sa_put api st loc val }"

definition wo_writeLocalityIndex ::
  "('db, 'wb) rocksdb \<Rightarrow> ('db, 'wb) staging \<Rightarrow> write_operation \<Rightarrow> bytes \<Rightarrow> bytes
    \<Rightarrow> ('db, 'wb) staging option" where
  "wo_writeLocalityIndex api st op field hint = do {
     assertWritable op;
     assert_that (keyType (keyinfo op) = kLocalityHash);
     loc \<leftarrow> localityIndexLocator (redisKey op) field;
     sa_put api st loc hint }"

definition wo_cancel :: "write_operation \<Rightarrow> write_operation" where
  "wo_cancel op = op\<lparr>finalized := True\<rparr>"

definition wo_finalize ::
  "('db, 'wb) rocksdb \<Rightarrow> ('db, 'wb) staging \<Rightarrow> write_operation \<Rightarrow> int \<Rightarrow> bool
    \<Rightarrow> (write_operation \<times> ('db, 'wb) staging) option" where
  "wo_finalize api st op newsize forceUpdate = do {
     assertWritable op;
     assert_that (\<not> newsize < 0);
     if newsize = 0 \<and> keyType (keyinfo op) \<noteq> kVersionedHash then do {
       st' \<leftarrow> sa_del api st (descriptorLocator (redisKey op));
       Some (op\<lparr>finalized := True\<rparr>, st') }
     else do {
       cur \<leftarrow> getSize (keyinfo op);
       if cur \<noteq> newsize \<or> forceUpdate then do {
         info \<leftarrow> setSize newsize (keyinfo op);
         ser \<leftarrow> serializeDescriptor info;
         st' \<leftarrow> sa_put api st (descriptorLocator (redisKey op)) ser;
         Some (op\<lparr>keyinfo := info, finalized := True\<rparr>, st') }
       else Some (op\<lparr>finalized := True\<rparr>, st) } }"

definition wo_fieldExists ::
  "('db, 'wb) rocksdb \<Rightarrow> ('db, 'wb) staging \<Rightarrow> write_operation \<Rightarrow> bytes \<Rightarrow> bool option" where
  "wo_fieldExists api st op field = do {
     assertWritable op;
     loc \<leftarrow> fieldLocator (keyType (keyinfo op)) (redisKey op) field;
     ok_or_notfound (sa_exists api st loc) }"

definition wo_localityFieldExists ::
  "('db, 'wb) rocksdb \<Rightarrow> ('db, 'wb) staging \<Rightarrow> write_operation \<Rightarrow> bytes \<Rightarrow> bytes \<Rightarrow> bool option" where
  "wo_localityFieldExists api st op hint field = do {
     assertWritable op;
     assert_that (keyType (keyinfo op) = kLocalityHash);
     loc \<leftarrow> localityFieldLocator (redisKey op) hint field;
     ok_or_notfound (sa_exists api st loc) }"

definition wo_deleteField ::
  "('db, 'wb) rocksdb \<Rightarrow> ('db, 'wb) staging \<Rightarrow> write_operation \<Rightarrow> bytes
    \<Rightarrow> (bool \<times> ('db, 'wb) staging) option" where
  "wo_deleteField api st op field = do {
     assertWritable op;
     loc \<leftarrow> fieldLocator (keyType (keyinfo op)) (redisKey op) field;
     ok \<leftarrow> ok_or_notfound (sa_get api st loc);
     st' \<leftarrow> (if ok then sa_del api st loc else Some st);
     Some (ok, st') }"

definition wo_deleteLocalityField ::
  "('db, 'wb) rocksdb \<Rightarrow> ('db, 'wb) staging \<Rightarrow> write_operation \<Rightarrow> bytes \<Rightarrow> bytes
    \<Rightarrow> (bool \<times> ('db, 'wb) staging) option" where
  "wo_deleteLocalityField api st op hint field = do {
     assertWritable op;
     assert_that (keyType (keyinfo op) = kLocalityHash);
     loc \<leftarrow> localityFieldLocator (redisKey op) hint field;
     ok \<leftarrow> ok_or_notfound (sa_get api st loc);
     st' \<leftarrow> (if ok then sa_del api st loc else Some st);
     Some (ok, st') }"

subsection \<open>What they do to the view\<close>

text \<open>The descriptor of a key as a function of the view: \<open>None\<close> when the stored one is corrupt.\<close>

definition descOf :: "(bytes \<Rightarrow> bytes option) \<Rightarrow> bytes \<Rightarrow> key_descriptor option" where
  "descOf v k = constructDescriptor (status_of (v (descriptorLocator k)))"

definition freshDescriptor :: "KeyType \<Rightarrow> key_descriptor" where
  "freshDescriptor kt =
     emptyDescriptor\<lparr>keyType := kt,
       startIndex := (if kt = kVersionedHash then 0 else kIndexInitialValue)\<rparr>"

definition openOp :: "bytes \<Rightarrow> KeyType \<Rightarrow> key_descriptor \<Rightarrow> write_operation" where
  "openOp k kt d =
     \<lparr>redisKey = k, expectedType = kt,
      keyinfo = (if descriptorEmpty d then freshDescriptor kt else d),
      redisKeyExists = (\<not> descriptorEmpty d), isValid = (descriptorEmpty d \<or> keyType d = kt),
      finalized = (\<not> (descriptorEmpty d \<or> keyType d = kt))\<rparr>"

definition fieldType :: "KeyType \<Rightarrow> bool" where
  "fieldType kt \<longleftrightarrow> kt = kHash \<or> kt = kSet \<or> kt = kDeque \<or> kt = kVersionedHash"

definition writable :: "write_operation \<Rightarrow> bool" where
  "writable op \<longleftrightarrow> isValid op \<and> \<not> finalized op"

lemma fieldType_simps [simp]:
  "fieldType kHash" "fieldType kSet" "fieldType kDeque" "fieldType kVersionedHash"
  by (simp_all add: fieldType_def)

lemma descOf_upd_other [simp]:
  "x \<noteq> descriptorLocator k \<Longrightarrow> descOf (v(x := y)) k = descOf v k"
  by (simp add: descOf_def)

lemma descOf_cong: "v (descriptorLocator k) = v' (descriptorLocator k) \<Longrightarrow> descOf v k = descOf v' k"
  by (simp add: descOf_def)

lemma descOf_deleted [simp]: "descOf (v(descriptorLocator k := None)) k = Some emptyDescriptor"
  by (simp add: descOf_def constructDescriptor_def)

lemma descOf_written:
  "wfDescriptor d \<Longrightarrow> serializeDescriptor d = Some s \<Longrightarrow>
   descOf (v(descriptorLocator k \<mapsto> s)) k = Some d"
  by (simp add: descOf_def constructDescriptor_def)

lemma descriptorEmpty_empty [simp]: "descriptorEmpty emptyDescriptor"
  by (simp add: descriptorEmpty_def emptyDescriptor_def)

lemma wf_not_empty [simp]: "wfDescriptor d \<Longrightarrow> \<not> descriptorEmpty d"
  by (simp add: wfDescriptor_def descriptorEmpty_def)

lemma getForUpdate_ok [simp]: "sa_ok api st \<Longrightarrow> getForUpdate api st k = Some (status_of (sa_view api st k))"
  using rocksdb_lawsD(2) [OF sa_laws, of api st]
  by (simp add: getForUpdate_def sa_view_def sa_get_def sa_ok_def)

lemma sa_exists_ok [simp]: "sa_readable api st \<Longrightarrow> sa_exists api st k = status_of (sa_view api st k)"
  using sar.get_view [of api st k] by (simp add: sa_exists_def sa_get_def)

lemma getKeyDescriptor_view [simp]:
  "sa_readable api st \<Longrightarrow> getKeyDescriptor api st k = descOf (sa_view api st) k"
  by (simp add: getKeyDescriptor_def descOf_def)

lemma lockKeyDescriptor_view [simp]:
  "sa_ok api st \<Longrightarrow> lockKeyDescriptor api st (descriptorLocator k) = descOf (sa_view api st) k"
  by (simp add: lockKeyDescriptor_def descOf_def)

lemma assertKeyType_view [simp]:
  "sa_readable api st \<Longrightarrow> descOf (sa_view api st) k = Some d \<Longrightarrow>
   assertKeyType api st k kt = Some (\<not> isWrongType d kt)"
  by (simp add: assertKeyType_def isWrongType_def)

lemma descOf_empty_eq: "descOf v k = Some d \<Longrightarrow> descriptorEmpty d \<Longrightarrow> d = emptyDescriptor"
  by (auto simp: descOf_def constructDescriptor_def descriptorEmpty_def parseDescriptor_def
      emptyDescriptor_def Let_def parseKeyType_def Option.bind_eq_Some_conv
      split: get_status.splits if_splits)

lemma newWriteOperation_view [simp]:
  assumes "sa_ok api st" "descOf (sa_view api st) k = Some d"
  shows "newWriteOperation api st k kt = Some (openOp k kt d)"
proof (cases "descriptorEmpty d")
  case True
  with assms descOf_empty_eq have "d = emptyDescriptor" by blast
  with assms show ?thesis
    by (simp add: newWriteOperation_def openOp_def descOf_def setStartIndex_def freshDescriptor_def
        emptyDescriptor_def descriptorEmpty_def)
next
  case False
  with assms show ?thesis
    by (simp add: newWriteOperation_def openOp_def descOf_def)
qed

lemma openOp_sel [simp]:
  "redisKey (openOp k kt d) = k"
  "isValid (openOp k kt d) \<longleftrightarrow> descriptorEmpty d \<or> keyType d = kt"
  "finalized (openOp k kt d) \<longleftrightarrow> \<not> (descriptorEmpty d \<or> keyType d = kt)"
  "redisKeyExists (openOp k kt d) \<longleftrightarrow> \<not> descriptorEmpty d"
  "writable (openOp k kt d) \<longleftrightarrow> descriptorEmpty d \<or> keyType d = kt"
  "keyinfo (openOp k kt d) = (if descriptorEmpty d then freshDescriptor kt else d)"
  by (auto simp: openOp_def writable_def)

lemma freshDescriptor_sel [simp]:
  "keyType (freshDescriptor kt) = kt" "sz (freshDescriptor kt) = 0"
  "endIndex (freshDescriptor kt) = kIndexInitialValue"
  by (simp_all add: freshDescriptor_def emptyDescriptor_def)

lemma writable_assert [simp]: "writable op \<Longrightarrow> assertWritable op = Some ()"
  by (simp add: assertWritable_def writable_def)

lemma fieldLocator_ok [simp]: "fieldType kt \<Longrightarrow> fieldLocator kt k f = Some (fieldKey kt k f)"
  by (auto simp: fieldLocator_def fieldLocatorPrefix_def fieldKey_def fieldType_def)

lemma fieldLocatorPrefix_ok [simp]:
  "fieldType kt \<Longrightarrow> fieldLocatorPrefix kt k = Some (fieldPrefix kt k)"
  by (auto simp: fieldLocatorPrefix_def fieldType_def)

lemma wo_destroy_finalized [simp]: "finalized op \<Longrightarrow> wo_destroy op = Some ()"
  by (simp add: wo_destroy_def)

lemma wo_destroy_upd [simp]: "wo_destroy (op\<lparr>finalized := True\<rparr>) = Some ()"
    "wo_destroy (wo_cancel op) = Some ()"
  by (simp_all add: wo_destroy_def wo_cancel_def)

lemma wo_field_ops:
  assumes "sa_ok api st" "writable op" "keyType (keyinfo op) = kt" "fieldType kt"
  shows "wo_fieldExists api st op f = Some (sa_view api st (fieldKey kt (redisKey op) f) \<noteq> None)"
    and "wo_getField api st op f = Some (sa_view api st (fieldKey kt (redisKey op) f) \<noteq> None,
           case sa_view api st (fieldKey kt (redisKey op) f) of Some x \<Rightarrow> x | None \<Rightarrow> [])"
    and "wo_writeField api st op f x = Some (put_st api st (fieldKey kt (redisKey op) f) x)"
    and "wo_deleteField api st op f =
           (if sa_view api st (fieldKey kt (redisKey op) f) = None then Some (False, st)
            else Some (True, del_st api st (fieldKey kt (redisKey op) f)))"
  using assms
  by (auto simp: wo_fieldExists_def wo_getField_def wo_writeField_def wo_deleteField_def
      fieldType_def split: option.splits)

lemma wo_locality_ops:
  assumes "sa_ok api st" "writable op" "keyType (keyinfo op) = kLocalityHash" "redisKey op \<noteq> []"
    and "hint \<noteq> []" "f \<noteq> []"
  shows "wo_localityFieldExists api st op hint f =
           Some (sa_view api st (localityFieldKey (redisKey op) hint f) \<noteq> None)"
    and "wo_getLocalityIndex api st op f =
           Some (sa_view api st (localityIndexKey (redisKey op) f) \<noteq> None,
             case sa_view api st (localityIndexKey (redisKey op) f) of Some x \<Rightarrow> x | None \<Rightarrow> [])"
    and "wo_writeLocalityField api st op hint f x =
           Some (put_st api st (localityFieldKey (redisKey op) hint f) x)"
    and "wo_writeLocalityIndex api st op f hint =
           Some (put_st api st (localityIndexKey (redisKey op) f) hint)"
    and "wo_deleteLocalityField api st op hint f =
           (if sa_view api st (localityFieldKey (redisKey op) hint f) = None then Some (False, st)
            else Some (True, del_st api st (localityFieldKey (redisKey op) hint f)))"
    and "wo_getAndDeleteLocalityIndex api st op f =
           (case sa_view api st (localityIndexKey (redisKey op) f) of
              None \<Rightarrow> Some (False, [], st)
            | Some x \<Rightarrow> Some (True, x, del_st api st (localityIndexKey (redisKey op) f)))"
  using assms
  by (auto simp: wo_localityFieldExists_def wo_getLocalityIndex_def wo_writeLocalityField_def
      wo_writeLocalityIndex_def wo_deleteLocalityField_def wo_getAndDeleteLocalityIndex_def
      localityFieldLocator_def localityIndexLocator_def split: option.splits)

subsection \<open>Finalizing\<close>

definition finalize_st ::
  "('db, 'wb) rocksdb \<Rightarrow> ('db, 'wb) staging \<Rightarrow> write_operation \<Rightarrow> int \<Rightarrow> bool \<Rightarrow> ('db, 'wb) staging" where
  "finalize_st api st op newsize force =
     (if newsize = 0 \<and> keyType (keyinfo op) \<noteq> kVersionedHash
      then del_st api st (descriptorLocator (redisKey op))
      else if sz (keyinfo op) \<noteq> newsize \<or> force
      then put_st api st (descriptorLocator (redisKey op))
             (the (serializeDescriptor (keyinfo op\<lparr>sz := newsize\<rparr>)))
      else st)"

lemma wo_finalize_Some:
  assumes "sa_ok api st" "writable op" "0 \<le> newsize" "wfDescriptor (keyinfo op\<lparr>sz := newsize\<rparr>)"
  shows "\<exists>op'. wo_finalize api st op newsize force = Some (op', finalize_st api st op newsize force)
           \<and> wo_destroy op' = Some () \<and> redisKey op' = redisKey op"
proof -
  obtain s where "serializeDescriptor (keyinfo op\<lparr>sz := newsize\<rparr>) = Some s"
    using serialize_Some assms(4) by blast
  moreover have "keyType (keyinfo op) \<noteq> kParseError" "keyType (keyinfo op) \<noteq> kNull"
    using assms(4) by (auto simp: wfDescriptor_def)
  ultimately show ?thesis
    using assms(1-3)
    by (simp add: wo_finalize_def finalize_st_def getSize_def setSize_def wo_destroy_def)
qed

lemma finalize_st_ok [simp]: "sa_ok api (finalize_st api st op n force) = sa_ok api st"
  by (simp add: finalize_st_def del_st_def put_st_def sa_ok_def)

lemma finalize_st_view_other:
  "sa_ok api st \<Longrightarrow> x \<noteq> descriptorLocator (redisKey op) \<Longrightarrow>
   sa_view api (finalize_st api st op n force) x = sa_view api st x"
  by (simp add: finalize_st_def)

lemma finalize_st_descOf:
  assumes "sa_ok api st" "wfDescriptor (keyinfo op\<lparr>sz := n\<rparr>)"
    and "\<not> force \<Longrightarrow> sz (keyinfo op) = n \<Longrightarrow> n \<noteq> 0 \<Longrightarrow>
           descOf (sa_view api st) (redisKey op) = Some (keyinfo op)"
    and "keyType (keyinfo op) = kVersionedHash \<Longrightarrow> force"
  shows "descOf (sa_view api (finalize_st api st op n force)) (redisKey op) =
           Some (if n = 0 \<and> keyType (keyinfo op) \<noteq> kVersionedHash then emptyDescriptor
                 else keyinfo op\<lparr>sz := n\<rparr>)"
proof -
  obtain s where "serializeDescriptor (keyinfo op\<lparr>sz := n\<rparr>) = Some s"
    using serialize_Some assms(2) by blast
  with assms show ?thesis
    by (auto simp: finalize_st_def descOf_written)
qed

lemma finalize_st_frame [simp]:
  "stateMachine (finalize_st api st op n force) = stateMachine st"
  "revisionTracker (finalize_st api st op n force) = revisionTracker st"
  "stateMachine (put_st api st k x) = stateMachine st"
  "revisionTracker (put_st api st k x) = revisionTracker st"
  "stateMachine (del_st api st k) = stateMachine st"
  "revisionTracker (del_st api st k) = revisionTracker st"
  "stateMachine (single_del_st api st k) = stateMachine st"
  "revisionTracker (single_del_st api st k) = revisionTracker st"
  by (simp_all add: finalize_st_def put_st_def del_st_def single_del_st_def)

end
