(* ===== verification/StoreModel.thy ===== *)
theory StoreModel
  imports WriteOperations
begin

text \<open>
  The abstract database the state machine promises, and the invariant of its encoding.

  An abstract database gives each redis key a value (\<open>aval\<close>); \<open>absVal\<close> reads it off the flat
  key space.  \<open>storeInv\<close> says that the flat key space is the encoding of such a database: every
  descriptor parses, its size counts the entries of the key, and there are no entries of a type
  the key does not have.  The operations are proved to keep \<open>storeInv\<close> and to change \<open>absVal\<close>
  at one key only, as the redis command they implement says.

  Keys that end in \<open>|\<close> are outside the invariant: their entries are not told from those of
  another key (\<open>appendEscaped_collision\<close>).
\<close>

datatype aval =
    ANone
  | AString bytes
  | AHash "bytes \<rightharpoonup> bytes"
  | ASet "bytes set"
  | ADeque "bytes list"
  | ALocalityHash "bytes \<rightharpoonup> bytes \<times> bytes"
  | ALease bytes u64 u64
  | AVersionedHash u64 "bytes \<rightharpoonup> bytes"

type_synonym view = "bytes \<Rightarrow> bytes option"

subsection \<open>Reading a value\<close>

definition fieldsOf :: "view \<Rightarrow> KeyType \<Rightarrow> bytes \<Rightarrow> bytes \<rightharpoonup> bytes" where
  "fieldsOf v kt k = (\<lambda>f. v (fieldKey kt k f))"

definition itemsOf :: "view \<Rightarrow> bytes \<Rightarrow> u64 \<Rightarrow> u64 \<Rightarrow> bytes list" where
  "itemsOf v k s e =
     map (\<lambda>n. the (fieldsOf v kDeque k (unsignedIntToBinaryString (word_of_nat n))))
       [Suc (unat s)..<unat e]"

definition localityOf :: "view \<Rightarrow> bytes \<Rightarrow> bytes \<rightharpoonup> bytes \<times> bytes" where
  "localityOf v k f =
     (case v (localityIndexKey k f) of
        None \<Rightarrow> None
      | Some h \<Rightarrow> map_option (Pair h) (v (localityFieldKey k h f)))"

definition absVal :: "view \<Rightarrow> bytes \<Rightarrow> aval" where
  "absVal v k =
     (case descOf v k of
        None \<Rightarrow> ANone
      | Some d \<Rightarrow>
          (case keyType d of
             kString \<Rightarrow> AString (the (v (stringLocator k)))
           | kHash \<Rightarrow> AHash (fieldsOf v kHash k)
           | kSet \<Rightarrow> ASet (dom (fieldsOf v kSet k))
           | kDeque \<Rightarrow> ADeque (itemsOf v k (startIndex d) (endIndex d))
           | kLocalityHash \<Rightarrow> ALocalityHash (localityOf v k)
           | kLease \<Rightarrow> ALease (the (v (leaseLocator k))) (startIndex d) (endIndex d)
           | kVersionedHash \<Rightarrow> AVersionedHash (startIndex d) (fieldsOf v kVersionedHash k)
           | _ \<Rightarrow> ANone))"

subsection \<open>The invariant\<close>

text \<open>The entries that hold the contents of key \<open>k\<close> under type \<open>kt\<close>.\<close>

definition owned :: "KeyType \<Rightarrow> bytes \<Rightarrow> bytes \<Rightarrow> bool" where
  "owned kt k x \<longleftrightarrow>
     (case kt of
        kString \<Rightarrow> x = stringLocator k
      | kLease \<Rightarrow> x = leaseLocator k \<or> (\<exists>t. x = expirationEventLocator t k)
      | kNull \<Rightarrow> False
      | kParseError \<Rightarrow> False
      | _ \<Rightarrow> \<exists>f. x = fieldKey kt k f)"

definition countedFields :: "view \<Rightarrow> KeyType \<Rightarrow> bytes \<Rightarrow> key_descriptor \<Rightarrow> bool" where
  "countedFields v kt k d \<longleftrightarrow>
     finite (dom (fieldsOf v kt k))
     \<and> (if keyType d = kt then sz d = int (card (dom (fieldsOf v kt k)))
        else fieldsOf v kt k = Map.empty)"

definition part :: "KeyType \<Rightarrow> view \<Rightarrow> bytes \<Rightarrow> key_descriptor \<Rightarrow> bool" where
  "part kt v k d \<longleftrightarrow>
     (case kt of
        kString \<Rightarrow> (if keyType d = kString
                    then \<exists>s. v (stringLocator k) = Some s \<and> s \<noteq> [] \<and> sz d = int (length s)
                    else v (stringLocator k) = None \<or> v (stringLocator k) = Some [])
      | kHash \<Rightarrow> countedFields v kHash k d \<and> (keyType d = kHash \<longrightarrow> 0 < sz d)
      | kSet \<Rightarrow> countedFields v kSet k d \<and> (keyType d = kSet \<longrightarrow> 0 < sz d)
      | kVersionedHash \<Rightarrow> countedFields v kVersionedHash k d
      | kDeque \<Rightarrow> countedFields v kDeque k d
          \<and> (keyType d = kDeque \<longrightarrow> 0 < sz d
              \<and> dom (fieldsOf v kDeque k)
                  = unsignedIntToBinaryString ` {i. startIndex d < i \<and> i < endIndex d})
      | kLocalityHash \<Rightarrow>
          (if keyType d = kLocalityHash
           then k \<noteq> [] \<and> 0 < sz d \<and> finite (dom (\<lambda>f. v (localityIndexKey k f)))
              \<and> sz d = int (card (dom (\<lambda>f. v (localityIndexKey k f))))
              \<and> (\<forall>f h. v (localityIndexKey k f) = Some h \<longrightarrow>
                    f \<noteq> [] \<and> h \<noteq> [] \<and> okKey h \<and> v (localityFieldKey k h f) \<noteq> None)
              \<and> (\<forall>r. v (fieldKey kLocalityHash k r) \<noteq> None \<longrightarrow>
                    (\<exists>f h. fieldKey kLocalityHash k r = localityIndexKey k f
                         \<and> v (localityIndexKey k f) = Some h)
                  \<or> (\<exists>f h. fieldKey kLocalityHash k r = localityFieldKey k h f
                         \<and> v (localityIndexKey k f) = Some h))
           else \<forall>r. v (fieldKey kLocalityHash k r) = None)
      | kLease \<Rightarrow>
          (if keyType d = kLease
           then (\<exists>s. v (leaseLocator k) = Some s \<and> s \<noteq> [] \<and> sz d = int (length s))
              \<and> (\<forall>t. v (expirationEventLocator t k) = (if t = endIndex d then Some ''1'' else None))
           else v (leaseLocator k) = None \<and> (\<forall>t. v (expirationEventLocator t k) = None))
      | kNull \<Rightarrow> True
      | kParseError \<Rightarrow> True)"

definition keyInv :: "view \<Rightarrow> bytes \<Rightarrow> key_descriptor \<Rightarrow> bool" where
  "keyInv v k d \<longleftrightarrow> (d = emptyDescriptor \<or> wfDescriptor d) \<and> (\<forall>kt. part kt v k d)"

definition storeInv :: "view \<Rightarrow> bool" where
  "storeInv v \<longleftrightarrow> (\<forall>k. okKey k \<longrightarrow> (\<exists>d. descOf v k = Some d \<and> keyInv v k d))"

lemma part_kNull [simp]: "part kNull v k d"
  by (simp add: part_def)

lemma storeInvE:
  assumes "storeInv v" "okKey k"
  obtains d where "descOf v k = Some d" "d = emptyDescriptor \<or> wfDescriptor d" "\<And>kt. part kt v k d"
  using assms by (auto simp: storeInv_def keyInv_def)

subsection \<open>Framing\<close>

lemma locality_owned: "owned kLocalityHash k (localityFieldKey k h f)" "owned kLocalityHash k (localityIndexKey k f)"
  by (auto simp: owned_def localityFieldKey_def localityFieldPrefix_def localityIndexKey_def
      localityIndexPrefix_def fieldKey_def)

lemma owned_hd: "owned kt k x \<Longrightarrow> hd x = keyTypeChar kt \<or> hd x = CHR ''@'' \<and> kt = kLease"
  by (auto simp: owned_def split: KeyType.splits)

lemma owned_descriptor [simp]: "\<not> owned kt k (descriptorLocator k')"
  by (auto simp: owned_def split: KeyType.splits)

lemma owned_clock [simp]: "\<not> owned kt k kStateMachine_Clock"
  by (auto simp: owned_def split: KeyType.splits)

lemma owned_disjoint:
  assumes "owned kt k x" "owned kt' k' x" "okKey k" "okKey k'"
  shows "kt = kt' \<and> k = k'"
proof -
  have "kt = kt'"
    using owned_hd [OF assms(1)] owned_hd [OF assms(2)] by auto
  then show ?thesis
    using assms by (auto simp: owned_def keysimps split: KeyType.splits)
qed

lemma part_cong:
  assumes "\<And>x. owned kt k x \<Longrightarrow> v x = v' x"
    and "d = d' \<or> keyType d \<noteq> kt \<and> keyType d' \<noteq> kt"
  shows "part kt v k d \<longleftrightarrow> part kt v' k d'"
proof -
  have fields: "fieldsOf v kt k = fieldsOf v' kt k" if "fieldType kt"
    using that assms(1) by (fastforce simp: fieldsOf_def fieldType_def owned_def)
  have loc: "v (localityFieldKey k h f) = v' (localityFieldKey k h f)"
      "v (localityIndexKey k f) = v' (localityIndexKey k f)"
      "v (fieldKey kLocalityHash k r) = v' (fieldKey kLocalityHash k r)"
    if "kt = kLocalityHash" for h f r
    using that assms(1) locality_owned by (auto simp: owned_def)
  have lease: "v (leaseLocator k) = v' (leaseLocator k)"
      "v (expirationEventLocator t k) = v' (expirationEventLocator t k)"
    if "kt = kLease" for t
    using that assms(1) by (auto simp: owned_def)
  have str: "v (stringLocator k) = v' (stringLocator k)" if "kt = kString"
    using that assms(1) by (auto simp: owned_def)
  show ?thesis
    using assms(2) fields loc lease str
    by (cases kt) (auto simp: part_def countedFields_def)
qed

text \<open>
  A write that touches one key, and of that key only the descriptor and the entries of one type:
  it keeps the invariant if the written key satisfies its part of it, and no other key changes
  its value.
\<close>

definition touches :: "KeyType \<Rightarrow> bytes \<Rightarrow> view \<Rightarrow> view \<Rightarrow> bool" where
  "touches kt k v v' \<longleftrightarrow> (\<forall>x. x \<noteq> descriptorLocator k \<longrightarrow> \<not> owned kt k x \<longrightarrow> v' x = v x)"

lemma touches_refl [simp]: "touches kt k v v"
  by (simp add: touches_def)

lemma touches_trans: "touches kt k v v' \<Longrightarrow> touches kt k v' v'' \<Longrightarrow> touches kt k v v''"
  by (simp add: touches_def)

lemma touches_upd [simp]: "owned kt k x \<Longrightarrow> touches kt k v (v(x := y))"
  by (auto simp: touches_def)

lemma touches_descriptor [simp]: "touches kt k v (v(descriptorLocator k := y))"
  by (auto simp: touches_def)

lemma touches_other_descriptor:
  "touches kt k v v' \<Longrightarrow> k' \<noteq> k \<Longrightarrow> descOf v' k' = descOf v k'"
  by (intro descOf_cong) (simp add: touches_def keysimps)

lemma touches_other_owned:
  assumes "touches kt k v v'" "okKey k" "okKey k'" "k' \<noteq> k \<or> kt' \<noteq> kt" "owned kt' k' x"
  shows "v' x = v x"
proof -
  have "\<not> owned kt k x" using owned_disjoint assms by blast
  moreover have "x \<noteq> descriptorLocator k" using assms(5) by auto
  ultimately show ?thesis using assms(1) by (simp add: touches_def)
qed

lemma storeInv_touches:
  assumes "storeInv v" "okKey k" "touches kt k v v'"
    and "descOf v k = Some d" "keyType d = kt \<or> keyType d = kNull"
    and "descOf v' k = Some d'" "keyType d' = kt \<or> keyType d' = kNull"
    and "d' = emptyDescriptor \<or> wfDescriptor d'" "part kt v' k d'"
  shows "storeInv v'"
  unfolding storeInv_def
proof (intro allI impI)
  fix k' assume k': "okKey k'"
  obtain e where e: "descOf v k' = Some e" "e = emptyDescriptor \<or> wfDescriptor e"
      "\<And>kt. part kt v k' e"
    using storeInvE [OF assms(1) k'] by blast
  show "\<exists>d. descOf v' k' = Some d \<and> keyInv v' k' d"
  proof (cases "k' = k")
    case False
    have "part kt' v' k' e" for kt'
      using part_cong [of kt' k' v v' e e] touches_other_owned [OF assms(3,2) k'] e(3) False
      by metis
    with e False touches_other_descriptor [OF assms(3)] show ?thesis
      by (auto simp: keyInv_def)
  next
    case True
    have "part kt' v' k d'" for kt'
    proof (cases "kt' = kt \<or> kt' = kNull")
      case True
      with assms(9) show ?thesis by auto
    next
      case False
      then have "part kt' v k d = part kt' v' k d'"
        using touches_other_owned [OF assms(3,2,2)] assms(5,7) by (intro part_cong) metis+
      with e True assms(4) show ?thesis by auto
    qed
    with True assms(6,8) show ?thesis by (auto simp: keyInv_def)
  qed
qed

lemma absVal_cong:
  assumes "descOf v k = descOf v' k"
    and "\<And>d x. descOf v k = Some d \<Longrightarrow> owned (keyType d) k x \<Longrightarrow> v x = v' x"
  shows "absVal v k = absVal v' k"
proof (cases "descOf v k")
  case None
  with assms(1) show ?thesis by (simp add: absVal_def)
next
  case (Some d)
  have fields: "fieldsOf v (keyType d) k = fieldsOf v' (keyType d) k" if "fieldType (keyType d)"
    using that assms(2) [OF Some] by (fastforce simp: fieldsOf_def fieldType_def owned_def)
  have loc: "localityOf v k = localityOf v' k" if "keyType d = kLocalityHash"
    using that assms(2) [OF Some] locality_owned
    by (auto simp: localityOf_def fun_eq_iff split: option.splits)
  show ?thesis
    using Some assms fields loc
    by (cases "keyType d") (auto simp: absVal_def itemsOf_def owned_def)
qed

lemma absVal_touches:
  assumes "touches kt k v v'" "okKey k" "okKey k'" "k' \<noteq> k"
  shows "absVal v' k' = absVal v k'"
  using touches_other_owned [OF assms(1-3)] touches_other_descriptor [OF assms(1)] assms(4)
  by (intro absVal_cong) metis+

text \<open>Entries that belong to no key: configuration and internal entries.\<close>

definition unowned :: "bytes \<Rightarrow> bool" where
  "unowned x \<longleftrightarrow> (\<forall>k. x \<noteq> descriptorLocator k) \<and> (\<forall>kt k. \<not> owned kt k x)"

lemma unowned_upd:
  assumes "unowned x"
  shows "storeInv (v(x := y)) \<longleftrightarrow> storeInv v" "absVal (v(x := y)) k = absVal v k"
    "descOf (v(x := y)) k = descOf v k"
proof -
  show d: "descOf (v(x := y)) k = descOf v k" for k
    using assms by (simp add: unowned_def)
  have own: "owned kt k z \<Longrightarrow> (v(x := y)) z = v z" for kt k z
    using assms by (auto simp: unowned_def)
  have "part kt (v(x := y)) k d \<longleftrightarrow> part kt v k d" for kt k d
    using own by (intro part_cong) auto
  with d show "storeInv (v(x := y)) \<longleftrightarrow> storeInv v"
    by (simp add: storeInv_def keyInv_def)
  show "absVal (v(x := y)) k = absVal v k"
    using own d by (intro absVal_cong) auto
qed

lemma unowned_clock [simp]: "unowned kStateMachine_Clock"
  by (simp add: unowned_def)

lemma owned_event [simp]: "owned kt k (expirationEventLocator t k') \<longleftrightarrow> kt = kLease \<and> k' = k"
  by (auto simp: owned_def keysimps split: KeyType.splits)

text \<open>The abstract effect of a command that changes one key.\<close>

definition sets_value :: "bytes \<Rightarrow> aval \<Rightarrow> view \<Rightarrow> view \<Rightarrow> bool" where
  "sets_value k a v v' \<longleftrightarrow> (\<forall>k'. okKey k' \<longrightarrow> absVal v' k' = (if k' = k then a else absVal v k'))"

lemma sets_value_touches:
  "touches kt k v v' \<Longrightarrow> okKey k \<Longrightarrow> absVal v' k = a \<Longrightarrow> sets_value k a v v'"
  by (simp add: sets_value_def absVal_touches)

subsection \<open>Specifications of commands\<close>

text \<open>
  The state a command starts from, and the outcome of a command that stores value \<open>a\<close> under key
  \<open>k\<close>: the invariant holds again, no other key changes its value, no entry outside those of
  \<open>k\<close> changes at all, nothing is written to the database before the commit.
\<close>

definition ready :: "('db, 'wb) rocksdb \<Rightarrow> ('db, 'wb) staging \<Rightarrow> bool" where
  "ready api st \<longleftrightarrow> sa_ok api st \<and> storeInv (sa_view api st)"

definition updated ::
  "('db, 'wb) rocksdb \<Rightarrow> ('db, 'wb) staging \<Rightarrow> bytes \<Rightarrow> aval \<Rightarrow> ('db, 'wb) staging \<Rightarrow> bool" where
  "updated api st k a st' \<longleftrightarrow>
     ready api st' \<and> sets_value k a (sa_view api st) (sa_view api st')
     \<and> (\<exists>kt. touches kt k (sa_view api st) (sa_view api st'))
     \<and> stateMachine st' = stateMachine st"

text \<open>The value of a key as a client of the staging area sees it.\<close>

definition valueOf :: "('db, 'wb) rocksdb \<Rightarrow> ('db, 'wb) staging \<Rightarrow> bytes \<Rightarrow> aval" where
  "valueOf api st k = absVal (sa_view api st) k"

lemma readyD [dest]: "ready api st \<Longrightarrow> sa_ok api st" "ready api st \<Longrightarrow> storeInv (sa_view api st)"
  by (simp_all add: ready_def)

lemma updated_valueOf:
  "updated api st k a st' \<Longrightarrow> okKey k' \<Longrightarrow> valueOf api st' k' = (if k' = k then a else valueOf api st k')"
  by (simp add: updated_def sets_value_def valueOf_def)

lemma updated_descOf:
  "updated api st k a st' \<Longrightarrow> k' \<noteq> k \<Longrightarrow> descOf (sa_view api st') k' = descOf (sa_view api st) k'"
  by (auto simp: updated_def touches_other_descriptor)

lemma updated_owned:
  "updated api st k a st' \<Longrightarrow> okKey k \<Longrightarrow> okKey k' \<Longrightarrow> k' \<noteq> k \<Longrightarrow> owned kt k' x \<Longrightarrow>
   sa_view api st' x = sa_view api st x"
  by (auto simp: updated_def intro: touches_other_owned)

lemma updated_event:
  "updated api st k a st' \<Longrightarrow> k' \<noteq> k \<Longrightarrow>
   sa_view api st' (expirationEventLocator t k') = sa_view api st (expirationEventLocator t k')"
  by (auto simp: updated_def touches_def)

lemma updated_unowned: "updated api st k a st' \<Longrightarrow> unowned x \<Longrightarrow> sa_view api st' x = sa_view api st x"
  by (auto simp: updated_def touches_def unowned_def)

lemma updated_refl: "ready api st \<Longrightarrow> valueOf api st k = a \<Longrightarrow> updated api st k a st"
  by (auto simp: updated_def sets_value_def valueOf_def)

lemma updated_ready: "updated api st k a st' \<Longrightarrow> ready api st'"
  by (simp add: updated_def)

text \<open>The last step of a write: finalizing leads to an updated store.\<close>

definition finalizesTo ::
  "('db, 'wb) rocksdb \<Rightarrow> ('db, 'wb) staging \<Rightarrow> ('db, 'wb) staging \<Rightarrow> write_operation \<Rightarrow> int \<Rightarrow> bool
    \<Rightarrow> bytes \<Rightarrow> aval \<Rightarrow> bool" where
  "finalizesTo api st st1 op n force k a \<longleftrightarrow>
     (\<exists>op' st'. wo_finalize api st1 op n force = Some (op', st') \<and> wo_destroy op' = Some ()
        \<and> updated api st k a st' \<and> revisionTracker st' = revisionTracker st1)"

lemma finalizesToE:
  assumes "finalizesTo api st st1 op n force k a"
  obtains op' st' where "wo_finalize api st1 op n force = Some (op', st')" "wo_destroy op' = Some ()"
    and "updated api st k a st'" "revisionTracker st' = revisionTracker st1"
  using assms by (auto simp: finalizesTo_def)

text \<open>A state reached by writes to the contents of key \<open>k\<close> under type \<open>kt\<close>.\<close>

definition within ::
  "('db, 'wb) rocksdb \<Rightarrow> ('db, 'wb) staging \<Rightarrow> KeyType \<Rightarrow> bytes \<Rightarrow> ('db, 'wb) staging \<Rightarrow> bool" where
  "within api st kt k st1 \<longleftrightarrow>
     sa_ok api st1 \<and> touches kt k (sa_view api st) (sa_view api st1)
     \<and> sa_view api st1 (descriptorLocator k) = sa_view api st (descriptorLocator k)
     \<and> stateMachine st1 = stateMachine st \<and> revisionTracker st1 = revisionTracker st"

lemma within_refl [simp]: "sa_ok api st \<Longrightarrow> within api st kt k st"
  by (simp add: within_def)

lemma within_trans: "within api st kt k st1 \<Longrightarrow> within api st1 kt k st2 \<Longrightarrow> within api st kt k st2"
  by (auto simp: within_def intro: touches_trans)

lemma within_put: "sa_ok api st \<Longrightarrow> owned kt k x \<Longrightarrow> within api st kt k (put_st api st x y)"
  by (auto simp: within_def)

lemma within_del: "sa_ok api st \<Longrightarrow> owned kt k x \<Longrightarrow> within api st kt k (del_st api st x)"
  by (auto simp: within_def)

lemma within_single_del: "sa_ok api st \<Longrightarrow> owned kt k x \<Longrightarrow> within api st kt k (single_del_st api st x)"
  by (auto simp: within_def)

lemma within_ok: "within api st kt k st1 \<Longrightarrow> sa_ok api st1"
  by (simp add: within_def)

text \<open>
  Finalizing after writes to one key: the invariant is kept and the key gets its new value, if
  the new descriptor is right for the new contents.
\<close>

lemma finalize_within:
  assumes st: "ready api st" and k: "okKey k"
    and d: "descOf (sa_view api st) k = Some d" "keyType d = kt \<or> keyType d = kNull"
    and st1: "within api st kt k st1"
    and op: "redisKey op = k" "writable op" "keyType (keyinfo op) = kt"
      "wfDescriptor (keyinfo op\<lparr>sz := n\<rparr>)" "0 \<le> n" "kt = kVersionedHash \<Longrightarrow> force"
      "\<not> force \<Longrightarrow> sz (keyinfo op) = n \<Longrightarrow> n \<noteq> 0 \<Longrightarrow> d = keyinfo op"
    and d': "d' = (if n = 0 \<and> kt \<noteq> kVersionedHash then emptyDescriptor else keyinfo op\<lparr>sz := n\<rparr>)"
    and inv: "\<And>v. descOf v k = Some d' \<Longrightarrow> (\<And>x. owned kt k x \<Longrightarrow> v x = sa_view api st1 x) \<Longrightarrow>
               part kt v k d' \<and> absVal v k = a"
  shows "finalizesTo api st st1 op n force k a"
proof -
  let ?st' = "finalize_st api st1 op n force"
  from st1 have ok: "sa_ok api st1" by (rule within_ok)
  from wo_finalize_Some [OF ok op(2,5,4)] obtain op'
    where fin: "wo_finalize api st1 op n force = Some (op', ?st')" "wo_destroy op' = Some ()"
    by blast
  have view: "sa_view api ?st' x = sa_view api st1 x" if "x \<noteq> descriptorLocator k" for x
    using finalize_st_view_other [OF ok] that op(1) by simp
  have touch: "touches kt k (sa_view api st) (sa_view api ?st')"
    using st1 view by (simp add: within_def touches_def)
  have stored: "descOf (sa_view api st1) k = Some (keyinfo op)"
    if "\<not> force" "sz (keyinfo op) = n" "n \<noteq> 0"
    using that d(1) op(7) st1 descOf_cong [of "sa_view api st1" k "sa_view api st"]
    by (simp add: within_def)
  have desc: "descOf (sa_view api ?st') k = Some d'"
    using finalize_st_descOf [OF ok op(4), of force] stored op(1,3,6) d' by simp
  have own: "sa_view api ?st' x = sa_view api st1 x" if "owned kt k x" for x
    using that view owned_descriptor by metis
  have part: "part kt (sa_view api ?st') k d'" and abs: "absVal (sa_view api ?st') k = a"
    using inv [OF desc own] by simp_all
  have "storeInv (sa_view api ?st')"
  proof (rule storeInv_touches [OF _ k touch d(1) d(2) desc _ _ part])
    show "storeInv (sa_view api st)" using st by blast
    show "keyType d' = kt \<or> keyType d' = kNull" using d' op(3) by (simp add: emptyDescriptor_def)
    show "d' = emptyDescriptor \<or> wfDescriptor d'" using d' op(4) by simp
  qed
  with fin ok abs touch sets_value_touches [OF touch k] st1 show ?thesis
    unfolding finalizesTo_def updated_def ready_def within_def
    by (intro exI [of _ op'] exI [of _ ?st']) auto
qed

end
