(* ===== verification/FieldContainers.thy ===== *)
theory FieldContainers
  imports StoreModel
begin

text \<open>
  What hashes and sets share: both keep one entry per field under \<open>FieldLocator\<close> and the number
  of fields in the descriptor.  The central fact, \<open>finalize_container\<close>, says that an operation
  which writes and deletes fields of one key and then finalizes with the resulting number of
  fields keeps the invariant of the store and changes that key only.  The other lemmas relate
  the iterations over a key to its fields.
\<close>

definition containerType :: "KeyType \<Rightarrow> bool" where
  "containerType kt \<longleftrightarrow> kt = kHash \<or> kt = kSet"

lemma container_field [simp]: "containerType kt \<Longrightarrow> fieldType kt"
  by (auto simp: containerType_def)

lemma container_not_others [simp]:
  "containerType kt \<Longrightarrow> kt \<noteq> kVersionedHash \<and> kt \<noteq> kNull \<and> kt \<noteq> kParseError \<and> kt \<noteq> kDeque \<and> kt \<noteq> kLease"
  by (auto simp: containerType_def)

lemma container_types [simp]:
  "containerType kHash" "containerType kSet" "\<not> containerType kNull"
  by (simp_all add: containerType_def)

lemma owned_fieldKey [simp]: "fieldType kt \<Longrightarrow> owned kt k (fieldKey kt k f)"
  by (auto simp: owned_def fieldType_def)

lemma fieldsOf_upd [simp]:
  "fieldsOf (v(fieldKey kt k f := y)) kt k = (fieldsOf v kt k)(f := y)"
  by (auto simp: fieldsOf_def)

lemma fieldsOf_descriptor [simp]: "fieldsOf (v(descriptorLocator k' := y)) kt k = fieldsOf v kt k"
  by (auto simp: fieldsOf_def)

lemma fieldsOf_apply: "v (fieldKey kt k f) = fieldsOf v kt k f"
  by (simp add: fieldsOf_def)

lemma part_container:
  "containerType kt \<Longrightarrow> part kt v k d \<longleftrightarrow> countedFields v kt k d \<and> (keyType d = kt \<longrightarrow> 0 < sz d)"
  by (auto simp: part_def containerType_def)

text \<open>The fields of a key that is a container of type \<open>kt\<close> or does not exist.\<close>

lemma container_desc:
  assumes "storeInv v" "okKey k" "containerType kt" "descOf v k = Some d"
    and "descriptorEmpty d \<or> keyType d = kt"
  shows "finite (dom (fieldsOf v kt k))" "sz d = int (card (dom (fieldsOf v kt k)))"
    and "d = emptyDescriptor \<or> wfDescriptor d"
    and "descriptorEmpty d \<Longrightarrow> fieldsOf v kt k = Map.empty"
    and "\<not> descriptorEmpty d \<Longrightarrow> 0 < sz d"
proof -
  obtain d' where d': "descOf v k = Some d'" "d' = emptyDescriptor \<or> wfDescriptor d'" "part kt v k d'"
    using storeInvE [OF assms(1,2)] by metis
  then have d: "d' = d" using assms(4) by simp
  with d' assms show "finite (dom (fieldsOf v kt k))"
    by (simp add: part_container countedFields_def)
  have empty: "keyType d \<noteq> kt" if "descriptorEmpty d"
    using that assms(3) by (auto simp: descriptorEmpty_def)
  from d' d assms empty show "sz d = int (card (dom (fieldsOf v kt k)))"
    by (auto simp: part_container countedFields_def emptyDescriptor_def split: if_splits)
  from d' d show "d = emptyDescriptor \<or> wfDescriptor d" by simp
  from d' d assms empty show "descriptorEmpty d \<Longrightarrow> fieldsOf v kt k = Map.empty"
    by (auto simp: part_container countedFields_def)
  from d' d assms show "\<not> descriptorEmpty d \<Longrightarrow> 0 < sz d"
    by (auto simp: part_container)
qed

text \<open>The abstract value of a container with fields \<open>m\<close>: a container without fields does not exist.\<close>

definition containerVal :: "KeyType \<Rightarrow> (bytes \<rightharpoonup> bytes) \<Rightarrow> aval" where
  "containerVal kt m = (if m = Map.empty then ANone else if kt = kHash then AHash m else ASet (dom m))"

lemma container_update:
  assumes st: "ready api st" and k: "okKey k" "containerType kt"
    and d: "descOf (sa_view api st) k = Some d" "descriptorEmpty d \<or> keyType d = kt"
    and st1: "within api st kt k st1"
    and m: "fieldsOf (sa_view api st1) kt k = m" "finite (dom m)" "card (dom m) < 2 ^ 63"
      "n = int (card (dom m))"
  shows "finalizesTo api st st1 (openOp k kt d) n False k (containerVal kt m)"
proof (rule finalize_within [OF st k(1) d(1) _ st1 _ _ _ _ _ _ _ refl])
  have inv: "storeInv (sa_view api st)" using st by blast
  have n: "n < 2 ^ 63"
    using m by (simp add: of_nat_less_numeral_power_cancel_iff)
  note cd = container_desc [OF inv k d]
  show "wfDescriptor (keyinfo (openOp k kt d)\<lparr>sz := n\<rparr>)"
    using cd(3) d(2) k(2) n m(4)
    by (auto simp: wfDescriptor_def int64_def freshDescriptor_def emptyDescriptor_def
        containerType_def descriptorEmpty_def)
  show "d = keyinfo (openOp k kt d)" if "sz (keyinfo (openOp k kt d)) = n" "n \<noteq> 0"
    using that by (auto split: if_splits)
  let ?d' = "if n = 0 \<and> kt \<noteq> kVersionedHash then emptyDescriptor else keyinfo (openOp k kt d)\<lparr>sz := n\<rparr>"
  fix v assume v: "descOf v k = Some ?d'" "\<And>x. owned kt k x \<Longrightarrow> v x = sa_view api st1 x"
  have fields: "fieldsOf v kt k = m"
    using v(2) m(1) k(2) by (auto simp: fieldsOf_def fun_eq_iff)
  have kt: "keyType (keyinfo (openOp k kt d)) = kt" using d(2) by auto
  show "part kt v k ?d' \<and> absVal v k = containerVal kt m"
    using v(1) fields m k(2) kt
    by (auto simp: part_container countedFields_def emptyDescriptor_def absVal_def containerVal_def
        containerType_def)
qed (use d(2) k(2) m(4) in \<open>auto simp: descriptorEmpty_def\<close>)

lemma container_absVal:
  assumes "storeInv v" "okKey k" "containerType kt" "descOf v k = Some d"
    and "descriptorEmpty d \<or> keyType d = kt"
  shows "absVal v k = containerVal kt (fieldsOf v kt k)"
  using container_desc [OF assms] assms(3-5)
  by (auto simp: absVal_def containerVal_def containerType_def descriptorEmpty_def)

text \<open>Opening a container for a write.\<close>

lemma container_open:
  assumes "ready api st" "okKey k" "containerType kt" "descOf (sa_view api st) k = Some d"
    and "\<not> isWrongType d kt"
  shows "descriptorEmpty d \<or> keyType d = kt" "finite (dom (fieldsOf (sa_view api st) kt k))"
    and "keyType (keyinfo (openOp k kt d)) = kt"
    and "wo_keySize (openOp k kt d) = Some (int (card (dom (fieldsOf (sa_view api st) kt k))))"
proof -
  show e: "descriptorEmpty d \<or> keyType d = kt" using assms(5) by (auto simp: isWrongType_def)
  have inv: "storeInv (sa_view api st)" using assms(1) by blast
  note cd = container_desc [OF inv assms(2-4) e]
  show "finite (dom (fieldsOf (sa_view api st) kt k))" by (rule cd(1))
  show "keyType (keyinfo (openOp k kt d)) = kt" using e by auto
  show "wo_keySize (openOp k kt d) = Some (int (card (dom (fieldsOf (sa_view api st) kt k))))"
    using cd e assms(3) by (auto simp: wo_keySize_def getSize_def)
qed

lemma absVal_cases:
  assumes "storeInv v" "okKey k" "descOf v k = Some d"
  shows "absVal v k = ANone \<longleftrightarrow> descriptorEmpty d"
    and "(\<exists>m. absVal v k = AHash m) \<longleftrightarrow> keyType d = kHash"
    and "(\<exists>s. absVal v k = ASet s) \<longleftrightarrow> keyType d = kSet"
proof -
  obtain d' where "descOf v k = Some d'" "d' = emptyDescriptor \<or> wfDescriptor d'"
    using storeInvE [OF assms(1,2)] by metis
  with assms have "d = emptyDescriptor \<or> wfDescriptor d" by simp
  then show "absVal v k = ANone \<longleftrightarrow> descriptorEmpty d"
      "(\<exists>m. absVal v k = AHash m) \<longleftrightarrow> keyType d = kHash"
      "(\<exists>s. absVal v k = ASet s) \<longleftrightarrow> keyType d = kSet"
    using assms(3)
    by (cases "keyType d"; auto simp: absVal_def descriptorEmpty_def wfDescriptor_def emptyDescriptor_def)+
qed

lemma within_put_field:
  assumes "sa_ok api st" "fieldType kt"
  shows "within api st kt k (put_st api st (fieldKey kt k f) x)"
    and "fieldsOf (sa_view api (put_st api st (fieldKey kt k f) x)) kt k = (fieldsOf (sa_view api st) kt k)(f \<mapsto> x)"
  using assms by (simp_all add: within_put)

lemma within_del_field:
  assumes "sa_ok api st" "fieldType kt"
  shows "within api st kt k (del_st api st (fieldKey kt k f))"
    and "fieldsOf (sa_view api (del_st api st (fieldKey kt k f))) kt k = (fieldsOf (sa_view api st) kt k)(f := None)"
  using assms by (simp_all add: within_del)

subsection \<open>Iterating over the fields of a key\<close>

text \<open>The loops \<open>for(iter->Seek(prefix); iter->Valid(); iter->Next()) { if(!startsWith(...)) break; ... }\<close>.\<close>

definition iterFields ::
  "('db, 'wb) rocksdb \<Rightarrow> ('db, 'wb) staging \<Rightarrow> bytes \<Rightarrow> (bytes \<times> bytes) list" where
  "iterFields api st pre =
     map (\<lambda>e. (drop (length pre) (fst e), snd e))
       (takeWhile (\<lambda>e. startsWith (fst e) pre) (sa_iter api st pre))"

lemma iterFields_scan:
  "iterFields api st pre = map (\<lambda>e. (drop (length pre) (fst e), snd e)) (sar.scan api st pre)"
  by (simp add: iterFields_def sar.scan_def)

lemma set_iterFields:
  assumes "sa_readable api st"
  shows "set (iterFields api st (fieldPrefix kt k)) =
           {(f, x). fieldsOf (sa_view api st) kt k f = Some x}"
  by (force simp: iterFields_scan sar.set_scan [OF assms] prefix_fieldPrefix_iff fieldsOf_def
      image_iff)

lemma iterFields_sorted:
  assumes "sa_readable api st"
  shows "sorted_wrt (<) (map fst (iterFields api st (fieldPrefix kt k)))"
proof -
  let ?p = "fieldPrefix kt k"
  have mono: "drop (length ?p) x < drop (length ?p) y" if "x < y" "prefix ?p x" "prefix ?p y" for x y :: bytes
    using that by (auto simp: prefix_def append_less_append)
  have "sorted_wrt (<) (map fst (sar.scan api st ?p))"
    using sar.sorted_scan [OF assms] sar.distinct_scan [OF assms] by (simp add: strict_sorted_iff)
  moreover have "\<forall>e\<in>set (sar.scan api st ?p). prefix ?p (fst e)"
    by (auto simp: sar.set_scan [OF assms])
  ultimately show ?thesis
    unfolding iterFields_scan sorted_wrt_map map_map
    by (elim sorted_wrt_mono_rel [rotated]) (auto intro: mono)
qed

lemma container_read:
  assumes "sa_readable api st" "storeInv (sa_view api st)" "okKey k" "containerType kt"
    and "descOf (sa_view api st) k = Some d" "\<not> isWrongType d kt"
  shows "getSize d = Some (int (card (dom (fieldsOf (sa_view api st) kt k))))"
    and "card (dom (fieldsOf (sa_view api st) kt k)) = length (iterFields api st (fieldPrefix kt k))"
proof -
  have e: "descriptorEmpty d \<or> keyType d = kt" using assms(6) by (auto simp: isWrongType_def)
  show "getSize d = Some (int (card (dom (fieldsOf (sa_view api st) kt k))))"
    using container_desc [OF assms(2-5) e] e assms(4) by (auto simp: getSize_def descriptorEmpty_def)
  have "dom (fieldsOf (sa_view api st) kt k) = set (map fst (iterFields api st (fieldPrefix kt k)))"
    using set_iterFields [OF assms(1), of kt k] by (auto simp: image_iff)
  then show "card (dom (fieldsOf (sa_view api st) kt k)) = length (iterFields api st (fieldPrefix kt k))"
    using distinct_card [OF sorted_wrt_less_distinct [OF iterFields_sorted [OF assms(1)]]] by simp
qed

text \<open>An iteration that starts inside a key sees the fields from there on.\<close>

lemma iterFields_from:
  assumes "sa_readable api st"
  shows "map (\<lambda>e. (drop (length (fieldPrefix kt k)) (fst e), snd e))
           (takeWhile (\<lambda>e. prefix (fieldPrefix kt k) (fst e)) (sa_iter api st (fieldKey kt k c)))
         = filter (\<lambda>e. c \<le> fst e) (iterFields api st (fieldPrefix kt k))"
    (is "map ?g (takeWhile ?P ?it) = _")
proof (rule sorted_entries_unique)
  let ?p = "fieldPrefix kt k"
  have it: "iterates ?it (fieldKey kt k c) (sa_view api st)"
    using sar.iter_view [OF assms] by blast
  then have sorted: "sorted_wrt (<) (map fst ?it)" and start: "\<forall>e\<in>set ?it. fieldKey kt k c \<le> fst e"
    by (auto simp: iterates_def)
  have "\<forall>e\<in>set ?it. ?p \<le> fst e"
    using start prefix_le [of ?p "fieldKey kt k c"] by (auto simp: fieldKey_def intro: order_trans)
  with sorted have tw: "takeWhile ?P ?it = filter ?P ?it"
    by (intro takeWhile_prefix_filter) (auto simp: strict_sorted_iff)
  show "set (map ?g (takeWhile ?P ?it)) = set (filter (\<lambda>e. c \<le> fst e) (iterFields api st ?p))"
  proof -
    have "set (takeWhile ?P ?it) = (\<lambda>e. (fieldKey kt k (fst e), snd e)) `
            {e. c \<le> fst e \<and> fieldsOf (sa_view api st) kt k (fst e) = Some (snd e)}" (is "_ = ?h ` ?A")
    proof (intro set_eqI iffI)
      fix e assume "e \<in> set (takeWhile ?P ?it)"
      then have "(fst e, snd e) \<in> set ?it" "?P e" unfolding tw by auto
      then obtain f where f: "fst e = fieldKey kt k f" "sa_view api st (fst e) = Some (snd e)"
          "fieldKey kt k c \<le> fieldKey kt k f"
        using it unfolding iterates_def prefix_fieldPrefix_iff by metis
      then have "(f, snd e) \<in> ?A" by (simp add: fieldsOf_def fieldKey_def append_le_append)
      with f(1) show "e \<in> ?h ` ?A" by (intro image_eqI [of _ _ "(f, snd e)"]) (auto simp: prod_eq_iff)
    next
      fix e assume "e \<in> ?h ` ?A"
      then show "e \<in> set (takeWhile ?P ?it)"
        using it unfolding tw by (auto simp: iterates_def fieldsOf_def fieldKey_def append_le_append)
    qed
    then show ?thesis
      by (auto simp: set_iterFields [OF assms] fieldKey_def image_image)
  qed
  have "sorted_wrt (\<lambda>x y. fst x < fst y) (takeWhile ?P ?it)"
    using sorted by (simp add: tw sorted_wrt_map sorted_wrt_filter)
  then show "sorted_wrt (<) (map fst (map ?g (takeWhile ?P ?it)))"
    unfolding sorted_wrt_map
    by (elim sorted_wrt_mono_rel [rotated])
      (auto dest!: set_takeWhileD simp: prefix_def append_less_append)
  show "sorted_wrt (<) (map fst (filter (\<lambda>e. c \<le> fst e) (iterFields api st ?p)))"
    using iterFields_sorted [OF assms, of kt k] by (simp add: sorted_wrt_map sorted_wrt_filter)
qed

text \<open>Cutting a sorted list of entries at the first entry that is not taken.\<close>

lemma filter_ge_split:
  fixes es :: "('a :: linorder \<times> 'b) list"
  assumes "sorted_wrt (<) (map fst es)" "n < length (filter (\<lambda>e. c \<le> fst e) es)"
  shows "filter (\<lambda>e. fst (filter (\<lambda>e. c \<le> fst e) es ! n) \<le> fst e) es
           = drop n (filter (\<lambda>e. c \<le> fst e) es)"
proof -
  let ?fs = "filter (\<lambda>e. c \<le> fst e) es"
  let ?x = "?fs ! n"
  have x: "?x \<in> set ?fs" using assms(2) by (rule nth_mem)
  then have cx: "c \<le> fst ?x" by auto
  have sorted: "sorted_wrt (\<lambda>a b. fst a < fst b) ?fs"
    using assms(1) by (simp add: sorted_wrt_map sorted_wrt_filter)
  have lt: "fst y < fst ?x" if "y \<in> set (take n ?fs)" for y
    using that assms(2) sorted_wrt_nth_less [OF sorted] by (auto simp: in_set_conv_nth)
  have ge: "fst ?x \<le> fst y" if "y \<in> set (drop n ?fs)" for y
  proof -
    from that obtain i where i: "i < length ?fs - n" "y = ?fs ! (n + i)"
      by (auto simp: in_set_conv_nth)
    show ?thesis
    proof (cases i)
      case (Suc j)
      with i sorted_wrt_nth_less [OF sorted, of n "n + i"] show ?thesis
        by (simp add: less_diff_conv add.commute)
    qed (use i in simp)
  qed
  have "filter (\<lambda>e. fst ?x \<le> fst e) es = filter (\<lambda>e. fst ?x \<le> fst e) ?fs"
    using cx by (auto intro: filter_cong)
  also have "\<dots> = filter (\<lambda>e. fst ?x \<le> fst e) (take n ?fs @ drop n ?fs)"
    by simp
  also have "\<dots> = drop n ?fs"
  proof -
    have "filter (\<lambda>e. fst ?x \<le> fst e) (take n ?fs) = []"
      using lt by (auto simp: filter_empty_conv not_le)
    moreover have "filter (\<lambda>e. fst ?x \<le> fst e) (drop n ?fs) = drop n ?fs"
      using ge by (simp add: filter_id_conv)
    ultimately show ?thesis unfolding filter_append by simp
  qed
  finally show ?thesis .
qed

end
