(* ===== verification/HashOps.thy ===== *)
theory HashOps
  imports FieldContainers
begin

text \<open>
  The hash commands of \<^verbatim>\<open>src/src/StateMachine.cc\<close>.  An operation returns its status, its output
  parameters and the staging area; \<open>hincrbyfloat\<close> is not modelled (floating point).
\<close>

subsection \<open>Reads\<close>

definition hget ::
  "('db, 'wb) rocksdb \<Rightarrow> ('db, 'wb) staging \<Rightarrow> bytes \<Rightarrow> bytes \<Rightarrow> (status \<times> bytes) option" where
  "hget api st key field = do {
     ok \<leftarrow> assertKeyType api st key kHash;
     if \<not> ok then Some (wrong_type, []) else do {
       loc \<leftarrow> fieldLocator kHash key field;
       Some (read_status (sa_get api st loc)) } }"

definition hexists ::
  "('db, 'wb) rocksdb \<Rightarrow> ('db, 'wb) staging \<Rightarrow> bytes \<Rightarrow> bytes \<Rightarrow> status option" where
  "hexists api st key field = map_option fst (hget api st key field)"

definition hkeys ::
  "('db, 'wb) rocksdb \<Rightarrow> ('db, 'wb) staging \<Rightarrow> bytes \<Rightarrow> (status \<times> bytes list) option" where
  "hkeys api st key = do {
     ok \<leftarrow> assertKeyType api st key kHash;
     if \<not> ok then Some (wrong_type, []) else do {
       pre \<leftarrow> fieldLocatorPrefix kHash key;
       Some (OK, map fst (iterFields api st pre)) } }"

definition hgetall ::
  "('db, 'wb) rocksdb \<Rightarrow> ('db, 'wb) staging \<Rightarrow> bytes \<Rightarrow> (status \<times> bytes list) option" where
  "hgetall api st key = do {
     ok \<leftarrow> assertKeyType api st key kHash;
     if \<not> ok then Some (wrong_type, []) else do {
       pre \<leftarrow> fieldLocatorPrefix kHash key;
       Some (OK, concat (map (\<lambda>e. [fst e, snd e]) (iterFields api st pre))) } }"

definition hvals ::
  "('db, 'wb) rocksdb \<Rightarrow> ('db, 'wb) staging \<Rightarrow> bytes \<Rightarrow> (status \<times> bytes list) option" where
  "hvals api st key = do {
     ok \<leftarrow> assertKeyType api st key kHash;
     if \<not> ok then Some (wrong_type, []) else do {
       pre \<leftarrow> fieldLocatorPrefix kHash key;
       Some (OK, map snd (iterFields api st pre)) } }"

definition hlen ::
  "('db, 'wb) rocksdb \<Rightarrow> ('db, 'wb) staging \<Rightarrow> bytes \<Rightarrow> (status \<times> int) option" where
  "hlen api st key = do {
     info \<leftarrow> getKeyDescriptor api st key;
     if isWrongType info kHash then Some (wrong_type, 0) else do {
       len \<leftarrow> getSize info;
       Some (OK, len) } }"

text \<open>The loop of \<open>hscan\<close>: results so far, then the new cursor.\<close>

fun hscanLoop :: "bytes \<Rightarrow> nat \<Rightarrow> bytes list \<Rightarrow> (bytes \<times> bytes) list \<Rightarrow> bytes list \<times> bytes" where
  "hscanLoop pre count res [] = (res, [])"
| "hscanLoop pre count res (e # es) =
     (if \<not> startsWith (fst e) pre then (res, [])
      else let fieldname = drop (length pre) (fst e) in
        if length res \<ge> count * 2 then (res, fieldname)
        else hscanLoop pre count (res @ [fieldname, snd e]) es)"

definition hscan ::
  "('db, 'wb) rocksdb \<Rightarrow> ('db, 'wb) staging \<Rightarrow> bytes \<Rightarrow> bytes \<Rightarrow> nat
    \<Rightarrow> (status \<times> bytes \<times> bytes list) option" where
  "hscan api st key cursor count = do {
     ok \<leftarrow> assertKeyType api st key kHash;
     if \<not> ok then Some (wrong_type, [], []) else do {
       pre \<leftarrow> fieldLocatorPrefix kHash key;
       loc \<leftarrow> fieldLocator kHash key cursor;
       let (res, newCursor) = hscanLoop pre count [] (sa_iter api st loc);
       Some (OK, newCursor, res) } }"

subsection \<open>Writes\<close>

definition hset ::
  "('db, 'wb) rocksdb \<Rightarrow> ('db, 'wb) staging \<Rightarrow> bytes \<Rightarrow> bytes \<Rightarrow> bytes
    \<Rightarrow> (status \<times> bool \<times> ('db, 'wb) staging) option" where
  "hset api st key field val = do {
     op \<leftarrow> newWriteOperation api st key kHash;
     if \<not> isValid op then do { wo_destroy op; Some (wrong_type, False, st) } else do {
       present \<leftarrow> wo_fieldExists api st op field;
       size \<leftarrow> wo_keySize op;
       let fieldcreated = (\<not> present);
       let newsize = size + of_bool fieldcreated;
       st \<leftarrow> wo_writeField api st op field val;
       (op, st) \<leftarrow> wo_finalize api st op newsize False;
       wo_destroy op;
       Some (OK, fieldcreated, st) } }"

fun hmsetLoop ::
  "('db, 'wb) rocksdb \<Rightarrow> write_operation \<Rightarrow> ('db, 'wb) staging \<Rightarrow> int \<Rightarrow> bytes list
    \<Rightarrow> (int \<times> ('db, 'wb) staging) option" where
  "hmsetLoop api op st newsize (f # x # rest) = do {
     present \<leftarrow> wo_fieldExists api st op f;
     st \<leftarrow> wo_writeField api st op f x;
     hmsetLoop api op st (newsize + of_bool (\<not> present)) rest }"
| "hmsetLoop api op st newsize _ = Some (newsize, st)"

definition hmset ::
  "('db, 'wb) rocksdb \<Rightarrow> ('db, 'wb) staging \<Rightarrow> bytes \<Rightarrow> bytes list
    \<Rightarrow> (status \<times> ('db, 'wb) staging) option" where
  "hmset api st key args = do {
     assert_that (\<not> length args mod 2 \<noteq> 0);
     op \<leftarrow> newWriteOperation api st key kHash;
     if \<not> isValid op then do { wo_destroy op; Some (wrong_type, st) } else do {
       size \<leftarrow> wo_keySize op;
       (newsize, st) \<leftarrow> hmsetLoop api op st size args;
       (op, st) \<leftarrow> wo_finalize api st op newsize False;
       wo_destroy op;
       Some (OK, st) } }"

definition hsetnx ::
  "('db, 'wb) rocksdb \<Rightarrow> ('db, 'wb) staging \<Rightarrow> bytes \<Rightarrow> bytes \<Rightarrow> bytes
    \<Rightarrow> (status \<times> bool \<times> ('db, 'wb) staging) option" where
  "hsetnx api st key field val = do {
     op \<leftarrow> newWriteOperation api st key kHash;
     if \<not> isValid op then do { wo_destroy op; Some (wrong_type, False, st) } else do {
       present \<leftarrow> wo_fieldExists api st op field;
       size \<leftarrow> wo_keySize op;
       let fieldcreated = (\<not> present);
       let newsize = size + of_bool fieldcreated;
       st \<leftarrow> (if fieldcreated then wo_writeField api st op field val else Some st);
       (op, st) \<leftarrow> wo_finalize api st op newsize False;
       wo_destroy op;
       Some (OK, fieldcreated, st) } }"

text \<open>
  The number returned besides the status is what the output parameter \<open>result\<close> holds, which the caller
  has set to 0.  When the stored value does not parse, \<open>parseInt64\<close> has already left in it the number
  \<open>strtoll\<close> found at its beginning.
\<close>

definition hincrby ::
  "('db, 'wb) rocksdb \<Rightarrow> ('db, 'wb) staging \<Rightarrow> bytes \<Rightarrow> bytes \<Rightarrow> bytes
    \<Rightarrow> (status \<times> int \<times> ('db, 'wb) staging) option" where
  "hincrby api st key field incrby =
     (case parseInt64 incrby of
        None \<Rightarrow> Some (malformed ''value is not an integer or out of range'', 0, st)
      | Some incrbyInt64 \<Rightarrow> do {
          op \<leftarrow> newWriteOperation api st key kHash;
          if \<not> isValid op then do { wo_destroy op; Some (wrong_type, 0, st) } else do {
            (present, val) \<leftarrow> wo_getField api st op field;
            size \<leftarrow> wo_keySize op;
            case (if present then parseInt64 val else Some 0) of
              None \<Rightarrow> do {
                (op, st) \<leftarrow> wo_finalize api st op size False;
                wo_destroy op;
                Some (malformed ''hash value is not an integer'', fst (strtoll val), st) }
            | Some result0 \<Rightarrow> do {
                result \<leftarrow> checkedAdd result0 incrbyInt64;
                st \<leftarrow> wo_writeField api st op field (to_string result);
                (op, st) \<leftarrow> wo_finalize api st op (size + of_bool (\<not> present)) False;
                wo_destroy op;
                Some (OK, result, st) } } })"

fun deleteFields ::
  "('db, 'wb) rocksdb \<Rightarrow> write_operation \<Rightarrow> ('db, 'wb) staging \<Rightarrow> int \<Rightarrow> bytes list
    \<Rightarrow> (int \<times> ('db, 'wb) staging) option" where
  "deleteFields api op st removed [] = Some (removed, st)"
| "deleteFields api op st removed (f # fs) = do {
     (gone, st) \<leftarrow> wo_deleteField api st op f;
     deleteFields api op st (removed + of_bool gone) fs }"

definition hdel ::
  "('db, 'wb) rocksdb \<Rightarrow> ('db, 'wb) staging \<Rightarrow> bytes \<Rightarrow> bytes list
    \<Rightarrow> (status \<times> int \<times> ('db, 'wb) staging) option" where
  "hdel api st key args = do {
     op \<leftarrow> newWriteOperation api st key kHash;
     if \<not> isValid op then do { wo_destroy op; Some (wrong_type, 0, st) } else do {
       (removed, st) \<leftarrow> deleteFields api op st 0 args;
       size \<leftarrow> wo_keySize op;
       (op, st) \<leftarrow> wo_finalize api st op (size - removed) False;
       wo_destroy op;
       Some (OK, removed, st) } }"

text \<open>The copy loop of \<open>hclone\<close>; the iterated entries are those present when it starts.\<close>

fun cloneFields ::
  "('db, 'wb) rocksdb \<Rightarrow> write_operation \<Rightarrow> ('db, 'wb) staging \<Rightarrow> int \<Rightarrow> (bytes \<times> bytes) list
    \<Rightarrow> (int \<times> ('db, 'wb) staging) option" where
  "cloneFields api op st newsize [] = Some (newsize, st)"
| "cloneFields api op st newsize (e # es) = do {
     st \<leftarrow> wo_writeField api st op (fst e) (snd e);
     cloneFields api op st (newsize + 1) es }"

definition hclone ::
  "('db, 'wb) rocksdb \<Rightarrow> ('db, 'wb) staging \<Rightarrow> bytes \<Rightarrow> bytes
    \<Rightarrow> (status \<times> ('db, 'wb) staging) option" where
  "hclone api st source target = do {
     op \<leftarrow> newWriteOperation api st target kHash;
     if \<not> isValid op then do { wo_destroy op; Some (wrong_type, st) }
     else if redisKeyExists op then do {
       wo_destroy (wo_cancel op);
       Some (InvalidArgument ''ERR target key already exists, will not overwrite'', st) }
     else do {
       sourceKeyInfo \<leftarrow> getKeyDescriptor api st source;
       if descriptorEmpty sourceKeyInfo then do { wo_destroy (wo_cancel op); Some (OK, st) }
       else if keyType sourceKeyInfo \<noteq> kHash then do { wo_destroy (wo_cancel op); Some (wrong_type, st) }
       else do {
         pre \<leftarrow> fieldLocatorPrefix kHash source;
         (newsize, st) \<leftarrow> cloneFields api op st 0 (iterFields api st pre);
         srcSize \<leftarrow> getSize sourceKeyInfo;
         assert_that (newsize = srcSize);
         (op, st) \<leftarrow> wo_finalize api st op newsize False;
         wo_destroy op;
         Some (OK, st) } } }"

subsection \<open>Opening a hash\<close>

text \<open>The fields of an abstract value, if a hash command accepts it.\<close>

fun hashOf :: "aval \<Rightarrow> (bytes \<rightharpoonup> bytes) option" where
  "hashOf ANone = Some Map.empty"
| "hashOf (AHash m) = Some m"
| "hashOf _ = None"

abbreviation hashVal :: "(bytes \<rightharpoonup> bytes) \<Rightarrow> aval" where
  "hashVal m \<equiv> containerVal kHash m"

lemma hashOf_desc:
  assumes "storeInv v" "okKey k" "descOf v k = Some d"
  shows "hashOf (absVal v k) = (if isWrongType d kHash then None else Some (fieldsOf v kHash k))"
proof (cases "descriptorEmpty d \<or> keyType d = kHash")
  case True
  with container_absVal [OF assms(1,2) _ assms(3), of kHash] show ?thesis
    by (auto simp: isWrongType_def containerVal_def)
next
  case False
  with absVal_cases [OF assms] show ?thesis
    by (cases "absVal v k") (auto simp: isWrongType_def)
qed

lemma hash_open:
  assumes "ready api st" "okKey k" "hashOf (valueOf api st k) = Some m"
  obtains d where "descOf (sa_view api st) k = Some d" "descriptorEmpty d \<or> keyType d = kHash"
    and "fieldsOf (sa_view api st) kHash k = m" "finite (dom m)"
    and "keyType (keyinfo (openOp k kHash d)) = kHash"
    and "wo_keySize (openOp k kHash d) = Some (int (card (dom m)))"
proof -
  have inv: "storeInv (sa_view api st)" using assms by blast
  obtain d where d: "descOf (sa_view api st) k = Some d"
    using storeInvE [OF inv assms(2)] by metis
  from hashOf_desc [OF inv assms(2) d] assms(3)
  have w: "\<not> isWrongType d kHash" and m: "fieldsOf (sa_view api st) kHash k = m"
    by (auto simp: valueOf_def split: if_splits)
  with that d container_open [OF assms(1,2) container_types(1) d w] show ?thesis by simp
qed

lemmas hash_update = container_update [OF _ _ container_types(1)]

lemma hash_wrong_type:
  assumes "storeInv v" "okKey k" "hashOf (absVal v k) = None"
  obtains d where "descOf v k = Some d" "\<not> descriptorEmpty d" "keyType d \<noteq> kHash" "isWrongType d kHash"
proof -
  obtain d where d: "descOf v k = Some d"
    using storeInvE [OF assms(1,2)] by metis
  with hashOf_desc [OF assms(1,2) d] assms(3) that show ?thesis
    by (auto simp: isWrongType_def split: if_splits)
qed

lemma card_dom_upd: "finite (dom m) \<Longrightarrow> card (dom (m(f \<mapsto> x))) = card (dom m) + of_bool (m f = None)"
  by (auto simp: card_insert_if domIff)

subsection \<open>Writes refine map updates\<close>

lemma hset_ok:
  assumes "ready api st" "okKey k" "hashOf (valueOf api st k) = Some m" "card (dom m) + 1 < 2 ^ 63"
  shows "\<exists>st'. hset api st k f x = Some (OK, f \<notin> dom m, st')
           \<and> updated api st k (AHash (m(f \<mapsto> x))) st'"
proof -
  have ok: "sa_ok api st" using assms(1) by blast
  from assms(1-3) obtain d where d: "descOf (sa_view api st) k = Some d" "descriptorEmpty d \<or> keyType d = kHash"
      "fieldsOf (sa_view api st) kHash k = m" "finite (dom m)"
      "keyType (keyinfo (openOp k kHash d)) = kHash"
      "wo_keySize (openOp k kHash d) = Some (int (card (dom m)))"
    by (rule hash_open)
  let ?st1 = "put_st api st (fieldKey kHash k f) x"
  have "finalizesTo api st ?st1 (openOp k kHash d) (int (card (dom m)) + of_bool (m f = None)) False
          k (hashVal (m(f \<mapsto> x)))"
    using assms d card_dom_upd [OF d(4), of f x]
    by (intro hash_update) (auto simp: within_put_field ok)
  with ok d wo_field_ops [OF ok _ d(5)] show ?thesis
    by (auto simp: hset_def fieldsOf_apply containerVal_def domIff elim!: finalizesToE)
qed

lemma hsetnx_ok:
  assumes "ready api st" "okKey k" "hashOf (valueOf api st k) = Some m" "card (dom m) + 1 < 2 ^ 63"
  shows "\<exists>st'. hsetnx api st k f x = Some (OK, f \<notin> dom m, st')
           \<and> updated api st k (hashVal (if f \<in> dom m then m else m(f \<mapsto> x))) st'"
proof -
  have ok: "sa_ok api st" using assms(1) by blast
  from assms(1-3) obtain d where d: "descOf (sa_view api st) k = Some d" "descriptorEmpty d \<or> keyType d = kHash"
      "fieldsOf (sa_view api st) kHash k = m" "finite (dom m)"
      "keyType (keyinfo (openOp k kHash d)) = kHash"
      "wo_keySize (openOp k kHash d) = Some (int (card (dom m)))"
    by (rule hash_open)
  let ?st1 = "if f \<in> dom m then st else put_st api st (fieldKey kHash k f) x"
  have "finalizesTo api st ?st1 (openOp k kHash d) (int (card (dom m)) + of_bool (m f = None)) False
          k (hashVal (if f \<in> dom m then m else m(f \<mapsto> x)))"
    using assms d card_dom_upd [OF d(4), of f x]
    by (intro hash_update) (auto simp: within_put_field ok)
  with ok d wo_field_ops [OF ok _ d(5)] show ?thesis
    by (cases "m f") (auto simp: hsetnx_def fieldsOf_apply domIff elim!: finalizesToE)
qed

text \<open>Several fields: the pairs are written in order.\<close>

fun setPairs :: "(bytes \<rightharpoonup> bytes) \<Rightarrow> bytes list \<Rightarrow> (bytes \<rightharpoonup> bytes)" where
  "setPairs m (f # x # rest) = setPairs (m(f \<mapsto> x)) rest"
| "setPairs m _ = m"

lemma finite_setPairs: "finite (dom m) \<Longrightarrow> finite (dom (setPairs m args))"
  by (induction m args rule: setPairs.induct) auto

lemma card_setPairs: "finite (dom m) \<Longrightarrow> card (dom (setPairs m args)) \<le> card (dom m) + length args"
  by (induction m args rule: setPairs.induct) (auto simp: card_insert_if le_SucI split: if_splits)

lemma hmsetLoop_ok:
  assumes "sa_ok api st" "writable op" "keyType (keyinfo op) = kHash" "redisKey op = k"
    and "finite (dom m)" "fieldsOf (sa_view api st) kHash k = m"
  shows "\<exists>st'. hmsetLoop api op st n args
             = Some (n + int (card (dom (setPairs m args))) - int (card (dom m)), st')
           \<and> within api st kHash k st' \<and> fieldsOf (sa_view api st') kHash k = setPairs m args"
  using assms
proof (induction m args arbitrary: st n rule: setPairs.induct)
  case (1 m f x rest)
  let ?st1 = "put_st api st (fieldKey kHash k f) x"
  note ops = wo_field_ops [OF "1.prems"(1-3), simplified]
  note put = within_put_field [OF "1.prems"(1) fieldType_simps(1), of k f x]
  have "fieldsOf (sa_view api ?st1) kHash k = m(f \<mapsto> x)" "sa_ok api ?st1" "finite (dom (m(f \<mapsto> x)))"
    using put "1.prems" by simp_all
  then obtain st' where st': "hmsetLoop api op ?st1 (n + of_bool (m f = None)) rest
        = Some (n + of_bool (m f = None) + int (card (dom (setPairs (m(f \<mapsto> x)) rest)))
            - int (card (dom (m(f \<mapsto> x)))), st')"
      "within api ?st1 kHash k st'" "fieldsOf (sa_view api st') kHash k = setPairs (m(f \<mapsto> x)) rest"
    using "1.IH" [of ?st1 "n + of_bool (m f = None)"] "1.prems" by blast
  with "1.prems" within_trans [OF put(1) st'(2)] card_dom_upd [OF "1.prems"(5), of f x]
  show ?case
    by (auto simp: ops fieldsOf_apply)
qed auto

lemma hmset_ok:
  assumes "ready api st" "okKey k" "hashOf (valueOf api st k) = Some m" "even (length args)"
    and "card (dom m) + length args < 2 ^ 63"
  shows "\<exists>st'. hmset api st k args = Some (OK, st') \<and> updated api st k (hashVal (setPairs m args)) st'"
proof -
  have ok: "sa_ok api st" using assms(1) by blast
  from assms(1-3) obtain d where d: "descOf (sa_view api st) k = Some d" "descriptorEmpty d \<or> keyType d = kHash"
      "fieldsOf (sa_view api st) kHash k = m" "finite (dom m)"
      "keyType (keyinfo (openOp k kHash d)) = kHash"
      "wo_keySize (openOp k kHash d) = Some (int (card (dom m)))"
    by (rule hash_open)
  let ?n = "int (card (dom (setPairs m args)))"
  obtain st1 where st1: "hmsetLoop api (openOp k kHash d) st (int (card (dom m))) args = Some (?n, st1)"
      "within api st kHash k st1" "fieldsOf (sa_view api st1) kHash k = setPairs m args"
    using hmsetLoop_ok [OF ok _ d(5) _ d(4,3), of "int (card (dom m))" args] d(2) by auto
  have "card (dom (setPairs m args)) < 2 ^ 63"
    using card_setPairs [OF d(4), of args] assms(5) by simp
  with hash_update [OF assms(1,2) d(1,2) st1(2,3) finite_setPairs [OF d(4)]]
  have "finalizesTo api st st1 (openOp k kHash d) ?n False k (hashVal (setPairs m args))"
    by simp
  with ok assms(4) d st1 show ?thesis
    by (auto simp: hmset_def elim!: finalizesToE)
qed

text \<open>Deletion.\<close>

lemma deleteFields_ok:
  assumes "sa_ok api st" "writable op" "keyType (keyinfo op) = kt" "fieldType kt" "redisKey op = k"
    and "finite (dom m)" "fieldsOf (sa_view api st) kt k = m"
  shows "\<exists>st'. deleteFields api op st n fs = Some (n + int (card (dom m \<inter> set fs)), st')
           \<and> within api st kt k st' \<and> fieldsOf (sa_view api st') kt k = m |` (- set fs)"
  using assms
proof (induction fs arbitrary: st n m)
  case Nil
  then show ?case by simp
next
  case (Cons f fs)
  note ops = wo_field_ops [OF Cons.prems(1-4)]
  note del = within_del_field [OF Cons.prems(1,4), of k f]
  show ?case
  proof (cases "m f")
    case None
    then have "dom m \<inter> set (f # fs) = dom m \<inter> set fs" "m |` (- set (f # fs)) = m |` (- set fs)"
      by (auto simp: restrict_map_def fun_eq_iff)
    with Cons.IH [of st m n] Cons.prems None show ?thesis
      by (simp add: ops fieldsOf_apply)
  next
    case (Some x)
    let ?st1 = "del_st api st (fieldKey kt k f)"
    have m1: "fieldsOf (sa_view api ?st1) kt k = m(f := None)" "finite (dom (m(f := None)))"
        "sa_ok api ?st1"
      using del Cons.prems by simp_all
    have set_eq: "dom m \<inter> set (f # fs) = insert f (dom (m(f := None)) \<inter> set fs)"
        "m(f := None) |` (- set fs) = m |` (- set (f # fs))"
      using Some by (auto simp: restrict_map_def fun_eq_iff)
    obtain st' where st': "deleteFields api op ?st1 (n + 1) fs
          = Some (n + 1 + int (card (dom (m(f := None)) \<inter> set fs)), st')"
        "within api ?st1 kt k st'" "fieldsOf (sa_view api st') kt k = m(f := None) |` (- set fs)"
      using Cons.IH [of ?st1 "m(f := None)" "n + 1"] Cons.prems m1 by blast
    have "card (dom m \<inter> set (f # fs)) = Suc (card (dom (m(f := None)) \<inter> set fs))"
      unfolding set_eq by (subst card_insert_disjoint) auto
    with st' within_trans [OF del(1) st'(2)] set_eq(2) Cons.prems Some del show ?thesis
      by (simp add: ops fieldsOf_apply)
  qed
qed

lemma card_dom_split:
  "finite (dom m) \<Longrightarrow> int (card (dom (m |` (- A)))) = int (card (dom m)) - int (card (dom m \<inter> A))"
  using card_Int_Diff [of "dom m" A] by (simp add: Diff_eq inf_commute)

lemma hdel_ok:
  assumes "ready api st" "okKey k" "hashOf (valueOf api st k) = Some m" "card (dom m) < 2 ^ 63"
  shows "\<exists>st'. hdel api st k fs = Some (OK, int (card (dom m \<inter> set fs)), st')
           \<and> updated api st k (hashVal (m |` (- set fs))) st'"
proof -
  have ok: "sa_ok api st" using assms(1) by blast
  from assms(1-3) obtain d where d: "descOf (sa_view api st) k = Some d" "descriptorEmpty d \<or> keyType d = kHash"
      "fieldsOf (sa_view api st) kHash k = m" "finite (dom m)"
      "keyType (keyinfo (openOp k kHash d)) = kHash"
      "wo_keySize (openOp k kHash d) = Some (int (card (dom m)))"
    by (rule hash_open)
  obtain st1 where st1: "deleteFields api (openOp k kHash d) st 0 fs = Some (int (card (dom m \<inter> set fs)), st1)"
      "within api st kHash k st1" "fieldsOf (sa_view api st1) kHash k = m |` (- set fs)"
    using deleteFields_ok [OF ok _ d(5) _ _ d(4,3), where n = 0 and fs = fs] d(2) by auto
  have "card (dom (m |` (- set fs))) < 2 ^ 63"
    using card_mono [OF d(4), of "dom (m |` (- set fs))"] assms(4) by auto
  with hash_update [OF assms(1,2) d(1,2) st1(2,3)] d(4)
  have "finalizesTo api st st1 (openOp k kHash d) (int (card (dom m)) - int (card (dom m \<inter> set fs))) False
          k (hashVal (m |` (- set fs)))"
    unfolding card_dom_split [OF d(4), symmetric] by simp
  with ok d st1 show ?thesis
    by (auto simp: hdel_def elim!: finalizesToE)
qed

text \<open>Increment: the stored decimal number, or zero, plus the argument.\<close>

lemma hincrby_ok:
  assumes "ready api st" "okKey k" "hashOf (valueOf api st k) = Some m" "card (dom m) + 1 < 2 ^ 63"
    and "parseInt64 incrby = Some i"
    and "(case m f of None \<Rightarrow> Some 0 | Some x \<Rightarrow> parseInt64 x) = Some j"
  shows "int64 (j + i) \<Longrightarrow> \<exists>st'. hincrby api st k f incrby = Some (OK, j + i, st')
           \<and> updated api st k (AHash (m(f \<mapsto> to_string (j + i)))) st'" (is "?fits \<Longrightarrow> ?done")
    and "\<not> int64 (j + i) \<Longrightarrow> hincrby api st k f incrby = None"
proof -
  have ok: "sa_ok api st" using assms(1) by blast
  from assms(1-3) obtain d where d: "descOf (sa_view api st) k = Some d" "descriptorEmpty d \<or> keyType d = kHash"
      "fieldsOf (sa_view api st) kHash k = m" "finite (dom m)"
      "keyType (keyinfo (openOp k kHash d)) = kHash"
      "wo_keySize (openOp k kHash d) = Some (int (card (dom m)))"
    by (rule hash_open)
  let ?x = "to_string (j + i)"
  let ?st1 = "put_st api st (fieldKey kHash k f) ?x"
  have "finalizesTo api st ?st1 (openOp k kHash d) (int (card (dom m)) + of_bool (m f = None)) False
          k (hashVal (m(f \<mapsto> ?x)))"
    using assms d card_dom_upd [OF d(4), of f ?x]
    by (intro hash_update) (auto simp: within_put_field ok)
  with ok d wo_field_ops [OF ok _ d(5)] assms(5,6) show "?fits \<Longrightarrow> ?done"
    by (cases "m f") (auto simp: hincrby_def Let_def fieldsOf_apply containerVal_def elim!: finalizesToE)
  show "hincrby api st k f incrby = None" if "\<not> int64 (j + i)"
    using ok d wo_field_ops [OF ok _ d(5)] assms(5,6) that
    by (cases "m f") (auto simp: hincrby_def Let_def fieldsOf_apply)
qed

lemma hincrby_not_integer:
  assumes "ready api st" "okKey k" "hashOf (valueOf api st k) = Some m" "card (dom m) < 2 ^ 63"
    and "parseInt64 incrby = Some i" "m f = Some x" "parseInt64 x = None"
  shows "\<exists>st'. hincrby api st k f incrby = Some (malformed ''hash value is not an integer'', fst (strtoll x), st')
           \<and> updated api st k (AHash m) st'"
proof -
  have ok: "sa_ok api st" using assms(1) by blast
  from assms(1-3) obtain d where d: "descOf (sa_view api st) k = Some d" "descriptorEmpty d \<or> keyType d = kHash"
      "fieldsOf (sa_view api st) kHash k = m" "finite (dom m)"
      "keyType (keyinfo (openOp k kHash d)) = kHash"
      "wo_keySize (openOp k kHash d) = Some (int (card (dom m)))"
    by (rule hash_open)
  have "hashVal m = AHash m" using assms(6) by (auto simp: containerVal_def)
  moreover have "finalizesTo api st st (openOp k kHash d) (int (card (dom m))) False k (hashVal m)"
    using assms d by (intro hash_update) (auto simp: ok)
  ultimately show ?thesis
    using ok d wo_field_ops [OF ok _ d(5)] assms(5-7)
    by (auto simp: hincrby_def Let_def fieldsOf_apply elim!: finalizesToE)
qed

text \<open>A copy under a new name: the fields of the source, and only if the target does not exist.\<close>

lemma cloneFields_ok:
  assumes "sa_ok api st" "writable op" "keyType (keyinfo op) = kHash" "redisKey op = k"
    and "fieldsOf (sa_view api st) kHash k = m"
  shows "\<exists>st'. cloneFields api op st n es = Some (n + int (length es), st')
           \<and> within api st kHash k st' \<and> fieldsOf (sa_view api st') kHash k = m ++ map_of (rev es)"
  using assms
proof (induction es arbitrary: st n m)
  case Nil
  then show ?case by simp
next
  case (Cons e es)
  let ?st1 = "put_st api st (fieldKey kHash k (fst e)) (snd e)"
  note put = within_put_field [OF Cons.prems(1) fieldType_simps(1), of k "fst e" "snd e"]
  have "fieldsOf (sa_view api ?st1) kHash k = m(fst e \<mapsto> snd e)" "sa_ok api ?st1"
    using put Cons.prems by simp_all
  then obtain st' where "cloneFields api op ?st1 (n + 1) es = Some (n + 1 + int (length es), st')"
      "within api ?st1 kHash k st'" "fieldsOf (sa_view api st') kHash k = m(fst e \<mapsto> snd e) ++ map_of (rev es)"
    using Cons.IH [of ?st1 "m(fst e \<mapsto> snd e)" "n + 1"] Cons.prems by blast
  with within_trans [OF put(1)] wo_field_ops(3) [OF Cons.prems(1-3), of "fst e" "snd e"] Cons.prems(4)
  show ?case
    by (auto simp: fun_eq_iff map_add_def split: option.splits)
qed

subsection \<open>Reads\<close>

text \<open>The entries of a hash, in the order of the fields.\<close>

definition hashEntries :: "('db, 'wb) rocksdb \<Rightarrow> ('db, 'wb) staging \<Rightarrow> bytes \<Rightarrow> (bytes \<times> bytes) list" where
  "hashEntries api st k = iterFields api st (fieldPrefix kHash k)"

lemma hash_read:
  assumes "sa_readable api st" "storeInv (sa_view api st)" "okKey k"
    and "hashOf (valueOf api st k) = Some m"
  obtains d where "descOf (sa_view api st) k = Some d" "\<not> isWrongType d kHash"
    and "fieldsOf (sa_view api st) kHash k = m" "getSize d = Some (int (card (dom m)))"
    and "sorted_wrt (<) (map fst (hashEntries api st k))" "set (hashEntries api st k) = {(f, x). m f = Some x}"
    and "card (dom m) = length (hashEntries api st k)"
proof -
  obtain d where d: "descOf (sa_view api st) k = Some d"
    using storeInvE [OF assms(2,3)] by metis
  from hashOf_desc [OF assms(2,3) d] assms(4)
  have w: "\<not> isWrongType d kHash" and m: "fieldsOf (sa_view api st) kHash k = m"
    by (auto simp: valueOf_def split: if_splits)
  have sorted: "sorted_wrt (<) (map fst (hashEntries api st k))"
    unfolding hashEntries_def using iterFields_sorted [OF assms(1)] by blast
  have entries: "set (hashEntries api st k) = {(f, x). m f = Some x}"
    unfolding hashEntries_def using set_iterFields [OF assms(1), of kHash k] m by simp
  show ?thesis
    using that d w m sorted entries container_read [OF assms(1-3) container_types(1) d w]
    by (simp add: hashEntries_def)
qed

lemma hget_ok:
  assumes "sa_readable api st" "storeInv (sa_view api st)" "okKey k" "hashOf (valueOf api st k) = Some m"
  shows "hget api st k f = Some (case m f of Some x \<Rightarrow> (OK, x) | None \<Rightarrow> (NotFound, []))"
proof (rule hash_read [OF assms])
  fix d
  assume "descOf (sa_view api st) k = Some d" "\<not> isWrongType d kHash" "fieldsOf (sa_view api st) kHash k = m"
  then show ?thesis using assms(1) by (auto simp: hget_def fieldsOf_def)
qed

lemma hash_collections_ok:
  assumes "sa_readable api st" "storeInv (sa_view api st)" "okKey k" "hashOf (valueOf api st k) = Some m"
  shows "\<exists>es. sorted_wrt (<) (map fst es) \<and> set es = {(f, x). m f = Some x}
           \<and> hgetall api st k = Some (OK, concat (map (\<lambda>e. [fst e, snd e]) es))
           \<and> hkeys api st k = Some (OK, map fst es) \<and> hvals api st k = Some (OK, map snd es)
           \<and> hlen api st k = Some (OK, int (length es))"
proof (rule hash_read [OF assms])
  fix d
  assume d: "descOf (sa_view api st) k = Some d" "\<not> isWrongType d kHash"
    "getSize d = Some (int (card (dom m)))"
    "sorted_wrt (<) (map fst (hashEntries api st k))" "set (hashEntries api st k) = {(f, x). m f = Some x}"
    "card (dom m) = length (hashEntries api st k)"
  with assms(1) show ?thesis
    by (intro exI [of _ "hashEntries api st k"])
      (simp add: hgetall_def hkeys_def hvals_def hlen_def hashEntries_def)
qed

text \<open>Paging.\<close>

abbreviation flat :: "(bytes \<times> bytes) list \<Rightarrow> bytes list" where
  "flat es \<equiv> concat (map (\<lambda>e. [fst e, snd e]) es)"

lemma length_flat: "length (flat es) = 2 * length es"
  by (induction es) auto

lemma hscanLoop_eq:
  assumes "fs = map (\<lambda>e. (drop (length pre) (fst e), snd e)) (takeWhile (\<lambda>e. prefix pre (fst e)) es)"
    and "length acc \<le> count"
  shows "hscanLoop pre count (flat acc) es =
           (flat (acc @ take (count - length acc) fs),
            if count - length acc < length fs then fst (fs ! (count - length acc)) else [])"
  using assms
proof (induction es arbitrary: fs acc)
  case Nil
  then show ?case by simp
next
  case (Cons e es)
  show ?case
  proof (cases "prefix pre (fst e) \<and> length acc < count")
    case False
    with Cons.prems show ?thesis by (auto simp: length_flat Let_def)
  next
    case True
    let ?x = "(drop (length pre) (fst e), snd e)"
    let ?fs = "map (\<lambda>e. (drop (length pre) (fst e), snd e)) (takeWhile (\<lambda>e. prefix pre (fst e)) es)"
    have "hscanLoop pre count (flat acc) (e # es) = hscanLoop pre count (flat (acc @ [?x])) es"
      using True by (simp add: length_flat Let_def)
    also have "\<dots> = (flat ((acc @ [?x]) @ take (count - Suc (length acc)) ?fs),
        if count - Suc (length acc) < length ?fs then fst (?fs ! (count - Suc (length acc))) else [])"
      using Cons.IH [OF refl, of "acc @ [?x]"] True by simp
    finally have step: "hscanLoop pre count (flat acc) (e # es) =
        (flat ((acc @ [?x]) @ take (count - Suc (length acc)) ?fs),
         if count - Suc (length acc) < length ?fs then fst (?fs ! (count - Suc (length acc))) else [])" .
    have "fs = ?x # ?fs" "count - length acc = Suc (count - Suc (length acc))"
      using True Cons.prems by auto
    then show ?thesis unfolding step by simp
  qed
qed


definition page :: "(bytes \<times> bytes) list \<Rightarrow> bytes \<Rightarrow> nat \<Rightarrow> (bytes \<times> bytes) list" where
  "page es cursor count = take count (filter (\<lambda>e. cursor \<le> fst e) es)"

definition nextCursor :: "(bytes \<times> bytes) list \<Rightarrow> bytes \<Rightarrow> nat \<Rightarrow> bytes" where
  "nextCursor es cursor count =
     (let fs = filter (\<lambda>e. cursor \<le> fst e) es in if count < length fs then fst (fs ! count) else [])"

text \<open>Following the cursors visits every entry once: a page, then the rest from the next cursor.\<close>

lemma page_chain:
  assumes "sorted_wrt (<) (map fst es)" "0 < count"
  shows "filter (\<lambda>e. c \<le> fst e) es =
           page es c count
           @ (if nextCursor es c count = [] then []
              else filter (\<lambda>e. nextCursor es c count \<le> fst e) es)"
proof -
  let ?fs = "filter (\<lambda>e. c \<le> fst e) es"
  show ?thesis
  proof (cases "count < length ?fs")
    case False
    then show ?thesis by (simp add: page_def nextCursor_def Let_def)
  next
    case True
    have sorted: "sorted_wrt (\<lambda>a b. fst a < fst b) ?fs"
      using assms(1) by (simp add: sorted_wrt_map sorted_wrt_filter)
    have "fst (?fs ! 0) < fst (?fs ! count)"
      using sorted_wrt_nth_less [OF sorted] assms(2) True by simp
    then have "fst (?fs ! count) \<noteq> []" by auto
    with True filter_ge_split [OF assms(1) True] show ?thesis
      by (simp add: page_def nextCursor_def Let_def)
  qed
qed

lemma hscan_ok:
  assumes "sa_readable api st" "storeInv (sa_view api st)" "okKey k" "hashOf (valueOf api st k) = Some m"
  shows "hscan api st k cursor count =
           Some (OK, nextCursor (hashEntries api st k) cursor count,
                 flat (page (hashEntries api st k) cursor count))"
proof (rule hash_read [OF assms])
  fix d
  assume d: "descOf (sa_view api st) k = Some d" "\<not> isWrongType d kHash"
  let ?fs = "filter (\<lambda>e. cursor \<le> fst e) (hashEntries api st k)"
  have "hscanLoop (fieldPrefix kHash k) count [] (sa_iter api st (fieldKey kHash k cursor)) =
          (flat (take count ?fs), if count < length ?fs then fst (?fs ! count) else [])"
    using hscanLoop_eq [OF refl, of "[]" count "fieldPrefix kHash k" "sa_iter api st (fieldKey kHash k cursor)"]
      iterFields_from [OF assms(1), of kHash k cursor]
    by (simp add: hashEntries_def)
  with d assms(1) show ?thesis
    by (simp add: hscan_def page_def nextCursor_def Let_def)
qed

text \<open>The copy.\<close>

lemma map_of_entries:
  assumes "distinct (map fst es)" "set es = {(f, x). m f = Some x}"
  shows "map_of (rev es) = m"
proof
  fix f
  have "distinct (map fst (rev es))" using assms(1) by (simp add: rev_map [symmetric])
  with assms(2) show "map_of (rev es) f = m f"
    by (cases "m f") (auto simp: map_of_eq_None_iff image_iff)
qed

lemma hclone_ok:
  assumes "ready api st" "okKey src" "okKey tgt" "hashOf (valueOf api st src) = Some m"
    and "valueOf api st tgt = ANone" "card (dom m) < 2 ^ 63"
  shows "\<exists>st'. hclone api st src tgt = Some (OK, st') \<and> updated api st tgt (hashVal m) st'"
proof -
  have ok: "sa_ok api st" and inv: "storeInv (sa_view api st)" using assms(1) by blast+
  have "hashOf (valueOf api st tgt) = Some Map.empty" using assms(5) by simp
  from hash_open [OF assms(1,3) this] obtain t where t: "descOf (sa_view api st) tgt = Some t"
      "fieldsOf (sa_view api st) kHash tgt = Map.empty" "descriptorEmpty t \<or> keyType t = kHash" by blast
  have empty: "descriptorEmpty t"
    using absVal_cases(1) [OF inv assms(3) t(1)] assms(5) by (simp add: valueOf_def)
  from hash_read [OF sa_ok_readable [OF ok] inv assms(2,4)] obtain d
    where d: "descOf (sa_view api st) src = Some d" "\<not> isWrongType d kHash"
      "fieldsOf (sa_view api st) kHash src = m" "getSize d = Some (int (card (dom m)))"
      "sorted_wrt (<) (map fst (hashEntries api st src))" "set (hashEntries api st src) = {(f, x). m f = Some x}"
      "card (dom m) = length (hashEntries api st src)"
    by blast
  note cd = container_desc [OF inv assms(2) container_types(1) d(1)]
  have m: "finite (dom m)" "descriptorEmpty d \<Longrightarrow> m = Map.empty"
    using cd d(2,3) by (auto simp: isWrongType_def)
  have clone: "map_of (rev (hashEntries api st src)) = m"
    using map_of_entries [OF _ d(6)] d(5) by (simp add: strict_sorted_iff)
  obtain st1 where st1: "cloneFields api (openOp tgt kHash t) st 0 (hashEntries api st src)
        = Some (int (card (dom m)), st1)"
      "within api st kHash tgt st1" "fieldsOf (sa_view api st1) kHash tgt = m"
    using cloneFields_ok [OF ok _ _ _ t(2), of "openOp tgt kHash t" 0 "hashEntries api st src"] empty clone d(7)
    by auto
  have fin: "finalizesTo api st st1 (openOp tgt kHash t) (int (card (dom m))) False tgt (hashVal m)"
    using hash_update [OF assms(1,3) t(1,3) st1(2,3) m(1)] assms(6) by simp
  show ?thesis
  proof (cases "descriptorEmpty d")
    case True
    have "updated api st tgt (hashVal m) st"
      using assms m(2) [OF True] by (intro updated_refl) (auto simp: containerVal_def)
    with True ok t(1) empty d(1) show ?thesis
      by (simp add: hclone_def)
  next
    case False
    then have "keyType d = kHash" using d(2) by (auto simp: isWrongType_def)
    with False ok t(1) empty d st1 fin show ?thesis
      by (auto simp: hclone_def hashEntries_def elim!: finalizesToE)
  qed
qed

end
