(* ===== verification/SetOps.thy ===== *)
theory SetOps
  imports HashOps
begin

text \<open>
  The set commands of \<^verbatim>\<open>src/src/StateMachine.cc\<close>.  A set is stored like a hash whose values are
  all \<open>1\<close>; the writes are proved to be the operations on finite sets, the reads to return the
  elements in order.
\<close>

subsection \<open>Writes\<close>

fun saddLoop ::
  "('db, 'wb) rocksdb \<Rightarrow> write_operation \<Rightarrow> ('db, 'wb) staging \<Rightarrow> int \<Rightarrow> bytes list
    \<Rightarrow> (int \<times> ('db, 'wb) staging) option" where
  "saddLoop api op st added [] = Some (added, st)"
| "saddLoop api op st added (x # xs) = do {
     present \<leftarrow> wo_fieldExists api st op x;
     if \<not> present then do {
       st \<leftarrow> wo_writeField api st op x ''1'';
       saddLoop api op st (added + 1) xs }
     else saddLoop api op st added xs }"

definition sadd ::
  "('db, 'wb) rocksdb \<Rightarrow> ('db, 'wb) staging \<Rightarrow> bytes \<Rightarrow> bytes list
    \<Rightarrow> (status \<times> int \<times> ('db, 'wb) staging) option" where
  "sadd api st key args = do {
     op \<leftarrow> newWriteOperation api st key kSet;
     if \<not> isValid op then do { wo_destroy op; Some (wrong_type, 0, st) } else do {
       (added, st) \<leftarrow> saddLoop api op st 0 args;
       size \<leftarrow> wo_keySize op;
       (op, st) \<leftarrow> wo_finalize api st op (size + added) False;
       wo_destroy op;
       Some (OK, added, st) } }"

definition srem ::
  "('db, 'wb) rocksdb \<Rightarrow> ('db, 'wb) staging \<Rightarrow> bytes \<Rightarrow> bytes list
    \<Rightarrow> (status \<times> int \<times> ('db, 'wb) staging) option" where
  "srem api st key args = do {
     op \<leftarrow> newWriteOperation api st key kSet;
     if \<not> isValid op then do { wo_destroy op; Some (wrong_type, 0, st) } else do {
       (removed, st) \<leftarrow> deleteFields api op st 0 args;
       size \<leftarrow> wo_keySize op;
       (op, st) \<leftarrow> wo_finalize api st op (size - removed) False;
       wo_destroy op;
       Some (OK, removed, st) } }"

text \<open>\<open>smove\<close> leaves \<open>outcome\<close> alone on a type error; the dispatcher passes 0.\<close>

definition smove ::
  "('db, 'wb) rocksdb \<Rightarrow> ('db, 'wb) staging \<Rightarrow> bytes \<Rightarrow> bytes \<Rightarrow> bytes
    \<Rightarrow> (status \<times> int \<times> ('db, 'wb) staging) option" where
  "smove api st source destination element = do {
     op1 \<leftarrow> newWriteOperation api st source kSet;
     if \<not> isValid op1 then do { wo_destroy op1; Some (wrong_type, 0, st) } else do {
       op2 \<leftarrow> newWriteOperation api st destination kSet;
       size1 \<leftarrow> wo_keySize op1;
       if \<not> isValid op2 then do {
         (op1, st) \<leftarrow> wo_finalize api st op1 size1 False;
         wo_destroy op2; wo_destroy op1;
         Some (wrong_type, 0, st) }
       else do {
         (gone, st) \<leftarrow> wo_deleteField api st op1 element;
         size2 \<leftarrow> wo_keySize op2;
         if gone then do {
           (op1, st) \<leftarrow> wo_finalize api st op1 (size1 - 1) False;
           present \<leftarrow> wo_fieldExists api st op2 element;
           (op2, st) \<leftarrow> (if present then wo_finalize api st op2 size2 False
                         else do {
                           st \<leftarrow> wo_writeField api st op2 element ''1'';
                           wo_finalize api st op2 (size2 + 1) False });
           wo_destroy op2; wo_destroy op1;
           Some (OK, 1, st) }
         else do {
           (op1, st) \<leftarrow> wo_finalize api st op1 size1 False;
           (op2, st) \<leftarrow> wo_finalize api st op2 size2 False;
           wo_destroy op2; wo_destroy op1;
           Some (OK, 0, st) } } } }"

subsection \<open>Reads\<close>

text \<open>\<open>sismember\<close> reads through the snapshot of the staging area, not through the area.\<close>

definition sismember ::
  "('db, 'wb) rocksdb \<Rightarrow> ('db, 'wb) staging \<Rightarrow> bytes \<Rightarrow> bytes \<Rightarrow> status option" where
  "sismember api st key element = do {
     ok \<leftarrow> assertKeyType api st key kSet;
     if \<not> ok then Some wrong_type else do {
       loc \<leftarrow> fieldLocator kSet key element;
       case snapshot st of
         None \<Rightarrow> None
       | Some db \<Rightarrow> Some (fst (read_status (db_get api db loc))) } }"

definition smembers ::
  "('db, 'wb) rocksdb \<Rightarrow> ('db, 'wb) staging \<Rightarrow> bytes \<Rightarrow> (status \<times> bytes list) option" where
  "smembers api st key = do {
     ok \<leftarrow> assertKeyType api st key kSet;
     if \<not> ok then Some (wrong_type, []) else do {
       pre \<leftarrow> fieldLocatorPrefix kSet key;
       Some (OK, map fst (iterFields api st pre)) } }"

definition scard ::
  "('db, 'wb) rocksdb \<Rightarrow> ('db, 'wb) staging \<Rightarrow> bytes \<Rightarrow> (status \<times> int) option" where
  "scard api st key = do {
     info \<leftarrow> getKeyDescriptor api st key;
     if isWrongType info kSet then Some (wrong_type, 0) else do {
       len \<leftarrow> getSize info;
       Some (OK, len) } }"

fun sscanLoop :: "bytes \<Rightarrow> nat \<Rightarrow> bytes list \<Rightarrow> (bytes \<times> bytes) list \<Rightarrow> bytes list \<times> bytes" where
  "sscanLoop pre count res [] = (res, [])"
| "sscanLoop pre count res (e # es) =
     (if \<not> startsWith (fst e) pre then (res, [])
      else let fieldname = drop (length pre) (fst e) in
        if length res \<ge> count then (res, fieldname)
        else sscanLoop pre count (res @ [fieldname]) es)"

definition sscan ::
  "('db, 'wb) rocksdb \<Rightarrow> ('db, 'wb) staging \<Rightarrow> bytes \<Rightarrow> bytes \<Rightarrow> nat
    \<Rightarrow> (status \<times> bytes \<times> bytes list) option" where
  "sscan api st key cursor count = do {
     ok \<leftarrow> assertKeyType api st key kSet;
     if \<not> ok then Some (wrong_type, [], []) else do {
       pre \<leftarrow> fieldLocatorPrefix kSet key;
       loc \<leftarrow> fieldLocator kSet key cursor;
       let (res, newCursor) = sscanLoop pre count [] (sa_iter api st loc);
       Some (OK, newCursor, res) } }"

subsection \<open>Opening a set\<close>

fun setOf :: "aval \<Rightarrow> bytes set option" where
  "setOf ANone = Some {}"
| "setOf (ASet s) = Some s"
| "setOf _ = None"

definition setVal :: "bytes set \<Rightarrow> aval" where
  "setVal s = (if s = {} then ANone else ASet s)"

lemma containerVal_set [simp]: "containerVal kSet m = setVal (dom m)"
  by (auto simp: containerVal_def setVal_def)

lemma setOf_desc:
  assumes "storeInv v" "okKey k" "descOf v k = Some d"
  shows "setOf (absVal v k) = (if isWrongType d kSet then None else Some (dom (fieldsOf v kSet k)))"
proof (cases "descriptorEmpty d \<or> keyType d = kSet")
  case True
  with container_absVal [OF assms(1,2) _ assms(3), of kSet] show ?thesis
    by (auto simp: isWrongType_def setVal_def)
next
  case False
  with absVal_cases [OF assms] show ?thesis
    by (cases "absVal v k") (auto simp: isWrongType_def)
qed

lemma set_desc:
  assumes "storeInv (sa_view api st)" "okKey k" "setOf (valueOf api st k) = Some s"
  obtains d where "descOf (sa_view api st) k = Some d" "\<not> isWrongType d kSet"
    and "dom (fieldsOf (sa_view api st) kSet k) = s"
proof -
  obtain d where d: "descOf (sa_view api st) k = Some d"
    using storeInvE [OF assms(1,2)] by metis
  from setOf_desc [OF assms(1,2) d] assms(3) that d show ?thesis
    by (auto simp: valueOf_def split: if_splits)
qed

lemmas set_update = container_update [OF _ _ container_types(2), simplified]

subsection \<open>Writes refine set operations\<close>

lemma saddLoop_ok:
  assumes "sa_ok api st" "writable op" "keyType (keyinfo op) = kSet" "redisKey op = k"
    and "finite s" "dom (fieldsOf (sa_view api st) kSet k) = s"
  shows "\<exists>st'. saddLoop api op st n xs = Some (n + int (card (s \<union> set xs)) - int (card s), st')
           \<and> within api st kSet k st' \<and> dom (fieldsOf (sa_view api st') kSet k) = s \<union> set xs"
  using assms
proof (induction xs arbitrary: st n s)
  case Nil
  then show ?case by simp
next
  case (Cons x xs)
  note ops = wo_field_ops [OF Cons.prems(1-3) fieldType_simps(2)]
  note put = within_put_field [OF Cons.prems(1) fieldType_simps(2), of k x "''1''"]
  show ?case
  proof (cases "x \<in> s")
    case True
    then have "s \<union> set (x # xs) = s \<union> set xs" by auto
    with Cons.IH [of st s n] Cons.prems True show ?thesis
      by (auto simp: ops fieldsOf_apply)
  next
    case False
    let ?st1 = "put_st api st (fieldKey kSet k x) ''1''"
    have un: "insert x s \<union> set xs = s \<union> set (x # xs)" by auto
    have "dom (fieldsOf (sa_view api ?st1) kSet k) = insert x s" "sa_ok api ?st1"
      using put Cons.prems by simp_all
    from Cons.IH [OF this(2) Cons.prems(2-4) finite.insertI [OF Cons.prems(5)] this(1), of "n + 1"]
    obtain st' where "saddLoop api op ?st1 (n + 1) xs
          = Some (n + 1 + int (card (s \<union> set (x # xs))) - int (card (insert x s)), st')"
        "within api ?st1 kSet k st'" "dom (fieldsOf (sa_view api st') kSet k) = s \<union> set (x # xs)"
      unfolding un by blast
    with within_trans [OF put(1)] Cons.prems False show ?thesis
      by (auto simp: ops fieldsOf_apply)
  qed
qed

lemma sadd_ok:
  assumes "ready api st" "okKey k" "setOf (valueOf api st k) = Some s" "card s + length xs < 2 ^ 63"
  shows "\<exists>st'. sadd api st k xs = Some (OK, int (card (set xs - s)), st')
           \<and> updated api st k (setVal (s \<union> set xs)) st'"
proof -
  have ok: "sa_ok api st" and inv: "storeInv (sa_view api st)" using assms(1) by blast+
  from set_desc [OF inv assms(2,3)] obtain d where d: "descOf (sa_view api st) k = Some d"
      "\<not> isWrongType d kSet" "dom (fieldsOf (sa_view api st) kSet k) = s"
    by blast
  note op = container_open [OF assms(1,2) container_types(2) d(1,2)]
  have fin: "finite s" using op(2) d(3) by simp
  let ?n = "card (s \<union> set xs)"
  have n: "?n = card s + card (set xs - s)"
    using fin by (subst Un_Diff_cancel [symmetric], subst card_Un_disjoint) auto
  obtain st1 where st1: "saddLoop api (openOp k kSet d) st 0 xs = Some (int ?n - int (card s), st1)"
      "within api st kSet k st1" "dom (fieldsOf (sa_view api st1) kSet k) = s \<union> set xs"
    using saddLoop_ok [OF ok _ op(3) _ fin d(3), of 0 xs] op(1) by auto
  have "?n < 2 ^ 63"
    using n card_length [of xs] card_mono [of "set xs" "set xs - s"] assms(4) by force
  with set_update [OF assms(1,2) d(1) op(1) st1(2) refl] fin
  have "finalizesTo api st st1 (openOp k kSet d) (int ?n) False k (setVal (s \<union> set xs))"
    unfolding st1(3) by simp
  with ok d(1,3) op st1(1) show ?thesis
    by (auto simp: sadd_def n elim!: finalizesToE)
qed

lemma srem_ok:
  assumes "ready api st" "okKey k" "setOf (valueOf api st k) = Some s" "card s < 2 ^ 63"
  shows "\<exists>st'. srem api st k xs = Some (OK, int (card (s \<inter> set xs)), st')
           \<and> updated api st k (setVal (s - set xs)) st'"
proof -
  have ok: "sa_ok api st" and inv: "storeInv (sa_view api st)" using assms(1) by blast+
  from set_desc [OF inv assms(2,3)] obtain d where d: "descOf (sa_view api st) k = Some d"
      "\<not> isWrongType d kSet" "dom (fieldsOf (sa_view api st) kSet k) = s"
    by blast
  note op = container_open [OF assms(1,2) container_types(2) d(1,2)]
  have fin: "finite s" using op(2) d(3) by simp
  obtain st1 where st1: "deleteFields api (openOp k kSet d) st 0 xs = Some (int (card (s \<inter> set xs)), st1)"
      "within api st kSet k st1" "dom (fieldsOf (sa_view api st1) kSet k) = s - set xs"
    using deleteFields_ok [OF ok _ op(3) _ _ op(2) refl, where n = 0 and fs = xs] op(1) d(3)
    by (auto simp: Diff_eq)
  have n: "int (card (s - set xs)) = int (card s) - int (card (s \<inter> set xs))"
    using fin by (simp add: card_Diff_subset_Int card_mono of_nat_diff)
  have "card (s - set xs) < 2 ^ 63"
    using card_mono [OF fin, of "s - set xs"] assms(4) by auto
  with set_update [OF assms(1,2) d(1) op(1) st1(2) refl] fin
  have "finalizesTo api st st1 (openOp k kSet d) (int (card s) - int (card (s \<inter> set xs))) False k
          (setVal (s - set xs))"
    unfolding st1(3) n by simp
  with ok d(1,3) op st1(1) show ?thesis
    by (auto simp: srem_def elim!: finalizesToE)
qed


lemma updated_fieldsOf:
  assumes "updated api st k a st'" "okKey k" "okKey k'" "k' \<noteq> k" "fieldType kt"
  shows "fieldsOf (sa_view api st') kt k' = fieldsOf (sa_view api st) kt k'"
  unfolding fieldsOf_def using updated_owned [OF assms(1-4)] owned_fieldKey [OF assms(5)] by blast

text \<open>Removing and adding one element.\<close>

lemma set_remove_one:
  assumes "ready api st" "okKey k" "descOf (sa_view api st) k = Some d" "\<not> isWrongType d kSet"
    and "dom (fieldsOf (sa_view api st) kSet k) = s" "card s < 2 ^ 63"
  shows "finalizesTo api st (if x \<in> s then del_st api st (fieldKey kSet k x) else st) (openOp k kSet d)
           (int (card s) - of_bool (x \<in> s)) False k (setVal (s - {x}))"
proof -
  have ok: "sa_ok api st" using assms(1) by blast
  note op = container_open [OF assms(1,2) container_types(2) assms(3,4)]
  have fin: "finite s" using op(2) assms(5) by simp
  let ?st1 = "if x \<in> s then del_st api st (fieldKey kSet k x) else st"
  have w: "within api st kSet k ?st1" and dm: "dom (fieldsOf (sa_view api ?st1) kSet k) = s - {x}"
    using within_del_field [OF ok fieldType_simps(2), of k x] ok assms(5) by auto
  have n: "int (card (s - {x})) = int (card s) - of_bool (x \<in> s)"
    using card_Suc_Diff1 [OF fin, of x] by (cases "x \<in> s") simp_all
  have "card (s - {x}) < 2 ^ 63"
    using card_mono [OF fin, of "s - {x}"] assms(6) by auto
  with set_update [OF assms(1-3) op(1) w refl] fin show ?thesis
    unfolding n [symmetric] dm by simp
qed

lemma set_insert_one:
  assumes "ready api st" "okKey k" "descOf (sa_view api st) k = Some d" "\<not> isWrongType d kSet"
    and "dom (fieldsOf (sa_view api st) kSet k) = s" "card s + 1 < 2 ^ 63"
  shows "finalizesTo api st (if b \<and> x \<notin> s then put_st api st (fieldKey kSet k x) ''1'' else st)
           (openOp k kSet d) (int (card s) + of_bool (b \<and> x \<notin> s)) False k
           (setVal (if b then insert x s else s))"
proof -
  have ok: "sa_ok api st" using assms(1) by blast
  note op = container_open [OF assms(1,2) container_types(2) assms(3,4)]
  have fin: "finite s" using op(2) assms(5) by simp
  let ?st1 = "if b \<and> x \<notin> s then put_st api st (fieldKey kSet k x) ''1'' else st"
  let ?u = "if b then insert x s else s"
  have w: "within api st kSet k ?st1" and dm: "dom (fieldsOf (sa_view api ?st1) kSet k) = ?u"
    using within_put_field [OF ok fieldType_simps(2), of k x] ok assms(5) by auto
  have n: "int (card ?u) = int (card s) + of_bool (b \<and> x \<notin> s)" and "card ?u < 2 ^ 63"
    using fin assms(6) by (auto simp: insert_absorb card_insert_if)
  with set_update [OF assms(1-3) op(1) w refl] fin show ?thesis
    unfolding n [symmetric] dm by simp
qed

text \<open>A move between two different sets is a removal followed by an insertion.\<close>

lemma smove_ok:
  assumes "ready api st" "okKey src" "okKey dst" "src \<noteq> dst"
    and "setOf (valueOf api st src) = Some s" "setOf (valueOf api st dst) = Some t"
    and "card s < 2 ^ 63" "card t + 1 < 2 ^ 63"
  shows "\<exists>st1 st'. smove api st src dst x = Some (OK, of_bool (x \<in> s), st')
           \<and> updated api st src (setVal (s - {x})) st1
           \<and> updated api st1 dst (setVal (if x \<in> s then insert x t else t)) st'"
proof -
  have ok: "sa_ok api st" and inv: "storeInv (sa_view api st)" using assms(1) by blast+
  from set_desc [OF inv assms(2,5)] obtain d where d: "descOf (sa_view api st) src = Some d"
      "\<not> isWrongType d kSet" "dom (fieldsOf (sa_view api st) kSet src) = s"
    by blast
  from set_desc [OF inv assms(3,6)] obtain e where e: "descOf (sa_view api st) dst = Some e"
      "\<not> isWrongType e kSet" "dom (fieldsOf (sa_view api st) kSet dst) = t"
    by blast
  note op1 = container_open [OF assms(1,2) container_types(2) d(1,2)]
  note op2 = container_open [OF assms(1,3) container_types(2) e(1,2)]
  from set_remove_one [OF assms(1,2) d assms(7), of x] obtain o1 st2
    where st2: "wo_finalize api (if x \<in> s then del_st api st (fieldKey kSet src x) else st)
          (openOp src kSet d) (int (card s) - of_bool (x \<in> s)) False = Some (o1, st2)"
      "wo_destroy o1 = Some ()" "updated api st src (setVal (s - {x})) st2"
    by (rule finalizesToE)
  have r2: "ready api st2" "sa_ok api st2" and e2: "descOf (sa_view api st2) dst = Some e"
      "dom (fieldsOf (sa_view api st2) kSet dst) = t"
    using updated_ready [OF st2(3)] updated_descOf [OF st2(3)] assms(4) e
      updated_fieldsOf [OF st2(3) assms(2,3) _ fieldType_simps(2)] by auto
  from set_insert_one [OF r2(1) assms(3) e2(1) e(2) e2(2) assms(8), of "x \<in> s" x] obtain o2 st'
    where st': "wo_finalize api (if x \<in> s \<and> x \<notin> t then put_st api st2 (fieldKey kSet dst x) ''1'' else st2)
          (openOp dst kSet e) (int (card t) + of_bool (x \<in> s \<and> x \<notin> t)) False = Some (o2, st')"
      "wo_destroy o2 = Some ()" "updated api st2 dst (setVal (if x \<in> s then insert x t else t)) st'"
    by (rule finalizesToE)
  have pres: "sa_view api st (fieldKey kSet src x) = None \<longleftrightarrow> x \<notin> s"
      "sa_view api st2 (fieldKey kSet dst x) = None \<longleftrightarrow> x \<notin> t"
    using d(3) e2(2) by (auto simp: fieldsOf_apply)
  have "smove api st src dst x = Some (OK, of_bool (x \<in> s), st')"
    using ok r2(2) d(1) e(1) d(3) e(3) op1 op2 pres st2(1,2) st'(1,2)
      wo_field_ops [OF ok _ op1(3) fieldType_simps(2)] wo_field_ops [OF r2(2) _ op2(3) fieldType_simps(2)]
    by (cases "x \<in> s"; cases "x \<in> t") (simp_all add: smove_def del: not_None_eq)
  with st2(3) st'(3) show ?thesis by blast
qed

subsection \<open>Reads\<close>

lemma set_entries:
  assumes "sa_readable api st"
  shows "map fst (iterFields api st (fieldPrefix kSet k))
           = sorted_list_of_set (dom (fieldsOf (sa_view api st) kSet k))"
proof -
  let ?es = "iterFields api st (fieldPrefix kSet k)"
  have "set (map fst ?es) = dom (fieldsOf (sa_view api st) kSet k)"
    using set_iterFields [OF assms, of kSet k] by (auto simp: image_iff)
  moreover have "sorted_wrt (<) (map fst ?es)" by (rule iterFields_sorted [OF assms])
  ultimately show ?thesis
    by (metis sorted_list_of_set.idem_if_sorted_distinct strict_sorted_iff)
qed

lemma set_reads_ok:
  assumes "sa_readable api st" "storeInv (sa_view api st)" "okKey k" "setOf (valueOf api st k) = Some s"
  shows "smembers api st k = Some (OK, sorted_list_of_set s)" "scard api st k = Some (OK, int (card s))"
proof -
  from set_desc [OF assms(2-4)] obtain d where d: "descOf (sa_view api st) k = Some d"
      "\<not> isWrongType d kSet" "dom (fieldsOf (sa_view api st) kSet k) = s"
    by blast
  from d assms(1) set_entries [OF assms(1), of k] show "smembers api st k = Some (OK, sorted_list_of_set s)"
    by (simp add: smembers_def)
  from d assms(1) container_read(1) [OF assms(1-3) container_types(2) d(1,2)]
  show "scard api st k = Some (OK, int (card s))"
    by (simp add: scard_def)
qed

lemma sscanLoop_eq:
  assumes "fs = map (\<lambda>e. drop (length pre) (fst e)) (takeWhile (\<lambda>e. prefix pre (fst e)) es)"
    and "length acc \<le> count"
  shows "sscanLoop pre count acc es =
           (acc @ take (count - length acc) fs,
            if count - length acc < length fs then fs ! (count - length acc) else [])"
  using assms
proof (induction es arbitrary: fs acc)
  case Nil
  then show ?case by simp
next
  case (Cons e es)
  show ?case
  proof (cases "prefix pre (fst e) \<and> length acc < count")
    case False
    with Cons.prems show ?thesis by (auto simp: Let_def)
  next
    case True
    let ?x = "drop (length pre) (fst e)"
    let ?fs = "map (\<lambda>e. drop (length pre) (fst e)) (takeWhile (\<lambda>e. prefix pre (fst e)) es)"
    have "sscanLoop pre count acc (e # es) = sscanLoop pre count (acc @ [?x]) es"
      using True by (simp add: Let_def)
    also have "\<dots> = ((acc @ [?x]) @ take (count - Suc (length acc)) ?fs,
        if count - Suc (length acc) < length ?fs then ?fs ! (count - Suc (length acc)) else [])"
      using Cons.IH [OF refl, of "acc @ [?x]"] True by simp
    finally have step: "sscanLoop pre count acc (e # es) =
        ((acc @ [?x]) @ take (count - Suc (length acc)) ?fs,
         if count - Suc (length acc) < length ?fs then ?fs ! (count - Suc (length acc)) else [])" .
    have "fs = ?x # ?fs" "count - length acc = Suc (count - Suc (length acc))"
      using True Cons.prems by auto
    then show ?thesis unfolding step by simp
  qed
qed

lemma sscan_ok:
  assumes "sa_readable api st" "storeInv (sa_view api st)" "okKey k" "setOf (valueOf api st k) = Some s"
  shows "\<exists>es. map fst es = sorted_list_of_set s
           \<and> sscan api st k cursor count = Some (OK, nextCursor es cursor count, map fst (page es cursor count))"
proof -
  from set_desc [OF assms(2-4)] obtain d where d: "descOf (sa_view api st) k = Some d"
      "\<not> isWrongType d kSet" by blast
  let ?es = "iterFields api st (fieldPrefix kSet k)"
  let ?fs = "filter (\<lambda>e. cursor \<le> fst e) ?es"
  have "map fst ?es = sorted_list_of_set s"
    using set_reads_ok(1) [OF assms] d assms(1) by (simp add: smembers_def)
  moreover have "sscanLoop (fieldPrefix kSet k) count [] (sa_iter api st (fieldKey kSet k cursor)) =
      (map fst (take count ?fs), if count < length ?fs then fst (?fs ! count) else [])"
  proof -
    have "map fst ?fs = map (\<lambda>e. drop (length (fieldPrefix kSet k)) (fst e))
        (takeWhile (\<lambda>e. prefix (fieldPrefix kSet k) (fst e)) (sa_iter api st (fieldKey kSet k cursor)))"
      by (simp add: iterFields_from [OF assms(1), symmetric] comp_def)
    from sscanLoop_eq [OF this, of "[]" count] show ?thesis by (auto simp: take_map)
  qed
  ultimately show ?thesis
    using d assms(1)
    by (intro exI [of _ ?es]) (simp add: sscan_def page_def nextCursor_def Let_def)
qed

subsection \<open>Moving an element to the set it is in\<close>

text \<open>
  With the same key as source and destination both write operations hold the size from before
  the move.  The element is removed and added again, and the second operation stores a size that
  is one too large: the descriptor no longer counts the elements.
\<close>

lemma smove_same_key:
  assumes "ready api st" "okKey k" "setOf (valueOf api st k) = Some s" "x \<in> s" "card s + 1 < 2 ^ 63"
  shows "\<exists>st'. smove api st k k x = Some (OK, 1, st')
           \<and> scard api st' k = Some (OK, int (card s) + 1)
           \<and> smembers api st' k = Some (OK, sorted_list_of_set s)"
proof -
  have inv: "storeInv (sa_view api st)" and ok: "sa_ok api st" using assms(1) by blast+
  from set_desc [OF inv assms(2,3)] obtain d where d: "descOf (sa_view api st) k = Some d"
      "\<not> isWrongType d kSet" "dom (fieldsOf (sa_view api st) kSet k) = s"
    by blast
  note op = container_open [OF assms(1,2) container_types(2) d(1,2)]
  note cd = container_desc [OF inv assms(2) container_types(2) d(1) op(1)]
  have ne: "\<not> descriptorEmpty d" "keyType d = kSet" and wf: "wfDescriptor d"
    using cd(3,4) d(3) assms(4) op(1) by auto
  have size: "sz d = int (card s)" using cd(2) d(3) by simp
  from set_remove_one [OF assms(1,2) d, of x] assms(4,5) obtain o1 st2
    where st2: "wo_finalize api (del_st api st (fieldKey kSet k x)) (openOp k kSet d) (int (card s) - 1) False
          = Some (o1, st2)" "wo_destroy o1 = Some ()" "updated api st k (setVal (s - {x})) st2"
    by (auto elim: finalizesToE)
  have r2: "ready api st2" "sa_ok api st2" using updated_ready [OF st2(3)] by blast+
  have "setOf (valueOf api st2 k) = Some (s - {x})"
    using updated_valueOf [OF st2(3) assms(2)] by (simp add: setVal_def)
  from set_desc [OF readyD(2) [OF r2(1)] assms(2) this]
  have dom2: "dom (fieldsOf (sa_view api st2) kSet k) = s - {x}" by blast
  let ?st3 = "put_st api st2 (fieldKey kSet k x) ''1''"
  let ?d' = "d\<lparr>sz := int (card s) + 1\<rparr>"
  let ?st' = "finalize_st api ?st3 (openOp k kSet d) (int (card s) + 1) False"
  have ok3: "sa_ok api ?st3" using r2(2) by simp
  have wf': "wfDescriptor (keyinfo (openOp k kSet d)\<lparr>sz := int (card s) + 1\<rparr>)"
    using wf ne assms(5) by (auto simp: wfDescriptor_def int64_def)
  from wo_finalize_Some [OF ok3 _ _ wf', of False] ne obtain o2
    where fin: "wo_finalize api ?st3 (openOp k kSet d) (int (card s) + 1) False = Some (o2, ?st')"
      "wo_destroy o2 = Some ()"
    by auto
  have desc: "descOf (sa_view api ?st') k = Some ?d'"
    using finalize_st_descOf [OF ok3 wf', of False] ne size by simp
  have "fieldsOf (sa_view api ?st') kSet k = (fieldsOf (sa_view api st2) kSet k)(x \<mapsto> ''1'')"
    using finalize_st_view_other [OF ok3, of _ "openOp k kSet d"] r2(2)
    by (auto simp: fieldsOf_def)
  then have dom': "dom (fieldsOf (sa_view api ?st') kSet k) = s" using dom2 assms(4) by auto
  have move: "smove api st k k x = Some (OK, 1, ?st')"
    using ok r2(2) d(1,3) op ne assms(4) dom2 st2(1,2) fin
      wo_field_ops [OF ok _ op(3) fieldType_simps(2)] wo_field_ops [OF r2(2) _ op(3) fieldType_simps(2)]
    by (auto simp: smove_def fieldsOf_apply)
  show ?thesis
    using move desc ok3 ne dom' set_entries [of api ?st' k]
    by (auto simp: scard_def smembers_def getSize_def isWrongType_def)
qed

end
