(* ===== verification/LeaseOps.thy ===== *)
theory LeaseOps
  imports FieldContainers
begin

text \<open>
  Leases and the clock of the state machine (\<^verbatim>\<open>src/src/StateMachine.cc\<close>,
  \<^verbatim>\<open>src/src/storage/ExpirationEventIterator.cc\<close>).  A lease is an entry with its holder, a
  descriptor with the time of the last renewal and the deadline, and an expiration event, an
  entry sorted by deadline.  The pending events are mirrored in the cache of the state machine.
\<close>

record lease_info =
  li_value :: bytes
  li_lastRenewal :: u64
  li_deadline :: u64

datatype LeaseAcquisitionStatus =
  kKeyTypeMismatch | kAcquired | kRenewed | kFailedDueToOtherOwner

subsection \<open>Operations\<close>

definition expirationCache :: "('db, 'wb) staging \<Rightarrow> expiration_cache" where
  "expirationCache st = mExpirationCache (stateMachine st)"

definition setCache :: "expiration_cache \<Rightarrow> ('db, 'wb) staging \<Rightarrow> ('db, 'wb) staging" where
  "setCache c st = st\<lparr>stateMachine := stateMachine st\<lparr>mExpirationCache := c\<rparr>\<rparr>"

definition getClock :: "('db, 'wb) rocksdb \<Rightarrow> ('db, 'wb) staging \<Rightarrow> u64 option" where
  "getClock api st = do {
     prevValue \<leftarrow> throw_on_error (sa_get api st kStateMachine_Clock);
     assert_that (length prevValue = 8);
     Some (binaryStringToUnsignedInt prevValue) }"

text \<open>\<open>lease_release\<close> after the timekeeping, that is with \<open>clockUpdate = 0\<close>.\<close>

definition lease_release_now ::
  "('db, 'wb) rocksdb \<Rightarrow> ('db, 'wb) staging \<Rightarrow> bytes \<Rightarrow> (status \<times> ('db, 'wb) staging) option" where
  "lease_release_now api st key = do {
     op \<leftarrow> newWriteOperation api st key kLease;
     if \<not> isValid op then do { wo_destroy op; Some (wrong_type, st) }
     else if \<not> redisKeyExists op then do {
       (op, st) \<leftarrow> wo_finalize api st op 0 False;
       wo_destroy op;
       Some (NotFound, st) }
     else do {
       deadline \<leftarrow> getEndIndex (keyinfo op);
       throw_on_error (sa_exists api st (expirationEventLocator deadline key));
       c \<leftarrow> cacheRemove deadline key (expirationCache st);
       let st = setCache c st;
       st \<leftarrow> sa_singleDelete api st (expirationEventLocator deadline key);
       throw_on_error (sa_exists api st (leaseLocator key));
       st \<leftarrow> sa_del api st (leaseLocator key);
       (op, st) \<leftarrow> wo_finalize api st op 0 False;
       wo_destroy op;
       Some (OK, st) } }"

text \<open>The loop of \<open>advanceClock\<close> that clears the leases past the deadline.\<close>

partial_function (option) releaseExpired ::
  "('db, 'wb) rocksdb \<Rightarrow> u64 \<Rightarrow> ('db, 'wb) staging \<Rightarrow> ('db, 'wb) staging option" where
  "releaseExpired api newValue st =
     (if \<not> cacheEmpty (expirationCache st) \<and> getFrontDeadline (expirationCache st) \<le> newValue
      then Option.bind (lease_release_now api st (getFrontLease (expirationCache st)))
             (\<lambda>r. if fst r = OK then releaseExpired api newValue (snd r) else None)
      else Some st)"

definition advanceClock ::
  "('db, 'wb) rocksdb \<Rightarrow> ('db, 'wb) staging \<Rightarrow> u64 \<Rightarrow> ('db, 'wb) staging option" where
  "advanceClock api st newValue = do {
     prevValue \<leftarrow> getClock api st;
     assert_that (\<not> newValue < prevValue);
     st \<leftarrow> releaseExpired api newValue st;
     sa_put api st kStateMachine_Clock (unsignedIntToBinaryString newValue) }"

definition maybeAdvanceClock ::
  "('db, 'wb) rocksdb \<Rightarrow> ('db, 'wb) staging \<Rightarrow> u64 \<Rightarrow> (u64 \<times> ('db, 'wb) staging) option" where
  "maybeAdvanceClock api st clockUpdate = do {
     currentClock \<leftarrow> getClock api st;
     if currentClock < clockUpdate then do {
       st \<leftarrow> advanceClock api st clockUpdate;
       Some (clockUpdate, st) }
     else Some (currentClock, st) }"

definition lease_get ::
  "('db, 'wb) rocksdb \<Rightarrow> ('db, 'wb) staging \<Rightarrow> bytes \<Rightarrow> u64
    \<Rightarrow> (status \<times> lease_info option \<times> ('db, 'wb) staging) option" where
  "lease_get api st key clockUpdate = do {
     (clk, st) \<leftarrow> maybeAdvanceClock api st clockUpdate;
     info \<leftarrow> getKeyDescriptor api st key;
     if descriptorEmpty info then Some (NotFound, None, st)
     else if keyType info \<noteq> kLease then Some (wrong_type, None, st)
     else do {
       val \<leftarrow> throw_on_error (sa_get api st (leaseLocator key));
       s \<leftarrow> getStartIndex info;
       e \<leftarrow> getEndIndex info;
       Some (OK, Some \<lparr>li_value = val, li_lastRenewal = s, li_deadline = e\<rparr>, st) } }"

definition lease_acquire ::
  "('db, 'wb) rocksdb \<Rightarrow> ('db, 'wb) staging \<Rightarrow> bytes \<Rightarrow> bytes \<Rightarrow> u64 \<Rightarrow> u64
    \<Rightarrow> (LeaseAcquisitionStatus \<times> lease_info option \<times> ('db, 'wb) staging) option" where
  "lease_acquire api st key val clockUpdate0 duration = do {
     assert_that (val \<noteq> []);
     (clockUpdate, st) \<leftarrow> maybeAdvanceClock api st clockUpdate0;
     op \<leftarrow> newWriteOperation api st key kLease;
     if \<not> isValid op then do { wo_destroy op; Some (kKeyTypeMismatch, None, st) } else do {
       holder \<leftarrow> ok_or_notfound (sa_get api st (leaseLocator key));
       let oldLeaseHolder = snd (read_status (sa_get api st (leaseLocator key)));
       if holder \<and> oldLeaseHolder \<noteq> val then do {
         s \<leftarrow> getStartIndex (keyinfo op);
         e \<leftarrow> getEndIndex (keyinfo op);
         wo_destroy (wo_cancel op);
         Some (kFailedDueToOtherOwner,
               Some \<lparr>li_value = oldLeaseHolder, li_lastRenewal = s, li_deadline = e\<rparr>, st) }
       else do {
         let extended = redisKeyExists op;
         st \<leftarrow> (if redisKeyExists op then do {
                  oldDeadline \<leftarrow> getEndIndex (keyinfo op);
                  c \<leftarrow> cacheRemove oldDeadline key (expirationCache st);
                  let st = setCache c st;
                  throw_on_error (sa_exists api st (expirationEventLocator oldDeadline key));
                  sa_singleDelete api st (expirationEventLocator oldDeadline key) }
                else Some st);
         let expirationTimestamp = clockUpdate + duration;
         info \<leftarrow> setStartIndex clockUpdate (keyinfo op);
         info \<leftarrow> setEndIndex expirationTimestamp info;
         let op = op\<lparr>keyinfo := info\<rparr>;
         c \<leftarrow> cacheInsert expirationTimestamp key (expirationCache st);
         let st = setCache c st;
         st \<leftarrow> sa_put api st (expirationEventLocator expirationTimestamp key) ''1'';
         st \<leftarrow> wo_write api st op val;
         s \<leftarrow> getStartIndex (keyinfo op);
         e \<leftarrow> getEndIndex (keyinfo op);
         (op, st) \<leftarrow> wo_finalize api st op (int (length val)) True;
         wo_destroy op;
         Some (if extended then kRenewed else kAcquired,
               Some \<lparr>li_value = val, li_lastRenewal = s, li_deadline = e\<rparr>, st) } } }"

definition lease_release ::
  "('db, 'wb) rocksdb \<Rightarrow> ('db, 'wb) staging \<Rightarrow> bytes \<Rightarrow> u64 \<Rightarrow> (status \<times> ('db, 'wb) staging) option" where
  "lease_release api st key clockUpdate = do {
     st \<leftarrow> (if clockUpdate \<noteq> 0 then map_option snd (maybeAdvanceClock api st clockUpdate) else Some st);
     lease_release_now api st key }"

text \<open>The events an \<open>ExpirationEventIterator\<close> visits, with the check of its order.\<close>

definition eventDeadline :: "bytes \<Rightarrow> u64" where
  "eventDeadline key = binaryStringToUnsignedInt (drop 1 key)"

definition eventRedisKey :: "bytes \<Rightarrow> bytes" where
  "eventRedisKey key = drop (1 + 8) key"

fun iterateEvents :: "u64 \<Rightarrow> (bytes \<times> bytes) list \<Rightarrow> (u64 \<times> bytes) list option" where
  "iterateEvents lastDeadline [] = Some []"
| "iterateEvents lastDeadline (e # es) =
     (if fst e = [] \<or> fst e ! 0 \<noteq> kExpirationEvent then Some []
      else do {
        assert_that (lastDeadline \<le> eventDeadline (fst e));
        rest \<leftarrow> iterateEvents (eventDeadline (fst e)) es;
        Some ((eventDeadline (fst e), eventRedisKey (fst e)) # rest) })"

definition expirationEvents ::
  "('db, 'wb) rocksdb \<Rightarrow> ('db, 'wb) staging \<Rightarrow> (u64 \<times> bytes) list option" where
  "expirationEvents api st = iterateEvents 0 (sa_iter api st [kExpirationEvent])"

fun insertEvents :: "(u64 \<times> bytes) list \<Rightarrow> expiration_cache \<Rightarrow> expiration_cache option" where
  "insertEvents [] c = Some c"
| "insertEvents (e # es) c = do { c \<leftarrow> cacheInsert (fst e) (snd e) c; insertEvents es c }"

definition loadExpirationCache ::
  "('db, 'wb) rocksdb \<Rightarrow> 'db state_machine \<Rightarrow> 'db state_machine option" where
  "loadExpirationCache api sm = do {
     events \<leftarrow> expirationEvents api (newStagingArea api sm False);
     c \<leftarrow> insertEvents events (mExpirationCache sm);
     Some (sm\<lparr>mExpirationCache := c\<rparr>) }"


subsection \<open>The cache in the staging area\<close>

lemma setCache_simps [simp]:
  "expirationCache (setCache c st) = c"
  "setCache c (setCache c' st) = setCache c st"
  "sa_ok api (setCache c st) = sa_ok api st"
  "sa_view api (setCache c st) = sa_view api st"
  "revisionTracker (setCache c st) = revisionTracker st"
  "lastApplied (stateMachine (setCache c st)) = lastApplied (stateMachine st)"
  "sm_bulkLoad (stateMachine (setCache c st)) = sm_bulkLoad (stateMachine st)"
  by (auto simp: setCache_def expirationCache_def sa_ok_def sa_view_def sa_get_def snapshotGet_def
      fun_eq_iff)

lemma ready_setCache [simp]: "ready api (setCache c st) = ready api st"
  by (simp add: ready_def)

lemma expirationCache_writes [simp]:
  "expirationCache (put_st api st x y) = expirationCache st"
  "expirationCache (del_st api st x) = expirationCache st"
  "expirationCache (single_del_st api st x) = expirationCache st"
  by (simp_all add: expirationCache_def)

lemma single_del_setCache [simp]:
  "single_del_st api (setCache c st) x = setCache c (single_del_st api st x)"
  by (simp add: single_del_st_def setCache_def)

lemma updated_cache: "updated api st k a st' \<Longrightarrow> expirationCache st' = expirationCache st"
  by (simp add: updated_def expirationCache_def)

subsection \<open>Invariant\<close>

text \<open>
  The entries of the state machine itself, and that every entry that looks like a pending event is
  one.
\<close>

definition metaInv :: "view \<Rightarrow> int \<Rightarrow> bool" where
  "metaInv v n \<longleftrightarrow>
     v kStateMachine_Format = Some ''0'' \<and> v kStateMachine_InBulkload = Some (boolToString False)
     \<and> v kStateMachine_LastApplied = Some (intToBinaryString n) \<and> 0 \<le> n \<and> int64 n
     \<and> (\<forall>x. v x \<noteq> None \<longrightarrow> prefix [kExpirationEvent] x \<longrightarrow> (\<exists>t k. x = expirationEventLocator t k))"

lemma unowned_internal: "hd x = CHR ''_'' \<Longrightarrow> unowned x"
  by (auto simp: unowned_def dest: owned_hd)

lemma unowned_meta [simp]:
  "unowned kStateMachine_Format" "unowned kStateMachine_InBulkload" "unowned kStateMachine_LastApplied"
  by (simp_all add: unowned_internal)

lemma internal_neq [simp]:
  "kStateMachine_Format \<noteq> kStateMachine_LastApplied" "kStateMachine_InBulkload \<noteq> kStateMachine_LastApplied"
  "kStateMachine_Clock \<noteq> kStateMachine_LastApplied" "kStateMachine_LastApplied \<noteq> kStateMachine_Clock"
  "kStateMachine_LastApplied \<noteq> kStateMachine_Format" "kStateMachine_LastApplied \<noteq> kStateMachine_InBulkload"
  "kStateMachine_Format \<noteq> kStateMachine_Clock" "kStateMachine_Clock \<noteq> kStateMachine_Format"
  "kStateMachine_InBulkload \<noteq> kStateMachine_Clock" "kStateMachine_Clock \<noteq> kStateMachine_InBulkload"
  "kStateMachine_Format \<noteq> kStateMachine_InBulkload" "kStateMachine_InBulkload \<noteq> kStateMachine_Format"
  by (simp_all add: locator_defs)

lemma event_not_internal [simp]:
  "expirationEventLocator t k \<noteq> kStateMachine_LastApplied"
  "expirationEventLocator t k \<noteq> kStateMachine_Format"
  "expirationEventLocator t k \<noteq> kStateMachine_InBulkload"
  "\<not> prefix [kExpirationEvent] kStateMachine_LastApplied"
  "\<not> prefix [kExpirationEvent] kStateMachine_Format"
  "\<not> prefix [kExpirationEvent] kStateMachine_InBulkload"
  "\<not> prefix [kExpirationEvent] kStateMachine_Clock"
  by (simp_all add: locator_defs)

lemma metaInv_cong:
  assumes "\<And>x. x \<noteq> kStateMachine_Clock \<Longrightarrow> w x = v x" "metaInv v n"
  shows "metaInv w n"
proof -
  have "\<exists>t k. x = expirationEventLocator t k" if "w x \<noteq> None" "prefix [kExpirationEvent] x" for x
  proof -
    have "x \<noteq> kStateMachine_Clock" using that(2) by auto
    with assms that show ?thesis by (simp add: metaInv_def)
  qed
  with assms show ?thesis by (simp add: metaInv_def)
qed

lemma metaInv_clock [simp]: "metaInv (v(kStateMachine_Clock \<mapsto> c)) n = metaInv v n"
  by (rule iffI; erule metaInv_cong [rotated]) simp_all

lemma metaInv_updated:
  assumes "updated api st k a st'" "metaInv (sa_view api st) n"
  shows "metaInv (sa_view api st') n"
proof -
  have same: "sa_view api st' x = sa_view api st x" if "unowned x" for x
    by (rule updated_unowned [OF assms(1) that])
  have "\<exists>t k. x = expirationEventLocator t k" if "sa_view api st' x \<noteq> None" "prefix [kExpirationEvent] x" for x
  proof (cases "unowned x")
    case True
    with that same assms(2) show ?thesis by (auto simp: metaInv_def)
  next
    case False
    then obtain kt k where "owned kt k x \<or> x = descriptorLocator k" by (auto simp: unowned_def)
    moreover have "hd x = CHR ''@''" using that(2) by (cases x) (auto simp: kExpirationEvent_def)
    ultimately show ?thesis by (auto simp: owned_def split: KeyType.splits)
  qed
  with assms(2) same show ?thesis by (auto simp: metaInv_def)
qed

text \<open>
  The cache lists the pending events, which are those of leases that have not expired at the
  time of the clock.
\<close>

definition leaseInv :: "('db, 'wb) rocksdb \<Rightarrow> ('db, 'wb) staging \<Rightarrow> u64 \<Rightarrow> bool" where
  "leaseInv api st clk \<longleftrightarrow>
     cacheInv (expirationCache st)
     \<and> (\<forall>t k. (t, k) \<in> set (mContents (expirationCache st))
              \<longleftrightarrow> sa_view api st (expirationEventLocator t k) \<noteq> None)
     \<and> (\<forall>t k. (t, k) \<in> set (mContents (expirationCache st)) \<longrightarrow> okKey k \<and> clk < t)
     \<and> sa_view api st kStateMachine_Clock = Some (unsignedIntToBinaryString clk)
     \<and> metaInv (sa_view api st) (lastApplied (stateMachine st)) \<and> \<not> sm_bulkLoad (stateMachine st)"

abbreviation applied :: "('db, 'wb) staging \<Rightarrow> int" where
  "applied st \<equiv> lastApplied (stateMachine st)"

definition leaseReady :: "('db, 'wb) rocksdb \<Rightarrow> ('db, 'wb) staging \<Rightarrow> u64 \<Rightarrow> bool" where
  "leaseReady api st clk \<longleftrightarrow> ready api st \<and> leaseInv api st clk"

text \<open>What time does to a value.\<close>

definition expire :: "u64 \<Rightarrow> aval \<Rightarrow> aval" where
  "expire now a = (case a of ALease h s e \<Rightarrow> if e \<le> now then ANone else a | _ \<Rightarrow> a)"

lemma leaseReadyD:
  assumes "leaseReady api st clk"
  shows "ready api st" "sa_ok api st" "storeInv (sa_view api st)" "cacheInv (expirationCache st)"
    and "(t, k) \<in> set (mContents (expirationCache st))
           \<longleftrightarrow> sa_view api st (expirationEventLocator t k) \<noteq> None"
    and "(t, k) \<in> set (mContents (expirationCache st)) \<Longrightarrow> okKey k"
    and "(t, k) \<in> set (mContents (expirationCache st)) \<Longrightarrow> clk < t"
    and "sa_view api st kStateMachine_Clock = Some (unsignedIntToBinaryString clk)"
    and "metaInv (sa_view api st) (lastApplied (stateMachine st))" "\<not> sm_bulkLoad (stateMachine st)"
  using assms by (auto simp: leaseReady_def leaseInv_def)

lemma lease_desc:
  assumes "storeInv v" "okKey k" "absVal v k = ALease h s e"
  obtains d where "descOf v k = Some d" "keyType d = kLease" "startIndex d = s" "endIndex d = e"
    and "\<not> descriptorEmpty d" "wfDescriptor d" "v (leaseLocator k) = Some h" "h \<noteq> []"
    and "\<And>t. v (expirationEventLocator t k) = (if t = e then Some ''1'' else None)"
proof -
  obtain d where d: "descOf v k = Some d" "d = emptyDescriptor \<or> wfDescriptor d" "part kLease v k d"
    using storeInvE [OF assms(1,2)] by metis
  with assms(3) have kt: "keyType d = kLease"
    by (auto simp: absVal_def split: KeyType.splits)
  moreover from kt d have "wfDescriptor d" by (auto simp: emptyDescriptor_def)
  ultimately show ?thesis
    using that d assms(3) by (auto simp: part_def absVal_def)
qed

lemma not_lease_desc:
  assumes "storeInv v" "okKey k" "\<And>h s e. absVal v k \<noteq> ALease h s e"
  obtains d where "descOf v k = Some d" "keyType d \<noteq> kLease" "d = emptyDescriptor \<or> wfDescriptor d"
    and "v (leaseLocator k) = None" "\<And>t. v (expirationEventLocator t k) = None"
proof -
  obtain d where d: "descOf v k = Some d" "d = emptyDescriptor \<or> wfDescriptor d" "part kLease v k d"
    using storeInvE [OF assms(1,2)] by metis
  have "keyType d \<noteq> kLease"
    using d(1) assms(3) [of "the (v (leaseLocator k))" "startIndex d" "endIndex d"]
    by (auto simp: absVal_def)
  with that d show ?thesis by (auto simp: part_def)
qed

lemma lease_event:
  assumes "storeInv v" "okKey k" "v (expirationEventLocator t k) \<noteq> None"
  shows "\<exists>h s. absVal v k = ALease h s t"
proof (cases "\<exists>h s e. absVal v k = ALease h s e")
  case True
  then obtain h s e where a: "absVal v k = ALease h s e" by blast
  from lease_desc [OF assms(1,2) this] assms(3) have "t = e" by metis
  with a show ?thesis by blast
next
  case False
  with not_lease_desc [OF assms(1,2)] assms(3) show ?thesis by metis
qed

subsection \<open>Releasing\<close>

lemma leaseReady_updated:
  assumes st: "leaseReady api st clk" and k: "okKey k" and upd: "updated api (setCache c st) k a st'"
    and c: "cacheInv c" "\<And>t k'. k' \<noteq> k \<Longrightarrow> (t, k') \<in> set (mContents c)
                            \<longleftrightarrow> (t, k') \<in> set (mContents (expirationCache st))"
      "\<And>t. (t, k) \<in> set (mContents c) \<longleftrightarrow> (\<exists>h s. a = ALease h s t)"
      "\<And>h s t. a = ALease h s t \<Longrightarrow> clk < t"
  shows "leaseReady api st' clk \<and> applied st' = applied st"
proof -
  note D = leaseReadyD [OF st]
  have cache: "expirationCache st' = c" using updated_cache [OF upd] by simp
  have r: "ready api st'" by (rule updated_ready [OF upd])
  have val: "absVal (sa_view api st') k = a" using updated_valueOf [OF upd k] by (simp add: valueOf_def)
  have ev: "sa_view api st' (expirationEventLocator t k') = sa_view api st (expirationEventLocator t k')"
    if "k' \<noteq> k" for t k'
    using updated_event [OF upd that] by simp
  have evk: "sa_view api st' (expirationEventLocator t k) \<noteq> None \<longleftrightarrow> (\<exists>h s. a = ALease h s t)" for t
  proof
    assume "sa_view api st' (expirationEventLocator t k) \<noteq> None"
    with lease_event [OF readyD(2) [OF r] k] val show "\<exists>h s. a = ALease h s t" by metis
  next
    assume "\<exists>h s. a = ALease h s t"
    with lease_desc [OF readyD(2) [OF r] k] val
    show "sa_view api st' (expirationEventLocator t k) \<noteq> None" by (metis option.distinct(1))
  qed
  have "sa_view api st' kStateMachine_Clock = Some (unsignedIntToBinaryString clk)"
    using updated_unowned [OF upd unowned_clock] D(8) by simp
  moreover have "(t, k') \<in> set (mContents c) \<longleftrightarrow> sa_view api st' (expirationEventLocator t k') \<noteq> None" for t k'
    by (cases "k' = k") (use c(2,3) D(5) ev evk in auto)
  moreover have "okKey k' \<and> clk < t" if "(t, k') \<in> set (mContents c)" for t k'
    using that c(2-4) D(6,7) k by (cases "k' = k") metis+
  moreover have "stateMachine st' = stateMachine (setCache c st)" using upd by (simp add: updated_def)
  moreover have "metaInv (sa_view api st') (lastApplied (stateMachine st))"
    using D(9) by (intro metaInv_updated [OF upd]) simp
  ultimately show ?thesis
    using r c(1) D(10) by (simp add: leaseReady_def leaseInv_def cache)
qed

lemma lease_release_now_ok:
  assumes st: "leaseReady api st clk" and k: "okKey k" "valueOf api st k = ALease h s e"
  shows "\<exists>st'. lease_release_now api st k = Some (OK, st') \<and> leaseReady api st' clk \<and> applied st' = applied st
           \<and> sets_value k ANone (sa_view api st) (sa_view api st')
           \<and> length (mContents (expirationCache st)) = Suc (length (mContents (expirationCache st')))"
proof -
  note D = leaseReadyD [OF st]
  from lease_desc [OF D(3) k(1)] k(2) obtain d where d: "descOf (sa_view api st) k = Some d"
      "keyType d = kLease" "startIndex d = s" "endIndex d = e" "\<not> descriptorEmpty d" "wfDescriptor d"
      "sa_view api st (leaseLocator k) = Some h" "h \<noteq> []"
      "\<And>t. sa_view api st (expirationEventLocator t k) = (if t = e then Some ''1'' else None)"
    by (auto simp: valueOf_def)
  have mem: "(e, k) \<in> set (mContents (expirationCache st))" using D(5) d(9) by simp
  from cacheRemove_ok [OF D(4) mem] obtain c where c: "cacheRemove e k (expirationCache st) = Some c"
      "cacheInv c" "set (mContents c) = set (mContents (expirationCache st)) - {(e, k)}"
      "length (mContents (expirationCache st)) = Suc (length (mContents c))"
    by blast
  let ?st0 = "setCache c st"
  let ?st1 = "del_st api (single_del_st api ?st0 (expirationEventLocator e k)) (leaseLocator k)"
  have w: "within api ?st0 kLease k ?st1"
    using D(2) by (intro within_trans [OF within_single_del within_del]) (auto simp: owned_def)
  have "finalizesTo api ?st0 ?st1 (openOp k kLease d) 0 False k ANone"
  proof (rule finalize_within [OF _ k(1) _ _ w _ _ _ _ _ _ _ refl])
    fix v assume v: "descOf v k = Some (if (0::int) = 0 \<and> kLease \<noteq> kVersionedHash then emptyDescriptor
        else keyinfo (openOp k kLease d)\<lparr>sz := 0\<rparr>)"
      "\<And>x. owned kLease k x \<Longrightarrow> v x = sa_view api ?st1 x"
    have "v (leaseLocator k) = None" "v (expirationEventLocator t k) = None" for t
      using v(2) D(2) d(9) by (auto simp: owned_def keysimps)
    with v(1) show "part kLease v k (if (0::int) = 0 \<and> kLease \<noteq> kVersionedHash then emptyDescriptor
        else keyinfo (openOp k kLease d)\<lparr>sz := 0\<rparr>) \<and> absVal v k = ANone"
      by (simp add: part_def absVal_def emptyDescriptor_def)
  qed (use D(1) d in \<open>auto simp: wfDescriptor_def int64_def\<close>)
  then obtain op' st' where st': "wo_finalize api ?st1 (openOp k kLease d) 0 False = Some (op', st')"
      "wo_destroy op' = Some ()" "updated api ?st0 k ANone st'"
    by (rule finalizesToE)
  have mem': "(t, k) \<notin> set (mContents c)" for t
    using c(3) D(5) d(9) by (auto split: if_splits)
  have "leaseReady api st' clk \<and> applied st' = applied st"
    using c(2,3) mem' by (intro leaseReady_updated [OF st k(1) st'(3)]) auto
  moreover have "lease_release_now api st k = Some (OK, st')"
    using D(2) d c(1) st'(1,2)
    by (simp add: lease_release_now_def getEndIndex_def Let_def keysimps)
  ultimately show ?thesis
    using c(4) updated_cache [OF st'(3)] st'(3) by (auto simp: updated_def)
qed


subsection \<open>The clock\<close>

lemma expire_simps [simp]:
  "expire n ANone = ANone"
  "expire n (ALease h s e) = (if e \<le> n then ANone else ALease h s e)"
  by (simp_all add: expire_def)

lemma expire_idle:
  assumes "leaseReady api st clk" "okKey k"
    and "\<And>t k. (t, k) \<in> set (mContents (expirationCache st)) \<Longrightarrow> n < t"
  shows "expire n (valueOf api st k) = valueOf api st k"
proof (cases "\<exists>h s e. valueOf api st k = ALease h s e")
  case True
  then obtain h s e where a: "valueOf api st k = ALease h s e" by blast
  note D = leaseReadyD [OF assms(1)]
  have "(e, k) \<in> set (mContents (expirationCache st))"
    using lease_desc [OF D(3) assms(2)] a D(5) by (metis option.distinct(1) valueOf_def)
  with a assms(3) show ?thesis by (auto simp: not_le)
next
  case False
  then show ?thesis by (auto simp: expire_def split: aval.splits)
qed

text \<open>The loop ends, and when it does no lease with a deadline up to \<open>n\<close> is left.\<close>

lemma releaseExpired_ok:
  assumes "leaseReady api st clk"
  shows "\<exists>st'. releaseExpired api n st = Some st' \<and> leaseReady api st' clk \<and> applied st' = applied st
           \<and> (\<forall>k. okKey k \<longrightarrow> valueOf api st' k = expire n (valueOf api st k))
           \<and> (\<forall>t k. (t, k) \<in> set (mContents (expirationCache st')) \<longrightarrow> n < t)"
  using assms
proof (induction "length (mContents (expirationCache st))" arbitrary: st)
  case 0
  then show ?case
    using expire_idle [OF "0.prems", of _ n]
    by (subst releaseExpired.simps) (auto simp: cacheEmpty_def)
next
  case (Suc m)
  let ?c = "expirationCache st" and ?t = "getFrontDeadline (expirationCache st)"
    and ?k = "getFrontLease (expirationCache st)"
  note D = leaseReadyD [OF Suc.prems]
  have ne: "\<not> cacheEmpty ?c" using Suc.hyps(2) by (auto simp: cacheEmpty_def)
  show ?case
  proof (cases "?t \<le> n")
    case False
    have "n < t" if "(t, k) \<in> set (mContents ?c)" for t k
      using getFront_minimal [OF D(4) that] False by simp
    with False ne expire_idle [OF Suc.prems] Suc.prems show ?thesis
      by (subst releaseExpired.simps) auto
  next
    case True
    have mem: "(?t, ?k) \<in> set (mContents ?c)" using getFront_in [OF ne] .
    have k: "okKey ?k" using D(6) [OF mem] .
    obtain h s where a: "valueOf api st ?k = ALease h s ?t"
      using lease_event [OF D(3) k, of ?t] D(5) [of ?t ?k] mem unfolding valueOf_def by blast
    from lease_release_now_ok [OF Suc.prems k a] obtain st1
      where st1: "lease_release_now api st ?k = Some (OK, st1)" "leaseReady api st1 clk"
        "sets_value ?k ANone (sa_view api st) (sa_view api st1)" "m = length (mContents (expirationCache st1))"
        "applied st1 = applied st"
      using Suc.hyps(2) by auto
    from Suc.hyps(1) [OF st1(4,2)] obtain st' where st': "releaseExpired api n st1 = Some st'"
        "leaseReady api st' clk" "\<forall>k. okKey k \<longrightarrow> valueOf api st' k = expire n (valueOf api st1 k)"
        "\<forall>t k. (t, k) \<in> set (mContents (expirationCache st')) \<longrightarrow> n < t" "applied st' = applied st1"
      by blast
    have "valueOf api st' k' = expire n (valueOf api st k')" if "okKey k'" for k'
      using that st'(3) st1(3) a True by (auto simp: sets_value_def valueOf_def)
    moreover have "releaseExpired api n st = Some st'"
      using st1(1) st'(1) ne True by (subst releaseExpired.simps) simp
    ultimately show ?thesis using st'(2,4,5) st1(5) by auto
  qed
qed

lemma getClock_ok [simp]: "leaseReady api st clk \<Longrightarrow> getClock api st = Some clk"
  using leaseReadyD(2,8) [of api st clk] by (simp add: getClock_def)

lemma advanceClock_ok:
  assumes "leaseReady api st clk" "clk \<le> n"
  shows "\<exists>st'. advanceClock api st n = Some st' \<and> leaseReady api st' n \<and> applied st' = applied st
           \<and> (\<forall>k. okKey k \<longrightarrow> valueOf api st' k = expire n (valueOf api st k))"
proof -
  from releaseExpired_ok [OF assms(1)] obtain st1 where st1: "releaseExpired api n st = Some st1"
      "leaseReady api st1 clk" "\<forall>k. okKey k \<longrightarrow> valueOf api st1 k = expire n (valueOf api st k)"
      "\<forall>t k. (t, k) \<in> set (mContents (expirationCache st1)) \<longrightarrow> n < t" "applied st1 = applied st"
    by blast
  let ?st' = "put_st api st1 kStateMachine_Clock (unsignedIntToBinaryString n)"
  note D = leaseReadyD [OF st1(2)]
  have "leaseReady api ?st' n"
    using D st1(4) by (auto simp: leaseReady_def leaseInv_def ready_def unowned_upd)
  moreover have "valueOf api ?st' k = valueOf api st1 k" for k
    using D(2) by (simp add: valueOf_def unowned_upd)
  ultimately show ?thesis
    using st1 D(2) assms by (auto simp: advanceClock_def not_less)
qed

lemma maybeAdvanceClock_ok:
  assumes "leaseReady api st clk"
  shows "\<exists>st'. maybeAdvanceClock api st n = Some (max clk n, st') \<and> leaseReady api st' (max clk n) \<and> applied st' = applied st
           \<and> (\<forall>k. okKey k \<longrightarrow> valueOf api st' k = expire (max clk n) (valueOf api st k))"
proof (cases "clk < n")
  case True
  with advanceClock_ok [OF assms, of n] assms show ?thesis
    by (auto simp: maybeAdvanceClock_def max_def)
next
  case False
  then have "max clk n = clk" by (simp add: max_def)
  moreover have "expire clk (valueOf api st k) = valueOf api st k" if "okKey k" for k
    using expire_idle [OF assms that] leaseReadyD(7) [OF assms] by blast
  ultimately show ?thesis
    using assms False by (simp add: maybeAdvanceClock_def)
qed


subsection \<open>Acquiring\<close>

text \<open>
  The common part of an acquisition and of a renewal, from the state in which the old event is
  gone: the new event, the holder and the descriptor are written.
\<close>

lemma lease_write:
  assumes st: "ready api st" and k: "okKey k" and d: "descOf (sa_view api st) k = Some d"
      "descriptorEmpty d \<or> keyType d = kLease" "d = emptyDescriptor \<or> wfDescriptor d"
    and w: "within api st kLease k st1" "\<And>t. sa_view api st1 (expirationEventLocator t k) = None"
    and x: "x \<noteq> []" "length x < 2 ^ 63" "s \<le> e"
  shows "finalizesTo api st
           (put_st api (put_st api st1 (expirationEventLocator e k) ''1'') (leaseLocator k) x)
           (openOp k kLease d\<lparr>keyinfo := keyinfo (openOp k kLease d)\<lparr>startIndex := s, endIndex := e\<rparr>\<rparr>)
           (int (length x)) True k (ALease x s e)"
    (is "finalizesTo api st ?st3 ?op ?n True k _")
proof -
  have ok: "sa_ok api st1" by (rule within_ok [OF w(1)])
  have own: "owned kLease k (leaseLocator k)" by (simp add: owned_def)
  have w3: "within api st kLease k ?st3"
    using w(1) ok own by (intro within_trans [OF w(1) within_trans [OF within_put within_put]]) auto
  have kt: "keyType (keyinfo ?op) = kLease" using d(2) by auto
  have n: "?n < 2 ^ 63" using x(2) by (simp add: of_nat_less_numeral_power_cancel_iff)
  let ?d' = "if ?n = 0 \<and> kLease \<noteq> kVersionedHash then emptyDescriptor else keyinfo ?op\<lparr>sz := ?n\<rparr>"
  show ?thesis
  proof (rule finalize_within [OF st k d(1) _ w3 _ _ kt _ _ _ _ refl])
    show "wfDescriptor (keyinfo ?op\<lparr>sz := ?n\<rparr>)"
      using kt n x(3) by (auto simp: wfDescriptor_def int64_def)
    fix v assume v: "descOf v k = Some ?d'" "\<And>y. owned kLease k y \<Longrightarrow> v y = sa_view api ?st3 y"
    have "v (leaseLocator k) = Some x" using v(2) [OF own] ok by simp
    moreover have "v (expirationEventLocator t k) = (if t = e then Some ''1'' else None)" for t
      using v(2) [of "expirationEventLocator t k"] ok w(2) by (simp add: keysimps)
    ultimately show "part kLease v k ?d' \<and> absVal v k = ALease x s e"
      using v(1) x(1) kt by (simp add: part_def absVal_def)
  qed (use d(2) in \<open>auto simp: descriptorEmpty_def writable_def\<close>)
qed

text \<open>What a lease command answers, given the value of the key at the current time.\<close>

fun acquireOutcome :: "bytes \<Rightarrow> aval \<Rightarrow> LeaseAcquisitionStatus" where
  "acquireOutcome val ANone = kAcquired"
| "acquireOutcome val (ALease h s e) = (if h = val then kRenewed else kFailedDueToOtherOwner)"
| "acquireOutcome val _ = kKeyTypeMismatch"

fun acquireValue :: "bytes \<Rightarrow> u64 \<Rightarrow> u64 \<Rightarrow> aval \<Rightarrow> aval" where
  "acquireValue val now deadline ANone = ALease val now deadline"
| "acquireValue val now deadline (ALease h s e) = ALease h (if h = val then now else s) (if h = val then deadline else e)"
| "acquireValue val now deadline a = a"

lemma u64_add_greater: "unat (m :: u64) + unat d < 2 ^ 64 \<Longrightarrow> 0 < d \<Longrightarrow> m < m + d"
  by (simp add: word_less_nat_alt unat_word_ariths)

lemma acquire_existing:
  assumes st: "leaseReady api st now" and k: "okKey k" "valueOf api st k = ALease x s e"
    and x: "length x < 2 ^ 63" and t: "now < t"
  shows "\<exists>c c' op' st'. cacheRemove e k (expirationCache st) = Some c \<and> cacheInsert t k c = Some c'
           \<and> updated api (setCache c' st) k (ALease x now t) st' \<and> leaseReady api st' now \<and> applied st' = applied st
           \<and> wo_destroy op' = Some ()
           \<and> wo_finalize api (put_st api (put_st api (setCache c' (single_del_st api st (expirationEventLocator e k)))
                 (expirationEventLocator t k) ''1'') (leaseLocator k) x)
               (openOp k kLease (the (descOf (sa_view api st) k))
                  \<lparr>keyinfo := (the (descOf (sa_view api st) k))\<lparr>startIndex := now, endIndex := t\<rparr>\<rparr>)
               (int (length x)) True = Some (op', st')"
proof -
  note D = leaseReadyD [OF st]
  from lease_desc [OF D(3) k(1) k(2) [unfolded valueOf_def]]
  obtain d where d: "descOf (sa_view api st) k = Some d"
      "keyType d = kLease" "\<not> descriptorEmpty d" "wfDescriptor d" "x \<noteq> []"
      "\<And>t. sa_view api st (expirationEventLocator t k) = (if t = e then Some ''1'' else None)"
    by metis
  have mem: "(e, k) \<in> set (mContents (expirationCache st))" using D(5) d(6) by simp
  from cacheRemove_ok [OF D(4) mem] obtain c where c: "cacheRemove e k (expirationCache st) = Some c"
      "cacheInv c" "set (mContents c) = set (mContents (expirationCache st)) - {(e, k)}"
    by blast
  have nk: "(u, k) \<notin> set (mContents c)" for u using c(3) D(5) d(6) by (auto split: if_splits)
  then have "k \<notin> snd ` set (mContents c)" by auto
  from cacheInsert_ok [OF c(2) this] obtain c' where c': "cacheInsert t k c = Some c'" "cacheInv c'"
      "set (mContents c') = insert (t, k) (set (mContents c))"
    by blast
  let ?st0 = "setCache c' st"
  let ?st1 = "setCache c' (single_del_st api st (expirationEventLocator e k))"
  have "within api ?st0 kLease k ?st1"
    using within_single_del [of api ?st0 kLease k "expirationEventLocator e k"] D(2) by simp
  moreover have "sa_view api ?st1 (expirationEventLocator u k) = None" for u
    using D(2) d(6) by (simp add: keysimps)
  ultimately have "finalizesTo api ?st0
      (put_st api (put_st api ?st1 (expirationEventLocator t k) ''1'') (leaseLocator k) x)
      (openOp k kLease d\<lparr>keyinfo := d\<lparr>startIndex := now, endIndex := t\<rparr>\<rparr>)
      (int (length x)) True k (ALease x now t)"
    using lease_write [of api ?st0 k d ?st1 x now t] D(1) k(1) d x t by simp
  then obtain op' st' where st': "wo_finalize api
      (put_st api (put_st api ?st1 (expirationEventLocator t k) ''1'') (leaseLocator k) x)
      (openOp k kLease d\<lparr>keyinfo := d\<lparr>startIndex := now, endIndex := t\<rparr>\<rparr>) (int (length x)) True
        = Some (op', st')" "wo_destroy op' = Some ()" "updated api ?st0 k (ALease x now t) st'"
    by (rule finalizesToE)
  have "leaseReady api st' now \<and> applied st' = applied st"
    using c'(2,3) c(3) nk t by (intro leaseReady_updated [OF st k(1) st'(3)]) auto
  with c(1) c'(1) st' d(1) show ?thesis by auto
qed

lemma acquire_fresh:
  assumes st: "leaseReady api st now" and k: "okKey k" "valueOf api st k = ANone"
    and x: "x \<noteq> []" "length x < 2 ^ 63" and t: "now < t"
  shows "\<exists>c' op' st'. cacheInsert t k (expirationCache st) = Some c'
           \<and> updated api (setCache c' st) k (ALease x now t) st' \<and> leaseReady api st' now \<and> applied st' = applied st
           \<and> wo_destroy op' = Some ()
           \<and> wo_finalize api (put_st api (put_st api (setCache c' st) (expirationEventLocator t k) ''1'')
                 (leaseLocator k) x)
               (openOp k kLease emptyDescriptor
                  \<lparr>keyinfo := (freshDescriptor kLease)\<lparr>startIndex := now, endIndex := t\<rparr>\<rparr>)
               (int (length x)) True = Some (op', st')"
proof -
  note D = leaseReadyD [OF st]
  from not_lease_desc [OF D(3) k(1)] k(2) obtain d where d: "descOf (sa_view api st) k = Some d"
      "d = emptyDescriptor \<or> wfDescriptor d" "\<And>t. sa_view api st (expirationEventLocator t k) = None"
    by (metis aval.distinct(11) valueOf_def)
  have "descriptorEmpty d" using absVal_cases(1) [OF D(3) k(1) d(1)] k(2) by (simp add: valueOf_def)
  then have de: "d = emptyDescriptor" using d(2) wf_not_empty by blast
  have nk: "(u, k) \<notin> set (mContents (expirationCache st))" for u using D(5) d(3) by simp
  then have "k \<notin> snd ` set (mContents (expirationCache st))" by auto
  from cacheInsert_ok [OF D(4) this] obtain c' where c': "cacheInsert t k (expirationCache st) = Some c'"
      "cacheInv c'" "set (mContents c') = insert (t, k) (set (mContents (expirationCache st)))"
    by blast
  let ?st0 = "setCache c' st"
  have "finalizesTo api ?st0
      (put_st api (put_st api ?st0 (expirationEventLocator t k) ''1'') (leaseLocator k) x)
      (openOp k kLease emptyDescriptor\<lparr>keyinfo := (freshDescriptor kLease)\<lparr>startIndex := now, endIndex := t\<rparr>\<rparr>)
      (int (length x)) True k (ALease x now t)"
    using lease_write [of api ?st0 k d ?st0 x now t] D(1,2) k(1) d x t de by simp
  then obtain op' st' where st': "wo_finalize api
      (put_st api (put_st api ?st0 (expirationEventLocator t k) ''1'') (leaseLocator k) x)
      (openOp k kLease emptyDescriptor\<lparr>keyinfo := (freshDescriptor kLease)\<lparr>startIndex := now, endIndex := t\<rparr>\<rparr>)
      (int (length x)) True = Some (op', st')" "wo_destroy op' = Some ()" "updated api ?st0 k (ALease x now t) st'"
    by (rule finalizesToE)
  have "leaseReady api st' now \<and> applied st' = applied st"
    using c'(2,3) nk t by (intro leaseReady_updated [OF st k(1) st'(3)]) auto
  with c'(1) st' show ?thesis by blast
qed


text \<open>The decision after the timekeeping.\<close>

lemma wo_write_lease:
  "sa_ok api st \<Longrightarrow> writable op \<Longrightarrow> keyType (keyinfo op) = kLease \<Longrightarrow>
   wo_write api st op x = Some (put_st api st (leaseLocator (redisKey op)) x)"
  by (simp add: wo_write_def)

text \<open>
  The outcomes, from the state \<open>st1\<close> after the timekeeping: a new lease, a renewal, a lease held
  by someone else, a key of another type.
\<close>

definition acquires ::
  "('db, 'wb) rocksdb \<Rightarrow> ('db, 'wb) staging \<Rightarrow> ('db, 'wb) staging \<Rightarrow> bytes \<Rightarrow> bytes \<Rightarrow> u64 \<Rightarrow> u64 \<Rightarrow> u64
    \<Rightarrow> bool" where
  "acquires api st st1 k x upd dur now \<longleftrightarrow>
     (\<exists>info st'. lease_acquire api st k x upd dur = Some (acquireOutcome x (valueOf api st1 k), info, st')
        \<and> leaseReady api st' now \<and> applied st' = applied st1
        \<and> (\<forall>k'. okKey k' \<longrightarrow> valueOf api st' k' =
             (if k' = k then acquireValue x now (now + dur) (valueOf api st1 k) else valueOf api st1 k')))"

lemma acquires_fresh:
  assumes st1: "maybeAdvanceClock api st upd = Some (now, st1)" "leaseReady api st1 now"
    and k: "okKey k" "valueOf api st1 k = ANone" and x: "x \<noteq> []" "length x < 2 ^ 63" and t: "now < now + dur"
  shows "acquires api st st1 k x upd dur now"
proof -
  note D = leaseReadyD [OF st1(2)]
  from not_lease_desc [OF D(3) k(1)] k(2) obtain d where d: "descOf (sa_view api st1) k = Some d"
      "d = emptyDescriptor \<or> wfDescriptor d" "sa_view api st1 (leaseLocator k) = None"
    by (metis aval.distinct(11) valueOf_def)
  have "descriptorEmpty d" using absVal_cases(1) [OF D(3) k(1) d(1)] k(2) by (simp add: valueOf_def)
  then have de: "d = emptyDescriptor" using d(2) wf_not_empty by blast
  from acquire_fresh [OF st1(2) k x t] obtain c' op' st'
    where st': "cacheInsert (now + dur) k (expirationCache st1) = Some c'"
      "updated api (setCache c' st1) k (ALease x now (now + dur)) st'" "leaseReady api st' now"
      "wo_destroy op' = Some ()" "applied st' = applied st1"
      "wo_finalize api (put_st api (put_st api (setCache c' st1) (expirationEventLocator (now + dur) k) ''1'')
          (leaseLocator k) x) (openOp k kLease emptyDescriptor
             \<lparr>keyinfo := (freshDescriptor kLease)\<lparr>startIndex := now, endIndex := now + dur\<rparr>\<rparr>)
          (int (length x)) True = Some (op', st')"
    by blast
  have "lease_acquire api st k x upd dur = Some (kAcquired, Some \<lparr>li_value = x, li_lastRenewal = now,
      li_deadline = now + dur\<rparr>, st')"
    using x(1) st1(1) D(2) d(1,3) de st'(1,4,6)
    by (simp add: lease_acquire_def Let_def descriptor_access wo_write_lease writable_def)
  with k updated_valueOf [OF st'(2)] st'(3,5) show ?thesis by (auto simp: acquires_def valueOf_def)
qed

lemma acquires_held:
  assumes st1: "maybeAdvanceClock api st upd = Some (now, st1)" "leaseReady api st1 now"
    and k: "okKey k" "valueOf api st1 k = ALease h s e" and x: "x \<noteq> []" "length x < 2 ^ 63"
    and t: "now < now + dur"
  shows "acquires api st st1 k x upd dur now"
proof -
  note D = leaseReadyD [OF st1(2)]
  from lease_desc [OF D(3) k(1) k(2) [unfolded valueOf_def]] obtain d
    where d: "descOf (sa_view api st1) k = Some d" "keyType d = kLease" "startIndex d = s" "endIndex d = e"
      "\<not> descriptorEmpty d" "sa_view api st1 (leaseLocator k) = Some h"
      "\<And>t. sa_view api st1 (expirationEventLocator t k) = (if t = e then Some ''1'' else None)"
    by metis
  show ?thesis
  proof (cases "h = x")
    case False
    then have "lease_acquire api st k x upd dur = Some (kFailedDueToOtherOwner,
        Some \<lparr>li_value = h, li_lastRenewal = s, li_deadline = e\<rparr>, st1)"
      using x(1) st1(1) D(2) d by (simp add: lease_acquire_def Let_def descriptor_access)
    with False k st1(2) show ?thesis by (auto simp: acquires_def)
  next
    case True
    from acquire_existing [OF st1(2) k(1) _ _ t, of x s e] k(2) True x obtain c c' op' st'
      where st': "cacheRemove e k (expirationCache st1) = Some c" "cacheInsert (now + dur) k c = Some c'"
        "updated api (setCache c' st1) k (ALease x now (now + dur)) st'" "leaseReady api st' now"
        "wo_destroy op' = Some ()" "applied st' = applied st1"
        "wo_finalize api (put_st api (put_st api (setCache c' (single_del_st api st1 (expirationEventLocator e k)))
               (expirationEventLocator (now + dur) k) ''1'') (leaseLocator k) x)
             (openOp k kLease d\<lparr>keyinfo := d\<lparr>startIndex := now, endIndex := now + dur\<rparr>\<rparr>)
             (int (length x)) True = Some (op', st')"
      using d(1) by auto
    have "lease_acquire api st k x upd dur = Some (kRenewed, Some \<lparr>li_value = x, li_lastRenewal = now,
        li_deadline = now + dur\<rparr>, st')"
      using x(1) st1(1) D(2) d st'(1,2,5,7) True
      by (simp add: lease_acquire_def Let_def descriptor_access wo_write_lease writable_def)
    with True k updated_valueOf [OF st'(3)] st'(4,6) show ?thesis by (auto simp: acquires_def valueOf_def)
  qed
qed

lemma acquires_mismatch:
  assumes st1: "maybeAdvanceClock api st upd = Some (now, st1)" "leaseReady api st1 now"
    and k: "okKey k" "\<And>h s e. valueOf api st1 k \<noteq> ALease h s e" "valueOf api st1 k \<noteq> ANone" and x: "x \<noteq> []"
  shows "acquires api st st1 k x upd dur now"
proof -
  note D = leaseReadyD [OF st1(2)]
  from not_lease_desc [OF D(3) k(1)] k(2) obtain d where d: "descOf (sa_view api st1) k = Some d"
      "keyType d \<noteq> kLease"
    unfolding valueOf_def by metis
  have "\<not> descriptorEmpty d" using absVal_cases(1) [OF D(3) k(1) d(1)] k(3) by (simp add: valueOf_def)
  then have "lease_acquire api st k x upd dur = Some (kKeyTypeMismatch, None, st1)"
    using x st1(1) D(2) d by (simp add: lease_acquire_def)
  moreover have "acquireOutcome x (valueOf api st1 k) = kKeyTypeMismatch"
      "acquireValue x now (now + dur) (valueOf api st1 k) = valueOf api st1 k"
    using k(2,3) by (cases "valueOf api st1 k"; simp)+
  ultimately show ?thesis using st1(2) by (auto simp: acquires_def)
qed

text \<open>
  An acquisition at time \<open>upd\<close>: first the leases that have expired by then go away, then the
  lease goes to the caller if nobody else holds it.
\<close>

lemma lease_acquire_ok:
  assumes st: "leaseReady api st clk" and k: "okKey k" and x: "x \<noteq> []" "length x < 2 ^ 63"
    and now: "now = max clk upd" "unat now + unat dur < 2 ^ 64" "0 < dur"
    and a: "a = expire now (valueOf api st k)"
  shows "\<exists>info st'. lease_acquire api st k x upd dur = Some (acquireOutcome x a, info, st')
           \<and> leaseReady api st' now \<and> applied st' = applied st
           \<and> (\<forall>k'. okKey k' \<longrightarrow> valueOf api st' k' =
                (if k' = k then acquireValue x now (now + dur) a else expire now (valueOf api st k')))"
proof -
  from maybeAdvanceClock_ok [OF st] obtain st1 where st1: "maybeAdvanceClock api st upd = Some (now, st1)"
      "leaseReady api st1 now" "\<forall>k. okKey k \<longrightarrow> valueOf api st1 k = expire now (valueOf api st k)"
      "applied st1 = applied st"
    unfolding now(1) by blast
  have t: "now < now + dur" using u64_add_greater now(2,3) by blast
  have "acquires api st st1 k x upd dur now"
    using acquires_fresh [OF st1(1,2) k _ x t] acquires_held [OF st1(1,2) k _ x t]
      acquires_mismatch [OF st1(1,2) k _ _ x(1)] by blast
  with st1(3,4) k a show ?thesis by (auto simp: acquires_def)
qed

text \<open>Reading and releasing a lease.\<close>

lemma lease_get_ok:
  assumes st: "leaseReady api st clk" and k: "okKey k" and now: "now = max clk upd"
  shows "\<exists>st'. leaseReady api st' now \<and> applied st' = applied st \<and> (\<forall>k. okKey k \<longrightarrow> valueOf api st' k = expire now (valueOf api st k))
           \<and> lease_get api st k upd = Some (case expire now (valueOf api st k) of
                ANone \<Rightarrow> (NotFound, None, st')
              | ALease h s e \<Rightarrow> (OK, Some \<lparr>li_value = h, li_lastRenewal = s, li_deadline = e\<rparr>, st')
              | _ \<Rightarrow> (wrong_type, None, st'))"
proof -
  from maybeAdvanceClock_ok [OF st] obtain st1 where st1: "maybeAdvanceClock api st upd = Some (now, st1)"
      "leaseReady api st1 now" "\<forall>k. okKey k \<longrightarrow> valueOf api st1 k = expire now (valueOf api st k)"
      "applied st1 = applied st"
    unfolding now by blast
  note D = leaseReadyD [OF st1(2)]
  have "lease_get api st k upd = Some (case valueOf api st1 k of
                ANone \<Rightarrow> (NotFound, None, st1)
              | ALease h s e \<Rightarrow> (OK, Some \<lparr>li_value = h, li_lastRenewal = s, li_deadline = e\<rparr>, st1)
              | _ \<Rightarrow> (wrong_type, None, st1))"
  proof (cases "\<exists>h s e. valueOf api st1 k = ALease h s e")
    case True
    then obtain h s e where a: "valueOf api st1 k = ALease h s e" by blast
    from lease_desc [OF D(3) k a [unfolded valueOf_def]] obtain d
      where "descOf (sa_view api st1) k = Some d" "keyType d = kLease" "startIndex d = s" "endIndex d = e"
        "\<not> descriptorEmpty d" "sa_view api st1 (leaseLocator k) = Some h"
      by metis
    with a st1(1) D(2) show ?thesis by (simp add: lease_get_def descriptor_access)
  next
    case False
    from not_lease_desc [OF D(3) k] False obtain d where d: "descOf (sa_view api st1) k = Some d"
        "keyType d \<noteq> kLease"
      unfolding valueOf_def by metis
    have "valueOf api st1 k = ANone \<longleftrightarrow> descriptorEmpty d"
      using absVal_cases(1) [OF D(3) k d(1)] by (simp add: valueOf_def)
    with False st1(1) D(2) d show ?thesis
      by (cases "valueOf api st1 k") (auto simp: lease_get_def)
  qed
  with st1(2-4) k show ?thesis by auto
qed

lemma lease_release_ok:
  assumes st: "leaseReady api st clk" and k: "okKey k" and now: "now = max clk upd" "upd \<noteq> 0"
    and a: "expire now (valueOf api st k) = ALease h s e"
  shows "\<exists>st'. lease_release api st k upd = Some (OK, st') \<and> leaseReady api st' now \<and> applied st' = applied st
           \<and> (\<forall>k'. okKey k' \<longrightarrow> valueOf api st' k' = (if k' = k then ANone else expire now (valueOf api st k')))"
proof -
  from maybeAdvanceClock_ok [OF st] obtain st1 where st1: "maybeAdvanceClock api st upd = Some (now, st1)"
      "leaseReady api st1 now" "\<forall>k. okKey k \<longrightarrow> valueOf api st1 k = expire now (valueOf api st k)"
      "applied st1 = applied st"
    unfolding now(1) by blast
  from lease_release_now_ok [OF st1(2) k] st1(3) k a obtain st'
    where "lease_release_now api st1 k = Some (OK, st')" "leaseReady api st' now"
      "sets_value k ANone (sa_view api st1) (sa_view api st')" "applied st' = applied st1"
    by metis
  with st1 now(2) show ?thesis
    by (auto simp: lease_release_def sets_value_def valueOf_def)
qed

end
