(* ===== verification/CoreOps.thy ===== *)
theory CoreOps
  imports LeaseOps
begin

text \<open>
  The commands of \<^verbatim>\<open>src/src/StateMachine.cc\<close> on strings, on whole keys and on the whole key
  space: \<open>set\<close>, \<open>get\<close>, \<open>del\<close>, \<open>exists\<close>, \<open>getType\<close>, \<open>flushall\<close>, and the configuration entries.
\<close>

subsection \<open>Operations\<close>

definition set_op ::
  "('db, 'wb) rocksdb \<Rightarrow> ('db, 'wb) staging \<Rightarrow> bytes \<Rightarrow> bytes \<Rightarrow> (status \<times> ('db, 'wb) staging) option" where
  "set_op api st key val = do {
     op \<leftarrow> newWriteOperation api st key kString;
     if \<not> isValid op then do { wo_destroy op; Some (wrong_type, st) } else do {
       st \<leftarrow> wo_write api st op val;
       (op, st) \<leftarrow> wo_finalize api st op (int (length val)) False;
       wo_destroy op;
       Some (OK, st) } }"

definition get_op ::
  "('db, 'wb) rocksdb \<Rightarrow> ('db, 'wb) staging \<Rightarrow> bytes \<Rightarrow> (status \<times> bytes) option" where
  "get_op api st key = do {
     ok \<leftarrow> assertKeyType api st key kString;
     if \<not> ok then Some (wrong_type, [])
     else Some (read_status (sa_get api st (stringLocator key))) }"

text \<open>
  The loop of \<open>remove_all_with_prefix\<close>.  The iterator reads the entries of the area as they are
  when it is made; deleting the entry it stands on does not move it.
\<close>

fun removeWithPrefix ::
  "('db, 'wb) rocksdb \<Rightarrow> ('db, 'wb) staging \<Rightarrow> bytes \<Rightarrow> int \<Rightarrow> (bytes \<times> bytes) list
    \<Rightarrow> (int \<times> ('db, 'wb) staging) option" where
  "removeWithPrefix api st pre removed [] = Some (removed, st)"
| "removeWithPrefix api st pre removed (e # es) =
     (if \<not> startsWith (fst e) pre then Some (removed, st)
      else if length (fst e) > 0 \<and> (fst e ! 0 = kInternal \<or> fst e ! 0 = kConfiguration)
      then removeWithPrefix api st pre removed es
      else do {
        st \<leftarrow> sa_del api st (fst e);
        removeWithPrefix api st pre (removed + 1) es })"

definition remove_all_with_prefix ::
  "('db, 'wb) rocksdb \<Rightarrow> ('db, 'wb) staging \<Rightarrow> bytes \<Rightarrow> (int \<times> ('db, 'wb) staging) option" where
  "remove_all_with_prefix api st pre = removeWithPrefix api st pre 0 (sa_iter api st pre)"

text \<open>One key of \<open>del\<close>, after the check that it exists: everything but its descriptor.\<close>

definition delContents ::
  "('db, 'wb) rocksdb \<Rightarrow> ('db, 'wb) staging \<Rightarrow> bytes \<Rightarrow> key_descriptor \<Rightarrow> ('db, 'wb) staging option" where
  "delContents api st key info =
     (if keyType info = kString then do {
        throw_on_error (sa_get api st (stringLocator key));
        sa_del api st (stringLocator key) }
      else if keyType info = kHash \<or> keyType info = kSet \<or> keyType info = kDeque
              \<or> keyType info = kVersionedHash then do {
        pre \<leftarrow> fieldLocatorPrefix (keyType info) key;
        (count, st) \<leftarrow> remove_all_with_prefix api st pre;
        size \<leftarrow> getSize info;
        assert_that (count = size);
        Some st }
      else if keyType info = kLocalityHash then do {
        assert_that (key \<noteq> []);
        (count, st) \<leftarrow> remove_all_with_prefix api st (localityFieldPrefix key);
        size \<leftarrow> getSize info;
        assert_that (count = size);
        (count, st) \<leftarrow> remove_all_with_prefix api st (localityIndexPrefix key);
        assert_that (count = size);
        Some st }
      else if keyType info = kLease then do {
        (s, st) \<leftarrow> lease_release api st key 0;
        assert_that (s = OK);
        Some st }
      else None)"

fun delLoop ::
  "('db, 'wb) rocksdb \<Rightarrow> ('db, 'wb) staging \<Rightarrow> int \<Rightarrow> bytes list \<Rightarrow> (int \<times> ('db, 'wb) staging) option" where
  "delLoop api st removed [] = Some (removed, st)"
| "delLoop api st removed (key # keys) = do {
     info \<leftarrow> lockKeyDescriptor api st (descriptorLocator key);
     if descriptorEmpty info then delLoop api st removed keys
     else do {
       st \<leftarrow> delContents api st key info;
       st \<leftarrow> sa_del api st (descriptorLocator key);
       delLoop api st (removed + 1) keys } }"

definition del_op ::
  "('db, 'wb) rocksdb \<Rightarrow> ('db, 'wb) staging \<Rightarrow> bytes list \<Rightarrow> (status \<times> int \<times> ('db, 'wb) staging) option" where
  "del_op api st keys = do {
     (removed, st) \<leftarrow> delLoop api st 0 keys;
     Some (OK, removed, st) }"

fun existsLoop ::
  "('db, 'wb) rocksdb \<Rightarrow> ('db, 'wb) staging \<Rightarrow> int \<Rightarrow> bytes list \<Rightarrow> int option" where
  "existsLoop api st count [] = Some count"
| "existsLoop api st count (key # keys) = do {
     info \<leftarrow> getKeyDescriptor api st key;
     existsLoop api st (if \<not> descriptorEmpty info then count + 1 else count) keys }"

definition exists_op ::
  "('db, 'wb) rocksdb \<Rightarrow> ('db, 'wb) staging \<Rightarrow> bytes list \<Rightarrow> (status \<times> int) option" where
  "exists_op api st keys = do { count \<leftarrow> existsLoop api st 0 keys; Some (OK, count) }"

definition getType :: "('db, 'wb) rocksdb \<Rightarrow> ('db, 'wb) staging \<Rightarrow> bytes \<Rightarrow> bytes option" where
  "getType api st key = do {
     info \<leftarrow> getKeyDescriptor api st key;
     keyTypeAsString (keyType info) }"

definition flushall ::
  "('db, 'wb) rocksdb \<Rightarrow> ('db, 'wb) staging \<Rightarrow> (status \<times> ('db, 'wb) staging) option" where
  "flushall api st = do {
     (tmp, st) \<leftarrow> remove_all_with_prefix api st [];
     Some (OK, setCache (cacheClear (expirationCache st)) st) }"

definition configGet ::
  "('db, 'wb) rocksdb \<Rightarrow> ('db, 'wb) staging \<Rightarrow> bytes \<Rightarrow> status \<times> bytes" where
  "configGet api st key = read_status (sa_get api st (configurationLocator key))"

text \<open>\<open>configSet\<close>; the message it logs is not modelled.\<close>

definition configSet ::
  "('db, 'wb) rocksdb \<Rightarrow> ('db, 'wb) staging \<Rightarrow> bytes \<Rightarrow> bytes \<Rightarrow> (status \<times> ('db, 'wb) staging) option" where
  "configSet api st key val = do {
     st \<leftarrow> sa_put api st (configurationLocator key) val;
     Some (OK, st) }"

definition configGetall ::
  "('db, 'wb) rocksdb \<Rightarrow> ('db, 'wb) staging \<Rightarrow> status \<times> bytes list" where
  "configGetall api st =
     (OK, concat (map (\<lambda>e. [drop 1 (fst e), snd e])
            (takeWhile (\<lambda>e. \<not> (length (fst e) = 0 \<or> fst e ! 0 \<noteq> kConfiguration))
               (sa_iter api st [kConfiguration]))))"

subsection \<open>Strings\<close>

definition stringVal :: "bytes \<Rightarrow> aval" where
  "stringVal s = (if s = [] then ANone else AString s)"

fun stringOf :: "aval \<Rightarrow> bytes option" where
  "stringOf ANone = Some []"
| "stringOf (AString s) = Some s"
| "stringOf _ = None"

lemma string_desc:
  assumes "storeInv v" "okKey k" "stringOf (absVal v k) = Some s"
  obtains d where "descOf v k = Some d" "d = emptyDescriptor \<or> wfDescriptor d"
    and "descriptorEmpty d \<and> s = [] \<and> absVal v k = ANone
          \<or> keyType d = kString \<and> s \<noteq> [] \<and> v (stringLocator k) = Some s \<and> sz d = int (length s)"
proof -
  obtain d where d: "descOf v k = Some d" "d = emptyDescriptor \<or> wfDescriptor d" "part kString v k d"
    using storeInvE [OF assms(1,2)] by metis
  with assms(3) have "keyType d = kString \<or> descriptorEmpty d"
    by (cases "keyType d") (auto simp: absVal_def descriptorEmpty_def wfDescriptor_def emptyDescriptor_def)
  with that d assms(3) show ?thesis
    by (auto simp: part_def absVal_def descriptorEmpty_def)
qed

lemma set_ok:
  assumes "ready api st" "okKey k" "stringOf (valueOf api st k) = Some s0" "length x < 2 ^ 63"
  shows "\<exists>st'. set_op api st k x = Some (OK, st') \<and> updated api st k (stringVal x) st'"
proof -
  have ok: "sa_ok api st" and inv: "storeInv (sa_view api st)" using assms(1) by blast+
  from string_desc [OF inv assms(2)] assms(3) obtain d where d: "descOf (sa_view api st) k = Some d"
      "d = emptyDescriptor \<or> wfDescriptor d" "descriptorEmpty d \<or> keyType d = kString"
    by (metis valueOf_def)
  let ?op = "openOp k kString d" and ?n = "int (length x)" and ?st1 = "put_st api st (stringLocator k) x"
  let ?d' = "if ?n = 0 \<and> kString \<noteq> kVersionedHash then emptyDescriptor else keyinfo ?op\<lparr>sz := ?n\<rparr>"
  have kt: "keyType (keyinfo ?op) = kString" using d(3) by auto
  have n: "?n < 2 ^ 63" using assms(4) by (simp add: of_nat_less_numeral_power_cancel_iff)
  have own: "owned kString k (stringLocator k)" by (simp add: owned_def)
  have fin: "finalizesTo api st ?st1 ?op ?n False k (stringVal x)"
  proof (rule finalize_within [OF assms(1,2) d(1) _ within_put [OF ok own] _ _ kt _ _ _ _ refl])
    show "wfDescriptor (keyinfo ?op\<lparr>sz := ?n\<rparr>)"
      using d(2,3) kt n
      by (auto simp: wfDescriptor_def int64_def freshDescriptor_def emptyDescriptor_def descriptorEmpty_def)
    show "d = keyinfo ?op" if "sz (keyinfo ?op) = ?n" "?n \<noteq> 0"
      using that by (auto split: if_splits)
    fix v assume v: "descOf v k = Some ?d'" "\<And>y. owned kString k y \<Longrightarrow> v y = sa_view api ?st1 y"
    have "v (stringLocator k) = Some x" using v(2) [OF own] ok by simp
    with v(1) kt show "part kString v k ?d' \<and> absVal v k = stringVal x"
      by (auto simp: part_def absVal_def stringVal_def emptyDescriptor_def)
  qed (use d(3) in \<open>auto simp: descriptorEmpty_def\<close>)
  have "wo_write api st ?op x = Some ?st1"
    using ok kt d(3) by (simp add: wo_write_def)
  with fin ok d show ?thesis
    by (auto simp: set_op_def elim!: finalizesToE)
qed

lemma get_ok:
  assumes "sa_readable api st" "storeInv (sa_view api st)" "okKey k" "valueOf api st k = AString s"
  shows "get_op api st k = Some (OK, s)"
proof -
  from string_desc [OF assms(2,3)] assms(4) obtain d where "descOf (sa_view api st) k = Some d"
      "keyType d = kString" "sa_view api st (stringLocator k) = Some s"
    by (metis aval.distinct(1) stringOf.simps(2) valueOf_def)
  with assms(1) show ?thesis by (simp add: get_op_def isWrongType_def)
qed

text \<open>
  Storing the empty string deletes the descriptor but keeps the entry: \<open>get\<close> still finds the
  key, \<open>exists\<close> and \<open>del\<close> do not.
\<close>

lemma set_empty_string:
  assumes "ready api st" "okKey k" "stringOf (valueOf api st k) = Some s0"
  shows "\<exists>st'. set_op api st k [] = Some (OK, st') \<and> get_op api st' k = Some (OK, [])
           \<and> exists_op api st' [k] = Some (OK, 0) \<and> del_op api st' [k] = Some (OK, 0, st')"
proof -
  have ok: "sa_ok api st" and inv: "storeInv (sa_view api st)" using assms(1) by blast+
  from string_desc [OF inv assms(2)] assms(3) obtain d where d: "descOf (sa_view api st) k = Some d"
      "d = emptyDescriptor \<or> wfDescriptor d" "descriptorEmpty d \<or> keyType d = kString"
    by (metis valueOf_def)
  let ?st1 = "put_st api st (stringLocator k) []"
  let ?st' = "del_st api ?st1 (descriptorLocator k)"
  have kt: "keyType (keyinfo (openOp k kString d)) = kString" using d(3) by auto
  have "set_op api st k [] = Some (OK, ?st')"
    using ok d kt by (auto simp: set_op_def wo_write_def wo_finalize_def)
  moreover have "descOf (sa_view api ?st') k = Some emptyDescriptor" "sa_ok api ?st'"
      "sa_view api ?st' (stringLocator k) = Some []"
    using ok by simp_all
  ultimately show ?thesis
    by (auto simp: get_op_def exists_op_def del_op_def isWrongType_def)
qed


subsection \<open>Removing by prefix\<close>

definition reserved :: "bytes \<Rightarrow> bool" where
  "reserved x \<longleftrightarrow> length x > 0 \<and> (x ! 0 = kInternal \<or> x ! 0 = kConfiguration)"

lemma removeWithPrefix_eq:
  assumes "sa_ok api st"
  shows "removeWithPrefix api st pre n es =
           (let victims = filter (\<lambda>e. \<not> reserved (fst e)) (takeWhile (\<lambda>e. prefix pre (fst e)) es)
            in Some (n + int (length victims), saw.del_all api st (map fst victims)))"
  using assms
  by (induction es arbitrary: st n) (auto simp: Let_def reserved_def)

lemma del_all_frame [simp]:
  "stateMachine (saw.del_all api st ks) = stateMachine st"
  "revisionTracker (saw.del_all api st ks) = revisionTracker st"
  by (induction ks arbitrary: st) auto

lemma remove_all_ok:
  assumes "sa_ok api st"
  shows "\<exists>st'. remove_all_with_prefix api st pre
             = Some (int (card {x \<in> dom (sa_view api st). prefix pre x \<and> \<not> reserved x}), st')
           \<and> sa_ok api st' \<and> stateMachine st' = stateMachine st \<and> revisionTracker st' = revisionTracker st
           \<and> sa_view api st' = (\<lambda>x. if prefix pre x \<and> \<not> reserved x then None else sa_view api st x)"
proof -
  let ?vs = "filter (\<lambda>e. \<not> reserved (fst e)) (sar.scan api st pre)"
  have r: "sa_readable api st" using assms by simp
  have keys: "fst ` set ?vs = {x \<in> dom (sa_view api st). prefix pre x \<and> \<not> reserved x}"
    using sar.set_scan [OF r, of pre] by (force simp: image_iff)
  have "distinct (map fst ?vs)"
    using sar.distinct_scan [OF r, of pre] by (simp add: distinct_map_filter)
  then have "length ?vs = card {x \<in> dom (sa_view api st). prefix pre x \<and> \<not> reserved x}"
    using distinct_card [of "map fst ?vs"] keys by simp
  moreover have "remove_all_with_prefix api st pre = Some (int (length ?vs), saw.del_all api st (map fst ?vs))"
    using removeWithPrefix_eq [OF assms, of pre 0 "sa_iter api st pre"]
    by (simp add: remove_all_with_prefix_def sar.scan_def Let_def)
  moreover have "sa_view api (saw.del_all api st (map fst ?vs))
      = (\<lambda>x. if prefix pre x \<and> \<not> reserved x then None else sa_view api st x)"
  proof
    fix x
    have "x \<in> set (map fst ?vs) \<longleftrightarrow> x \<in> dom (sa_view api st) \<and> prefix pre x \<and> \<not> reserved x"
      using keys by auto
    then show "sa_view api (saw.del_all api st (map fst ?vs)) x
        = (if prefix pre x \<and> \<not> reserved x then None else sa_view api st x)"
      unfolding saw.del_all_view [OF assms] by (auto simp: restrict_map_def domIff)
  qed
  ultimately show ?thesis
    using saw.del_all_invar [OF assms] by auto
qed

lemma reserved_hd: "x \<noteq> [] \<Longrightarrow> reserved x \<longleftrightarrow> hd x = CHR ''_'' \<or> hd x = CHR ''~''"
  by (cases x) (auto simp: reserved_def kInternal_def kConfiguration_def)

lemma not_reserved [simp]:
  "\<not> reserved (fieldKey kt k f)" "\<not> reserved (descriptorLocator k)" "\<not> reserved (stringLocator k)"
  "\<not> reserved (leaseLocator k)" "\<not> reserved (expirationEventLocator t k)"
  "reserved kStateMachine_Clock" "\<not> reserved (localityFieldKey k h f)" "\<not> reserved (localityIndexKey k f)"
  by (cases kt; simp add: reserved_def locator_defs)+

subsection \<open>Deleting a key\<close>

lemma part_empty:
  "(\<And>x. owned kt k x \<Longrightarrow> v x = None) \<Longrightarrow> part kt v k emptyDescriptor"
  by (cases kt) (auto simp: part_def countedFields_def fieldsOf_def owned_def emptyDescriptor_def fun_eq_iff)

lemma erase_within:
  assumes st: "ready api st" and k: "okKey k" and d: "descOf (sa_view api st) k = Some d" "keyType d = kt"
    and w: "within api st kt k st1" and none: "\<And>x. owned kt k x \<Longrightarrow> sa_view api st1 x = None"
  shows "updated api st k ANone (del_st api st1 (descriptorLocator k))"
proof -
  let ?st' = "del_st api st1 (descriptorLocator k)"
  have ok: "sa_ok api st1" by (rule within_ok [OF w])
  have touch: "touches kt k (sa_view api st) (sa_view api ?st')"
    using w ok by (auto simp: within_def touches_def)
  have desc: "descOf (sa_view api ?st') k = Some emptyDescriptor" using ok by simp
  have none': "sa_view api ?st' x = None" if "owned kt k x" for x
    using none [OF that] ok by simp
  have "part kt (sa_view api ?st') k emptyDescriptor"
    using none' by (rule part_empty)
  with st k d desc touch have "storeInv (sa_view api ?st')"
    by (intro storeInv_touches [OF _ k touch d(1) _ desc]) (auto simp: emptyDescriptor_def)
  moreover have "absVal (sa_view api ?st') k = ANone"
    using desc by (simp add: absVal_def emptyDescriptor_def)
  ultimately show ?thesis
    using ok w touch sets_value_touches [OF touch k]
    by (auto simp: updated_def ready_def within_def)
qed

lemma within_removed:
  assumes "sa_ok api st1" "stateMachine st1 = stateMachine st" "revisionTracker st1 = revisionTracker st"
    and "sa_view api st1 = (\<lambda>x. if R x then None else sa_view api st x)" "\<And>x. R x \<Longrightarrow> owned kt k x"
  shows "within api st kt k st1"
proof -
  have "\<not> R (descriptorLocator k)" using assms(5) owned_descriptor by blast
  with assms show ?thesis by (auto simp: within_def touches_def)
qed

lemma counted_size:
  assumes "storeInv v" "okKey k" "descOf v k = Some d" "fieldType (keyType d)"
  shows "sz d = int (card (dom (fieldsOf v (keyType d) k)))" "getSize d = Some (sz d)"
proof -
  have "part (keyType d) v k d" using storeInvE [OF assms(1,2)] assms(3) by (metis option.inject)
  with assms(4) show "sz d = int (card (dom (fieldsOf v (keyType d) k)))" "getSize d = Some (sz d)"
    by (auto simp: part_def countedFields_def fieldType_def getSize_def)
qed

lemma del_fields:
  assumes "ready api st" "okKey k" "descOf (sa_view api st) k = Some d" "fieldType (keyType d)"
  shows "\<exists>st1. delContents api st k d = Some st1 \<and> updated api st k ANone (del_st api st1 (descriptorLocator k))"
proof -
  have ok: "sa_ok api st" and inv: "storeInv (sa_view api st)" using assms(1) by blast+
  let ?kt = "keyType d" and ?p = "fieldPrefix (keyType d) k"
  note cs = counted_size [OF inv assms(2-4)]
  have pre: "prefix ?p x \<and> \<not> reserved x \<longleftrightarrow> (\<exists>f. x = fieldKey ?kt k f)" for x
    by (auto simp: prefix_fieldPrefix_iff)
  have "{x \<in> dom (sa_view api st). prefix ?p x \<and> \<not> reserved x}
      = fieldKey ?kt k ` dom (fieldsOf (sa_view api st) ?kt k)"
    unfolding pre by (auto simp: fieldsOf_def)
  moreover have "inj_on (fieldKey ?kt k) A" for A by (simp add: inj_on_def)
  ultimately have count: "card {x \<in> dom (sa_view api st). prefix ?p x \<and> \<not> reserved x}
      = card (dom (fieldsOf (sa_view api st) ?kt k))"
    by (simp add: card_image)
  from remove_all_ok [OF ok, of ?p] obtain st1 where st1: "remove_all_with_prefix api st ?p = Some (sz d, st1)"
      "sa_ok api st1" "stateMachine st1 = stateMachine st" "revisionTracker st1 = revisionTracker st"
      "sa_view api st1 = (\<lambda>x. if \<exists>f. x = fieldKey ?kt k f then None else sa_view api st x)"
    unfolding count [unfolded pre] cs(1) pre by blast
  have own: "owned ?kt k x \<longleftrightarrow> (\<exists>f. x = fieldKey ?kt k f)" for x
    using assms(4) by (auto simp: owned_def fieldType_def)
  have "within api st ?kt k st1"
    by (rule within_removed [OF st1(2-5)]) (simp add: own)
  with erase_within [OF assms(1-3) refl this] own st1(5)
  have "updated api st k ANone (del_st api st1 (descriptorLocator k))" by simp
  moreover have "delContents api st k d = Some st1"
    using assms(4) st1(1) cs(2) by (auto simp: delContents_def fieldType_def)
  ultimately show ?thesis by blast
qed

lemma del_string:
  assumes "ready api st" "okKey k" "descOf (sa_view api st) k = Some d" "keyType d = kString"
  shows "\<exists>st1. delContents api st k d = Some st1 \<and> updated api st k ANone (del_st api st1 (descriptorLocator k))"
proof -
  have ok: "sa_ok api st" and inv: "storeInv (sa_view api st)" using assms(1) by blast+
  have "part kString (sa_view api st) k d" using storeInvE [OF inv assms(2)] assms(3) by (metis option.inject)
  then obtain s where s: "sa_view api st (stringLocator k) = Some s" using assms(4) by (auto simp: part_def)
  let ?st1 = "del_st api st (stringLocator k)"
  have "within api st kString k ?st1" using ok by (intro within_del) (simp_all add: owned_def)
  from erase_within [OF assms(1-4) this] ok
  have "updated api st k ANone (del_st api ?st1 (descriptorLocator k))" by (simp add: owned_def)
  with s ok assms(4) show ?thesis by (simp add: delContents_def)
qed


text \<open>
  A locality hash: as many field entries as index entries, and together they are all the entries
  of the key.
\<close>

lemma locality_part:
  assumes "storeInv v" "okKey k" "descOf v k = Some d" "keyType d = kLocalityHash"
  shows "k \<noteq> []" "sz d = int (card (dom (\<lambda>f. v (localityIndexKey k f))))" "getSize d = Some (sz d)"
    "v (localityIndexKey k f) = Some h \<Longrightarrow> f \<noteq> [] \<and> h \<noteq> [] \<and> okKey h \<and> v (localityFieldKey k h f) \<noteq> None"
    "v (fieldKey kLocalityHash k r) \<noteq> None \<Longrightarrow>
       (\<exists>f h. fieldKey kLocalityHash k r = localityIndexKey k f \<and> v (localityIndexKey k f) = Some h)
     \<or> (\<exists>f h. fieldKey kLocalityHash k r = localityFieldKey k h f \<and> v (localityIndexKey k f) = Some h)"
proof -
  have "part kLocalityHash v k d" using storeInvE [OF assms(1,2)] assms(3) by (metis option.inject)
  with assms(4) show "k \<noteq> []" "sz d = int (card (dom (\<lambda>f. v (localityIndexKey k f))))" "getSize d = Some (sz d)"
    "v (localityIndexKey k f) = Some h \<Longrightarrow> f \<noteq> [] \<and> h \<noteq> [] \<and> okKey h \<and> v (localityFieldKey k h f) \<noteq> None"
    "v (fieldKey kLocalityHash k r) \<noteq> None \<Longrightarrow>
       (\<exists>f h. fieldKey kLocalityHash k r = localityIndexKey k f \<and> v (localityIndexKey k f) = Some h)
     \<or> (\<exists>f h. fieldKey kLocalityHash k r = localityFieldKey k h f \<and> v (localityIndexKey k f) = Some h)"
    by (simp_all add: part_def getSize_def)
qed

lemma locality_prefixes:
  "prefix (localityIndexPrefix k) x \<longleftrightarrow> (\<exists>f. x = localityIndexKey k f)"
  "prefix (localityFieldPrefix k) x \<Longrightarrow> \<exists>r. x = fieldKey kLocalityHash k (kData # r)"
  "prefix (localityFieldPrefix k) (localityFieldKey k h f)"
  "localityIndexKey k f = fieldKey kLocalityHash k (kIndex # f)"
  "localityFieldKey k h f = fieldKey kLocalityHash k (kData # appendEscaped h @ f)"
  by (auto simp: prefix_def localityIndexKey_def localityFieldPrefix_def localityFieldKey_def
      localityIndexPrefix_def fieldKey_def)

lemma locality_counts:
  assumes "storeInv v" "okKey k" "descOf v k = Some d" "keyType d = kLocalityHash"
  shows "int (card {x \<in> dom v. prefix (localityFieldPrefix k) x \<and> \<not> reserved x}) = sz d"
    and "int (card {x \<in> dom v. prefix (localityIndexPrefix k) x \<and> \<not> reserved x}) = sz d"
proof -
  let ?I = "dom (\<lambda>f. v (localityIndexKey k f))"
  note L = locality_part [OF assms]
  have "{x \<in> dom v. prefix (localityFieldPrefix k) x \<and> \<not> reserved x}
      = (\<lambda>f. localityFieldKey k (the (v (localityIndexKey k f))) f) ` ?I" (is "?L = ?R")
  proof
    show "?L \<subseteq> ?R"
    proof
      fix x assume "x \<in> ?L"
      then obtain r where r: "x = fieldKey kLocalityHash k (kData # r)" "v x \<noteq> None"
        using locality_prefixes(2) [of k x] by blast
      from L(5) [OF r(2) [unfolded r(1)]] obtain f h
        where "x = localityFieldKey k h f" "v (localityIndexKey k f) = Some h"
        unfolding locality_prefixes(4) r(1) by (auto simp: kData_def kIndex_def)
      then show "x \<in> ?R" by force
    qed
    show "?R \<subseteq> ?L" using L(4) locality_prefixes(3) by fastforce
  qed
  moreover have "inj_on (\<lambda>f. localityFieldKey k (the (v (localityIndexKey k f))) f) ?I"
  proof (rule inj_onI)
    fix f g assume fg: "f \<in> ?I" "g \<in> ?I" "localityFieldKey k (the (v (localityIndexKey k f))) f
        = localityFieldKey k (the (v (localityIndexKey k g))) g"
    then have "okKey (the (v (localityIndexKey k f)))" "okKey (the (v (localityIndexKey k g)))"
      using L(4) by fastforce+
    with fg(3) assms(2) show "f = g" by (simp add: keysimps)
  qed
  ultimately show "int (card {x \<in> dom v. prefix (localityFieldPrefix k) x \<and> \<not> reserved x}) = sz d"
    using L(2) by (simp add: card_image)
  have "{x \<in> dom v. prefix (localityIndexPrefix k) x \<and> \<not> reserved x} = localityIndexKey k ` ?I"
    by (auto simp: locality_prefixes(1))
  moreover have "inj_on (localityIndexKey k) ?I" by (auto simp: inj_on_def localityIndexKey_def)
  ultimately show "int (card {x \<in> dom v. prefix (localityIndexPrefix k) x \<and> \<not> reserved x}) = sz d"
    using L(2) by (simp add: card_image)
qed


lemma del_locality:
  assumes "ready api st" "okKey k" "descOf (sa_view api st) k = Some d" "keyType d = kLocalityHash"
  shows "\<exists>st1. delContents api st k d = Some st1 \<and> updated api st k ANone (del_st api st1 (descriptorLocator k))"
proof -
  have ok: "sa_ok api st" and inv: "storeInv (sa_view api st)" using assms(1) by blast+
  note L = locality_part [OF inv assms(2-4)]
  note C = locality_counts [OF inv assms(2-4)]
  let ?P = "\<lambda>x. prefix (localityFieldPrefix k) x \<and> \<not> reserved x"
  let ?Q = "\<lambda>x. prefix (localityIndexPrefix k) x \<and> \<not> reserved x"
  from remove_all_ok [OF ok, of "localityFieldPrefix k"] obtain st1
    where st1: "remove_all_with_prefix api st (localityFieldPrefix k) = Some (sz d, st1)" "sa_ok api st1"
      "stateMachine st1 = stateMachine st" "revisionTracker st1 = revisionTracker st"
      "sa_view api st1 = (\<lambda>x. if ?P x then None else sa_view api st x)"
    unfolding C(1) by blast
  have PQ: "\<not> (?P x \<and> ?Q x)" for x
    using locality_prefixes(2) [of k x] by (auto simp: locality_prefixes(1,4) kData_def kIndex_def)
  then have "{x \<in> dom (sa_view api st1). ?Q x} = {x \<in> dom (sa_view api st). ?Q x}"
    using st1(5) by (auto split: if_splits)
  with remove_all_ok [OF st1(2), of "localityIndexPrefix k"] C(2) obtain st2
    where st2: "remove_all_with_prefix api st1 (localityIndexPrefix k) = Some (sz d, st2)" "sa_ok api st2"
      "stateMachine st2 = stateMachine st" "revisionTracker st2 = revisionTracker st"
      "sa_view api st2 = (\<lambda>x. if ?P x \<or> ?Q x then None else sa_view api st x)"
    using st1(3-5) by fastforce
  have own: "owned kLocalityHash k x \<longleftrightarrow> (\<exists>f. x = fieldKey kLocalityHash k f)" for x
    by (simp add: owned_def)
  have PQ_owned: "owned kLocalityHash k x" if "?P x \<or> ?Q x" for x
    using that locality_prefixes(2) [of k x] by (auto simp: own locality_prefixes(1,4))
  have "within api st kLocalityHash k st2"
    by (rule within_removed [OF st2(2-5) PQ_owned])
  moreover have "sa_view api st2 x = None" if o: "owned kLocalityHash k x" for x
  proof (rule ccontr)
    assume ne: "sa_view api st2 x \<noteq> None"
    obtain r where x: "x = fieldKey kLocalityHash k r" using o unfolding own by blast
    from ne have n: "\<not> (?P x \<or> ?Q x)" "sa_view api st x \<noteq> None"
      unfolding st2(5) by presburger+
    from L(5) [OF n(2) [unfolded x]] n(1) show False
      unfolding x locality_prefixes(1) using locality_prefixes(3) [of k] not_reserved by metis
  qed
  ultimately have "updated api st k ANone (del_st api st2 (descriptorLocator k))"
    by (intro erase_within [OF assms])
  moreover have "delContents api st k d = Some st2"
    using assms(4) L(1,3) st1(1) st2(1) by (simp add: delContents_def)
  ultimately show ?thesis by blast
qed

text \<open>One key, of any type: it is gone and no other key changes.\<close>

lemma leaseReady_other:
  assumes "leaseReady api st clk" "okKey k" "updated api st k a st'"
    and "\<And>h s e. valueOf api st k \<noteq> ALease h s e" "\<And>h s e. a \<noteq> ALease h s e"
  shows "leaseReady api st' clk \<and> applied st' = applied st"
proof -
  note D = leaseReadyD [OF assms(1)]
  have st: "setCache (expirationCache st) st = st" by (simp add: setCache_def expirationCache_def)
  have "sa_view api st (expirationEventLocator t k) = None" for t
    using not_lease_desc [OF D(3) assms(2)] assms(4) by (metis valueOf_def)
  then have none: "(t, k) \<notin> set (mContents (expirationCache st))" for t
    using D(5) by simp
  show ?thesis
  proof (rule leaseReady_updated [OF assms(1,2), of "expirationCache st" a])
    show "updated api (setCache (expirationCache st) st) k a st'" by (simp add: st assms(3))
    show "(t, k) \<in> set (mContents (expirationCache st)) \<longleftrightarrow> (\<exists>h s. a = ALease h s t)" for t
      using none assms(5) by blast
  qed (use D(4) assms(5) in blast)+
qed

lemma del_key:
  assumes "leaseReady api st clk" "okKey k" "descOf (sa_view api st) k = Some d" "\<not> descriptorEmpty d"
  shows "\<exists>st1. delContents api st k d = Some st1 \<and> leaseReady api (del_st api st1 (descriptorLocator k)) clk
           \<and> applied st1 = applied st \<and> sa_ok api st1 \<and> sets_value k ANone (sa_view api st) (sa_view api (del_st api st1 (descriptorLocator k)))"
proof -
  note D = leaseReadyD [OF assms(1)]
  have wf: "wfDescriptor d"
    using storeInvE [OF D(3) assms(2)] assms(3,4) by (metis descriptorEmpty_empty option.inject)
  show ?thesis
  proof (cases "keyType d = kLease")
    case True
    obtain h s e where a: "valueOf api st k = ALease h s e"
      using assms(3) True by (auto simp: valueOf_def absVal_def)
    from lease_release_now_ok [OF assms(1,2) a] obtain st1
      where st1: "lease_release_now api st k = Some (OK, st1)" "leaseReady api st1 clk"
        "sets_value k ANone (sa_view api st) (sa_view api st1)" "applied st1 = applied st" by blast
    note D1 = leaseReadyD [OF st1(2)]
    have "absVal (sa_view api st1) k = ANone" using st1(3) assms(2) by (simp add: sets_value_def)
    with not_lease_desc [OF D1(3) assms(2)] absVal_cases(1) [OF D1(3) assms(2)]
    have "descOf (sa_view api st1) k = Some emptyDescriptor"
      by (metis aval.distinct(11) wf_not_empty)
    then have gone: "sa_view api st1 (descriptorLocator k) = None"
      by (auto simp: descOf_def constructDescriptor_def parseDescriptor_def emptyDescriptor_def Let_def
          Option.bind_eq_Some_conv status_of_def split: option.splits if_splits)
    have "sa_view api (del_st api st1 (descriptorLocator k)) = sa_view api st1"
      using gone D1(2) by auto
    with st1(2) have "leaseReady api (del_st api st1 (descriptorLocator k)) clk"
      by (auto simp: leaseReady_def leaseInv_def ready_def)
    with True st1(1,3,4) D1(2) gone show ?thesis
      by (auto simp: delContents_def lease_release_def fun_upd_idem)
  next
    case False
    have "\<exists>st1. delContents api st k d = Some st1 \<and> updated api st k ANone (del_st api st1 (descriptorLocator k))"
      using del_fields [OF D(1) assms(2,3)] del_string [OF D(1) assms(2,3)] del_locality [OF D(1) assms(2,3)]
        False wf by (cases "keyType d") (auto simp: wfDescriptor_def)
    then obtain st1 where st1: "delContents api st k d = Some st1"
        "updated api st k ANone (del_st api st1 (descriptorLocator k))" by blast
    have "valueOf api st k \<noteq> ALease h s e" for h s e
      using False assms(3) by (auto simp: valueOf_def absVal_def split: KeyType.splits)
    then have "leaseReady api (del_st api st1 (descriptorLocator k)) clk \<and> applied st1 = applied st"
      using leaseReady_other [OF assms(1,2) st1(2)] by simp
    with st1 show ?thesis by (auto simp: updated_def ready_def sa_ok_def del_st_def)
  qed
qed


fun count_existing :: "(bytes \<Rightarrow> aval) \<Rightarrow> bytes list \<Rightarrow> int" where
  "count_existing db [] = 0"
| "count_existing db (k # ks) = (if db k \<noteq> ANone then 1 else 0) + count_existing (db(k := ANone)) ks"

text \<open>Counting each existing key once.\<close>

lemma count_existing_card: "count_existing db ks = int (card {k \<in> set ks. db k \<noteq> ANone})"
proof (induction ks arbitrary: db)
  case Nil
  then show ?case by simp
next
  case (Cons k ks)
  have "{x \<in> set (k # ks). db x \<noteq> ANone}
      = (if db k \<noteq> ANone then {k} else {}) \<union> {x \<in> set ks. (db(k := ANone)) x \<noteq> ANone}"
    by auto
  then have "card {x \<in> set (k # ks). db x \<noteq> ANone}
      = (if db k \<noteq> ANone then 1 else 0) + card {x \<in> set ks. (db(k := ANone)) x \<noteq> ANone}"
    by (simp only:) (subst card_Un_disjoint, auto)
  with Cons.IH [of "db(k := ANone)"] show ?case by (simp del: fun_upd_apply)
qed

lemma delLoop_ok:
  assumes "leaseReady api st clk" "\<forall>k\<in>set ks. okKey k"
  shows "\<exists>st'. delLoop api st n ks = Some (n + count_existing (valueOf api st) ks, st') \<and> leaseReady api st' clk \<and> applied st' = applied st
           \<and> (\<forall>k. okKey k \<longrightarrow> valueOf api st' k = (if k \<in> set ks then ANone else valueOf api st k))"
  using assms
proof (induction ks arbitrary: st n)
  case Nil
  then show ?case by simp
next
  case (Cons k ks)
  note D = leaseReadyD [OF Cons.prems(1)]
  have k: "okKey k" and ks: "\<forall>k\<in>set ks. okKey k" using Cons.prems(2) by auto
  have cong: "count_existing db ks = count_existing db' ks" if "\<forall>k\<in>set ks. db k = db' k" for db db'
    using that unfolding count_existing_card by (metis (mono_tags, lifting) Collect_cong)
  obtain d where d: "descOf (sa_view api st) k = Some d" using storeInvE [OF D(3) k] by metis
  note empty = absVal_cases(1) [OF D(3) k d, folded valueOf_def]
  show ?case
  proof (cases "descriptorEmpty d")
    case True
    then have "valueOf api st k = ANone" using empty by simp
    moreover from this have "(valueOf api st)(k := ANone) = valueOf api st" by auto
    ultimately show ?thesis
      using Cons.IH [OF Cons.prems(1) ks, of n] True d D(2) by auto
  next
    case False
    from del_key [OF Cons.prems(1) k d False] obtain st1 where st1: "delContents api st k d = Some st1"
        "leaseReady api (del_st api st1 (descriptorLocator k)) clk" "sa_ok api st1"
        "sets_value k ANone (sa_view api st) (sa_view api (del_st api st1 (descriptorLocator k)))"
        "applied st1 = applied st"
      by blast
    let ?st2 = "del_st api st1 (descriptorLocator k)"
    have val: "valueOf api ?st2 x = ((valueOf api st)(k := ANone)) x" if "okKey x" for x
      using st1(4) that by (auto simp: sets_value_def valueOf_def)
    from Cons.IH [OF st1(2) ks, of "n + 1"] obtain st'
      where "delLoop api ?st2 (n + 1) ks = Some (n + 1 + count_existing (valueOf api ?st2) ks, st')"
        "leaseReady api st' clk" "applied st' = applied ?st2"
        "\<forall>x. okKey x \<longrightarrow> valueOf api st' x = (if x \<in> set ks then ANone else valueOf api ?st2 x)"
      by blast
    moreover have "count_existing (valueOf api ?st2) ks = count_existing ((valueOf api st)(k := ANone)) ks"
      using val ks by (intro cong) auto
    ultimately show ?thesis
      using False empty d D(2) st1(1,3,5) val by auto
  qed
qed

lemma del_ok:
  assumes "leaseReady api st clk" "\<forall>k\<in>set ks. okKey k"
  shows "\<exists>st'. del_op api st ks = Some (OK, int (card {k \<in> set ks. valueOf api st k \<noteq> ANone}), st')
           \<and> leaseReady api st' clk \<and> applied st' = applied st
           \<and> (\<forall>k. okKey k \<longrightarrow> valueOf api st' k = (if k \<in> set ks then ANone else valueOf api st k))"
  using delLoop_ok [OF assms, of 0] by (auto simp: del_op_def count_existing_card)

lemma exists_ok:
  assumes "sa_readable api st" "storeInv (sa_view api st)" "\<forall>k\<in>set ks. okKey k"
  shows "exists_op api st ks = Some (OK, int (length (filter (\<lambda>k. valueOf api st k \<noteq> ANone) ks)))"
proof -
  have "existsLoop api st n ks = Some (n + int (length (filter (\<lambda>k. valueOf api st k \<noteq> ANone) ks)))" for n
    using assms(3)
  proof (induction ks arbitrary: n)
    case (Cons k ks)
    then have k: "okKey k" by simp
    obtain d where d: "descOf (sa_view api st) k = Some d" using storeInvE [OF assms(2) k] by metis
    with Cons assms(1) absVal_cases(1) [OF assms(2) k d, folded valueOf_def] show ?case by auto
  qed simp
  then show ?thesis by (simp add: exists_op_def)
qed

subsection \<open>Deleting everything\<close>

lemma flushall_ok:
  assumes "leaseReady api st clk"
  shows "\<exists>st'. flushall api st = Some (OK, st') \<and> leaseReady api st' clk \<and> applied st' = applied st
           \<and> (\<forall>k. valueOf api st' k = ANone)
           \<and> (\<forall>x. reserved x \<longrightarrow> sa_view api st' x = sa_view api st x)"
proof -
  note D = leaseReadyD [OF assms]
  from remove_all_ok [OF D(2), of "[]"] obtain st1 n where st1: "remove_all_with_prefix api st [] = Some (n, st1)"
      "sa_ok api st1" "stateMachine st1 = stateMachine st"
      "sa_view api st1 = (\<lambda>x. if \<not> reserved x then None else sa_view api st x)"
    by auto
  let ?st' = "setCache (cacheClear (expirationCache st1)) st1"
  have none: "sa_view api st1 x = None" if "owned kt k x \<or> x = descriptorLocator k" for kt k x
  proof -
    have "\<not> reserved x"
      using that by (auto simp: owned_def split: KeyType.splits)
    then show ?thesis by (simp add: st1(4))
  qed
  then have desc: "descOf (sa_view api st1) k = Some emptyDescriptor" for k
    by (simp add: descOf_def constructDescriptor_def)
  have "part kt (sa_view api st1) k emptyDescriptor" for kt k
    using none by (intro part_empty) blast
  with desc have "storeInv (sa_view api st1)" by (auto simp: storeInv_def keyInv_def)
  moreover have "sa_view api st1 kStateMachine_Clock = Some (unsignedIntToBinaryString clk)"
    "sa_view api st1 (expirationEventLocator t k) = None" for t k
    using D(8) none by (simp_all add: st1(4))
  moreover have "metaInv (sa_view api st1) (lastApplied (stateMachine st1))"
  proof -
    have "reserved kStateMachine_Format" "reserved kStateMachine_InBulkload" "reserved kStateMachine_LastApplied"
      by (simp_all add: reserved_def locator_defs kInternal_def)
    with D(9) show ?thesis by (auto simp: st1(3,4) metaInv_def)
  qed
  ultimately have "leaseReady api ?st' clk"
    using st1(2,3) D(10) by (simp add: leaseReady_def leaseInv_def ready_def cacheClear_def cacheInv_def)
  moreover have "valueOf api ?st' k = ANone" for k
    using desc by (simp add: valueOf_def absVal_def emptyDescriptor_def)
  ultimately show ?thesis
    using st1 by (auto simp: flushall_def)
qed

end
