(* ===== verification/LocalityOps.thy ===== *)
theory LocalityOps
  imports CoreOps
begin

text \<open>
  The locality hash commands of \<^verbatim>\<open>src/src/StateMachine.cc\<close>.  A field of a locality hash is stored
  under its locality hint, so that fields with the same hint are neighbours, and an index entry
  maps each field to its hint.  The writes are proved to be updates of a map from fields to
  hints and values.
\<close>

subsection \<open>Operations\<close>

definition lhsetInternal ::
  "('db, 'wb) rocksdb \<Rightarrow> ('db, 'wb) staging \<Rightarrow> write_operation \<Rightarrow> bytes \<Rightarrow> bytes \<Rightarrow> bytes
    \<Rightarrow> (bool \<times> ('db, 'wb) staging) option" where
  "lhsetInternal api st op field hint val = do {
     present \<leftarrow> wo_localityFieldExists api st op hint field;
     if present then do {
       st \<leftarrow> wo_writeLocalityField api st op hint field val;
       Some (False, st) }
     else do {
       (moved, previousHint) \<leftarrow> wo_getLocalityIndex api st op field;
       if moved then do {
         (gone, st) \<leftarrow> wo_deleteLocalityField api st op previousHint field;
         assert_that gone;
         st \<leftarrow> wo_writeLocalityField api st op hint field val;
         st \<leftarrow> wo_writeLocalityIndex api st op field hint;
         Some (False, st) }
       else do {
         st \<leftarrow> wo_writeLocalityField api st op hint field val;
         st \<leftarrow> wo_writeLocalityIndex api st op field hint;
         Some (True, st) } } }"

fun lhmsetLoop ::
  "('db, 'wb) rocksdb \<Rightarrow> write_operation \<Rightarrow> ('db, 'wb) staging \<Rightarrow> int \<Rightarrow> bytes list
    \<Rightarrow> (int \<times> ('db, 'wb) staging) option" where
  "lhmsetLoop api op st created (f # h # x # rest) = do {
     (new, st) \<leftarrow> lhsetInternal api st op f h x;
     lhmsetLoop api op st (created + of_bool new) rest }"
| "lhmsetLoop api op st created _ = Some (created, st)"

definition lhmset ::
  "('db, 'wb) rocksdb \<Rightarrow> ('db, 'wb) staging \<Rightarrow> bytes \<Rightarrow> bytes list \<Rightarrow> (status \<times> ('db, 'wb) staging) option" where
  "lhmset api st key args = do {
     assert_that (\<not> length args mod 3 \<noteq> 0);
     op \<leftarrow> newWriteOperation api st key kLocalityHash;
     if \<not> isValid op then do { wo_destroy op; Some (wrong_type, st) } else do {
       (created, st) \<leftarrow> lhmsetLoop api op st 0 args;
       size \<leftarrow> wo_keySize op;
       (op, st) \<leftarrow> wo_finalize api st op (size + created) False;
       wo_destroy op;
       Some (OK, st) } }"

definition lhset ::
  "('db, 'wb) rocksdb \<Rightarrow> ('db, 'wb) staging \<Rightarrow> bytes \<Rightarrow> bytes \<Rightarrow> bytes \<Rightarrow> bytes
    \<Rightarrow> (status \<times> bool \<times> ('db, 'wb) staging) option" where
  "lhset api st key field hint val = do {
     op \<leftarrow> newWriteOperation api st key kLocalityHash;
     if \<not> isValid op then do { wo_destroy op; Some (wrong_type, False, st) } else do {
       (fieldcreated, st) \<leftarrow> lhsetInternal api st op field hint val;
       size \<leftarrow> wo_keySize op;
       (op, st) \<leftarrow> wo_finalize api st op (size + of_bool fieldcreated) False;
       wo_destroy op;
       Some (OK, fieldcreated, st) } }"

fun lhdelLoop ::
  "('db, 'wb) rocksdb \<Rightarrow> write_operation \<Rightarrow> ('db, 'wb) staging \<Rightarrow> int \<Rightarrow> bytes list
    \<Rightarrow> (int \<times> ('db, 'wb) staging) option" where
  "lhdelLoop api op st removed [] = Some (removed, st)"
| "lhdelLoop api op st removed (f # fs) = do {
     (present, hint, st) \<leftarrow> wo_getAndDeleteLocalityIndex api st op f;
     if present then do {
       (gone, st) \<leftarrow> wo_deleteLocalityField api st op hint f;
       assert_that gone;
       lhdelLoop api op st (removed + 1) fs }
     else lhdelLoop api op st removed fs }"

definition lhdel ::
  "('db, 'wb) rocksdb \<Rightarrow> ('db, 'wb) staging \<Rightarrow> bytes \<Rightarrow> bytes list
    \<Rightarrow> (status \<times> int \<times> ('db, 'wb) staging) option" where
  "lhdel api st key args = do {
     op \<leftarrow> newWriteOperation api st key kLocalityHash;
     if \<not> isValid op then do { wo_destroy op; Some (wrong_type, 0, st) } else do {
       (removed, st) \<leftarrow> lhdelLoop api op st 0 args;
       size \<leftarrow> wo_keySize op;
       (op, st) \<leftarrow> wo_finalize api st op (size - removed) False;
       wo_destroy op;
       Some (OK, removed, st) } }"

definition lhlocdel ::
  "('db, 'wb) rocksdb \<Rightarrow> ('db, 'wb) staging \<Rightarrow> bytes \<Rightarrow> bytes \<Rightarrow> bytes
    \<Rightarrow> (status \<times> int \<times> ('db, 'wb) staging) option" where
  "lhlocdel api st key field hint = do {
     ok \<leftarrow> assertKeyType api st key kLocalityHash;
     if \<not> ok then Some (wrong_type, 0, st) else do {
       loc \<leftarrow> localityFieldLocator key hint field;
       present \<leftarrow> ok_or_notfound (sa_exists api st loc);
       if present then do {
         (s, removed, st) \<leftarrow> lhdel api st key [field];
         assert_that (removed = 1);
         Some (s, removed, st) }
       else Some (OK, 0, st) } }"

definition lhget ::
  "('db, 'wb) rocksdb \<Rightarrow> ('db, 'wb) staging \<Rightarrow> bytes \<Rightarrow> bytes \<Rightarrow> bytes \<Rightarrow> (status \<times> bytes) option" where
  "lhget api st key field hint = do {
     ok \<leftarrow> assertKeyType api st key kLocalityHash;
     if \<not> ok then Some (wrong_type, []) else do {
       fast \<leftarrow> (if hint \<noteq> [] then do {
                  loc \<leftarrow> localityFieldLocator key hint field;
                  ok_or_notfound (sa_get api st loc);
                  Some (found (sa_get api st loc)) }
                else Some None);
       case fast of
         Some val \<Rightarrow> Some (OK, val)
       | None \<Rightarrow> do {
           iloc \<leftarrow> localityIndexLocator key field;
           present \<leftarrow> ok_or_notfound (sa_get api st iloc);
           if \<not> present then Some (NotFound, []) else do {
             let correctHint = snd (read_status (sa_get api st iloc));
             (if hint \<noteq> [] then assert_that (hint \<noteq> correctHint) else Some ());
             floc \<leftarrow> localityFieldLocator key correctHint field;
             val \<leftarrow> throw_on_error (sa_get api st floc);
             Some (OK, val) } } } }"

definition lhlen :: "('db, 'wb) rocksdb \<Rightarrow> ('db, 'wb) staging \<Rightarrow> bytes \<Rightarrow> (status \<times> int) option" where
  "lhlen api st key = do {
     info \<leftarrow> getKeyDescriptor api st key;
     if isWrongType info kLocalityHash then Some (wrong_type, 0) else do {
       len \<leftarrow> getSize info;
       Some (OK, len) } }"

subsection \<open>Contents\<close>

type_synonym lhmap = "bytes \<rightharpoonup> bytes \<times> bytes"

definition lhContents :: "view \<Rightarrow> bytes \<Rightarrow> lhmap \<Rightarrow> bool" where
  "lhContents v k m \<longleftrightarrow>
     finite (dom m)
     \<and> (\<forall>f h x. m f = Some (h, x) \<longrightarrow> f \<noteq> [] \<and> h \<noteq> [] \<and> okKey h)
     \<and> (\<forall>f. v (localityIndexKey k f) = map_option fst (m f))
     \<and> (\<forall>f h. okKey h \<longrightarrow> v (localityFieldKey k h f)
               = (case m f of Some (h', x) \<Rightarrow> if h = h' then Some x else None | None \<Rightarrow> None))
     \<and> (\<forall>r. v (fieldKey kLocalityHash k r) \<noteq> None \<longrightarrow>
           (\<exists>f h x. m f = Some (h, x) \<and> (fieldKey kLocalityHash k r = localityIndexKey k f
                                       \<or> fieldKey kLocalityHash k r = localityFieldKey k h f)))"

lemma lhContentsD:
  assumes "lhContents v k m"
  shows "finite (dom m)" "m f = Some (h, x) \<Longrightarrow> f \<noteq> [] \<and> h \<noteq> [] \<and> okKey h"
    and "v (localityIndexKey k f) = map_option fst (m f)"
    and "okKey h \<Longrightarrow> v (localityFieldKey k h f)
           = (case m f of Some (h', x) \<Rightarrow> if h = h' then Some x else None | None \<Rightarrow> None)"
    and "v (fieldKey kLocalityHash k r) \<noteq> None \<Longrightarrow>
           \<exists>f h x. m f = Some (h, x) \<and> (fieldKey kLocalityHash k r = localityIndexKey k f
                                      \<or> fieldKey kLocalityHash k r = localityFieldKey k h f)"
  using assms by (auto simp: lhContents_def)

lemma lhContentsI:
  assumes "finite (dom m)" "\<And>f h x. m f = Some (h, x) \<Longrightarrow> f \<noteq> [] \<and> h \<noteq> [] \<and> okKey h"
    and "\<And>f. v (localityIndexKey k f) = map_option fst (m f)"
    and "\<And>f h. okKey h \<Longrightarrow> v (localityFieldKey k h f)
           = (case m f of Some (h', x) \<Rightarrow> if h = h' then Some x else None | None \<Rightarrow> None)"
    and "\<And>r. v (fieldKey kLocalityHash k r) \<noteq> None \<Longrightarrow>
           \<exists>f h x. m f = Some (h, x) \<and> (fieldKey kLocalityHash k r = localityIndexKey k f
                                      \<or> fieldKey kLocalityHash k r = localityFieldKey k h f)"
  shows "lhContents v k m"
  using assms unfolding lhContents_def by blast

lemma lhContents_localityOf: "lhContents v k m \<Longrightarrow> localityOf v k = m"
proof
  fix f assume c: "lhContents v k m"
  show "localityOf v k f = m f"
    using lhContentsD(2,3) [OF c, of f] lhContentsD(4) [OF c, of _ f]
    by (cases "m f") (auto simp: localityOf_def)
qed

lemma lhContents_part:
  assumes "lhContents v k m" "m \<noteq> Map.empty" "keyType d = kLocalityHash" "k \<noteq> []" "sz d = int (card (dom m))"
  shows "part kLocalityHash v k d"
proof -
  note C = lhContentsD [OF assms(1)]
  have dom: "dom (\<lambda>f. v (localityIndexKey k f)) = dom m" by (auto simp: C(3))
  have "0 < card (dom m)" using C(1) assms(2) by (simp add: card_gt_0_iff)
  moreover have "f \<noteq> [] \<and> h \<noteq> [] \<and> okKey h \<and> v (localityFieldKey k h f) \<noteq> None"
    if "v (localityIndexKey k f) = Some h" for f h
    using that C(2-4) by (auto simp: C(3))
  moreover have "(\<exists>f h. fieldKey kLocalityHash k r = localityIndexKey k f \<and> v (localityIndexKey k f) = Some h)
      \<or> (\<exists>f h. fieldKey kLocalityHash k r = localityFieldKey k h f \<and> v (localityIndexKey k f) = Some h)"
    if "v (fieldKey kLocalityHash k r) \<noteq> None" for r
    using C(5) [OF that] by (fastforce simp: C(3))
  ultimately show ?thesis
    using assms(3-5) C(1) by (simp add: part_def dom)
qed

lemma part_lhContents:
  assumes "part kLocalityHash v k d" "keyType d = kLocalityHash" "okKey k"
  shows "lhContents v k (localityOf v k)" "sz d = int (card (dom (localityOf v k)))" "localityOf v k \<noteq> Map.empty"
proof -
  let ?m = "localityOf v k"
  from assms have P: "0 < sz d" "finite (dom (\<lambda>f. v (localityIndexKey k f)))"
      "sz d = int (card (dom (\<lambda>f. v (localityIndexKey k f))))"
      "\<And>f h. v (localityIndexKey k f) = Some h \<Longrightarrow> f \<noteq> [] \<and> h \<noteq> [] \<and> okKey h \<and> v (localityFieldKey k h f) \<noteq> None"
      "\<And>r. v (fieldKey kLocalityHash k r) \<noteq> None \<Longrightarrow>
          (\<exists>f h. fieldKey kLocalityHash k r = localityIndexKey k f \<and> v (localityIndexKey k f) = Some h)
        \<or> (\<exists>f h. fieldKey kLocalityHash k r = localityFieldKey k h f \<and> v (localityIndexKey k f) = Some h)"
    by (simp_all add: part_def)
  have idx: "v (localityIndexKey k f) = map_option fst (?m f)" for f
    using P(4) [of f] by (cases "v (localityIndexKey k f)") (auto simp: localityOf_def)
  have dom: "dom ?m = dom (\<lambda>f. v (localityIndexKey k f))" by (auto simp: idx)
  have field: "v (localityFieldKey k h f) = (case ?m f of Some (h', x) \<Rightarrow> if h = h' then Some x else None | None \<Rightarrow> None)"
    if "okKey h" for f h
  proof (cases "v (localityFieldKey k h f)")
    case None
    then have "v (localityIndexKey k f) \<noteq> Some h" using P(4) [of f h] by auto
    then show ?thesis using None by (auto simp: localityOf_def split: option.splits)
  next
    case (Some x)
    then have "v (fieldKey kLocalityHash k (kData # appendEscaped h @ f)) \<noteq> None"
      by (simp add: locality_prefixes(5))
    from P(5) [OF this] obtain f' h' where "localityFieldKey k h f = localityFieldKey k h' f'"
        "v (localityIndexKey k f') = Some h'"
      unfolding locality_prefixes(5) [symmetric] using assms(3) by (auto simp: keysimps)
    with that P(4) assms(3) have "v (localityIndexKey k f) = Some h" by (auto simp: keysimps)
    with Some show ?thesis by (simp add: localityOf_def)
  qed
  have "\<exists>f h x. ?m f = Some (h, x) \<and> (fieldKey kLocalityHash k r = localityIndexKey k f
                                    \<or> fieldKey kLocalityHash k r = localityFieldKey k h f)"
    if "v (fieldKey kLocalityHash k r) \<noteq> None" for r
  proof -
    from P(5) [OF that] obtain f h where f: "v (localityIndexKey k f) = Some h"
        "fieldKey kLocalityHash k r = localityIndexKey k f \<or> fieldKey kLocalityHash k r = localityFieldKey k h f"
      by blast
    with P(4) obtain x where "?m f = Some (h, x)" by (fastforce simp: localityOf_def)
    with f(2) show ?thesis by blast
  qed
  moreover have "?m f = Some (h, x) \<Longrightarrow> f \<noteq> [] \<and> h \<noteq> [] \<and> okKey h" for f h x
    using P(4) [of f h] by (auto simp: localityOf_def split: option.splits)
  ultimately show "lhContents v k ?m"
    using P(2) idx field unfolding lhContents_def dom by blast
  show "sz d = int (card (dom ?m))" using P(3) by (simp add: dom)
  then show "?m \<noteq> Map.empty" using P(1) by auto
qed


fun lhashOf :: "aval \<Rightarrow> lhmap option" where
  "lhashOf ANone = Some Map.empty"
| "lhashOf (ALocalityHash m) = Some m"
| "lhashOf _ = None"

definition lhashVal :: "lhmap \<Rightarrow> aval" where
  "lhashVal m = (if m = Map.empty then ANone else ALocalityHash m)"

lemma lhash_desc:
  assumes "storeInv v" "okKey k" "lhashOf (absVal v k) = Some m"
  obtains d where "descOf v k = Some d" "d = emptyDescriptor \<or> wfDescriptor d" "\<not> isWrongType d kLocalityHash"
    and "descriptorEmpty d \<or> keyType d = kLocalityHash" "lhContents v k m" "sz d = int (card (dom m))"
proof -
  obtain d where d: "descOf v k = Some d" "d = emptyDescriptor \<or> wfDescriptor d" "part kLocalityHash v k d"
    using storeInvE [OF assms(1,2)] by metis
  with assms(3) have kt: "keyType d = kLocalityHash \<or> descriptorEmpty d"
    by (cases "keyType d") (auto simp: absVal_def descriptorEmpty_def wfDescriptor_def emptyDescriptor_def)
  show ?thesis
  proof (cases "keyType d = kLocalityHash")
    case True
    then have "m = localityOf v k" using assms(3) d(1) by (simp add: absVal_def)
    with that True d part_lhContents [OF d(3) True assms(2)] show ?thesis
      by (auto simp: isWrongType_def)
  next
    case False
    with kt d have de: "d = emptyDescriptor" using wf_not_empty by blast
    then have none: "v (fieldKey kLocalityHash k r) = None" for r
      using d(3) by (simp add: part_def emptyDescriptor_def)
    have m: "m = Map.empty" using assms(3) d(1) de by (simp add: absVal_def emptyDescriptor_def)
    have "lhContents v k m"
      by (simp add: lhContents_def m none locality_prefixes(4,5))
    moreover have "sz d = int (card (dom m))" using de m by (simp add: emptyDescriptor_def)
    moreover have "descriptorEmpty d" using de by simp
    ultimately show ?thesis using that [OF d(1,2)] by (simp add: isWrongType_def)
  qed
qed

subsection \<open>Writing one field\<close>

lemma within_locality:
  assumes "sa_ok api st"
  shows "within api st kLocalityHash k (put_st api st (localityFieldKey k h f) x)"
    "within api st kLocalityHash k (put_st api st (localityIndexKey k f) x)"
    "within api st kLocalityHash k (del_st api st (localityFieldKey k h f))"
    "within api st kLocalityHash k (del_st api st (localityIndexKey k f))"
  by (simp_all add: assms within_put within_del locality_owned)

lemma lhContents_set:
  assumes "lhContents v k m" "okKey k" "okKey h" "h \<noteq> []" "f \<noteq> []"
    and "v' (localityIndexKey k f) = Some h" "v' (localityFieldKey k h f) = Some x"
    and "\<And>h'. okKey h' \<Longrightarrow> h' \<noteq> h \<Longrightarrow> v' (localityFieldKey k h' f) = None"
    and "\<And>y. y \<noteq> localityIndexKey k f \<Longrightarrow> (\<And>h'. okKey h' \<Longrightarrow> y \<noteq> localityFieldKey k h' f) \<Longrightarrow> v' y = v y"
  shows "lhContents v' k (m(f \<mapsto> (h, x)))"
proof -
  note C = lhContentsD [OF assms(1)]
  have idx: "v' (localityIndexKey k g) = v (localityIndexKey k g)" if "g \<noteq> f" for g
    using that assms(2) by (intro assms(9)) (auto simp: keysimps)
  have fld: "v' (localityFieldKey k h' g) = v (localityFieldKey k h' g)" if "g \<noteq> f" "okKey h'" for h' g
    using that assms(2) by (intro assms(9)) (auto simp: keysimps)
  have "\<exists>g h' y. (m(f \<mapsto> (h, x))) g = Some (h', y) \<and> (fieldKey kLocalityHash k r = localityIndexKey k g
          \<or> fieldKey kLocalityHash k r = localityFieldKey k h' g)"
    if r: "v' (fieldKey kLocalityHash k r) \<noteq> None" for r
  proof (cases "fieldKey kLocalityHash k r = localityIndexKey k f
      \<or> (\<exists>h'. okKey h' \<and> fieldKey kLocalityHash k r = localityFieldKey k h' f)")
    case True
    then have "fieldKey kLocalityHash k r = localityIndexKey k f \<or> fieldKey kLocalityHash k r = localityFieldKey k h f"
      using r assms(8) by metis
    then show ?thesis by (intro exI [of _ f] exI [of _ h] exI [of _ x]) auto
  next
    case False
    then have "v (fieldKey kLocalityHash k r) \<noteq> None" using r assms(9) by metis
    from C(5) [OF this] obtain g h' y where g: "m g = Some (h', y)"
        "fieldKey kLocalityHash k r = localityIndexKey k g \<or> fieldKey kLocalityHash k r = localityFieldKey k h' g"
      by blast
    with False C(2) have "g \<noteq> f" by metis
    with g show ?thesis by (intro exI [of _ g] exI [of _ h'] exI [of _ y]) auto
  qed
  then show ?thesis
  proof (rule lhContentsI [rotated 4])
    show "g \<noteq> [] \<and> h' \<noteq> [] \<and> okKey h'" if "(m(f \<mapsto> (h, x))) g = Some (h', y)" for g h' y
      using that C(2) [of g h' y] assms(3-5) by (auto split: if_splits)
    show "v' (localityIndexKey k g) = map_option fst ((m(f \<mapsto> (h, x))) g)" for g
      using idx [of g] C(3) [of g] assms(6) by (cases "g = f") auto
    show "v' (localityFieldKey k h' g) = (case (m(f \<mapsto> (h, x))) g of
        Some (h'', y) \<Rightarrow> if h' = h'' then Some y else None | None \<Rightarrow> None)" if "okKey h'" for g h'
      using fld [of g h'] C(4) [of h' g] assms(7,8) that by (cases "g = f") auto
    show "finite (dom (m(f \<mapsto> (h, x))))" using C(1) by auto
  qed
qed

lemma lhContents_unset:
  assumes "lhContents v k m" "okKey k" "m f = Some (h, x)"
    and "v' = v(localityIndexKey k f := None, localityFieldKey k h f := None)"
  shows "lhContents v' k (m(f := None))"
proof -
  note C = lhContentsD [OF assms(1)]
  have h: "okKey h" "h \<noteq> []" using C(2) assms(3) by auto
  have idx: "v' (localityIndexKey k g) = (if g = f then None else v (localityIndexKey k g))" for g
    using assms(2,4) h by (auto simp: keysimps)
  have fld: "v' (localityFieldKey k h' g) = (if g = f then None else v (localityFieldKey k h' g))" if "okKey h'" for h' g
    using that assms(2-4) h C(4) [OF that, of f] by (auto simp: keysimps)
  have "\<exists>g h' y. (m(f := None)) g = Some (h', y) \<and> (fieldKey kLocalityHash k r = localityIndexKey k g
          \<or> fieldKey kLocalityHash k r = localityFieldKey k h' g)"
    if r: "v' (fieldKey kLocalityHash k r) \<noteq> None" for r
  proof -
    from r assms(4) have "v (fieldKey kLocalityHash k r) \<noteq> None" "fieldKey kLocalityHash k r \<noteq> localityIndexKey k f"
        "fieldKey kLocalityHash k r \<noteq> localityFieldKey k h f"
      by (auto split: if_splits)
    with C(5) [of r] assms(3) show ?thesis by (metis fun_upd_other option.inject prod.inject)
  qed
  then show ?thesis
  proof (rule lhContentsI [rotated 4])
    show "g \<noteq> [] \<and> h' \<noteq> [] \<and> okKey h'" if "(m(f := None)) g = Some (h', y)" for g h' y
      using that C(2) [of g h' y] by (auto split: if_splits)
    show "v' (localityIndexKey k g) = map_option fst ((m(f := None)) g)" for g
      using idx [of g] C(3) [of g] by (cases "g = f") auto
    show "v' (localityFieldKey k h' g) = (case (m(f := None)) g of
        Some (h'', y) \<Rightarrow> if h' = h'' then Some y else None | None \<Rightarrow> None)" if "okKey h'" for g h'
      using fld [of h' g] C(4) [of h' g] that by (cases "g = f") auto
    show "finite (dom (m(f := None)))" using C(1) by auto
  qed
qed


lemma lhContents_cong:
  "lhContents v k m \<Longrightarrow> (\<And>x. owned kLocalityHash k x \<Longrightarrow> v' x = v x) \<Longrightarrow> lhContents v' k m"
  using locality_owned [of k] unfolding lhContents_def by (simp add: owned_def)

lemma lhContents_empty: "lhContents v k Map.empty \<Longrightarrow> v (fieldKey kLocalityHash k r) = None"
  using lhContentsD(5) [of v k Map.empty r] by (cases "v (fieldKey kLocalityHash k r)") auto

lemma lhash_update:
  assumes st: "ready api st" and k: "okKey k" "m \<noteq> Map.empty \<Longrightarrow> k \<noteq> []"
    and d: "descOf (sa_view api st) k = Some d" "descriptorEmpty d \<or> keyType d = kLocalityHash"
      "d = emptyDescriptor \<or> wfDescriptor d"
    and st1: "within api st kLocalityHash k st1" "lhContents (sa_view api st1) k m" "card (dom m) < 2 ^ 63"
    and n: "n = int (card (dom m))"
  shows "finalizesTo api st st1 (openOp k kLocalityHash d) n False k (lhashVal m)"
proof -
  let ?op = "openOp k kLocalityHash d"
  let ?d' = "if n = 0 \<and> kLocalityHash \<noteq> kVersionedHash then emptyDescriptor else keyinfo ?op\<lparr>sz := n\<rparr>"
  have kt: "keyType (keyinfo ?op) = kLocalityHash" using d(2) by auto
  have lt: "n < 2 ^ 63" using st1(3) n by (simp add: of_nat_less_numeral_power_cancel_iff)
  have fin: "finite (dom m)" by (rule lhContentsD(1) [OF st1(2)])
  show ?thesis
  proof (rule finalize_within [OF st k(1) d(1) _ st1(1) _ _ kt _ _ _ _ refl])
    show "wfDescriptor (keyinfo ?op\<lparr>sz := n\<rparr>)"
      using d kt lt n
      by (auto simp: wfDescriptor_def int64_def freshDescriptor_def emptyDescriptor_def descriptorEmpty_def)
    show "d = keyinfo ?op" if "sz (keyinfo ?op) = n" "n \<noteq> 0"
      using that by (auto split: if_splits)
    fix v assume v: "descOf v k = Some ?d'" "\<And>x. owned kLocalityHash k x \<Longrightarrow> v x = sa_view api st1 x"
    have c: "lhContents v k m" using lhContents_cong [OF st1(2)] v(2) by blast
    show "part kLocalityHash v k ?d' \<and> absVal v k = lhashVal m"
    proof (cases "m = Map.empty")
      case True
      with v(1) n c show ?thesis
        by (auto simp: part_def absVal_def lhashVal_def emptyDescriptor_def lhContents_empty)
    next
      case False
      then have "n \<noteq> 0" using n fin by simp
      with False v(1) kt lhContents_part [OF c False] k(2) n lhContents_localityOf [OF c] show ?thesis
        by (auto simp: absVal_def lhashVal_def)
    qed
  qed (use d(2) n in \<open>auto simp: descriptorEmpty_def\<close>)
qed

lemma lhsetInternal_ok:
  assumes ok: "sa_ok api st" and op: "writable op" "keyType (keyinfo op) = kLocalityHash" "redisKey op = k"
    and k: "okKey k" "k \<noteq> []" and m: "lhContents (sa_view api st) k m" and h: "okKey h" "h \<noteq> []" "f \<noteq> []"
  shows "\<exists>st'. lhsetInternal api st op f h x = Some (f \<notin> dom m, st') \<and> within api st kLocalityHash k st'
           \<and> lhContents (sa_view api st') k (m(f \<mapsto> (h, x)))"
proof -
  note C = lhContentsD [OF m]
  have kk: "redisKey op \<noteq> []" using op(3) k(2) by simp
  note ops = wo_locality_ops [OF _ op(1,2) kk, unfolded op(3)]
  let ?F = "localityFieldKey k h f" and ?I = "localityIndexKey k f"
  have fld: "sa_view api st (localityFieldKey k h' f) = (case m f of Some (h'', y) \<Rightarrow> if h' = h'' then Some y else None
      | None \<Rightarrow> None)" if "okKey h'" for h'
    by (rule C(4) [OF that])
  show ?thesis
  proof (cases "\<exists>y. m f = Some (h, y)")
    case True
    let ?st' = "put_st api st ?F x"
    have "lhContents (sa_view api ?st') k (m(f \<mapsto> (h, x)))"
      using ok k h fld C(3) [of f] True
      by (intro lhContents_set [OF m]) (auto simp: keysimps)
    with True within_locality(1) [OF ok] fld [OF h(1)] ops [OF ok] h show ?thesis
      by (auto simp: lhsetInternal_def)
  next
    case False
    show ?thesis
    proof (cases "m f")
      case None
      let ?st' = "put_st api (put_st api st ?F x) ?I h"
      have "lhContents (sa_view api ?st') k (m(f \<mapsto> (h, x)))"
        using ok k h fld None
        by (intro lhContents_set [OF m]) (auto simp: keysimps)
      with None within_trans [OF within_locality(1) within_locality(2), OF ok] ok fld [OF h(1)]
        ops [OF ok] ops [of api "put_st api st ?F x"] h C(3) [of f] show ?thesis
        by (auto simp: lhsetInternal_def)
    next
      case (Some p)
      then obtain g y where g: "m f = Some (g, y)" "g \<noteq> h" "okKey g" "g \<noteq> []"
        using False C(2) [of f] by (cases p) auto
      let ?st1 = "del_st api st (localityFieldKey k g f)"
      let ?st' = "put_st api (put_st api ?st1 ?F x) ?I h"
      have "lhContents (sa_view api ?st') k (m(f \<mapsto> (h, x)))"
        using ok k h fld g
        by (intro lhContents_set [OF m]) (auto simp: keysimps)
      moreover have "within api st kLocalityHash k ?st'"
        using ok by (intro within_trans [OF within_locality(3) within_trans [OF within_locality(1) within_locality(2)]]) auto
      ultimately show ?thesis
        using g ok fld [OF h(1)] fld [OF g(3)] ops [OF ok] ops [of api ?st1] ops [of api "put_st api ?st1 ?F x"] h C(3) [of f]
        by (auto simp: lhsetInternal_def)
    qed
  qed
qed


text \<open>Opening a locality hash for a write.\<close>

lemma lhash_open:
  assumes "ready api st" "okKey k" "lhashOf (valueOf api st k) = Some m"
  obtains d where "descOf (sa_view api st) k = Some d" "d = emptyDescriptor \<or> wfDescriptor d"
    and "descriptorEmpty d \<or> keyType d = kLocalityHash" "lhContents (sa_view api st) k m"
    and "keyType (keyinfo (openOp k kLocalityHash d)) = kLocalityHash" "writable (openOp k kLocalityHash d)"
    and "wo_keySize (openOp k kLocalityHash d) = Some (int (card (dom m)))"
proof -
  from lhash_desc [OF readyD(2) [OF assms(1)] assms(2)] assms(3) obtain d
    where d: "descOf (sa_view api st) k = Some d" "d = emptyDescriptor \<or> wfDescriptor d"
      "descriptorEmpty d \<or> keyType d = kLocalityHash" "lhContents (sa_view api st) k m" "sz d = int (card (dom m))"
    by (metis valueOf_def)
  moreover from d have "wo_keySize (openOp k kLocalityHash d) = Some (int (card (dom m)))"
    by (auto simp: wo_keySize_def getSize_def emptyDescriptor_def wfDescriptor_def descriptorEmpty_def)
  ultimately show ?thesis using that by auto
qed

lemma lhset_ok:
  assumes "ready api st" "okKey k" "k \<noteq> []" "okKey h" "h \<noteq> []" "f \<noteq> []"
    and "lhashOf (valueOf api st k) = Some m" "card (dom m) + 1 < 2 ^ 63"
  shows "\<exists>st'. lhset api st k f h x = Some (OK, f \<notin> dom m, st')
           \<and> updated api st k (ALocalityHash (m(f \<mapsto> (h, x)))) st'"
proof -
  have ok: "sa_ok api st" using assms(1) by blast
  from lhash_open [OF assms(1,2,7)] obtain d where d: "descOf (sa_view api st) k = Some d"
      "d = emptyDescriptor \<or> wfDescriptor d" "descriptorEmpty d \<or> keyType d = kLocalityHash"
      "lhContents (sa_view api st) k m"
    and kt: "keyType (keyinfo (openOp k kLocalityHash d)) = kLocalityHash" "writable (openOp k kLocalityHash d)"
    and size: "wo_keySize (openOp k kLocalityHash d) = Some (int (card (dom m)))"
    by blast
  let ?op = "openOp k kLocalityHash d" and ?m = "m(f \<mapsto> (h, x))"
  have fin: "finite (dom m)" by (rule lhContentsD(1) [OF d(4)])
  from lhsetInternal_ok [OF ok kt(2,1) _ assms(2,3) d(4) assms(4-6), of x] obtain st1
    where st1: "lhsetInternal api st ?op f h x = Some (f \<notin> dom m, st1)" "within api st kLocalityHash k st1"
      "lhContents (sa_view api st1) k ?m"
    by auto
  have "int (card (dom m)) + of_bool (f \<notin> dom m) = int (card (dom ?m))"
    using fin by (simp add: card_insert_if)
  moreover have "card (dom ?m) < 2 ^ 63" using fin assms(8) by (auto simp: card_insert_if)
  ultimately have "finalizesTo api st st1 ?op (int (card (dom m)) + of_bool (f \<notin> dom m)) False k (lhashVal ?m)"
    using assms(1-3) d st1 by (intro lhash_update) auto
  moreover have "lhashVal ?m = ALocalityHash ?m" by (simp add: lhashVal_def)
  ultimately show ?thesis
    using ok d(1,3) st1(1) size
    by (cases "f \<in> dom m") (auto simp: lhset_def simp del: domIff elim!: finalizesToE)
qed

text \<open>Several fields, in order.\<close>

fun setTriples :: "lhmap \<Rightarrow> bytes list \<Rightarrow> lhmap" where
  "setTriples m (f # h # x # rest) = setTriples (m(f \<mapsto> (h, x))) rest"
| "setTriples m _ = m"

fun okTriples :: "bytes list \<Rightarrow> bool" where
  "okTriples (f # h # x # rest) \<longleftrightarrow> f \<noteq> [] \<and> h \<noteq> [] \<and> okKey h \<and> okTriples rest"
| "okTriples _ \<longleftrightarrow> True"

lemma card_setTriples: "finite (dom m) \<Longrightarrow> card (dom (setTriples m args)) \<le> card (dom m) + length args"
  by (induction m args rule: setTriples.induct) (auto simp: card_insert_if le_SucI split: if_splits)

lemma setTriples_nonempty: "m \<noteq> Map.empty \<Longrightarrow> setTriples m args \<noteq> Map.empty"
  by (induction m args rule: setTriples.induct) auto

lemma lhmsetLoop_ok:
  assumes "sa_ok api st" "writable op" "keyType (keyinfo op) = kLocalityHash" "redisKey op = k"
    and "okKey k" "k \<noteq> []" "lhContents (sa_view api st) k m" "okTriples args"
  shows "\<exists>st'. lhmsetLoop api op st n args
             = Some (n + int (card (dom (setTriples m args))) - int (card (dom m)), st')
           \<and> within api st kLocalityHash k st' \<and> lhContents (sa_view api st') k (setTriples m args)"
  using assms
proof (induction m args arbitrary: st n rule: setTriples.induct)
  case (1 m f h x rest)
  let ?m = "m(f \<mapsto> (h, x))"
  have fin: "finite (dom m)" by (rule lhContentsD(1) [OF "1.prems"(7)])
  from lhsetInternal_ok [OF "1.prems"(1-7), of h f x] "1.prems"(8) obtain st1
    where st1: "lhsetInternal api st op f h x = Some (f \<notin> dom m, st1)" "within api st kLocalityHash k st1"
      "lhContents (sa_view api st1) k ?m" by auto
  have rest: "okTriples rest" using "1.prems"(8) by simp
  from "1.IH" [OF within_ok [OF st1(2)] "1.prems"(2-6) st1(3) rest, of "n + of_bool (f \<notin> dom m)"]
  obtain st' where st': "lhmsetLoop api op st1 (n + of_bool (f \<notin> dom m)) rest
        = Some (n + of_bool (f \<notin> dom m) + int (card (dom (setTriples ?m rest))) - int (card (dom ?m)), st')"
      "within api st1 kLocalityHash k st'" "lhContents (sa_view api st') k (setTriples ?m rest)"
    by blast
  have "int (card (dom ?m)) = int (card (dom m)) + of_bool (f \<notin> dom m)"
    using fin by (simp add: card_insert_if)
  with st1(1) st' within_trans [OF st1(2) st'(2)] show ?case by auto
qed auto

lemma lhmset_ok:
  assumes "ready api st" "okKey k" "k \<noteq> []" "lhashOf (valueOf api st k) = Some m"
    and "length args mod 3 = 0" "okTriples args" "card (dom m) + length args < 2 ^ 63"
  shows "\<exists>st'. lhmset api st k args = Some (OK, st') \<and> updated api st k (lhashVal (setTriples m args)) st'"
proof -
  have ok: "sa_ok api st" using assms(1) by blast
  from lhash_open [OF assms(1,2,4)] obtain d where d: "descOf (sa_view api st) k = Some d"
      "d = emptyDescriptor \<or> wfDescriptor d" "descriptorEmpty d \<or> keyType d = kLocalityHash"
      "lhContents (sa_view api st) k m"
    and kt: "keyType (keyinfo (openOp k kLocalityHash d)) = kLocalityHash" "writable (openOp k kLocalityHash d)"
    and size: "wo_keySize (openOp k kLocalityHash d) = Some (int (card (dom m)))"
    by blast
  let ?op = "openOp k kLocalityHash d" and ?m = "setTriples m args"
  have fin: "finite (dom m)" by (rule lhContentsD(1) [OF d(4)])
  from lhmsetLoop_ok [OF ok kt(2,1) _ assms(2,3) d(4) assms(6), of 0] obtain st1
    where st1: "lhmsetLoop api ?op st 0 args = Some (int (card (dom ?m)) - int (card (dom m)), st1)"
      "within api st kLocalityHash k st1" "lhContents (sa_view api st1) k ?m"
    by auto
  have "card (dom ?m) < 2 ^ 63" using card_setTriples [OF fin, of args] assms(7) by simp
  then have "finalizesTo api st st1 ?op (int (card (dom ?m))) False k (lhashVal ?m)"
    using assms(1-3) d st1 by (intro lhash_update) auto
  with ok d(1,3) st1(1) size assms(5) show ?thesis
    by (auto simp: lhmset_def elim!: finalizesToE)
qed



text \<open>Deletion.\<close>

lemma lhdelLoop_ok:
  assumes "sa_ok api st" "writable op" "keyType (keyinfo op) = kLocalityHash" "redisKey op = k"
    and "okKey k" "k \<noteq> []" "lhContents (sa_view api st) k m" "[] \<notin> set fs"
  shows "\<exists>st'. lhdelLoop api op st n fs = Some (n + int (card (dom m \<inter> set fs)), st')
           \<and> within api st kLocalityHash k st' \<and> lhContents (sa_view api st') k (m |` (- set fs))"
  using assms
proof (induction fs arbitrary: st n m)
  case Nil
  then show ?case by simp
next
  case (Cons f fs)
  note C = lhContentsD [OF Cons.prems(7)]
  have kk: "redisKey op \<noteq> []" using Cons.prems(4,6) by simp
  note ops = wo_locality_ops [OF _ Cons.prems(2,3) kk, unfolded Cons.prems(4)]
  have f: "f \<noteq> []" and fs: "[] \<notin> set fs" using Cons.prems(8) by auto
  show ?case
  proof (cases "m f")
    case None
    then have "dom m \<inter> set (f # fs) = dom m \<inter> set fs" "m |` (- set (f # fs)) = m |` (- set fs)"
      by (auto simp: restrict_map_def fun_eq_iff)
    with Cons.IH [OF Cons.prems(1-7) fs, of n] None C(3) [of f] ops(6) [OF Cons.prems(1), of f f] f show ?thesis
      by simp
  next
    case (Some p)
    then obtain h x where h: "m f = Some (h, x)" "okKey h" "h \<noteq> []" using C(2) [of f] by (cases p) auto
    let ?st1 = "del_st api st (localityIndexKey k f)" and ?m = "m(f := None)"
    let ?st2 = "del_st api ?st1 (localityFieldKey k h f)"
    have ok1: "sa_ok api ?st1" and ok2: "sa_ok api ?st2" using Cons.prems(1) by simp_all
    have c: "lhContents (sa_view api ?st2) k ?m"
      using Cons.prems(1) by (intro lhContents_unset [OF Cons.prems(7,5) h(1)]) simp
    have w: "within api st kLocalityHash k ?st2"
      using Cons.prems(1) by (intro within_trans [OF within_locality(4) within_locality(3)]) auto
    have view: "sa_view api st (localityIndexKey k f) = Some h" "sa_view api ?st1 (localityFieldKey k h f) = Some x"
      using C(3) [of f] C(4) [OF h(2), of f] h(1) Cons.prems(1,5) by (auto simp: keysimps)
    from Cons.IH [OF ok2 Cons.prems(2-6) c fs, of "n + 1"] obtain st'
      where st': "lhdelLoop api op ?st2 (n + 1) fs = Some (n + 1 + int (card (dom ?m \<inter> set fs)), st')"
        "within api ?st2 kLocalityHash k st'" "lhContents (sa_view api st') k (?m |` (- set fs))"
      by blast
    have "dom m \<inter> set (f # fs) = insert f (dom ?m \<inter> set fs)" "?m |` (- set fs) = m |` (- set (f # fs))"
      using h(1) by (auto simp: restrict_map_def fun_eq_iff)
    moreover from this(1) have "card (dom m \<inter> set (f # fs)) = Suc (card (dom ?m \<inter> set fs))"
      by (simp only:) (subst card_insert_disjoint, auto)
    moreover have "lhdelLoop api op st n (f # fs) = lhdelLoop api op ?st2 (n + 1) fs"
      using ops(6) [OF Cons.prems(1), of f f] ops(5) [OF ok1 h(3) f] view f h(3) by simp
    ultimately show ?thesis
      using st' within_trans [OF w st'(2)] by simp
  qed
qed

lemma lhdel_ok:
  assumes "ready api st" "okKey k" "k \<noteq> []" "lhashOf (valueOf api st k) = Some m" "[] \<notin> set fs"
    and "card (dom m) < 2 ^ 63"
  shows "\<exists>st'. lhdel api st k fs = Some (OK, int (card (dom m \<inter> set fs)), st')
           \<and> updated api st k (lhashVal (m |` (- set fs))) st'"
proof -
  have ok: "sa_ok api st" using assms(1) by blast
  from lhash_open [OF assms(1,2,4)] obtain d where d: "descOf (sa_view api st) k = Some d"
      "d = emptyDescriptor \<or> wfDescriptor d" "descriptorEmpty d \<or> keyType d = kLocalityHash"
      "lhContents (sa_view api st) k m"
    and kt: "keyType (keyinfo (openOp k kLocalityHash d)) = kLocalityHash" "writable (openOp k kLocalityHash d)"
    and size: "wo_keySize (openOp k kLocalityHash d) = Some (int (card (dom m)))"
    by blast
  let ?op = "openOp k kLocalityHash d" and ?m = "m |` (- set fs)"
  have fin: "finite (dom m)" by (rule lhContentsD(1) [OF d(4)])
  from lhdelLoop_ok [OF ok kt(2,1) _ assms(2,3) d(4) assms(5), of 0] obtain st1
    where st1: "lhdelLoop api ?op st 0 fs = Some (int (card (dom m \<inter> set fs)), st1)"
      "within api st kLocalityHash k st1" "lhContents (sa_view api st1) k ?m"
    by auto
  have n: "int (card (dom ?m)) = int (card (dom m)) - int (card (dom m \<inter> set fs))"
    using card_Int_Diff [OF fin, of "set fs"] by (simp add: Diff_eq inf_commute)
  have "card (dom ?m) < 2 ^ 63" using card_mono [OF fin, of "dom ?m"] assms(6) by auto
  with n have "finalizesTo api st st1 ?op (int (card (dom m)) - int (card (dom m \<inter> set fs))) False k (lhashVal ?m)"
    using assms(1-3) d st1 by (intro lhash_update) auto
  with ok d(1,3) st1(1) size show ?thesis
    by (auto simp: lhdel_def elim!: finalizesToE)
qed

subsection \<open>Reads\<close>

text \<open>A wrong hint does not change the answer, it only costs a second lookup.\<close>

lemma lhget_ok:
  assumes "sa_readable api st" "storeInv (sa_view api st)" "okKey k" "k \<noteq> []" "f \<noteq> []" "okKey hint"
    and "lhashOf (valueOf api st k) = Some m"
  shows "lhget api st k f hint = Some (case m f of None \<Rightarrow> (NotFound, []) | Some (h, x) \<Rightarrow> (OK, x))"
proof -
  from lhash_desc [OF assms(2,3)] assms(7) obtain d where d: "descOf (sa_view api st) k = Some d"
      "\<not> isWrongType d kLocalityHash" "lhContents (sa_view api st) k m"
    by (metis valueOf_def)
  note C = lhContentsD [OF d(3)]
  show ?thesis
  proof (cases "m f")
    case None
    then show ?thesis
      using assms(1,4-6) d(1,2) C(3) [of f] C(4) [OF assms(6), of f]
      by (auto simp: lhget_def localityFieldLocator_def localityIndexLocator_def)
  next
    case (Some p)
    then obtain h x where h: "m f = Some (h, x)" "okKey h" "h \<noteq> []" using C(2) [of f] by (cases p) auto
    then show ?thesis
      using assms(1,4-6) d(1,2) C(3) [of f] C(4) [OF assms(6), of f] C(4) [OF h(2), of f]
      by (auto simp: lhget_def localityFieldLocator_def localityIndexLocator_def Let_def)
  qed
qed

text \<open>
  A hint that ends in a bar may.  The first lookup then finds the entry of another field, stored under
  another hint, and its value is returned for a field that does not exist.
\<close>

lemma hint_collision: "localityFieldKey k (h @ ''|'') (CHR ''#'' # f) = localityFieldKey k (h @ ''#'') f"
  using appendEscaped_collision [of h f] by (simp add: localityFieldKey_def)

lemma lhget_colliding_hint:
  assumes "sa_readable api st" "storeInv (sa_view api st)" "okKey k" "k \<noteq> []" "okKey (h @ ''#'')"
    and "lhashOf (valueOf api st k) = Some m" "m f = Some (h @ ''#'', x)" "m (CHR ''#'' # f) = None"
  shows "lhget api st k (CHR ''#'' # f) (h @ ''|'') = Some (OK, x)"
    "lhget api st k (CHR ''#'' # f) [] = Some (NotFound, [])"
proof -
  from lhash_desc [OF assms(2,3)] assms(6) obtain d where d: "descOf (sa_view api st) k = Some d"
      "\<not> isWrongType d kLocalityHash" "lhContents (sa_view api st) k m"
    by (metis valueOf_def)
  have "sa_view api st (localityFieldKey k (h @ ''#'') f) = Some x"
    using lhContentsD(4) [OF d(3) assms(5), of f] assms(7) by simp
  then show "lhget api st k (CHR ''#'' # f) (h @ ''|'') = Some (OK, x)"
    using assms(1,4) d(1,2) hint_collision [of k h f] by (simp add: lhget_def localityFieldLocator_def)
  show "lhget api st k (CHR ''#'' # f) [] = Some (NotFound, [])"
    using lhget_ok [OF assms(1-4) _ _ assms(6), of "CHR ''#'' # f" "[]"] assms(8) by simp
qed

lemma lhlen_ok:
  assumes "sa_readable api st" "storeInv (sa_view api st)" "okKey k" "lhashOf (valueOf api st k) = Some m"
  shows "lhlen api st k = Some (OK, int (card (dom m)))"
proof -
  from lhash_desc [OF assms(2,3)] assms(4) obtain d where "descOf (sa_view api st) k = Some d"
      "\<not> isWrongType d kLocalityHash" "sz d = int (card (dom m))" "d = emptyDescriptor \<or> wfDescriptor d"
    by (metis valueOf_def)
  with assms(1) show ?thesis
    by (auto simp: lhlen_def getSize_def wfDescriptor_def emptyDescriptor_def)
qed

text \<open>
  An empty key, hint or field does not come back as an error: it fails an assertion of the
  locators.
\<close>

lemma lhset_empty_asserts:
  assumes "ready api st" "okKey k" "lhashOf (valueOf api st k) = Some m"
  shows "lhset api st k f [] x = None"
proof -
  from lhash_open [OF assms] obtain d where "descOf (sa_view api st) k = Some d"
      "descriptorEmpty d \<or> keyType d = kLocalityHash" "writable (openOp k kLocalityHash d)"
      "keyType (keyinfo (openOp k kLocalityHash d)) = kLocalityHash"
    by blast
  with assms(1) show ?thesis
    by (auto simp: lhset_def lhsetInternal_def wo_localityFieldExists_def localityFieldLocator_def
        dest: readyD(1))
qed

end
