(* ===== verification/DequeOps.thy ===== *)
theory DequeOps
  imports CoreOps
begin

text \<open>
  The deque commands of \<^verbatim>\<open>src/src/StateMachine.cc\<close>.  The items are entries numbered by 64-bit
  markers; the descriptor keeps the markers just outside the two ends.  The writes are proved to
  be the operations on lists, as long as the markers do not run over the end of their range.
\<close>

subsection \<open>Operations\<close>

definition dirWord :: "Direction \<Rightarrow> u64" where
  "dirWord direction = (if direction = kLeft then -1 else 1)"

fun pushItems ::
  "('db, 'wb) rocksdb \<Rightarrow> write_operation \<Rightarrow> Direction \<Rightarrow> u64 \<Rightarrow> ('db, 'wb) staging \<Rightarrow> u64 \<Rightarrow> bytes list
    \<Rightarrow> (u64 \<times> ('db, 'wb) staging) option" where
  "pushItems api op direction listIndex st itemsAdded [] = Some (itemsAdded, st)"
| "pushItems api op direction listIndex st itemsAdded (x # xs) = do {
     st \<leftarrow> wo_writeField api st op
             (unsignedIntToBinaryString (listIndex + itemsAdded * dirWord direction)) x;
     pushItems api op direction listIndex st (itemsAdded + 1) xs }"

definition dequePush ::
  "('db, 'wb) rocksdb \<Rightarrow> ('db, 'wb) staging \<Rightarrow> Direction \<Rightarrow> bytes \<Rightarrow> bytes list
    \<Rightarrow> (status \<times> int \<times> ('db, 'wb) staging) option" where
  "dequePush api st direction key args = do {
     op \<leftarrow> newWriteOperation api st key kDeque;
     if \<not> isValid op then do { wo_destroy op; Some (wrong_type, 0, st) } else do {
       listIndex \<leftarrow> getListIndex direction (keyinfo op);
       (itemsAdded, st) \<leftarrow> pushItems api op direction listIndex st 0 args;
       info \<leftarrow> setListIndex direction (listIndex + itemsAdded * dirWord direction) (keyinfo op);
       let op = op\<lparr>keyinfo := info\<rparr>;
       size \<leftarrow> wo_keySize op;
       let len = sint (word_of_int size + itemsAdded);
       op \<leftarrow> (if size = 0 then do {
                info \<leftarrow> setListIndex (flipDirection direction) (listIndex - dirWord direction) (keyinfo op);
                Some (op\<lparr>keyinfo := info\<rparr>) }
              else Some op);
       (op, st) \<leftarrow> wo_finalize api st op len False;
       wo_destroy op;
       Some (OK, len, st) } }"

definition dequePushFront where "dequePushFront api st key args = dequePush api st kLeft key args"
definition dequePushBack where "dequePushBack api st key args = dequePush api st kRight key args"

definition dequePop ::
  "('db, 'wb) rocksdb \<Rightarrow> ('db, 'wb) staging \<Rightarrow> Direction \<Rightarrow> bytes
    \<Rightarrow> (status \<times> bytes \<times> ('db, 'wb) staging) option" where
  "dequePop api st direction key = do {
     op \<leftarrow> newWriteOperation api st key kDeque;
     if \<not> isValid op then do { wo_destroy op; Some (wrong_type, [], st) } else do {
       size \<leftarrow> wo_keySize op;
       if size = 0 then do {
         (op, st) \<leftarrow> wo_finalize api st op 0 False;
         wo_destroy op;
         Some (NotFound, [], st) }
       else do {
         listIndex \<leftarrow> getListIndex direction (keyinfo op);
         let victim = listIndex - dirWord direction;
         let field = unsignedIntToBinaryString victim;
         (present, item) \<leftarrow> wo_getField api st op field;
         assert_that present;
         (gone, st) \<leftarrow> wo_deleteField api st op field;
         assert_that gone;
         info \<leftarrow> setListIndex direction victim (keyinfo op);
         (op, st) \<leftarrow> wo_finalize api st (op\<lparr>keyinfo := info\<rparr>) (size - 1) False;
         wo_destroy op;
         Some (OK, item, st) } } }"

definition dequePopFront where "dequePopFront api st key = dequePop api st kLeft key"
definition dequePopBack where "dequePopBack api st key = dequePop api st kRight key"

partial_function (option) trimLoop ::
  "('db, 'wb) rocksdb \<Rightarrow> write_operation \<Rightarrow> u64 \<Rightarrow> u64 \<Rightarrow> int \<Rightarrow> ('db, 'wb) staging
    \<Rightarrow> (int \<times> ('db, 'wb) staging) option" where
  "trimLoop api op nextToEliminate bound eliminated st =
     (if nextToEliminate \<le> bound
      then Option.bind (wo_deleteField api st op (unsignedIntToBinaryString nextToEliminate))
             (\<lambda>r. if fst r then trimLoop api op (nextToEliminate + 1) bound (eliminated + 1) (snd r) else None)
      else Some (eliminated, st))"

definition dequeTrimFront ::
  "('db, 'wb) rocksdb \<Rightarrow> ('db, 'wb) staging \<Rightarrow> bytes \<Rightarrow> bytes
    \<Rightarrow> (status \<times> int \<times> ('db, 'wb) staging) option" where
  "dequeTrimFront api st key maxToKeepStr =
     (case parseInt64 maxToKeepStr of
        None \<Rightarrow> Some (malformed ''value is not an integer or out of range'', 0, st)
      | Some maxToKeep \<Rightarrow>
          if maxToKeep < 0 then Some (malformed ''value is not an integer or out of range'', 0, st)
          else do {
            op \<leftarrow> newWriteOperation api st key kDeque;
            if \<not> isValid op then do { wo_destroy op; Some (wrong_type, 0, st) } else do {
              size \<leftarrow> getSize (keyinfo op);
              let toRemove = size - maxToKeep;
              if toRemove \<le> 0 then do { wo_destroy (wo_cancel op); Some (OK, 0, st) }
              else do {
                start \<leftarrow> getStartIndex (keyinfo op);
                (eliminated, st) \<leftarrow> trimLoop api op (start + 1) (start + word_of_int toRemove) 0 st;
                assert_that (eliminated = toRemove);
                info \<leftarrow> setStartIndex (start + word_of_int toRemove) (keyinfo op);
                s \<leftarrow> getStartIndex info;
                e \<leftarrow> getEndIndex info;
                assert_that (e - s - 1 = word_of_int maxToKeep);
                (op, st) \<leftarrow> wo_finalize api st (op\<lparr>keyinfo := info\<rparr>) (sint (e - s - 1)) False;
                wo_destroy op;
                Some (OK, toRemove, st) } } })"

definition dequeLen :: "('db, 'wb) rocksdb \<Rightarrow> ('db, 'wb) staging \<Rightarrow> bytes \<Rightarrow> (status \<times> int) option" where
  "dequeLen api st key = do {
     info \<leftarrow> getKeyDescriptor api st key;
     if isWrongType info kDeque then Some (wrong_type, 0) else do {
       len \<leftarrow> getSize info;
       Some (OK, len) } }"

text \<open>The loop of \<open>dequeScanBack\<close>: the entries must be those of the markers \<open>i\<close> up to \<open>cursor\<close>.\<close>

fun scanBackLoop :: "bytes \<Rightarrow> u64 \<Rightarrow> u64 \<Rightarrow> (bytes \<times> bytes) list \<Rightarrow> bytes list option" where
  "scanBackLoop key i cursor [] = (if i < cursor then None else Some [])"
| "scanBackLoop key i cursor (e # es) =
     (if i < cursor then do {
        loc \<leftarrow> fieldLocator kDeque key (unsignedIntToBinaryString i);
        assert_that (loc = fst e);
        rest \<leftarrow> scanBackLoop key (i + 1) cursor es;
        Some (snd e # rest) }
      else Some [])"

definition dequeScanBack ::
  "('db, 'wb) rocksdb \<Rightarrow> ('db, 'wb) staging \<Rightarrow> bytes \<Rightarrow> bytes \<Rightarrow> u64
    \<Rightarrow> (status \<times> bytes \<times> bytes list) option" where
  "dequeScanBack api st key cursor count = do {
     info \<leftarrow> getKeyDescriptor api st key;
     if isWrongType info kDeque then Some (wrong_type, [], []) else do {
       size \<leftarrow> getSize info;
       if size = 0 then Some (OK, [], []) else do {
         start \<leftarrow> getStartIndex info;
         fin \<leftarrow> getEndIndex info;
         if length cursor \<noteq> 0 \<and> length cursor \<noteq> 8 then Some (malformed ''invalid cursor'', [], [])
         else do {
           let cursorMarker = (if length cursor = 0 then fin
                               else min (binaryStringToUnsignedInt cursor) fin);
           let starting = cursorMarker - count;
           let (newCursor, starting) =
             (if starting \<le> start + 1 then ([], start + 1) else (unsignedIntToBinaryString starting, starting));
           loc \<leftarrow> fieldLocator kDeque key (unsignedIntToBinaryString starting);
           res \<leftarrow> scanBackLoop key starting cursorMarker (sa_iter api st loc);
           Some (OK, newCursor, res) } } } }"

subsection \<open>The entries of a deque\<close>

abbreviation marker :: "u64 \<Rightarrow> bytes" where
  "marker i \<equiv> unsignedIntToBinaryString i"

fun deqMap :: "u64 \<Rightarrow> bytes list \<Rightarrow> bytes \<rightharpoonup> bytes" where
  "deqMap s [] = Map.empty"
| "deqMap s (x # l) = (deqMap (s + 1) l)(marker (s + 1) \<mapsto> x)"

lemma u64_eq_iff: "(a :: u64) = b \<longleftrightarrow> unat a = unat b"
  by (simp add: word_unat_eq_iff)

lemma unat_u64: "unat (w :: u64) < 2 ^ 64"
  using unat_lt_256 [of w] by simp

lemma unat_add: "unat (s :: u64) + i < 2 ^ 64 \<Longrightarrow> unat (s + word_of_nat i) = unat s + i"
  by (simp add: unat_word_ariths unat_of_nat)

lemma unat_Suc: "unat (s :: u64) + 1 < 2 ^ 64 \<Longrightarrow> unat (s + 1) = unat s + 1"
  using unat_add [of s 1] by simp

lemma deqMap_Some:
  "unat s + length l < 2 ^ 64 \<Longrightarrow>
   deqMap s l f = Some x \<longleftrightarrow> (\<exists>i < length l. f = marker (s + 1 + word_of_nat i) \<and> x = l ! i)"
proof (induction l arbitrary: s)
  case Nil
  then show ?case by simp
next
  case (Cons y l)
  have s: "unat (s + 1) = unat s + 1" using Cons.prems by (intro unat_Suc) simp
  have IH: "deqMap (s + 1) l f = Some x \<longleftrightarrow> (\<exists>i < length l. f = marker (s + 1 + 1 + word_of_nat i) \<and> x = l ! i)"
    using Cons.IH [of "s + 1"] Cons.prems s by simp
  have shift: "s + 1 + 1 + word_of_nat i = s + 1 + word_of_nat (Suc i)" for i by simp
  have ne: "s + 1 + word_of_nat (Suc i) \<noteq> s + 1" if "i < length l" for i
    using that Cons.prems s unat_add [of "s + 1" "Suc i"] by (auto simp: u64_eq_iff)
  show ?case
  proof (cases "f = marker (s + 1)")
    case True
    then have "(\<exists>i < length (y # l). f = marker (s + 1 + word_of_nat i) \<and> x = (y # l) ! i) \<longleftrightarrow> x = y"
      using ne by (auto simp: less_Suc_eq_0_disj)
    with True show ?thesis by auto
  next
    case False
    then have "(\<exists>i < length (y # l). f = marker (s + 1 + word_of_nat i) \<and> x = (y # l) ! i)
        \<longleftrightarrow> (\<exists>i < length l. f = marker (s + 1 + word_of_nat (Suc i)) \<and> x = l ! i)"
      by (auto simp: less_Suc_eq_0_disj)
    with False IH shift show ?thesis by (simp add: ac_simps)
  qed
qed

lemma map_eqI: "(\<And>f x. m f = Some x \<longleftrightarrow> m' f = Some x) \<Longrightarrow> m = m'"
proof
  fix f assume "\<And>f x. m f = Some x \<longleftrightarrow> m' f = Some x"
  then show "m f = m' f" by (cases "m f"; cases "m' f") (metis option.distinct(1))+
qed

lemma deqMap_snoc:
  assumes "unat s + length l + 1 < 2 ^ 64"
  shows "deqMap s (l @ [x]) = (deqMap s l)(marker (s + 1 + word_of_nat (length l)) \<mapsto> x)"
    and "deqMap s l (marker (s + 1 + word_of_nat (length l))) = None"
proof -
  show none: "deqMap s l (marker (s + 1 + word_of_nat (length l))) = None"
  proof (rule ccontr)
    assume "deqMap s l (marker (s + 1 + word_of_nat (length l))) \<noteq> None"
    then obtain i where i: "i < length l" "s + 1 + word_of_nat (length l) = s + 1 + word_of_nat i"
      using deqMap_Some [of s l] assms by fastforce
    have "unat (s + 1) = unat s + 1" using assms by (intro unat_Suc) simp
    with i assms unat_add [of "s + 1" i] unat_add [of "s + 1" "length l"] show False
      by (auto simp: u64_eq_iff)
  qed
  show "deqMap s (l @ [x]) = (deqMap s l)(marker (s + 1 + word_of_nat (length l)) \<mapsto> x)"
    using assms
  proof (induction l arbitrary: s)
    case (Cons y l)
    have s: "unat (s + 1) = unat s + 1" using Cons.prems by (intro unat_Suc) simp
    have "s + 1 + word_of_nat (Suc (length l)) \<noteq> s + 1"
      using Cons.prems s unat_add [of "s + 1" "Suc (length l)"] by (auto simp: u64_eq_iff)
    then have "s + (2 + word_of_nat (length l)) \<noteq> s + 1" by (simp add: add.assoc)
    with Cons.IH [of "s + 1"] Cons.prems s show ?case
      by (auto simp: fun_eq_iff add.assoc)
  qed simp
qed

lemma deqMap_tail:
  assumes "unat s + length l + 1 < 2 ^ 64"
  shows "(deqMap s (x # l))(marker (s + 1) := None) = deqMap (s + 1) l"
proof -
  have s: "unat (s + 1) = unat s + 1" using assms by (intro unat_Suc) simp
  have "deqMap (s + 1) l (marker (s + 1)) = None"
  proof (rule ccontr)
    assume "deqMap (s + 1) l (marker (s + 1)) \<noteq> None"
    then obtain i where i: "i < length l" "s + 1 = s + 1 + 1 + word_of_nat i"
      using deqMap_Some [of "s + 1" l] assms s by fastforce
    then have "s + 1 = s + 1 + word_of_nat (Suc i)" by (simp add: algebra_simps)
    with i(1) assms s unat_add [of "s + 1" "Suc i"] show False by (auto simp: u64_eq_iff)
  qed
  then show ?thesis by (auto simp: fun_eq_iff)
qed


definition deqOk :: "view \<Rightarrow> bytes \<Rightarrow> u64 \<Rightarrow> u64 \<Rightarrow> bytes list \<Rightarrow> bool" where
  "deqOk v k s e l \<longleftrightarrow> unat e = unat s + length l + 1 \<and> fieldsOf v kDeque k = deqMap s l"

lemma marker_between:
  assumes "unat e = unat s + n + 1"
  shows "{i :: u64. s < i \<and> i < e} = (\<lambda>i. s + 1 + word_of_nat i) ` {..<n}"
    and "inj_on (\<lambda>i. s + 1 + word_of_nat i :: u64) {..<n}"
proof -
  have lt: "unat s + n + 1 < 2 ^ 64" using unat_u64 [of e] assms by simp
  have idx: "unat (s + 1 + word_of_nat i) = unat s + 1 + i" if "i < n" for i
    using that lt unat_add [of s "Suc i"] by (simp add: add.assoc)
  show "inj_on (\<lambda>i. s + 1 + word_of_nat i :: u64) {..<n}"
  proof (rule inj_onI)
    fix i j assume "i \<in> {..<n}" "j \<in> {..<n}" "s + 1 + word_of_nat i = s + 1 + word_of_nat j"
    then have "unat s + 1 + i = unat s + 1 + j" using idx [of i] idx [of j] by (metis lessThan_iff)
    then show "i = j" by simp
  qed
  show "{i :: u64. s < i \<and> i < e} = (\<lambda>i. s + 1 + word_of_nat i) ` {..<n}" (is "?L = ?R")
  proof
    show "?R \<subseteq> ?L" using idx assms by (auto simp: word_less_nat_alt)
    show "?L \<subseteq> ?R"
    proof
      fix w assume "w \<in> ?L"
      then have w: "unat s < unat w" "unat w < unat e" by (auto simp: word_less_nat_alt)
      let ?i = "unat w - unat s - 1"
      have i: "?i < n" using w assms by simp
      then have "w = s + 1 + word_of_nat ?i" using idx [OF i] w by (simp add: u64_eq_iff)
      with i show "w \<in> ?R" by blast
    qed
  qed
qed

lemma deqMap_dom:
  assumes "unat e = unat s + length l + 1"
  shows "dom (deqMap s l) = marker ` {i. s < i \<and> i < e}" "card (dom (deqMap s l)) = length l"
proof -
  have lt: "unat s + length l < 2 ^ 64" using unat_u64 [of e] assms by simp
  show d: "dom (deqMap s l) = marker ` {i. s < i \<and> i < e}"
    unfolding marker_between(1) [OF assms] by (auto simp: dom_def deqMap_Some [OF lt])
  have "inj_on marker A" for A by (simp add: inj_on_def)
  then show "card (dom (deqMap s l)) = length l"
    unfolding d marker_between(1) [OF assms]
    using marker_between(2) [OF assms] by (simp add: card_image)
qed

lemma part_deqOk:
  assumes "part kDeque v k d" "keyType d = kDeque"
  shows "deqOk v k (startIndex d) (endIndex d) (itemsOf v k (startIndex d) (endIndex d))"
    "sz d = int (length (itemsOf v k (startIndex d) (endIndex d)))"
    "itemsOf v k (startIndex d) (endIndex d) \<noteq> []"
proof -
  let ?s = "startIndex d" and ?e = "endIndex d" and ?F = "fieldsOf v kDeque k"
  let ?l = "itemsOf v k ?s ?e"
  from assms have P: "0 < sz d" "sz d = int (card (dom ?F))" "dom ?F = marker ` {i. ?s < i \<and> i < ?e}"
    by (auto simp: part_def countedFields_def)
  then have "0 < card (marker ` {i. ?s < i \<and> i < ?e})" by simp
  then have "marker ` {i. ?s < i \<and> i < ?e} \<noteq> {}" by (metis card.empty less_irrefl)
  then obtain w where "?s < w" "w < ?e" by blast
  then have "unat ?s + 1 < unat ?e" by (auto simp: word_less_nat_alt)
  then have len: "unat ?e = unat ?s + length ?l + 1" by (simp add: itemsOf_def del: upt_Suc)
  have lt: "unat ?s + length ?l < 2 ^ 64" using unat_u64 [of ?e] len by simp
  have nth: "?l ! i = the (?F (marker (?s + 1 + word_of_nat i)))" if "i < length ?l" for i
    using that by (simp add: itemsOf_def ac_simps del: upt_Suc)
  have "?F = deqMap ?s ?l"
  proof (rule map_eqI)
    fix f x
    have dom: "f \<in> dom ?F \<longleftrightarrow> (\<exists>i < length ?l. f = marker (?s + 1 + word_of_nat i))"
      unfolding P(3) marker_between(1) [OF len] by auto
    show "?F f = Some x \<longleftrightarrow> deqMap ?s ?l f = Some x"
      unfolding deqMap_Some [OF lt]
    proof
      assume x: "?F f = Some x"
      then obtain i where "i < length ?l" "f = marker (?s + 1 + word_of_nat i)" using dom by blast
      with nth [of i] x show "\<exists>i < length ?l. f = marker (?s + 1 + word_of_nat i) \<and> x = ?l ! i" by auto
    next
      assume "\<exists>i < length ?l. f = marker (?s + 1 + word_of_nat i) \<and> x = ?l ! i"
      then obtain i where i: "i < length ?l" "f = marker (?s + 1 + word_of_nat i)" "x = ?l ! i" by blast
      then have "f \<in> dom ?F" using dom by blast
      with nth [OF i(1)] i show "?F f = Some x" by auto
    qed
  qed
  with len show ok: "deqOk v k ?s ?e ?l" by (simp add: deqOk_def)
  show "sz d = int (length ?l)" using P(2) deqMap_dom(2) [OF len] \<open>?F = deqMap ?s ?l\<close> by simp
  then show "?l \<noteq> []" using P(1) by auto
qed

lemma deqOk_items:
  assumes "deqOk v k s e l"
  shows "itemsOf v k s e = l"
proof (rule nth_equalityI)
  have len: "unat e = unat s + length l + 1" and F: "fieldsOf v kDeque k = deqMap s l"
    using assms by (auto simp: deqOk_def)
  then show "length (itemsOf v k s e) = length l" by (simp add: itemsOf_def del: upt_Suc)
  have lt: "unat s + length l < 2 ^ 64" using unat_u64 [of e] len by simp
  fix i assume "i < length (itemsOf v k s e)"
  then have i: "i < length l" using len by (simp add: itemsOf_def del: upt_Suc)
  then have "deqMap s l (marker (s + 1 + word_of_nat i)) = Some (l ! i)"
    using deqMap_Some [OF lt] by blast
  with i len F show "itemsOf v k s e ! i = l ! i" by (simp add: itemsOf_def ac_simps del: upt_Suc)
qed

lemma deqOk_part:
  assumes "deqOk v k s e l" "l \<noteq> []" "keyType d = kDeque" "startIndex d = s" "endIndex d = e" "sz d = int (length l)"
  shows "part kDeque v k d"
proof -
  have len: "unat e = unat s + length l + 1" and F: "fieldsOf v kDeque k = deqMap s l"
    using assms(1) by (auto simp: deqOk_def)
  have "finite (dom (deqMap s l))"
    using deqMap_dom(2) [OF len] assms(2) by (metis card.infinite length_0_conv)
  with deqMap_dom [OF len] F assms(2-6) show ?thesis
    by (simp add: part_def countedFields_def)
qed

fun dequeOf :: "aval \<Rightarrow> bytes list option" where
  "dequeOf ANone = Some []"
| "dequeOf (ADeque l) = Some l"
| "dequeOf _ = None"

definition dequeVal :: "bytes list \<Rightarrow> aval" where
  "dequeVal l = (if l = [] then ANone else ADeque l)"

lemma deque_desc:
  assumes "storeInv v" "okKey k" "dequeOf (absVal v k) = Some l"
  obtains d where "descOf v k = Some d" "d = emptyDescriptor \<or> wfDescriptor d" "descriptorEmpty d \<or> keyType d = kDeque"
    and "\<not> isWrongType d kDeque" "sz d = int (length l)"
    and "descriptorEmpty d \<Longrightarrow> l = [] \<and> fieldsOf v kDeque k = Map.empty"
    and "\<not> descriptorEmpty d \<Longrightarrow> l \<noteq> [] \<and> deqOk v k (startIndex d) (endIndex d) l"
proof -
  obtain d where d: "descOf v k = Some d" "d = emptyDescriptor \<or> wfDescriptor d" "part kDeque v k d"
    using storeInvE [OF assms(1,2)] by metis
  with assms(3) have kt: "keyType d = kDeque \<or> descriptorEmpty d"
    by (cases "keyType d") (auto simp: absVal_def descriptorEmpty_def wfDescriptor_def emptyDescriptor_def)
  show ?thesis
  proof (cases "keyType d = kDeque")
    case True
    then have "l = itemsOf v k (startIndex d) (endIndex d)" using assms(3) d(1) by (simp add: absVal_def)
    with that [OF d(1,2)] True part_deqOk [OF d(3) True] show ?thesis
      by (simp add: isWrongType_def descriptorEmpty_def)
  next
    case False
    with kt d have de: "d = emptyDescriptor" "descriptorEmpty d" using wf_not_empty by blast+
    with d(3) False have "fieldsOf v kDeque k = Map.empty" by (simp add: part_def countedFields_def)
    moreover have "l = []" using assms(3) d(1) de(1) by (simp add: absVal_def emptyDescriptor_def)
    moreover have "sz d = 0" using de(1) by (simp add: emptyDescriptor_def)
    ultimately show ?thesis using that [OF d(1,2)] de(2) by (simp add: isWrongType_def)
  qed
qed

text \<open>Finalizing a deque operation.\<close>

lemma deque_update:
  assumes st: "ready api st" and k: "okKey k"
    and d: "descOf (sa_view api st) k = Some d" "descriptorEmpty d \<or> keyType d = kDeque"
    and st1: "within api st kDeque k st1" "deqOk (sa_view api st1) k s e l" "length l < 2 ^ 63"
    and op: "redisKey op = k" "writable op" "keyType (keyinfo op) = kDeque"
      "startIndex (keyinfo op) = s" "endIndex (keyinfo op) = e"
      "sz (keyinfo op) = int (length l) \<Longrightarrow> l \<noteq> [] \<Longrightarrow> d = keyinfo op"
  shows "finalizesTo api st st1 op (int (length l)) False k (dequeVal l)"
proof -
  let ?n = "int (length l)"
  let ?d' = "if ?n = 0 \<and> kDeque \<noteq> kVersionedHash then emptyDescriptor else keyinfo op\<lparr>sz := ?n\<rparr>"
  have n: "?n < 2 ^ 63" using st1(3) by (simp add: of_nat_less_numeral_power_cancel_iff)
  have se: "s \<le> e" using st1(2) by (auto simp: deqOk_def word_le_nat_alt)
  show ?thesis
  proof (rule finalize_within [OF st k d(1) _ st1(1) op(1-3) _ _ _ _ refl])
    show "wfDescriptor (keyinfo op\<lparr>sz := ?n\<rparr>)"
      using op(3-5) n se by (auto simp: wfDescriptor_def int64_def)
    fix v assume v: "descOf v k = Some ?d'" "\<And>x. owned kDeque k x \<Longrightarrow> v x = sa_view api st1 x"
    have "fieldsOf v kDeque k = fieldsOf (sa_view api st1) kDeque k"
      using v(2) by (simp add: fieldsOf_def fun_eq_iff)
    then have dq: "deqOk v k s e l" using st1(2) by (simp add: deqOk_def)
    show "part kDeque v k ?d' \<and> absVal v k = dequeVal l"
    proof (cases "l = []")
      case True
      with v(1) dq show ?thesis
        by (simp add: part_def countedFields_def absVal_def dequeVal_def emptyDescriptor_def deqOk_def)
    next
      case False
      with v(1) deqOk_part [OF dq False] deqOk_items [OF dq] op(3-5) show ?thesis
        by (simp add: absVal_def dequeVal_def)
    qed
  qed (use d(2) op(6) in \<open>auto simp: descriptorEmpty_def\<close>)
qed


subsection \<open>Pushing\<close>

lemma pushItems_right:
  assumes "sa_ok api st" "writable op" "keyType (keyinfo op) = kDeque" "redisKey op = k"
    and "fieldsOf (sa_view api st) kDeque k = deqMap s l"
    and "listIndex + added = s + 1 + word_of_nat (length l)" "unat s + length l + length xs + 1 < 2 ^ 64"
  shows "\<exists>st'. pushItems api op kRight listIndex st added xs = Some (added + word_of_nat (length xs), st')
           \<and> within api st kDeque k st' \<and> fieldsOf (sa_view api st') kDeque k = deqMap s (l @ xs)"
  using assms
proof (induction xs arbitrary: st added l)
  case Nil
  then show ?case by simp
next
  case (Cons x xs)
  let ?st1 = "put_st api st (fieldKey kDeque k (marker (listIndex + added))) x"
  note put = within_put_field [OF Cons.prems(1) fieldType_simps(3), of k "marker (listIndex + added)" x]
  have "fieldsOf (sa_view api ?st1) kDeque k = deqMap s (l @ [x])" "sa_ok api ?st1"
    using put(2) Cons.prems(1,5-7) deqMap_snoc(1) [of s l x] by simp_all
  moreover have "listIndex + (added + 1) = s + 1 + word_of_nat (length (l @ [x]))"
    using Cons.prems(6) by (simp add: add.assoc [symmetric])
  ultimately obtain st' where "pushItems api op kRight listIndex ?st1 (added + 1) xs
        = Some (added + 1 + word_of_nat (length xs), st')"
      "within api ?st1 kDeque k st'" "fieldsOf (sa_view api st') kDeque k = deqMap s (l @ x # xs)"
    using Cons.IH [of ?st1 "l @ [x]" "added + 1"] Cons.prems(2-4,7) by auto
  with within_trans [OF put(1)] wo_field_ops(3) [OF Cons.prems(1-3) fieldType_simps(3)] Cons.prems(4)
  show ?case by (auto simp: dirWord_def add.assoc)
qed

lemma pushItems_left:
  assumes "sa_ok api st" "writable op" "keyType (keyinfo op) = kDeque" "redisKey op = k"
    and "fieldsOf (sa_view api st) kDeque k = deqMap s l" "listIndex - added = s"
  shows "\<exists>st'. pushItems api op kLeft listIndex st added xs = Some (added + word_of_nat (length xs), st')
           \<and> within api st kDeque k st'
           \<and> fieldsOf (sa_view api st') kDeque k = deqMap (s - word_of_nat (length xs)) (rev xs @ l)"
  using assms
proof (induction xs arbitrary: st added l s)
  case Nil
  then show ?case by simp
next
  case (Cons x xs)
  let ?st1 = "put_st api st (fieldKey kDeque k (marker s)) x"
  note put = within_put_field [OF Cons.prems(1) fieldType_simps(3), of k "marker s" x]
  have "fieldsOf (sa_view api ?st1) kDeque k = deqMap (s - 1) (x # l)" "sa_ok api ?st1"
    using put(2) Cons.prems(1,5) by simp_all
  moreover have "listIndex - (added + 1) = s - 1" using Cons.prems(6) by (simp add: algebra_simps)
  ultimately obtain st' where "pushItems api op kLeft listIndex ?st1 (added + 1) xs
        = Some (added + 1 + word_of_nat (length xs), st')" "within api ?st1 kDeque k st'"
      "fieldsOf (sa_view api st') kDeque k = deqMap (s - 1 - word_of_nat (length xs)) (rev xs @ x # l)"
    using Cons.IH [of ?st1 "s - 1" "x # l" "added + 1"] Cons.prems(2-4) by auto
  with within_trans [OF put(1)] wo_field_ops(3) [OF Cons.prems(1-3) fieldType_simps(3)] Cons.prems(4,6)
  show ?case by (auto simp: dirWord_def algebra_simps)
qed

lemma push_length:
  assumes "a + b < (2 :: nat) ^ 63"
  shows "sint (word_of_int (int a) + word_of_nat b :: u64) = int (a + b)"
proof -
  have "(word_of_int (int a) + word_of_nat b :: u64) = word_of_int (int (a + b))" by simp
  moreover have "int64 (int (a + b))"
    using assms of_nat_less_iff [of "a + b" "2 ^ 63", where ?'a = int] by (simp add: int64_def)
  ultimately show ?thesis using sint_word_of_int [of "int (a + b)"] by simp
qed

text \<open>Room for \<open>n\<close> more markers on one side.\<close>

definition pushRoom :: "view \<Rightarrow> bytes \<Rightarrow> Direction \<Rightarrow> nat \<Rightarrow> bool" where
  "pushRoom v k direction n \<longleftrightarrow>
     (case descOf v k of None \<Rightarrow> True
      | Some d \<Rightarrow> if direction = kLeft then n < unat (startIndex d) else unat (endIndex d) + n < 2 ^ 64 - 1)"

lemma deque_open:
  assumes "ready api st" "okKey k" "dequeOf (valueOf api st k) = Some l"
  obtains d where "descOf (sa_view api st) k = Some d" "descriptorEmpty d \<or> keyType d = kDeque"
    and "keyType (keyinfo (openOp k kDeque d)) = kDeque" "writable (openOp k kDeque d)"
    and "wo_keySize (openOp k kDeque d) = Some (int (length l))" "sz (keyinfo (openOp k kDeque d)) = int (length l)"
    and "l = [] \<Longrightarrow> fieldsOf (sa_view api st) kDeque k = Map.empty \<and> d = emptyDescriptor"
    and "l \<noteq> [] \<Longrightarrow> keyinfo (openOp k kDeque d) = d \<and> deqOk (sa_view api st) k (startIndex d) (endIndex d) l"
proof -
  from deque_desc [OF readyD(2) [OF assms(1)] assms(2)] assms(3) obtain d
    where d: "descOf (sa_view api st) k = Some d" "d = emptyDescriptor \<or> wfDescriptor d"
      "descriptorEmpty d \<or> keyType d = kDeque" "sz d = int (length l)"
      "descriptorEmpty d \<Longrightarrow> l = [] \<and> fieldsOf (sa_view api st) kDeque k = Map.empty"
      "\<not> descriptorEmpty d \<Longrightarrow> l \<noteq> [] \<and> deqOk (sa_view api st) k (startIndex d) (endIndex d) l"
    by (metis valueOf_def)
  have kt: "keyType (keyinfo (openOp k kDeque d)) = kDeque" using d(3) by auto
  have size: "sz (keyinfo (openOp k kDeque d)) = int (length l)"
    using d(4,5) by auto
  then have "wo_keySize (openOp k kDeque d) = Some (int (length l))"
    using kt by (simp add: wo_keySize_def getSize_def)
  moreover have "fieldsOf (sa_view api st) kDeque k = Map.empty \<and> d = emptyDescriptor" if "l = []"
  proof -
    have "descriptorEmpty d" using d(6) that by (cases "descriptorEmpty d") simp_all
    with d(2,5) wf_not_empty show ?thesis by blast
  qed
  moreover have "keyinfo (openOp k kDeque d) = d \<and> deqOk (sa_view api st) k (startIndex d) (endIndex d) l"
    if "l \<noteq> []"
  proof -
    have "\<not> descriptorEmpty d" using d(5) that by blast
    with d(6) show ?thesis by simp
  qed
  moreover have "writable (openOp k kDeque d)" using d(3) by simp
  ultimately show ?thesis using that [OF d(1,3) kt _ _ size] by blast
qed


lemma unat_sub1: "0 < unat (s :: u64) \<Longrightarrow> unat (s - 1) = unat s - 1"
  by (cases "s = 0") (auto simp: unat_minus_one)

lemma unat_sub: "n \<le> unat (s :: u64) \<Longrightarrow> unat (s - word_of_nat n) = unat s - n"
proof -
  assume n: "n \<le> unat s"
  then have "unat (word_of_nat n :: u64) = n" using unat_u64 [of s] by (simp add: unat_of_nat)
  with n show ?thesis by (simp add: unat_sub_if_size)
qed

lemma unat_kInit [simp]: "unat kIndexInitialValue = 2 ^ 63 - 1"
  by (simp add: kIndexInitialValue_def)

lemma dequePushBack_ok:
  assumes "ready api st" "okKey k" "dequeOf (valueOf api st k) = Some l"
    and "length l + length xs < 2 ^ 63" "pushRoom (sa_view api st) k kRight (length xs)"
  shows "\<exists>st'. dequePushBack api st k xs = Some (OK, int (length (l @ xs)), st')
           \<and> updated api st k (dequeVal (l @ xs)) st'"
proof -
  have ok: "sa_ok api st" using assms(1) by blast
  from deque_open [OF assms(1-3)] obtain d where d: "descOf (sa_view api st) k = Some d"
      "descriptorEmpty d \<or> keyType d = kDeque" "keyType (keyinfo (openOp k kDeque d)) = kDeque"
      "writable (openOp k kDeque d)" "wo_keySize (openOp k kDeque d) = Some (int (length l))"
      "sz (keyinfo (openOp k kDeque d)) = int (length l)"
    and e: "l = [] \<Longrightarrow> fieldsOf (sa_view api st) kDeque k = Map.empty \<and> d = emptyDescriptor"
      "l \<noteq> [] \<Longrightarrow> keyinfo (openOp k kDeque d) = d \<and> deqOk (sa_view api st) k (startIndex d) (endIndex d) l"
    by blast
  let ?op = "openOp k kDeque d" and ?n = "word_of_nat (length xs) :: u64"
  let ?e = "endIndex (keyinfo ?op)"
  define s where "s = (if l = [] then ?e - 1 else startIndex (keyinfo ?op))"
  have se: "unat ?e = unat s + length l + 1" "fieldsOf (sa_view api st) kDeque k = deqMap s l"
    using e by (auto simp: s_def deqOk_def unat_sub1)
  have room: "unat ?e + length xs < 2 ^ 64"
    using assms(5) d(1) e by (cases "l = []") (auto simp: pushRoom_def emptyDescriptor_def)
  have idx: "?e + 0 = s + 1 + word_of_nat (length l)"
    using se(1) room unat_add [of s "Suc (length l)"] by (simp add: u64_eq_iff add.assoc)
  have lt: "unat s + length l + length xs + 1 < 2 ^ 64" using se(1) room by simp
  from pushItems_right [OF ok d(4,3) _ se(2) idx lt] obtain st1
    where st1: "pushItems api ?op kRight ?e st 0 xs = Some (?n, st1)" "within api st kDeque k st1"
      "fieldsOf (sa_view api st1) kDeque k = deqMap s (l @ xs)"
    by auto
  let ?info = "(keyinfo ?op)\<lparr>endIndex := ?e + ?n\<rparr>"
  let ?info' = "if l = [] then ?info\<lparr>startIndex := ?e - 1\<rparr> else ?info"
  have dq: "deqOk (sa_view api st1) k s (?e + ?n) (l @ xs)"
    using st1(3) se(1) unat_add [OF room] by (simp add: deqOk_def)
  have "finalizesTo api st st1 (?op\<lparr>keyinfo := ?info'\<rparr>) (int (length (l @ xs))) False k (dequeVal (l @ xs))"
  proof (rule deque_update [OF assms(1,2) d(1,2) st1(2) dq])
    show "d = keyinfo (?op\<lparr>keyinfo := ?info'\<rparr>)"
      if "sz (keyinfo (?op\<lparr>keyinfo := ?info'\<rparr>)) = int (length (l @ xs))" "l @ xs \<noteq> []"
      using that d(6) e(2) by (cases "l = []") auto
  qed (use d assms(4) in \<open>auto simp: s_def writable_def\<close>)
  moreover have "sint (word_of_int (int (length l)) + ?n) = int (length (l @ xs))"
    using push_length [OF assms(4)] by simp
  ultimately show ?thesis
    using ok d st1(1)
    by (cases "l = []") (auto simp: dequePushBack_def dequePush_def getListIndex_def setListIndex_def Let_def
        dirWord_def wo_keySize_def getSize_def elim!: finalizesToE)
qed

lemma dequePushFront_ok:
  assumes "ready api st" "okKey k" "dequeOf (valueOf api st k) = Some l"
    and "length l + length xs < 2 ^ 63" "pushRoom (sa_view api st) k kLeft (length xs)"
  shows "\<exists>st'. dequePushFront api st k xs = Some (OK, int (length (rev xs @ l)), st')
           \<and> updated api st k (dequeVal (rev xs @ l)) st'"
proof -
  have ok: "sa_ok api st" using assms(1) by blast
  from deque_open [OF assms(1-3)] obtain d where d: "descOf (sa_view api st) k = Some d"
      "descriptorEmpty d \<or> keyType d = kDeque" "keyType (keyinfo (openOp k kDeque d)) = kDeque"
      "writable (openOp k kDeque d)" "wo_keySize (openOp k kDeque d) = Some (int (length l))"
      "sz (keyinfo (openOp k kDeque d)) = int (length l)"
    and e: "l = [] \<Longrightarrow> fieldsOf (sa_view api st) kDeque k = Map.empty \<and> d = emptyDescriptor"
      "l \<noteq> [] \<Longrightarrow> keyinfo (openOp k kDeque d) = d \<and> deqOk (sa_view api st) k (startIndex d) (endIndex d) l"
    by blast
  let ?op = "openOp k kDeque d" and ?n = "word_of_nat (length xs) :: u64"
  let ?s = "startIndex (keyinfo ?op)"
  define fin where "fin = (if l = [] then ?s + 1 else endIndex (keyinfo ?op))"
  have fresh: "startIndex (freshDescriptor kDeque) = kIndexInitialValue" by (simp add: freshDescriptor_def)
  have se: "unat fin = unat ?s + length l + 1" "fieldsOf (sa_view api st) kDeque k = deqMap ?s l"
    using e by (cases "l = []"; auto simp: fin_def deqOk_def fresh unat_Suc)+
  have room: "length xs \<le> unat ?s"
    using assms(5) d(1) e by (cases "l = []") (auto simp: pushRoom_def emptyDescriptor_def fresh)
  from pushItems_left [OF ok d(4,3) _ se(2), of ?s 0 xs] obtain st1
    where st1: "pushItems api ?op kLeft ?s st 0 xs = Some (?n, st1)" "within api st kDeque k st1"
      "fieldsOf (sa_view api st1) kDeque k = deqMap (?s - ?n) (rev xs @ l)"
    by auto
  let ?info = "(keyinfo ?op)\<lparr>startIndex := ?s - ?n\<rparr>"
  let ?info' = "if l = [] then ?info\<lparr>endIndex := ?s + 1\<rparr> else ?info"
  have dq: "deqOk (sa_view api st1) k (?s - ?n) fin (rev xs @ l)"
    using st1(3) se(1) unat_sub [OF room] room by (simp add: deqOk_def)
  have "finalizesTo api st st1 (?op\<lparr>keyinfo := ?info'\<rparr>) (int (length (rev xs @ l))) False k (dequeVal (rev xs @ l))"
  proof (rule deque_update [OF assms(1,2) d(1,2) st1(2) dq])
    show "d = keyinfo (?op\<lparr>keyinfo := ?info'\<rparr>)"
      if "sz (keyinfo (?op\<lparr>keyinfo := ?info'\<rparr>)) = int (length (rev xs @ l))" "rev xs @ l \<noteq> []"
      using that d(6) e(2) by (cases "l = []") auto
  qed (use d assms(4) in \<open>auto simp: fin_def writable_def\<close>)
  moreover have "sint (word_of_int (int (length l)) + ?n) = int (length (rev xs @ l))"
    using push_length [OF assms(4)] by simp
  ultimately show ?thesis
    using ok d st1(1)
    by (cases "l = []") (auto simp: dequePushFront_def dequePush_def getListIndex_def setListIndex_def Let_def
        dirWord_def wo_keySize_def getSize_def elim!: finalizesToE)
qed


subsection \<open>Popping\<close>

lemma dequePopFront_ok:
  assumes "ready api st" "okKey k" "dequeOf (valueOf api st k) = Some (x # l)" "length (x # l) < 2 ^ 63"
  shows "\<exists>st'. dequePopFront api st k = Some (OK, x, st') \<and> updated api st k (dequeVal l) st'"
proof -
  have ok: "sa_ok api st" using assms(1) by blast
  from deque_open [OF assms(1-3)] obtain d where d: "descOf (sa_view api st) k = Some d"
      "descriptorEmpty d \<or> keyType d = kDeque" "writable (openOp k kDeque d)"
      "wo_keySize (openOp k kDeque d) = Some (int (length (x # l)))"
      "sz (keyinfo (openOp k kDeque d)) = int (length (x # l))" "keyType (keyinfo (openOp k kDeque d)) = kDeque"
      "keyinfo (openOp k kDeque d) = d" "deqOk (sa_view api st) k (startIndex d) (endIndex d) (x # l)"
    by blast
  let ?op = "openOp k kDeque d" and ?s = "startIndex d" and ?e = "endIndex d"
  have len: "unat ?e = unat ?s + length (x # l) + 1" and F: "fieldsOf (sa_view api st) kDeque k = deqMap ?s (x # l)"
    using d(8) by (simp_all add: deqOk_def)
  have lt: "unat ?s + length l + 1 < 2 ^ 64" using unat_u64 [of ?e] len by simp
  let ?st1 = "del_st api st (fieldKey kDeque k (marker (?s + 1)))"
  note del = within_del_field [OF ok fieldType_simps(3), of k "marker (?s + 1)"]
  have "fieldsOf (sa_view api ?st1) kDeque k = deqMap (?s + 1) l"
    unfolding del(2) F by (rule deqMap_tail [OF lt])
  moreover have "unat (?s + 1) = unat ?s + 1" using lt by (intro unat_Suc) simp
  ultimately have dq: "deqOk (sa_view api ?st1) k (?s + 1) ?e l" using len by (simp add: deqOk_def)
  have "finalizesTo api st ?st1 (?op\<lparr>keyinfo := d\<lparr>startIndex := ?s + 1\<rparr>\<rparr>) (int (length l)) False k (dequeVal l)"
    using assms(4) d(2,3,5,7) d(6) by (intro deque_update [OF assms(1,2) d(1,2) del(1) dq]) (auto simp: writable_def)
  moreover have "sa_view api st (fieldKey kDeque k (marker (?s + 1))) = Some x"
    using F by (simp add: fieldsOf_apply)
  ultimately show ?thesis
    using ok d(1-7) wo_field_ops [OF ok d(3,6) fieldType_simps(3)]
    by (auto simp: dequePopFront_def dequePop_def getListIndex_def setListIndex_def Let_def dirWord_def
        elim!: finalizesToE)
qed

lemma dequePopBack_ok:
  assumes "ready api st" "okKey k" "dequeOf (valueOf api st k) = Some (l @ [x])" "length (l @ [x]) < 2 ^ 63"
  shows "\<exists>st'. dequePopBack api st k = Some (OK, x, st') \<and> updated api st k (dequeVal l) st'"
proof -
  have ok: "sa_ok api st" using assms(1) by blast
  from deque_open [OF assms(1-3)] obtain d where d: "descOf (sa_view api st) k = Some d"
      "descriptorEmpty d \<or> keyType d = kDeque" "writable (openOp k kDeque d)"
      "wo_keySize (openOp k kDeque d) = Some (int (length (l @ [x])))"
      "sz (keyinfo (openOp k kDeque d)) = int (length (l @ [x]))" "keyType (keyinfo (openOp k kDeque d)) = kDeque"
      "keyinfo (openOp k kDeque d) = d" "deqOk (sa_view api st) k (startIndex d) (endIndex d) (l @ [x])"
    by (metis Nil_is_append_conv not_Cons_self2)
  let ?op = "openOp k kDeque d" and ?s = "startIndex d" and ?e = "endIndex d"
  have len: "unat ?e = unat ?s + length (l @ [x]) + 1" and F: "fieldsOf (sa_view api st) kDeque k = deqMap ?s (l @ [x])"
    using d(8) by (simp_all add: deqOk_def)
  have lt: "unat ?s + length l + 1 < 2 ^ 64" using unat_u64 [of ?e] len by simp
  have e1: "unat (?e - 1) = unat ?s + length l + 1" using unat_sub1 [of ?e] len by simp
  then have idx: "?e - 1 = ?s + 1 + word_of_nat (length l)"
    using unat_add [of ?s "Suc (length l)"] lt by (simp add: u64_eq_iff add.assoc)
  let ?st1 = "del_st api st (fieldKey kDeque k (marker (?e - 1)))"
  note del = within_del_field [OF ok fieldType_simps(3), of k "marker (?e - 1)"]
  have "fieldsOf (sa_view api ?st1) kDeque k = (deqMap ?s (l @ [x]))(marker (?e - 1) := None)"
    using del(2) F by simp
  also have "\<dots> = deqMap ?s l"
    unfolding idx deqMap_snoc(1) [OF lt] using deqMap_snoc(2) [OF lt] by (auto simp: fun_eq_iff)
  finally have dq: "deqOk (sa_view api ?st1) k ?s (?e - 1) l" using e1 by (simp add: deqOk_def)
  have "finalizesTo api st ?st1 (?op\<lparr>keyinfo := d\<lparr>endIndex := ?e - 1\<rparr>\<rparr>) (int (length l)) False k (dequeVal l)"
    using assms(4) d(2,3,5,7) d(6) by (intro deque_update [OF assms(1,2) d(1,2) del(1) dq]) (auto simp: writable_def)
  moreover have "sa_view api st (fieldKey kDeque k (marker (?e - 1))) = Some x"
    using F deqMap_snoc(1) [OF lt] idx by (simp add: fieldsOf_apply)
  ultimately show ?thesis
    using ok d(1-7) wo_field_ops [OF ok d(3,6) fieldType_simps(3)]
    by (auto simp: dequePopBack_def dequePop_def getListIndex_def setListIndex_def Let_def dirWord_def
        elim!: finalizesToE)
qed

lemma dequePop_empty:
  assumes "ready api st" "okKey k" "valueOf api st k = ANone"
  shows "\<exists>st'. dequePop api st direction k = Some (NotFound, [], st') \<and> updated api st k ANone st'"
proof -
  have ok: "sa_ok api st" using assms(1) by blast
  have "dequeOf (valueOf api st k) = Some []" using assms(3) by simp
  from deque_open [OF assms(1,2) this] obtain d where d: "descOf (sa_view api st) k = Some d"
      "descriptorEmpty d \<or> keyType d = kDeque" "keyType (keyinfo (openOp k kDeque d)) = kDeque"
      "writable (openOp k kDeque d)" "wo_keySize (openOp k kDeque d) = Some 0" "d = emptyDescriptor"
    by (metis int_ops(1) list.size(3))
  let ?st' = "del_st api st (descriptorLocator k)"
  have gone: "sa_view api st (descriptorLocator k) = None"
    using d(1,6) by (auto simp: descOf_def constructDescriptor_def parseDescriptor_def emptyDescriptor_def Let_def
        Option.bind_eq_Some_conv status_of_def split: option.splits if_splits)
  then have view: "sa_view api ?st' = sa_view api st" using ok by auto
  then have "updated api st k ANone ?st'"
    using assms(1,3) ok by (auto simp: updated_def ready_def sets_value_def valueOf_def)
  with ok d show ?thesis
    by (auto simp: dequePop_def wo_finalize_def)
qed


subsection \<open>Trimming\<close>

lemma trimLoop_ok:
  assumes "sa_ok api st" "writable op" "keyType (keyinfo op) = kDeque" "redisKey op = k"
    and "fieldsOf (sa_view api st) kDeque k = deqMap s l" "unat s + length l + 1 < 2 ^ 64" "n \<le> length l"
    and "bound = s + word_of_nat n"
  shows "\<exists>st'. trimLoop api op (s + 1) bound c st = Some (c + int n, st') \<and> within api st kDeque k st'
           \<and> fieldsOf (sa_view api st') kDeque k = deqMap bound (drop n l)"
  using assms
proof (induction n arbitrary: st s l c)
  case 0
  have "\<not> s + 1 \<le> s" using unat_Suc [of s] "0.prems"(6) by (simp add: word_le_nat_alt)
  with "0.prems" show ?case by (subst trimLoop.simps) simp
next
  case (Suc n)
  then obtain x l' where l: "l = x # l'" by (cases l) auto
  have s1: "unat (s + 1) = unat s + 1" using Suc.prems(6) by (intro unat_Suc) simp
  have b: "bound = s + 1 + word_of_nat n" using Suc.prems(8) by (simp add: add.assoc)
  have le: "s + 1 \<le> bound"
    using s1 Suc.prems(6,7) unat_add [of "s + 1" n] by (simp add: b word_le_nat_alt)
  let ?st1 = "del_st api st (fieldKey kDeque k (marker (s + 1)))"
  note del = within_del_field [OF Suc.prems(1) fieldType_simps(3), of k "marker (s + 1)"]
  have F1: "fieldsOf (sa_view api ?st1) kDeque k = deqMap (s + 1) l'"
    unfolding del(2) Suc.prems(5) l using Suc.prems(6) l by (intro deqMap_tail) simp
  have present: "sa_view api st (fieldKey kDeque k (marker (s + 1))) = Some x"
    using Suc.prems(5) l by (simp add: fieldsOf_apply)
  have ok1: "sa_ok api ?st1" using Suc.prems(1) by simp
  from Suc.IH [OF ok1 Suc.prems(2-4) F1 _ _ b, of "c + 1"] Suc.prems(6,7) s1 l obtain st'
    where st': "trimLoop api op (s + 1 + 1) bound (c + 1) ?st1 = Some (c + 1 + int n, st')"
      "within api ?st1 kDeque k st'" "fieldsOf (sa_view api st') kDeque k = deqMap bound (drop n l')"
    by auto
  have "trimLoop api op (s + 1) bound c st = trimLoop api op (s + 1 + 1) bound (c + 1) ?st1"
    using le present wo_field_ops(4) [OF Suc.prems(1-3) fieldType_simps(3)] Suc.prems(4)
    by (subst trimLoop.simps) simp
  with st' within_trans [OF del(1) st'(2)] l show ?case by simp
qed

lemma dequeTrimFront_ok:
  assumes "ready api st" "okKey k" "dequeOf (valueOf api st k) = Some l" "length l < 2 ^ 63"
    and "parseInt64 str = Some m" "0 \<le> m"
  shows "\<exists>st'. dequeTrimFront api st k str = Some (OK, int (length l - nat m), st')
           \<and> updated api st k (dequeVal (drop (length l - nat m) l)) st'"
proof (cases "int (length l) \<le> m")
  case True
  have ok: "sa_ok api st" using assms(1) by blast
  from deque_open [OF assms(1-3)] obtain d where d: "descOf (sa_view api st) k = Some d"
      "descriptorEmpty d \<or> keyType d = kDeque" "keyType (keyinfo (openOp k kDeque d)) = kDeque"
      "wo_keySize (openOp k kDeque d) = Some (int (length l))"
    by metis
  have z: "length l - nat m = 0" using True by simp
  have "valueOf api st k = dequeVal l"
  proof -
    from deque_desc [OF readyD(2) [OF assms(1)] assms(2)] assms(3) have "valueOf api st k = ADeque l \<longrightarrow> l \<noteq> []"
      using d(1) by (metis absVal_cases(1) assms(1,2) aval.distinct(7) readyD(2) valueOf_def)
    with assms(3) show ?thesis by (cases "valueOf api st k") (auto simp: dequeVal_def)
  qed
  then have "updated api st k (dequeVal (drop (length l - nat m) l)) st"
    using assms(1) z by (intro updated_refl) simp_all
  with ok d assms(5,6) True z show ?thesis
    by (auto simp: dequeTrimFront_def wo_keySize_def Let_def)
next
  case False
  have ok: "sa_ok api st" using assms(1) by blast
  have ne: "l \<noteq> []" using False assms(6) by auto
  from deque_open [OF assms(1-3)] ne obtain d where d: "descOf (sa_view api st) k = Some d"
      "descriptorEmpty d \<or> keyType d = kDeque" "keyType (keyinfo (openOp k kDeque d)) = kDeque"
      "writable (openOp k kDeque d)" "wo_keySize (openOp k kDeque d) = Some (int (length l))"
      "sz (keyinfo (openOp k kDeque d)) = int (length l)" "keyinfo (openOp k kDeque d) = d"
      "deqOk (sa_view api st) k (startIndex d) (endIndex d) l"
    by metis
  let ?op = "openOp k kDeque d" and ?s = "startIndex d" and ?e = "endIndex d"
  define t where "t = length l - nat m"
  define b where "b = ?s + word_of_nat t"
  have len: "unat ?e = unat ?s + length l + 1" and F: "fieldsOf (sa_view api st) kDeque k = deqMap ?s l"
    using d(8) by (simp_all add: deqOk_def)
  have lt: "unat ?s + length l + 1 < 2 ^ 64" using unat_u64 [of ?e] len by simp
  have t: "int (length l) - m = int t" "0 < t" "t \<le> length l" using False assms(6) by (auto simp: t_def)
  from trimLoop_ok [OF ok d(4,3) _ F lt t(3) b_def, where c = 0] obtain st1
    where st1: "trimLoop api ?op (?s + 1) b 0 st = Some (int t, st1)" "within api st kDeque k st1"
      "fieldsOf (sa_view api st1) kDeque k = deqMap b (drop t l)"
    by auto
  have b: "unat b = unat ?s + t" unfolding b_def using lt t(3) by (intro unat_add) simp
  have dq: "deqOk (sa_view api st1) k b ?e (drop t l)"
    using st1(3) b len t(3) by (simp add: deqOk_def)
  have m: "length (drop t l) = nat m" "int64 m" "int (length (drop t l)) = m"
    using t False assms(4,6) of_nat_less_iff [of "length l" "2 ^ 63", where ?'a = int]
    by (auto simp: int64_def)
  have "?e = b + word_of_nat (Suc (nat m))"
    using b len m(1) unat_add [of b "Suc (nat m)"] unat_u64 [of ?e] t by (simp add: u64_eq_iff)
  then have left: "?e - b - 1 = word_of_int m"
    using assms(6) by (simp add: of_nat_nat)
  have "sz d \<noteq> int (length (drop t l))" using d(6,7) t(2,3) by simp
  then have "finalizesTo api st st1 (?op\<lparr>keyinfo := d\<lparr>startIndex := b\<rparr>\<rparr>) (int (length (drop t l))) False k
      (dequeVal (drop t l))"
    using d(2-7) assms(4) by (intro deque_update [OF assms(1,2) d(1,2) st1(2) dq]) (auto simp: writable_def)
  then obtain op' st' where st': "wo_finalize api st1 (?op\<lparr>keyinfo := d\<lparr>startIndex := b\<rparr>\<rparr>) m False = Some (op', st')"
      "wo_destroy op' = Some ()" "updated api st k (dequeVal (drop t l)) st'"
    unfolding m(3) by (rule finalizesToE)
  have "word_of_int (int (length l) - m) = (word_of_nat t :: u64)" unfolding t(1) by simp
  then have "dequeTrimFront api st k str = Some (OK, int t, st')"
    unfolding dequeTrimFront_def assms(5)
    using ok d(1-7) t(1,2) st1(1) left st'(1,2) assms(6) sint_word_of_int [OF m(2)]
    by (simp add: wo_keySize_def descriptor_access b_def [symmetric] del: of_int_diff)
  with st'(3) show ?thesis unfolding t_def by blast
qed

end
