(* ===== verification/VersionedHashOps.thy ===== *)
theory VersionedHashOps
  imports HashOps CoreOps
begin

text \<open>
  The versioned hash commands of \<^verbatim>\<open>src/src/StateMachine.cc\<close>.  A versioned hash counts its
  revisions in the descriptor; the changes of a transaction are collected per key in the revision
  tracker of the staging area.
\<close>

subsection \<open>Operations\<close>

definition setTracker ::
  "bytes \<Rightarrow> vhash_revision \<Rightarrow> ('db, 'wb) staging \<Rightarrow> ('db, 'wb) staging" where
  "setTracker key r st = st\<lparr>revisionTracker := (revisionTracker st)(key \<mapsto> r)\<rparr>"

definition vhset ::
  "('db, 'wb) rocksdb \<Rightarrow> ('db, 'wb) staging \<Rightarrow> bytes \<Rightarrow> bytes \<Rightarrow> bytes
    \<Rightarrow> (status \<times> u64 \<times> ('db, 'wb) staging) option" where
  "vhset api st key field val = do {
     op \<leftarrow> newWriteOperation api st key kVersionedHash;
     if \<not> isValid op then do { wo_destroy op; Some (wrong_type, 0, st) } else do {
       present \<leftarrow> wo_fieldExists api st op field;
       size \<leftarrow> wo_keySize op;
       let newsize = size + of_bool (\<not> present);
       st \<leftarrow> wo_writeField api st op field val;
       version \<leftarrow> getStartIndex (keyinfo op);
       modified \<leftarrow> descriptorModifiedAlreadyInWriteBatch api st op;
       (version, info) \<leftarrow> (if \<not> modified then do {
                              info \<leftarrow> setStartIndex (version + 1) (keyinfo op);
                              Some (version + 1, info) }
                            else Some (version, keyinfo op));
       let op = op\<lparr>keyinfo := info\<rparr>;
       rv \<leftarrow> setRevisionNumber version (forKey (revisionTracker st) key);
       let st = setTracker key (addUpdate field val rv) st;
       (op, st) \<leftarrow> wo_finalize api st op newsize True;
       wo_destroy op;
       Some (OK, version, st) } }"

fun vhdelLoop ::
  "('db, 'wb) rocksdb \<Rightarrow> write_operation \<Rightarrow> bytes \<Rightarrow> ('db, 'wb) staging \<Rightarrow> int \<Rightarrow> bytes list
    \<Rightarrow> (int \<times> ('db, 'wb) staging) option" where
  "vhdelLoop api op key st removed [] = Some (removed, st)"
| "vhdelLoop api op key st removed (f # fs) = do {
     (gone, st) \<leftarrow> wo_deleteField api st op f;
     let st = setTracker key (addUpdate f [] (forKey (revisionTracker st) key)) st;
     vhdelLoop api op key st (removed + of_bool gone) fs }"

definition vhdel ::
  "('db, 'wb) rocksdb \<Rightarrow> ('db, 'wb) staging \<Rightarrow> bytes \<Rightarrow> bytes list
    \<Rightarrow> (status \<times> u64 \<times> ('db, 'wb) staging) option" where
  "vhdel api st key args = do {
     op \<leftarrow> newWriteOperation api st key kVersionedHash;
     if \<not> isValid op then do { wo_destroy op; Some (wrong_type, 0, st) } else do {
       let st = setTracker key (forKey (revisionTracker st) key) st;
       (removed, st) \<leftarrow> vhdelLoop api op key st 0 args;
       version \<leftarrow> getStartIndex (keyinfo op);
       modified \<leftarrow> (if removed \<noteq> 0 then descriptorModifiedAlreadyInWriteBatch api st op else Some True);
       (version, info) \<leftarrow> (if removed \<noteq> 0 \<and> \<not> modified then do {
                              info \<leftarrow> setStartIndex (version + 1) (keyinfo op);
                              Some (version + 1, info) }
                            else Some (version, keyinfo op));
       let op = op\<lparr>keyinfo := info\<rparr>;
       rv \<leftarrow> setRevisionNumber version (forKey (revisionTracker st) key);
       let st = setTracker key rv st;
       size \<leftarrow> wo_keySize op;
       (op, st) \<leftarrow> wo_finalize api st op (size - removed) True;
       wo_destroy op;
       Some (OK, version, st) } }"

definition vhlen :: "('db, 'wb) rocksdb \<Rightarrow> ('db, 'wb) staging \<Rightarrow> bytes \<Rightarrow> (status \<times> int) option" where
  "vhlen api st key = do {
     info \<leftarrow> getKeyDescriptor api st key;
     if isWrongType info kVersionedHash then Some (wrong_type, 0) else do {
       len \<leftarrow> getSize info;
       Some (OK, len) } }"

definition vhgetall ::
  "('db, 'wb) rocksdb \<Rightarrow> ('db, 'wb) staging \<Rightarrow> bytes \<Rightarrow> (status \<times> bytes list \<times> u64) option" where
  "vhgetall api st key = do {
     info \<leftarrow> getKeyDescriptor api st key;
     if descriptorEmpty info then Some (OK, [], 0)
     else if keyType info \<noteq> kVersionedHash then Some (wrong_type, [], 0)
     else do {
       pre \<leftarrow> fieldLocatorPrefix kVersionedHash key;
       version \<leftarrow> getStartIndex info;
       Some (OK, concat (map (\<lambda>e. [fst e, snd e]) (iterFields api st pre)), version) } }"


subsection \<open>The revision tracker\<close>

definition withTracker :: "(bytes \<rightharpoonup> vhash_revision) \<Rightarrow> ('db, 'wb) staging \<Rightarrow> ('db, 'wb) staging" where
  "withTracker t st = st\<lparr>revisionTracker := t\<rparr>"

lemma setTracker_with: "setTracker k r st = withTracker ((revisionTracker st)(k \<mapsto> r)) st"
  by (simp add: setTracker_def withTracker_def)

lemma withTracker_simps [simp]:
  "revisionTracker (withTracker t st) = t" "stateMachine (withTracker t st) = stateMachine st"
  "withTracker t (withTracker t' st) = withTracker t st" "withTracker (revisionTracker st) st = st"
  "sa_ok api (withTracker t st) = sa_ok api st" "sa_view api (withTracker t st) = sa_view api st"
  "put_st api (withTracker t st) x y = withTracker t (put_st api st x y)"
  "del_st api (withTracker t st) x = withTracker t (del_st api st x)"
  by (auto simp: withTracker_def sa_ok_def sa_view_def sa_get_def snapshotGet_def put_st_def del_st_def fun_eq_iff)

lemma ready_withTracker [simp]: "ready api (withTracker t st) = ready api st"
  by (simp add: ready_def)

lemma updated_withTracker [simp]: "updated api (withTracker t st) k a st' = updated api st k a st'"
  by (simp add: updated_def)

text \<open>Has the descriptor of the key been written in this transaction?\<close>

definition inBatch :: "('db, 'wb) rocksdb \<Rightarrow> ('db, 'wb) staging \<Rightarrow> bytes \<Rightarrow> bool" where
  "inBatch api st k \<longleftrightarrow> found (wb_get api (writeBatchWithIndex st) (descriptorLocator k)) \<noteq> None"

lemma modified_ok [simp]:
  "sa_ok api st \<Longrightarrow> descriptorModifiedAlreadyInWriteBatch api st op = Some (inBatch api st (redisKey op))"
  using rocksdb_lawsD(3) [OF sa_laws, of api st]
  by (simp add: descriptorModifiedAlreadyInWriteBatch_def readFromWriteBatch_def inBatch_def sa_ok_def
      ok_or_notfound_def found_def split: get_status.splits) (metis get_status.distinct found_def status_of_simps(5))

lemma inBatch_simps [simp]:
  "sa_ok api st \<Longrightarrow> x \<noteq> descriptorLocator k \<Longrightarrow> inBatch api (put_st api st x y) k = inBatch api st k"
  "sa_ok api st \<Longrightarrow> x \<noteq> descriptorLocator k \<Longrightarrow> inBatch api (del_st api st x) k = inBatch api st k"
  "sa_ok api st \<Longrightarrow> inBatch api (put_st api st (descriptorLocator k) y) k"
  "inBatch api (withTracker t st) k = inBatch api st k"
  using rocksdb_lawsD(11,14) [OF sa_laws, of api st]
  by (auto simp: inBatch_def put_st_def del_st_def withTracker_def found_def)

text \<open>
  Inside a transaction: the tracker holds a revision for a key only once the descriptor has been
  written, and then it is the version in the descriptor.
\<close>

definition trackOk :: "('db, 'wb) rocksdb \<Rightarrow> ('db, 'wb) staging \<Rightarrow> bytes \<Rightarrow> u64 \<Rightarrow> bool" where
  "trackOk api st k n \<longleftrightarrow>
     currentRevision (forKey (revisionTracker st) k) = 0
     \<or> inBatch api st k \<and> currentRevision (forKey (revisionTracker st) k) = n"

lemma trackOk_new [simp]: "trackOk api (newStagingArea api sm False) k n"
  by (simp add: trackOk_def newStagingArea_def forKey_def emptyRevision_def)

definition nextVersion :: "('db, 'wb) rocksdb \<Rightarrow> ('db, 'wb) staging \<Rightarrow> bytes \<Rightarrow> u64 \<Rightarrow> u64" where
  "nextVersion api st k n = (if inBatch api st k then n else n + 1)"

subsection \<open>Opening a versioned hash\<close>

fun vhashOf :: "aval \<Rightarrow> (u64 \<times> (bytes \<rightharpoonup> bytes)) option" where
  "vhashOf ANone = Some (0, Map.empty)"
| "vhashOf (AVersionedHash n m) = Some (n, m)"
| "vhashOf _ = None"

lemma vhash_open:
  assumes "storeInv v" "okKey k" "vhashOf (absVal v k) = Some (n, m)"
  obtains d where "descOf v k = Some d" "descriptorEmpty d \<or> keyType d = kVersionedHash"
    and "keyType (keyinfo (openOp k kVersionedHash d)) = kVersionedHash" "writable (openOp k kVersionedHash d)"
    and "startIndex (keyinfo (openOp k kVersionedHash d)) = n"
    and "endIndex (keyinfo (openOp k kVersionedHash d)) = kIndexInitialValue"
    and "sz (keyinfo (openOp k kVersionedHash d)) = int (card (dom m))"
    and "fieldsOf v kVersionedHash k = m" "finite (dom m)" "\<not> isWrongType d kVersionedHash"
proof -
  obtain d where d: "descOf v k = Some d" "d = emptyDescriptor \<or> wfDescriptor d" "part kVersionedHash v k d"
    using storeInvE [OF assms(1,2)] by metis
  with assms(3) have kt: "keyType d = kVersionedHash \<or> descriptorEmpty d"
    by (cases "keyType d") (auto simp: absVal_def descriptorEmpty_def wfDescriptor_def emptyDescriptor_def)
  show ?thesis
  proof (cases "descriptorEmpty d")
    case True
    then have "d = emptyDescriptor" using d(2) wf_not_empty by blast
    moreover from this assms(3) d(1) have "n = 0" "m = Map.empty" by (auto simp: absVal_def emptyDescriptor_def)
    moreover have "fieldsOf v kVersionedHash k = Map.empty"
      using d(3) True by (simp add: part_def countedFields_def descriptorEmpty_def)
    ultimately show ?thesis
      by (intro that [OF d(1)]) (auto simp: freshDescriptor_def emptyDescriptor_def isWrongType_def descriptorEmpty_def)
  next
    case False
    then have kt': "keyType d = kVersionedHash" using kt by simp
    moreover have "n = startIndex d" "m = fieldsOf v kVersionedHash k"
      using assms(3) d(1) kt' by (simp_all add: absVal_def)
    moreover have "endIndex d = kIndexInitialValue" using d(2) kt' False by (auto simp: wfDescriptor_def)
    ultimately show ?thesis
      using d(3) False by (intro that [OF d(1)]) (auto simp: part_def countedFields_def isWrongType_def)
  qed
qed

lemma vhash_update:
  assumes st: "ready api st" and k: "okKey k"
    and d: "descOf (sa_view api st) k = Some d" "descriptorEmpty d \<or> keyType d = kVersionedHash"
    and st1: "within api st kVersionedHash k st1" "fieldsOf (sa_view api st1) kVersionedHash k = m"
      "finite (dom m)" "card (dom m) < 2 ^ 63"
    and op: "redisKey op = k" "writable op" "keyType (keyinfo op) = kVersionedHash" "startIndex (keyinfo op) = n"
      "endIndex (keyinfo op) = kIndexInitialValue"
    and sz': "nsz = int (card (dom m))"
  shows "finalizesTo api st st1 op nsz True k (AVersionedHash n m)"
proof -
  have lt: "nsz < 2 ^ 63" using st1(4) sz' by (simp add: of_nat_less_numeral_power_cancel_iff)
  let ?d' = "if nsz = 0 \<and> kVersionedHash \<noteq> kVersionedHash then emptyDescriptor else keyinfo op\<lparr>sz := nsz\<rparr>"
  show ?thesis
  proof (rule finalize_within [OF st k d(1) _ st1(1) op(1-3) _ _ _ _ refl])
    show "wfDescriptor (keyinfo op\<lparr>sz := nsz\<rparr>)"
      using op(3,5) lt sz' by (auto simp: wfDescriptor_def int64_def)
    fix v assume v: "descOf v k = Some ?d'" "\<And>x. owned kVersionedHash k x \<Longrightarrow> v x = sa_view api st1 x"
    have "fieldsOf v kVersionedHash k = m"
      using v(2) st1(2) by (simp add: fieldsOf_def fun_eq_iff)
    with v(1) st1(3) sz' op(3,4) show "part kVersionedHash v k ?d' \<and> absVal v k = AVersionedHash n m"
      by (simp add: part_def countedFields_def absVal_def)
  qed (use d(2) sz' in \<open>auto simp: descriptorEmpty_def\<close>)
qed


lemma setRevision_ok:
  assumes "trackOk api st k n" "v = nextVersion api st k n \<or> v = n"
    and "v = n \<or> \<not> inBatch api st k"
  shows "\<exists>r. setRevisionNumber v (forKey (revisionTracker st) k) = Some r \<and> currentRevision r = v"
  using assms by (auto simp: trackOk_def setRevisionNumber_def nextVersion_def)

lemma finalize_inBatch:
  assumes "sa_ok api st" "wo_finalize api st op n True = Some (op', st')" "redisKey op = k"
    "keyType (keyinfo op) = kVersionedHash"
  shows "inBatch api st' k"
  using assms by (auto simp: wo_finalize_def Option.bind_eq_Some_conv split: if_splits)

subsection \<open>Setting a field\<close>

lemma vhset_ok:
  assumes st: "ready api st" and k: "okKey k" "vhashOf (valueOf api st k) = Some (n, m)"
    and t: "trackOk api st k n" and sz: "card (dom m) + 1 < 2 ^ 63" and v: "v = nextVersion api st k n"
  shows "\<exists>st'. vhset api st k f x = Some (OK, v, st') \<and> updated api st k (AVersionedHash v (m(f \<mapsto> x))) st'
           \<and> inBatch api st' k \<and> trackOk api st' k v"
proof -
  have ok: "sa_ok api st" using st by blast
  from vhash_open [OF readyD(2) [OF st] k(1)] k(2) obtain d where d: "descOf (sa_view api st) k = Some d"
      "descriptorEmpty d \<or> keyType d = kVersionedHash"
      "keyType (keyinfo (openOp k kVersionedHash d)) = kVersionedHash" "writable (openOp k kVersionedHash d)"
      "startIndex (keyinfo (openOp k kVersionedHash d)) = n"
      "endIndex (keyinfo (openOp k kVersionedHash d)) = kIndexInitialValue"
      "sz (keyinfo (openOp k kVersionedHash d)) = int (card (dom m))"
      "fieldsOf (sa_view api st) kVersionedHash k = m" "finite (dom m)"
    unfolding valueOf_def by metis
  let ?op = "openOp k kVersionedHash d"
  let ?info = "(keyinfo ?op)\<lparr>startIndex := v\<rparr>"
  let ?st1 = "put_st api st (fieldKey kVersionedHash k f) x"
  note put = within_put_field [OF ok fieldType_simps(4), of k f x]
  note ops = wo_field_ops [OF ok d(4,3) fieldType_simps(4), simplified]
  obtain r where r: "setRevisionNumber v (forKey (revisionTracker st) k) = Some r" "currentRevision r = v"
    using setRevision_ok [OF t, of v] v by (cases "inBatch api st k") (auto simp: nextVersion_def)
  let ?t = "(revisionTracker st)(k \<mapsto> addUpdate f x r)"
  have "finalizesTo api (withTracker ?t st) (withTracker ?t ?st1) (?op\<lparr>keyinfo := ?info\<rparr>)
      (int (card (dom m)) + of_bool (m f = None)) True k (AVersionedHash v (m(f \<mapsto> x)))"
  proof (rule vhash_update [OF _ k(1) _ d(2)])
    show "within api (withTracker ?t st) kVersionedHash k (withTracker ?t ?st1)"
      using within_put_field(1) [of api "withTracker ?t st" kVersionedHash k f x] ok by simp
  qed (use st d sz put(2) card_dom_upd [OF d(9), of f x] in \<open>auto simp: writable_def\<close>)
  then obtain op' st' where st': "wo_finalize api (withTracker ?t ?st1) (?op\<lparr>keyinfo := ?info\<rparr>)
      (int (card (dom m)) + of_bool (m f = None)) True = Some (op', st')" "wo_destroy op' = Some ()"
      "updated api (withTracker ?t st) k (AVersionedHash v (m(f \<mapsto> x))) st'" "revisionTracker st' = ?t"
    by (auto elim!: finalizesToE)
  have "inBatch api st' k"
    using finalize_inBatch [OF _ st'(1)] ok d(3) by simp
  moreover from this have "trackOk api st' k v"
    using st'(4) r(2) by (simp add: trackOk_def forKey_def addUpdate_def)
  moreover have "vhset api st k f x = Some (OK, v, st')"
    using ok d r(1) st'(1,2) ops v
    by (auto simp: vhset_def wo_keySize_def getSize_def descriptor_access nextVersion_def Let_def setTracker_with
        fieldsOf_apply)
  ultimately show ?thesis using st'(3) by auto
qed


subsection \<open>Deleting fields\<close>

lemma vhdelLoop_ok:
  assumes "sa_ok api st" "writable op" "keyType (keyinfo op) = kVersionedHash" "redisKey op = k"
    and "finite (dom m)" "fieldsOf (sa_view api st) kVersionedHash k = m"
  shows "\<exists>st'. vhdelLoop api op k st n fs = Some (n + int (card (dom m \<inter> set fs)), st')
           \<and> within api (withTracker (revisionTracker st') st) kVersionedHash k st'
           \<and> fieldsOf (sa_view api st') kVersionedHash k = m |` (- set fs)
           \<and> inBatch api st' k = inBatch api st k
           \<and> currentRevision (forKey (revisionTracker st') k) = currentRevision (forKey (revisionTracker st) k)"
  using assms
proof (induction fs arbitrary: st n m)
  case Nil
  then show ?case by simp
next
  case (Cons f fs)
  note ops = wo_field_ops [OF Cons.prems(1-3) fieldType_simps(4), simplified, unfolded Cons.prems(4)]
  note del = within_del_field [OF Cons.prems(1) fieldType_simps(4), of k f]
  let ?t = "(revisionTracker st)(k \<mapsto> addUpdate f [] (forKey (revisionTracker st) k))"
  let ?st1 = "if m f = None then st else del_st api st (fieldKey kVersionedHash k f)"
  let ?st2 = "withTracker ?t ?st1" and ?m = "m(f := None)"
  have F: "fieldsOf (sa_view api ?st2) kVersionedHash k = ?m"
    using del(2) Cons.prems(6) by (cases "m f") auto
  have ok2: "sa_ok api ?st2" and fin: "finite (dom ?m)" using Cons.prems(1,5) by simp_all
  from Cons.IH [OF ok2 Cons.prems(2-4) fin F, of "n + of_bool (m f \<noteq> None)"] obtain st'
    where st': "vhdelLoop api op k ?st2 (n + of_bool (m f \<noteq> None)) fs
          = Some (n + of_bool (m f \<noteq> None) + int (card (dom ?m \<inter> set fs)), st')"
      "within api (withTracker (revisionTracker st') ?st2) kVersionedHash k st'"
      "fieldsOf (sa_view api st') kVersionedHash k = ?m |` (- set fs)"
      "inBatch api st' k = inBatch api ?st2 k"
      "currentRevision (forKey (revisionTracker st') k) = currentRevision (forKey (revisionTracker ?st2) k)"
    by blast
  have "vhdelLoop api op k st n (f # fs) = vhdelLoop api op k ?st2 (n + of_bool (m f \<noteq> None)) fs"
    using Cons.prems(6) by (cases "m f") (auto simp: ops fieldsOf_apply setTracker_with Let_def)
  moreover have "int (card (dom m \<inter> set (f # fs))) = of_bool (m f \<noteq> None) + int (card (dom ?m \<inter> set fs))"
  proof (cases "m f")
    case None
    then have "dom m \<inter> set (f # fs) = dom ?m \<inter> set fs" by auto
    with None show ?thesis by simp
  next
    case (Some y)
    then have "dom m \<inter> set (f # fs) = insert f (dom ?m \<inter> set fs)" by auto
    then have "card (dom m \<inter> set (f # fs)) = Suc (card (dom ?m \<inter> set fs))"
      by (simp only:) (subst card_insert_disjoint, auto)
    with Some show ?thesis by simp
  qed
  moreover have "?m |` (- set fs) = m |` (- set (f # fs))" by (auto simp: restrict_map_def fun_eq_iff)
  moreover have "within api (withTracker (revisionTracker st') st) kVersionedHash k
      (withTracker (revisionTracker st') ?st2)"
    using within_del_field(1) [of api "withTracker (revisionTracker st') st" kVersionedHash k f] Cons.prems(1) by simp
  moreover have "inBatch api ?st2 k = inBatch api st k" using Cons.prems(1) by simp
  ultimately show ?case
    using st' within_trans [OF _ st'(2)] by (simp add: forKey_def addUpdate_def)
qed

lemma vhdel_ok:
  assumes st: "ready api st" and k: "okKey k" "vhashOf (valueOf api st k) = Some (n, m)"
    and t: "trackOk api st k n" and lt: "card (dom m) < 2 ^ 63"
    and v: "v = (if dom m \<inter> set fs = {} then n else nextVersion api st k n)"
  shows "\<exists>st'. vhdel api st k fs = Some (OK, v, st') \<and> updated api st k (AVersionedHash v (m |` (- set fs))) st'
           \<and> inBatch api st' k \<and> trackOk api st' k v"
proof -
  have ok: "sa_ok api st" using st by blast
  from vhash_open [OF readyD(2) [OF st] k(1)] k(2) obtain d where d: "descOf (sa_view api st) k = Some d"
      "descriptorEmpty d \<or> keyType d = kVersionedHash"
      "keyType (keyinfo (openOp k kVersionedHash d)) = kVersionedHash" "writable (openOp k kVersionedHash d)"
      "startIndex (keyinfo (openOp k kVersionedHash d)) = n"
      "endIndex (keyinfo (openOp k kVersionedHash d)) = kIndexInitialValue"
      "sz (keyinfo (openOp k kVersionedHash d)) = int (card (dom m))"
      "fieldsOf (sa_view api st) kVersionedHash k = m" "finite (dom m)"
    unfolding valueOf_def by metis
  let ?op = "openOp k kVersionedHash d" and ?m = "m |` (- set fs)" and ?c = "int (card (dom m \<inter> set fs))"
  let ?info = "(keyinfo ?op)\<lparr>startIndex := v\<rparr>"
  let ?st0 = "withTracker ((revisionTracker st)(k \<mapsto> forKey (revisionTracker st) k)) st"
  have rv0: "currentRevision (forKey (revisionTracker ?st0) k) = currentRevision (forKey (revisionTracker st) k)"
    by (simp add: forKey_def)
  from vhdelLoop_ok [of api ?st0 ?op k m 0 fs] ok d obtain st1
    where st1: "vhdelLoop api ?op k ?st0 0 fs = Some (?c, st1)"
      "within api (withTracker (revisionTracker st1) st) kVersionedHash k st1"
      "fieldsOf (sa_view api st1) kVersionedHash k = ?m" "inBatch api st1 k = inBatch api st k"
      "currentRevision (forKey (revisionTracker st1) k) = currentRevision (forKey (revisionTracker st) k)"
    unfolding rv0 [symmetric] by fastforce
  have ok1: "sa_ok api st1" by (rule within_ok [OF st1(2)])
  have t1: "trackOk api st1 k n" using t st1(4,5) by (simp add: trackOk_def)
  have c0: "?c = 0 \<longleftrightarrow> dom m \<inter> set fs = {}" using d(9) by simp
  have v': "v = (if ?c \<noteq> 0 \<and> \<not> inBatch api st1 k then n + 1 else n)"
    using v c0 st1(4) by (auto simp: nextVersion_def)
  have "v = nextVersion api st1 k n \<or> v = n" "v = n \<or> \<not> inBatch api st1 k"
    using v' by (auto simp: nextVersion_def)
  from setRevision_ok [OF t1 this] obtain r
    where r: "setRevisionNumber v (forKey (revisionTracker st1) k) = Some r" "currentRevision r = v" by blast
  let ?t = "(revisionTracker st1)(k \<mapsto> r)"
  have n: "int (card (dom m)) - ?c = int (card (dom ?m))" using card_dom_split [OF d(9), of "set fs"] by simp
  have "within api (withTracker ?t st) kVersionedHash k (withTracker ?t st1)"
    using st1(2) by (simp add: within_def)
  then have "finalizesTo api (withTracker ?t st) (withTracker ?t st1) (?op\<lparr>keyinfo := ?info\<rparr>)
      (int (card (dom m)) - ?c) True k (AVersionedHash v ?m)"
    using st k(1) d st1(3) lt n card_mono [OF d(9), of "dom ?m"]
    by (intro vhash_update) (auto simp: writable_def)
  then obtain op' st' where st': "wo_finalize api (withTracker ?t st1) (?op\<lparr>keyinfo := ?info\<rparr>)
      (int (card (dom m)) - ?c) True = Some (op', st')" "wo_destroy op' = Some ()"
      "updated api (withTracker ?t st) k (AVersionedHash v ?m) st'" "revisionTracker st' = ?t"
    by (auto elim!: finalizesToE)
  have "inBatch api st' k" using finalize_inBatch [OF _ st'(1)] ok1 d(3) by simp
  moreover from this have "trackOk api st' k v" using st'(4) r(2) by (simp add: trackOk_def forKey_def)
  moreover have "vhdel api st k fs = Some (OK, v, st')"
    using ok ok1 d st1(1) r(1) st'(1,2) v'
    by (cases "?c = 0"; cases "inBatch api st1 k")
      (auto simp: vhdel_def wo_keySize_def getSize_def descriptor_access Let_def setTracker_with)
  ultimately show ?thesis using st'(3) by auto
qed


subsection \<open>Versions and contents\<close>

lemma vhgetall_ok:
  assumes "sa_readable api st" "storeInv (sa_view api st)" "okKey k" "vhashOf (valueOf api st k) = Some (n, m)"
  shows "\<exists>es. sorted_wrt (<) (map fst es) \<and> set es = {(f, x). m f = Some x}
           \<and> vhgetall api st k = Some (OK, flat es, n)"
proof -
  from vhash_open [OF assms(2,3)] assms(4) obtain d where d: "descOf (sa_view api st) k = Some d"
      "descriptorEmpty d \<or> keyType d = kVersionedHash"
      "startIndex (keyinfo (openOp k kVersionedHash d)) = n" "fieldsOf (sa_view api st) kVersionedHash k = m"
    unfolding valueOf_def by metis
  show ?thesis
  proof (cases "descriptorEmpty d")
    case True
    then have "n = 0" "m = Map.empty"
      using assms(4) absVal_cases(1) [OF assms(2,3) d(1)] by (auto simp: valueOf_def)
    with True d(1) assms(1) show ?thesis
      by (intro exI [of _ "[]"]) (simp add: vhgetall_def)
  next
    case False
    let ?es = "iterFields api st (fieldPrefix kVersionedHash k)"
    have "sorted_wrt (<) (map fst ?es)" "set ?es = {(f, x). m f = Some x}"
      using iterFields_sorted [OF assms(1)] set_iterFields [OF assms(1)] d(4) by simp_all
    with False d assms(1) show ?thesis
      by (intro exI [of _ ?es]) (simp add: vhgetall_def descriptor_access)
  qed
qed

text \<open>
  A deletion that finds nothing does not count a version but marks the key as modified, so a
  later change in the same transaction does not count one either: the contents change under an
  unchanged version.
\<close>

lemma vhdel_hides_change:
  assumes "ready api st" "okKey k" "vhashOf (valueOf api st k) = Some (n, m)" "trackOk api st k n"
    and "\<not> inBatch api st k" "g \<notin> dom m" "card (dom m) + 1 < 2 ^ 63"
  shows "\<exists>st1 st2. vhdel api st k [g] = Some (OK, n, st1) \<and> vhset api st1 k f x = Some (OK, n, st2)
           \<and> valueOf api st2 k = AVersionedHash n (m(f \<mapsto> x))"
proof -
  from vhdel_ok [OF assms(1-4), of n "[g]"] assms(6,7) obtain st1
    where st1: "vhdel api st k [g] = Some (OK, n, st1)" "updated api st k (AVersionedHash n (m |` (- {g}))) st1"
      "inBatch api st1 k" "trackOk api st1 k n"
    by auto
  have "m |` (- {g}) = m" using assms(6) by (auto simp: restrict_map_def fun_eq_iff domIff)
  then have val: "vhashOf (valueOf api st1 k) = Some (n, m)"
    using updated_valueOf [OF st1(2) assms(2)] by simp
  from vhset_ok [OF updated_ready [OF st1(2)] assms(2) val st1(4) assms(7) refl, of f x] st1(3) obtain st2
    where "vhset api st1 k f x = Some (OK, n, st2)" "updated api st1 k (AVersionedHash n (m(f \<mapsto> x))) st2"
    by (auto simp: nextVersion_def)
  with st1(1) updated_valueOf [OF _ assms(2)] show ?thesis by (metis (full_types))
qed

end
