(* ===== verification/StateMachines.thy ===== *)
theory StateMachines
  imports SetOps LocalityOps DequeOps VersionedHashOps
begin

text \<open>
  Opening, committing, restarting and resetting the state machine (\<^verbatim>\<open>src/src/StateMachine.cc\<close>).

  The state machine keeps its format, the bulk-load flag, the clock and the index of the last
  applied log entry in the same key space as the data; \<open>smInv\<close> says that they are there and agree
  with the members of the object.  Commands run in a staging area that is then committed under a
  log index (\<open>chain\<close>, the macro \<open>CHAIN\<close>).
\<close>

subsection \<open>Opening\<close>

text \<open>A write to the database itself, outside any staging area.\<close>

definition dbPut ::
  "('db, 'wb) rocksdb \<Rightarrow> 'db state_machine \<Rightarrow> bytes \<Rightarrow> bytes \<Rightarrow> 'db state_machine option" where
  "dbPut api sm key val = do {
     let (ok, db') = db_put api (sm_db sm) key val;
     assert_that ok;
     Some (sm\<lparr>sm_db := db'\<rparr>) }"

definition ensureClockSanity ::
  "('db, 'wb) rocksdb \<Rightarrow> nat \<Rightarrow> bool \<Rightarrow> 'db state_machine \<Rightarrow> 'db state_machine option" where
  "ensureClockSanity api now justCreated sm = do {
     let st = db_get api (sm_db sm) kStateMachine_Clock;
     sm \<leftarrow> (if justCreated then do {
               assert_that (st = GetNotFound);
               dbPut api sm kStateMachine_Clock (unsignedIntToBinaryString 0) }
             else if st = GetNotFound
             then dbPut api sm kStateMachine_Clock (unsignedIntToBinaryString 0)
             else Some sm);
     val \<leftarrow> throw_on_error (db_get api (sm_db sm) kStateMachine_Clock);
     assert_that (length val = 8);
     Some (sm\<lparr>timeKeeper := tk_reset now (binaryStringToUnsignedInt val) (timeKeeper sm)\<rparr>) }"

definition ensureBulkloadSanity ::
  "('db, 'wb) rocksdb \<Rightarrow> bool \<Rightarrow> 'db state_machine \<Rightarrow> 'db state_machine option" where
  "ensureBulkloadSanity api justCreated sm = do {
     let st = db_get api (sm_db sm) kStateMachine_InBulkload;
     if justCreated then do {
       assert_that (st = GetNotFound);
       dbPut api sm kStateMachine_InBulkload (boolToString (sm_bulkLoad sm)) }
     else do {
       sm \<leftarrow> (if st = GetNotFound then dbPut api sm kStateMachine_InBulkload (boolToString False)
               else Some sm);
       inBulkload \<leftarrow> throw_on_error (db_get api (sm_db sm) kStateMachine_InBulkload);
       assert_that (inBulkload = boolToString False);
       Some sm } }"

definition ensureCompatibleFormat ::
  "('db, 'wb) rocksdb \<Rightarrow> bool \<Rightarrow> 'db state_machine \<Rightarrow> 'db state_machine option" where
  "ensureCompatibleFormat api justCreated sm = do {
     let currentFormat = ''0'';
     let st = db_get api (sm_db sm) kStateMachine_Format;
     if justCreated then do {
       assert_that (st = GetNotFound);
       dbPut api sm kStateMachine_Format currentFormat }
     else do {
       format \<leftarrow> throw_on_error st;
       assert_that (format = currentFormat);
       Some sm } }"

definition retrieveLastApplied ::
  "('db, 'wb) rocksdb \<Rightarrow> 'db state_machine \<Rightarrow> 'db state_machine option" where
  "retrieveLastApplied api sm =
     (case db_get api (sm_db sm) kStateMachine_LastApplied of
        GetOk tmp \<Rightarrow> Some (sm\<lparr>lastApplied := binaryStringToInt tmp\<rparr>)
      | GetNotFound \<Rightarrow>
          dbPut api (sm\<lparr>lastApplied := 0\<rparr>) kStateMachine_LastApplied (intToBinaryString 0)
      | GetError \<Rightarrow> None)"

text \<open>The constructor; \<open>db\<close> is the database \<open>rocksdb::DB::Open\<close> returns.\<close>

definition openStateMachine ::
  "('db, 'wb) rocksdb \<Rightarrow> nat \<Rightarrow> 'db \<Rightarrow> bool \<Rightarrow> bool \<Rightarrow> bool \<Rightarrow> 'db state_machine option" where
  "openStateMachine api now db dirExists write_ahead_log bulk_load = do {
     assert_that (\<not> (bulk_load \<and> dirExists));
     let sm = \<lparr>sm_db = db, sm_bulkLoad = bulk_load, sm_writeAheadLog = write_ahead_log \<and> \<not> bulk_load,
               lastApplied = 0, mExpirationCache = emptyCache, timeKeeper = newTimekeeper now 0\<rparr>;
     sm \<leftarrow> ensureCompatibleFormat api (\<not> dirExists) sm;
     sm \<leftarrow> ensureBulkloadSanity api (\<not> dirExists) sm;
     sm \<leftarrow> ensureClockSanity api now (\<not> dirExists) sm;
     sm \<leftarrow> loadExpirationCache api sm;
     retrieveLastApplied api sm }"

text \<open>\<open>reset\<close>: the iterator sees the database as it was before the first deletion.\<close>

fun deleteKeys :: "('db, 'wb) rocksdb \<Rightarrow> (bytes \<times> bytes) list \<Rightarrow> 'db \<Rightarrow> 'db" where
  "deleteKeys api [] db = db"
| "deleteKeys api (e # es) db = deleteKeys api es (snd (db_delete api db (fst e)))"

definition sm_reset ::
  "('db, 'wb) rocksdb \<Rightarrow> nat \<Rightarrow> 'db state_machine \<Rightarrow> 'db state_machine option" where
  "sm_reset api now sm = do {
     let sm = sm\<lparr>sm_db := deleteKeys api (db_iter api (sm_db sm) []) (sm_db sm)\<rparr>;
     sm \<leftarrow> ensureCompatibleFormat api True sm;
     sm \<leftarrow> ensureBulkloadSanity api True sm;
     sm \<leftarrow> ensureClockSanity api now True sm;
     retrieveLastApplied api sm }"

definition sm_getClock :: "('db, 'wb) rocksdb \<Rightarrow> 'db state_machine \<Rightarrow> u64 option" where
  "sm_getClock api sm = getClock api (newStagingArea api sm True)"

definition hardSynchronizeDynamicClock ::
  "('db, 'wb) rocksdb \<Rightarrow> nat \<Rightarrow> 'db state_machine \<Rightarrow> 'db state_machine option" where
  "hardSynchronizeDynamicClock api now sm = do {
     syncPoint \<leftarrow> sm_getClock api sm;
     tk \<leftarrow> tk_synchronize now syncPoint (timeKeeper sm);
     Some (sm\<lparr>timeKeeper := tk\<rparr>) }"

definition getDynamicClock :: "nat \<Rightarrow> 'db state_machine \<Rightarrow> u64" where
  "getDynamicClock now sm = getDynamicTime now (timeKeeper sm)"

definition forceResetLastApplied ::
  "('db, 'wb) rocksdb \<Rightarrow> int \<Rightarrow> 'db state_machine \<Rightarrow> 'db state_machine option" where
  "forceResetLastApplied api newLastApplied sm = do {
     sm \<leftarrow> dbPut api sm kStateMachine_LastApplied (intToBinaryString newLastApplied);
     Some (sm\<lparr>lastApplied := newLastApplied\<rparr>) }"

subsection \<open>One command per transaction\<close>

definition chain ::
  "('db, 'wb) rocksdb \<Rightarrow> 'db state_machine \<Rightarrow> int
    \<Rightarrow> (('db, 'wb) staging \<Rightarrow> ('r \<times> ('db, 'wb) staging) option) \<Rightarrow> ('r \<times> 'db state_machine) option" where
  "chain api sm index func = do {
     (r, st) \<leftarrow> func (newStagingArea api sm False);
     sm' \<leftarrow> sa_commit api st index;
     Some (r, sm') }"

definition chain_read ::
  "('db, 'wb) rocksdb \<Rightarrow> 'db state_machine \<Rightarrow> (('db, 'wb) staging \<Rightarrow> 'r option) \<Rightarrow> 'r option" where
  "chain_read api sm func = func (newStagingArea api sm True)"

definition noop :: "('db, 'wb) rocksdb \<Rightarrow> 'db state_machine \<Rightarrow> int \<Rightarrow> 'db state_machine option" where
  "noop api sm index = sa_commit api (newStagingArea api sm False) index"

definition sm_advanceClock ::
  "('db, 'wb) rocksdb \<Rightarrow> 'db state_machine \<Rightarrow> u64 \<Rightarrow> int \<Rightarrow> 'db state_machine option" where
  "sm_advanceClock api sm newValue index = do {
     st \<leftarrow> advanceClock api (newStagingArea api sm False) newValue;
     sa_commit api st index }"

definition lease_get_pending_expiration_events ::
  "('db, 'wb) rocksdb \<Rightarrow> nat \<Rightarrow> ('db, 'wb) staging \<Rightarrow> (u64 \<times> u64 \<times> (u64 \<times> bytes) list) option" where
  "lease_get_pending_expiration_events api now st = do {
     clk \<leftarrow> getClock api st;
     events \<leftarrow> expirationEvents api st;
     Some (clk, getDynamicClock now (stateMachine st), events) }"

subsection \<open>Invariant of the object\<close>

definition smInv :: "('db, 'wb) rocksdb \<Rightarrow> 'db state_machine \<Rightarrow> u64 \<Rightarrow> bool" where
  "smInv api sm clk \<longleftrightarrow>
     \<not> sm_bulkLoad sm \<and> leaseReady api (newStagingArea api sm False) clk"

lemma newStagingArea_simps [simp]:
  "stateMachine (newStagingArea api sm ro) = sm" "bulkLoad (newStagingArea api sm ro) = sm_bulkLoad sm"
  "readOnly (newStagingArea api sm ro) = ro" "revisionTracker (newStagingArea api sm ro) = Map.empty"
  "expirationCache (newStagingArea api sm ro) = mExpirationCache sm"
  by (simp_all add: newStagingArea_def expirationCache_def)

lemma newStagingArea_readable:
  "rocksdb_laws api \<Longrightarrow> \<not> sm_bulkLoad sm \<Longrightarrow> sa_readable api (newStagingArea api sm ro)"
  by (simp add: sa_readable_def newStagingArea_def)

lemma newStagingArea_view:
  assumes "rocksdb_laws api" "\<not> sm_bulkLoad sm"
  shows "sa_view api (newStagingArea api sm ro) = db_view api sm"
  using assms rocksdb_lawsD(8) [OF assms(1)]
  by (auto simp: fun_eq_iff sa_view_def sa_get_def db_view_def newStagingArea_def snapshotGet_def)

lemma smInvD:
  assumes "smInv api sm clk"
  shows "\<not> sm_bulkLoad sm" "leaseReady api (newStagingArea api sm False) clk" "rocksdb_laws api"
    and "metaInv (db_view api sm) (lastApplied sm)" "sa_view api (newStagingArea api sm ro) = db_view api sm"
    and "sa_ok api (newStagingArea api sm False)"
proof -
  show a: "\<not> sm_bulkLoad sm" "leaseReady api (newStagingArea api sm False) clk"
    using assms by (simp_all add: smInv_def)
  then show b: "rocksdb_laws api" using sa_laws leaseReadyD(2) by blast
  from a b show v: "sa_view api (newStagingArea api sm ro) = db_view api sm" for ro
    by (simp add: newStagingArea_view)
  show "metaInv (db_view api sm) (lastApplied sm)" using leaseReadyD(9) [OF a(2)] v by simp
  from a b show "sa_ok api (newStagingArea api sm False)"
    by (simp add: sa_ok_def)
qed

text \<open>A store in which no key has a value.\<close>

lemma storeInv_blank:
  assumes "\<And>x. \<not> unowned x \<Longrightarrow> v x = None"
  shows "storeInv v" "absVal v k = ANone"
proof -
  have d: "descOf v k = Some emptyDescriptor" for k
  proof -
    have "\<not> unowned (descriptorLocator k)" by (auto simp: unowned_def)
    then have "v (descriptorLocator k) = None" by (rule assms)
    then show ?thesis by (simp add: descOf_def constructDescriptor_def)
  qed
  have own: "v x = None" if "owned kt k x" for kt k x
    using that by (intro assms) (auto simp: unowned_def)
  have "part kt v k emptyDescriptor" for kt k
  proof -
    have "part kt v k emptyDescriptor = part kt Map.empty k emptyDescriptor"
      by (rule part_cong) (simp_all add: own)
    also have "\<dots>" by (cases kt) (simp_all add: part_def countedFields_def fieldsOf_def emptyDescriptor_def)
    finally show ?thesis .
  qed
  with d show "storeInv v" by (simp add: storeInv_def keyInv_def)
  from d show "absVal v k = ANone" by (simp add: absVal_def emptyDescriptor_def)
qed

subsection \<open>Commits\<close>

lemma commitTransaction_ok:
  assumes "rocksdb_laws api" "index = lastApplied sm + 1 \<or> index \<le> 0 \<and> lastApplied sm = 0" "0 \<le> lastApplied sm"
  shows "\<exists>db'. commitTransaction api sm wb index
             = Some (sm\<lparr>sm_db := db', lastApplied := (if 0 < index then index else lastApplied sm)\<rparr>)
       \<and> (\<forall>x. db_get api db' x = (if 0 < index \<and> x = kStateMachine_LastApplied
               then GetOk (intToBinaryString index) else wb_get_db api (sm_db sm) wb x))"
  using assms rocksdb_lawsD(6,7,10,12) [OF assms(1)]
  by (auto simp: commitTransaction_def Let_def case_prod_beta)

lemma leaseReady_cong:
  assumes "leaseReady api st clk" "sa_ok api st'" "expirationCache st' = expirationCache st"
    and "\<And>x. \<not> unowned x \<or> x = kStateMachine_Clock \<Longrightarrow> sa_view api st' x = sa_view api st x"
    and "metaInv (sa_view api st') (lastApplied (stateMachine st'))" "\<not> sm_bulkLoad (stateMachine st')"
  shows "leaseReady api st' clk" "valueOf api st' k = valueOf api st k"
proof -
  have d: "descOf (sa_view api st') k = descOf (sa_view api st) k" for k
    using assms(4) by (intro descOf_cong) (auto simp: unowned_def)
  have own: "sa_view api st' x = sa_view api st x" if "owned kt k x" for kt k x
    using that assms(4) by (auto simp: unowned_def)
  have "part kt (sa_view api st') k e = part kt (sa_view api st) k e" for kt k e
    using own by (intro part_cong) auto
  then have "storeInv (sa_view api st') = storeInv (sa_view api st)"
    by (simp add: storeInv_def keyInv_def d)
  moreover have "sa_view api st' (expirationEventLocator t k) = sa_view api st (expirationEventLocator t k)" for t k
    by (rule own) simp
  ultimately show "leaseReady api st' clk"
    using leaseReadyD [OF assms(1)] assms by (simp add: leaseReady_def leaseInv_def ready_def)
  show "valueOf api st' k = valueOf api st k"
    unfolding valueOf_def using own d by (intro absVal_cong) auto
qed

lemma sa_commit_ok:
  assumes st: "leaseReady api st clk"
    and index: "index = lastApplied (stateMachine st) + 1 \<or> index = 0 \<and> lastApplied (stateMachine st) = 0"
      "int64 index"
  shows "\<exists>sm'. sa_commit api st index = Some sm' \<and> smInv api sm' clk \<and> lastApplied sm' = index
      \<and> db_view api sm' = (sa_view api st)(kStateMachine_LastApplied \<mapsto> intToBinaryString index)
      \<and> (\<forall>k. absVal (db_view api sm') k = valueOf api st k)"
proof -
  let ?sm = "stateMachine st"
  note D = leaseReadyD [OF st]
  have laws: "rocksdb_laws api" using D(2) by (rule sa_laws)
  have n: "0 \<le> lastApplied ?sm" using D(9) by (simp add: metaInv_def)
  from commitTransaction_ok [OF laws _ n, of index "writeBatchWithIndex st"] index
  obtain db' where c: "commitTransaction api ?sm (writeBatchWithIndex st) index
        = Some (?sm\<lparr>sm_db := db', lastApplied := (if 0 < index then index else lastApplied ?sm)\<rparr>)"
    and g: "\<And>x. db_get api db' x = (if 0 < index \<and> x = kStateMachine_LastApplied
               then GetOk (intToBinaryString index) else wb_get_db api (sm_db ?sm) (writeBatchWithIndex st) x)"
    by auto
  define sm' where "sm' = ?sm\<lparr>sm_db := db', lastApplied := (if 0 < index then index else lastApplied ?sm)\<rparr>"
  have la: "lastApplied sm' = index" using index(1) n by (auto simp: sm'_def)
  have commit: "sa_commit api st index = Some sm'"
    using c D(2) by (simp add: sa_commit_def sa_ok_def sm'_def)
  have view: "db_view api sm' = (sa_view api st)(kStateMachine_LastApplied \<mapsto> intToBinaryString index)"
  proof
    fix x
    have "0 < index \<or> index = lastApplied ?sm" using index(1) n by auto
    then show "db_view api sm' x = ((sa_view api st)(kStateMachine_LastApplied \<mapsto> intToBinaryString index)) x"
      using D(2,9) by (auto simp: db_view_def sm'_def g found_def sa_view_def sa_get_def sa_ok_def metaInv_def)
  qed
  have bulk': "\<not> sm_bulkLoad sm'" using D(10) by (simp add: sm'_def)
  have view': "sa_view api (newStagingArea api sm' False) = db_view api sm'"
    by (rule newStagingArea_view [OF laws bulk'])
  have ok: "sa_ok api (newStagingArea api sm' False)" using laws bulk' by (simp add: sa_ok_def)
  have cache: "expirationCache (newStagingArea api sm' False) = expirationCache st"
    by (simp add: expirationCache_def sm'_def)
  have same: "sa_view api (newStagingArea api sm' False) x = sa_view api st x"
    if "\<not> unowned x \<or> x = kStateMachine_Clock" for x
    using that by (auto simp: view' view)
  have "metaInv (db_view api sm') (lastApplied sm')"
    using D(9) index(2) la n index(1) by (auto simp: metaInv_def view)
  then have m: "metaInv (sa_view api (newStagingArea api sm' False)) (lastApplied (stateMachine (newStagingArea api sm' False)))"
      "\<not> sm_bulkLoad (stateMachine (newStagingArea api sm' False))"
    using bulk' by (simp_all add: view')
  have "smInv api sm' clk"
    using leaseReady_cong(1) [OF st ok cache same m] bulk' by (simp add: smInv_def)
  moreover have "absVal (db_view api sm') k = valueOf api st k" for k
    using leaseReady_cong(2) [OF st ok cache same m, of k] by (simp add: valueOf_def view')
  ultimately show ?thesis using commit la view by blast
qed

subsection \<open>Crashes\<close>

text \<open>The process may die now: what is found afterwards is what is there.\<close>

definition crashSafe :: "('db, 'wb) rocksdb \<Rightarrow> 'db \<Rightarrow> bool" where
  "crashSafe api d \<longleftrightarrow> (\<forall>k. db_get api (db_recover api d) k = db_get api d k)"

lemma sa_commit_crashSafe:
  assumes "sa_ok api st" "sm_writeAheadLog (stateMachine st)" "crashSafe api (sm_db (stateMachine st))"
    and "sa_commit api st index = Some sm"
  shows "crashSafe api (sm_db sm)"
proof -
  have laws: "rocksdb_laws api" using assms(1) by (rule sa_laws)
  let ?opts = "\<lparr>opt_sync = False, opt_disableWAL = False\<rparr>"
  obtain wb where "sm_db sm = snd (db_write api ?opts (sm_db (stateMachine st)) wb)"
    using assms(1,2,4)
    by (auto simp: sa_commit_def sa_ok_def commitTransaction_def assert_that_def case_prod_beta Let_def split: if_splits)
  then show ?thesis
    using assms(3) rocksdb_lawsD(7) [OF laws] rocksdb_crashD(3) [OF laws] rocksdb_crashD(4) [OF laws, of "db_recover api (sm_db (stateMachine st))"]
    by (simp add: crashSafe_def)
qed

lemma smInv_recovered:
  assumes "smInv api sm clk" "crashSafe api (sm_db sm)"
  shows "smInv api (sm\<lparr>sm_db := db_recover api (sm_db sm)\<rparr>) clk"
    and "db_view api (sm\<lparr>sm_db := db_recover api (sm_db sm)\<rparr>) = db_view api sm"
proof -
  let ?sm = "sm\<lparr>sm_db := db_recover api (sm_db sm)\<rparr>"
  note D = smInvD [OF assms(1)]
  show v: "db_view api ?sm = db_view api sm" using assms(2) by (simp add: db_view_def [abs_def] crashSafe_def)
  have b: "\<not> sm_bulkLoad sm" using assms(1) by (simp add: smInv_def)
  have view: "sa_view api (newStagingArea api ?sm False) = sa_view api (newStagingArea api sm False)"
    using newStagingArea_view [OF D(3), of ?sm False] newStagingArea_view [OF D(3) b] b v by simp
  have "leaseReady api (newStagingArea api ?sm False) clk"
  proof (rule leaseReady_cong(1) [OF D(2)])
    show "sa_ok api (newStagingArea api ?sm False)" using D(3) b by (simp add: sa_ok_def)
    show "metaInv (sa_view api (newStagingArea api ?sm False)) (lastApplied (stateMachine (newStagingArea api ?sm False)))"
      using leaseReadyD(9) [OF D(2)] by (simp add: view)
  qed (simp_all add: view b)
  then show "smInv api ?sm clk" using b by (simp add: smInv_def)
qed

lemma sa_commit_rejects:
  assumes "sa_ok api st" "index \<noteq> lastApplied (stateMachine st) + 1" "0 < index \<or> 0 < lastApplied (stateMachine st)"
  shows "sa_commit api st index = None"
  using assms by (auto simp: sa_commit_def sa_ok_def commitTransaction_def)

subsection \<open>Reloading the expiration cache\<close>

lemma less_append_same_length:
  "length x = length y \<Longrightarrow> x < y \<Longrightarrow> x @ a < y @ (b :: bytes)"
  by (induction x y rule: list_induct2) auto

lemma event_key_order:
  assumes "expirationEventLocator t k \<le> expirationEventLocator t' k'"
  shows "t \<le> t'"
proof (rule ccontr)
  assume "\<not> t \<le> t'"
  then have "unsignedIntToBinaryString t' < unsignedIntToBinaryString t" by simp
  then have "expirationEventLocator t' k' < expirationEventLocator t k"
    using less_append_same_length [of "unsignedIntToBinaryString t'" "unsignedIntToBinaryString t"]
    by (simp add: expirationEventLocator_def)
  with assms show False by simp
qed

lemma event_decode [simp]:
  "eventDeadline (expirationEventLocator t k) = t" "eventRedisKey (expirationEventLocator t k) = k"
  by (simp_all add: eventDeadline_def eventRedisKey_def expirationEventLocator_def)

definition decodeEvent :: "bytes \<times> bytes \<Rightarrow> u64 \<times> bytes" where
  "decodeEvent e = (eventDeadline (fst e), eventRedisKey (fst e))"

lemma iterateEvents_ok:
  assumes "sorted_wrt (<) (map fst es)"
    and "\<And>x. x \<in> set (map fst es) \<Longrightarrow> prefix [kExpirationEvent] x \<Longrightarrow>
           \<exists>t k. x = expirationEventLocator t k \<and> d \<le> t"
  shows "iterateEvents d es = Some (map decodeEvent (takeWhile (\<lambda>e. prefix [kExpirationEvent] (fst e)) es))"
  using assms
proof (induction es arbitrary: d)
  case Nil
  then show ?case by simp
next
  case (Cons e es)
  show ?case
  proof (cases "prefix [kExpirationEvent] (fst e)")
    case False
    then have "fst e = [] \<or> fst e ! 0 \<noteq> kExpirationEvent" by (cases "fst e") auto
    with False show ?thesis by simp
  next
    case True
    with Cons.prems(2) [of "fst e"] obtain t k where e: "fst e = expirationEventLocator t k" "d \<le> t" by auto
    have "iterateEvents t es = Some (map decodeEvent (takeWhile (\<lambda>e. prefix [kExpirationEvent] (fst e)) es))"
    proof (rule Cons.IH)
      show "sorted_wrt (<) (map fst es)" using Cons.prems(1) by simp
      fix x assume x: "x \<in> set (map fst es)" "prefix [kExpirationEvent] x"
      with Cons.prems(2) [of x] obtain t' k' where t': "x = expirationEventLocator t' k'" by auto
      have "fst e \<le> x" using Cons.prems(1) x(1) by (auto simp: less_imp_le)
      with e t' event_key_order show "\<exists>t' k'. x = expirationEventLocator t' k' \<and> t \<le> t'" by auto
    qed
    moreover have "fst e \<noteq> []" "fst e ! 0 = kExpirationEvent" using True by (cases "fst e"; simp)+
    ultimately show ?thesis using True e by (simp add: decodeEvent_def)
  qed
qed

lemma insertEvents_ok:
  assumes "cacheInv c" "distinct (map snd es)" "snd ` set es \<inter> snd ` set (mContents c) = {}"
  shows "\<exists>c'. insertEvents es c = Some c' \<and> cacheInv c' \<and> set (mContents c') = set (mContents c) \<union> set es"
  using assms
proof (induction es arbitrary: c)
  case (Cons e es)
  then obtain c1 where c1: "cacheInsert (fst e) (snd e) c = Some c1" "cacheInv c1"
      "set (mContents c1) = insert (fst e, snd e) (set (mContents c))"
    using cacheInsert_ok [of c "snd e" "fst e"] by auto
  with Cons.IH [OF c1(2)] Cons.prems show ?case by auto
qed simp

text \<open>The events an iteration yields, and the cache a restart loads from them.\<close>

lemma expirationEvents_ok:
  assumes "sa_readable api st" "metaInv (sa_view api st) n"
  shows "\<exists>es. expirationEvents api st = Some es \<and> distinct es
    \<and> (\<forall>t k. (t, k) \<in> set es \<longleftrightarrow> sa_view api st (expirationEventLocator t k) \<noteq> None)"
proof -
  let ?p = "[kExpirationEvent]"
  define xs where "xs = sar.scan api st ?p"
  have mem: "x \<in> set (map fst (sa_iter api st ?p)) \<Longrightarrow> sa_view api st x \<noteq> None" for x
    using sar.iter_view [OF assms(1), of ?p] by (auto simp: iterates_def)
  have "iterateEvents 0 (sa_iter api st ?p)
      = Some (map decodeEvent (takeWhile (\<lambda>e. prefix ?p (fst e)) (sa_iter api st ?p)))"
  proof (rule iterateEvents_ok)
    show "sorted_wrt (<) (map fst (sa_iter api st ?p))"
      using sar.iter_view [OF assms(1), of ?p] by (simp add: iterates_def)
    fix x assume "x \<in> set (map fst (sa_iter api st ?p))" "prefix ?p x"
    with mem assms(2) show "\<exists>t k. x = expirationEventLocator t k \<and> 0 \<le> t"
      by (auto simp: metaInv_def)
  qed
  then have ev: "expirationEvents api st = Some (map decodeEvent xs)"
    by (simp add: expirationEvents_def xs_def sar.scan_def)
  have set: "set xs = {(k, v). prefix ?p k \<and> sa_view api st k = Some v}"
    unfolding xs_def by (rule sar.set_scan [OF assms(1)])
  have loc: "\<exists>t k. fst e = expirationEventLocator t k" if "e \<in> set xs" for e
  proof -
    have "prefix ?p (fst e) \<and> sa_view api st (fst e) \<noteq> None" using that unfolding set by auto
    with assms(2) show ?thesis unfolding metaInv_def by blast
  qed
  have inj: "fst e = fst e'" if "e \<in> set xs" "e' \<in> set xs" "decodeEvent e = decodeEvent e'" for e e'
    using loc [OF that(1)] loc [OF that(2)] that(3) by (auto simp: decodeEvent_def)
  have "distinct (map fst xs)"
    unfolding xs_def by (rule sar.distinct_scan [OF assms(1)])
  then have d: "distinct xs" "inj_on fst (set xs)" by (simp_all add: distinct_map)
  have "inj_on decodeEvent (set xs)"
    by (rule inj_onI) (rule inj_onD [OF d(2)], rule inj)
  with d(1) have "distinct (map decodeEvent xs)" by (simp add: distinct_map)
  moreover have "(t, k) \<in> set (map decodeEvent xs) \<longleftrightarrow> sa_view api st (expirationEventLocator t k) \<noteq> None" for t k
  proof
    assume "(t, k) \<in> set (map decodeEvent xs)"
    then obtain e where e: "e \<in> set xs" "decodeEvent e = (t, k)" by auto
    with loc [OF e(1)] have "fst e = expirationEventLocator t k" by (auto simp: decodeEvent_def)
    with e(1) show "sa_view api st (expirationEventLocator t k) \<noteq> None" unfolding set by auto
  next
    assume "sa_view api st (expirationEventLocator t k) \<noteq> None"
    then obtain y where "(expirationEventLocator t k, y) \<in> set xs"
      using set by (auto simp: expirationEventLocator_def)
    then show "(t, k) \<in> set (map decodeEvent xs)"
      unfolding set_map by (rule rev_image_eqI) (simp add: decodeEvent_def)
  qed
  ultimately show ?thesis using ev by blast
qed

text \<open>Two databases with the same contents; an object with the contents of one that satisfies the invariant.\<close>

lemma loadExpirationCache_ok:
  assumes sm: "smInv api sm clk"
    and db: "sm_db sm1 = sm_db sm" "\<not> sm_bulkLoad sm1" "mExpirationCache sm1 = emptyCache"
  shows "\<exists>c. loadExpirationCache api sm1 = Some (sm1\<lparr>mExpirationCache := c\<rparr>) \<and> cacheInv c
           \<and> set (mContents c) = set (mContents (mExpirationCache sm))"
proof -
  note D = smInvD [OF sm] and L = leaseReadyD [OF smInvD(2) [OF sm]]
  let ?st = "newStagingArea api sm1 False"
  have view: "sa_view api ?st = db_view api sm"
    using newStagingArea_view [OF D(3) db(2)] db(1) by (simp add: db_view_def [abs_def])
  from expirationEvents_ok [of api ?st "lastApplied sm"] newStagingArea_readable [OF D(3) db(2)] D(4) view
  obtain es where es: "expirationEvents api ?st = Some es" "distinct es"
    and mem: "\<And>t k. (t, k) \<in> set es \<longleftrightarrow> db_view api sm (expirationEventLocator t k) \<noteq> None"
    by fastforce
  have cache: "set es = set (mContents (mExpirationCache sm))"
    using L(5) mem D(5) [of False] by auto
  have "inj_on snd (set es)"
    using L(4) cache by (simp add: cacheInv_def distinct_map)
  then have "distinct (map snd es)" using es(2) by (simp add: distinct_map)
  with insertEvents_ok [of emptyCache es] obtain c where
    "insertEvents es emptyCache = Some c" "cacheInv c" "set (mContents c) = set es"
    by (auto simp: emptyCache_def cacheInv_def)
  with es(1) cache db(3) show ?thesis by (auto simp: loadExpirationCache_def)
qed

subsection \<open>Restart, first start and reset\<close>

lemma laws_get_ok: "rocksdb_laws api \<Longrightarrow> db_view api sm k = Some v \<longleftrightarrow> db_get api (sm_db sm) k = GetOk v"
  using rocksdb_lawsD(1) [of api "sm_db sm" k] by (auto simp: db_view_def found_def)

lemma laws_get_notfound: "rocksdb_laws api \<Longrightarrow> db_view api sm k = None \<longleftrightarrow> db_get api (sm_db sm) k = GetNotFound"
  using rocksdb_lawsD(1) [of api "sm_db sm" k] by (metis db_view_def found_status_of status_of_simps(3))

text \<open>
  Restart: opening the database of a state machine that satisfies the invariant gives an object
  with the same contents, the same last applied index, the same pending leases, the invariant,
  and a dynamic clock that starts at the stored clock.
\<close>

lemma restart_ok:
  assumes "smInv api sm clk"
  shows "\<exists>sm'. openStateMachine api now (sm_db sm) True wal False = Some sm' \<and> smInv api sm' clk
    \<and> sm_db sm' = sm_db sm \<and> lastApplied sm' = lastApplied sm \<and> getDynamicClock now sm' = clk
    \<and> set (mContents (mExpirationCache sm')) = set (mContents (mExpirationCache sm))"
proof -
  note D = smInvD [OF assms] and L = leaseReadyD [OF smInvD(2) [OF assms]]
  have meta: "db_get api (sm_db sm) kStateMachine_Format = GetOk ''0''"
      "db_get api (sm_db sm) kStateMachine_InBulkload = GetOk (boolToString False)"
      "db_get api (sm_db sm) kStateMachine_LastApplied = GetOk (intToBinaryString (lastApplied sm))"
      "db_get api (sm_db sm) kStateMachine_Clock = GetOk (unsignedIntToBinaryString clk)"
    using D(4) L(8) D(5) [of False] laws_get_ok [OF D(3), of sm] by (auto simp: metaInv_def)
  define sm1 where "sm1 = \<lparr>sm_db = sm_db sm, sm_bulkLoad = False, sm_writeAheadLog = wal, lastApplied = 0,
      mExpirationCache = emptyCache, timeKeeper = tk_reset now clk (newTimekeeper now 0)\<rparr>"
  from loadExpirationCache_ok [OF assms, of sm1] obtain c where c: "cacheInv c"
      "loadExpirationCache api sm1 = Some (sm1\<lparr>mExpirationCache := c\<rparr>)"
      "set (mContents c) = set (mContents (mExpirationCache sm))"
    by (auto simp: sm1_def)
  define sm' where "sm' = sm1\<lparr>mExpirationCache := c, lastApplied := lastApplied sm\<rparr>"
  have n: "int64 (lastApplied sm)" using D(4) by (simp add: metaInv_def)
  have "openStateMachine api now (sm_db sm) True wal False = Some sm'"
    using meta c(2) n
    by (simp add: openStateMachine_def ensureCompatibleFormat_def ensureBulkloadSanity_def Let_def
        ensureClockSanity_def retrieveLastApplied_def throw_on_error_def sm'_def sm1_def)
  moreover have "smInv api sm' clk"
  proof -
    have b: "\<not> sm_bulkLoad sm'" by (simp add: sm'_def sm1_def)
    have v: "db_view api sm' = db_view api sm"
      by (simp add: db_view_def [abs_def] sm'_def sm1_def)
    have view: "sa_view api (newStagingArea api sm' False) = db_view api sm"
      using newStagingArea_view [OF D(3) b] v by simp
    have "leaseReady api (newStagingArea api sm' False) clk"
      using L D(3) b D(5) [of False] c(1,3) view
      by (simp add: leaseReady_def leaseInv_def ready_def sa_ok_def) (simp add: sm'_def)
    with b show ?thesis by (simp add: smInv_def)
  qed
  ultimately show ?thesis
    using c(3) by (simp add: sm'_def sm1_def getDynamicClock_def getDynamicTime_def getTimeSinceAnchor_def
        tk_reset_def newTimekeeper_def)
qed

text \<open>A database that was just created holds nothing; the invariant holds after the constructor.\<close>

definition blankDb :: "('db, 'wb) rocksdb \<Rightarrow> 'db \<Rightarrow> bool" where
  "blankDb api db \<longleftrightarrow> (\<forall>k. db_get api db k = GetNotFound)"

lemma dbPut_Some:
  assumes "rocksdb_laws api"
  shows "\<exists>db'. dbPut api sm k v = Some (sm\<lparr>sm_db := db'\<rparr>)
    \<and> (\<forall>x. db_get api db' x = (if x = k then GetOk v else db_get api (sm_db sm) x))"
  using rocksdb_lawsD(4,5) [OF assms]
  by (intro exI [of _ "snd (db_put api (sm_db sm) k v)"]) (simp add: dbPut_def case_prod_beta)

definition freshView :: view where
  "freshView = [kStateMachine_Format \<mapsto> ''0'', kStateMachine_InBulkload \<mapsto> boolToString False,
     kStateMachine_Clock \<mapsto> unsignedIntToBinaryString 0, kStateMachine_LastApplied \<mapsto> intToBinaryString 0]"

text \<open>The three checks on a database that holds nothing, as in the constructor and in \<open>reset\<close>.\<close>

lemma ensure_fresh:
  assumes laws: "rocksdb_laws api" and blank: "blankDb api (sm_db sm)" and "\<not> sm_bulkLoad sm"
  shows "\<exists>db'. (do { sm \<leftarrow> ensureCompatibleFormat api True sm; sm \<leftarrow> ensureBulkloadSanity api True sm;
                     ensureClockSanity api now True sm })
             = Some (sm\<lparr>sm_db := db', timeKeeper := tk_reset now 0 (timeKeeper sm)\<rparr>)
       \<and> (\<forall>x. db_get api db' x = status_of (if x = kStateMachine_LastApplied then None else freshView x))"
proof -
  obtain d1 where d1: "dbPut api sm kStateMachine_Format ''0'' = Some (sm\<lparr>sm_db := d1\<rparr>)"
      "\<And>x. db_get api d1 x = (if x = kStateMachine_Format then GetOk ''0'' else GetNotFound)"
    using dbPut_Some [OF laws, of sm kStateMachine_Format "''0''"] blank by (auto simp: blankDb_def)
  let ?sm1 = "sm\<lparr>sm_db := d1\<rparr>"
  obtain d2 where d2: "dbPut api ?sm1 kStateMachine_InBulkload (boolToString False) = Some (sm\<lparr>sm_db := d2\<rparr>)"
      "\<And>x. db_get api d2 x = (if x = kStateMachine_InBulkload then GetOk (boolToString False) else db_get api d1 x)"
    using dbPut_Some [OF laws, of ?sm1 kStateMachine_InBulkload "boolToString False"] by auto
  let ?sm2 = "sm\<lparr>sm_db := d2\<rparr>"
  obtain d3 where d3: "dbPut api ?sm2 kStateMachine_Clock (unsignedIntToBinaryString 0) = Some (sm\<lparr>sm_db := d3\<rparr>)"
      "\<And>x. db_get api d3 x = (if x = kStateMachine_Clock then GetOk (unsignedIntToBinaryString 0) else db_get api d2 x)"
    using dbPut_Some [OF laws, of ?sm2 kStateMachine_Clock "unsignedIntToBinaryString 0"] by auto
  have "ensureCompatibleFormat api True sm = Some ?sm1" "ensureBulkloadSanity api True ?sm1 = Some ?sm2"
    using d1 d2 blank assms(3) by (simp_all add: ensureCompatibleFormat_def ensureBulkloadSanity_def blankDb_def)
  moreover have "ensureClockSanity api now True ?sm2
      = Some (sm\<lparr>sm_db := d3, timeKeeper := tk_reset now 0 (timeKeeper sm)\<rparr>)"
    using d1 d2 d3 by (simp add: ensureClockSanity_def throw_on_error_def Let_def)
  ultimately show ?thesis
    by (auto intro!: exI [of _ d3] simp: d1 d2 d3 freshView_def)
qed

lemma freshView_simps [simp]:
  "\<not> unowned x \<Longrightarrow> freshView x = None"
  "freshView (expirationEventLocator t k) = None"
  "metaInv freshView 0"
  by (auto simp: freshView_def metaInv_def int64_def split: if_splits)

lemma fresh_invariant:
  assumes "rocksdb_laws api" "\<not> sm_bulkLoad sm" "mExpirationCache sm = emptyCache" "lastApplied sm = 0"
    and "db_view api sm = freshView"
  shows "smInv api sm 0" "absVal (db_view api sm) k = ANone"
proof -
  have v: "sa_view api (newStagingArea api sm False) = freshView"
    using newStagingArea_view [OF assms(1,2)] assms(5) by simp
  have "leaseReady api (newStagingArea api sm False) 0"
    unfolding leaseReady_def leaseInv_def ready_def v
    using assms storeInv_blank(1) [of freshView]
    by (simp add: sa_ok_def) (simp add: emptyCache_def freshView_def)
  with assms show "smInv api sm 0" by (simp add: smInv_def)
  show "absVal (db_view api sm) k = ANone"
    using storeInv_blank(2) [of freshView] assms(5) by simp
qed

lemma first_start_ok:
  assumes "rocksdb_laws api" "blankDb api db"
  shows "\<exists>sm. openStateMachine api now db False wal False = Some sm \<and> smInv api sm 0
    \<and> lastApplied sm = 0 \<and> db_view api sm = freshView"
proof -
  define sm0 where "sm0 = \<lparr>sm_db = db, sm_bulkLoad = False, sm_writeAheadLog = wal,
      lastApplied = 0, mExpirationCache = emptyCache, timeKeeper = newTimekeeper now 0\<rparr>"
  from ensure_fresh [OF assms(1), of sm0 now] assms(2) obtain db' where
    e: "(do { sm \<leftarrow> ensureCompatibleFormat api True sm0; sm \<leftarrow> ensureBulkloadSanity api True sm;
              ensureClockSanity api now True sm })
        = Some (sm0\<lparr>sm_db := db', timeKeeper := tk_reset now 0 (timeKeeper sm0)\<rparr>)"
    and g: "\<And>x. db_get api db' x = status_of (if x = kStateMachine_LastApplied then None else freshView x)"
    by (auto simp: sm0_def)
  let ?sm1 = "sm0\<lparr>sm_db := db', timeKeeper := tk_reset now 0 (timeKeeper sm0)\<rparr>"
  have iter: "sa_iter api (newStagingArea api ?sm1 False) [kExpirationEvent] = es \<Longrightarrow> e \<in> set es \<Longrightarrow>
      \<not> prefix [kExpirationEvent] (fst e)" for es e
  proof -
    assume a: "sa_iter api (newStagingArea api ?sm1 False) [kExpirationEvent] = es" "e \<in> set es"
    have "sa_readable api (newStagingArea api ?sm1 False)"
      using assms(1) by (intro newStagingArea_readable) (simp_all add: sm0_def)
    from sar.iter_view [OF this, of "[kExpirationEvent]"] a
    have "sa_view api (newStagingArea api ?sm1 False) (fst e) = Some (snd e)"
      by (simp add: iterates_def) (metis prod.collapse)
    then have "db_view api ?sm1 (fst e) \<noteq> None"
      using newStagingArea_view [OF assms(1), of ?sm1] by (simp add: sm0_def)
    then have "freshView (fst e) \<noteq> None" by (auto simp: db_view_def g split: if_splits)
    then show "\<not> prefix [kExpirationEvent] (fst e)"
      by (auto simp: freshView_def split: if_splits)
  qed
  have "loadExpirationCache api ?sm1 = Some ?sm1"
  proof -
    have "iterateEvents 0 (sa_iter api (newStagingArea api ?sm1 False) [kExpirationEvent]) = Some []"
    proof (cases "sa_iter api (newStagingArea api ?sm1 False) [kExpirationEvent]")
      case (Cons e es)
      then have "\<not> prefix [kExpirationEvent] (fst e)" using iter by simp
      then have "fst e = [] \<or> fst e ! 0 \<noteq> kExpirationEvent" by (cases "fst e") auto
      with Cons show ?thesis by simp
    qed simp
    then show ?thesis by (simp add: loadExpirationCache_def expirationEvents_def)
  qed
  moreover obtain db'' where r: "retrieveLastApplied api ?sm1 = Some (?sm1\<lparr>sm_db := db''\<rparr>)"
    and g': "\<And>x. db_get api db'' x = status_of (freshView x)"
  proof -
    obtain d where "dbPut api ?sm1 kStateMachine_LastApplied (intToBinaryString 0) = Some (?sm1\<lparr>sm_db := d\<rparr>)"
      "\<And>x. db_get api d x = (if x = kStateMachine_LastApplied then GetOk (intToBinaryString 0) else db_get api db' x)"
      using dbPut_Some [OF assms(1), of ?sm1 kStateMachine_LastApplied "intToBinaryString 0"] by auto
    then show ?thesis
      by (intro that [of d]) (auto simp: retrieveLastApplied_def g sm0_def freshView_def)
  qed
  moreover have "db_view api (?sm1\<lparr>sm_db := db''\<rparr>) = freshView"
    by (simp add: db_view_def [abs_def] g')
  ultimately show ?thesis
    using e fresh_invariant(1) [OF assms(1), of "?sm1\<lparr>sm_db := db''\<rparr>"]
    by (simp add: openStateMachine_def sm0_def Let_def bind_assoc flip: bind_assoc)
qed

end
