(* ===== verification/MemStore.thy ===== *)
theory MemStore
  imports RocksStore
begin

text \<open>
  A concrete engine that satisfies \<open>rocksdb_laws\<close>: an association list for the database and the
  list of the written entries, newest first, for a batch.  It shows that the laws can hold, and
  the witnesses of the development evaluate the commands on it.
\<close>

type_synonym mem_db = "(bytes \<times> bytes) list"
type_synonym mem_wb = "(bytes \<times> bytes option) list"

definition mem_entries :: "mem_db \<Rightarrow> bytes \<Rightarrow> (bytes \<times> bytes) list" where
  "mem_entries d p =
     map (\<lambda>k. (k, the (map_of d k))) (filter (\<lambda>k. p \<le> k) (sort (remdups (map fst d))))"

fun mem_apply :: "bytes \<times> bytes option \<Rightarrow> mem_db \<Rightarrow> mem_db" where
  "mem_apply (k, Some v) d = (k, v) # d"
| "mem_apply (k, None) d = filter (\<lambda>e. fst e \<noteq> k) d"

definition mem_write :: "mem_db \<Rightarrow> mem_wb \<Rightarrow> mem_db" where
  "mem_write d w = foldr mem_apply w d"

definition memApi :: "(mem_db, mem_wb) rocksdb" where
  "memApi =
     \<lparr>db_get = (\<lambda>d k. status_of (map_of d k)),
      db_put = (\<lambda>d k v. (True, (k, v) # d)),
      db_delete = (\<lambda>d k. (True, filter (\<lambda>e. fst e \<noteq> k) d)),
      db_write = (\<lambda>opts d w. (True, mem_write d w)),
      db_recover = (\<lambda>d. d),
      db_iter = mem_entries,
      wb_empty = [],
      wb_put = (\<lambda>w k v. (True, (k, Some v) # w)),
      wb_delete = (\<lambda>w k. (True, (k, None) # w)),
      wb_single_delete = (\<lambda>w k. (True, (k, None) # w)),
      wb_get = (\<lambda>w k. status_of (Option.bind (map_of w k) id)),
      wb_get_db = (\<lambda>d w k. status_of (case map_of w k of Some v \<Rightarrow> v | None \<Rightarrow> map_of d k)),
      wb_iter = (\<lambda>d w. mem_entries (mem_write d w))\<rparr>"

lemma map_of_filter_fst: "map_of (filter (\<lambda>e. fst e \<noteq> k) d) x = (if x = k then None else map_of d x)"
  by (induction d) auto

lemma map_of_mem_write:
  "map_of (mem_write d w) x = (case map_of w x of Some v \<Rightarrow> v | None \<Rightarrow> map_of d x)"
proof (induction w)
  case (Cons e w)
  obtain k v where "e = (k, v)" by fastforce
  with Cons show ?case by (cases v) (auto simp: mem_write_def map_of_filter_fst)
qed (simp add: mem_write_def)

lemma iterates_mem_entries: "iterates (mem_entries d p) p (map_of d)"
proof -
  have "sorted_wrt (<) (filter (\<lambda>k. p \<le> k) (sort (remdups (map fst d))))"
    by (intro sorted_wrt_filter) (simp add: strict_sorted_iff)
  moreover have "(k, v) \<in> set (mem_entries d p) \<longleftrightarrow> p \<le> k \<and> map_of d k = Some v" for k v
  proof
    assume "(k, v) \<in> set (mem_entries d p)"
    then have "p \<le> k" "k \<in> fst ` set d" "v = the (map_of d k)" by (auto simp: mem_entries_def)
    then show "p \<le> k \<and> map_of d k = Some v" by (cases "map_of d k") (auto simp: map_of_eq_None_iff)
  next
    assume "p \<le> k \<and> map_of d k = Some v"
    moreover from this have "k \<in> fst ` set d" by (auto dest: map_of_SomeD intro: rev_image_eqI)
    ultimately show "(k, v) \<in> set (mem_entries d p)" by (simp add: mem_entries_def image_iff)
  qed
  ultimately show ?thesis
    by (simp add: iterates_def mem_entries_def comp_def)
qed

lemma memApi_access: "accessLaws memApi"
  unfolding accessLaws_def memApi_def
  using iterates_mem_entries [of "mem_write _ _", unfolded map_of_mem_write [abs_def]]
  by (auto simp: iterates_mem_entries map_of_mem_write map_of_filter_fst)

lemma memApi_laws [simp]: "rocksdb_laws memApi"
  using memApi_access unfolding rocksdb_laws_def crashLaws_def
  by (auto simp: memApi_def map_of_mem_write map_of_filter_fst status_of_def split: option.splits)

end
