(* ===== verification/SampleStore.thy ===== *)
theory SampleStore
  imports StateMachines MemStore
begin

text \<open>
  A concrete state machine on the engine of \<open>MemStore\<close>: the object and the database the
  constructor leaves after it has created a database.  The witnesses of the development apply the
  properties to it.
\<close>

definition sampleDb :: mem_db where
  "sampleDb = [(kStateMachine_LastApplied, intToBinaryString 0),
     (kStateMachine_Clock, unsignedIntToBinaryString 0),
     (kStateMachine_InBulkload, boolToString False), (kStateMachine_Format, ''0'')]"

definition sampleMachine :: "mem_db state_machine" where
  "sampleMachine = \<lparr>sm_db = sampleDb, sm_bulkLoad = False, sm_writeAheadLog = True, lastApplied = 0,
     mExpirationCache = emptyCache, timeKeeper = newTimekeeper 0 0\<rparr>"

definition sampleArea :: "(mem_db, mem_wb) staging" where
  "sampleArea = newStagingArea memApi sampleMachine False"

lemma sample_view: "db_view memApi sampleMachine = freshView"
  by (auto simp: db_view_def [abs_def] memApi_def sampleMachine_def sampleDb_def freshView_def)

lemma sample_smInv [simp]: "smInv memApi sampleMachine 0"
  by (rule fresh_invariant(1)) (simp_all add: sample_view, simp_all add: sampleMachine_def)

lemma sample_leaseReady [simp]: "leaseReady memApi sampleArea 0"
  using smInvD(2) [OF sample_smInv] by (simp add: sampleArea_def)

lemma sample_ready [simp]:
  "ready memApi sampleArea" "sa_ok memApi sampleArea" "sa_readable memApi sampleArea"
  "storeInv (sa_view memApi sampleArea)"
  using leaseReadyD(1-3) [OF sample_leaseReady] by auto

lemma sample_keys [simp]: "okKey ''lock''" "okKey ''h''" "okKey ''s''" "okKey ''t''" "okKey ''q''" "okKey ''k''" "okKey ''near''"
  by (simp_all add: okKey_def)

lemma sample_applied [simp]: "applied sampleArea = 0"
  by (simp add: sampleArea_def sampleMachine_def)

lemma sample_crashSafe:
  "sm_writeAheadLog (stateMachine sampleArea)" "crashSafe memApi (sm_db (stateMachine sampleArea))"
  by (simp_all add: sampleArea_def sampleMachine_def crashSafe_def memApi_def)

lemma sample_value [simp]: "valueOf memApi sampleArea k = ANone"
  using smInvD(5) [OF sample_smInv, of False] storeInv_blank(2) [of freshView k]
  by (simp add: valueOf_def sampleArea_def sample_view)

end
