(* ===== verification/StoreProperties.thy ===== *)
theory StoreProperties
  imports SampleStore
begin

text \<open>
  The properties of the state machine: what is committed survives a crash and is applied once, and
  each command has the effect its data type promises on the value of its key and none on the others.
  The values are those of \<open>StoreModel\<close>: \<open>updated api st k a st'\<close> says that \<open>k\<close> has the value \<open>a\<close>
  after the command, that all other keys have the value they had, and that the store is well formed.
\<close>

subsection \<open>Transactions\<close>

text \<open>
C7. With the write-ahead log on, committing a staging area at the next index succeeds, and
reopening the database after a crash of the process gives a well-formed state machine with that
last applied index and, for each key, the value the staging area had.
\<close>

theorem commit_durable:
  assumes "leaseReady api st clk" "index = lastApplied (stateMachine st) + 1" "int64 index"
    and "sm_writeAheadLog (stateMachine st)" "crashSafe api (sm_db (stateMachine st))"
  shows "\<exists>sm sm'. sa_commit api st index = Some sm \<and> crashSafe api (sm_db sm)
    \<and> openStateMachine api now (db_recover api (sm_db sm)) True wal False = Some sm'
    \<and> smInv api sm' clk \<and> lastApplied sm' = index \<and> (\<forall>k. absVal (db_view api sm') k = valueOf api st k)"
proof -
  from sa_commit_ok [OF assms(1), of index] assms(2,3) obtain sm where
    sm: "sa_commit api st index = Some sm" "smInv api sm clk" "lastApplied sm = index"
      "\<forall>k. absVal (db_view api sm) k = valueOf api st k"
    by auto
  have safe: "crashSafe api (sm_db sm)" by (rule sa_commit_crashSafe [OF leaseReadyD(2) [OF assms(1)] assms(4,5) sm(1)])
  note R = smInv_recovered [OF sm(2) safe]
  from restart_ok [OF R(1), of now wal] obtain sm' where
    sm': "openStateMachine api now (db_recover api (sm_db sm)) True wal False = Some sm'" "smInv api sm' clk"
      "sm_db sm' = db_recover api (sm_db sm)" "lastApplied sm' = lastApplied sm"
    by auto
  have "db_view api sm' = db_view api sm" using sm'(3) R(2) by (simp add: db_view_def [abs_def])
  with sm sm' safe show ?thesis by auto
qed

theorem commit_durable_witness:
  "\<exists>sm sm'. sa_commit memApi sampleArea 1 = Some sm \<and> crashSafe memApi (sm_db sm)
    \<and> openStateMachine memApi 5 (db_recover memApi (sm_db sm)) True True False = Some sm'
    \<and> smInv memApi sm' 0 \<and> lastApplied sm' = 1 \<and> (\<forall>k. absVal (db_view memApi sm') k = valueOf memApi sampleArea k)"
  by (rule commit_durable) (simp_all add: int64_def sample_crashSafe)

text \<open>
C8. After a commit at an index, a commit at any other index than the next is refused: an entry is
applied exactly once and in order.
\<close>

theorem commit_exactly_once:
  assumes "leaseReady api st clk" "index = lastApplied (stateMachine st) + 1" "int64 index"
  shows "\<exists>sm. sa_commit api st index = Some sm
    \<and> (\<forall>i. i \<noteq> index + 1 \<longrightarrow> sa_commit api (newStagingArea api sm False) i = None)"
proof -
  have n: "0 \<le> lastApplied (stateMachine st)" using leaseReadyD(9) [OF assms(1)] by (simp add: metaInv_def)
  from sa_commit_ok [OF assms(1), of index] assms(2,3) obtain sm where
    sm: "sa_commit api st index = Some sm" "smInv api sm clk" "lastApplied sm = index"
    by auto
  have "sa_commit api (newStagingArea api sm False) i = None" if "i \<noteq> index + 1" for i
    using that sm(3) n assms(2) by (intro sa_commit_rejects [OF smInvD(6) [OF sm(2)]]) auto
  with sm(1) show ?thesis by blast
qed

theorem commit_exactly_once_witness:
  "\<exists>sm. sa_commit memApi sampleArea 1 = Some sm
    \<and> (\<forall>i. i \<noteq> 2 \<longrightarrow> sa_commit memApi (newStagingArea memApi sm False) i = None)"
  using commit_exactly_once [OF sample_leaseReady, of 1] by (simp add: int64_def)

text \<open>
C31. Advancing the clock commits a state in which exactly the leases whose deadline has come are
gone.
\<close>

theorem clock_expires_leases:
  assumes "smInv api sm clk" "clk \<le> t" "index = lastApplied sm + 1" "int64 index"
  shows "\<exists>sm'. sm_advanceClock api sm t index = Some sm' \<and> smInv api sm' t \<and> lastApplied sm' = index
    \<and> (\<forall>k. okKey k \<longrightarrow> absVal (db_view api sm') k = expire t (absVal (db_view api sm) k))"
proof -
  note D = smInvD [OF assms(1)]
  from advanceClock_ok [OF D(2) assms(2)] obtain st where
    st: "advanceClock api (newStagingArea api sm False) t = Some st" "leaseReady api st t"
      "\<forall>k. okKey k \<longrightarrow> valueOf api st k = expire t (valueOf api (newStagingArea api sm False) k)"
      "lastApplied (stateMachine st) = lastApplied sm"
    by auto
  from sa_commit_ok [OF st(2), of index] assms(3,4) st(4) obtain sm' where
    "sa_commit api st index = Some sm'" "smInv api sm' t" "lastApplied sm' = index"
      "\<forall>k. absVal (db_view api sm') k = valueOf api st k"
    by auto
  with st show ?thesis by (auto simp: sm_advanceClock_def valueOf_def D(5))
qed

theorem clock_expires_leases_witness:
  "\<exists>sm'. sm_advanceClock memApi sampleMachine 100 1 = Some sm' \<and> smInv memApi sm' 100 \<and> lastApplied sm' = 1
    \<and> (\<forall>k. okKey k \<longrightarrow> absVal (db_view memApi sm') k = expire 100 (absVal (db_view memApi sampleMachine) k))"
  by (rule clock_expires_leases [OF sample_smInv]) (simp_all add: int64_def sampleMachine_def)

subsection \<open>Leases\<close>

theorem lease_acquire_spec:
  assumes "leaseReady api st clk" "okKey k" "x \<noteq> []" "length x < 2 ^ 63"
    and "now = max clk upd" "unat now + unat dur < 2 ^ 64" "0 < dur" "a = expire now (valueOf api st k)"
  shows "\<exists>info st'. lease_acquire api st k x upd dur = Some (acquireOutcome x a, info, st')
    \<and> leaseReady api st' now
    \<and> (\<forall>k'. okKey k' \<longrightarrow> valueOf api st' k' =
         (if k' = k then acquireValue x now (now + dur) a else expire now (valueOf api st k')))"
  using lease_acquire_ok [OF assms] by blast

theorem lease_acquire_spec_witness:
  "\<exists>info st'. lease_acquire memApi sampleArea ''lock'' ''holder'' 10 5 = Some (kAcquired, info, st')
    \<and> leaseReady memApi st' 10
    \<and> (\<forall>k'. okKey k' \<longrightarrow> valueOf memApi st' k' = 
         (if k' = ''lock'' then acquireValue ''holder'' 10 (10 + 5) ANone else expire 10 (valueOf memApi sampleArea k')))"
  using lease_acquire_spec [OF sample_leaseReady, of "''lock''" "''holder''" 10 10 5 ANone]
  by (simp only: acquireOutcome.simps) simp

text \<open>
C30. While a lease is held and has not expired no other client acquires it.
\<close>

theorem lease_exclusive:
  assumes st: "leaseReady api st clk" and k: "okKey k" and x: "x \<noteq> []" "length x < 2 ^ 63" and y: "y \<noteq> []" "length y < 2 ^ 63" "x \<noteq> y"
    and t: "clk \<le> t" "unat t + unat dur < 2 ^ 64" "0 < dur" and t': "t \<le> t'" "t' < t + dur" "unat t' + unat dur' < 2 ^ 64" "0 < dur'"
    and free: "expire t (valueOf api st k) = ANone"
  shows "\<exists>i1 st1 i2 st2. lease_acquire api st k x t dur = Some (kAcquired, i1, st1)
    \<and> lease_acquire api st1 k y t' dur' = Some (kFailedDueToOtherOwner, i2, st2)
    \<and> valueOf api st2 k = ALease x t (t + dur)"
proof -
  from lease_acquire_ok [OF st k x refl, of t dur "expire t (valueOf api st k)"] t free obtain i1 st1 where
    st1: "lease_acquire api st k x t dur = Some (kAcquired, i1, st1)" "leaseReady api st1 t"
      "valueOf api st1 k = ALease x t (t + dur)"
    using k by (auto simp: max_def)
  have "t' = max t t'" "expire t' (valueOf api st1 k) = valueOf api st1 k" using t' st1(3) by (auto simp: max_def not_le)
  from lease_acquire_ok [OF st1(2) k y(1,2) this(1) t'(3,4) this(2) [symmetric]] st1(3) y(3) k obtain i2 st2 where
    "lease_acquire api st1 k y t' dur' = Some (kFailedDueToOtherOwner, i2, st2)" "valueOf api st2 k = ALease x t (t + dur)"
    by auto
  with st1 show ?thesis by blast
qed

theorem lease_exclusive_witness:
  "\<exists>i1 st1 i2 st2. lease_acquire memApi sampleArea ''lock'' ''a'' 10 5 = Some (kAcquired, i1, st1)
    \<and> lease_acquire memApi st1 ''lock'' ''b'' 12 5 = Some (kFailedDueToOtherOwner, i2, st2)
    \<and> valueOf memApi st2 ''lock'' = ALease ''a'' 10 15"
  using lease_exclusive [OF sample_leaseReady, of "''lock''" "''a''" "''b''" 10 5 12 5] by simp

theorem lease_release_spec:
  assumes "leaseReady api st clk" "okKey k" "now = max clk upd" "upd \<noteq> 0"
    and "expire now (valueOf api st k) = ALease h s e"
  shows "\<exists>st'. lease_release api st k upd = Some (OK, st') \<and> leaseReady api st' now
    \<and> (\<forall>k'. okKey k' \<longrightarrow> valueOf api st' k' = (if k' = k then ANone else expire now (valueOf api st k')))"
  using lease_release_ok [OF assms] by blast

theorem lease_release_spec_witness:
  "\<exists>i st1 st2. lease_acquire memApi sampleArea ''lock'' ''a'' 10 5 = Some (kAcquired, i, st1)
    \<and> lease_release memApi st1 ''lock'' 12 = Some (OK, st2) \<and> valueOf memApi st2 ''lock'' = ANone"
proof -
  from lease_acquire_ok [OF sample_leaseReady, of "''lock''" "''a''" 10 10 5 ANone] obtain i st1 where
    st1: "lease_acquire memApi sampleArea ''lock'' ''a'' 10 5 = Some (kAcquired, i, st1)" "leaseReady memApi st1 10"
      "valueOf memApi st1 ''lock'' = ALease ''a'' 10 15"
    by auto
  then show ?thesis
    using lease_release_spec [OF st1(2), of "''lock''" 12 12 "''a''" 10 15] by auto
qed

subsection \<open>Hashes\<close>

theorem hmset_spec:
  assumes "ready api st" "okKey k" "hashOf (valueOf api st k) = Some m" "even (length args)"
    and "card (dom m) + length args < 2 ^ 63"
  shows "\<exists>st'. hmset api st k args = Some (OK, st') \<and> updated api st k (hashVal (setPairs m args)) st'"
  using hmset_ok [OF assms] .

theorem hmset_spec_witness:
  "\<exists>st'. hmset memApi sampleArea ''h'' [''a'', ''1'', ''b'', ''2''] = Some (OK, st')
    \<and> updated memApi sampleArea ''h'' (hashVal [''a'' \<mapsto> ''1'', ''b'' \<mapsto> ''2'']) st'"
  using hmset_spec [OF sample_ready(1), of "''h''" Map.empty "[''a'', ''1'', ''b'', ''2'']"] by simp

theorem hdel_spec:
  assumes "ready api st" "okKey k" "hashOf (valueOf api st k) = Some m" "card (dom m) < 2 ^ 63"
  shows "\<exists>st'. hdel api st k fs = Some (OK, int (card (dom m \<inter> set fs)), st')
    \<and> updated api st k (hashVal (m |` (- set fs))) st'"
  using hdel_ok [OF assms] .

theorem hdel_spec_witness:
  "\<exists>st1 st2. hset memApi sampleArea ''h'' ''a'' ''1'' = Some (OK, True, st1)
    \<and> hdel memApi st1 ''h'' [''a'', ''x'', ''a''] = Some (OK, 1, st2) \<and> valueOf memApi st2 ''h'' = ANone"
proof -
  have k: "okKey ''h''" by simp
  from hset_ok [OF sample_ready(1) k, of Map.empty "''a''" "''1''"] obtain st1 where
    st1: "hset memApi sampleArea ''h'' ''a'' ''1'' = Some (OK, True, st1)"
      "updated memApi sampleArea ''h'' (AHash [''a'' \<mapsto> ''1'']) st1"
    by auto
  from hdel_spec [OF updated_ready [OF st1(2)] k, of "[''a'' \<mapsto> ''1'']" "[''a'', ''x'', ''a'']"]
    updated_valueOf [OF st1(2) k] obtain st2 where
    "hdel memApi st1 ''h'' [''a'', ''x'', ''a''] = Some (OK, 1, st2)" "updated memApi st1 ''h'' ANone st2"
    by (auto simp: containerVal_def)
  with st1(1) updated_valueOf [of memApi st1 "''h''" ANone st2, OF _ k] show ?thesis by auto
qed

text \<open>
C38. hincrby adds to the stored integer and stores the decimal result when the sum fits 64 bits;
otherwise the addition overflows, which is undefined.
\<close>

theorem hincrby_spec:
  assumes "ready api st" "okKey k" "hashOf (valueOf api st k) = Some m" "card (dom m) + 1 < 2 ^ 63"
    and "parseInt64 incrby = Some i" "(case m f of None \<Rightarrow> Some 0 | Some x \<Rightarrow> parseInt64 x) = Some j"
  shows "if int64 (j + i)
    then \<exists>st'. hincrby api st k f incrby = Some (OK, j + i, st') \<and> updated api st k (AHash (m(f \<mapsto> to_string (j + i)))) st'
    else hincrby api st k f incrby = None"
  using hincrby_ok [OF assms] by simp

theorem hincrby_spec_witness:
  "\<exists>st'. hincrby memApi sampleArea ''h'' ''n'' ''7'' = Some (OK, 7, st')
    \<and> updated memApi sampleArea ''h'' (AHash [''n'' \<mapsto> to_string 7]) st'"
proof -
  have "parseInt64 ''7'' = Some 7" "int64 7" by code_simp (simp add: int64_def)
  then show ?thesis using hincrby_spec [OF sample_ready(1), of "''h''" Map.empty "''7''" 7 "''n''" 0] by simp
qed

theorem hash_reads_spec:
  assumes "sa_readable api st" "storeInv (sa_view api st)" "okKey k" "hashOf (valueOf api st k) = Some m"
  shows "\<exists>es. sorted_wrt (<) (map fst es) \<and> set es = {(f, x). m f = Some x}
    \<and> hgetall api st k = Some (OK, concat (map (\<lambda>e. [fst e, snd e]) es))
    \<and> hkeys api st k = Some (OK, map fst es) \<and> hvals api st k = Some (OK, map snd es)
    \<and> hlen api st k = Some (OK, int (length es))"
  using hash_collections_ok [OF assms] .

theorem hash_reads_spec_witness:
  "\<exists>es. sorted_wrt (<) (map fst es) \<and> set es = {(f, x). Map.empty f = Some x}
    \<and> hgetall memApi sampleArea ''h'' = Some (OK, concat (map (\<lambda>e. [fst e, snd e]) es))
    \<and> hkeys memApi sampleArea ''h'' = Some (OK, map fst es) \<and> hvals memApi sampleArea ''h'' = Some (OK, map snd es)
    \<and> hlen memApi sampleArea ''h'' = Some (OK, int (length es))"
  by (rule hash_reads_spec) simp_all

theorem hscan_pages:
  assumes "sa_readable api st" "storeInv (sa_view api st)" "okKey k" "hashOf (valueOf api st k) = Some m"
  shows "\<exists>es. sorted_wrt (<) (map fst es) \<and> set es = {(f, x). m f = Some x}
    \<and> (\<forall>cursor count. 0 < count \<longrightarrow>
        (\<exists>pg next. hscan api st k cursor count = Some (OK, next, flat pg) \<and> length pg \<le> count
           \<and> filter (\<lambda>e. cursor \<le> fst e) es = pg @ (if next = [] then [] else filter (\<lambda>e. next \<le> fst e) es)))"
proof -
  let ?es = "hashEntries api st k"
  have es: "sorted_wrt (<) (map fst ?es) \<and> set ?es = {(f, x). m f = Some x}"
    by (rule hash_read [OF assms]) simp
  have "\<exists>pg next. hscan api st k cursor count = Some (OK, next, flat pg) \<and> length pg \<le> count
       \<and> filter (\<lambda>e. cursor \<le> fst e) ?es = pg @ (if next = [] then [] else filter (\<lambda>e. next \<le> fst e) ?es)"
    if "0 < count" for cursor count
  proof (intro exI conjI)
    show "hscan api st k cursor count = Some (OK, nextCursor ?es cursor count, flat (page ?es cursor count))"
      by (rule hscan_ok [OF assms])
    show "length (page ?es cursor count) \<le> count" by (simp add: page_def)
    show "filter (\<lambda>e. cursor \<le> fst e) ?es = page ?es cursor count
        @ (if nextCursor ?es cursor count = [] then [] else filter (\<lambda>e. nextCursor ?es cursor count \<le> fst e) ?es)"
      by (rule page_chain [OF conjunct1 [OF es] that])
  qed
  with es show ?thesis by (intro exI [of _ ?es]) simp
qed

theorem hscan_pages_witness:
  "\<exists>es. sorted_wrt (<) (map fst es) \<and> set es = {(f, x). Map.empty f = Some x}
    \<and> (\<forall>cursor count. 0 < count \<longrightarrow>
        (\<exists>pg next. hscan memApi sampleArea ''h'' cursor count = Some (OK, next, flat pg) \<and> length pg \<le> count
           \<and> filter (\<lambda>e. cursor \<le> fst e) es = pg @ (if next = [] then [] else filter (\<lambda>e. next \<le> fst e) es)))"
  by (rule hscan_pages) simp_all

theorem hclone_spec:
  assumes "ready api st" "okKey src" "okKey tgt" "hashOf (valueOf api st src) = Some m"
    and "valueOf api st tgt = ANone" "card (dom m) < 2 ^ 63"
  shows "\<exists>st'. hclone api st src tgt = Some (OK, st') \<and> updated api st tgt (hashVal m) st'"
  using hclone_ok [OF assms] .

theorem hclone_spec_witness:
  "\<exists>st'. hclone memApi sampleArea ''h'' ''t'' = Some (OK, st') \<and> updated memApi sampleArea ''t'' (hashVal Map.empty) st'"
  by (rule hclone_spec) simp_all

subsection \<open>Sets\<close>

theorem sadd_spec:
  assumes "ready api st" "okKey k" "setOf (valueOf api st k) = Some s" "card s + length xs < 2 ^ 63"
  shows "\<exists>st'. sadd api st k xs = Some (OK, int (card (set xs - s)), st')
    \<and> updated api st k (setVal (s \<union> set xs)) st' \<and> scard api st' k = Some (OK, int (card (s \<union> set xs)))
    \<and> smembers api st' k = Some (OK, sorted_list_of_set (s \<union> set xs))"
proof -
  from sadd_ok [OF assms] obtain st' where st': "sadd api st k xs = Some (OK, int (card (set xs - s)), st')"
      "updated api st k (setVal (s \<union> set xs)) st'"
    by blast
  have r: "ready api st'" by (rule updated_ready [OF st'(2)])
  have "setOf (valueOf api st' k) = Some (s \<union> set xs)"
    using updated_valueOf [OF st'(2) assms(2)] by (simp add: setVal_def)
  from set_reads_ok [OF sa_ok_readable [OF readyD(1) [OF r]] readyD(2) [OF r] assms(2) this] st'
  show ?thesis by (intro exI [of _ st'] conjI)
qed

theorem sadd_spec_witness:
  "\<exists>st'. sadd memApi sampleArea ''s'' [''a'', ''b'', ''a''] = Some (OK, int (card (set [''a'', ''b'', ''a''] - {})), st')
    \<and> updated memApi sampleArea ''s'' (setVal ({} \<union> set [''a'', ''b'', ''a''])) st'
    \<and> scard memApi st' ''s'' = Some (OK, int (card ({} \<union> set [''a'', ''b'', ''a''])))
    \<and> smembers memApi st' ''s'' = Some (OK, sorted_list_of_set ({} \<union> set [''a'', ''b'', ''a'']))"
  by (rule sadd_spec) simp_all

theorem smove_spec:
  assumes "ready api st" "okKey src" "okKey dst" "src \<noteq> dst"
    and "setOf (valueOf api st src) = Some s" "setOf (valueOf api st dst) = Some t"
    and "card s < 2 ^ 63" "card t + 1 < 2 ^ 63"
  shows "\<exists>st1 st'. smove api st src dst x = Some (OK, of_bool (x \<in> s), st')
    \<and> updated api st src (setVal (s - {x})) st1
    \<and> updated api st1 dst (setVal (if x \<in> s then insert x t else t)) st'"
  using smove_ok [OF assms] .

theorem smove_spec_witness:
  "\<exists>st1 st'. smove memApi sampleArea ''s'' ''t'' ''x'' = Some (OK, of_bool (''x'' \<in> {}), st')
    \<and> updated memApi sampleArea ''s'' (setVal ({} - {''x''})) st1
    \<and> updated memApi st1 ''t'' (setVal (if ''x'' \<in> {} then insert ''x'' {} else {})) st'"
  by (rule smove_spec) simp_all

theorem smove_to_itself:
  assumes "ready api st" "okKey k" "setOf (valueOf api st k) = Some s" "x \<in> s" "card s + 1 < 2 ^ 63"
  shows "\<exists>st'. smove api st k k x = Some (OK, 1, st') \<and> scard api st' k = Some (OK, int (card s) + 1)
    \<and> smembers api st' k = Some (OK, sorted_list_of_set s)"
  using smove_same_key [OF assms] .

theorem smove_to_itself_witness:
  "\<exists>st1 st2. sadd memApi sampleArea ''s'' [''a''] = Some (OK, 1, st1) \<and> smove memApi st1 ''s'' ''s'' ''a'' = Some (OK, 1, st2)
    \<and> scard memApi st2 ''s'' = Some (OK, 2) \<and> smembers memApi st2 ''s'' = Some (OK, [''a''])"
proof -
  have k: "okKey ''s''" by simp
  from sadd_ok [OF sample_ready(1) k, of "{}" "[''a'']"] obtain st1 where
    st1: "sadd memApi sampleArea ''s'' [''a''] = Some (OK, 1, st1)" "updated memApi sampleArea ''s'' (setVal {''a''}) st1"
    by auto
  have "setOf (valueOf memApi st1 ''s'') = Some {''a''}"
    using updated_valueOf [OF st1(2) k] by (simp add: setVal_def)
  from smove_to_itself [OF updated_ready [OF st1(2)] k this] st1(1) show ?thesis by auto
qed

subsection \<open>Locality hashes\<close>

text \<open>
C35. lhmset with non-empty fields and with hints that do not end in a bar stores the triples, and
lhget then finds every field, whatever hint that does not end in a bar the reader gives, or none.
\<close>

theorem lhmset_lhget:
  assumes "ready api st" "okKey k" "k \<noteq> []" "lhashOf (valueOf api st k) = Some m"
    and "length args mod 3 = 0" "okTriples args" "card (dom m) + length args < 2 ^ 63"
  shows "\<exists>st'. lhmset api st k args = Some (OK, st') \<and> updated api st k (lhashVal (setTriples m args)) st'
    \<and> lhlen api st' k = Some (OK, int (card (dom (setTriples m args))))
    \<and> (\<forall>f hint. f \<noteq> [] \<longrightarrow> okKey hint \<longrightarrow> lhget api st' k f hint =
         Some (case setTriples m args f of None \<Rightarrow> (NotFound, []) | Some (h, x) \<Rightarrow> (OK, x)))"
proof -
  from lhmset_ok [OF assms] obtain st' where st': "lhmset api st k args = Some (OK, st')"
      "updated api st k (lhashVal (setTriples m args)) st'"
    by blast
  have v: "lhashOf (valueOf api st' k) = Some (setTriples m args)"
    using updated_valueOf [OF st'(2) assms(2)] by (simp add: lhashVal_def)
  note r = readyD [OF updated_ready [OF st'(2)]]
  note rd = sa_ok_readable [OF r(1)] r(2) assms(2)
  have "lhget api st' k f hint = Some (case setTriples m args f of None \<Rightarrow> (NotFound, []) | Some (h, x) \<Rightarrow> (OK, x))"
    if "f \<noteq> []" "okKey hint" for f hint
    by (rule lhget_ok [OF rd assms(3) that v])
  with st' lhlen_ok [OF rd v] show ?thesis by (intro exI [of _ st'] conjI) simp_all
qed

theorem lhmset_lhget_witness:
  "\<exists>st'. lhmset memApi sampleArea ''h'' [''f'', ''near'', ''1''] = Some (OK, st')
    \<and> updated memApi sampleArea ''h'' (lhashVal [''f'' \<mapsto> (''near'', ''1'')]) st'
    \<and> lhget memApi st' ''h'' ''f'' ''near'' = Some (OK, ''1'') \<and> lhget memApi st' ''h'' ''f'' ''t'' = Some (OK, ''1'')"
  using lhmset_lhget [OF sample_ready(1), of "''h''" Map.empty "[''f'', ''near'', ''1'']"] by auto

theorem lhdel_spec:
  assumes "ready api st" "okKey k" "k \<noteq> []" "lhashOf (valueOf api st k) = Some m" "[] \<notin> set fs"
    and "card (dom m) < 2 ^ 63"
  shows "\<exists>st'. lhdel api st k fs = Some (OK, int (card (dom m \<inter> set fs)), st')
    \<and> updated api st k (lhashVal (m |` (- set fs))) st'"
  using lhdel_ok [OF assms] .

theorem lhdel_spec_witness:
  "\<exists>st1 st2. lhset memApi sampleArea ''h'' ''f'' ''near'' ''1'' = Some (OK, True, st1)
    \<and> lhdel memApi st1 ''h'' [''f'', ''g''] = Some (OK, 1, st2) \<and> valueOf memApi st2 ''h'' = ANone"
proof -
  have k: "okKey ''h''" by simp
  from lhset_ok [OF sample_ready(1) k, of "''near''" "''f''" Map.empty "''1''"] obtain st1 where
    st1: "lhset memApi sampleArea ''h'' ''f'' ''near'' ''1'' = Some (OK, True, st1)"
      "updated memApi sampleArea ''h'' (ALocalityHash [''f'' \<mapsto> (''near'', ''1'')]) st1"
    by auto
  from lhdel_spec [OF updated_ready [OF st1(2)] k, of "[''f'' \<mapsto> (''near'', ''1'')]" "[''f'', ''g'']"]
    updated_valueOf [OF st1(2) k] obtain st2 where
    "lhdel memApi st1 ''h'' [''f'', ''g''] = Some (OK, 1, st2)" "updated memApi st1 ''h'' ANone st2"
    by (auto simp: lhashVal_def)
  with st1(1) updated_valueOf [of memApi st1 "''h''" ANone st2, OF _ k] show ?thesis by auto
qed

subsection \<open>Deques\<close>

text \<open>
C36. Items pushed at the back come out at the front in order.
\<close>

theorem deque_fifo:
  assumes "ready api st" "okKey k" "dequeOf (valueOf api st k) = Some l" "l @ xs = y # r"
    and "length (l @ xs) < 2 ^ 63" "pushRoom (sa_view api st) k kRight (length xs)"
  shows "\<exists>st1 st2. dequePushBack api st k xs = Some (OK, int (length (l @ xs)), st1)
    \<and> updated api st k (ADeque (l @ xs)) st1
    \<and> dequePopFront api st1 k = Some (OK, y, st2) \<and> updated api st1 k (dequeVal r) st2"
proof -
  have "dequeVal (l @ xs) = ADeque (l @ xs)" using assms(4) by (simp only: dequeVal_def) simp
  moreover have "length l + length xs < 2 ^ 63" using assms(5) by simp
  ultimately have "\<exists>st1. dequePushBack api st k xs = Some (OK, int (length (l @ xs)), st1)
      \<and> updated api st k (ADeque (l @ xs)) st1"
    using dequePushBack_ok [OF assms(1-3) _ assms(6)] by metis
  then obtain st1 where
    st1: "dequePushBack api st k xs = Some (OK, int (length (l @ xs)), st1)" "updated api st k (ADeque (l @ xs)) st1"
    by auto
  have "dequeOf (valueOf api st1 k) = Some (y # r)"
    using updated_valueOf [OF st1(2) assms(2)] assms(4) by simp
  from dequePopFront_ok [OF updated_ready [OF st1(2)] assms(2) this] assms(4,5) st1 show ?thesis by auto
qed

lemma sample_room: "pushRoom (sa_view memApi sampleArea) k d (Suc (Suc 0))"
proof -
  have "\<not> unowned (descriptorLocator k)" by (auto simp: unowned_def)
  then have "sa_view memApi sampleArea (descriptorLocator k) = None"
    using smInvD(5) [OF sample_smInv, of False] by (simp add: sampleArea_def sample_view)
  then show ?thesis by (simp add: pushRoom_def descOf_def constructDescriptor_def emptyDescriptor_def kIndexInitialValue_def)
qed

theorem deque_fifo_witness:
  "\<exists>st1 st2. dequePushBack memApi sampleArea ''q'' [''a'', ''b''] = Some (OK, 2, st1)
    \<and> updated memApi sampleArea ''q'' (ADeque [''a'', ''b'']) st1
    \<and> dequePopFront memApi st1 ''q'' = Some (OK, ''a'', st2) \<and> updated memApi st1 ''q'' (dequeVal [''b'']) st2"
  using deque_fifo [OF sample_ready(1), of "''q''" "[]" "[''a'', ''b'']" "''a''" "[''b'']"] sample_room [of "''q''" kRight]
  by simp

text \<open>
C37. dequeTrimFront ends and leaves exactly the last items asked for.
\<close>

theorem deque_trim_spec:
  assumes "ready api st" "okKey k" "dequeOf (valueOf api st k) = Some l" "length l < 2 ^ 63"
    and "parseInt64 str = Some m" "0 \<le> m"
  shows "\<exists>st'. dequeTrimFront api st k str = Some (OK, int (length l - nat m), st')
    \<and> updated api st k (dequeVal (drop (length l - nat m) l)) st'"
  using dequeTrimFront_ok [OF assms] .

theorem deque_trim_spec_witness:
  "\<exists>st1 st2. dequePushFront memApi sampleArea ''q'' [''a'', ''b''] = Some (OK, 2, st1)
    \<and> dequeTrimFront memApi st1 ''q'' ''1'' = Some (OK, 1, st2) \<and> updated memApi st1 ''q'' (ADeque [''a'']) st2"
proof -
  have k: "okKey ''q''" by simp
  from dequePushFront_ok [OF sample_ready(1) k, of "[]" "[''a'', ''b'']"] sample_room [of "''q''" kLeft] obtain st1 where
    st1: "dequePushFront memApi sampleArea ''q'' [''a'', ''b''] = Some (OK, 2, st1)"
      "updated memApi sampleArea ''q'' (ADeque [''b'', ''a'']) st1"
    by (auto simp: dequeVal_def)
  have "parseInt64 ''1'' = Some 1" by code_simp
  with deque_trim_spec [OF updated_ready [OF st1(2)] k, of "[''b'', ''a'']" "''1''" 1] updated_valueOf [OF st1(2) k] st1
  show ?thesis by (auto simp: dequeVal_def)
qed

subsection \<open>Versioned hashes\<close>

theorem vhash_one_version_per_transaction:
  assumes "ready api st" "okKey k" "vhashOf (valueOf api st k) = Some (n, m)" "trackOk api st k n"
    and "\<not> inBatch api st k" "card (dom m) + 2 < 2 ^ 63"
  shows "\<exists>st1 st2. vhset api st k f x = Some (OK, n + 1, st1) \<and> vhset api st1 k g y = Some (OK, n + 1, st2)
    \<and> valueOf api st2 k = AVersionedHash (n + 1) (m(f \<mapsto> x, g \<mapsto> y))"
proof -
  have v: "n + 1 = nextVersion api st k n" using assms(5) by (simp add: nextVersion_def)
  from vhset_ok [OF assms(1-4) _ v, of f x] assms(6) obtain st1 where
    st1: "vhset api st k f x = Some (OK, n + 1, st1)" "updated api st k (AVersionedHash (n + 1) (m(f \<mapsto> x))) st1"
      "inBatch api st1 k" "trackOk api st1 k (n + 1)"
    by auto
  have v1: "vhashOf (valueOf api st1 k) = Some (n + 1, m(f \<mapsto> x))" "n + 1 = nextVersion api st1 k (n + 1)"
    using updated_valueOf [OF st1(2) assms(2)] st1(3) by (auto simp: nextVersion_def)
  have "card (dom (m(f \<mapsto> x))) + 1 < 2 ^ 63"
    using assms(6) by (cases "f \<in> dom m"; cases "finite (dom m)") (auto simp: insert_absorb)
  from vhset_ok [OF updated_ready [OF st1(2)] assms(2) v1(1) st1(4) this v1(2), of g y] obtain st2 where
    st2: "vhset api st1 k g y = Some (OK, n + 1, st2)" "updated api st1 k (AVersionedHash (n + 1) (m(f \<mapsto> x, g \<mapsto> y))) st2"
    by blast
  with st1(1) updated_valueOf [OF st2(2) assms(2)] show ?thesis by auto
qed

lemma sample_notInBatch [simp]: "\<not> inBatch memApi sampleArea k" "trackOk memApi sampleArea k n"
  by (simp_all add: inBatch_def sampleArea_def newStagingArea_def memApi_def found_def trackOk_def forKey_def emptyRevision_def)

theorem vhash_one_version_per_transaction_witness:
  "\<exists>st1 st2. vhset memApi sampleArea ''h'' ''f'' ''1'' = Some (OK, 1, st1) \<and> vhset memApi st1 ''h'' ''g'' ''2'' = Some (OK, 1, st2)
    \<and> valueOf memApi st2 ''h'' = AVersionedHash 1 [''f'' \<mapsto> ''1'', ''g'' \<mapsto> ''2'']"
  using vhash_one_version_per_transaction [OF sample_ready(1), of "''h''" 0 Map.empty "''f''" "''1''" "''g''" "''2''"]
  by simp

theorem vhdel_hides_next_change:
  assumes "ready api st" "okKey k" "vhashOf (valueOf api st k) = Some (n, m)" "trackOk api st k n"
    and "\<not> inBatch api st k" "g \<notin> dom m" "card (dom m) + 1 < 2 ^ 63"
  shows "\<exists>st1 st2. vhdel api st k [g] = Some (OK, n, st1) \<and> vhset api st1 k f x = Some (OK, n, st2)
    \<and> valueOf api st2 k = AVersionedHash n (m(f \<mapsto> x))"
  using vhdel_hides_change [OF assms] .

theorem vhdel_hides_next_change_witness:
  "\<exists>st1 st2. vhdel memApi sampleArea ''h'' [''g''] = Some (OK, 0, st1) \<and> vhset memApi st1 ''h'' ''f'' ''1'' = Some (OK, 0, st2)
    \<and> valueOf memApi st2 ''h'' = AVersionedHash 0 (Map.empty(''f'' \<mapsto> ''1''))"
  by (rule vhdel_hides_next_change) simp_all

subsection \<open>Keys\<close>

theorem del_spec:
  assumes "leaseReady api st clk" "\<forall>k\<in>set ks. okKey k"
  shows "\<exists>st'. del_op api st ks = Some (OK, int (card {k \<in> set ks. valueOf api st k \<noteq> ANone}), st')
    \<and> leaseReady api st' clk \<and> exists_op api st' ks = Some (OK, 0)
    \<and> (\<forall>k. okKey k \<longrightarrow> valueOf api st' k = (if k \<in> set ks then ANone else valueOf api st k))"
proof -
  from del_ok [OF assms] obtain st' where
    st': "del_op api st ks = Some (OK, int (card {k \<in> set ks. valueOf api st k \<noteq> ANone}), st')" "leaseReady api st' clk"
      "\<forall>k. okKey k \<longrightarrow> valueOf api st' k = (if k \<in> set ks then ANone else valueOf api st k)"
    by blast
  have "filter (\<lambda>k. valueOf api st' k \<noteq> ANone) ks = []" using st'(3) assms(2) by (auto simp: filter_empty_conv)
  with exists_ok [OF _ _ assms(2), of api st'] leaseReadyD(1-3) [OF st'(2)]
  have "exists_op api st' ks = Some (OK, 0)" by simp
  with st' show ?thesis by (intro exI [of _ st'] conjI)
qed

theorem del_spec_witness:
  "\<exists>st'. del_op memApi sampleArea [''h'', ''s''] = Some (OK, int (card {k \<in> set [''h'', ''s'']. valueOf memApi sampleArea k \<noteq> ANone}), st')
    \<and> leaseReady memApi st' 0 \<and> exists_op memApi st' [''h'', ''s''] = Some (OK, 0)
    \<and> (\<forall>k. okKey k \<longrightarrow> valueOf memApi st' k = (if k \<in> set [''h'', ''s''] then ANone else valueOf memApi sampleArea k))"
  by (rule del_spec) simp_all

theorem flushall_spec:
  assumes "leaseReady api st clk"
  shows "\<exists>st'. flushall api st = Some (OK, st') \<and> leaseReady api st' clk \<and> (\<forall>k. valueOf api st' k = ANone)
    \<and> lastApplied (stateMachine st') = lastApplied (stateMachine st)
    \<and> (\<forall>x. reserved x \<longrightarrow> sa_view api st' x = sa_view api st x)"
  using flushall_ok [OF assms] by blast

theorem flushall_spec_witness:
  "\<exists>st'. flushall memApi sampleArea = Some (OK, st') \<and> leaseReady memApi st' 0 \<and> (\<forall>k. valueOf memApi st' k = ANone)
    \<and> lastApplied (stateMachine st') = lastApplied (stateMachine sampleArea)
    \<and> (\<forall>x. reserved x \<longrightarrow> sa_view memApi st' x = sa_view memApi sampleArea x)"
  by (rule flushall_spec) simp_all

theorem set_empty_value:
  assumes "ready api st" "okKey k" "stringOf (valueOf api st k) = Some s0"
  shows "\<exists>st'. set_op api st k [] = Some (OK, st') \<and> get_op api st' k = Some (OK, [])
    \<and> exists_op api st' [k] = Some (OK, 0) \<and> del_op api st' [k] = Some (OK, 0, st')"
  using set_empty_string [OF assms] .

theorem set_empty_value_witness:
  "\<exists>st'. set_op memApi sampleArea ''k'' [] = Some (OK, st') \<and> get_op memApi st' ''k'' = Some (OK, [])
    \<and> exists_op memApi st' [''k''] = Some (OK, 0) \<and> del_op memApi st' [''k''] = Some (OK, 0, st')"
  by (rule set_empty_value) simp_all

theorem string_roundtrip:
  assumes "ready api st" "okKey k" "stringOf (valueOf api st k) = Some s0" "x \<noteq> []" "length x < 2 ^ 63"
  shows "\<exists>st'. set_op api st k x = Some (OK, st') \<and> updated api st k (AString x) st' \<and> get_op api st' k = Some (OK, x)
    \<and> exists_op api st' [k] = Some (OK, 1)"
proof -
  from set_ok [OF assms(1-3,5)] assms(4) obtain st' where
    st': "set_op api st k x = Some (OK, st')" "updated api st k (AString x) st'"
    by (auto simp: stringVal_def)
  have v: "valueOf api st' k = AString x" using updated_valueOf [OF st'(2) assms(2)] by simp
  note r = readyD [OF updated_ready [OF st'(2)]]
  from get_ok [OF sa_ok_readable [OF r(1)] r(2) assms(2) v] exists_ok [OF sa_ok_readable [OF r(1)] r(2), of "[k]"] v assms(2) st'
  show ?thesis by (intro exI [of _ st'] conjI) simp_all
qed

theorem string_roundtrip_witness:
  "\<exists>st'. set_op memApi sampleArea ''k'' ''value'' = Some (OK, st') \<and> updated memApi sampleArea ''k'' (AString ''value'') st'
    \<and> get_op memApi st' ''k'' = Some (OK, ''value'') \<and> exists_op memApi st' [''k''] = Some (OK, 1)"
  by (rule string_roundtrip) simp_all

subsection \<open>Layout\<close>

text \<open>
C40. The names of two different keys and fields map to one entry of the database when a key ends
in a bar.
\<close>

theorem escaping_collides: "fieldKey kHash (k @ ''|'') (CHR ''#'' # f) = fieldKey kHash (k @ ''#'') f"
  using appendEscaped_collision [of k f] by (simp add: fieldKey_def fieldPrefix_def)

theorem escaping_injective:
  assumes "okKey k" "okKey k'"
  shows "fieldKey kt k f = fieldKey kt k' f' \<longleftrightarrow> k = k' \<and> f = f'"
  using assms by (simp add: fieldKey_eq)

theorem escaping_injective_witness: "fieldKey kHash ''h'' ''a'' = fieldKey kHash ''s'' ''a'' \<longleftrightarrow> ''h'' = ''s'' \<and> ''a'' = ''a''"
  by (rule escaping_injective) simp_all

theorem descriptor_roundtrip:
  assumes "wfDescriptor d"
  shows "\<exists>s. serializeDescriptor d = Some s \<and> parseDescriptor s = Some d"
  using serialize_Some [OF assms] parse_serialize [OF assms] by blast

theorem descriptor_roundtrip_witness:
  "\<exists>s. serializeDescriptor \<lparr>keyType = kDeque, sz = 2, startIndex = 4, endIndex = 7\<rparr> = Some s
    \<and> parseDescriptor s = Some \<lparr>keyType = kDeque, sz = 2, startIndex = 4, endIndex = 7\<rparr>"
  by (rule descriptor_roundtrip) (simp add: wfDescriptor_def int64_def)

theorem first_start:
  assumes "rocksdb_laws api" "blankDb api db"
  shows "\<exists>sm. openStateMachine api now db False wal False = Some sm \<and> smInv api sm 0 \<and> lastApplied sm = 0
    \<and> (\<forall>k. absVal (db_view api sm) k = ANone)"
proof -
  from first_start_ok [OF assms, of now wal] obtain sm where
    "openStateMachine api now db False wal False = Some sm" "smInv api sm 0" "lastApplied sm = 0" "db_view api sm = freshView"
    by blast
  then show ?thesis by (intro exI [of _ sm]) (simp add: storeInv_blank(2))
qed

theorem first_start_witness:
  "\<exists>sm. openStateMachine memApi 7 [] False True False = Some sm \<and> smInv memApi sm 0 \<and> lastApplied sm = 0
    \<and> (\<forall>k. absVal (db_view memApi sm) k = ANone)"
  by (rule first_start [OF memApi_laws]) (simp add: blankDb_def memApi_def)

end
