(* ===== verification/RaftTypes.thy ===== *)
theory RaftTypes
  imports TextUtils BinaryString
begin

text \<open>
  The data of the consensus layer: servers (\<^verbatim>\<open>src/src/Common.hh\<close>, \<^verbatim>\<open>src/src/Utils.cc\<close>), journal
  entries and quorums (\<^verbatim>\<open>src/src/raft/RaftCommon.hh\<close>), the members of a cluster
  (\<^verbatim>\<open>src/src/raft/RaftMembers.hh\<close>), with the round trips of their encodings and the overlap of
  the majorities before and after a membership change.
\<close>

subsection \<open>Servers\<close>

record raft_server =
  hostname :: bytes
  port :: int

definition nullServer :: raft_server where
  "nullServer = \<lparr>hostname = ''#!^NULL-HOSTNAME^!#'', port = 0\<rparr>"

definition noServer :: raft_server where
  "noServer = \<lparr>hostname = [], port = 0\<rparr>"

definition serverEmpty :: "raft_server \<Rightarrow> bool" where
  "serverEmpty s \<longleftrightarrow> hostname s = []"

definition serverToString :: "raft_server \<Rightarrow> bytes" where
  "serverToString s = (if hostname s = [] then [] else hostname s @ '':'' @ to_string (port s))"

text \<open>The conversion of an \<open>int64_t\<close> to \<open>int\<close>.\<close>

definition to_int32 :: "int \<Rightarrow> int" where
  "to_int32 i = sint (word_of_int i :: 32 word)"

definition parseServer :: "bytes \<Rightarrow> raft_server option" where
  "parseServer str = do {
     parts \<leftarrow> split str '':'';
     assert_that (length parts = 2);
     p \<leftarrow> parseInt64 (parts ! 1);
     Some \<lparr>hostname = parts ! 0, port = to_int32 p\<rparr> }"

fun parseServerList :: "bytes list \<Rightarrow> raft_server list option" where
  "parseServerList [] = Some []"
| "parseServerList (x # xs) = do { s \<leftarrow> parseServer x; ss \<leftarrow> parseServerList xs; Some (s # ss) }"

definition parseServers :: "bytes \<Rightarrow> raft_server list option" where
  "parseServers str = do {
     parts \<leftarrow> split str '','';
     servers \<leftarrow> parseServerList parts;
     assert_that (checkUnique servers);
     Some servers }"

fun serializeNodes :: "raft_server list \<Rightarrow> bytes" where
  "serializeNodes [] = []"
| "serializeNodes [s] = serverToString s"
| "serializeNodes (s # t # ss) = serverToString s @ '','' @ serializeNodes (t # ss)"

text \<open>A server whose name does not contain the separators of the encodings.\<close>

definition okServer :: "raft_server \<Rightarrow> bool" where
  "okServer s \<longleftrightarrow> hostname s \<noteq> [] \<and> set (hostname s) \<inter> {CHR '':'', CHR '','', CHR ''|''} = {}
     \<and> - (2 ^ 31) \<le> port s \<and> port s < 2 ^ 31"

lemma to_int32_id [simp]: "- (2 ^ 31) \<le> i \<Longrightarrow> i < 2 ^ 31 \<Longrightarrow> to_int32 i = i"
  unfolding to_int32_def by (simp add: sint_sbintrunc' signed_take_bit_int_eq_self)

lemma set_to_string: "c \<in> set (to_string i) \<Longrightarrow> is_digit c \<or> c = CHR ''-''"
  by (auto simp: to_string_def dest: digits_of_digits split: if_splits)

lemma separators_not_in_to_string [simp]:
  "CHR '':'' \<notin> set (to_string i)" "CHR '','' \<notin> set (to_string i)" "CHR ''|'' \<notin> set (to_string i)"
  by (auto dest!: set_to_string simp: is_digit_def)

lemma parseServer_toString [simp]:
  assumes "okServer s"
  shows "parseServer (serverToString s) = Some s"
proof -
  have "split (hostname s @ CHR '':'' # to_string (port s)) '':'' = Some [hostname s, to_string (port s)]"
    using assms by (auto simp: split_single_Cons split_single_last okServer_def)
  moreover have "parseInt64 (to_string (port s)) = Some (port s)"
    using assms by (intro parseInt64_to_string) (auto simp: okServer_def LLONG_MIN_def LLONG_MAX_def)
  ultimately show ?thesis
    using assms by (simp add: parseServer_def serverToString_def okServer_def)
qed

lemma serverToString_separators:
  "okServer s \<Longrightarrow> CHR '','' \<notin> set (serverToString s) \<and> CHR ''|'' \<notin> set (serverToString s)"
  by (auto simp: serverToString_def okServer_def)

lemma serverToString_nonempty: "okServer s \<Longrightarrow> serverToString s \<noteq> []"
  by (simp add: serverToString_def okServer_def)

lemma serializeNodes_join: "serializeNodes ns = join CHR '','' (map serverToString ns)"
  by (induction ns rule: serializeNodes.induct) auto

lemma parseServerList_ok: "\<forall>s \<in> set ns. okServer s \<Longrightarrow> parseServerList (map serverToString ns) = Some ns"
  by (induction ns) auto

lemma parseServers_serializeNodes:
  assumes "ns \<noteq> []" "\<forall>s \<in> set ns. okServer s" "distinct ns"
  shows "parseServers (serializeNodes ns) = Some ns"
proof -
  have "split (serializeNodes ns) '','' = Some (map serverToString ns)"
    unfolding serializeNodes_join using assms serverToString_separators
    by (intro split_join) auto
  with assms show ?thesis by (simp add: parseServers_def parseServerList_ok)
qed

lemma join_chars: "set (join c parts) \<subseteq> insert c (\<Union> (set ` set parts))"
  by (induction c parts rule: join.induct) auto

lemma serializeNodes_bar: "\<forall>s \<in> set ns. okServer s \<Longrightarrow> CHR ''|'' \<notin> set (serializeNodes ns)"
  using join_chars [of "CHR '',''" "map serverToString ns"] serverToString_separators
  by (auto simp: serializeNodes_join)

subsection \<open>Enumerations\<close>

datatype RaftStatus = LEADER | FOLLOWER | CANDIDATE | SHUTDOWN

datatype FsyncPolicy = kAlways | kSyncImportantUpdates | kAsync

fun fsyncPolicyToString :: "FsyncPolicy \<Rightarrow> bytes" where
  "fsyncPolicyToString kAlways = ''always''"
| "fsyncPolicyToString kSyncImportantUpdates = ''sync-important-updates''"
| "fsyncPolicyToString kAsync = ''async''"

definition parseFsyncPolicy :: "bytes \<Rightarrow> FsyncPolicy option" where
  "parseFsyncPolicy s =
     (if s = ''always'' then Some kAlways
      else if s = ''sync-important-updates'' then Some kSyncImportantUpdates
      else if s = ''async'' then Some kAsync
      else None)"

lemma parseFsyncPolicy_toString [simp]: "parseFsyncPolicy (fsyncPolicyToString p) = Some p"
  by (cases p) (simp_all add: parseFsyncPolicy_def)

subsection \<open>Journal entries\<close>

record raft_entry =
  entryTerm :: int
  request :: "bytes list"

fun serializeRequest :: "bytes list \<Rightarrow> bytes" where
  "serializeRequest [] = []"
| "serializeRequest (x # xs) = append_int_to_string (int (length x)) @ x @ serializeRequest xs"

definition serializeEntry :: "raft_entry \<Rightarrow> bytes" where
  "serializeEntry e = append_int_to_string (entryTerm e) @ serializeRequest (request e)"

text \<open>
  The loop of \<open>deserialize\<close> trusts the lengths it reads: a length that leaves the buffer makes the
  source read out of bounds, which is \<open>None\<close> here.
\<close>

function deserializeRequest :: "bytes \<Rightarrow> bytes list option" where
  "deserializeRequest pos =
     (if pos = [] then Some []
      else if length pos < 8 then None
      else let len = fetch_int_from_string pos; rest = drop 8 pos
           in if len < 0 \<or> int (length rest) < len then None
              else map_option (Cons (take (nat len) rest)) (deserializeRequest (drop (nat len) rest)))"
  by pat_completeness auto
termination by (relation "measure length") auto

declare deserializeRequest.simps [simp del]

definition deserializeEntry :: "bytes \<Rightarrow> raft_entry option" where
  "deserializeEntry data = do {
     assert_that (8 \<le> length data);
     req \<leftarrow> deserializeRequest (drop 8 data);
     Some \<lparr>entryTerm = fetch_int_from_string data, request = req\<rparr> }"

definition fetchTerm :: "bytes \<Rightarrow> int option" where
  "fetchTerm data = do { assert_that (8 \<le> length data); Some (fetch_int_from_string data) }"

definition okEntry :: "raft_entry \<Rightarrow> bool" where
  "okEntry e \<longleftrightarrow> int64 (entryTerm e) \<and> (\<forall>x \<in> set (request e). length x < 2 ^ 63)"

lemma deserialize_serializeRequest:
  "\<forall>x \<in> set xs. length x < 2 ^ 63 \<Longrightarrow> deserializeRequest (serializeRequest xs) = Some xs"
proof (induction xs)
  case Nil
  then show ?case by (simp add: deserializeRequest.simps)
next
  case (Cons x xs)
  then have "int64 (int (length x))" by (auto simp: int64_def)
  moreover have "append_int_to_string (int (length x)) \<noteq> []"
    by (metis length_append_int list.size(3) zero_neq_numeral)
  ultimately show ?case
    using Cons by (subst deserializeRequest.simps) (simp add: Let_def)
qed

lemma deserialize_serialize [simp]: "okEntry e \<Longrightarrow> deserializeEntry (serializeEntry e) = Some e"
  by (simp add: deserializeEntry_def serializeEntry_def okEntry_def deserialize_serializeRequest)

lemma fetchTerm_serialize [simp]: "okEntry e \<Longrightarrow> fetchTerm (serializeEntry e) = Some (entryTerm e)"
  by (simp add: fetchTerm_def serializeEntry_def okEntry_def)

lemma serializeEntry_inj: "okEntry e \<Longrightarrow> okEntry e' \<Longrightarrow> serializeEntry e = serializeEntry e' \<longleftrightarrow> e = e'"
  by (metis deserialize_serialize option.inject)

subsection \<open>Quorums\<close>

definition calculateQuorumSize :: "nat \<Rightarrow> nat" where
  "calculateQuorumSize members = members div 2 + 1"

text \<open>
  What the election and the commit logic rely on: two quorums of one cluster have a member in
  common, and a vote is given to one candidate only.
\<close>

locale quorum_system =
  fixes quorum :: "'s set \<Rightarrow> bool"
  assumes overlap: "quorum Q \<Longrightarrow> quorum Q' \<Longrightarrow> Q \<inter> Q' \<noteq> {}"
begin

lemma agreement:
  assumes "quorum {s. vote s = Some a}" "quorum {s. vote s = Some b}"
  shows "a = b"
  using overlap [OF assms] by auto

lemma common_witness:
  assumes "quorum {s. P s}" "quorum {s. R s}"
  obtains s where "P s" "R s"
  using overlap [OF assms] by auto

end

definition isQuorum :: "'s list \<Rightarrow> 's set \<Rightarrow> bool" where
  "isQuorum ns Q \<longleftrightarrow> calculateQuorumSize (length ns) \<le> card (Q \<inter> set ns)"

lemma card_overlap:
  assumes "finite A" "P \<subseteq> A" "Q \<subseteq> A" "card A < card P + card Q"
  shows "P \<inter> Q \<noteq> {}"
proof
  assume "P \<inter> Q = {}"
  moreover have "finite P" "finite Q" using assms finite_subset by blast+
  ultimately have "card (P \<union> Q) = card P + card Q" by (simp add: card_Un_disjoint)
  moreover have "card (P \<union> Q) \<le> card A" using assms by (intro card_mono) auto
  ultimately show False using assms by simp
qed

interpretation majority: quorum_system "isQuorum ns" for ns :: "'s list"
proof
  fix Q Q' assume "isQuorum ns Q" "isQuorum ns Q'"
  then have "length ns < card (Q \<inter> set ns) + card (Q' \<inter> set ns)"
    by (simp add: isQuorum_def calculateQuorumSize_def)
  moreover have "card (set ns) \<le> length ns" by (rule card_length)
  ultimately have "(Q \<inter> set ns) \<inter> (Q' \<inter> set ns) \<noteq> {}"
    by (intro card_overlap [of "set ns"]) auto
  then show "Q \<inter> Q' \<noteq> {}" by auto
qed

subsection \<open>Members of a cluster\<close>

record raft_members =
  nodes :: "raft_server list"
  observers :: "raft_server list"

definition limboMembers :: raft_members where
  "limboMembers = \<lparr>nodes = [nullServer], observers = []\<rparr>"

definition parseMembers :: "bytes \<Rightarrow> raft_members option" where
  "parseMembers serialized = do {
     parts \<leftarrow> split serialized ''|'';
     assert_that (length parts = 2);
     ns \<leftarrow> parseServers (parts ! 0);
     obs \<leftarrow> (if parts ! 1 \<noteq> [] then parseServers (parts ! 1) else Some []);
     Some \<lparr>nodes = ns, observers = obs\<rparr> }"

definition membersToString :: "raft_members \<Rightarrow> bytes" where
  "membersToString m = serializeNodes (nodes m) @ ''|'' @ serializeNodes (observers m)"

definition addObserver :: "raft_server \<Rightarrow> raft_members \<Rightarrow> bytes + raft_members" where
  "addObserver observer m =
     (if contains (observers m) observer then Inl (serverToString observer @ '' is already an observer.'')
      else if contains (nodes m) observer then Inl (serverToString observer @ '' is already a full node.'')
      else Inr (m\<lparr>observers := observers m @ [observer]\<rparr>))"

definition removeMember :: "raft_server \<Rightarrow> raft_members \<Rightarrow> bytes + raft_members" where
  "removeMember machine m =
     (if snd (erase_element (observers m) machine)
      then Inr (m\<lparr>observers := fst (erase_element (observers m) machine)\<rparr>)
      else if snd (erase_element (nodes m) machine)
      then Inr (m\<lparr>nodes := fst (erase_element (nodes m) machine)\<rparr>)
      else Inl (serverToString machine @ '' is neither an observer nor a full node.''))"

definition promoteObserver :: "raft_server \<Rightarrow> raft_members \<Rightarrow> bytes + raft_members" where
  "promoteObserver observer m =
     (if snd (erase_element (observers m) observer)
      then Inr (m\<lparr>observers := fst (erase_element (observers m) observer), nodes := nodes m @ [observer]\<rparr>)
      else Inl (serverToString observer @ '' is not an observer.''))"

definition demoteToObserver :: "raft_server \<Rightarrow> raft_members \<Rightarrow> bytes + raft_members" where
  "demoteToObserver member m =
     (if snd (erase_element (nodes m) member)
      then Inr (m\<lparr>nodes := fst (erase_element (nodes m) member), observers := observers m @ [member]\<rparr>)
      else Inl (serverToString member @ '' is not a full member.''))"

lemmas member_ops = addObserver_def removeMember_def promoteObserver_def demoteToObserver_def

definition membersInv :: "raft_members \<Rightarrow> bool" where
  "membersInv m \<longleftrightarrow> distinct (nodes m @ observers m) \<and> (\<forall>s \<in> set (nodes m @ observers m). okServer s)"

lemma parseMembers_toString:
  assumes "membersInv m" "nodes m \<noteq> []"
  shows "parseMembers (membersToString m) = Some m"
proof -
  have "split (membersToString m) ''|'' = Some [serializeNodes (nodes m), serializeNodes (observers m)]"
    using assms serializeNodes_bar [of "nodes m"] serializeNodes_bar [of "observers m"]
    by (simp add: membersToString_def membersInv_def split_single_Cons split_single_last)
  moreover have "parseServers (serializeNodes (nodes m)) = Some (nodes m)"
    using assms by (intro parseServers_serializeNodes) (auto simp: membersInv_def)
  moreover have "(if serializeNodes (observers m) \<noteq> [] then parseServers (serializeNodes (observers m)) else Some [])
      = Some (observers m)"
  proof (cases "observers m")
    case Nil
    then show ?thesis by simp
  next
    case (Cons s ss)
    then have "serializeNodes (observers m) \<noteq> []"
      using assms serverToString_nonempty [of s]
      by (cases ss) (auto simp: membersInv_def)
    moreover have "parseServers (serializeNodes (observers m)) = Some (observers m)"
      using assms Cons by (intro parseServers_serializeNodes) (auto simp: membersInv_def)
    ultimately show ?thesis by simp
  qed
  ultimately show ?thesis by (auto simp: parseMembers_def split: if_splits)
qed

text \<open>A change of the members that the journal accepts: one of the four operations.\<close>

inductive member_change :: "raft_members \<Rightarrow> raft_members \<Rightarrow> bool" where
  add: "addObserver s m = Inr m' \<Longrightarrow> okServer s \<Longrightarrow> member_change m m'"
| remove: "removeMember s m = Inr m' \<Longrightarrow> member_change m m'"
| promote: "promoteObserver s m = Inr m' \<Longrightarrow> member_change m m'"
| demote: "demoteToObserver s m = Inr m' \<Longrightarrow> member_change m m'"

lemma member_change_inv: "member_change m m' \<Longrightarrow> membersInv m \<Longrightarrow> membersInv m'"
  by (induction rule: member_change.induct)
    (auto simp: member_ops membersInv_def split: if_splits dest: notin_set_remove1)

lemma member_change_nodes:
  assumes "member_change m m'"
  shows "nodes m' = nodes m \<or> (\<exists>s. s \<notin> set (nodes m) \<and> nodes m' = nodes m @ [s])
       \<or> (\<exists>s \<in> set (nodes m). nodes m' = remove1 s (nodes m)) \<or> \<not> membersInv m"
  using assms by (induction rule: member_change.induct) (auto simp: member_ops membersInv_def split: if_splits)

text \<open>A quorum before the change and a quorum after it have a common member.\<close>

lemma quorum_overlap_grown:
  assumes "set ns \<subseteq> set ns'" "length ns' = Suc (length ns)" "isQuorum ns Q" "isQuorum ns' Q'"
  shows "Q \<inter> Q' \<noteq> {}"
proof -
  have "length ns' < card (Q \<inter> set ns) + card (Q' \<inter> set ns')"
    using assms(2-4) by (simp add: isQuorum_def calculateQuorumSize_def)
  moreover have "card (set ns') \<le> length ns'" by (rule card_length)
  ultimately have "(Q \<inter> set ns) \<inter> (Q' \<inter> set ns') \<noteq> {}"
    using assms(1) by (intro card_overlap [of "set ns'"]) auto
  then show ?thesis by auto
qed

lemma quorum_overlap_change:
  assumes "member_change m m'" "membersInv m" "isQuorum (nodes m) Q" "isQuorum (nodes m') Q'"
  shows "Q \<inter> Q' \<noteq> {}"
proof -
  consider "nodes m' = nodes m" | s where "nodes m' = nodes m @ [s]"
    | s where "s \<in> set (nodes m)" "nodes m' = remove1 s (nodes m)"
    using member_change_nodes [OF assms(1)] assms(2) by auto
  then show ?thesis
  proof cases
    case 1
    with assms(3,4) show ?thesis using majority.overlap by metis
  next
    case 2
    then show ?thesis using assms(3,4) by (intro quorum_overlap_grown [of "nodes m" "nodes m'"]) auto
  next
    case 3
    then have "length (nodes m) = Suc (length (nodes m'))"
      by (simp add: length_remove1) (metis Suc_pred length_pos_if_in_set)
    then have "Q' \<inter> Q \<noteq> {}"
      using 3 assms(3,4) set_remove1_subset [of s "nodes m"]
      by (intro quorum_overlap_grown [of "nodes m'" "nodes m"]) auto
    then show ?thesis by auto
  qed
qed

end
