(* ===== verification/RaftMessages.thy ===== *)
theory RaftMessages
  imports RaftTypes
begin

text \<open>
  The messages between the nodes: their fields and replies (\<^verbatim>\<open>src/src/raft/RaftCommon.hh\<close>), how a
  node writes them (\<^verbatim>\<open>src/src/raft/RaftTalker.cc\<close>) and how the other end reads them (\<open>RaftParser\<close> of
  \<^verbatim>\<open>src/src/raft/RaftUtils.cc\<close>).  A request is its list of chunks, a reply the tree the client
  library delivers.  The round trips say that what a node sends is what the other one reads.
\<close>

subsection \<open>Messages\<close>

record heartbeat_request =
  hb_term :: int
  hb_leader :: raft_server

record heartbeat_response =
  hbr_term :: int
  nodeRecognizedAsLeader :: bool
  hbr_err :: bytes

record append_entries_request =
  ae_term :: int
  ae_leader :: raft_server
  prevIndex :: int
  prevTerm :: int
  ae_commitIndex :: int
  entries :: "raft_entry list"

record append_entries_response =
  aer_term :: int
  aer_logSize :: int
  aer_outcome :: bool
  aer_err :: bytes

record vote_request =
  vr_term :: int
  candidate :: raft_server
  lastIndex :: int
  lastTerm :: int

datatype RaftVote = VETO | REFUSED | GRANTED

record vote_response =
  vresp_term :: int
  vresp_vote :: RaftVote

definition boolDigit :: "bool \<Rightarrow> bytes" where
  "boolDigit b = (if b then ''1'' else ''0'')"

definition heartbeatResponseVector :: "heartbeat_response \<Rightarrow> bytes list" where
  "heartbeatResponseVector r = [to_string (hbr_term r), boolDigit (nodeRecognizedAsLeader r), hbr_err r]"

definition appendEntriesResponseVector :: "append_entries_response \<Rightarrow> bytes list" where
  "appendEntriesResponseVector r =
     [to_string (aer_term r), to_string (aer_logSize r), boolDigit (aer_outcome r), aer_err r]"

fun voteToString :: "RaftVote \<Rightarrow> bytes" where
  "voteToString GRANTED = ''granted''"
| "voteToString REFUSED = ''refused''"
| "voteToString VETO = ''veto''"

definition voteResponseVector :: "vote_response \<Rightarrow> bytes list" where
  "voteResponseVector r = [to_string (vresp_term r), voteToString (vresp_vote r)]"

subsection \<open>Writing requests\<close>

definition talkHeartbeat :: "int \<Rightarrow> raft_server \<Rightarrow> bytes list" where
  "talkHeartbeat term leader = [''RAFT_HEARTBEAT'', to_string term, serverToString leader]"

fun checkEntryTerms :: "int \<Rightarrow> bytes list \<Rightarrow> unit option" where
  "checkEntryTerms term [] = Some ()"
| "checkEntryTerms term (e # es) = do {
     t \<leftarrow> fetchTerm e;
     assert_that (t \<le> term);
     checkEntryTerms term es }"

definition talkAppendEntries ::
  "int \<Rightarrow> raft_server \<Rightarrow> int \<Rightarrow> int \<Rightarrow> int \<Rightarrow> bytes list \<Rightarrow> bytes list option" where
  "talkAppendEntries term leader prevInd prevTrm commit es = do {
     assert_that (\<not> term < prevTrm);
     checkEntryTerms term es;
     Some ([''RAFT_APPEND_ENTRIES'', serverToString leader,
            intToBinaryString term @ intToBinaryString prevInd @ intToBinaryString prevTrm
            @ intToBinaryString commit @ intToBinaryString (int (length es))] @ es) }"

definition talkRequestVote :: "vote_request \<Rightarrow> bool \<Rightarrow> bytes list" where
  "talkRequestVote req preVote =
     [if preVote then ''RAFT_REQUEST_PRE_VOTE'' else ''RAFT_REQUEST_VOTE'', to_string (vr_term req),
      serverToString (candidate req), to_string (lastIndex req), to_string (lastTerm req)]"

definition talkFetch :: "int \<Rightarrow> bytes list" where
  "talkFetch index = [''RAFT_FETCH'', to_string index]"

subsection \<open>Reading requests\<close>

text \<open>
  \<open>None\<close> is a read out of bounds in \<open>RaftEntry::deserialize\<close>, \<open>Some None\<close> the result \<open>false\<close>.
\<close>

fun deserializeEntries :: "bytes list \<Rightarrow> raft_entry list option" where
  "deserializeEntries [] = Some []"
| "deserializeEntries (x # xs) = do { e \<leftarrow> deserializeEntry x; es \<leftarrow> deserializeEntries xs; Some (e # es) }"

definition parseAppendEntries :: "bytes list \<Rightarrow> append_entries_request option option" where
  "parseAppendEntries source =
     (if length source < 3 then Some None
      else case parseServer (source ! 1) of
             None \<Rightarrow> Some None
           | Some ldr \<Rightarrow>
               if length (source ! 2) \<noteq> 8 * 5 then Some None
               else let nreqs = binaryStringToInt (drop 32 (source ! 2))
                    in if to_int32 (int (length source)) \<noteq> 3 + nreqs then Some None
                       else do {
                         es \<leftarrow> deserializeEntries (take (nat nreqs) (drop 3 source));
                         Some (if 3 + nreqs \<noteq> int (length source) then None
                               else Some \<lparr>ae_term = binaryStringToInt (source ! 2), ae_leader = ldr,
                                      prevIndex = binaryStringToInt (drop 8 (source ! 2)),
                                      prevTerm = binaryStringToInt (drop 16 (source ! 2)),
                                      ae_commitIndex = binaryStringToInt (drop 24 (source ! 2)),
                                      entries = es\<rparr>) })"

definition parseHeartbeat :: "bytes list \<Rightarrow> heartbeat_request option" where
  "parseHeartbeat source = do {
     assert_that (length source = 3);
     t \<leftarrow> parseInt64 (source ! 1);
     ldr \<leftarrow> parseServer (source ! 2);
     Some \<lparr>hb_term = t, hb_leader = ldr\<rparr> }"

definition parseVoteRequest :: "bytes list \<Rightarrow> vote_request option" where
  "parseVoteRequest source = do {
     assert_that (length source = 5);
     t \<leftarrow> parseInt64 (source ! 1);
     c \<leftarrow> parseServer (source ! 2);
     i \<leftarrow> parseInt64 (source ! 3);
     lt \<leftarrow> parseInt64 (source ! 4);
     Some \<lparr>vr_term = t, candidate = c, lastIndex = i, lastTerm = lt\<rparr> }"

subsection \<open>Reading replies\<close>

datatype redis_reply = ReplyString bytes | ReplyArray "redis_reply list" | ReplyError bytes | ReplyOther

fun replyStrings :: "redis_reply list \<Rightarrow> bytes list option" where
  "replyStrings [] = Some []"
| "replyStrings (ReplyString s # rs) = map_option (Cons s) (replyStrings rs)"
| "replyStrings (_ # rs) = None"

text \<open>The checks every reader starts with: an array of \<open>n\<close> strings; \<open>None\<close> is the null pointer.\<close>

definition stringArray :: "nat \<Rightarrow> redis_reply option \<Rightarrow> bytes list option" where
  "stringArray n source =
     (case source of
        Some (ReplyArray rs) \<Rightarrow> if length rs = n then replyStrings rs else None
      | _ \<Rightarrow> None)"

definition parseBoolDigit :: "bytes \<Rightarrow> bool option" where
  "parseBoolDigit s = (if s = ''0'' then Some False else if s = ''1'' then Some True else None)"

definition parseAppendEntriesResponse :: "redis_reply option \<Rightarrow> append_entries_response option" where
  "parseAppendEntriesResponse source = do {
     xs \<leftarrow> stringArray 4 source;
     t \<leftarrow> parseInt64 (xs ! 0);
     l \<leftarrow> parseInt64 (xs ! 1);
     b \<leftarrow> parseBoolDigit (xs ! 2);
     Some \<lparr>aer_term = t, aer_logSize = l, aer_outcome = b, aer_err = xs ! 3\<rparr> }"

definition parseHeartbeatResponse :: "redis_reply option \<Rightarrow> heartbeat_response option" where
  "parseHeartbeatResponse source = do {
     xs \<leftarrow> stringArray 3 source;
     t \<leftarrow> parseInt64 (xs ! 0);
     b \<leftarrow> parseBoolDigit (xs ! 1);
     Some \<lparr>hbr_term = t, nodeRecognizedAsLeader = b, hbr_err = xs ! 2\<rparr> }"

definition parseVote :: "bytes \<Rightarrow> RaftVote option" where
  "parseVote s = (if s = ''granted'' then Some GRANTED else if s = ''refused'' then Some REFUSED
                  else if s = ''veto'' then Some VETO else None)"

definition parseVoteResponse :: "redis_reply option \<Rightarrow> vote_response option" where
  "parseVoteResponse source = do {
     xs \<leftarrow> stringArray 2 source;
     t \<leftarrow> parseInt64 (xs ! 0);
     v \<leftarrow> parseVote (xs ! 1);
     Some \<lparr>vresp_term = t, vresp_vote = v\<rparr> }"

definition parseFetchResponse :: "redis_reply option \<Rightarrow> raft_entry option" where
  "parseFetchResponse source =
     (case source of
        Some (ReplyArray [ReplyString tmp, ReplyArray req]) \<Rightarrow> do {
          xs \<leftarrow> replyStrings req;
          assert_that (startsWith tmp ''TERM: '');
          t \<leftarrow> parseInt64 (drop 6 tmp);
          Some \<lparr>entryTerm = t, request = xs\<rparr> }
      | _ \<Rightarrow> None)"

fun parseFetchResponses :: "redis_reply list \<Rightarrow> raft_entry list option" where
  "parseFetchResponses [] = Some []"
| "parseFetchResponses (r # rs) = do {
     e \<leftarrow> parseFetchResponse (Some r); es \<leftarrow> parseFetchResponses rs; Some (e # es) }"

definition parseFetchLastResponse :: "redis_reply option \<Rightarrow> raft_entry list option" where
  "parseFetchLastResponse source =
     (case source of Some (ReplyArray rs) \<Rightarrow> parseFetchResponses rs | _ \<Rightarrow> None)"

subsection \<open>Round trips\<close>

definition readable :: "int \<Rightarrow> bool" where
  "readable i \<longleftrightarrow> LLONG_MIN < i \<and> i < LLONG_MAX"

lemma readable_parse [simp]: "readable i \<Longrightarrow> parseInt64 (to_string i) = Some i"
  by (simp add: readable_def parseInt64_to_string)

lemma replyStrings_map [simp]: "replyStrings (map ReplyString xs) = Some xs"
  by (induction xs) auto

lemma stringArray_map [simp]:
  "stringArray n (Some (ReplyArray (map ReplyString xs))) = (if length xs = n then Some xs else None)"
  by (simp add: stringArray_def)

lemma parseBoolDigit_boolDigit [simp]: "parseBoolDigit (boolDigit b) = Some b"
  by (simp add: parseBoolDigit_def boolDigit_def)

lemma parseVote_toString [simp]: "parseVote (voteToString v) = Some v"
  by (cases v) (simp_all add: parseVote_def)

lemma heartbeat_roundtrip:
  "readable t \<Longrightarrow> okServer s \<Longrightarrow> parseHeartbeat (talkHeartbeat t s) = Some \<lparr>hb_term = t, hb_leader = s\<rparr>"
  by (simp add: parseHeartbeat_def talkHeartbeat_def)

lemma vote_request_roundtrip:
  assumes "readable (vr_term r)" "readable (lastIndex r)" "readable (lastTerm r)" "okServer (candidate r)"
  shows "parseVoteRequest (talkRequestVote r pre) = Some r"
  using assms by (simp add: parseVoteRequest_def talkRequestVote_def)

lemma replies_roundtrip:
  "readable (hbr_term h) \<Longrightarrow>
     parseHeartbeatResponse (Some (ReplyArray (map ReplyString (heartbeatResponseVector h)))) = Some h"
  "readable (aer_term a) \<Longrightarrow> readable (aer_logSize a) \<Longrightarrow>
     parseAppendEntriesResponse (Some (ReplyArray (map ReplyString (appendEntriesResponseVector a)))) = Some a"
  "readable (vresp_term v) \<Longrightarrow>
     parseVoteResponse (Some (ReplyArray (map ReplyString (voteResponseVector v)))) = Some v"
  unfolding parseHeartbeatResponse_def parseAppendEntriesResponse_def parseVoteResponse_def stringArray_map
  by (simp_all add: heartbeatResponseVector_def appendEntriesResponseVector_def voteResponseVector_def)

lemma checkEntryTerms_ok:
  "\<forall>e \<in> set es. okEntry e \<and> entryTerm e \<le> term \<Longrightarrow> checkEntryTerms term (map serializeEntry es) = Some ()"
  by (induction es) auto

lemma deserializeEntries_ok:
  "\<forall>e \<in> set es. okEntry e \<Longrightarrow> deserializeEntries (map serializeEntry es) = Some es"
  by (induction es) auto

text \<open>
  An \<open>AppendEntries\<close> request the leader can send, that is one whose entries are not newer than its
  term, is read as it was written.
\<close>

lemma append_entries_roundtrip:
  assumes "okServer (ae_leader r)" "\<forall>e \<in> set (entries r). okEntry e \<and> entryTerm e \<le> ae_term r"
    and "int64 (ae_term r)" "int64 (prevIndex r)" "int64 (prevTerm r)" "int64 (ae_commitIndex r)"
    and "prevTerm r \<le> ae_term r" "length (entries r) + 3 < 2 ^ 31"
  shows "\<exists>payload. talkAppendEntries (ae_term r) (ae_leader r) (prevIndex r) (prevTerm r) (ae_commitIndex r)
                     (map serializeEntry (entries r)) = Some payload
                 \<and> parseAppendEntries payload = Some (Some r)"
proof -
  let ?es = "map serializeEntry (entries r)"
  let ?n = "int (length (entries r))"
  let ?hdr = "intToBinaryString (ae_term r) @ intToBinaryString (prevIndex r) @ intToBinaryString (prevTerm r)
            @ intToBinaryString (ae_commitIndex r) @ intToBinaryString ?n"
  let ?p = "[''RAFT_APPEND_ENTRIES'', serverToString (ae_leader r), ?hdr] @ ?es"
  have n: "int64 ?n" using assms(8) by (simp add: int64_def)
  have hdr: "binaryStringToInt ?hdr = ae_term r" "binaryStringToInt (drop 8 ?hdr) = prevIndex r"
      "binaryStringToInt (drop 16 ?hdr) = prevTerm r" "binaryStringToInt (drop 24 ?hdr) = ae_commitIndex r"
      "binaryStringToInt (drop 32 ?hdr) = ?n" "length ?hdr = 40"
    using assms(3-6) n by simp_all
  have "to_int32 (int (length ?p)) = 3 + ?n" using assms(8) by simp
  then have "parseAppendEntries ?p = Some (Some r)"
    using assms(1,2) hdr deserializeEntries_ok [of "entries r"]
    by (simp add: parseAppendEntries_def Let_def)
  moreover have "talkAppendEntries (ae_term r) (ae_leader r) (prevIndex r) (prevTerm r) (ae_commitIndex r) ?es = Some ?p"
    using assms(2,7) by (simp add: talkAppendEntries_def checkEntryTerms_ok)
  ultimately show ?thesis by blast
qed

subsection \<open>Status of the replicas\<close>

record replica_status =
  target :: raft_server
  online :: bool
  rs_logSize :: int
  rs_version :: bytes
  resilveringProgress :: bytes

definition upToDate :: "int \<Rightarrow> replica_status \<Rightarrow> bool" where
  "upToDate leaderLogSize r \<longleftrightarrow>
     (if \<not> online r then False else if rs_logSize r < 0 then False
      else leaderLogSize - rs_logSize r < 30000)"

fun replicasOnline :: "replica_status list \<Rightarrow> nat" where
  "replicasOnline [] = 0"
| "replicasOnline (r # rs) = (if online r then 1 else 0) + replicasOnline rs"

fun replicasUpToDate :: "int \<Rightarrow> replica_status list \<Rightarrow> nat" where
  "replicasUpToDate l [] = 0"
| "replicasUpToDate l (r # rs) = (if upToDate l r then 1 else 0) + replicasUpToDate l rs"

definition quorumUpToDate :: "int \<Rightarrow> replica_status list \<Rightarrow> bool" where
  "quorumUpToDate l rs \<longleftrightarrow>
     (if length rs = 1 then True else calculateQuorumSize (length rs) \<le> replicasUpToDate l rs)"

fun getReplicaStatus :: "raft_server \<Rightarrow> replica_status list \<Rightarrow> replica_status option" where
  "getReplicaStatus s [] = None"
| "getReplicaStatus s (r # rs) = (if target r = s then Some r else getReplicaStatus s rs)"

fun removeReplica :: "raft_server \<Rightarrow> replica_status list \<Rightarrow> replica_status list option" where
  "removeReplica s [] = None"
| "removeReplica s (r # rs) = (if target r = s then Some rs else map_option (Cons r) (removeReplica s rs))"

fun removeReplicas :: "raft_server list \<Rightarrow> replica_status list \<Rightarrow> replica_status list option" where
  "removeReplicas [] rs = Some rs"
| "removeReplicas (s # ss) rs = do { rs \<leftarrow> removeReplica s rs; removeReplicas ss rs }"

definition addReplica :: "replica_status \<Rightarrow> replica_status list \<Rightarrow> replica_status list option" where
  "addReplica r rs = (if \<exists>x \<in> set rs. target x = target r then None else Some (rs @ [r]))"

definition containsReplica :: "raft_server \<Rightarrow> replica_status list \<Rightarrow> bool" where
  "containsReplica s rs \<longleftrightarrow> (\<exists>x \<in> set rs. target x = s)"

lemma replicasUpToDate_filter: "replicasUpToDate l rs = length (filter (upToDate l) rs)"
  by (induction rs) auto

lemma getReplicaStatus_ok: "distinct (map target rs) \<Longrightarrow> r \<in> set rs \<Longrightarrow> getReplicaStatus (target r) rs = Some r"
  by (induction rs) (auto simp: image_iff)

lemma removeReplica_ok:
  "distinct (map target rs) \<Longrightarrow> containsReplica s rs \<Longrightarrow> removeReplica s rs = Some (filter (\<lambda>r. target r \<noteq> s) rs)"
proof (induction rs)
  case (Cons r rs)
  show ?case
  proof (cases "target r = s")
    case True
    with Cons.prems(1) have "filter (\<lambda>r. target r \<noteq> s) rs = rs" by (auto simp: filter_id_conv image_iff)
    with True show ?thesis by simp
  next
    case False
    with Cons show ?thesis by (auto simp: containsReplica_def)
  qed
qed (simp add: containsReplica_def)

text \<open>The check before a membership change: the nodes that keep up with the leader are a quorum.\<close>

lemma quorumUpToDate_isQuorum:
  assumes "distinct (map target rs)" "length rs \<noteq> 1"
  shows "quorumUpToDate l rs \<longleftrightarrow> isQuorum (map target rs) {target r | r. r \<in> set rs \<and> upToDate l r}"
proof -
  have "{target r | r. r \<in> set rs \<and> upToDate l r} \<inter> set (map target rs) = set (map target (filter (upToDate l) rs))"
    by auto
  moreover have "distinct (map target (filter (upToDate l) rs))"
    using assms(1) by (simp add: distinct_map_filter)
  ultimately have "card ({target r | r. r \<in> set rs \<and> upToDate l r} \<inter> set (map target rs)) = replicasUpToDate l rs"
    by (metis distinct_card length_map replicasUpToDate_filter)
  then show ?thesis using assms(2) by (simp add: quorumUpToDate_def isQuorum_def)
qed

end
