(* ===== verification/RaftJournals.thy ===== *)
theory RaftJournals
  imports RaftTypes RocksStore
begin

text \<open>
  The replicated log (\<^verbatim>\<open>src/src/raft/RaftJournal.cc\<close>): the entries, the term, the vote, the commit
  index and the members of the cluster, cached in the object and backed by a database of its own.

  \<open>journalInv\<close> says that the cached values are those of the database, that the entries between
  \<open>logStart\<close> and \<open>logSize\<close> and no others are stored, that their terms do not decrease and are not
  newer than the current one, and that everything committed is there.
\<close>

record 'db raft_journal =
  j_db :: 'db
  currentTerm :: int
  commitIndex :: int
  logSize :: int
  logStart :: int
  membershipEpoch :: int
  members :: raft_members
  votedFor :: raft_server
  clusterID :: bytes
  fsyncPolicy :: FsyncPolicy
  termOfLastEntry :: int

definition kJournal_CurrentTerm :: bytes where "kJournal_CurrentTerm = ''RAFT_CURRENT_TERM''"
definition kJournal_LogSize :: bytes where "kJournal_LogSize = ''RAFT_LOG_SIZE''"
definition kJournal_LogStart :: bytes where "kJournal_LogStart = ''RAFT_LOG_START''"
definition kJournal_ClusterID :: bytes where "kJournal_ClusterID = ''RAFT_CLUSTER_ID''"
definition kJournal_VotedFor :: bytes where "kJournal_VotedFor = ''RAFT_VOTED_FOR''"
definition kJournal_CommitIndex :: bytes where "kJournal_CommitIndex = ''RAFT_COMMIT_INDEX''"
definition kJournal_Members :: bytes where "kJournal_Members = ''RAFT_MEMBERS''"
definition kJournal_MembershipEpoch :: bytes where "kJournal_MembershipEpoch = ''RAFT_MEMBERSHIP_EPOCH''"
definition kJournal_PreviousMembers :: bytes where "kJournal_PreviousMembers = ''RAFT_PREVIOUS_MEMBERS''"
definition kJournal_PreviousMembershipEpoch :: bytes where
  "kJournal_PreviousMembershipEpoch = ''RAFT_PREVIOUS_MEMBERSHIP_EPOCH''"
definition kJournal_FsyncPolicy :: bytes where "kJournal_FsyncPolicy = ''RAFT_FSYNC_POLICY''"

lemmas journal_keys = kJournal_CurrentTerm_def kJournal_LogSize_def kJournal_LogStart_def
  kJournal_ClusterID_def kJournal_VotedFor_def kJournal_CommitIndex_def kJournal_Members_def
  kJournal_MembershipEpoch_def kJournal_PreviousMembers_def kJournal_PreviousMembershipEpoch_def
  kJournal_FsyncPolicy_def

subsection \<open>Reading and writing the database\<close>

definition encodeEntryKey :: "int \<Rightarrow> bytes" where
  "encodeEntryKey index = CHR ''E'' # intToBinaryString index"

definition parseEntryKey :: "bytes \<Rightarrow> int option" where
  "parseEntryKey key =
     (if length key \<noteq> 1 + 8 then None else if key ! 0 \<noteq> CHR ''E'' then None
      else Some (binaryStringToInt (drop 1 key)))"

definition set_or_die ::
  "('db, 'wb) rocksdb \<Rightarrow> bytes \<Rightarrow> bytes \<Rightarrow> 'db raft_journal \<Rightarrow> 'db raft_journal option" where
  "set_or_die api key val j = do {
     let (ok, db') = db_put api (j_db j) key val;
     assert_that ok;
     Some (j\<lparr>j_db := db'\<rparr>) }"

definition set_int_or_die ::
  "('db, 'wb) rocksdb \<Rightarrow> bytes \<Rightarrow> int \<Rightarrow> 'db raft_journal \<Rightarrow> 'db raft_journal option" where
  "set_int_or_die api key val j = set_or_die api key (intToBinaryString val) j"

definition get_or_die :: "('db, 'wb) rocksdb \<Rightarrow> 'db raft_journal \<Rightarrow> bytes \<Rightarrow> bytes option" where
  "get_or_die api j key = found (db_get api (j_db j) key)"

definition get_int_or_die :: "('db, 'wb) rocksdb \<Rightarrow> 'db raft_journal \<Rightarrow> bytes \<Rightarrow> int option" where
  "get_int_or_die api j key = map_option binaryStringToInt (get_or_die api j key)"

text \<open>\<open>fetch\<close>: \<open>None\<close> is a read out of bounds while decoding, \<open>Some None\<close> a status that is not ok.\<close>

definition fetch :: "('db, 'wb) rocksdb \<Rightarrow> 'db raft_journal \<Rightarrow> int \<Rightarrow> raft_entry option option" where
  "fetch api j index =
     (case db_get api (j_db j) (encodeEntryKey index) of
        GetOk data \<Rightarrow> map_option Some (deserializeEntry data)
      | _ \<Rightarrow> Some None)"

definition fetch_or_die :: "('db, 'wb) rocksdb \<Rightarrow> 'db raft_journal \<Rightarrow> int \<Rightarrow> raft_entry option" where
  "fetch_or_die api j index = Option.bind (fetch api j index) id"

text \<open>\<open>fetch_last\<close> keeps an empty entry for an index it cannot fetch.\<close>

definition emptyEntry :: raft_entry where
  "emptyEntry = \<lparr>entryTerm = 0, request = []\<rparr>"

fun fetchAll :: "('db, 'wb) rocksdb \<Rightarrow> 'db raft_journal \<Rightarrow> int list \<Rightarrow> raft_entry list option" where
  "fetchAll api j [] = Some []"
| "fetchAll api j (i # is) = do {
     e \<leftarrow> fetch api j i;
     es \<leftarrow> fetchAll api j is;
     Some ((case e of Some e \<Rightarrow> e | None \<Rightarrow> emptyEntry) # es) }"

definition fetch_last :: "('db, 'wb) rocksdb \<Rightarrow> 'db raft_journal \<Rightarrow> int \<Rightarrow> raft_entry list option" where
  "fetch_last api j lst =
     (let endAt = logSize j; startAt = (if endAt - lst < 0 then 0 else endAt - lst)
      in fetchAll api j [startAt..endAt - 1])"

text \<open>The default of \<open>index\<close> is \<open>-1\<close>: the size of the log stays.\<close>

definition shouldSync :: "'db raft_journal \<Rightarrow> bool \<Rightarrow> bool" where
  "shouldSync j important =
     (case fsyncPolicy j of kAlways \<Rightarrow> True | kAsync \<Rightarrow> False | kSyncImportantUpdates \<Rightarrow> important)"

definition j_commitBatch ::
  "('db, 'wb) rocksdb \<Rightarrow> 'wb \<Rightarrow> int \<Rightarrow> bool \<Rightarrow> 'db raft_journal \<Rightarrow> 'db raft_journal option" where
  "j_commitBatch api batch index important j = do {
     assert_that (\<not> (0 \<le> index \<and> index \<le> commitIndex j));
     batch \<leftarrow> (if 0 \<le> index \<and> index \<noteq> logSize j then do {
                 assert_that (fst (wb_put api batch kJournal_LogSize (intToBinaryString index)));
                 Some (snd (wb_put api batch kJournal_LogSize (intToBinaryString index))) }
               else Some batch);
     let (ok, db') = db_write api \<lparr>opt_sync = shouldSync j important, opt_disableWAL = False\<rparr> (j_db j) batch;
     assert_that ok;
     Some (if 0 \<le> index then j\<lparr>j_db := db', logSize := index\<rparr> else j\<lparr>j_db := db'\<rparr>) }"

text \<open>Putting or deleting an entry of a batch, checked by \<open>THROW_ON_ERROR\<close>.\<close>

definition batchPut :: "('db, 'wb) rocksdb \<Rightarrow> bytes \<Rightarrow> bytes \<Rightarrow> 'wb \<Rightarrow> 'wb option" where
  "batchPut api k v wb = do { assert_that (fst (wb_put api wb k v)); Some (snd (wb_put api wb k v)) }"

function batchDeleteEntries :: "('db, 'wb) rocksdb \<Rightarrow> int \<Rightarrow> int \<Rightarrow> 'wb \<Rightarrow> 'wb option" where
  "batchDeleteEntries api i hi wb =
     (if i < hi then do {
        assert_that (fst (wb_delete api wb (encodeEntryKey i)));
        batchDeleteEntries api (i + 1) hi (snd (wb_delete api wb (encodeEntryKey i))) }
      else Some wb)"
  by pat_completeness auto
termination by (relation "measure (\<lambda>(api, i, hi, wb). nat (hi - i))") auto

declare batchDeleteEntries.simps [simp del]

subsection \<open>Opening and creating\<close>

definition ensureFsyncPolicyInitialized ::
  "('db, 'wb) rocksdb \<Rightarrow> 'db raft_journal \<Rightarrow> 'db raft_journal option" where
  "ensureFsyncPolicyInitialized api j =
     (case db_get api (j_db j) kJournal_FsyncPolicy of
        GetOk _ \<Rightarrow> Some j
      | GetNotFound \<Rightarrow> set_or_die api kJournal_FsyncPolicy (fsyncPolicyToString kSyncImportantUpdates) j
      | GetError \<Rightarrow> None)"

definition initializeFsyncPolicy ::
  "('db, 'wb) rocksdb \<Rightarrow> 'db raft_journal \<Rightarrow> 'db raft_journal option" where
  "initializeFsyncPolicy api j = do {
     policyStr \<leftarrow> get_or_die api j kJournal_FsyncPolicy;
     Some (j\<lparr>fsyncPolicy := (case parseFsyncPolicy policyStr of
                Some p \<Rightarrow> p | None \<Rightarrow> kSyncImportantUpdates)\<rparr>) }"

definition j_initialize :: "('db, 'wb) rocksdb \<Rightarrow> 'db raft_journal \<Rightarrow> 'db raft_journal option" where
  "j_initialize api j = do {
     t \<leftarrow> get_int_or_die api j kJournal_CurrentTerm;
     sz \<leftarrow> get_int_or_die api j kJournal_LogSize;
     start \<leftarrow> get_int_or_die api j kJournal_LogStart;
     cid \<leftarrow> get_or_die api j kJournal_ClusterID;
     ci \<leftarrow> get_int_or_die api j kJournal_CommitIndex;
     vote \<leftarrow> get_or_die api j kJournal_VotedFor;
     e \<leftarrow> fetch_or_die api j (sz - 1);
     epoch \<leftarrow> get_int_or_die api j kJournal_MembershipEpoch;
     mstr \<leftarrow> get_or_die api j kJournal_Members;
     m \<leftarrow> parseMembers mstr;
     let j = j\<lparr>currentTerm := t, logSize := sz, logStart := start, clusterID := cid, commitIndex := ci,
               termOfLastEntry := entryTerm e, membershipEpoch := epoch, members := m\<rparr>;
     j \<leftarrow> initializeFsyncPolicy api j;
     if vote \<noteq> [] then do { s \<leftarrow> parseServer vote; Some (j\<lparr>votedFor := s\<rparr>) } else Some j }"

text \<open>The object before \<open>initialize\<close>: the members the constructors leave at their defaults.\<close>

definition blankJournal :: "'db \<Rightarrow> 'db raft_journal" where
  "blankJournal db = \<lparr>j_db = db, currentTerm = 0, commitIndex = 0, logSize = 0, logStart = 0,
     membershipEpoch = 0, members = \<lparr>nodes = [], observers = []\<rparr>, votedFor = noServer, clusterID = [],
     fsyncPolicy = kAlways, termOfLastEntry = 0\<rparr>"

definition openJournal :: "('db, 'wb) rocksdb \<Rightarrow> 'db \<Rightarrow> 'db raft_journal option" where
  "openJournal api db = do {
     j \<leftarrow> ensureFsyncPolicyInitialized api (blankJournal db);
     j_initialize api j }"

fun eraseKeys :: "('db, 'wb) rocksdb \<Rightarrow> (bytes \<times> bytes) list \<Rightarrow> 'db \<Rightarrow> 'db" where
  "eraseKeys api [] db = db"
| "eraseKeys api (e # es) db = eraseKeys api es (snd (db_delete api db (fst e)))"

definition obliterate ::
  "('db, 'wb) rocksdb \<Rightarrow> bytes \<Rightarrow> raft_server list \<Rightarrow> int \<Rightarrow> FsyncPolicy
    \<Rightarrow> 'db raft_journal \<Rightarrow> 'db raft_journal option" where
  "obliterate api newClusterID newNodes startAt policy j = do {
     let j = j\<lparr>j_db := eraseKeys api (db_iter api (j_db j) []) (j_db j)\<rparr>;
     j \<leftarrow> set_int_or_die api kJournal_CurrentTerm 0 j;
     j \<leftarrow> set_int_or_die api kJournal_LogSize (startAt + 1) j;
     j \<leftarrow> set_int_or_die api kJournal_LogStart startAt j;
     j \<leftarrow> set_or_die api kJournal_ClusterID newClusterID j;
     j \<leftarrow> set_or_die api kJournal_VotedFor [] j;
     j \<leftarrow> set_int_or_die api kJournal_CommitIndex startAt j;
     let newMembers = \<lparr>nodes = newNodes, observers = []\<rparr>;
     j \<leftarrow> set_or_die api kJournal_Members (membersToString newMembers) j;
     j \<leftarrow> set_int_or_die api kJournal_MembershipEpoch startAt j;
     j \<leftarrow> set_or_die api kJournal_FsyncPolicy (fsyncPolicyToString policy) j;
     let entry = \<lparr>entryTerm = 0,
           request = [''JOURNAL_UPDATE_MEMBERS'', membersToString newMembers, newClusterID]\<rparr>;
     j \<leftarrow> set_or_die api (encodeEntryKey startAt) (serializeEntry entry) j;
     j_initialize api j }"

definition createJournal ::
  "('db, 'wb) rocksdb \<Rightarrow> 'db \<Rightarrow> bytes \<Rightarrow> raft_server list \<Rightarrow> int \<Rightarrow> FsyncPolicy \<Rightarrow> 'db raft_journal option" where
  "createJournal api db cid ns startAt policy = obliterate api cid ns startAt policy (blankJournal db)"

subsection \<open>Operations\<close>

definition setCurrentTerm ::
  "('db, 'wb) rocksdb \<Rightarrow> int \<Rightarrow> raft_server \<Rightarrow> 'db raft_journal \<Rightarrow> (bool \<times> 'db raft_journal) option" where
  "setCurrentTerm api term vote j =
     (if term < currentTerm j then Some (False, j)
      else if term = currentTerm j \<and> \<not> serverEmpty (votedFor j) then Some (False, j)
      else do {
        batch \<leftarrow> batchPut api kJournal_CurrentTerm (intToBinaryString term) (wb_empty api);
        batch \<leftarrow> batchPut api kJournal_VotedFor (serverToString vote) batch;
        j \<leftarrow> j_commitBatch api batch (- 1) True j;
        Some (True, j\<lparr>currentTerm := term, votedFor := vote\<rparr>) })"

definition rawSetCommitIndex ::
  "('db, 'wb) rocksdb \<Rightarrow> int \<Rightarrow> 'db raft_journal \<Rightarrow> 'db raft_journal option" where
  "rawSetCommitIndex api newIndex j = do {
     j \<leftarrow> set_int_or_die api kJournal_CommitIndex newIndex j;
     Some (j\<lparr>commitIndex := newIndex\<rparr>) }"

definition setCommitIndex ::
  "('db, 'wb) rocksdb \<Rightarrow> int \<Rightarrow> 'db raft_journal \<Rightarrow> (bool \<times> 'db raft_journal) option" where
  "setCommitIndex api newIndex j =
     (if newIndex < commitIndex j then Some (False, j)
      else do {
        assert_that (\<not> logSize j \<le> newIndex);
        j \<leftarrow> (if commitIndex j < newIndex then rawSetCommitIndex api newIndex j else Some j);
        Some (True, j) })"

definition appendNoLock ::
  "('db, 'wb) rocksdb \<Rightarrow> int \<Rightarrow> raft_entry \<Rightarrow> bool \<Rightarrow> 'db raft_journal \<Rightarrow> (bool \<times> 'db raft_journal) option" where
  "appendNoLock api index entry important j =
     (if index \<noteq> logSize j then Some (False, j)
      else if currentTerm j < entryTerm entry then Some (False, j)
      else if entryTerm entry < termOfLastEntry j then Some (False, j)
      else do {
        assert_that (request entry \<noteq> []);
        (batch, j) \<leftarrow>
          (if request entry ! 0 = ''JOURNAL_UPDATE_MEMBERS'' then do {
             assert_that (length (request entry) = 3);
             if request entry ! 2 = clusterID j then do {
               batch \<leftarrow> batchPut api kJournal_Members (request entry ! 1) (wb_empty api);
               batch \<leftarrow> batchPut api kJournal_MembershipEpoch (intToBinaryString index) batch;
               batch \<leftarrow> batchPut api kJournal_PreviousMembers (membersToString (members j)) batch;
               batch \<leftarrow> batchPut api kJournal_PreviousMembershipEpoch
                         (intToBinaryString (membershipEpoch j)) batch;
               m \<leftarrow> parseMembers (request entry ! 1);
               Some (batch, j\<lparr>members := m, membershipEpoch := index\<rparr>) }
             else Some (wb_empty api, j) }
           else Some (wb_empty api, j));
        batch \<leftarrow> batchPut api (encodeEntryKey index) (serializeEntry entry) batch;
        j \<leftarrow> j_commitBatch api batch (index + 1) important j;
        Some (True, j\<lparr>termOfLastEntry := entryTerm entry\<rparr>) })"

definition j_append ::
  "('db, 'wb) rocksdb \<Rightarrow> int \<Rightarrow> raft_entry \<Rightarrow> bool \<Rightarrow> 'db raft_journal \<Rightarrow> (bool \<times> 'db raft_journal) option" where
  "j_append api index entry important j = appendNoLock api index entry important j"

definition leadershipMarkerEntry :: "int \<Rightarrow> raft_server \<Rightarrow> raft_entry" where
  "leadershipMarkerEntry term leader =
     \<lparr>entryTerm = term, request = [''JOURNAL_LEADERSHIP_MARKER'', to_string term, serverToString leader]\<rparr>"

definition appendLeadershipMarker ::
  "('db, 'wb) rocksdb \<Rightarrow> int \<Rightarrow> int \<Rightarrow> raft_server \<Rightarrow> 'db raft_journal \<Rightarrow> (bool \<times> 'db raft_journal) option" where
  "appendLeadershipMarker api index term leader j = j_append api index (leadershipMarkerEntry term leader) True j"

text \<open>The membership operations: \<open>Inl\<close> carries the message for the administrator.\<close>

definition membershipUpdate ::
  "('db, 'wb) rocksdb \<Rightarrow> int \<Rightarrow> raft_members \<Rightarrow> 'db raft_journal
    \<Rightarrow> ((bytes + bool) \<times> 'db raft_journal) option" where
  "membershipUpdate api term newMembers j =
     (if commitIndex j < membershipEpoch j
      then Some (Inl (''the current membership epoch has not been committed yet: ''
                      @ to_string (membershipEpoch j)), j)
      else do {
        (ok, j) \<leftarrow> appendNoLock api (logSize j)
          \<lparr>entryTerm = term,
           request = [''JOURNAL_UPDATE_MEMBERS'', membersToString newMembers, clusterID j]\<rparr> True j;
        Some (Inr ok, j) })"

definition changeMembers ::
  "('db, 'wb) rocksdb \<Rightarrow> int \<Rightarrow> (raft_members \<Rightarrow> bytes + raft_members) \<Rightarrow> 'db raft_journal
    \<Rightarrow> ((bytes + bool) \<times> 'db raft_journal) option" where
  "changeMembers api term change j =
     (case change (members j) of
        Inl err \<Rightarrow> Some (Inl err, j)
      | Inr newMembers \<Rightarrow> membershipUpdate api term newMembers j)"

definition j_addObserver where "j_addObserver api term observer j = changeMembers api term (addObserver observer) j"
definition j_removeMember where "j_removeMember api term member j = changeMembers api term (removeMember member) j"
definition j_promoteObserver where "j_promoteObserver api term observer j = changeMembers api term (promoteObserver observer) j"
definition j_demoteToObserver where "j_demoteToObserver api term member j = changeMembers api term (demoteToObserver member) j"

definition setFsyncPolicy ::
  "('db, 'wb) rocksdb \<Rightarrow> FsyncPolicy \<Rightarrow> 'db raft_journal \<Rightarrow> 'db raft_journal option" where
  "setFsyncPolicy api pol j =
     (if fsyncPolicy j \<noteq> pol then do {
        j \<leftarrow> set_or_die api kJournal_FsyncPolicy (fsyncPolicyToString pol) j;
        Some (j\<lparr>fsyncPolicy := pol\<rparr>) }
      else Some j)"

definition trimUntil :: "('db, 'wb) rocksdb \<Rightarrow> int \<Rightarrow> 'db raft_journal \<Rightarrow> 'db raft_journal option" where
  "trimUntil api newLogStart j =
     (if newLogStart \<le> logStart j then Some j
      else do {
        assert_that (\<not> logSize j < newLogStart);
        assert_that (\<not> commitIndex j < newLogStart);
        batch \<leftarrow> batchDeleteEntries api (logStart j) newLogStart (wb_empty api);
        batch \<leftarrow> batchPut api kJournal_LogStart (intToBinaryString newLogStart) batch;
        j \<leftarrow> j_commitBatch api batch (- 1) False j;
        Some (j\<lparr>logStart := newLogStart\<rparr>) })"

definition removeEntries ::
  "('db, 'wb) rocksdb \<Rightarrow> int \<Rightarrow> 'db raft_journal \<Rightarrow> (bool \<times> 'db raft_journal) option" where
  "removeEntries api start j =
     (if logSize j \<le> start then Some (False, j)
      else do {
        assert_that (\<not> start \<le> commitIndex j);
        batch \<leftarrow> batchDeleteEntries api start (logSize j) (wb_empty api);
        (batch, j) \<leftarrow>
          (if start \<le> membershipEpoch j then do {
             previousMembershipEpoch \<leftarrow> get_int_or_die api j kJournal_PreviousMembershipEpoch;
             previousMembers \<leftarrow> get_or_die api j kJournal_PreviousMembers;
             batch \<leftarrow> batchPut api kJournal_MembershipEpoch (intToBinaryString previousMembershipEpoch) batch;
             batch \<leftarrow> batchPut api kJournal_Members previousMembers batch;
             m \<leftarrow> parseMembers previousMembers;
             Some (batch, j\<lparr>members := m, membershipEpoch := previousMembershipEpoch\<rparr>) }
           else Some (batch, j));
        j \<leftarrow> j_commitBatch api batch start False j;
        e \<leftarrow> fetch_or_die api j (start - 1);
        Some (True, j\<lparr>termOfLastEntry := entryTerm e\<rparr>) })"

definition simulateDataLoss ::
  "('db, 'wb) rocksdb \<Rightarrow> nat \<Rightarrow> 'db raft_journal \<Rightarrow> (bool \<times> 'db raft_journal) option" where
  "simulateDataLoss api numberOfEntries j = do {
     let newLogSize = logSize j - int numberOfEntries;
     j \<leftarrow> (if newLogSize \<le> commitIndex j then rawSetCommitIndex api (newLogSize - 1) j else Some j);
     removeEntries api newLogSize j }"

text \<open>\<open>compareEntries\<close>: the loop runs from \<open>i\<close>, \<open>es\<close> are the entries the leader sent from \<open>i\<close> on.\<close>

fun compareLoop ::
  "('db, 'wb) rocksdb \<Rightarrow> 'db raft_journal \<Rightarrow> int \<Rightarrow> int \<Rightarrow> raft_entry list \<Rightarrow> int option" where
  "compareLoop api j endAt i [] = Some endAt"
| "compareLoop api j endAt i (e # es) =
     (if i < endAt then do {
        entry \<leftarrow> fetch_or_die api j i;
        if e \<noteq> entry then Some i else compareLoop api j endAt (i + 1) es }
      else Some endAt)"

definition compareEntries ::
  "('db, 'wb) rocksdb \<Rightarrow> 'db raft_journal \<Rightarrow> int \<Rightarrow> raft_entry list \<Rightarrow> int option" where
  "compareEntries api j start es =
     (let endAt = min (logSize j) (start + int (length es)); startAt = max start (logStart j)
      in compareLoop api j endAt startAt (drop (nat (startAt - start)) es))"

definition matchEntries ::
  "('db, 'wb) rocksdb \<Rightarrow> 'db raft_journal \<Rightarrow> int \<Rightarrow> int \<Rightarrow> bool option" where
  "matchEntries api j index term =
     (if logSize j \<le> index then Some False
      else do {
        assert_that (db_get api (j_db j) (encodeEntryKey index) \<noteq> GetError);
        e \<leftarrow> fetch api j index;
        Some (case e of Some e \<Rightarrow> entryTerm e = term | None \<Rightarrow> False) })"

subsection \<open>The contents of the database\<close>

definition jview :: "('db, 'wb) rocksdb \<Rightarrow> 'db raft_journal \<Rightarrow> bytes \<Rightarrow> bytes option" where
  "jview api j k = found (db_get api (j_db j) k)"

definition logEntry :: "(bytes \<Rightarrow> bytes option) \<Rightarrow> int \<Rightarrow> raft_entry option" where
  "logEntry v i = Option.bind (v (encodeEntryKey i)) deserializeEntry"

definition entryAt :: "('db, 'wb) rocksdb \<Rightarrow> 'db raft_journal \<Rightarrow> int \<Rightarrow> raft_entry option" where
  "entryAt api j i = logEntry (jview api j) i"

lemma jview_simps [simp]:
  "jview api (j\<lparr>currentTerm := t\<rparr>) = jview api j" "jview api (j\<lparr>commitIndex := i\<rparr>) = jview api j"
  "jview api (j\<lparr>logSize := i\<rparr>) = jview api j" "jview api (j\<lparr>logStart := i\<rparr>) = jview api j"
  "jview api (j\<lparr>membershipEpoch := i\<rparr>) = jview api j" "jview api (j\<lparr>members := m\<rparr>) = jview api j"
  "jview api (j\<lparr>votedFor := s\<rparr>) = jview api j" "jview api (j\<lparr>termOfLastEntry := t\<rparr>) = jview api j"
  "jview api (j\<lparr>fsyncPolicy := p\<rparr>) = jview api j" "jview api (j\<lparr>clusterID := c\<rparr>) = jview api j"
  "jview api (j\<lparr>j_db := d\<rparr>) = (\<lambda>k. found (db_get api d k))"
  "get_or_die api j k = jview api j k"
  by (simp_all add: jview_def [abs_def] get_or_die_def)

lemma jview_get: "rocksdb_laws api \<Longrightarrow> db_get api (j_db j) k = status_of (jview api j k)"
  unfolding jview_def by (rule rocksdb_lawsD(1))

lemma encodeEntryKey_eq [simp]:
  assumes "int64 i" "int64 k"
  shows "encodeEntryKey i = encodeEntryKey k \<longleftrightarrow> i = k"
  using int_roundtrip [OF assms(1)] int_roundtrip [OF assms(2)]
  unfolding encodeEntryKey_def by (metis list.inject)

lemma parse_encodeEntryKey: "int64 i \<Longrightarrow> parseEntryKey (encodeEntryKey i) = Some i"
  by (simp add: parseEntryKey_def encodeEntryKey_def)

lemma entryKey_neq [simp]:
  "encodeEntryKey i \<noteq> kJournal_CurrentTerm" "encodeEntryKey i \<noteq> kJournal_LogSize"
  "encodeEntryKey i \<noteq> kJournal_LogStart" "encodeEntryKey i \<noteq> kJournal_ClusterID"
  "encodeEntryKey i \<noteq> kJournal_VotedFor" "encodeEntryKey i \<noteq> kJournal_CommitIndex"
  "encodeEntryKey i \<noteq> kJournal_Members" "encodeEntryKey i \<noteq> kJournal_MembershipEpoch"
  "encodeEntryKey i \<noteq> kJournal_PreviousMembers" "encodeEntryKey i \<noteq> kJournal_PreviousMembershipEpoch"
  "encodeEntryKey i \<noteq> kJournal_FsyncPolicy"
  by (simp_all add: encodeEntryKey_def journal_keys)

lemmas entryKey_neq' [simp] = entryKey_neq [symmetric]

lemma fetch_entry:
  assumes "rocksdb_laws api" "jview api j (encodeEntryKey i) = Some (serializeEntry e)" "okEntry e"
  shows "fetch api j i = Some (Some e)" "fetch_or_die api j i = Some e" "entryAt api j i = Some e"
  using assms jview_get [OF assms(1), of j "encodeEntryKey i"]
  by (simp_all add: fetch_def fetch_or_die_def entryAt_def logEntry_def)

lemma fetch_absent:
  assumes "rocksdb_laws api" "jview api j (encodeEntryKey i) = None"
  shows "fetch api j i = Some None" "entryAt api j i = None"
  using assms jview_get [OF assms(1), of j "encodeEntryKey i"]
  by (simp_all add: fetch_def entryAt_def logEntry_def)

subsection \<open>Invariant\<close>

definition cached :: "(bytes \<Rightarrow> bytes option) \<Rightarrow> 'db raft_journal \<Rightarrow> bool" where
  "cached v j \<longleftrightarrow>
     v kJournal_CurrentTerm = Some (intToBinaryString (currentTerm j))
     \<and> v kJournal_LogSize = Some (intToBinaryString (logSize j))
     \<and> v kJournal_LogStart = Some (intToBinaryString (logStart j))
     \<and> v kJournal_ClusterID = Some (clusterID j)
     \<and> v kJournal_VotedFor = Some (serverToString (votedFor j))
     \<and> v kJournal_CommitIndex = Some (intToBinaryString (commitIndex j))
     \<and> v kJournal_Members = Some (membersToString (members j))
     \<and> v kJournal_MembershipEpoch = Some (intToBinaryString (membershipEpoch j))
     \<and> v kJournal_FsyncPolicy = Some (fsyncPolicyToString (fsyncPolicy j))"

definition okMembers :: "raft_members \<Rightarrow> bool" where
  "okMembers m \<longleftrightarrow> membersInv m \<and> nodes m \<noteq> []"

definition okVote :: "raft_server \<Rightarrow> bool" where
  "okVote s \<longleftrightarrow> s = noServer \<or> okServer s"

definition bounds :: "'db raft_journal \<Rightarrow> bool" where
  "bounds j \<longleftrightarrow>
     0 \<le> logStart j \<and> logStart j \<le> commitIndex j \<and> commitIndex j < logSize j \<and> int64 (logSize j)
     \<and> int64 (currentTerm j) \<and> 0 \<le> membershipEpoch j \<and> membershipEpoch j < logSize j
     \<and> okMembers (members j) \<and> okVote (votedFor j)"

definition okLogEntry :: "raft_entry \<Rightarrow> bool" where
  "okLogEntry e \<longleftrightarrow> okEntry e \<and> request e \<noteq> []"

text \<open>A key of the database that starts with an \<open>E\<close>: in the journal, only the keys of log positions do.\<close>

definition entryKey :: "bytes \<Rightarrow> bool" where
  "entryKey k \<longleftrightarrow> k \<noteq> [] \<and> hd k = CHR ''E''"

lemma entryKey_simps [simp]:
  "entryKey (encodeEntryKey i)" "\<not> entryKey kJournal_CurrentTerm" "\<not> entryKey kJournal_LogSize" "\<not> entryKey kJournal_LogStart"
  "\<not> entryKey kJournal_ClusterID" "\<not> entryKey kJournal_VotedFor" "\<not> entryKey kJournal_CommitIndex" "\<not> entryKey kJournal_Members"
  "\<not> entryKey kJournal_MembershipEpoch" "\<not> entryKey kJournal_PreviousMembers" "\<not> entryKey kJournal_PreviousMembershipEpoch"
  "\<not> entryKey kJournal_FsyncPolicy"
  by (simp_all add: entryKey_def encodeEntryKey_def kJournal_CurrentTerm_def kJournal_LogSize_def kJournal_LogStart_def kJournal_ClusterID_def
      kJournal_VotedFor_def kJournal_CommitIndex_def kJournal_Members_def kJournal_MembershipEpoch_def kJournal_PreviousMembers_def
      kJournal_PreviousMembershipEpoch_def kJournal_FsyncPolicy_def)

definition stored :: "(bytes \<Rightarrow> bytes option) \<Rightarrow> int \<Rightarrow> int \<Rightarrow> bool" where
  "stored v lo hi \<longleftrightarrow>
     (\<forall>i. lo \<le> i \<longrightarrow> i < hi \<longrightarrow> (\<exists>e. okLogEntry e \<and> v (encodeEntryKey i) = Some (serializeEntry e)))
   \<and> (\<forall>i. 0 \<le> i \<longrightarrow> int64 i \<longrightarrow> i < lo \<or> hi \<le> i \<longrightarrow> v (encodeEntryKey i) = None)
   \<and> (\<forall>k. entryKey k \<longrightarrow> v k \<noteq> None \<longrightarrow> (\<exists>i. 0 \<le> i \<and> int64 i \<and> k = encodeEntryKey i))"

definition termsSorted :: "(bytes \<Rightarrow> bytes option) \<Rightarrow> int \<Rightarrow> int \<Rightarrow> bool" where
  "termsSorted v lo hi \<longleftrightarrow>
     (\<forall>i k a b. lo \<le> i \<longrightarrow> i \<le> k \<longrightarrow> k < hi \<longrightarrow> logEntry v i = Some a \<longrightarrow> logEntry v k = Some b
        \<longrightarrow> entryTerm a \<le> entryTerm b)"

definition lastTermOk :: "(bytes \<Rightarrow> bytes option) \<Rightarrow> 'db raft_journal \<Rightarrow> bool" where
  "lastTermOk v j \<longleftrightarrow>
     (\<exists>e. logEntry v (logSize j - 1) = Some e \<and> entryTerm e = termOfLastEntry j)
     \<and> termOfLastEntry j \<le> currentTerm j"

text \<open>An uncommitted membership epoch can be rolled back to the one before it.\<close>

definition rollbackOk :: "(bytes \<Rightarrow> bytes option) \<Rightarrow> 'db raft_journal \<Rightarrow> bool" where
  "rollbackOk v j \<longleftrightarrow>
     (commitIndex j < membershipEpoch j \<longrightarrow>
        (\<exists>pe pm. v kJournal_PreviousMembershipEpoch = Some (intToBinaryString pe)
           \<and> v kJournal_PreviousMembers = Some (membersToString pm)
           \<and> 0 \<le> pe \<and> pe < membershipEpoch j \<and> okMembers pm))"

definition journalInv :: "('db, 'wb) rocksdb \<Rightarrow> 'db raft_journal \<Rightarrow> bool" where
  "journalInv api j \<longleftrightarrow>
     rocksdb_laws api \<and> cached (jview api j) j \<and> bounds j \<and> stored (jview api j) (logStart j) (logSize j)
     \<and> termsSorted (jview api j) (logStart j) (logSize j) \<and> lastTermOk (jview api j) j
     \<and> rollbackOk (jview api j) j"

lemma journalInvD:
  assumes "journalInv api j"
  shows "rocksdb_laws api" "cached (jview api j) j" "bounds j" "stored (jview api j) (logStart j) (logSize j)"
    "termsSorted (jview api j) (logStart j) (logSize j)" "lastTermOk (jview api j) j" "rollbackOk (jview api j) j"
  using assms by (simp_all add: journalInv_def)

lemma int64_between: "int64 b \<Longrightarrow> 0 \<le> i \<Longrightarrow> i \<le> b \<Longrightarrow> int64 i"
  by (simp add: int64_def)

lemma log_entry:
  assumes "journalInv api j" "logStart j \<le> i" "i < logSize j"
  obtains e where "okLogEntry e" "jview api j (encodeEntryKey i) = Some (serializeEntry e)"
    "entryAt api j i = Some e" "fetch api j i = Some (Some e)" "fetch_or_die api j i = Some e"
proof -
  obtain e where e: "okLogEntry e" "jview api j (encodeEntryKey i) = Some (serializeEntry e)"
    using journalInvD(4) [OF assms(1)] assms(2,3) by (auto simp: stored_def)
  then have "okEntry e" by (simp add: okLogEntry_def)
  with e fetch_entry [OF journalInvD(1) [OF assms(1)] e(2)] that show ?thesis by blast
qed

lemma log_absent:
  assumes "journalInv api j" "0 \<le> i" "int64 i" "i < logStart j \<or> logSize j \<le> i"
  shows "fetch api j i = Some None" "entryAt api j i = None"
proof -
  have "jview api j (encodeEntryKey i) = None"
    using journalInvD(4) [OF assms(1)] assms(2-4) unfolding stored_def by blast
  with fetch_absent [OF journalInvD(1) [OF assms(1)]] show "fetch api j i = Some None" "entryAt api j i = None"
    by simp_all
qed

text \<open>Changing keys that hold no entries.\<close>

definition sameLog :: "(bytes \<Rightarrow> bytes option) \<Rightarrow> (bytes \<Rightarrow> bytes option) \<Rightarrow> bool" where
  "sameLog v v' \<longleftrightarrow> (\<forall>k. entryKey k \<longrightarrow> v' k = v k)"

lemma sameLog_preserves:
  assumes "sameLog v v'"
  shows "logEntry v' i = logEntry v i" "stored v' lo hi = stored v lo hi"
    "termsSorted v' lo hi = termsSorted v lo hi"
  using assms by (simp_all add: sameLog_def logEntry_def stored_def termsSorted_def)

subsection \<open>What batches do\<close>

lemma batchPut_Some: "rocksdb_laws api \<Longrightarrow> batchPut api k v wb = Some (snd (wb_put api wb k v))"
  using rocksdb_lawsD(10) [of api wb k v] by (simp add: batchPut_def)

lemma batchDeleteEntries_ok:
  assumes "rocksdb_laws api"
  shows "\<exists>wb'. batchDeleteEntries api i hi wb = Some wb'
    \<and> (\<forall>d x. wb_get_db api d wb' x
              = (if \<exists>n. i \<le> n \<and> n < hi \<and> x = encodeEntryKey n then GetNotFound else wb_get_db api d wb x))"
  using assms
proof (induction api i hi wb rule: batchDeleteEntries.induct)
  case (1 api i hi wb)
  show ?case
  proof (cases "i < hi")
    case True
    let ?wb1 = "snd (wb_delete api wb (encodeEntryKey i))"
    from "1.IH" [OF True _ "1.prems"] rocksdb_lawsD(13) [OF "1.prems"] obtain wb' where
      wb': "batchDeleteEntries api (i + 1) hi ?wb1 = Some wb'"
      "\<And>d x. wb_get_db api d wb' x = (if \<exists>n. i + 1 \<le> n \<and> n < hi \<and> x = encodeEntryKey n then GetNotFound
                                       else wb_get_db api d ?wb1 x)"
      by fastforce
    have "(\<exists>n. i \<le> n \<and> n < hi \<and> x = encodeEntryKey n)
        \<longleftrightarrow> x = encodeEntryKey i \<or> (\<exists>n. i + 1 \<le> n \<and> n < hi \<and> x = encodeEntryKey n)" for x
      using True by (metis add1_zle_eq le_less order_refl)
    with wb' True rocksdb_lawsD(13,15) [OF "1.prems"] show ?thesis
      by (subst batchDeleteEntries.simps) auto
  next
    case False
    then show ?thesis by (subst batchDeleteEntries.simps) auto
  qed
qed

lemma j_commitBatch_ok:
  assumes "rocksdb_laws api" "index < 0 \<or> commitIndex j < index"
  shows "\<exists>db'. j_commitBatch api wb index important j = Some (j\<lparr>j_db := db', logSize := if 0 \<le> index then index else logSize j\<rparr>)
    \<and> (\<forall>x. found (db_get api db' x)
        = (if 0 \<le> index \<and> index \<noteq> logSize j \<and> x = kJournal_LogSize then Some (intToBinaryString index)
           else found (wb_get_db api (j_db j) wb x)))"
proof -
  have *: "\<not> (0 \<le> index \<and> index \<le> commitIndex j)" using assms(2) by auto
  show ?thesis
  proof (cases "0 \<le> index \<and> index \<noteq> logSize j")
    case True
    with * rocksdb_lawsD(6,7,10,12) [OF assms(1)] show ?thesis
      by (intro exI [of _ "snd (db_write api \<lparr>opt_sync = shouldSync j important, opt_disableWAL = False\<rparr>
              (j_db j) (snd (wb_put api wb kJournal_LogSize (intToBinaryString index))))"])
        (simp add: j_commitBatch_def case_prod_beta found_def)
  next
    case False
    with * rocksdb_lawsD(6,7) [OF assms(1)] show ?thesis
      by (intro exI [of _ "snd (db_write api \<lparr>opt_sync = shouldSync j important, opt_disableWAL = False\<rparr> (j_db j) wb)"])
        (auto simp: j_commitBatch_def case_prod_beta)
  qed
qed

lemma set_or_die_ok:
  assumes "rocksdb_laws api"
  shows "\<exists>db'. set_or_die api k v j = Some (j\<lparr>j_db := db'\<rparr>)
    \<and> (\<forall>x. found (db_get api db' x) = ((jview api j)(k \<mapsto> v)) x)"
  using rocksdb_lawsD(4,5) [OF assms]
  by (intro exI [of _ "snd (db_put api (j_db j) k v)"]) (simp add: set_or_die_def case_prod_beta jview_def found_def)

lemma found_batch:
  assumes "rocksdb_laws api"
  shows "found (wb_get_db api d (wb_empty api) x) = found (db_get api d x)"
    "found (wb_get_db api d (snd (wb_put api wb k v)) x) = (if x = k then Some v else found (wb_get_db api d wb x))"
  using rocksdb_lawsD(8,12) [OF assms] by (simp_all add: found_def)

end
