(* ===== verification/RaftLog.thy ===== *)
theory RaftLog
  imports RaftJournals
begin

text \<open>
  The operations of the journal keep its invariant; what they do to the log.  The steps a running
  node takes are the relation \<open>journal_step\<close>; along them terms only grow, a vote is final, and a
  committed entry stays as it is until it is trimmed.
\<close>

subsection \<open>The operations\<close>

lemma journal_keys_neq [simp]:
  "kJournal_CurrentTerm \<noteq> kJournal_LogSize" "kJournal_CurrentTerm \<noteq> kJournal_LogStart"
  "kJournal_CurrentTerm \<noteq> kJournal_ClusterID" "kJournal_CurrentTerm \<noteq> kJournal_VotedFor"
  "kJournal_CurrentTerm \<noteq> kJournal_CommitIndex" "kJournal_CurrentTerm \<noteq> kJournal_Members"
  "kJournal_CurrentTerm \<noteq> kJournal_MembershipEpoch" "kJournal_CurrentTerm \<noteq> kJournal_PreviousMembers"
  "kJournal_CurrentTerm \<noteq> kJournal_PreviousMembershipEpoch" "kJournal_CurrentTerm \<noteq> kJournal_FsyncPolicy"
  "kJournal_LogSize \<noteq> kJournal_CurrentTerm" "kJournal_LogSize \<noteq> kJournal_LogStart"
  "kJournal_LogSize \<noteq> kJournal_ClusterID" "kJournal_LogSize \<noteq> kJournal_VotedFor"
  "kJournal_LogSize \<noteq> kJournal_CommitIndex" "kJournal_LogSize \<noteq> kJournal_Members"
  "kJournal_LogSize \<noteq> kJournal_MembershipEpoch" "kJournal_LogSize \<noteq> kJournal_PreviousMembers"
  "kJournal_LogSize \<noteq> kJournal_PreviousMembershipEpoch" "kJournal_LogSize \<noteq> kJournal_FsyncPolicy"
  "kJournal_LogStart \<noteq> kJournal_CurrentTerm" "kJournal_LogStart \<noteq> kJournal_LogSize"
  "kJournal_LogStart \<noteq> kJournal_ClusterID" "kJournal_LogStart \<noteq> kJournal_VotedFor"
  "kJournal_LogStart \<noteq> kJournal_CommitIndex" "kJournal_LogStart \<noteq> kJournal_Members"
  "kJournal_LogStart \<noteq> kJournal_MembershipEpoch" "kJournal_LogStart \<noteq> kJournal_PreviousMembers"
  "kJournal_LogStart \<noteq> kJournal_PreviousMembershipEpoch" "kJournal_LogStart \<noteq> kJournal_FsyncPolicy"
  "kJournal_ClusterID \<noteq> kJournal_CurrentTerm" "kJournal_ClusterID \<noteq> kJournal_LogSize"
  "kJournal_ClusterID \<noteq> kJournal_LogStart" "kJournal_ClusterID \<noteq> kJournal_VotedFor"
  "kJournal_ClusterID \<noteq> kJournal_CommitIndex" "kJournal_ClusterID \<noteq> kJournal_Members"
  "kJournal_ClusterID \<noteq> kJournal_MembershipEpoch" "kJournal_ClusterID \<noteq> kJournal_PreviousMembers"
  "kJournal_ClusterID \<noteq> kJournal_PreviousMembershipEpoch" "kJournal_ClusterID \<noteq> kJournal_FsyncPolicy"
  "kJournal_VotedFor \<noteq> kJournal_CurrentTerm" "kJournal_VotedFor \<noteq> kJournal_LogSize"
  "kJournal_VotedFor \<noteq> kJournal_LogStart" "kJournal_VotedFor \<noteq> kJournal_ClusterID"
  "kJournal_VotedFor \<noteq> kJournal_CommitIndex" "kJournal_VotedFor \<noteq> kJournal_Members"
  "kJournal_VotedFor \<noteq> kJournal_MembershipEpoch" "kJournal_VotedFor \<noteq> kJournal_PreviousMembers"
  "kJournal_VotedFor \<noteq> kJournal_PreviousMembershipEpoch" "kJournal_VotedFor \<noteq> kJournal_FsyncPolicy"
  "kJournal_CommitIndex \<noteq> kJournal_CurrentTerm" "kJournal_CommitIndex \<noteq> kJournal_LogSize"
  "kJournal_CommitIndex \<noteq> kJournal_LogStart" "kJournal_CommitIndex \<noteq> kJournal_ClusterID"
  "kJournal_CommitIndex \<noteq> kJournal_VotedFor" "kJournal_CommitIndex \<noteq> kJournal_Members"
  "kJournal_CommitIndex \<noteq> kJournal_MembershipEpoch" "kJournal_CommitIndex \<noteq> kJournal_PreviousMembers"
  "kJournal_CommitIndex \<noteq> kJournal_PreviousMembershipEpoch" "kJournal_CommitIndex \<noteq> kJournal_FsyncPolicy"
  "kJournal_Members \<noteq> kJournal_CurrentTerm" "kJournal_Members \<noteq> kJournal_LogSize"
  "kJournal_Members \<noteq> kJournal_LogStart" "kJournal_Members \<noteq> kJournal_ClusterID"
  "kJournal_Members \<noteq> kJournal_VotedFor" "kJournal_Members \<noteq> kJournal_CommitIndex"
  "kJournal_Members \<noteq> kJournal_MembershipEpoch" "kJournal_Members \<noteq> kJournal_PreviousMembers"
  "kJournal_Members \<noteq> kJournal_PreviousMembershipEpoch" "kJournal_Members \<noteq> kJournal_FsyncPolicy"
  "kJournal_MembershipEpoch \<noteq> kJournal_CurrentTerm" "kJournal_MembershipEpoch \<noteq> kJournal_LogSize"
  "kJournal_MembershipEpoch \<noteq> kJournal_LogStart" "kJournal_MembershipEpoch \<noteq> kJournal_ClusterID"
  "kJournal_MembershipEpoch \<noteq> kJournal_VotedFor" "kJournal_MembershipEpoch \<noteq> kJournal_CommitIndex"
  "kJournal_MembershipEpoch \<noteq> kJournal_Members" "kJournal_MembershipEpoch \<noteq> kJournal_PreviousMembers"
  "kJournal_MembershipEpoch \<noteq> kJournal_PreviousMembershipEpoch" "kJournal_MembershipEpoch \<noteq> kJournal_FsyncPolicy"
  "kJournal_PreviousMembers \<noteq> kJournal_CurrentTerm" "kJournal_PreviousMembers \<noteq> kJournal_LogSize"
  "kJournal_PreviousMembers \<noteq> kJournal_LogStart" "kJournal_PreviousMembers \<noteq> kJournal_ClusterID"
  "kJournal_PreviousMembers \<noteq> kJournal_VotedFor" "kJournal_PreviousMembers \<noteq> kJournal_CommitIndex"
  "kJournal_PreviousMembers \<noteq> kJournal_Members" "kJournal_PreviousMembers \<noteq> kJournal_MembershipEpoch"
  "kJournal_PreviousMembers \<noteq> kJournal_PreviousMembershipEpoch" "kJournal_PreviousMembers \<noteq> kJournal_FsyncPolicy"
  "kJournal_PreviousMembershipEpoch \<noteq> kJournal_CurrentTerm" "kJournal_PreviousMembershipEpoch \<noteq> kJournal_LogSize"
  "kJournal_PreviousMembershipEpoch \<noteq> kJournal_LogStart" "kJournal_PreviousMembershipEpoch \<noteq> kJournal_ClusterID"
  "kJournal_PreviousMembershipEpoch \<noteq> kJournal_VotedFor" "kJournal_PreviousMembershipEpoch \<noteq> kJournal_CommitIndex"
  "kJournal_PreviousMembershipEpoch \<noteq> kJournal_Members" "kJournal_PreviousMembershipEpoch \<noteq> kJournal_MembershipEpoch"
  "kJournal_PreviousMembershipEpoch \<noteq> kJournal_PreviousMembers" "kJournal_PreviousMembershipEpoch \<noteq> kJournal_FsyncPolicy"
  "kJournal_FsyncPolicy \<noteq> kJournal_CurrentTerm" "kJournal_FsyncPolicy \<noteq> kJournal_LogSize"
  "kJournal_FsyncPolicy \<noteq> kJournal_LogStart" "kJournal_FsyncPolicy \<noteq> kJournal_ClusterID"
  "kJournal_FsyncPolicy \<noteq> kJournal_VotedFor" "kJournal_FsyncPolicy \<noteq> kJournal_CommitIndex"
  "kJournal_FsyncPolicy \<noteq> kJournal_Members" "kJournal_FsyncPolicy \<noteq> kJournal_MembershipEpoch"
  "kJournal_FsyncPolicy \<noteq> kJournal_PreviousMembers" "kJournal_FsyncPolicy \<noteq> kJournal_PreviousMembershipEpoch"
  by (simp_all add: journal_keys)

lemma found_get [simp]: "found GetNotFound = None" "found (GetOk x) = Some x"
  by (simp_all add: found_def)

lemma sameLog_upd [simp]:
  "sameLog v v" "\<not> entryKey k \<Longrightarrow> sameLog v (v'(k := y)) = sameLog v v'"
  by (auto simp: sameLog_def)

lemma journalInv_sameLog:
  assumes "journalInv api j" "sameLog (jview api j) (jview api j')"
    and "logStart j' = logStart j" "logSize j' = logSize j" "termOfLastEntry j' = termOfLastEntry j"
    and "cached (jview api j') j'" "bounds j'" "currentTerm j \<le> currentTerm j'" "rollbackOk (jview api j') j'"
  shows "journalInv api j'"
  using assms journalInvD [OF assms(1)] sameLog_preserves [OF assms(2)]
  by (auto simp: journalInv_def lastTermOk_def)

lemma setCurrentTerm_rejects:
  "term < currentTerm j \<or> term = currentTerm j \<and> \<not> serverEmpty (votedFor j) \<Longrightarrow>
   setCurrentTerm api term vote j = Some (False, j)"
  by (auto simp: setCurrentTerm_def)

lemma setCurrentTerm_ok:
  assumes inv: "journalInv api j" and "int64 term" "okVote vote"
    and ok: "currentTerm j < term \<or> term = currentTerm j \<and> serverEmpty (votedFor j)"
  shows "\<exists>db'. setCurrentTerm api term vote j = Some (True, j\<lparr>j_db := db', currentTerm := term, votedFor := vote\<rparr>)
    \<and> journalInv api (j\<lparr>j_db := db', currentTerm := term, votedFor := vote\<rparr>)
    \<and> sameLog (jview api j) (\<lambda>x. found (db_get api db' x))
    \<and> found (db_get api db' kJournal_PreviousMembershipEpoch) = jview api j kJournal_PreviousMembershipEpoch"
proof -
  note D = journalInvD [OF inv]
  let ?wb = "snd (wb_put api (snd (wb_put api (wb_empty api) kJournal_CurrentTerm (intToBinaryString term)))
               kJournal_VotedFor (serverToString vote))"
  from j_commitBatch_ok [OF D(1), of "- 1" j ?wb True] obtain db' where
    c: "j_commitBatch api ?wb (- 1) True j = Some (j\<lparr>j_db := db'\<rparr>)"
    and g: "\<And>x. found (db_get api db' x) = found (wb_get_db api (j_db j) ?wb x)"
    by auto
  have v: "(\<lambda>x. found (db_get api db' x))
      = (jview api j)(kJournal_CurrentTerm \<mapsto> intToBinaryString term, kJournal_VotedFor \<mapsto> serverToString vote)"
    by (auto simp: fun_eq_iff g found_batch [OF D(1)] jview_def)
  let ?j = "j\<lparr>j_db := db', currentTerm := term, votedFor := vote\<rparr>"
  have "journalInv api ?j"
  proof (rule journalInv_sameLog [OF inv])
    show "cached (jview api ?j) ?j" using D(2) by (simp add: v cached_def)
    show "rollbackOk (jview api ?j) ?j" using D(7) by (simp add: v rollbackOk_def)
  qed (use D(3) assms ok in \<open>auto simp: v bounds_def\<close>)
  moreover have "setCurrentTerm api term vote j = Some (True, ?j)"
    using ok c by (auto simp: setCurrentTerm_def batchPut_Some [OF D(1)])
  moreover have "found (db_get api db' kJournal_PreviousMembershipEpoch) = jview api j kJournal_PreviousMembershipEpoch"
    using fun_cong [OF v, of kJournal_PreviousMembershipEpoch] by simp
  ultimately show ?thesis by (auto simp: v)
qed

lemma setCommitIndex_ok:
  assumes inv: "journalInv api j" and "newIndex < logSize j"
  shows "\<exists>db'. setCommitIndex api newIndex j
           = Some (commitIndex j \<le> newIndex, j\<lparr>j_db := db', commitIndex := max (commitIndex j) newIndex\<rparr>)
    \<and> journalInv api (j\<lparr>j_db := db', commitIndex := max (commitIndex j) newIndex\<rparr>)
    \<and> sameLog (jview api j) (\<lambda>x. found (db_get api db' x))"
proof (cases "commitIndex j < newIndex")
  case False
  then have "max (commitIndex j) newIndex = commitIndex j" by simp
  moreover have "setCommitIndex api newIndex j = Some (commitIndex j \<le> newIndex, j)"
    using False assms(2) by (auto simp: setCommitIndex_def)
  ultimately show ?thesis using inv by (intro exI [of _ "j_db j"]) (simp add: sameLog_def jview_def)
next
  case True
  note D = journalInvD [OF inv]
  from set_or_die_ok [OF D(1), of kJournal_CommitIndex "intToBinaryString newIndex" j] obtain db' where
    s: "set_or_die api kJournal_CommitIndex (intToBinaryString newIndex) j = Some (j\<lparr>j_db := db'\<rparr>)"
    and g: "\<And>x. found (db_get api db' x) = ((jview api j)(kJournal_CommitIndex \<mapsto> intToBinaryString newIndex)) x"
    by blast
  have v: "(\<lambda>x. found (db_get api db' x)) = (jview api j)(kJournal_CommitIndex \<mapsto> intToBinaryString newIndex)"
    using g by auto
  let ?j = "j\<lparr>j_db := db', commitIndex := newIndex\<rparr>"
  have "journalInv api ?j"
  proof (rule journalInv_sameLog [OF inv])
    show "cached (jview api ?j) ?j" using D(2) by (simp add: v cached_def)
    show "rollbackOk (jview api ?j) ?j" using D(7) True by (auto simp: v rollbackOk_def)
  qed (use D(3) assms True in \<open>auto simp: v bounds_def\<close>)
  then show ?thesis
    using True assms(2) s by (intro exI [of _ db'])
      (simp add: setCommitIndex_def rawSetCommitIndex_def set_int_or_die_def v max_def)
qed

lemma setCommitIndex_nonexisting:
  "logSize j \<le> newIndex \<Longrightarrow> commitIndex j \<le> newIndex \<Longrightarrow> setCommitIndex api newIndex j = None"
  by (simp add: setCommitIndex_def)

text \<open>Appending: the batch with the entry, over a batch that changes no entry.\<close>

definition memberEntryOk :: "'db raft_journal \<Rightarrow> raft_entry \<Rightarrow> bool" where
  "memberEntryOk j e \<longleftrightarrow>
     (request e ! 0 = ''JOURNAL_UPDATE_MEMBERS'' \<longrightarrow>
        length (request e) = 3
        \<and> (request e ! 2 = clusterID j \<longrightarrow> (\<exists>m. okMembers m \<and> request e ! 1 = membersToString m)))"

definition updatesMembers :: "'db raft_journal \<Rightarrow> raft_entry \<Rightarrow> bool" where
  "updatesMembers j e \<longleftrightarrow> request e ! 0 = ''JOURNAL_UPDATE_MEMBERS'' \<and> request e ! 2 = clusterID j"

lemma parse_okMembers: "okMembers m \<Longrightarrow> parseMembers (membersToString m) = Some m"
  by (simp add: okMembers_def parseMembers_toString)

lemma stored_append:
  assumes "stored v lo hi" "okLogEntry e" "0 \<le> hi" "int64 (hi + 1)" "0 \<le> lo" "lo \<le> hi"
  shows "stored (v(encodeEntryKey hi \<mapsto> serializeEntry e)) lo (hi + 1)"
proof -
  have hi: "int64 i" if "0 \<le> i" "i \<le> hi" for i using that assms(3,4) by (simp add: int64_def)
  show ?thesis
    unfolding stored_def
  proof (intro conjI allI impI)
    fix i assume "lo \<le> i" "i < hi + 1"
    then show "\<exists>e'. okLogEntry e' \<and> (v(encodeEntryKey hi \<mapsto> serializeEntry e)) (encodeEntryKey i) = Some (serializeEntry e')"
      using assms hi [of i] hi [of hi] by (cases "i = hi") (auto simp: stored_def)
  next
    fix i assume "0 \<le> i" "int64 i" "i < lo \<or> hi + 1 \<le> i"
    then show "(v(encodeEntryKey hi \<mapsto> serializeEntry e)) (encodeEntryKey i) = None"
      using assms hi [of hi] by (auto simp: stored_def)
  next
    fix k assume "entryKey k" "(v(encodeEntryKey hi \<mapsto> serializeEntry e)) k \<noteq> None"
    then show "\<exists>i. 0 \<le> i \<and> int64 i \<and> k = encodeEntryKey i"
      using assms(1,3) hi [of hi] unfolding stored_def by (cases "k = encodeEntryKey hi") auto
  qed
qed

lemma logEntry_append:
  assumes "okLogEntry e" "int64 i" "int64 k"
  shows "logEntry (v(encodeEntryKey k \<mapsto> serializeEntry e)) i = (if i = k then Some e else logEntry v i)"
  using assms by (simp add: logEntry_def okLogEntry_def)

lemma termsSorted_append:
  assumes "termsSorted v lo hi" "okLogEntry e" "0 \<le> lo" "int64 (hi + 1)"
    and "logEntry v (hi - 1) = Some l" "entryTerm l \<le> entryTerm e" "lo < hi"
  shows "termsSorted (v(encodeEntryKey hi \<mapsto> serializeEntry e)) lo (hi + 1)"
  unfolding termsSorted_def
proof (intro allI impI)
  fix i k a b assume ik: "lo \<le> i" "i \<le> k" "k < hi + 1"
  have int: "int64 n" if "0 \<le> n" "n \<le> hi" for n using that assms(4) by (simp add: int64_def)
  assume ab: "logEntry (v(encodeEntryKey hi \<mapsto> serializeEntry e)) i = Some a"
    "logEntry (v(encodeEntryKey hi \<mapsto> serializeEntry e)) k = Some b"
  have a: "i \<noteq> hi \<Longrightarrow> logEntry v i = Some a" "i = hi \<Longrightarrow> a = e"
    and b: "k \<noteq> hi \<Longrightarrow> logEntry v k = Some b" "k = hi \<Longrightarrow> b = e"
    using ab ik assms(2,3) int [of i] int [of k] int [of hi] by (auto simp: logEntry_append)
  consider "k < hi" | "k = hi" "i < hi" | "k = hi" "i = hi" using ik by linarith
  then show "entryTerm a \<le> entryTerm b"
  proof cases
    case 1
    with ik a b assms(1) show ?thesis unfolding termsSorted_def by fastforce
  next
    case 2
    then have "logEntry v i = Some a" "i \<le> hi - 1" "hi - 1 < hi" using a by auto
    then have "entryTerm a \<le> entryTerm l"
      using assms(1,5) ik(1) unfolding termsSorted_def by blast
    with 2 b assms(6) show ?thesis by simp
  next
    case 3
    with a b show ?thesis by simp
  qed
qed

lemma append_commit:
  assumes inv: "journalInv api j" and e: "okLogEntry e" "termOfLastEntry j \<le> entryTerm e" "entryTerm e \<le> currentTerm j"
    and sz: "int64 (logSize j + 1)"
    and j1: "j1 = j\<lparr>members := m, membershipEpoch := ep\<rparr>" "okMembers m" "0 \<le> ep" "ep \<le> logSize j"
    and W: "W = (\<lambda>x. found (wb_get_db api (j_db j) wb x))" "sameLog (jview api j) W" "cached W j1" "rollbackOk W j1"
  shows "\<exists>db' j3. j_commitBatch api (snd (wb_put api wb (encodeEntryKey (logSize j)) (serializeEntry e))) (logSize j + 1) important j1
                = Some (j1\<lparr>j_db := db', logSize := logSize j + 1\<rparr>)
    \<and> j3 = j1\<lparr>j_db := db', logSize := logSize j + 1, termOfLastEntry := entryTerm e\<rparr>
    \<and> journalInv api j3
    \<and> (\<forall>i. int64 i \<longrightarrow> entryAt api j3 i = (if i = logSize j then Some e else entryAt api j i))"
proof -
  note D = journalInvD [OF inv]
  let ?wb = "snd (wb_put api wb (encodeEntryKey (logSize j)) (serializeEntry e))"
  have fields: "commitIndex j1 < logSize j + 1" "j_db j1 = j_db j" "logSize j1 = logSize j"
    using D(3) j1(1) by (simp_all add: bounds_def)
  from j_commitBatch_ok [OF D(1), of "logSize j + 1" j1 ?wb important] fields(1) D(3) obtain db' where
    c: "j_commitBatch api ?wb (logSize j + 1) important j1 = Some (j1\<lparr>j_db := db', logSize := logSize j + 1\<rparr>)"
    and g: "\<And>x. found (db_get api db' x) = (if x = kJournal_LogSize then Some (intToBinaryString (logSize j + 1))
                else found (wb_get_db api (j_db j) ?wb x))"
    using fields by (auto simp: bounds_def)
  define j2 where "j2 = j1\<lparr>j_db := db', logSize := logSize j + 1\<rparr>"
  have v: "jview api j2 = W(encodeEntryKey (logSize j) \<mapsto> serializeEntry e,
                            kJournal_LogSize \<mapsto> intToBinaryString (logSize j + 1))"
    by (auto simp: fun_eq_iff g found_batch [OF D(1)] j2_def W(1))
  let ?V = "W(encodeEntryKey (logSize j) \<mapsto> serializeEntry e)"
  have same: "sameLog ?V (jview api j2)" by (simp add: v)
  have b: "0 \<le> logStart j" "logStart j \<le> logSize j" "logStart j < logSize j" "0 \<le> logSize j"
    using D(3) by (auto simp: bounds_def)
  have int: "int64 (logSize j)" using D(3) by (simp add: bounds_def)
  have entry: "logEntry (jview api j2) i = (if i = logSize j then Some e else logEntry (jview api j) i)"
    if "int64 i" for i
    using sameLog_preserves(1) [OF same] sameLog_preserves(1) [OF W(2)] logEntry_append [OF e(1) that int] by simp
  obtain l where l: "logEntry (jview api j) (logSize j - 1) = Some l" "entryTerm l = termOfLastEntry j"
    using D(6) by (auto simp: lastTermOk_def)
  let ?j3 = "j2\<lparr>termOfLastEntry := entryTerm e\<rparr>"
  have "journalInv api ?j3"
    unfolding journalInv_def
  proof (intro conjI)
    show "cached (jview api ?j3) ?j3" using W(3) by (simp add: v) (simp add: cached_def j2_def j1(1))
    show "bounds ?j3" using D(3) sz j1 by (auto simp: bounds_def j2_def)
    have "stored ?V (logStart j) (logSize j + 1)"
      using D(4) sameLog_preserves(2) [OF W(2)] e(1) sz b by (intro stored_append) auto
    then show "stored (jview api ?j3) (logStart ?j3) (logSize ?j3)"
      using sameLog_preserves(2) [OF same] by (simp add: j2_def [symmetric]) (simp add: j2_def j1(1))
    have "termsSorted ?V (logStart j) (logSize j + 1)"
      using D(5) sameLog_preserves(1,3) [OF W(2)] e sz b l by (intro termsSorted_append [of _ _ _ _ l]) auto
    then show "termsSorted (jview api ?j3) (logStart ?j3) (logSize ?j3)"
      using sameLog_preserves(3) [OF same] by (simp add: j2_def [symmetric]) (simp add: j2_def j1(1))
    show "lastTermOk (jview api ?j3) ?j3"
      using entry [OF int] e(3) by (simp add: lastTermOk_def) (simp add: j2_def j1(1))
    show "rollbackOk (jview api ?j3) ?j3"
      using W(4) by (simp add: v) (simp add: rollbackOk_def j2_def j1(1))
  qed (rule D(1))
  moreover have "entryAt api ?j3 i = logEntry (jview api j2) i" for i by (simp add: entryAt_def)
  ultimately show ?thesis
    using c entry by (intro exI [of _ db'] exI [of _ ?j3]) (simp add: entryAt_def, simp add: j2_def)
qed

lemma append_rejects:
  "index \<noteq> logSize j \<or> currentTerm j < entryTerm e \<or> entryTerm e < termOfLastEntry j \<Longrightarrow>
   appendNoLock api index e important j = Some (False, j)"
  by (auto simp: appendNoLock_def)

text \<open>What an accepted append leaves as it was.\<close>

definition appended :: "('db, 'wb) rocksdb \<Rightarrow> raft_entry \<Rightarrow> 'db raft_journal \<Rightarrow> 'db raft_journal \<Rightarrow> bool" where
  "appended api e j j' \<longleftrightarrow>
     journalInv api j' \<and> logSize j' = logSize j + 1 \<and> logStart j' = logStart j \<and> commitIndex j' = commitIndex j
     \<and> currentTerm j' = currentTerm j \<and> votedFor j' = votedFor j \<and> clusterID j' = clusterID j
     \<and> fsyncPolicy j' = fsyncPolicy j \<and> termOfLastEntry j' = entryTerm e
     \<and> (if updatesMembers j e
        then membershipEpoch j' = logSize j \<and> parseMembers (request e ! 1) = Some (members j')
        else membershipEpoch j' = membershipEpoch j \<and> members j' = members j)
     \<and> (\<forall>i. int64 i \<longrightarrow> entryAt api j' i = (if i = logSize j then Some e else entryAt api j i))"

lemma append_ok:
  assumes inv: "journalInv api j" and e: "okLogEntry e" "termOfLastEntry j \<le> entryTerm e" "entryTerm e \<le> currentTerm j"
    and sz: "int64 (logSize j + 1)" and mem: "memberEntryOk j e"
  shows "\<exists>j'. appendNoLock api (logSize j) e important j = Some (True, j') \<and> appended api e j j'"
proof (cases "updatesMembers j e")
  case False
  note D = journalInvD [OF inv]
  have view: "jview api j = (\<lambda>x. found (wb_get_db api (j_db j) (wb_empty api) x))"
    by (simp add: fun_eq_iff jview_def found_batch [OF D(1)])
  from append_commit [OF inv e sz, where ?j1.0 = j and m = "members j" and ep = "membershipEpoch j"
      and W = "jview api j" and wb = "wb_empty api" and important = important] view D
  obtain db' j3 where c: "j_commitBatch api (snd (wb_put api (wb_empty api) (encodeEntryKey (logSize j)) (serializeEntry e)))
        (logSize j + 1) important j = Some (j\<lparr>j_db := db', logSize := logSize j + 1\<rparr>)"
    and j3: "j3 = j\<lparr>j_db := db', logSize := logSize j + 1, termOfLastEntry := entryTerm e\<rparr>" "journalInv api j3"
      "\<And>i. int64 i \<Longrightarrow> entryAt api j3 i = (if i = logSize j then Some e else entryAt api j i)"
    by (auto simp: bounds_def)
  have "appendNoLock api (logSize j) e important j = Some (True, j3)"
    using False e mem c
    by (auto simp: appendNoLock_def updatesMembers_def memberEntryOk_def okLogEntry_def batchPut_Some [OF D(1)] j3(1))
  then show ?thesis
    using j3(2,3) False by (intro exI [of _ j3]) (simp add: appended_def, simp add: j3(1))
next
  case True
  note D = journalInvD [OF inv]
  from True mem obtain m where m: "okMembers m" "request e ! 1 = membersToString m" "length (request e) = 3"
    by (auto simp: updatesMembers_def memberEntryOk_def)
  let ?wb = "snd (wb_put api (snd (wb_put api (snd (wb_put api (snd (wb_put api (wb_empty api)
      kJournal_Members (request e ! 1))) kJournal_MembershipEpoch (intToBinaryString (logSize j))))
      kJournal_PreviousMembers (membersToString (members j))))
      kJournal_PreviousMembershipEpoch (intToBinaryString (membershipEpoch j)))"
  define W where "W = (\<lambda>x. found (wb_get_db api (j_db j) ?wb x))"
  have v: "W = (jview api j)(kJournal_Members \<mapsto> request e ! 1, kJournal_MembershipEpoch \<mapsto> intToBinaryString (logSize j),
       kJournal_PreviousMembers \<mapsto> membersToString (members j),
       kJournal_PreviousMembershipEpoch \<mapsto> intToBinaryString (membershipEpoch j))"
    by (auto simp: W_def fun_eq_iff found_batch [OF D(1)] jview_def)
  define j1 where "j1 = j\<lparr>members := m, membershipEpoch := logSize j\<rparr>"
  have "cached W j1" using D(2) m by (simp add: v cached_def j1_def)
  moreover have "rollbackOk W j1" using D(3) by (auto simp: rollbackOk_def v j1_def bounds_def)
  moreover have "sameLog (jview api j) W" by (simp add: v)
  ultimately obtain db' j3 where
    c: "j_commitBatch api (snd (wb_put api ?wb (encodeEntryKey (logSize j)) (serializeEntry e)))
        (logSize j + 1) important j1 = Some (j1\<lparr>j_db := db', logSize := logSize j + 1\<rparr>)"
    and j3: "j3 = j1\<lparr>j_db := db', logSize := logSize j + 1, termOfLastEntry := entryTerm e\<rparr>" "journalInv api j3"
      "\<And>i. int64 i \<Longrightarrow> entryAt api j3 i = (if i = logSize j then Some e else entryAt api j i)"
    using append_commit [OF inv e sz j1_def m(1) _ _ W_def, of important] D(3) by (auto simp: bounds_def)
  have "appendNoLock api (logSize j) e important j = Some (True, j3)"
    using True e m c parse_okMembers [OF m(1)]
    by (simp add: appendNoLock_def updatesMembers_def okLogEntry_def batchPut_Some [OF D(1)] j1_def j3(1))
  then show ?thesis
    using j3(2,3) True m parse_okMembers [OF m(1)]
    by (intro exI [of _ j3]) (simp add: appended_def, simp add: j3(1) j1_def)
qed

text \<open>Removing a suffix and trimming a prefix.\<close>

definition restrictLog :: "(bytes \<Rightarrow> bytes option) \<Rightarrow> int \<Rightarrow> int \<Rightarrow> bytes \<Rightarrow> bytes option" where
  "restrictLog v lo hi x = (if \<exists>n. lo \<le> n \<and> n < hi \<and> x = encodeEntryKey n then None else v x)"

lemma restrictLog_other [simp]: "(\<And>i. k \<noteq> encodeEntryKey i) \<Longrightarrow> restrictLog v lo hi k = v k"
  by (auto simp: restrictLog_def)

lemma restrictLog_entry:
  assumes "int64 i" "\<And>n. lo \<le> n \<Longrightarrow> n < hi \<Longrightarrow> int64 n"
  shows "restrictLog v lo hi (encodeEntryKey i) = (if lo \<le> i \<and> i < hi then None else v (encodeEntryKey i))"
    "logEntry (restrictLog v lo hi) i = (if lo \<le> i \<and> i < hi then None else logEntry v i)"
proof -
  show *: "restrictLog v lo hi (encodeEntryKey i) = (if lo \<le> i \<and> i < hi then None else v (encodeEntryKey i))"
    using assms by (auto simp: restrictLog_def)
  then show "logEntry (restrictLog v lo hi) i = (if lo \<le> i \<and> i < hi then None else logEntry v i)"
    by (simp add: logEntry_def)
qed

text \<open>A sub-log: the entries of \<open>v\<close> from \<open>lo'\<close> to \<open>hi'\<close>.\<close>

lemma sublog:
  assumes "stored v lo hi" "termsSorted v lo hi" "lo \<le> lo'" "lo' \<le> hi'" "hi' \<le> hi" "0 \<le> lo" "int64 hi"
    and "\<And>i. 0 \<le> i \<Longrightarrow> int64 i \<Longrightarrow> v' (encodeEntryKey i) = (if lo' \<le> i \<and> i < hi' then v (encodeEntryKey i) else None)"
    and "\<And>k. entryKey k \<Longrightarrow> v' k \<noteq> None \<Longrightarrow> v k \<noteq> None"
  shows "stored v' lo' hi'" "termsSorted v' lo' hi'"
proof -
  have int: "int64 i" if "lo' \<le> i" "i < hi'" for i
    using that assms(3,5-7) by (simp add: int64_def)
  have 0: "0 \<le> i" if "lo' \<le> i" for i using that assms(3,6) by simp
  show "stored v' lo' hi'"
    unfolding stored_def
  proof (intro conjI)
    show "\<forall>k. entryKey k \<longrightarrow> v' k \<noteq> None \<longrightarrow> (\<exists>i. 0 \<le> i \<and> int64 i \<and> k = encodeEntryKey i)"
      using assms(1,9) unfolding stored_def by blast
  qed (use assms(1,3-8) int 0 in \<open>auto simp: stored_def\<close>)
  have "logEntry v' i = logEntry v i" if "lo' \<le> i" "i < hi'" for i
    using that assms(8) [of i] int 0 by (simp add: logEntry_def)
  with assms(2-5) show "termsSorted v' lo' hi'"
    unfolding termsSorted_def by (smt (verit, best))
qed

lemma trimUntil_ok:
  assumes inv: "journalInv api j" and n: "logStart j < n" "n \<le> commitIndex j"
  shows "\<exists>db' j'. trimUntil api n j = Some j' \<and> j' = j\<lparr>j_db := db', logStart := n\<rparr> \<and> journalInv api j'
    \<and> (\<forall>i. 0 \<le> i \<longrightarrow> int64 i \<longrightarrow> entryAt api j' i = (if i < n then None else entryAt api j i))"
proof -
  note D = journalInvD [OF inv]
  have b: "0 \<le> logStart j" "commitIndex j < logSize j" "int64 (logSize j)" "n < logSize j"
    using D(3) n by (auto simp: bounds_def)
  have int: "int64 i" if "0 \<le> i" "i \<le> logSize j" for i using that b by (simp add: int64_def)
  obtain wb where wb: "batchDeleteEntries api (logStart j) n (wb_empty api) = Some wb"
    and del: "\<And>d x. wb_get_db api d wb x = (if \<exists>i. logStart j \<le> i \<and> i < n \<and> x = encodeEntryKey i
                                              then GetNotFound else wb_get_db api d (wb_empty api) x)"
    using batchDeleteEntries_ok [OF D(1)] by blast
  let ?wb = "snd (wb_put api wb kJournal_LogStart (intToBinaryString n))"
  from j_commitBatch_ok [OF D(1), of "- 1" j ?wb False] obtain db' where
    c: "j_commitBatch api ?wb (- 1) False j = Some (j\<lparr>j_db := db'\<rparr>)"
    and g: "\<And>x. found (db_get api db' x) = found (wb_get_db api (j_db j) ?wb x)" by auto
  define j' where "j' = j\<lparr>j_db := db', logStart := n\<rparr>"
  let ?R = "restrictLog (jview api j) (logStart j) n"
  have v: "jview api j' = ?R(kJournal_LogStart \<mapsto> intToBinaryString n)"
    by (auto simp: j'_def fun_eq_iff g found_batch [OF D(1)] del restrictLog_def jview_def)
  have same: "sameLog ?R (jview api j')" by (simp add: v)
  have absent: "jview api j (encodeEntryKey i) = None" if "0 \<le> i" "int64 i" "i < logStart j \<or> logSize j \<le> i" for i
    using D(4) that unfolding stored_def by blast
  have key: "jview api j' (encodeEntryKey i) = (if i < n then None else jview api j (encodeEntryKey i))"
    if "0 \<le> i" "int64 i" for i
    using same restrictLog_entry(1) [OF that(2), of "logStart j" n] int b that absent [OF that]
    by (auto simp: sameLog_def)
  have old: "jview api j k \<noteq> None" if "entryKey k" "jview api j' k \<noteq> None" for k
    using same that by (auto simp: sameLog_def restrictLog_def split: if_splits)
  have sub: "stored (jview api j') n (logSize j)" "termsSorted (jview api j') n (logSize j)"
    using D(4,5) n b key absent old by (auto intro!: sublog [of "jview api j" "logStart j" "logSize j"])
  have entry: "logEntry (jview api j') i = (if i < n then None else logEntry (jview api j) i)" if "0 \<le> i" "int64 i" for i
    using key [OF that] by (simp add: logEntry_def)
  have "journalInv api j'"
    unfolding journalInv_def
  proof (intro conjI)
    show "cached (jview api j') j'" using D(2) by (simp add: v) (simp add: cached_def j'_def)
    show "bounds j'" using D(3) n by (auto simp: bounds_def j'_def)
    show "lastTermOk (jview api j') j'"
      using D(6) entry [of "logSize j - 1"] int [of "logSize j - 1"] b n by (simp add: lastTermOk_def j'_def)
    show "rollbackOk (jview api j') j'" using D(7) by (simp add: v) (simp add: rollbackOk_def j'_def)
  qed (use sub D(1) in \<open>simp_all add: j'_def\<close>)
  moreover have "trimUntil api n j = Some j'"
    using n b c wb by (simp add: trimUntil_def batchPut_Some [OF D(1)] j'_def)
  ultimately show ?thesis
    using entry by (intro exI [of _ db'] exI [of _ j']) (simp add: entryAt_def, simp add: j'_def)
qed

lemma trimUntil_rejects: "logStart j < n \<Longrightarrow> commitIndex j < n \<Longrightarrow> trimUntil api n j = None"
  by (simp add: trimUntil_def)

text \<open>
  A roll-back restores the epoch before the current one; consensus makes sure that this one is
  committed, since a leader starts a new epoch only after the previous one is.
\<close>

definition rollbackSafe :: "('db, 'wb) rocksdb \<Rightarrow> 'db raft_journal \<Rightarrow> int \<Rightarrow> bool" where
  "rollbackSafe api j start \<longleftrightarrow>
     (start \<le> membershipEpoch j \<longrightarrow>
        (\<forall>pe. jview api j kJournal_PreviousMembershipEpoch = Some (intToBinaryString pe) \<longrightarrow> int64 pe
              \<longrightarrow> pe \<le> commitIndex j))"

text \<open>The common end of the two branches of \<open>removeEntries\<close>.\<close>

lemma remove_commit:
  assumes inv: "journalInv api j" and start: "commitIndex j < start" "start < logSize j"
    and j1: "j1 = j\<lparr>members := m, membershipEpoch := ep\<rparr>" "okMembers m" "0 \<le> ep" "ep < start"
    and W: "W = (\<lambda>x. found (wb_get_db api (j_db j) wb x))"
      "sameLog (restrictLog (jview api j) start (logSize j)) W" "cached W j1" "rollbackOk W j1"
  shows "\<exists>db' e j3. j_commitBatch api wb start False j1 = Some (j1\<lparr>j_db := db', logSize := start\<rparr>)
    \<and> fetch_or_die api (j1\<lparr>j_db := db', logSize := start\<rparr>) (start - 1) = Some e
    \<and> j3 = j1\<lparr>j_db := db', logSize := start, termOfLastEntry := entryTerm e\<rparr> \<and> journalInv api j3
    \<and> (\<forall>i. 0 \<le> i \<longrightarrow> int64 i \<longrightarrow> entryAt api j3 i = (if start \<le> i then None else entryAt api j i))"
proof -
  note D = journalInvD [OF inv]
  have b: "0 \<le> logStart j" "logStart j \<le> commitIndex j" "int64 (logSize j)" "0 \<le> start" "logStart j \<le> start - 1"
    using D(3) start by (auto simp: bounds_def)
  have int: "int64 i" if "0 \<le> i" "i \<le> logSize j" for i using that b by (simp add: int64_def)
  from j_commitBatch_ok [OF D(1), of start j1 wb False] j1(1) start b(4) obtain db' where
    c: "j_commitBatch api wb start False j1 = Some (j1\<lparr>j_db := db', logSize := start\<rparr>)"
    and g: "\<And>x. found (db_get api db' x) = (if x = kJournal_LogSize then Some (intToBinaryString start)
                else found (wb_get_db api (j_db j) wb x))"
    by auto
  define j2 where "j2 = j1\<lparr>j_db := db', logSize := start\<rparr>"
  have v: "jview api j2 = W(kJournal_LogSize \<mapsto> intToBinaryString start)"
    by (auto simp: fun_eq_iff g j2_def W(1))
  have same: "sameLog (restrictLog (jview api j) start (logSize j)) (jview api j2)" using W(2) by (simp add: v)
  have absent: "jview api j (encodeEntryKey i) = None" if "0 \<le> i" "int64 i" "i < logStart j \<or> logSize j \<le> i" for i
    using D(4) that unfolding stored_def by blast
  have key: "jview api j2 (encodeEntryKey i) = (if start \<le> i then None else jview api j (encodeEntryKey i))"
    if "0 \<le> i" "int64 i" for i
    using same restrictLog_entry(1) [OF that(2), of start "logSize j"] int b that absent [OF that]
    by (auto simp: sameLog_def)
  have old: "jview api j k \<noteq> None" if "entryKey k" "jview api j2 k \<noteq> None" for k
    using same that by (auto simp: sameLog_def restrictLog_def split: if_splits)
  have sub: "stored (jview api j2) (logStart j) start" "termsSorted (jview api j2) (logStart j) start"
    using D(4,5) start b key absent old by (auto intro!: sublog [of "jview api j" "logStart j" "logSize j"])
  have entry: "logEntry (jview api j2) i = (if start \<le> i then None else logEntry (jview api j) i)"
    if "0 \<le> i" "int64 i" for i
    using key [OF that] by (simp add: logEntry_def)
  obtain e where e: "okLogEntry e" "jview api j (encodeEntryKey (start - 1)) = Some (serializeEntry e)"
      "entryAt api j (start - 1) = Some e"
    using log_entry [OF inv b(5)] start by auto
  obtain l where l: "logEntry (jview api j) (logSize j - 1) = Some l" "entryTerm l \<le> currentTerm j"
    using D(6) by (auto simp: lastTermOk_def)
  have le: "entryTerm e \<le> currentTerm j"
  proof -
    have "start - 1 \<le> logSize j - 1" "logSize j - 1 < logSize j" using start by auto
    with D(5) b(5) e(3) l(1) have "entryTerm e \<le> entryTerm l"
      unfolding termsSorted_def entryAt_def by blast
    with l(2) show ?thesis by simp
  qed
  have e2: "jview api j2 (encodeEntryKey (start - 1)) = Some (serializeEntry e)"
    using key [of "start - 1"] int [of "start - 1"] b start e(2) by auto
  have okE: "okEntry e" using e(1) by (simp add: okLogEntry_def)
  note f = fetch_entry(2,3) [OF D(1) e2 okE]
  define j3 where "j3 = j2\<lparr>termOfLastEntry := entryTerm e\<rparr>"
  have view3: "jview api j3 = jview api j2" by (simp add: j3_def)
  have "journalInv api j3"
    unfolding journalInv_def view3
  proof (intro conjI)
    show "cached (jview api j2) j3" using W(3) by (simp add: v) (simp add: cached_def j3_def j2_def j1(1))
    show "bounds j3" using D(3) start j1 int [of start] b(4) by (auto simp: bounds_def j3_def j2_def)
    show "lastTermOk (jview api j2) j3"
      using f(2) le by (simp add: lastTermOk_def entryAt_def j3_def) (simp add: j2_def j1(1))
    show "rollbackOk (jview api j2) j3" using W(4) by (simp add: v) (simp add: rollbackOk_def j3_def j2_def j1(1))
  qed (use sub D(1) in \<open>simp_all add: j3_def j2_def j1(1)\<close>)
  moreover have "entryAt api j3 i = (if start \<le> i then None else entryAt api j i)" if "0 \<le> i" "int64 i" for i
    using entry [OF that] by (simp add: entryAt_def view3)
  ultimately show ?thesis
    using c f(1) by (intro exI [of _ db'] exI [of _ e] exI [of _ j3]) (simp add: j2_def [symmetric] j3_def)
qed

lemma removeEntries_ok:
  assumes inv: "journalInv api j" and start: "commitIndex j < start" "start < logSize j"
    and safe: "rollbackSafe api j start"
  shows "\<exists>j'. removeEntries api start j = Some (True, j') \<and> journalInv api j' \<and> logSize j' = start
    \<and> logStart j' = logStart j \<and> commitIndex j' = commitIndex j \<and> currentTerm j' = currentTerm j
    \<and> votedFor j' = votedFor j \<and> clusterID j' = clusterID j
    \<and> (\<forall>i. 0 \<le> i \<longrightarrow> int64 i \<longrightarrow> entryAt api j' i = (if start \<le> i then None else entryAt api j i))"
proof -
  note D = journalInvD [OF inv]
  obtain wb where wb: "batchDeleteEntries api start (logSize j) (wb_empty api) = Some wb"
    and del: "\<And>d x. wb_get_db api d wb x = (if \<exists>i. start \<le> i \<and> i < logSize j \<and> x = encodeEntryKey i
                                              then GetNotFound else wb_get_db api d (wb_empty api) x)"
    using batchDeleteEntries_ok [OF D(1)] by blast
  let ?R = "restrictLog (jview api j) start (logSize j)"
  have R: "found (wb_get_db api (j_db j) wb x) = ?R x" for x
    by (auto simp: del restrictLog_def found_batch [OF D(1)] jview_def)
  show ?thesis
  proof (cases "start \<le> membershipEpoch j")
    case False
    have "cached ?R j" "rollbackOk ?R j" using D(2,7) by (simp_all add: cached_def rollbackOk_def)
    moreover have "?R = (\<lambda>x. found (wb_get_db api (j_db j) wb x))" using R by auto
    ultimately obtain db' e j3 where c: "j_commitBatch api wb start False j = Some (j\<lparr>j_db := db', logSize := start\<rparr>)"
        "fetch_or_die api (j\<lparr>j_db := db', logSize := start\<rparr>) (start - 1) = Some e"
      and j3: "j3 = j\<lparr>j_db := db', logSize := start, termOfLastEntry := entryTerm e\<rparr>" "journalInv api j3"
        "\<And>i. 0 \<le> i \<Longrightarrow> int64 i \<Longrightarrow> entryAt api j3 i = (if start \<le> i then None else entryAt api j i)"
      using remove_commit [OF inv start, where ?j1.0 = j and m = "members j" and ep = "membershipEpoch j"
          and W = ?R and wb = wb] D(3) False by (auto simp: bounds_def)
    have "removeEntries api start j = Some (True, j3)"
      using False start wb c j3(1) by (simp add: removeEntries_def)
    with j3 show ?thesis by (intro exI [of _ j3]) simp
  next
    case True
    with start D(7) obtain pe pm where p: "jview api j kJournal_PreviousMembershipEpoch = Some (intToBinaryString pe)"
        "jview api j kJournal_PreviousMembers = Some (membersToString pm)" "0 \<le> pe" "pe < membershipEpoch j" "okMembers pm"
      by (auto simp: rollbackOk_def)
    have pe: "int64 pe" using p(3,4) D(3) by (auto simp: bounds_def int64_def)
    with safe True p(1) have le: "pe \<le> commitIndex j" by (simp add: rollbackSafe_def)
    let ?wb = "snd (wb_put api (snd (wb_put api wb kJournal_MembershipEpoch (intToBinaryString pe)))
                  kJournal_Members (membersToString pm))"
    define W where "W = (\<lambda>x. found (wb_get_db api (j_db j) ?wb x))"
    have v: "W = ?R(kJournal_MembershipEpoch \<mapsto> intToBinaryString pe, kJournal_Members \<mapsto> membersToString pm)"
      by (auto simp: W_def fun_eq_iff found_batch [OF D(1)] R)
    define j1 where "j1 = j\<lparr>members := pm, membershipEpoch := pe\<rparr>"
    have "cached W j1" using D(2) by (simp add: v) (simp add: cached_def j1_def)
    moreover have "rollbackOk W j1" using le by (simp add: rollbackOk_def j1_def)
    moreover have "sameLog ?R W" by (simp add: v)
    moreover have "pe < start" using le start by simp
    ultimately obtain db' e j3 where c: "j_commitBatch api ?wb start False j1 = Some (j1\<lparr>j_db := db', logSize := start\<rparr>)"
        "fetch_or_die api (j1\<lparr>j_db := db', logSize := start\<rparr>) (start - 1) = Some e"
      and j3: "j3 = j1\<lparr>j_db := db', logSize := start, termOfLastEntry := entryTerm e\<rparr>" "journalInv api j3"
        "\<And>i. 0 \<le> i \<Longrightarrow> int64 i \<Longrightarrow> entryAt api j3 i = (if start \<le> i then None else entryAt api j i)"
      using remove_commit [OF inv start j1_def p(5,3) _ W_def] by auto
    have "removeEntries api start j = Some (True, j3)"
      using True start wb c j3(1) p pe parse_okMembers [OF p(5)]
      by (simp add: removeEntries_def get_int_or_die_def batchPut_Some [OF D(1)] j1_def)
    with j3 show ?thesis by (intro exI [of _ j3]) (simp add: j1_def)
  qed
qed

lemma removeEntries_rejects:
  "logSize j \<le> start \<Longrightarrow> removeEntries api start j = Some (False, j)"
  "start < logSize j \<Longrightarrow> start \<le> commitIndex j \<Longrightarrow> removeEntries api start j = None"
  by (simp_all add: removeEntries_def)

lemma setFsyncPolicy_ok:
  assumes inv: "journalInv api j"
  shows "\<exists>db'. setFsyncPolicy api p j = Some (j\<lparr>j_db := db', fsyncPolicy := p\<rparr>)
    \<and> journalInv api (j\<lparr>j_db := db', fsyncPolicy := p\<rparr>) \<and> sameLog (jview api j) (\<lambda>x. found (db_get api db' x))"
proof (cases "fsyncPolicy j = p")
  case True
  then show ?thesis
    using inv by (intro exI [of _ "j_db j"]) (auto simp: setFsyncPolicy_def sameLog_def jview_def)
next
  case False
  note D = journalInvD [OF inv]
  from set_or_die_ok [OF D(1), of kJournal_FsyncPolicy "fsyncPolicyToString p" j] obtain db' where
    s: "set_or_die api kJournal_FsyncPolicy (fsyncPolicyToString p) j = Some (j\<lparr>j_db := db'\<rparr>)"
    and g: "\<And>x. found (db_get api db' x) = ((jview api j)(kJournal_FsyncPolicy \<mapsto> fsyncPolicyToString p)) x"
    by blast
  have v: "(\<lambda>x. found (db_get api db' x)) = (jview api j)(kJournal_FsyncPolicy \<mapsto> fsyncPolicyToString p)"
    using g by auto
  let ?j = "j\<lparr>j_db := db', fsyncPolicy := p\<rparr>"
  have "journalInv api ?j"
  proof (rule journalInv_sameLog [OF inv])
    show "cached (jview api ?j) ?j" using D(2) by (simp add: v cached_def)
    show "rollbackOk (jview api ?j) ?j" using D(7) by (simp add: v rollbackOk_def)
  qed (use D(3) in \<open>auto simp: v bounds_def\<close>)
  with False s show ?thesis by (intro exI [of _ db']) (simp add: setFsyncPolicy_def v)
qed

text \<open>Restart: the journal read back from the database is the journal that was running.\<close>

lemma openJournal_ok:
  assumes inv: "journalInv api j"
  shows "openJournal api (j_db j) = Some j"
proof -
  note D = journalInvD [OF inv]
  have view: "jview api (blankJournal (j_db j)) = jview api j"
    by (simp add: blankJournal_def jview_def [abs_def])
  have b: "0 \<le> logStart j" "logStart j \<le> commitIndex j" "commitIndex j < logSize j" "int64 (logSize j)"
      "int64 (currentTerm j)" "0 \<le> membershipEpoch j" "membershipEpoch j < logSize j" "okMembers (members j)" "okVote (votedFor j)"
    using D(3) by (auto simp: bounds_def)
  have ints: "int64 (logStart j)" "int64 (commitIndex j)" "int64 (membershipEpoch j)"
    using b by (auto simp: int64_def)
  obtain e where e: "okLogEntry e" "jview api j (encodeEntryKey (logSize j - 1)) = Some (serializeEntry e)"
      "entryAt api j (logSize j - 1) = Some e"
    using log_entry [OF inv, of "logSize j - 1"] b by auto
  have last: "entryTerm e = termOfLastEntry j" using D(6) e(3) by (auto simp: lastTermOk_def entryAt_def)
  have f: "fetch_or_die api (blankJournal (j_db j)) (logSize j - 1) = Some e"
    using fetch_entry(2) [OF D(1), of "blankJournal (j_db j)" "logSize j - 1" e] e view by (simp add: okLogEntry_def)
  have policy: "ensureFsyncPolicyInitialized api (blankJournal (j_db j)) = Some (blankJournal (j_db j))"
    using jview_get [OF D(1), of "blankJournal (j_db j)" kJournal_FsyncPolicy] D(2) view
    by (simp add: ensureFsyncPolicyInitialized_def cached_def)
  have vote: "votedFor j = noServer \<or> serverToString (votedFor j) \<noteq> [] \<and> parseServer (serverToString (votedFor j)) = Some (votedFor j)"
    using b(9) serverToString_nonempty by (auto simp: okVote_def)
  have noVote: "serverToString noServer = []" by (simp add: serverToString_def noServer_def)
  let ?B = "blankJournal (j_db j)"
  let ?j = "?B\<lparr>currentTerm := currentTerm j, logSize := logSize j, logStart := logStart j, clusterID := clusterID j,
      commitIndex := commitIndex j, termOfLastEntry := termOfLastEntry j, membershipEpoch := membershipEpoch j,
      members := members j, fsyncPolicy := fsyncPolicy j, votedFor := votedFor j\<rparr>"
  have blank: "votedFor ?B = noServer" by (simp add: blankJournal_def)
  have "j_initialize api ?B = Some ?j"
    using D(2) b ints f last vote noVote parse_okMembers [OF b(8)] blank
    by (auto simp: j_initialize_def get_int_or_die_def view cached_def initializeFsyncPolicy_def Let_def)
  moreover have "?j = j" by (simp add: blankJournal_def)
  ultimately show ?thesis using policy by (simp add: openJournal_def)
qed

subsection \<open>Comparing with what a leader sends\<close>

lemma compareLoop_ok:
  assumes "journalInv api j" "logStart j \<le> i" "hi \<le> logSize j" "hi \<le> i + int (length es)"
  shows "\<exists>r. compareLoop api j hi i es = Some r \<and> r \<le> hi
    \<and> (\<forall>k. i \<le> k \<longrightarrow> k < r \<longrightarrow> entryAt api j k = Some (es ! nat (k - i)))
    \<and> (r < hi \<longrightarrow> i \<le> r \<and> entryAt api j r \<noteq> Some (es ! nat (r - i)))"
  using assms
proof (induction es arbitrary: i)
  case Nil
  then show ?case by auto
next
  case (Cons x es)
  show ?case
  proof (cases "i < hi")
    case False
    then show ?thesis by auto
  next
    case True
    obtain e where e: "entryAt api j i = Some e" "fetch_or_die api j i = Some e"
      using log_entry [OF Cons.prems(1,2)] True Cons.prems(3) by auto
    show ?thesis
    proof (cases "x = e")
      case False
      with True e show ?thesis by auto
    next
      case eq: True
      from Cons.IH [OF Cons.prems(1), of "i + 1"] Cons.prems(2-4) obtain r where
        r: "compareLoop api j hi (i + 1) es = Some r" "r \<le> hi"
          "\<And>k. i + 1 \<le> k \<Longrightarrow> k < r \<Longrightarrow> entryAt api j k = Some (es ! nat (k - (i + 1)))"
          "r < hi \<Longrightarrow> i + 1 \<le> r \<and> entryAt api j r \<noteq> Some (es ! nat (r - (i + 1)))"
        by auto
      have nth: "(x # es) ! nat (k - i) = es ! nat (k - (i + 1))" if "i + 1 \<le> k" for k
      proof -
        have "nat (k - i) = Suc (nat (k - (i + 1)))" using that by simp
        then show ?thesis by simp
      qed
      have "entryAt api j k = Some ((x # es) ! nat (k - i))" if "i \<le> k" "k < r" for k
      proof (cases "k = i")
        case True
        with eq e show ?thesis by simp
      next
        case False
        with that r(3) [of k] nth [of k] show ?thesis by simp
      qed
      moreover have "r < hi \<Longrightarrow> i \<le> r \<and> entryAt api j r \<noteq> Some ((x # es) ! nat (r - i))"
        using r(4) nth [of r] by auto
      ultimately show ?thesis using True eq e r(1,2) by auto
    qed
  qed
qed

lemma compareEntries_ok:
  assumes "journalInv api j" "logStart j \<le> start" "hi = min (logSize j) (start + int (length es))"
  shows "\<exists>r. compareEntries api j start es = Some r \<and> r \<le> hi
    \<and> (\<forall>k. start \<le> k \<longrightarrow> k < r \<longrightarrow> entryAt api j k = Some (es ! nat (k - start)))
    \<and> (r < hi \<longrightarrow> start \<le> r \<and> entryAt api j r \<noteq> Some (es ! nat (r - start)))"
  using compareLoop_ok [OF assms(1,2), of hi es] assms(2,3)
  by (simp add: compareEntries_def Let_def max_def)

lemma matchEntries_ok:
  assumes inv: "journalInv api j" and i: "0 \<le> index" "int64 index"
  shows "matchEntries api j index term = Some (\<exists>e. entryAt api j index = Some e \<and> entryTerm e = term)"
proof (cases "logStart j \<le> index \<and> index < logSize j")
  case True
  then obtain e where "entryAt api j index = Some e" "fetch api j index = Some (Some e)"
    using log_entry [OF inv] by metis
  moreover have "db_get api (j_db j) (encodeEntryKey index) \<noteq> GetError"
    using jview_get [OF journalInvD(1) [OF inv], of j] by simp
  ultimately show ?thesis using True by (simp add: matchEntries_def)
next
  case False
  then have "fetch api j index = Some None" "entryAt api j index = None"
    using log_absent [OF inv i] by auto
  moreover have "db_get api (j_db j) (encodeEntryKey index) \<noteq> GetError"
    using jview_get [OF journalInvD(1) [OF inv], of j] by simp
  ultimately show ?thesis by (simp add: matchEntries_def)
qed

subsection \<open>A fresh journal\<close>

lemma erased_view:
  assumes "rocksdb_laws api"
  shows "found (db_get api (eraseKeys api es d) x) = (if x \<in> fst ` set es then None else found (db_get api d x))"
  by (induction es arbitrary: d) (auto simp: rocksdb_lawsD(22) [OF assms])

lemma erase_all_view:
  assumes "rocksdb_laws api"
  shows "found (db_get api (eraseKeys api (db_iter api d []) d) x) = None"
proof (cases "found (db_get api d x)")
  case None
  then show ?thesis by (simp add: erased_view [OF assms])
next
  case (Some y)
  then have "(x, y) \<in> set (db_iter api d [])"
    using rocksdb_lawsD(19) [OF assms, of d "[]"] by (simp add: iterates_def)
  then have "x \<in> fst ` set (db_iter api d [])" by (rule rev_image_eqI) simp
  then show ?thesis by (simp add: erased_view [OF assms])
qed

definition put_journal :: "('db, 'wb) rocksdb \<Rightarrow> bytes \<Rightarrow> bytes \<Rightarrow> 'db raft_journal \<Rightarrow> 'db raft_journal" where
  "put_journal api k v j = j\<lparr>j_db := snd (db_put api (j_db j) k v)\<rparr>"

lemma put_journal_ok:
  assumes "rocksdb_laws api"
  shows "set_or_die api k v j = Some (put_journal api k v j)" "set_int_or_die api k i j = Some (put_journal api k (intToBinaryString i) j)"
    "jview api (put_journal api k v j) = (jview api j)(k \<mapsto> v)"
  using rocksdb_lawsD(4,5) [OF assms]
  by (auto simp: set_int_or_die_def set_or_die_def put_journal_def case_prod_beta fun_eq_iff jview_def)

lemma put_journal_vote [simp]: "votedFor (put_journal api k v j) = votedFor j"
  by (simp add: put_journal_def)

definition membersEntry :: "raft_members \<Rightarrow> bytes \<Rightarrow> raft_entry" where
  "membersEntry m cid = \<lparr>entryTerm = 0, request = [''JOURNAL_UPDATE_MEMBERS'', membersToString m, cid]\<rparr>"

definition freshJournalView :: "bytes \<Rightarrow> raft_members \<Rightarrow> int \<Rightarrow> FsyncPolicy \<Rightarrow> bytes \<Rightarrow> bytes option" where
  "freshJournalView cid m start policy =
     [kJournal_CurrentTerm \<mapsto> intToBinaryString 0, kJournal_LogSize \<mapsto> intToBinaryString (start + 1),
      kJournal_LogStart \<mapsto> intToBinaryString start, kJournal_ClusterID \<mapsto> cid, kJournal_VotedFor \<mapsto> [],
      kJournal_CommitIndex \<mapsto> intToBinaryString start, kJournal_Members \<mapsto> membersToString m,
      kJournal_MembershipEpoch \<mapsto> intToBinaryString start, kJournal_FsyncPolicy \<mapsto> fsyncPolicyToString policy,
      encodeEntryKey start \<mapsto> serializeEntry (membersEntry m cid)]"

lemma createJournal_ok:
  assumes laws: "rocksdb_laws api" and start: "0 \<le> start" "int64 (start + 1)"
    and m: "m = \<lparr>nodes = ns, observers = []\<rparr>" "okMembers m"
    and len: "length (membersToString m) < 2 ^ 63" "length cid < 2 ^ 63"
  shows "\<exists>j. createJournal api db cid ns start policy = Some j \<and> journalInv api j \<and> logStart j = start
    \<and> logSize j = start + 1 \<and> commitIndex j = start \<and> currentTerm j = 0 \<and> votedFor j = noServer
    \<and> members j = m \<and> clusterID j = cid \<and> entryAt api j start = Some (membersEntry m cid)"
proof -
  let ?B = "blankJournal (eraseKeys api (db_iter api db []) db)"
  let ?E = "membersEntry m cid" and ?V = "freshJournalView cid m start policy"
  have e: "okLogEntry ?E" using len by (simp add: okLogEntry_def okEntry_def membersEntry_def int64_def)
  then have okE: "okEntry ?E" by (simp add: okLogEntry_def)
  have ints: "int64 start" "int64 0" using start by (simp_all add: int64_def)
  have empty: "jview api ?B = Map.empty"
    by (simp add: fun_eq_iff jview_def blankJournal_def erase_all_view [OF laws])
  define P where "P = put_journal api (encodeEntryKey start) (serializeEntry ?E)
      (put_journal api kJournal_FsyncPolicy (fsyncPolicyToString policy)
      (put_journal api kJournal_MembershipEpoch (intToBinaryString start)
      (put_journal api kJournal_Members (membersToString m)
      (put_journal api kJournal_CommitIndex (intToBinaryString start)
      (put_journal api kJournal_VotedFor []
      (put_journal api kJournal_ClusterID cid
      (put_journal api kJournal_LogStart (intToBinaryString start)
      (put_journal api kJournal_LogSize (intToBinaryString (start + 1))
      (put_journal api kJournal_CurrentTerm (intToBinaryString 0) ?B)))))))))"
  have v: "jview api P = ?V"
    unfolding P_def by (simp only: put_journal_ok(3) [OF laws] empty freshJournalView_def)
  have vote: "votedFor P = noServer" by (simp add: P_def blankJournal_def)
  have create: "createJournal api db cid ns start policy = j_initialize api P"
    by (simp add: createJournal_def obliterate_def put_journal_ok(1,2) [OF laws] P_def m(1) membersEntry_def Let_def)
      (simp add: blankJournal_def)
  have entry: "jview api P (encodeEntryKey start) = Some (serializeEntry ?E)" by (simp add: v freshJournalView_def)
  have f: "fetch_or_die api P start = Some ?E" using fetch_entry(2) [OF laws entry okE] .
  define j where "j = P\<lparr>currentTerm := 0, logSize := start + 1, logStart := start, clusterID := cid,
      commitIndex := start, termOfLastEntry := 0, membershipEpoch := start, members := m, fsyncPolicy := policy\<rparr>"
  have init: "j_initialize api P = Some j"
    using f ints start parse_okMembers [OF m(2)]
    by (simp add: j_initialize_def get_int_or_die_def v freshJournalView_def initializeFsyncPolicy_def Let_def j_def
        membersEntry_def)
  have view: "jview api j = ?V" by (simp add: j_def v)
  have at: "logEntry ?V i = (if i = start then Some ?E else None)" if "int64 i" for i
    using that ints okE by (simp add: logEntry_def freshJournalView_def)
  have "journalInv api j"
    unfolding journalInv_def view
  proof (intro conjI)
    show "cached ?V j" using vote by (simp add: cached_def freshJournalView_def j_def serverToString_def noServer_def)
    show "bounds j" using start m(2) vote by (simp add: bounds_def j_def int64_def okVote_def)
    show "stored ?V (logStart j) (logSize j)"
      unfolding stored_def
    proof (intro conjI)
      show "\<forall>k. entryKey k \<longrightarrow> ?V k \<noteq> None \<longrightarrow> (\<exists>i. 0 \<le> i \<and> int64 i \<and> k = encodeEntryKey i)"
        using ints start by (auto simp: freshJournalView_def split: if_splits)
    qed (use e ints in \<open>auto simp: j_def freshJournalView_def int64_def\<close>)
    show "termsSorted ?V (logStart j) (logSize j)"
      unfolding termsSorted_def
    proof (intro allI impI)
      fix i k a b assume "logStart j \<le> i" "i \<le> k" "k < logSize j" "logEntry ?V i = Some a" "logEntry ?V k = Some b"
      moreover from this have "i = start" "k = start" by (simp_all add: j_def)
      ultimately show "entryTerm a \<le> entryTerm b" by simp
    qed
    show "lastTermOk ?V j" using at [OF ints(1)] by (simp add: lastTermOk_def j_def membersEntry_def)
    show "rollbackOk ?V j" by (simp add: rollbackOk_def j_def)
  qed (rule laws)
  moreover have "entryAt api j start = Some ?E" using at [OF ints(1)] by (simp add: entryAt_def view)
  ultimately show ?thesis
    using create init vote by (intro exI [of _ j]) (simp add: j_def)
qed

subsection \<open>Runs of a journal\<close>

text \<open>
  The steps of the journal of a running node, restarts included.  The premises are what the
  callers hand in: a vote is empty or names a server, an entry has a command and, if it is a
  change of members, names some; the roll-back of a membership epoch is one that consensus allows.
\<close>

inductive journal_step :: "('db, 'wb) rocksdb \<Rightarrow> 'db raft_journal \<Rightarrow> 'db raft_journal \<Rightarrow> bool" for api where
  step_term: "setCurrentTerm api t s j = Some (b, j') \<Longrightarrow> int64 t \<Longrightarrow> okVote s \<Longrightarrow> journal_step api j j'"
| step_commit: "setCommitIndex api i j = Some (b, j') \<Longrightarrow> journal_step api j j'"
| step_append: "j_append api i e important j = Some (b, j') \<Longrightarrow> okLogEntry e \<Longrightarrow> memberEntryOk j e \<Longrightarrow>
     int64 (logSize j + 1) \<Longrightarrow> journal_step api j j'"
| step_remove: "removeEntries api i j = Some (b, j') \<Longrightarrow> rollbackSafe api j i \<Longrightarrow> journal_step api j j'"
| step_trim: "trimUntil api i j = Some j' \<Longrightarrow> journal_step api j j'"
| step_fsync: "setFsyncPolicy api p j = Some j' \<Longrightarrow> journal_step api j j'"
| step_restart: "openJournal api (j_db j) = Some j' \<Longrightarrow> journal_step api j j'"

text \<open>What every step guarantees.\<close>

definition journal_safe :: "('db, 'wb) rocksdb \<Rightarrow> 'db raft_journal \<Rightarrow> 'db raft_journal \<Rightarrow> bool" where
  "journal_safe api j j' \<longleftrightarrow>
     journalInv api j' \<and> currentTerm j \<le> currentTerm j'
     \<and> (currentTerm j' = currentTerm j \<longrightarrow> \<not> serverEmpty (votedFor j) \<longrightarrow> votedFor j' = votedFor j)
     \<and> commitIndex j \<le> commitIndex j' \<and> logStart j \<le> logStart j'
     \<and> (\<forall>i. logStart j' \<le> i \<longrightarrow> i \<le> commitIndex j \<longrightarrow> entryAt api j' i = entryAt api j i)"

lemma journal_safe_refl: "journalInv api j \<Longrightarrow> journal_safe api j j"
  by (simp add: journal_safe_def)

lemma journal_safe_sameLog:
  assumes "journalInv api j'" "sameLog (jview api j) (jview api j')"
    and "currentTerm j \<le> currentTerm j'" "commitIndex j \<le> commitIndex j'" "logStart j' = logStart j"
    and "currentTerm j' = currentTerm j \<Longrightarrow> \<not> serverEmpty (votedFor j) \<Longrightarrow> votedFor j' = votedFor j"
  shows "journal_safe api j j'"
  using assms sameLog_preserves(1) [OF assms(2)] by (simp add: journal_safe_def entryAt_def)

lemma journal_safe_trans:
  "journal_safe api j j' \<Longrightarrow> journal_safe api j' j'' \<Longrightarrow> journal_safe api j j''"
  by (fastforce simp: journal_safe_def)

lemma journalInv_index: "journalInv api j \<Longrightarrow> logStart j \<le> i \<Longrightarrow> i \<le> commitIndex j \<Longrightarrow> 0 \<le> i \<and> int64 i \<and> i < logSize j"
  by (auto dest!: journalInvD(3) simp: bounds_def int64_def)

lemma append_safe:
  assumes "journalInv api j" "appended api e j j'"
  shows "journal_safe api j j'"
  using assms(2) journalInv_index [OF assms(1)] by (auto simp: appended_def journal_safe_def)

lemma remove_safe:
  assumes inv: "journalInv api j" and "removeEntries api i j = Some (b, j')" "rollbackSafe api j i"
  shows "journal_safe api j j'"
proof -
  consider "logSize j \<le> i" | "i < logSize j" "i \<le> commitIndex j" | "commitIndex j < i" "i < logSize j" by linarith
  then show ?thesis
  proof cases
    case 1
    with assms removeEntries_rejects(1) [of j i api] show ?thesis by (simp add: journal_safe_refl)
  next
    case 2
    with assms removeEntries_rejects(2) [of i j api] show ?thesis by simp
  next
    case 3
    from removeEntries_ok [OF inv 3 assms(3)] assms(2) journalInv_index [OF inv] 3 show ?thesis
      by (auto simp: journal_safe_def)
  qed
qed

lemma trim_safe:
  assumes inv: "journalInv api j" and "trimUntil api i j = Some j'"
  shows "journal_safe api j j'"
proof -
  consider "i \<le> logStart j" | "logStart j < i" "commitIndex j < i" | "logStart j < i" "i \<le> commitIndex j" by linarith
  then show ?thesis
  proof cases
    case 1
    with assms show ?thesis by (simp add: trimUntil_def journal_safe_refl)
  next
    case 2
    with assms trimUntil_rejects [of j i api] show ?thesis by simp
  next
    case 3
    from trimUntil_ok [OF inv 3] assms(2) obtain db' where j': "j' = j\<lparr>j_db := db', logStart := i\<rparr>" "journalInv api j'"
        "\<And>k. 0 \<le> k \<Longrightarrow> int64 k \<Longrightarrow> entryAt api j' k = (if k < i then None else entryAt api j k)"
      by auto
    have "entryAt api j' k = entryAt api j k" if "i \<le> k" "k \<le> commitIndex j" for k
      using j'(3) [of k] journalInv_index [OF inv, of k] that 3 by simp
    with j'(2) 3 show ?thesis by (simp add: journal_safe_def) (simp add: j'(1))
  qed
qed

lemma journal_step_safe: "journal_step api j j' \<Longrightarrow> journalInv api j \<Longrightarrow> journal_safe api j j'"
proof (induction rule: journal_step.induct)
  case (step_term t s j b j')
  show ?case
  proof (cases "currentTerm j < t \<or> t = currentTerm j \<and> serverEmpty (votedFor j)")
    case True
    with setCurrentTerm_ok [OF step_term.prems step_term(2,3)] step_term(1) show ?thesis
      by (auto intro!: journal_safe_sameLog)
  next
    case False
    then have "t < currentTerm j \<or> t = currentTerm j \<and> \<not> serverEmpty (votedFor j)" by auto
    with setCurrentTerm_rejects [OF this, of api s] step_term show ?thesis by (simp add: journal_safe_refl)
  qed
next
  case (step_commit i j b j')
  show ?case
  proof (cases "i < logSize j")
    case True
    with setCommitIndex_ok [OF step_commit.prems True] step_commit(1) show ?thesis
      by (auto intro!: journal_safe_sameLog)
  next
    case False
    moreover have "commitIndex j < logSize j" using journalInvD(3) [OF step_commit.prems] by (simp add: bounds_def)
    ultimately show ?thesis using step_commit setCommitIndex_nonexisting [of j i api] by simp
  qed
next
  case (step_append i e important j b j')
  show ?case
  proof (cases "i \<noteq> logSize j \<or> currentTerm j < entryTerm e \<or> entryTerm e < termOfLastEntry j")
    case True
    from append_rejects [OF True, of api] step_append(1) have "j' = j" by (simp add: j_append_def)
    with step_append.prems show ?thesis by (simp add: journal_safe_refl)
  next
    case False
    with append_ok [OF step_append.prems step_append(2) _ _ step_append(4,3), of important] step_append(1) step_append.prems
    show ?thesis by (auto simp: j_append_def intro: append_safe)
  qed
next
  case (step_remove i j b j')
  then show ?case by (auto intro: remove_safe)
next
  case (step_trim i j j')
  then show ?case by (auto intro: trim_safe)
next
  case (step_fsync p j j')
  with setFsyncPolicy_ok [OF step_fsync.prems, of p] show ?case
    by (auto intro!: journal_safe_sameLog)
next
  case (step_restart j j')
  with openJournal_ok show ?case by (fastforce intro: journal_safe_refl)
qed

lemma journal_run_safe: "(journal_step api)\<^sup>*\<^sup>* j j' \<Longrightarrow> journalInv api j \<Longrightarrow> journal_safe api j j'"
proof (induction rule: rtranclp_induct)
  case base
  then show ?case by (rule journal_safe_refl)
next
  case (step j' j'')
  then have "journal_safe api j j'" by simp
  moreover from this have "journalInv api j'" by (simp add: journal_safe_def)
  ultimately show ?case using journal_step_safe [OF step(2)] journal_safe_trans by blast
qed

end
