(* ===== verification/RaftTrackers.thy ===== *)
theory RaftTrackers
  imports RaftMessages RaftLog
begin

text \<open>
  What a leader and a candidate count: the commit tracker (\<^verbatim>\<open>src/src/raft/RaftCommitTracker.cc\<close>),
  the leader lease (\<^verbatim>\<open>src/src/raft/RaftLease.cc\<close>), the votes of an election
  (\<^verbatim>\<open>src/src/raft/RaftVoteRegistry.cc\<close>) and the writes that wait for their entry to be committed
  (\<^verbatim>\<open>src/src/raft/RaftBlockedWrites.cc\<close>).  The handlers a \<open>std::map\<close> points to are the values of
  the map; time points are integers.
\<close>

subsection \<open>The k-th largest of a list\<close>

text \<open>
  Both trackers sort a list and take the entry at \<open>(size + 1) - n\<close>: at least \<open>n - 1\<close> entries of
  the list are as large, and no larger value has that property.
\<close>

lemma card_ge_nth_sorted:
  assumes "sorted xs" "i < length xs"
  shows "length xs - i \<le> length (filter (\<lambda>x. xs ! i \<le> x) xs)"
proof -
  have "filter (\<lambda>x. xs ! i \<le> x) (drop i xs) = drop i xs"
    using assms by (auto simp: filter_id_conv in_set_conv_nth sorted_nth_mono)
  then have "length xs - i = length (filter (\<lambda>x. xs ! i \<le> x) (drop i xs))" by simp
  also have "\<dots> \<le> length (filter (\<lambda>x. xs ! i \<le> x) (take i xs)) + length (filter (\<lambda>x. xs ! i \<le> x) (drop i xs))"
    by simp
  also have "\<dots> = length (filter (\<lambda>x. xs ! i \<le> x) (take i xs @ drop i xs))" by (simp only: filter_append length_append)
  finally show ?thesis by simp
qed

lemma card_ge_nth_sorted_max:
  assumes "sorted xs" "i < length xs" "xs ! i < c"
  shows "length (filter (\<lambda>x. c \<le> x) xs) < length xs - i"
proof -
  have "\<not> c \<le> x" if "x \<in> set (take (Suc i) xs)" for x
  proof -
    from that obtain k where "k < Suc i" "k < length xs" "x = xs ! k" by (auto simp: in_set_conv_nth)
    then have "x \<le> xs ! i" using assms(1,2) by (simp add: sorted_nth_mono)
    with assms(3) show ?thesis by simp
  qed
  then have "filter (\<lambda>x. c \<le> x) (take (Suc i) xs) = []" by (simp add: filter_empty_conv)
  then have "length (filter (\<lambda>x. c \<le> x) xs) = length (filter (\<lambda>x. c \<le> x) (drop (Suc i) xs))"
    by (metis append_Nil append_take_drop_id filter_append)
  also have "\<dots> \<le> length (drop (Suc i) xs)" by (rule length_filter_le)
  finally show ?thesis using assms(2) by simp
qed

lemma length_filter_sort: "length (filter P (sort xs)) = length (filter P xs)"
  by (metis filter_sort length_sort)

definition kthLargest :: "'a :: linorder list \<Rightarrow> nat \<Rightarrow> 'a" where
  "kthLargest xs n = sort xs ! (length xs + 1 - n)"

lemma kthLargest_ge:
  assumes "2 \<le> n" "n \<le> length xs + 1"
  shows "n \<le> length (filter (\<lambda>x. kthLargest xs n \<le> x) xs) + 1"
proof -
  have "length (sort xs) - (length xs + 1 - n) \<le> length (filter (\<lambda>x. kthLargest xs n \<le> x) (sort xs))"
    unfolding kthLargest_def using assms by (intro card_ge_nth_sorted) auto
  then show ?thesis using assms by (simp add: length_filter_sort)
qed

lemma kthLargest_max:
  assumes "2 \<le> n" "n \<le> length xs + 1" "kthLargest xs n < c"
  shows "length (filter (\<lambda>x. c \<le> x) xs) + 1 < n"
proof -
  have "length (filter (\<lambda>x. c \<le> x) (sort xs)) < length (sort xs) - (length xs + 1 - n)"
    using assms unfolding kthLargest_def by (intro card_ge_nth_sorted_max) auto
  then show ?thesis using assms by (simp add: length_filter_sort)
qed

lemma quorum_index_bounds:
  "0 < m \<Longrightarrow> 2 \<le> calculateQuorumSize (m + 1)" "0 < m \<Longrightarrow> calculateQuorumSize (m + 1) \<le> m + 1"
  by (simp_all add: calculateQuorumSize_def)

text \<open>The leader and the targets whose value is at least \<open>c\<close>.\<close>

lemma isQuorum_with_leader:
  assumes "distinct (ldr # ts)"
  shows "isQuorum (ldr # ts) (insert ldr {t \<in> set ts. P t})
     \<longleftrightarrow> calculateQuorumSize (length ts + 1) \<le> length (filter P ts) + 1"
proof -
  have "insert ldr {t \<in> set ts. P t} \<inter> set (ldr # ts) = insert ldr (set (filter P ts))" by auto
  moreover have "card (set (filter P ts)) = length (filter P ts)"
    using assms by (intro distinct_card) simp
  moreover have "ldr \<notin> set (filter P ts)" using assms by simp
  ultimately show ?thesis by (simp add: isQuorum_def)
qed

subsection \<open>Commit tracker\<close>

record commit_tracker =
  ct_registrations :: "raft_server \<rightharpoonup> int"
  ct_targets :: "raft_server list"
  ct_quorumSize :: nat
  ct_commitIndex :: int
  commitIndexLagging :: bool

definition getHandlerInternal :: "raft_server \<Rightarrow> (raft_server \<rightharpoonup> int) \<Rightarrow> (raft_server \<rightharpoonup> int)" where
  "getHandlerInternal srv regs = (if regs srv = None then regs(srv \<mapsto> 0) else regs)"

definition ct_updateTargets :: "raft_server list \<Rightarrow> commit_tracker \<Rightarrow> commit_tracker option" where
  "ct_updateTargets trgt ct = do {
     let q = calculateQuorumSize (length trgt + 1);
     assert_that (0 < q);
     assert_that (q = 1 \<longrightarrow> trgt = []);
     Some (ct\<lparr>ct_targets := remdups trgt, ct_quorumSize := q,
             ct_registrations := fold getHandlerInternal trgt (ct_registrations ct)\<rparr>) }"

definition ct_reset :: "commit_tracker \<Rightarrow> commit_tracker" where
  "ct_reset ct = ct\<lparr>ct_registrations := Map.empty, ct_commitIndex := 0\<rparr>"

definition updateCommitIndex ::
  "('db, 'wb) rocksdb \<Rightarrow> int \<Rightarrow> commit_tracker \<Rightarrow> 'db raft_journal
    \<Rightarrow> (commit_tracker \<times> 'db raft_journal) option" where
  "updateCommitIndex api newCommitIndex ct j =
     (if newCommitIndex < commitIndex j then Some (ct\<lparr>commitIndexLagging := True\<rparr>, j)
      else do {
        (_, j) \<leftarrow> setCommitIndex api newCommitIndex j;
        Some (ct\<lparr>commitIndexLagging := False, ct_commitIndex := newCommitIndex\<rparr>, j) })"

definition matchIndexes :: "commit_tracker \<Rightarrow> int list" where
  "matchIndexes ct = map (\<lambda>t. the (ct_registrations ct t)) (ct_targets ct)"

definition recalculateCommitIndex ::
  "('db, 'wb) rocksdb \<Rightarrow> commit_tracker \<Rightarrow> 'db raft_journal \<Rightarrow> (commit_tracker \<times> 'db raft_journal) option" where
  "recalculateCommitIndex api ct j =
     (if ct_targets ct = [] then Some (ct, j)
      else updateCommitIndex api (sort (matchIndexes ct) ! (length (matchIndexes ct) + 1 - ct_quorumSize ct)) ct j)"

definition ct_updated ::
  "('db, 'wb) rocksdb \<Rightarrow> int \<Rightarrow> commit_tracker \<Rightarrow> 'db raft_journal \<Rightarrow> (commit_tracker \<times> 'db raft_journal) option" where
  "ct_updated api val ct j =
     (if val \<le> ct_commitIndex ct then Some (ct, j) else recalculateCommitIndex api ct j)"

text \<open>\<open>RaftMatchIndexTracker::update\<close> on the handler of \<open>srv\<close>.\<close>

definition matchIndexUpdate ::
  "('db, 'wb) rocksdb \<Rightarrow> raft_server \<Rightarrow> int \<Rightarrow> commit_tracker \<Rightarrow> 'db raft_journal
    \<Rightarrow> (commit_tracker \<times> 'db raft_journal) option" where
  "matchIndexUpdate api srv newMatchIndex ct j =
     ct_updated api newMatchIndex (ct\<lparr>ct_registrations := (ct_registrations ct)(srv \<mapsto> newMatchIndex)\<rparr>) j"

text \<open>One round of \<open>runAutoCommit\<close>, for a cluster of one node.\<close>

definition autoCommit :: "('db, 'wb) rocksdb \<Rightarrow> 'db raft_journal \<Rightarrow> 'db raft_journal option" where
  "autoCommit api j =
     (if logSize j - 1 \<noteq> commitIndex j then do {
        (ok, j) \<leftarrow> setCommitIndex api (logSize j - 1) j;
        assert_that ok;
        Some j }
      else Some j)"

definition trackerInv :: "commit_tracker \<Rightarrow> bool" where
  "trackerInv ct \<longleftrightarrow>
     distinct (ct_targets ct) \<and> set (ct_targets ct) \<subseteq> dom (ct_registrations ct)
     \<and> ct_quorumSize ct = calculateQuorumSize (length (ct_targets ct) + 1)"

lemma fold_getHandler:
  "dom (fold getHandlerInternal ts regs) = dom regs \<union> set ts"
  "regs s = Some m \<Longrightarrow> fold getHandlerInternal ts regs s = Some m"
proof (induction ts arbitrary: regs)
  case (Cons t ts)
  { case 1 with Cons show ?case by (auto simp: getHandlerInternal_def) }
  { case 2
    then have "getHandlerInternal t regs s = Some m" by (auto simp: getHandlerInternal_def)
    with Cons(2) show ?case by simp }
qed simp_all

lemma ct_updateTargets_ok:
  assumes "distinct trgt"
  shows "\<exists>ct'. ct_updateTargets trgt ct = Some ct' \<and> trackerInv ct' \<and> ct_targets ct' = trgt
    \<and> (\<forall>s m. ct_registrations ct s = Some m \<longrightarrow> ct_registrations ct' s = Some m)"
proof -
  have "calculateQuorumSize (length trgt + 1) = 1 \<longrightarrow> trgt = []" by (cases trgt) (simp_all add: calculateQuorumSize_def)
  then show ?thesis
    using assms fold_getHandler
    by (simp add: ct_updateTargets_def trackerInv_def distinct_remdups_id) (simp add: calculateQuorumSize_def)
qed

text \<open>
  The commit index that is computed is one that a quorum has reached, the leader included, and the
  largest such index.
\<close>

lemma recalculateCommitIndex_ok:
  assumes ct: "trackerInv ct" "ct_targets ct \<noteq> []" and ldr: "ldr \<notin> set (ct_targets ct)"
    and j: "journalInv api j" and top: "\<forall>t \<in> set (ct_targets ct). the (ct_registrations ct t) < logSize j"
  shows "\<exists>c ct' j'. recalculateCommitIndex api ct j = Some (ct', j') \<and> journalInv api j'
    \<and> commitIndex j' = max (commitIndex j) c
    \<and> isQuorum (ldr # ct_targets ct) (insert ldr {t \<in> set (ct_targets ct). c \<le> the (ct_registrations ct t)})
    \<and> (\<forall>c' > c. \<not> isQuorum (ldr # ct_targets ct) (insert ldr {t \<in> set (ct_targets ct). c' \<le> the (ct_registrations ct t)}))"
proof -
  let ?ts = "ct_targets ct" and ?m = "\<lambda>t. the (ct_registrations ct t)"
  let ?q = "calculateQuorumSize (length ?ts + 1)"
  let ?xs = "map ?m ?ts"
  define c where "c = kthLargest ?xs ?q"
  have b: "2 \<le> ?q" "?q \<le> length ?xs + 1" using ct(2) quorum_index_bounds [of "length ?ts"] by auto
  have d: "distinct (ldr # ?ts)" using ct(1) ldr by (simp add: trackerInv_def)
  have len: "length (filter (\<lambda>x. k \<le> x) ?xs) = length (filter (\<lambda>t. k \<le> ?m t) ?ts)" for k
    by (simp add: filter_map comp_def)
  have q: "isQuorum (ldr # ?ts) (insert ldr {t \<in> set ?ts. c \<le> ?m t})"
    using isQuorum_with_leader [OF d, of "\<lambda>t. c \<le> ?m t"] kthLargest_ge [OF b] len [of c] by (simp add: c_def)
  have max: "\<not> isQuorum (ldr # ?ts) (insert ldr {t \<in> set ?ts. k \<le> ?m t})" if "c < k" for k
    using isQuorum_with_leader [OF d, of "\<lambda>t. k \<le> ?m t"] kthLargest_max [OF b, of k] len [of k] that by (simp add: c_def)
  have "c \<in> set (sort ?xs)"
    unfolding c_def kthLargest_def using b by (intro nth_mem) auto
  then have "c < logSize j" using top by auto
  from setCommitIndex_ok [OF j this] obtain db' where
    s: "setCommitIndex api c j = Some (commitIndex j \<le> c, j\<lparr>j_db := db', commitIndex := max (commitIndex j) c\<rparr>)"
      "journalInv api (j\<lparr>j_db := db', commitIndex := max (commitIndex j) c\<rparr>)"
    by blast
  have r: "recalculateCommitIndex api ct j = updateCommitIndex api c ct j"
    using ct by (simp add: recalculateCommitIndex_def trackerInv_def c_def kthLargest_def matchIndexes_def)
  show ?thesis
  proof (cases "c < commitIndex j")
    case True
    then show ?thesis using r j q max
      by (intro exI [of _ c] exI [of _ "ct\<lparr>commitIndexLagging := True\<rparr>"] exI [of _ j]) (simp add: updateCommitIndex_def)
  next
    case False
    then show ?thesis using r s q max
      by (intro exI [of _ c] exI [of _ "ct\<lparr>commitIndexLagging := False, ct_commitIndex := c\<rparr>"]
          exI [of _ "j\<lparr>j_db := db', commitIndex := max (commitIndex j) c\<rparr>"]) (simp add: updateCommitIndex_def)
  qed
qed

lemma autoCommit_ok:
  assumes "journalInv api j"
  shows "\<exists>j'. autoCommit api j = Some j' \<and> journalInv api j' \<and> commitIndex j' = logSize j - 1 \<and> logSize j' = logSize j"
proof (cases "logSize j - 1 = commitIndex j")
  case True
  with assms show ?thesis by (simp add: autoCommit_def)
next
  case False
  have b: "commitIndex j < logSize j" using journalInvD(3) [OF assms] by (simp add: bounds_def)
  with setCommitIndex_ok [OF assms, of "logSize j - 1"] False show ?thesis
    by (auto simp: autoCommit_def max_def)
qed

subsection \<open>Leader lease\<close>

record raft_lease =
  lease_targets :: "raft_server list"
  lease_registrations :: "raft_server \<rightharpoonup> int"
  leaseDuration :: int
  lease_quorumSize :: nat

definition lease_getHandler :: "raft_server \<Rightarrow> raft_lease \<Rightarrow> raft_lease" where
  "lease_getHandler srv l =
     (if lease_registrations l srv = None
      then l\<lparr>lease_registrations := (lease_registrations l)(srv \<mapsto> 0)\<rparr> else l)"

definition lease_updateTargets :: "raft_server list \<Rightarrow> raft_lease \<Rightarrow> raft_lease" where
  "lease_updateTargets trgt l =
     fold lease_getHandler trgt
       (l\<lparr>lease_targets := remdups trgt, lease_quorumSize := calculateQuorumSize (length trgt + 1)\<rparr>)"

definition newLease :: "raft_server list \<Rightarrow> int \<Rightarrow> raft_lease" where
  "newLease trgt dur = lease_updateTargets trgt
     \<lparr>lease_targets = [], lease_registrations = Map.empty, leaseDuration = dur, lease_quorumSize = 0\<rparr>"

text \<open>\<open>RaftLastContact::heartbeat\<close> on the handler of \<open>srv\<close>.\<close>

definition lease_heartbeat :: "raft_server \<Rightarrow> int \<Rightarrow> raft_lease \<Rightarrow> raft_lease" where
  "lease_heartbeat srv timepoint l =
     (case lease_registrations l srv of
        Some lastCommunication \<Rightarrow>
          (if lastCommunication < timepoint
           then l\<lparr>lease_registrations := (lease_registrations l)(srv \<mapsto> timepoint)\<rparr> else l)
      | None \<Rightarrow> l)"

definition lastContacts :: "raft_lease \<Rightarrow> int list" where
  "lastContacts l = map (\<lambda>t. the (lease_registrations l t)) (lease_targets l)"

text \<open>An index past the end of the sorted vector is \<open>None\<close>.\<close>

definition getNthLease :: "int \<Rightarrow> nat \<Rightarrow> raft_lease \<Rightarrow> int option" where
  "getNthLease now n l =
     (if lease_quorumSize l = 1 then Some (now + leaseDuration l)
      else do {
        let leases = sort (lastContacts l);
        let threshold = int (length leases + 1) - int n;
        let threshold = (if threshold < 0 then 0 else threshold);
        assert_that (nat threshold < length leases);
        Some (leases ! nat threshold + leaseDuration l) })"

definition getDeadline :: "int \<Rightarrow> raft_lease \<Rightarrow> int option" where
  "getDeadline now l = getNthLease now (lease_quorumSize l) l"

definition getShakyQuorumDeadline :: "int \<Rightarrow> raft_lease \<Rightarrow> int option" where
  "getShakyQuorumDeadline now l = getNthLease now (lease_quorumSize l + 1) l"

definition quorumLeaseInv :: "raft_lease \<Rightarrow> bool" where
  "quorumLeaseInv l \<longleftrightarrow>
     distinct (lease_targets l) \<and> set (lease_targets l) \<subseteq> dom (lease_registrations l)
     \<and> lease_quorumSize l = calculateQuorumSize (length (lease_targets l) + 1)"

definition heardSince :: "raft_lease \<Rightarrow> int \<Rightarrow> raft_server set" where
  "heardSince l c = {t \<in> set (lease_targets l). c \<le> the (lease_registrations l t)}"

lemma fold_lease_getHandler:
  "lease_targets (fold lease_getHandler ts l) = lease_targets l"
  "lease_quorumSize (fold lease_getHandler ts l) = lease_quorumSize l"
  "leaseDuration (fold lease_getHandler ts l) = leaseDuration l"
  "dom (lease_registrations (fold lease_getHandler ts l)) = dom (lease_registrations l) \<union> set ts"
  by (induction ts arbitrary: l) (auto simp: lease_getHandler_def)

lemma fold_lease_keeps:
  "lease_registrations l s = Some m \<Longrightarrow> lease_registrations (fold lease_getHandler ts l) s = Some m"
proof (induction ts arbitrary: l)
  case (Cons t ts)
  then have "lease_registrations (lease_getHandler t l) s = Some m" by (auto simp: lease_getHandler_def)
  with Cons.IH show ?case by simp
qed simp

lemma lease_updateTargets_ok:
  assumes "distinct trgt"
  shows "quorumLeaseInv (lease_updateTargets trgt l)" "lease_targets (lease_updateTargets trgt l) = trgt"
    "lease_registrations l s = Some m \<Longrightarrow> lease_registrations (lease_updateTargets trgt l) s = Some m"
  using assms by (simp_all add: lease_updateTargets_def quorumLeaseInv_def fold_lease_getHandler fold_lease_keeps distinct_remdups_id)

lemma lease_heartbeat_inv: "quorumLeaseInv l \<Longrightarrow> quorumLeaseInv (lease_heartbeat srv tp l)"
  by (auto simp: quorumLeaseInv_def lease_heartbeat_def split: option.split)

lemma heard_filter:
  "length (filter (\<lambda>x. c \<le> x) (lastContacts l)) = length (filter (\<lambda>t. c \<le> the (lease_registrations l t)) (lease_targets l))"
  by (simp add: lastContacts_def filter_map comp_def)

lemma getNthLease_kth:
  assumes "2 \<le> n" "n \<le> length (lastContacts l) + 1" "lease_quorumSize l \<noteq> 1"
  shows "getNthLease now n l = Some (kthLargest (lastContacts l) n + leaseDuration l)"
proof -
  let ?k = "length (lastContacts l)"
  have "(if int (?k + 1) - int n < 0 then 0 else int (?k + 1) - int n) = int (?k + 1 - n)" using assms by auto
  moreover have "?k + 1 - n < ?k" using assms by linarith
  ultimately show ?thesis
    using assms(3) by (simp only: getNthLease_def kthLargest_def Let_def length_sort nat_int if_False assert_that_simps) simp
qed

text \<open>
  The lease is valid until \<open>leaseDuration\<close> after the latest moment since which a quorum, the
  leader included, has been heard from.
\<close>

lemma getDeadline_ok:
  assumes l: "quorumLeaseInv l" "lease_targets l \<noteq> []" and ldr: "ldr \<notin> set (lease_targets l)"
  shows "\<exists>d. getDeadline now l = Some d
    \<and> isQuorum (ldr # lease_targets l) (insert ldr (heardSince l (d - leaseDuration l)))
    \<and> (\<forall>c > d. \<not> isQuorum (ldr # lease_targets l) (insert ldr (heardSince l (c - leaseDuration l))))"
proof -
  let ?xs = "lastContacts l" and ?q = "lease_quorumSize l" and ?ts = "lease_targets l"
  have len: "length ?xs = length ?ts" by (simp add: lastContacts_def)
  have b: "2 \<le> ?q" "?q \<le> length ?xs + 1"
    using l quorum_index_bounds [of "length ?ts"] by (auto simp: quorumLeaseInv_def len)
  have d: "distinct (ldr # ?ts)" using l(1) ldr by (simp add: quorumLeaseInv_def)
  have r: "getDeadline now l = Some (kthLargest ?xs ?q + leaseDuration l)"
    using getNthLease_kth [of ?q l] b by (simp add: getDeadline_def)
  have q: "isQuorum (ldr # ?ts) (insert ldr (heardSince l c)) \<longleftrightarrow> ?q \<le> length (filter (\<lambda>x. c \<le> x) ?xs) + 1" for c
    using isQuorum_with_leader [OF d, of "\<lambda>t. c \<le> the (lease_registrations l t)"] l(1)
    by (simp add: heardSince_def heard_filter quorumLeaseInv_def)
  show ?thesis
  proof (intro exI conjI allI impI)
    show "isQuorum (ldr # ?ts) (insert ldr (heardSince l (kthLargest ?xs ?q + leaseDuration l - leaseDuration l)))"
      using kthLargest_ge [OF b] by (simp add: q)
    fix c assume "kthLargest ?xs ?q + leaseDuration l < c"
    then have "kthLargest ?xs ?q < c - leaseDuration l" by simp
    from kthLargest_max [OF b this] show "\<not> isQuorum (ldr # ?ts) (insert ldr (heardSince l (c - leaseDuration l)))"
      by (simp add: q)
  qed (rule r)
qed

text \<open>Until the shaky deadline the quorum survives the loss of any one node, the leader apart.\<close>

lemma getShakyQuorumDeadline_ok:
  assumes l: "quorumLeaseInv l" "2 \<le> length (lease_targets l)" and ldr: "ldr \<notin> set (lease_targets l)"
  shows "\<exists>d. getShakyQuorumDeadline now l = Some d
    \<and> (\<forall>lost. lost \<noteq> ldr \<longrightarrow>
         isQuorum (ldr # lease_targets l) (insert ldr (heardSince l (d - leaseDuration l)) - {lost}))"
proof -
  let ?xs = "lastContacts l" and ?q = "lease_quorumSize l" and ?ts = "lease_targets l"
  have len: "length ?xs = length ?ts" by (simp add: lastContacts_def)
  have b: "2 \<le> ?q + 1" "?q + 1 \<le> length ?xs + 1" "?q \<noteq> 1"
    using l by (auto simp: quorumLeaseInv_def len calculateQuorumSize_def)
  define c where "c = kthLargest ?xs (?q + 1)"
  let ?H = "heardSince l c"
  have r: "getShakyQuorumDeadline now l = Some (c + leaseDuration l)"
    unfolding getShakyQuorumDeadline_def c_def using b by (intro getNthLease_kth) simp_all
  have "distinct ?ts" using l(1) by (simp add: quorumLeaseInv_def)
  then have "card ?H = length (filter (\<lambda>x. c \<le> x) ?xs)"
    unfolding heard_filter heardSince_def by (simp add: distinct_length_filter Collect_conj_eq Int_commute)
  then have "?q \<le> card ?H" using kthLargest_ge [OF b(1,2)] by (simp add: c_def)
  moreover have "card ?H \<le> card (?H - {lost}) + 1" for lost
    using card_Diff1_le [of ?H lost] card_Diff_singleton_if [of ?H lost] by (auto split: if_splits)
  moreover have "(insert ldr ?H - {lost}) \<inter> set (ldr # ?ts) = insert ldr (?H - {lost})" if "lost \<noteq> ldr" for lost
    using that by (auto simp: heardSince_def)
  moreover have "ldr \<notin> ?H" "finite ?H" using ldr by (simp_all add: heardSince_def)
  ultimately have "isQuorum (ldr # ?ts) (insert ldr ?H - {lost})" if "lost \<noteq> ldr" for lost
    using that l(1) order_trans by (fastforce simp: isQuorum_def quorumLeaseInv_def)
  with r show ?thesis by (intro exI [of _ "c + leaseDuration l"]) simp
qed

subsection \<open>Votes\<close>

datatype ElectionOutcome = kElected | kNotElected | kVetoed

record single_vote =
  netError :: bool
  parseError :: bool
  resp :: vote_response

record vote_registry =
  reg_term :: int
  vr_preVote :: bool
  vr_contents :: "(raft_server \<times> single_vote) list"

definition serverLess :: "raft_server \<Rightarrow> raft_server \<Rightarrow> bool" where
  "serverLess s t = (if hostname s \<noteq> hostname t then hostname s < hostname t else port s < port t)"

definition newRegistry :: "int \<Rightarrow> bool \<Rightarrow> vote_registry" where
  "newRegistry trm prevote = \<lparr>reg_term = trm, vr_preVote = prevote, vr_contents = []\<rparr>"

definition noResponse :: vote_response where
  "noResponse = \<lparr>vresp_term = 0, vresp_vote = VETO\<rparr>"

text \<open>The \<open>std::map\<close> keeps its keys in the order of \<open>RaftServer::operator<\<close>.\<close>

fun insertVote :: "raft_server \<Rightarrow> single_vote \<Rightarrow> (raft_server \<times> single_vote) list \<Rightarrow> (raft_server \<times> single_vote) list" where
  "insertVote srv vote [] = [(srv, vote)]"
| "insertVote srv vote ((s, v) # rest) =
     (if serverLess srv s then (srv, vote) # (s, v) # rest else (s, v) # insertVote srv vote rest)"

definition addVote :: "raft_server \<Rightarrow> single_vote \<Rightarrow> vote_registry \<Rightarrow> vote_registry option" where
  "addVote srv vote reg = do {
     assert_that (srv \<notin> fst ` set (vr_contents reg));
     Some (reg\<lparr>vr_contents := insertVote srv vote (vr_contents reg)\<rparr>) }"

definition registerVote :: "raft_server \<Rightarrow> vote_response \<Rightarrow> vote_registry \<Rightarrow> vote_registry option" where
  "registerVote srv r reg = addVote srv \<lparr>netError = False, parseError = False, resp = r\<rparr> reg"

definition registerParseError :: "raft_server \<Rightarrow> vote_registry \<Rightarrow> vote_registry option" where
  "registerParseError srv reg = addVote srv \<lparr>netError = False, parseError = True, resp = noResponse\<rparr> reg"

definition registerNetworkError :: "raft_server \<Rightarrow> vote_registry \<Rightarrow> vote_registry option" where
  "registerNetworkError srv reg = addVote srv \<lparr>netError = True, parseError = False, resp = noResponse\<rparr> reg"

text \<open>\<open>None\<close>: no reply before the deadline, or a null one.\<close>

definition registerVoteReply :: "raft_server \<Rightarrow> redis_reply option \<Rightarrow> vote_registry \<Rightarrow> vote_registry option" where
  "registerVoteReply srv reply reg =
     (case reply of
        None \<Rightarrow> registerNetworkError srv reg
      | Some _ \<Rightarrow>
          (case parseVoteResponse reply of
             None \<Rightarrow> registerParseError srv reg
           | Some r \<Rightarrow> registerVote srv r reg))"

text \<open>The loop of \<open>determineOutcome\<close>; \<open>None\<close> is its early return on a veto.\<close>

fun tallyVotes :: "bool \<Rightarrow> nat \<Rightarrow> (raft_server \<times> single_vote) list \<Rightarrow> nat option" where
  "tallyVotes preVote positives [] = Some positives"
| "tallyVotes preVote positives ((srv, sv) # rest) =
     (if netError sv then tallyVotes preVote positives rest
      else if parseError sv then tallyVotes preVote (if preVote then positives + 1 else positives) rest
      else if vresp_vote (resp sv) = GRANTED then tallyVotes preVote (positives + 1) rest
      else if vresp_vote (resp sv) = VETO then None
      else tallyVotes preVote positives rest)"

definition determineOutcome :: "vote_registry \<Rightarrow> ElectionOutcome" where
  "determineOutcome reg =
     (case tallyVotes (vr_preVote reg) 0 (vr_contents reg) of
        None \<Rightarrow> kVetoed
      | Some positives \<Rightarrow>
          (if calculateQuorumSize (length (vr_contents reg) + 1) \<le> positives + 1 then kElected else kNotElected))"

definition countVotes :: "RaftVote \<Rightarrow> vote_registry \<Rightarrow> nat" where
  "countVotes vote reg =
     length (filter (\<lambda>(srv, sv). \<not> (netError sv \<or> parseError sv) \<and> vresp_vote (resp sv) = vote) (vr_contents reg))"

definition countNetworkError :: "vote_registry \<Rightarrow> nat" where
  "countNetworkError reg = length (filter (\<lambda>(srv, sv). netError sv) (vr_contents reg))"

definition countParseError :: "vote_registry \<Rightarrow> nat" where
  "countParseError reg = length (filter (\<lambda>(srv, sv). parseError sv) (vr_contents reg))"

definition registryInv :: "vote_registry \<Rightarrow> bool" where
  "registryInv reg \<longleftrightarrow> distinct (map fst (vr_contents reg))"

definition contacted :: "vote_registry \<Rightarrow> raft_server list" where
  "contacted reg = map fst (vr_contents reg)"

definition answered :: "RaftVote \<Rightarrow> vote_registry \<Rightarrow> raft_server set" where
  "answered vote reg =
     {s. \<exists>sv. (s, sv) \<in> set (vr_contents reg) \<and> \<not> netError sv \<and> \<not> parseError sv \<and> vresp_vote (resp sv) = vote}"

lemma set_insertVote [simp]: "set (insertVote srv v xs) = insert (srv, v) (set xs)"
  by (induction xs) (auto split: if_splits)

lemma distinct_insertVote:
  "srv \<notin> fst ` set xs \<Longrightarrow> distinct (map fst xs) \<Longrightarrow> distinct (map fst (insertVote srv v xs))"
  by (induction xs) auto

lemma length_insertVote [simp]: "length (insertVote srv v xs) = Suc (length xs)"
  by (induction xs) auto

text \<open>A server that was asked is counted once, under the answer it gave.\<close>

lemma addVote_ok:
  assumes "registryInv reg"
  shows "addVote srv vote reg = None \<longleftrightarrow> srv \<in> set (contacted reg)"
    "addVote srv vote reg = Some reg' \<Longrightarrow> registryInv reg' \<and> set (contacted reg') = insert srv (set (contacted reg))
       \<and> reg_term reg' = reg_term reg \<and> vr_preVote reg' = vr_preVote reg"
  using assms by (auto simp: addVote_def registryInv_def contacted_def distinct_insertVote assert_that_def split: if_splits)

lemma registerVoteReply_cases:
  assumes "registerVoteReply srv reply reg = Some reg'"
  obtains sv where "addVote srv sv reg = Some reg'"
    "\<not> netError sv \<and> \<not> parseError sv \<longleftrightarrow> parseVoteResponse reply \<noteq> None"
    "\<And>r. parseVoteResponse reply = Some r \<Longrightarrow> resp sv = r"
proof -
  consider (net) "reply = None" "parseVoteResponse reply = None"
    | (garbled) y where "reply = Some y" "parseVoteResponse reply = None"
    | (vote) y r where "reply = Some y" "parseVoteResponse reply = Some r"
    by (cases reply; cases "parseVoteResponse reply") (auto simp: parseVoteResponse_def stringArray_def)
  then show ?thesis
  proof cases
    case net
    with assms have "addVote srv \<lparr>netError = True, parseError = False, resp = noResponse\<rparr> reg = Some reg'"
      by (simp add: registerVoteReply_def registerNetworkError_def)
    then show ?thesis by (rule that) (simp_all add: net(2))
  next
    case garbled
    with assms have "addVote srv \<lparr>netError = False, parseError = True, resp = noResponse\<rparr> reg = Some reg'"
      by (simp add: registerVoteReply_def registerParseError_def)
    then show ?thesis by (rule that) (simp_all add: garbled(2))
  next
    case vote
    with assms have "addVote srv \<lparr>netError = False, parseError = False, resp = r\<rparr> reg = Some reg'"
      by (simp add: registerVoteReply_def registerVote_def)
    then show ?thesis by (rule that) (simp_all add: vote(2))
  qed
qed

lemma answered_add:
  assumes "addVote srv sv reg = Some reg'"
  shows "answered v reg' = answered v reg
    \<union> (if \<not> netError sv \<and> \<not> parseError sv \<and> vresp_vote (resp sv) = v then {srv} else {})"
  using assms by (auto simp: addVote_def answered_def assert_that_def split: if_splits)

text \<open>
  In the registry, a server has granted its vote exactly if that is what its reply says.
\<close>

lemma registerVoteReply_answered:
  assumes "registerVoteReply srv reply reg = Some reg'"
  shows "answered v reg' = answered v reg
    \<union> (if \<exists>r. parseVoteResponse reply = Some r \<and> vresp_vote r = v then {srv} else {})"
proof -
  obtain sv where sv: "addVote srv sv reg = Some reg'"
    "\<not> netError sv \<and> \<not> parseError sv \<longleftrightarrow> parseVoteResponse reply \<noteq> None"
    "\<And>r. parseVoteResponse reply = Some r \<Longrightarrow> resp sv = r"
    using registerVoteReply_cases [OF assms] by blast
  have "(\<not> netError sv \<and> \<not> parseError sv \<and> vresp_vote (resp sv) = v)
      \<longleftrightarrow> (\<exists>r. parseVoteResponse reply = Some r \<and> vresp_vote r = v)"
    using sv(2,3) by auto
  with answered_add [OF sv(1)] show ?thesis by simp
qed

abbreviation grants :: "single_vote \<Rightarrow> bool" where
  "grants sv \<equiv> \<not> netError sv \<and> \<not> parseError sv \<and> vresp_vote (resp sv) = GRANTED"

abbreviation vetoes :: "single_vote \<Rightarrow> bool" where
  "vetoes sv \<equiv> \<not> netError sv \<and> \<not> parseError sv \<and> vresp_vote (resp sv) = VETO"

lemma tallyVotes_ok:
  "tallyVotes False n xs = (if list_ex (vetoes \<circ> snd) xs then None else Some (n + length (filter (grants \<circ> snd) xs)))"
  by (induction xs arbitrary: n) auto

lemma card_answered:
  assumes "registryInv reg"
  shows "card (answered GRANTED reg) = length (filter (grants \<circ> snd) (vr_contents reg))"
proof -
  have "answered GRANTED reg = set (map fst (filter (grants \<circ> snd) (vr_contents reg)))"
    by (auto simp: answered_def intro: rev_image_eqI)
  moreover have "distinct (map fst (filter (grants \<circ> snd) (vr_contents reg)))"
    using assms unfolding registryInv_def by (rule distinct_map_filter)
  note distinct_card [OF this]
  ultimately show ?thesis by (simp only: length_map)
qed

text \<open>
  An election is won exactly if nobody vetoes it and the candidate and the servers that granted
  their vote are a quorum of the candidate and all servers contacted.
\<close>

lemma determineOutcome_ok:
  assumes reg: "registryInv reg" "\<not> vr_preVote reg" and me: "me \<notin> set (contacted reg)"
  shows "determineOutcome reg =
    (if answered VETO reg \<noteq> {} then kVetoed
     else if isQuorum (me # contacted reg) (insert me (answered GRANTED reg)) then kElected else kNotElected)"
proof -
  let ?xs = "vr_contents reg"
  have veto: "list_ex (vetoes \<circ> snd) ?xs \<longleftrightarrow> answered VETO reg \<noteq> {}" by (force simp: answered_def list_ex_iff)
  have sub: "answered GRANTED reg \<subseteq> set (contacted reg)" by (force simp: answered_def contacted_def)
  then have fin: "finite (answered GRANTED reg)" by (rule finite_subset) simp
  have "insert me (answered GRANTED reg) \<inter> set (me # contacted reg) = insert me (answered GRANTED reg)"
    using sub by auto
  moreover have "me \<notin> answered GRANTED reg" using me sub by auto
  ultimately have q: "isQuorum (me # contacted reg) (insert me (answered GRANTED reg))
      \<longleftrightarrow> calculateQuorumSize (length ?xs + 1) \<le> length (filter (grants \<circ> snd) ?xs) + 1"
    using fin card_answered [OF reg(1)] by (simp add: isQuorum_def contacted_def)
  show ?thesis
    unfolding determineOutcome_def q using reg(2) by (simp add: tallyVotes_ok veto)
qed

end
