(* ===== verification/RaftStates.thy ===== *)
theory RaftStates
  imports RaftTrackers
begin

text \<open>
  The authoritative state of a node (\<^verbatim>\<open>src/src/raft/RaftState.cc\<close>): its term, status, recognized
  leader and vote, over the journal that keeps the term and the vote across restarts.  Every
  method holds the mutex \<open>update\<close> while it runs, so each is one step; the snapshot a reader takes
  is the values of the fields.

  \<open>node_step\<close> are the steps of a running node, \<open>node_life\<close> also lets it crash and restart.  Within
  a term the vote never changes once it is given, not even across restarts; the recognized leader
  does not change while the node runs; and two candidates are never both elected in a term.
\<close>

record 'db raft_node =
  journal :: "'db raft_journal"
  n_term :: int
  n_status :: RaftStatus
  n_leader :: raft_server
  n_votedFor :: raft_server
  leadershipMarker :: int
  myself :: raft_server

text \<open>
  The snapshot readers take of the fields.  The source compares snapshots by address; every change
  of the state makes a new one, with other contents: a term is never entered again, and within it the
  status, the leader and the vote do not come back to what they were.
\<close>

record state_snapshot =
  sn_term :: int
  sn_status :: RaftStatus
  sn_leader :: raft_server
  sn_votedFor :: raft_server
  sn_leadershipMarker :: int

definition getSnapshot :: "'db raft_node \<Rightarrow> state_snapshot" where
  "getSnapshot n = \<lparr>sn_term = n_term n, sn_status = n_status n, sn_leader = n_leader n, sn_votedFor = n_votedFor n,
     sn_leadershipMarker = leadershipMarker n\<rparr>"

definition isSnapshotCurrent :: "state_snapshot \<Rightarrow> 'db raft_node \<Rightarrow> bool" where
  "isSnapshotCurrent s n \<longleftrightarrow> s = getSnapshot n"

definition BLOCKED_VOTE :: raft_server where
  "BLOCKED_VOTE = \<lparr>hostname = ''VOTING_BLOCKED_FOR_THIS_TERM'', port = - 1\<rparr>"

definition newRaftState :: "'db raft_journal \<Rightarrow> raft_server \<Rightarrow> 'db raft_node" where
  "newRaftState j me =
     \<lparr>journal = j, n_term = currentTerm j, n_status = FOLLOWER, n_leader = noServer, n_votedFor = votedFor j,
      leadershipMarker = - 1, myself = me\<rparr>"

definition updateStatus :: "RaftStatus \<Rightarrow> 'db raft_node \<Rightarrow> 'db raft_node" where
  "updateStatus newstatus n =
     (if n_status n \<noteq> newstatus then
        (let n = n\<lparr>n_status := newstatus\<rparr>
         in if newstatus \<noteq> LEADER then n\<lparr>leadershipMarker := - 1\<rparr> else n)
      else n)"

definition updateJournal :: "('db, 'wb) rocksdb \<Rightarrow> 'db raft_node \<Rightarrow> 'db raft_node option" where
  "updateJournal api n = do {
     (_, j) \<leftarrow> setCurrentTerm api (n_term n) (n_votedFor n) (journal n);
     Some (n\<lparr>journal := j\<rparr>) }"

definition dropOut :: "int \<Rightarrow> 'db raft_node \<Rightarrow> bool \<times> 'db raft_node" where
  "dropOut forTerm n =
     (if n_status n \<noteq> CANDIDATE then (False, n)
      else if forTerm \<noteq> n_term n then (False, n)
      else (True, updateStatus FOLLOWER n))"

definition becomeCandidate ::
  "('db, 'wb) rocksdb \<Rightarrow> int \<Rightarrow> 'db raft_node \<Rightarrow> (bool \<times> 'db raft_node) option" where
  "becomeCandidate api forTerm n =
     (if forTerm \<noteq> n_term n then Some (False, n)
      else if n_status n \<noteq> FOLLOWER then Some (False, n)
      else if \<not> serverEmpty (n_leader n) then Some (False, n)
      else if \<not> serverEmpty (n_votedFor n) then Some (False, n)
      else if myself n \<notin> set (nodes (members (journal n))) then Some (False, n)
      else do {
        n \<leftarrow> updateJournal api (n\<lparr>n_votedFor := myself n\<rparr>);
        Some (True, updateStatus CANDIDATE n) })"

definition ascend :: "('db, 'wb) rocksdb \<Rightarrow> int \<Rightarrow> 'db raft_node \<Rightarrow> (bool \<times> 'db raft_node) option" where
  "ascend api forTerm n =
     (if forTerm \<noteq> n_term n then Some (False, n)
      else if n_status n \<noteq> CANDIDATE then Some (False, n)
      else if \<not> serverEmpty (n_leader n) then Some (False, n)
      else if n_votedFor n \<noteq> myself n then Some (False, n)
      else if myself n \<notin> set (nodes (members (journal n))) then Some (False, n)
      else do {
        let localIndex = logSize (journal n);
        (ok, j) \<leftarrow> appendLeadershipMarker api localIndex forTerm (myself n) (journal n);
        let n = n\<lparr>journal := j\<rparr>;
        if \<not> ok then Some (False, n)
        else Some (True, updateStatus LEADER (n\<lparr>n_leader := myself n, leadershipMarker := localIndex\<rparr>)) })"

definition grantVote ::
  "('db, 'wb) rocksdb \<Rightarrow> int \<Rightarrow> raft_server \<Rightarrow> 'db raft_node \<Rightarrow> (bool \<times> 'db raft_node) option" where
  "grantVote api forTerm vote n =
     (if n_status n \<noteq> FOLLOWER then Some (False, n)
      else if forTerm \<noteq> n_term n then Some (False, n)
      else if \<not> serverEmpty (n_leader n) then Some (False, n)
      else if \<not> serverEmpty (n_votedFor n) then Some (False, n)
      else do {
        n \<leftarrow> updateJournal api (n\<lparr>n_votedFor := vote\<rparr>);
        Some (True, n) })"

definition shutdown :: "'db raft_node \<Rightarrow> 'db raft_node" where
  "shutdown n = updateStatus SHUTDOWN n"

definition observed ::
  "('db, 'wb) rocksdb \<Rightarrow> int \<Rightarrow> raft_server \<Rightarrow> 'db raft_node \<Rightarrow> (bool \<times> 'db raft_node) option" where
  "observed api observedTerm observedLeader n =
     (if n_status n = SHUTDOWN then Some (False, n)
      else if n_term n < observedTerm then do {
        let n = updateStatus FOLLOWER n;
        let n = n\<lparr>n_votedFor := noServer, n_term := observedTerm, n_leader := observedLeader\<rparr>;
        let n = (if \<not> serverEmpty observedLeader then n\<lparr>n_votedFor := BLOCKED_VOTE\<rparr> else n);
        n \<leftarrow> updateJournal api n;
        Some (True, n) }
      else if observedTerm = n_term n \<and> serverEmpty (n_leader n) then do {
        let n = n\<lparr>n_leader := observedLeader\<rparr>;
        n \<leftarrow> (if \<not> serverEmpty (n_leader n) \<and> serverEmpty (n_votedFor n)
              then updateJournal api (n\<lparr>n_votedFor := BLOCKED_VOTE\<rparr>) else Some n);
        Some (True, n) }
      else Some (False, n))"

subsection \<open>Invariant\<close>

definition nodeInv :: "('db, 'wb) rocksdb \<Rightarrow> 'db raft_node \<Rightarrow> bool" where
  "nodeInv api n \<longleftrightarrow>
     journalInv api (journal n) \<and> okServer (myself n)
     \<and> n_term n = currentTerm (journal n) \<and> n_votedFor n = votedFor (journal n)
     \<and> (n_status n = CANDIDATE \<longrightarrow> n_votedFor n = myself n)
     \<and> (n_status n = LEADER \<longrightarrow> n_leader n = myself n \<and> n_votedFor n = myself n)
     \<and> (n_status n \<noteq> LEADER \<longrightarrow> leadershipMarker n = - 1)
     \<and> (\<not> serverEmpty (n_leader n) \<longrightarrow> \<not> serverEmpty (n_votedFor n))"

lemma nodeInvD:
  assumes "nodeInv api n"
  shows "journalInv api (journal n)" "okServer (myself n)"
    "n_term n = currentTerm (journal n)" "n_votedFor n = votedFor (journal n)"
    "n_status n = CANDIDATE \<Longrightarrow> n_votedFor n = myself n"
    "n_status n = LEADER \<Longrightarrow> n_leader n = myself n" "n_status n = LEADER \<Longrightarrow> n_votedFor n = myself n"
    "n_status n \<noteq> LEADER \<Longrightarrow> leadershipMarker n = - 1"
    "\<not> serverEmpty (n_leader n) \<Longrightarrow> \<not> serverEmpty (n_votedFor n)"
  using assms by (auto simp: nodeInv_def)

lemma serverEmpty_simps [simp]:
  "serverEmpty noServer" "okServer s \<Longrightarrow> \<not> serverEmpty s" "\<not> serverEmpty BLOCKED_VOTE" "okServer BLOCKED_VOTE"
  by (simp_all add: serverEmpty_def noServer_def okServer_def BLOCKED_VOTE_def)

lemma okVote_simps [simp]: "okVote noServer" "okServer s \<Longrightarrow> okVote s"
  by (simp_all add: okVote_def)

lemma updateStatus_simps [simp]:
  "journal (updateStatus s n) = journal n" "n_term (updateStatus s n) = n_term n"
  "n_status (updateStatus s n) = s" "n_leader (updateStatus s n) = n_leader n"
  "n_votedFor (updateStatus s n) = n_votedFor n" "myself (updateStatus s n) = myself n"
  by (simp_all add: updateStatus_def Let_def)

lemma updateStatus_marker:
  "leadershipMarker (updateStatus s n) = (if n_status n \<noteq> s \<and> s \<noteq> LEADER then - 1 else leadershipMarker n)"
  by (simp add: updateStatus_def Let_def)

lemma updateStatus_follower:
  "nodeInv api n \<Longrightarrow> leadershipMarker (updateStatus FOLLOWER n) = - 1"
  by (simp add: updateStatus_marker nodeInv_def)

text \<open>What a step keeps of the state before it.\<close>

definition node_safe :: "('db, 'wb) rocksdb \<Rightarrow> 'db raft_node \<Rightarrow> 'db raft_node \<Rightarrow> bool" where
  "node_safe api n n' \<longleftrightarrow>
     nodeInv api n' \<and> myself n' = myself n \<and> journal_safe api (journal n) (journal n') \<and> n_term n \<le> n_term n'
     \<and> (n_term n' = n_term n \<longrightarrow> \<not> serverEmpty (n_votedFor n) \<longrightarrow> n_votedFor n' = n_votedFor n)"

definition leader_kept :: "'db raft_node \<Rightarrow> 'db raft_node \<Rightarrow> bool" where
  "leader_kept n n' \<longleftrightarrow> (n_term n' = n_term n \<longrightarrow> \<not> serverEmpty (n_leader n) \<longrightarrow> n_leader n' = n_leader n)"

lemma node_safe_refl: "nodeInv api n \<Longrightarrow> node_safe api n n"
  by (simp add: node_safe_def journal_safe_refl nodeInvD)

lemma node_safe_trans: "node_safe api n n' \<Longrightarrow> node_safe api n' n'' \<Longrightarrow> node_safe api n n''"
  unfolding node_safe_def by (auto intro: journal_safe_trans)

lemma leader_kept_trans:
  "leader_kept n n' \<Longrightarrow> leader_kept n' n'' \<Longrightarrow> n_term n \<le> n_term n' \<Longrightarrow> n_term n' \<le> n_term n'' \<Longrightarrow> leader_kept n n''"
  by (auto simp: leader_kept_def)

text \<open>What a journal knows of the members of the cluster.\<close>

definition sameMembership :: "('db, 'wb) rocksdb \<Rightarrow> 'db raft_journal \<Rightarrow> 'db raft_journal \<Rightarrow> bool" where
  "sameMembership api j j' \<longleftrightarrow>
     clusterID j' = clusterID j \<and> members j' = members j \<and> membershipEpoch j' = membershipEpoch j
     \<and> jview api j' kJournal_PreviousMembershipEpoch = jview api j kJournal_PreviousMembershipEpoch"

lemma sameMembership_refl [simp]: "sameMembership api j j"
  by (simp add: sameMembership_def)

text \<open>The term and the vote reach the journal.\<close>

lemma updateJournal_ok:
  assumes n: "journalInv api (journal n)" and ok: "int64 (n_term n)" "okVote (n_votedFor n)"
    and fresh: "currentTerm (journal n) < n_term n
      \<or> n_term n = currentTerm (journal n) \<and> serverEmpty (votedFor (journal n))"
  shows "\<exists>j'. updateJournal api n = Some (n\<lparr>journal := j'\<rparr>) \<and> journalInv api j'
    \<and> currentTerm j' = n_term n \<and> votedFor j' = n_votedFor n \<and> journal_safe api (journal n) j'
    \<and> logSize j' = logSize (journal n) \<and> members j' = members (journal n)
    \<and> commitIndex j' = commitIndex (journal n) \<and> logStart j' = logStart (journal n)
    \<and> termOfLastEntry j' = termOfLastEntry (journal n) \<and> sameMembership api (journal n) j'
    \<and> (\<forall>i. entryAt api j' i = entryAt api (journal n) i)"
proof -
  let ?j = "journal n"
  from setCurrentTerm_ok [OF n ok fresh] obtain db' where
    s: "setCurrentTerm api (n_term n) (n_votedFor n) ?j
         = Some (True, ?j\<lparr>j_db := db', currentTerm := n_term n, votedFor := n_votedFor n\<rparr>)"
    and inv: "journalInv api (?j\<lparr>j_db := db', currentTerm := n_term n, votedFor := n_votedFor n\<rparr>)"
    and same: "sameLog (jview api ?j) (\<lambda>x. found (db_get api db' x))"
    and prev: "found (db_get api db' kJournal_PreviousMembershipEpoch) = jview api ?j kJournal_PreviousMembershipEpoch"
    by blast
  let ?j' = "?j\<lparr>j_db := db', currentTerm := n_term n, votedFor := n_votedFor n\<rparr>"
  have "sameLog (jview api ?j) (jview api ?j')" using same by simp
  then have "journal_safe api ?j ?j'" "\<forall>i. entryAt api ?j' i = entryAt api ?j i"
    using fresh by (auto intro!: journal_safe_sameLog inv simp: entryAt_def sameLog_preserves(1))
  with s inv prev show ?thesis by (intro exI [of _ ?j']) (simp add: updateJournal_def sameMembership_def)
qed

subsection \<open>Operations\<close>

lemma int64_term: "journalInv api j \<Longrightarrow> int64 (currentTerm j)"
  using journalInvD(3) by (auto simp: bounds_def)

lemma dropOut_ok:
  assumes inv: "nodeInv api n" and "dropOut t n = (b, n')"
  shows "node_safe api n n' \<and> leader_kept n n' \<and> (b \<longrightarrow> n_status n' = FOLLOWER) \<and> (\<not> b \<longrightarrow> n' = n)"
  using assms updateStatus_follower [OF inv]
  by (auto simp: dropOut_def node_safe_def leader_kept_def nodeInv_def journal_safe_refl split: if_splits)

lemma shutdown_ok:
  assumes "nodeInv api n"
  shows "node_safe api n (shutdown n)" "leader_kept n (shutdown n)" "n_status (shutdown n) = SHUTDOWN"
  using assms
  by (auto simp: shutdown_def node_safe_def leader_kept_def nodeInv_def journal_safe_refl updateStatus_marker)

lemma becomeCandidate_ok:
  assumes inv: "nodeInv api n"
  shows "\<exists>b n'. becomeCandidate api t n = Some (b, n') \<and> node_safe api n n' \<and> leader_kept n n'
    \<and> (if b then n_status n' = CANDIDATE \<and> n_votedFor n' = myself n \<and> n_term n' = t \<and> n_term n = t
            \<and> serverEmpty (n_votedFor n) \<and> myself n \<in> set (nodes (members (journal n)))
       else n' = n)"
proof (cases "t = n_term n \<and> n_status n = FOLLOWER \<and> serverEmpty (n_leader n) \<and> serverEmpty (n_votedFor n)
    \<and> myself n \<in> set (nodes (members (journal n)))")
  case False
  then have "becomeCandidate api t n = Some (False, n)" by (auto simp: becomeCandidate_def)
  then show ?thesis using inv by (auto intro: node_safe_refl simp: leader_kept_def)
next
  case True
  note D = nodeInvD [OF inv]
  let ?m = "n\<lparr>n_votedFor := myself n\<rparr>"
  have "\<exists>j'. updateJournal api ?m = Some (?m\<lparr>journal := j'\<rparr>) \<and> journalInv api j' \<and> currentTerm j' = n_term n
      \<and> votedFor j' = myself n \<and> journal_safe api (journal n) j'"
    using updateJournal_ok [of api ?m] D True int64_term [OF D(1)] by auto
  then obtain j' where j': "updateJournal api ?m = Some (?m\<lparr>journal := j'\<rparr>)" "journalInv api j'"
      "currentTerm j' = n_term n" "votedFor j' = myself n" "journal_safe api (journal n) j'"
    by blast
  then have "becomeCandidate api t n = Some (True, updateStatus CANDIDATE (?m\<lparr>journal := j'\<rparr>))"
    using True by (simp add: becomeCandidate_def)
  then show ?thesis
    using D True j' by (auto simp: node_safe_def nodeInv_def leader_kept_def updateStatus_marker)
qed

lemma grantVote_ok:
  assumes inv: "nodeInv api n" and vote: "okServer vote"
  shows "\<exists>b n'. grantVote api t vote n = Some (b, n') \<and> node_safe api n n' \<and> leader_kept n n'
    \<and> (if b then n_votedFor n' = vote \<and> n_term n' = t \<and> n_term n = t \<and> serverEmpty (n_votedFor n)
            \<and> logSize (journal n') = logSize (journal n) \<and> commitIndex (journal n') = commitIndex (journal n)
            \<and> (\<forall>i. entryAt api (journal n') i = entryAt api (journal n) i)
       else n' = n)"
proof (cases "n_status n = FOLLOWER \<and> t = n_term n \<and> serverEmpty (n_leader n) \<and> serverEmpty (n_votedFor n)")
  case False
  then have "grantVote api t vote n = Some (False, n)" by (auto simp: grantVote_def)
  then show ?thesis using inv by (auto intro: node_safe_refl simp: leader_kept_def)
next
  case True
  note D = nodeInvD [OF inv]
  let ?m = "n\<lparr>n_votedFor := vote\<rparr>"
  have "\<exists>j'. updateJournal api ?m = Some (?m\<lparr>journal := j'\<rparr>) \<and> journalInv api j' \<and> currentTerm j' = n_term n
      \<and> votedFor j' = vote \<and> journal_safe api (journal n) j' \<and> logSize j' = logSize (journal n)
      \<and> commitIndex j' = commitIndex (journal n) \<and> (\<forall>i. entryAt api j' i = entryAt api (journal n) i)"
    using updateJournal_ok [of api ?m] D True int64_term [OF D(1)] vote by auto
  then obtain j' where j': "updateJournal api ?m = Some (?m\<lparr>journal := j'\<rparr>)" "journalInv api j'"
      "currentTerm j' = n_term n" "votedFor j' = vote" "journal_safe api (journal n) j'"
      "logSize j' = logSize (journal n)" "commitIndex j' = commitIndex (journal n)"
      "\<forall>i. entryAt api j' i = entryAt api (journal n) i"
    by blast
  then have "grantVote api t vote n = Some (True, ?m\<lparr>journal := j'\<rparr>)"
    using True by (simp add: grantVote_def)
  then show ?thesis
    using D True j' vote by (auto simp: node_safe_def nodeInv_def leader_kept_def)
qed

text \<open>
  Observing a term: the node never goes back, steps down for a newer term, and takes the
  observed leader only if it knew none.
\<close>

lemma observed_ok:
  assumes inv: "nodeInv api n" and t: "int64 t" and ldr: "okVote ldr"
  shows "\<exists>b n'. observed api t ldr n = Some (b, n') \<and> node_safe api n n' \<and> leader_kept n n'
    \<and> logSize (journal n') = logSize (journal n) \<and> commitIndex (journal n') = commitIndex (journal n)
    \<and> logStart (journal n') = logStart (journal n) \<and> sameMembership api (journal n) (journal n')
    \<and> (\<forall>i. entryAt api (journal n') i = entryAt api (journal n) i)
    \<and> (n_status n \<noteq> SHUTDOWN \<longrightarrow> n_term n' = max (n_term n) t \<and> n_status n' \<noteq> SHUTDOWN)
    \<and> (n_status n \<noteq> SHUTDOWN \<longrightarrow> n_term n < t \<longrightarrow> n_status n' = FOLLOWER \<and> n_leader n' = ldr)
    \<and> (n_status n \<noteq> SHUTDOWN \<longrightarrow> n_term n = t \<longrightarrow> serverEmpty (n_leader n) \<longrightarrow> n_leader n' = ldr)
    \<and> (n_status n = SHUTDOWN \<or> t < n_term n \<longrightarrow> n' = n)"
proof -
  note D = nodeInvD [OF inv]
  have safe: "node_safe api n n" "leader_kept n n" using inv by (simp_all add: node_safe_refl leader_kept_def)
  consider (down) "n_status n = SHUTDOWN" | (newer) "n_status n \<noteq> SHUTDOWN" "n_term n < t"
    | (leader) "n_status n \<noteq> SHUTDOWN" "t = n_term n" "serverEmpty (n_leader n)"
    | (old) "n_status n \<noteq> SHUTDOWN" "t < n_term n \<or> t = n_term n \<and> \<not> serverEmpty (n_leader n)"
    by linarith
  then show ?thesis
  proof cases
    case down
    then have "observed api t ldr n = Some (False, n)" by (simp add: observed_def)
    then show ?thesis using safe down by auto
  next
    case old
    then have "observed api t ldr n = Some (False, n)" by (auto simp: observed_def)
    then show ?thesis using safe old by auto
  next
    case newer
    define v where "v = (if \<not> serverEmpty ldr then BLOCKED_VOTE else noServer)"
    have v: "okVote v" "\<not> serverEmpty ldr \<Longrightarrow> \<not> serverEmpty v" by (simp_all add: v_def)
    let ?m = "(updateStatus FOLLOWER n)\<lparr>n_votedFor := v, n_term := t, n_leader := ldr\<rparr>"
    from updateJournal_ok [of api ?m] D(1,3) newer t v(1) obtain j' where
      j': "updateJournal api ?m = Some (?m\<lparr>journal := j'\<rparr>)" "journalInv api j'" "currentTerm j' = t"
        "votedFor j' = v" "journal_safe api (journal n) j'" "logSize j' = logSize (journal n)"
        "commitIndex j' = commitIndex (journal n)" "logStart j' = logStart (journal n)"
        "sameMembership api (journal n) j'" "\<forall>i. entryAt api j' i = entryAt api (journal n) i"
      by auto
    have "observed api t ldr n = Some (True, ?m\<lparr>journal := j'\<rparr>)"
    proof -
      let ?l = "(updateStatus FOLLOWER n)\<lparr>n_votedFor := noServer, n_term := t, n_leader := ldr\<rparr>"
      have "(if \<not> serverEmpty ldr then ?l\<lparr>n_votedFor := BLOCKED_VOTE\<rparr> else ?l) = ?m"
        by (rule raft_node.equality) (simp_all add: v_def)
      then show ?thesis using newer j'(1) unfolding observed_def Let_def by (simp only:) simp
    qed
    then show ?thesis
      using j' D newer v updateStatus_follower [OF inv]
      by (intro exI [of _ True] exI [of _ "?m\<lparr>journal := j'\<rparr>"])
        (simp add: node_safe_def nodeInv_def leader_kept_def)
  next
    case leader
    then have nl: "n_status n \<noteq> LEADER" using D(2,6) by auto
    show ?thesis
    proof (cases "\<not> serverEmpty ldr \<and> serverEmpty (n_votedFor n)")
      case True
      let ?m = "n\<lparr>n_leader := ldr, n_votedFor := BLOCKED_VOTE\<rparr>"
      from updateJournal_ok [of api ?m] D(1,3,4) leader True t obtain j' where
        j': "updateJournal api ?m = Some (?m\<lparr>journal := j'\<rparr>)" "journalInv api j'" "currentTerm j' = t"
          "votedFor j' = BLOCKED_VOTE" "journal_safe api (journal n) j'" "logSize j' = logSize (journal n)"
          "commitIndex j' = commitIndex (journal n)" "logStart j' = logStart (journal n)"
          "sameMembership api (journal n) j'" "\<forall>i. entryAt api j' i = entryAt api (journal n) i"
        by auto
      have nc: "n_status n \<noteq> CANDIDATE" using D(2,5) True by auto
      have "observed api t ldr n = Some (True, ?m\<lparr>journal := j'\<rparr>)"
        using leader True j'(1) by (simp add: observed_def)
      then show ?thesis
        using j' D(2,8) leader True nl nc
        by (intro exI [of _ True] exI [of _ "?m\<lparr>journal := j'\<rparr>"])
          (simp add: node_safe_def nodeInv_def leader_kept_def)
    next
      case False
      have "observed api t ldr n = Some (True, n\<lparr>n_leader := ldr\<rparr>)"
        using leader False by (auto simp: observed_def)
      then show ?thesis
        using inv D leader False nl
        by (intro exI [of _ True] exI [of _ "n\<lparr>n_leader := ldr\<rparr>"])
          (auto simp: node_safe_def nodeInv_def leader_kept_def journal_safe_refl)
    qed
  qed
qed

definition markerOk :: "'db raft_node \<Rightarrow> bool" where
  "markerOk n \<longleftrightarrow> okLogEntry (leadershipMarkerEntry (n_term n) (myself n)) \<and> int64 (logSize (journal n) + 1)"

lemma marker_memberEntryOk: "memberEntryOk j (leadershipMarkerEntry t s)"
  by (simp add: memberEntryOk_def leadershipMarkerEntry_def)

text \<open>A candidate that ascends has put its leadership marker at the end of the journal.\<close>

lemma ascend_ok:
  assumes inv: "nodeInv api n" and ok: "markerOk n"
  shows "\<exists>b n'. ascend api t n = Some (b, n') \<and> node_safe api n n' \<and> leader_kept n n'
    \<and> b = (t = n_term n \<and> n_status n = CANDIDATE \<and> serverEmpty (n_leader n) \<and> myself n \<in> set (nodes (members (journal n))))
    \<and> (if b then n_status n = CANDIDATE \<and> n_status n' = LEADER \<and> n_term n' = t \<and> n_term n = t
            \<and> n_leader n' = myself n \<and> n_votedFor n' = myself n \<and> serverEmpty (n_leader n)
            \<and> leadershipMarker n' = logSize (journal n) \<and> logSize (journal n') = logSize (journal n) + 1
            \<and> entryAt api (journal n') (leadershipMarker n') = Some (leadershipMarkerEntry t (myself n))
       else n' = n)"
proof (cases "t = n_term n \<and> n_status n = CANDIDATE \<and> serverEmpty (n_leader n)
    \<and> myself n \<in> set (nodes (members (journal n)))")
  case False
  then have "ascend api t n = Some (False, n)" using nodeInvD(5) [OF inv] by (auto simp: ascend_def)
  with False show ?thesis using inv by (intro exI [of _ False] exI [of _ n]) (auto intro: node_safe_refl simp: leader_kept_def)
next
  case True
  note D = nodeInvD [OF inv]
  let ?e = "leadershipMarkerEntry t (myself n)" and ?i = "logSize (journal n)"
  have "entryTerm ?e = currentTerm (journal n)" using D(3) True by (simp add: leadershipMarkerEntry_def)
  moreover have "termOfLastEntry (journal n) \<le> currentTerm (journal n)"
    using journalInvD(6) [OF D(1)] by (simp add: lastTermOk_def)
  ultimately obtain j' where a: "appendNoLock api ?i ?e True (journal n) = Some (True, j')" and j': "appended api ?e (journal n) j'"
    using append_ok [OF D(1), of ?e True] ok True marker_memberEntryOk by (auto simp: markerOk_def)
  let ?n = "updateStatus LEADER (n\<lparr>journal := j', n_leader := myself n, leadershipMarker := ?i\<rparr>)"
  have "ascend api t n = Some (True, ?n)"
    using True D(5) a by (simp add: ascend_def appendLeadershipMarker_def j_append_def Let_def)
  moreover have "int64 ?i" using journalInvD(3) [OF D(1)] by (simp add: bounds_def)
  ultimately show ?thesis
    using True D append_safe [OF D(1) j'] j'
    by (intro exI [of _ True] exI [of _ ?n])
      (simp add: node_safe_def nodeInv_def leader_kept_def updateStatus_marker appended_def)
qed

subsection \<open>Runs of a node\<close>

text \<open>
  The steps of a running node: the methods above, and the steps of the journal that leave term
  and vote alone, which other components make.  What is observed and granted comes from parsed
  messages: terms fit 64 bits and servers have a name.
\<close>

inductive node_step :: "('db, 'wb) rocksdb \<Rightarrow> 'db raft_node \<Rightarrow> 'db raft_node \<Rightarrow> bool" for api where
  observe: "observed api t ldr n = Some (b, n') \<Longrightarrow> int64 t \<Longrightarrow> okVote ldr \<Longrightarrow> node_step api n n'"
| candidate: "becomeCandidate api t n = Some (b, n') \<Longrightarrow> node_step api n n'"
| lead: "ascend api t n = Some (b, n') \<Longrightarrow> markerOk n \<Longrightarrow> node_step api n n'"
| grant: "grantVote api t s n = Some (b, n') \<Longrightarrow> okServer s \<Longrightarrow> node_step api n n'"
| drop: "dropOut t n = (b, n') \<Longrightarrow> node_step api n n'"
| halt: "node_step api n (shutdown n)"
| log: "(journal_step api)\<^sup>*\<^sup>* (journal n) j' \<Longrightarrow> currentTerm j' = currentTerm (journal n) \<Longrightarrow>
    votedFor j' = votedFor (journal n) \<Longrightarrow> node_step api n (n\<lparr>journal := j'\<rparr>)"

inductive node_life :: "('db, 'wb) rocksdb \<Rightarrow> 'db raft_node \<Rightarrow> 'db raft_node \<Rightarrow> bool" for api where
  step: "node_step api n n' \<Longrightarrow> node_life api n n'"
| restart: "openJournal api (j_db (journal n)) = Some j' \<Longrightarrow> node_life api n (newRaftState j' (myself n))"

lemma node_step_safe:
  assumes "node_step api n n'" "nodeInv api n"
  shows "node_safe api n n' \<and> leader_kept n n'"
  using assms
proof (induction rule: node_step.induct)
  case (observe t ldr n b n')
  with observed_ok [OF observe.prems observe(2,3)] show ?case by auto
next
  case (candidate t n b n')
  with becomeCandidate_ok [OF candidate.prems, of t] show ?case by auto
next
  case (lead t n b n')
  from ascend_ok [OF lead.prems lead(2), of t] obtain c m where
    "ascend api t n = Some (c, m)" "node_safe api n m" "leader_kept n m"
    by (elim exE conjE)
  with lead(1) show ?case by simp
next
  case (grant t s n b n')
  with grantVote_ok [OF grant.prems grant(2), of t] show ?case by auto
next
  case (drop t n b n')
  with dropOut_ok [OF drop.prems drop(1)] show ?case by auto
next
  case (halt n)
  with shutdown_ok show ?case by blast
next
  case (log n j')
  have "journal_safe api (journal n) j'" using log(1) nodeInvD(1) [OF log.prems] by (rule journal_run_safe)
  moreover from this have "journalInv api j'" by (simp add: journal_safe_def)
  ultimately show ?case
    using nodeInvD [OF log.prems] log(2,3) by (auto simp: node_safe_def nodeInv_def leader_kept_def)
qed

lemma node_life_safe: "node_life api n n' \<Longrightarrow> nodeInv api n \<Longrightarrow> node_safe api n n'"
proof (induction rule: node_life.induct)
  case (step n n')
  then show ?case using node_step_safe by blast
next
  case (restart n j')
  note D = nodeInvD [OF restart.prems]
  from restart.hyps openJournal_ok [OF D(1)] have "j' = journal n" by simp
  then show ?case
    using D by (auto simp: node_safe_def nodeInv_def newRaftState_def journal_safe_refl noServer_def serverEmpty_def)
qed

lemma node_run_safe: "(node_life api)\<^sup>*\<^sup>* n n' \<Longrightarrow> nodeInv api n \<Longrightarrow> node_safe api n n'"
proof (induction rule: rtranclp_induct)
  case base
  then show ?case by (rule node_safe_refl)
next
  case (step n' n'')
  then have "node_safe api n n'" by simp
  moreover from this have "nodeInv api n'" by (simp add: node_safe_def)
  ultimately show ?case using node_life_safe [OF step(2)] node_safe_trans by blast
qed

lemma leader_run_kept: "(node_step api)\<^sup>*\<^sup>* n n' \<Longrightarrow> nodeInv api n \<Longrightarrow> node_safe api n n' \<and> leader_kept n n'"
proof (induction rule: rtranclp_induct)
  case base
  then show ?case by (simp add: node_safe_refl leader_kept_def)
next
  case (step n' n'')
  then have a: "node_safe api n n'" "leader_kept n n'" by simp_all
  then have "nodeInv api n'" by (simp add: node_safe_def)
  from node_step_safe [OF step(2) this] have b: "node_safe api n' n''" "leader_kept n' n''" by simp_all
  have "n_term n \<le> n_term n'" "n_term n' \<le> n_term n''" using a(1) b(1) by (simp_all add: node_safe_def)
  with a b show ?case using node_safe_trans leader_kept_trans by blast
qed

lemma newRaftState_ok:
  "journalInv api j \<Longrightarrow> okServer me \<Longrightarrow> nodeInv api (newRaftState j me)"
  by (simp add: nodeInv_def newRaftState_def noServer_def serverEmpty_def)

subsection \<open>Elections\<close>

text \<open>
  The lives of the nodes of a cluster: \<open>hist s\<close> are states of the node \<open>s\<close>, in the order in which
  it goes through them, crashes included.  \<open>voteFor hist s t c\<close>: in term \<open>t\<close> the node \<open>s\<close> voted for \<open>c\<close>.
\<close>

definition histories :: "('db, 'wb) rocksdb \<Rightarrow> (raft_server \<Rightarrow> nat \<Rightarrow> 'db raft_node) \<Rightarrow> bool" where
  "histories api hist \<longleftrightarrow>
     (\<forall>s. nodeInv api (hist s 0) \<and> (\<forall>i. (node_life api)\<^sup>*\<^sup>* (hist s i) (hist s (Suc i))))"

definition voteFor :: "(raft_server \<Rightarrow> nat \<Rightarrow> 'db raft_node) \<Rightarrow> raft_server \<Rightarrow> int \<Rightarrow> raft_server \<Rightarrow> bool" where
  "voteFor hist s t c \<longleftrightarrow> (\<exists>i. n_term (hist s i) = t \<and> n_votedFor (hist s i) = c) \<and> \<not> serverEmpty c"

lemma history_safe:
  assumes "histories api hist" "i \<le> k"
  shows "node_safe api (hist s i) (hist s k)"
proof -
  have run: "(node_life api)\<^sup>*\<^sup>* (hist s a) (hist s (a + d))" for a d
  proof (induction d)
    case (Suc d)
    have "(node_life api)\<^sup>*\<^sup>* (hist s (a + d)) (hist s (Suc (a + d)))"
      using assms(1) by (simp add: histories_def)
    with Suc show ?case by simp
  qed simp
  have "nodeInv api (hist s i)"
    using node_run_safe [OF run [of 0 i]] assms(1) by (simp add: histories_def node_safe_def)
  with node_run_safe [OF run [of i "k - i"]] assms(2) show ?thesis by simp
qed

lemma vote_unique:
  assumes "histories api hist" "voteFor hist s t c" "voteFor hist s t d"
  shows "c = d"
proof -
  obtain i k where i: "n_term (hist s i) = t" "n_votedFor (hist s i) = c"
    and k: "n_term (hist s k) = t" "n_votedFor (hist s k) = d"
    using assms(2,3) by (auto simp: voteFor_def)
  consider "i \<le> k" | "k \<le> i" by linarith
  then show ?thesis
  proof cases
    case 1
    with history_safe [OF assms(1), of i k s] i k assms(2) show ?thesis by (simp add: node_safe_def voteFor_def)
  next
    case 2
    with history_safe [OF assms(1), of k i s] i k assms(3) show ?thesis by (simp add: node_safe_def voteFor_def)
  qed
qed

text \<open>The registry a candidate fills in an election among \<open>ns\<close>, and the grants in it are real.\<close>

definition electedBy :: "(raft_server \<Rightarrow> nat \<Rightarrow> 'db raft_node) \<Rightarrow> raft_server list \<Rightarrow> int \<Rightarrow> raft_server \<Rightarrow> vote_registry \<Rightarrow> bool" where
  "electedBy hist ns t c reg \<longleftrightarrow>
     registryInv reg \<and> \<not> vr_preVote reg \<and> c \<in> set ns \<and> distinct ns
     \<and> c \<notin> set (contacted reg) \<and> insert c (set (contacted reg)) = set ns
     \<and> determineOutcome reg = kElected \<and> voteFor hist c t c
     \<and> (\<forall>s \<in> answered GRANTED reg. voteFor hist s t c)"

lemma electedBy_quorum:
  assumes "electedBy hist ns t c reg"
  shows "isQuorum ns {s. voteFor hist s t c}"
proof -
  let ?Q = "insert c (answered GRANTED reg)" and ?V = "{s. voteFor hist s t c}"
  have reg: "registryInv reg" "\<not> vr_preVote reg" "c \<notin> set (contacted reg)" "determineOutcome reg = kElected"
    and ns: "insert c (set (contacted reg)) = set ns" "distinct ns"
    using assms by (simp_all add: electedBy_def)
  have "isQuorum (c # contacted reg) ?Q"
    using determineOutcome_ok [OF reg(1,2,3)] reg(4) by (simp split: if_splits)
  moreover have "distinct (c # contacted reg)" using reg by (simp add: registryInv_def contacted_def)
  then have "length (c # contacted reg) = length ns" using ns distinct_card by (metis list.simps(15))
  moreover have "card (?Q \<inter> set ns) \<le> card (?V \<inter> set ns)"
    using assms by (intro card_mono) (auto simp: electedBy_def)
  ultimately show ?thesis using ns(1) by (simp add: isQuorum_def)
qed

end
