(* ===== verification/RaftProperties.thy ===== *)
theory RaftProperties
  imports RaftStates SampleStore
begin

text \<open>
  The properties of the consensus half: what a journal and a node keep through every run, crashes
  included, that a term has one leader, that what is declared committed is held by a quorum, and
  that the leader's lease is backed by one.  The samples are a journal that was just created for a
  cluster of one node, over the engine of \<open>MemStore\<close>, and that node.
\<close>

subsection \<open>Samples\<close>

definition sampleServer :: raft_server where "sampleServer = \<lparr>hostname = ''alpha'', port = 7777\<rparr>"
definition otherServer :: raft_server where "otherServer = \<lparr>hostname = ''beta'', port = 7777\<rparr>"
definition thirdServer :: raft_server where "thirdServer = \<lparr>hostname = ''gamma'', port = 7777\<rparr>"

lemma sample_servers [simp]:
  "okServer sampleServer" "okServer otherServer" "okServer thirdServer"
  "sampleServer \<noteq> otherServer" "sampleServer \<noteq> thirdServer" "otherServer \<noteq> thirdServer"
  "otherServer \<noteq> sampleServer" "thirdServer \<noteq> sampleServer" "thirdServer \<noteq> otherServer"
  by (simp_all add: okServer_def sampleServer_def otherServer_def thirdServer_def)

definition sampleMembers :: raft_members where
  "sampleMembers = \<lparr>nodes = [sampleServer], observers = []\<rparr>"

lemma sample_members [simp]: "okMembers sampleMembers" "membersInv sampleMembers" "nodes sampleMembers = [sampleServer]"
  by (simp_all add: okMembers_def membersInv_def sampleMembers_def)

definition sampleJournal :: "mem_db raft_journal" where
  "sampleJournal = the (createJournal memApi [] ''cluster'' [sampleServer] 0 kAlways)"

lemma sample_digits: "length (to_string 0) = 1" "length (to_string 7777) = 4" "length (serverToString sampleServer) = 10"
  by (simp_all add: sampleServer_def serverToString_def to_string_def digits_of.simps [of 0]
      digits_of.simps [of 7777] digits_of.simps [of 777] digits_of.simps [of 77] digits_of.simps [of 7])

lemma sample_members_length: "length (membersToString sampleMembers) < 2 ^ 63"
  by (simp add: membersToString_def sampleMembers_def sample_digits)

lemma sample_journal [simp]:
  "journalInv memApi sampleJournal" "logStart sampleJournal = 0" "logSize sampleJournal = 1" "commitIndex sampleJournal = 0"
  "currentTerm sampleJournal = 0" "votedFor sampleJournal = noServer" "members sampleJournal = sampleMembers"
  "clusterID sampleJournal = ''cluster''" "entryAt memApi sampleJournal 0 = Some (membersEntry sampleMembers ''cluster'')"
proof -
  have "int64 (0 + 1)" by (simp add: int64_def)
  from createJournal_ok [OF memApi_laws _ this sampleMembers_def _ sample_members_length, of "''cluster''" "[]" kAlways]
  show "journalInv memApi sampleJournal" "logStart sampleJournal = 0" "logSize sampleJournal = 1" "commitIndex sampleJournal = 0"
    "currentTerm sampleJournal = 0" "votedFor sampleJournal = noServer" "members sampleJournal = sampleMembers"
    "clusterID sampleJournal = ''cluster''" "entryAt memApi sampleJournal 0 = Some (membersEntry sampleMembers ''cluster'')"
    by (auto simp: sampleJournal_def)
qed

definition sampleNode :: "mem_db raft_node" where
  "sampleNode = newRaftState sampleJournal sampleServer"

lemma sample_node [simp]: "nodeInv memApi sampleNode" "myself sampleNode = sampleServer"
  "n_term sampleNode = 0" "n_votedFor sampleNode = noServer" "n_leader sampleNode = noServer" "n_status sampleNode = FOLLOWER"
  "journal sampleNode = sampleJournal"
  unfolding sampleNode_def by (simp_all add: newRaftState_ok) (simp_all add: newRaftState_def)

text \<open>The node after it has voted for itself.\<close>

definition sampleCandidate :: "mem_db raft_node" where
  "sampleCandidate = snd (the (becomeCandidate memApi 0 sampleNode))"

lemma sample_candidate:
  "becomeCandidate memApi 0 sampleNode = Some (True, sampleCandidate)" "nodeInv memApi sampleCandidate"
  "n_term sampleCandidate = 0" "n_votedFor sampleCandidate = sampleServer" "n_status sampleCandidate = CANDIDATE"
proof -
  from becomeCandidate_ok [OF sample_node(1), of 0] obtain b n' where
    n': "becomeCandidate memApi 0 sampleNode = Some (b, n')" "node_safe memApi sampleNode n'"
      "if b then n_status n' = CANDIDATE \<and> n_votedFor n' = sampleServer \<and> n_term n' = 0 else n' = sampleNode"
    by auto
  have b: "b" using n'(1) by (auto simp: becomeCandidate_def Option.bind_eq_Some_conv split: if_splits)
  then have c: "sampleCandidate = n'" using n'(1) by (simp add: sampleCandidate_def)
  show "becomeCandidate memApi 0 sampleNode = Some (True, sampleCandidate)" "nodeInv memApi sampleCandidate"
    "n_term sampleCandidate = 0" "n_votedFor sampleCandidate = sampleServer" "n_status sampleCandidate = CANDIDATE"
    using n' b unfolding c by (auto simp: node_safe_def)
qed

subsection \<open>Elections\<close>

text \<open>
C11. Through any run of a node, crashes included, the term does not decrease, and a vote given in
a term is kept as long as the term lasts.
\<close>

theorem vote_kept_across_restarts:
  assumes "nodeInv api n" "(node_life api)\<^sup>*\<^sup>* n n'"
  shows "nodeInv api n' \<and> n_term n \<le> n_term n'
    \<and> (n_term n' = n_term n \<longrightarrow> \<not> serverEmpty (n_votedFor n) \<longrightarrow> n_votedFor n' = n_votedFor n)"
  using node_run_safe [OF assms(2,1)] by (simp add: node_safe_def)

theorem vote_kept_across_restarts_witness:
  "\<exists>n j. becomeCandidate memApi 0 sampleNode = Some (True, n) \<and> openJournal memApi (j_db (journal n)) = Some j
    \<and> n_votedFor (newRaftState j sampleServer) = sampleServer"
proof -
  have j: "openJournal memApi (j_db (journal sampleCandidate)) = Some (journal sampleCandidate)"
    by (rule openJournal_ok [OF nodeInvD(1) [OF sample_candidate(2)]])
  have "(node_life memApi)\<^sup>*\<^sup>* sampleCandidate (newRaftState (journal sampleCandidate) (myself sampleCandidate))"
    using node_life.restart [OF j] by blast
  from vote_kept_across_restarts [OF sample_candidate(2) this] nodeInvD(3) [OF sample_candidate(2)]
  have "n_votedFor (newRaftState (journal sampleCandidate) sampleServer) = sampleServer"
    by (simp add: newRaftState_def sample_candidate)
  with sample_candidate(1) j show ?thesis by blast
qed

theorem one_leader_per_term:
  assumes "nodeInv api n" "(node_step api)\<^sup>*\<^sup>* n n'" "n_term n' = n_term n" "\<not> serverEmpty (n_leader n)"
  shows "n_leader n' = n_leader n"
  using leader_run_kept [OF assms(2,1)] assms(3,4) by (simp add: leader_kept_def)

theorem one_leader_per_term_witness:
  "\<exists>n. observed memApi 3 otherServer sampleNode = Some (True, n) \<and> n_leader n = otherServer \<and> n_leader (shutdown n) = n_leader n"
proof -
  have "int64 3" by (simp add: int64_def)
  from observed_ok [OF sample_node(1) this, of otherServer] obtain b n where
    n: "observed memApi 3 otherServer sampleNode = Some (b, n)" "node_safe memApi sampleNode n" "n_leader n = otherServer"
    by auto
  have "b" using n(1) by (auto simp: observed_def Option.bind_eq_Some_conv Let_def split: if_splits)
  moreover have "n_leader (shutdown n) = n_leader n"
    by (rule one_leader_per_term [of memApi n]) (use n in \<open>auto simp: node_safe_def shutdown_def intro: node_step.halt [unfolded shutdown_def]\<close>)
  ultimately show ?thesis using n by auto
qed

theorem ascend_marks_leadership:
  assumes "nodeInv api n" "markerOk n" "ascend api t n = Some (True, n')"
  shows "n_status n' = LEADER \<and> n_term n' = t \<and> n_votedFor n' = myself n \<and> n_leader n' = myself n \<and> n_status n = CANDIDATE
    \<and> entryAt api (journal n') (leadershipMarker n') = Some (leadershipMarkerEntry t (myself n)) \<and> nodeInv api n'"
  using ascend_ok [OF assms(1,2), of t] assms(3) by (auto simp: node_safe_def)

lemma sample_markerOk: "markerOk sampleCandidate" "myself sampleCandidate = sampleServer" "n_leader sampleCandidate = noServer"
    "journal sampleCandidate = sampleJournal\<lparr>j_db := j_db (journal sampleCandidate), votedFor := sampleServer\<rparr>"
proof -
  have t: "int64 0" "okVote sampleServer" by (simp_all add: int64_def)
  from setCurrentTerm_ok [OF sample_journal(1) t] obtain db where
    j: "setCurrentTerm memApi 0 sampleServer sampleJournal
         = Some (True, sampleJournal\<lparr>j_db := db, currentTerm := 0, votedFor := sampleServer\<rparr>)"
    by auto
  have c: "sampleCandidate = updateStatus CANDIDATE (sampleNode\<lparr>n_votedFor := sampleServer,
      journal := sampleJournal\<lparr>j_db := db, currentTerm := 0, votedFor := sampleServer\<rparr>\<rparr>)"
    by (simp add: sampleCandidate_def becomeCandidate_def updateJournal_def j)
  show "myself sampleCandidate = sampleServer" "n_leader sampleCandidate = noServer" by (simp_all add: c)
  show "journal sampleCandidate = sampleJournal\<lparr>j_db := j_db (journal sampleCandidate), votedFor := sampleServer\<rparr>"
    using sample_journal(5) by (simp add: c)
  show "markerOk sampleCandidate"
    by (simp add: c markerOk_def okLogEntry_def okEntry_def leadershipMarkerEntry_def int64_def sample_digits)
qed

theorem ascend_marks_leadership_witness:
  "\<exists>n. ascend memApi 0 sampleCandidate = Some (True, n) \<and> n_status n = LEADER \<and> n_leader n = sampleServer"
proof -
  have "members (journal sampleCandidate) = sampleMembers" by (subst sample_markerOk(4), simp)
  with ascend_ok [OF sample_candidate(2) sample_markerOk(1), of 0] obtain n where
    n: "ascend memApi 0 sampleCandidate = Some (True, n)"
    using sample_candidate(3,5) sample_markerOk(2,3) by auto
  with ascend_marks_leadership [OF sample_candidate(2) sample_markerOk(1) n] sample_markerOk(2) show ?thesis
    by auto
qed

subsection \<open>The journal\<close>

text \<open>
C10. Through any sequence of journal operations and restarts the invariant holds, term and commit
index do not decrease, and every entry up to the old commit index that was not trimmed is
unchanged.
\<close>

theorem committed_entries_stay:
  assumes "journalInv api j" "(journal_step api)\<^sup>*\<^sup>* j j'"
  shows "journalInv api j' \<and> commitIndex j \<le> commitIndex j' \<and> currentTerm j \<le> currentTerm j'
    \<and> (\<forall>i. logStart j' \<le> i \<longrightarrow> i \<le> commitIndex j \<longrightarrow> entryAt api j' i = entryAt api j i)"
  using journal_run_safe [OF assms(2,1)] by (simp add: journal_safe_def)

theorem committed_entries_stay_witness:
  "\<exists>j b. setCurrentTerm memApi 4 otherServer sampleJournal = Some (b, j) \<and> commitIndex sampleJournal \<le> commitIndex j
     \<and> (\<forall>i. logStart j \<le> i \<longrightarrow> i \<le> commitIndex sampleJournal \<longrightarrow> entryAt memApi j i = entryAt memApi sampleJournal i)"
proof -
  have t: "int64 4" "okVote otherServer" by (simp_all add: int64_def okVote_def)
  from setCurrentTerm_ok [OF sample_journal(1) t] obtain j where
    j: "setCurrentTerm memApi 4 otherServer sampleJournal = Some (True, j)"
    by auto
  have "(journal_step memApi)\<^sup>*\<^sup>* sampleJournal j" using journal_step.step_term [OF j t] by blast
  from committed_entries_stay [OF sample_journal(1) this] j show ?thesis by blast
qed

text \<open>
C27. Appending an entry of an acceptable term at the end of the journal succeeds, extends the log
by that entry, keeps the others, survives a restart, and any other position is refused.
\<close>

theorem append_spec:
  assumes "journalInv api j" "okLogEntry e" "memberEntryOk j e" "int64 (logSize j + 1)"
    and "termOfLastEntry j \<le> entryTerm e" "entryTerm e \<le> currentTerm j"
  shows "\<exists>j'. j_append api (logSize j) e important j = Some (True, j') \<and> journalInv api j' \<and> logSize j' = logSize j + 1
    \<and> entryAt api j' (logSize j) = Some e \<and> (\<forall>i. 0 \<le> i \<longrightarrow> i < logSize j \<longrightarrow> entryAt api j' i = entryAt api j i)
    \<and> openJournal api (j_db j') = Some j' \<and> (\<forall>i. i \<noteq> logSize j' \<longrightarrow> j_append api i e important j' = Some (False, j'))"
proof -
  from append_ok [OF assms(1,2,5,6,4,3), of important] obtain j' where
    j': "appendNoLock api (logSize j) e important j = Some (True, j')" "appended api e j j'"
    by blast
  have inv: "journalInv api j'" and sz: "int64 (logSize j)" "int64 (logSize j')"
    using j'(2) journalInvD(3) [OF assms(1)] assms(4) by (auto simp: appended_def bounds_def)
  have old: "int64 i" if "0 \<le> i" "i < logSize j" for i using that sz(1) by (auto simp: int64_def)
  have "j_append api i e important j' = Some (False, j')" if "i \<noteq> logSize j'" for i
    using append_rejects [of i j' e api] that by (simp add: j_append_def)
  with j' openJournal_ok [OF inv] sz old show ?thesis
    by (intro exI [of _ j']) (auto simp: j_append_def appended_def)
qed

definition sampleEntry :: raft_entry where
  "sampleEntry = \<lparr>entryTerm = 0, request = [''SET'', ''k'', ''v'']\<rparr>"

lemma sample_entry [simp]: "okLogEntry sampleEntry" "memberEntryOk j sampleEntry" "entryTerm sampleEntry = 0"
    "termOfLastEntry sampleJournal = 0" "membershipEpoch sampleJournal = 0" "\<not> updatesMembers j sampleEntry"
proof -
  show "okLogEntry sampleEntry" "memberEntryOk j sampleEntry" "entryTerm sampleEntry = 0" "\<not> updatesMembers j sampleEntry"
    by (simp_all add: okLogEntry_def okEntry_def sampleEntry_def memberEntryOk_def int64_def updatesMembers_def)
  show "termOfLastEntry sampleJournal = 0"
    using journalInvD(6) [OF sample_journal(1)] sample_journal(9) by (simp add: lastTermOk_def entryAt_def membersEntry_def)
  show "membershipEpoch sampleJournal = 0"
    using journalInvD(3) [OF sample_journal(1)] by (simp add: bounds_def)
qed

lemma sample_append:
  obtains j where "j_append memApi 1 sampleEntry False sampleJournal = Some (True, j)" "appended memApi sampleEntry sampleJournal j"
proof -
  have "int64 (logSize sampleJournal + 1)" by (simp add: int64_def)
  from append_ok [OF sample_journal(1) sample_entry(1) _ _ this sample_entry(2), of False] that show thesis
    by (auto simp: j_append_def)
qed

theorem append_spec_witness:
  "\<exists>j. j_append memApi 1 sampleEntry False sampleJournal = Some (True, j) \<and> logSize j = 2 \<and> entryAt memApi j 1 = Some sampleEntry
    \<and> openJournal memApi (j_db j) = Some j"
proof -
  have "int64 (logSize sampleJournal + 1)" by (simp add: int64_def)
  from append_spec [OF sample_journal(1) sample_entry(1,2) this, where important = False] show ?thesis by auto
qed

theorem rollback_spec:
  assumes "journalInv api j" "commitIndex j < start" "start < logSize j" "rollbackSafe api j start"
  shows "\<exists>j'. removeEntries api start j = Some (True, j') \<and> journalInv api j' \<and> logSize j' = start
    \<and> commitIndex j' = commitIndex j
    \<and> (\<forall>i. 0 \<le> i \<longrightarrow> int64 i \<longrightarrow> entryAt api j' i = (if start \<le> i then None else entryAt api j i))
    \<and> (\<forall>i \<le> commitIndex j. removeEntries api i j = None)"
proof -
  have "commitIndex j < logSize j" using journalInvD(3) [OF assms(1)] by (simp add: bounds_def)
  then have "\<forall>i \<le> commitIndex j. removeEntries api i j = None" by (simp add: removeEntries_rejects(2))
  with removeEntries_ok [OF assms] show ?thesis by blast
qed

theorem rollback_spec_witness:
  "\<exists>j j'. j_append memApi 1 sampleEntry False sampleJournal = Some (True, j) \<and> removeEntries memApi 1 j = Some (True, j') \<and> logSize j' = 1"
proof -
  obtain j where j: "j_append memApi 1 sampleEntry False sampleJournal = Some (True, j)" "appended memApi sampleEntry sampleJournal j"
    by (rule sample_append)
  then have "journalInv memApi j" "commitIndex j < 1" "1 < logSize j" "rollbackSafe memApi j 1"
    by (simp_all add: appended_def rollbackSafe_def)
  from rollback_spec [OF this] j(1) show ?thesis by blast
qed

theorem compare_entries_spec:
  assumes "journalInv api j" "logStart j \<le> start" "hi = min (logSize j) (start + int (length es))"
  shows "\<exists>r. compareEntries api j start es = Some r \<and> r \<le> hi
    \<and> (\<forall>k. start \<le> k \<longrightarrow> k < r \<longrightarrow> entryAt api j k = Some (es ! nat (k - start)))
    \<and> (r < hi \<longrightarrow> start \<le> r \<and> entryAt api j r \<noteq> Some (es ! nat (r - start)))"
  using compareEntries_ok [OF assms] .

theorem compare_entries_spec_witness:
  "\<exists>r. compareEntries memApi sampleJournal 0 [membersEntry sampleMembers ''cluster''] = Some r \<and> r \<le> 1
    \<and> (\<forall>k. 0 \<le> k \<longrightarrow> k < r \<longrightarrow> entryAt memApi sampleJournal k = Some ([membersEntry sampleMembers ''cluster''] ! nat (k - 0)))
    \<and> (r < 1 \<longrightarrow> 0 \<le> r \<and> entryAt memApi sampleJournal r \<noteq> Some ([membersEntry sampleMembers ''cluster''] ! nat (r - 0)))"
  by (rule compare_entries_spec) simp_all

theorem journal_creation:
  assumes "rocksdb_laws api" "0 \<le> start" "int64 (start + 1)" "m = \<lparr>nodes = ns, observers = []\<rparr>" "okMembers m"
    and "length (membersToString m) < 2 ^ 63" "length cid < 2 ^ 63"
  shows "\<exists>j. createJournal api db cid ns start policy = Some j \<and> journalInv api j \<and> logSize j = start + 1
    \<and> commitIndex j = start \<and> members j = m \<and> clusterID j = cid \<and> votedFor j = noServer
    \<and> openJournal api (j_db j) = Some j"
  using createJournal_ok [OF assms, of db policy] openJournal_ok by blast

theorem journal_creation_witness:
  "\<exists>j. createJournal memApi [(''old'', ''data'')] ''cluster'' [sampleServer] 5 kAsync = Some j \<and> journalInv memApi j
    \<and> logSize j = 5 + 1 \<and> commitIndex j = 5 \<and> members j = sampleMembers \<and> clusterID j = ''cluster'' \<and> votedFor j = noServer
    \<and> openJournal memApi (j_db j) = Some j"
  using sample_members_length by (intro journal_creation) (simp_all add: int64_def sampleMembers_def [symmetric])

subsection \<open>Quorums\<close>

text \<open>
C12. The commit index computed from the match indexes is the largest index that a quorum of the
cluster, the leader included, holds; the journal never goes back below its old commit index.
\<close>

theorem commit_index_quorum:
  assumes "trackerInv ct" "ct_targets ct \<noteq> []" "ldr \<notin> set (ct_targets ct)" "journalInv api j"
    and "\<forall>t \<in> set (ct_targets ct). the (ct_registrations ct t) < logSize j"
  shows "\<exists>c ct' j'. recalculateCommitIndex api ct j = Some (ct', j') \<and> journalInv api j'
    \<and> commitIndex j' = max (commitIndex j) c
    \<and> isQuorum (ldr # ct_targets ct) (insert ldr {t \<in> set (ct_targets ct). c \<le> the (ct_registrations ct t)})
    \<and> (\<forall>c' > c. \<not> isQuorum (ldr # ct_targets ct) (insert ldr {t \<in> set (ct_targets ct). c' \<le> the (ct_registrations ct t)}))"
  using recalculateCommitIndex_ok [OF assms] .

definition sampleTracker :: commit_tracker where
  "sampleTracker = \<lparr>ct_registrations = [otherServer \<mapsto> 0, thirdServer \<mapsto> 0], ct_targets = [otherServer, thirdServer],
     ct_quorumSize = 2, ct_commitIndex = 0, commitIndexLagging = False\<rparr>"

theorem commit_index_quorum_witness:
  "\<exists>c ct' j'. recalculateCommitIndex memApi sampleTracker sampleJournal = Some (ct', j') \<and> journalInv memApi j'
    \<and> commitIndex j' = max (commitIndex sampleJournal) c
    \<and> isQuorum (sampleServer # ct_targets sampleTracker)
        (insert sampleServer {t \<in> set (ct_targets sampleTracker). c \<le> the (ct_registrations sampleTracker t)})
    \<and> (\<forall>c' > c. \<not> isQuorum (sampleServer # ct_targets sampleTracker)
        (insert sampleServer {t \<in> set (ct_targets sampleTracker). c' \<le> the (ct_registrations sampleTracker t)}))"
  by (rule commit_index_quorum) (simp_all add: sampleTracker_def trackerInv_def calculateQuorumSize_def)

definition sampleLease :: raft_lease where
  "sampleLease = lease_heartbeat otherServer 30 (newLease [otherServer, thirdServer] 10)"

lemma sample_lease: "quorumLeaseInv sampleLease" "lease_targets sampleLease = [otherServer, thirdServer]"
  by (simp_all add: sampleLease_def quorumLeaseInv_def lease_heartbeat_def newLease_def lease_updateTargets_def
      lease_getHandler_def calculateQuorumSize_def)

text \<open>
C24. The deadline of the leader lease is the latest time up to which a quorum of the cluster has
been heard within the lease duration.
\<close>

theorem lease_deadline_quorum:
  assumes "quorumLeaseInv l" "lease_targets l \<noteq> []" "ldr \<notin> set (lease_targets l)"
  shows "\<exists>d. getDeadline now l = Some d
    \<and> isQuorum (ldr # lease_targets l) (insert ldr (heardSince l (d - leaseDuration l)))
    \<and> (\<forall>c > d. \<not> isQuorum (ldr # lease_targets l) (insert ldr (heardSince l (c - leaseDuration l))))"
  using getDeadline_ok [OF assms] .

theorem lease_deadline_quorum_witness:
  "\<exists>d. getDeadline 35 sampleLease = Some d
    \<and> isQuorum (sampleServer # lease_targets sampleLease) (insert sampleServer (heardSince sampleLease (d - leaseDuration sampleLease)))
    \<and> (\<forall>c > d. \<not> isQuorum (sampleServer # lease_targets sampleLease)
          (insert sampleServer (heardSince sampleLease (c - leaseDuration sampleLease))))"
  by (rule lease_deadline_quorum) (simp_all add: sample_lease)

theorem shaky_quorum_deadline:
  assumes "quorumLeaseInv l" "2 \<le> length (lease_targets l)" "ldr \<notin> set (lease_targets l)"
  shows "\<exists>d. getShakyQuorumDeadline now l = Some d
    \<and> (\<forall>lost. lost \<noteq> ldr \<longrightarrow>
         isQuorum (ldr # lease_targets l) (insert ldr (heardSince l (d - leaseDuration l)) - {lost}))"
  using getShakyQuorumDeadline_ok [OF assms] .

theorem shaky_quorum_deadline_witness:
  "\<exists>d. getShakyQuorumDeadline 35 sampleLease = Some d
    \<and> (\<forall>lost. lost \<noteq> sampleServer \<longrightarrow> isQuorum (sampleServer # lease_targets sampleLease)
         (insert sampleServer (heardSince sampleLease (d - leaseDuration sampleLease)) - {lost}))"
  by (rule shaky_quorum_deadline) (simp_all add: sample_lease)

theorem election_outcome:
  assumes "registryInv reg" "\<not> vr_preVote reg" "me \<notin> set (contacted reg)"
  shows "determineOutcome reg =
    (if answered VETO reg \<noteq> {} then kVetoed
     else if isQuorum (me # contacted reg) (insert me (answered GRANTED reg)) then kElected else kNotElected)"
  using determineOutcome_ok [OF assms] .

theorem election_outcome_witness:
  "\<exists>reg. registerVote otherServer \<lparr>vresp_term = 3, vresp_vote = GRANTED\<rparr> (newRegistry 3 False) = Some reg
    \<and> determineOutcome reg = (if answered VETO reg \<noteq> {} then kVetoed
         else if isQuorum (sampleServer # contacted reg) (insert sampleServer (answered GRANTED reg)) then kElected else kNotElected)"
  by (intro exI conjI, rule refl [THEN ssubst], simp add: registerVote_def addVote_def newRegistry_def,
      rule election_outcome) (simp_all add: registryInv_def contacted_def)

text \<open>
C26. A single membership change keeps the members well formed, and any quorum before it and any
quorum after it share a node.
\<close>

theorem membership_change_overlap:
  assumes "member_change m m'" "membersInv m" "isQuorum (nodes m) Q" "isQuorum (nodes m') Q'"
  shows "membersInv m' \<and> Q \<inter> Q' \<noteq> {}"
  using quorum_overlap_change [OF assms] member_change_inv [OF assms(1,2)] by blast

theorem membership_change_overlap_witness:
  "membersInv \<lparr>nodes = [sampleServer, otherServer], observers = []\<rparr> \<and> {sampleServer} \<inter> {otherServer, sampleServer} \<noteq> {}"
proof (rule membership_change_overlap)
  show "member_change \<lparr>nodes = [sampleServer], observers = [otherServer]\<rparr> \<lparr>nodes = [sampleServer, otherServer], observers = []\<rparr>"
    by (rule member_change.promote [of otherServer]) (simp add: promoteObserver_def)
qed (simp_all add: membersInv_def isQuorum_def calculateQuorumSize_def)

theorem members_roundtrip:
  assumes "membersInv m" "nodes m \<noteq> []"
  shows "parseMembers (membersToString m) = Some m"
  using parseMembers_toString [OF assms] .

theorem members_roundtrip_witness:
  "parseMembers (membersToString \<lparr>nodes = [sampleServer, otherServer], observers = [thirdServer]\<rparr>)
     = Some \<lparr>nodes = [sampleServer, otherServer], observers = [thirdServer]\<rparr>"
  by (rule members_roundtrip) (simp_all add: membersInv_def)

subsection \<open>Messages\<close>

theorem append_entries_message:
  assumes "okServer (ae_leader r)" "\<forall>e \<in> set (entries r). okEntry e \<and> entryTerm e \<le> ae_term r"
    and "int64 (ae_term r)" "int64 (prevIndex r)" "int64 (prevTerm r)" "int64 (ae_commitIndex r)"
    and "prevTerm r \<le> ae_term r" "length (entries r) + 3 < 2 ^ 31"
  shows "\<exists>payload. talkAppendEntries (ae_term r) (ae_leader r) (prevIndex r) (prevTerm r) (ae_commitIndex r)
                     (map serializeEntry (entries r)) = Some payload
                 \<and> parseAppendEntries payload = Some (Some r)"
  using append_entries_roundtrip [OF assms] .

definition sampleRequest :: append_entries_request where
  "sampleRequest = \<lparr>ae_term = 3, ae_leader = otherServer, prevIndex = 0, prevTerm = 0, ae_commitIndex = 0, entries = [sampleEntry]\<rparr>"

theorem append_entries_message_witness:
  "\<exists>payload. talkAppendEntries 3 otherServer 0 0 0 [serializeEntry sampleEntry] = Some payload
     \<and> parseAppendEntries payload = Some (Some sampleRequest)"
  using append_entries_message [of sampleRequest] sample_entry(1)
  by (simp add: sampleRequest_def int64_def okLogEntry_def)

end
