(* ===== verification/Formatters.thy ===== *)
theory Formatters
  imports RaftTypes RocksStore
begin

text \<open>
  The replies as they go over the wire (\<^verbatim>\<open>src/src/Formatter.cc\<close>,
  \<^verbatim>\<open>src/src/redis/ArrayResponseBuilder.cc\<close>).  A reference decoder of the protocol, written from its
  description, shows that what is formatted reads back as the reply that was meant, with nothing
  left over: the replies of pipelined requests cannot run into each other, as long as the texts in
  status and error lines have no line breaks.
\<close>

subsection \<open>Formatting\<close>

definition crlf :: bytes where "crlf = [CHR 0x0D, CHR 0x0A]"

definition f_moved :: "int \<Rightarrow> raft_server \<Rightarrow> bytes" where
  "f_moved shardId location = ''-MOVED '' @ to_string shardId @ '' '' @ serverToString location @ crlf"

definition f_err :: "bytes \<Rightarrow> bytes" where
  "f_err e = ''-ERR '' @ e @ crlf"

definition f_errArgs :: "bytes \<Rightarrow> bytes" where
  "f_errArgs cmd = ''-ERR wrong number of arguments for '' @ [CHR 0x27] @ cmd @ [CHR 0x27] @ '' command'' @ crlf"

definition f_pong :: bytes where
  "f_pong = ''+PONG'' @ crlf"

definition f_string :: "bytes \<Rightarrow> bytes" where
  "f_string str = ''$'' @ to_string (int (length str)) @ crlf @ str @ crlf"

definition f_status :: "bytes \<Rightarrow> bytes" where
  "f_status str = ''+'' @ str @ crlf"

definition f_ok :: bytes where "f_ok = ''+OK'' @ crlf"
definition f_null :: bytes where "f_null = ''$-1'' @ crlf"

definition f_integer :: "int \<Rightarrow> bytes" where
  "f_integer number = '':'' @ to_string number @ crlf"

definition f_uint64 :: "u64 \<Rightarrow> bytes" where
  "f_uint64 number = '':'' @ to_string (uint number) @ crlf"

definition f_array :: "bytes list \<Rightarrow> bytes" where
  "f_array items = ''*'' @ to_string (int (length items)) @ crlf @ concat items"

definition f_vector :: "bytes list \<Rightarrow> bytes" where
  "f_vector vec = f_array (map f_string vec)"

definition f_statusVector :: "bytes list \<Rightarrow> bytes" where
  "f_statusVector vec = f_array (map f_status vec)"

definition f_scan :: "bytes \<Rightarrow> bytes list \<Rightarrow> bytes" where
  "f_scan marker vec = ''*2'' @ crlf @ f_string marker @ f_vector vec"

definition f_noauth :: "bytes \<Rightarrow> bytes" where
  "f_noauth str = ''-NOAUTH '' @ str @ crlf"

definition f_versionedVector :: "u64 \<Rightarrow> bytes list \<Rightarrow> bytes" where
  "f_versionedVector num vec = ''*2'' @ crlf @ f_uint64 num @ f_vector vec"

definition f_vhashRevision :: "u64 \<Rightarrow> (bytes \<times> bytes) list \<Rightarrow> bytes" where
  "f_vhashRevision revision contents =
     ''*2'' @ crlf @ f_uint64 revision
     @ ''*'' @ to_string (int (length contents) * 2) @ crlf
     @ concat (map (\<lambda>c. f_string (fst c) @ f_string (snd c)) contents)"

definition f_multiply :: "bytes \<Rightarrow> nat \<Rightarrow> bytes option" where
  "f_multiply resp factor = do { assert_that (1 \<le> factor); Some (concat (replicate factor resp)) }"

definition f_vectorsWithHeaders :: "bytes list \<Rightarrow> bytes list list \<Rightarrow> bytes option" where
  "f_vectorsWithHeaders headers data = do {
     assert_that (length headers = length data);
     Some (f_array (map (\<lambda>(h, d). ''*2'' @ crlf @ f_status h @ f_statusVector d) (zip headers data))) }"

definition f_strstrint :: "bytes \<Rightarrow> bytes \<Rightarrow> int \<Rightarrow> bytes" where
  "f_strstrint str1 str2 num = ''*3'' @ crlf @ f_string str1 @ f_string str2 @ f_integer num"

definition f_pushStrstrstrint :: "bytes \<Rightarrow> bytes \<Rightarrow> bytes \<Rightarrow> int \<Rightarrow> bytes" where
  "f_pushStrstrstrint str1 str2 str3 num =
     ''>4'' @ crlf @ f_string str1 @ f_string str2 @ f_string str3 @ f_integer num"

definition f_subscribe :: "bool \<Rightarrow> bytes \<Rightarrow> int \<Rightarrow> bytes" where
  "f_subscribe pushType channel active =
     (if pushType then f_pushStrstrstrint ''pubsub'' ''subscribe'' channel active
      else f_strstrint ''subscribe'' channel active)"

definition f_psubscribe :: "bool \<Rightarrow> bytes \<Rightarrow> int \<Rightarrow> bytes" where
  "f_psubscribe pushType pattern active =
     (if pushType then f_pushStrstrstrint ''pubsub'' ''psubscribe'' pattern active
      else f_strstrint ''psubscribe'' pattern active)"

definition f_unsubscribe :: "bool \<Rightarrow> bytes \<Rightarrow> int \<Rightarrow> bytes" where
  "f_unsubscribe pushType channel active =
     (if pushType then f_pushStrstrstrint ''pubsub'' ''unsubscribe'' channel active
      else f_strstrint ''unsubscribe'' channel active)"

definition f_punsubscribe :: "bool \<Rightarrow> bytes \<Rightarrow> int \<Rightarrow> bytes" where
  "f_punsubscribe pushType pattern active =
     (if pushType then f_pushStrstrstrint ''pubsub'' ''punsubscribe'' pattern active
      else f_strstrint ''punsubscribe'' pattern active)"

definition f_message :: "bool \<Rightarrow> bytes \<Rightarrow> bytes \<Rightarrow> bytes" where
  "f_message pushType channel payload =
     (if pushType then ''>4'' @ crlf @ f_string ''pubsub'' else ''*3'' @ crlf)
     @ f_string ''message'' @ f_string channel @ f_string payload"

definition f_pmessage :: "bool \<Rightarrow> bytes \<Rightarrow> bytes \<Rightarrow> bytes \<Rightarrow> bytes" where
  "f_pmessage pushType pattern channel payload =
     (if pushType then ''>5'' @ crlf @ f_string ''pubsub'' else ''*4'' @ crlf)
     @ f_string ''pmessage'' @ f_string pattern @ f_string channel @ f_string payload"

text \<open>\<open>ArrayResponseBuilder\<close>.\<close>

record array_builder =
  itemsRemaining :: nat
  builder_phantom :: bool
  builder_ss :: bytes

definition newBuilder :: "nat \<Rightarrow> bool \<Rightarrow> array_builder option" where
  "newBuilder count isPhantom = do {
     assert_that (1 \<le> count);
     Some \<lparr>itemsRemaining = count, builder_phantom = isPhantom,
           builder_ss = (if isPhantom then [] else ''*'' @ to_string (int count) @ crlf)\<rparr> }"

definition builder_push_back :: "bytes \<Rightarrow> array_builder \<Rightarrow> array_builder option" where
  "builder_push_back item b = do {
     assert_that (itemsRemaining b \<noteq> 0);
     Some (b\<lparr>itemsRemaining := itemsRemaining b - 1, builder_ss := builder_ss b @ item\<rparr>) }"

definition buildResponse :: "array_builder \<Rightarrow> bytes option" where
  "buildResponse b = do { assert_that (itemsRemaining b = 0); Some (builder_ss b) }"

fun builder_push_all :: "bytes list \<Rightarrow> array_builder \<Rightarrow> array_builder option" where
  "builder_push_all [] b = Some b"
| "builder_push_all (x # xs) b = do { b \<leftarrow> builder_push_back x b; builder_push_all xs b }"

lemma builder_push_all_ok:
  "itemsRemaining b = length xs \<Longrightarrow>
     builder_push_all xs b = Some (b\<lparr>itemsRemaining := 0, builder_ss := builder_ss b @ concat xs\<rparr>)"
  by (induction xs arbitrary: b) (auto simp: builder_push_back_def)

text \<open>As many items as announced give the array; a phantom builder gives the items alone.\<close>

lemma builder_ok:
  assumes "xs \<noteq> []"
  shows "(do { b \<leftarrow> newBuilder (length xs) isPhantom; b \<leftarrow> builder_push_all xs b; buildResponse b }) =
    Some (if isPhantom then concat xs else f_array xs)"
  using assms builder_push_all_ok [of _ xs]
  by (simp add: newBuilder_def buildResponse_def f_array_def Suc_le_eq)

subsection \<open>A reference decoder\<close>

text \<open>The replies of the protocol; an error line keeps the text after the minus sign.\<close>

datatype resp = RString bytes | RNull | RStatus bytes | RError bytes | RInteger int | RArray "resp list"

fun readLine :: "bytes \<Rightarrow> (bytes \<times> bytes) option" where
  "readLine (a # b # rest) =
     (if a = CHR 0x0D \<and> b = CHR 0x0A then Some ([], rest)
      else map_option (\<lambda>(l, r). (a # l, r)) (readLine (b # rest)))"
| "readLine _ = None"

text \<open>Fuel bounds the nesting of arrays together with their lengths.\<close>

fun decode :: "nat \<Rightarrow> bytes \<Rightarrow> (resp \<times> bytes) option"
  and decodeItems :: "nat \<Rightarrow> nat \<Rightarrow> bytes \<Rightarrow> (resp list \<times> bytes) option" where
  "decode 0 s = None"
| "decode (Suc fuel) s = do {
     (line, rest) \<leftarrow> readLine s;
     (case line of
        [] \<Rightarrow> None
      | c # body \<Rightarrow>
          (if c = CHR ''+'' then Some (RStatus body, rest)
           else if c = CHR ''-'' then Some (RError body, rest)
           else if c = CHR '':'' then do { i \<leftarrow> parseInt64 body; Some (RInteger i, rest) }
           else if c = CHR ''$'' then do {
             len \<leftarrow> parseInt64 body;
             if len = - 1 then Some (RNull, rest)
             else if len < 0 \<or> int (length rest) < len + 2 then None
             else if take 2 (drop (nat len) rest) \<noteq> crlf then None
             else Some (RString (take (nat len) rest), drop (nat len + 2) rest) }
           else if c = CHR ''*'' then do {
             n \<leftarrow> parseInt64 body;
             if n < 0 then None else do { (items, rest) \<leftarrow> decodeItems fuel (nat n) rest; Some (RArray items, rest) } }
           else None)) }"
| "decodeItems 0 n s = None"
| "decodeItems (Suc fuel) 0 s = Some ([], s)"
| "decodeItems (Suc fuel) (Suc n) s = do {
     (r, s) \<leftarrow> decode fuel s;
     (rs, s) \<leftarrow> decodeItems fuel n s;
     Some (r # rs, s) }"

definition oneLine :: "bytes \<Rightarrow> bool" where
  "oneLine s \<longleftrightarrow> CHR 0x0D \<notin> set s"

lemma readLine_append [simp]: "oneLine l \<Longrightarrow> readLine (l @ crlf @ rest) = Some (l, rest)"
proof (induction l)
  case (Cons a l)
  then have "readLine (l @ crlf @ rest) = Some (l, rest)" "a \<noteq> CHR 0x0D" by (auto simp: oneLine_def)
  moreover obtain b t where "l @ crlf @ rest = b # t" by (cases l) (auto simp: crlf_def)
  ultimately show ?case by simp
qed (simp add: crlf_def)

lemma oneLine_simps [simp]:
  "oneLine []" "oneLine (c # s) \<longleftrightarrow> c \<noteq> CHR 0x0D \<and> oneLine s" "oneLine (s @ t) \<longleftrightarrow> oneLine s \<and> oneLine t"
  by (auto simp: oneLine_def)

lemma oneLine_to_string [simp]: "oneLine (to_string i)"
  using set_to_string [of "CHR 0x0D" i] by (auto simp: oneLine_def is_digit_def)

text \<open>\<open>decodesTo s r\<close>: whatever follows, \<open>s\<close> is read as \<open>r\<close> and nothing else is consumed.\<close>

definition decodesTo :: "bytes \<Rightarrow> resp \<Rightarrow> bool" where
  "decodesTo s r \<longleftrightarrow> (\<exists>f. \<forall>fuel \<ge> f. \<forall>rest. decode fuel (s @ rest) = Some (r, rest))"

lemma decodesToI:
  assumes "\<And>fuel rest. decode (Suc fuel) (s @ rest) = Some (r, rest)"
  shows "decodesTo s r"
  unfolding decodesTo_def by (rule exI [of _ 1]) (metis One_nat_def Suc_le_D assms)

definition countable_length :: "int \<Rightarrow> bool" where
  "countable_length n \<longleftrightarrow> LLONG_MIN < n \<and> n < LLONG_MAX"

lemma countable_parse [simp]: "countable_length n \<Longrightarrow> parseInt64 (to_string n) = Some n"
  by (simp add: countable_length_def parseInt64_to_string)

lemma decodes_lines:
  "oneLine s \<Longrightarrow> decodesTo (f_status s) (RStatus s)"
  "oneLine s \<Longrightarrow> decodesTo (f_err s) (RError (''ERR '' @ s))"
  "oneLine s \<Longrightarrow> decodesTo (f_noauth s) (RError (''NOAUTH '' @ s))"
  "oneLine s \<Longrightarrow> decodesTo (f_errArgs s)
     (RError (''ERR wrong number of arguments for '' @ [CHR 0x27] @ s @ [CHR 0x27] @ '' command''))"
  "oneLine (serverToString srv) \<Longrightarrow> decodesTo (f_moved i srv) (RError (''MOVED '' @ to_string i @ '' '' @ serverToString srv))"
  "decodesTo f_ok (RStatus ''OK'')" "decodesTo f_pong (RStatus ''PONG'')"
  using readLine_append [of "CHR ''+'' # s"] readLine_append [of "''-ERR '' @ s"] readLine_append [of "''-NOAUTH '' @ s"]
    readLine_append [of "''-ERR wrong number of arguments for '' @ [CHR 0x27] @ s @ [CHR 0x27] @ '' command''"]
    readLine_append [of "''-MOVED '' @ to_string i @ '' '' @ serverToString srv"] readLine_append [of "''+OK''"] readLine_append [of "''+PONG''"]
  by (auto intro!: decodesToI simp: f_status_def f_err_def f_noauth_def f_errArgs_def f_moved_def f_ok_def f_pong_def)

lemma decodes_integer: "countable_length i \<Longrightarrow> decodesTo (f_integer i) (RInteger i)"
  using readLine_append [of "CHR '':'' # to_string i"] by (auto intro!: decodesToI simp: f_integer_def)

lemma decodes_null: "decodesTo f_null RNull"
proof (rule decodesToI)
  fix fuel rest
  have "parseInt64 ''-1'' = Some (- 1)" by code_simp
  then show "decode (Suc fuel) (f_null @ rest) = Some (RNull, rest)"
    using readLine_append [of "''$-1''" rest] by (simp add: f_null_def)
qed

lemma decodes_string: "countable_length (int (length s)) \<Longrightarrow> decodesTo (f_string s) (RString s)"
  using readLine_append [of "CHR ''$'' # to_string (int (length s))"]
  by (auto intro!: decodesToI simp: f_string_def crlf_def)

text \<open>Arrays: the items in order.\<close>

lemma decodeItems_ok:
  assumes "list_all2 decodesTo items rs"
  shows "\<exists>f. \<forall>fuel \<ge> f. \<forall>rest. decodeItems fuel (length items) (concat items @ rest) = Some (rs, rest)"
  using assms
proof (induction rule: list_all2_induct)
  case Nil
  show ?case by (rule exI [of _ 1]) (metis One_nat_def Suc_le_D append_Nil concat.simps(1) decodeItems.simps(2) list.size(3))
next
  case (Cons x xs y ys)
  then obtain f g where f: "\<forall>fuel \<ge> f. \<forall>rest. decode fuel (x @ rest) = Some (y, rest)"
    and g: "\<forall>fuel \<ge> g. \<forall>rest. decodeItems fuel (length xs) (concat xs @ rest) = Some (ys, rest)"
    by (auto simp: decodesTo_def)
  show ?case
  proof (intro exI [of _ "Suc (max f g)"] allI impI)
    fix fuel rest assume "Suc (max f g) \<le> fuel"
    then obtain k where "fuel = Suc k" "f \<le> k" "g \<le> k" by (cases fuel) auto
    with f g show "decodeItems fuel (length (x # xs)) (concat (x # xs) @ rest) = Some (y # ys, rest)" by simp
  qed
qed

lemma decodes_array:
  assumes "list_all2 decodesTo items rs" "countable_length (int (length items))"
  shows "decodesTo (f_array items) (RArray rs)"
proof -
  obtain f where f: "\<forall>fuel \<ge> f. \<forall>rest. decodeItems fuel (length items) (concat items @ rest) = Some (rs, rest)"
    using decodeItems_ok [OF assms(1)] by blast
  show ?thesis
    unfolding decodesTo_def
  proof (intro exI [of _ "Suc f"] allI impI)
    fix fuel rest assume "Suc f \<le> fuel"
    then obtain k where "fuel = Suc k" "f \<le> k" by (cases fuel) auto
    with f assms(2) show "decode fuel (f_array items @ rest) = Some (RArray rs, rest)"
      using readLine_append [of "CHR ''*'' # to_string (int (length items))" "concat items @ rest"] by (simp add: f_array_def)
  qed
qed

definition shortStrings :: "bytes list \<Rightarrow> bool" where
  "shortStrings xs \<longleftrightarrow> countable_length (int (length xs)) \<and> (\<forall>x \<in> set xs. countable_length (int (length x)))"

lemma decodes_vector: "shortStrings xs \<Longrightarrow> decodesTo (f_vector xs) (RArray (map RString xs))"
  unfolding f_vector_def
  by (rule decodes_array) (auto simp: shortStrings_def list_all2_conv_all_nth intro: decodes_string)

lemma to_string_2: "to_string 2 = ''2''"
  by (simp add: to_string_def digits_of.simps [of 2] char_of_def bit_Suc_0_iff)

lemma decodes_scan:
  assumes "countable_length (int (length marker))" "shortStrings xs"
  shows "decodesTo (f_scan marker xs) (RArray [RString marker, RArray (map RString xs)])"
proof -
  have "f_scan marker xs = f_array [f_string marker, f_vector xs]"
    using to_string_2 by (simp add: f_scan_def f_array_def)
  with decodes_array [of "[f_string marker, f_vector xs]"] decodes_string [OF assms(1)] decodes_vector [OF assms(2)]
  show ?thesis by (auto simp: countable_length_def LLONG_MIN_def LLONG_MAX_def)
qed

text \<open>What the client reads from a stream of replies: each of them, in order, and nothing is left over.\<close>

fun decodeAll :: "nat \<Rightarrow> nat \<Rightarrow> bytes \<Rightarrow> resp list option" where
  "decodeAll fuel 0 s = (if s = [] then Some [] else None)"
| "decodeAll fuel (Suc n) s = do { (r, s) \<leftarrow> decode fuel s; rs \<leftarrow> decodeAll fuel n s; Some (r # rs) }"

lemma decodeAll_ok:
  assumes "list_all2 decodesTo items rs"
  shows "\<exists>f. \<forall>fuel \<ge> f. decodeAll fuel (length items) (concat items) = Some rs"
  using assms
proof (induction rule: list_all2_induct)
  case (Cons x xs y ys)
  then obtain f g where "\<forall>fuel \<ge> f. \<forall>rest. decode fuel (x @ rest) = Some (y, rest)"
    and "\<forall>fuel \<ge> g. decodeAll fuel (length xs) (concat xs) = Some ys"
    by (auto simp: decodesTo_def)
  then show ?case by (intro exI [of _ "max f g"]) auto
qed simp

end
