(* ===== verification/RaftHandlers.thy ===== *)
theory RaftHandlers
  imports RaftStates Formatters
begin

text \<open>
  How a node answers the messages of the other nodes: the heartbeat timeouts
  (\<^verbatim>\<open>src/src/raft/RaftTimeouts.cc\<close>) and the handlers for heartbeats, append-entries, vote requests
  and membership commands of \<^verbatim>\<open>src/src/raft/RaftDispatcher.cc\<close>.  The clock is an argument; the
  last index the state machine has applied is one too.  The handlers are made of the steps of
  \<open>RaftStates\<close>, so what holds of all runs of a node holds when it answers; and a vote they grant, or
  a replication they acknowledge, means what the sender concludes from it.
\<close>

subsection \<open>Timeouts\<close>

record raft_timeouts =
  timeoutLow :: int
  timeoutHigh :: int
  heartbeatInterval :: int

definition defaultTimeouts :: raft_timeouts where
  "defaultTimeouts = \<lparr>timeoutLow = 1000, timeoutHigh = 1500, heartbeatInterval = 250\<rparr>"

definition timeoutsToString :: "raft_timeouts \<Rightarrow> bytes" where
  "timeoutsToString t =
     to_string (timeoutLow t) @ '':'' @ to_string (timeoutHigh t) @ '':'' @ to_string (heartbeatInterval t)"

definition timeoutsFromString :: "bytes \<Rightarrow> raft_timeouts option" where
  "timeoutsFromString str = do {
     parts \<leftarrow> split str '':'';
     if length parts \<noteq> 3 then None else do {
       low \<leftarrow> parseInt64 (parts ! 0);
       high \<leftarrow> parseInt64 (parts ! 1);
       hb \<leftarrow> parseInt64 (parts ! 2);
       Some \<lparr>timeoutLow = low, timeoutHigh = high, heartbeatInterval = hb\<rparr> } }"

datatype TimeoutStatus = kNo | kYes | kArtificial

record heartbeat_tracker =
  lastHeartbeat :: int
  randomTimeout :: int
  hb_timeouts :: raft_timeouts
  artificialTimeout :: bool

text \<open>\<open>random\<close> is what the generator returns.\<close>

definition newHeartbeatTracker :: "raft_timeouts \<Rightarrow> int \<Rightarrow> heartbeat_tracker" where
  "newHeartbeatTracker t random =
     \<lparr>lastHeartbeat = 0, randomTimeout = random, hb_timeouts = t, artificialTimeout = False\<rparr>"

definition hb_heartbeat :: "int \<Rightarrow> heartbeat_tracker \<Rightarrow> heartbeat_tracker" where
  "hb_heartbeat now h = (if lastHeartbeat h \<le> now then h\<lparr>lastHeartbeat := now\<rparr> else h)"

definition triggerTimeout :: "heartbeat_tracker \<Rightarrow> heartbeat_tracker" where
  "triggerTimeout h = h\<lparr>artificialTimeout := True\<rparr>"

definition hb_timeout :: "int \<Rightarrow> heartbeat_tracker \<Rightarrow> TimeoutStatus \<times> heartbeat_tracker" where
  "hb_timeout now h =
     (if artificialTimeout h then (kArtificial, h\<lparr>artificialTimeout := False\<rparr>)
      else if now - lastHeartbeat h > randomTimeout h then (kYes, h) else (kNo, h))"

definition refreshRandomTimeout :: "int \<Rightarrow> heartbeat_tracker \<Rightarrow> heartbeat_tracker" where
  "refreshRandomTimeout random h = h\<lparr>randomTimeout := random\<rparr>"

lemma hb_heartbeat_simps [simp]:
  "lastHeartbeat (hb_heartbeat now h) = max (lastHeartbeat h) now"
  "randomTimeout (hb_heartbeat now h) = randomTimeout h"
  "artificialTimeout (hb_heartbeat now h) = artificialTimeout h"
  by (simp_all add: hb_heartbeat_def max_def)

text \<open>Within the timeout after a heartbeat there is no timeout, unless one was asked for.\<close>

lemma hb_timeout_no:
  "\<not> artificialTimeout h \<Longrightarrow> now \<le> lastHeartbeat h + randomTimeout h \<Longrightarrow> hb_timeout now h = (kNo, h)"
  by (simp add: hb_timeout_def)

subsection \<open>Heartbeats\<close>

definition heartbeat ::
  "('db, 'wb) rocksdb \<Rightarrow> int \<Rightarrow> heartbeat_request \<Rightarrow> 'db raft_node \<Rightarrow> heartbeat_tracker
    \<Rightarrow> (heartbeat_response \<times> 'db raft_node \<times> heartbeat_tracker) option" where
  "heartbeat api now req n hb = do {
     assert_that (hb_leader req \<noteq> myself n);
     (_, n) \<leftarrow> observed api (hb_term req) (hb_leader req) n;
     if n_status n = SHUTDOWN then
       Some (\<lparr>hbr_term = n_term n, nodeRecognizedAsLeader = False, hbr_err = ''in shutdown''\<rparr>, n, hb)
     else if hb_term req < n_term n then
       Some (\<lparr>hbr_term = n_term n, nodeRecognizedAsLeader = False, hbr_err = ''My raft term is newer''\<rparr>, n, hb)
     else do {
       assert_that (hb_term req = n_term n);
       assert_that (hb_leader req = n_leader n);
       Some (\<lparr>hbr_term = n_term n, nodeRecognizedAsLeader = True, hbr_err = []\<rparr>, n, hb_heartbeat now hb) } }"

subsection \<open>Append entries\<close>

fun appendAll ::
  "('db, 'wb) rocksdb \<Rightarrow> int \<Rightarrow> raft_entry list \<Rightarrow> 'db raft_journal \<Rightarrow> (bool \<times> 'db raft_journal) option" where
  "appendAll api i [] j = Some (True, j)"
| "appendAll api i (e # es) j = do {
     (ok, j) \<leftarrow> j_append api i e False j;
     if ok then appendAll api (i + 1) es j else Some (False, j) }"

text \<open>
  The part of the handler after the heartbeat: it works on the journal, with the term of the
  snapshot taken in the heartbeat.  That clients with pending writes are sent to the new leader first is in
  \<open>appendEntriesFlushing\<close> of \<open>WriteTrackers\<close>, which does to the node what \<open>appendEntries\<close> does.
\<close>

definition replaceInconsistent ::
  "('db, 'wb) rocksdb \<Rightarrow> int \<Rightarrow> int \<Rightarrow> raft_entry list \<Rightarrow> int \<Rightarrow> 'db raft_journal
    \<Rightarrow> (bool \<times> 'db raft_journal) option" where
  "replaceInconsistent api applied start es firstInconsistency j =
     (let appendFrom = firstInconsistency - start in
      if appendFrom < int (length es) then do {
        assert_that (\<not> firstInconsistency \<le> commitIndex j);
        assert_that (\<not> (firstInconsistency \<noteq> logSize j \<and> firstInconsistency \<le> applied));
        (_, j) \<leftarrow> removeEntries api firstInconsistency j;
        appendAll api firstInconsistency (drop (nat appendFrom) es) j }
      else Some (True, j))"

definition applyEntries ::
  "('db, 'wb) rocksdb \<Rightarrow> int \<Rightarrow> int \<Rightarrow> append_entries_request \<Rightarrow> 'db raft_journal
    \<Rightarrow> (append_entries_response \<times> 'db raft_journal) option" where
  "applyEntries api applied snapshotTerm req j = do {
     matches \<leftarrow> matchEntries api j (prevIndex req) (prevTerm req);
     if \<not> matches then
       Some (\<lparr>aer_term = snapshotTerm, aer_logSize = logSize j, aer_outcome = False, aer_err = ''Log entry mismatch''\<rparr>, j)
     else do {
       firstInconsistency \<leftarrow> compareEntries api j (prevIndex req + 1) (entries req);
       (ok, j) \<leftarrow> replaceInconsistent api applied (prevIndex req + 1) (entries req) firstInconsistency j;
       if \<not> ok then
         Some (\<lparr>aer_term = snapshotTerm, aer_logSize = logSize j, aer_outcome = False, aer_err = ''Unknown error''\<rparr>, j)
       else do {
         (_, j) \<leftarrow> setCommitIndex api (min (logSize j - 1) (ae_commitIndex req)) j;
         Some (\<lparr>aer_term = snapshotTerm, aer_logSize = logSize j, aer_outcome = True, aer_err = []\<rparr>, j) } } }"

definition appendEntries ::
  "('db, 'wb) rocksdb \<Rightarrow> int \<Rightarrow> int \<Rightarrow> append_entries_request \<Rightarrow> 'db raft_node \<Rightarrow> heartbeat_tracker
    \<Rightarrow> (append_entries_response \<times> 'db raft_node \<times> heartbeat_tracker) option" where
  "appendEntries api now applied req n hb = do {
     (resp, n, hb) \<leftarrow> heartbeat api now \<lparr>hb_term = ae_term req, hb_leader = ae_leader req\<rparr> n hb;
     if \<not> nodeRecognizedAsLeader resp then
       Some (\<lparr>aer_term = hbr_term resp, aer_logSize = logSize (journal n), aer_outcome = False, aer_err = hbr_err resp\<rparr>, n, hb)
     else do {
       (resp, j) \<leftarrow> applyEntries api applied (n_term n) req (journal n);
       Some (resp, n\<lparr>journal := j\<rparr>, hb) } }"

subsection \<open>Votes\<close>

definition vetoCheck ::
  "('db, 'wb) rocksdb \<Rightarrow> vote_request \<Rightarrow> 'db raft_journal \<Rightarrow> RaftVote option option" where
  "vetoCheck api req j =
     (if lastIndex req \<le> commitIndex j then
        (if lastIndex req < logStart j then Some (Some VETO)
         else do {
           e \<leftarrow> fetch api j (lastIndex req);
           Some (case e of None \<Rightarrow> Some REFUSED
             | Some e \<Rightarrow> if lastTerm req \<noteq> entryTerm e then Some VETO
                         else if lastIndex req + 1 \<le> commitIndex j then Some VETO else None) })
      else Some None)"

definition moreUpToDate ::
  "('db, 'wb) rocksdb \<Rightarrow> vote_request \<Rightarrow> 'db raft_journal \<Rightarrow> RaftVote option option" where
  "moreUpToDate api req j = do {
     let myLastIndex = logSize j - 1;
     e \<leftarrow> fetch api j myLastIndex;
     Some (case e of None \<Rightarrow> Some REFUSED
       | Some e \<Rightarrow> if lastTerm req < entryTerm e then Some REFUSED
                   else if lastTerm req = entryTerm e \<and> lastIndex req < myLastIndex then Some REFUSED else None) }"

definition requestVote ::
  "('db, 'wb) rocksdb \<Rightarrow> int \<Rightarrow> vote_request \<Rightarrow> bool \<Rightarrow> 'db raft_node \<Rightarrow> heartbeat_tracker
    \<Rightarrow> (vote_response \<times> 'db raft_node \<times> heartbeat_tracker) option" where
  "requestVote api now req preVote n hb = do {
     assert_that (candidate req \<noteq> myself n);
     if candidate req \<notin> set (nodes (members (journal n))) \<and> \<not> serverEmpty (n_leader n) then
       Some (\<lparr>vresp_term = n_term n, vresp_vote = VETO\<rparr>, n, hb)
     else do {
       n \<leftarrow> (if \<not> preVote then map_option snd (observed api (vr_term req) noServer n) else Some n);
       let answer = (\<lambda>v. \<lparr>vresp_term = n_term n, vresp_vote = v\<rparr>);
       veto \<leftarrow> vetoCheck api req (journal n);
       (case veto of Some v \<Rightarrow> Some (answer v, n, hb)
       | None \<Rightarrow>
         (if vr_term req < n_term n then Some (answer REFUSED, n, hb)
          else do {
            assert_that (\<not> preVote \<longrightarrow> n_term n = vr_term req);
            if n_term n = vr_term req \<and> \<not> serverEmpty (n_votedFor n) \<and> n_votedFor n \<noteq> candidate req
            then Some (answer REFUSED, n, hb)
            else do {
              behind \<leftarrow> moreUpToDate api req (journal n);
              (case behind of Some v \<Rightarrow> Some (answer v, n, hb)
              | None \<Rightarrow>
                (if preVote then Some (answer GRANTED, n, hb)
                 else do {
                   (ok, n') \<leftarrow> grantVote api (vr_term req) (candidate req) n;
                   if \<not> ok then Some (answer REFUSED, n', hb_heartbeat now hb)
                   else Some (answer GRANTED, n', hb_heartbeat now (hb_heartbeat now hb)) })) } })) } }"

subsection \<open>Membership commands\<close>

datatype member_command = RAFT_ADD_OBSERVER | RAFT_REMOVE_MEMBER | RAFT_PROMOTE_OBSERVER | RAFT_DEMOTE_TO_OBSERVER

definition checkIfNodeRemovalAcceptable ::
  "replica_status list \<Rightarrow> raft_server \<Rightarrow> 'db raft_node \<Rightarrow> bool option" where
  "checkIfNodeRemovalAcceptable replicas srv n = do {
     rs \<leftarrow> removeReplicas (observers (members (journal n))) replicas;
     let leaderStatus = \<lparr>target = myself n, online = True, rs_logSize = logSize (journal n), rs_version = [], resilveringProgress = []\<rparr>;
     rs \<leftarrow> addReplica leaderStatus rs;
     rs \<leftarrow> (if containsReplica srv rs then removeReplica srv rs else Some rs);
     Some (quorumUpToDate (rs_logSize leaderStatus) rs) }"

text \<open>The reply is the encoded response; a thrown exception (\<open>None\<close>) ends the process.\<close>

definition membershipCommand ::
  "('db, 'wb) rocksdb \<Rightarrow> member_command \<Rightarrow> bytes list \<Rightarrow> replica_status list \<Rightarrow> 'db raft_node
    \<Rightarrow> (bytes \<times> 'db raft_node) option" where
  "membershipCommand api cmd req replicas n =
     (if length req \<noteq> 2 then Some (f_errArgs (req ! 0), n)
      else case parseServer (req ! 1) of None \<Rightarrow> Some (f_err (''cannot parse server: '' @ req ! 1), n)
      | Some srv \<Rightarrow>
        (if n_status n \<noteq> LEADER then Some (f_err ''not a leader'', n)
         else if srv = myself n then Some (f_err ''cannot perform membership changes on current leader'', n)
         else do {
           acceptable \<leftarrow>
             (case cmd of
                RAFT_ADD_OBSERVER \<Rightarrow> Some True
              | RAFT_REMOVE_MEMBER \<Rightarrow> checkIfNodeRemovalAcceptable replicas srv n
              | RAFT_PROMOTE_OBSERVER \<Rightarrow> do {
                  r \<leftarrow> getReplicaStatus srv replicas;
                  Some (upToDate (logSize (journal n)) r) }
              | RAFT_DEMOTE_TO_OBSERVER \<Rightarrow> checkIfNodeRemovalAcceptable replicas srv n);
           if \<not> acceptable then
             Some (f_err (if cmd = RAFT_PROMOTE_OBSERVER then ''membership update blocked, observer is not up-to-date''
                          else ''membership update blocked, new cluster would not have an up-to-date quorum''), n)
           else do {
             (r, j) \<leftarrow>
               (case cmd of
                  RAFT_ADD_OBSERVER \<Rightarrow> j_addObserver api (n_term n) srv (journal n)
                | RAFT_REMOVE_MEMBER \<Rightarrow> j_removeMember api (n_term n) srv (journal n)
                | RAFT_PROMOTE_OBSERVER \<Rightarrow> j_promoteObserver api (n_term n) srv (journal n)
                | RAFT_DEMOTE_TO_OBSERVER \<Rightarrow> j_demoteToObserver api (n_term n) srv (journal n));
             Some (case r of Inl err \<Rightarrow> f_err err | Inr ok \<Rightarrow> if ok then f_ok else f_err [], n\<lparr>journal := j\<rparr>) } }))"

subsection \<open>Heartbeats keep the node safe\<close>

lemma heartbeat_ok:
  assumes inv: "nodeInv api n" and req: "int64 (hb_term req)" "okServer (hb_leader req)"
    and h: "heartbeat api now req n hb = Some (ans, n', hb')"
  shows "node_safe api n n' \<and> leader_kept n n'
    \<and> logSize (journal n') = logSize (journal n) \<and> commitIndex (journal n') = commitIndex (journal n)
    \<and> sameMembership api (journal n) (journal n')
    \<and> (\<forall>i. entryAt api (journal n') i = entryAt api (journal n) i)
    \<and> hbr_term ans = n_term n' \<and> lastHeartbeat hb \<le> lastHeartbeat hb'
    \<and> (nodeRecognizedAsLeader ans \<longrightarrow> n_term n' = hb_term req \<and> n_leader n' = hb_leader req \<and> n_status n' \<noteq> SHUTDOWN
         \<and> lastHeartbeat hb' = max (lastHeartbeat hb) now)"
proof -
  from observed_ok [OF inv req(1), of "hb_leader req"] req(2) obtain b m where
    m: "observed api (hb_term req) (hb_leader req) n = Some (b, m)" "node_safe api n m" "leader_kept n m"
      "logSize (journal m) = logSize (journal n)" "commitIndex (journal m) = commitIndex (journal n)"
      "sameMembership api (journal n) (journal m)" "\<forall>i. entryAt api (journal m) i = entryAt api (journal n) i"
    by auto
  have "hb_leader req \<noteq> myself n" using h by (auto simp: heartbeat_def assert_that_def split: if_splits)
  then have h': "n' = m \<and> hbr_term ans = n_term m
      \<and> (if nodeRecognizedAsLeader ans then n_status m \<noteq> SHUTDOWN \<and> hb_term req = n_term m \<and> hb_leader req = n_leader m \<and> hb' = hb_heartbeat now hb
         else hb' = hb)"
    using h m(1) by (auto simp: heartbeat_def assert_that_def split: if_splits)
  then have "n' = m" by simp
  with h' m(2-) show ?thesis by (simp split: if_splits)
qed

text \<open>A follower that is asked by the leader it knows, or that knows none, does answer.\<close>

lemma heartbeat_answers:
  assumes inv: "nodeInv api n" and req: "int64 (hb_term req)" "okServer (hb_leader req)"
    and ldr: "hb_leader req \<noteq> myself n" "hb_term req = n_term n \<Longrightarrow> n_status n \<noteq> SHUTDOWN \<Longrightarrow> serverEmpty (n_leader n) \<or> n_leader n = hb_leader req"
  shows "\<exists>ans n' hb'. heartbeat api now req n hb = Some (ans, n', hb')
    \<and> nodeRecognizedAsLeader ans = (n_status n \<noteq> SHUTDOWN \<and> n_term n \<le> hb_term req)"
proof -
  from observed_ok [OF inv req(1) okVote_simps(2) [OF req(2)]] obtain b m where
    m: "observed api (hb_term req) (hb_leader req) n = Some (b, m)" "leader_kept n m"
      "n_status n \<noteq> SHUTDOWN \<longrightarrow> n_term m = max (n_term n) (hb_term req) \<and> n_status m \<noteq> SHUTDOWN"
      "n_status n \<noteq> SHUTDOWN \<longrightarrow> n_term n < hb_term req \<longrightarrow> n_status m = FOLLOWER \<and> n_leader m = hb_leader req"
      "n_status n \<noteq> SHUTDOWN \<longrightarrow> n_term n = hb_term req \<longrightarrow> serverEmpty (n_leader n) \<longrightarrow> n_leader m = hb_leader req"
      "n_status n = SHUTDOWN \<or> hb_term req < n_term n \<longrightarrow> m = n"
    by (elim exE conjE)
  consider "n_status n = SHUTDOWN" | "n_status n \<noteq> SHUTDOWN" "hb_term req < n_term n"
    | "n_status n \<noteq> SHUTDOWN" "n_term n \<le> hb_term req" by linarith
  then show ?thesis
  proof cases
    case 3
    have "n_leader m = hb_leader req"
    proof (cases "n_term n = hb_term req")
      case True
      then show ?thesis
      proof (cases "serverEmpty (n_leader n)")
        case False
        with True ldr(2) m(2,3) 3 show ?thesis by (simp add: leader_kept_def)
      qed (use m(5) 3 in simp)
    qed (use m(4) 3 in simp)
    with 3 m(1,3) ldr(1) show ?thesis by (simp add: heartbeat_def max_def)
  qed (use m ldr(1) in \<open>simp_all add: heartbeat_def\<close>)
qed

subsection \<open>Replicating entries\<close>

definition entriesOk :: "'db raft_journal \<Rightarrow> raft_entry list \<Rightarrow> bool" where
  "entriesOk j es \<longleftrightarrow> (\<forall>e \<in> set es. okLogEntry e \<and> memberEntryOk j e)"

lemma entriesOk_cluster: "clusterID j' = clusterID j \<Longrightarrow> entriesOk j' es = entriesOk j es"
  by (simp add: entriesOk_def memberEntryOk_def)

lemma entriesOk_drop: "entriesOk j es \<Longrightarrow> entriesOk j (drop n es)"
  by (auto simp: entriesOk_def dest: in_set_dropD)

lemma append_total:
  assumes "journalInv api j" "okLogEntry e" "memberEntryOk j e" "int64 (logSize j + 1)"
  shows "\<exists>ok j'. j_append api (logSize j) e important j = Some (ok, j') \<and> (if ok then appended api e j j' else j' = j)"
proof (cases "termOfLastEntry j \<le> entryTerm e \<and> entryTerm e \<le> currentTerm j")
  case True
  then obtain j' where "appendNoLock api (logSize j) e important j = Some (True, j')" "appended api e j j'"
    using append_ok [OF assms(1,2) _ _ assms(4,3), of important] by blast
  then show ?thesis by (intro exI [of _ True] exI [of _ j']) (simp add: j_append_def)
next
  case False
  then have "appendNoLock api (logSize j) e important j = Some (False, j)" by (auto simp: appendNoLock_def)
  then show ?thesis by (intro exI [of _ False] exI [of _ j]) (simp add: j_append_def)
qed

lemma appendAll_ok:
  assumes "journalInv api j" "entriesOk j es" "int64 (logSize j + int (length es))"
  shows "\<exists>ok j'. appendAll api (logSize j) es j = Some (ok, j') \<and> journal_safe api j j' \<and> clusterID j' = clusterID j
    \<and> currentTerm j' = currentTerm j \<and> votedFor j' = votedFor j \<and> commitIndex j' = commitIndex j \<and> logStart j' = logStart j
    \<and> (\<forall>i. 0 \<le> i \<longrightarrow> i < logSize j \<longrightarrow> entryAt api j' i = entryAt api j i)
    \<and> (ok \<longrightarrow> logSize j' = logSize j + int (length es)
         \<and> (\<forall>k < length es. entryAt api j' (logSize j + int k) = Some (es ! k)))"
  using assms
proof (induction es arbitrary: j)
  case Nil
  then show ?case by (auto simp: journal_safe_refl)
next
  case (Cons e es)
  have sz: "0 \<le> logSize j" "int64 (logSize j)" using journalInvD(3) [OF Cons.prems(1)] by (auto simp: bounds_def)
  have small: "int64 i" if "0 \<le> i" "i \<le> logSize j + int (length (e # es))" for i
    using that Cons.prems(3) by (auto simp: int64_def)
  have e: "okLogEntry e" "memberEntryOk j e" "entriesOk j es" using Cons.prems(2) by (auto simp: entriesOk_def)
  obtain ok j1 where j1: "j_append api (logSize j) e False j = Some (ok, j1)" "if ok then appended api e j j1 else j1 = j"
    using append_total [OF Cons.prems(1) e(1,2) small, of False] sz by auto
  show ?case
  proof (cases ok)
    case False
    with j1 Cons.prems(1) show ?thesis by (auto simp: journal_safe_refl)
  next
    case True
    with j1(2) have a: "appended api e j j1" by simp
    note safe = append_safe [OF Cons.prems(1) a]
    have b: "journalInv api j1" "logSize j1 = logSize j + 1" "clusterID j1 = clusterID j" "currentTerm j1 = currentTerm j"
      "votedFor j1 = votedFor j" "commitIndex j1 = commitIndex j" "logStart j1 = logStart j"
      using a by (simp_all add: appended_def)
    have at: "entryAt api j1 i = (if i = logSize j then Some e else entryAt api j i)" if "0 \<le> i" "i \<le> logSize j" for i
      using a small [of i] that by (simp add: appended_def)
    have "entriesOk j1 es" using e(3) entriesOk_cluster [OF b(3)] by simp
    moreover have "int64 (logSize j1 + int (length es))" using Cons.prems(3) b(2) by (simp add: add.assoc)
    ultimately obtain ok' j' where r: "appendAll api (logSize j1) es j1 = Some (ok', j')" "journal_safe api j1 j'"
        "clusterID j' = clusterID j1" "currentTerm j' = currentTerm j1" "votedFor j' = votedFor j1" "commitIndex j' = commitIndex j1"
        "logStart j' = logStart j1"
        "\<forall>i. 0 \<le> i \<longrightarrow> i < logSize j1 \<longrightarrow> entryAt api j' i = entryAt api j1 i"
        "ok' \<longrightarrow> logSize j' = logSize j1 + int (length es)"
        "ok' \<longrightarrow> (\<forall>k < length es. entryAt api j' (logSize j1 + int k) = Some (es ! k))"
      using Cons.IH [OF b(1)] by blast
    have "entryAt api j' (logSize j + int k) = Some ((e # es) ! k)" if "ok'" "k < length (e # es)" for k
    proof (cases k)
      case 0
      with r(8) at [of "logSize j"] b(2) sz show ?thesis by simp
    next
      case (Suc n)
      with r(10) that b(2) show ?thesis by (simp add: algebra_simps)
    qed
    moreover have "entryAt api j' i = entryAt api j i" if "0 \<le> i" "i < logSize j" for i
      using r(8) at [of i] that b(2) by simp
    moreover have "appendAll api (logSize j) (e # es) j = Some (ok', j')" using j1(1) True r(1) b(2) by simp
    ultimately show ?thesis using journal_safe_trans [OF safe r(2)] r b by (intro exI [of _ ok'] exI [of _ j']) auto
  qed
qed

text \<open>What \<open>compareEntries\<close> finds out about the journal and the entries sent from \<open>start\<close> on.\<close>

definition firstDifference :: "('db, 'wb) rocksdb \<Rightarrow> 'db raft_journal \<Rightarrow> int \<Rightarrow> raft_entry list \<Rightarrow> int \<Rightarrow> bool" where
  "firstDifference api j start es i \<longleftrightarrow>
     start \<le> i \<and> i \<le> logSize j \<and> i \<le> start + int (length es)
     \<and> (\<forall>k < length es. start + int k < i \<longrightarrow> entryAt api j (start + int k) = Some (es ! k))
     \<and> (i < start + int (length es) \<longrightarrow> entryAt api j i \<noteq> Some (es ! nat (i - start)))"

lemma compareEntries_first:
  assumes "journalInv api j" "logStart j \<le> start" "start \<le> logSize j" "int64 (start + int (length es))"
  shows "\<exists>i. compareEntries api j start es = Some i \<and> firstDifference api j start es i"
proof -
  from compareEntries_ok [OF assms(1,2) refl, of es] obtain i where
    i: "compareEntries api j start es = Some i" "i \<le> min (logSize j) (start + int (length es))"
      "\<forall>k. start \<le> k \<longrightarrow> k < i \<longrightarrow> entryAt api j k = Some (es ! nat (k - start))"
      "i < min (logSize j) (start + int (length es)) \<longrightarrow> start \<le> i \<and> entryAt api j i \<noteq> Some (es ! nat (i - start))"
    by blast
  have "entryAt api j i \<noteq> Some (es ! nat (i - start))" if "i < start + int (length es)"
  proof (cases "i < logSize j")
    case True
    with i(4) that show ?thesis by simp
  next
    case False
    have "0 \<le> logSize j" "int64 (logSize j)" using journalInvD(3) [OF assms(1)] by (auto simp: bounds_def)
    with False i(2) have "entryAt api j i = None" by (intro log_absent [OF assms(1)]) auto
    then show ?thesis by simp
  qed
  moreover have "start \<le> i" using i(2,4) assms(3) by (cases "i < min (logSize j) (start + int (length es))") auto
  ultimately show ?thesis using i by (intro exI [of _ i]) (auto simp: firstDifference_def)
qed

lemma removeEntries_cut:
  assumes "journalInv api j" "commitIndex j < i" "i \<le> logSize j" "rollbackSafe api j i"
  shows "\<exists>b j'. removeEntries api i j = Some (b, j') \<and> journal_safe api j j' \<and> logSize j' = i \<and> logStart j' = logStart j
    \<and> commitIndex j' = commitIndex j \<and> currentTerm j' = currentTerm j \<and> votedFor j' = votedFor j \<and> clusterID j' = clusterID j
    \<and> (\<forall>k. 0 \<le> k \<longrightarrow> k < i \<longrightarrow> entryAt api j' k = entryAt api j k)"
proof (cases "i = logSize j")
  case True
  then have "removeEntries api i j = Some (False, j)" by (simp add: removeEntries_rejects)
  with True assms(1) show ?thesis by (auto simp: journal_safe_refl)
next
  case False
  then have "i < logSize j" using assms(3) by simp
  from removeEntries_ok [OF assms(1,2) this assms(4)] obtain j' where
    j': "removeEntries api i j = Some (True, j')" "journalInv api j'" "logSize j' = i" "logStart j' = logStart j"
      "commitIndex j' = commitIndex j" "currentTerm j' = currentTerm j" "votedFor j' = votedFor j" "clusterID j' = clusterID j"
      "\<forall>k. 0 \<le> k \<longrightarrow> int64 k \<longrightarrow> entryAt api j' k = (if i \<le> k then None else entryAt api j k)"
    by blast
  have "int64 k" if "0 \<le> k" "k < i" for k
    using that assms(3) journalInvD(3) [OF assms(1)] by (auto simp: bounds_def int64_def)
  with j' remove_safe [OF assms(1) j'(1) assms(4)] show ?thesis by (intro exI [of _ True] exI [of _ j']) simp
qed

lemma replaceInconsistent_ok:
  assumes inv: "journalInv api j" and es: "entriesOk j es" "int64 (start + int (length es))" and st: "0 \<le> start"
    and i: "firstDifference api j start es i" and roll: "\<forall>i > commitIndex j. rollbackSafe api j i"
    and run: "replaceInconsistent api applied start es i j = Some (ok, j')"
  shows "journal_safe api j j' \<and> currentTerm j' = currentTerm j \<and> votedFor j' = votedFor j \<and> commitIndex j' = commitIndex j
    \<and> (\<forall>k. 0 \<le> k \<longrightarrow> k < start \<longrightarrow> entryAt api j' k = entryAt api j k)
    \<and> (ok \<longrightarrow> start + int (length es) \<le> logSize j' \<and> (\<forall>k < length es. entryAt api j' (start + int k) = Some (es ! k)))"
proof (cases "i - start < int (length es)")
  case False
  with run have "ok" "j' = j" by (simp_all add: replaceInconsistent_def)
  with False i inv show ?thesis by (auto simp: firstDifference_def journal_safe_refl)
next
  case True
  let ?d = "nat (i - start)"
  have c: "commitIndex j < i" using run True by (auto simp: replaceInconsistent_def assert_that_def split: if_splits)
  have i': "start \<le> i" "i \<le> logSize j" using i by (auto simp: firstDifference_def)
  from removeEntries_cut [OF inv c i'(2)] roll c obtain b j1 where
    j1: "removeEntries api i j = Some (b, j1)" "journal_safe api j j1" "logSize j1 = i" "logStart j1 = logStart j"
      "commitIndex j1 = commitIndex j" "currentTerm j1 = currentTerm j" "votedFor j1 = votedFor j" "clusterID j1 = clusterID j"
      "\<forall>k. 0 \<le> k \<longrightarrow> k < i \<longrightarrow> entryAt api j1 k = entryAt api j k"
    by blast
  have inv1: "journalInv api j1" using j1(2) by (simp add: journal_safe_def)
  have "entriesOk j1 (drop ?d es)" using es(1) j1(8) entriesOk_cluster entriesOk_drop by metis
  moreover have "int64 (logSize j1 + int (length (drop ?d es)))"
    using es(2) True i'(1) j1(3) by (simp add: of_nat_diff add.commute)
  ultimately obtain ok' j2 where
    j2: "appendAll api (logSize j1) (drop ?d es) j1 = Some (ok', j2)" "journal_safe api j1 j2" "currentTerm j2 = currentTerm j1"
      "votedFor j2 = votedFor j1" "commitIndex j2 = commitIndex j1"
      "\<forall>k. 0 \<le> k \<longrightarrow> k < logSize j1 \<longrightarrow> entryAt api j2 k = entryAt api j1 k"
      "ok' \<longrightarrow> logSize j2 = logSize j1 + int (length (drop ?d es))"
      "ok' \<longrightarrow> (\<forall>k < length (drop ?d es). entryAt api j2 (logSize j1 + int k) = Some (drop ?d es ! k))"
    using appendAll_ok [OF inv1] by blast
  have r: "ok = ok'" "j' = j2"
    using run True j1(1) j2(1) j1(3) by (auto simp: replaceInconsistent_def assert_that_def split: if_splits)
  have sz: "ok' \<longrightarrow> start + int (length es) = logSize j2" using j2(7) j1(3) True i'(1) by (simp add: of_nat_diff)
  have "entryAt api j2 (start + int k) = Some (es ! k)" if "ok'" "k < length es" for k
  proof (cases "start + int k < i")
    case True
    with i that(2) have "entryAt api j (start + int k) = Some (es ! k)" by (simp add: firstDifference_def)
    with True j2(6) j1(3,9) st show ?thesis by simp
  next
    case False
    then have "k - ?d < length (drop ?d es)" "logSize j1 + int (k - ?d) = start + int k" "?d + (k - ?d) = k"
      using that(2) i'(1) j1(3) True by auto
    with j2(8) that(1) show ?thesis by (metis le_add1 nth_drop less_imp_le_nat True i'(1) add_diff_cancel_left' drop_eq_Nil length_drop linorder_not_le list.size(3) not_less_zero)
  qed
  moreover have "entryAt api j2 k = entryAt api j k" if "0 \<le> k" "k < start" for k
    using that j2(6) j1(3,9) i'(1) by simp
  ultimately show ?thesis using journal_safe_trans [OF j1(2) j2(2)] j1 j2 r sz by simp
qed

text \<open>The request as the parser gives it, and the journal it is applied to.\<close>

definition requestOk :: "('db, 'wb) rocksdb \<Rightarrow> append_entries_request \<Rightarrow> 'db raft_journal \<Rightarrow> bool" where
  "requestOk api req j \<longleftrightarrow>
     journalInv api j \<and> entriesOk j (entries req) \<and> 0 \<le> prevIndex req
     \<and> int64 (prevIndex req + 1 + int (length (entries req))) \<and> (\<forall>i > commitIndex j. rollbackSafe api j i)"

text \<open>What an acknowledgement says: the log agrees with the request, and the commit index follows the leader's.\<close>

definition acknowledged ::
  "('db, 'wb) rocksdb \<Rightarrow> append_entries_request \<Rightarrow> 'db raft_journal \<Rightarrow> 'db raft_journal \<Rightarrow> bool" where
  "acknowledged api req j j' \<longleftrightarrow>
     (\<exists>e. entryAt api j' (prevIndex req) = Some e \<and> entryTerm e = prevTerm req)
     \<and> (\<forall>k < length (entries req). entryAt api j' (prevIndex req + 1 + int k) = Some (entries req ! k))
     \<and> prevIndex req + int (length (entries req)) < logSize j'
     \<and> commitIndex j' = max (commitIndex j) (min (logSize j' - 1) (ae_commitIndex req))"

lemma requestOk_match:
  assumes "requestOk api req j" "matchEntries api j (prevIndex req) (prevTerm req) = Some True"
  shows "logStart j \<le> prevIndex req" "prevIndex req < logSize j"
    "\<exists>e. entryAt api j (prevIndex req) = Some e \<and> entryTerm e = prevTerm req"
proof -
  have inv: "journalInv api j" and p: "0 \<le> prevIndex req" "int64 (prevIndex req)"
    using assms(1) by (auto simp: requestOk_def int64_def)
  show e: "\<exists>e. entryAt api j (prevIndex req) = Some e \<and> entryTerm e = prevTerm req"
    using matchEntries_ok [OF inv p, of "prevTerm req"] assms(2) by simp
  then have "\<not> (prevIndex req < logStart j \<or> logSize j \<le> prevIndex req)"
    using log_absent(2) [OF inv p] by auto
  then show "logStart j \<le> prevIndex req" "prevIndex req < logSize j" by auto
qed

lemma sameLog_entryAt: "sameLog (jview api j) (jview api j') \<Longrightarrow> entryAt api j' i = entryAt api j i"
  using sameLog_preserves(1) by (metis entryAt_def)

lemma setCommitIndex_step:
  assumes inv: "journalInv api j" and "newIndex < logSize j"
  shows "\<exists>b j'. setCommitIndex api newIndex j = Some (b, j') \<and> journal_safe api j j' \<and> logSize j' = logSize j
    \<and> currentTerm j' = currentTerm j \<and> votedFor j' = votedFor j \<and> commitIndex j' = max (commitIndex j) newIndex
    \<and> (\<forall>i. entryAt api j' i = entryAt api j i)"
proof -
  from setCommitIndex_ok [OF assms] obtain db' where
    db': "setCommitIndex api newIndex j
           = Some (commitIndex j \<le> newIndex, j\<lparr>j_db := db', commitIndex := max (commitIndex j) newIndex\<rparr>)"
      "journalInv api (j\<lparr>j_db := db', commitIndex := max (commitIndex j) newIndex\<rparr>)"
      "sameLog (jview api j) (\<lambda>x. found (db_get api db' x))"
    by blast
  let ?j = "j\<lparr>j_db := db', commitIndex := max (commitIndex j) newIndex\<rparr>"
  have same: "sameLog (jview api j) (jview api ?j)" using db'(3) by simp
  have "journal_safe api j ?j" by (rule journal_safe_sameLog [OF db'(2) same]) auto
  with db'(1) sameLog_entryAt [OF same] show ?thesis by (intro exI [of _ "commitIndex j \<le> newIndex"] exI [of _ ?j]) simp
qed

lemma applyEntries_ok:
  assumes req: "requestOk api req j" and run: "applyEntries api applied t req j = Some (ans, j')"
  shows "journal_safe api j j' \<and> currentTerm j' = currentTerm j \<and> votedFor j' = votedFor j
    \<and> aer_term ans = t \<and> aer_logSize ans = logSize j' \<and> (aer_outcome ans \<longrightarrow> acknowledged api req j j')"
proof -
  have inv: "journalInv api j" and es: "entriesOk j (entries req)" and p: "0 \<le> prevIndex req" "0 \<le> prevIndex req + 1"
    and i64: "int64 (prevIndex req + 1 + int (length (entries req)))" and roll: "\<forall>i > commitIndex j. rollbackSafe api j i"
    using req by (auto simp: requestOk_def)
  from run obtain ms where ms: "matchEntries api j (prevIndex req) (prevTerm req) = Some ms"
    by (auto simp: applyEntries_def Option.bind_eq_Some_conv)
  show ?thesis
  proof (cases ms)
    case False
    with run ms have "ans = \<lparr>aer_term = t, aer_logSize = logSize j, aer_outcome = False, aer_err = ''Log entry mismatch''\<rparr>" "j' = j"
      by (auto simp: applyEntries_def)
    then show ?thesis using inv by (simp add: journal_safe_refl)
  next
    case True
    with ms have m: "matchEntries api j (prevIndex req) (prevTerm req) = Some True" by simp
    note match = requestOk_match [OF req m]
    from compareEntries_first [OF inv _ _ i64] match(1,2) obtain i where
      i: "compareEntries api j (prevIndex req + 1) (entries req) = Some i"
        "firstDifference api j (prevIndex req + 1) (entries req) i"
      by auto
    from run m i(1) obtain ok j1 where r: "replaceInconsistent api applied (prevIndex req + 1) (entries req) i j = Some (ok, j1)"
      by (auto simp: applyEntries_def Option.bind_eq_Some_conv)
    from replaceInconsistent_ok [OF inv es i64 p(2) i(2) roll r]
    have j1: "journal_safe api j j1" "currentTerm j1 = currentTerm j" "votedFor j1 = votedFor j" "commitIndex j1 = commitIndex j"
      "entryAt api j1 (prevIndex req) = entryAt api j (prevIndex req)"
      "ok \<longrightarrow> prevIndex req + 1 + int (length (entries req)) \<le> logSize j1"
      "ok \<longrightarrow> (\<forall>k < length (entries req). entryAt api j1 (prevIndex req + 1 + int k) = Some (entries req ! k))"
      using p(1) by (elim conjE; simp)+
    have inv1: "journalInv api j1" using j1(1) by (simp add: journal_safe_def)
    show ?thesis
    proof (cases ok)
      case False
      with run m i(1) r have "ans = \<lparr>aer_term = t, aer_logSize = logSize j1, aer_outcome = False, aer_err = ''Unknown error''\<rparr>" "j' = j1"
        by (auto simp: applyEntries_def)
      then show ?thesis using j1 by simp
    next
      case True
      have "min (logSize j1 - 1) (ae_commitIndex req) < logSize j1" by simp
      from setCommitIndex_step [OF inv1 this] obtain b j2 where
        j2: "setCommitIndex api (min (logSize j1 - 1) (ae_commitIndex req)) j1 = Some (b, j2)" "journal_safe api j1 j2"
          "logSize j2 = logSize j1" "currentTerm j2 = currentTerm j1" "votedFor j2 = votedFor j1"
          "commitIndex j2 = max (commitIndex j1) (min (logSize j1 - 1) (ae_commitIndex req))"
          "\<forall>i. entryAt api j2 i = entryAt api j1 i"
        by blast
      have "ans = \<lparr>aer_term = t, aer_logSize = logSize j2, aer_outcome = True, aer_err = []\<rparr>" "j' = j2"
        using run m i(1) r True j2(1) by (auto simp: applyEntries_def)
      with True j1 j2 match(3) journal_safe_trans [OF j1(1) j2(2)] show ?thesis by (simp add: acknowledged_def)
    qed
  qed
qed

text \<open>
  The handler does answer unless the leader contradicts what is committed: then every entry it
  sends at or below the commit index is the one the journal holds.
\<close>

lemma applyEntries_answers:
  assumes req: "requestOk api req j" and applied: "applied \<le> commitIndex j"
    and agree: "\<forall>k < length (entries req). prevIndex req + 1 + int k \<le> commitIndex j \<longrightarrow>
      entryAt api j (prevIndex req + 1 + int k) = Some (entries req ! k)"
  shows "\<exists>ans j'. applyEntries api applied t req j = Some (ans, j')"
proof -
  have inv: "journalInv api j" and es: "entriesOk j (entries req)" and p: "0 \<le> prevIndex req" "int64 (prevIndex req)"
    and i64: "int64 (prevIndex req + 1 + int (length (entries req)))" and roll: "\<forall>i > commitIndex j. rollbackSafe api j i"
    using req by (auto simp: requestOk_def int64_def)
  obtain ms where ms: "matchEntries api j (prevIndex req) (prevTerm req) = Some ms"
    using matchEntries_ok [OF inv p, of "prevTerm req"] by blast
  show ?thesis
  proof (cases ms)
    case False
    with ms show ?thesis by (simp add: applyEntries_def)
  next
    case True
    with ms have m: "matchEntries api j (prevIndex req) (prevTerm req) = Some True" by simp
    note match = requestOk_match [OF req m]
    let ?s = "prevIndex req + 1" and ?es = "entries req"
    from compareEntries_first [OF inv _ _ i64] match(1,2) obtain i where
      i: "compareEntries api j ?s ?es = Some i" "firstDifference api j ?s ?es i"
      by auto
    have "\<exists>ok j1. replaceInconsistent api applied ?s ?es i j = Some (ok, j1)"
    proof (cases "i - ?s < int (length ?es)")
      case False
      then have "replaceInconsistent api applied ?s ?es i j = Some (True, j)" by (simp add: replaceInconsistent_def)
      then show ?thesis by blast
    next
      case True
      have d: "?s \<le> i" "i \<le> logSize j" "entryAt api j i \<noteq> Some (?es ! nat (i - ?s))" using i(2) True by (auto simp: firstDifference_def)
      have c: "commitIndex j < i"
      proof (rule ccontr)
        assume "\<not> commitIndex j < i"
        moreover have "nat (i - ?s) < length ?es" "?s + int (nat (i - ?s)) = i" using True d(1) by auto
        ultimately show False using agree [rule_format, of "nat (i - ?s)"] d(3) by simp
      qed
      from removeEntries_cut [OF inv c d(2)] roll c obtain b j1 where
        j1: "removeEntries api i j = Some (b, j1)" "journal_safe api j j1" "logSize j1 = i" "clusterID j1 = clusterID j"
        by blast
      have inv1: "journalInv api j1" using j1(2) by (simp add: journal_safe_def)
      have "entriesOk j1 (drop (nat (i - ?s)) ?es)" using es(1) j1(4) entriesOk_cluster entriesOk_drop by metis
      moreover have "int64 (logSize j1 + int (length (drop (nat (i - ?s)) ?es)))"
        using i64 True d(1) j1(3) by (simp add: of_nat_diff algebra_simps)
      ultimately obtain ok' j2 where "appendAll api i (drop (nat (i - ?s)) ?es) j1 = Some (ok', j2)"
        using appendAll_ok [OF inv1] j1(3) by metis
      with True c applied j1(1) show ?thesis by (auto simp: replaceInconsistent_def)
    qed
    then obtain ok j1 where r: "replaceInconsistent api applied ?s ?es i j = Some (ok, j1)" by blast
    have "0 \<le> ?s" using p(1) by simp
    from replaceInconsistent_ok [OF inv es i64 this i(2) roll r] have "journalInv api j1" by (simp add: journal_safe_def)
    moreover have "min (logSize j1 - 1) (ae_commitIndex req) < logSize j1" by simp
    ultimately obtain b j2 where "setCommitIndex api (min (logSize j1 - 1) (ae_commitIndex req)) j1 = Some (b, j2)"
      using setCommitIndex_step by blast
    with m i(1) r show ?thesis by (cases ok) (auto simp: applyEntries_def)
  qed
qed

text \<open>
  The whole handler.  The journal the entries are applied to is the one after the heartbeat, which
  has the same log and members.
\<close>

lemma requestOk_same:
  assumes "requestOk api req (journal n)" "node_safe api n m" "commitIndex (journal m) = commitIndex (journal n)"
    and "sameMembership api (journal n) (journal m)"
  shows "requestOk api req (journal m)"
proof -
  have "clusterID (journal m) = clusterID (journal n)" using assms(4) by (simp add: sameMembership_def)
  then have "entriesOk (journal m) (entries req)" using assms(1) entriesOk_cluster by (metis requestOk_def)
  moreover have "journalInv api (journal m)" using assms(2) by (simp add: node_safe_def nodeInv_def)
  moreover have "rollbackSafe api (journal m) i = rollbackSafe api (journal n) i" for i
    using assms(3,4) by (simp only: rollbackSafe_def sameMembership_def)
  ultimately show ?thesis using assms(1,3) unfolding requestOk_def by simp
qed

lemma appendEntries_ok:
  assumes inv: "nodeInv api n" and req: "int64 (ae_term req)" "okServer (ae_leader req)"
    and ok: "requestOk api req (journal n)"
    and run: "appendEntries api now applied req n hb = Some (ans, n', hb')"
  shows "node_safe api n n' \<and> leader_kept n n' \<and> aer_term ans = n_term n' \<and> aer_logSize ans = logSize (journal n')
    \<and> (aer_outcome ans \<longrightarrow> n_term n' = ae_term req \<and> n_leader n' = ae_leader req \<and> acknowledged api req (journal n) (journal n'))"
proof -
  let ?h = "\<lparr>hb_term = ae_term req, hb_leader = ae_leader req\<rparr>"
  from run obtain a m hb1 where h: "heartbeat api now ?h n hb = Some (a, m, hb1)"
    by (auto simp: appendEntries_def Option.bind_eq_Some_conv)
  from heartbeat_ok [OF inv _ _ h] req
  have m: "node_safe api n m" "leader_kept n m" "commitIndex (journal m) = commitIndex (journal n)" "hbr_term a = n_term m"
    "nodeRecognizedAsLeader a \<longrightarrow> n_term m = ae_term req \<and> n_leader m = ae_leader req"
    "sameMembership api (journal n) (journal m)"
    by simp_all
  have ok: "requestOk api req (journal m)"
    using ok m(1,3,6) by (rule requestOk_same)
  show ?thesis
  proof (cases "nodeRecognizedAsLeader a")
    case False
    with run h have "n' = m" "aer_term ans = hbr_term a" "aer_logSize ans = logSize (journal m)" "\<not> aer_outcome ans"
      by (auto simp: appendEntries_def)
    with m show ?thesis by simp
  next
    case True
    with run h obtain j where j: "applyEntries api applied (n_term m) req (journal m) = Some (ans, j)" "n' = m\<lparr>journal := j\<rparr>"
      by (auto simp: appendEntries_def Option.bind_eq_Some_conv)
    from applyEntries_ok [OF ok j(1)]
    have a: "journal_safe api (journal m) j" "currentTerm j = currentTerm (journal m)" "votedFor j = votedFor (journal m)"
      "aer_term ans = n_term m" "aer_logSize ans = logSize j" "aer_outcome ans \<longrightarrow> acknowledged api req (journal m) j"
      by simp_all
    have invm: "nodeInv api m" using m(1) by (simp add: node_safe_def)
    have "node_safe api m n'" using j(2) a(1-3) nodeInvD [OF invm] by (auto simp: node_safe_def nodeInv_def journal_safe_def)
    moreover have "leader_kept n n'" using m(2) j(2) by (simp add: leader_kept_def)
    ultimately show ?thesis
      using node_safe_trans [OF m(1)] j(2) a m True by (simp add: acknowledged_def)
  qed
qed

subsection \<open>Granting votes\<close>

text \<open>The candidate's log is at least as up to date as the journal: a larger last term, or the same and not shorter.\<close>

definition candidateUpToDate :: "vote_request \<Rightarrow> 'db raft_journal \<Rightarrow> bool" where
  "candidateUpToDate req j \<longleftrightarrow>
     termOfLastEntry j < lastTerm req \<or> termOfLastEntry j = lastTerm req \<and> logSize j - 1 \<le> lastIndex req"

lemma last_entry:
  assumes "journalInv api j"
  obtains e where "fetch api j (logSize j - 1) = Some (Some e)" "entryTerm e = termOfLastEntry j"
proof -
  have b: "logStart j \<le> logSize j - 1" using journalInvD(3) [OF assms] by (auto simp: bounds_def)
  obtain e where "fetch api j (logSize j - 1) = Some (Some e)" "entryAt api j (logSize j - 1) = Some e"
    by (rule log_entry [OF assms b]) auto
  with journalInvD(6) [OF assms] that show thesis by (auto simp: lastTermOk_def entryAt_def)
qed

lemma moreUpToDate_ok:
  "journalInv api j \<Longrightarrow> moreUpToDate api req j = Some (if candidateUpToDate req j then None else Some REFUSED)"
  by (rule last_entry) (auto simp: moreUpToDate_def candidateUpToDate_def)

text \<open>
  A veto: were the candidate to lead, its log and leadership marker would contradict a committed
  entry of this journal.
\<close>

definition contradictsCommitted :: "('db, 'wb) rocksdb \<Rightarrow> vote_request \<Rightarrow> 'db raft_journal \<Rightarrow> bool" where
  "contradictsCommitted api req j \<longleftrightarrow>
     lastIndex req < commitIndex j
     \<or> lastIndex req = commitIndex j \<and> (\<forall>e. entryAt api j (lastIndex req) = Some e \<longrightarrow> entryTerm e \<noteq> lastTerm req)"

lemma vetoCheck_ok:
  assumes "journalInv api j"
  shows "vetoCheck api req j = Some (if contradictsCommitted api req j then Some VETO else None)"
proof (cases "logStart j \<le> lastIndex req \<and> lastIndex req \<le> commitIndex j")
  case False
  moreover have "logStart j \<le> commitIndex j" using journalInvD(3) [OF assms] by (simp add: bounds_def)
  ultimately show ?thesis by (auto simp: vetoCheck_def contradictsCommitted_def)
next
  case True
  then have "lastIndex req < logSize j" using journalInvD(3) [OF assms] by (auto simp: bounds_def)
  with True obtain e where e: "entryAt api j (lastIndex req) = Some e" "fetch api j (lastIndex req) = Some (Some e)"
    using log_entry [OF assms, of "lastIndex req"] by metis
  with True show ?thesis by (auto simp: vetoCheck_def contradictsCommitted_def)
qed

text \<open>
  The cases of a vote: \<open>m\<close> is the node after it has observed the term of the candidate.
\<close>

lemma requestVote_cases:
  assumes inv: "nodeInv api n" and req: "int64 (vr_term req)" "okServer (candidate req)"
    and run: "requestVote api now req preVote n hb = Some (ans, n', hb')"
  shows "\<exists>m. node_safe api n m \<and> leader_kept n m \<and> (preVote \<longrightarrow> m = n)
    \<and> (\<forall>i. entryAt api (journal m) i = entryAt api (journal n) i)
    \<and> node_safe api m n' \<and> leader_kept m n' \<and> (preVote \<longrightarrow> n' = n)
    \<and> (vresp_vote ans = GRANTED \<longrightarrow> candidateUpToDate req (journal m) \<and> \<not> contradictsCommitted api req (journal m)
         \<and> (\<not> preVote \<longrightarrow> n_term n' = vr_term req \<and> n_votedFor n' = candidate req \<and> vresp_term ans = vr_term req))
    \<and> (vresp_vote ans = VETO \<longrightarrow> contradictsCommitted api req (journal m)
         \<or> candidate req \<notin> set (nodes (members (journal n))) \<and> \<not> serverEmpty (n_leader n))"
proof -
  have me: "candidate req \<noteq> myself n" using run by (auto simp: requestVote_def assert_that_def split: if_splits)
  show ?thesis
  proof (cases "candidate req \<notin> set (nodes (members (journal n))) \<and> \<not> serverEmpty (n_leader n)")
    case True
    with run me have "ans = \<lparr>vresp_term = n_term n, vresp_vote = VETO\<rparr>" "n' = n" by (auto simp: requestVote_def)
    with True inv show ?thesis by (intro exI [of _ n]) (simp add: node_safe_refl leader_kept_def)
  next
    case outsider: False
    have "\<exists>m. (if \<not> preVote then map_option snd (observed api (vr_term req) noServer n) else Some n) = Some m
      \<and> node_safe api n m \<and> leader_kept n m \<and> (preVote \<longrightarrow> m = n) \<and> (\<forall>i. entryAt api (journal m) i = entryAt api (journal n) i)"
    proof (cases preVote)
      case True
      with inv show ?thesis by (simp add: node_safe_refl leader_kept_def)
    next
      case False
      with observed_ok [OF inv req(1), of noServer] show ?thesis by auto
    qed
    then obtain m where m: "(if \<not> preVote then map_option snd (observed api (vr_term req) noServer n) else Some n) = Some m"
        "node_safe api n m" "leader_kept n m" "preVote \<longrightarrow> m = n" "\<forall>i. entryAt api (journal m) i = entryAt api (journal n) i"
      by blast
    have invm: "nodeInv api m" using m(2) by (simp add: node_safe_def)
    note J = nodeInvD(1) [OF invm]
    have keep: "node_safe api m m" "leader_kept m m" using invm by (simp_all add: node_safe_refl leader_kept_def)
    obtain b k where g: "grantVote api (vr_term req) (candidate req) m = Some (b, k)" "node_safe api m k" "leader_kept m k"
        "b \<longrightarrow> n_votedFor k = candidate req \<and> n_term k = vr_term req" "\<not> b \<longrightarrow> k = m"
      using grantVote_ok [OF invm req(2), of "vr_term req"] by (metis (full_types))
    have r: "n' = m \<and> vresp_vote ans = VETO \<and> contradictsCommitted api req (journal m)
       \<or> n' = m \<and> vresp_vote ans = REFUSED
       \<or> preVote \<and> n' = m \<and> vresp_vote ans = GRANTED \<and> candidateUpToDate req (journal m) \<and> \<not> contradictsCommitted api req (journal m)
       \<or> \<not> preVote \<and> n' = k \<and> \<not> b \<and> vresp_vote ans = REFUSED
       \<or> \<not> preVote \<and> n' = k \<and> b \<and> vresp_vote ans = GRANTED \<and> candidateUpToDate req (journal m)
          \<and> \<not> contradictsCommitted api req (journal m) \<and> vresp_term ans = n_term m \<and> n_term m = vr_term req"
      using run me outsider m(1) g(1) vetoCheck_ok [OF J, of req] moreUpToDate_ok [OF J, of req]
      by (auto simp: requestVote_def assert_that_def Let_def split: if_splits)
    then show ?thesis
      using m(2-) g keep outsider by (intro exI [of _ m]) auto
  qed
qed

subsection \<open>The handlers are runs of the node\<close>

lemma appendAll_run:
  assumes "journalInv api j" "entriesOk j es" "int64 (logSize j + int (length es))"
    and "appendAll api (logSize j) es j = Some (ok, j')"
  shows "(journal_step api)\<^sup>*\<^sup>* j j'"
  using assms
proof (induction es arbitrary: j)
  case (Cons e es)
  have e: "okLogEntry e" "memberEntryOk j e" "entriesOk j es" using Cons.prems(2) by (auto simp: entriesOk_def)
  have sz: "int64 (logSize j + 1)"
    using Cons.prems(3) journalInvD(3) [OF Cons.prems(1)] by (auto simp: int64_def bounds_def)
  obtain ok1 j1 where j1: "j_append api (logSize j) e False j = Some (ok1, j1)" "if ok1 then appended api e j j1 else j1 = j"
    using append_total [OF Cons.prems(1) e(1,2) sz, of False] by blast
  have step: "journal_step api j j1" by (rule journal_step.step_append [OF j1(1) e(1,2) sz])
  show ?case
  proof (cases ok1)
    case False
    with Cons.prems(4) j1(1) step show ?thesis by auto
  next
    case True
    then have a: "journalInv api j1" "logSize j1 = logSize j + 1" "clusterID j1 = clusterID j"
      using j1(2) by (simp_all add: appended_def)
    have "(journal_step api)\<^sup>*\<^sup>* j1 j'"
      using Cons.IH [OF a(1)] e(3) entriesOk_cluster [OF a(3)] Cons.prems(3,4) j1(1) True a(2)
      by (simp add: add.assoc)
    with step show ?thesis by (rule converse_rtranclp_into_rtranclp)
  qed
qed simp

lemma replaceInconsistent_run:
  assumes inv: "journalInv api j" and es: "entriesOk j es" "int64 (start + int (length es))"
    and i: "start \<le> i" "i \<le> logSize j" and roll: "\<forall>i > commitIndex j. rollbackSafe api j i"
    and run: "replaceInconsistent api applied start es i j = Some (ok, j')"
  shows "(journal_step api)\<^sup>*\<^sup>* j j'"
proof (cases "i - start < int (length es)")
  case False
  with run show ?thesis by (simp add: replaceInconsistent_def)
next
  case True
  let ?d = "nat (i - start)"
  have c: "commitIndex j < i" using run True by (auto simp: replaceInconsistent_def assert_that_def split: if_splits)
  from removeEntries_cut [OF inv c i(2)] roll c obtain b j1 where
    j1: "removeEntries api i j = Some (b, j1)" "journal_safe api j j1" "logSize j1 = i" "clusterID j1 = clusterID j"
    by blast
  have "journal_step api j j1" using j1(1) roll c by (blast intro: journal_step.step_remove)
  moreover have "(journal_step api)\<^sup>*\<^sup>* j1 j'"
  proof (rule appendAll_run)
    show "journalInv api j1" using j1(2) by (simp add: journal_safe_def)
    show "entriesOk j1 (drop ?d es)" using es(1) j1(4) entriesOk_cluster entriesOk_drop by metis
    show "int64 (logSize j1 + int (length (drop ?d es)))" using es(2) True i(1) j1(3) by (simp add: of_nat_diff add.commute)
    show "appendAll api (logSize j1) (drop ?d es) j1 = Some (ok, j')"
      using run True j1(1,3) by (auto simp: replaceInconsistent_def assert_that_def split: if_splits)
  qed
  ultimately show ?thesis by (rule converse_rtranclp_into_rtranclp)
qed

lemma applyEntries_run:
  assumes req: "requestOk api req j" and run: "applyEntries api applied t req j = Some (ans, j')"
  shows "(journal_step api)\<^sup>*\<^sup>* j j'"
proof -
  have inv: "journalInv api j" and es: "entriesOk j (entries req)"
    and i64: "int64 (prevIndex req + 1 + int (length (entries req)))" and roll: "\<forall>i > commitIndex j. rollbackSafe api j i"
    using req by (auto simp: requestOk_def)
  from run obtain ms where ms: "matchEntries api j (prevIndex req) (prevTerm req) = Some ms"
    by (auto simp: applyEntries_def Option.bind_eq_Some_conv)
  show ?thesis
  proof (cases ms)
    case False
    with run ms show ?thesis by (auto simp: applyEntries_def)
  next
    case True
    with ms have m: "matchEntries api j (prevIndex req) (prevTerm req) = Some True" by simp
    note match = requestOk_match [OF req m]
    from compareEntries_first [OF inv _ _ i64] match(1,2) obtain i where
      i: "compareEntries api j (prevIndex req + 1) (entries req) = Some i" "prevIndex req + 1 \<le> i" "i \<le> logSize j"
      by (auto simp: firstDifference_def)
    from run m i(1) obtain ok j1 where r: "replaceInconsistent api applied (prevIndex req + 1) (entries req) i j = Some (ok, j1)"
      by (auto simp: applyEntries_def Option.bind_eq_Some_conv)
    have "(journal_step api)\<^sup>*\<^sup>* j j1" by (rule replaceInconsistent_run [OF inv es i64 i(2,3) roll r])
    moreover have "j' = j1 \<or> journal_step api j1 j'"
      using run m i(1) r by (auto simp: applyEntries_def Option.bind_eq_Some_conv split: if_splits intro: journal_step.step_commit)
    ultimately show ?thesis by (auto intro: rtranclp.rtrancl_into_rtrancl)
  qed
qed

lemma heartbeat_run:
  assumes "int64 (hb_term req)" "okServer (hb_leader req)" "heartbeat api now req n hb = Some (ans, n', hb')"
  shows "node_step api n n'"
proof -
  from assms(3) obtain b where "observed api (hb_term req) (hb_leader req) n = Some (b, n')"
    by (auto simp: heartbeat_def Option.bind_eq_Some_conv split: if_splits)
  then show ?thesis by (rule node_step.observe [OF _ assms(1) okVote_simps(2) [OF assms(2)]])
qed

lemma appendEntries_run:
  assumes inv: "nodeInv api n" and req: "int64 (ae_term req)" "okServer (ae_leader req)" and ok: "requestOk api req (journal n)"
    and run: "appendEntries api now applied req n hb = Some (ans, n', hb')"
  shows "(node_step api)\<^sup>*\<^sup>* n n'"
proof -
  let ?h = "\<lparr>hb_term = ae_term req, hb_leader = ae_leader req\<rparr>"
  from run obtain a m hb1 where h: "heartbeat api now ?h n hb = Some (a, m, hb1)"
    by (auto simp: appendEntries_def Option.bind_eq_Some_conv)
  have s: "node_step api n m" using heartbeat_run [OF _ _ h] req by simp
  show ?thesis
  proof (cases "nodeRecognizedAsLeader a")
    case False
    with run h s show ?thesis by (auto simp: appendEntries_def)
  next
    case True
    with run h obtain j where j: "applyEntries api applied (n_term m) req (journal m) = Some (ans, j)" "n' = m\<lparr>journal := j\<rparr>"
      by (auto simp: appendEntries_def Option.bind_eq_Some_conv)
    from heartbeat_ok [OF inv _ _ h] req
    have m: "node_safe api n m" "commitIndex (journal m) = commitIndex (journal n)" "sameMembership api (journal n) (journal m)"
      by simp_all
    note ok' = requestOk_same [OF ok m]
    from applyEntries_ok [OF ok' j(1)] have "currentTerm j = currentTerm (journal m)" "votedFor j = votedFor (journal m)" by simp_all
    then have "node_step api m n'" unfolding j(2) by (rule node_step.log [OF applyEntries_run [OF ok' j(1)]])
    with s show ?thesis by auto
  qed
qed

lemma requestVote_run:
  assumes req: "int64 (vr_term req)" "okServer (candidate req)"
    and run: "requestVote api now req preVote n hb = Some (ans, n', hb')"
  shows "(node_step api)\<^sup>*\<^sup>* n n'"
proof (cases "n' = n")
  case False
  with run obtain m where m: "(if \<not> preVote then map_option snd (observed api (vr_term req) noServer n) else Some n) = Some m"
    by (auto simp: requestVote_def Option.bind_eq_Some_conv split: if_splits)
  have s: "(node_step api)\<^sup>*\<^sup>* n m"
  proof (cases preVote)
    case False
    with m obtain b where "observed api (vr_term req) noServer n = Some (b, m)" by auto
    then have "node_step api n m" by (rule node_step.observe [OF _ req(1) okVote_simps(1)])
    then show ?thesis by blast
  qed (use m in simp)
  have "n' = m \<or> (\<exists>b. grantVote api (vr_term req) (candidate req) m = Some (b, n'))"
    using run m False
    by (auto simp: requestVote_def Option.bind_eq_Some_conv Let_def split: if_splits option.splits)
  then have "n' = m \<or> node_step api m n'" using req(2) by (auto intro: node_step.grant)
  with s show ?thesis by (auto intro: rtranclp.rtrancl_into_rtrancl)
qed simp

text \<open>The answer to a vote request does not depend on when the node last heard from a leader.\<close>

lemma vote_ignores_heartbeats_ok:
  "map_option fst (requestVote api now req preVote n hb) = map_option fst (requestVote api now' req preVote n hb2)"
  unfolding requestVote_def
  by (auto simp: map_option_bind Let_def comp_def split: option.splits intro!: Option.bind_cong)

end
