(* ===== verification/RaftElections.thy ===== *)
theory RaftElections
  imports RaftHandlers
begin

text \<open>
  Elections: the rounds of \<open>RaftElection\<close> (\<^verbatim>\<open>src/src/raft/RaftUtils.cc\<close>), the observation of the
  answers (\<^verbatim>\<open>src/src/raft/RaftVoteRegistry.cc\<close>) and the decisions of the director thread
  (\<^verbatim>\<open>src/src/raft/RaftDirector.cc\<close>).  What the other nodes reply is an argument: \<open>replies s\<close> is the
  reply of \<open>s\<close>, \<open>None\<close> if there was none in time.  While a round waits for replies the node may take
  other steps, so a round is an opening and a closing part; the theorems are about a closing part
  that starts in any state.
\<close>

subsection \<open>Rounds\<close>

fun registerReplies ::
  "(raft_server \<Rightarrow> redis_reply option) \<Rightarrow> raft_server list \<Rightarrow> vote_registry \<Rightarrow> vote_registry option" where
  "registerReplies replies [] reg = Some reg"
| "registerReplies replies (s # ss) reg = do {
     reg \<leftarrow> registerVoteReply s (replies s) reg;
     registerReplies replies ss reg }"

text \<open>The keys of the map of futures.\<close>

definition voters :: "raft_server \<Rightarrow> raft_server list \<Rightarrow> raft_server list" where
  "voters me ns = remdups (filter (\<lambda>s. s \<noteq> me) ns)"

definition performPreVote ::
  "(raft_server \<Rightarrow> redis_reply option) \<Rightarrow> vote_request \<Rightarrow> 'db raft_node \<Rightarrow> ElectionOutcome option" where
  "performPreVote replies votereq n = do {
     assert_that (serverEmpty (candidate votereq));
     reg \<leftarrow> registerReplies replies (voters (myself n) (nodes (members (journal n)))) (newRegistry (vr_term votereq) True);
     Some (determineOutcome reg) }"

fun observeTermsAndLeases ::
  "('db, 'wb) rocksdb \<Rightarrow> int \<Rightarrow> (raft_server \<times> single_vote) list \<Rightarrow> 'db raft_node \<Rightarrow> raft_lease
    \<Rightarrow> ('db raft_node \<times> raft_lease) option" where
  "observeTermsAndLeases api broadcast [] n l = Some (n, l)"
| "observeTermsAndLeases api broadcast ((s, sv) # rest) n l =
     (if netError sv \<or> parseError sv then observeTermsAndLeases api broadcast rest n l
      else do {
        (_, n) \<leftarrow> observed api (vresp_term (resp sv)) noServer n;
        observeTermsAndLeases api broadcast rest n
          (if vresp_vote (resp sv) = GRANTED then lease_heartbeat s broadcast (lease_getHandler s l) else l) })"

definition electionOpen :: "vote_request \<Rightarrow> 'db raft_node \<Rightarrow> bool option" where
  "electionOpen votereq n = do {
     assert_that (serverEmpty (candidate votereq));
     Some (vr_term votereq = n_term n \<and> serverEmpty (n_leader n) \<and> n_status n = CANDIDATE) }"

definition electionClose ::
  "('db, 'wb) rocksdb \<Rightarrow> int \<Rightarrow> int \<Rightarrow> vote_registry \<Rightarrow> 'db raft_node \<Rightarrow> raft_lease
    \<Rightarrow> (ElectionOutcome \<times> 'db raft_node \<times> raft_lease) option" where
  "electionClose api broadcast trm reg n l = do {
     assert_that (\<not> vr_preVote reg);
     (n, l) \<leftarrow> observeTermsAndLeases api broadcast (vr_contents reg) n l;
     if determineOutcome reg = kElected then do {
       (ok, n) \<leftarrow> ascend api trm n;
       Some (if ok then kElected else kNotElected, n, l) }
     else Some (determineOutcome reg, n, l) }"

text \<open>\<open>moved\<close> is what other threads do to the node while the replies are awaited.\<close>

definition performElection ::
  "('db, 'wb) rocksdb \<Rightarrow> int \<Rightarrow> (raft_server \<Rightarrow> redis_reply option) \<Rightarrow> ('db raft_node \<Rightarrow> 'db raft_node) \<Rightarrow> vote_request \<Rightarrow> 'db raft_node \<Rightarrow> raft_lease
    \<Rightarrow> (ElectionOutcome \<times> 'db raft_node \<times> raft_lease) option" where
  "performElection api broadcast replies moved votereq n l = do {
     go \<leftarrow> electionOpen votereq n;
     if \<not> go then Some (kNotElected, n, l)
     else do {
       reg \<leftarrow> registerReplies replies (voters (myself n) (nodes (members (journal n)))) (newRegistry (vr_term votereq) False);
       electionClose api broadcast (vr_term votereq) reg (moved n) l } }"

subsection \<open>The director\<close>

definition checkBasicSanity :: "int \<Rightarrow> 'db raft_journal \<Rightarrow> bool" where
  "checkBasicSanity applied j \<longleftrightarrow> \<not> logSize j < commitIndex j \<and> \<not> commitIndex j < applied"

text \<open>
  \<open>lastHeartbeatBeforeVeto\<close> is the fourth component of the state.  The result is the state after
  the attempt; \<open>preMoved\<close> and \<open>moved\<close> are what other threads do to the node while the two rounds
  wait for replies.
\<close>

definition runForLeader ::
  "('db, 'wb) rocksdb \<Rightarrow> int \<Rightarrow> int \<Rightarrow> (raft_server \<Rightarrow> redis_reply option) \<Rightarrow> (raft_server \<Rightarrow> redis_reply option)
    \<Rightarrow> ('db raft_node \<Rightarrow> 'db raft_node) \<Rightarrow> ('db raft_node \<Rightarrow> 'db raft_node) \<Rightarrow> bool \<Rightarrow> 'db raft_node \<Rightarrow> heartbeat_tracker \<Rightarrow> raft_lease \<Rightarrow> int
    \<Rightarrow> ('db raft_node \<times> raft_lease \<times> int) option" where
  "runForLeader api applied broadcast preReplies replies preMoved moved preVote n hb l lastBeforeVeto =
     (if \<not> checkBasicSanity applied (journal n) then Some (n, l, lastBeforeVeto)
      else do {
        let beat = lastHeartbeat hb;
        let newTerm = n_term n + 1;
        e \<leftarrow> fetch api (journal n) (logSize (journal n) - 1);
        (case e of None \<Rightarrow> Some (n, l, lastBeforeVeto)
         | Some e \<Rightarrow> do {
             let votereq = \<lparr>vr_term = newTerm, candidate = noServer, lastIndex = logSize (journal n) - 1, lastTerm = entryTerm e\<rparr>;
             pre \<leftarrow> (if preVote then performPreVote preReplies votereq n else Some kElected);
             let lastBeforeVeto = (if pre = kVetoed then beat else lastBeforeVeto);
             let sn = getSnapshot n;
             let n = (if preVote then preMoved n else n);
             if pre \<noteq> kElected then Some (n, l, lastBeforeVeto)
             else if preVote \<and> \<not> isSnapshotCurrent sn n then Some (n, l, lastBeforeVeto)
             else do {
               (ok, n) \<leftarrow> observed api newTerm noServer n;
               if \<not> ok then Some (n, l, lastBeforeVeto)
               else do {
                 (ok, n) \<leftarrow> becomeCandidate api newTerm n;
                 if \<not> ok then Some (n, l, lastBeforeVeto)
                 else do {
                   (outcome, n, l) \<leftarrow> performElection api broadcast replies moved votereq n l;
                   let n = (if outcome \<noteq> kElected then snd (dropOut newTerm n) else n);
                   Some (n, l, if outcome = kVetoed then beat else lastBeforeVeto) } } } }) })"

text \<open>What the follower thread does each time it wakes up.\<close>

datatype follower_action = keepWaiting | startElection bool

definition followerWakeup ::
  "int \<Rightarrow> int \<Rightarrow> 'db raft_node \<Rightarrow> heartbeat_tracker \<Rightarrow> follower_action \<times> heartbeat_tracker" where
  "followerWakeup now lastBeforeVeto n hb =
     (if lastHeartbeat hb = lastBeforeVeto then (keepWaiting, hb)
      else case hb_timeout now hb of (status, hb) \<Rightarrow>
        (if status = kYes \<or> status = kArtificial then
           (if members (journal n) = limboMembers then (keepWaiting, hb)
            else if myself n \<in> set (nodes (members (journal n))) then (startElection (status = kYes), hb)
            else (keepWaiting, hb))
         else (keepWaiting, hb)))"

text \<open>One round of the leader thread: \<open>True\<close> if it stays leader.\<close>

definition leaderRound ::
  "('db, 'wb) rocksdb \<Rightarrow> int \<Rightarrow> int \<Rightarrow> int \<Rightarrow> 'db raft_node \<Rightarrow> raft_lease \<Rightarrow> (bool \<times> 'db raft_node) option" where
  "leaderRound api now applied snapshotTerm n l = do {
     assert_that (checkBasicSanity applied (journal n));
     deadline \<leftarrow> getDeadline now l;
     if deadline < now then do {
       (_, n) \<leftarrow> observed api (snapshotTerm + 1) noServer n;
       Some (False, n) }
     else Some (True, n) }"

subsection \<open>What the registry holds\<close>

lemma registerVoteReply_ok:
  assumes "registryInv reg" "s \<notin> set (contacted reg)"
  shows "\<exists>reg'. registerVoteReply s reply reg = Some reg' \<and> registryInv reg'
    \<and> set (contacted reg') = insert s (set (contacted reg)) \<and> vr_preVote reg' = vr_preVote reg"
proof -
  have "\<exists>reg'. addVote s sv reg = Some reg'" for sv using addVote_ok(1) [OF assms(1), of s sv] assms(2) by auto
  then have "\<exists>reg'. registerVoteReply s reply reg = Some reg'"
    by (simp add: registerVoteReply_def registerVote_def registerNetworkError_def registerParseError_def split: option.split)
  then obtain reg' where r: "registerVoteReply s reply reg = Some reg'" by blast
  obtain sv where "addVote s sv reg = Some reg'" using registerVoteReply_cases [OF r] by blast
  from addVote_ok(2) [OF assms(1) this] r show ?thesis by blast
qed

definition repliedWith :: "(raft_server \<Rightarrow> redis_reply option) \<Rightarrow> RaftVote \<Rightarrow> raft_server \<Rightarrow> bool" where
  "repliedWith replies v s \<longleftrightarrow> (\<exists>r. parseVoteResponse (replies s) = Some r \<and> vresp_vote r = v)"

lemma registerReplies_ok:
  assumes "registryInv reg" "distinct ss" "set ss \<inter> set (contacted reg) = {}"
  shows "\<exists>reg'. registerReplies replies ss reg = Some reg' \<and> registryInv reg' \<and> vr_preVote reg' = vr_preVote reg
    \<and> set (contacted reg') = set ss \<union> set (contacted reg)
    \<and> (\<forall>v. answered v reg' = answered v reg \<union> {s \<in> set ss. repliedWith replies v s})"
  using assms
proof (induction ss arbitrary: reg)
  case (Cons s ss)
  have "s \<notin> set (contacted reg)" using Cons.prems(3) by auto
  from registerVoteReply_ok [OF Cons.prems(1) this, of "replies s"]
  obtain reg1 where r1: "registerVoteReply s (replies s) reg = Some reg1" "registryInv reg1"
      "set (contacted reg1) = insert s (set (contacted reg))" "vr_preVote reg1 = vr_preVote reg"
    by blast
  have "set ss \<inter> set (contacted reg1) = {}" using Cons.prems r1(3) by auto
  with Cons.IH [OF r1(2)] Cons.prems(2) obtain reg' where r': "registerReplies replies ss reg1 = Some reg'" "registryInv reg'"
      "vr_preVote reg' = vr_preVote reg1" "set (contacted reg') = set ss \<union> set (contacted reg1)"
      "\<forall>v. answered v reg' = answered v reg1 \<union> {s \<in> set ss. repliedWith replies v s}"
    by auto
  have "answered v reg' = answered v reg \<union> {t \<in> set (s # ss). repliedWith replies v t}" for v
    using r'(5) registerVoteReply_answered [OF r1(1), of v] by (auto simp: repliedWith_def)
  with r1 r' show ?case by (intro exI [of _ reg']) auto
qed simp

lemma newRegistry_simps [simp]:
  "registryInv (newRegistry t p)" "contacted (newRegistry t p) = []" "answered v (newRegistry t p) = {}"
  "vr_preVote (newRegistry t p) = p"
  by (simp_all add: newRegistry_def registryInv_def contacted_def answered_def)

lemma voters_simps [simp]: "distinct (voters me ns)" "set (voters me ns) = set ns - {me}"
  by (auto simp: voters_def)

subsection \<open>A round is a run of the node\<close>

lemma lease_getHandler_inv: "quorumLeaseInv l \<Longrightarrow> quorumLeaseInv (lease_getHandler s l)"
  by (auto simp: quorumLeaseInv_def lease_getHandler_def)

lemma observeTermsAndLeases_run:
  assumes "nodeInv api n" "\<forall>(s, sv) \<in> set votes. int64 (vresp_term (resp sv))"
  shows "\<exists>n' l'. observeTermsAndLeases api tp votes n l = Some (n', l') \<and> (node_step api)\<^sup>*\<^sup>* n n' \<and> node_safe api n n'
    \<and> logSize (journal n') = logSize (journal n) \<and> (quorumLeaseInv l \<longrightarrow> quorumLeaseInv l')"
  using assms
proof (induction votes arbitrary: n l)
  case (Cons x votes)
  obtain s sv where x: "x = (s, sv)" by (cases x)
  show ?case
  proof (cases "netError sv \<or> parseError sv")
    case True
    with Cons x show ?thesis by simp
  next
    case False
    let ?l = "if vresp_vote (resp sv) = GRANTED then lease_heartbeat s tp (lease_getHandler s l) else l"
    have t: "int64 (vresp_term (resp sv))" using Cons.prems(2) x by simp
    from observed_ok [OF Cons.prems(1) t okVote_simps(1)] obtain b m where
      m: "observed api (vresp_term (resp sv)) noServer n = Some (b, m)" "node_safe api n m" "logSize (journal m) = logSize (journal n)"
      by blast
    have inv: "nodeInv api m" using m(2) by (simp add: node_safe_def)
    have step: "node_step api n m" by (rule node_step.observe [OF m(1) t okVote_simps(1)])
    have l: "quorumLeaseInv l \<longrightarrow> quorumLeaseInv ?l"
      by (simp add: lease_heartbeat_inv lease_getHandler_inv)
    from Cons.IH [OF inv, of ?l] Cons.prems(2) obtain n' l' where
      n': "observeTermsAndLeases api tp votes m ?l = Some (n', l')" "(node_step api)\<^sup>*\<^sup>* m n'" "node_safe api m n'"
        "logSize (journal n') = logSize (journal m)" "quorumLeaseInv ?l \<longrightarrow> quorumLeaseInv l'"
      by auto
    have "observeTermsAndLeases api tp (x # votes) n l = Some (n', l')" using False m(1) n'(1) x by simp
    moreover have "(node_step api)\<^sup>*\<^sup>* n n'" using step n'(2) by (rule converse_rtranclp_into_rtranclp)
    ultimately show ?thesis using n'(3-5) m(2,3) l node_safe_trans by (intro exI [of _ n'] exI [of _ l']) auto
  qed
qed (simp add: node_safe_refl)

text \<open>Ascending succeeds only in the term of the election, for a candidate that voted for itself.\<close>

lemma ascend_facts:
  assumes "ascend api t n = Some (True, n')"
  shows "n_status n' = LEADER" "n_term n' = t" "n_votedFor n' = myself n" "n_leader n' = myself n" "myself n' = myself n"
    "n_status n = CANDIDATE" "n_term n = t"
  using assms by (auto simp: ascend_def Option.bind_eq_Some_conv Let_def split: if_splits)

definition markerFits :: "int \<Rightarrow> 'db raft_node \<Rightarrow> bool" where
  "markerFits t n \<longleftrightarrow> okLogEntry (leadershipMarkerEntry t (myself n)) \<and> int64 (logSize (journal n) + 1)"

definition registryTerms :: "vote_registry \<Rightarrow> bool" where
  "registryTerms reg \<longleftrightarrow> (\<forall>(s, sv) \<in> set (vr_contents reg). int64 (vresp_term (resp sv)))"

lemma electionClose_run:
  assumes inv: "nodeInv api n" and reg: "\<not> vr_preVote reg" "registryTerms reg" and fits: "markerFits t n"
  shows "\<exists>outcome n' l'. electionClose api tp t reg n l = Some (outcome, n', l') \<and> (node_step api)\<^sup>*\<^sup>* n n'
    \<and> (outcome = kElected \<longrightarrow> determineOutcome reg = kElected \<and> n_status n' = LEADER \<and> n_term n' = t
         \<and> n_votedFor n' = myself n \<and> n_leader n' = myself n)"
proof -
  from observeTermsAndLeases_run [OF inv] reg(2) obtain m l' where
    m: "observeTermsAndLeases api tp (vr_contents reg) n l = Some (m, l')" "(node_step api)\<^sup>*\<^sup>* n m" "node_safe api n m"
      "logSize (journal m) = logSize (journal n)"
    unfolding registryTerms_def by blast
  have invm: "nodeInv api m" "myself m = myself n" using m(3) by (simp_all add: node_safe_def)
  show ?thesis
  proof (cases "determineOutcome reg = kElected")
    case False
    with reg(1) m(1) have "electionClose api tp t reg n l = Some (determineOutcome reg, m, l')" by (simp add: electionClose_def)
    with m(2) False show ?thesis by (intro exI [of _ "determineOutcome reg"] exI [of _ m] exI [of _ l']) simp
  next
    case True
    have "\<exists>ok n'. ascend api t m = Some (ok, n') \<and> (node_step api)\<^sup>*\<^sup>* n n'"
    proof (cases "n_term m = t")
      case False
      then have "ascend api t m = Some (False, m)" by (simp add: ascend_def)
      with m(2) show ?thesis by blast
    next
      case eq: True
      then have mk: "markerOk m" using fits m(4) invm(2) by (simp add: markerFits_def markerOk_def)
      then obtain ok n' where a: "ascend api t m = Some (ok, n')" using ascend_ok [OF invm(1) mk, of t] by blast
      with m(2) node_step.lead [OF a mk] show ?thesis by (auto intro: rtranclp.rtrancl_into_rtrancl)
    qed
    then obtain ok n' where a: "ascend api t m = Some (ok, n')" "(node_step api)\<^sup>*\<^sup>* n n'" by blast
    have c: "electionClose api tp t reg n l = Some (if ok then kElected else kNotElected, n', l')"
      using reg(1) m(1) True a(1) by (simp add: electionClose_def)
    show ?thesis
    proof (cases ok)
      case ok: True
      with a(1) have e: "ascend api t m = Some (True, n')" by simp
      from c a(2) ok ascend_facts [OF e] invm(2) True show ?thesis
        by (intro exI [of _ kElected] exI [of _ n'] exI [of _ l']) auto
    next
      case False
      with c a(2) show ?thesis by (intro exI [of _ kNotElected] exI [of _ n'] exI [of _ l']) auto
    qed
  qed
qed

end
