(* ===== verification/ElectionSafety.thy ===== *)
theory ElectionSafety
  imports RaftElections
begin

text \<open>
  Whole elections: the vote request handlers of the voters on one side, the rounds of the candidate
  on the other.  A grant in a reply comes from a run of the handler of \<open>RaftDispatcher::requestVote\<close>
  on the voter; from that follows that two winners of a term are the same, and that a candidate
  which a quorum supports does become leader.
\<close>

subsection \<open>Grants are votes\<close>

text \<open>In its life \<open>hist s\<close> the node \<open>s\<close> has handled a vote request of \<open>c\<close> for term \<open>t\<close>, and granted it.\<close>

definition grantedBy ::
  "('db, 'wb) rocksdb \<Rightarrow> (raft_server \<Rightarrow> nat \<Rightarrow> 'db raft_node) \<Rightarrow> raft_server \<Rightarrow> int \<Rightarrow> raft_server \<Rightarrow> bool" where
  "grantedBy api hist s t c \<longleftrightarrow>
     (\<exists>i k now req hb ans hb'. i \<le> k \<and> vr_term req = t \<and> candidate req = c \<and> int64 t \<and> okServer c
       \<and> requestVote api now req False (hist s i) hb = Some (ans, hist s k, hb') \<and> vresp_vote ans = GRANTED)"

text \<open>
  The node \<open>c\<close> has closed an election of term \<open>t\<close> among the nodes \<open>ns\<close> as the winner, and no reply
  is forged: a reply that says \<open>granted\<close> was given by the handler of its sender.
\<close>

definition winsElection ::
  "('db, 'wb) rocksdb \<Rightarrow> (raft_server \<Rightarrow> nat \<Rightarrow> 'db raft_node) \<Rightarrow> raft_server list \<Rightarrow> int \<Rightarrow> raft_server \<Rightarrow> bool" where
  "winsElection api hist ns t c \<longleftrightarrow>
     (\<exists>i k tp replies reg l l'. i \<le> k \<and> myself (hist c i) = c \<and> c \<in> set ns
       \<and> registerReplies replies (voters c ns) (newRegistry t False) = Some reg
       \<and> electionClose api tp t reg (hist c i) l = Some (kElected, hist c k, l')
       \<and> (\<forall>s \<in> set ns - {c}. repliedWith replies GRANTED s \<longrightarrow> grantedBy api hist s t c))"

lemma history_inv: "histories api hist \<Longrightarrow> nodeInv api (hist s i)"
  using history_safe [of api hist i i s] by (simp add: node_safe_def)

lemma grantedBy_voteFor:
  assumes "histories api hist" "grantedBy api hist s t c"
  shows "voteFor hist s t c"
proof -
  from assms(2) obtain i k now req hb ans hb' where
    r: "vr_term req = t" "candidate req = c" "int64 (vr_term req)" "okServer (candidate req)"
      "requestVote api now req False (hist s i) hb = Some (ans, hist s k, hb')" "vresp_vote ans = GRANTED"
    by (auto simp: grantedBy_def)
  from requestVote_cases [OF history_inv [OF assms(1)] r(3-5)] r(6)
  have "n_term (hist s k) = t" "n_votedFor (hist s k) = c" using r(1,2) by auto
  with r(2,4) show ?thesis by (auto simp: voteFor_def)
qed

lemma electionClose_elected:
  assumes "electionClose api tp t reg n l = Some (kElected, n', l')"
  shows "\<not> vr_preVote reg" "determineOutcome reg = kElected" "n_status n' = LEADER" "n_term n' = t" "n_votedFor n' = myself n'"
proof -
  have pre: "\<not> vr_preVote reg" using assms by (auto simp: electionClose_def assert_that_def split: if_splits)
  with assms obtain m lm where m: "observeTermsAndLeases api tp (vr_contents reg) n l = Some (m, lm)"
    by (auto simp: electionClose_def Option.bind_eq_Some_conv)
  have out: "determineOutcome reg = kElected"
    using assms pre m by (auto simp: electionClose_def split: if_splits)
  with assms pre m obtain ok where a: "ascend api t m = Some (ok, n')" "kElected = (if ok then kElected else kNotElected)"
    by (auto simp: electionClose_def Option.bind_eq_Some_conv)
  then have "ascend api t m = Some (True, n')" by (cases ok) auto
  from ascend_facts [OF this] show "n_status n' = LEADER" "n_term n' = t" "n_votedFor n' = myself n'" by simp_all
  show "\<not> vr_preVote reg" "determineOutcome reg = kElected" by (fact pre, fact out)
qed

lemma fresh_replies:
  "\<exists>reg. registerReplies replies (voters c ns) (newRegistry t p) = Some reg \<and> registryInv reg \<and> vr_preVote reg = p
    \<and> set (contacted reg) = set ns - {c} \<and> (\<forall>v. answered v reg = {s \<in> set ns - {c}. repliedWith replies v s})"
  using registerReplies_ok [of "newRegistry t p" "voters c ns" replies] by simp

lemma winsElection_electedBy:
  assumes hist: "histories api hist" and ns: "distinct ns" and win: "winsElection api hist ns t c"
  obtains reg where "electedBy hist ns t c reg"
proof -
  from win obtain i k tp replies reg l l' where
    w: "i \<le> k" "myself (hist c i) = c" "c \<in> set ns"
      "registerReplies replies (voters c ns) (newRegistry t False) = Some reg"
      "electionClose api tp t reg (hist c i) l = Some (kElected, hist c k, l')"
      "\<forall>s \<in> set ns - {c}. repliedWith replies GRANTED s \<longrightarrow> grantedBy api hist s t c"
    by (auto simp: winsElection_def)
  from fresh_replies [of replies c ns t False] w(4) have
    reg: "registryInv reg" "set (contacted reg) = set ns - {c}" "answered GRANTED reg = {s \<in> set ns - {c}. repliedWith replies GRANTED s}"
    by simp_all
  note won = electionClose_elected [OF w(5)]
  have "node_safe api (hist c i) (hist c k)" by (rule history_safe [OF hist w(1)])
  then have me: "myself (hist c k) = c" using w(2) by (simp add: node_safe_def)
  have "okServer c" using nodeInvD(2) [OF history_inv [OF hist, of c k]] me by simp
  with me won have "voteFor hist c t c" by (auto simp: voteFor_def)
  moreover have "voteFor hist s t c" if "s \<in> answered GRANTED reg" for s
    using that w(6) reg(3) grantedBy_voteFor [OF hist] by auto
  ultimately have "electedBy hist ns t c reg" using won reg w(3) ns by (auto simp: electedBy_def)
  then show thesis by (rule that)
qed

subsection \<open>A supported candidate becomes leader\<close>

text \<open>A quorum supports \<open>me\<close>, nobody vetoes, and no reply has a newer term.\<close>

definition supported ::
  "(raft_server \<Rightarrow> redis_reply option) \<Rightarrow> raft_server \<Rightarrow> raft_server list \<Rightarrow> int \<Rightarrow> bool" where
  "supported replies me ns t \<longleftrightarrow>
     isQuorum ns (insert me {s. repliedWith replies GRANTED s})
     \<and> (\<forall>s \<in> set ns - {me}. \<not> repliedWith replies VETO s)
     \<and> (\<forall>s \<in> set ns - {me}. \<forall>r. parseVoteResponse (replies s) = Some r \<longrightarrow> vresp_term r \<le> t)"

lemma registerReplies_terms:
  assumes "registerReplies replies ss reg = Some reg'"
    and "\<forall>s \<in> set ss. \<forall>r. parseVoteResponse (replies s) = Some r \<longrightarrow> vresp_term r \<le> t"
    and "\<forall>(s, sv) \<in> set (vr_contents reg). netError sv \<or> parseError sv \<or> vresp_term (resp sv) \<le> t"
  shows "\<forall>(s, sv) \<in> set (vr_contents reg'). netError sv \<or> parseError sv \<or> vresp_term (resp sv) \<le> t"
  using assms
proof (induction ss arbitrary: reg)
  case (Cons s ss)
  from Cons.prems(1) obtain reg1 where r1: "registerVoteReply s (replies s) reg = Some reg1" "registerReplies replies ss reg1 = Some reg'"
    by (auto simp: Option.bind_eq_Some_conv)
  obtain sv where sv: "addVote s sv reg = Some reg1" "\<not> netError sv \<and> \<not> parseError sv \<longleftrightarrow> parseVoteResponse (replies s) \<noteq> None"
      "\<And>r. parseVoteResponse (replies s) = Some r \<Longrightarrow> resp sv = r"
    using registerVoteReply_cases [OF r1(1)] by blast
  have "netError sv \<or> parseError sv \<or> vresp_term (resp sv) \<le> t" using sv(2,3) Cons.prems(2) by auto
  then have "\<forall>(s, sv) \<in> set (vr_contents reg1). netError sv \<or> parseError sv \<or> vresp_term (resp sv) \<le> t"
    using sv(1) Cons.prems(3) by (auto simp: addVote_def assert_that_def split: if_splits)
  with Cons.IH [OF r1(2)] Cons.prems(2) show ?case by simp
qed simp

lemma observe_current:
  assumes "n_status n = CANDIDATE" "serverEmpty (n_leader n)"
    and "\<forall>(s, sv) \<in> set votes. netError sv \<or> parseError sv \<or> vresp_term (resp sv) \<le> n_term n"
  shows "\<exists>ldr l'. observeTermsAndLeases api tp votes n l = Some (n\<lparr>n_leader := ldr\<rparr>, l') \<and> serverEmpty ldr"
  using assms
proof (induction votes arbitrary: n l)
  case Nil
  then show ?case by (intro exI [of _ "n_leader n"] exI [of _ l]) simp
next
  case (Cons x votes)
  obtain s sv where x: "x = (s, sv)" by (cases x)
  show ?case
  proof (cases "netError sv \<or> parseError sv")
    case True
    with Cons x show ?thesis by simp
  next
    case False
    with Cons.prems(3) x have t: "vresp_term (resp sv) \<le> n_term n" by auto
    then obtain b ldr where o: "observed api (vresp_term (resp sv)) noServer n = Some (b, n\<lparr>n_leader := ldr\<rparr>)" "serverEmpty ldr"
    proof (cases "vresp_term (resp sv) = n_term n")
      case True
      then have "observed api (vresp_term (resp sv)) noServer n = Some (True, n\<lparr>n_leader := noServer\<rparr>)"
        using Cons.prems(1,2) by (simp add: observed_def)
      then show ?thesis by (rule that) simp
    next
      case False
      then have "observed api (vresp_term (resp sv)) noServer n = Some (False, n\<lparr>n_leader := n_leader n\<rparr>)"
        using Cons.prems(1,2) t by (simp add: observed_def)
      then show ?thesis by (rule that) (rule Cons.prems(2))
    qed
    let ?l = "if vresp_vote (resp sv) = GRANTED then lease_heartbeat s tp (lease_getHandler s l) else l"
    from Cons.IH [of "n\<lparr>n_leader := ldr\<rparr>" ?l] Cons.prems o(2)
    obtain ldr' l' where "observeTermsAndLeases api tp votes (n\<lparr>n_leader := ldr\<rparr>) ?l = Some (n\<lparr>n_leader := ldr'\<rparr>, l')" "serverEmpty ldr'"
      by auto
    with o(1) False x show ?thesis by auto
  qed
qed

lemma supported_outcome:
  assumes ns: "distinct ns" "me \<in> set ns" and sup: "supported replies me ns t"
    and reg: "registerReplies replies (voters me ns) (newRegistry t False) = Some reg"
  shows "determineOutcome reg = kElected"
proof -
  from fresh_replies [of replies me ns t False] reg have
    r: "registryInv reg" "\<not> vr_preVote reg" "set (contacted reg) = set ns - {me}" "\<And>v. answered v reg = {s \<in> set ns - {me}. repliedWith replies v s}"
    by auto
  have "distinct (me # contacted reg)" using r by (simp add: registryInv_def contacted_def)
  then have len: "length (me # contacted reg) = length ns"
    using ns r(3) distinct_card [of "me # contacted reg"] distinct_card [of ns] by (simp add: insert_absorb)
  have "insert me (answered GRANTED reg) \<inter> set (me # contacted reg) = insert me {s. repliedWith replies GRANTED s} \<inter> set ns"
    using r(3,4) ns(2) by auto
  then have "isQuorum (me # contacted reg) (insert me (answered GRANTED reg))"
    using sup len unfolding supported_def isQuorum_def by simp
  moreover have "answered VETO reg = {}" using sup r(4) by (auto simp: supported_def)
  ultimately show ?thesis using determineOutcome_ok [OF r(1,2), of me] r(3) by simp
qed

lemma performElection_wins:
  assumes inv: "nodeInv api n" and cand: "n_status n = CANDIDATE" "serverEmpty (n_leader n)" "myself n \<in> set (nodes (members (journal n)))"
    and ns: "distinct (nodes (members (journal n)))" and fits: "markerFits (n_term n) n"
    and sup: "supported replies (myself n) (nodes (members (journal n))) (n_term n)"
    and req: "vr_term req = n_term n" "serverEmpty (candidate req)"
  shows "\<exists>n' l'. performElection api tp replies (\<lambda>n. n) req n l = Some (kElected, n', l') \<and> n_status n' = LEADER
    \<and> n_term n' = n_term n \<and> n_leader n' = myself n \<and> node_safe api n n'
    \<and> entryAt api (journal n') (logSize (journal n)) = Some (leadershipMarkerEntry (n_term n) (myself n))"
proof -
  let ?ns = "nodes (members (journal n))"
  obtain reg where reg: "registerReplies replies (voters (myself n) ?ns) (newRegistry (n_term n) False) = Some reg" "\<not> vr_preVote reg"
    using fresh_replies [of replies "myself n" ?ns "n_term n" False] by auto
  have "\<forall>(s, sv) \<in> set (vr_contents reg). netError sv \<or> parseError sv \<or> vresp_term (resp sv) \<le> n_term n"
    by (rule registerReplies_terms [OF reg(1)]) (use sup in \<open>auto simp: supported_def newRegistry_def\<close>)
  from observe_current [OF cand(1,2) this] obtain ldr l' where
    o: "observeTermsAndLeases api tp (vr_contents reg) n l = Some (n\<lparr>n_leader := ldr\<rparr>, l')" "serverEmpty ldr"
    by blast
  let ?m = "n\<lparr>n_leader := ldr\<rparr>"
  have m: "nodeInv api ?m" "node_safe api n ?m" using inv o(2) cand(1) by (auto simp: nodeInv_def node_safe_def journal_safe_refl)
  have mk: "markerOk ?m" using fits by (simp add: markerFits_def markerOk_def)
  from ascend_ok [OF m(1) mk, of "n_term n"] obtain b n' where
    a: "ascend api (n_term n) ?m = Some (b, n')" "node_safe api ?m n'"
      "b = (n_term n = n_term ?m \<and> n_status ?m = CANDIDATE \<and> serverEmpty (n_leader ?m) \<and> myself ?m \<in> set (nodes (members (journal ?m))))"
      "if b then n_status ?m = CANDIDATE \<and> n_status n' = LEADER \<and> n_term n' = n_term n \<and> n_term ?m = n_term n
            \<and> n_leader n' = myself ?m \<and> n_votedFor n' = myself ?m \<and> serverEmpty (n_leader ?m)
            \<and> leadershipMarker n' = logSize (journal ?m) \<and> logSize (journal n') = logSize (journal ?m) + 1
            \<and> entryAt api (journal n') (leadershipMarker n') = Some (leadershipMarkerEntry (n_term n) (myself ?m))
       else n' = ?m"
    by (elim exE conjE)
  have b: "b" using a(3) cand o(2) by simp
  have "performElection api tp replies (\<lambda>n. n) req n l = Some (kElected, n', l')"
    using req cand reg o(1) a(1) b supported_outcome [OF ns cand(3) sup reg(1)]
    by (simp add: performElection_def electionOpen_def electionClose_def)
  with a(4) b node_safe_trans [OF m(2) a(2)] show ?thesis by auto
qed

subsection \<open>A whole attempt\<close>

lemma observed_newer:
  assumes "observed api t noServer n = Some (b, n')" "n_status n \<noteq> SHUTDOWN" "n_term n < t"
  shows "b" "n_votedFor n' = noServer"
  using assms by (auto simp: observed_def updateJournal_def Option.bind_eq_Some_conv Let_def split: if_splits)

lemma becomeCandidate_keeps:
  assumes inv: "nodeInv api n"
    and ok: "n_status n = FOLLOWER" "serverEmpty (n_leader n)" "serverEmpty (n_votedFor n)" "myself n \<in> set (nodes (members (journal n)))"
  shows "\<exists>n'. becomeCandidate api (n_term n) n = Some (True, n') \<and> node_safe api n n' \<and> n_status n' = CANDIDATE \<and> n_term n' = n_term n
    \<and> n_leader n' = n_leader n \<and> logSize (journal n') = logSize (journal n) \<and> members (journal n') = members (journal n)"
proof -
  note D = nodeInvD [OF inv]
  let ?m = "n\<lparr>n_votedFor := myself n\<rparr>"
  have "\<exists>j'. updateJournal api ?m = Some (?m\<lparr>journal := j'\<rparr>) \<and> logSize j' = logSize (journal n) \<and> members j' = members (journal n)"
    using updateJournal_ok [of api ?m] D ok int64_term [OF D(1)] by auto
  then obtain j' where j': "updateJournal api ?m = Some (?m\<lparr>journal := j'\<rparr>)" "logSize j' = logSize (journal n)"
      "members j' = members (journal n)"
    by blast
  let ?n = "updateStatus CANDIDATE (?m\<lparr>journal := j'\<rparr>)"
  have b: "becomeCandidate api (n_term n) n = Some (True, ?n)" using ok j'(1) by (simp add: becomeCandidate_def)
  have "node_safe api n ?n" using becomeCandidate_ok [OF inv, of "n_term n"] b by auto
  with b j' show ?thesis by (intro exI [of _ ?n]) simp
qed

lemma tallyVotes_pre:
  "\<not> list_ex (vetoes \<circ> snd) xs \<Longrightarrow> \<exists>k. tallyVotes True n xs = Some k \<and> n + length (filter (grants \<circ> snd) xs) \<le> k"
proof (induction xs arbitrary: n)
  case (Cons x xs)
  obtain s sv where x: "x = (s, sv)" by (cases x)
  have "\<not> list_ex (vetoes \<circ> snd) xs" using Cons.prems by (simp add: comp_def)
  from Cons.IH [OF this, of n] Cons.IH [OF this, of "n + 1"] obtain k k' where
    "tallyVotes True n xs = Some k" "n + length (filter (grants \<circ> snd) xs) \<le> k"
    "tallyVotes True (n + 1) xs = Some k'" "n + 1 + length (filter (grants \<circ> snd) xs) \<le> k'"
    by blast
  with Cons.prems x show ?case by (auto simp: comp_def)
qed simp

lemma supported_prevote:
  assumes ns: "distinct ns" "me \<in> set ns" and sup: "supported replies me ns t"
    and reg: "registerReplies replies (voters me ns) (newRegistry t True) = Some reg"
  shows "determineOutcome reg = kElected"
proof -
  from fresh_replies [of replies me ns t True] reg have
    r: "registryInv reg" "vr_preVote reg" "set (contacted reg) = set ns - {me}" "\<And>v. answered v reg = {s \<in> set ns - {me}. repliedWith replies v s}"
    by auto
  let ?reg = "reg\<lparr>vr_preVote := False\<rparr>" and ?xs = "vr_contents reg"
  have same: "registryInv ?reg" "contacted ?reg = contacted reg" "answered v ?reg = answered v reg" for v
    using r(1) by (simp_all add: registryInv_def contacted_def answered_def)
  have "distinct (me # contacted reg)" using r by (simp add: registryInv_def contacted_def)
  then have len: "length (me # contacted reg) = length ns"
    using ns r(3) distinct_card [of "me # contacted reg"] distinct_card [of ns] by (simp add: insert_absorb)
  have "insert me (answered GRANTED reg) \<inter> set (me # contacted reg) = insert me {s. repliedWith replies GRANTED s} \<inter> set ns"
    using r(3,4) ns(2) by auto
  then have "isQuorum (me # contacted reg) (insert me (answered GRANTED reg))"
    using sup len unfolding supported_def isQuorum_def by simp
  moreover have "answered VETO reg = {}" using sup r(4) by (auto simp: supported_def)
  ultimately have "determineOutcome ?reg = kElected" using determineOutcome_ok [of ?reg me] same r(3) by simp
  then have v: "\<not> list_ex (vetoes \<circ> snd) ?xs"
    and q: "calculateQuorumSize (length ?xs + 1) \<le> length (filter (grants \<circ> snd) ?xs) + 1"
    by (auto simp: determineOutcome_def tallyVotes_ok split: if_splits)
  from tallyVotes_pre [OF v, of 0] obtain k where "tallyVotes True 0 ?xs = Some k" "length (filter (grants \<circ> snd) ?xs) \<le> k" by auto
  with q r(2) show ?thesis by (simp add: determineOutcome_def)
qed

lemma runForLeader_wins:
  assumes inv: "nodeInv api n" and up: "n_status n \<noteq> SHUTDOWN" and me: "myself n \<in> set (nodes (members (journal n)))"
    and ns: "distinct (nodes (members (journal n)))" and fits: "int64 (n_term n + 1)" "markerFits (n_term n + 1) n"
    and sane: "applied \<le> commitIndex (journal n)"
    and pre: "preVote \<longrightarrow> supported preReplies (myself n) (nodes (members (journal n))) (n_term n + 1)"
    and sup: "supported replies (myself n) (nodes (members (journal n))) (n_term n + 1)"
  shows "\<exists>n' l'. runForLeader api applied tp preReplies replies (\<lambda>n. n) (\<lambda>n. n) preVote n hb l veto = Some (n', l', veto)
    \<and> n_status n' = LEADER \<and> n_term n' = n_term n + 1 \<and> n_leader n' = myself n \<and> node_safe api n n'
    \<and> entryAt api (journal n') (logSize (journal n)) = Some (leadershipMarkerEntry (n_term n + 1) (myself n))"
proof -
  note D = nodeInvD [OF inv]
  let ?t = "n_term n + 1" and ?ns = "nodes (members (journal n))"
  have sanity: "checkBasicSanity applied (journal n)"
    using sane journalInvD(3) [OF D(1)] by (auto simp: checkBasicSanity_def bounds_def)
  obtain e where e: "fetch api (journal n) (logSize (journal n) - 1) = Some (Some e)" by (rule last_entry [OF D(1)])
  let ?req = "\<lparr>vr_term = ?t, candidate = noServer, lastIndex = logSize (journal n) - 1, lastTerm = entryTerm e\<rparr>"
  have p: "(if preVote then performPreVote preReplies ?req n else Some kElected) = Some kElected"
    using pre fresh_replies [of preReplies "myself n" ?ns ?t True] supported_prevote [OF ns me]
    by (auto simp: performPreVote_def)
  from observed_ok [OF inv fits(1) okVote_simps(1)] obtain b m where
    m: "observed api ?t noServer n = Some (b, m)" "node_safe api n m" "logSize (journal m) = logSize (journal n)"
      "sameMembership api (journal n) (journal m)"
      "n_status n \<noteq> SHUTDOWN \<longrightarrow> n_term m = max (n_term n) ?t \<and> n_status m \<noteq> SHUTDOWN"
      "n_status n \<noteq> SHUTDOWN \<longrightarrow> n_term n < ?t \<longrightarrow> n_status m = FOLLOWER \<and> n_leader m = noServer"
    by (elim exE conjE)
  note newer = observed_newer [OF m(1) up]
  have mi: "nodeInv api m" "myself m = myself n" "members (journal m) = members (journal n)" "n_term m = ?t"
    using m(2,4,5) up by (simp_all add: node_safe_def sameMembership_def)
  from becomeCandidate_keeps [OF mi(1)] m(6) newer(2) mi up me obtain k where
    k: "becomeCandidate api ?t m = Some (True, k)" "node_safe api m k" "n_status k = CANDIDATE" "n_term k = ?t"
      "n_leader k = noServer" "logSize (journal k) = logSize (journal m)" "members (journal k) = members (journal m)"
    by auto
  have ki: "nodeInv api k" "myself k = myself n" using k(2) mi(2) by (simp_all add: node_safe_def)
  have "\<exists>n' l'. performElection api tp replies (\<lambda>n. n) ?req k l = Some (kElected, n', l') \<and> n_status n' = LEADER
    \<and> n_term n' = n_term k \<and> n_leader n' = myself k \<and> node_safe api k n'
    \<and> entryAt api (journal n') (logSize (journal k)) = Some (leadershipMarkerEntry (n_term k) (myself k))"
    by (rule performElection_wins [OF ki(1) k(3)])
      (use k ki(2) mi me ns sup fits(2) m(3) in \<open>simp_all add: markerFits_def\<close>)
  then obtain n' l' where n': "performElection api tp replies (\<lambda>n. n) ?req k l = Some (kElected, n', l')" "n_status n' = LEADER"
      "n_term n' = n_term k" "n_leader n' = myself k" "node_safe api k n'"
      "entryAt api (journal n') (logSize (journal k)) = Some (leadershipMarkerEntry (n_term k) (myself k))"
    by (elim exE conjE)
  have "runForLeader api applied tp preReplies replies (\<lambda>n. n) (\<lambda>n. n) preVote n hb l veto = Some (n', l', veto)"
    using sanity e p m(1) newer(1) k(1) n'(1) by (simp add: runForLeader_def Let_def isSnapshotCurrent_def)
  moreover have "node_safe api n n'" using m(2) k(2) n'(5) node_safe_trans by blast
  ultimately show ?thesis using n'(2-4,6) k(4,6) ki(2) m(3) by auto
qed

subsection \<open>The vote of a newer term\<close>

lemma lastTerm_same:
  assumes "journalInv api j" "journalInv api j'" "logSize j' = logSize j" "\<forall>i. entryAt api j' i = entryAt api j i"
  shows "termOfLastEntry j' = termOfLastEntry j"
proof -
  have "entryAt api j (logSize j - 1) \<noteq> None"
    using journalInvD(6) [OF assms(1)] by (auto simp: lastTermOk_def entryAt_def)
  then show ?thesis
    using journalInvD(6) [OF assms(1)] journalInvD(6) [OF assms(2)] assms(3,4)
    by (auto simp: lastTermOk_def entryAt_def)
qed

text \<open>
  Asked in a newer term by a member of the cluster, or while it knows no leader, a node answers by
  the two logs alone.
\<close>

lemma requestVote_newer:
  assumes inv: "nodeInv api n" and req: "int64 (vr_term req)" "okServer (candidate req)" "candidate req \<noteq> myself n"
    and up: "n_status n \<noteq> SHUTDOWN" and newer: "n_term n < vr_term req"
    and known: "candidate req \<in> set (nodes (members (journal n))) \<or> serverEmpty (n_leader n)"
  shows "\<exists>ans n' hb'. requestVote api now req False n hb = Some (ans, n', hb')
    \<and> vresp_vote ans = (if contradictsCommitted api req (journal n) then VETO
         else if candidateUpToDate req (journal n) then GRANTED else REFUSED)
    \<and> vresp_term ans = vr_term req \<and> n_term n' = vr_term req \<and> node_safe api n n'
    \<and> votedFor (journal n') = (if vresp_vote ans = GRANTED then candidate req else noServer)"
proof -
  from observed_ok [OF inv req(1) okVote_simps(1)] obtain b m where
    m: "observed api (vr_term req) noServer n = Some (b, m)" "node_safe api n m" "logSize (journal m) = logSize (journal n)"
      "commitIndex (journal m) = commitIndex (journal n)" "\<forall>i. entryAt api (journal m) i = entryAt api (journal n) i"
      "n_status n \<noteq> SHUTDOWN \<longrightarrow> n_term m = max (n_term n) (vr_term req) \<and> n_status m \<noteq> SHUTDOWN"
      "n_status n \<noteq> SHUTDOWN \<longrightarrow> n_term n < vr_term req \<longrightarrow> n_status m = FOLLOWER \<and> n_leader m = noServer"
    by (elim exE conjE)
  have mi: "nodeInv api m" "n_term m = vr_term req" "n_status m = FOLLOWER" "n_leader m = noServer" "n_votedFor m = noServer"
    using m(2,6,7) up newer observed_newer(2) [OF m(1) up newer] by (auto simp: node_safe_def)
  note J = nodeInvD(1) [OF mi(1)]
  have c: "contradictsCommitted api req (journal m) = contradictsCommitted api req (journal n)"
    using m(4,5) by (simp add: contradictsCommitted_def)
  have u: "candidateUpToDate req (journal m) = candidateUpToDate req (journal n)"
    using m(3) lastTerm_same [OF nodeInvD(1) [OF inv] J m(3,5)] by (simp add: candidateUpToDate_def)
  from grantVote_ok [OF mi(1) req(2), of "vr_term req"] obtain g k where
    g: "grantVote api (vr_term req) (candidate req) m = Some (g, k)" "node_safe api m k"
    by (elim exE conjE)
  have "g \<and> n_votedFor k = candidate req \<and> n_term k = vr_term req"
    using g(1) mi by (auto simp: grantVote_def updateJournal_def Option.bind_eq_Some_conv)
  then have k: "g" "votedFor (journal k) = candidate req" "n_term k = vr_term req"
    using g(2) nodeInvD(4) [of api k] by (auto simp: node_safe_def)
  have vm: "votedFor (journal m) = noServer" using nodeInvD(4) [OF mi(1)] mi(5) by simp
  let ?ans = "\<lambda>v. \<lparr>vresp_term = vr_term req, vresp_vote = v\<rparr>"
  have run: "requestVote api now req False n hb = (if contradictsCommitted api req (journal n) then Some (?ans VETO, m, hb)
     else if candidateUpToDate req (journal n) then Some (?ans GRANTED, k, hb_heartbeat now (hb_heartbeat now hb))
     else Some (?ans REFUSED, m, hb))"
    using req(3) known m(1) mi g(1) k(1) vetoCheck_ok [OF J, of req] moreUpToDate_ok [OF J, of req] unfolding c u
    by (auto simp: requestVote_def Let_def)
  show ?thesis
  proof (cases "contradictsCommitted api req (journal n) \<or> \<not> candidateUpToDate req (journal n)")
    case True
    with run m(2) mi(2) vm show ?thesis
      by (intro exI [of _ "?ans (if contradictsCommitted api req (journal n) then VETO else REFUSED)"] exI [of _ m] exI [of _ hb]) auto
  next
    case False
    with run k(2,3) node_safe_trans [OF m(2) g(2)] show ?thesis
      by (intro exI [of _ "?ans GRANTED"] exI [of _ k] exI [of _ "hb_heartbeat now (hb_heartbeat now hb)"]) simp
  qed
qed

end
