(* ===== verification/ClusterProperties.thy ===== *)
theory ClusterProperties
  imports RaftProperties ElectionSafety
begin

text \<open>
  The properties of the handlers and rounds through which the nodes of a cluster talk: elections
  end to end, what an acknowledged append means, what a granted vote means, when a leader steps
  down, and what the membership commands do.
\<close>

subsection \<open>Elections\<close>

text \<open>
C3. Two candidates that win an election of the same term, in a cluster or in two memberships that
differ by one change, are the same server, whatever crashes happen.
\<close>

theorem election_safety:
  assumes "histories api hist" "membersInv m" "m' = m \<or> member_change m m'"
    and "winsElection api hist (nodes m) t c" "winsElection api hist (nodes m') t c'"
  shows "c = c'"
proof -
  let ?V = "\<lambda>c. {s. voteFor hist s t c}"
  have "membersInv m'" using assms(2,3) member_change_inv by blast
  then have d: "distinct (nodes m)" "distinct (nodes m')" using assms(2) by (simp_all add: membersInv_def)
  have q: "isQuorum (nodes m) (?V c)" "isQuorum (nodes m') (?V c')"
    by (rule winsElection_electedBy [OF assms(1) d(1) assms(4)], erule electedBy_quorum)
      (rule winsElection_electedBy [OF assms(1) d(2) assms(5)], erule electedBy_quorum)
  have "?V c \<inter> ?V c' \<noteq> {}"
    using assms(3)
  proof
    assume "m' = m"
    with q show ?thesis using majority.overlap by blast
  next
    assume "member_change m m'"
    from quorum_overlap_change [OF this assms(2) q] show ?thesis .
  qed
  then obtain s where "voteFor hist s t c" "voteFor hist s t c'" by blast
  then show ?thesis by (rule vote_unique [OF assms(1)])
qed

text \<open>The sample node, as a candidate and after its election in a cluster of one.\<close>

definition sampleLeader :: "mem_db raft_node" where
  "sampleLeader = snd (the (ascend memApi 0 sampleCandidate))"

lemma sample_leader: "ascend memApi 0 sampleCandidate = Some (True, sampleLeader)" "nodeInv memApi sampleLeader"
    "n_status sampleLeader = LEADER" "n_term sampleLeader = 0" "myself sampleLeader = sampleServer"
proof -
  have mem: "members (journal sampleCandidate) = sampleMembers" by (subst sample_markerOk(4), simp)
  from ascend_ok [OF sample_candidate(2) sample_markerOk(1), of 0] obtain b n where
    n: "ascend memApi 0 sampleCandidate = Some (b, n)" "node_safe memApi sampleCandidate n"
      "b = (0 = n_term sampleCandidate \<and> n_status sampleCandidate = CANDIDATE \<and> serverEmpty (n_leader sampleCandidate)
         \<and> myself sampleCandidate \<in> set (nodes (members (journal sampleCandidate))))"
    by (elim exE conjE)
  have b: "b" using n(3) mem sample_candidate(3,5) sample_markerOk(2,3) by simp
  then have l: "sampleLeader = n" using n(1) by (simp add: sampleLeader_def)
  show a: "ascend memApi 0 sampleCandidate = Some (True, sampleLeader)" using n(1) b l by simp
  show "nodeInv memApi sampleLeader" using n(2) l by (simp add: node_safe_def)
  show "n_status sampleLeader = LEADER" "n_term sampleLeader = 0" "myself sampleLeader = sampleServer"
    using ascend_facts [OF a] sample_markerOk(2) by simp_all
qed

definition sampleHistory :: "raft_server \<Rightarrow> nat \<Rightarrow> mem_db raft_node" where
  "sampleHistory s i = (if i = 0 then sampleNode else if i = 1 then sampleCandidate else sampleLeader)"

lemma sample_history: "histories memApi sampleHistory"
proof -
  have "node_life memApi sampleNode sampleCandidate"
    by (rule node_life.step [OF node_step.candidate [OF sample_candidate(1)]])
  moreover have "node_life memApi sampleCandidate sampleLeader"
    by (rule node_life.step [OF node_step.lead [OF sample_leader(1) sample_markerOk(1)]])
  ultimately show ?thesis by (auto simp: histories_def sampleHistory_def)
qed

lemma sample_wins: "winsElection memApi sampleHistory [sampleServer] 0 sampleServer"
proof -
  have v: "voters sampleServer [sampleServer] = []" by (simp add: voters_def)
  have "electionClose memApi 0 0 (newRegistry 0 False) sampleCandidate sampleLease = Some (kElected, sampleLeader, sampleLease)"
    using sample_leader(1) by (simp add: electionClose_def newRegistry_def determineOutcome_def calculateQuorumSize_def)
  with v show ?thesis
    unfolding winsElection_def
    by (intro exI [of _ 1] exI [of _ 2] exI [of _ 0] exI [of _ "\<lambda>_. None"] exI [of _ "newRegistry 0 False"]
        exI [of _ sampleLease]) (simp add: sampleHistory_def sample_markerOk(2))
qed

theorem election_safety_witness: "winsElection memApi sampleHistory [sampleServer] 0 sampleServer \<and> sampleServer = sampleServer"
  using election_safety [OF sample_history sample_members(2) disjI1 [OF refl], of 0 sampleServer sampleServer]
    sample_wins by simp

definition sampleBeats :: heartbeat_tracker where
  "sampleBeats = newHeartbeatTracker defaultTimeouts 1200"

text \<open>
C14. A running node asked for a vote in a newer term by a member answers in that term: a veto when
the log of the candidate contradicts a committed entry, the vote when it is up to date, else a
refusal; the vote it stores is the one it gives.
\<close>

theorem vote_spec:
  assumes "nodeInv api n" "int64 (vr_term req)" "okServer (candidate req)" "candidate req \<noteq> myself n"
    and "n_status n \<noteq> SHUTDOWN" "n_term n < vr_term req"
    and "candidate req \<in> set (nodes (members (journal n))) \<or> serverEmpty (n_leader n)"
  shows "\<exists>ans n' hb'. requestVote api now req False n hb = Some (ans, n', hb')
    \<and> vresp_vote ans = (if contradictsCommitted api req (journal n) then VETO
         else if candidateUpToDate req (journal n) then GRANTED else REFUSED)
    \<and> vresp_term ans = vr_term req \<and> n_term n' = vr_term req \<and> node_safe api n n'
    \<and> votedFor (journal n') = (if vresp_vote ans = GRANTED then candidate req else noServer)"
  using requestVote_newer [OF assms] .

definition sampleVoteRequest :: vote_request where
  "sampleVoteRequest = \<lparr>vr_term = 2, candidate = otherServer, lastIndex = 5, lastTerm = 1\<rparr>"

theorem vote_spec_witness:
  "\<exists>ans n' hb'. requestVote memApi 40 sampleVoteRequest False sampleNode sampleBeats = Some (ans, n', hb')
    \<and> vresp_vote ans = (if contradictsCommitted memApi sampleVoteRequest (journal sampleNode) then VETO
         else if candidateUpToDate sampleVoteRequest (journal sampleNode) then GRANTED else REFUSED)
    \<and> vresp_term ans = vr_term sampleVoteRequest \<and> n_term n' = vr_term sampleVoteRequest \<and> node_safe memApi sampleNode n'
    \<and> votedFor (journal n') = (if vresp_vote ans = GRANTED then candidate sampleVoteRequest else noServer)"
  by (rule vote_spec) (simp_all add: sampleVoteRequest_def int64_def)

text \<open>Votes are given without regard to a leader that was heard a moment ago.\<close>

theorem vote_ignores_heartbeats:
  "map_option fst (requestVote api now req preVote n hb) = map_option fst (requestVote api now' req preVote n hb2)"
  by (rule vote_ignores_heartbeats_ok)

subsection \<open>Replication\<close>

text \<open>
C13. A node keeps its promises through any append-entries request; if it acknowledges one, it
follows the sender in the term of the request and its log holds the entries sent.
\<close>

theorem append_acknowledged:
  assumes "nodeInv api n" "int64 (ae_term req)" "okServer (ae_leader req)" "requestOk api req (journal n)"
    and "appendEntries api now lastDone req n hb = Some (ans, n', hb')"
  shows "node_safe api n n' \<and> leader_kept n n' \<and> aer_term ans = n_term n' \<and> aer_logSize ans = logSize (journal n')
    \<and> (aer_outcome ans \<longrightarrow> n_term n' = ae_term req \<and> n_leader n' = ae_leader req \<and> acknowledged api req (journal n) (journal n'))"
  using appendEntries_ok [OF assms] .

lemma sample_epochs: "i > 0 \<Longrightarrow> rollbackSafe memApi sampleJournal i"
  by (simp add: rollbackSafe_def)

lemma sample_request: "requestOk memApi sampleRequest sampleJournal"
  by (simp add: requestOk_def sampleRequest_def entriesOk_def int64_def sample_epochs)

theorem append_acknowledged_witness:
  "\<exists>ans n' hb'. appendEntries memApi 40 0 sampleRequest sampleNode sampleBeats = Some (ans, n', hb')
    \<and> (aer_outcome ans \<longrightarrow> acknowledged memApi sampleRequest sampleJournal (journal n'))"
proof -
  let ?h = "\<lparr>hb_term = ae_term sampleRequest, hb_leader = ae_leader sampleRequest\<rparr>"
  have r: "int64 (ae_term sampleRequest)" "okServer (ae_leader sampleRequest)" "ae_leader sampleRequest \<noteq> myself sampleNode"
    by (simp_all add: sampleRequest_def int64_def)
  have "\<exists>a m hb1. heartbeat memApi 40 ?h sampleNode sampleBeats = Some (a, m, hb1)
      \<and> nodeRecognizedAsLeader a = (n_status sampleNode \<noteq> SHUTDOWN \<and> n_term sampleNode \<le> hb_term ?h)"
    by (rule heartbeat_answers) (use r in simp_all)
  then obtain a m hb1 where h: "heartbeat memApi 40 ?h sampleNode sampleBeats = Some (a, m, hb1)" by blast
  from heartbeat_ok [OF sample_node(1) _ _ h] r have
    m: "node_safe memApi sampleNode m" "commitIndex (journal m) = commitIndex (journal sampleNode)"
      "sameMembership memApi (journal sampleNode) (journal m)"
    by simp_all
  have "requestOk memApi sampleRequest (journal sampleNode)" using sample_request by simp
  note ok = requestOk_same [OF this m]
  have "\<exists>ans j'. applyEntries memApi 0 (n_term m) sampleRequest (journal m) = Some (ans, j')"
    by (rule applyEntries_answers [OF ok]) (use m(2) in \<open>simp_all add: sampleRequest_def\<close>)
  then obtain ans n' hb' where run: "appendEntries memApi 40 0 sampleRequest sampleNode sampleBeats = Some (ans, n', hb')"
    using h by (cases "nodeRecognizedAsLeader a") (auto simp: appendEntries_def)
  from append_acknowledged [OF sample_node(1) r(1,2) _ run] sample_request run show ?thesis by auto
qed

text \<open>A leader whose lease has expired steps down into the next term.\<close>

text \<open>
C25. A leader whose lease has run out steps down in the next round of the director, into the next
term and without a leader; otherwise it goes on unchanged.
\<close>

theorem expired_leader_steps_down:
  assumes "nodeInv api n" "n_status n = LEADER" "int64 (n_term n + 1)" "lastDone \<le> commitIndex (journal n)"
    and "getDeadline now l = Some d"
  shows "\<exists>stay n'. leaderRound api now lastDone (n_term n) n l = Some (stay, n')
    \<and> (if d < now then \<not> stay \<and> n_status n' = FOLLOWER \<and> n_term n' = n_term n + 1 \<and> n_leader n' = noServer \<and> node_safe api n n'
       else stay \<and> n' = n)"
proof -
  have s: "checkBasicSanity lastDone (journal n)"
    using assms(4) journalInvD(3) [OF nodeInvD(1) [OF assms(1)]] by (auto simp: checkBasicSanity_def bounds_def)
  from observed_ok [OF assms(1,3) okVote_simps(1)] obtain b m where
    m: "observed api (n_term n + 1) noServer n = Some (b, m)" "node_safe api n m"
      "n_status n \<noteq> SHUTDOWN \<longrightarrow> n_term m = max (n_term n) (n_term n + 1) \<and> n_status m \<noteq> SHUTDOWN"
      "n_status n \<noteq> SHUTDOWN \<longrightarrow> n_term n < n_term n + 1 \<longrightarrow> n_status m = FOLLOWER \<and> n_leader m = noServer"
    by (elim exE conjE)
  show ?thesis
  proof (cases "d < now")
    case True
    with s assms(5) m(1) have "leaderRound api now lastDone (n_term n) n l = Some (False, m)" by (simp add: leaderRound_def)
    with True m assms(2) show ?thesis by (intro exI [of _ False] exI [of _ m]) simp
  next
    case False
    with s assms(5) show ?thesis by (intro exI [of _ True] exI [of _ n]) (simp add: leaderRound_def)
  qed
qed

theorem expired_leader_steps_down_witness:
  "\<exists>d stay n'. getDeadline 99 sampleLease = Some d \<and> leaderRound memApi 99 0 0 sampleLeader sampleLease = Some (stay, n')
    \<and> (if d < 99 then \<not> stay \<and> n_status n' = FOLLOWER else stay \<and> n' = sampleLeader)"
proof -
  obtain d where d: "getDeadline 99 sampleLease = Some d"
    using getDeadline_ok [OF sample_lease(1), of sampleServer] sample_lease(2) by auto
  have "0 \<le> commitIndex (journal sampleLeader)"
    using journalInvD(3) [OF nodeInvD(1) [OF sample_leader(2)]] by (simp add: bounds_def)
  then have "\<exists>stay n'. leaderRound memApi 99 0 (n_term sampleLeader) sampleLeader sampleLease = Some (stay, n')
    \<and> (if d < 99 then \<not> stay \<and> n_status n' = FOLLOWER \<and> n_term n' = n_term sampleLeader + 1 \<and> n_leader n' = noServer
         \<and> node_safe memApi sampleLeader n' else stay \<and> n' = sampleLeader)"
    by (intro expired_leader_steps_down [OF sample_leader(2,3) _ _ d]) (simp_all add: sample_leader(4) int64_def)
  then obtain stay n' where "leaderRound memApi 99 0 0 sampleLeader sampleLease = Some (stay, n')"
      "if d < 99 then \<not> stay \<and> n_status n' = FOLLOWER \<and> n_term n' = n_term sampleLeader + 1 \<and> n_leader n' = noServer
         \<and> node_safe memApi sampleLeader n' else stay \<and> n' = sampleLeader"
    unfolding sample_leader(4) by (elim exE conjE)
  with d show ?thesis by (intro exI [of _ d] exI [of _ stay] exI [of _ n']) (simp split: if_splits)
qed

subsection \<open>Membership commands\<close>

text \<open>Promoting a server that the leader does not replicate to ends the process.\<close>

theorem promote_unknown_observer_throws:
  assumes "parseServer addr = Some srv" "n_status n = LEADER" "srv \<noteq> myself n" "srv \<notin> target ` set replicas"
  shows "membershipCommand api RAFT_PROMOTE_OBSERVER [cmd, addr] replicas n = None"
proof -
  have "getReplicaStatus srv replicas = None"
    using assms(4) by (induction replicas) auto
  with assms(1-3) show ?thesis by (simp add: membershipCommand_def)
qed

theorem promote_unknown_observer_throws_witness:
  "membershipCommand memApi RAFT_PROMOTE_OBSERVER [''raft-promote-observer'', serverToString otherServer] [] sampleLeader = None"
  by (rule promote_unknown_observer_throws [of _ otherServer])
    (simp_all add: sample_leader parseServer_toString)

end
