(* ===== verification/RedisCommands.thy ===== *)
theory RedisCommands
  imports TextUtils BinaryString
begin

text \<open>
  The commands of \<^verbatim>\<open>src/src/Commands.hh\<close> and \<^verbatim>\<open>src/src/Commands.cc\<close>, requests
  (\<^verbatim>\<open>src/src/RedisRequest.hh\<close>, \<^verbatim>\<open>src/src/RedisRequest.cc\<close>), the filters on incoming requests
  (\<^verbatim>\<open>src/src/redis/InternalFilter.cc\<close>, \<^verbatim>\<open>src/src/redis/LeaseFilter.cc\<close>) and the arguments of the
  scan commands (\<^verbatim>\<open>src/src/utils/CommandParsing.hh\<close>).

  The table of commands gives each name a command and a type, and each command occurs with one type
  only.  So the enumeration \<open>RedisCommand\<close> is split by type, one datatype per type with the
  enumerators of that type, and the second half of an entry of the table is \<open>typeOf\<close> of the first.
  The enumerator \<open>TYPE\<close> is \<open>TYPE_OF\<close> here.
\<close>

subsection \<open>Commands\<close>

datatype ReadCommand =
    GET | EXISTS | KEYS | SCAN | HGET | HEXISTS
  | HKEYS | HGETALL | HLEN | HVALS | HSCAN | SISMEMBER
  | SMEMBERS | SCARD | SSCAN | DEQUE_LEN | DEQUE_SCAN_BACK | CONFIG_GET
  | CONFIG_GETALL | LHGET | LHLEN | LHSCAN | LHGET_WITH_FALLBACK | RAW_SCAN_TOMBSTONES
  | RAW_SCAN | RAW_GET_ALL_VERSIONS | CLOCK_GET | TYPE_OF | VHGETALL | VHLEN
  | LEASE_GET_PENDING_EXPIRATION_EVENTS | TX_READONLY

datatype WriteCommand =
    FLUSHALL | SET | DEL | HSET | HMSET | HSETNX
  | HINCRBY | HINCRBYFLOAT | HINCRBYMULTI | HDEL | HCLONE | SADD
  | SREM | SMOVE | DEQUE_PUSH_FRONT | DEQUE_POP_FRONT | DEQUE_PUSH_BACK | DEQUE_POP_BACK
  | DEQUE_TRIM_FRONT | DEQUE_CLEAR | CONFIG_SET | LHSET | LHDEL | LHLOCDEL
  | LHMSET | LHDEL_WITH_FALLBACK | LHSET_AND_DEL_FALLBACK | CONVERT_HASH_FIELD_TO_LHASH | LEASE_ACQUIRE | LEASE_GET
  | LEASE_RELEASE | TIMESTAMPED_LEASE_ACQUIRE | TIMESTAMPED_LEASE_GET | TIMESTAMPED_LEASE_RELEASE | VHSET | VHDEL
  | TX_READWRITE | ARTIFICIALLY_SLOW_WRITE_NEVER_USE_THIS

datatype ControlCommand =
    PING | DEBUG | MONITOR | CLIENT_ID | COMMAND_STATS | ACTIVATE_PUSH_TYPES
  | CLIENT | EXEC | DISCARD | MULTI | CONVERT_STRING_TO_INT | CONVERT_INT_TO_STRING

datatype RaftCommand =
    RAFT_HANDSHAKE | RAFT_APPEND_ENTRIES | RAFT_INFO | RAFT_LEADER_INFO | RAFT_REQUEST_VOTE | RAFT_REQUEST_PRE_VOTE
  | RAFT_FETCH | RAFT_ATTEMPT_COUP | RAFT_ADD_OBSERVER | RAFT_REMOVE_MEMBER | RAFT_PROMOTE_OBSERVER | RAFT_DEMOTE_TO_OBSERVER
  | RAFT_HEARTBEAT | RAFT_FETCH_LAST | RAFT_JOURNAL_SCAN | RAFT_SET_FSYNC_POLICY | RAFT_OBSERVE_TERM | RAFT_JOURNAL_MANUAL_COMPACTION
  | ACTIVATE_STALE_READS

datatype QuarkdbCommand =
    QUARKDB_INFO | QUARKDB_DETACH | QUARKDB_ATTACH | QUARKDB_START_RESILVERING | QUARKDB_FINISH_RESILVERING | QUARKDB_RESILVERING_COPY_FILE
  | QUARKDB_CANCEL_RESILVERING | QUARKDB_BULKLOAD_FINALIZE | QUARKDB_INVALID_COMMAND | QUARKDB_MANUAL_COMPACTION | QUARKDB_LEVEL_STATS | QUARKDB_COMPRESSION_STATS
  | QUARKDB_VERSION | QUARKDB_CHECKPOINT | QUARKDB_HEALTH | QUARKDB_VERIFY_CHECKSUM

datatype AuthCommand =
    AUTH | HMAC_AUTH_GENERATE_CHALLENGE | HMAC_AUTH_VALIDATE_CHALLENGE

datatype RecoveryCommand =
    RECOVERY_INFO | RECOVERY_SET | RECOVERY_GET | RECOVERY_DEL | RECOVERY_FORCE_RECONFIGURE_JOURNAL | RECOVERY_SCAN
  | RECOVERY_GET_ALL_VERSIONS

datatype PubsubCommand =
    PUBLISH | SUBSCRIBE | PSUBSCRIBE | UNSUBSCRIBE | PUNSUBSCRIBE

datatype RedisCommand =
    INVALID
  | Read ReadCommand
  | Write WriteCommand
  | Control ControlCommand
  | Raft RaftCommand
  | Quarkdb QuarkdbCommand
  | Auth AuthCommand
  | Recovery RecoveryCommand
  | Pubsub PubsubCommand

datatype CommandType = INVALID_TYPE | READ | WRITE | CONTROL | RAFT | QUARKDB | AUTHENTICATION | RECOVERY | PUBSUB

fun typeOf :: "RedisCommand \<Rightarrow> CommandType" where
  "typeOf INVALID = INVALID_TYPE"
| "typeOf (Read c) = READ"
| "typeOf (Write c) = WRITE"
| "typeOf (Control c) = CONTROL"
| "typeOf (Raft c) = RAFT"
| "typeOf (Quarkdb c) = QUARKDB"
| "typeOf (Auth c) = AUTHENTICATION"
| "typeOf (Recovery c) = RECOVERY"
| "typeOf (Pubsub c) = PUBSUB"

subsection \<open>The table\<close>

definition tolower :: "char \<Rightarrow> char" where
  "tolower c = (if 65 \<le> (of_char c :: nat) \<and> (of_char c :: nat) \<le> 90 then char_of ((of_char c :: nat) + 32) else c)"

definition caseInsensitiveEquals :: "bytes \<Rightarrow> bytes \<Rightarrow> bool" where
  "caseInsensitiveEquals str1 str2 \<longleftrightarrow> length str1 = length str2 \<and> list_all2 (\<lambda>a b. tolower a = tolower b) str1 str2"

definition normalizeChar :: "char \<Rightarrow> char" where
  "normalizeChar c = (let r = tolower c in if r = CHR ''-'' then CHR ''_'' else r)"

text \<open>\<open>char\<close> is signed on the platforms of the program.\<close>

definition charValue :: "char \<Rightarrow> int" where
  "charValue c = (let n = int (of_char c :: nat) in if n < 128 then n else n - 256)"

fun commandLess :: "bytes \<Rightarrow> bytes \<Rightarrow> bool" where
  "commandLess (a # lhs) (b # rhs) =
     (if normalizeChar a \<noteq> normalizeChar b then charValue (normalizeChar a) < charValue (normalizeChar b) else commandLess lhs rhs)"
| "commandLess lhs rhs \<longleftrightarrow> length lhs < length rhs"

definition redis_cmd_map :: "(bytes \<times> RedisCommand) list" where
  "redis_cmd_map = [
     (''ping'', Control PING), (''debug'', Control DEBUG), (''monitor'', Control MONITOR),
     (''client_id'', Control CLIENT_ID), (''command_stats'', Control COMMAND_STATS), (''activate_push_types'', Control ACTIVATE_PUSH_TYPES),
     (''client'', Control CLIENT), (''auth'', Auth AUTH), (''hmac_auth_generate_challenge'', Auth HMAC_AUTH_GENERATE_CHALLENGE),
     (''hmac_auth_validate_challenge'', Auth HMAC_AUTH_VALIDATE_CHALLENGE), (''get'', Read GET), (''exists'', Read EXISTS),
     (''keys'', Read KEYS), (''scan'', Read SCAN), (''hget'', Read HGET),
     (''hexists'', Read HEXISTS), (''hkeys'', Read HKEYS), (''hgetall'', Read HGETALL),
     (''hlen'', Read HLEN), (''hvals'', Read HVALS), (''hscan'', Read HSCAN),
     (''sismember'', Read SISMEMBER), (''smembers'', Read SMEMBERS), (''scard'', Read SCARD),
     (''sscan'', Read SSCAN), (''deque_len'', Read DEQUE_LEN), (''deque_scan_back'', Read DEQUE_SCAN_BACK),
     (''config_get'', Read CONFIG_GET), (''config_getall'', Read CONFIG_GETALL), (''lhget'', Read LHGET),
     (''lhlen'', Read LHLEN), (''lhscan'', Read LHSCAN), (''lhget_with_fallback'', Read LHGET_WITH_FALLBACK),
     (''raw_scan_tombstones'', Read RAW_SCAN_TOMBSTONES), (''raw_scan'', Read RAW_SCAN), (''raw_get_all_versions'', Read RAW_GET_ALL_VERSIONS),
     (''clock_get'', Read CLOCK_GET), (''type'', Read TYPE_OF), (''vhgetall'', Read VHGETALL),
     (''vhlen'', Read VHLEN), (''lease_get_pending_expiration_events'', Read LEASE_GET_PENDING_EXPIRATION_EVENTS), (''flushall'', Write FLUSHALL),
     (''set'', Write SET), (''del'', Write DEL), (''hset'', Write HSET),
     (''hmset'', Write HMSET), (''hsetnx'', Write HSETNX), (''hincrby'', Write HINCRBY),
     (''hincrbyfloat'', Write HINCRBYFLOAT), (''hincrbymulti'', Write HINCRBYMULTI), (''hdel'', Write HDEL),
     (''hclone'', Write HCLONE), (''sadd'', Write SADD), (''srem'', Write SREM),
     (''smove'', Write SMOVE), (''deque_push_front'', Write DEQUE_PUSH_FRONT), (''deque_pop_front'', Write DEQUE_POP_FRONT),
     (''deque_push_back'', Write DEQUE_PUSH_BACK), (''deque_pop_back'', Write DEQUE_POP_BACK), (''deque_trim_front'', Write DEQUE_TRIM_FRONT),
     (''deque_clear'', Write DEQUE_CLEAR), (''config_set'', Write CONFIG_SET), (''lhset'', Write LHSET),
     (''lhdel'', Write LHDEL), (''lhlocdel'', Write LHLOCDEL), (''lhmset'', Write LHMSET),
     (''lhdel_with_fallback'', Write LHDEL_WITH_FALLBACK), (''lhset_and_del_fallback'', Write LHSET_AND_DEL_FALLBACK), (''convert_hash_field_to_lhash'', Write CONVERT_HASH_FIELD_TO_LHASH),
     (''lease_acquire'', Write LEASE_ACQUIRE), (''lease_get'', Write LEASE_GET), (''lease_release'', Write LEASE_RELEASE),
     (''timestamped_lease_acquire'', Write TIMESTAMPED_LEASE_ACQUIRE), (''timestamped_lease_get'', Write TIMESTAMPED_LEASE_GET), (''timestamped_lease_release'', Write TIMESTAMPED_LEASE_RELEASE),
     (''vhset'', Write VHSET), (''vhdel'', Write VHDEL), (''exec'', Control EXEC),
     (''discard'', Control DISCARD), (''multi'', Control MULTI), (''tx_readonly'', Read TX_READONLY),
     (''tx_readwrite'', Write TX_READWRITE), (''artificially_slow_write_never_use_this'', Write ARTIFICIALLY_SLOW_WRITE_NEVER_USE_THIS), (''multiop_read'', Read TX_READONLY),
     (''multiop_readwrite'', Write TX_READWRITE), (''raft_handshake'', Raft RAFT_HANDSHAKE), (''raft_append_entries'', Raft RAFT_APPEND_ENTRIES),
     (''raft_info'', Raft RAFT_INFO), (''raft_leader_info'', Raft RAFT_LEADER_INFO), (''raft_request_vote'', Raft RAFT_REQUEST_VOTE),
     (''raft_request_pre_vote'', Raft RAFT_REQUEST_PRE_VOTE), (''raft_fetch'', Raft RAFT_FETCH), (''raft_attempt_coup'', Raft RAFT_ATTEMPT_COUP),
     (''raft_add_observer'', Raft RAFT_ADD_OBSERVER), (''raft_remove_member'', Raft RAFT_REMOVE_MEMBER), (''raft_promote_observer'', Raft RAFT_PROMOTE_OBSERVER),
     (''raft_demote_to_observer'', Raft RAFT_DEMOTE_TO_OBSERVER), (''raft_heartbeat'', Raft RAFT_HEARTBEAT), (''raft_fetch_last'', Raft RAFT_FETCH_LAST),
     (''raft_journal_scan'', Raft RAFT_JOURNAL_SCAN), (''raft_set_fsync_policy'', Raft RAFT_SET_FSYNC_POLICY), (''raft_observe_term'', Raft RAFT_OBSERVE_TERM),
     (''raft_journal_manual_compaction'', Raft RAFT_JOURNAL_MANUAL_COMPACTION), (''activate_stale_reads'', Raft ACTIVATE_STALE_READS), (''quarkdb_info'', Quarkdb QUARKDB_INFO),
     (''quarkdb_detach'', Quarkdb QUARKDB_DETACH), (''quarkdb_attach'', Quarkdb QUARKDB_ATTACH), (''quarkdb_start_resilvering'', Quarkdb QUARKDB_START_RESILVERING),
     (''quarkdb_finish_resilvering'', Quarkdb QUARKDB_FINISH_RESILVERING), (''quarkdb_resilvering_copy_file'', Quarkdb QUARKDB_RESILVERING_COPY_FILE), (''quarkdb_cancel_resilvering'', Quarkdb QUARKDB_CANCEL_RESILVERING),
     (''quarkdb_bulkload_finalize'', Quarkdb QUARKDB_BULKLOAD_FINALIZE), (''quarkdb_invalid_command'', Quarkdb QUARKDB_INVALID_COMMAND), (''quarkdb_manual_compaction'', Quarkdb QUARKDB_MANUAL_COMPACTION),
     (''quarkdb_level_stats'', Quarkdb QUARKDB_LEVEL_STATS), (''quarkdb_compression_stats'', Quarkdb QUARKDB_COMPRESSION_STATS), (''quarkdb_version'', Quarkdb QUARKDB_VERSION),
     (''quarkdb_checkpoint'', Quarkdb QUARKDB_CHECKPOINT), (''quarkdb_health'', Quarkdb QUARKDB_HEALTH), (''quarkdb_verify_checksum'', Quarkdb QUARKDB_VERIFY_CHECKSUM),
     (''raft_checkpoint'', Quarkdb QUARKDB_CHECKPOINT), (''recovery_info'', Recovery RECOVERY_INFO), (''recovery_set'', Recovery RECOVERY_SET),
     (''recovery_get'', Recovery RECOVERY_GET), (''recovery_del'', Recovery RECOVERY_DEL), (''recovery_force_reconfigure_journal'', Recovery RECOVERY_FORCE_RECONFIGURE_JOURNAL),
     (''recovery_scan'', Recovery RECOVERY_SCAN), (''recovery_get_all_versions'', Recovery RECOVERY_GET_ALL_VERSIONS), (''convert_string_to_int'', Control CONVERT_STRING_TO_INT),
     (''convert_int_to_string'', Control CONVERT_INT_TO_STRING), (''publish'', Pubsub PUBLISH), (''subscribe'', Pubsub SUBSCRIBE),
     (''psubscribe'', Pubsub PSUBSCRIBE), (''unsubscribe'', Pubsub UNSUBSCRIBE), (''punsubscribe'', Pubsub PUNSUBSCRIBE)]"

text \<open>\<open>std::map::find\<close> with the comparator: the entry that is neither less nor greater.\<close>

definition findCommand :: "bytes \<Rightarrow> RedisCommand" where
  "findCommand name =
     (case find (\<lambda>e. \<not> commandLess (fst e) name \<and> \<not> commandLess name (fst e)) redis_cmd_map of
        None \<Rightarrow> INVALID | Some e \<Rightarrow> snd e)"

lemma charValue_inj: "charValue a = charValue b \<Longrightarrow> a = b"
proof -
  assume "charValue a = charValue b"
  moreover have "int (of_char a) < 256" "int (of_char b) < 256"
    using nat_of_char_less_256 [of a] nat_of_char_less_256 [of b] by linarith+
  ultimately have "int (of_char a) = int (of_char b)" unfolding charValue_def Let_def by presburger
  then have "(of_char a :: nat) = of_char b" by linarith
  then show "a = b" by simp
qed

text \<open>The comparator identifies names that agree up to case, and up to dashes for underscores.\<close>

lemma commandLess_equiv:
  "\<not> commandLess a b \<and> \<not> commandLess b a \<longleftrightarrow> map normalizeChar a = map normalizeChar b"
proof (induction a b rule: commandLess.induct)
  case (1 a lhs b rhs)
  show ?case
  proof (cases "normalizeChar a = normalizeChar b")
    case False
    then have "charValue (normalizeChar a) \<noteq> charValue (normalizeChar b)" using charValue_inj by blast
    then have "charValue (normalizeChar a) < charValue (normalizeChar b) \<or> charValue (normalizeChar b) < charValue (normalizeChar a)"
      by linarith
    with False show ?thesis by auto
  qed (use 1 in simp)
qed auto

lemma findCommand_eq:
  "findCommand name = (case map_of (map (\<lambda>e. (map normalizeChar (fst e), snd e)) redis_cmd_map) (map normalizeChar name) of
     None \<Rightarrow> INVALID | Some c \<Rightarrow> c)"
proof -
  have "find (\<lambda>e. map normalizeChar (fst e) = n) es = None \<and> map_of (map (\<lambda>e. (map normalizeChar (fst e), snd e)) es) n = None
     \<or> (\<exists>e. find (\<lambda>e. map normalizeChar (fst e) = n) es = Some e
        \<and> map_of (map (\<lambda>e. (map normalizeChar (fst e), snd e)) es) n = Some (snd e))" for n and es :: "(bytes \<times> RedisCommand) list"
    by (induction es) auto
  from this [of "map normalizeChar name" redis_cmd_map] show ?thesis
    unfolding findCommand_def commandLess_equiv by auto
qed

text \<open>The names of the table are in normal form, so a name is looked up after it was normalized.\<close>

lemma normal_names: "list_all (\<lambda>e. list_all (\<lambda>c. normalizeChar c = c) (fst e)) redis_cmd_map"
  unfolding redis_cmd_map_def by (simp add: normalizeChar_def tolower_def Let_def)

lemma findCommand_normal:
  "findCommand name = (case map_of redis_cmd_map (map normalizeChar name) of None \<Rightarrow> INVALID | Some c \<Rightarrow> c)"
proof -
  have "map (\<lambda>e. (map normalizeChar (fst e), snd e)) redis_cmd_map = redis_cmd_map"
    using normal_names by (auto simp: list_all_iff map_idI intro!: map_idI)
  then show ?thesis by (simp only: findCommand_eq)
qed

lemmas normalize_name = findCommand_normal normalizeChar_def tolower_def Let_def char_of_def bit_Suc_0_iff
lemmas lookup_name = redis_cmd_map_def map_of.simps fst_conv snd_conv fun_upd_apply

lemma command_names:
  "findCommand ''SET'' = Write SET"
  "findCommand ''GET'' = Read GET"
  "findCommand ''HSET'' = Write HSET"
  "findCommand ''EXEC'' = Control EXEC"
  "findCommand ''MULTI'' = Control MULTI"
  "findCommand ''PING'' = Control PING"
  "findCommand ''TX_READONLY'' = Read TX_READONLY"
  "findCommand ''TX_READWRITE'' = Write TX_READWRITE"
  "findCommand ''LEASE_GET'' = Write LEASE_GET"
  "findCommand ''TIMESTAMPED_LEASE_GET'' = Write TIMESTAMPED_LEASE_GET"
  "findCommand ''SUBSCRIBE'' = Pubsub SUBSCRIBE"
  "findCommand ''JOURNAL_UPDATE_MEMBERS'' = INVALID"
  "findCommand ''JOURNAL_LEADERSHIP_MARKER'' = INVALID"
  by (simp_all add: normalize_name, unfold lookup_name, simp_all)

subsection \<open>Requests\<close>

record redis_request =
  contents :: "bytes list"
  command :: RedisCommand

abbreviation commandType :: "redis_request \<Rightarrow> CommandType" where
  "commandType r \<equiv> typeOf (command r)"

definition parseCommand :: "redis_request \<Rightarrow> redis_request" where
  "parseCommand r = r\<lparr>command := (case contents r of [] \<Rightarrow> INVALID | name # _ \<Rightarrow> findCommand name)\<rparr>"

definition emptyRequest :: redis_request where
  "emptyRequest = \<lparr>contents = [], command = INVALID\<rparr>"

definition request_push_back :: "bytes \<Rightarrow> redis_request \<Rightarrow> redis_request" where
  "request_push_back str r =
     (let r = r\<lparr>contents := contents r @ [str]\<rparr> in if length (contents r) = 1 then parseCommand r else r)"

definition invalidate :: "redis_request \<Rightarrow> redis_request" where
  "invalidate r = r\<lparr>command := INVALID\<rparr>"

definition mkRequest :: "bytes list \<Rightarrow> redis_request" where
  "mkRequest list = parseCommand \<lparr>contents = list, command = INVALID\<rparr>"

lemma mkRequest_simps [simp]:
  "contents (mkRequest xs) = xs" "command (mkRequest (x # xs)) = findCommand x" "command (mkRequest []) = INVALID"
  by (simp_all add: mkRequest_def parseCommand_def)

lemma request_push_all:
  "fold request_push_back xs emptyRequest = (if xs = [] then emptyRequest else mkRequest xs)"
proof (induction xs rule: rev_induct)
  case (snoc x xs)
  then show ?case
    by (cases xs) (simp_all add: request_push_back_def emptyRequest_def mkRequest_def parseCommand_def)
qed simp

subsection \<open>Filters\<close>

definition internalFilter :: "redis_request \<Rightarrow> redis_request" where
  "internalFilter req =
     (if command req = Write TIMESTAMPED_LEASE_RELEASE \<or> command req = Write TIMESTAMPED_LEASE_ACQUIRE
         \<or> command req = Write TIMESTAMPED_LEASE_GET then invalidate req else req)"

definition leaseTransform :: "u64 \<Rightarrow> redis_request \<Rightarrow> redis_request option" where
  "leaseTransform timestamp req =
     (let stamp = (\<lambda>name. parseCommand (req\<lparr>contents := (contents req)[0 := name] @ [unsignedIntToBinaryString timestamp]\<rparr>)) in
      if command req = Write LEASE_GET then Some (stamp ''TIMESTAMPED_LEASE_GET'')
      else if command req = Write LEASE_ACQUIRE then Some (stamp ''TIMESTAMPED_LEASE_ACQUIRE'')
      else if command req = Write LEASE_RELEASE then Some (stamp ''TIMESTAMPED_LEASE_RELEASE'')
      else None)"

definition isLeaseCommand :: "redis_request \<Rightarrow> bool" where
  "isLeaseCommand req \<longleftrightarrow> command req = Write LEASE_GET \<or> command req = Write LEASE_ACQUIRE \<or> command req = Write LEASE_RELEASE"

fun leaseTransformAll :: "u64 \<Rightarrow> redis_request list \<Rightarrow> redis_request list option" where
  "leaseTransformAll timestamp [] = Some []"
| "leaseTransformAll timestamp (req # reqs) = do {
     req \<leftarrow> (if isLeaseCommand req then leaseTransform timestamp req else Some req);
     reqs \<leftarrow> leaseTransformAll timestamp reqs;
     Some (req # reqs) }"

subsection \<open>Arguments of scans\<close>

record scan_arguments =
  scan_cursor :: bytes
  scan_count :: int
  scan_match :: bytes
  scan_matchloc :: bytes

text \<open>The left side of the sum is the error message.\<close>

fun parseScanOptions :: "bool \<Rightarrow> bool \<Rightarrow> bytes list \<Rightarrow> scan_arguments \<Rightarrow> bytes + scan_arguments" where
  "parseScanOptions supportMatch supportMatchloc [] args = Inr args"
| "parseScanOptions supportMatch supportMatchloc [_] args = Inl ''syntax error''"
| "parseScanOptions supportMatch supportMatchloc (opt # val # rest) args =
     (if caseInsensitiveEquals opt ''count'' then
        (if startsWith val ''-'' \<or> val = ''0'' then Inl ''syntax error''
         else case parseInt64 val of None \<Rightarrow> Inl ''value is not an integer or out of range''
         | Some n \<Rightarrow> parseScanOptions supportMatch supportMatchloc rest (args\<lparr>scan_count := n\<rparr>))
      else if caseInsensitiveEquals opt ''match'' \<and> supportMatch then
        parseScanOptions supportMatch supportMatchloc rest (args\<lparr>scan_match := val\<rparr>)
      else if caseInsensitiveEquals opt ''matchloc'' \<and> supportMatchloc then
        parseScanOptions supportMatch supportMatchloc rest (args\<lparr>scan_matchloc := val\<rparr>)
      else Inl ''syntax error'')"

definition parseScanCommand :: "bool \<Rightarrow> bool \<Rightarrow> bytes list \<Rightarrow> (bytes + scan_arguments) option" where
  "parseScanCommand supportMatch supportMatchloc args =
     (case args of [] \<Rightarrow> None
      | c # rest \<Rightarrow>
        (let go = (\<lambda>cur. parseScanOptions supportMatch supportMatchloc rest
                     \<lparr>scan_cursor = cur, scan_count = 100, scan_match = [], scan_matchloc = []\<rparr>) in
         Some (if c = ''0'' then go [] else if startsWith c ''next:'' then go (drop 5 c) else Inl ''invalid cursor'')))"

definition renderCursor :: "bytes \<Rightarrow> bytes" where
  "renderCursor newcursor = (if newcursor = [] then ''0'' else ''next:'' @ newcursor)"

text \<open>The cursor a scan reports is the one the next scan starts from.\<close>

lemma cursor_roundtrip:
  "parseScanCommand m l [renderCursor c] = Some (Inr \<lparr>scan_cursor = c, scan_count = 100, scan_match = [], scan_matchloc = []\<rparr>)"
  by (simp add: parseScanCommand_def renderCursor_def startsWith_def)

end
