(* ===== verification/Transactions.thy ===== *)
theory Transactions
  imports RedisCommands Formatters
begin

text \<open>
  Transactions (\<^verbatim>\<open>src/src/redis/Transaction.hh\<close>, \<^verbatim>\<open>src/src/redis/Transaction.cc\<close>), their encoding as a single
  request for the raft journal, and the handler of MULTI blocks (\<^verbatim>\<open>src/src/redis/MultiHandler.cc\<close>).

  The reader of an encoded transaction trusts the counts and lengths it finds: one that leaves the
  buffer makes the source read out of bounds, which is \<open>None\<close> here.
\<close>

subsection \<open>Transactions\<close>

record transaction =
  hasWrites :: bool
  tx_phantom :: bool
  requests :: "redis_request list"

definition emptyTransaction :: transaction where
  "emptyTransaction = \<lparr>hasWrites = False, tx_phantom = False, requests = []\<rparr>"

text \<open>The check on the request that was just added.\<close>

definition checkNthCommandForWrites :: "redis_request \<Rightarrow> transaction \<Rightarrow> transaction option" where
  "checkNthCommandForWrites lastreq tx = do {
     assert_that (commandType lastreq = READ \<or> commandType lastreq = WRITE);
     Some (if commandType lastreq = WRITE then tx\<lparr>hasWrites := True\<rparr> else tx) }"

definition tx_push_back :: "redis_request \<Rightarrow> transaction \<Rightarrow> transaction option" where
  "tx_push_back req tx = checkNthCommandForWrites req (tx\<lparr>requests := requests tx @ [req]\<rparr>)"

text \<open>The constructor that wraps a single request.\<close>

definition singleTransaction :: "redis_request \<Rightarrow> transaction option" where
  "singleTransaction req = do {
     tx \<leftarrow> tx_push_back req emptyTransaction;
     Some (tx\<lparr>tx_phantom := True\<rparr>) }"

definition expectedResponses :: "transaction \<Rightarrow> int" where
  "expectedResponses tx = (if tx_phantom tx then int (length (requests tx)) else 1)"

subsection \<open>Encoding\<close>

definition serializeRequestToString :: "redis_request \<Rightarrow> bytes" where
  "serializeRequestToString req =
     intToBinaryString (int (length (contents req)))
     @ concat (map (\<lambda>x. intToBinaryString (int (length x)) @ x) (contents req))"

definition tx_serialize :: "transaction \<Rightarrow> bytes" where
  "tx_serialize tx = intToBinaryString (int (length (requests tx))) @ concat (map serializeRequestToString (requests tx))"

definition readInt :: "bytes \<Rightarrow> (int \<times> bytes) option" where
  "readInt pos = (if length pos < 8 then None else Some (binaryStringToInt pos, drop 8 pos))"

fun readParts :: "nat \<Rightarrow> bytes \<Rightarrow> redis_request \<Rightarrow> (redis_request \<times> bytes) option" where
  "readParts 0 pos req = Some (req, pos)"
| "readParts (Suc n) pos req = do {
     (len, pos) \<leftarrow> readInt pos;
     assert_that (0 \<le> len \<and> len \<le> int (length pos));
     readParts n (drop (nat len) pos) (request_push_back (take (nat len) pos) req) }"

fun readRequests :: "nat \<Rightarrow> bytes \<Rightarrow> transaction \<Rightarrow> transaction option" where
  "readRequests 0 pos tx = Some tx"
| "readRequests (Suc n) pos tx = do {
     (totalParts, pos) \<leftarrow> readInt pos;
     (req, pos) \<leftarrow> readParts (nat totalParts) pos emptyRequest;
     tx \<leftarrow> tx_push_back req tx;
     readRequests n pos tx }"

text \<open>\<open>Some (False, _)\<close>: the source returns \<open>false\<close>.\<close>

definition deserializeBlob :: "bytes \<Rightarrow> transaction \<Rightarrow> (bool \<times> transaction) option" where
  "deserializeBlob src tx = do {
     assert_that (requests tx = []);
     if src = [] then Some (False, tx)
     else do {
       (totalRequests, pos) \<leftarrow> readInt src;
       assert_that (0 \<le> totalRequests);
       tx \<leftarrow> readRequests (nat totalRequests) pos tx;
       Some (True, tx) } }"

definition tx_deserialize :: "redis_request \<Rightarrow> transaction \<Rightarrow> (bool \<times> transaction) option" where
  "tx_deserialize req tx = do {
     assert_that (requests tx = []);
     if length (contents req) \<noteq> 3 then Some (False, tx)
     else if command req \<noteq> Read TX_READONLY \<and> command req \<noteq> Write TX_READWRITE then Some (False, tx)
     else if contents req ! 2 \<noteq> ''phantom'' \<and> contents req ! 2 \<noteq> ''real'' then Some (False, tx)
     else do {
       (ok, tx) \<leftarrow> deserializeBlob (contents req ! 1) tx;
       if \<not> ok then Some (False, tx)
       else do {
         assert_that (if command req = Read TX_READONLY then \<not> hasWrites tx else hasWrites tx);
         Some (True, tx\<lparr>tx_phantom := (contents req ! 2 = ''phantom'')\<rparr>) } } }"

definition getFusedCommand :: "transaction \<Rightarrow> bytes" where
  "getFusedCommand tx = (if hasWrites tx then ''TX_READWRITE'' else ''TX_READONLY'')"

text \<open>\<open>requests[0]\<close> of a transaction with one request; the request is built part by part.\<close>

definition toRedisRequest :: "transaction \<Rightarrow> redis_request" where
  "toRedisRequest tx =
     (if tx_phantom tx \<and> length (requests tx) = 1 then hd (requests tx)
      else fold request_push_back
        [getFusedCommand tx, tx_serialize tx, if tx_phantom tx then ''phantom'' else ''real''] emptyRequest)"

definition fromRedisRequest :: "redis_request \<Rightarrow> transaction \<Rightarrow> transaction option" where
  "fromRedisRequest req tx = do {
     assert_that (command req = Read TX_READONLY \<or> command req = Write TX_READWRITE);
     assert_that (length (contents req) = 3);
     (ok, tx) \<leftarrow> deserializeBlob (contents req ! 1) tx;
     assert_that ok;
     if contents req ! 2 = ''phantom'' then Some (tx\<lparr>tx_phantom := True\<rparr>)
     else if contents req ! 2 = ''real'' then Some (tx\<lparr>tx_phantom := False\<rparr>)
     else None }"

subsection \<open>Round trip\<close>

text \<open>
  The transactions the program builds: requests as a client sends them, reads and writes only, and
  \<open>hasWrites\<close> is what the requests say.
\<close>

definition plainRequest :: "redis_request \<Rightarrow> bool" where
  "plainRequest r \<longleftrightarrow> contents r \<noteq> [] \<and> r = mkRequest (contents r)"

definition readOrWrite :: "redis_request \<Rightarrow> bool" where
  "readOrWrite r \<longleftrightarrow> commandType r = READ \<or> commandType r = WRITE"

definition txInv :: "transaction \<Rightarrow> bool" where
  "txInv tx \<longleftrightarrow> (\<forall>r \<in> set (requests tx). readOrWrite r) \<and> hasWrites tx = (\<exists>r \<in> set (requests tx). commandType r = WRITE)"

definition shortParts :: "transaction \<Rightarrow> bool" where
  "shortParts tx \<longleftrightarrow> length (requests tx) < 2 ^ 63
     \<and> (\<forall>r \<in> set (requests tx). plainRequest r \<and> length (contents r) < 2 ^ 63 \<and> (\<forall>x \<in> set (contents r). length x < 2 ^ 63))"

lemma emptyTransaction_inv [simp]: "txInv emptyTransaction"
  by (simp add: txInv_def emptyTransaction_def)

lemma tx_push_back_inv:
  assumes "txInv tx"
  shows "tx_push_back r tx = (if readOrWrite r then Some (tx\<lparr>requests := requests tx @ [r], hasWrites := (hasWrites tx \<or> commandType r = WRITE)\<rparr>) else None)"
    "tx_push_back r tx = Some tx' \<Longrightarrow> txInv tx'"
  using assms by (auto simp: tx_push_back_def checkNthCommandForWrites_def readOrWrite_def txInv_def assert_that_def split: if_splits)

lemma readInt_append [simp]: "int64 i \<Longrightarrow> readInt (intToBinaryString i @ rest) = Some (i, rest)"
  by (simp add: readInt_def)

lemma readParts_ok:
  assumes "\<forall>x \<in> set xs. length x < 2 ^ 63"
  shows "readParts (length xs) (concat (map (\<lambda>x. intToBinaryString (int (length x)) @ x) xs) @ rest) req
    = Some (fold request_push_back xs req, rest)"
  using assms
proof (induction xs arbitrary: req)
  case (Cons x xs)
  then have "int64 (int (length x))" by (auto simp: int64_def)
  with Cons show ?case by simp
qed simp

lemma readRequests_ok:
  assumes "\<forall>r \<in> set rs. plainRequest r \<and> readOrWrite r \<and> length (contents r) < 2 ^ 63 \<and> (\<forall>x \<in> set (contents r). length x < 2 ^ 63)"
    and "txInv tx"
  shows "readRequests (length rs) (concat (map serializeRequestToString rs) @ rest) tx
    = Some (tx\<lparr>requests := requests tx @ rs, hasWrites := (hasWrites tx \<or> (\<exists>r \<in> set rs. commandType r = WRITE))\<rparr>)"
  using assms
proof (induction rs arbitrary: tx)
  case (Cons r rs)
  have r: "contents r \<noteq> []" "r = mkRequest (contents r)" "readOrWrite r" "int64 (int (length (contents r)))"
      "\<forall>x \<in> set (contents r). length x < 2 ^ 63"
    using Cons.prems(1) by (auto simp: plainRequest_def int64_def)
  have p: "readParts (length (contents r)) (concat (map (\<lambda>x. intToBinaryString (int (length x)) @ x) (contents r)) @ rest') emptyRequest
      = Some (r, rest')" for rest'
    using readParts_ok [OF r(5), of rest' emptyRequest] r(1,2) by (simp add: request_push_all)
  let ?tx = "tx\<lparr>requests := requests tx @ [r], hasWrites := (hasWrites tx \<or> commandType r = WRITE)\<rparr>"
  have t: "tx_push_back r tx = Some ?tx" "txInv ?tx" using tx_push_back_inv [OF Cons.prems(2), of r] r(3) by simp_all
  have "readRequests (length rs) (concat (map serializeRequestToString rs) @ rest) ?tx
    = Some (?tx\<lparr>requests := requests ?tx @ rs, hasWrites := (hasWrites ?tx \<or> (\<exists>r \<in> set rs. commandType r = WRITE))\<rparr>)"
    by (rule Cons.IH [OF _ t(2)]) (use Cons.prems(1) in simp)
  with p t(1) r(4) show ?case by (simp add: serializeRequestToString_def [of r])
qed simp

lemma deserializeBlob_serialize:
  assumes "txInv tx" "shortParts tx" "txInv t0" "requests t0 = []"
  shows "deserializeBlob (tx_serialize tx) t0 = Some (True, t0\<lparr>requests := requests tx, hasWrites := hasWrites tx\<rparr>)"
proof -
  have "int64 (int (length (requests tx)))" using assms(2) by (auto simp: shortParts_def int64_def)
  moreover have "tx_serialize tx \<noteq> []" by (simp add: tx_serialize_def) (metis length_intToBinaryString list.size(3) zero_neq_numeral)
  moreover have "readRequests (length (requests tx)) (concat (map serializeRequestToString (requests tx)) @ []) t0
    = Some (t0\<lparr>requests := requests t0 @ requests tx, hasWrites := (hasWrites t0 \<or> (\<exists>r \<in> set (requests tx). commandType r = WRITE))\<rparr>)"
    by (rule readRequests_ok [OF _ assms(3)]) (use assms(1,2) in \<open>auto simp: shortParts_def txInv_def\<close>)
  moreover have "\<not> hasWrites t0" using assms(3,4) by (simp add: txInv_def)
  ultimately show ?thesis
    using assms(1,4) readInt_append [of "int (length (requests tx))" "concat (map serializeRequestToString (requests tx))"]
    by (simp add: deserializeBlob_def tx_serialize_def [of tx] txInv_def [of tx])
qed

lemma deserialize_fused:
  assumes "txInv tx" "shortParts tx" "\<not> (tx_phantom tx \<and> length (requests tx) = 1)"
  shows "tx_deserialize (toRedisRequest tx) emptyTransaction = Some (True, tx)"
    and "fromRedisRequest (toRedisRequest tx) emptyTransaction = Some tx"
    and "commandType (toRedisRequest tx) = (if hasWrites tx then WRITE else READ)"
    and "command (toRedisRequest tx) = (if hasWrites tx then Write TX_READWRITE else Read TX_READONLY)"
    and "plainRequest (toRedisRequest tx)"
proof -
  have r: "toRedisRequest tx = mkRequest [getFusedCommand tx, tx_serialize tx, if tx_phantom tx then ''phantom'' else ''real'']"
    using assms(3) request_push_all [of "[getFusedCommand tx, tx_serialize tx, if tx_phantom tx then ''phantom'' else ''real'']"]
    by (auto simp: toRedisRequest_def)
  have c: "command (toRedisRequest tx) = (if hasWrites tx then Write TX_READWRITE else Read TX_READONLY)"
    by (simp add: r getFusedCommand_def command_names)
  show "commandType (toRedisRequest tx) = (if hasWrites tx then WRITE else READ)" by (simp add: c)
  show "command (toRedisRequest tx) = (if hasWrites tx then Write TX_READWRITE else Read TX_READONLY)" by (rule c)
  show "plainRequest (toRedisRequest tx)" by (simp add: r plainRequest_def)
  have b: "deserializeBlob (tx_serialize tx) emptyTransaction = Some (True, emptyTransaction\<lparr>requests := requests tx, hasWrites := hasWrites tx\<rparr>)"
    by (rule deserializeBlob_serialize [OF assms(1,2)]) (simp_all add: emptyTransaction_def txInv_def)
  have e: "emptyTransaction\<lparr>requests := requests tx, hasWrites := hasWrites tx, tx_phantom := tx_phantom tx\<rparr> = tx"
    by (simp add: emptyTransaction_def)
  have x: "contents (toRedisRequest tx) = [getFusedCommand tx, tx_serialize tx, if tx_phantom tx then ''phantom'' else ''real'']"
    by (simp add: r)
  show "tx_deserialize (toRedisRequest tx) emptyTransaction = Some (True, tx)"
    using b e by (simp add: tx_deserialize_def c x) (simp add: emptyTransaction_def)
  show "fromRedisRequest (toRedisRequest tx) emptyTransaction = Some tx"
    using b e by (simp add: fromRedisRequest_def c x)
qed

subsection \<open>MULTI blocks\<close>

record multi_handler =
  mh_transaction :: transaction
  activated :: bool

definition newMultiHandler :: multi_handler where
  "newMultiHandler = \<lparr>mh_transaction = emptyTransaction, activated = False\<rparr>"

text \<open>What the connection sees of a step: a reply, a transaction given to the dispatcher, or nothing.\<close>

datatype multi_effect = Reply bytes | Execute transaction | Nothing

definition activatePhantom :: "multi_handler \<Rightarrow> multi_handler option" where
  "activatePhantom h =
     (if activated h then do { assert_that (tx_phantom (mh_transaction h)); Some h }
      else Some (h\<lparr>activated := True, mh_transaction := (mh_transaction h)\<lparr>tx_phantom := True\<rparr>\<rparr>))"

definition multiProcess :: "redis_request \<Rightarrow> multi_handler \<Rightarrow> (multi_effect \<times> multi_handler) option" where
  "multiProcess req h = do {
     assert_that (activated h \<or> command req = Control MULTI);
     if command req = Control DISCARD then
       Some (Reply f_ok, \<lparr>mh_transaction = emptyTransaction, activated = False\<rparr>)
     else if command req = Control MULTI then
       (if length (contents req) \<noteq> 1 then Some (Reply (f_errArgs (contents req ! 0)), h)
        else if activated h then Some (Reply (f_err ''MULTI calls can not be nested''), h)
        else Some (Reply f_ok, h\<lparr>activated := True, mh_transaction := (mh_transaction h)\<lparr>tx_phantom := False\<rparr>\<rparr>))
     else if command req = Control EXEC then
       (if requests (mh_transaction h) = [] then do {
          assert_that (\<not> tx_phantom (mh_transaction h));
          Some (Reply (f_vector []), h\<lparr>activated := False\<rparr>) }
        else Some (Execute (mh_transaction h), \<lparr>mh_transaction = emptyTransaction, activated = False\<rparr>))
     else if commandType req \<noteq> READ \<and> commandType req \<noteq> WRITE then
       Some (Reply (f_err ''Only reads and writes allowed within MULTI/EXEC blocks.''), h)
     else do {
       tx \<leftarrow> tx_push_back req (mh_transaction h);
       Some (if tx_phantom tx then Nothing else Reply (f_status ''QUEUED''), h\<lparr>mh_transaction := tx\<rparr>) } }"

definition execRequest :: redis_request where
  "execRequest = mkRequest [''EXEC'']"

definition finalizePhantomTransaction :: "multi_handler \<Rightarrow> (multi_effect \<times> multi_handler) option" where
  "finalizePhantomTransaction h =
     (if \<not> activated h \<or> \<not> tx_phantom (mh_transaction h) then Some (Nothing, h)
      else if requests (mh_transaction h) = [] then Some (Nothing, h)
      else multiProcess execRequest h)"

text \<open>
  A handler that is not active holds nothing; a phantom block is opened by the write that starts
  it, and holds writes only.
\<close>

definition multiInv :: "multi_handler \<Rightarrow> bool" where
  "multiInv h \<longleftrightarrow> txInv (mh_transaction h)
     \<and> (\<not> activated h \<longrightarrow> requests (mh_transaction h) = [] \<and> \<not> tx_phantom (mh_transaction h))"

lemma newMultiHandler_inv: "multiInv newMultiHandler"
  by (simp add: multiInv_def newMultiHandler_def emptyTransaction_def txInv_def)

lemma txInv_phantom [simp]: "txInv (tx\<lparr>tx_phantom := b\<rparr>) = txInv tx"
  by (simp add: txInv_def)

lemma multiProcess_inv:
  assumes inv: "multiInv h" and run: "multiProcess req h = Some (eff, h')"
  shows "multiInv h'" "eff = Execute tx \<Longrightarrow> txInv tx \<and> requests tx \<noteq> [] \<and> tx = mh_transaction h"
proof -
  have push: "txInv t" if "tx_push_back req (mh_transaction h) = Some t" for t
    using tx_push_back_inv(2) that inv by (auto simp: multiInv_def)
  show "multiInv h'"
    using inv run push
    by (auto simp: multiProcess_def multiInv_def assert_that_def Option.bind_eq_Some_conv emptyTransaction_def split: if_splits)
      (auto simp: txInv_def)
  show "eff = Execute tx \<Longrightarrow> txInv tx \<and> requests tx \<noteq> [] \<and> tx = mh_transaction h"
    using inv run
    by (auto simp: multiProcess_def multiInv_def assert_that_def Option.bind_eq_Some_conv split: if_splits)
qed

end
