(* ===== verification/ReverseLocators.thy ===== *)
theory ReverseLocators
  imports KeyLocators
begin

text \<open>
  Reading keys of the store back (\<^verbatim>\<open>src/src/storage/ReverseLocator.hh\<close>): the extractor of an escaped
  prefix and the reverse locator.  The source looks at the characters around a hash; one that is
  outside of the string (before the first, behind the last) is \<open>None\<close>, an access out of bounds.
  The extractor inverts the escaping of \<open>KeyLocators\<close> for every key name that does not end in a bar.
\<close>

subsection \<open>Prefixes\<close>

text \<open>The loop of \<open>extractPrefix\<close>: the character before, the key so far, the index, and what is left.\<close>

fun extractLoop :: "char option \<Rightarrow> bytes \<Rightarrow> nat \<Rightarrow> bytes \<Rightarrow> (nat \<times> bytes) option" where
  "extractLoop prev key i [] = Some (0, key)"
| "extractLoop prev key i (c # rest) =
     (if c \<noteq> CHR ''#'' then extractLoop (Some c) (key @ [c]) (i + 1) rest
      else case rest of [] \<Rightarrow> None
      | d # rest' \<Rightarrow>
        (case prev of None \<Rightarrow> None
         | Some p \<Rightarrow>
           (if d = CHR ''#'' \<and> p \<noteq> CHR ''|'' then Some (i + 2, key)
            else if d = CHR ''#'' \<and> p = CHR ''|'' \<and> rest' \<noteq> [] \<and> hd rest' \<noteq> CHR ''#'' then Some (i + 2, key)
            else if d = CHR ''#'' \<and> p = CHR ''|'' \<and> rest' \<noteq> [] \<and> hd rest' = CHR ''#'' then Some (i + 3, butlast key @ ''#'')
            else do {
              assert_that (p = CHR ''|'');
              extractLoop (Some c) (butlast key @ ''#'') (i + 1) rest })))"

definition extractPrefix :: "bytes \<Rightarrow> (nat \<times> bytes) option" where
  "extractPrefix dkey = extractLoop None [] 0 dkey"

record prefix_extractor =
  parsingOk :: bool
  ex_slice :: bytes
  unescaped :: bytes
  boundary :: nat

fun extractorLoop :: "bytes \<Rightarrow> nat \<Rightarrow> char \<Rightarrow> bytes \<Rightarrow> prefix_extractor option" where
  "extractorLoop sl i prev [] = Some \<lparr>parsingOk = False, ex_slice = sl, unescaped = [], boundary = 0\<rparr>"
| "extractorLoop sl i prev (c # rest) =
     (if c = CHR ''#'' \<and> prev = CHR ''|'' then do {
        (b, u) \<leftarrow> extractPrefix sl;
        Some \<lparr>parsingOk = (b \<noteq> 0), ex_slice = sl, unescaped = u, boundary = b\<rparr> }
      else if c = CHR ''#'' \<and> prev = CHR ''#'' then
        Some \<lparr>parsingOk = True, ex_slice = sl, unescaped = [], boundary = i + 1\<rparr>
      else extractorLoop sl (i + 1) c rest)"

text \<open>\<open>parse\<close>; its result is the field \<open>parsingOk\<close>.\<close>

definition extractorParse :: "bytes \<Rightarrow> prefix_extractor option" where
  "extractorParse sl =
     (case sl of [] \<Rightarrow> Some \<lparr>parsingOk = False, ex_slice = sl, unescaped = [], boundary = 0\<rparr>
      | c # rest \<Rightarrow> extractorLoop sl 1 c rest)"

definition getOriginalPrefix :: "prefix_extractor \<Rightarrow> bytes option" where
  "getOriginalPrefix e = do {
     assert_that (parsingOk e);
     Some (if unescaped e \<noteq> [] then unescaped e else take (boundary e - 2) (ex_slice e)) }"

definition getRawPrefix :: "prefix_extractor \<Rightarrow> bytes option" where
  "getRawPrefix e = do { assert_that (parsingOk e); Some (take (boundary e - 2) (ex_slice e)) }"

definition getRawSuffix :: "prefix_extractor \<Rightarrow> bytes option" where
  "getRawSuffix e = do { assert_that (parsingOk e); Some (drop (boundary e) (ex_slice e)) }"

subsection \<open>Reverse locators\<close>

record reverse_locator =
  rl_slice :: bytes
  rl_keyType :: KeyType
  firstChunk :: prefix_extractor

definition reverseLocator :: "bytes \<Rightarrow> reverse_locator option" where
  "reverseLocator sl = do {
     assert_that (sl \<noteq> []);
     let kt = parseKeyType (hd sl);
     let blank = \<lparr>parsingOk = False, ex_slice = [], unescaped = [], boundary = 0\<rparr>;
     if kt = kParseError \<or> kt = kString then Some \<lparr>rl_slice = sl, rl_keyType = kt, firstChunk = blank\<rparr>
     else do {
       chunk \<leftarrow> extractorParse (tl sl);
       Some \<lparr>rl_slice = sl, rl_keyType = (if \<not> parsingOk chunk \<or> boundary chunk = 0 then kParseError else kt), firstChunk = chunk\<rparr> } }"

definition getOriginalKey :: "reverse_locator \<Rightarrow> bytes option" where
  "getOriginalKey l = do {
     assert_that (rl_keyType l \<noteq> kParseError);
     if rl_keyType l = kString then Some (tl (rl_slice l)) else getOriginalPrefix (firstChunk l) }"

definition getField :: "reverse_locator \<Rightarrow> bytes option" where
  "getField l = do {
     assert_that (rl_keyType l \<noteq> kParseError \<and> rl_keyType l \<noteq> kString);
     getRawSuffix (firstChunk l) }"

definition getRawPrefixUntilBoundary :: "reverse_locator \<Rightarrow> bytes option" where
  "getRawPrefixUntilBoundary l = do {
     assert_that (rl_keyType l \<noteq> kParseError \<and> rl_keyType l \<noteq> kString);
     assert_that (parsingOk (firstChunk l));
     Some (take (boundary (firstChunk l) + 1) (rl_slice l)) }"

definition isLocalityIndex :: "reverse_locator \<Rightarrow> bool option" where
  "isLocalityIndex l =
     (if rl_keyType l \<noteq> kLocalityHash then Some False
      else do {
        field \<leftarrow> getRawSuffix (firstChunk l);
        assert_that (field \<noteq> []);
        Some (hd field = kIndex) })"

subsection \<open>The extractor inverts the escaping\<close>

lemma extractLoop_escaped:
  assumes "okKey k" "k = [] \<longrightarrow> prev \<noteq> None \<and> prev \<noteq> Some CHR ''|''"
  shows "extractLoop prev key i (appendEscaped k @ f) = Some (i + length (appendEscaped k), key @ k)"
  using assms
proof (induction k arbitrary: prev key i)
  case Nil
  then obtain p where "prev = Some p" "p \<noteq> CHR ''|''" by auto
  then show ?case by (simp add: appendEscaped_def)
next
  case (Cons c k)
  have ok: "okKey k" using Cons.prems(1) by (simp add: okKey_Cons split: if_splits)
  show ?case
  proof (cases "c = CHR ''#''")
    case False
    have "k = [] \<longrightarrow> c \<noteq> CHR ''|''" using Cons.prems(1) by (simp add: okKey_Cons)
    with Cons.IH [OF ok, of "Some c" "key @ [c]" "i + 1"] False show ?thesis
      by (simp add: appendEscaped_def)
  next
    case True
    show ?thesis
    proof (cases k)
      case Nil
      then show ?thesis using True by (simp add: appendEscaped_def)
    next
      case (Cons d k')
      then obtain r where r: "appendEscaped k @ f = (if d = CHR ''#'' then CHR ''|'' else d) # r"
        by (cases "d = CHR ''#''") (auto simp: appendEscaped_def)
      have "extractLoop (Some CHR ''#'') (key @ ''#'') (i + 2) (appendEscaped k @ f)
          = Some (i + 2 + length (appendEscaped k), (key @ ''#'') @ k)"
        by (rule Cons.IH [OF ok]) (use Cons in auto)
      then show ?thesis using True r by (simp add: appendEscaped_def)
    qed
  qed
qed

lemma extractorLoop_heavy:
  assumes "CHR ''#'' \<in> set k" "prev \<noteq> CHR ''#''"
  shows "extractorLoop sl i prev (appendEscaped k @ f) =
    do { (b, u) \<leftarrow> extractPrefix sl; Some \<lparr>parsingOk = (b \<noteq> 0), ex_slice = sl, unescaped = u, boundary = b\<rparr> }"
  using assms
proof (induction k arbitrary: prev i)
  case (Cons c k)
  show ?case
  proof (cases "c = CHR ''#''")
    case False
    with Cons.IH [of c] Cons.prems show ?thesis by (simp add: appendEscaped_def)
  qed (simp add: appendEscaped_def)
qed simp

lemma extractorLoop_plain:
  assumes "CHR ''#'' \<notin> set k" "okKey k" "prev \<noteq> CHR ''#''" "k = [] \<longrightarrow> prev \<noteq> CHR ''|''"
  shows "extractorLoop sl i prev (appendEscaped k @ f) =
    Some \<lparr>parsingOk = True, ex_slice = sl, unescaped = [], boundary = i + length k + 2\<rparr>"
  using assms
proof (induction k arbitrary: prev i)
  case Nil
  then show ?case by (simp add: appendEscaped_def)
next
  case (Cons c k)
  have "okKey k" "k = [] \<longrightarrow> c \<noteq> CHR ''|''" using Cons.prems(2) by (simp_all add: okKey_Cons split: if_splits)
  with Cons.IH [of c] Cons.prems show ?case by (auto simp: appendEscaped_def)
qed

lemma escapeHash_plain: "CHR ''#'' \<notin> set k \<Longrightarrow> escapeHash k = k"
  by (induction k) auto

lemma extractorParse_loop: "extractorParse (appendEscaped k @ f) = extractorLoop (appendEscaped k @ f) 0 CHR 0x00 (appendEscaped k @ f)"
proof (cases "appendEscaped k @ f")
  case Nil
  then show ?thesis by (simp add: appendEscaped_def)
next
  case (Cons c rest)
  show ?thesis unfolding Cons by (simp add: extractorParse_def)
qed

lemma extractor_ok:
  assumes "okKey k"
  obtains e where "extractorParse (appendEscaped k @ f) = Some e" "parsingOk e" "boundary e = length (appendEscaped k)"
    and "getOriginalPrefix e = Some k" "getRawSuffix e = Some f" "getRawPrefix e = Some (escapeHash k)"
proof (cases "CHR ''#'' \<in> set k")
  case True
  then have "k \<noteq> []" by auto
  then have "extractPrefix (appendEscaped k @ f) = Some (length (appendEscaped k), k)"
    using extractLoop_escaped [OF assms, of None "[]" 0 f] by (simp add: extractPrefix_def)
  moreover have "length (appendEscaped k) \<noteq> 0" by (simp add: appendEscaped_def)
  ultimately have "extractorParse (appendEscaped k @ f)
      = Some \<lparr>parsingOk = True, ex_slice = appendEscaped k @ f, unescaped = k, boundary = length (appendEscaped k)\<rparr>"
    using extractorLoop_heavy [OF True, of "CHR 0x00" "appendEscaped k @ f" 0 f] by (simp add: extractorParse_loop)
  then show thesis by (rule that)
      (use \<open>k \<noteq> []\<close> in \<open>simp_all add: getOriginalPrefix_def getRawSuffix_def getRawPrefix_def appendEscaped_def\<close>)
next
  case False
  have "extractorParse (appendEscaped k @ f)
      = Some \<lparr>parsingOk = True, ex_slice = appendEscaped k @ f, unescaped = [], boundary = length k + 2\<rparr>"
    using extractorLoop_plain [OF False assms, of "CHR 0x00" "appendEscaped k @ f" 0 f] by (simp add: extractorParse_loop)
  then show thesis by (rule that)
      (simp_all add: getOriginalPrefix_def getRawSuffix_def getRawPrefix_def appendEscaped_def escapeHash_plain [OF False])
qed

text \<open>Of every field of a container, the key and the field name are read back.\<close>

lemma reverseLocator_ok:
  assumes "okKey k" "kt \<in> {kHash, kSet, kDeque, kLocalityHash, kVersionedHash}"
  shows "\<exists>l. reverseLocator (fieldKey kt k f) = Some l \<and> rl_keyType l = kt \<and> getOriginalKey l = Some k
    \<and> getField l = Some f \<and> getRawPrefixUntilBoundary l = Some (fieldPrefix kt k)"
proof -
  obtain e where e: "extractorParse (appendEscaped k @ f) = Some e" "parsingOk e" "boundary e = length (appendEscaped k)"
      "getOriginalPrefix e = Some k" "getRawSuffix e = Some f"
    by (rule extractor_ok [OF assms(1)])
  have kt: "parseKeyType (keyTypeChar kt) = kt" "kt \<noteq> kParseError" "kt \<noteq> kString"
    using assms(2) by (auto simp: parseKeyType_def)
  have "length (appendEscaped k) \<noteq> 0" by (simp add: appendEscaped_def)
  with e kt have "reverseLocator (fieldKey kt k f) = Some \<lparr>rl_slice = fieldKey kt k f, rl_keyType = kt, firstChunk = e\<rparr>"
    by (simp add: reverseLocator_def fieldKey_def fieldPrefix_def Let_def)
  with e kt show ?thesis
    by (simp add: getOriginalKey_def getField_def getRawPrefixUntilBoundary_def fieldKey_def fieldPrefix_def)
qed

end
