(* ===== verification/GlobMatching.thy ===== *)
theory GlobMatching
  imports RedisCommands
begin

text \<open>
  Glob-style patterns: \<open>stringmatchlen\<close> of \<^verbatim>\<open>src/deps/StringMatchLen.h\<close>, without the
  case-insensitive mode, which the program never uses.

  The C code moves two pointers and two remaining lengths.  The pointer and the remaining length of
  a string always change together, so a position stands for both: \<open>i\<close> in the pattern, whose length is
  \<open>plen\<close>, and \<open>k\<close> in the string, whose length is \<open>slen\<close>.  The code may look one byte behind the end, or
  further; \<open>pm\<close> and \<open>sm\<close> are the strings with the one byte behind them, and reading behind
  that is \<^const>\<open>None\<close>.

  The lengths are parameters of type \<open>int\<close> in C and natural numbers here.  The patterns and names the
  program passes are elements of requests or names made of them, and the parser reads no element of \<open>2 ^ 31\<close> bytes
  or more, so the conversion changes nothing; \<open>pattern_equivalence\<close> has the bound as a hypothesis.
\<close>

definition readAt :: "bytes \<Rightarrow> nat \<Rightarrow> char option" where
  "readAt mem i = (if i < length mem then Some (mem ! i) else None)"

lemma readAt_Some: "readAt mem i = Some c \<longleftrightarrow> i < length mem \<and> mem ! i = c"
  by (simp add: readAt_def)

text \<open>\<open>while (pattern[1] == '*')\<close>.\<close>

function skipStars :: "bytes \<Rightarrow> nat \<Rightarrow> nat option" where
  "skipStars pm i = do { c \<leftarrow> readAt pm (i + 1); if c = CHR ''*'' then skipStars pm (i + 1) else Some i }"
  by pat_completeness auto
termination by (relation "measure (\<lambda>(pm, i). length pm - i)") (auto simp: readAt_Some)

text \<open>\<open>while (*pattern == '*')\<close>.\<close>

function skipTrailing :: "bytes \<Rightarrow> nat \<Rightarrow> nat option" where
  "skipTrailing pm i = do { c \<leftarrow> readAt pm i; if c = CHR ''*'' then skipTrailing pm (i + 1) else Some i }"
  by pat_completeness auto
termination by (relation "measure (\<lambda>(pm, i). length pm - i)") (auto simp: readAt_Some)

definition inRange :: "char \<Rightarrow> char \<Rightarrow> char \<Rightarrow> bool" where
  "inRange s e c = (let first = charValue s; final = charValue e;
      (first, final) = (if final < first then (final, first) else (first, final))
    in first \<le> charValue c \<and> charValue c \<le> final)"

text \<open>The loop over the contents of a bracket; it stops on the closing bracket or one before the end.\<close>

function bracketLoop :: "bytes \<Rightarrow> nat \<Rightarrow> bytes \<Rightarrow> nat \<Rightarrow> nat \<Rightarrow> bool \<Rightarrow> (nat \<times> bool) option" where
  "bracketLoop pm plen sm k i hit = do {
     p \<leftarrow> readAt pm i;
     if p = CHR 0x5C then do {
       p1 \<leftarrow> readAt pm (i + 1);
       c \<leftarrow> readAt sm k;
       bracketLoop pm plen sm k (i + 2) (hit \<or> p1 = c) }
     else if p = CHR '']'' then Some (i, hit)
     else if i = plen then Some (i - 1, hit)
     else do {
       q \<leftarrow> readAt pm (i + 1);
       if q = CHR ''-'' \<and> i + 3 \<le> plen then do {
         e \<leftarrow> readAt pm (i + 2);
         c \<leftarrow> readAt sm k;
         bracketLoop pm plen sm k (i + 3) (hit \<or> inRange p e c) }
       else do {
         c \<leftarrow> readAt sm k;
         bracketLoop pm plen sm k (i + 1) (hit \<or> p = c) } } }"
  by pat_completeness auto
termination by (relation "measure (\<lambda>(pm, plen, sm, k, i, hit). length pm - i)") (auto simp: readAt_Some)

declare skipStars.simps [simp del] skipTrailing.simps [simp del] bracketLoop.simps [simp del]

text \<open>
  The cases of the switch that consume one character of the string: the position of the last
  character of the pattern they use, or no match.
\<close>

definition globStep :: "bytes \<Rightarrow> nat \<Rightarrow> bytes \<Rightarrow> nat \<Rightarrow> char \<Rightarrow> nat \<Rightarrow> nat \<Rightarrow> nat option option" where
  "globStep pm plen sm slen c i k =
     (if c = CHR ''?'' then Some (if k = slen then None else Some i)
      else if c = CHR ''['' then do {
        n \<leftarrow> readAt pm (i + 1);
        let negation = (n = CHR 0x5E);
        (j, hit) \<leftarrow> bracketLoop pm plen sm k (if negation then i + 2 else i + 1) False;
        Some (if hit \<noteq> negation then Some j else None) }
      else do {
        let j = (if c = CHR 0x5C \<and> i + 2 \<le> plen then i + 1 else i);
        p \<leftarrow> readAt pm j;
        s \<leftarrow> readAt sm k;
        Some (if p \<noteq> s then None else Some j) })"

text \<open>The whole function; \<open>star\<close> says that the loop over the rest of the string behind a star is running.\<close>

partial_function (option) glob :: "bytes \<Rightarrow> nat \<Rightarrow> bytes \<Rightarrow> nat \<Rightarrow> bool \<Rightarrow> nat \<Rightarrow> nat \<Rightarrow> bool option" where
  "glob pm plen sm slen star i k =
     (if star then
        (if k = slen then Some False
         else Option.bind (glob pm plen sm slen False (i + 1) k) (\<lambda>r.
           if r then Some True else glob pm plen sm slen True i (k + 1)))
      else if i = plen then Some (k = slen)
      else Option.bind (readAt pm i) (\<lambda>c.
        if c = CHR ''*'' then
          Option.bind (skipStars pm i) (\<lambda>i. if i + 1 = plen then Some True else glob pm plen sm slen True i k)
        else Option.bind (globStep pm plen sm slen c i k) (\<lambda>r.
          case r of None \<Rightarrow> Some False
          | Some j \<Rightarrow>
              if k + 1 = slen then Option.bind (skipTrailing pm (j + 1)) (\<lambda>i. Some (i = plen))
              else glob pm plen sm slen False (j + 1) (k + 1))))"

definition stringmatchlen :: "char \<Rightarrow> char \<Rightarrow> bytes \<Rightarrow> bytes \<Rightarrow> bool option" where
  "stringmatchlen behindPattern behindString pattern str =
     glob (pattern @ [behindPattern]) (length pattern) (str @ [behindString]) (length str) False 0 0"

subsection \<open>Stars\<close>

lemma skipStars_ok:
  assumes "i < length pat" "behind \<noteq> CHR ''*''"
  shows "\<exists>j. skipStars (pat @ [behind]) i = Some j \<and> i \<le> j \<and> j < length pat \<and> (\<forall>n. i < n \<and> n \<le> j \<longrightarrow> pat ! n = CHR ''*'')
    \<and> (j + 1 < length pat \<longrightarrow> pat ! (j + 1) \<noteq> CHR ''*'')"
  using assms
proof (induction "length pat - i" arbitrary: i)
  case (Suc m)
  show ?case
  proof (cases "i + 1 < length pat \<and> pat ! (i + 1) = CHR ''*''")
    case True
    have "m = length pat - (i + 1)" using Suc.hyps(2) by simp
    with True Suc.hyps(1) [of "i + 1"] Suc.prems obtain j where
      j: "skipStars (pat @ [behind]) (i + 1) = Some j" "i + 1 \<le> j" "j < length pat" "\<forall>n. i + 1 < n \<and> n \<le> j \<longrightarrow> pat ! n = CHR ''*''"
        "j + 1 < length pat \<longrightarrow> pat ! (j + 1) \<noteq> CHR ''*''"
      by metis
    have "skipStars (pat @ [behind]) i = Some j" using True j(1) by (simp add: skipStars.simps [of _ i] readAt_def nth_append)
    moreover have "\<forall>n. i < n \<and> n \<le> j \<longrightarrow> pat ! n = CHR ''*''" using j(4) True by (metis Suc_eq_plus1 le_neq_implies_less less_eq_Suc_le)
    ultimately show ?thesis using j by auto
  next
    case False
    then have "skipStars (pat @ [behind]) i = Some i"
      using Suc.prems by (auto simp: skipStars.simps [of _ i] readAt_def nth_append)
    then show ?thesis using Suc.prems False by auto
  qed
qed simp

lemma skipTrailing_ok:
  assumes "i \<le> length pat" "behind \<noteq> CHR ''*''"
  shows "\<exists>j. skipTrailing (pat @ [behind]) i = Some j \<and> (j = length pat \<longleftrightarrow> (\<forall>c \<in> set (drop i pat). c = CHR ''*''))"
  using assms
proof (induction "length pat - i" arbitrary: i)
  case 0
  then show ?case by (simp add: skipTrailing.simps [of _ i] readAt_def nth_append)
next
  case (Suc m)
  have d: "drop i pat = pat ! i # drop (Suc i) pat" using Suc.hyps(2) by (simp add: Cons_nth_drop_Suc)
  show ?case
  proof (cases "pat ! i = CHR ''*''")
    case True
    with Suc.hyps(1) [of "Suc i"] Suc.hyps(2) Suc.prems(2) show ?thesis
      by (auto simp: d skipTrailing.simps [of _ i] readAt_def nth_append)
  next
    case False
    then show ?thesis using Suc.hyps(2) by (auto simp: d skipTrailing.simps [of _ i] readAt_def nth_append)
  qed
qed

text \<open>The loop behind a star, when every attempt returns.\<close>

lemma glob_star:
  assumes "\<And>n. k \<le> n \<Longrightarrow> n < slen \<Longrightarrow> glob pm plen sm slen False (i + 1) n = Some (f n)" "k \<le> slen"
  shows "glob pm plen sm slen True i k = Some (\<exists>n. k \<le> n \<and> n < slen \<and> f n)"
  using assms
proof (induction "slen - k" arbitrary: k)
  case 0
  then show ?case by (simp add: glob.simps [of _ _ _ _ True])
next
  case (Suc m)
  have k: "k < slen" using Suc.hyps(2) by simp
  have "glob pm plen sm slen True i (k + 1) = Some (\<exists>n. k + 1 \<le> n \<and> n < slen \<and> f n)"
    using Suc.hyps Suc.prems by auto
  moreover have "(\<exists>n. k \<le> n \<and> n < slen \<and> f n) \<longleftrightarrow> f k \<or> (\<exists>n. k + 1 \<le> n \<and> n < slen \<and> f n)"
    using k by (metis Suc_eq_plus1 le_eq_less_or_eq less_eq_Suc_le order.refl)
  ultimately show ?case
    using k Suc.prems(1) [of k] by (subst glob.simps) simp
qed

subsection \<open>When a match returns\<close>

lemma bracketLoop_ok:
  assumes "i \<le> length pat" "behind \<notin> {CHR 0x5C, CHR '']''}" "pat \<noteq> []" "last pat \<noteq> CHR 0x5C" "k < length sm"
  shows "\<exists>j hit'. bracketLoop (pat @ [behind]) (length pat) sm k i hit = Some (j, hit') \<and> i \<le> j + 1 \<and> j < length pat"
  using assms
proof (induction "length pat - i" arbitrary: i hit rule: less_induct)
  case less
  have k: "readAt sm k = Some (sm ! k)" using less.prems(5) by (simp add: readAt_def)
  have go: "\<exists>j hit'. bracketLoop (pat @ [behind]) (length pat) sm k (i + d) h = Some (j, hit') \<and> i \<le> j + 1 \<and> j < length pat"
    if "0 < d" "i + d \<le> length pat" for d h
    using less.hyps [of "i + d" h] less.prems that by fastforce
  show ?case
  proof (cases "i = length pat")
    case True
    then have "bracketLoop (pat @ [behind]) (length pat) sm k i hit = Some (length pat - 1, hit)"
      using less.prems(2) by (simp add: bracketLoop.simps [of _ _ _ _ "length pat"] readAt_def nth_append)
    then show ?thesis using True less.prems(3) by (cases pat) auto
  next
    case False
    then have i: "i < length pat" using less.prems(1) by simp
    have r: "readAt (pat @ [behind]) i = Some (pat ! i)" "readAt (pat @ [behind]) (i + 1) = Some ((pat @ [behind]) ! (i + 1))"
      using i by (simp_all add: readAt_def nth_append)
    have esc: "i + 2 \<le> length pat" if "pat ! i = CHR 0x5C"
    proof (rule ccontr)
      assume "\<not> i + 2 \<le> length pat"
      then have "i = length pat - 1" using i by simp
      then show False using that less.prems(3,4) by (simp add: last_conv_nth)
    qed
    have r2: "readAt (pat @ [behind]) (i + 2) = Some ((pat @ [behind]) ! (i + 2))" if "i + 3 \<le> length pat"
      using that by (simp add: readAt_def)
    show ?thesis
      unfolding bracketLoop.simps [of _ _ _ _ i] r k
      using i go [of 2] go [of 3] go [of 1] esc r2 False by (auto simp: eval_nat_numeral)
  qed
qed

lemma globStep_ok:
  assumes "i < length pat" "behind \<notin> {CHR 0x5C, CHR '']'', CHR 0x5E}" "last pat \<noteq> CHR 0x5C" "k < slen" "slen < length sm"
  shows "\<exists>r. globStep (pat @ [behind]) (length pat) sm slen (pat ! i) i k = Some r \<and> (\<forall>j. r = Some j \<longrightarrow> i \<le> j \<and> j < length pat)"
proof -
  have ne: "pat \<noteq> []" "k < length sm" using assms(1,4,5) by auto
  consider (any) "pat ! i = CHR ''?''" | (set) "pat ! i = CHR ''[''" | (lit) "pat ! i \<notin> {CHR ''?'', CHR ''[''}" by blast
  then show ?thesis
  proof cases
    case any
    then show ?thesis using assms(1) by (simp add: globStep_def)
  next
    case set
    let ?n = "(pat @ [behind]) ! (i + 1)"
    have n: "readAt (pat @ [behind]) (i + 1) = Some ?n" using assms(1) by (simp add: readAt_def)
    have "(if ?n = CHR 0x5E then i + 2 else i + 1) \<le> length pat" using assms(1,2) by (auto simp: nth_append split: if_splits)
    from bracketLoop_ok [OF this _ ne(1) assms(3) ne(2), of behind False] assms(2) obtain j hit where
      "bracketLoop (pat @ [behind]) (length pat) sm k (if ?n = CHR 0x5E then i + 2 else i + 1) False = Some (j, hit)" "i \<le> j" "j < length pat"
      by (fastforce split: if_splits)
    with set n show ?thesis by (simp add: globStep_def)
  next
    case lit
    let ?j = "if pat ! i = CHR 0x5C \<and> i + 2 \<le> length pat then i + 1 else i"
    have "readAt (pat @ [behind]) ?j = Some (pat ! ?j)" "readAt sm k = Some (sm ! k)" "i \<le> ?j" "?j < length pat"
      using assms(1) ne(2) by (simp_all add: readAt_def nth_append)
    with lit show ?thesis by (simp add: globStep_def Let_def)
  qed
qed

definition plainByte :: "char \<Rightarrow> bool" where
  "plainByte c \<longleftrightarrow> c \<notin> {CHR ''*'', CHR 0x5C, CHR '']'', CHR 0x5E}"

lemma glob_total:
  assumes "plainByte behind" "pat = [] \<or> last pat \<noteq> CHR 0x5C" "slen < length sm" "i \<le> length pat" "k < slen"
  shows "\<exists>b. glob (pat @ [behind]) (length pat) sm slen False i k = Some b"
  using assms(4,5)
proof (induction "length pat - i" arbitrary: i k rule: less_induct)
  case less
  let ?pm = "pat @ [behind]"
  show ?case
  proof (cases "i = length pat")
    case True
    then show ?thesis by (simp add: glob.simps [of _ _ _ _ False])
  next
    case False
    then have i: "i < length pat" "readAt ?pm i = Some (pat ! i)" using less.prems(1) by (simp_all add: readAt_def nth_append)
    have b: "behind \<noteq> CHR ''*''" "behind \<notin> {CHR 0x5C, CHR '']'', CHR 0x5E}" "last pat \<noteq> CHR 0x5C"
      using assms(1,2) i by (auto simp: plainByte_def)
    show ?thesis
    proof (cases "pat ! i = CHR ''*''")
      case True
      obtain j where j: "skipStars ?pm i = Some j" "i \<le> j" "j < length pat" using skipStars_ok [OF i(1) b(1)] by blast
      have "\<exists>b. glob ?pm (length pat) sm slen True j k = Some b"
      proof -
        have "\<forall>n. k \<le> n \<and> n < slen \<longrightarrow> (\<exists>b. glob ?pm (length pat) sm slen False (j + 1) n = Some b)"
          using less.hyps [of "j + 1"] j i by auto
        then obtain f where "\<And>n. k \<le> n \<Longrightarrow> n < slen \<Longrightarrow> glob ?pm (length pat) sm slen False (j + 1) n = Some (f n)" by metis
        from glob_star [OF this, of k] show ?thesis using less.prems(2) by auto
      qed
      then show ?thesis using True i j(1) False by (subst glob.simps) auto
    next
      case nostar: False
      obtain r where r: "globStep ?pm (length pat) sm slen (pat ! i) i k = Some r" "\<forall>j. r = Some j \<longrightarrow> i \<le> j \<and> j < length pat"
        using globStep_ok [OF i(1) b(2,3) less.prems(2) assms(3)] by blast
      have "\<exists>b. skipTrailing ?pm (j + 1) = Some b" if "r = Some j" for j
        using skipTrailing_ok [of "j + 1" pat behind] r(2) that b(1) by (metis Suc_eq_plus1 less_eq_Suc_le)
      moreover have "\<exists>b. glob ?pm (length pat) sm slen False (j + 1) (k + 1) = Some b" if "r = Some j" "k + 1 \<noteq> slen" for j
        using less.hyps [of "j + 1" "k + 1"] r(2) that less.prems(2) i by fastforce
      ultimately show ?thesis
        using nostar i r(1) False by (subst glob.simps) (cases r; fastforce)
    qed
  qed
qed

subsection \<open>A reference for patterns without brackets and escapes\<close>

fun wild :: "bytes \<Rightarrow> bytes \<Rightarrow> bool" where
  "wild [] [] \<longleftrightarrow> True"
| "wild [] (c # s) \<longleftrightarrow> False"
| "wild (p # ps) [] \<longleftrightarrow> p = CHR ''*'' \<and> wild ps []"
| "wild (p # ps) (c # s) \<longleftrightarrow>
     (if p = CHR ''*'' then wild ps (c # s) \<or> wild (p # ps) s else (p = CHR ''?'' \<or> p = c) \<and> wild ps s)"

lemma wild_nil: "wild ps [] \<longleftrightarrow> (\<forall>c \<in> set ps. c = CHR ''*'')"
  by (induction ps) auto

lemma wild_star: "wild (CHR ''*'' # ps) s \<longleftrightarrow> (\<exists>n \<le> length s. wild ps (drop n s))"
proof (induction s)
  case (Cons c s)
  have "(\<exists>n \<le> length (c # s). wild ps (drop n (c # s))) \<longleftrightarrow> wild ps (c # s) \<or> (\<exists>n \<le> length s. wild ps (drop n s))"
    by (metis (no_types) Suc_le_mono drop0 drop_Suc_Cons le0 length_Cons not0_implies_Suc)
  then show ?case using Cons.IH by simp
qed simp

lemma wild_stars: "wild (CHR ''*'' # CHR ''*'' # ps) s \<longleftrightarrow> wild (CHR ''*'' # ps) s"
proof (induction s)
  case (Cons c s)
  then show ?case by simp
qed simp

lemma wild_skip:
  assumes "pat ! i = CHR ''*''" "i \<le> j" "j < length pat" "\<forall>n. i < n \<and> n \<le> j \<longrightarrow> pat ! n = CHR ''*''"
  shows "wild (drop i pat) s \<longleftrightarrow> wild (CHR ''*'' # drop (j + 1) pat) s"
  using assms
proof (induction "j - i" arbitrary: i)
  case 0
  then show ?case by (simp add: Cons_nth_drop_Suc [symmetric])
next
  case (Suc m)
  have n: "pat ! Suc i = CHR ''*''" "Suc i \<le> j" using Suc.hyps(2) Suc.prems(4) by auto
  then have "wild (drop (Suc i) pat) s \<longleftrightarrow> wild (CHR ''*'' # drop (j + 1) pat) s" using Suc.hyps Suc.prems by auto
  moreover have "drop i pat = CHR ''*'' # CHR ''*'' # drop (Suc (Suc i)) pat" "drop (Suc i) pat = CHR ''*'' # drop (Suc (Suc i)) pat"
    using Suc.prems(1,3) n by (simp_all add: Cons_nth_drop_Suc [symmetric])
  ultimately show ?case using wild_stars by simp
qed

lemma glob_wild:
  assumes "behind \<noteq> CHR ''*''" "CHR ''['' \<notin> set pat" "CHR 0x5C \<notin> set pat" "i \<le> length pat" "k < length str"
  shows "glob (pat @ [behind]) (length pat) (str @ [bs]) (length str) False i k = Some (wild (drop i pat) (drop k str))"
  using assms(4,5)
proof (induction "length pat - i" arbitrary: i k rule: less_induct)
  case less
  let ?pm = "pat @ [behind]" and ?g = "glob (pat @ [behind]) (length pat) (str @ [bs]) (length str)"
  have dk: "drop k str = str ! k # drop (Suc k) str" using less.prems(2) by (simp add: Cons_nth_drop_Suc)
  show ?case
  proof (cases "i = length pat")
    case True
    then show ?thesis using less.prems(2) by (simp add: glob.simps [of _ _ _ _ False] dk)
  next
    case False
    then have i: "i < length pat" "readAt ?pm i = Some (pat ! i)" using less.prems(1) by (simp_all add: readAt_def nth_append)
    have di: "drop i pat = pat ! i # drop (Suc i) pat" using i by (simp add: Cons_nth_drop_Suc)
    show ?thesis
    proof (cases "pat ! i = CHR ''*''")
      case True
      obtain j where j: "skipStars ?pm i = Some j" "i \<le> j" "j < length pat" "\<forall>n. i < n \<and> n \<le> j \<longrightarrow> pat ! n = CHR ''*''"
          "j + 1 < length pat \<longrightarrow> pat ! (j + 1) \<noteq> CHR ''*''"
        using skipStars_ok [OF i(1) assms(1)] by blast
      note w = wild_skip [OF True j(2-4)]
      show ?thesis
      proof (cases "j + 1 = length pat")
        case last: True
        have "wild (drop i pat) (drop k str)" unfolding w wild_star by (rule exI [of _ "length (drop k str)"]) (use last in \<open>simp add: wild_nil\<close>)
        moreover have "?g False i k = Some True" using True i(2) j(1) False last by (subst glob.simps) simp
        ultimately show ?thesis by simp
      next
        case more: False
        then have j1: "j + 1 < length pat" "pat ! (j + 1) \<noteq> CHR ''*''" using j(3,5) by simp_all
        have "?g False (j + 1) n = Some (wild (drop (j + 1) pat) (drop n str))" if "k \<le> n" "n < length str" for n
          using less.hyps [of "j + 1" n] j(2) j1(1) that by simp
        from glob_star [OF this, of k] less.prems(2)
        have g: "?g True j k = Some (\<exists>n. k \<le> n \<and> n < length str \<and> wild (drop (j + 1) pat) (drop n str))" by simp
        have nil: "\<not> wild (drop (j + 1) pat) []"
          using j1 by (auto simp: wild_nil Cons_nth_drop_Suc [symmetric])
        have "wild (drop i pat) (drop k str) \<longleftrightarrow> (\<exists>n \<le> length str - k. wild (drop (j + 1) pat) (drop (k + n) str))"
          unfolding w wild_star by (simp add: add.commute)
        also have "\<dots> \<longleftrightarrow> (\<exists>n. k \<le> n \<and> n < length str \<and> wild (drop (j + 1) pat) (drop n str))"
        proof
          assume "\<exists>n \<le> length str - k. wild (drop (j + 1) pat) (drop (k + n) str)"
          then obtain n where n: "n \<le> length str - k" "wild (drop (j + 1) pat) (drop (k + n) str)" by blast
          then have "k + n < length str" using nil by (cases "k + n < length str") simp_all
          then show "\<exists>n. k \<le> n \<and> n < length str \<and> wild (drop (j + 1) pat) (drop n str)" using n(2) le_add1 by blast
        next
          assume "\<exists>n. k \<le> n \<and> n < length str \<and> wild (drop (j + 1) pat) (drop n str)"
          then obtain n where "k \<le> n" "n < length str" "wild (drop (j + 1) pat) (drop n str)" by blast
          then show "\<exists>n \<le> length str - k. wild (drop (j + 1) pat) (drop (k + n) str)" by (intro exI [of _ "n - k"]) simp
        qed
        finally show ?thesis using g True i(2) j(1) False more by (subst glob.simps) simp
      qed
    next
      case nostar: False
      have c: "pat ! i \<noteq> CHR ''[''" "pat ! i \<noteq> CHR 0x5C" using assms(2,3) i(1) nth_mem by metis+
      have st: "globStep ?pm (length pat) (str @ [bs]) (length str) (pat ! i) i k
          = Some (if pat ! i = CHR ''?'' \<or> pat ! i = str ! k then Some i else None)"
        using c i less.prems(2) by (auto simp: globStep_def readAt_def nth_append)
      obtain e where e: "skipTrailing ?pm (i + 1) = Some e" "e = length pat \<longleftrightarrow> (\<forall>c \<in> set (drop (i + 1) pat). c = CHR ''*'')"
        using skipTrailing_ok [of "i + 1" pat behind] i(1) assms(1) by auto
      have "?g False (i + 1) (k + 1) = Some (wild (drop (i + 1) pat) (drop (k + 1) str))" if "k + 1 \<noteq> length str"
        using less.hyps [of "i + 1" "k + 1"] i(1) less.prems(2) that by simp
      moreover have "drop (Suc k) str = []" if "k + 1 = length str" using that by simp
      ultimately show ?thesis
        using nostar i(2) False st e by (subst glob.simps) (auto simp: di dk wild_nil)
    qed
  qed
qed

subsection \<open>The literal prefix of a pattern\<close>

lemma extractPatternPrefix_Cons:
  "extractPatternPrefix (c # ps) =
     (if c \<in> {CHR ''?'', CHR ''*'', CHR ''['', CHR '']'', CHR 0x5C} then [] else c # extractPatternPrefix ps)"
  by (simp add: extractPatternPrefix_def)

lemma prefix_of_stars: "\<forall>c \<in> set ps. c = CHR ''*'' \<Longrightarrow> extractPatternPrefix ps = []"
  by (cases ps) (simp_all add: extractPatternPrefix_def)

lemma glob_prefix:
  assumes "behind \<noteq> CHR ''*''" "i \<le> length pat" "k < length str"
    and "glob (pat @ [behind]) (length pat) (str @ [bs]) (length str) False i k = Some True"
  shows "prefix (extractPatternPrefix (drop i pat)) (drop k str)"
  using assms(2-4)
proof (induction "length pat - i" arbitrary: i k)
  case (Suc m)
  have i: "i < length pat" using Suc.hyps(2) by simp
  then have di: "drop i pat = pat ! i # drop (i + 1) pat" by (simp add: Cons_nth_drop_Suc)
  have dk: "drop k str = str ! k # drop (k + 1) str" using Suc.prems(2) by (simp add: Cons_nth_drop_Suc)
  show ?case
  proof (cases "pat ! i \<in> {CHR ''?'', CHR ''*'', CHR ''['', CHR '']'', CHR 0x5C}")
    case True
    then show ?thesis by (simp add: di extractPatternPrefix_Cons)
  next
    case False
    then have st: "globStep (pat @ [behind]) (length pat) (str @ [bs]) (length str) (pat ! i) i k = Some (if pat ! i = str ! k then Some i else None)"
      using i Suc.prems(2) by (simp add: globStep_def readAt_def nth_append)
    have r: "readAt (pat @ [behind]) i = Some (pat ! i)" using i by (simp add: readAt_def nth_append)
    have g: "pat ! i = str ! k \<and> (if k + 1 = length str then skipTrailing (pat @ [behind]) (i + 1) = Some (length pat)
        else glob (pat @ [behind]) (length pat) (str @ [bs]) (length str) False (i + 1) (k + 1) = Some True)"
      using Suc.prems(3) i False st r
      by (subst (asm) glob.simps) (auto simp: Option.bind_eq_Some_conv split: if_splits)
    have "prefix (extractPatternPrefix (drop (i + 1) pat)) (drop (k + 1) str)"
    proof (cases "k + 1 = length str")
      case True
      then have "extractPatternPrefix (drop (i + 1) pat) = []"
        using g skipTrailing_ok [of "i + 1" pat behind] i assms(1) by (intro prefix_of_stars) auto
      then show ?thesis by simp
    next
      case more: False
      then show ?thesis using Suc.hyps(1) [of "i + 1" "k + 1"] Suc.hyps(2) g i Suc.prems(2) by simp
    qed
    then show ?thesis using False g by (simp add: di dk extractPatternPrefix_Cons)
  qed
qed (simp add: extractPatternPrefix_def)

subsection \<open>Results on whole strings\<close>

lemma stringmatchlen_total:
  "plainByte behind \<Longrightarrow> pat = [] \<or> last pat \<noteq> CHR 0x5C \<Longrightarrow> str \<noteq> [] \<Longrightarrow> \<exists>b. stringmatchlen behind bs pat str = Some b"
  using glob_total [of behind pat "length str" "str @ [bs]" 0 0] by (auto simp: stringmatchlen_def)

lemma stringmatchlen_wild:
  "behind \<noteq> CHR ''*'' \<Longrightarrow> CHR ''['' \<notin> set pat \<Longrightarrow> CHR 0x5C \<notin> set pat \<Longrightarrow> str \<noteq> []
    \<Longrightarrow> stringmatchlen behind bs pat str = Some (wild pat str)"
  using glob_wild [of behind pat 0 0 str bs] by (simp add: stringmatchlen_def)

lemma stringmatchlen_prefix:
  "behind \<noteq> CHR ''*'' \<Longrightarrow> str \<noteq> [] \<Longrightarrow> stringmatchlen behind bs pat str = Some True \<Longrightarrow> prefix (extractPatternPrefix pat) str"
  using glob_prefix [of behind 0 pat 0 str bs] by (simp add: stringmatchlen_def)

text \<open>A bracket that ends in a backslash leads behind the end of the pattern.\<close>

lemma stringmatchlen_behind:
  assumes "str \<noteq> []"
  shows "stringmatchlen behind bs [CHR ''['', CHR 0x5C] str = None"
proof -
  have "bracketLoop [CHR ''['', CHR 0x5C, behind] (Suc (Suc 0)) (str @ [bs]) 0 (Suc 0) False = None"
    by (simp add: bracketLoop.simps [of _ _ _ _ "Suc 0"] bracketLoop.simps [of _ _ _ _ "Suc (Suc (Suc 0))"] readAt_def)
  then show ?thesis
    using assms unfolding stringmatchlen_def by (subst glob.simps) (simp add: readAt_def globStep_def)
qed

end
