(* ===== verification/ScanOps.thy ===== *)
theory ScanOps
  imports LocalityOps CoreOps ReverseLocators GlobMatching
begin

text \<open>
  The commands that walk over the key space (\<open>keys\<close>, \<open>scan\<close>, \<open>lhscan\<close>, \<open>rawScan\<close> of
  \<^verbatim>\<open>src/src/StateMachine.cc\<close>), and the two writes that need more than the store: \<open>hincrbyfloat\<close> and
  \<open>artificiallySlowWriteNeverUseThis\<close>.

  Parameters: \<open>behind\<close> is the byte in memory behind a pattern, at which the matcher may look;
  \<open>float_ops\<close> are the operations on \<open>double\<close> (\<open>strtod\<close> with its checks, zero, addition and
  \<open>std::to_string\<close>).
\<close>

subsection \<open>Key scans\<close>

text \<open>The loop of \<open>scan\<close>: iterations so far, results so far; the last component of the result is the cursor.\<close>

fun scanLoop :: "(bytes \<Rightarrow> bool option) \<Rightarrow> bytes \<Rightarrow> nat \<Rightarrow> nat \<Rightarrow> bytes list \<Rightarrow> (bytes \<times> bytes) list \<Rightarrow> (bytes list \<times> bytes) option" where
  "scanLoop hit patternPrefix count iterations results [] = Some (results, [])"
| "scanLoop hit patternPrefix count iterations results (e # es) =
     (let iterations = iterations + 1; rkey = fst e in
      if rkey = [] \<or> hd rkey \<noteq> kDescriptor then Some (results, [])
      else if \<not> isPrefix patternPrefix (tl rkey) then Some (results, [])
      else if count < iterations then Some (results, tl rkey)
      else do {
        h \<leftarrow> hit (tl rkey);
        scanLoop hit patternPrefix count iterations (if h then results @ [tl rkey] else results) es })"

definition emptyPattern :: "bytes \<Rightarrow> bool" where
  "emptyPattern pattern \<longleftrightarrow> pattern = [] \<or> pattern = ''*''"

text \<open>The name is followed by the zero byte of a string, or by the separator of a locality hint.\<close>

definition patternHit :: "char \<Rightarrow> char \<Rightarrow> bytes \<Rightarrow> bytes \<Rightarrow> bool option" where
  "patternHit behind behindString pattern s =
     (if emptyPattern pattern then Some True else stringmatchlen behind behindString pattern s)"

definition scan_op ::
  "char \<Rightarrow> ('db, 'wb) rocksdb \<Rightarrow> ('db, 'wb) staging \<Rightarrow> bytes \<Rightarrow> bytes \<Rightarrow> nat \<Rightarrow> bytes list
    \<Rightarrow> (status \<times> bytes \<times> bytes list) option" where
  "scan_op behind api st cursor pattern count results = do {
     let patternPrefix = extractPatternPrefix pattern;
     let locator = descriptorLocator (if cursor = [] then patternPrefix else cursor);
     (res, newcursor) \<leftarrow> scanLoop (patternHit behind (CHR 0x00) pattern) patternPrefix count 0 results (sa_iter api st locator);
     Some (OK, newcursor, res) }"

text \<open>\<open>std::numeric_limits<size_t>::max() - 1\<close>.\<close>

definition keysBatch :: nat where "keysBatch = 2 ^ 64 - 2"

partial_function (option) keysLoop ::
  "char \<Rightarrow> ('db, 'wb) rocksdb \<Rightarrow> ('db, 'wb) staging \<Rightarrow> bytes \<Rightarrow> bytes \<Rightarrow> bytes list
    \<Rightarrow> (status \<times> bytes list) option" where
  "keysLoop behind api st pattern oldCursor result =
     Option.bind (scan_op behind api st oldCursor pattern keysBatch result) (\<lambda>(s, newCursor, result).
       if s \<noteq> OK then Some (s, result)
       else if newCursor = [] then Some (OK, result)
       else keysLoop behind api st pattern newCursor result)"

definition keys_op ::
  "char \<Rightarrow> ('db, 'wb) rocksdb \<Rightarrow> ('db, 'wb) staging \<Rightarrow> bytes \<Rightarrow> (status \<times> bytes list) option" where
  "keys_op behind api st pattern = keysLoop behind api st pattern [] []"

subsection \<open>Locality hash scans\<close>

fun lhscanLoop ::
  "(bytes \<Rightarrow> bool option) \<Rightarrow> bytes \<Rightarrow> nat \<Rightarrow> nat \<Rightarrow> bytes list \<Rightarrow> (bytes \<times> bytes) list \<Rightarrow> (bytes list \<times> bytes) option" where
  "lhscanLoop hit requiredPrefix keyPrefixSize count results [] = Some (results, [])"
| "lhscanLoop hit requiredPrefix keyPrefixSize count results (e # es) =
     (if \<not> startsWith (fst e) requiredPrefix then Some (results, [])
      else do {
        let hintPlusField = drop keyPrefixSize (fst e);
        splitter \<leftarrow> extractorParse hintPlusField;
        assert_that (parsingOk splitter);
        if (count * 3) mod 2 ^ 64 \<le> length results then Some (results, hintPlusField)
        else do {
          hint \<leftarrow> getOriginalPrefix splitter;
          field \<leftarrow> getRawSuffix splitter;
          h \<leftarrow> hit hint;
          lhscanLoop hit requiredPrefix keyPrefixSize count (if h then results @ [hint, field, snd e] else results) es } })"

definition lhscan ::
  "char \<Rightarrow> ('db, 'wb) rocksdb \<Rightarrow> ('db, 'wb) staging \<Rightarrow> bytes \<Rightarrow> bytes \<Rightarrow> bytes \<Rightarrow> nat
    \<Rightarrow> (status \<times> bytes \<times> bytes list) option" where
  "lhscan behind api st key cursor matchloc count = do {
     ok \<leftarrow> assertKeyType api st key kLocalityHash;
     if \<not> ok then Some (wrong_type, [], [])
     else do {
       assert_that (key \<noteq> []);
       let pre = localityFieldPrefix key;
       let patternPrefix = extractPatternPrefix matchloc;
       plan \<leftarrow>
         (if cursor \<noteq> [] then do {
            extractor \<leftarrow> extractorParse cursor;
            if \<not> parsingOk extractor then Some None
            else do {
              cursorHint \<leftarrow> getOriginalPrefix extractor;
              cursorField \<leftarrow> getRawSuffix extractor;
              assert_that (cursorHint \<noteq> []);
              Some (Some (if patternPrefix \<noteq> [] then pre @ appendEscaped cursorHint else pre,
                          localityFieldKey key cursorHint cursorField)) } }
          else if patternPrefix \<noteq> [] then
            (let start = pre @ appendEscaped patternPrefix in
             Some (Some (pre @ patternPrefix,
                         if length patternPrefix \<noteq> length matchloc then take (length start - 2) start else start)))
          else Some (Some (pre, pre)));
       (case plan of None \<Rightarrow> Some (malformed ''invalid cursor'', [], [])
        | Some (requiredPrefix, scanStart) \<Rightarrow> do {
            (results, newCursor) \<leftarrow> lhscanLoop (patternHit behind (CHR ''#'') matchloc) requiredPrefix (length pre) count []
              (sa_iter api st scanStart);
            Some (OK, newCursor, results) }) } }"

subsection \<open>Raw scans\<close>

definition rawScan ::
  "('db, 'wb) rocksdb \<Rightarrow> ('db, 'wb) staging \<Rightarrow> bytes \<Rightarrow> nat \<Rightarrow> status \<times> bytes list" where
  "rawScan api st key count = (OK, concat (map (\<lambda>e. [fst e, snd e]) (take (min 1000000 count) (sa_iter api st key))))"

subsection \<open>Other writes\<close>

record 'f float_ops =
  my_strtod :: "bytes \<Rightarrow> 'f option"
  fl_zero :: 'f
  fl_add :: "'f \<Rightarrow> 'f \<Rightarrow> 'f"
  fl_to_string :: "'f \<Rightarrow> bytes"

definition hincrbyfloat ::
  "'f float_ops \<Rightarrow> ('db, 'wb) rocksdb \<Rightarrow> ('db, 'wb) staging \<Rightarrow> bytes \<Rightarrow> bytes \<Rightarrow> bytes
    \<Rightarrow> (status \<times> 'f \<times> ('db, 'wb) staging) option" where
  "hincrbyfloat fl api st key field incrby =
     (case my_strtod fl incrby of
        None \<Rightarrow> Some (malformed ''value is not a float or out of range'', fl_zero fl, st)
      | Some incrByDouble \<Rightarrow> do {
          op \<leftarrow> newWriteOperation api st key kHash;
          if \<not> isValid op then do { wo_destroy op; Some (wrong_type, fl_zero fl, st) } else do {
            (present, val) \<leftarrow> wo_getField api st op field;
            size \<leftarrow> wo_keySize op;
            case (if present then my_strtod fl val else Some (fl_zero fl)) of
              None \<Rightarrow> do {
                (op, st) \<leftarrow> wo_finalize api st op size False;
                wo_destroy op;
                Some (malformed ''hash value is not a float'', fl_zero fl, st) }
            | Some result0 \<Rightarrow> do {
                let result = fl_add fl result0 incrByDouble;
                st \<leftarrow> wo_writeField api st op field (fl_to_string fl result);
                (op, st) \<leftarrow> wo_finalize api st op (size + of_bool (\<not> present)) False;
                wo_destroy op;
                Some (OK, result, st) } } })"

text \<open>The sleep itself has no effect on the state.\<close>

definition artificiallySlowWriteNeverUseThis :: "bytes \<Rightarrow> status" where
  "artificiallySlowWriteNeverUseThis sleepStr =
     (case parseInt64 sleepStr of
        None \<Rightarrow> malformed ''value is not an integer or out of range''
      | Some sleepMs \<Rightarrow> if sleepMs < 0 then malformed ''value is not an integer or out of range'' else OK)"

subsection \<open>What a key scan visits\<close>

text \<open>The names of the keys that have a descriptor, from \<open>start\<close> on, with a given prefix, in order.\<close>

definition namesFrom :: "('db, 'wb) rocksdb \<Rightarrow> ('db, 'wb) staging \<Rightarrow> bytes \<Rightarrow> bytes \<Rightarrow> bytes list" where
  "namesFrom api st pre start =
     map (\<lambda>e. tl (fst e)) (takeWhile (\<lambda>e. prefix (kDescriptor # pre) (fst e)) (sa_iter api st (descriptorLocator start)))"

lemma scanLoop_eq:
  assumes "ks = map (\<lambda>e. tl (fst e)) (takeWhile (\<lambda>e. prefix (kDescriptor # pre) (fst e)) es)" "i \<le> count"
    "\<forall>s \<in> set ks. hit s = Some (f s)"
  shows "scanLoop hit pre count i res es =
    Some (res @ filter f (take (count - i) ks), if count - i < length ks then ks ! (count - i) else [])"
  using assms
proof (induction es arbitrary: i res ks)
  case (Cons e es)
  have stop: "(fst e = [] \<or> hd (fst e) \<noteq> kDescriptor) \<or> \<not> isPrefix pre (tl (fst e)) \<longleftrightarrow> \<not> prefix (kDescriptor # pre) (fst e)"
    by (cases "fst e") (auto simp: isPrefix_startsWith)
  show ?case
  proof (cases "prefix (kDescriptor # pre) (fst e)")
    case False
    with Cons.prems stop show ?thesis by (auto simp: Let_def)
  next
    case True
    let ?ks = "map (\<lambda>e. tl (fst e)) (takeWhile (\<lambda>e. prefix (kDescriptor # pre) (fst e)) es)"
    have ks: "ks = tl (fst e) # ?ks" using Cons.prems(1) True by simp
    show ?thesis
    proof (cases "count < i + 1")
      case True
      with Cons.prems(2) stop \<open>prefix (kDescriptor # pre) (fst e)\<close> ks show ?thesis by (auto simp: Let_def)
    next
      case False
      then have "Suc i \<le> count" "count - i = Suc (count - Suc i)" by auto
      with Cons.IH [OF refl, of "Suc i" "if f (tl (fst e)) then res @ [tl (fst e)] else res"] Cons.prems(3) False stop True ks
      show ?thesis by (auto simp: Let_def)
    qed
  qed
qed simp

lemma scan_eq:
  assumes "pre = extractPatternPrefix pattern" "ks = namesFrom api st pre (if cursor = [] then pre else cursor)"
    and "\<forall>s \<in> set ks. patternHit behind (CHR 0x00) pattern s = Some (f s)"
  shows "scan_op behind api st cursor pattern count res =
     Some (OK, if count < length ks then ks ! count else [], res @ filter f (take count ks))"
proof -
  have "scanLoop (patternHit behind (CHR 0x00) pattern) pre count 0 res (sa_iter api st (descriptorLocator (if cursor = [] then pre else cursor)))
      = Some (res @ filter f (take (count - 0) ks), if count - 0 < length ks then ks ! (count - 0) else [])"
    by (rule scanLoop_eq) (use assms(2,3) in \<open>simp_all add: namesFrom_def\<close>)
  then show ?thesis unfolding scan_op_def Let_def assms(1) by (simp only: minus_nat.diff_0 Option.bind.bind_lunit prod.case)
qed

lemma namesFrom_sorted:
  assumes "sa_readable api st" "pre \<le> start"
  shows "sorted_wrt (<) (namesFrom api st pre start)"
    "set (namesFrom api st pre start) = {k. sa_view api st (descriptorLocator k) \<noteq> None \<and> prefix pre k \<and> start \<le> k}"
proof -
  let ?it = "sa_iter api st (descriptorLocator start)" and ?P = "\<lambda>e :: bytes \<times> bytes. prefix (kDescriptor # pre) (fst e)"
  have it: "iterates ?it (descriptorLocator start) (sa_view api st)" using sar.iter_view [OF assms(1)] .
  have entry: "descriptorLocator start \<le> fst e \<and> sa_view api st (fst e) = Some (snd e)" if "e \<in> set ?it" for e
    using it that unfolding iterates_def by (metis prod.collapse)
  have "kDescriptor # pre \<le> descriptorLocator start" using assms(2) by (simp add: descriptorLocator_def)
  then have ge: "\<forall>e \<in> set ?it. kDescriptor # pre \<le> fst e" using entry order.trans by blast
  have f: "takeWhile ?P ?it = filter ?P ?it"
    by (rule takeWhile_prefix_filter) (use it ge in \<open>simp_all add: iterates_def strict_sorted_iff\<close>)
  have m: "namesFrom api st pre start = map (\<lambda>e. tl (fst e)) (filter ?P ?it)" by (simp add: namesFrom_def f)
  have s: "sorted_wrt (\<lambda>a b. fst a < fst b) (filter ?P ?it)"
    using it by (simp add: iterates_def sorted_wrt_map sorted_wrt_filter)
  have "sorted_wrt (\<lambda>a b. tl (fst a) < tl (fst b)) (filter ?P ?it)"
    by (rule sorted_wrt_mono_rel [OF _ s]) (auto simp: prefix_def)
  then show "sorted_wrt (<) (namesFrom api st pre start)" by (simp add: m sorted_wrt_map)
  have "k \<in> (\<lambda>e. tl (fst e)) ` {e \<in> set ?it. ?P e} \<longleftrightarrow>
      sa_view api st (descriptorLocator k) \<noteq> None \<and> prefix pre k \<and> start \<le> k" for k
  proof
    assume "k \<in> (\<lambda>e. tl (fst e)) ` {e \<in> set ?it. ?P e}"
    then obtain e where e: "e \<in> set ?it" "?P e" "k = tl (fst e)" by auto
    then have d: "fst e = descriptorLocator k" by (cases "fst e") (auto simp: descriptorLocator_def)
    have "descriptorLocator start \<le> fst e" "sa_view api st (fst e) = Some (snd e)"
      using entry [OF e(1)] by simp_all
    with e(2) d show "sa_view api st (descriptorLocator k) \<noteq> None \<and> prefix pre k \<and> start \<le> k"
      by (auto simp: descriptorLocator_def)
  next
    assume k: "sa_view api st (descriptorLocator k) \<noteq> None \<and> prefix pre k \<and> start \<le> k"
    then obtain x where "sa_view api st (descriptorLocator k) = Some x" by auto
    with k it have "(descriptorLocator k, x) \<in> set ?it" by (auto simp: iterates_def descriptorLocator_def)
    with k show "k \<in> (\<lambda>e. tl (fst e)) ` {e \<in> set ?it. ?P e}"
      by (auto simp: descriptorLocator_def intro!: rev_image_eqI)
  qed
  then show "set (namesFrom api st pre start) = {k. sa_view api st (descriptorLocator k) \<noteq> None \<and> prefix pre k \<and> start \<le> k}"
    by (auto simp: m)
qed

text \<open>What \<open>KEYS\<close> reports for a pattern that does not end in a backslash.\<close>

definition keyMatches :: "char \<Rightarrow> bytes \<Rightarrow> bytes \<Rightarrow> bool" where
  "keyMatches behind pattern k \<longleftrightarrow> patternHit behind (CHR 0x00) pattern k = Some True"

lemma patternHit_total:
  assumes "plainByte behind" "pattern = [] \<or> last pattern \<noteq> CHR 0x5C" "s \<noteq> []"
  shows "patternHit behind bs pattern s = Some (patternHit behind bs pattern s = Some True)"
  using stringmatchlen_total [OF assms, of bs] by (auto simp: patternHit_def)

lemma keyMatches_prefix:
  assumes "plainByte behind" "k \<noteq> []" "keyMatches behind pattern k"
  shows "prefix (extractPatternPrefix pattern) k"
  using assms stringmatchlen_prefix [of behind k "CHR 0x00" pattern]
  by (auto simp: keyMatches_def patternHit_def plainByte_def emptyPattern_def extractPatternPrefix_def split: if_splits)

lemma keys_ok:
  assumes "sa_readable api st" "plainByte behind" "pattern = [] \<or> last pattern \<noteq> CHR 0x5C"
    and "sa_view api st (descriptorLocator []) = None"
    and "length (namesFrom api st (extractPatternPrefix pattern) (extractPatternPrefix pattern)) \<le> keysBatch"
  shows "\<exists>ks. keys_op behind api st pattern = Some (OK, ks) \<and> sorted_wrt (<) ks
    \<and> set ks = {k. sa_view api st (descriptorLocator k) \<noteq> None \<and> keyMatches behind pattern k}"
proof -
  let ?p = "extractPatternPrefix pattern"
  let ?ks = "namesFrom api st ?p ?p"
  note names = namesFrom_sorted [OF assms(1) order.refl, of ?p]
  have ne: "k \<noteq> []" if "sa_view api st (descriptorLocator k) \<noteq> None" for k using that assms(4) by auto
  have h: "\<forall>s \<in> set ?ks. patternHit behind (CHR 0x00) pattern s = Some (keyMatches behind pattern s)"
    using patternHit_total [OF assms(2,3)] ne names(2) by (simp add: keyMatches_def)
  have "scan_op behind api st [] pattern keysBatch [] = Some (OK, [], filter (keyMatches behind pattern) ?ks)"
    using assms(5) scan_eq [OF refl refl, of api st pattern "[]" behind "keyMatches behind pattern"] h by simp
  then have "keys_op behind api st pattern = Some (OK, filter (keyMatches behind pattern) ?ks)"
    unfolding keys_op_def by (subst keysLoop.simps) simp
  moreover have "sorted_wrt (<) (filter (keyMatches behind pattern) ?ks)" using names(1) by (rule sorted_wrt_filter)
  moreover have "set (filter (keyMatches behind pattern) ?ks)
      = {k. sa_view api st (descriptorLocator k) \<noteq> None \<and> keyMatches behind pattern k}"
    using names(2) keyMatches_prefix [OF assms(2)] ne prefix_le by auto
  ultimately show ?thesis by blast
qed

text \<open>A page of \<open>SCAN\<close> and the pages that follow from its cursor are all the names from the start on.\<close>

lemma scan_chain:
  assumes "sa_readable api st" "pre \<le> start" "0 < count" "ks = namesFrom api st pre start" "count < length ks"
  shows "ks = take count ks @ namesFrom api st pre (ks ! count)"
proof -
  have s: "sorted_wrt (<) ks" "set ks = {k. sa_view api st (descriptorLocator k) \<noteq> None \<and> prefix pre k \<and> start \<le> k}"
    using namesFrom_sorted [OF assms(1,2)] assms(4) by simp_all
  have c: "ks ! count \<in> set ks" using assms(5) by simp
  then have le: "pre \<le> ks ! count" "start \<le> ks ! count" using s(2) prefix_le by auto
  note t = namesFrom_sorted [OF assms(1) le(1)]
  have sd: "sorted_wrt (<) (drop count ks)" using s(1) by (rule sorted_wrt_drop)
  have "namesFrom api st pre (ks ! count) = drop count ks"
  proof (rule strict_sorted_equal [OF sd t(1)])
    have "k \<in> set (drop count ks) \<longleftrightarrow> k \<in> set ks \<and> ks ! count \<le> k" for k
    proof
      assume "k \<in> set (drop count ks)"
      then obtain i where i: "i < length ks - count" "k = ks ! (count + i)" by (auto simp: in_set_conv_nth)
      then have "ks ! count \<le> k"
        using s(1) assms(5) by (cases i) (auto simp: sorted_wrt_iff_nth_less intro: less_imp_le)
      then show "k \<in> set ks \<and> ks ! count \<le> k" using i by auto
    next
      assume k: "k \<in> set ks \<and> ks ! count \<le> k"
      then obtain i where i: "i < length ks" "k = ks ! i" by (auto simp: in_set_conv_nth)
      have "count \<le> i"
      proof (rule ccontr)
        assume "\<not> count \<le> i"
        then have "ks ! i < ks ! count" using s(1) i assms(5) by (simp add: sorted_wrt_iff_nth_less)
        with k i show False by simp
      qed
      then have "drop count ks ! (i - count) = k" "i - count < length (drop count ks)" using i by simp_all
      then show "k \<in> set (drop count ks)" by (metis nth_mem)
    qed
    with s(2) t(2) le show "set (namesFrom api st pre (ks ! count)) = set (drop count ks)" by auto
  qed
  then show ?thesis by simp
qed

subsection \<open>Cursors the server did not hand out\<close>

text \<open>A cursor with a hash that nothing escapes makes \<open>lhscan\<close> fail an assertion.\<close>

lemma lhscan_bad_cursor:
  assumes "assertKeyType api st key kLocalityHash = Some True" "key \<noteq> []"
  shows "lhscan behind api st key ''x|#y#z'' [] count = None" "lhscan behind api st key ''##z'' [] count = None"
proof -
  have "extractorParse ''x|#y#z'' = None"
    by (simp add: extractorParse_def extractPrefix_def)
  moreover have "extractorParse ''##z'' = Some \<lparr>parsingOk = True, ex_slice = ''##z'', unescaped = [], boundary = 2\<rparr>"
    by (simp add: extractorParse_def)
  ultimately show "lhscan behind api st key ''x|#y#z'' [] count = None" "lhscan behind api st key ''##z'' [] count = None"
    using assms by (simp_all add: lhscan_def getOriginalPrefix_def getRawSuffix_def Let_def)
qed

end
