(* ===== verification/Dispatchers.thy ===== *)
theory Dispatchers
  imports Transactions ScanOps HashOps SetOps LeaseOps DequeOps VersionedHashOps StateMachines
begin

text \<open>
  The dispatcher of data commands (\<open>RedisDispatcher\<close> and \<open>Dispatcher\<close> of \<^verbatim>\<open>src/src/Dispatcher.cc\<close>): the
  checks on the arguments, the call of the state machine, and the reply.  A write gives the reply
  and the staging area after it, a read the reply alone.

  Parameters of the environment: the byte in memory behind a pattern, the operations on \<open>double\<close>, the text of a status
  (\<open>rocksdb::Status::ToString\<close>), the debugging views of the storage engine (the internal keys from a
  position on, in the database and in the database under a write batch, and all versions of a key), and the reading of the steady clock.
\<close>

record ('db, 'wb, 'f) dispatch_env =
  env_behind :: char
  env_float :: "'f float_ops"
  env_statusText :: "status \<Rightarrow> bytes"
  env_internalKeys :: "'db \<Rightarrow> bytes \<Rightarrow> bytes list"
  env_batchInternalKeys :: "'db \<Rightarrow> 'wb \<Rightarrow> bytes \<Rightarrow> bytes list"
  env_versions :: "'db \<Rightarrow> bytes \<Rightarrow> status \<times> (bytes \<times> bytes \<times> int \<times> int) list"
  env_now :: nat

subsection \<open>Replies\<close>

definition fromStatus :: "('db, 'wb, 'f) dispatch_env \<Rightarrow> status \<Rightarrow> bytes" where
  "fromStatus env s = (if s = OK then f_ok else f_err (env_statusText env s))"

definition intReply :: "('db, 'wb, 'f) dispatch_env \<Rightarrow> status \<Rightarrow> int \<Rightarrow> bytes" where
  "intReply env s i = (if s \<noteq> OK then fromStatus env s else f_integer i)"

definition stringReply :: "('db, 'wb, 'f) dispatch_env \<Rightarrow> status \<Rightarrow> bytes \<Rightarrow> bytes" where
  "stringReply env s x = (if s = NotFound then f_null else if s \<noteq> OK then fromStatus env s else f_string x)"

definition vectorReply :: "('db, 'wb, 'f) dispatch_env \<Rightarrow> status \<Rightarrow> bytes list \<Rightarrow> bytes" where
  "vectorReply env s xs = (if s \<noteq> OK then fromStatus env s else f_vector xs)"

definition scanReply :: "('db, 'wb, 'f) dispatch_env \<Rightarrow> status \<Rightarrow> bytes \<Rightarrow> bytes list \<Rightarrow> bytes" where
  "scanReply env s newcursor xs = (if s \<noteq> OK then fromStatus env s else f_scan (renderCursor newcursor) xs)"

text \<open>Conversion of an \<open>int64_t\<close> to \<open>size_t\<close>.\<close>

definition sizeT :: "int \<Rightarrow> nat" where
  "sizeT n = unat (word_of_int n :: u64)"

subsection \<open>Commands without data\<close>

definition handleConversion :: "redis_request \<Rightarrow> bytes option" where
  "handleConversion req =
     (let a = contents req in
      case command req of
        Control CONVERT_STRING_TO_INT \<Rightarrow>
          (if length a \<noteq> 2 then Some (f_errArgs (a ! 0))
           else if length (a ! 1) \<noteq> 8 then
             Some (f_err (''expected string with 8 characters, was given '' @ to_string (int (length (a ! 1))) @ '' instead''))
           else Some (f_statusVector
             [''Interpreted as int64_t: '' @ to_string (binaryStringToInt (a ! 1)),
              ''Interpreted as uint64_t: '' @ to_string (uint (binaryStringToUnsignedInt (a ! 1)))]))
      | Control CONVERT_INT_TO_STRING \<Rightarrow>
          (if length a \<noteq> 2 then Some (f_errArgs (a ! 0))
           else case parseInt64 (a ! 1) of None \<Rightarrow> Some (f_err ''cannot parse integer'')
           | Some n \<Rightarrow> Some (f_vector
               [''As int64_t: '' @ intToBinaryString n, ''As uint64_t: '' @ unsignedIntToBinaryString (word_of_int n)]))
      | _ \<Rightarrow> None)"

definition handlePing :: "redis_request \<Rightarrow> bytes option" where
  "handlePing req = do {
     assert_that (command req = Control PING);
     let a = contents req;
     Some (if 2 < length a then f_errArgs (a ! 0) else if length a = 1 then f_pong else f_string (a ! 1)) }"

definition dispatchingError :: "redis_request \<Rightarrow> int \<Rightarrow> bytes option" where
  "dispatchingError req commit =
     (if commit \<noteq> 0 then None
      else Some (f_err (''internal dispatching error for '' @ [CHR 0x27] @ contents req ! 0 @ [CHR 0x27])))"

subsection \<open>Writes\<close>

text \<open>The part of the switch on strings, keys, hashes and sets.\<close>

fun hincrbymultiLoop ::
  "('db, 'wb) rocksdb \<Rightarrow> ('db, 'wb) staging \<Rightarrow> int \<Rightarrow> bytes list \<Rightarrow> (int \<times> ('db, 'wb) staging) option" where
  "hincrbymultiLoop api st ret (k # f # i # rest) = do {
     (_, tmpret, st) \<leftarrow> hincrby api st k f i;
     ret \<leftarrow> checkedAdd ret tmpret;
     hincrbymultiLoop api st ret rest }"
| "hincrbymultiLoop api st ret _ = Some (ret, st)"

definition dispatchHDEL ::
  "('db, 'wb, 'f) dispatch_env \<Rightarrow> ('db, 'wb) rocksdb \<Rightarrow> ('db, 'wb) staging \<Rightarrow> bytes \<Rightarrow> bytes list
    \<Rightarrow> (bytes \<times> ('db, 'wb) staging) option" where
  "dispatchHDEL env api st key args = do { (s, count, st) \<leftarrow> hdel api st key args; Some (intReply env s count, st) }"

definition dispatchHashSet ::
  "('db, 'wb, 'f) dispatch_env \<Rightarrow> ('db, 'wb) rocksdb \<Rightarrow> ('db, 'wb) staging \<Rightarrow> WriteCommand \<Rightarrow> bytes list
    \<Rightarrow> (bytes \<times> ('db, 'wb) staging) option" where
  "dispatchHashSet env api st c a =
     (let bad = Some (f_errArgs (a ! 0), st); n = length a in
      case c of
        FLUSHALL \<Rightarrow> (if n \<noteq> 1 then bad else do { (s, st) \<leftarrow> flushall api st; Some (fromStatus env s, st) })
      | SET \<Rightarrow> (if n \<noteq> 3 then bad else do { (s, st) \<leftarrow> set_op api st (a ! 1) (a ! 2); Some (fromStatus env s, st) })
      | DEL \<Rightarrow> (if n \<le> 1 then bad else do { (s, count, st) \<leftarrow> del_op api st (drop 1 a); Some (intReply env s count, st) })
      | HSET \<Rightarrow> (if n \<noteq> 4 then bad else do {
          (s, created, st) \<leftarrow> hset api st (a ! 1) (a ! 2) (a ! 3); Some (intReply env s (of_bool created), st) })
      | HSETNX \<Rightarrow> (if n \<noteq> 4 then bad else do {
          (s, created, st) \<leftarrow> hsetnx api st (a ! 1) (a ! 2) (a ! 3); Some (intReply env s (of_bool created), st) })
      | HMSET \<Rightarrow> (if n \<le> 3 \<or> n mod 2 \<noteq> 0 then bad else do {
          (s, st) \<leftarrow> hmset api st (a ! 1) (drop 2 a); Some (fromStatus env s, st) })
      | HINCRBY \<Rightarrow> (if n \<noteq> 4 then bad else do {
          (s, ret, st) \<leftarrow> hincrby api st (a ! 1) (a ! 2) (a ! 3); Some (intReply env s ret, st) })
      | HINCRBYMULTI \<Rightarrow> (if n < 4 \<or> (n - 1) mod 3 \<noteq> 0 then bad else do {
          (ret, st) \<leftarrow> hincrbymultiLoop api st 0 (drop 1 a); Some (f_integer ret, st) })
      | HINCRBYFLOAT \<Rightarrow> (if n \<noteq> 4 then bad else do {
          (s, ret, st) \<leftarrow> hincrbyfloat (env_float env) api st (a ! 1) (a ! 2) (a ! 3);
          Some (if s \<noteq> OK then fromStatus env s else f_string (fl_to_string (env_float env) ret), st) })
      | HDEL \<Rightarrow> (if n \<le> 2 then bad else dispatchHDEL env api st (a ! 1) (drop 2 a))
      | HCLONE \<Rightarrow> (if n \<noteq> 3 then bad else do {
          (s, st) \<leftarrow> hclone api st (a ! 1) (a ! 2); Some (fromStatus env s, st) })
      | SADD \<Rightarrow> (if n \<le> 2 then bad else do {
          (s, count, st) \<leftarrow> sadd api st (a ! 1) (drop 2 a); Some (intReply env s count, st) })
      | SREM \<Rightarrow> (if n \<le> 2 then bad else do {
          (s, count, st) \<leftarrow> srem api st (a ! 1) (drop 2 a); Some (intReply env s count, st) })
      | SMOVE \<Rightarrow> (if n \<noteq> 4 then bad else do {
          (s, count, st) \<leftarrow> smove api st (a ! 1) (a ! 2) (a ! 3); Some (intReply env s count, st) })
      | _ \<Rightarrow> None)"

text \<open>Deques, the configuration, versioned hashes and the artificially slow write.\<close>

definition dispatchDeque ::
  "('db, 'wb, 'f) dispatch_env \<Rightarrow> ('db, 'wb) rocksdb \<Rightarrow> ('db, 'wb) staging \<Rightarrow> WriteCommand \<Rightarrow> bytes list
    \<Rightarrow> (bytes \<times> ('db, 'wb) staging) option" where
  "dispatchDeque env api st c a =
     (let bad = Some (f_errArgs (a ! 0), st); n = length a in
      case c of
        DEQUE_PUSH_FRONT \<Rightarrow> (if n < 3 then bad else do {
          (s, len, st) \<leftarrow> dequePushFront api st (a ! 1) (drop 2 a); Some (intReply env s len, st) })
      | DEQUE_PUSH_BACK \<Rightarrow> (if n < 3 then bad else do {
          (s, len, st) \<leftarrow> dequePushBack api st (a ! 1) (drop 2 a); Some (intReply env s len, st) })
      | DEQUE_POP_FRONT \<Rightarrow> (if n \<noteq> 2 then bad else do {
          (s, item, st) \<leftarrow> dequePopFront api st (a ! 1); Some (stringReply env s item, st) })
      | DEQUE_POP_BACK \<Rightarrow> (if n \<noteq> 2 then bad else do {
          (s, item, st) \<leftarrow> dequePopBack api st (a ! 1); Some (stringReply env s item, st) })
      | DEQUE_TRIM_FRONT \<Rightarrow> (if n \<noteq> 3 then bad else do {
          (s, removed, st) \<leftarrow> dequeTrimFront api st (a ! 1) (a ! 2); Some (intReply env s removed, st) })
      | DEQUE_CLEAR \<Rightarrow> (if n \<noteq> 2 then bad else do {
          (s, removed, st) \<leftarrow> dequeTrimFront api st (a ! 1) ''0''; Some (intReply env s removed, st) })
      | CONFIG_SET \<Rightarrow> (if n \<noteq> 3 then bad else do {
          (s, st) \<leftarrow> configSet api st (a ! 1) (a ! 2); Some (fromStatus env s, st) })
      | ARTIFICIALLY_SLOW_WRITE_NEVER_USE_THIS \<Rightarrow> (if n \<noteq> 2 then bad else
          Some (fromStatus env (artificiallySlowWriteNeverUseThis (a ! 1)), st))
      | VHSET \<Rightarrow> (if n \<noteq> 4 then bad else do {
          (s, version, st) \<leftarrow> vhset api st (a ! 1) (a ! 2) (a ! 3);
          Some (if s \<noteq> OK then fromStatus env s else f_uint64 version, st) })
      | VHDEL \<Rightarrow> (if n \<le> 2 then bad else do {
          (s, version, st) \<leftarrow> vhdel api st (a ! 1) (drop 2 a);
          Some (if s \<noteq> OK then fromStatus env s else f_uint64 version, st) })
      | _ \<Rightarrow> None)"

definition dispatchLHSET ::
  "('db, 'wb, 'f) dispatch_env \<Rightarrow> ('db, 'wb) rocksdb \<Rightarrow> ('db, 'wb) staging \<Rightarrow> bytes \<Rightarrow> bytes \<Rightarrow> bytes \<Rightarrow> bytes
    \<Rightarrow> (bytes \<times> ('db, 'wb) staging) option" where
  "dispatchLHSET env api st key field hint val = do {
     (s, created, st) \<leftarrow> lhset api st key field hint val; Some (intReply env s (of_bool created), st) }"

definition dispatchLHDEL ::
  "('db, 'wb, 'f) dispatch_env \<Rightarrow> ('db, 'wb) rocksdb \<Rightarrow> ('db, 'wb) staging \<Rightarrow> bytes \<Rightarrow> bytes list
    \<Rightarrow> (bytes \<times> ('db, 'wb) staging) option" where
  "dispatchLHDEL env api st key args = do { (s, count, st) \<leftarrow> lhdel api st key args; Some (intReply env s count, st) }"

definition convertHashFieldToLhash ::
  "('db, 'wb, 'f) dispatch_env \<Rightarrow> ('db, 'wb) rocksdb \<Rightarrow> ('db, 'wb) staging \<Rightarrow> bytes list
    \<Rightarrow> (bytes \<times> ('db, 'wb) staging) option" where
  "convertHashFieldToLhash env api st a = do {
     (s, _) \<leftarrow> lhget api st (a ! 3) (a ! 4) (a ! 5);
     if s = OK then Some (f_err ''Destination field already exists!'', st)
     else do {
       (s, val) \<leftarrow> hget api st (a ! 1) (a ! 2);
       if s \<noteq> OK then Some (fromStatus env s, st)
       else do {
         (s, created, st) \<leftarrow> lhset api st (a ! 3) (a ! 4) (a ! 5) val;
         if s \<noteq> OK then Some (fromStatus env s, st)
         else do {
           assert_that created;
           (s, removed, st) \<leftarrow> hdel api st (a ! 1) [a ! 2];
           assert_that (s = OK);
           assert_that (removed = 1);
           Some (f_ok, st) } } } }"

definition dispatchLocality ::
  "('db, 'wb, 'f) dispatch_env \<Rightarrow> ('db, 'wb) rocksdb \<Rightarrow> ('db, 'wb) staging \<Rightarrow> WriteCommand \<Rightarrow> bytes list
    \<Rightarrow> (bytes \<times> ('db, 'wb) staging) option" where
  "dispatchLocality env api st c a =
     (let bad = Some (f_errArgs (a ! 0), st); n = length a in
      case c of
        LHSET \<Rightarrow> (if n \<noteq> 5 then bad else dispatchLHSET env api st (a ! 1) (a ! 2) (a ! 3) (a ! 4))
      | LHDEL \<Rightarrow> (if n \<le> 2 then bad else dispatchLHDEL env api st (a ! 1) (drop 2 a))
      | LHLOCDEL \<Rightarrow> (if n \<noteq> 4 then bad else do {
          (s, removed, st) \<leftarrow> lhlocdel api st (a ! 1) (a ! 2) (a ! 3); Some (intReply env s removed, st) })
      | LHMSET \<Rightarrow> (if n \<le> 4 \<or> (n - 2) mod 3 \<noteq> 0 then bad else do {
          (s, st) \<leftarrow> lhmset api st (a ! 1) (drop 2 a); Some (fromStatus env s, st) })
      | LHSET_AND_DEL_FALLBACK \<Rightarrow> (if n \<noteq> 6 then bad else do {
          (r, st) \<leftarrow> dispatchLHSET env api st (a ! 1) (a ! 2) (a ! 3) (a ! 4);
          (_, st) \<leftarrow> dispatchHDEL env api st (a ! 5) [a ! 2];
          Some (r, st) })
      | LHDEL_WITH_FALLBACK \<Rightarrow> (if n \<noteq> 4 then bad else do {
          (r, st) \<leftarrow> dispatchLHDEL env api st (a ! 1) [a ! 2];
          if r \<noteq> f_integer 1 then dispatchHDEL env api st (a ! 3) [a ! 2] else Some (r, st) })
      | CONVERT_HASH_FIELD_TO_LHASH \<Rightarrow> (if n \<noteq> 6 then bad else convertHashFieldToLhash env api st a)
      | _ \<Rightarrow> None)"

text \<open>Leases; the last argument is the time the leader stamped the request with.\<close>

definition dispatchLease ::
  "('db, 'wb, 'f) dispatch_env \<Rightarrow> ('db, 'wb) rocksdb \<Rightarrow> ('db, 'wb) staging \<Rightarrow> WriteCommand \<Rightarrow> bytes list
    \<Rightarrow> (bytes \<times> ('db, 'wb) staging) option" where
  "dispatchLease env api st c a =
     (let n = length a in
      case c of
        TIMESTAMPED_LEASE_ACQUIRE \<Rightarrow>
          (if n \<noteq> 5 then Some (f_errArgs ''lease_acquire'', st)
           else case parseInt64 (a ! 3) of
             None \<Rightarrow> Some (f_err ''value is not an integer or out of range'', st)
           | Some duration \<Rightarrow>
             (if duration < 1 then Some (f_err ''value is not an integer or out of range'', st)
              else do {
                assert_that (length (a ! 4) = 8);
                let timestamp = binaryStringToUnsignedInt (a ! 4);
                (s, info, st) \<leftarrow> lease_acquire api st (a ! 1) (a ! 2) timestamp (word_of_int duration);
                (case s of
                   kKeyTypeMismatch \<Rightarrow>
                     Some (f_err ''Invalid Argument: WRONGTYPE Operation against a key holding the wrong kind of value'', st)
                 | kAcquired \<Rightarrow> Some (f_status ''ACQUIRED'', st)
                 | kRenewed \<Rightarrow> Some (f_status ''RENEWED'', st)
                 | kFailedDueToOtherOwner \<Rightarrow>
                     (case info of None \<Rightarrow> None
                      | Some li \<Rightarrow> Some (f_err (''lease held by '' @ [CHR 0x27] @ li_value li @ [CHR 0x27] @ '', time remaining ''
                          @ to_string (uint (li_deadline li - timestamp)) @ '' ms''), st))) }))
      | TIMESTAMPED_LEASE_GET \<Rightarrow>
          (if n \<noteq> 3 then Some (f_errArgs ''lease_get'', st)
           else do {
             assert_that (length (a ! 2) = 8);
             let timestamp = binaryStringToUnsignedInt (a ! 2);
             (s, info, st) \<leftarrow> lease_get api st (a ! 1) timestamp;
             if s = NotFound then Some (f_null, st)
             else do {
               assert_that (s = OK);
               (case info of None \<Rightarrow> None
                | Some li \<Rightarrow> Some (f_statusVector [''HOLDER: '' @ li_value li,
                    ''REMAINING: '' @ to_string (uint (li_deadline li - timestamp)) @ '' ms''], st)) } })
      | TIMESTAMPED_LEASE_RELEASE \<Rightarrow>
          (if n \<noteq> 3 then Some (f_errArgs ''lease_release'', st)
           else do {
             assert_that (length (a ! 2) = 8);
             (s, st) \<leftarrow> lease_release api st (a ! 1) (binaryStringToUnsignedInt (a ! 2));
             Some (if s = NotFound then f_null else if s \<noteq> OK then fromStatus env s else f_ok, st) })
      | _ \<Rightarrow> None)"

text \<open>
  The whole switch.  \<open>transact\<close> runs an unpacked transaction.  A command the switch does not know
  (a lease command that was not stamped) throws.
\<close>

definition dispatchWrite ::
  "(('db, 'wb) staging \<Rightarrow> transaction \<Rightarrow> (bytes \<times> ('db, 'wb) staging) option)
    \<Rightarrow> ('db, 'wb, 'f) dispatch_env \<Rightarrow> ('db, 'wb) rocksdb \<Rightarrow> ('db, 'wb) staging \<Rightarrow> redis_request
    \<Rightarrow> (bytes \<times> ('db, 'wb) staging) option" where
  "dispatchWrite transact env api st req =
     (case command req of
        Write c \<Rightarrow>
          (if c \<in> {FLUSHALL, SET, DEL, HSET, HSETNX, HMSET, HINCRBY, HINCRBYMULTI, HINCRBYFLOAT, HDEL, HCLONE, SADD, SREM, SMOVE}
           then dispatchHashSet env api st c (contents req)
           else if c \<in> {DEQUE_PUSH_FRONT, DEQUE_PUSH_BACK, DEQUE_POP_FRONT, DEQUE_POP_BACK, DEQUE_TRIM_FRONT, DEQUE_CLEAR,
                        CONFIG_SET, ARTIFICIALLY_SLOW_WRITE_NEVER_USE_THIS, VHSET, VHDEL}
           then dispatchDeque env api st c (contents req)
           else if c \<in> {LHSET, LHDEL, LHLOCDEL, LHMSET, LHSET_AND_DEL_FALLBACK, LHDEL_WITH_FALLBACK, CONVERT_HASH_FIELD_TO_LHASH}
           then dispatchLocality env api st c (contents req)
           else if c \<in> {TIMESTAMPED_LEASE_ACQUIRE, TIMESTAMPED_LEASE_GET, TIMESTAMPED_LEASE_RELEASE}
           then dispatchLease env api st c (contents req)
           else if c = TX_READWRITE then do {
             (ok, tx) \<leftarrow> tx_deserialize req emptyTransaction;
             assert_that ok;
             transact st tx }
           else None)
      | _ \<Rightarrow> None)"

end
