(* ===== verification/DispatchReads.thy ===== *)
theory DispatchReads
  imports Dispatchers
begin

text \<open>
  The read half of the dispatcher: \<open>RedisDispatcher::dispatchRead\<close> of \<^verbatim>\<open>src/src/Dispatcher.cc\<close>, and
  the debugging scan over tombstones with the parser of internal keys it needs
  (\<^verbatim>\<open>src/src/storage/InternalKeyParsing.cc\<close>).
\<close>

subsection \<open>Internal keys\<close>

text \<open>The low byte of the little-endian trailer of eight bytes.\<close>

definition getValueType :: "bytes \<Rightarrow> nat" where
  "getValueType internalKey = of_char (internalKey ! (length internalKey - 8))"

definition isTombstone :: "bytes \<Rightarrow> bool" where
  "isTombstone internalKey \<longleftrightarrow>
     8 \<le> length internalKey \<and> (getValueType internalKey = 0x0 \<or> getValueType internalKey = 0x7)"

definition getInternalKeyType :: "bytes \<Rightarrow> bytes" where
  "getInternalKeyType internalKey =
     (if length internalKey < 8 then ''(invalid key type)''
      else let valueType = getValueType internalKey in
        if valueType = 0x0 then ''deletion''
        else if valueType = 0x1 then ''value''
        else if valueType = 0x2 then ''merge''
        else if valueType = 0x3 then ''log data''
        else if valueType = 0x4 then ''column family deletion''
        else if valueType = 0x5 then ''column family value''
        else if valueType = 0x6 then ''column family merge''
        else if valueType = 0x7 then ''single deletion''
        else if valueType = 0x8 then ''column family single deletion''
        else if valueType = 0x9 then ''begin prepare xid''
        else if valueType = 0xA then ''end prepare xid''
        else if valueType = 0xB then ''commit xid''
        else if valueType = 0xC then ''rollback xid''
        else if valueType = 0xD then ''noop''
        else if valueType = 0xE then ''column family range deletion''
        else if valueType = 0xF then ''range deletion''
        else if valueType = 0x10 then ''column family blob index''
        else if valueType = 0x11 then ''blob index''
        else if valueType = 0x12 then ''begin persisted prepare xid''
        else if valueType = 0x13 then ''begin unprepare xid''
        else ''(cannot determine key type)'')"

lemma isTombstone_iff:
  "isTombstone k \<longleftrightarrow> getInternalKeyType k = ''deletion'' \<or> getInternalKeyType k = ''single deletion''"
  by (simp add: isTombstone_def getInternalKeyType_def Let_def)

definition sa_internalIter ::
  "('db, 'wb, 'f) dispatch_env \<Rightarrow> ('db, 'wb) staging \<Rightarrow> bytes \<Rightarrow> bytes list" where
  "sa_internalIter env st seek =
     (if readOnly st then (case snapshot st of Some db \<Rightarrow> env_internalKeys env db seek | None \<Rightarrow> [])
      else if bulkLoad st then []
      else env_batchInternalKeys env (sm_db (stateMachine st)) (writeBatchWithIndex st) seek)"

fun tombstoneLoop :: "nat \<Rightarrow> bytes list \<Rightarrow> bytes list \<Rightarrow> bytes list" where
  "tombstoneLoop count elements [] = elements"
| "tombstoneLoop count elements (currentKey # ks) =
     (if length elements < count
      then tombstoneLoop count
             (if isTombstone currentKey then elements @ [take (length currentKey - 8) currentKey] else elements) ks
      else elements)"

definition rawScanTombstones ::
  "('db, 'wb, 'f) dispatch_env \<Rightarrow> ('db, 'wb) staging \<Rightarrow> bytes \<Rightarrow> nat \<Rightarrow> status \<times> bytes list" where
  "rawScanTombstones env st key count = (OK, tombstoneLoop count [] (sa_internalIter env st key))"

definition rawScanMaybeTombstones ::
  "('db, 'wb, 'f) dispatch_env \<Rightarrow> ('db, 'wb) rocksdb \<Rightarrow> ('db, 'wb) staging \<Rightarrow> bytes \<Rightarrow> nat \<Rightarrow> bool
    \<Rightarrow> status \<times> bytes list" where
  "rawScanMaybeTombstones env api st seek count tombstones =
     (if tombstones then rawScanTombstones env st seek count else rawScan api st seek count)"

lemma tombstoneLoop_eq:
  "length elements \<le> count \<Longrightarrow>
     tombstoneLoop count elements ks =
     elements @ take (count - length elements) (map (\<lambda>k. take (length k - 8) k) (filter isTombstone ks))"
  by (induction ks arbitrary: elements) (auto simp: take_Cons' Suc_diff_le)

subsection \<open>Strings, keys and hashes\<close>

definition dispatchHGET ::
  "('db, 'wb, 'f) dispatch_env \<Rightarrow> ('db, 'wb) rocksdb \<Rightarrow> ('db, 'wb) staging \<Rightarrow> bytes \<Rightarrow> bytes \<Rightarrow> bytes option" where
  "dispatchHGET env api st key field = do { (s, val) \<leftarrow> hget api st key field; Some (stringReply env s val) }"

definition dispatchLHGET ::
  "('db, 'wb, 'f) dispatch_env \<Rightarrow> ('db, 'wb) rocksdb \<Rightarrow> ('db, 'wb) staging \<Rightarrow> bytes \<Rightarrow> bytes \<Rightarrow> bytes \<Rightarrow> bytes option" where
  "dispatchLHGET env api st key field hint = do { (s, val) \<leftarrow> lhget api st key field hint; Some (stringReply env s val) }"

text \<open>A scan command: its arguments are parsed, an error among them is the reply, else the scan runs.\<close>

definition scanCommand ::
  "('db, 'wb, 'f) dispatch_env \<Rightarrow> bool \<Rightarrow> bool \<Rightarrow> bytes list
    \<Rightarrow> (scan_arguments \<Rightarrow> (status \<times> bytes \<times> bytes list) option) \<Rightarrow> bytes option" where
  "scanCommand env supportMatch supportMatchloc args run = do {
     parsed \<leftarrow> parseScanCommand supportMatch supportMatchloc args;
     (case parsed of Inl e \<Rightarrow> Some (f_err e)
      | Inr sa \<Rightarrow> do { (s, newcursor, vec) \<leftarrow> run sa; Some (scanReply env s newcursor vec) }) }"

definition memberReply :: "('db, 'wb, 'f) dispatch_env \<Rightarrow> status \<Rightarrow> bytes" where
  "memberReply env s = (if s = OK then f_integer 1 else if s = NotFound then f_integer 0 else fromStatus env s)"

definition dispatchHashReads ::
  "('db, 'wb, 'f) dispatch_env \<Rightarrow> ('db, 'wb) rocksdb \<Rightarrow> ('db, 'wb) staging \<Rightarrow> ReadCommand \<Rightarrow> bytes list \<Rightarrow> bytes option" where
  "dispatchHashReads env api st c a =
     (let bad = Some (f_errArgs (a ! 0)); n = length a in
      case c of
        TYPE_OF \<Rightarrow> (if n \<noteq> 2 then bad else do { retval \<leftarrow> getType api st (a ! 1); Some (f_status retval) })
      | GET \<Rightarrow> (if n \<noteq> 2 then bad else do { (s, val) \<leftarrow> get_op api st (a ! 1); Some (stringReply env s val) })
      | EXISTS \<Rightarrow> (if n \<le> 1 then bad else do { (s, count) \<leftarrow> exists_op api st (drop 1 a); Some (intReply env s count) })
      | KEYS \<Rightarrow> (if n \<noteq> 2 then bad else do {
          (s, ret) \<leftarrow> keys_op (env_behind env) api st (a ! 1); Some (vectorReply env s ret) })
      | SCAN \<Rightarrow> (if n < 2 then bad else
          scanCommand env True False (drop 1 a)
            (\<lambda>sa. scan_op (CHR 0x00) api st (scan_cursor sa) (scan_match sa) (sizeT (scan_count sa)) []))
      | HGET \<Rightarrow> (if n \<noteq> 3 then bad else dispatchHGET env api st (a ! 1) (a ! 2))
      | HEXISTS \<Rightarrow> (if n \<noteq> 3 then bad else do { s \<leftarrow> hexists api st (a ! 1) (a ! 2); Some (memberReply env s) })
      | HKEYS \<Rightarrow> (if n \<noteq> 2 then bad else do { (s, xs) \<leftarrow> hkeys api st (a ! 1); Some (vectorReply env s xs) })
      | HGETALL \<Rightarrow> (if n \<noteq> 2 then bad else do { (s, xs) \<leftarrow> hgetall api st (a ! 1); Some (vectorReply env s xs) })
      | HLEN \<Rightarrow> (if n \<noteq> 2 then bad else do { (s, len) \<leftarrow> hlen api st (a ! 1); Some (intReply env s len) })
      | HVALS \<Rightarrow> (if n \<noteq> 2 then bad else do { (_, xs) \<leftarrow> hvals api st (a ! 1); Some (f_vector xs) })
      | HSCAN \<Rightarrow> (if n < 3 then bad else
          scanCommand env False False (drop 2 a)
            (\<lambda>sa. hscan api st (a ! 1) (scan_cursor sa) (sizeT (scan_count sa))))
      | _ \<Rightarrow> None)"

subsection \<open>Sets, deques and the configuration\<close>

definition dispatchSetReads ::
  "('db, 'wb, 'f) dispatch_env \<Rightarrow> ('db, 'wb) rocksdb \<Rightarrow> ('db, 'wb) staging \<Rightarrow> ReadCommand \<Rightarrow> bytes list \<Rightarrow> bytes option" where
  "dispatchSetReads env api st c a =
     (let bad = Some (f_errArgs (a ! 0)); n = length a in
      case c of
        SISMEMBER \<Rightarrow> (if n \<noteq> 3 then bad else do { s \<leftarrow> sismember api st (a ! 1) (a ! 2); Some (memberReply env s) })
      | SMEMBERS \<Rightarrow> (if n \<noteq> 2 then bad else do { (s, xs) \<leftarrow> smembers api st (a ! 1); Some (vectorReply env s xs) })
      | SCARD \<Rightarrow> (if n \<noteq> 2 then bad else do { (s, count) \<leftarrow> scard api st (a ! 1); Some (intReply env s count) })
      | SSCAN \<Rightarrow> (if n < 3 then bad else
          scanCommand env False False (drop 2 a)
            (\<lambda>sa. sscan api st (a ! 1) (scan_cursor sa) (sizeT (scan_count sa))))
      | DEQUE_LEN \<Rightarrow> (if n \<noteq> 2 then bad else do { (s, len) \<leftarrow> dequeLen api st (a ! 1); Some (intReply env s len) })
      | DEQUE_SCAN_BACK \<Rightarrow> (if n < 3 then bad else
          scanCommand env False False (drop 2 a)
            (\<lambda>sa. dequeScanBack api st (a ! 1) (scan_cursor sa) (word_of_int (scan_count sa))))
      | CONFIG_GET \<Rightarrow> (if n \<noteq> 2 then bad else
          (let (s, val) = configGet api st (a ! 1) in Some (stringReply env s val)))
      | CONFIG_GETALL \<Rightarrow> (if n \<noteq> 1 then bad else
          (let (s, ret) = configGetall api st in Some (vectorReply env s ret)))
      | _ \<Rightarrow> None)"

subsection \<open>Locality hashes, raw scans, the clock and versioned hashes\<close>

text \<open>
  \<open>LHGET_WITH_FALLBACK\<close>: with another number of arguments the reply stays empty, which is not the
  null reply, and is returned.
\<close>

definition dispatchLHGETFallback ::
  "('db, 'wb, 'f) dispatch_env \<Rightarrow> ('db, 'wb) rocksdb \<Rightarrow> ('db, 'wb) staging \<Rightarrow> bytes list \<Rightarrow> bytes option" where
  "dispatchLHGETFallback env api st a = do {
     let n = length a;
     r \<leftarrow> (if n = 4 then dispatchLHGET env api st (a ! 1) (a ! 2) []
           else if n = 5 then dispatchLHGET env api st (a ! 1) (a ! 2) (a ! 3)
           else Some []);
     if r \<noteq> f_null then Some r else dispatchHGET env api st (a ! (n - 1)) (a ! 2) }"

definition dispatchRawScan ::
  "('db, 'wb, 'f) dispatch_env \<Rightarrow> ('db, 'wb) rocksdb \<Rightarrow> ('db, 'wb) staging \<Rightarrow> bool \<Rightarrow> bytes list \<Rightarrow> bytes" where
  "dispatchRawScan env api st withTombstones a =
     (let n = length a; cursor = (if 1 < n then a ! 1 else []);
          run = (\<lambda>count. case rawScanMaybeTombstones env api st cursor count withTombstones of
                            (s, results) \<Rightarrow> vectorReply env s results) in
      if n \<noteq> 1 \<and> n \<noteq> 2 \<and> n \<noteq> 4 then f_errArgs (a ! 0)
      else if n = 1 \<or> n = 2 then run 50
      else if \<not> caseInsensitiveEquals (a ! 2) ''count'' then f_err ''syntax error''
      else case parseInt64 (a ! 3) of
             None \<Rightarrow> f_err ''syntax error''
           | Some count \<Rightarrow> if count \<le> 0 then f_err ''syntax error'' else run (sizeT count))"

definition versionLines :: "bytes \<times> bytes \<times> int \<times> int \<Rightarrow> bytes list" where
  "versionLines v = (case v of (user_key, val, sequence, kind) \<Rightarrow>
     [''KEY: '' @ user_key, ''VALUE: '' @ val, ''SEQUENCE: '' @ to_string sequence, ''TYPE: '' @ to_string kind])"

definition clockLines :: "u64 \<Rightarrow> u64 \<Rightarrow> bytes list" where
  "clockLines staticClk dynamicClk =
     [''STATIC-CLOCK: '' @ to_string (uint staticClk), ''DYNAMIC-CLOCK: '' @ to_string (uint dynamicClk)]"

definition dispatchOtherReads ::
  "('db, 'wb, 'f) dispatch_env \<Rightarrow> ('db, 'wb) rocksdb \<Rightarrow> ('db, 'wb) staging \<Rightarrow> ReadCommand \<Rightarrow> bytes list \<Rightarrow> bytes option" where
  "dispatchOtherReads env api st c a =
     (let bad = Some (f_errArgs (a ! 0)); n = length a in
      case c of
        LHGET \<Rightarrow> (if n = 3 then dispatchLHGET env api st (a ! 1) (a ! 2) []
                   else if n = 4 then dispatchLHGET env api st (a ! 1) (a ! 2) (a ! 3) else bad)
      | LHSCAN \<Rightarrow> (if n < 3 then bad else
          scanCommand env False True (drop 2 a)
            (\<lambda>sa. lhscan (CHR 0x00) api st (a ! 1) (scan_cursor sa) (scan_matchloc sa) (sizeT (scan_count sa))))
      | LHGET_WITH_FALLBACK \<Rightarrow> dispatchLHGETFallback env api st a
      | LHLEN \<Rightarrow> (if n \<noteq> 2 then bad else do { (s, len) \<leftarrow> lhlen api st (a ! 1); Some (intReply env s len) })
      | RAW_SCAN \<Rightarrow> Some (dispatchRawScan env api st False a)
      | RAW_SCAN_TOMBSTONES \<Rightarrow> Some (dispatchRawScan env api st True a)
      | RAW_GET_ALL_VERSIONS \<Rightarrow> (if n \<noteq> 2 then bad else
          (let (s, versions) = env_versions env (sm_db (stateMachine st)) (a ! 1) in
           Some (if s \<noteq> OK then fromStatus env s else f_vector (concat (map versionLines versions)))))
      | CLOCK_GET \<Rightarrow> (if n \<noteq> 1 then bad else do {
          staticClk \<leftarrow> getClock api st;
          Some (f_statusVector (clockLines staticClk (getDynamicClock (env_now env) (stateMachine st)))) })
      | LEASE_GET_PENDING_EXPIRATION_EVENTS \<Rightarrow> (if n \<noteq> 1 then bad else do {
          (staticClk, dynamicClk, events) \<leftarrow> lease_get_pending_expiration_events api (env_now env) st;
          Some (f_vector (clockLines staticClk dynamicClk
            @ map (\<lambda>(deadline, key). to_string (uint deadline) @ '': '' @ key) events)) })
      | VHGETALL \<Rightarrow> (if n \<noteq> 2 then bad else do {
          (s, vec, version) \<leftarrow> vhgetall api st (a ! 1);
          Some (if s \<noteq> OK then fromStatus env s else f_versionedVector version vec) })
      | VHLEN \<Rightarrow> (if n \<noteq> 2 then bad else do { (s, len) \<leftarrow> vhlen api st (a ! 1); Some (intReply env s len) })
      | _ \<Rightarrow> None)"

text \<open>
  The whole switch.  \<open>transact\<close> runs an unpacked read-only transaction.  A command that is no read
  gets the dispatching error.
\<close>

definition dispatchRead ::
  "(transaction \<Rightarrow> bytes option)
    \<Rightarrow> ('db, 'wb, 'f) dispatch_env \<Rightarrow> ('db, 'wb) rocksdb \<Rightarrow> ('db, 'wb) staging \<Rightarrow> redis_request \<Rightarrow> bytes option" where
  "dispatchRead transact env api st req =
     (case command req of
        Read c \<Rightarrow>
          (if c \<in> {TYPE_OF, GET, EXISTS, KEYS, SCAN, HGET, HEXISTS, HKEYS, HGETALL, HLEN, HVALS, HSCAN}
           then dispatchHashReads env api st c (contents req)
           else if c \<in> {SISMEMBER, SMEMBERS, SCARD, SSCAN, DEQUE_LEN, DEQUE_SCAN_BACK, CONFIG_GET, CONFIG_GETALL}
           then dispatchSetReads env api st c (contents req)
           else if c \<in> {LHGET, LHSCAN, LHGET_WITH_FALLBACK, LHLEN, RAW_SCAN, RAW_SCAN_TOMBSTONES, RAW_GET_ALL_VERSIONS,
                        CLOCK_GET, LEASE_GET_PENDING_EXPIRATION_EVENTS, VHGETALL, VHLEN}
           then dispatchOtherReads env api st c (contents req)
           else if c = TX_READONLY then do {
             (ok, tx) \<leftarrow> tx_deserialize req emptyTransaction;
             assert_that ok;
             transact tx }
           else dispatchingError req 0)
      | _ \<Rightarrow> dispatchingError req 0)"

end
