(* ===== verification/DispatchTx.thy ===== *)
theory DispatchTx
  imports DispatchReads
begin

text \<open>
  Transactions and the entry points of the dispatcher (\<open>RedisDispatcher::dispatch\<close> and what it calls
  in \<^verbatim>\<open>src/src/Dispatcher.cc\<close>).

  A transaction may hold packed transactions, at any depth.  The dispatcher recurses into them; the
  recursion ends because the requests of a packed transaction are shorter than the request that packs
  them (\<open>tx_deserialize_smaller\<close>).
\<close>

subsection \<open>Packed transactions are smaller\<close>

definition requestSize :: "redis_request \<Rightarrow> nat" where
  "requestSize r = 1 + sum_list (map (\<lambda>x. 1 + length x) (contents r))"

definition totalSize :: "redis_request list \<Rightarrow> nat" where
  "totalSize rs = sum_list (map requestSize rs)"

lemma totalSize_simps [simp]:
  "totalSize [] = 0" "totalSize (r # rs) = requestSize r + totalSize rs" "totalSize (rs @ rs') = totalSize rs + totalSize rs'"
  by (simp_all add: totalSize_def)

lemma contents_request_push_back [simp]: "contents (request_push_back x r) = contents r @ [x]"
  by (simp add: request_push_back_def parseCommand_def Let_def)

lemma readParts_smaller:
  "readParts n pos req = Some (req', pos') \<Longrightarrow> requestSize req' + length pos' \<le> requestSize req + length pos"
proof (induction n pos req rule: readParts.induct)
  case (2 n pos req)
  then obtain len pos1 where i: "readInt pos = Some (len, pos1)" and l: "0 \<le> len" "len \<le> int (length pos1)"
    and r: "readParts n (drop (nat len) pos1) (request_push_back (take (nat len) pos1) req) = Some (req', pos')"
    by (auto simp: assert_that_def Option.bind_eq_Some_conv split: if_splits)
  have p: "length pos = 8 + length pos1" using i by (auto simp: readInt_def split: if_splits)
  have "requestSize req' + length pos' \<le> requestSize (request_push_back (take (nat len) pos1) req) + length (drop (nat len) pos1)"
    by (rule "2.IH" [OF i refl _ r]) (use l in simp)
  also have "\<dots> \<le> requestSize req + length pos" using l p by (simp add: requestSize_def)
  finally show ?case .
qed simp

lemma requests_tx_push_back: "tx_push_back req tx = Some tx' \<Longrightarrow> requests tx' = requests tx @ [req]"
  by (auto simp: tx_push_back_def checkNthCommandForWrites_def assert_that_def split: if_splits)

lemma readRequests_smaller:
  "readRequests n pos tx = Some tx' \<Longrightarrow> totalSize (requests tx') \<le> totalSize (requests tx) + length pos"
proof (induction n arbitrary: pos tx)
  case (Suc n)
  then obtain parts pos1 req pos2 tx1 where i: "readInt pos = Some (parts, pos1)"
    and p: "readParts (nat parts) pos1 emptyRequest = Some (req, pos2)"
    and t: "tx_push_back req tx = Some tx1" and r: "readRequests n pos2 tx1 = Some tx'"
    by (auto simp: Option.bind_eq_Some_conv)
  show ?case
    using Suc.IH [OF r] readParts_smaller [OF p] requests_tx_push_back [OF t] i
    by (auto simp: readInt_def emptyRequest_def requestSize_def split: if_splits)
qed simp

lemma tx_deserialize_smaller:
  assumes "tx_deserialize req emptyTransaction = Some (ok, tx)"
  shows "totalSize (requests tx) < requestSize req"
proof -
  have b: "totalSize (requests t) \<le> length src" if "deserializeBlob src emptyTransaction = Some (k, t)" for src k t
    using that readRequests_smaller
    by (fastforce simp: deserializeBlob_def readInt_def assert_that_def Option.bind_eq_Some_conv emptyTransaction_def
        split: if_splits)
  have "1 + length (contents req ! 1) \<le> sum_list (map (\<lambda>x. 1 + length x) (contents req))" if "length (contents req) = 3"
    using that by (auto simp: length_Suc_conv numeral_3_eq_3)
  then show ?thesis
    using assms b
    by (fastforce simp: tx_deserialize_def requestSize_def assert_that_def Option.bind_eq_Some_conv emptyTransaction_def
        split: if_splits)
qed

subsection \<open>Transactions\<close>

lemma dispatchWrite_cong [fundef_cong]:
  assumes "req = req'" "env = env'" "api = api'" "st = st'"
    and "\<And>st tx. tx_deserialize req' emptyTransaction = Some (True, tx) \<Longrightarrow> f st tx = g st tx"
  shows "dispatchWrite f env api st req = dispatchWrite g env' api' st' req'"
  using assms(5) unfolding assms(1-4)
  by (auto simp: dispatchWrite_def assert_that_def split: RedisCommand.splits if_splits intro!: Option.bind_cong)

lemma dispatchRead_cong [fundef_cong]:
  assumes "req = req'" "env = env'" "api = api'" "st = st'"
    and "\<And>tx. tx_deserialize req' emptyTransaction = Some (True, tx) \<Longrightarrow> f tx = g tx"
  shows "dispatchRead f env api st req = dispatchRead g env' api' st' req'"
  using assms(5) unfolding assms(1-4)
  by (auto simp: dispatchRead_def assert_that_def split: RedisCommand.splits if_splits intro!: Option.bind_cong)

text \<open>The reply to a transaction, from the replies to its requests.\<close>

definition arrayResponse :: "transaction \<Rightarrow> bytes list \<Rightarrow> bytes option" where
  "arrayResponse tx items = do {
     b \<leftarrow> newBuilder (length (requests tx)) (tx_phantom tx);
     b \<leftarrow> builder_push_all items b;
     buildResponse b }"

text \<open>The loop of \<open>dispatchReadOnly\<close>.\<close>

function readOnlyLoop ::
  "('db, 'wb, 'f) dispatch_env \<Rightarrow> ('db, 'wb) rocksdb \<Rightarrow> ('db, 'wb) staging \<Rightarrow> redis_request list \<Rightarrow> bytes list option" where
  "readOnlyLoop env api st [] = Some []"
| "readOnlyLoop env api st (req # reqs) = do {
     r \<leftarrow> dispatchRead (\<lambda>tx. do {
            assert_that (\<not> hasWrites tx);
            items \<leftarrow> readOnlyLoop env api st (requests tx);
            arrayResponse tx items }) env api st req;
     rs \<leftarrow> readOnlyLoop env api st reqs;
     Some (r # rs) }"
  by pat_completeness auto
termination
  by (relation "measure (\<lambda>(env, api, st, reqs). totalSize reqs)")
    (auto dest: tx_deserialize_smaller simp: requestSize_def)

definition dispatchReadOnly ::
  "('db, 'wb, 'f) dispatch_env \<Rightarrow> ('db, 'wb) rocksdb \<Rightarrow> ('db, 'wb) staging \<Rightarrow> transaction \<Rightarrow> bytes option" where
  "dispatchReadOnly env api st tx = do {
     assert_that (\<not> hasWrites tx);
     items \<leftarrow> readOnlyLoop env api st (requests tx);
     arrayResponse tx items }"

text \<open>The loop of \<open>dispatch\<close> on a staging area, with \<open>dispatchReadWrite\<close> as its body.\<close>

function readWriteLoop ::
  "('db, 'wb, 'f) dispatch_env \<Rightarrow> ('db, 'wb) rocksdb \<Rightarrow> ('db, 'wb) staging \<Rightarrow> redis_request list
    \<Rightarrow> (bytes list \<times> ('db, 'wb) staging) option" where
  "readWriteLoop env api st [] = Some ([], st)"
| "readWriteLoop env api st (req # reqs) = do {
     (r, st) \<leftarrow>
       (if commandType req = WRITE
        then dispatchWrite (\<lambda>st tx. do {
               (items, st) \<leftarrow> readWriteLoop env api st (requests tx);
               r \<leftarrow> arrayResponse tx items;
               Some (r, st) }) env api st req
        else do { r \<leftarrow> dispatchRead (dispatchReadOnly env api st) env api st req; Some (r, st) });
     (rs, st) \<leftarrow> readWriteLoop env api st reqs;
     Some (r # rs, st) }"
  by pat_completeness auto
termination
  by (relation "measure (\<lambda>(env, api, st, reqs). totalSize reqs)")
    (auto dest: tx_deserialize_smaller simp: requestSize_def)

definition dispatchTransaction ::
  "('db, 'wb, 'f) dispatch_env \<Rightarrow> ('db, 'wb) rocksdb \<Rightarrow> ('db, 'wb) staging \<Rightarrow> transaction
    \<Rightarrow> (bytes \<times> ('db, 'wb) staging) option" where
  "dispatchTransaction env api st tx = do {
     (items, st) \<leftarrow> readWriteLoop env api st (requests tx);
     r \<leftarrow> arrayResponse tx items;
     Some (r, st) }"

definition dispatchReadWrite ::
  "('db, 'wb, 'f) dispatch_env \<Rightarrow> ('db, 'wb) rocksdb \<Rightarrow> ('db, 'wb) staging \<Rightarrow> redis_request
    \<Rightarrow> (bytes \<times> ('db, 'wb) staging) option" where
  "dispatchReadWrite env api st req =
     (if commandType req = WRITE then dispatchWrite (dispatchTransaction env api) env api st req
      else do { r \<leftarrow> dispatchRead (dispatchReadOnly env api st) env api st req; Some (r, st) })"

lemma readWriteLoop_Cons:
  "readWriteLoop env api st (req # reqs) = do {
     (r, st) \<leftarrow> dispatchReadWrite env api st req;
     (rs, st) \<leftarrow> readWriteLoop env api st reqs;
     Some (r # rs, st) }"
  by (simp add: dispatchReadWrite_def dispatchTransaction_def [abs_def])

lemma readOnlyLoop_Cons:
  "readOnlyLoop env api st (req # reqs) = do {
     r \<leftarrow> dispatchRead (dispatchReadOnly env api st) env api st req;
     rs \<leftarrow> readOnlyLoop env api st reqs;
     Some (r # rs) }"
  by (simp add: dispatchReadOnly_def [abs_def])

declare readOnlyLoop.simps(2) [simp del] readWriteLoop.simps(2) [simp del]

subsection \<open>Entry points\<close>

text \<open>
  \<open>dispatch\<close> of a transaction: the reply, the state machine afterwards, and what the publisher is
  given (the revisions of versioned hashes, when there are any).
\<close>

definition dispatchTxCommit ::
  "('db, 'wb, 'f) dispatch_env \<Rightarrow> ('db, 'wb) rocksdb \<Rightarrow> 'db state_machine \<Rightarrow> transaction \<Rightarrow> int
    \<Rightarrow> (bytes \<times> 'db state_machine \<times> (bytes \<rightharpoonup> vhash_revision)) option" where
  "dispatchTxCommit env api sm tx commit = do {
     (r, st) \<leftarrow> dispatchTransaction env api (newStagingArea api sm (\<not> hasWrites tx)) tx;
     if hasWrites tx then do { sm' \<leftarrow> sa_commit api st commit; Some (r, sm', revisionTracker st) }
     else Some (r, sm, Map.empty) }"

definition dispatchReadWriteAndCommit ::
  "('db, 'wb, 'f) dispatch_env \<Rightarrow> ('db, 'wb) rocksdb \<Rightarrow> 'db state_machine \<Rightarrow> redis_request \<Rightarrow> int
    \<Rightarrow> (bytes \<times> 'db state_machine) option" where
  "dispatchReadWriteAndCommit env api sm req commit = do {
     (r, st) \<leftarrow> dispatchReadWrite env api (newStagingArea api sm (commandType req = READ)) req;
     if commandType req = WRITE then do { sm' \<leftarrow> sa_commit api st commit; Some (r, sm') }
     else Some (r, sm) }"

text \<open>\<open>dispatch\<close> of a request; \<open>request[0]\<close> of an empty request is out of bounds.\<close>

definition dispatch ::
  "('db, 'wb, 'f) dispatch_env \<Rightarrow> ('db, 'wb) rocksdb \<Rightarrow> 'db state_machine \<Rightarrow> redis_request \<Rightarrow> int
    \<Rightarrow> (bytes \<times> 'db state_machine) option" where
  "dispatch env api sm req commit =
     (if command req = INVALID then
        (case contents req of [] \<Rightarrow> None
         | name # _ \<Rightarrow>
           (if startsWith name ''JOURNAL_'' then do {
              sm \<leftarrow> (if name = ''JOURNAL_LEADERSHIP_MARKER'' then hardSynchronizeDynamicClock api (env_now env) sm else Some sm);
              sm \<leftarrow> noop api sm commit;
              Some (f_ok, sm) }
            else do {
              assert_that (commit = 0);
              Some (f_err (''unknown command '' @ [CHR 0x27] @ name @ [CHR 0x27]), sm) }))
      else if 0 < commit \<and> commandType req \<noteq> WRITE then None
      else if command req = Control PING then do { r \<leftarrow> handlePing req; Some (r, sm) }
      else if commandType req \<noteq> READ \<and> commandType req \<noteq> WRITE then do { r \<leftarrow> dispatchingError req commit; Some (r, sm) }
      else dispatchReadWriteAndCommit env api sm req commit)"

subsection \<open>The journal and the queue lead to the same state\<close>

text \<open>
  A leader executes the transaction it kept in the queue of the client; every other node executes
  the request that was put into the journal for it.
\<close>

lemma arrayResponse_single: "arrayResponse \<lparr>hasWrites = w, tx_phantom = True, requests = [req]\<rparr> [r] = Some r"
  by (simp add: arrayResponse_def newBuilder_def builder_push_back_def buildResponse_def)

lemma dispatch_write:
  "commandType req = WRITE \<Longrightarrow> dispatch env api sm req commit = dispatchReadWriteAndCommit env api sm req commit"
  by (cases "command req") (simp_all add: dispatch_def)

lemma dispatch_fused:
  assumes tx: "txInv tx" "shortParts tx" "hasWrites tx"
  shows "dispatch env api sm (toRedisRequest tx) commit
    = map_option (\<lambda>(r, sm', _). (r, sm')) (dispatchTxCommit env api sm tx commit)"
proof (cases "tx_phantom tx \<and> length (requests tx) = 1")
  case True
  then obtain req where rq: "requests tx = [req]" by (auto simp: length_Suc_conv)
  have w: "commandType req = WRITE" using tx(1,3) rq by (auto simp: txInv_def)
  have e: "tx = \<lparr>hasWrites = True, tx_phantom = True, requests = [req]\<rparr>" using True rq tx(3) by simp
  have "dispatchTransaction env api st tx = dispatchReadWrite env api st req" for st
    by (cases "dispatchReadWrite env api st req")
      (auto simp: dispatchTransaction_def rq readWriteLoop_Cons arrayResponse_single e)
  then show ?thesis
    using True rq w tx(3)
    by (auto simp: toRedisRequest_def dispatch_write dispatchReadWriteAndCommit_def dispatchTxCommit_def
        split: option.splits Option.bind_splits)
next
  case False
  note f = deserialize_fused [OF tx(1,2) False]
  have w: "commandType (toRedisRequest tx) = WRITE" using f(3) tx(3) by simp
  have c: "command (toRedisRequest tx) = Write TX_READWRITE"
    using f(4) tx(3) by simp
  have "dispatchReadWrite env api st (toRedisRequest tx) = dispatchTransaction env api st tx" for st
    using w f(1) by (simp add: dispatchReadWrite_def dispatchWrite_def c)
  then show ?thesis
    using w tx(3)
    by (auto simp: dispatch_write dispatchReadWriteAndCommit_def dispatchTxCommit_def
        split: option.splits Option.bind_splits)
qed

lemma commit_lastApplied: "sa_commit api st i = Some sm' \<Longrightarrow> 0 < i \<Longrightarrow> lastApplied sm' = i"
  by (auto simp: sa_commit_def commitTransaction_def assert_that_def Option.bind_eq_Some_conv Let_def
      split: if_splits prod.splits)

lemma dispatch_lastApplied: "dispatch env api sm req i = Some (r, sm') \<Longrightarrow> 0 < i \<Longrightarrow> lastApplied sm' = i"
  by (auto simp: dispatch_def dispatchReadWriteAndCommit_def noop_def assert_that_def Option.bind_eq_Some_conv commit_lastApplied
      split: if_splits list.splits)

end
