(* ===== verification/DispatchSpec.thy ===== *)
theory DispatchSpec
  imports DispatchTx
begin

text \<open>
  What a client may rely on: an abstract machine whose state maps keys to values, with the reply and
  the effect of each command, and the proof that the dispatcher implements whole transactions of it,
  from the request on the wire to the committed database.
\<close>

subsection \<open>The abstract machine\<close>

text \<open>
  Strings, keys, hashes, sets and locality hashes.  Not among the commands: scans and \<open>KEYS\<close> (their
  contract is stated for the operations), \<open>SISMEMBER\<close> (it reads past the staging area), deques (how many
  items fit depends on markers the abstract value does not have), leases, versioned hashes and the
  commands on floats.
\<close>

datatype acommand =
    CSet bytes bytes | CGet bytes | CExists "bytes list" | CDel "bytes list" | CFlushall
  | CHset bytes bytes bytes | CHsetnx bytes bytes bytes | CHmset bytes "bytes list" | CHincrby bytes bytes bytes
  | CHdel bytes "bytes list" | CHget bytes bytes | CHexists bytes bytes | CHlen bytes | CHkeys bytes | CHvals bytes | CHgetall bytes
  | CSadd bytes "bytes list" | CSrem bytes "bytes list" | CSmove bytes bytes bytes | CScard bytes | CSmembers bytes
  | CLhset bytes bytes bytes bytes | CLhmset bytes "bytes list" | CLhdel bytes "bytes list"
  | CLhget bytes bytes bytes | CLhlen bytes

fun wire :: "acommand \<Rightarrow> redis_request" where
  "wire (CSet k v) = \<lparr>contents = [''SET'', k, v], command = Write SET\<rparr>"
| "wire (CGet k) = \<lparr>contents = [''GET'', k], command = Read GET\<rparr>"
| "wire (CExists ks) = \<lparr>contents = ''EXISTS'' # ks, command = Read EXISTS\<rparr>"
| "wire (CDel ks) = \<lparr>contents = ''DEL'' # ks, command = Write DEL\<rparr>"
| "wire CFlushall = \<lparr>contents = [''FLUSHALL''], command = Write FLUSHALL\<rparr>"
| "wire (CHset k f v) = \<lparr>contents = [''HSET'', k, f, v], command = Write HSET\<rparr>"
| "wire (CHsetnx k f v) = \<lparr>contents = [''HSETNX'', k, f, v], command = Write HSETNX\<rparr>"
| "wire (CHmset k fvs) = \<lparr>contents = ''HMSET'' # k # fvs, command = Write HMSET\<rparr>"
| "wire (CHincrby k f i) = \<lparr>contents = [''HINCRBY'', k, f, i], command = Write HINCRBY\<rparr>"
| "wire (CHdel k fs) = \<lparr>contents = ''HDEL'' # k # fs, command = Write HDEL\<rparr>"
| "wire (CHget k f) = \<lparr>contents = [''HGET'', k, f], command = Read HGET\<rparr>"
| "wire (CHexists k f) = \<lparr>contents = [''HEXISTS'', k, f], command = Read HEXISTS\<rparr>"
| "wire (CHlen k) = \<lparr>contents = [''HLEN'', k], command = Read HLEN\<rparr>"
| "wire (CHkeys k) = \<lparr>contents = [''HKEYS'', k], command = Read HKEYS\<rparr>"
| "wire (CHvals k) = \<lparr>contents = [''HVALS'', k], command = Read HVALS\<rparr>"
| "wire (CHgetall k) = \<lparr>contents = [''HGETALL'', k], command = Read HGETALL\<rparr>"
| "wire (CSadd k xs) = \<lparr>contents = ''SADD'' # k # xs, command = Write SADD\<rparr>"
| "wire (CSrem k xs) = \<lparr>contents = ''SREM'' # k # xs, command = Write SREM\<rparr>"
| "wire (CSmove s d x) = \<lparr>contents = [''SMOVE'', s, d, x], command = Write SMOVE\<rparr>"
| "wire (CScard k) = \<lparr>contents = [''SCARD'', k], command = Read SCARD\<rparr>"
| "wire (CSmembers k) = \<lparr>contents = [''SMEMBERS'', k], command = Read SMEMBERS\<rparr>"
| "wire (CLhset k f h v) = \<lparr>contents = [''LHSET'', k, f, h, v], command = Write LHSET\<rparr>"
| "wire (CLhmset k xs) = \<lparr>contents = ''LHMSET'' # k # xs, command = Write LHMSET\<rparr>"
| "wire (CLhdel k fs) = \<lparr>contents = ''LHDEL'' # k # fs, command = Write LHDEL\<rparr>"
| "wire (CLhget k f h) = \<lparr>contents = [''LHGET'', k, f, h], command = Read LHGET\<rparr>"
| "wire (CLhlen k) = \<lparr>contents = [''LHLEN'', k], command = Read LHLEN\<rparr>"

text \<open>The key a command works on and the type it must have.\<close>

fun avalType :: "aval \<Rightarrow> KeyType" where
  "avalType ANone = kNull"
| "avalType (AString _) = kString"
| "avalType (AHash _) = kHash"
| "avalType (ASet _) = kSet"
| "avalType (ADeque _) = kDeque"
| "avalType (ALocalityHash _) = kLocalityHash"
| "avalType (ALease _ _ _) = kLease"
| "avalType (AVersionedHash _ _) = kVersionedHash"

fun operand :: "acommand \<Rightarrow> (bytes \<times> KeyType) option" where
  "operand (CSet k _) = Some (k, kString)"
| "operand (CGet k) = Some (k, kString)"
| "operand (CHset k _ _) = Some (k, kHash)"
| "operand (CHsetnx k _ _) = Some (k, kHash)"
| "operand (CHmset k _) = Some (k, kHash)"
| "operand (CHincrby k _ _) = Some (k, kHash)"
| "operand (CHdel k _) = Some (k, kHash)"
| "operand (CHget k _) = Some (k, kHash)"
| "operand (CHexists k _) = Some (k, kHash)"
| "operand (CHlen k) = Some (k, kHash)"
| "operand (CHkeys k) = Some (k, kHash)"
| "operand (CHvals k) = Some (k, kHash)"
| "operand (CHgetall k) = Some (k, kHash)"
| "operand (CSadd k _) = Some (k, kSet)"
| "operand (CSrem k _) = Some (k, kSet)"
| "operand (CSmove s _ _) = Some (s, kSet)"
| "operand (CScard k) = Some (k, kSet)"
| "operand (CSmembers k) = Some (k, kSet)"
| "operand (CLhset k _ _ _) = Some (k, kLocalityHash)"
| "operand (CLhmset k _) = Some (k, kLocalityHash)"
| "operand (CLhdel k _) = Some (k, kLocalityHash)"
| "operand (CLhget k _ _) = Some (k, kLocalityHash)"
| "operand (CLhlen k) = Some (k, kLocalityHash)"
| "operand _ = None"

definition wrongType :: "acommand \<Rightarrow> (bytes \<Rightarrow> aval) \<Rightarrow> bool" where
  "wrongType c \<sigma> = (case operand c of None \<Rightarrow> False | Some (k, kt) \<Rightarrow> \<sigma> k \<noteq> ANone \<and> avalType (\<sigma> k) \<noteq> kt)"

text \<open>
  The arguments are complete and inside the limits: keys and hints do not end in a bar, sizes stay below
  the counters, a number is a number, \<open>GET\<close> does not ask for an absent key (which may hold an empty
  string), the target of \<open>SMOVE\<close> is another set.  Nothing is said about the type of the operand.
\<close>

definition storedInt :: "(bytes \<rightharpoonup> bytes) \<Rightarrow> bytes \<Rightarrow> int option" where
  "storedInt m f = (case m f of None \<Rightarrow> Some 0 | Some x \<Rightarrow> parseInt64 x)"

definition smallHash :: "aval \<Rightarrow> nat \<Rightarrow> bool" where
  "smallHash a n \<longleftrightarrow> (\<forall>m. hashOf a = Some m \<longrightarrow> card (dom m) + n < 2 ^ 63)"

definition smallSet :: "aval \<Rightarrow> nat \<Rightarrow> bool" where
  "smallSet a n \<longleftrightarrow> (\<forall>s. setOf a = Some s \<longrightarrow> card s + n < 2 ^ 63)"

definition smallLhash :: "aval \<Rightarrow> nat \<Rightarrow> bool" where
  "smallLhash a n \<longleftrightarrow> (\<forall>m. lhashOf a = Some m \<longrightarrow> card (dom m) + n < 2 ^ 63)"

fun applicable :: "acommand \<Rightarrow> (bytes \<Rightarrow> aval) \<Rightarrow> bool" where
  "applicable (CSet k v) \<sigma> \<longleftrightarrow> okKey k \<and> length v < 2 ^ 63"
| "applicable (CGet k) \<sigma> \<longleftrightarrow> okKey k \<and> \<sigma> k \<noteq> ANone"
| "applicable (CExists ks) \<sigma> \<longleftrightarrow> ks \<noteq> [] \<and> (\<forall>k \<in> set ks. okKey k)"
| "applicable (CDel ks) \<sigma> \<longleftrightarrow> ks \<noteq> [] \<and> (\<forall>k \<in> set ks. okKey k)"
| "applicable CFlushall \<sigma> \<longleftrightarrow> True"
| "applicable (CHset k f v) \<sigma> \<longleftrightarrow> okKey k \<and> smallHash (\<sigma> k) 1"
| "applicable (CHsetnx k f v) \<sigma> \<longleftrightarrow> okKey k \<and> smallHash (\<sigma> k) 1"
| "applicable (CHmset k fvs) \<sigma> \<longleftrightarrow> okKey k \<and> fvs \<noteq> [] \<and> even (length fvs) \<and> smallHash (\<sigma> k) (length fvs)"
| "applicable (CHincrby k f i) \<sigma> \<longleftrightarrow> okKey k \<and> smallHash (\<sigma> k) 1 \<and> parseInt64 i \<noteq> None
     \<and> (\<forall>m. hashOf (\<sigma> k) = Some m \<longrightarrow> storedInt m f \<noteq> None \<and> int64 (the (storedInt m f) + the (parseInt64 i)))"
| "applicable (CHdel k fs) \<sigma> \<longleftrightarrow> okKey k \<and> fs \<noteq> [] \<and> smallHash (\<sigma> k) 0"
| "applicable (CHget k f) \<sigma> \<longleftrightarrow> okKey k"
| "applicable (CHexists k f) \<sigma> \<longleftrightarrow> okKey k"
| "applicable (CHlen k) \<sigma> \<longleftrightarrow> okKey k"
| "applicable (CHkeys k) \<sigma> \<longleftrightarrow> okKey k"
| "applicable (CHvals k) \<sigma> \<longleftrightarrow> okKey k"
| "applicable (CHgetall k) \<sigma> \<longleftrightarrow> okKey k"
| "applicable (CSadd k xs) \<sigma> \<longleftrightarrow> okKey k \<and> xs \<noteq> [] \<and> smallSet (\<sigma> k) (length xs)"
| "applicable (CSrem k xs) \<sigma> \<longleftrightarrow> okKey k \<and> xs \<noteq> [] \<and> smallSet (\<sigma> k) 0"
| "applicable (CSmove s d x) \<sigma> \<longleftrightarrow> okKey s \<and> okKey d \<and> s \<noteq> d \<and> setOf (\<sigma> d) \<noteq> None \<and> smallSet (\<sigma> s) 0 \<and> smallSet (\<sigma> d) 1"
| "applicable (CScard k) \<sigma> \<longleftrightarrow> okKey k"
| "applicable (CSmembers k) \<sigma> \<longleftrightarrow> okKey k"
| "applicable (CLhset k f h v) \<sigma> \<longleftrightarrow> okKey k \<and> k \<noteq> [] \<and> okKey h \<and> h \<noteq> [] \<and> f \<noteq> [] \<and> smallLhash (\<sigma> k) 1"
| "applicable (CLhmset k xs) \<sigma> \<longleftrightarrow> okKey k \<and> k \<noteq> [] \<and> xs \<noteq> [] \<and> length xs mod 3 = 0 \<and> okTriples xs \<and> smallLhash (\<sigma> k) (length xs)"
| "applicable (CLhdel k fs) \<sigma> \<longleftrightarrow> okKey k \<and> k \<noteq> [] \<and> fs \<noteq> [] \<and> [] \<notin> set fs \<and> smallLhash (\<sigma> k) 0"
| "applicable (CLhget k f h) \<sigma> \<longleftrightarrow> okKey k \<and> k \<noteq> [] \<and> f \<noteq> [] \<and> okKey h"
| "applicable (CLhlen k) \<sigma> \<longleftrightarrow> okKey k"

fun typedEffect :: "acommand \<Rightarrow> (bytes \<Rightarrow> aval) \<Rightarrow> bytes \<Rightarrow> aval" where
  "typedEffect (CSet k v) \<sigma> = \<sigma>(k := stringVal v)"
| "typedEffect (CDel ks) \<sigma> = (\<lambda>k. if k \<in> set ks then ANone else \<sigma> k)"
| "typedEffect CFlushall \<sigma> = (\<lambda>_. ANone)"
| "typedEffect (CHset k f v) \<sigma> = \<sigma>(k := AHash ((the (hashOf (\<sigma> k)))(f \<mapsto> v)))"
| "typedEffect (CHsetnx k f v) \<sigma> =
     \<sigma>(k := hashVal (let m = the (hashOf (\<sigma> k)) in if f \<in> dom m then m else m(f \<mapsto> v)))"
| "typedEffect (CHmset k fvs) \<sigma> = \<sigma>(k := hashVal (setPairs (the (hashOf (\<sigma> k))) fvs))"
| "typedEffect (CHincrby k f i) \<sigma> =
     \<sigma>(k := AHash (let m = the (hashOf (\<sigma> k)) in m(f \<mapsto> to_string (the (storedInt m f) + the (parseInt64 i)))))"
| "typedEffect (CHdel k fs) \<sigma> = \<sigma>(k := hashVal (the (hashOf (\<sigma> k)) |` (- set fs)))"
| "typedEffect (CSadd k xs) \<sigma> = \<sigma>(k := setVal (the (setOf (\<sigma> k)) \<union> set xs))"
| "typedEffect (CSrem k xs) \<sigma> = \<sigma>(k := setVal (the (setOf (\<sigma> k)) - set xs))"
| "typedEffect (CSmove s d x) \<sigma> =
     (let S = the (setOf (\<sigma> s)); D = the (setOf (\<sigma> d)) in
      \<sigma>(s := setVal (S - {x}), d := setVal (if x \<in> S then insert x D else D)))"
| "typedEffect (CLhset k f h v) \<sigma> = \<sigma>(k := ALocalityHash ((the (lhashOf (\<sigma> k)))(f \<mapsto> (h, v))))"
| "typedEffect (CLhmset k xs) \<sigma> = \<sigma>(k := lhashVal (setTriples (the (lhashOf (\<sigma> k))) xs))"
| "typedEffect (CLhdel k fs) \<sigma> = \<sigma>(k := lhashVal (the (lhashOf (\<sigma> k)) |` (- set fs)))"
| "typedEffect _ \<sigma> = \<sigma>"

definition sortedFields :: "(bytes \<rightharpoonup> bytes) \<Rightarrow> bytes list" where
  "sortedFields m = sorted_list_of_set (dom m)"

fun typedAnswer :: "acommand \<Rightarrow> (bytes \<Rightarrow> aval) \<Rightarrow> bytes" where
  "typedAnswer (CGet k) \<sigma> = f_string (the (stringOf (\<sigma> k)))"
| "typedAnswer (CExists ks) \<sigma> = f_integer (int (length (filter (\<lambda>k. \<sigma> k \<noteq> ANone) ks)))"
| "typedAnswer (CDel ks) \<sigma> = f_integer (int (card {k \<in> set ks. \<sigma> k \<noteq> ANone}))"
| "typedAnswer (CHset k f v) \<sigma> = f_integer (of_bool (f \<notin> dom (the (hashOf (\<sigma> k)))))"
| "typedAnswer (CHsetnx k f v) \<sigma> = f_integer (of_bool (f \<notin> dom (the (hashOf (\<sigma> k)))))"
| "typedAnswer (CHincrby k f i) \<sigma> = f_integer (the (storedInt (the (hashOf (\<sigma> k))) f) + the (parseInt64 i))"
| "typedAnswer (CHdel k fs) \<sigma> = f_integer (int (card (dom (the (hashOf (\<sigma> k))) \<inter> set fs)))"
| "typedAnswer (CHget k f) \<sigma> = (case the (hashOf (\<sigma> k)) f of Some x \<Rightarrow> f_string x | None \<Rightarrow> f_null)"
| "typedAnswer (CHexists k f) \<sigma> = f_integer (of_bool (f \<in> dom (the (hashOf (\<sigma> k)))))"
| "typedAnswer (CHlen k) \<sigma> = f_integer (int (card (dom (the (hashOf (\<sigma> k))))))"
| "typedAnswer (CHkeys k) \<sigma> = f_vector (sortedFields (the (hashOf (\<sigma> k))))"
| "typedAnswer (CHvals k) \<sigma> = (let m = the (hashOf (\<sigma> k)) in f_vector (map (\<lambda>f. the (m f)) (sortedFields m)))"
| "typedAnswer (CHgetall k) \<sigma> = (let m = the (hashOf (\<sigma> k)) in f_vector (concat (map (\<lambda>f. [f, the (m f)]) (sortedFields m))))"
| "typedAnswer (CSadd k xs) \<sigma> = f_integer (int (card (set xs - the (setOf (\<sigma> k)))))"
| "typedAnswer (CSrem k xs) \<sigma> = f_integer (int (card (the (setOf (\<sigma> k)) \<inter> set xs)))"
| "typedAnswer (CSmove s d x) \<sigma> = f_integer (of_bool (x \<in> the (setOf (\<sigma> s))))"
| "typedAnswer (CScard k) \<sigma> = f_integer (int (card (the (setOf (\<sigma> k)))))"
| "typedAnswer (CSmembers k) \<sigma> = f_vector (sorted_list_of_set (the (setOf (\<sigma> k))))"
| "typedAnswer (CLhset k f h v) \<sigma> = f_integer (of_bool (f \<notin> dom (the (lhashOf (\<sigma> k)))))"
| "typedAnswer (CLhdel k fs) \<sigma> = f_integer (int (card (dom (the (lhashOf (\<sigma> k))) \<inter> set fs)))"
| "typedAnswer (CLhget k f h) \<sigma> = (case the (lhashOf (\<sigma> k)) f of Some (_, x) \<Rightarrow> f_string x | None \<Rightarrow> f_null)"
| "typedAnswer (CLhlen k) \<sigma> = f_integer (int (card (dom (the (lhashOf (\<sigma> k))))))"
| "typedAnswer _ \<sigma> = f_ok"

text \<open>
  On a key of another type a command changes nothing and is answered with the type error; \<open>HVALS\<close>
  alone ignores the error and answers with an empty list.
\<close>

definition effect :: "acommand \<Rightarrow> (bytes \<Rightarrow> aval) \<Rightarrow> bytes \<Rightarrow> aval" where
  "effect c \<sigma> = (if wrongType c \<sigma> then \<sigma> else typedEffect c \<sigma>)"

definition answer :: "('db, 'wb, 'f) dispatch_env \<Rightarrow> acommand \<Rightarrow> (bytes \<Rightarrow> aval) \<Rightarrow> bytes" where
  "answer env c \<sigma> =
     (if wrongType c \<sigma> then (case c of CHvals _ \<Rightarrow> f_vector [] | _ \<Rightarrow> fromStatus env wrong_type) else typedAnswer c \<sigma>)"

fun effects :: "acommand list \<Rightarrow> (bytes \<Rightarrow> aval) \<Rightarrow> bytes \<Rightarrow> aval" where
  "effects [] \<sigma> = \<sigma>"
| "effects (c # cs) \<sigma> = effects cs (effect c \<sigma>)"

fun answers :: "('db, 'wb, 'f) dispatch_env \<Rightarrow> acommand list \<Rightarrow> (bytes \<Rightarrow> aval) \<Rightarrow> bytes list" where
  "answers env [] \<sigma> = []"
| "answers env (c # cs) \<sigma> = answer env c \<sigma> # answers env cs (effect c \<sigma>)"

fun allApplicable :: "acommand list \<Rightarrow> (bytes \<Rightarrow> aval) \<Rightarrow> bool" where
  "allApplicable [] \<sigma> \<longleftrightarrow> True"
| "allApplicable (c # cs) \<sigma> \<longleftrightarrow> applicable c \<sigma> \<and> allApplicable cs (effect c \<sigma>)"

subsection \<open>The dispatcher implements it\<close>

definition holdsValues :: "('db, 'wb) rocksdb \<Rightarrow> ('db, 'wb) staging \<Rightarrow> u64 \<Rightarrow> (bytes \<Rightarrow> aval) \<Rightarrow> bool" where
  "holdsValues api st clk \<sigma> \<longleftrightarrow> leaseReady api st clk \<and> (\<forall>k. okKey k \<longrightarrow> valueOf api st k = \<sigma> k)"

text \<open>A command does on the staging area what the abstract machine does.\<close>

definition implements ::
  "('db, 'wb, 'f) dispatch_env \<Rightarrow> ('db, 'wb) rocksdb \<Rightarrow> ('db, 'wb) staging \<Rightarrow> u64 \<Rightarrow> acommand \<Rightarrow> bytes \<Rightarrow> (bytes \<Rightarrow> aval) \<Rightarrow> bool" where
  "implements env api st clk c r \<sigma>' \<longleftrightarrow>
     (\<exists>st'. dispatchReadWrite env api st (wire c) = Some (r, st') \<and> holdsValues api st' clk \<sigma>' \<and> applied st' = applied st)"

lemma holdsValues_updated:
  assumes "holdsValues api st clk \<sigma>" "okKey k" "updated api st k a st'"
    "\<And>h s e. \<sigma> k \<noteq> ALease h s e" "\<And>h s e. a \<noteq> ALease h s e"
  shows "holdsValues api st' clk (\<sigma>(k := a)) \<and> applied st' = applied st"
proof -
  have "leaseReady api st' clk" using leaseReady_other [of api st clk k a st'] assms by (simp add: holdsValues_def)
  moreover have "valueOf api st' k' = (\<sigma>(k := a)) k'" if "okKey k'" for k'
    using updated_valueOf [OF assms(3) that] assms(1) that by (simp add: holdsValues_def)
  ultimately show ?thesis using assms(3) by (simp add: holdsValues_def updated_def)
qed

lemma holdsValuesD:
  assumes "holdsValues api st clk \<sigma>"
  shows "leaseReady api st clk" "sa_readable api st" "sa_ok api st" "storeInv (sa_view api st)" "ready api st"
    "okKey k \<Longrightarrow> valueOf api st k = \<sigma> k"
  using assms leaseReadyD [of api st clk] by (auto simp: holdsValues_def)

lemma not_lease [simp]:
  "stringVal v \<noteq> ALease h s e" "setVal x \<noteq> ALease h s e" "hashVal m \<noteq> ALease h s e" "lhashVal l \<noteq> ALease h s e"
  by (auto simp: stringVal_def setVal_def containerVal_def lhashVal_def)

lemma typed_not_lease:
  "hashOf a = Some m \<Longrightarrow> a \<noteq> ALease h s e" "setOf a = Some x \<Longrightarrow> a \<noteq> ALease h s e"
  "stringOf a = Some v \<Longrightarrow> a \<noteq> ALease h s e" "lhashOf a = Some l \<Longrightarrow> a \<noteq> ALease h s e"
  by auto

text \<open>The type of a key is the type of its value.\<close>

lemma avalType_desc:
  assumes "storeInv v" "okKey k" "descOf v k = Some d" "absVal v k \<noteq> ANone"
  shows "keyType d = avalType (absVal v k)" "\<not> descriptorEmpty d"
proof -
  show "\<not> descriptorEmpty d" using absVal_cases(1) [OF assms(1-3)] assms(4) by simp
  show "keyType d = avalType (absVal v k)"
    using assms(3,4) by (cases "keyType d") (auto simp: absVal_def)
qed

lemma wrong_type_checks:
  assumes s: "holdsValues api st clk \<sigma>" and k: "okKey k" "\<sigma> k \<noteq> ANone" "avalType (\<sigma> k) \<noteq> kt"
  obtains d where "getKeyDescriptor api st k = Some d" "isWrongType d kt" "assertKeyType api st k kt = Some False"
    "newWriteOperation api st k kt = Some (openOp k kt d)" "\<not> isValid (openOp k kt d)" "wo_destroy (openOp k kt d) = Some ()"
proof -
  note D = holdsValuesD [OF s]
  obtain d where d: "descOf (sa_view api st) k = Some d" using storeInvE [OF D(4) k(1)] by metis
  have "keyType d \<noteq> kt" "\<not> descriptorEmpty d"
    using avalType_desc [OF D(4) k(1) d] k D(6) [OF k(1)] by (auto simp: valueOf_def)
  then have w: "isWrongType d kt" "\<not> isValid (openOp k kt d)" "finalized (openOp k kt d)"
    by (simp_all add: isWrongType_def openOp_def)
  show ?thesis by (rule that [of d]) (use d D w in \<open>simp_all add: wo_destroy_def\<close>)
qed

lemmas dispatch_defs = dispatchReadWrite_def dispatchWrite_def dispatchRead_def dispatchHashSet_def dispatchLocality_def
  dispatchHashReads_def dispatchSetReads_def dispatchOtherReads_def dispatchHDEL_def dispatchHGET_def dispatchLHSET_def
  dispatchLHDEL_def dispatchLHGET_def intReply_def stringReply_def vectorReply_def memberReply_def

lemma implements_same:
  assumes "holdsValues api st clk \<sigma>" "dispatchReadWrite env api st (wire c) = Some (r, st)"
  shows "implements env api st clk c r \<sigma>"
  using assms by (auto simp: implements_def)

lemma implements_updated:
  assumes "holdsValues api st clk \<sigma>" "okKey k" "updated api st k a st'"
    and "\<And>h s e. \<sigma> k \<noteq> ALease h s e" "\<And>h s e. a \<noteq> ALease h s e"
    and "dispatchReadWrite env api st (wire c) = Some (r, st')" "\<sigma>' = \<sigma>(k := a)"
  shows "implements env api st clk c r \<sigma>'"
  using holdsValues_updated [OF assms(1-5)] assms(6,7) by (auto simp: implements_def)

lemma pairs_length: "even (length xs) \<Longrightarrow> xs \<noteq> [] \<Longrightarrow> 2 \<le> length xs"
  by (cases xs; cases "tl xs") auto

lemma triples_length: "length xs mod 3 = 0 \<Longrightarrow> xs \<noteq> [] \<Longrightarrow> 3 \<le> length xs"
  by (metis dvd_imp_le length_greater_0_conv mod_0_imp_dvd)

lemma wrong_type_command:
  assumes s: "holdsValues api st clk \<sigma>" and ok: "applicable c \<sigma>" and w: "wrongType c \<sigma>"
  shows "implements env api st clk c (answer env c \<sigma>) \<sigma>"
proof -
  obtain k kt where o: "operand c = Some (k, kt)" "\<sigma> k \<noteq> ANone" "avalType (\<sigma> k) \<noteq> kt"
    using w by (auto simp: wrongType_def split: option.splits)
  then have k: "okKey k" using ok by (cases c) auto
  from wrong_type_checks [OF s k o(2,3)] obtain d where d: "getKeyDescriptor api st k = Some d" "isWrongType d kt"
      "assertKeyType api st k kt = Some False" "newWriteOperation api st k kt = Some (openOp k kt d)"
      "\<not> isValid (openOp k kt d)" "wo_destroy (openOp k kt d) = Some ()" by blast
  have e: "wrong_type \<noteq> OK" "wrong_type \<noteq> NotFound" by (simp_all add: wrong_type_def malformed_def)
  have p: "c = CHmset k xs \<Longrightarrow> 2 \<le> length xs" "c = CLhmset k xs \<Longrightarrow> 3 \<le> length xs" for xs
    using ok pairs_length [of xs] triples_length [of xs] by simp_all
  have "dispatchReadWrite env api st (wire c) = Some (answer env c \<sigma>, st)"
    using o(1) d e ok w p
    by (cases c) (auto simp: answer_def dispatch_defs set_op_def get_op_def hset_def hsetnx_def hmset_def hincrby_def hdel_def
        hget_def hexists_def hlen_def hkeys_def hvals_def hgetall_def sadd_def srem_def smove_def scard_def smembers_def
        lhset_def lhmset_def lhdel_def lhget_def lhlen_def)
  with s show ?thesis by (rule implements_same)
qed

text \<open>Commands on keys of their own type, one group at a time.\<close>

lemma typed_operand:
  assumes "\<not> wrongType c \<sigma>" "operand c = Some (k, kt)"
  shows "kt = kString \<Longrightarrow> stringOf (\<sigma> k) \<noteq> None" "kt = kHash \<Longrightarrow> hashOf (\<sigma> k) \<noteq> None"
    "kt = kSet \<Longrightarrow> setOf (\<sigma> k) \<noteq> None" "kt = kLocalityHash \<Longrightarrow> lhashOf (\<sigma> k) \<noteq> None"
  using assms by (cases "\<sigma> k"; simp add: wrongType_def)+

definition keyCommand :: "acommand \<Rightarrow> bool" where
  "keyCommand c \<longleftrightarrow> (case c of CSet _ _ \<Rightarrow> True | CGet _ \<Rightarrow> True | CExists _ \<Rightarrow> True | CDel _ \<Rightarrow> True | CFlushall \<Rightarrow> True | _ \<Rightarrow> False)"

lemma key_command:
  assumes s: "holdsValues api st clk \<sigma>" and ok: "applicable c \<sigma>" "\<not> wrongType c \<sigma>" "keyCommand c"
  shows "implements env api st clk c (typedAnswer c \<sigma>) (typedEffect c \<sigma>)"
proof -
  note D = holdsValuesD [OF s] and T = typed_operand [OF ok(2)]
  show ?thesis
  proof (cases c)
    case (CSet k x)
    then obtain v where v: "okKey k" "stringOf (\<sigma> k) = Some v" using ok T(1) by auto
    then obtain st' where "set_op api st k x = Some (OK, st')" "updated api st k (stringVal x) st'"
      using set_ok [OF D(5), of k v x] ok CSet D(6) by auto
    then show ?thesis
      using CSet v typed_not_lease(3) [OF v(2)]
      by (intro implements_updated [OF s v(1)]) (auto simp: dispatch_defs fromStatus_def)
  next
    case (CGet k)
    then obtain x where "\<sigma> k = AString x" "okKey k" using ok by (cases "\<sigma> k") (auto simp: wrongType_def)
    then show ?thesis
      using CGet get_ok [OF D(2,4), of k x] D(6) by (auto simp: dispatch_defs intro!: implements_same [OF s])
  next
    case (CExists ks)
    then have "exists_op api st ks = Some (OK, int (length (filter (\<lambda>k. valueOf api st k \<noteq> ANone) ks)))"
      using exists_ok [OF D(2,4)] ok by simp
    moreover have "filter (\<lambda>k. valueOf api st k \<noteq> ANone) ks = filter (\<lambda>k. \<sigma> k \<noteq> ANone) ks"
      using CExists ok D(6) by (intro filter_cong) auto
    ultimately show ?thesis using CExists ok by (auto simp: dispatch_defs Suc_le_eq intro!: implements_same [OF s])
  next
    case (CDel ks)
    have "{k \<in> set ks. valueOf api st k \<noteq> ANone} = {k \<in> set ks. \<sigma> k \<noteq> ANone}" using CDel ok D(6) by auto
    with del_ok [OF D(1), of ks] CDel ok obtain st' where
      "del_op api st ks = Some (OK, int (card {k \<in> set ks. \<sigma> k \<noteq> ANone}), st')" "leaseReady api st' clk" "applied st' = applied st"
      "\<And>k. okKey k \<Longrightarrow> valueOf api st' k = (if k \<in> set ks then ANone else valueOf api st k)" by auto
    then show ?thesis using CDel ok D(6) by (auto simp: implements_def dispatch_defs holdsValues_def Suc_le_eq)
  next
    case CFlushall
    from flushall_ok [OF D(1)] obtain st' where
      "flushall api st = Some (OK, st')" "leaseReady api st' clk" "applied st' = applied st" "\<And>k. valueOf api st' k = ANone" by auto
    then show ?thesis using CFlushall by (auto simp: implements_def dispatch_defs holdsValues_def fromStatus_def)
  qed (use ok(3) in \<open>simp_all add: keyCommand_def\<close>)
qed

lemma hash_write:
  assumes s: "holdsValues api st clk \<sigma>" and ok: "applicable c \<sigma>" "\<not> wrongType c \<sigma>"
    and c: "operand c = Some (k, kHash)" "commandType (wire c) = WRITE"
  shows "implements env api st clk c (typedAnswer c \<sigma>) (typedEffect c \<sigma>)"
proof -
  note D = holdsValuesD [OF s]
  have k: "okKey k" using ok(1) c(1) by (cases c) auto
  obtain m where m: "hashOf (\<sigma> k) = Some m" "hashOf (valueOf api st k) = Some m"
    using typed_operand(2) [OF ok(2) c(1)] D(6) [OF k] by auto
  note u = implements_updated [OF s k, OF _ typed_not_lease(1) [OF m(1)]]
  show ?thesis
  proof (cases c)
    case (CHset _ f x)
    then have "card (dom m) + 1 < 2 ^ 63" using ok(1) c(1) m(1) by (auto simp: smallHash_def)
    from hset_ok [OF D(5) k m(2) this, of f x] obtain st' where
      "hset api st k f x = Some (OK, f \<notin> dom m, st')" "updated api st k (AHash (m(f \<mapsto> x))) st'" by auto
    then show ?thesis using CHset c(1) m(1) by (intro u) (auto simp: dispatch_defs)
  next
    case (CHsetnx _ f x)
    then have "card (dom m) + 1 < 2 ^ 63" using ok(1) c(1) m(1) by (auto simp: smallHash_def)
    from hsetnx_ok [OF D(5) k m(2) this, of f x] obtain st' where
      "hsetnx api st k f x = Some (OK, f \<notin> dom m, st')" "updated api st k (hashVal (if f \<in> dom m then m else m(f \<mapsto> x))) st'" by auto
    then show ?thesis using CHsetnx c(1) m(1) by (intro u) (auto simp: dispatch_defs Let_def)
  next
    case (CHmset _ xs)
    then have "card (dom m) + length xs < 2 ^ 63" "even (length xs)" "xs \<noteq> []" using ok(1) c(1) m(1) by (auto simp: smallHash_def)
    moreover from this have "2 \<le> length xs" by (intro pairs_length)
    moreover from calculation obtain st' where
      "hmset api st k xs = Some (OK, st')" "updated api st k (hashVal (setPairs m xs)) st'"
      using hmset_ok [OF D(5) k m(2), of xs] by auto
    ultimately show ?thesis using CHmset c(1) m(1) by (intro u) (auto simp: dispatch_defs fromStatus_def)
  next
    case (CHincrby _ f x)
    obtain i j where i: "parseInt64 x = Some i" "storedInt m f = Some j" "int64 (j + i)" "card (dom m) + 1 < 2 ^ 63"
      using CHincrby ok(1) c(1) m(1) by (auto simp: smallHash_def)
    from hincrby_ok(1) [OF D(5) k m(2) i(4,1) i(2) [unfolded storedInt_def] i(3)] obtain st' where
      "hincrby api st k f x = Some (OK, j + i, st')" "updated api st k (AHash (m(f \<mapsto> to_string (j + i)))) st'" by auto
    then show ?thesis using CHincrby c(1) m(1) i by (intro u) (auto simp: dispatch_defs Let_def)
  next
    case (CHdel _ fs)
    then have "card (dom m) < 2 ^ 63" "fs \<noteq> []" using ok(1) c(1) m(1) by (auto simp: smallHash_def)
    moreover from hdel_ok [OF D(5) k m(2) this(1), of fs] obtain st' where
      "hdel api st k fs = Some (OK, int (card (dom m \<inter> set fs)), st')" "updated api st k (hashVal (m |` (- set fs))) st'" by auto
    ultimately show ?thesis using CHdel c(1) m(1) by (intro u) (auto simp: dispatch_defs Suc_le_eq)
  qed (use c in simp_all)
qed

lemma hash_read_command:
  assumes s: "holdsValues api st clk \<sigma>" and ok: "applicable c \<sigma>" "\<not> wrongType c \<sigma>"
    and c: "operand c = Some (k, kHash)" "commandType (wire c) \<noteq> WRITE"
  shows "implements env api st clk c (typedAnswer c \<sigma>) (typedEffect c \<sigma>)"
proof -
  note D = holdsValuesD [OF s]
  have k: "okKey k" using ok(1) c(1) by (cases c) auto
  obtain m where m: "hashOf (\<sigma> k) = Some m" "hashOf (valueOf api st k) = Some m"
    using typed_operand(2) [OF ok(2) c(1)] D(6) [OF k] by auto
  obtain es where es: "sorted_wrt (<) (map fst es)" "set es = {(f, x). m f = Some x}"
      "hgetall api st k = Some (OK, concat (map (\<lambda>e. [fst e, snd e]) es))" "hkeys api st k = Some (OK, map fst es)"
      "hvals api st k = Some (OK, map snd es)" "hlen api st k = Some (OK, int (length es))"
    using hash_collections_ok [OF D(2,4) k m(2)] by blast
  have dom: "set (map fst es) = dom m" using es(2) by force
  have keys: "sortedFields m = map fst es"
    unfolding sortedFields_def dom [symmetric]
    by (rule sorted_list_of_set.idem_if_sorted_distinct) (use es(1) in \<open>simp_all add: strict_sorted_iff\<close>)
  have vals: "the (m (fst e)) = snd e" if "e \<in> set es" for e
  proof -
    have "e \<in> {(f, x). m f = Some x}" using that unfolding es(2) .
    then show ?thesis by auto
  qed
  have len: "length es = card (dom m)"
    using dom es(1) distinct_card [of "map fst es"] by (simp add: strict_sorted_iff)
  have rest: "map (\<lambda>f. the (m f)) (map fst es) = map snd es"
    "map (\<lambda>f. [f, the (m f)]) (map fst es) = map (\<lambda>e. [fst e, snd e]) es"
    using vals by simp_all
  have "dispatchReadWrite env api st (wire c) = Some (typedAnswer c \<sigma>, st)"
    using c m(1) es(3-6) keys len rest hget_ok [OF D(2,4) k m(2)]
    by (cases c) (auto simp: dispatch_defs hexists_def domIff Let_def simp del: map_map split: option.splits)
  moreover have "typedEffect c \<sigma> = \<sigma>" using c by (cases c) auto
  ultimately show ?thesis using implements_same [OF s] by simp
qed

lemma set_command:
  assumes s: "holdsValues api st clk \<sigma>" and ok: "applicable c \<sigma>" "\<not> wrongType c \<sigma>" and c: "operand c = Some (k, kSet)"
  shows "implements env api st clk c (typedAnswer c \<sigma>) (typedEffect c \<sigma>)"
proof -
  note D = holdsValuesD [OF s]
  have k: "okKey k" using ok(1) c(1) by (cases c) auto
  obtain x where x: "setOf (\<sigma> k) = Some x" "setOf (valueOf api st k) = Some x"
    using typed_operand(3) [OF ok(2) c(1)] D(6) [OF k] by auto
  note u = implements_updated [OF s k, OF _ typed_not_lease(2) [OF x(1)]]
  note r = set_reads_ok [OF D(2,4) k x(2)]
  show ?thesis
  proof (cases c)
    case (CSadd _ xs)
    then have "card x + length xs < 2 ^ 63" "xs \<noteq> []" using ok(1) c(1) x(1) by (auto simp: smallSet_def)
    moreover from sadd_ok [OF D(5) k x(2) this(1)] obtain st' where
      "sadd api st k xs = Some (OK, int (card (set xs - x)), st')" "updated api st k (setVal (x \<union> set xs)) st'" by auto
    ultimately show ?thesis using CSadd c x(1) by (intro u) (auto simp: dispatch_defs Suc_le_eq)
  next
    case (CSrem _ xs)
    then have "card x < 2 ^ 63" "xs \<noteq> []" using ok(1) c(1) x(1) by (auto simp: smallSet_def)
    moreover from srem_ok [OF D(5) k x(2) this(1), of xs] obtain st' where
      "srem api st k xs = Some (OK, int (card (x \<inter> set xs)), st')" "updated api st k (setVal (x - set xs)) st'" by auto
    ultimately show ?thesis using CSrem c x(1) by (intro u) (auto simp: dispatch_defs Suc_le_eq)
  next
    case (CSmove _ d e)
    then obtain y where y: "okKey d" "k \<noteq> d" "setOf (\<sigma> d) = Some y" "setOf (valueOf api st d) = Some y" "card x < 2 ^ 63" "card y + 1 < 2 ^ 63"
      using ok(1) c x(1) D(6) by (auto simp: smallSet_def)
    from smove_ok [OF D(5) k y(1,2) x(2) y(4-6), of e] obtain st1 st' where
      m: "smove api st k d e = Some (OK, of_bool (e \<in> x), st')" "updated api st k (setVal (x - {e})) st1"
        "updated api st1 d (setVal (if e \<in> x then insert e y else y)) st'" by auto
    have h1: "holdsValues api st1 clk (\<sigma>(k := setVal (x - {e})))" "applied st1 = applied st"
      using holdsValues_updated [OF s k m(2) typed_not_lease(2) [OF x(1)]] by simp_all
    have h2: "holdsValues api st' clk (\<sigma>(k := setVal (x - {e}), d := setVal (if e \<in> x then insert e y else y)))" "applied st' = applied st1"
      using holdsValues_updated [OF h1(1) y(1) m(3)] y(2) typed_not_lease(2) [OF y(3)] by simp_all
    then show ?thesis
      using CSmove c m(1) h1(2) x(1) y(3) by (auto simp: implements_def dispatch_defs Let_def)
  next
    case (CScard _)
    then show ?thesis using c r x(1) by (auto simp: dispatch_defs intro!: implements_same [OF s])
  next
    case (CSmembers _)
    then show ?thesis using c r x(1) by (auto simp: dispatch_defs intro!: implements_same [OF s])
  qed (use c in simp_all)
qed

lemma locality_command:
  assumes s: "holdsValues api st clk \<sigma>" and ok: "applicable c \<sigma>" "\<not> wrongType c \<sigma>" and c: "operand c = Some (k, kLocalityHash)"
  shows "implements env api st clk c (typedAnswer c \<sigma>) (typedEffect c \<sigma>)"
proof -
  note D = holdsValuesD [OF s]
  have k: "okKey k" using ok(1) c(1) by (cases c) auto
  obtain m where m: "lhashOf (\<sigma> k) = Some m" "lhashOf (valueOf api st k) = Some m"
    using typed_operand(4) [OF ok(2) c(1)] D(6) [OF k] by auto
  note u = implements_updated [OF s k, OF _ typed_not_lease(4) [OF m(1)]]
  show ?thesis
  proof (cases c)
    case (CLhset _ f h x)
    then have "k \<noteq> []" "okKey h" "h \<noteq> []" "f \<noteq> []" "card (dom m) + 1 < 2 ^ 63" using ok(1) c m(1) by (auto simp: smallLhash_def)
    from lhset_ok [OF D(5) k this(1-4) m(2) this(5), of x] obtain st' where
      "lhset api st k f h x = Some (OK, f \<notin> dom m, st')" "updated api st k (ALocalityHash (m(f \<mapsto> (h, x)))) st'" by auto
    then show ?thesis using CLhset c m(1) by (intro u) (auto simp: dispatch_defs)
  next
    case (CLhmset _ xs)
    then have a: "k \<noteq> []" "length xs mod 3 = 0" "okTriples xs" "card (dom m) + length xs < 2 ^ 63" "xs \<noteq> []"
      using ok(1) c m(1) by (auto simp: smallLhash_def)
    from lhmset_ok [OF D(5) k a(1) m(2) a(2-4)] obtain st' where
      "lhmset api st k xs = Some (OK, st')" "updated api st k (lhashVal (setTriples m xs)) st'" by auto
    moreover have "3 \<le> length xs" using triples_length [OF a(2,5)] .
    ultimately show ?thesis using CLhmset c m(1) a(2) by (intro u) (auto simp: dispatch_defs fromStatus_def)
  next
    case (CLhdel _ fs)
    then have a: "k \<noteq> []" "[] \<notin> set fs" "card (dom m) < 2 ^ 63" "fs \<noteq> []" using ok(1) c m(1) by (auto simp: smallLhash_def)
    from lhdel_ok [OF D(5) k a(1) m(2) a(2,3)] obtain st' where
      "lhdel api st k fs = Some (OK, int (card (dom m \<inter> set fs)), st')" "updated api st k (lhashVal (m |` (- set fs))) st'" by auto
    then show ?thesis using CLhdel c m(1) a(4) by (intro u) (auto simp: dispatch_defs Suc_le_eq)
  next
    case (CLhget _ f h)
    then have "lhget api st k f h = Some (case m f of None \<Rightarrow> (NotFound, []) | Some (h, x) \<Rightarrow> (OK, x))"
      using lhget_ok [OF D(2,4) k _ _ _ m(2), of f h] ok(1) c by auto
    then show ?thesis using CLhget c m(1) by (auto simp: dispatch_defs split: option.splits intro!: implements_same [OF s])
  next
    case (CLhlen _)
    then show ?thesis using c lhlen_ok [OF D(2,4) k m(2)] m(1) by (auto simp: dispatch_defs intro!: implements_same [OF s])
  qed (use c in simp_all)
qed

lemma dispatch_command:
  assumes s: "holdsValues api st clk \<sigma>" and ok: "applicable c \<sigma>"
  shows "implements env api st clk c (answer env c \<sigma>) (effect c \<sigma>)"
proof (cases "wrongType c \<sigma>")
  case True
  then show ?thesis using wrong_type_command [OF s ok] by (simp add: effect_def)
next
  case False
  note typed = key_command [OF s ok False] hash_write [OF s ok False] hash_read_command [OF s ok False]
    set_command [OF s ok False] locality_command [OF s ok False]
  have "implements env api st clk c (typedAnswer c \<sigma>) (typedEffect c \<sigma>)"
  proof (cases "operand c")
    case None
    then have "keyCommand c" by (cases c) (simp_all add: keyCommand_def)
    then show ?thesis by (rule typed(1))
  next
    case (Some p)
    obtain k kt where p: "operand c = Some (k, kt)" using Some by (cases p) simp
    then consider "kt = kString" "keyCommand c" | "kt = kHash" | "kt = kSet" | "kt = kLocalityHash"
      by (cases c) (simp_all add: keyCommand_def)
    then show ?thesis
    proof cases
      case 2
      then show ?thesis using typed(2,3) [of k env] p by blast
    qed (use typed(1,4,5) p in auto)
  qed
  with False show ?thesis by (simp add: effect_def answer_def)
qed

lemma dispatch_commands:
  assumes "holdsValues api st clk \<sigma>" "allApplicable cs \<sigma>"
  shows "\<exists>st'. readWriteLoop env api st (map wire cs) = Some (answers env cs \<sigma>, st') \<and> holdsValues api st' clk (effects cs \<sigma>)
    \<and> applied st' = applied st"
  using assms
proof (induction cs arbitrary: st \<sigma>)
  case (Cons c cs)
  obtain st1 where c: "dispatchReadWrite env api st (wire c) = Some (answer env c \<sigma>, st1)" "holdsValues api st1 clk (effect c \<sigma>)"
      "applied st1 = applied st"
    using dispatch_command [OF Cons.prems(1), of c env] Cons.prems(2) by (auto simp: implements_def)
  from Cons.IH [OF c(2)] Cons.prems(2) obtain st2 where
    "readWriteLoop env api st1 (map wire cs) = Some (answers env cs (effect c \<sigma>), st2)" "holdsValues api st2 clk (effects cs (effect c \<sigma>))"
    "applied st2 = applied st1"
    by auto
  with c show ?case by (simp add: readWriteLoop_Cons)
qed simp

definition txOf :: "acommand list \<Rightarrow> transaction" where
  "txOf cs = \<lparr>hasWrites = (\<exists>c \<in> set cs. commandType (wire c) = WRITE), tx_phantom = False, requests = map wire cs\<rparr>"

lemma length_answers [simp]: "length (answers env cs \<sigma>) = length cs"
  by (induction cs arbitrary: \<sigma>) auto

lemma arrayResponse_real:
  "requests tx \<noteq> [] \<Longrightarrow> \<not> tx_phantom tx \<Longrightarrow> length items = length (requests tx) \<Longrightarrow> arrayResponse tx items = Some (f_array items)"
  by (cases "requests tx") (auto simp: arrayResponse_def newBuilder_def builder_push_all_ok buildResponse_def f_array_def)

lemma transaction_implements:
  assumes inv: "smInv api sm clk" and cs: "cs \<noteq> []" "\<exists>c \<in> set cs. commandType (wire c) = WRITE"
    and ok: "allApplicable cs (absVal (db_view api sm))" and i: "index = lastApplied sm + 1" "int64 index"
  shows "\<exists>sm' t. dispatchTxCommit env api sm (txOf cs) index = Some (f_array (answers env cs (absVal (db_view api sm))), sm', t)
    \<and> smInv api sm' clk \<and> lastApplied sm' = index
    \<and> (\<forall>k. okKey k \<longrightarrow> absVal (db_view api sm') k = effects cs (absVal (db_view api sm)) k)"
proof -
  let ?st = "newStagingArea api sm False" and ?\<sigma> = "absVal (db_view api sm)"
  have s: "holdsValues api ?st clk ?\<sigma>" using smInvD [OF inv] by (simp add: holdsValues_def valueOf_def)
  obtain st' where st': "readWriteLoop env api ?st (map wire cs) = Some (answers env cs ?\<sigma>, st')" "holdsValues api st' clk (effects cs ?\<sigma>)"
      "applied st' = lastApplied sm"
    using dispatch_commands [OF s ok, of env] by auto
  have "leaseReady api st' clk" using st'(2) by (simp add: holdsValues_def)
  from sa_commit_ok [OF this, of index] st'(3) i obtain sm' where
    sm': "sa_commit api st' index = Some sm'" "smInv api sm' clk" "lastApplied sm' = index"
      "\<And>k. absVal (db_view api sm') k = valueOf api st' k"
    by auto
  have t: "dispatchTransaction env api ?st (txOf cs) = Some (f_array (answers env cs ?\<sigma>), st')"
    using st'(1) cs(1) arrayResponse_real [of "txOf cs" "answers env cs ?\<sigma>"] by (simp add: dispatchTransaction_def txOf_def)
  have w: "hasWrites (txOf cs)" using cs(2) by (simp add: txOf_def)
  show ?thesis
    using t w sm' st'(2) by (auto simp: dispatchTxCommit_def holdsValues_def)
qed

end
