(* ===== verification/RedisParsers.thy ===== *)
theory RedisParsers
  imports Dispatchers
begin

text \<open>
  Reading requests off a link: the buffered reader (\<^verbatim>\<open>src/src/BufferedReader.cc\<close>) and the resumable
  parser of the protocol (\<^verbatim>\<open>src/src/RedisParser.cc\<close>).

  The link is what \<open>Recv\<close> can deliver now, or a negative status.  A region of memory is modelled by
  the bytes that were written to it.  \<open>stream\<close> is the queue of bytes that a reader stands for; the
  reader is shown to be a queue (\<open>streamConsume\<close>), and the parser, which is written over an arbitrary
  reader, is studied on that queue.
\<close>

text \<open>Conversion to \<open>int\<close>.\<close>

definition intT :: "int \<Rightarrow> int" where
  "intT n = sint (word_of_int n :: 32 word)"

lemma intT_id [simp]: "- (2 ^ 31) \<le> n \<Longrightarrow> n < 2 ^ 31 \<Longrightarrow> intT n = n"
  by (simp add: intT_def sint_sbintrunc' signed_take_bit_int_eq_self)

subsection \<open>The buffered reader\<close>

record link =
  link_data :: bytes
  link_status :: int

definition recv :: "nat \<Rightarrow> link \<Rightarrow> int \<times> bytes \<times> link" where
  "recv n l =
     (if link_status l < 0 then (link_status l, [], l)
      else (int (length (take n (link_data l))), take n (link_data l), l\<lparr>link_data := drop n (link_data l)\<rparr>))"

record buffered_reader =
  br_link :: link
  buffer_size :: nat
  buffers :: "bytes list"
  position_read :: nat
  position_write :: nat

definition newReader :: "link \<Rightarrow> nat \<Rightarrow> buffered_reader" where
  "newReader l bsize = \<lparr>br_link = l, buffer_size = bsize, buffers = [[]], position_read = 0, position_write = 0\<rparr>"

partial_function (option) readFromLink :: "int \<Rightarrow> int \<Rightarrow> buffered_reader \<Rightarrow> (int \<times> buffered_reader) option" where
  "readFromLink limit total_bytes r =
     (let available_space = buffer_size r - position_write r in
      case recv available_space (br_link r) of (rlen, received, l) \<Rightarrow>
        if rlen < 0 then Some (rlen, r\<lparr>br_link := l\<rparr>)
        else
          (let total_bytes = total_bytes + rlen;
               r = r\<lparr>br_link := l,
                     buffers := butlast (buffers r) @ [take (position_write r) (last (buffers r)) @ received]\<rparr> in
           if rlen < int available_space
           then Some (total_bytes, r\<lparr>position_write := position_write r + nat rlen\<rparr>)
           else
             (let r = r\<lparr>buffers := buffers r @ [[]], position_write := 0\<rparr> in
              if limit < total_bytes then Some (total_bytes, r) else readFromLink limit total_bytes r)))"

definition canConsume :: "nat \<Rightarrow> buffered_reader \<Rightarrow> (int \<times> buffered_reader) option" where
  "canConsume len r = do {
     let available_bytes = length (buffers r) * buffer_size r - position_read r - (buffer_size r - position_write r);
     if len \<le> available_bytes then Some (intT (int available_bytes), r)
     else do {
       (rlink, r) \<leftarrow> readFromLink (intT (int (len - available_bytes))) 0 r;
       if rlink < 0 then Some (rlink, r)
       else do {
         let available_bytes = available_bytes + nat rlink;
         Some (if len \<le> available_bytes then intT (int available_bytes) else 0, r) } } }"

text \<open>The loop of \<open>consumeInternal\<close>: bytes that remain, bytes so far, read position, buffers.\<close>

function consumeLoop :: "nat \<Rightarrow> nat \<Rightarrow> bytes \<Rightarrow> nat \<Rightarrow> bytes list \<Rightarrow> (bytes \<times> nat \<times> bytes list) option" where
  "consumeLoop bsize remaining str pos bufs =
     (if remaining = 0 then Some (str, pos, bufs)
      else case bufs of [] \<Rightarrow> None
      | b # rest \<Rightarrow>
        (let available_bytes = min (bsize - pos) remaining;
             remaining' = remaining - available_bytes;
             str = str @ take available_bytes (drop pos b);
             pos' = pos + available_bytes in
         if bsize \<le> pos' then consumeLoop bsize remaining' str 0 rest
         else consumeLoop bsize remaining' str pos' bufs))"
  by pat_completeness auto
termination
  by (relation "measure (\<lambda>(bsize, remaining, str, pos, bufs). remaining + length bufs)") auto

declare consumeLoop.simps [simp del]

definition consumeInternal :: "nat \<Rightarrow> buffered_reader \<Rightarrow> (int \<times> bytes \<times> buffered_reader) option" where
  "consumeInternal len r = do {
     (str, pos, bufs) \<leftarrow> consumeLoop (buffer_size r) len [] (position_read r) (buffers r);
     Some (intT (int len), str, r\<lparr>position_read := pos, buffers := bufs\<rparr>) }"

text \<open>\<open>consume\<close> into a string, and into a pinned buffer.\<close>

definition consumeString :: "nat \<Rightarrow> buffered_reader \<Rightarrow> (int \<times> bytes \<times> buffered_reader) option" where
  "consumeString len r = do {
     (status, r) \<leftarrow> canConsume len r;
     if status \<le> 0 then Some (status, [], r) else consumeInternal len r }"

definition consumePinned :: "nat \<Rightarrow> buffered_reader \<Rightarrow> (int \<times> bytes \<times> buffered_reader) option" where
  "consumePinned len r = do {
     (status, r) \<leftarrow> canConsume len r;
     if status \<le> 0 then Some (status, [], r)
     else if len \<le> buffer_size r - position_read r then
       (case buffers r of [] \<Rightarrow> None
        | b # _ \<Rightarrow> Some (intT (int len), take len (drop (position_read r) b), r\<lparr>position_read := position_read r + len\<rparr>))
     else consumeInternal len r }"

subsection \<open>The parser\<close>

type_synonym 'r consumer = "nat \<Rightarrow> 'r \<Rightarrow> (int \<times> bytes \<times> 'r) option"

record redis_parser =
  request_size :: int
  current_element :: int
  element_size :: int
  encounteredZeroSize :: bool
  current_integer :: bytes

definition newParser :: redis_parser where
  "newParser = \<lparr>request_size = 0, current_element = 0, element_size = 0, encounteredZeroSize = False, current_integer = []\<rparr>"

text \<open>The loop of \<open>readInteger\<close> up to the line feed.\<close>

partial_function (option) readLine :: "'r consumer \<Rightarrow> bytes \<Rightarrow> 'r \<Rightarrow> (int \<times> bytes \<times> 'r) option" where
  "readLine cs line r = do {
     (rlen, prev, r) \<leftarrow> cs 1 r;
     if rlen \<le> 0 then Some (rlen, line, r)
     else if hd prev = CHR 0x0A then Some (1, line @ prev, r)
     else readLine cs (line @ prev) r }"

text \<open>\<open>strtol\<close> stops at a null byte.\<close>

definition parseLength :: "bytes \<Rightarrow> int option" where
  "parseLength s = parseInt64 (takeWhile (\<lambda>c. c \<noteq> CHR 0x00) s)"

text \<open>The status, the number, what is kept in \<open>current_integer\<close>, and the reader.\<close>

definition readInteger :: "'r consumer \<Rightarrow> char \<Rightarrow> bytes \<Rightarrow> 'r \<Rightarrow> (int \<times> int \<times> bytes \<times> 'r) option" where
  "readInteger cs pre line r = do {
     (status, line, r) \<leftarrow> readLine cs line r;
     if status \<le> 0 then Some (status, 0, line, r)
     else if hd line \<noteq> pre then Some (-1, 0, line, r)
     else if line ! (length line - 2) \<noteq> CHR 0x0D then Some (-1, 0, line, r)
     else do {
       let line = take (length line - 2) line;
       (case parseLength (drop 1 line) of
          None \<Rightarrow> Some (-1, 0, line, r)
        | Some num \<Rightarrow> Some (1, intT num, [], r)) } }"

definition readString :: "'r consumer \<Rightarrow> int \<Rightarrow> 'r \<Rightarrow> (int \<times> bytes \<times> 'r) option" where
  "readString cp nbytes r = do {
     assert_that (nbytes + 2 < 2 ^ 31);
     (rlen, str, r) \<leftarrow> cp (sizeT (nbytes + 2)) r;
     if rlen \<le> 0 then Some (rlen, [], r)
     else do {
       assert_that (2 \<le> length str);
       if str ! (length str - 2) \<noteq> CHR 0x0D then Some (-1, [], r)
       else if str ! (length str - 1) \<noteq> CHR 0x0A then Some (-1, [], r)
       else Some (rlen, take (length str - 2) str, r) } }"

definition readElement ::
  "'r consumer \<Rightarrow> 'r consumer \<Rightarrow> bool \<Rightarrow> redis_parser \<Rightarrow> 'r \<Rightarrow> (int \<times> bytes \<times> redis_parser \<times> 'r) option" where
  "readElement cs cp authenticated p r = do {
     (status, p, r) \<leftarrow>
       (if element_size p = -1 then do {
          (status, num, line, r) \<leftarrow> readInteger cs (CHR ''$'') (current_integer p) r;
          Some (status,
            if status \<le> 0 then p\<lparr>current_integer := line\<rparr>
            else p\<lparr>current_integer := line, element_size := num, encounteredZeroSize := (encounteredZeroSize p \<or> num = 0)\<rparr>, r) }
        else Some (1, p, r));
     if status \<le> 0 then Some (status, [], p, r)
     else if \<not> authenticated \<and> 1048576 \<le> element_size p then Some (-2, [], p, r)
     else do {
       (rlen, str, r) \<leftarrow> readString cp (element_size p) r;
       Some (rlen, str, p, r) } }"

fun fetchLoop ::
  "'r consumer \<Rightarrow> 'r consumer \<Rightarrow> bool \<Rightarrow> nat \<Rightarrow> redis_parser \<Rightarrow> redis_request \<Rightarrow> 'r
    \<Rightarrow> (int \<times> redis_parser \<times> redis_request \<times> 'r) option" where
  "fetchLoop cs cp authenticated 0 p req r = Some (1, p, req, r)"
| "fetchLoop cs cp authenticated (Suc n) p req r = do {
     (rc, str, p, r) \<leftarrow> readElement cs cp authenticated p r;
     if rc \<le> 0 then Some (rc, p, req, r)
     else fetchLoop cs cp authenticated n (p\<lparr>element_size := -1, current_element := current_element p + 1\<rparr>)
            (req\<lparr>contents := (contents req)[nat (current_element p) := str]\<rparr>) r }"

definition fetchRequest ::
  "'r consumer \<Rightarrow> 'r consumer \<Rightarrow> bool \<Rightarrow> redis_parser \<Rightarrow> redis_request \<Rightarrow> 'r
    \<Rightarrow> (int \<times> redis_parser \<times> redis_request \<times> 'r) option" where
  "fetchRequest cs cp authenticated p req r = do {
     (status, p, req, r) \<leftarrow>
       (if request_size p = 0 then do {
          (status, num, line, r) \<leftarrow> readInteger cs (CHR ''*'') (current_integer p) r;
          if status \<le> 0 then Some (status, p\<lparr>current_integer := line\<rparr>, emptyRequest, r)
          else do {
            let p = p\<lparr>current_integer := line, request_size := num, element_size := -1, current_element := 0\<rparr>;
            if \<not> authenticated \<and> 5 \<le> num then Some (-2, p, emptyRequest, r)
            else do {
              assert_that (0 \<le> num);
              Some (1, p, emptyRequest\<lparr>contents := replicate (nat num) []\<rparr>, r) } } }
        else Some (1, p, req, r));
     if status \<le> 0 then Some (status, p, req, r)
     else do {
       (status, p, req, r) \<leftarrow> fetchLoop cs cp authenticated (nat (request_size p - current_element p)) p req r;
       if status \<le> 0 then Some (status, p, req, r)
       else Some (if encounteredZeroSize p then -2 else 1, p\<lparr>request_size := 0\<rparr>, parseCommand req, r) } }"

subsection \<open>The reader is a queue of bytes\<close>

definition unread :: "buffered_reader \<Rightarrow> bytes" where
  "unread r = drop (position_read r) (concat (buffers r))"

definition stream :: "buffered_reader \<Rightarrow> bytes" where
  "stream r = unread r @ link_data (br_link r)"

definition readerInv :: "buffered_reader \<Rightarrow> bool" where
  "readerInv r \<longleftrightarrow> buffers r \<noteq> [] \<and> (\<forall>b \<in> set (butlast (buffers r)). length b = buffer_size r)
     \<and> length (last (buffers r)) = position_write r \<and> position_write r < buffer_size r
     \<and> position_read r \<le> length (hd (buffers r)) \<and> 0 \<le> link_status (br_link r)"

definition streamConsume :: "bytes consumer" where
  "streamConsume len s = Some (if len \<le> length s then (int len, take len s, drop len s) else (0, [], s))"

lemma newReader_inv: "0 < bsize \<Longrightarrow> 0 \<le> link_status l \<Longrightarrow> readerInv (newReader l bsize)"
  and stream_newReader: "stream (newReader l bsize) = link_data l"
  by (simp_all add: readerInv_def newReader_def stream_def unread_def)

lemma buffers_split: "readerInv r \<Longrightarrow> buffers r = butlast (buffers r) @ [last (buffers r)]"
  by (simp add: readerInv_def)

lemma length_full: "\<forall>b \<in> set bs. length b = n \<Longrightarrow> length (concat bs) = length bs * n"
  by (induction bs) simp_all

lemma position_read_le: "readerInv r \<Longrightarrow> position_read r \<le> length (concat (buffers r))"
  by (cases "buffers r") (auto simp: readerInv_def)

lemma length_unread:
  assumes "readerInv r"
  shows "length (unread r) = length (buffers r) * buffer_size r - position_read r - (buffer_size r - position_write r)"
proof -
  define full where "full = length (butlast (buffers r)) * buffer_size r"
  have "concat (buffers r) = concat (butlast (buffers r)) @ last (buffers r)"
    using assms by (cases "buffers r" rule: rev_cases) (simp_all add: readerInv_def)
  then have "length (concat (buffers r)) = full + position_write r"
    using assms length_full [of "butlast (buffers r)" "buffer_size r"] by (simp add: readerInv_def full_def)
  moreover have "length (buffers r) * buffer_size r = full + buffer_size r"
    using assms unfolding full_def by (cases "buffers r" rule: rev_cases) (simp_all add: readerInv_def)
  moreover have "position_write r < buffer_size r" using assms by (simp add: readerInv_def)
  ultimately show ?thesis unfolding unread_def length_drop by linarith
qed

text \<open>Reading from the link moves bytes from the link to the buffers.\<close>

lemma append_last:
  assumes "readerInv r"
  shows "concat (butlast (buffers r) @ [take (position_write r) (last (buffers r)) @ d]) = concat (buffers r) @ d"
  using assms by (cases "buffers r" rule: rev_cases) (simp_all add: readerInv_def)

lemma unread_upd: "unread (r\<lparr>br_link := l, buffers := bs, position_write := w\<rparr>) = drop (position_read r) (concat bs)"
  by (simp add: unread_def)

lemma append_last_unread:
  assumes "readerInv r"
  shows "drop (position_read r) (concat (butlast (buffers r) @ [take (position_write r) (last (buffers r)) @ d])) = unread r @ d"
    "drop (position_read r) (concat (butlast (buffers r) @ [take (position_write r) (last (buffers r)) @ d, []])) = unread r @ d"
proof -
  have "concat (butlast (buffers r) @ [take (position_write r) (last (buffers r)) @ d, []]) = concat (buffers r) @ d"
    using append_last [OF assms, of d] by simp
  then show "drop (position_read r) (concat (butlast (buffers r) @ [take (position_write r) (last (buffers r)) @ d])) = unread r @ d"
    "drop (position_read r) (concat (butlast (buffers r) @ [take (position_write r) (last (buffers r)) @ d, []])) = unread r @ d"
    using position_read_le [OF assms] append_last [OF assms, of d] by (simp_all only: unread_def drop_append diff_is_0_eq [THEN iffD2] drop_0)
qed

lemma append_last_inv:
  assumes "readerInv r" "length d + position_write r < buffer_size r"
  shows "readerInv (r\<lparr>br_link := l, buffers := butlast (buffers r) @ [take (position_write r) (last (buffers r)) @ d],
                     position_write := position_write r + length d\<rparr>) \<longleftrightarrow> 0 \<le> link_status l"
  using assms by (cases "buffers r" rule: rev_cases) (auto simp: readerInv_def hd_append)

lemma append_full_inv:
  assumes "readerInv r" "length d + position_write r = buffer_size r"
  shows "readerInv (r\<lparr>br_link := l, buffers := butlast (buffers r) @ [take (position_write r) (last (buffers r)) @ d, []],
                     position_write := 0\<rparr>) \<longleftrightarrow> 0 \<le> link_status l"
  using assms by (cases "buffers r" rule: rev_cases) (auto simp: readerInv_def hd_append butlast_append)

lemma readFromLink_ok:
  assumes "readerInv r"
  shows "\<exists>k r'. readFromLink limit sofar r = Some (sofar + int k, r') \<and> readerInv r' \<and> stream r' = stream r
    \<and> length (unread r') = length (unread r) + k \<and> (link_data (br_link r') = [] \<or> limit < sofar + int k)"
  using assms
proof (induction "length (link_data (br_link r))" arbitrary: r sofar rule: less_induct)
  case less
  let ?a = "buffer_size r - position_write r" and ?l = "br_link r"
  let ?d = "take ?a (link_data ?l)" and ?l' = "?l\<lparr>link_data := drop ?a (link_data ?l)\<rparr>"
  have ls: "0 \<le> link_status ?l" and a: "0 < ?a" using less.prems by (simp_all add: readerInv_def)
  have rc: "recv ?a ?l = (int (length ?d), ?d, ?l')" using ls by (simp add: recv_def)
  show ?case
  proof (cases "length ?d < ?a")
    case True
    let ?r = "r\<lparr>br_link := ?l', buffers := butlast (buffers r) @ [take (position_write r) (last (buffers r)) @ ?d],
               position_write := position_write r + length ?d\<rparr>"
    have "readFromLink limit sofar r = Some (sofar + int (length ?d), ?r)"
    proof -
      have "int (length ?d) < int ?a" using True by linarith
      then show ?thesis using ls by (subst readFromLink.simps) (simp only: rc Let_def prod.case if_True if_False of_nat_less_0_iff nat_int, simp)
    qed
    moreover have "readerInv ?r" using append_last_inv [OF less.prems, of ?d ?l'] True ls by simp
    moreover have "unread ?r = unread r @ ?d" using append_last_unread(1) [OF less.prems] by (simp only: unread_upd)
    moreover have "link_data ?l' = []" using True by simp
    ultimately show ?thesis using True
      by (intro exI [of _ "length ?d"] exI [of _ ?r]) (simp add: stream_def)
  next
    case False
    then have full: "length ?d = ?a" by simp
    let ?r = "r\<lparr>br_link := ?l', buffers := butlast (buffers r) @ [take (position_write r) (last (buffers r)) @ ?d, []],
               position_write := 0\<rparr>"
    have step: "readFromLink limit sofar r
        = (if limit < sofar + int ?a then Some (sofar + int ?a, ?r) else readFromLink limit (sofar + int ?a) ?r)"
      using full ls by (subst readFromLink.simps) (simp add: rc Let_def)
    have inv: "readerInv ?r" using append_full_inv [OF less.prems, of ?d ?l'] full a ls by simp
    have u: "unread ?r = unread r @ ?d"
      using append_last_unread(2) [OF less.prems] by (simp only: unread_upd)
    have st: "stream ?r = stream r" using u by (simp add: stream_def)
    show ?thesis
    proof (cases "limit < sofar + int ?a")
      case True
      then show ?thesis using step inv u st full by (intro exI [of _ ?a] exI [of _ ?r]) simp
    next
      case go: False
      have "length (link_data (br_link ?r)) < length (link_data ?l)" using full a by auto
      from less.hyps [OF this inv, of "sofar + int ?a"] obtain k r' where
        k: "readFromLink limit (sofar + int ?a) ?r = Some (sofar + int ?a + int k, r')" "readerInv r'" "stream r' = stream ?r"
          "length (unread r') = length (unread ?r) + k" "link_data (br_link r') = [] \<or> limit < sofar + int ?a + int k"
        by blast
      then show ?thesis using step go u st full by (intro exI [of _ "?a + k"] exI [of _ r']) (simp add: algebra_simps)
    qed
  qed
qed

lemma canConsume_ok:
  assumes inv: "readerInv r" and s: "length (stream r) < 2 ^ 31"
  obtains r' where "canConsume len r = Some (if len \<le> length (stream r) then int (length (unread r')) else 0, r')"
    "readerInv r'" "stream r' = stream r" "len \<le> length (stream r) \<Longrightarrow> len \<le> length (unread r')"
proof -
  have u: "length (unread r) \<le> length (stream r)" by (simp add: stream_def)
  show ?thesis
  proof (cases "len \<le> length (unread r)")
    case True
    then show ?thesis
      using u s by (intro that [OF _ inv refl]) (unfold canConsume_def length_unread [OF inv, symmetric], simp_all)
  next
    case False
    let ?lim = "int (len - length (unread r))"
    obtain k r' where k: "readFromLink (intT ?lim) 0 r = Some (int k, r')" "readerInv r'" "stream r' = stream r"
        "length (unread r') = length (unread r) + k" "link_data (br_link r') = [] \<or> intT ?lim < int k"
      using readFromLink_ok [OF inv, of "intT ?lim" 0] by auto
    have su: "length (stream r) = length (unread r') + length (link_data (br_link r'))"
      using k(3) by (metis stream_def length_append)
    have iff: "len \<le> length (unread r') \<longleftrightarrow> len \<le> length (stream r)"
    proof
      assume l: "len \<le> length (stream r)"
      then have "intT ?lim = ?lim" using s by (intro intT_id) auto
      then show "len \<le> length (unread r')" using k(4,5) su False l by auto
    qed (use su in simp)
    have t: "intT (int (length (unread r'))) = int (length (unread r'))" using s su by simp
    have n: "nat (int k) = k" by simp
    have "canConsume len r = Some (if len \<le> length (stream r) then int (length (unread r')) else 0, r')"
      using False k(1,4) iff t unfolding canConsume_def length_unread [OF inv, symmetric] Let_def by simp
    then show ?thesis using that [OF _ k(2,3)] iff by simp
  qed
qed

definition bufInv :: "nat \<Rightarrow> nat \<Rightarrow> nat \<Rightarrow> bytes list \<Rightarrow> bool" where
  "bufInv bsize w pos bufs \<longleftrightarrow> bufs \<noteq> [] \<and> (\<forall>b \<in> set (butlast bufs). length b = bsize) \<and> length (last bufs) = w \<and> w < bsize
     \<and> pos \<le> length (hd bufs)"

lemma readerInv_bufInv:
  "readerInv r \<longleftrightarrow> bufInv (buffer_size r) (position_write r) (position_read r) (buffers r) \<and> 0 \<le> link_status (br_link r)"
  by (auto simp: readerInv_def bufInv_def)

lemma consumeLoop_inside:
  assumes "pos + remaining < bsize" "bufs = b # rest"
  shows "consumeLoop bsize remaining str pos bufs = Some (str @ take remaining (drop pos b), pos + remaining, bufs)"
proof -
  have "min (bsize - pos) remaining = remaining" using assms by simp
  then show ?thesis
    using assms by (cases "remaining = 0") (simp_all add: consumeLoop.simps [of bsize remaining] consumeLoop.simps [of bsize 0] Let_def)
qed

lemma consumeLoop_ok:
  assumes "bufInv bsize w pos bufs" "remaining \<le> length (drop pos (concat bufs))"
  shows "\<exists>pos' bufs'. consumeLoop bsize remaining str pos bufs = Some (str @ take remaining (drop pos (concat bufs)), pos', bufs')
    \<and> drop pos' (concat bufs') = drop remaining (drop pos (concat bufs)) \<and> bufInv bsize w pos' bufs'"
  using assms
proof (induction bufs arbitrary: pos remaining str)
  case (Cons b rest)
  consider (zero) "remaining = 0" | (inside) "pos + remaining < bsize" | (across) "remaining \<noteq> 0" "\<not> pos + remaining < bsize" by blast
  then show ?case
  proof cases
    case zero
    then show ?thesis using Cons.prems(1) by (auto simp: consumeLoop.simps)
  next
    case True: inside
    have fits: "pos + remaining \<le> length b"
      using Cons.prems True by (cases rest) (auto simp: bufInv_def)
    have "take remaining (drop pos (concat (b # rest))) = take remaining (drop pos b)" using fits by simp
    moreover have "bufInv bsize w (pos + remaining) (b # rest)" using Cons.prems(1) fits by (simp add: bufInv_def)
    ultimately show ?thesis
      using consumeLoop_inside [OF True refl, of str b rest] fits by (auto simp: add.commute)
  next
    case across
    note nz = across(1) and False = across(2)
    have rest: "rest \<noteq> []" "length b = bsize" "0 < bsize" "pos \<le> bsize"
      using Cons.prems False by (auto simp: bufInv_def split: if_splits)
    let ?a = "bsize - pos"
    have inv: "bufInv bsize w 0 rest" using Cons.prems(1) rest by (auto simp: bufInv_def)
    have rem: "remaining - ?a \<le> length (drop 0 (concat rest))" using Cons.prems(2) rest by simp
    have step: "consumeLoop bsize remaining str pos (b # rest) = consumeLoop bsize (remaining - ?a) (str @ drop pos b) 0 rest"
    proof -
      have m: "min ?a remaining = ?a" using False by simp
      show ?thesis
        using nz rest by (subst consumeLoop.simps) (simp add: m Let_def)
    qed
    show ?thesis
      using Cons.IH [OF inv rem, of "str @ drop pos b"] step rest False
      by (auto simp: take_append drop_append)
  qed
qed (simp add: bufInv_def)

text \<open>Either way to consume takes bytes off the front of the queue, all that was asked for or nothing.\<close>

lemma consumeInternal_ok:
  assumes inv: "readerInv r" and len: "len \<le> length (unread r)"
  obtains r' where "consumeInternal len r = Some (intT (int len), take len (unread r), r')" "readerInv r'"
    "stream r' = drop len (unread r) @ link_data (br_link r)"
proof -
  obtain pos bufs where c: "consumeLoop (buffer_size r) len [] (position_read r) (buffers r) = Some (take len (unread r), pos, bufs)"
      "drop pos (concat bufs) = drop len (unread r)" "bufInv (buffer_size r) (position_write r) pos bufs"
    using consumeLoop_ok [of "buffer_size r" "position_write r" "position_read r" "buffers r" len "[]"] inv len
    by (auto simp: readerInv_bufInv unread_def)
  show ?thesis
    by (rule that [of "r\<lparr>position_read := pos, buffers := bufs\<rparr>"])
      (use c inv in \<open>auto simp: consumeInternal_def readerInv_bufInv stream_def unread_def\<close>)
qed

definition goodReader :: "buffered_reader \<Rightarrow> bool" where
  "goodReader r \<longleftrightarrow> readerInv r \<and> length (stream r) < 2 ^ 31"

lemma consumeString_refines:
  assumes "goodReader r"
  shows "\<exists>st d r'. consumeString len r = Some (st, d, r') \<and> goodReader r' \<and> streamConsume len (stream r) = Some (st, d, stream r')"
proof -
  have inv: "readerInv r" and s: "length (stream r) < 2 ^ 31" using assms by (simp_all add: goodReader_def)
  obtain r1 where c: "canConsume len r = Some (if len \<le> length (stream r) then int (length (unread r1)) else 0, r1)"
      "readerInv r1" "stream r1 = stream r" "len \<le> length (stream r) \<Longrightarrow> len \<le> length (unread r1)"
    using canConsume_ok [OF inv s] by metis
  show ?thesis
  proof (cases "len \<le> length (stream r) \<and> unread r1 \<noteq> []")
    case True
    obtain r2 where k: "consumeInternal len r1 = Some (intT (int len), take len (unread r1), r2)" "readerInv r2"
        "stream r2 = drop len (unread r1) @ link_data (br_link r1)"
      using consumeInternal_ok [OF c(2)] c(4) True by metis
    have "stream r2 = drop len (stream r1)" "take len (unread r1) = take len (stream r1)"
      using k(3) c(4) True by (simp_all add: stream_def)
    then show ?thesis
      using k c True s by (auto simp: consumeString_def streamConsume_def goodReader_def)
  next
    case False
    then show ?thesis
      using c s by (auto simp: consumeString_def streamConsume_def goodReader_def)
  qed
qed

lemma consumePinned_refines:
  assumes "goodReader r"
  shows "\<exists>st d r'. consumePinned len r = Some (st, d, r') \<and> goodReader r' \<and> streamConsume len (stream r) = Some (st, d, stream r')"
proof -
  have inv: "readerInv r" and s: "length (stream r) < 2 ^ 31" using assms by (simp_all add: goodReader_def)
  obtain r1 where c: "canConsume len r = Some (if len \<le> length (stream r) then int (length (unread r1)) else 0, r1)"
      "readerInv r1" "stream r1 = stream r" "len \<le> length (stream r) \<Longrightarrow> len \<le> length (unread r1)"
    using canConsume_ok [OF inv s] by metis
  show ?thesis
  proof (cases "len \<le> length (stream r) \<and> unread r1 \<noteq> [] \<and> len \<le> buffer_size r1 - position_read r1")
    case True
    obtain b rest where b: "buffers r1 = b # rest" using c(2) by (cases "buffers r1") (auto simp: readerInv_def)
    have fits: "position_read r1 + len \<le> length b"
      using c(2,4) True b by (cases rest) (auto simp: readerInv_def unread_def)
    let ?r = "r1\<lparr>position_read := position_read r1 + len\<rparr>"
    have "readerInv ?r" using c(2) fits b by (simp add: readerInv_def)
    moreover have "stream ?r = drop len (stream r)" "take len (drop (position_read r1) b) = take len (stream r)"
      using fits b unfolding c(3) [symmetric] by (simp_all add: stream_def unread_def add.commute)
    ultimately show ?thesis
      using c(1) True b s by (auto simp: consumePinned_def streamConsume_def goodReader_def)
  next
    case False
    have "consumePinned len r = consumeString len r"
      using c False by (auto simp: consumePinned_def consumeString_def)
    then show ?thesis using consumeString_refines [OF assms] by simp
  qed
qed

subsection \<open>The contract between parser and reader\<close>

text \<open>Two computations that fail together, or agree in all but the reader, whose queue is the second.\<close>

definition sim2 :: "('r \<Rightarrow> bool) \<Rightarrow> ('r \<Rightarrow> 's) \<Rightarrow> ('a \<times> 'b \<times> 'r) option \<Rightarrow> ('a \<times> 'b \<times> 's) option \<Rightarrow> bool" where
  "sim2 good queue x y \<longleftrightarrow> (case x of None \<Rightarrow> y = None | Some (a, b, r) \<Rightarrow> good r \<and> y = Some (a, b, queue r))"

definition sim3 :: "('r \<Rightarrow> bool) \<Rightarrow> ('r \<Rightarrow> 's) \<Rightarrow> ('a \<times> 'b \<times> 'c \<times> 'r) option \<Rightarrow> ('a \<times> 'b \<times> 'c \<times> 's) option \<Rightarrow> bool" where
  "sim3 good queue x y \<longleftrightarrow> (case x of None \<Rightarrow> y = None | Some (a, b, c, r) \<Rightarrow> good r \<and> y = Some (a, b, c, queue r))"

lemma sim_simps [simp]:
  "sim2 good queue None y \<longleftrightarrow> y = None" "sim2 good queue (Some (a, b, r)) y \<longleftrightarrow> good r \<and> y = Some (a, b, queue r)"
  "sim3 good queue None z \<longleftrightarrow> z = None" "sim3 good queue (Some (a, b, c, r)) z \<longleftrightarrow> good r \<and> z = Some (a, b, c, queue r)"
  by (auto simp: sim2_def sim3_def)

lemma sim_intros:
  "good r \<Longrightarrow> sim2 good queue (Some (a, b, r)) (Some (a, b, queue r))"
  "good r \<Longrightarrow> sim3 good queue (Some (a, b, c, r)) (Some (a, b, c, queue r))"
  "(P \<Longrightarrow> sim2 good queue x y) \<Longrightarrow> (\<not> P \<Longrightarrow> sim2 good queue x' y') \<Longrightarrow> sim2 good queue (if P then x else x') (if P then y else y')"
  "(P \<Longrightarrow> sim3 good queue z w) \<Longrightarrow> (\<not> P \<Longrightarrow> sim3 good queue z' w') \<Longrightarrow> sim3 good queue (if P then z else z') (if P then w else w')"
  "(Q \<Longrightarrow> sim2 good queue (f ()) (g ())) \<Longrightarrow> sim2 good queue (Option.bind (assert_that Q) f) (Option.bind (assert_that Q) g)"
  "(Q \<Longrightarrow> sim3 good queue (h ()) (k ())) \<Longrightarrow> sim3 good queue (Option.bind (assert_that Q) h) (Option.bind (assert_that Q) k)"
  by (cases Q; simp)+

lemma sim_binds:
  "sim2 good queue x y \<Longrightarrow> (\<And>a b r. good r \<Longrightarrow> sim2 good queue (f (a, b, r)) (g (a, b, queue r))) \<Longrightarrow> sim2 good queue (Option.bind x f) (Option.bind y g)"
  "sim2 good queue x y \<Longrightarrow> (\<And>a b r. good r \<Longrightarrow> sim3 good queue (f3 (a, b, r)) (g3 (a, b, queue r))) \<Longrightarrow> sim3 good queue (Option.bind x f3) (Option.bind y g3)"
  "sim3 good queue z w \<Longrightarrow> (\<And>a b c r. good r \<Longrightarrow> sim2 good queue (h (a, b, c, r)) (k (a, b, c, queue r))) \<Longrightarrow> sim2 good queue (Option.bind z h) (Option.bind w k)"
  "sim3 good queue z w \<Longrightarrow> (\<And>a b c r. good r \<Longrightarrow> sim3 good queue (h3 (a, b, c, r)) (k3 (a, b, c, queue r))) \<Longrightarrow> sim3 good queue (Option.bind z h3) (Option.bind w k3)"
     apply (cases x; auto)
    apply (cases x; auto)
   apply (cases z; auto)
  apply (cases z; auto)
  done

locale byte_reader =
  fixes cs :: "'r consumer" and cp :: "'r consumer" and good :: "'r \<Rightarrow> bool" and queue :: "'r \<Rightarrow> bytes"
  assumes cs_queue: "good r \<Longrightarrow> sim2 good queue (cs len r) (streamConsume len (queue r))"
    and cp_queue: "good r \<Longrightarrow> sim2 good queue (cp len r) (streamConsume len (queue r))"
begin

lemma readLine_queue: "good r \<Longrightarrow> sim2 good queue (readLine cs line r) (readLine streamConsume line (queue r))"
proof (induction "length (queue r)" arbitrary: r line rule: less_induct)
  case less
  obtain st d r1 where c: "cs 1 r = Some (st, d, r1)" "good r1" "streamConsume 1 (queue r) = Some (st, d, queue r1)"
    using cs_queue [OF less.prems, of 1] by (auto simp: sim2_def streamConsume_def split: option.splits)
  have shorter: "length (queue r1) < length (queue r)" if "0 < st"
  proof -
    have "1 \<le> length (queue r)" "queue r1 = drop 1 (queue r)"
      using c(3) that by (auto simp: streamConsume_def split: if_splits)
    then show ?thesis by simp
  qed
  show ?case
    unfolding readLine.simps [of cs line] readLine.simps [of streamConsume line] c(1,3)
    using less.hyps [OF shorter c(2), of "line @ d"] c(2) by (auto intro!: sim_intros)
qed

lemma readInteger_queue:
  assumes "good r"
  shows "sim3 good queue (readInteger cs pre line r) (readInteger streamConsume pre line (queue r))"
proof -
  have last: "sim3 good queue (case o1 of None \<Rightarrow> Some (-1, 0, l, r1) | Some n \<Rightarrow> Some (1, intT n, [], r1))
      (case o1 of None \<Rightarrow> Some (-1, 0, l, queue r1) | Some n \<Rightarrow> Some (1, intT n, [], queue r1))" if "good r1" for o1 l r1
    using that by (cases o1) (simp_all add: sim3_def)
  show ?thesis
    unfolding readInteger_def Let_def
    by (rule sim_binds(2) [OF readLine_queue [OF assms]], unfold prod.case) (intro sim_intros last; assumption)
qed

lemma readString_queue:
  assumes "good r"
  shows "sim2 good queue (readString cp n r) (readString streamConsume n (queue r))"
  unfolding readString_def
  by (rule sim_intros(5), rule sim_binds(1) [OF cp_queue [OF assms]], unfold prod.case) (intro sim_intros; assumption)

lemma readElement_queue:
  assumes "good r"
  shows "sim3 good queue (readElement cs cp a p r) (readElement streamConsume streamConsume a p (queue r))"
  unfolding readElement_def
proof (rule sim_binds(2), goal_cases)
  case 1
  show ?case
    by (rule sim_intros(3), rule sim_binds(3) [OF readInteger_queue [OF assms]], unfold prod.case)
      (intro sim_intros assms; assumption)+
next
  case (2 st p r)
  show ?case
    unfolding prod.case
    by (intro sim_intros 2, rule sim_binds(2) [OF readString_queue [OF 2]], unfold prod.case) (intro sim_intros; assumption)
qed

lemma fetchLoop_queue:
  "good r \<Longrightarrow> sim3 good queue (fetchLoop cs cp a n p req r) (fetchLoop streamConsume streamConsume a n p req (queue r))"
proof (induction n arbitrary: p req r)
  case (Suc n)
  show ?case
    unfolding fetchLoop.simps
    by (rule sim_binds(4) [OF readElement_queue [OF Suc.prems]], unfold prod.case) (intro sim_intros Suc.IH; assumption)
qed (simp add: sim_intros)

lemma fetchRequest_queue:
  assumes "good r"
  shows "sim3 good queue (fetchRequest cs cp a p req r) (fetchRequest streamConsume streamConsume a p req (queue r))"
  unfolding fetchRequest_def Let_def
proof (rule sim_binds(4), goal_cases)
  case 1
  show ?case
    by (rule sim_intros(4), rule sim_binds(4) [OF readInteger_queue [OF assms]], unfold prod.case)
      (intro sim_intros assms; assumption)+
next
  case (2 st p req r)
  show ?case
    unfolding prod.case
    by (intro sim_intros 2, rule sim_binds(4) [OF fetchLoop_queue [OF 2]], unfold prod.case) (intro sim_intros; assumption)
qed

end

text \<open>The buffered reader keeps the contract.\<close>

interpretation buffered: byte_reader consumeString consumePinned goodReader stream
proof unfold_locales
  show "sim2 goodReader stream (consumeString len r) (streamConsume len (stream r))" if "goodReader r" for r len
    using consumeString_refines [OF that, of len] by (auto simp: sim2_def)
  show "sim2 goodReader stream (consumePinned len r) (streamConsume len (stream r))" if "goodReader r" for r len
    using consumePinned_refines [OF that, of len] by (auto simp: sim2_def)
qed

end
