(* ===== verification/ParserStreams.thy ===== *)
theory ParserStreams
  imports RedisParsers
begin

text \<open>
  What the parser does with the encoding of a request, however the bytes are cut into pieces: it
  delivers the request when its last byte has arrived, reports a slow link before, and takes no byte
  of what follows.  \<open>awaits\<close> is the state of a parser in the middle of a request: the bytes that it
  still needs.
\<close>

abbreviation lf :: char where "lf \<equiv> CHR 0x0A"

lemma append_longer:
  "s @ t = u @ w \<Longrightarrow> length u \<le> length s \<Longrightarrow> \<exists>v. s = u @ v \<and> v @ t = w"
  "s @ t = u @ w \<Longrightarrow> length s < length u \<Longrightarrow> \<exists>v. u = s @ v \<and> v \<noteq> [] \<and> t = v @ w"
  by (auto simp: append_eq_append_conv2)

subsection \<open>Headers\<close>

lemma readLine_stream:
  "readLine streamConsume line s =
     Some (if lf \<in> set s then (1, line @ takeWhile (\<lambda>c. c \<noteq> lf) s @ [lf], tl (dropWhile (\<lambda>c. c \<noteq> lf) s)) else (0, line @ s, []))"
  by (induction s arbitrary: line) (subst readLine.simps, simp add: streamConsume_def)+

lemma digits_plain:
  assumes "0 \<le> n"
  shows "lf \<notin> set (to_string n)" "CHR 0x00 \<notin> set (to_string n)"
proof -
  have d: "\<forall>c \<in> set (to_string n). is_digit c"
    using assms digits_of_digits by (auto simp: to_string_def)
  show "lf \<notin> set (to_string n)" "CHR 0x00 \<notin> set (to_string n)" using d by (auto simp: is_digit_def)
qed

lemma readInteger_header:
  assumes n: "0 \<le> n" "n < 2 ^ 31" and pre: "pre \<noteq> lf" and h: "line @ todo = pre # to_string n @ crlf" "lf \<notin> set line"
  shows "readInteger streamConsume pre line (todo @ rest) = Some (1, n, [], rest)"
    and "todo = s @ t \<Longrightarrow> t \<noteq> [] \<Longrightarrow> readInteger streamConsume pre line s = Some (0, 0, line @ s, []) \<and> lf \<notin> set (line @ s)"
proof -
  let ?h = "pre # to_string n @ [CHR 0x0D]"
  have hd: "pre # to_string n @ crlf = ?h @ [lf]" by (simp add: crlf_def)
  have nolf: "lf \<notin> set ?h" using pre digits_plain(1) [OF n(1)] by simp
  have tn: "todo \<noteq> []" using h hd by (cases todo rule: rev_cases) auto
  then obtain body where body: "todo = body @ [lf]" "line @ body = ?h"
    using h(1) unfolding hd by (cases todo rule: rev_cases) (auto simp: append_eq_append_conv2)
  have bl: "lf \<notin> set body" using body(2) nolf by (metis Un_iff set_append)
  have "readLine streamConsume line (todo @ rest) = Some (1, ?h @ [lf], rest)"
  proof -
    have "takeWhile (\<lambda>c. c \<noteq> lf) (body @ lf # rest) = body" "dropWhile (\<lambda>c. c \<noteq> lf) (body @ lf # rest) = lf # rest"
      using bl by (induction body) auto
    moreover have "line @ body @ [lf] = ?h @ [lf]" using body(2) by (metis append.assoc)
    ultimately show ?thesis using body(1) by (simp add: readLine_stream)
  qed
  moreover have "parseLength (to_string n) = Some n"
  proof -
    have "takeWhile (\<lambda>c. c \<noteq> CHR 0x00) (to_string n) = to_string n"
      unfolding takeWhile_eq_all_conv using digits_plain(2) [OF n(1)] by blast
    moreover have "parseInt64 (to_string n) = Some n" using n by (intro parseInt64_to_string) (simp_all add: LLONG_MIN_def LLONG_MAX_def)
    ultimately show ?thesis unfolding parseLength_def by (simp only:)
  qed
  ultimately show "readInteger streamConsume pre line (todo @ rest) = Some (1, n, [], rest)"
    using n by (simp add: readInteger_def nth_append)
  assume st: "todo = s @ t" "t \<noteq> []"
  have "length s \<le> length body" using arg_cong [OF st(1), of length] st(2) body(1) by (cases t) auto
  then have "s = take (length s) body" using st(1) body(1) by (metis append_eq_conv_conj take_append append.right_neutral diff_is_0_eq take_0)
  then have "lf \<notin> set s" using bl by (metis in_set_takeD)
  then show "readInteger streamConsume pre line s = Some (0, 0, line @ s, []) \<and> lf \<notin> set (line @ s)"
    using h(2) by (simp add: readInteger_def readLine_stream)
qed

subsection \<open>Elements\<close>

definition okElement :: "bool \<Rightarrow> bytes \<Rightarrow> bool" where
  "okElement authenticated x \<longleftrightarrow> x \<noteq> [] \<and> length x + 2 < 2 ^ 31 \<and> (authenticated \<or> length x < 1048576)"

definition awaitsElement :: "redis_parser \<Rightarrow> bytes \<Rightarrow> bytes \<Rightarrow> bytes \<Rightarrow> bool" where
  "awaitsElement p x tail todo \<longleftrightarrow>
     element_size p = -1 \<and> current_integer p @ todo = f_string x @ tail \<and> lf \<notin> set (current_integer p)
     \<or> element_size p = int (length x) \<and> current_integer p = [] \<and> todo = x @ crlf @ tail"

lemma sizeT_id: "0 \<le> n \<Longrightarrow> n < 2 ^ 64 \<Longrightarrow> sizeT n = nat n"
  by (simp add: sizeT_def unat_eq_nat_uint uint_word_of_int_eq take_bit_int_eq_self)

lemma sizeT_element:
  assumes "okElement a x"
  shows "sizeT (int (length x) + 2) = length x + 2"
proof -
  have "sizeT (int (length x) + 2) = nat (int (length x) + 2)" using assms by (intro sizeT_id) (auto simp: okElement_def)
  then show ?thesis by simp
qed

lemma readString_element:
  assumes "okElement a x"
  shows "readString streamConsume (int (length x)) (x @ crlf @ rest) = Some (int (length x) + 2, x, rest)"
    and "length s < length x + 2 \<Longrightarrow> readString streamConsume (int (length x)) s = Some (0, [], s)"
  using assms sizeT_element [OF assms]
  by (simp_all add: readString_def streamConsume_def crlf_def nth_append okElement_def)

lemma header_split:
  assumes "line @ todo = f_string x @ tail" "lf \<notin> set line"
  obtains us where "line @ us = CHR ''$'' # to_string (int (length x)) @ crlf" "todo = us @ x @ crlf @ tail"
proof -
  let ?h = "CHR ''$'' # to_string (int (length x)) @ crlf"
  have e: "line @ todo = ?h @ (x @ crlf @ tail)" using assms(1) by (simp add: f_string_def)
  then obtain us where "line = ?h @ us \<and> us @ todo = x @ crlf @ tail \<or> line @ us = ?h \<and> todo = us @ x @ crlf @ tail"
    unfolding append_eq_append_conv2 by blast
  moreover have "line \<noteq> ?h @ us" using assms(2) by (auto simp: crlf_def)
  ultimately show ?thesis using that by blast
qed

lemma readElement_complete:
  assumes x: "okElement a x" and w: "awaitsElement p x tail (u @ tail)" and z: "\<not> encounteredZeroSize p"
  shows "readElement streamConsume streamConsume a p (u @ rest)
    = Some (int (length x) + 2, x, p\<lparr>element_size := int (length x), current_integer := []\<rparr>, rest)"
proof -
  have big: "\<not> (\<not> a \<and> 1048576 \<le> int (length x))" "length x \<noteq> 0" using x by (auto simp: okElement_def)
  from w consider (header) "element_size p = -1" "current_integer p @ u @ tail = f_string x @ tail" "lf \<notin> set (current_integer p)"
    | (body) "element_size p = int (length x)" "current_integer p = []" "u @ tail = x @ crlf @ tail"
    unfolding awaitsElement_def by blast
  then show ?thesis
  proof cases
    case header
    obtain us where us: "current_integer p @ us = CHR ''$'' # to_string (int (length x)) @ crlf" "u @ tail = us @ x @ crlf @ tail"
      using header_split [OF header(2,3)] by blast
    have "readInteger streamConsume (CHR ''$'') (current_integer p) (u @ rest) = Some (1, int (length x), [], x @ crlf @ rest)"
      using readInteger_header(1) [OF _ _ _ us(1) header(3), of "x @ crlf @ rest"] us(2) x by (simp add: okElement_def)
    then show ?thesis
      using header(1) big z readString_element(1) [OF x, of rest] by (simp add: readElement_def)
  next
    case body
    have "p\<lparr>element_size := int (length x), current_integer := []\<rparr> = p" using body(1,2) by simp
    then show ?thesis
      using body big readString_element(1) [OF x, of rest] by (simp add: readElement_def)
  qed
qed

lemma readElement_incomplete:
  assumes x: "okElement a x" and w: "awaitsElement p x tail (s @ t)" and z: "\<not> encounteredZeroSize p" and t: "length tail < length t"
  obtains es ci s' where "readElement streamConsume streamConsume a p s = Some (0, [], p\<lparr>element_size := es, current_integer := ci\<rparr>, s')"
    "awaitsElement (p\<lparr>element_size := es, current_integer := ci\<rparr>) x tail (s' @ t)"
proof -
  have big: "\<not> (\<not> a \<and> 1048576 \<le> int (length x))" "length x \<noteq> 0" using x by (auto simp: okElement_def)
  from w consider (header) "element_size p = -1" "current_integer p @ s @ t = f_string x @ tail" "lf \<notin> set (current_integer p)"
    | (body) "element_size p = int (length x)" "current_integer p = []" "s @ t = x @ crlf @ tail"
    unfolding awaitsElement_def by blast
  then show ?thesis
  proof cases
    case header
    obtain us where us: "current_integer p @ us = CHR ''$'' # to_string (int (length x)) @ crlf" "s @ t = us @ x @ crlf @ tail"
      using header_split [OF header(2,3)] by blast
    have num: "int (length x) < 2 ^ 31" using x by (simp add: okElement_def)
    note H = readInteger_header [OF _ num _ us(1) header(3)]
    show ?thesis
    proof (cases "length us \<le> length s")
      case True
      then obtain s2 where s2: "s = us @ s2" "s2 @ t = x @ crlf @ tail" using append_longer(1) [OF us(2)] by blast
      have short: "length s2 < length x + 2" using arg_cong [OF s2(2), of length] t by (simp add: crlf_def)
      have "readInteger streamConsume (CHR ''$'') (current_integer p) s = Some (1, int (length x), [], s2)"
        using H(1) s2(1) by simp
      then have "readElement streamConsume streamConsume a p s
          = Some (0, [], p\<lparr>element_size := int (length x), current_integer := []\<rparr>, s2)"
        using header(1) big z readString_element(2) [OF x short] by (simp add: readElement_def)
      then show ?thesis by (rule that) (use s2(2) in \<open>simp add: awaitsElement_def\<close>)
    next
      case False
      then obtain v where v: "us = s @ v" "v \<noteq> []" using append_longer(2) [OF us(2)] by auto
      have "readElement streamConsume streamConsume a p s = Some (0, [], p\<lparr>element_size := -1, current_integer := current_integer p @ s\<rparr>, [])"
        using H(2) [OF _ _ v] header(1) by (simp add: readElement_def)
      then show ?thesis
        by (rule that) (use H(2) [OF _ _ v] header in \<open>simp add: awaitsElement_def\<close>)
    qed
  next
    case body
    have short: "length s < length x + 2" using arg_cong [OF body(3), of length] t by (simp add: crlf_def)
    have "readElement streamConsume streamConsume a p s = Some (0, [], p\<lparr>element_size := int (length x), current_integer := []\<rparr>, s)"
      using body(1,2) big readString_element(2) [OF x short] by (simp add: readElement_def)
    then show ?thesis by (rule that) (use body(3) in \<open>simp add: awaitsElement_def\<close>)
  qed
qed

subsection \<open>Requests\<close>

definition okParts :: "bool \<Rightarrow> bytes list \<Rightarrow> bool" where
  "okParts authenticated xs \<longleftrightarrow> xs \<noteq> [] \<and> length xs < 2 ^ 31 \<and> (authenticated \<or> length xs < 5) \<and> (\<forall>x \<in> set xs. okElement authenticated x)"

definition awaitsLoop :: "redis_parser \<Rightarrow> redis_request \<Rightarrow> bytes list \<Rightarrow> nat \<Rightarrow> bytes \<Rightarrow> bool" where
  "awaitsLoop p req xs i todo \<longleftrightarrow> i < length xs \<and> request_size p = int (length xs) \<and> current_element p = int i
     \<and> \<not> encounteredZeroSize p \<and> contents req = take i xs @ replicate (length xs - i) [] \<and> command req = INVALID
     \<and> awaitsElement p (xs ! i) (concat (map f_string (drop (Suc i) xs))) todo"

text \<open>The state after an element was read: the next one is awaited, or none is left.\<close>

lemma awaitsLoop_next:
  assumes w: "awaitsLoop p req xs i todo"
  defines "p' \<equiv> p\<lparr>current_integer := [], element_size := -1, current_element := current_element p + 1\<rparr>"
    and "req' \<equiv> req\<lparr>contents := (contents req)[i := xs ! i]\<rparr>"
  shows "contents req' = take (Suc i) xs @ replicate (length xs - Suc i) []"
    "Suc i < length xs \<Longrightarrow> awaitsLoop p' req' xs (Suc i) (concat (map f_string (drop (Suc i) xs)))"
proof -
  have i: "i < length xs" "contents req = take i xs @ replicate (length xs - i) []" using w by (simp_all add: awaitsLoop_def)
  have r: "replicate (length xs - i) ([] :: bytes) = [] # replicate (length xs - Suc i) []"
    using i(1) by (metis Suc_diff_Suc replicate_Suc)
  show c: "contents req' = take (Suc i) xs @ replicate (length xs - Suc i) []"
    using i by (simp add: req'_def r list_update_append take_Suc_conv_app_nth)
  have "awaitsElement p' (xs ! Suc i) (concat (map f_string (drop (Suc (Suc i)) xs))) (concat (map f_string (drop (Suc i) xs)))"
    if "Suc i < length xs"
    using that by (simp add: awaitsElement_def p'_def Cons_nth_drop_Suc [symmetric])
  then show "Suc i < length xs \<Longrightarrow> awaitsLoop p' req' xs (Suc i) (concat (map f_string (drop (Suc i) xs)))"
    using w c by (simp add: awaitsLoop_def p'_def req'_def)
qed

lemma fetchLoop_complete:
  assumes "awaitsLoop p req xs i todo" "okParts a xs"
  shows "\<exists>p'. fetchLoop streamConsume streamConsume a (length xs - i) p req (todo @ rest)
      = Some (1, p', \<lparr>contents = xs, command = INVALID\<rparr>, rest)
    \<and> \<not> encounteredZeroSize p' \<and> current_integer p' = []"
  using assms
proof (induction "length xs - Suc i" arbitrary: i p req todo)
  case (0 i)
  have i: "i < length xs" "length xs - i = Suc 0" "drop (Suc i) xs = []" using 0 by (auto simp: awaitsLoop_def)
  have x: "okElement a (xs ! i)" using 0 i by (simp add: okParts_def)
  have w: "awaitsElement p (xs ! i) [] (todo @ [])" "\<not> encounteredZeroSize p" "current_element p = int i" "command req = INVALID"
    using 0 i by (simp_all add: awaitsLoop_def)
  have c: "(contents req)[i := xs ! i] = xs" using awaitsLoop_next(1) [OF "0.prems"(1)] i by simp
  show ?case
    using readElement_complete [OF x w(1,2), of rest] w i(2) c by simp
next
  case (Suc k i)
  have i: "Suc i < length xs" "length xs - i = Suc (length xs - Suc i)" using Suc.hyps(2) by auto
  let ?tail = "concat (map f_string (drop (Suc i) xs))"
  have x: "okElement a (xs ! i)" using Suc.prems(2) i by (simp add: okParts_def)
  have w: "awaitsElement p (xs ! i) ?tail todo" "\<not> encounteredZeroSize p" "current_element p = int i"
    using Suc.prems(1) by (simp_all add: awaitsLoop_def)
  obtain u where u: "todo = u @ ?tail"
    using w(1) header_split [of "current_integer p" todo "xs ! i" ?tail] unfolding awaitsElement_def by (metis append.assoc)
  note N = awaitsLoop_next(2) [OF Suc.prems(1) i(1)]
  have k: "k = length xs - Suc (Suc i)" using Suc.hyps(2) by simp
  from Suc.hyps(1) [OF k N Suc.prems(2)] show ?case
    using readElement_complete [OF x w(1) [unfolded u] w(2), of "?tail @ rest"] w(3) i(2) u by simp
qed

lemma fetchLoop_incomplete:
  assumes "awaitsLoop p req xs i (s @ t)" "okParts a xs" "t \<noteq> []"
  shows "\<exists>p' req' s' i'. fetchLoop streamConsume streamConsume a (length xs - i) p req s = Some (0, p', req', s')
    \<and> awaitsLoop p' req' xs i' (s' @ t)"
  using assms
proof (induction "length xs - Suc i" arbitrary: i p req s)
  case (0 i)
  have i: "i < length xs" "length xs - i = Suc 0" "drop (Suc i) xs = []" using 0 by (auto simp: awaitsLoop_def)
  have x: "okElement a (xs ! i)" using 0 i by (simp add: okParts_def)
  have w: "awaitsElement p (xs ! i) [] (s @ t)" "\<not> encounteredZeroSize p" using 0 i by (simp_all add: awaitsLoop_def)
  obtain es ci s' where e: "readElement streamConsume streamConsume a p s = Some (0, [], p\<lparr>element_size := es, current_integer := ci\<rparr>, s')"
      "awaitsElement (p\<lparr>element_size := es, current_integer := ci\<rparr>) (xs ! i) [] (s' @ t)"
    using readElement_incomplete [OF x w] "0.prems"(3) by (metis length_greater_0_conv list.size(3))
  then have "awaitsLoop (p\<lparr>element_size := es, current_integer := ci\<rparr>) req xs i (s' @ t)"
    using "0.prems"(1) i by (simp add: awaitsLoop_def)
  then show ?case using e(1) i(2) by auto
next
  case (Suc k i)
  have i: "Suc i < length xs" "length xs - i = Suc (length xs - Suc i)" using Suc.hyps(2) by auto
  let ?tail = "concat (map f_string (drop (Suc i) xs))"
  have x: "okElement a (xs ! i)" using Suc.prems(2) i by (simp add: okParts_def)
  have w: "awaitsElement p (xs ! i) ?tail (s @ t)" "\<not> encounteredZeroSize p" "current_element p = int i"
    using Suc.prems(1) by (simp_all add: awaitsLoop_def)
  show ?case
  proof (cases "length ?tail < length t")
    case True
    obtain es ci s' where e: "readElement streamConsume streamConsume a p s = Some (0, [], p\<lparr>element_size := es, current_integer := ci\<rparr>, s')"
        "awaitsElement (p\<lparr>element_size := es, current_integer := ci\<rparr>) (xs ! i) ?tail (s' @ t)"
      using readElement_incomplete [OF x w(1,2) True] by metis
    then have "awaitsLoop (p\<lparr>element_size := es, current_integer := ci\<rparr>) req xs i (s' @ t)"
      using Suc.prems(1) by (simp add: awaitsLoop_def)
    then show ?thesis using e(1) i(2) by auto
  next
    case False
    obtain u where u: "s @ t = u @ ?tail"
      using w(1) header_split [of "current_integer p" "s @ t" "xs ! i" ?tail] unfolding awaitsElement_def by (metis append.assoc)
    have "length u \<le> length s" using arg_cong [OF u, of length] False by simp
    then obtain v where v: "s = u @ v" "v @ t = ?tail" using append_longer(1) [OF u] by blast
    note N = awaitsLoop_next(2) [OF Suc.prems(1) i(1), folded v(2)]
    have k: "k = length xs - Suc (Suc i)" using Suc.hyps(2) by simp
    from Suc.hyps(1) [OF k N Suc.prems(2,3)] show ?thesis
      using readElement_complete [OF x w(1) [unfolded u] w(2), of v] w(3) i(2) v(1) by simp
  qed
qed

definition idleParser :: "redis_parser \<Rightarrow> bool" where
  "idleParser p \<longleftrightarrow> request_size p = 0 \<and> \<not> encounteredZeroSize p \<and> current_integer p = []"

definition awaits :: "bytes list \<Rightarrow> redis_parser \<Rightarrow> redis_request \<Rightarrow> bytes \<Rightarrow> bool" where
  "awaits xs p req todo \<longleftrightarrow>
     request_size p = 0 \<and> \<not> encounteredZeroSize p \<and> current_integer p @ todo = f_vector xs \<and> lf \<notin> set (current_integer p)
     \<or> (\<exists>i. awaitsLoop p req xs i todo)"

lemma awaits_idle: "idleParser p \<Longrightarrow> awaits xs p req (f_vector xs)"
  by (simp add: awaits_def idleParser_def)

lemma newParser_idle: "idleParser newParser"
  by (simp add: idleParser_def newParser_def)

abbreviation fetchStream :: "bool \<Rightarrow> redis_parser \<Rightarrow> redis_request \<Rightarrow> bytes \<Rightarrow> (int \<times> redis_parser \<times> redis_request \<times> bytes) option" where
  "fetchStream \<equiv> fetchRequest streamConsume streamConsume"

lemma vector_split:
  assumes "line @ todo = f_vector xs" "lf \<notin> set line"
  obtains us where "line @ us = CHR ''*'' # to_string (int (length xs)) @ crlf" "todo = us @ concat (map f_string xs)"
proof -
  let ?h = "CHR ''*'' # to_string (int (length xs)) @ crlf"
  have e: "line @ todo = ?h @ concat (map f_string xs)" using assms(1) by (simp add: f_vector_def f_array_def)
  then obtain us where "line = ?h @ us \<and> us @ todo = concat (map f_string xs) \<or> line @ us = ?h \<and> todo = us @ concat (map f_string xs)"
    unfolding append_eq_append_conv2 by blast
  moreover have "line \<noteq> ?h @ us" using assms(2) by (auto simp: crlf_def)
  ultimately show ?thesis using that by blast
qed

text \<open>The state after the header of a request.\<close>

lemma awaitsLoop_start:
  assumes "okParts a xs" "\<not> encounteredZeroSize p"
  shows "awaitsLoop (p\<lparr>current_integer := [], request_size := int (length xs), element_size := -1, current_element := 0\<rparr>)
    (emptyRequest\<lparr>contents := replicate (length xs) []\<rparr>) xs 0 (concat (map f_string xs))"
  using assms by (cases xs) (simp_all add: awaitsLoop_def awaitsElement_def emptyRequest_def okParts_def)

lemma fetch_loop_done:
  assumes w: "awaitsLoop p req xs i todo" and ok: "okParts a xs"
  shows "\<exists>p'. fetchStream a p req (todo @ rest) = Some (1, p', mkRequest xs, rest) \<and> idleParser p'"
proof -
  have n: "request_size p \<noteq> 0" "nat (request_size p - current_element p) = length xs - i"
    using w by (auto simp: awaitsLoop_def nat_diff_distrib)
  obtain p' where "fetchLoop streamConsume streamConsume a (length xs - i) p req (todo @ rest) = Some (1, p', \<lparr>contents = xs, command = INVALID\<rparr>, rest)"
      "\<not> encounteredZeroSize p'" "current_integer p' = []"
    using fetchLoop_complete [OF w ok, of rest] by blast
  then show ?thesis using n by (simp add: fetchRequest_def mkRequest_def idleParser_def)
qed

lemma fetch_loop_wait:
  assumes w: "awaitsLoop p req xs i (s @ t)" and ok: "okParts a xs" and t: "t \<noteq> []"
  shows "\<exists>p' req' s'. fetchStream a p req s = Some (0, p', req', s') \<and> awaits xs p' req' (s' @ t)"
proof -
  have n: "request_size p \<noteq> 0" "nat (request_size p - current_element p) = length xs - i"
    using w by (auto simp: awaitsLoop_def nat_diff_distrib)
  from fetchLoop_incomplete [OF w ok t] show ?thesis using n by (auto simp: fetchRequest_def awaits_def)
qed

lemma fetch_header:
  assumes ok: "okParts a xs" and p: "request_size p = 0" "\<not> encounteredZeroSize p"
    and i: "readInteger streamConsume (CHR ''*'') (current_integer p) s = Some (1, int (length xs), [], s')"
  shows "fetchStream a p req s =
    fetchStream a (p\<lparr>current_integer := [], request_size := int (length xs), element_size := -1, current_element := 0\<rparr>)
      (emptyRequest\<lparr>contents := replicate (length xs) []\<rparr>) s'"
  using assms by (auto simp: fetchRequest_def okParts_def)

lemma fetch_done:
  assumes w: "awaits xs p req todo" and ok: "okParts a xs"
  shows "\<exists>p'. fetchStream a p req (todo @ rest) = Some (1, p', mkRequest xs, rest) \<and> idleParser p'"
  using w unfolding awaits_def
proof (elim disjE exE conjE)
  assume p: "request_size p = 0" "\<not> encounteredZeroSize p" and h: "current_integer p @ todo = f_vector xs" "lf \<notin> set (current_integer p)"
  obtain us where us: "current_integer p @ us = CHR ''*'' # to_string (int (length xs)) @ crlf" "todo = us @ concat (map f_string xs)"
    using vector_split [OF h] by blast
  have "readInteger streamConsume (CHR ''*'') (current_integer p) (us @ concat (map f_string xs) @ rest)
      = Some (1, int (length xs), [], concat (map f_string xs) @ rest)"
    using readInteger_header(1) [OF _ _ _ us(1) h(2)] ok by (simp add: okParts_def)
  from fetch_header [OF ok p this] show ?thesis
    using fetch_loop_done [OF awaitsLoop_start [OF ok p(2)] ok, of rest] us(2) by simp
next
  fix i assume "awaitsLoop p req xs i todo"
  then show ?thesis by (rule fetch_loop_done [OF _ ok])
qed

lemma fetch_wait:
  assumes w: "awaits xs p req (s @ t)" and ok: "okParts a xs" and t: "t \<noteq> []"
  shows "\<exists>p' req' s'. fetchStream a p req s = Some (0, p', req', s') \<and> awaits xs p' req' (s' @ t)"
  using w unfolding awaits_def [of _ p]
proof (elim disjE exE conjE)
  assume p: "request_size p = 0" "\<not> encounteredZeroSize p" and h: "current_integer p @ s @ t = f_vector xs" "lf \<notin> set (current_integer p)"
  obtain us where us: "current_integer p @ us = CHR ''*'' # to_string (int (length xs)) @ crlf" "s @ t = us @ concat (map f_string xs)"
    using vector_split [OF h] by blast
  have len: "int (length xs) < 2 ^ 31" using ok by (simp add: okParts_def)
  note H = readInteger_header [OF _ len _ us(1) h(2)]
  show ?thesis
  proof (cases "length us \<le> length s")
    case True
    then obtain v where v: "s = us @ v" "v @ t = concat (map f_string xs)" using append_longer(1) [OF us(2)] by blast
    have "readInteger streamConsume (CHR ''*'') (current_integer p) s = Some (1, int (length xs), [], v)" using H(1) v(1) by simp
    from fetch_header [OF ok p this] show ?thesis
      using fetch_loop_wait [OF awaitsLoop_start [OF ok p(2), folded v(2)] ok t] by simp
  next
    case False
    then obtain v where v: "us = s @ v" "v \<noteq> []" using append_longer(2) [OF us(2)] by auto
    have "readInteger streamConsume (CHR ''*'') (current_integer p) s = Some (0, 0, current_integer p @ s, [])" "lf \<notin> set (current_integer p @ s)"
      using H(2) [OF _ _ v] by simp_all
    then show ?thesis using p h by (auto simp: fetchRequest_def awaits_def)
  qed
next
  fix i assume "awaitsLoop p req xs i (s @ t)"
  then show ?thesis by (rule fetch_loop_wait [OF _ ok t])
qed

subsection \<open>Bytes in any pieces\<close>

text \<open>
  Calls of \<open>fetch\<close> over the buffered reader, one after each piece that arrives on the link, until it does
  not report a slow link.
\<close>

definition arrive :: "bytes \<Rightarrow> buffered_reader \<Rightarrow> buffered_reader" where
  "arrive c r = r\<lparr>br_link := (br_link r)\<lparr>link_data := link_data (br_link r) @ c\<rparr>\<rparr>"

fun deliver ::
  "bool \<Rightarrow> redis_parser \<Rightarrow> redis_request \<Rightarrow> buffered_reader \<Rightarrow> bytes list
    \<Rightarrow> (int \<times> redis_parser \<times> redis_request \<times> buffered_reader \<times> bytes list) option" where
  "deliver a p req r [] = Some (0, p, req, r, [])"
| "deliver a p req r (c # cs) =
     (case fetchRequest consumeString consumePinned a p req (arrive c r) of None \<Rightarrow> None
      | Some (status, p, req, r) \<Rightarrow> if status = 0 then deliver a p req r cs else Some (status, p, req, r, cs))"

lemma arrive_good:
  "goodReader r \<Longrightarrow> length (stream r @ c) < 2 ^ 31 \<Longrightarrow> goodReader (arrive c r)" "stream (arrive c r) = stream r @ c"
  by (simp_all add: goodReader_def readerInv_def arrive_def stream_def unread_def)

lemma fetch_buffered:
  assumes "goodReader r" "fetchStream a p req (stream r) = Some (st, p', req', s)"
  obtains r' where "fetchRequest consumeString consumePinned a p req r = Some (st, p', req', r')" "goodReader r'" "stream r' = s"
  using buffered.fetchRequest_queue [OF assms(1), of a p req] assms(2)
  by (auto simp: sim3_def split: option.splits)

lemma awaits_length:
  assumes "awaits xs p req todo"
  shows "length todo \<le> length (f_vector xs)"
proof -
  have "length todo \<le> length (concat (map f_string xs))" if "awaitsLoop p req xs i todo" for i
  proof -
    have i: "i < length xs" and w: "awaitsElement p (xs ! i) (concat (map f_string (drop (Suc i) xs))) todo"
      using that by (simp_all add: awaitsLoop_def)
    from w have "length todo \<le> length (f_string (xs ! i) @ concat (map f_string (drop (Suc i) xs)))"
      by (auto simp: awaitsElement_def f_string_def dest: arg_cong [of _ _ length])
    also have "\<dots> = length (concat (map f_string (drop i xs)))" using i by (simp add: Cons_nth_drop_Suc [symmetric])
    also have "\<dots> \<le> length (concat (map f_string (take i xs)) @ concat (map f_string (drop i xs)))" by simp
    also have "\<dots> = length (concat (map f_string xs))" by (simp flip: concat_append map_append)
    finally show ?thesis .
  qed
  moreover have "length (concat (map f_string xs)) \<le> length (f_vector xs)" by (simp add: f_vector_def f_array_def)
  moreover have "length todo \<le> length (f_vector xs)" if "current_integer p @ todo = f_vector xs"
    using arg_cong [OF that, of length] by simp
  ultimately show ?thesis using assms order_trans unfolding awaits_def by blast
qed

lemma deliver_request:
  assumes "awaits xs p req todo" "okParts a xs" "goodReader r" "stream r @ concat cs = todo @ rest" "length (stream r) < length todo"
    "length (f_vector xs) + length rest < 2 ^ 31"
  shows "\<exists>p' r' cs'. deliver a p req r cs = Some (1, p', mkRequest xs, r', cs') \<and> idleParser p' \<and> goodReader r'
    \<and> stream r' @ concat cs' = rest"
  using assms
proof (induction cs arbitrary: p req r todo)
  case (Cons c cs)
  have e: "(stream r @ c) @ concat cs = todo @ rest" using Cons.prems(4) by simp
  have "length (stream r @ c) \<le> length (todo @ rest)" unfolding e [symmetric] by simp
  then have "length (stream r @ c) < 2 ^ 31" using awaits_length [OF Cons.prems(1)] Cons.prems(6) by simp
  then have g: "goodReader (arrive c r)" "stream (arrive c r) = stream r @ c" using arrive_good Cons.prems(3) by auto
  show ?case
  proof (cases "length todo \<le> length (stream r @ c)")
    case True
    then obtain v where v: "stream r @ c = todo @ v" "v @ concat cs = rest" using append_longer(1) [OF e] by blast
    obtain p' where f: "fetchStream a p req (stream (arrive c r)) = Some (1, p', mkRequest xs, v)" "idleParser p'"
      using fetch_done [OF Cons.prems(1,2), of v] v(1) g(2) by auto
    obtain r' where "fetchRequest consumeString consumePinned a p req (arrive c r) = Some (1, p', mkRequest xs, r')" "goodReader r'" "stream r' = v"
      by (rule fetch_buffered [OF g(1) f(1)])
    then show ?thesis using f(2) v(2) by auto
  next
    case False
    then obtain t where t: "todo = (stream r @ c) @ t" "t \<noteq> []" "concat cs = t @ rest" using append_longer(2) [OF e] by auto
    obtain p' req' s' where f: "fetchStream a p req (stream (arrive c r)) = Some (0, p', req', s')" "awaits xs p' req' (s' @ t)"
      using fetch_wait [OF Cons.prems(1) [unfolded t(1)] Cons.prems(2) t(2)] g(2) by auto
    obtain r' where r': "fetchRequest consumeString consumePinned a p req (arrive c r) = Some (0, p', req', r')" "goodReader r'" "stream r' = s'"
      by (rule fetch_buffered [OF g(1) f(1)])
    from Cons.IH [of p' req' "s' @ t" r'] f(2) r' t Cons.prems(2,6) show ?thesis by simp
  qed
qed simp

end
