(* ===== verification/Connections.thy ===== *)
theory Connections
  imports DispatchTx
begin

text \<open>
  Connections and their pending queues (\<^verbatim>\<open>src/src/Connection.cc\<close>, \<^verbatim>\<open>src/src/Connection.hh\<close>,
  \<^verbatim>\<open>src/src/pubsub/SubscriptionTracker.cc\<close>).

  A write waits in the queue of its connection until its journal entry is committed; what comes
  after it on the same connection, reads and ready replies, waits behind it, so that replies leave
  in the order of the requests.  The chunks handed to the writer of the connection are \<open>pq_sent\<close>;
  a queue whose connection is gone sends nothing and still executes its writes.
\<close>

subsection \<open>Subscriptions of one connection\<close>

record subscription_tracker =
  channels :: "bytes set"
  patterns :: "bytes set"

definition addChannel :: "bytes \<Rightarrow> subscription_tracker \<Rightarrow> bool \<times> subscription_tracker" where
  "addChannel item t = (item \<notin> channels t, t\<lparr>channels := insert item (channels t)\<rparr>)"

definition addPattern :: "bytes \<Rightarrow> subscription_tracker \<Rightarrow> bool \<times> subscription_tracker" where
  "addPattern item t = (item \<notin> patterns t, t\<lparr>patterns := insert item (patterns t)\<rparr>)"

definition removeChannel :: "bytes \<Rightarrow> subscription_tracker \<Rightarrow> bool \<times> subscription_tracker" where
  "removeChannel item t = (item \<in> channels t, t\<lparr>channels := channels t - {item}\<rparr>)"

definition removePattern :: "bytes \<Rightarrow> subscription_tracker \<Rightarrow> bool \<times> subscription_tracker" where
  "removePattern item t = (item \<in> patterns t, t\<lparr>patterns := patterns t - {item}\<rparr>)"

definition hasChannel :: "bytes \<Rightarrow> subscription_tracker \<Rightarrow> bool" where
  "hasChannel item t \<longleftrightarrow> item \<in> channels t"

definition hasPattern :: "bytes \<Rightarrow> subscription_tracker \<Rightarrow> bool" where
  "hasPattern item t \<longleftrightarrow> item \<in> patterns t"

subsection \<open>The state machine and the publisher as the dispatcher changes them\<close>

record 'db exec_state =
  ex_sm :: "'db state_machine"
  ex_published :: "(bytes \<rightharpoonup> vhash_revision) list"

definition runTx ::
  "('db, 'wb, 'f) dispatch_env \<Rightarrow> ('db, 'wb) rocksdb \<Rightarrow> 'db exec_state \<Rightarrow> transaction \<Rightarrow> int
    \<Rightarrow> (bytes \<times> 'db exec_state) option" where
  "runTx env api ex tx commit = do {
     (r, sm, tracker) \<leftarrow> dispatchTxCommit env api (ex_sm ex) tx commit;
     Some (r, \<lparr>ex_sm = sm, ex_published = ex_published ex @ (if tracker = Map.empty then [] else [tracker])\<rparr>) }"

subsection \<open>Pending queues\<close>

record pending_request =
  pr_tx :: transaction
  rawResp :: bytes
  pr_index :: int

record pending_queue =
  pq_attached :: bool
  pq_lastIndex :: int
  pending :: "pending_request list"
  subscriptionTracker :: subscription_tracker
  supportsPushTypes :: bool
  pq_sent :: "bytes list"

definition newQueue :: pending_queue where
  "newQueue = \<lparr>pq_attached = True, pq_lastIndex = -1, pending = [],
     subscriptionTracker = \<lparr>channels = {}, patterns = {}\<rparr>, supportsPushTypes = False, pq_sent = []\<rparr>"

definition detachConnection :: "pending_queue \<Rightarrow> pending_queue" where
  "detachConnection q = q\<lparr>pq_attached := False\<rparr>"

definition pq_send :: "bytes \<Rightarrow> pending_queue \<Rightarrow> pending_queue" where
  "pq_send x q = (if pq_attached q then q\<lparr>pq_sent := pq_sent q @ [x]\<rparr> else q)"

fun flushLoop :: "bytes \<Rightarrow> pending_queue \<Rightarrow> pending_request list \<Rightarrow> pending_queue option" where
  "flushLoop msg q [] = Some (q\<lparr>pending := []\<rparr>)"
| "flushLoop msg q (req # rest) =
     (if \<not> pq_attached q then flushLoop msg q rest
      else if rawResp req \<noteq> [] then flushLoop msg (pq_send (rawResp req) q) rest
      else do {
        m \<leftarrow> f_multiply msg (nat (expectedResponses (pr_tx req)));
        flushLoop msg (pq_send m q) rest })"

definition flushPending :: "bytes \<Rightarrow> pending_queue \<Rightarrow> pending_queue option" where
  "flushPending msg q = do { q \<leftarrow> flushLoop msg q (pending q); Some (q\<lparr>pq_lastIndex := -1\<rparr>) }"

definition appendResponse :: "bytes \<Rightarrow> pending_queue \<Rightarrow> pending_queue option" where
  "appendResponse raw q =
     (if \<not> pq_attached q then None
      else if pending q = [] then Some (pq_send raw q)
      else Some (q\<lparr>pending := pending q @ [\<lparr>pr_tx = emptyTransaction, rawResp = raw, pr_index = -1\<rparr>]\<rparr>))"

definition appendIfAttached :: "bytes \<Rightarrow> pending_queue \<Rightarrow> (bool \<times> pending_queue) option" where
  "appendIfAttached raw q =
     (if \<not> pq_attached q then Some (False, q) else do { q \<leftarrow> appendResponse raw q; Some (True, q) })"

definition pq_subscribe :: "bytes \<Rightarrow> pending_queue \<Rightarrow> pending_queue" where
  "pq_subscribe item q = q\<lparr>subscriptionTracker := snd (addChannel item (subscriptionTracker q))\<rparr>"

definition pq_psubscribe :: "bytes \<Rightarrow> pending_queue \<Rightarrow> pending_queue" where
  "pq_psubscribe item q = q\<lparr>subscriptionTracker := snd (addPattern item (subscriptionTracker q))\<rparr>"

definition pq_unsubscribe :: "bytes \<Rightarrow> pending_queue \<Rightarrow> pending_queue" where
  "pq_unsubscribe item q = q\<lparr>subscriptionTracker := snd (removeChannel item (subscriptionTracker q))\<rparr>"

definition pq_punsubscribe :: "bytes \<Rightarrow> pending_queue \<Rightarrow> pending_queue" where
  "pq_punsubscribe item q = q\<lparr>subscriptionTracker := snd (removePattern item (subscriptionTracker q))\<rparr>"

definition activatePushTypes :: "pending_queue \<Rightarrow> pending_queue" where
  "activatePushTypes q = q\<lparr>supportsPushTypes := True\<rparr>"

definition addMessageIfAttached :: "bytes \<Rightarrow> bytes \<Rightarrow> pending_queue \<Rightarrow> (bool \<times> pending_queue) option" where
  "addMessageIfAttached channel payload q =
     (if \<not> pq_attached q then Some (False, q)
      else if \<not> hasChannel channel (subscriptionTracker q) then Some (True, q)
      else do { q \<leftarrow> appendResponse (f_message (supportsPushTypes q) channel payload) q; Some (True, q) })"

definition addPatternMessageIfAttached ::
  "bytes \<Rightarrow> bytes \<Rightarrow> bytes \<Rightarrow> pending_queue \<Rightarrow> (bool \<times> pending_queue) option" where
  "addPatternMessageIfAttached pattern channel payload q =
     (if \<not> pq_attached q then Some (False, q)
      else if \<not> hasPattern pattern (subscriptionTracker q) then Some (True, q)
      else do { q \<leftarrow> appendResponse (f_pmessage (supportsPushTypes q) pattern channel payload) q; Some (True, q) })"

definition addPendingTransaction ::
  "('db, 'wb, 'f) dispatch_env \<Rightarrow> ('db, 'wb) rocksdb \<Rightarrow> transaction \<Rightarrow> int \<Rightarrow> 'db exec_state \<Rightarrow> pending_queue
    \<Rightarrow> ('db exec_state \<times> pending_queue) option" where
  "addPendingTransaction env api tx index ex q =
     (if \<not> pq_attached q then None
      else if pending q = [] \<and> index < 0 then do {
        assert_that (\<not> hasWrites tx);
        (r, ex) \<leftarrow> runTx env api ex tx 0;
        Some (ex, pq_send r q) }
      else do {
        assert_that (\<not> (0 < index \<and> index \<le> pq_lastIndex q));
        let q = (if 0 < index then q\<lparr>pq_lastIndex := index\<rparr> else q);
        Some (ex, q\<lparr>pending := pending q @ [\<lparr>pr_tx = tx, rawResp = [], pr_index = index\<rparr>]\<rparr>) })"

fun dispatchPendingLoop ::
  "('db, 'wb, 'f) dispatch_env \<Rightarrow> ('db, 'wb) rocksdb \<Rightarrow> int \<Rightarrow> bool \<Rightarrow> 'db exec_state \<Rightarrow> pending_queue
    \<Rightarrow> pending_request list \<Rightarrow> (int \<times> 'db exec_state \<times> pending_queue) option" where
  "dispatchPendingLoop env api commitIdx hit ex q [] = do {
     assert_that hit;
     Some (-1, ex, q\<lparr>pending := []\<rparr>) }"
| "dispatchPendingLoop env api commitIdx hit ex q (req # rest) =
     (if commitIdx < pr_index req then Some (pr_index req, ex, q\<lparr>pending := req # rest\<rparr>)
      else if rawResp req \<noteq> [] then dispatchPendingLoop env api commitIdx hit ex (pq_send (rawResp req) q) rest
      else do {
        assert_that (0 < pr_index req \<longrightarrow> \<not> hit \<and> pr_index req = commitIdx);
        (r, ex) \<leftarrow> runTx env api ex (pr_tx req) (pr_index req);
        dispatchPendingLoop env api commitIdx (hit \<or> 0 < pr_index req) ex (pq_send r q) rest })"

definition dispatchPending ::
  "('db, 'wb, 'f) dispatch_env \<Rightarrow> ('db, 'wb) rocksdb \<Rightarrow> int \<Rightarrow> 'db exec_state \<Rightarrow> pending_queue
    \<Rightarrow> (int \<times> 'db exec_state \<times> pending_queue) option" where
  "dispatchPending env api commitIdx ex q = dispatchPendingLoop env api commitIdx False ex q (pending q)"

subsection \<open>Reading requests off a connection\<close>

text \<open>
  \<open>processRequests\<close> calls the dispatcher and writes replies; \<open>conn_effect\<close> is what it does, in order.
  \<open>fetched\<close> are the requests the parser delivers before it reports a slow link, the end of the link,
  or the shard stops accepting requests (\<open>accepting\<close> is the answer of the tracker before each one).
\<close>

datatype conn_effect = Answer bytes | RunTransaction transaction | RunRequest redis_request

definition ofMulti :: "multi_effect \<Rightarrow> conn_effect list" where
  "ofMulti eff = (case eff of Reply r \<Rightarrow> [Answer r] | Execute tx \<Rightarrow> [RunTransaction tx] | Nothing \<Rightarrow> [])"

definition finalizeEffects :: "multi_handler \<Rightarrow> (conn_effect list \<times> multi_handler) option" where
  "finalizeEffects h = do { (eff, h) \<leftarrow> finalizePhantomTransaction h; Some (ofMulti eff, h) }"

definition processEffects :: "redis_request \<Rightarrow> multi_handler \<Rightarrow> (conn_effect list \<times> multi_handler) option" where
  "processEffects req h = do { (eff, h) \<leftarrow> multiProcess req h; Some (ofMulti eff, h) }"

definition phantomBatchLimit :: nat where "phantomBatchLimit = 100"

text \<open>One turn of the loop, for a request that arrived.\<close>

definition connStep :: "redis_request \<Rightarrow> multi_handler \<Rightarrow> (conn_effect list \<times> multi_handler) option" where
  "connStep current h = do {
     let req = internalFilter current;
     if command req = Control MULTI then do {
       (es, h) \<leftarrow> finalizeEffects h;
       (es', h) \<leftarrow> processEffects req h;
       Some (es @ es', h) }
     else if command req = Control EXEC \<and> \<not> activated h then Some ([Answer (f_err ''EXEC without MULTI'')], h)
     else if command req = Write TX_READWRITE then do {
       (es, h) \<leftarrow> finalizeEffects h;
       Some (es @ [RunRequest req], h) }
     else do {
       (es, h) \<leftarrow> (if phantomBatchLimit \<le> length (requests (mh_transaction h)) then finalizeEffects h else Some ([], h));
       (es, h, finished) \<leftarrow>
         (if activated h then
            (if tx_phantom (mh_transaction h) \<and> commandType req \<noteq> WRITE
             then do { (es', h) \<leftarrow> finalizeEffects h; Some (es @ es', h, False) }
             else do { (es', h) \<leftarrow> processEffects req h; Some (es @ es', h, True) })
          else Some (es, h, False));
       if finished then Some (es, h)
       else if command req = Control DISCARD then do {
         (es', h) \<leftarrow> finalizeEffects h;
         Some (es @ es' @ [Answer (f_err ''DISCARD without MULTI'')], h) }
       else if commandType req = WRITE then do {
         h \<leftarrow> activatePhantom h;
         (es', h) \<leftarrow> processEffects req h;
         Some (es @ es', h) }
       else do {
         (es', h) \<leftarrow> finalizeEffects h;
         Some (es @ es' @ [RunRequest req], h) } } }"

datatype fetch_result = Fetched redis_request | SlowLink | LinkError int

text \<open>
  The whole loop; the integer is the status it returns.  Each turn comes with the answer of the
  tracker and with whether the connection is in monitor mode, where arriving data is dropped.
\<close>

fun processRequests ::
  "(bool \<times> bool \<times> fetch_result) list \<Rightarrow> multi_handler \<Rightarrow> (int \<times> conn_effect list \<times> multi_handler) option" where
  "processRequests [] h = do { (es, h) \<leftarrow> finalizeEffects h; Some (1, es, h) }"
| "processRequests ((accepting, monitor, fetched) # rest) h =
     (if \<not> accepting then do { (es, h) \<leftarrow> finalizeEffects h; Some (1, es, h) }
      else if monitor then
        (case fetched of SlowLink \<Rightarrow> Some (1, [], h) | LinkError e \<Rightarrow> Some (e, [], h) | Fetched _ \<Rightarrow> None)
      else (case fetched of
          LinkError e \<Rightarrow> Some (e, [], h)
        | SlowLink \<Rightarrow> do { (es, h) \<leftarrow> finalizeEffects h; Some (1, es, h) }
        | Fetched req \<Rightarrow> do {
            (es, h) \<leftarrow> connStep req h;
            (status, es', h) \<leftarrow> processRequests rest h;
            Some (status, es @ es', h) }))"

subsection \<open>Pipelines\<close>

text \<open>Reads and writes as clients send them, outside MULTI blocks.\<close>

definition pipelined :: "redis_request \<Rightarrow> bool" where
  "pipelined r \<longleftrightarrow> readOrWrite r
     \<and> command r \<notin> {Write TX_READWRITE, Write TIMESTAMPED_LEASE_RELEASE, Write TIMESTAMPED_LEASE_ACQUIRE, Write TIMESTAMPED_LEASE_GET}"

text \<open>The handler between two requests of such a pipeline: idle, or with a batch of writes.\<close>

definition phantomInv :: "multi_handler \<Rightarrow> bool" where
  "phantomInv h \<longleftrightarrow> h = newMultiHandler
     \<or> (activated h \<and> tx_phantom (mh_transaction h) \<and> hasWrites (mh_transaction h) \<and> requests (mh_transaction h) \<noteq> []
        \<and> length (requests (mh_transaction h)) \<le> phantomBatchLimit
        \<and> (\<forall>r \<in> set (requests (mh_transaction h)). commandType r = WRITE))"

definition flushed :: "multi_handler \<Rightarrow> conn_effect list" where
  "flushed h = (if activated h then [RunTransaction (mh_transaction h)] else [])"

lemma command_exec [simp]: "command execRequest = Control EXEC"
  by (simp add: execRequest_def command_names)

lemma phantomInv_new [simp]: "phantomInv newMultiHandler"
  by (simp add: phantomInv_def)

lemma newMultiHandler_fields [simp]:
  "activated newMultiHandler = False" "mh_transaction newMultiHandler = emptyTransaction" "flushed newMultiHandler = []"
  "requests emptyTransaction = []" "tx_phantom emptyTransaction = False" "hasWrites emptyTransaction = False"
  by (simp_all add: newMultiHandler_def flushed_def emptyTransaction_def)

lemma finalizeEffects_phantom:
  assumes "phantomInv h"
  shows "finalizeEffects h = Some (flushed h, newMultiHandler)"
  using assms
  by (auto simp: phantomInv_def finalizeEffects_def finalizePhantomTransaction_def multiProcess_def ofMulti_def flushed_def
      newMultiHandler_def)

lemma pipelined_facts:
  assumes "pipelined r"
  shows "internalFilter r = r" "command r \<noteq> Control x" "command r \<noteq> Write TX_READWRITE"
    "commandType r \<noteq> WRITE \<longleftrightarrow> commandType r = READ" "readOrWrite r"
  using assms by (auto simp: pipelined_def internalFilter_def readOrWrite_def)

lemma connStep_read:
  assumes inv: "phantomInv h" and r: "pipelined r" "commandType r = READ"
  shows "connStep r h = Some (flushed h @ [RunRequest r], newMultiHandler)"
  using inv
  by (auto simp: connStep_def pipelined_facts [OF r(1)] r(2) finalizeEffects_phantom [OF inv] finalizeEffects_phantom
      phantomInv_def [of h] flushed_def [of h])

lemma processEffects_phantom:
  assumes "activated h" "tx_phantom (mh_transaction h)" "pipelined r" "commandType r = WRITE"
  shows "processEffects r h = Some ([], h\<lparr>mh_transaction := (mh_transaction h)\<lparr>requests := requests (mh_transaction h) @ [r], hasWrites := True\<rparr>\<rparr>)"
  using assms pipelined_facts [OF assms(3)]
  by (simp add: processEffects_def multiProcess_def tx_push_back_def checkNthCommandForWrites_def ofMulti_def)

definition openPhantom :: "redis_request \<Rightarrow> multi_handler" where
  "openPhantom r = \<lparr>mh_transaction = \<lparr>hasWrites = True, tx_phantom = True, requests = [r]\<rparr>, activated = True\<rparr>"

lemma connStep_write:
  assumes inv: "phantomInv h" and r: "pipelined r" "commandType r = WRITE"
  shows "connStep r h =
    (if activated h \<and> length (requests (mh_transaction h)) < phantomBatchLimit
     then Some ([], h\<lparr>mh_transaction := (mh_transaction h)\<lparr>requests := requests (mh_transaction h) @ [r], hasWrites := True\<rparr>\<rparr>)
     else Some (flushed h, openPhantom r))"
proof -
  have start: "Option.bind (activatePhantom newMultiHandler) (\<lambda>h. Option.bind (processEffects r h) (\<lambda>(es', h). Some (es @ es', h)))
      = Some (es, openPhantom r)" for es
    using processEffects_phantom [of "newMultiHandler\<lparr>activated := True, mh_transaction := emptyTransaction\<lparr>tx_phantom := True\<rparr>\<rparr>" r] r
    by (simp add: activatePhantom_def openPhantom_def newMultiHandler_def emptyTransaction_def)
  show ?thesis
  proof (cases "activated h")
    case True
    then have p: "tx_phantom (mh_transaction h)" using inv by (auto simp: phantomInv_def)
    show ?thesis
    proof (cases "length (requests (mh_transaction h)) < phantomBatchLimit")
      case full: False
      show ?thesis
        using True p full start [of "flushed h"] by (simp add: connStep_def pipelined_facts [OF r(1)] r(2) finalizeEffects_phantom [OF inv])
    next
      case room: True
      show ?thesis
        using True p room by (simp add: connStep_def pipelined_facts [OF r(1)] r(2) processEffects_phantom [OF True p r])
    qed
  next
    case False
    then have h: "h = newMultiHandler" using inv by (auto simp: phantomInv_def)
    show ?thesis
      using start [of "[]"] by (simp add: h connStep_def pipelined_facts [OF r(1)] r(2) phantomBatchLimit_def)
  qed
qed

text \<open>What the dispatcher is asked to run, request by request.\<close>

fun effectRequests :: "conn_effect \<Rightarrow> redis_request list" where
  "effectRequests (Answer r) = []"
| "effectRequests (RunTransaction tx) = requests tx"
| "effectRequests (RunRequest r) = [r]"

definition goodEffect :: "conn_effect \<Rightarrow> bool" where
  "goodEffect e \<longleftrightarrow> (case e of Answer _ \<Rightarrow> False
     | RunTransaction tx \<Rightarrow> tx_phantom tx \<and> hasWrites tx \<and> requests tx \<noteq> [] \<and> length (requests tx) \<le> phantomBatchLimit
         \<and> (\<forall>r \<in> set (requests tx). commandType r = WRITE)
     | RunRequest r \<Rightarrow> commandType r = READ)"

lemma connStep_pipelined:
  assumes inv: "phantomInv h" and r: "pipelined r"
  obtains es h' where "connStep r h = Some (es, h')" "phantomInv h'" "\<forall>e \<in> set es. goodEffect e"
    "concat (map effectRequests es) @ requests (mh_transaction h') = requests (mh_transaction h) @ [r]"
proof -
  have f: "\<forall>e \<in> set (flushed h). goodEffect e" "concat (map effectRequests (flushed h)) = requests (mh_transaction h)"
    using inv by (auto simp: phantomInv_def flushed_def goodEffect_def)
  show ?thesis
  proof (cases "commandType r = WRITE")
    case False
    then have rd: "commandType r = READ" using pipelined_facts(4) [OF r] by simp
    show ?thesis
      by (rule that [OF connStep_read [OF inv r rd]]) (use f rd in \<open>auto simp: goodEffect_def\<close>)
  next
    case True
    show ?thesis
    proof (cases "activated h \<and> length (requests (mh_transaction h)) < phantomBatchLimit")
      case room: True
      then show ?thesis
        by (intro that [OF trans [OF connStep_write [OF inv r True] if_P]])
          (use inv True in \<open>auto simp: phantomInv_def\<close>)
    next
      case full: False
      show ?thesis
        by (rule that [OF trans [OF connStep_write [OF inv r True] if_not_P [OF full]]])
          (use f True in \<open>auto simp: phantomInv_def openPhantom_def phantomBatchLimit_def\<close>)
    qed
  qed
qed

definition arriving :: "redis_request \<Rightarrow> bool \<times> bool \<times> fetch_result" where
  "arriving r = (True, False, Fetched r)"

lemma processRequests_pipeline:
  assumes "phantomInv h" "\<forall>r \<in> set rs. pipelined r"
  shows "\<exists>es. processRequests (map arriving rs @ [(True, False, SlowLink)]) h = Some (1, es, newMultiHandler)
    \<and> concat (map effectRequests es) = requests (mh_transaction h) @ rs \<and> (\<forall>e \<in> set es. goodEffect e)"
  using assms
proof (induction rs arbitrary: h)
  case Nil
  then show ?case by (auto simp: finalizeEffects_phantom phantomInv_def flushed_def goodEffect_def)
next
  case (Cons r rs)
  obtain es h' where s: "connStep r h = Some (es, h')" "phantomInv h'" "\<forall>e \<in> set es. goodEffect e"
      "concat (map effectRequests es) @ requests (mh_transaction h') = requests (mh_transaction h) @ [r]"
    using connStep_pipelined [of h r] Cons.prems by auto
  obtain es' where t: "processRequests (map arriving rs @ [(True, False, SlowLink)]) h' = Some (1, es', newMultiHandler)"
      "concat (map effectRequests es') = requests (mh_transaction h') @ rs" "\<forall>e \<in> set es'. goodEffect e"
    using Cons.IH [OF s(2)] Cons.prems by auto
  show ?case
    by (rule exI [of _ "es @ es'"]) (use s t in \<open>auto simp: arriving_def [of r]\<close>)
qed

end
