(* ===== verification/WriteTrackers.thy ===== *)
theory WriteTrackers
  imports Connections RaftHandlers
begin

text \<open>
  From the client to the journal and back (\<^verbatim>\<open>src/src/raft/RaftWriteTracker.cc\<close>,
  \<^verbatim>\<open>src/src/raft/RaftBlockedWrites.cc\<close> and \<open>RaftDispatcher::service\<close> of
  \<^verbatim>\<open>src/src/raft/RaftDispatcher.cc\<close>).

  A leader puts a write into its journal and the transaction into the queue of the client's
  connection; committed entries are applied one by one, from the queue when a client waits for them
  and from the journal otherwise.  \<open>trackerInv\<close> says that queues and journal hold the same writes;
  under it both ways lead to the same state machine.

  Connections are identified by the elements of a type \<open>'c\<close>.
\<close>

subsection \<open>State\<close>

text \<open>\<open>tracker\<close> of \<open>RaftBlockedWrites\<close> is an ordered map: here a list ordered by index.\<close>

record ('c, 'db) write_tracker =
  blockedWrites :: "(int \<times> 'c) list"
  queues :: "'c \<Rightarrow> pending_queue"
  wt_exec :: "'db exec_state"

definition popIndex :: "int \<Rightarrow> (int \<times> 'c) list \<Rightarrow> 'c option \<times> (int \<times> 'c) list" where
  "popIndex index bw = (map_of bw index, filter (\<lambda>e. fst e \<noteq> index) bw)"

definition blocked_insert :: "int \<Rightarrow> 'c \<Rightarrow> (int \<times> 'c) list \<Rightarrow> (int \<times> 'c) list" where
  "blocked_insert index item bw =
     takeWhile (\<lambda>e. fst e < index) bw @ [(index, item)]
     @ filter (\<lambda>e. fst e \<noteq> index) (dropWhile (\<lambda>e. fst e < index) bw)"

fun blocked_flush :: "bytes \<Rightarrow> (int \<times> 'c) list \<Rightarrow> ('c \<Rightarrow> pending_queue) \<Rightarrow> ('c \<Rightarrow> pending_queue) option" where
  "blocked_flush r [] qs = Some qs"
| "blocked_flush r ((_, c) # bw) qs = do { q \<leftarrow> flushPending r (qs c); blocked_flush r bw (qs(c := q)) }"

definition flushQueues :: "bytes \<Rightarrow> ('c, 'db) write_tracker \<Rightarrow> ('c, 'db) write_tracker option" where
  "flushQueues r wt = do {
     qs \<leftarrow> blocked_flush r (blockedWrites wt) (queues wt);
     Some (wt\<lparr>queues := qs, blockedWrites := []\<rparr>) }"

subsection \<open>Applying committed entries\<close>

definition applyFromJournal ::
  "('db, 'wb, 'f) dispatch_env \<Rightarrow> ('db, 'wb) rocksdb \<Rightarrow> ('jdb, 'jwb) rocksdb \<Rightarrow> 'jdb raft_journal \<Rightarrow> int \<Rightarrow> 'db state_machine
    \<Rightarrow> 'db state_machine option" where
  "applyFromJournal env api japi j index sm = do {
     entry \<leftarrow> fetch_or_die japi j index;
     (_, sm) \<leftarrow> dispatch env api sm (mkRequest (request entry)) index;
     Some sm }"

definition applySingleCommit ::
  "('db, 'wb, 'f) dispatch_env \<Rightarrow> ('db, 'wb) rocksdb \<Rightarrow> ('jdb, 'jwb) rocksdb \<Rightarrow> 'jdb raft_journal \<Rightarrow> int \<Rightarrow> ('c, 'db) write_tracker
    \<Rightarrow> ('c, 'db) write_tracker option" where
  "applySingleCommit env api japi j index wt =
     (case popIndex index (blockedWrites wt) of
        (None, _) \<Rightarrow> do {
          sm \<leftarrow> applyFromJournal env api japi j index (ex_sm (wt_exec wt));
          Some (wt\<lparr>wt_exec := (wt_exec wt)\<lparr>ex_sm := sm\<rparr>\<rparr>) }
      | (Some c, bw) \<Rightarrow> do {
          (newBlockingIndex, ex, q) \<leftarrow> dispatchPending env api index (wt_exec wt) (queues wt c);
          let wt = wt\<lparr>blockedWrites := bw, queues := (queues wt)(c := q), wt_exec := ex\<rparr>;
          if 0 < newBlockingIndex then do {
            assert_that (index < newBlockingIndex);
            Some (wt\<lparr>blockedWrites := blocked_insert newBlockingIndex c (blockedWrites wt)\<rparr>) }
          else Some wt })"

fun applyAll ::
  "('db, 'wb, 'f) dispatch_env \<Rightarrow> ('db, 'wb) rocksdb \<Rightarrow> ('jdb, 'jwb) rocksdb \<Rightarrow> 'jdb raft_journal \<Rightarrow> int list \<Rightarrow> ('c, 'db) write_tracker
    \<Rightarrow> ('c, 'db) write_tracker option" where
  "applyAll env api japi j [] wt = Some wt"
| "applyAll env api japi j (i # is) wt = do { wt \<leftarrow> applySingleCommit env api japi j i wt; applyAll env api japi j is wt }"

definition updatedCommitIndex ::
  "('db, 'wb, 'f) dispatch_env \<Rightarrow> ('db, 'wb) rocksdb \<Rightarrow> ('jdb, 'jwb) rocksdb \<Rightarrow> 'jdb raft_journal \<Rightarrow> int \<Rightarrow> ('c, 'db) write_tracker
    \<Rightarrow> ('c, 'db) write_tracker option" where
  "updatedCommitIndex env api japi j commitIdx wt =
     applyAll env api japi j [lastApplied (ex_sm (wt_exec wt)) + 1..commitIdx] wt"

subsection \<open>Appending a write\<close>

definition txEntry :: "int \<Rightarrow> transaction \<Rightarrow> raft_entry" where
  "txEntry trm tx = \<lparr>entryTerm = trm, request = contents (toRedisRequest tx)\<rparr>"

definition wt_append ::
  "('db, 'wb, 'f) dispatch_env \<Rightarrow> ('db, 'wb) rocksdb \<Rightarrow> int \<Rightarrow> int \<Rightarrow> transaction \<Rightarrow> 'c
    \<Rightarrow> 'jdb raft_journal \<Rightarrow> ('jdb, 'jwb) rocksdb \<Rightarrow> ('c, 'db) write_tracker
    \<Rightarrow> (bool \<times> 'jdb raft_journal \<times> ('c, 'db) write_tracker) option" where
  "wt_append env api index trm tx c j japi wt = do {
     (ok, j) \<leftarrow> j_append japi index (txEntry trm tx) False j;
     if \<not> ok then Some (False, j, wt)
     else do {
       (ex, q) \<leftarrow> addPendingTransaction env api tx index (wt_exec wt) (queues wt c);
       Some (True, j, wt\<lparr>blockedWrites := blocked_insert index c (blockedWrites wt),
                          queues := (queues wt)(c := q), wt_exec := ex\<rparr>) } }"

subsection \<open>Serving clients\<close>

text \<open>
  \<open>service\<close> takes a snapshot of the raft state first and appends to the journal later, under
  the lock \<open>raftCommand\<close>; other threads may move the node in between.  So there are two steps:
  \<open>service\<close> decides from the snapshot alone, \<open>submit\<close> appends under the lock to the journal of the
  node as it is then, with the term of the snapshot.

  \<open>Wait\<close>: the state machine is behind the leadership marker.  The thread sleeps; it goes on with the
  same snapshot when the machine has caught up and starts again with a new one when the snapshot is
  no longer current.  \<open>Submit\<close>: a write for the journal, after the lease filter.  \<open>Retry\<close>: the journal
  refused the entry, the source calls itself with the transaction it has now.
\<close>

datatype service_outcome = Done | Wait | Submit transaction | Retry transaction

definition reply ::
  "bytes \<Rightarrow> 'c \<Rightarrow> ('c, 'db) write_tracker \<Rightarrow> ('c, 'db) write_tracker option" where
  "reply r c wt = do { q \<leftarrow> appendResponse r (queues wt c); Some (wt\<lparr>queues := (queues wt)(c := q)\<rparr>) }"

definition leaseFilter :: "u64 \<Rightarrow> transaction \<Rightarrow> transaction option" where
  "leaseFilter timestamp tx = do { rs \<leftarrow> leaseTransformAll timestamp (requests tx); Some (tx\<lparr>requests := rs\<rparr>) }"

definition service ::
  "('db, 'wb, 'f) dispatch_env \<Rightarrow> ('db, 'wb) rocksdb \<Rightarrow> bool \<Rightarrow> state_snapshot \<Rightarrow> transaction \<Rightarrow> 'c
    \<Rightarrow> ('c, 'db) write_tracker \<Rightarrow> (service_outcome \<times> ('c, 'db) write_tracker) option" where
  "service env api staleReads sn tx c wt =
     (let sm = ex_sm (wt_exec wt) in
      if sn_status sn \<noteq> LEADER then
        (if serverEmpty (sn_leader sn) then do {
           r \<leftarrow> f_multiply (f_err ''unavailable'') (nat (expectedResponses tx));
           wt \<leftarrow> reply r c wt; Some (Done, wt) }
         else if staleReads \<and> \<not> hasWrites tx then do {
           (r, ex) \<leftarrow> runTx env api (wt_exec wt) tx 0;
           wt \<leftarrow> reply r c (wt\<lparr>wt_exec := ex\<rparr>); Some (Done, wt) }
         else do {
           r \<leftarrow> f_multiply (f_moved 0 (sn_leader sn)) (nat (expectedResponses tx));
           wt \<leftarrow> reply r c wt; Some (Done, wt) })
      else if lastApplied sm < sn_leadershipMarker sn then Some (Wait, wt)
      else if \<not> hasWrites tx then do {
        (ex, q) \<leftarrow> addPendingTransaction env api tx (-1) (wt_exec wt) (queues wt c);
        Some (Done, wt\<lparr>wt_exec := ex, queues := (queues wt)(c := q)\<rparr>) }
      else do {
        tx \<leftarrow> leaseFilter (getDynamicClock (env_now env) sm) tx;
        Some (Submit tx, wt) })"

definition submit ::
  "('db, 'wb, 'f) dispatch_env \<Rightarrow> ('db, 'wb) rocksdb \<Rightarrow> ('jdb, 'jwb) rocksdb \<Rightarrow> state_snapshot \<Rightarrow> transaction \<Rightarrow> 'c
    \<Rightarrow> 'jdb raft_node \<Rightarrow> ('c, 'db) write_tracker
    \<Rightarrow> (service_outcome \<times> 'jdb raft_node \<times> ('c, 'db) write_tracker) option" where
  "submit env api japi sn tx c n wt = do {
     (ok, j, wt) \<leftarrow> wt_append env api (logSize (journal n)) (sn_term sn) tx c (journal n) japi wt;
     Some (if ok then Done else Retry tx, n\<lparr>journal := j\<rparr>, wt) }"

text \<open>
  The retry is a call of \<open>service\<close> from inside the scope of the lock.  \<open>raftCommand\<close> is a plain
  \<open>std::mutex\<close>: a retry that comes to the lock again locks it twice, which is undefined.
\<close>

definition serviceLocked ::
  "('db, 'wb, 'f) dispatch_env \<Rightarrow> ('db, 'wb) rocksdb \<Rightarrow> bool \<Rightarrow> state_snapshot \<Rightarrow> transaction \<Rightarrow> 'c
    \<Rightarrow> ('c, 'db) write_tracker \<Rightarrow> (service_outcome \<times> ('c, 'db) write_tracker) option" where
  "serviceLocked env api staleReads sn tx c wt = do {
     (out, wt) \<leftarrow> service env api staleReads sn tx c wt;
     case out of Submit _ \<Rightarrow> None | _ \<Rightarrow> Some (out, wt) }"

subsection \<open>A new leader is recognized\<close>

text \<open>
  \<open>appendEntries\<close> with the write tracker of the node: once the contacting node is recognized as the
  leader, every client with a write in the journal is told to go there, before entries are removed.
  (The same happens to the listeners of the publisher, which is no part of this model.)
\<close>

definition appendEntriesFlushing ::
  "('jdb, 'jwb) rocksdb \<Rightarrow> int \<Rightarrow> append_entries_request \<Rightarrow> 'jdb raft_node \<Rightarrow> heartbeat_tracker \<Rightarrow> ('c, 'db) write_tracker
    \<Rightarrow> (append_entries_response \<times> 'jdb raft_node \<times> heartbeat_tracker \<times> ('c, 'db) write_tracker) option" where
  "appendEntriesFlushing japi now req n hb wt = do {
     (resp, n, hb) \<leftarrow> heartbeat japi now \<lparr>hb_term = ae_term req, hb_leader = ae_leader req\<rparr> n hb;
     if \<not> nodeRecognizedAsLeader resp then
       Some (\<lparr>aer_term = hbr_term resp, aer_logSize = logSize (journal n), aer_outcome = False, aer_err = hbr_err resp\<rparr>, n, hb, wt)
     else do {
       wt \<leftarrow> flushQueues (f_moved 0 (n_leader n)) wt;
       (resp, j) \<leftarrow> applyEntries japi (lastApplied (ex_sm (wt_exec wt))) (n_term n) req (journal n);
       Some (resp, n\<lparr>journal := j\<rparr>, hb, wt) } }"

subsection \<open>Queues and journal hold the same writes\<close>

definition writesOf :: "pending_queue \<Rightarrow> pending_request list" where
  "writesOf q = filter (\<lambda>p. 0 < pr_index p) (pending q)"

definition queueInv :: "pending_queue \<Rightarrow> bool" where
  "queueInv q \<longleftrightarrow> (pending q \<noteq> [] \<longrightarrow> 0 < pr_index (hd (pending q)))
     \<and> sorted_wrt (<) (map pr_index (writesOf q))
     \<and> (\<forall>p \<in> set (pending q). if 0 < pr_index p then rawResp p = [] \<and> pr_index p \<le> pq_lastIndex q
                                else rawResp p \<noteq> [] \<or> \<not> hasWrites (pr_tx p))"

definition goodTx :: "transaction \<Rightarrow> bool" where
  "goodTx tx \<longleftrightarrow> txInv tx \<and> shortParts tx \<and> hasWrites tx"

definition journaled :: "('jdb, 'jwb) rocksdb \<Rightarrow> 'jdb raft_journal \<Rightarrow> pending_request \<Rightarrow> bool" where
  "journaled japi j p \<longleftrightarrow> goodTx (pr_tx p)
     \<and> (\<exists>e. fetch_or_die japi j (pr_index p) = Some e \<and> request e = contents (toRedisRequest (pr_tx p)))"

definition trackerInv :: "('jdb, 'jwb) rocksdb \<Rightarrow> 'jdb raft_journal \<Rightarrow> ('c, 'db) write_tracker \<Rightarrow> bool" where
  "trackerInv japi j wt \<longleftrightarrow>
     (\<forall>c. queueInv (queues wt c))
     \<and> (\<forall>c i. map_of (blockedWrites wt) i = Some c \<longleftrightarrow> i \<in> pr_index ` set (writesOf (queues wt c)))
     \<and> (\<forall>c. \<forall>p \<in> set (writesOf (queues wt c)). journaled japi j p \<and> lastApplied (ex_sm (wt_exec wt)) < pr_index p)"

lemma trackerInvD:
  assumes "trackerInv japi j wt"
  shows "queueInv (queues wt c)"
    "map_of (blockedWrites wt) i = Some c \<Longrightarrow> i \<in> pr_index ` set (writesOf (queues wt c))"
    "p \<in> set (writesOf (queues wt c)) \<Longrightarrow> map_of (blockedWrites wt) (pr_index p) = Some c"
    "p \<in> set (writesOf (queues wt c)) \<Longrightarrow> journaled japi j p"
    "p \<in> set (writesOf (queues wt c)) \<Longrightarrow> lastApplied (ex_sm (wt_exec wt)) < pr_index p"
  using assms unfolding trackerInv_def by blast+

lemma map_of_popIndex: "map_of (snd (popIndex i bw)) k = (if k = i then None else map_of bw k)"
  by (induction bw) (auto simp: popIndex_def)

lemma map_of_blocked_insert: "map_of (blocked_insert i c bw) k = (if k = i then Some c else map_of bw k)"
proof -
  have f: "map_of (filter (\<lambda>e. fst e \<noteq> i) xs) k = map_of xs k" if "k \<noteq> i" for xs :: "(int \<times> 'a) list"
    using that by (induction xs) auto
  have t: "map_of (takeWhile (\<lambda>e. fst e < i) bw) i = None" by (induction bw) auto
  have "map_of bw k = map_of (takeWhile (\<lambda>e. fst e < i) bw @ dropWhile (\<lambda>e. fst e < i) bw) k"
    by (simp only: takeWhile_dropWhile_id)
  then show ?thesis
    using f t unfolding blocked_insert_def by (auto simp: map_add_def simp del: takeWhile_dropWhile_id split: option.splits)
qed

lemma contents_toRedisRequest:
  assumes "goodTx tx"
  shows "mkRequest (contents (toRedisRequest tx)) = toRedisRequest tx"
proof (cases "tx_phantom tx \<and> length (requests tx) = 1")
  case True
  then obtain r where r: "requests tx = [r]" by (auto simp: length_Suc_conv)
  then show ?thesis using True assms by (simp add: toRedisRequest_def goodTx_def shortParts_def plainRequest_def)
next
  case False
  then show ?thesis using deserialize_fused(5) [of tx] assms by (simp add: goodTx_def plainRequest_def)
qed

lemma applyFromJournal_tx:
  assumes "journaled japi j p"
  shows "applyFromJournal env api japi j (pr_index p) sm
    = map_option (\<lambda>(r, sm', _). sm') (dispatchTxCommit env api sm (pr_tx p) (pr_index p))"
proof -
  obtain e where e: "fetch_or_die japi j (pr_index p) = Some e" "request e = contents (toRedisRequest (pr_tx p))" "goodTx (pr_tx p)"
    using assms by (auto simp: journaled_def)
  show ?thesis
    using e dispatch_fused [of "pr_tx p" env api sm "pr_index p"]
    by (cases "dispatchTxCommit env api sm (pr_tx p) (pr_index p)")
      (auto simp: applyFromJournal_def contents_toRedisRequest goodTx_def)
qed

lemma applyFromJournal_lastApplied:
  "applyFromJournal env api japi j i sm = Some sm' \<Longrightarrow> 0 < i \<Longrightarrow> lastApplied sm' = i"
  by (auto simp: applyFromJournal_def Option.bind_eq_Some_conv dest: dispatch_lastApplied)

subsection \<open>Executing the queue of a client\<close>

lemma pq_send_fields [simp]:
  "pending (pq_send x q) = pending q" "pq_lastIndex (pq_send x q) = pq_lastIndex q" "pq_attached (pq_send x q) = pq_attached q"
  by (simp_all add: pq_send_def)

lemma runTx_read: "runTx env api ex tx i = Some (r, ex') \<Longrightarrow> \<not> hasWrites tx \<Longrightarrow> ex' = ex"
  by (auto simp: runTx_def dispatchTxCommit_def Option.bind_eq_Some_conv)

text \<open>After the write of the committed entry: what is served until the next write.\<close>

lemma dispatchPending_tail:
  assumes "dispatchPendingLoop env api i True ex q ps = Some (nb, ex', q')"
    and "\<forall>p \<in> set ps. if 0 < pr_index p then i < pr_index p else rawResp p \<noteq> [] \<or> \<not> hasWrites (pr_tx p)" "0 < i"
  shows "ex' = ex" "\<exists>pre. ps = pre @ pending q' \<and> (\<forall>p \<in> set pre. pr_index p \<le> 0)"
    "if pending q' = [] then nb = -1 else nb = pr_index (hd (pending q')) \<and> i < nb"
    "pq_lastIndex q' = pq_lastIndex q" "pq_attached q \<Longrightarrow> \<exists>rest. pq_sent q' = pq_sent q @ rest"
proof -
  have "ex' = ex \<and> (\<exists>pre. ps = pre @ pending q' \<and> (\<forall>p \<in> set pre. pr_index p \<le> 0))
    \<and> (if pending q' = [] then nb = -1 else nb = pr_index (hd (pending q')) \<and> i < nb)
    \<and> pq_lastIndex q' = pq_lastIndex q \<and> (pq_attached q \<longrightarrow> (\<exists>rest. pq_sent q' = pq_sent q @ rest))"
    using assms
  proof (induction ps arbitrary: q)
    case (Cons p ps)
    show ?case
    proof (cases "i < pr_index p")
      case True
      then show ?thesis using Cons.prems by auto
    next
      case False
      then have np: "pr_index p \<le> 0" using Cons.prems(2) by (auto split: if_splits)
      obtain x where go: "dispatchPendingLoop env api i True ex (pq_send x q) ps = Some (nb, ex', q')"
        using Cons.prems False np runTx_read [of env api ex "pr_tx p" "pr_index p"]
        by (cases "rawResp p = []") (auto simp: Option.bind_eq_Some_conv)
      from Cons.IH [OF go] Cons.prems(2,3) obtain pre where
        "ex' = ex" "ps = pre @ pending q'" "\<forall>p \<in> set pre. pr_index p \<le> 0"
        "if pending q' = [] then nb = -1 else nb = pr_index (hd (pending q')) \<and> i < nb" "pq_lastIndex q' = pq_lastIndex q"
        "pq_attached q \<longrightarrow> (\<exists>rest. pq_sent q' = pq_sent (pq_send x q) @ rest)"
        by auto
      then show ?thesis
        using np by (auto simp: pq_send_def intro!: exI [of _ "p # pre"])
    qed
  qed (auto simp: assert_that_def)
  then show "ex' = ex" "\<exists>pre. ps = pre @ pending q' \<and> (\<forall>p \<in> set pre. pr_index p \<le> 0)"
    "if pending q' = [] then nb = -1 else nb = pr_index (hd (pending q')) \<and> i < nb"
    "pq_lastIndex q' = pq_lastIndex q" "pq_attached q \<Longrightarrow> \<exists>rest. pq_sent q' = pq_sent q @ rest"
    by auto
qed

text \<open>The write of the next entry is at the head of its queue.\<close>

lemma blocked_head:
  assumes inv: "trackerInv japi j wt" and i: "i = lastApplied (ex_sm (wt_exec wt)) + 1"
    and c: "map_of (blockedWrites wt) i = Some c"
  obtains p ps where "pending (queues wt c) = p # ps" "pr_index p = i" "0 < i" "rawResp p = []" "journaled japi j p"
    "\<forall>x \<in> set ps. if 0 < pr_index x then i < pr_index x else rawResp x \<noteq> [] \<or> \<not> hasWrites (pr_tx x)"
proof -
  let ?q = "queues wt c"
  have q: "queueInv ?q" and w: "i \<in> pr_index ` set (writesOf ?q)"
    and jr: "\<forall>p \<in> set (writesOf ?q). journaled japi j p \<and> i \<le> pr_index p"
    using trackerInvD [OF inv] c i by (fastforce simp del: image_iff)+
  then obtain p ps where p: "pending ?q = p # ps" "0 < pr_index p"
    by (cases "pending ?q") (auto simp: queueInv_def writesOf_def)
  have ws: "writesOf ?q = p # filter (\<lambda>x. 0 < pr_index x) ps" using p by (simp add: writesOf_def)
  have s: "\<forall>x \<in> set ps. 0 < pr_index x \<longrightarrow> pr_index p < pr_index x" using q ws by (auto simp: queueInv_def)
  have pi: "pr_index p = i" using w jr ws s by force
  show ?thesis
    by (rule that [OF p(1) pi])
      (use p pi q s jr ws in \<open>auto simp: queueInv_def split: if_splits\<close>)
qed

lemma applySingleCommit_blocked:
  assumes inv: "trackerInv japi j wt" and i: "i = lastApplied (ex_sm (wt_exec wt)) + 1"
    and c: "map_of (blockedWrites wt) i = Some c" and run: "applySingleCommit env api japi j i wt = Some wt'"
  obtains p ps r ex q bw where "pending (queues wt c) = p # ps" "pr_index p = i" "0 < i"
    "runTx env api (wt_exec wt) (pr_tx p) i = Some (r, ex)" "journaled japi j p"
    "wt' = wt\<lparr>blockedWrites := bw, queues := (queues wt)(c := q), wt_exec := ex\<rparr>"
    "writesOf (queues wt c) = p # writesOf q" "queueInv q"
    "\<And>k. map_of bw k = (if k = i then None else map_of (blockedWrites wt) k)"
    "pq_attached (queues wt c) \<Longrightarrow> \<exists>rest. pq_sent q = pq_sent (queues wt c) @ r # rest"
    "set (pending q) \<subseteq> set (pending (queues wt c))"
proof -
  let ?q = "queues wt c"
  obtain p ps where p: "pending ?q = p # ps" "pr_index p = i" "0 < i" "rawResp p = []" "journaled japi j p"
      and ps: "\<forall>x \<in> set ps. if 0 < pr_index x then i < pr_index x else rawResp x \<noteq> [] \<or> \<not> hasWrites (pr_tx x)"
    using blocked_head [OF inv i c] by blast
  obtain nb ex q where d: "dispatchPending env api i (wt_exec wt) ?q = Some (nb, ex, q)"
      and w: "wt' = (let wt1 = wt\<lparr>blockedWrites := snd (popIndex i (blockedWrites wt)), queues := (queues wt)(c := q), wt_exec := ex\<rparr>
                in if 0 < nb then wt1\<lparr>blockedWrites := blocked_insert nb c (blockedWrites wt1)\<rparr> else wt1)"
    using run c
    by (auto simp: applySingleCommit_def popIndex_def Option.bind_eq_Some_conv assert_that_def Let_def split: if_splits)
  obtain r ex1 where r: "runTx env api (wt_exec wt) (pr_tx p) i = Some (r, ex1)"
      and t: "dispatchPendingLoop env api i True ex1 (pq_send r ?q) ps = Some (nb, ex, q)"
    using d p by (auto simp: dispatchPending_def Option.bind_eq_Some_conv)
  note T = dispatchPending_tail [OF t ps p(3)]
  obtain pre where pre: "ps = pre @ pending q" "\<forall>x \<in> set pre. pr_index x \<le> 0" using T(2) by blast
  have ws: "writesOf ?q = p # writesOf q" using p pre by (auto simp: writesOf_def filter_empty_conv)
  have q0: "queueInv ?q" using inv by (simp add: trackerInv_def)
  have qi: "queueInv q"
    using q0 ws T(3,4) p(1,3) pre(1) by (auto simp: queueInv_def split: if_splits)
  have nb: "map_of (blockedWrites wt) nb = Some c" if "0 < nb"
  proof -
    have "hd (pending q) \<in> set (writesOf ?q)" "nb = pr_index (hd (pending q))"
      using T(3) that ws by (auto simp: writesOf_def split: if_splits)
    then show ?thesis using inv by (auto simp: trackerInv_def)
  qed
  have ne: "nb \<noteq> i" using T(3) p(3) by (auto split: if_splits)
  let ?bw = "if 0 < nb then blocked_insert nb c (snd (popIndex i (blockedWrites wt))) else snd (popIndex i (blockedWrites wt))"
  show ?thesis
  proof (rule that [OF p(1,2,3) _ p(5) _ ws qi, of r ex ?bw])
    show "runTx env api (wt_exec wt) (pr_tx p) i = Some (r, ex)" using r T(1) by simp
    show "wt' = wt\<lparr>blockedWrites := ?bw, queues := (queues wt)(c := q), wt_exec := ex\<rparr>" using w by (simp add: Let_def)
    show "map_of ?bw k = (if k = i then None else map_of (blockedWrites wt) k)" for k
      using nb ne by (simp add: map_of_blocked_insert map_of_popIndex)
    show "\<exists>rest. pq_sent q = pq_sent ?q @ r # rest" if "pq_attached ?q"
      using T(5) that by (auto simp: pq_send_def)
    show "set (pending q) \<subseteq> set (pending ?q)" using p(1) pre(1) by auto
  qed
qed

theorem applySingleCommit_inv:
  assumes inv: "trackerInv japi j wt" and i: "i = lastApplied (ex_sm (wt_exec wt)) + 1" "0 < i"
    and run: "applySingleCommit env api japi j i wt = Some wt'"
  shows "applyFromJournal env api japi j i (ex_sm (wt_exec wt)) = Some (ex_sm (wt_exec wt'))" "trackerInv japi j wt'"
proof -
  have "applyFromJournal env api japi j i (ex_sm (wt_exec wt)) = Some (ex_sm (wt_exec wt')) \<and> trackerInv japi j wt'"
  proof (cases "map_of (blockedWrites wt) i")
    case None
    then obtain sm where a: "applyFromJournal env api japi j i (ex_sm (wt_exec wt)) = Some sm"
        and w: "wt' = wt\<lparr>wt_exec := (wt_exec wt)\<lparr>ex_sm := sm\<rparr>\<rparr>"
      using run by (auto simp: applySingleCommit_def popIndex_def Option.bind_eq_Some_conv)
    have "pr_index p \<noteq> i" if "p \<in> set (writesOf (queues wt c))" for c p
      using trackerInvD(3) [OF inv that] None by auto
    then show ?thesis
      using a w inv i applyFromJournal_lastApplied [OF a i(2)] by (fastforce simp: trackerInv_def)
  next
    case (Some c)
    obtain p ps r ex q bw where b: "pending (queues wt c) = p # ps" "pr_index p = i" "0 < i"
        "runTx env api (wt_exec wt) (pr_tx p) i = Some (r, ex)" "journaled japi j p"
        "wt' = wt\<lparr>blockedWrites := bw, queues := (queues wt)(c := q), wt_exec := ex\<rparr>"
        "writesOf (queues wt c) = p # writesOf q" "queueInv q"
        "\<And>k. map_of bw k = (if k = i then None else map_of (blockedWrites wt) k)"
      using applySingleCommit_blocked [OF inv i(1) Some run] by metis
    have a: "applyFromJournal env api japi j i (ex_sm (wt_exec wt)) = Some (ex_sm ex)"
      using applyFromJournal_tx [OF b(5), of env api "ex_sm (wt_exec wt)"] b(2,4)
      by (auto simp: runTx_def Option.bind_eq_Some_conv)
    have la: "lastApplied (ex_sm ex) = i" by (rule applyFromJournal_lastApplied [OF a i(2)])
    have later: "i < pr_index x" if "x \<in> set (writesOf q)" for x
      using that inv b(2,7) by (auto simp: trackerInv_def queueInv_def dest!: spec [of _ c])
    have other: "i < pr_index x" if "x \<in> set (writesOf (queues wt d))" "d \<noteq> c" for x d
    proof -
      have "map_of (blockedWrites wt) (pr_index x) = Some d" "lastApplied (ex_sm (wt_exec wt)) < pr_index x"
        using that inv by (auto simp: trackerInv_def)
      then show ?thesis using Some that(2) i by (cases "pr_index x = i") auto
    qed
    have blk: "map_of bw k = Some d \<longleftrightarrow> k \<in> pr_index ` set (writesOf (((queues wt)(c := q)) d))" for k d
    proof -
      have old: "map_of (blockedWrites wt) k = Some d \<longleftrightarrow> k \<in> pr_index ` set (writesOf (queues wt d))"
        using inv by (simp add: trackerInv_def)
      have "i \<notin> pr_index ` set (writesOf q)" using later by auto
      moreover have "map_of (blockedWrites wt) i \<noteq> Some d" if "d \<noteq> c" using Some that by simp
      ultimately show ?thesis
        using old b(2,7) by (cases "k = i"; cases "d = c") (simp_all add: b(9))
    qed
    have "journaled japi j x \<and> i < pr_index x" if "x \<in> set (writesOf (((queues wt)(c := q)) d))" for x d
      using that later other inv b(7) by (cases "d = c") (auto simp: trackerInv_def dest!: spec [of _ c])
    then show ?thesis using a b(6,8) la blk inv by (simp add: trackerInv_def)
  qed
  then show "applyFromJournal env api japi j i (ex_sm (wt_exec wt)) = Some (ex_sm (wt_exec wt'))" "trackerInv japi j wt'" by simp_all
qed

subsection \<open>All committed entries\<close>

text \<open>What a node does that has no clients: every entry from the journal.\<close>

fun applyJournal ::
  "('db, 'wb, 'f) dispatch_env \<Rightarrow> ('db, 'wb) rocksdb \<Rightarrow> ('jdb, 'jwb) rocksdb \<Rightarrow> 'jdb raft_journal \<Rightarrow> int list
    \<Rightarrow> 'db state_machine \<Rightarrow> 'db state_machine option" where
  "applyJournal env api japi j [] sm = Some sm"
| "applyJournal env api japi j (i # is) sm = do { sm \<leftarrow> applyFromJournal env api japi j i sm; applyJournal env api japi j is sm }"

text \<open>Every read that waits in a queue is answered by a machine in this state.\<close>

definition readsAnswered ::
  "('db, 'wb, 'f) dispatch_env \<Rightarrow> ('db, 'wb) rocksdb \<Rightarrow> 'db state_machine \<Rightarrow> ('c, 'db) write_tracker \<Rightarrow> bool" where
  "readsAnswered env api sm wt \<longleftrightarrow>
     (\<forall>c. \<forall>p \<in> set (pending (queues wt c)). pr_index p \<le> 0 \<and> rawResp p = []
        \<longrightarrow> dispatchTxCommit env api sm (pr_tx p) (pr_index p) \<noteq> None)"

definition readsAnsweredUpTo ::
  "('db, 'wb, 'f) dispatch_env \<Rightarrow> ('db, 'wb) rocksdb \<Rightarrow> ('jdb, 'jwb) rocksdb \<Rightarrow> 'jdb raft_journal \<Rightarrow> int \<Rightarrow> 'db state_machine
    \<Rightarrow> ('c, 'db) write_tracker \<Rightarrow> bool" where
  "readsAnsweredUpTo env api japi j ci sm wt \<longleftrightarrow>
     (\<forall>i sm'. lastApplied sm < i \<and> i \<le> ci \<and> applyJournal env api japi j [lastApplied sm + 1..i] sm = Some sm'
        \<longrightarrow> readsAnswered env api sm' wt)"

lemma readsAnsweredUpTo_first:
  assumes "readsAnsweredUpTo env api japi j ci sm wt" "applyFromJournal env api japi j (lastApplied sm + 1) sm = Some sm1"
    "lastApplied sm < ci" "lastApplied sm1 = lastApplied sm + 1"
  shows "readsAnswered env api sm1 wt" "readsAnsweredUpTo env api japi j ci sm1 wt"
proof -
  have l: "[lastApplied sm + 1..i] = (lastApplied sm + 1) # [(lastApplied sm + 1) + 1..i]" if "lastApplied sm < i" for i
    using that by (intro upto_rec1) simp
  show "readsAnsweredUpTo env api japi j ci sm1 wt"
    unfolding readsAnsweredUpTo_def
  proof (intro allI impI, elim conjE)
    fix i sm' assume i: "lastApplied sm1 < i" "i \<le> ci" "applyJournal env api japi j [lastApplied sm1 + 1..i] sm1 = Some sm'"
    then have "applyJournal env api japi j [lastApplied sm + 1..i] sm = Some sm'"
      using l [of i] assms(2,4) by (simp del: upto.simps)
    then show "readsAnswered env api sm' wt"
      using assms(1,4) i(1,2) unfolding readsAnsweredUpTo_def by (metis less_add_one order_less_trans)
  qed
  have "applyJournal env api japi j [lastApplied sm + 1..lastApplied sm + 1] sm = Some sm1" using assms(2) by simp
  then show "readsAnswered env api sm1 wt"
    using assms(1,3) unfolding readsAnsweredUpTo_def by (metis add.commute add1_zle_eq less_add_one)
qed

lemma readsAnswered_fewer:
  assumes "\<And>c. set (pending (queues wt' c)) \<subseteq> set (pending (queues wt c))"
  shows "readsAnswered env api sm wt \<Longrightarrow> readsAnswered env api sm wt'"
    "readsAnsweredUpTo env api japi j ci sm wt \<Longrightarrow> readsAnsweredUpTo env api japi j ci sm wt'"
proof -
  show one: "readsAnswered env api sm wt \<Longrightarrow> readsAnswered env api sm wt'" for sm
    using assms unfolding readsAnswered_def by blast
  show "readsAnsweredUpTo env api japi j ci sm wt \<Longrightarrow> readsAnsweredUpTo env api japi j ci sm wt'"
    using one unfolding readsAnsweredUpTo_def by blast
qed

lemma dispatchPending_tail_total:
  assumes "\<forall>p \<in> set ps. if 0 < pr_index p then i < pr_index p else rawResp p \<noteq> [] \<or> \<not> hasWrites (pr_tx p)" "0 < i"
    and "\<forall>p \<in> set ps. pr_index p \<le> 0 \<and> rawResp p = [] \<longrightarrow> dispatchTxCommit env api (ex_sm ex) (pr_tx p) (pr_index p) \<noteq> None"
  shows "dispatchPendingLoop env api i True ex q ps \<noteq> None"
  using assms
proof (induction ps arbitrary: q)
  case (Cons p ps)
  show ?case
  proof (cases "i < pr_index p")
    case False
    then have np: "pr_index p \<le> 0" using Cons.prems(1) by (auto split: if_splits)
    have IH: "dispatchPendingLoop env api i True ex (pq_send x q) ps \<noteq> None" for x
      by (rule Cons.IH) (use Cons.prems in auto)
    show ?thesis
    proof (cases "rawResp p = []")
      case True
      then have w: "\<not> hasWrites (pr_tx p)" using Cons.prems(1) np by auto
      obtain r sm t where "dispatchTxCommit env api (ex_sm ex) (pr_tx p) (pr_index p) = Some (r, sm, t)"
        using Cons.prems(3) np True by (metis list.set_intros(1) option.exhaust prod_cases3)
      then obtain ex' where "runTx env api ex (pr_tx p) (pr_index p) = Some (r, ex')" by (auto simp: runTx_def)
      with runTx_read [OF this w] show ?thesis using IH False np True Cons.prems(2) by simp
    qed (use IH False np Cons.prems(2) in simp)
  qed simp
qed simp

lemma applySingleCommit_total:
  assumes inv: "trackerInv japi j wt" and i: "i = lastApplied (ex_sm (wt_exec wt)) + 1" "0 < i"
    and reads: "readsAnswered env api sm wt" and a: "applyFromJournal env api japi j i (ex_sm (wt_exec wt)) = Some sm"
  obtains wt' where "applySingleCommit env api japi j i wt = Some wt'"
    "\<forall>c. set (pending (queues wt' c)) \<subseteq> set (pending (queues wt c))"
proof (cases "map_of (blockedWrites wt) i")
  case None
  then have "applySingleCommit env api japi j i wt = Some (wt\<lparr>wt_exec := (wt_exec wt)\<lparr>ex_sm := sm\<rparr>\<rparr>)"
    using a by (simp add: applySingleCommit_def popIndex_def)
  then show ?thesis by (rule that) simp
next
  case (Some c)
  obtain p ps where p: "pending (queues wt c) = p # ps" "pr_index p = i" "rawResp p = []" "journaled japi j p"
      and ps: "\<forall>x \<in> set ps. if 0 < pr_index x then i < pr_index x else rawResp x \<noteq> [] \<or> \<not> hasWrites (pr_tx x)"
    using blocked_head [OF inv i(1) Some] by metis
  obtain r ex where r: "runTx env api (wt_exec wt) (pr_tx p) i = Some (r, ex)" "ex_sm ex = sm"
    using a applyFromJournal_tx [OF p(4), of env api "ex_sm (wt_exec wt)"] unfolding p(2)
    by (cases "dispatchTxCommit env api (ex_sm (wt_exec wt)) (pr_tx p) i") (auto simp: runTx_def)
  obtain nb ex' q where t: "dispatchPendingLoop env api i True ex (pq_send r (queues wt c)) ps = Some (nb, ex', q)"
    using dispatchPending_tail_total [OF ps i(2), of env api ex "pq_send r (queues wt c)"] reads p(1) r(2)
    unfolding readsAnswered_def by (metis list.set_intros(2) option.exhaust prod_cases3)
  have d: "dispatchPending env api i (wt_exec wt) (queues wt c) = Some (nb, ex', q)"
    using p r t i(2) by (simp add: dispatchPending_def)
  have nb: "0 < nb \<longrightarrow> i < nb" using dispatchPending_tail(3) [OF t ps i(2)] by (auto split: if_splits)
  obtain wt' where w: "applySingleCommit env api japi j i wt = Some wt'"
    using d nb Some by (cases "0 < nb") (auto simp: applySingleCommit_def popIndex_def Let_def)
  show ?thesis
  proof (rule that [OF w])
    obtain q' ex' bw where "wt' = wt\<lparr>blockedWrites := bw, queues := (queues wt)(c := q'), wt_exec := ex'\<rparr>"
        "set (pending q') \<subseteq> set (pending (queues wt c))"
      using applySingleCommit_blocked [OF inv i(1) Some w] by metis
    then show "\<forall>d. set (pending (queues wt' d)) \<subseteq> set (pending (queues wt d))" by simp
  qed
qed

lemma updatedCommitIndex_sound:
  assumes "trackerInv japi j wt" "0 \<le> lastApplied (ex_sm (wt_exec wt))"
    and "applyAll env api japi j [lastApplied (ex_sm (wt_exec wt)) + 1..ci] wt = Some wt'"
  shows "applyJournal env api japi j [lastApplied (ex_sm (wt_exec wt)) + 1..ci] (ex_sm (wt_exec wt)) = Some (ex_sm (wt_exec wt'))
    \<and> trackerInv japi j wt'"
  using assms
proof (induction "nat (ci - lastApplied (ex_sm (wt_exec wt)))" arbitrary: wt)
  case (Suc n)
  let ?la = "lastApplied (ex_sm (wt_exec wt))"
  have l: "[?la + 1..ci] = (?la + 1) # [(?la + 1) + 1..ci]" using Suc.hyps(2) by (intro upto_rec1) simp
  obtain wt1 where s: "applySingleCommit env api japi j (?la + 1) wt = Some wt1"
      and r: "applyAll env api japi j [(?la + 1) + 1..ci] wt1 = Some wt'"
    using Suc.prems(3) unfolding l by (auto simp: Option.bind_eq_Some_conv simp del: upto.simps)
  note S = applySingleCommit_inv [OF Suc.prems(1) refl _ s]
  have pos: "0 < ?la + 1" using Suc.prems(2) by simp
  have la: "lastApplied (ex_sm (wt_exec wt1)) = ?la + 1"
    by (rule applyFromJournal_lastApplied [OF S(1) pos]) (use pos in simp)
  have "applyJournal env api japi j [(?la + 1) + 1..ci] (ex_sm (wt_exec wt1)) = Some (ex_sm (wt_exec wt')) \<and> trackerInv japi j wt'"
    using Suc.hyps(1) [of wt1] Suc.hyps(2) S(2) r pos la by simp
  then show ?case unfolding l using S(1) pos by (simp del: upto.simps)
qed simp

lemma updatedCommitIndex_total:
  assumes "trackerInv japi j wt" "0 \<le> lastApplied (ex_sm (wt_exec wt))" "readsAnsweredUpTo env api japi j ci (ex_sm (wt_exec wt)) wt"
    and "applyJournal env api japi j [lastApplied (ex_sm (wt_exec wt)) + 1..ci] (ex_sm (wt_exec wt)) = Some sm"
  shows "\<exists>wt'. applyAll env api japi j [lastApplied (ex_sm (wt_exec wt)) + 1..ci] wt = Some wt'"
  using assms
proof (induction "nat (ci - lastApplied (ex_sm (wt_exec wt)))" arbitrary: wt)
  case (Suc n)
  let ?la = "lastApplied (ex_sm (wt_exec wt))"
  have l: "[?la + 1..ci] = (?la + 1) # [(?la + 1) + 1..ci]" using Suc.hyps(2) by (intro upto_rec1) simp
  have pos: "0 < ?la + 1" using Suc.prems(2) by simp
  obtain sm1 where a: "applyFromJournal env api japi j (?la + 1) (ex_sm (wt_exec wt)) = Some sm1"
      and r: "applyJournal env api japi j [(?la + 1) + 1..ci] sm1 = Some sm"
    using Suc.prems(4) unfolding l by (auto simp: Option.bind_eq_Some_conv simp del: upto.simps)
  have la1: "lastApplied sm1 = ?la + 1" by (rule applyFromJournal_lastApplied [OF a pos])
  have "?la < ci" using Suc.hyps(2) by simp
  note reads = readsAnsweredUpTo_first [OF Suc.prems(3) a this la1]
  obtain wt1 where s: "applySingleCommit env api japi j (?la + 1) wt = Some wt1"
      "\<forall>c. set (pending (queues wt1 c)) \<subseteq> set (pending (queues wt c))"
    by (rule applySingleCommit_total [OF Suc.prems(1) refl pos reads(1) a])
  note S = applySingleCommit_inv [OF Suc.prems(1) refl pos s(1)]
  have la: "ex_sm (wt_exec wt1) = sm1" using S(1) a by simp
  have rd: "readsAnsweredUpTo env api japi j ci sm1 wt1"
    using readsAnswered_fewer(2) [OF spec [OF s(2)] reads(2)] .
  have "\<exists>wt'. applyAll env api japi j [(?la + 1) + 1..ci] wt1 = Some wt'"
    using Suc.hyps(1) [of wt1] Suc.hyps(2) S(2) r pos la la1 rd by simp
  then show ?case unfolding l using s(1) by (simp del: upto.simps)
qed simp

subsection \<open>A write of a client\<close>

lemma command_toRedisRequest:
  assumes "goodTx tx"
  shows "commandType (toRedisRequest tx) = WRITE" "contents (toRedisRequest tx) \<noteq> []"
    "contents (toRedisRequest tx) ! 0 \<noteq> ''JOURNAL_UPDATE_MEMBERS''"
proof -
  show w: "commandType (toRedisRequest tx) = WRITE"
  proof (cases "tx_phantom tx \<and> length (requests tx) = 1")
    case True
    then obtain r where "requests tx = [r]" by (auto simp: length_Suc_conv)
    then show ?thesis using True assms by (auto simp: toRedisRequest_def goodTx_def txInv_def)
  next
    case False
    then show ?thesis using deserialize_fused(3) [of tx] assms by (simp add: goodTx_def)
  qed
  have m: "commandType (mkRequest (contents (toRedisRequest tx))) = WRITE" using w contents_toRedisRequest [OF assms] by simp
  then show c: "contents (toRedisRequest tx) \<noteq> []" by auto
  show "contents (toRedisRequest tx) ! 0 \<noteq> ''JOURNAL_UPDATE_MEMBERS''"
    using m c by (cases "contents (toRedisRequest tx)") (auto simp: command_names)
qed

text \<open>The journal position the next write gets is beyond everything the queues wait for.\<close>

definition roomAtEnd :: "'jdb raft_journal \<Rightarrow> ('c, 'db) write_tracker \<Rightarrow> bool" where
  "roomAtEnd j wt \<longleftrightarrow> (\<forall>c. pq_lastIndex (queues wt c) < logSize j) \<and> 0 < logSize j \<and> int64 (logSize j + 1)
     \<and> logStart j \<le> lastApplied (ex_sm (wt_exec wt)) + 1 \<and> 0 \<le> lastApplied (ex_sm (wt_exec wt))
     \<and> lastApplied (ex_sm (wt_exec wt)) < logSize j"

lemma journaled_appended:
  assumes inv: "journalInv japi j" and app: "appended japi e j j'" and p: "journaled japi j p"
    and b: "logStart j \<le> pr_index p" "pr_index p < logSize j"
  shows "journaled japi j' p"
proof -
  have i: "int64 (pr_index p)" using journalInv_index [OF inv] b inv
    by (auto simp: journalInv_def bounds_def int64_def)
  obtain x where x: "entryAt japi j (pr_index p) = Some x" "fetch_or_die japi j (pr_index p) = Some x"
    using log_entry [OF inv b] by metis
  have "logStart j' \<le> pr_index p" "pr_index p < logSize j'" "entryAt japi j' (pr_index p) = Some x" "journalInv japi j'"
    using app b x(1) i by (auto simp: appended_def)
  then have "fetch_or_die japi j' (pr_index p) = Some x"
    using log_entry [of japi j' "pr_index p"] by (metis option.inject)
  then show ?thesis using p x(2) by (auto simp: journaled_def)
qed

lemma wt_append_ok:
  assumes jinv: "journalInv japi j" and inv: "trackerInv japi j wt" and room: "roomAtEnd j wt"
    and tx: "goodTx tx" "okEntry (txEntry trm tx)" "termOfLastEntry j \<le> trm" "trm \<le> currentTerm j"
    and q: "pq_attached (queues wt c)"
  shows "\<exists>j' wt'. wt_append env api (logSize j) trm tx c j japi wt = Some (True, j', wt')
    \<and> appended japi (txEntry trm tx) j j' \<and> trackerInv japi j' wt' \<and> wt_exec wt' = wt_exec wt
    \<and> queues wt' = (queues wt)(c := (queues wt c)\<lparr>pq_lastIndex := logSize j,
         pending := pending (queues wt c) @ [\<lparr>pr_tx = tx, rawResp = [], pr_index = logSize j\<rparr>]\<rparr>)"
proof -
  let ?n = "logSize j" and ?q = "queues wt c" and ?e = "txEntry trm tx"
  let ?new = "\<lparr>pr_tx = tx, rawResp = [], pr_index = ?n\<rparr>"
  let ?q' = "?q\<lparr>pq_lastIndex := ?n, pending := pending ?q @ [?new]\<rparr>"
  let ?wt' = "wt\<lparr>blockedWrites := blocked_insert ?n c (blockedWrites wt), queues := (queues wt)(c := ?q')\<rparr>"
  have e: "okLogEntry ?e" "memberEntryOk j ?e"
    using tx command_toRedisRequest [OF tx(1)] by (simp_all add: okLogEntry_def txEntry_def memberEntryOk_def)
  obtain j' where j': "appendNoLock japi ?n ?e False j = Some (True, j')" "appended japi ?e j j'"
    using append_ok [OF jinv e(1) _ _ _ e(2), of False] tx room by (auto simp: txEntry_def roomAtEnd_def)
  have old: "pr_index p < ?n" if "p \<in> set (writesOf (queues wt d))" for p d
  proof -
    have "pr_index p \<le> pq_lastIndex (queues wt d)"
      using that trackerInvD(1) [OF inv, of d] by (auto simp: queueInv_def writesOf_def dest!: bspec)
    also have "\<dots> < ?n" using room by (simp add: roomAtEnd_def)
    finally show ?thesis .
  qed
  have ws: "writesOf ?q' = writesOf ?q @ [?new]" using room by (simp add: writesOf_def roomAtEnd_def)
  have run: "wt_append env api ?n trm tx c j japi wt = Some (True, j', ?wt')"
    using j' q room by (auto simp: wt_append_def j_append_def addPendingTransaction_def roomAtEnd_def dest: spec [of _ c])
  have qi: "queueInv ?q'"
    using trackerInvD(1) [OF inv, of c] room old ws
    by (auto simp: queueInv_def sorted_wrt_append roomAtEnd_def hd_append dest!: bspec spec [of _ c] split: if_splits)
  have blk: "map_of (blocked_insert ?n c (blockedWrites wt)) k = Some d
      \<longleftrightarrow> k \<in> pr_index ` set (writesOf (((queues wt)(c := ?q')) d))" for k d
  proof -
    have "map_of (blockedWrites wt) k = Some d \<longleftrightarrow> k \<in> pr_index ` set (writesOf (queues wt d))"
      using inv by (simp add: trackerInv_def)
    moreover have "?n \<notin> pr_index ` set (writesOf (queues wt d))" using old by fastforce
    ultimately show ?thesis using ws by (cases "k = ?n"; cases "d = c") (auto simp: map_of_blocked_insert)
  qed
  have new: "journaled japi j' ?new"
  proof -
    have n: "logStart j' \<le> ?n" "?n < logSize j'" "int64 ?n" "journalInv japi j'"
      using j'(2) room by (auto simp: appended_def roomAtEnd_def int64_def)
    have "entryAt japi j' ?n = Some ?e" using j'(2) n(3) by (simp add: appended_def)
    then have "fetch_or_die japi j' ?n = Some ?e" using log_entry [OF n(4) n(1,2)] by (metis option.inject)
    then show ?thesis using tx(1) by (simp add: journaled_def txEntry_def)
  qed
  have jr: "journaled japi j' p \<and> lastApplied (ex_sm (wt_exec wt)) < pr_index p"
    if "p \<in> set (writesOf (((queues wt)(c := ?q')) d))" for p d
  proof (cases "p = ?new")
    case True
    then show ?thesis using new room by (simp add: roomAtEnd_def)
  next
    case False
    then have p: "p \<in> set (writesOf (queues wt d))" using that ws by (cases "d = c") auto
    have "logStart j \<le> pr_index p" using trackerInvD(5) [OF inv p] room by (auto simp: roomAtEnd_def)
    then show ?thesis
      using journaled_appended [OF jinv j'(2) trackerInvD(4) [OF inv p]] old [OF p] trackerInvD(5) [OF inv p] by simp
  qed
  have "trackerInv japi j' ?wt'"
    using qi blk jr trackerInvD(1) [OF inv] by (simp add: trackerInv_def)
  then show ?thesis using run j'(2) by (auto intro!: exI)
qed

text \<open>What the two steps of a request may change.\<close>

lemma addPending_sm:
  "addPendingTransaction env api t i ex q = Some (ex', q') \<Longrightarrow> ex_sm ex' = ex_sm ex"
  by (auto simp: addPendingTransaction_def Option.bind_eq_Some_conv assert_that_def Let_def dest: runTx_read split: if_splits)

lemma reply_frame:
  assumes "reply r c wt = Some wt'"
  shows "wt_exec wt' = wt_exec wt" "blockedWrites wt' = blockedWrites wt" "d \<noteq> c \<Longrightarrow> queues wt' d = queues wt d"
  using assms by (auto simp: reply_def Option.bind_eq_Some_conv)

lemma service_frame:
  assumes "service env api staleReads sn tx c wt = Some (out, wt')"
  shows "ex_sm (wt_exec wt') = ex_sm (wt_exec wt)" "blockedWrites wt' = blockedWrites wt"
    "d \<noteq> c \<Longrightarrow> queues wt' d = queues wt d"
  using assms
  by (auto simp: service_def Let_def Option.bind_eq_Some_conv reply_frame dest: addPending_sm runTx_read split: if_splits)

lemma service_decision:
  assumes "service env api staleReads sn tx c wt = Some (out, wt')"
  shows "out = Submit tx' \<longleftrightarrow> sn_status sn = LEADER \<and> sn_leadershipMarker sn \<le> lastApplied (ex_sm (wt_exec wt)) \<and> hasWrites tx
      \<and> leaseFilter (getDynamicClock (env_now env) (ex_sm (wt_exec wt))) tx = Some tx'"
    "out = Wait \<longleftrightarrow> sn_status sn = LEADER \<and> lastApplied (ex_sm (wt_exec wt)) < sn_leadershipMarker sn"
    "out \<noteq> Done \<Longrightarrow> wt' = wt"
  using assms by (auto simp: service_def Let_def Option.bind_eq_Some_conv split: if_splits)

lemma submit_effect:
  assumes "submit env api japi sn tx c n wt = Some (out, n', wt')"
  shows "out = Done \<and> j_append japi (logSize (journal n)) (txEntry (sn_term sn) tx) False (journal n) = Some (True, journal n')
        \<and> n' = n\<lparr>journal := journal n'\<rparr> \<and> blockedWrites wt' = blocked_insert (logSize (journal n)) c (blockedWrites wt)
      \<or> out = Retry tx \<and> n' = n \<and> wt' = wt"
    "ex_sm (wt_exec wt') = ex_sm (wt_exec wt)" "d \<noteq> c \<Longrightarrow> queues wt' d = queues wt d"
  using assms
  by (auto simp: submit_def wt_append_def j_append_def Option.bind_eq_Some_conv assert_that_def appendNoLock_def
      dest: addPending_sm split: if_splits)

text \<open>The journal looks at the terms only: whether the node still leads does not matter.\<close>

lemma submit_ok:
  assumes "journalInv japi (journal n)" "trackerInv japi (journal n) wt" "roomAtEnd (journal n) wt"
    and "goodTx tx" "okEntry (txEntry (sn_term sn) tx)" "pq_attached (queues wt c)"
    and "termOfLastEntry (journal n) \<le> sn_term sn" "sn_term sn \<le> currentTerm (journal n)"
  shows "\<exists>n' wt'. submit env api japi sn tx c n wt = Some (Done, n', wt')
    \<and> appended japi (txEntry (sn_term sn) tx) (journal n) (journal n') \<and> trackerInv japi (journal n') wt'"
  using wt_append_ok [OF assms(1-5,7,8,6), of env api] by (auto simp: submit_def)

lemma locked_retry_undefined:
  assumes "service env api staleReads sn tx c wt = Some (Submit tx', wt')"
  shows "serviceLocked env api staleReads sn tx c wt = None"
  using assms by (simp add: serviceLocked_def)

text \<open>
  The flush empties every queue, so queues and journal agree whatever happens to the journal next;
  the handler with its write tracker does to the node what \<open>appendEntries\<close> does.
\<close>

lemma flushLoop_pending: "flushLoop msg q ps = Some q' \<Longrightarrow> pending q' = []"
  by (induction ps arbitrary: q) (auto simp: Option.bind_eq_Some_conv split: if_splits)

lemma blocked_flush_pending:
  assumes "blocked_flush r bw qs = Some qs'"
  shows "pending (qs' c) = (if c \<in> snd ` set bw then [] else pending (qs c))"
  using assms
proof (induction bw arbitrary: qs)
  case (Cons e bw)
  obtain q where q: "flushPending r (qs (snd e)) = Some q" "blocked_flush r bw (qs(snd e := q)) = Some qs'"
    using Cons.prems by (cases e) (auto simp: Option.bind_eq_Some_conv)
  from q(1) have "pending q = []" by (auto simp: flushPending_def Option.bind_eq_Some_conv dest: flushLoop_pending)
  with Cons.IH [OF q(2)] show ?case by auto
qed simp

lemma flushQueues_empty:
  assumes inv: "trackerInv japi j wt" and f: "flushQueues r wt = Some wt'"
  shows "pending (queues wt' c) = []" "trackerInv japi j' wt'"
proof -
  obtain qs where qs: "blocked_flush r (blockedWrites wt) (queues wt) = Some qs" "wt' = wt\<lparr>queues := qs, blockedWrites := []\<rparr>"
    using f by (auto simp: flushQueues_def Option.bind_eq_Some_conv)
  show empty: "pending (queues wt' c) = []" for c
  proof (cases "pending (queues wt c) = []")
    case True
    then show ?thesis using blocked_flush_pending [OF qs(1), of c] qs(2) by simp
  next
    case False
    then have "hd (pending (queues wt c)) \<in> set (writesOf (queues wt c))"
      using trackerInvD(1) [OF inv, of c] by (cases "pending (queues wt c)") (auto simp: queueInv_def writesOf_def)
    from map_of_SomeD [OF trackerInvD(3) [OF inv this]] have "c \<in> snd ` set (blockedWrites wt)" by force
    then show ?thesis using blocked_flush_pending [OF qs(1), of c] qs(2) by simp
  qed
  show "trackerInv japi j' wt'" using empty qs(2) by (simp add: trackerInv_def queueInv_def writesOf_def)
qed

lemma appendEntriesFlushing_node:
  assumes "appendEntriesFlushing japi now req n hb wt = Some (ans, n', hb', wt')"
  shows "appendEntries japi now (lastApplied (ex_sm (wt_exec wt))) req n hb = Some (ans, n', hb')"
    "wt_exec wt' = wt_exec wt" "wt' = wt \<or> (\<exists>l. flushQueues (f_moved 0 l) wt = Some wt')"
proof -
  obtain rsp m h where hb: "heartbeat japi now \<lparr>hb_term = ae_term req, hb_leader = ae_leader req\<rparr> n hb = Some (rsp, m, h)"
    using assms by (auto simp: appendEntriesFlushing_def Option.bind_eq_Some_conv)
  have f: "wt_exec w = wt_exec wt" if "flushQueues r wt = Some w" for r w
    using that by (auto simp: flushQueues_def Option.bind_eq_Some_conv)
  show "appendEntries japi now (lastApplied (ex_sm (wt_exec wt))) req n hb = Some (ans, n', hb')"
    using assms hb f
    by (cases "nodeRecognizedAsLeader rsp"; cases "flushQueues (f_moved 0 (n_leader m)) wt")
      (auto simp: appendEntriesFlushing_def appendEntries_def Option.bind_eq_Some_conv)
  show "wt' = wt \<or> (\<exists>l. flushQueues (f_moved 0 l) wt = Some wt')"
    using assms hb
    by (cases "nodeRecognizedAsLeader rsp"; cases "flushQueues (f_moved 0 (n_leader m)) wt")
      (auto simp: appendEntriesFlushing_def Option.bind_eq_Some_conv)
  then show "wt_exec wt' = wt_exec wt" using f by auto
qed

end
