(* ===== verification/FrontendProperties.thy ===== *)
theory FrontendProperties
  imports DispatchSpec ParserStreams WriteTrackers RaftProperties
begin

text \<open>
  The properties of the path of a request: from the bytes on the link to the transaction, from the
  transaction to the journal, from the committed entry to the state machine and back to the client.
\<close>

subsection \<open>Samples\<close>

definition sampleFloat :: "nat float_ops" where
  "sampleFloat = \<lparr>my_strtod = (\<lambda>_. None), fl_zero = 0, fl_add = (+), fl_to_string = (\<lambda>n. to_string (int n))\<rparr>"

definition sampleEnv :: "(mem_db, mem_wb, nat) dispatch_env" where
  "sampleEnv = \<lparr>env_behind = CHR 0x0D, env_float = sampleFloat, env_statusText = (\<lambda>_. ''error''), env_internalKeys = (\<lambda>_ _. []),
     env_batchInternalKeys = (\<lambda>_ _ _. []), env_versions = (\<lambda>_ _. (OK, [])), env_now = 0\<rparr>"

definition sampleCommands :: "acommand list" where
  "sampleCommands = [CSet ''k'' ''v'', CGet ''k'', CHset ''h'' ''f'' ''x'', CSadd ''h'' [''x''], CDel [''h'']]"

text \<open>Two connections; the first, \<open>False\<close>, is the one that sends.\<close>

definition idleTracker :: "(bool, mem_db) write_tracker" where
  "idleTracker = \<lparr>blockedWrites = [], queues = (\<lambda>_. newQueue), wt_exec = \<lparr>ex_sm = sampleMachine, ex_published = []\<rparr>\<rparr>"

lemma sample_absVal [simp]: "absVal (db_view memApi sampleMachine) k = ANone"
  using sample_value [of k] smInvD(5) [OF sample_smInv, of False] by (simp add: valueOf_def sampleArea_def)

lemma sample_applicable: "allApplicable sampleCommands (absVal (db_view memApi sampleMachine))"
  by (auto simp: sampleCommands_def stringVal_def effect_def wrongType_def smallHash_def smallSet_def)

subsection \<open>Transactions\<close>

lemma more_names:
  "findCommand ''EXISTS'' = Read EXISTS" "findCommand ''DEL'' = Write DEL" "findCommand ''FLUSHALL'' = Write FLUSHALL"
  "findCommand ''HSETNX'' = Write HSETNX" "findCommand ''HMSET'' = Write HMSET" "findCommand ''HINCRBY'' = Write HINCRBY"
  "findCommand ''HGET'' = Read HGET" "findCommand ''HDEL'' = Write HDEL" "findCommand ''HEXISTS'' = Read HEXISTS"
  "findCommand ''HLEN'' = Read HLEN" "findCommand ''HKEYS'' = Read HKEYS" "findCommand ''HVALS'' = Read HVALS"
  "findCommand ''HGETALL'' = Read HGETALL" "findCommand ''SADD'' = Write SADD" "findCommand ''SREM'' = Write SREM"
  "findCommand ''SMOVE'' = Write SMOVE" "findCommand ''SCARD'' = Read SCARD" "findCommand ''SMEMBERS'' = Read SMEMBERS"
  "findCommand ''LHSET'' = Write LHSET" "findCommand ''LHMSET'' = Write LHMSET" "findCommand ''LHDEL'' = Write LHDEL"
  "findCommand ''LHGET'' = Read LHGET" "findCommand ''LHLEN'' = Read LHLEN"
  by (simp_all add: normalize_name, unfold lookup_name, simp_all)

lemma wire_plain: "plainRequest (wire c)" "readOrWrite (wire c)"
  by (cases c; simp add: plainRequest_def readOrWrite_def mkRequest_def parseCommand_def command_names more_names)+

text \<open>Every string of the commands is shorter than \<open>2 ^ 63\<close> bytes, and so is the packed transaction.\<close>

definition shortCommands :: "acommand list \<Rightarrow> bool" where
  "shortCommands cs \<longleftrightarrow> shortParts (txOf cs) \<and> length (tx_serialize (txOf cs)) < 2 ^ 63"

lemma txOf_good:
  assumes "shortCommands cs" "\<exists>c \<in> set cs. commandType (wire c) = WRITE"
  shows "goodTx (txOf cs)" "int64 trm \<Longrightarrow> okEntry (txEntry trm (txOf cs))"
proof -
  have inv: "txInv (txOf cs)" using wire_plain(2) by (auto simp: txInv_def txOf_def)
  then show "goodTx (txOf cs)" using assms by (simp add: goodTx_def shortCommands_def txOf_def)
  have np: "\<not> tx_phantom (txOf cs)" by (simp add: txOf_def)
  then have "contents (toRedisRequest (txOf cs)) = [getFusedCommand (txOf cs), tx_serialize (txOf cs), ''real'']"
    by (simp add: toRedisRequest_def request_push_back_def emptyRequest_def parseCommand_def)
  then show "int64 trm \<Longrightarrow> okEntry (txEntry trm (txOf cs))"
    using assms(1) by (simp add: okEntry_def txEntry_def shortCommands_def getFusedCommand_def)
qed



lemma sample_has_write: "sampleCommands \<noteq> []" "\<exists>c \<in> set sampleCommands. commandType (wire c) = WRITE"
  by (simp_all add: sampleCommands_def)


subsection \<open>From the client to the journal and back\<close>

text \<open>A node whose state machine has caught up with its journal has no request waiting.\<close>

lemma caught_up_idle:
  assumes inv: "trackerInv japi j wt" and room: "roomAtEnd j wt" and up: "lastApplied (ex_sm (wt_exec wt)) = logSize j - 1"
  shows "pending (queues wt d) = []"
proof (rule ccontr)
  assume ne: "pending (queues wt d) \<noteq> []"
  then have "hd (pending (queues wt d)) \<in> set (writesOf (queues wt d))"
    using trackerInvD(1) [OF inv, of d] by (cases "pending (queues wt d)") (auto simp: queueInv_def writesOf_def)
  note p = trackerInvD(5) [OF inv this] this
  have "pr_index (hd (pending (queues wt d))) \<le> pq_lastIndex (queues wt d)"
    using trackerInvD(1) [OF inv, of d] p(2) by (auto simp: queueInv_def writesOf_def dest!: bspec split: if_splits)
  then show False using p(1) up room by (auto simp: roomAtEnd_def dest: spec [of _ d])
qed

lemma client_transaction_ok:
  assumes "journalInv japi j" "trackerInv japi j wt" "roomAtEnd j wt" "lastApplied (ex_sm (wt_exec wt)) = logSize j - 1"
    and "termOfLastEntry j \<le> trm" "trm \<le> currentTerm j" "int64 trm" "pq_attached (queues wt c)"
    and "smInv api (ex_sm (wt_exec wt)) clk" "cs \<noteq> []" "\<exists>x \<in> set cs. commandType (wire x) = WRITE" "shortCommands cs"
    and "allApplicable cs \<sigma>" "\<sigma> = absVal (db_view api (ex_sm (wt_exec wt)))"
  shows "\<exists>j' wt1 wt2. wt_append env api (logSize j) trm (txOf cs) c j japi wt = Some (True, j', wt1)
    \<and> appended japi (txEntry trm (txOf cs)) j j' \<and> pq_sent (queues wt1 c) = pq_sent (queues wt c)
    \<and> updatedCommitIndex env api japi j' (logSize j) wt1 = Some wt2
    \<and> pq_sent (queues wt2 c) = pq_sent (queues wt c) @ [f_array (answers env cs \<sigma>)]
    \<and> (\<forall>d. d \<noteq> c \<longrightarrow> queues wt2 d = queues wt d)
    \<and> smInv api (ex_sm (wt_exec wt2)) clk \<and> lastApplied (ex_sm (wt_exec wt2)) = logSize j
    \<and> (\<forall>k. okKey k \<longrightarrow> absVal (db_view api (ex_sm (wt_exec wt2))) k = effects cs \<sigma> k)"
proof -
  let ?n = "logSize j" and ?new = "\<lparr>pr_tx = txOf cs, rawResp = [], pr_index = logSize j\<rparr>"
  note good = txOf_good [OF assms(12,11)]
  obtain j' wt1 where a: "wt_append env api ?n trm (txOf cs) c j japi wt = Some (True, j', wt1)"
      "appended japi (txEntry trm (txOf cs)) j j'" "trackerInv japi j' wt1" "wt_exec wt1 = wt_exec wt"
      and q: "queues wt1 = (queues wt)(c := (queues wt c)\<lparr>pq_lastIndex := ?n, pending := pending (queues wt c) @ [?new]\<rparr>)"
    using wt_append_ok [OF assms(1-3) good(1) good(2) [OF assms(7)] assms(5,6,8), of env api] by blast
  have pend: "pending (queues wt1 c) = [?new]" using caught_up_idle [OF assms(2-4)] by (simp add: q)
  have n: "0 < ?n" "int64 ?n" using assms(3) by (auto simp: roomAtEnd_def int64_def)
  have blk: "map_of (blockedWrites wt1) ?n = Some c"
    using trackerInvD(3) [OF a(3), of ?new c] pend n(1) by (simp add: writesOf_def)
  obtain sm' t where run: "dispatchTxCommit env api (ex_sm (wt_exec wt)) (txOf cs) ?n = Some (f_array (answers env cs \<sigma>), sm', t)"
      "smInv api sm' clk" "lastApplied sm' = ?n" "\<forall>k. okKey k \<longrightarrow> absVal (db_view api sm') k = effects cs \<sigma> k"
    using transaction_implements [OF assms(9-11) _ _ n(2), of env] assms(4,13,14) by auto
  have "applySingleCommit env api japi j' ?n wt1 = Some (wt1\<lparr>blockedWrites := snd (popIndex ?n (blockedWrites wt1)),
      queues := (queues wt1)(c := (pq_send (f_array (answers env cs \<sigma>)) (queues wt1 c))\<lparr>pending := []\<rparr>),
      wt_exec := \<lparr>ex_sm = sm', ex_published = ex_published (wt_exec wt) @ (if t = Map.empty then [] else [t])\<rparr>\<rparr>)"
    using blk pend n(1) run(1) by (simp add: applySingleCommit_def popIndex_def dispatchPending_def runTx_def a(4))
  moreover have "[lastApplied (ex_sm (wt_exec wt1)) + 1..?n] = [?n]" by (simp add: a(4) assms(4))
  ultimately have "\<exists>wt2. updatedCommitIndex env api japi j' ?n wt1 = Some wt2
    \<and> pq_sent (queues wt2 c) = pq_sent (queues wt c) @ [f_array (answers env cs \<sigma>)]
    \<and> (\<forall>d. d \<noteq> c \<longrightarrow> queues wt2 d = queues wt d) \<and> ex_sm (wt_exec wt2) = sm'"
    using assms(8) by (simp add: updatedCommitIndex_def q pq_send_def)
  moreover have "pq_sent (queues wt1 c) = pq_sent (queues wt c)" by (simp add: q)
  ultimately show ?thesis using a(1,2) run(2-4) by metis
qed


lemma sample_tracker [simp]:
  "trackerInv memApi sampleJournal idleTracker" "roomAtEnd sampleJournal idleTracker"
  "ex_sm (wt_exec idleTracker) = sampleMachine" "lastApplied sampleMachine = 0" "queues idleTracker c = newQueue"
  by (simp_all add: trackerInv_def idleTracker_def queueInv_def writesOf_def newQueue_def roomAtEnd_def int64_def sampleMachine_def)

lemma sample_shortCommands: "shortCommands sampleCommands"
  by (simp add: shortCommands_def sampleCommands_def shortParts_def txOf_def tx_serialize_def serializeRequestToString_def
      plainRequest_def mkRequest_def parseCommand_def command_names more_names)


text \<open>The sample node with a transaction in its journal that a client waits for, and after its commit.\<close>

definition sampleStep :: "bool \<times> mem_db raft_journal \<times> (bool, mem_db) write_tracker" where
  "sampleStep = the (wt_append sampleEnv memApi 1 0 (txOf sampleCommands) False sampleJournal memApi idleTracker)"

definition busyJournal :: "mem_db raft_journal" where "busyJournal = fst (snd sampleStep)"
definition busyTracker :: "(bool, mem_db) write_tracker" where "busyTracker = snd (snd sampleStep)"

definition servedTracker :: "(bool, mem_db) write_tracker" where
  "servedTracker = the (updatedCommitIndex sampleEnv memApi memApi busyJournal 1 busyTracker)"

lemma sample_busy:
  "trackerInv memApi busyJournal busyTracker" "ex_sm (wt_exec busyTracker) = sampleMachine" "queues busyTracker False = newQueue\<lparr>pq_lastIndex := 1, pending := [\<lparr>pr_tx = txOf sampleCommands, rawResp = [], pr_index = 1\<rparr>]\<rparr>"
  "updatedCommitIndex sampleEnv memApi memApi busyJournal 1 busyTracker = Some servedTracker"
  "map_of (blockedWrites busyTracker) 1 = Some False" "pq_attached (queues busyTracker False)"
  "smInv memApi (ex_sm (wt_exec servedTracker)) 0" "absVal (db_view memApi (ex_sm (wt_exec servedTracker))) ''k'' = AString ''v''"
  "queues busyTracker True = newQueue"
proof -
  obtain j1 t1 t2 where c: "wt_append sampleEnv memApi (logSize sampleJournal) 0 (txOf sampleCommands) False sampleJournal memApi idleTracker = Some (True, j1, t1)"
      "updatedCommitIndex sampleEnv memApi memApi j1 (logSize sampleJournal) t1 = Some t2" "smInv memApi (ex_sm (wt_exec t2)) 0"
      "absVal (db_view memApi (ex_sm (wt_exec t2))) ''k'' = effects sampleCommands (absVal (db_view memApi sampleMachine)) ''k''"
    using client_transaction_ok [where japi = memApi and j = sampleJournal and wt = idleTracker and trm = 0 and c = False and api = memApi
        and clk = 0 and cs = sampleCommands and env = sampleEnv]
      sample_has_write sample_shortCommands sample_applicable
    by (auto simp: int64_def newQueue_def)
  from c(1) have e: "busyJournal = j1" "busyTracker = t1" by (simp_all add: busyJournal_def busyTracker_def sampleStep_def)
  show "updatedCommitIndex sampleEnv memApi memApi busyJournal 1 busyTracker = Some servedTracker"
    using c(2) by (simp add: servedTracker_def e)
  then have "servedTracker = t2" using c(2) by (simp add: e)
  then show "smInv memApi (ex_sm (wt_exec servedTracker)) 0" "absVal (db_view memApi (ex_sm (wt_exec servedTracker))) ''k'' = AString ''v''"
    using c(3,4) by (simp_all add: sampleCommands_def stringVal_def effect_def wrongType_def)
  obtain j2 t3 where w: "wt_append sampleEnv memApi (logSize sampleJournal) 0 (txOf sampleCommands) False sampleJournal memApi idleTracker = Some (True, j2, t3)"
      "trackerInv memApi j2 t3" "wt_exec t3 = wt_exec idleTracker"
      "queues t3 = (queues idleTracker)(False := (queues idleTracker False)\<lparr>pq_lastIndex := logSize sampleJournal,
         pending := pending (queues idleTracker False) @ [\<lparr>pr_tx = txOf sampleCommands, rawResp = [], pr_index = logSize sampleJournal\<rparr>]\<rparr>)"
    using wt_append_ok [where tx = "txOf sampleCommands" and trm = 0 and wt = idleTracker and j = sampleJournal and japi = memApi
        and env = sampleEnv and api = memApi and c = False]
      txOf_good [OF sample_shortCommands sample_has_write(2)] by (auto simp: int64_def newQueue_def)
  then have e': "busyJournal = j2" "busyTracker = t3" using c(1) e by simp_all
  show "trackerInv memApi busyJournal busyTracker" "ex_sm (wt_exec busyTracker) = sampleMachine"
    using w(2,3) by (simp_all add: e')
  show q: "queues busyTracker False = newQueue\<lparr>pq_lastIndex := 1, pending := [\<lparr>pr_tx = txOf sampleCommands, rawResp = [], pr_index = 1\<rparr>]\<rparr>"
    using w(4) by (simp add: e' newQueue_def)
  show "queues busyTracker True = newQueue" using w(4) by (simp add: e')
  from q show "pq_attached (queues busyTracker False)" by (simp add: newQueue_def)
  show "map_of (blockedWrites busyTracker) 1 = Some False"
    using trackerInvD(3) [OF w(2), where c = False] q by (simp add: e' writesOf_def)
qed

text \<open>
C9. Moving the commit index of a node applies exactly the entries of the journal from the next one
to that index, in order and once each, whether clients wait for them or not.
\<close>

theorem commits_follow_journal:
  assumes "trackerInv japi j wt" "0 \<le> lastApplied (ex_sm (wt_exec wt))" "updatedCommitIndex env api japi j ci wt = Some wt'"
  shows "applyJournal env api japi j [lastApplied (ex_sm (wt_exec wt)) + 1..ci] (ex_sm (wt_exec wt)) = Some (ex_sm (wt_exec wt'))
    \<and> trackerInv japi j wt'"
  using updatedCommitIndex_sound [OF assms(1,2)] assms(3) by (simp add: updatedCommitIndex_def)

theorem commits_follow_journal_witness:
  "applyJournal sampleEnv memApi memApi busyJournal [lastApplied (ex_sm (wt_exec busyTracker)) + 1..1] (ex_sm (wt_exec busyTracker))
      = Some (ex_sm (wt_exec servedTracker))
    \<and> trackerInv memApi busyJournal servedTracker"
  by (rule commits_follow_journal) (simp_all add: sample_busy)

text \<open>
C19. When the entries up to a commit index can be applied by themselves, and the machine can
answer the reads that wait in the queues of the clients in each of the states it goes through,
then the write tracker applies the entries and ends in the same state.
\<close>

theorem commits_proceed:
  assumes "trackerInv japi j wt" "0 \<le> lastApplied (ex_sm (wt_exec wt))"
    and "readsAnsweredUpTo env api japi j ci (ex_sm (wt_exec wt)) wt"
    and "applyJournal env api japi j [lastApplied (ex_sm (wt_exec wt)) + 1..ci] (ex_sm (wt_exec wt)) = Some sm"
  shows "\<exists>wt'. updatedCommitIndex env api japi j ci wt = Some wt' \<and> ex_sm (wt_exec wt') = sm"
  using updatedCommitIndex_total [OF assms] updatedCommitIndex_sound [OF assms(1,2), of env api ci] assms(4)
  by (fastforce simp: updatedCommitIndex_def)

lemma sample_busy_journal:
  "applyJournal sampleEnv memApi memApi busyJournal [lastApplied (ex_sm (wt_exec busyTracker)) + 1..1] (ex_sm (wt_exec busyTracker))
     = Some (ex_sm (wt_exec servedTracker))"
  using updatedCommitIndex_sound [OF sample_busy(1), where env = sampleEnv and api = memApi and ci = 1 and wt' = servedTracker] sample_busy(2,4)
  by (simp add: updatedCommitIndex_def)

text \<open>A client that waits for its write and has sent a read behind it.\<close>

definition readingTracker :: "(bool, mem_db) write_tracker" where
  "readingTracker = busyTracker\<lparr>queues := (queues busyTracker)(False := (queues busyTracker False)\<lparr>pending :=
     pending (queues busyTracker False) @ [\<lparr>pr_tx = txOf [CGet ''k''], rawResp = [], pr_index = -1\<rparr>]\<rparr>)\<rparr>"

lemma sample_reading:
  "trackerInv memApi busyJournal readingTracker" "ex_sm (wt_exec readingTracker) = sampleMachine"
  "readsAnsweredUpTo sampleEnv memApi memApi busyJournal 1 (ex_sm (wt_exec readingTracker)) readingTracker"
proof -
  let ?sm = "ex_sm (wt_exec servedTracker)"
  let ?st = "newStagingArea memApi ?sm True"
  have w: "writesOf (queues readingTracker c) = writesOf (queues busyTracker c)" for c
    by (simp add: readingTracker_def writesOf_def)
  have q: "queueInv (queues readingTracker c)" for c
    using trackerInvD(1) [OF sample_busy(1), of c] sample_busy(3)
    by (cases c) (auto simp: readingTracker_def queueInv_def writesOf_def txOf_def)
  have wt: "blockedWrites readingTracker = blockedWrites busyTracker" "wt_exec readingTracker = wt_exec busyTracker"
    by (simp_all add: readingTracker_def)
  show "trackerInv memApi busyJournal readingTracker"
    using sample_busy(1) q unfolding trackerInv_def w wt by blast
  show sm: "ex_sm (wt_exec readingTracker) = sampleMachine" by (simp add: wt sample_busy(2))
  have v: "sa_readable memApi ?st" "sa_view memApi ?st = db_view memApi ?sm" "storeInv (db_view memApi ?sm)"
    using smInvD [OF sample_busy(7)] leaseReadyD(3) [OF smInvD(2) [OF sample_busy(7)]]
      newStagingArea_readable [of memApi ?sm True] by simp_all
  have "get_op memApi ?st ''k'' = Some (OK, ''v'')"
    using get_ok [OF v(1), of "''k''" "''v''"] v(2,3) sample_busy(8) by (simp add: valueOf_def)
  then have read: "dispatchTxCommit sampleEnv memApi ?sm (txOf [CGet ''k'']) (-1) \<noteq> None"
    by (simp add: dispatchTxCommit_def dispatchTransaction_def txOf_def readWriteLoop_Cons dispatch_defs arrayResponse_real)
  have ans: "readsAnswered sampleEnv memApi ?sm readingTracker"
    unfolding readsAnswered_def
  proof (intro allI ballI impI)
    fix c p assume "p \<in> set (pending (queues readingTracker c))" "pr_index p \<le> 0 \<and> rawResp p = []"
    then have "p = \<lparr>pr_tx = txOf [CGet ''k''], rawResp = [], pr_index = -1\<rparr>"
      using sample_busy(3,9) by (cases c) (auto simp: readingTracker_def newQueue_def)
    then show "dispatchTxCommit sampleEnv memApi ?sm (pr_tx p) (pr_index p) \<noteq> None" using read by simp
  qed
  have j: "applyJournal sampleEnv memApi memApi busyJournal [0 + 1..1] sampleMachine = Some ?sm"
    using sample_busy_journal by (simp add: sample_busy(2))
  show "readsAnsweredUpTo sampleEnv memApi memApi busyJournal 1 (ex_sm (wt_exec readingTracker)) readingTracker"
    unfolding readsAnsweredUpTo_def sm
  proof (intro allI impI, elim conjE)
    fix i sm' assume i: "lastApplied sampleMachine < i" "i \<le> 1"
        "applyJournal sampleEnv memApi memApi busyJournal [lastApplied sampleMachine + 1..i] sampleMachine = Some sm'"
    then have "i = 1" by simp
    then have "sm' = ?sm" using i(3) j by simp
    then show "readsAnswered sampleEnv memApi sm' readingTracker" using ans by simp
  qed
qed

theorem commits_proceed_witness:
  "pending (queues readingTracker False) \<noteq> writesOf (queues readingTracker False)
    \<and> (\<exists>wt'. updatedCommitIndex sampleEnv memApi memApi busyJournal 1 readingTracker = Some wt' \<and> ex_sm (wt_exec wt') = ex_sm (wt_exec servedTracker))"
proof -
  have "pending (queues readingTracker False) \<noteq> writesOf (queues readingTracker False)"
    by (simp add: readingTracker_def sample_busy(3) writesOf_def)
  moreover have "\<exists>wt'. updatedCommitIndex sampleEnv memApi memApi busyJournal 1 readingTracker = Some wt' \<and> ex_sm (wt_exec wt') = ex_sm (wt_exec servedTracker)"
    by (rule commits_proceed [OF sample_reading(1) _ sample_reading(3)]) (use sample_busy_journal in \<open>simp_all add: sample_reading(2) sample_busy(2)\<close>)
  ultimately show ?thesis by blast
qed

theorem committed_write_answered:
  assumes "trackerInv japi j wt" "i = lastApplied (ex_sm (wt_exec wt)) + 1" "map_of (blockedWrites wt) i = Some c"
    and "pq_attached (queues wt c)" "applySingleCommit env api japi j i wt = Some wt'"
  shows "\<exists>p r t later. hd (pending (queues wt c)) = p \<and> pr_index p = i
    \<and> dispatchTxCommit env api (ex_sm (wt_exec wt)) (pr_tx p) i = Some (r, ex_sm (wt_exec wt'), t)
    \<and> pq_sent (queues wt' c) = pq_sent (queues wt c) @ r # later \<and> (\<forall>d. d \<noteq> c \<longrightarrow> queues wt' d = queues wt d)"
proof (rule applySingleCommit_blocked [OF assms(1-3,5)])
  fix p ps r ex q bw
  assume p: "pending (queues wt c) = p # ps" "pr_index p = i" and run: "runTx env api (wt_exec wt) (pr_tx p) i = Some (r, ex)"
    and w: "wt' = wt\<lparr>blockedWrites := bw, queues := (queues wt)(c := q), wt_exec := ex\<rparr>"
    and s: "pq_attached (queues wt c) \<Longrightarrow> \<exists>rest. pq_sent q = pq_sent (queues wt c) @ r # rest"
  obtain t where "dispatchTxCommit env api (ex_sm (wt_exec wt)) (pr_tx p) i = Some (r, ex_sm ex, t)"
    using run by (auto simp: runTx_def Option.bind_eq_Some_conv)
  with p w s [OF assms(4)] show ?thesis by auto
qed

theorem committed_write_answered_witness:
  "\<exists>p r t later. hd (pending (queues busyTracker False)) = p \<and> pr_index p = 1
    \<and> dispatchTxCommit sampleEnv memApi (ex_sm (wt_exec busyTracker)) (pr_tx p) 1 = Some (r, ex_sm (wt_exec servedTracker), t)
    \<and> pq_sent (queues servedTracker False) = pq_sent (queues busyTracker False) @ r # later
    \<and> (\<forall>d. d \<noteq> False \<longrightarrow> queues servedTracker d = queues busyTracker d)"
  by (rule committed_write_answered [OF sample_busy(1) _ sample_busy(5,6)])
    (use sample_busy(4) in \<open>simp_all add: sample_busy(2) updatedCommitIndex_def Option.bind_eq_Some_conv\<close>)

text \<open>
C18. A request changes at most the queue of its own connection. From the snapshot of the raft
state alone it is decided that a write goes to the journal, exactly when the snapshot says that
the node leads and the machine has applied the leadership marker, and that a request of a leader
waits until then. Under the lock the write is put at the end of the journal with the term of the
snapshot and its connection waits for that index, or the journal refuses it, nothing changes and
it is tried again.
\<close>

theorem service_safety:
  assumes "service env api staleReads sn tx c wt = Some (out, wt1)"
  shows "(\<forall>d. d \<noteq> c \<longrightarrow> queues wt1 d = queues wt d) \<and> ex_sm (wt_exec wt1) = ex_sm (wt_exec wt)
      \<and> blockedWrites wt1 = blockedWrites wt
    \<and> (\<forall>tx'. out = Submit tx' \<longleftrightarrow> sn_status sn = LEADER \<and> sn_leadershipMarker sn \<le> lastApplied (ex_sm (wt_exec wt)) \<and> hasWrites tx
        \<and> leaseFilter (getDynamicClock (env_now env) (ex_sm (wt_exec wt))) tx = Some tx')
    \<and> (out = Wait \<longleftrightarrow> sn_status sn = LEADER \<and> lastApplied (ex_sm (wt_exec wt)) < sn_leadershipMarker sn)
    \<and> (out \<noteq> Done \<longrightarrow> wt1 = wt)
    \<and> (\<forall>tx' n w out' n' w'. out = Submit tx' \<and> submit env api japi sn tx' c n w = Some (out', n', w') \<longrightarrow>
        (\<forall>d. d \<noteq> c \<longrightarrow> queues w' d = queues w d) \<and> ex_sm (wt_exec w') = ex_sm (wt_exec w)
        \<and> (out' = Done \<and> j_append japi (logSize (journal n)) (txEntry (sn_term sn) tx') False (journal n) = Some (True, journal n')
             \<and> n' = n\<lparr>journal := journal n'\<rparr> \<and> blockedWrites w' = blocked_insert (logSize (journal n)) c (blockedWrites w)
           \<or> out' = Retry tx' \<and> n' = n \<and> w' = w))"
proof (intro conjI)
  show "\<forall>tx' n w out' n' w'. out = Submit tx' \<and> submit env api japi sn tx' c n w = Some (out', n', w') \<longrightarrow>
      (\<forall>d. d \<noteq> c \<longrightarrow> queues w' d = queues w d) \<and> ex_sm (wt_exec w') = ex_sm (wt_exec w)
      \<and> (out' = Done \<and> j_append japi (logSize (journal n)) (txEntry (sn_term sn) tx') False (journal n) = Some (True, journal n')
           \<and> n' = n\<lparr>journal := journal n'\<rparr> \<and> blockedWrites w' = blocked_insert (logSize (journal n)) c (blockedWrites w)
         \<or> out' = Retry tx' \<and> n' = n \<and> w' = w)"
    by (intro allI impI, elim conjE, intro conjI) (blast dest: submit_effect)+
qed (use service_frame [OF assms] service_decision [OF assms] in blast)+

text \<open>A snapshot in which the sample node leads, and the write of one of two clients.\<close>

definition leaderSnapshot :: state_snapshot where
  "leaderSnapshot = \<lparr>sn_term = 0, sn_status = LEADER, sn_leader = sampleServer, sn_votedFor = sampleServer, sn_leadershipMarker = 0\<rparr>"

lemma sample_submit:
  "service sampleEnv memApi False leaderSnapshot (txOf sampleCommands) False idleTracker = Some (Submit (txOf sampleCommands), idleTracker)"
proof -
  have "\<not> isLeaseCommand (wire c)" for c by (cases c) (simp_all add: isLeaseCommand_def)
  then have "leaseTransformAll t (map wire cs) = Some (map wire cs)" for t cs
    by (induction cs) simp_all
  then have "leaseFilter t (txOf cs) = Some (txOf cs)" for t cs by (simp add: leaseFilter_def txOf_def)
  moreover have "hasWrites (txOf sampleCommands)" using sample_has_write(2) by (simp add: txOf_def)
  ultimately show ?thesis by (simp add: service_def leaderSnapshot_def Let_def)
qed

theorem service_safety_witness:
  "\<exists>n' w'. service sampleEnv memApi False leaderSnapshot (txOf sampleCommands) False idleTracker = Some (Submit (txOf sampleCommands), idleTracker)
    \<and> submit sampleEnv memApi memApi leaderSnapshot (txOf sampleCommands) False sampleNode idleTracker = Some (Done, n', w')
    \<and> queues w' True = queues idleTracker True \<and> blockedWrites w' = blocked_insert 1 False (blockedWrites idleTracker)
    \<and> j_append memApi 1 (txEntry 0 (txOf sampleCommands)) False sampleJournal = Some (True, journal n')"
proof -
  obtain n' w' where s: "submit sampleEnv memApi memApi leaderSnapshot (txOf sampleCommands) False sampleNode idleTracker = Some (Done, n', w')"
    using submit_ok [where n = sampleNode and sn = leaderSnapshot and japi = memApi and wt = idleTracker and tx = "txOf sampleCommands" and c = False
        and env = sampleEnv and api = memApi]
      txOf_good [OF sample_shortCommands sample_has_write(2)]
    by (auto simp: int64_def newQueue_def leaderSnapshot_def)
  have "queues w' True = queues idleTracker True" "blockedWrites w' = blocked_insert 1 False (blockedWrites idleTracker)"
    "j_append memApi 1 (txEntry 0 (txOf sampleCommands)) False sampleJournal = Some (True, journal n')"
    using service_safety [OF sample_submit, of memApi] s by (fastforce simp: leaderSnapshot_def)+
  with s sample_submit show ?thesis by blast
qed

text \<open>
  The journal compares terms only, so a write can enter it under the term of an old snapshot after
  the node has followed a newer leader, as long as no entry of the newer term has arrived.
\<close>

theorem stale_write_appended:
  assumes "journalInv japi (journal n)" "trackerInv japi (journal n) wt" "roomAtEnd (journal n) wt"
    and "goodTx tx" "okEntry (txEntry (sn_term sn) tx)" "pq_attached (queues wt c)"
    and "termOfLastEntry (journal n) \<le> sn_term sn" "sn_term sn < n_term n" "n_term n = currentTerm (journal n)"
    and "n_status n = FOLLOWER"
  shows "\<exists>n' wt'. submit env api japi sn tx c n wt = Some (Done, n', wt') \<and> n_status n' = FOLLOWER
    \<and> appended japi (txEntry (sn_term sn) tx) (journal n) (journal n')"
proof -
  obtain n' wt' where s: "submit env api japi sn tx c n wt = Some (Done, n', wt')"
      "appended japi (txEntry (sn_term sn) tx) (journal n) (journal n')"
    using submit_ok [OF assms(1-7), of env api] assms(8,9) by auto
  moreover have "n' = n\<lparr>journal := journal n'\<rparr>" using submit_effect(1) [OF s(1)] by simp
  then have "n_status n' = n_status n" by (metis raft_node.simps(3) raft_node.surjective raft_node.update_convs(1))
  ultimately show ?thesis using assms(10) by auto
qed

text \<open>
C39. Applying a LEASE_GET on a key that holds something else than a lease fails an assertion.
\<close>

theorem lease_get_of_other_type_throws:
  assumes "smInv api sm clk" "okKey k" "absVal (db_view api sm) k = a" "a \<noteq> ANone" "\<And>h s e. a \<noteq> ALease h s e"
    and "leaseTransform timestamp (mkRequest [''LEASE_GET'', k]) = Some req"
  shows "dispatch env api sm req index = None"
proof -
  let ?st = "newStagingArea api sm False"
  have r: "req = \<lparr>contents = [''TIMESTAMPED_LEASE_GET'', k, unsignedIntToBinaryString timestamp], command = Write TIMESTAMPED_LEASE_GET\<rparr>"
    using assms(6) by (auto simp: leaseTransform_def command_names Option.bind_eq_Some_conv assert_that_def request_push_back_def
        emptyRequest_def parseCommand_def split: if_splits)
  have lr: "leaseReady api ?st clk" "valueOf api ?st k = a" using smInvD [OF assms(1)] assms(3) by (simp_all add: valueOf_def)
  have "expire now a = a" for now using assms(5) by (simp add: expire_def split: aval.splits)
  with lease_get_ok [OF lr(1) assms(2) refl, of timestamp] lr(2) assms(4,5)
  obtain st' where "lease_get api ?st k timestamp = Some (wrong_type, None, st')" by (cases a) auto
  then have "dispatchReadWrite env api ?st req = None"
    by (simp add: r dispatchReadWrite_def dispatchWrite_def dispatchLease_def wrong_type_def malformed_def)
  then show ?thesis
    by (simp add: dispatch_write r dispatchReadWriteAndCommit_def)
qed

theorem lease_get_of_other_type_throws_witness:
  "dispatch sampleEnv memApi (ex_sm (wt_exec servedTracker)) (the (leaseTransform 7 (mkRequest [''LEASE_GET'', ''k'']))) 2 = None"
  by (rule lease_get_of_other_type_throws [OF sample_busy(7) _ sample_busy(8)])
    (simp_all add: leaseTransform_def command_names)

subsection \<open>Requests on the wire\<close>

text \<open>
C21. A transaction packed into one request unpacks to itself, and the request is a write exactly
when the transaction has writes.
\<close>

theorem transaction_roundtrip:
  assumes "txInv tx" "shortParts tx" "\<not> (tx_phantom tx \<and> length (requests tx) = 1)"
  shows "tx_deserialize (mkRequest (contents (toRedisRequest tx))) emptyTransaction = Some (True, tx)
    \<and> fromRedisRequest (mkRequest (contents (toRedisRequest tx))) emptyTransaction = Some tx
    \<and> commandType (mkRequest (contents (toRedisRequest tx))) = (if hasWrites tx then WRITE else READ)"
  using deserialize_fused [OF assms] by (metis plainRequest_def)

lemma sample_good: "goodTx (txOf sampleCommands)" "txInv (txOf sampleCommands)" "shortParts (txOf sampleCommands)"
  "hasWrites (txOf sampleCommands)" "\<not> tx_phantom (txOf sampleCommands)"
  using txOf_good(1) [OF sample_shortCommands sample_has_write(2)] by (simp_all add: goodTx_def) (simp add: txOf_def)

theorem transaction_roundtrip_witness:
  "tx_deserialize (mkRequest (contents (toRedisRequest (txOf sampleCommands)))) emptyTransaction = Some (True, txOf sampleCommands)
    \<and> fromRedisRequest (mkRequest (contents (toRedisRequest (txOf sampleCommands)))) emptyTransaction = Some (txOf sampleCommands)
    \<and> commandType (mkRequest (contents (toRedisRequest (txOf sampleCommands)))) = (if hasWrites (txOf sampleCommands) then WRITE else READ)"
  by (rule transaction_roundtrip) (simp_all add: sample_good)

text \<open>
C20. Dispatching the single journal request a transaction is packed into does what dispatching the
transaction does.
\<close>

theorem packed_transaction_equivalence:
  assumes "txInv tx" "shortParts tx" "hasWrites tx"
  shows "dispatch env api sm (toRedisRequest tx) commit
    = map_option (\<lambda>(r, sm', _). (r, sm')) (dispatchTxCommit env api sm tx commit)"
  by (rule dispatch_fused) (rule assms)+

theorem packed_transaction_equivalence_witness:
  "dispatch sampleEnv memApi sampleMachine (toRedisRequest (txOf sampleCommands)) 1
    = map_option (\<lambda>(r, sm', _). (r, sm')) (dispatchTxCommit sampleEnv memApi sampleMachine (txOf sampleCommands) 1)"
  by (rule packed_transaction_equivalence) (simp_all add: sample_good)

text \<open>
C22. A request in the wire format with at least one argument and none empty, all within the limits
of the connection (fewer than 5 arguments, each below 1 MiB, for a client that has not
authenticated), in less than 2^31 bytes, is read back with the same arguments however the bytes
are cut into pieces, and the bytes after it stay in the reader.
\<close>

theorem request_delivered:
  assumes "okParts a xs" "concat cs = f_vector xs @ rest" "length (concat cs) < 2 ^ 31" "idleParser p" "0 < bsize" "0 \<le> status"
  shows "\<exists>p' r cs'. deliver a p req (newReader \<lparr>link_data = [], link_status = status\<rparr> bsize) cs = Some (1, p', mkRequest xs, r, cs')
    \<and> idleParser p' \<and> goodReader r \<and> stream r @ concat cs' = rest"
proof (rule deliver_request [OF awaits_idle [OF assms(4)] assms(1)])
  let ?r = "newReader \<lparr>link_data = [], link_status = status\<rparr> bsize"
  have s: "stream ?r = []" by (simp add: stream_newReader)
  then show "goodReader ?r" using newReader_inv [of bsize "\<lparr>link_data = [], link_status = status\<rparr>"] assms(5,6) by (simp add: goodReader_def)
  show "stream ?r @ concat cs = f_vector xs @ rest" using s assms(2) by simp
  show "length (stream ?r) < length (f_vector xs)" using s by (simp add: f_vector_def f_array_def)
  show "length (f_vector xs) + length rest < 2 ^ 31" using assms(2,3) by simp
qed

theorem request_delivered_witness:
  "\<exists>p' r cs'. deliver True newParser emptyRequest (newReader \<lparr>link_data = [], link_status = 0\<rparr> 4)
      [take 5 (f_vector [''GET'', ''k'']), drop 5 (f_vector [''GET'', ''k'']) @ ''*1''] = Some (1, p', mkRequest [''GET'', ''k''], r, cs')
    \<and> idleParser p' \<and> goodReader r \<and> stream r @ concat cs' = ''*1''"
  by (rule request_delivered)
    (simp_all add: okParts_def okElement_def newParser_idle f_vector_def f_array_def f_string_def to_string_def digits_of.simps [of 2]
      digits_of.simps [of 3] digits_of.simps [of "Suc 0"] crlf_def)

text \<open>
C23. Pipelined requests of a connection are handed on in the order they came, each exactly once,
whatever batches their writes are grouped into.
\<close>

theorem pipeline_order:
  assumes "\<forall>r \<in> set rs. pipelined r"
  shows "\<exists>es. processRequests (map arriving rs @ [(True, False, SlowLink)]) newMultiHandler = Some (1, es, newMultiHandler)
    \<and> concat (map effectRequests es) = rs \<and> (\<forall>e \<in> set es. goodEffect e)"
  using processRequests_pipeline [OF phantomInv_new assms] by simp

theorem pipeline_order_witness:
  "\<exists>es. processRequests (map arriving (map wire sampleCommands) @ [(True, False, SlowLink)]) newMultiHandler = Some (1, es, newMultiHandler)
    \<and> concat (map effectRequests es) = map wire sampleCommands \<and> (\<forall>e \<in> set es. goodEffect e)"
  by (rule pipeline_order) (simp add: sampleCommands_def pipelined_def readOrWrite_def)

end
