(* ===== verification/ScanProperties.thy ===== *)
theory ScanProperties
  imports ScanOps SampleStore
begin

text \<open>
  The properties of patterns, of the commands that walk over the key space, and of the parser of
  stored keys.
\<close>



theorem pattern_returns:
  assumes "plainByte behind" "pat = [] \<or> last pat \<noteq> CHR 0x5C" "str \<noteq> []"
  shows "\<exists>b. stringmatchlen behind bs pat str = Some b \<and> (b \<longrightarrow> prefix (extractPatternPrefix pat) str)"
  using stringmatchlen_total [OF assms, of bs] stringmatchlen_prefix [OF _ assms(3), of behind bs pat] assms(1)
  by (auto simp: plainByte_def)

theorem pattern_returns_witness:
  "\<exists>b. stringmatchlen (CHR 0x0D) (CHR 0x00) ''k[^a-c]*'' ''key'' = Some b \<and> (b \<longrightarrow> prefix (extractPatternPrefix ''k[^a-c]*'') ''key'')"
  by (rule pattern_returns) (simp_all add: plainByte_def)

theorem pattern_read_behind_its_end:
  assumes "str \<noteq> []"
  shows "stringmatchlen behind bs [CHR ''['', CHR 0x5C] str = None"
  by (rule stringmatchlen_behind) (rule assms)

theorem pattern_read_behind_its_end_witness:
  "stringmatchlen (CHR 0x0D) (CHR 0x00) [CHR ''['', CHR 0x5C] ''key'' = None"
  by (rule pattern_read_behind_its_end) simp

text \<open>
C33. keys reports, in order and once each, exactly the names in the store that match the pattern,
as long as one batch holds those with its literal prefix.
\<close>

theorem keys_spec:
  assumes "sa_readable api st" "plainByte behind" "pattern = [] \<or> last pattern \<noteq> CHR 0x5C"
    and "sa_view api st (descriptorLocator []) = None"
    and "length (namesFrom api st (extractPatternPrefix pattern) (extractPatternPrefix pattern)) \<le> keysBatch"
  shows "\<exists>ks. keys_op behind api st pattern = Some (OK, ks) \<and> sorted_wrt (<) ks
    \<and> set ks = {k. sa_view api st (descriptorLocator k) \<noteq> None \<and> keyMatches behind pattern k}"
  by (rule keys_ok) (rule assms)+

lemma sample_no_names: "sa_view memApi sampleArea (descriptorLocator k) = None"
  using smInvD(5) [OF sample_smInv, of False]
  by (simp add: sampleArea_def sample_view freshView_def descriptorLocator_def kDescriptor_def kStateMachine_LastApplied_def
      kStateMachine_Clock_def kStateMachine_InBulkload_def kStateMachine_Format_def)

theorem keys_spec_witness:
  "\<exists>ks. keys_op (CHR 0x0D) memApi sampleArea ''k*'' = Some (OK, ks) \<and> sorted_wrt (<) ks
    \<and> set ks = {k. sa_view memApi sampleArea (descriptorLocator k) \<noteq> None \<and> keyMatches (CHR 0x0D) ''k*'' k}"
proof (rule keys_spec)
  have "set (namesFrom memApi sampleArea (extractPatternPrefix ''k*'') (extractPatternPrefix ''k*'')) = {}"
    using namesFrom_sorted(2) [OF sample_ready(3) order.refl] sample_no_names by simp
  then show "length (namesFrom memApi sampleArea (extractPatternPrefix ''k*'') (extractPatternPrefix ''k*'')) \<le> keysBatch" by simp
qed (simp_all add: plainByte_def sample_no_names)

text \<open>
C32. A page of scan reports the names that match among at most count names, and its cursor
continues exactly where the page ended, strictly further on, until no name is left.
\<close>

theorem scan_pages:
  assumes "sa_readable api st" "0 < count" "plainByte behind" "pattern = [] \<or> last pattern \<noteq> CHR 0x5C"
    and "sa_view api st (descriptorLocator []) = None" "pre = extractPatternPrefix pattern"
    and "start = (if cursor = [] then pre else cursor)" "pre \<le> start"
  shows "\<exists>page next. scan_op behind api st cursor pattern count [] = Some (OK, next, filter (keyMatches behind pattern) page)
    \<and> length page \<le> count
    \<and> namesFrom api st pre start = page @ (if next = [] then [] else namesFrom api st pre next)
    \<and> (next = [] \<or> pre \<le> next \<and> start < next)"
proof -
  let ?ks = "namesFrom api st pre start"
  note names = namesFrom_sorted [OF assms(1,8)]
  have ne: "k \<noteq> []" if "k \<in> set ?ks" for k using that names(2) assms(5) by auto
  have h: "\<forall>s \<in> set ?ks. patternHit behind (CHR 0x00) pattern s = Some (keyMatches behind pattern s)"
    using patternHit_total [OF assms(3,4)] ne by (simp add: keyMatches_def)
  have e: "scan_op behind api st cursor pattern count [] =
      Some (OK, if count < length ?ks then ?ks ! count else [], filter (keyMatches behind pattern) (take count ?ks))"
    using scan_eq [OF assms(6), of ?ks api st cursor behind "keyMatches behind pattern" count "[]"] h assms(7) by simp
  show ?thesis
  proof (cases "count < length ?ks")
    case True
    have c: "?ks ! count \<in> set ?ks" using True by simp
    have "start \<le> ?ks ! 0" using names(2) True by (metis (mono_tags, lifting) mem_Collect_eq nth_mem order.strict_trans1 le0 less_imp_le_nat order_le_less_trans)
    also have "\<dots> < ?ks ! count" using names(1) True assms(2) by (simp add: sorted_wrt_iff_nth_less)
    finally have "start < ?ks ! count" .
    moreover have "pre \<le> ?ks ! count" using c names(2) prefix_le by auto
    ultimately show ?thesis
      using e True scan_chain [OF assms(1,8,2) refl True] ne [OF c] by (intro exI [of _ "take count ?ks"] exI [of _ "?ks ! count"]) simp
  next
    case False
    then show ?thesis using e by (intro exI [of _ ?ks] exI [of _ "[]"]) simp
  qed
qed

theorem scan_pages_witness:
  "\<exists>page next. scan_op (CHR 0x00) memApi sampleArea [] ''k*'' 10 [] = Some (OK, next, filter (keyMatches (CHR 0x00) ''k*'') page)
    \<and> length page \<le> 10
    \<and> namesFrom memApi sampleArea ''k'' ''k'' = page @ (if next = [] then [] else namesFrom memApi sampleArea ''k'' next)
    \<and> (next = [] \<or> ''k'' \<le> next \<and> ''k'' < next)"
  by (rule scan_pages) (simp_all add: plainByte_def sample_no_names extractPatternPrefix_def)

theorem stored_key_roundtrip:
  assumes "okKey k" "kt \<in> {kHash, kSet, kDeque, kLocalityHash, kVersionedHash}"
  shows "\<exists>l. reverseLocator (fieldKey kt k f) = Some l \<and> rl_keyType l = kt \<and> getOriginalKey l = Some k
    \<and> getField l = Some f \<and> getRawPrefixUntilBoundary l = Some (fieldPrefix kt k)"
  by (rule reverseLocator_ok) (rule assms)+

theorem stored_key_roundtrip_witness:
  "\<exists>l. reverseLocator (fieldKey kHash ''a#b'' ''f'') = Some l \<and> rl_keyType l = kHash \<and> getOriginalKey l = Some ''a#b''
    \<and> getField l = Some ''f'' \<and> getRawPrefixUntilBoundary l = Some (fieldPrefix kHash ''a#b'')"
  by (rule stored_key_roundtrip) (simp_all add: okKey_def)

theorem foreign_cursor_throws:
  assumes "assertKeyType api st key kLocalityHash = Some True" "key \<noteq> []"
  shows "lhscan behind api st key ''x|#y#z'' [] count = None \<and> lhscan behind api st key ''##z'' [] count = None"
  using lhscan_bad_cursor [OF assms] by simp

theorem foreign_cursor_throws_witness:
  "lhscan (CHR 0x00) memApi sampleArea ''q'' ''x|#y#z'' [] 5 = None \<and> lhscan (CHR 0x00) memApi sampleArea ''q'' ''##z'' [] 5 = None"
proof (rule foreign_cursor_throws)
  show "assertKeyType memApi sampleArea ''q'' kLocalityHash = Some True"
    by (simp add: assertKeyType_def descOf_def sample_no_names constructDescriptor_def descriptorEmpty_def emptyDescriptor_def)
qed simp

end
