(* ===== verification/JournalScans.thy ===== *)
theory JournalScans
  imports RaftLog GlobMatching
begin

text \<open>
  Iterators over the journal and \<open>scanContents\<close> (\<^verbatim>\<open>src/src/raft/RaftJournal.cc\<close>).

  An iterator holds what the iterator of the storage engine still has to deliver, or nothing once it
  was reset.  Only the keys of log positions start with an \<open>E\<close>, so an iteration from a position of the log
  delivers the log from there.
\<close>

subsection \<open>Iterators\<close>

record journal_iterator =
  ji_rest :: "(bytes \<times> bytes) list option"
  currentIndex :: int

definition it_valid :: "journal_iterator \<Rightarrow> bool" where
  "it_valid it \<longleftrightarrow> ji_rest it \<noteq> None \<and> the (ji_rest it) \<noteq> []"

definition it_entry :: "journal_iterator \<Rightarrow> bytes \<times> bytes" where
  "it_entry it = hd (the (ji_rest it))"

definition it_validate :: "journal_iterator \<Rightarrow> journal_iterator option" where
  "it_validate it = do {
     assert_that (it_valid it);
     assert_that (fst (it_entry it) \<noteq> []);
     if hd (fst (it_entry it)) \<noteq> CHR ''E'' then Some (it\<lparr>ji_rest := None\<rparr>)
     else do {
       assert_that (fst (it_entry it) = encodeEntryKey (currentIndex it));
       Some it } }"

definition getIterator ::
  "('db, 'wb) rocksdb \<Rightarrow> 'db raft_journal \<Rightarrow> int \<Rightarrow> bool \<Rightarrow> journal_iterator option" where
  "getIterator api j startingPoint mustMatchStartingPoint =
     (let it = \<lparr>ji_rest = Some (db_iter api (j_db j) (encodeEntryKey startingPoint)), currentIndex = startingPoint\<rparr> in
      if \<not> it_valid it then Some (it\<lparr>ji_rest := None\<rparr>)
      else if mustMatchStartingPoint \<and> fst (it_entry it) \<noteq> encodeEntryKey startingPoint then Some (it\<lparr>ji_rest := None\<rparr>)
      else case parseEntryKey (fst (it_entry it)) of
             None \<Rightarrow> Some (it\<lparr>ji_rest := None\<rparr>)
           | Some i \<Rightarrow> it_validate (it\<lparr>currentIndex := i\<rparr>))"

definition it_next :: "journal_iterator \<Rightarrow> journal_iterator option" where
  "it_next it = do {
     assert_that (it_valid it);
     let it = it\<lparr>ji_rest := Some (tl (the (ji_rest it)))\<rparr>;
     if it_valid it then it_validate (it\<lparr>currentIndex := currentIndex it + 1\<rparr>) else Some it }"

definition it_current :: "journal_iterator \<Rightarrow> bytes option" where
  "it_current it = do { assert_that (it_valid it); Some (snd (it_entry it)) }"

subsection \<open>Scans for display\<close>

text \<open>\<open>behind\<close> is the byte in memory behind the pattern; the entry is a string, with a zero byte behind it.\<close>

fun scanJournalLoop ::
  "char \<Rightarrow> bytes \<Rightarrow> nat \<Rightarrow> journal_iterator \<Rightarrow> (raft_entry \<times> int) list \<Rightarrow> ((raft_entry \<times> int) list \<times> journal_iterator) option" where
  "scanJournalLoop behind mtch 0 it out = Some (out, it)"
| "scanJournalLoop behind mtch (Suc count) it out =
     (if \<not> it_valid it then Some (out, it)
      else do {
        item \<leftarrow> it_current it;
        hit \<leftarrow> (if mtch = [] then Some True else stringmatchlen behind (CHR 0x00) mtch item);
        out \<leftarrow> (if hit then do { e \<leftarrow> deserializeEntry item; Some (out @ [(e, currentIndex it)]) } else Some out);
        it \<leftarrow> it_next it;
        scanJournalLoop behind mtch count it out })"

definition scanContents ::
  "char \<Rightarrow> ('db, 'wb) rocksdb \<Rightarrow> 'db raft_journal \<Rightarrow> int \<Rightarrow> nat \<Rightarrow> bytes \<Rightarrow> ((raft_entry \<times> int) list \<times> int) option" where
  "scanContents behind api j startingPoint count mtch = do {
     it \<leftarrow> getIterator api j startingPoint False;
     (out, it) \<leftarrow> scanJournalLoop behind mtch count it [];
     Some (out, if \<not> it_valid it then 0 else currentIndex it) }"

subsection \<open>The order of the log\<close>

lemma encodeEntryKey_less:
  assumes "0 \<le> i" "int64 i" "0 \<le> k" "int64 k"
  shows "encodeEntryKey i < encodeEntryKey k \<longleftrightarrow> i < k"
proof -
  have w: "uint (word_of_int x :: u64) = x" if "0 \<le> x" "int64 x" for x
    using that by (simp add: uint_word_of_int_eq take_bit_int_eq_self int64_def)
  show ?thesis
    using w [OF assms(1,2)] w [OF assms(3,4)]
    by (simp add: encodeEntryKey_def intToBinaryString_def word_less_def)
qed

text \<open>The stored form of the entry at a position.\<close>

definition storedAt :: "('db, 'wb) rocksdb \<Rightarrow> 'db raft_journal \<Rightarrow> int \<Rightarrow> bytes" where
  "storedAt api j i = the (jview api j (encodeEntryKey i))"

lemma journal_iteration:
  assumes inv: "journalInv api j" and p: "logStart j \<le> p" "p \<le> logSize j"
  obtains others where
    "db_iter api (j_db j) (encodeEntryKey p) = map (\<lambda>i. (encodeEntryKey i, storedAt api j i)) [p..logSize j - 1] @ others"
    "\<forall>e \<in> set others. fst e \<noteq> [] \<and> hd (fst e) \<noteq> CHR ''E''"
proof -
  let ?es = "db_iter api (j_db j) (encodeEntryKey p)" and ?log = "map (\<lambda>i. (encodeEntryKey i, storedAt api j i)) [p..logSize j - 1]"
  let ?others = "filter (\<lambda>e. hd (fst e) \<noteq> CHR ''E'') ?es"
  have b: "0 \<le> logStart j" "int64 (logSize j)" using journalInvD(3) [OF inv] by (auto simp: bounds_def)
  have it: "iterates ?es (encodeEntryKey p) (jview api j)"
    using rocksdb_lawsD(19) [OF journalInvD(1) [OF inv]] by (simp add: jview_def [abs_def])
  have mem: "(k, v) \<in> set ?es \<longleftrightarrow> encodeEntryKey p \<le> k \<and> jview api j k = Some v" for k v
    using it by (simp add: iterates_def)
  have range: "0 \<le> i \<and> int64 i" if "i \<in> set [p..logSize j - 1]" for i
    using that p b by (auto simp: int64_def)
  have ge: "encodeEntryKey p \<le> fst e" if "e \<in> set ?es" for e
    using that mem [of "fst e" "snd e"] by simp
  have ne: "fst e \<noteq> []" if "e \<in> set ?es" for e
    using ge [OF that] by (cases "fst e") (simp_all add: encodeEntryKey_def)
  have bigger: "encodeEntryKey i < fst e" if "e \<in> set ?others" for i e
  proof -
    have "fst e \<noteq> []" using that ne by simp
    then obtain c k where k: "fst e = c # k" by (cases "fst e") auto
    have "encodeEntryKey p \<le> fst e" "c \<noteq> CHR ''E''" using that ge [of e] k by simp_all
    then show ?thesis using k by (auto simp: encodeEntryKey_def)
  qed
  have s1: "sorted_wrt (<) (map fst ?es)" using it by (simp add: iterates_def)
  have "sorted_wrt (<) (map encodeEntryKey [p..logSize j - 1])"
    unfolding sorted_wrt_map
    by (rule sorted_wrt_mono_rel [OF _ sorted_wrt_upto]) (use range encodeEntryKey_less in auto)
  then have "sorted_wrt (<) (map fst ?log)" by (simp add: comp_def)
  moreover have "sorted_wrt (<) (map fst ?others)" using s1 by (simp add: sorted_wrt_map sorted_wrt_filter)
  moreover have "\<forall>x \<in> set (map fst ?log). \<forall>y \<in> set (map fst ?others). x < y" using bigger by auto
  ultimately have s2: "sorted_wrt (<) (map fst (?log @ ?others))" by (simp add: sorted_wrt_append)
  have "e \<in> set ?es \<longleftrightarrow> e \<in> set (?log @ ?others)" for e
  proof (cases "hd (fst e) = CHR ''E''")
    case True
    obtain k v where e: "e = (k, v)" by force
    have "e \<in> set ?es \<longleftrightarrow> e \<in> set ?log"
    proof
      assume in_es: "e \<in> set ?es"
      then have kv: "encodeEntryKey p \<le> k" "jview api j k = Some v" using mem e by auto
      then obtain i where i: "0 \<le> i" "int64 i" "k = encodeEntryKey i"
        using journalInvD(4) [OF inv] True ne [OF in_es] e unfolding stored_def entryKey_def by auto
      have "p \<le> i" using kv(1) i encodeEntryKey_less [of i p] p b by (cases "i < p") (auto simp: int64_def)
      moreover have "i < logSize j"
        using journalInvD(4) [OF inv] kv(2) i unfolding stored_def by (metis not_le option.distinct(1))
      ultimately show "e \<in> set ?log" using e i kv(2) by (auto simp: storedAt_def)
    next
      assume "e \<in> set ?log"
      then obtain i where i: "p \<le> i" "i < logSize j" "e = (encodeEntryKey i, storedAt api j i)" by auto
      then obtain x where "jview api j (encodeEntryKey i) = Some (serializeEntry x)" using log_entry [OF inv, of i] p by auto
      moreover have "encodeEntryKey p \<le> encodeEntryKey i" using encodeEntryKey_less [of i p] i p b by (auto simp: int64_def not_less [symmetric])
      ultimately show "e \<in> set ?es" using i mem by (auto simp: storedAt_def)
    qed
    then show ?thesis using True by auto
  qed (auto simp: encodeEntryKey_def)
  then have "set ?es = set (?log @ ?others)" by blast
  then have "?es = ?log @ ?others"
  proof (rule map_sorted_distinct_set_unique [of fst, rotated -1])
    show "inj_on fst (set ?es \<union> set (?log @ ?others))"
      using \<open>set ?es = set (?log @ ?others)\<close> mem by (auto simp: inj_on_def)
  qed (use s1 s2 in \<open>simp_all add: strict_sorted_iff\<close>)
  moreover have "\<forall>e \<in> set ?others. fst e \<noteq> [] \<and> hd (fst e) \<noteq> CHR ''E''" using ne by auto
  ultimately show ?thesis using that by blast
qed

text \<open>An iterator that stands on position \<open>p\<close> of the log, or behind its end.\<close>

definition standsAt :: "('db, 'wb) rocksdb \<Rightarrow> 'db raft_journal \<Rightarrow> int \<Rightarrow> journal_iterator \<Rightarrow> bool" where
  "standsAt api j p it \<longleftrightarrow>
     (if p < logSize j then currentIndex it = p
        \<and> (\<exists>others. ji_rest it = Some (map (\<lambda>i. (encodeEntryKey i, storedAt api j i)) [p..logSize j - 1] @ others)
             \<and> (\<forall>e \<in> set others. fst e \<noteq> [] \<and> hd (fst e) \<noteq> CHR ''E''))
      else \<not> it_valid it)"

lemma standsAt_valid: "standsAt api j p it \<Longrightarrow> it_valid it \<longleftrightarrow> p < logSize j"
  by (auto simp: standsAt_def it_valid_def upto_rec1 split: if_splits)

lemma it_current_ok: "standsAt api j p it \<Longrightarrow> p < logSize j \<Longrightarrow> it_current it = Some (storedAt api j p)"
  using standsAt_valid [of api j p it] by (auto simp: standsAt_def it_current_def it_entry_def upto_rec1)

lemma it_next_ok:
  assumes "standsAt api j p it" "p < logSize j"
  shows "\<exists>it'. it_next it = Some it' \<and> standsAt api j (p + 1) it'"
proof -
  obtain others where r: "ji_rest it = Some (map (\<lambda>i. (encodeEntryKey i, storedAt api j i)) [p..logSize j - 1] @ others)" "currentIndex it = p"
      and o: "\<forall>e \<in> set others. fst e \<noteq> [] \<and> hd (fst e) \<noteq> CHR ''E''"
    using assms by (auto simp: standsAt_def)
  let ?rest = "map (\<lambda>i. (encodeEntryKey i, storedAt api j i)) [p + 1..logSize j - 1] @ others"
  have t: "tl (the (ji_rest it)) = ?rest" using assms(2) by (simp add: r(1) upto_rec1 [of p])
  have v: "it_valid it" using standsAt_valid [OF assms(1)] assms(2) by simp
  show ?thesis
  proof (cases "p + 1 < logSize j")
    case True
    have "hd ?rest = (encodeEntryKey (p + 1), storedAt api j (p + 1))" "?rest \<noteq> []" using True by (simp_all add: upto_rec1 [of "p + 1"])
    then have "it_next it = Some \<lparr>ji_rest = Some ?rest, currentIndex = p + 1, \<dots> = journal_iterator.more it\<rparr>"
      using v t r(2) by (simp add: it_next_def it_valid_def it_validate_def it_entry_def encodeEntryKey_def)
    then show ?thesis using True o by (auto simp: standsAt_def)
  next
    case False
    then have e: "?rest = others" by simp
    show ?thesis
    proof (cases others)
      case Nil
      then show ?thesis using v t e False by (simp add: it_next_def it_valid_def standsAt_def)
    next
      case (Cons x xs)
      then show ?thesis using v t e o False by (simp add: it_next_def it_valid_def it_validate_def it_entry_def standsAt_def)
    qed
  qed
qed

lemma getIterator_ok:
  assumes "journalInv api j" "logStart j \<le> p" "p < logSize j"
  shows "\<exists>it. getIterator api j p m = Some it \<and> standsAt api j p it"
proof -
  obtain others where o: "db_iter api (j_db j) (encodeEntryKey p) = map (\<lambda>i. (encodeEntryKey i, storedAt api j i)) [p..logSize j - 1] @ others"
      "\<forall>e \<in> set others. fst e \<noteq> [] \<and> hd (fst e) \<noteq> CHR ''E''"
    by (rule journal_iteration [OF assms(1,2) less_imp_le [OF assms(3)]])
  have h: "hd (db_iter api (j_db j) (encodeEntryKey p)) = (encodeEntryKey p, storedAt api j p)" "db_iter api (j_db j) (encodeEntryKey p) \<noteq> []"
    unfolding o(1) using upto_rec1 [of p "logSize j - 1"] assms(3) by simp_all
  have "int64 p" using journalInvD(3) [OF assms(1)] assms(2,3) by (auto simp: bounds_def int64_def)
  then have "parseEntryKey (encodeEntryKey p) = Some p" using parse_encodeEntryKey by simp
  then have "getIterator api j p m = Some \<lparr>ji_rest = Some (db_iter api (j_db j) (encodeEntryKey p)), currentIndex = p\<rparr>"
    unfolding getIterator_def Let_def it_valid_def it_entry_def it_validate_def using h
    by simp (simp add: encodeEntryKey_def)
  then show ?thesis using assms(3) o by (auto simp: standsAt_def)
qed

subsection \<open>What a scan shows\<close>

lemma storedAt_entry:
  assumes "journalInv api j" "logStart j \<le> i" "i < logSize j"
  shows "deserializeEntry (storedAt api j i) = entryAt api j i" "entryAt api j i = Some e \<Longrightarrow> storedAt api j i = serializeEntry e \<and> okLogEntry e"
proof -
  obtain x where x: "okLogEntry x" "jview api j (encodeEntryKey i) = Some (serializeEntry x)" "entryAt api j i = Some x"
    using log_entry [OF assms] by metis
  then have "storedAt api j i = serializeEntry x" by (simp add: storedAt_def)
  with x show "deserializeEntry (storedAt api j i) = entryAt api j i"
    "entryAt api j i = Some e \<Longrightarrow> storedAt api j i = serializeEntry e \<and> okLogEntry e"
    by (simp_all add: okLogEntry_def)
qed

lemma scanJournalLoop_all:
  assumes "journalInv api j" "logStart j \<le> p" "standsAt api j p it"
  shows "\<exists>it'. scanJournalLoop behind [] count it out =
      Some (out @ map (\<lambda>i. (the (entryAt api j i), i)) [p..min (p + int count) (logSize j) - 1], it')
    \<and> standsAt api j (p + int count) it'"
  using assms(2,3)
proof (induction count arbitrary: p it out)
  case 0
  then show ?case by simp
next
  case (Suc count)
  show ?case
  proof (cases "p < logSize j")
    case True
    obtain it' where n: "it_next it = Some it'" "standsAt api j (p + 1) it'" using it_next_ok [OF Suc.prems(2) True] by blast
    obtain e where e: "entryAt api j p = Some e" using log_entry [OF assms(1) Suc.prems(1) True] by metis
    have v: "it_valid it" "it_current it = Some (storedAt api j p)"
      using standsAt_valid [OF Suc.prems(2)] it_current_ok [OF Suc.prems(2) True] True by simp_all
    have d: "deserializeEntry (storedAt api j p) = Some e" using storedAt_entry(1) [OF assms(1) Suc.prems(1) True] e by simp
    have u: "[p..min (p + int (Suc count)) (logSize j) - 1] = p # [p + 1..min (p + 1 + int count) (logSize j) - 1]"
      using True by (subst upto_rec1) (simp_all add: algebra_simps)
    show ?thesis
      unfolding u using Suc.IH [of "p + 1" it' "out @ [(e, p)]"] Suc.prems n v d e True
      by (auto simp: standsAt_def [of api j p it] algebra_simps)
  next
    case False
    have "standsAt api j (p + int (Suc count)) it" using Suc.prems(2) False by (simp add: standsAt_def)
    then show ?thesis using standsAt_valid [OF Suc.prems(2)] False by simp
  qed
qed

lemma scanContents_ok:
  assumes "journalInv api j" "logStart j \<le> p" "p < logSize j"
  shows "scanContents behind api j p count [] =
    Some (map (\<lambda>i. (the (entryAt api j i), i)) [p..min (p + int count) (logSize j) - 1],
          if p + int count < logSize j then p + int count else 0)"
proof -
  obtain it where it: "getIterator api j p False = Some it" "standsAt api j p it" using getIterator_ok [OF assms] by blast
  obtain it' where it': "scanJournalLoop behind [] count it [] =
      Some (map (\<lambda>i. (the (entryAt api j i), i)) [p..min (p + int count) (logSize j) - 1], it')" "standsAt api j (p + int count) it'"
    using scanJournalLoop_all [OF assms(1,2) it(2), of behind count "[]"] by auto
  then show ?thesis
    using it(1) standsAt_valid [OF it'(2)] by (auto simp: scanContents_def standsAt_def)
qed

end
