(* ===== verification/RaftTrimmers.thy ===== *)
theory RaftTrimmers
  imports RaftLog StateMachines CoreOps RedisCommands
begin

text \<open>
  Journal trimming: the configuration of \<^verbatim>\<open>src/src/raft/RaftConfig.cc\<close>, the trimming blocks and
  the background thread of \<^verbatim>\<open>src/src/raft/RaftTrimmer.cc\<close>.

  A block is an object that other components hold; \<open>blockObjects\<close> maps the address of each live
  block to it, and \<open>blocks\<close> is the set of addresses the trimmer keeps.  Following the address
  of a destroyed block is \<^const>\<open>None\<close>.
\<close>

subsection \<open>Configuration\<close>

record trimming_config =
  keepAtLeast :: int
  tc_step :: int

definition kTrimConfigKey :: bytes where "kTrimConfigKey = ''raft.trimming''"
definition kResilveringEnabledKey :: bytes where "kResilveringEnabledKey = ''raft.resilvering.enabled''"

fun parseIntegers :: "bytes list \<Rightarrow> int list option" where
  "parseIntegers [] = Some []"
| "parseIntegers (item # items) = do {
     v \<leftarrow> parseInt64 item;
     vs \<leftarrow> parseIntegers items;
     Some (v # vs) }"

definition parseIntegerList :: "bytes \<Rightarrow> bytes \<Rightarrow> int list option" where
  "parseIntegerList buffer separator = do { items \<leftarrow> split buffer separator; parseIntegers items }"

definition parseTrimmingConfig :: "bytes \<Rightarrow> trimming_config option" where
  "parseTrimmingConfig str = do {
     parts \<leftarrow> parseIntegerList str '':'';
     if length parts \<noteq> 2 then None
     else Some \<lparr>keepAtLeast = parts ! 0, tc_step = parts ! 1\<rparr> }"

definition trimmingConfigToString :: "trimming_config \<Rightarrow> bytes" where
  "trimmingConfigToString c = to_string (keepAtLeast c) @ '':'' @ to_string (tc_step c)"

definition sm_configGet :: "('db, 'wb) rocksdb \<Rightarrow> 'db state_machine \<Rightarrow> bytes \<Rightarrow> status \<times> bytes" where
  "sm_configGet api sm key = configGet api (newStagingArea api sm True) key"

definition getResilveringEnabled :: "('db, 'wb) rocksdb \<Rightarrow> 'db state_machine \<Rightarrow> bool option" where
  "getResilveringEnabled api sm =
     (let (st, val) = sm_configGet api sm kResilveringEnabledKey in
      if st = NotFound then Some True
      else if st \<noteq> OK then None
      else if val = ''TRUE'' then Some True
      else if val = ''FALSE'' then Some False
      else None)"

text \<open>
  When the stored text does not parse, the message is logged and the object \<open>ret\<close> is returned although
  nothing was assigned to it: \<open>junk\<close> stands for what its memory holds.
\<close>

definition getTrimmingConfig ::
  "trimming_config \<Rightarrow> ('db, 'wb) rocksdb \<Rightarrow> 'db state_machine \<Rightarrow> trimming_config option" where
  "getTrimmingConfig junk api sm =
     (let (st, trimConfig) = sm_configGet api sm kTrimConfigKey in
      if st = NotFound then Some \<lparr>keepAtLeast = 50000000, tc_step = 200000\<rparr>
      else if st \<noteq> OK then None
      else case parseTrimmingConfig trimConfig of None \<Rightarrow> Some junk | Some ret \<Rightarrow> Some ret)"

text \<open>A change is refused with a message or turned into the request that makes it.\<close>

definition setResilveringEnabled :: "bool \<Rightarrow> bytes + redis_request" where
  "setResilveringEnabled b = Inr (mkRequest [''CONFIG_SET'', kResilveringEnabledKey, boolToString b])"

definition setTrimmingConfig :: "trimming_config \<Rightarrow> bool \<Rightarrow> bytes + redis_request" where
  "setTrimmingConfig c overrideSafety =
     (if \<not> overrideSafety \<and> keepAtLeast c \<le> 100000
      then Inl (''new 'keepAtLeast' too small: '' @ to_string (keepAtLeast c))
      else if \<not> overrideSafety \<and> tc_step c \<le> 10000
      then Inl (''new 'step' too small: '' @ to_string (tc_step c))
      else Inr (mkRequest [''CONFIG_SET'', kTrimConfigKey, trimmingConfigToString c]))"

subsection \<open>Blocks\<close>

definition maxLogIndex :: int where "maxLogIndex = 2 ^ 63 - 1"

record trimming_block =
  preserveIndex :: int
  registered :: bool

record trimmer =
  blockObjects :: "nat \<rightharpoonup> trimming_block"
  blocks :: "nat list"

definition registerChange :: "nat \<Rightarrow> trimmer \<Rightarrow> trimmer option" where
  "registerChange p tm = do {
     b \<leftarrow> blockObjects tm p;
     Some (if preserveIndex b = maxLogIndex then tm\<lparr>blocks := removeAll p (blocks tm)\<rparr>
           else tm\<lparr>blocks := List.insert p (blocks tm)\<rparr>) }"

definition updateBlock :: "nat \<Rightarrow> trimming_block \<Rightarrow> trimmer \<Rightarrow> trimmer" where
  "updateBlock p b tm = tm\<lparr>blockObjects := (blockObjects tm)(p \<mapsto> b)\<rparr>"

definition enforceBlock :: "nat \<Rightarrow> int \<Rightarrow> trimmer \<Rightarrow> trimmer option" where
  "enforceBlock p limit tm = do {
     b \<leftarrow> blockObjects tm p;
     let b = b\<lparr>preserveIndex := limit\<rparr>;
     let tm = updateBlock p b tm;
     if registered b \<and> limit = maxLogIndex then do {
       tm \<leftarrow> registerChange p tm;
       Some (updateBlock p (b\<lparr>registered := False\<rparr>) tm) }
     else if \<not> registered b \<and> limit \<noteq> maxLogIndex then do {
       tm \<leftarrow> registerChange p tm;
       Some (updateBlock p (b\<lparr>registered := True\<rparr>) tm) }
     else Some tm }"

definition liftBlock :: "nat \<Rightarrow> trimmer \<Rightarrow> trimmer option" where
  "liftBlock p tm = enforceBlock p maxLogIndex tm"

text \<open>The constructor and the destructor; \<open>p\<close> is the address the object gets.\<close>

definition newBlock :: "nat \<Rightarrow> int \<Rightarrow> trimmer \<Rightarrow> trimmer option" where
  "newBlock p preserve tm =
     enforceBlock p preserve (updateBlock p \<lparr>preserveIndex = maxLogIndex, registered = False\<rparr> tm)"

definition destroyBlock :: "nat \<Rightarrow> trimmer \<Rightarrow> trimmer option" where
  "destroyBlock p tm = do {
     tm \<leftarrow> liftBlock p tm;
     Some (tm\<lparr>blockObjects := (blockObjects tm)(p := None)\<rparr>) }"

fun canTrimLoop :: "(nat \<rightharpoonup> trimming_block) \<Rightarrow> int \<Rightarrow> nat list \<Rightarrow> bool option" where
  "canTrimLoop objs threshold [] = Some True"
| "canTrimLoop objs threshold (p # ps) = do {
     b \<leftarrow> objs p;
     if preserveIndex b \<le> threshold then Some False else canTrimLoop objs threshold ps }"

definition canTrimUntil :: "int \<Rightarrow> trimmer \<Rightarrow> bool option" where
  "canTrimUntil threshold tm = canTrimLoop (blockObjects tm) threshold (blocks tm)"

subsection \<open>A round of the thread\<close>

text \<open>
  The result says whether the thread waits before the next round.  Overflow of a sum of 64-bit
  integers is undefined behaviour, \<^const>\<open>None\<close>.
\<close>

definition trimRound ::
  "trimming_config \<Rightarrow> ('db, 'wb) rocksdb \<Rightarrow> 'db state_machine \<Rightarrow> ('jdb, 'jwb) rocksdb \<Rightarrow> trimmer \<Rightarrow> 'jdb raft_journal
    \<Rightarrow> (bool \<times> 'jdb raft_journal) option" where
  "trimRound junk api sm japi tm j = do {
     trimConfig \<leftarrow> getTrimmingConfig junk api sm;
     needed \<leftarrow> checkedAdd (keepAtLeast trimConfig) (tc_step trimConfig);
     if logSize j - logStart j \<le> needed then Some (True, j)
     else do {
       threshold \<leftarrow> checkedAdd (logStart j) (tc_step trimConfig);
       clear \<leftarrow> canTrimUntil threshold tm;
       if \<not> clear then Some (True, j)
       else if commitIndex j \<le> threshold \<or> lastApplied sm \<le> threshold then Some (True, j)
       else do {
         j \<leftarrow> trimUntil japi threshold j;
         Some (False, j) } } }"

subsection \<open>The blocks of the trimmer\<close>

text \<open>The set holds the addresses of exactly the live blocks that preserve something.\<close>

definition blocksInv :: "trimmer \<Rightarrow> bool" where
  "blocksInv tm \<longleftrightarrow> distinct (blocks tm) \<and> (\<forall>p. p \<in> set (blocks tm) \<longleftrightarrow> (\<exists>b. blockObjects tm p = Some b \<and> registered b))
     \<and> (\<forall>p b. blockObjects tm p = Some b \<longrightarrow> (registered b \<longleftrightarrow> preserveIndex b \<noteq> maxLogIndex))"

definition preserves :: "trimmer \<Rightarrow> nat \<Rightarrow> int option" where
  "preserves tm p = map_option preserveIndex (blockObjects tm p)"

lemma preserves_update [simp]: "preserves (updateBlock p b tm) = (preserves tm)(p \<mapsto> preserveIndex b)"
  by (auto simp: preserves_def updateBlock_def)

definition placed :: "nat \<Rightarrow> int \<Rightarrow> trimmer \<Rightarrow> trimmer" where
  "placed p limit tm = tm\<lparr>blockObjects := (blockObjects tm)(p \<mapsto> \<lparr>preserveIndex = limit, registered = (limit \<noteq> maxLogIndex)\<rparr>),
     blocks := (if limit = maxLogIndex then removeAll p (blocks tm) else List.insert p (blocks tm))\<rparr>"

lemma placed_ok:
  assumes "blocksInv tm"
  shows "blocksInv (placed p limit tm)" "preserves (placed p limit tm) = (preserves tm)(p \<mapsto> limit)"
proof -
  have "q \<in> set (blocks (placed p limit tm)) \<longleftrightarrow> (\<exists>b. blockObjects (placed p limit tm) q = Some b \<and> registered b)" for q
    using assms by (cases "q = p") (simp_all add: placed_def blocksInv_def)
  then show "blocksInv (placed p limit tm)"
    using assms by (simp add: blocksInv_def) (simp add: placed_def distinct_removeAll)
  show "preserves (placed p limit tm) = (preserves tm)(p \<mapsto> limit)" by (auto simp: preserves_def placed_def)
qed

lemma enforceBlock_eq:
  assumes "blocksInv tm" "preserves tm p \<noteq> None"
  shows "enforceBlock p limit tm = Some (placed p limit tm)"
proof -
  from assms(2) obtain b where b: "blockObjects tm p = Some b" by (auto simp: preserves_def)
  with assms(1) have r: "registered b \<longleftrightarrow> p \<in> set (blocks tm)" unfolding blocksInv_def by (metis option.inject)
  obtain i r where "b = \<lparr>preserveIndex = i, registered = r\<rparr>" by (cases b) auto
  with b r show ?thesis
    by (cases r; cases "limit = maxLogIndex")
      (simp_all add: enforceBlock_def registerChange_def updateBlock_def placed_def)
qed

lemma enforceBlock_ok:
  assumes "blocksInv tm" "preserves tm p \<noteq> None"
  shows "\<exists>tm'. enforceBlock p limit tm = Some tm' \<and> blocksInv tm' \<and> preserves tm' = (preserves tm)(p \<mapsto> limit)"
  using enforceBlock_eq [OF assms] placed_ok [OF assms(1)] by blast

lemma newBlock_ok:
  assumes "blocksInv tm" "preserves tm p = None"
  shows "\<exists>tm'. newBlock p limit tm = Some tm' \<and> blocksInv tm' \<and> preserves tm' = (preserves tm)(p \<mapsto> limit)"
proof -
  let ?tm = "updateBlock p \<lparr>preserveIndex = maxLogIndex, registered = False\<rparr> tm"
  have "blocksInv ?tm" using assms by (auto simp: blocksInv_def updateBlock_def preserves_def)
  from enforceBlock_ok [OF this, of p limit] show ?thesis by (simp add: newBlock_def)
qed

lemma destroyBlock_ok:
  assumes "blocksInv tm" "preserves tm p \<noteq> None"
  shows "\<exists>tm'. destroyBlock p tm = Some tm' \<and> blocksInv tm' \<and> preserves tm' = (preserves tm)(p := None)"
proof -
  from enforceBlock_ok [OF assms, of maxLogIndex] obtain tm' where
    e: "enforceBlock p maxLogIndex tm = Some tm'" "blocksInv tm'" "preserves tm' = (preserves tm)(p \<mapsto> maxLogIndex)" by blast
  then obtain b where "blockObjects tm' p = Some b" "preserveIndex b = maxLogIndex"
    by (metis (no_types) fun_upd_same map_option_eq_Some preserves_def)
  with e show ?thesis
    by (auto simp: destroyBlock_def liftBlock_def blocksInv_def preserves_def fun_eq_iff)
qed

lemma canTrimLoop_ok:
  "\<forall>p \<in> set ps. objs p \<noteq> None \<Longrightarrow> canTrimLoop objs t ps = Some (\<forall>p \<in> set ps. t < preserveIndex (the (objs p)))"
  by (induction ps) auto

text \<open>\<open>t\<close> can be trimmed when every live block preserves later positions only.\<close>

lemma canTrimUntil_ok:
  assumes "blocksInv tm" "t < maxLogIndex"
  shows "canTrimUntil t tm = Some (\<forall>p b. blockObjects tm p = Some b \<longrightarrow> t < preserveIndex b)"
proof -
  have "canTrimUntil t tm = Some (\<forall>p \<in> set (blocks tm). t < preserveIndex (the (blockObjects tm p)))"
    using assms(1) unfolding canTrimUntil_def by (intro canTrimLoop_ok) (auto simp: blocksInv_def)
  also have "(\<forall>p \<in> set (blocks tm). t < preserveIndex (the (blockObjects tm p)))
      \<longleftrightarrow> (\<forall>p b. blockObjects tm p = Some b \<longrightarrow> t < preserveIndex b)"
    using assms by (auto simp: blocksInv_def) (metis option.sel)
  finally show ?thesis .
qed

subsection \<open>What a round does\<close>

text \<open>The conditions under which a round removes entries.\<close>

definition trimmable :: "trimming_config \<Rightarrow> int \<Rightarrow> trimmer \<Rightarrow> 'jdb raft_journal \<Rightarrow> bool" where
  "trimmable c lastAppl tm j \<longleftrightarrow>
     keepAtLeast c + tc_step c < logSize j - logStart j
     \<and> (\<forall>p b. blockObjects tm p = Some b \<longrightarrow> logStart j + tc_step c < preserveIndex b)
     \<and> logStart j + tc_step c < commitIndex j \<and> logStart j + tc_step c < lastAppl"

lemma entryAt_below_start:
  assumes "journalInv api j" "0 \<le> i" "int64 i" "i < logStart j"
  shows "entryAt api j i = None"
  using journalInvD(4) [OF assms(1)] assms(2-) by (auto simp: entryAt_def logEntry_def stored_def)

lemma trimRound_waits:
  assumes "getTrimmingConfig junk api sm = Some c" "int64 (keepAtLeast c + tc_step c)" "int64 (logStart j + tc_step c)"
    and "journalInv japi j" "blocksInv tm" "\<not> trimmable c (lastApplied sm) tm j"
  shows "trimRound junk api sm japi tm j = Some (True, j)"
proof (cases "logSize j - logStart j \<le> keepAtLeast c + tc_step c \<or> commitIndex j \<le> logStart j + tc_step c")
  case True
  have "\<exists>r. canTrimUntil (logStart j + tc_step c) tm = Some r" unfolding canTrimUntil_def
    by (rule exI, rule canTrimLoop_ok) (use assms(5) in \<open>auto simp: blocksInv_def\<close>)
  with True assms show ?thesis by (auto simp: trimRound_def)
next
  case False
  then have "logStart j + tc_step c < maxLogIndex"
    using journalInvD(3) [OF assms(4)] by (simp add: bounds_def int64_def maxLogIndex_def)
  from canTrimUntil_ok [OF assms(5) this] False assms show ?thesis
    by (auto simp: trimRound_def trimmable_def)
qed

lemma trimRound_trims:
  assumes "getTrimmingConfig junk api sm = Some c" "int64 (keepAtLeast c + tc_step c)" "int64 (logStart j + tc_step c)"
    and "journalInv japi j" "blocksInv tm" "trimmable c (lastApplied sm) tm j"
  shows "trimRound junk api sm japi tm j = do { j \<leftarrow> trimUntil japi (logStart j + tc_step c) j; Some (False, j) }"
proof -
  note t = assms(6) [unfolded trimmable_def]
  have "logStart j + tc_step c < maxLogIndex"
    using t journalInvD(3) [OF assms(4)] by (simp add: bounds_def int64_def maxLogIndex_def)
  from canTrimUntil_ok [OF assms(5) this] t assms(1-3) show ?thesis by (simp add: trimRound_def)
qed

lemma trimRound_ok:
  assumes "getTrimmingConfig junk api sm = Some c" "int64 (keepAtLeast c + tc_step c)" "int64 (logStart j + tc_step c)"
    and "journalInv japi j" "blocksInv tm"
  shows "\<exists>waits db' j'. trimRound junk api sm japi tm j = Some (waits, j') \<and> journalInv japi j'
    \<and> j' = j\<lparr>j_db := db', logStart := (if trimmable c (lastApplied sm) tm j then max (logStart j) (logStart j + tc_step c) else logStart j)\<rparr>
    \<and> (\<forall>i. 0 \<le> i \<longrightarrow> int64 i \<longrightarrow> entryAt japi j' i = (if i < logStart j' then None else entryAt japi j i))"
proof (cases "trimmable c (lastApplied sm) tm j \<and> 0 < tc_step c")
  case True
  then have "logStart j < logStart j + tc_step c" "logStart j + tc_step c \<le> commitIndex j" by (auto simp: trimmable_def)
  from trimUntil_ok [OF assms(4) this] obtain db' j' where
    t: "trimUntil japi (logStart j + tc_step c) j = Some j'" "j' = j\<lparr>j_db := db', logStart := logStart j + tc_step c\<rparr>" "journalInv japi j'"
      "\<forall>i. 0 \<le> i \<longrightarrow> int64 i \<longrightarrow> entryAt japi j' i = (if i < logStart j + tc_step c then None else entryAt japi j i)" by blast
  have "trimRound junk api sm japi tm j = Some (False, j')" using trimRound_trims [OF assms] True t(1) by simp
  then show ?thesis
    using t(2-4) True by (intro exI [of _ False] exI [of _ db'] exI [of _ j']) (simp add: max_def)
next
  case False
  have r: "\<exists>waits. trimRound junk api sm japi tm j = Some (waits, j)"
  proof (cases "trimmable c (lastApplied sm) tm j")
    case True
    with False trimRound_trims [OF assms] show ?thesis by (auto simp: trimUntil_def)
  next
    case False
    from trimRound_waits [OF assms False] show ?thesis by blast
  qed
  have "j = j\<lparr>j_db := j_db j, logStart := (if trimmable c (lastApplied sm) tm j then max (logStart j) (logStart j + tc_step c) else logStart j)\<rparr>"
    using False by auto
  moreover have "\<forall>i. 0 \<le> i \<longrightarrow> int64 i \<longrightarrow> entryAt japi j i = (if i < logStart j then None else entryAt japi j i)"
    using entryAt_below_start [OF assms(4)] by simp
  ultimately show ?thesis using r assms(4) by blast
qed

text \<open>A step of zero or less changes nothing, and the thread does not wait before the next round.\<close>

lemma trimRound_spins:
  assumes "getTrimmingConfig junk api sm = Some c" "int64 (keepAtLeast c + tc_step c)" "int64 (logStart j + tc_step c)"
    and "journalInv japi j" "blocksInv tm" "trimmable c (lastApplied sm) tm j" "tc_step c \<le> 0"
  shows "trimRound junk api sm japi tm j = Some (False, j)"
  using trimRound_trims [OF assms(1-6)] assms(7) by (simp add: trimUntil_def)

lemma trimming_config_parse:
  assumes "LLONG_MIN < keepAtLeast c" "keepAtLeast c < LLONG_MAX" "LLONG_MIN < tc_step c" "tc_step c < LLONG_MAX"
  shows "parseTrimmingConfig (trimmingConfigToString c) = Some c"
proof -
  have "split (trimmingConfigToString c) '':'' = Some [to_string (keepAtLeast c), to_string (tc_step c)]"
    by (simp add: trimmingConfigToString_def split_single_Cons split_single_last)
  then show ?thesis using assms by (simp add: parseTrimmingConfig_def parseIntegerList_def parseInt64_to_string)
qed

end
