(* ===== verification/RaftReplicators.thy ===== *)
theory RaftReplicators
  imports JournalScans RaftHandlers RaftTrimmers
begin

text \<open>
  Replication to one target and to all of them (\<^verbatim>\<open>src/src/raft/RaftReplicator.cc\<close>).

  The components a replica tracker shares with the rest of a leader are the fields of
  \<open>leader_parts\<close>; its own fields and the local variables of its three threads are those of
  \<open>replica_tracker\<close>.  A round of a thread that waits for a reply is two steps, one up to the
  sending and one from the reply on, since other threads run in between.  The reply is an argument,
  and so are the clock, in milliseconds, and the progress of a running resilvering, which itself is
  not modelled.
\<close>

subsection \<open>State\<close>

record 'db leader_parts =
  lp_node :: "'db raft_node"
  lp_lease :: raft_lease
  lp_tracker :: commit_tracker
  lp_trimmer :: trimmer

datatype ResilveringState = INPROGRESS | SUCCEEDED | FAILED

record pending_response =
  pr_sent :: int
  pushedFrom :: int
  pr_payloadSize :: int
  pr_lastEntryTerm :: int

record online_tracker =
  ot_online :: bool
  lastSeen :: int

record replica_tracker =
  rt_target :: raft_server
  snapshot :: state_snapshot
  rt_block :: nat
  running :: bool
  nextIndex :: int
  payloadLimit :: int
  onlineTracker :: online_tracker
  needResilvering :: bool
  resilverer :: "ResilveringState option"
  streamingUpdates :: bool
  inFlight :: "pending_response list"
  ackItem :: "pending_response option"
  statusOnline :: bool
  statusLogSize :: int
  statusNodeVersion :: bytes
  statusResilveringProgress :: bytes

subsection \<open>Online or not\<close>

definition seenOnline :: "int \<Rightarrow> online_tracker \<Rightarrow> online_tracker" where
  "seenOnline now ot = ot\<lparr>ot_online := True, lastSeen := now\<rparr>"

definition seenOffline :: "online_tracker \<Rightarrow> online_tracker" where
  "seenOffline ot = ot\<lparr>ot_online := False\<rparr>"

definition hasBeenOfflineForLong :: "int \<Rightarrow> online_tracker \<Rightarrow> bool" where
  "hasBeenOfflineForLong now ot \<longleftrightarrow> (if ot_online ot then False else 60 < (now - lastSeen ot) div 1000)"

subsection \<open>Sending\<close>

text \<open>The loop of \<open>buildPayload\<close>: \<open>Some None\<close> is the result \<open>false\<close>.\<close>

fun payloadLoop :: "int \<Rightarrow> nat \<Rightarrow> journal_iterator \<Rightarrow> int \<Rightarrow> bytes list \<Rightarrow> (bytes list \<times> int) option option" where
  "payloadLoop snapTerm 0 it trm es = Some (Some (es, trm))"
| "payloadLoop snapTerm (Suc m) it trm es =
     (if \<not> it_valid it then Some None
      else do {
        item \<leftarrow> it_current it;
        t \<leftarrow> fetchTerm item;
        if snapTerm < t then Some None
        else do {
          it \<leftarrow> it_next it;
          payloadLoop snapTerm m it t (es @ [item]) } })"

text \<open>A negative size makes \<open>entries.resize\<close> throw.\<close>

definition buildPayload ::
  "('db, 'wb) rocksdb \<Rightarrow> 'db raft_journal \<Rightarrow> int \<Rightarrow> int \<Rightarrow> int \<Rightarrow> (bytes list \<times> int) option option" where
  "buildPayload api j snapTerm nextInd limit = do {
     let payloadSize = min limit (logSize j - nextInd);
     assert_that (0 \<le> payloadSize);
     it \<leftarrow> getIterator api j nextInd True;
     payloadLoop snapTerm (nat payloadSize) it (- 1) [] }"

text \<open>
  \<open>sendPayload\<close>: the message for the target, the size of its payload and the term of its last entry,
  or nothing when replication has to halt; then the node steps down.
\<close>

definition sendPayload ::
  "('db, 'wb) rocksdb \<Rightarrow> state_snapshot \<Rightarrow> int \<Rightarrow> int \<Rightarrow> 'db raft_node
    \<Rightarrow> ((bytes list \<times> int \<times> int) option \<times> 'db raft_node) option" where
  "sendPayload api sn nextInd limit n = do {
     let halting = (do { (_, n) \<leftarrow> observed api (sn_term sn + 1) noServer n; Some (None, n) });
     prev \<leftarrow> fetch api (journal n) (nextInd - 1);
     (case prev of
        None \<Rightarrow> halting
      | Some prev \<Rightarrow>
          if sn_term sn < entryTerm prev then halting
          else do {
            let commitIndexForTarget = commitIndex (journal n);
            payload \<leftarrow> buildPayload api (journal n) (sn_term sn) nextInd limit;
            (case payload of
               None \<Rightarrow> halting
             | Some (es, lastEntryTerm) \<Rightarrow> do {
                 msg \<leftarrow> talkAppendEntries (sn_term sn) (myself n) (nextInd - 1) (entryTerm prev) commitIndexForTarget es;
                 Some (Some (msg, int (length es), lastEntryTerm), n) }) }) }"

subsection \<open>Replies\<close>

datatype reception = kOk append_entries_response | kNotArrivedYet | kError

text \<open>
  What arrives in time: nothing, a null pointer, or a reply.  When the reply cannot be parsed the
  code compares its string; only strings and errors have one, and a null pointer is followed
  for the others.
\<close>

definition replyText :: "redis_reply \<Rightarrow> unit option" where
  "replyText r = (case r of ReplyString s \<Rightarrow> Some () | ReplyError s \<Rightarrow> Some () | _ \<Rightarrow> None)"

definition retrieve_response :: "redis_reply option option \<Rightarrow> reception option" where
  "retrieve_response arrived =
     (case arrived of
        None \<Rightarrow> Some kNotArrivedYet
      | Some None \<Rightarrow> Some kError
      | Some (Some rep) \<Rightarrow>
          (case parseAppendEntriesResponse (Some rep) of
             Some r \<Rightarrow> Some (kOk r)
           | None \<Rightarrow> do { replyText rep; Some kError }))"

definition retrieve_heartbeat_reply :: "redis_reply option option \<Rightarrow> heartbeat_response option option" where
  "retrieve_heartbeat_reply arrived =
     (case arrived of
        None \<Rightarrow> Some None
      | Some None \<Rightarrow> Some None
      | Some (Some rep) \<Rightarrow>
          (case parseHeartbeatResponse (Some rep) of
             Some r \<Rightarrow> Some (Some r)
           | None \<Rightarrow> do { replyText rep; Some None }))"

subsection \<open>Status\<close>

definition rt_updateStatus :: "bytes \<Rightarrow> bool \<Rightarrow> int \<Rightarrow> replica_tracker \<Rightarrow> replica_tracker" where
  "rt_updateStatus progress onl size' rt =
     rt\<lparr>statusOnline := onl, statusLogSize := size',
       statusResilveringProgress := (if resilverer rt \<noteq> None then progress else [])\<rparr>"

definition rt_getStatus :: "replica_tracker \<Rightarrow> replica_status" where
  "rt_getStatus rt = \<lparr>target = rt_target rt, online = statusOnline rt, rs_logSize = statusLogSize rt,
     rs_version = statusNodeVersion rt, resilveringProgress = statusResilveringProgress rt\<rparr>"

definition triggerResilvering :: "replica_tracker \<Rightarrow> replica_tracker" where
  "triggerResilvering rt =
     (if resilverer rt = Some INPROGRESS then rt
      else if resilverer rt = Some FAILED then rt\<lparr>resilverer := None\<rparr>
      else rt\<lparr>resilverer := Some INPROGRESS\<rparr>)"

subsection \<open>Conservative rounds\<close>

text \<open>
  The end of a round, from the label \<open>nextRound\<close>; the wait is left out.  \<open>size'\<close> is the log size of the
  reply, -1 when none was parsed.
\<close>

definition finishRound ::
  "int \<Rightarrow> bytes \<Rightarrow> int \<Rightarrow> replica_tracker \<Rightarrow> 'db leader_parts \<Rightarrow> (replica_tracker \<times> 'db leader_parts) option" where
  "finishRound now progress size' rt lp = do {
     tm \<leftarrow> (if hasBeenOfflineForLong now (onlineTracker rt) then liftBlock (rt_block rt) (lp_trimmer lp)
           else enforceBlock (rt_block rt) (nextIndex rt - 2) (lp_trimmer lp));
     Some (rt_updateStatus progress (ot_online (onlineTracker rt)) size' rt, lp\<lparr>lp_trimmer := tm\<rparr>) }"

text \<open>What a round does first: it ends the thread, starts streaming, or sends a payload.\<close>

datatype round_start = Halted | Streams | Sent "bytes list" pending_response

definition startRound ::
  "('db, 'wb) rocksdb \<Rightarrow> int \<Rightarrow> replica_tracker \<Rightarrow> 'db leader_parts
    \<Rightarrow> (round_start \<times> replica_tracker \<times> 'db leader_parts) option" where
  "startRound api now rt lp =
     (if \<not> isSnapshotCurrent (snapshot rt) (lp_node lp) then Some (Halted, rt\<lparr>running := False\<rparr>, lp)
      else if ot_online (onlineTracker rt) \<and> 8 \<le> payloadLimit rt then
        Some (Streams, rt\<lparr>resilverer := None, streamingUpdates := True\<rparr>, lp)
      else do {
        assert_that (0 < nextIndex rt);
        let j = journal (lp_node lp);
        let rt = (if nextIndex rt \<le> logStart j then rt\<lparr>nextIndex := logSize j\<rparr> else rt);
        (sent, n) \<leftarrow> sendPayload api (snapshot rt) (nextIndex rt) (payloadLimit rt) (lp_node lp);
        let lp = lp\<lparr>lp_node := n\<rparr>;
        Some (case sent of
            None \<Rightarrow> (Halted, rt\<lparr>running := False\<rparr>, lp)
          | Some (msg, payloadSize, lastEntryTerm) \<Rightarrow>
              (Sent msg \<lparr>pr_sent = now, pushedFrom = nextIndex rt, pr_payloadSize = payloadSize, pr_lastEntryTerm = lastEntryTerm\<rparr>,
               rt, lp)) })"

text \<open>The checks on the reply, once it is known that the target is not too far behind.\<close>

definition adjustNextIndex ::
  "('db, 'wb) rocksdb \<Rightarrow> pending_response \<Rightarrow> append_entries_response \<Rightarrow> replica_tracker \<Rightarrow> 'db leader_parts
    \<Rightarrow> (replica_tracker \<times> 'db leader_parts) option" where
  "adjustNextIndex api item r rt lp =
     (let rt = rt\<lparr>needResilvering := False, resilverer := None\<rparr> in
      if \<not> aer_outcome r then
        Some (if 2 \<le> nextIndex rt \<and> nextIndex rt \<le> aer_logSize r then rt\<lparr>nextIndex := nextIndex rt - 1\<rparr>
              else if 0 < aer_logSize r then rt\<lparr>nextIndex := aer_logSize r\<rparr> else rt, lp)
      else do {
        (ct, j) \<leftarrow> (if pr_lastEntryTerm item = sn_term (snapshot rt)
                   then matchIndexUpdate api (rt_target rt) (aer_logSize r - 1) (lp_tracker lp) (journal (lp_node lp))
                   else Some (lp_tracker lp, journal (lp_node lp)));
        Some (rt\<lparr>nextIndex := aer_logSize r, payloadLimit := (if payloadLimit rt < 1024 then payloadLimit rt * 2 else payloadLimit rt)\<rparr>,
              lp\<lparr>lp_tracker := ct, lp_node := (lp_node lp)\<lparr>journal := j\<rparr>\<rparr>) })"

definition needsResilvering ::
  "('sdb, 'swb) rocksdb \<Rightarrow> 'sdb state_machine \<Rightarrow> replica_tracker \<Rightarrow> 'db leader_parts \<Rightarrow> replica_tracker option" where
  "needsResilvering sapi sm rt lp = do {
     let rt = rt\<lparr>nextIndex := logSize (journal (lp_node lp))\<rparr>;
     let rt = (if \<not> needResilvering rt then rt\<lparr>needResilvering := True, payloadLimit := 1\<rparr> else rt);
     enabled \<leftarrow> getResilveringEnabled sapi sm;
     Some (if enabled then triggerResilvering rt else rt) }"

definition endRound ::
  "('sdb, 'swb) rocksdb \<Rightarrow> 'sdb state_machine \<Rightarrow> ('db, 'wb) rocksdb \<Rightarrow> int \<Rightarrow> bytes \<Rightarrow> pending_response \<Rightarrow> redis_reply option option
    \<Rightarrow> replica_tracker \<Rightarrow> 'db leader_parts \<Rightarrow> (replica_tracker \<times> 'db leader_parts) option" where
  "endRound sapi sm api now progress item arrived rt lp = do {
     rcv \<leftarrow> retrieve_response arrived;
     (case rcv of
        kOk r \<Rightarrow> do {
          let rt = (if \<not> ot_online (onlineTracker rt) then rt\<lparr>onlineTracker := seenOnline now (onlineTracker rt)\<rparr> else rt);
          (_, n) \<leftarrow> observed api (aer_term r) noServer (lp_node lp);
          let lp = lp\<lparr>lp_node := n\<rparr>;
          if sn_term (snapshot rt) < aer_term r then Some (rt, lp)
          else do {
            let lp = lp\<lparr>lp_lease := lease_heartbeat (rt_target rt) (pr_sent item) (lp_lease lp)\<rparr>;
            (rt, lp) \<leftarrow> (if aer_logSize r \<le> logStart (journal (lp_node lp))
                        then do { rt \<leftarrow> needsResilvering sapi sm rt lp; Some (rt, lp) }
                        else adjustNextIndex api item r rt lp);
            finishRound now progress (aer_logSize r) rt lp } }
      | _ \<Rightarrow>
          finishRound now progress (- 1)
            (if ot_online (onlineTracker rt)
             then rt\<lparr>payloadLimit := 1, onlineTracker := seenOffline (onlineTracker rt)\<rparr> else rt) lp) }"

subsection \<open>Streaming\<close>

text \<open>
  A round of \<open>streamUpdates\<close>; the thread waits while 512 messages are in flight.  The result says
  whether the loop goes on.
\<close>

definition streamRound ::
  "('db, 'wb) rocksdb \<Rightarrow> int \<Rightarrow> replica_tracker \<Rightarrow> 'db leader_parts
    \<Rightarrow> (bytes list option \<times> bool \<times> replica_tracker \<times> 'db leader_parts) option" where
  "streamRound api now rt lp =
     (if \<not> (streamingUpdates rt \<and> isSnapshotCurrent (snapshot rt) (lp_node lp)) then Some (None, False, rt, lp)
      else if 512 \<le> length (inFlight rt) then Some (None, True, rt, lp)
      else do {
        (sent, n) \<leftarrow> sendPayload api (snapshot rt) (nextIndex rt) 512 (lp_node lp);
        let lp = lp\<lparr>lp_node := n\<rparr>;
        Some (case sent of
            None \<Rightarrow> (None, False, rt, lp)
          | Some (msg, payloadSize, lastEntryTerm) \<Rightarrow>
              (Some msg, True,
               rt\<lparr>inFlight := inFlight rt @ [\<lparr>pr_sent = now, pushedFrom = nextIndex rt, pr_payloadSize = payloadSize,
                                            pr_lastEntryTerm = lastEntryTerm\<rparr>],
                  nextIndex := nextIndex rt + payloadSize\<rparr>, lp)) })"

text \<open>Back in \<open>main\<close> after streaming; the monitor has been joined.\<close>

definition finishStreaming :: "int \<Rightarrow> replica_tracker \<Rightarrow> replica_tracker" where
  "finishStreaming now rt =
     rt\<lparr>inFlight := [], ackItem := None, streamingUpdates := False,
       onlineTracker := seenOnline now (onlineTracker rt), payloadLimit := 1\<rparr>"

text \<open>\<open>monitorAckReception\<close>: taking the next item, and what is done with its reply.\<close>

definition takeItem :: "replica_tracker \<Rightarrow> replica_tracker" where
  "takeItem rt =
     (case (ackItem rt, inFlight rt) of
        (None, item # items) \<Rightarrow> rt\<lparr>ackItem := Some item, inFlight := items\<rparr>
      | _ \<Rightarrow> rt)"

definition monitorReply ::
  "('db, 'wb) rocksdb \<Rightarrow> bytes \<Rightarrow> redis_reply option option \<Rightarrow> replica_tracker \<Rightarrow> 'db leader_parts
    \<Rightarrow> (replica_tracker \<times> 'db leader_parts) option" where
  "monitorReply api progress arrived rt lp =
     (case ackItem rt of
        None \<Rightarrow> Some (rt, lp)
      | Some item \<Rightarrow> do {
          rcv \<leftarrow> retrieve_response arrived;
          (case rcv of
             kNotArrivedYet \<Rightarrow> Some (rt, lp)
           | kError \<Rightarrow> Some (rt\<lparr>streamingUpdates := False\<rparr>, lp)
           | kOk r \<Rightarrow> do {
               (_, n) \<leftarrow> observed api (aer_term r) noServer (lp_node lp);
               let lp = lp\<lparr>lp_node := n\<rparr>;
               if \<not> aer_outcome r \<or> aer_term r \<noteq> sn_term (snapshot rt)
                 \<or> aer_logSize r \<noteq> pushedFrom item + pr_payloadSize item
               then Some (rt\<lparr>streamingUpdates := False\<rparr>, lp)
               else do {
                 let rt = rt_updateStatus progress True (aer_logSize r) rt;
                 let lp = lp\<lparr>lp_lease := lease_heartbeat (rt_target rt) (pr_sent item) (lp_lease lp)\<rparr>;
                 (ct, j) \<leftarrow> (if pr_lastEntryTerm item = sn_term (snapshot rt)
                            then matchIndexUpdate api (rt_target rt) (aer_logSize r - 1) (lp_tracker lp) (journal (lp_node lp))
                            else Some (lp_tracker lp, journal (lp_node lp)));
                 tm \<leftarrow> enforceBlock (rt_block rt) (aer_logSize r - 2) (lp_trimmer lp);
                 Some (rt\<lparr>ackItem := None\<rparr>,
                       lp\<lparr>lp_tracker := ct, lp_node := (lp_node lp)\<lparr>journal := j\<rparr>, lp_trimmer := tm\<rparr>) } }) })"

subsection \<open>Heartbeats\<close>

text \<open>The version is the one the target told when the connection was made.\<close>

definition sendHeartbeat :: "bytes \<Rightarrow> replica_tracker \<Rightarrow> 'db leader_parts \<Rightarrow> (bytes list \<times> replica_tracker) option" where
  "sendHeartbeat version rt lp =
     (if isSnapshotCurrent (snapshot rt) (lp_node lp)
      then Some (talkHeartbeat (sn_term (snapshot rt)) (myself (lp_node lp)), rt\<lparr>statusNodeVersion := version\<rparr>) else None)"

definition heartbeatReply ::
  "('db, 'wb) rocksdb \<Rightarrow> int \<Rightarrow> redis_reply option option \<Rightarrow> replica_tracker \<Rightarrow> 'db leader_parts \<Rightarrow> 'db leader_parts option" where
  "heartbeatReply api contact arrived rt lp = do {
     rcv \<leftarrow> retrieve_heartbeat_reply arrived;
     (case rcv of
        None \<Rightarrow> Some lp
      | Some r \<Rightarrow> do {
          (_, n) \<leftarrow> observed api (hbr_term r) noServer (lp_node lp);
          let lp = lp\<lparr>lp_node := n\<rparr>;
          if sn_term (snapshot rt) < hbr_term r \<or> \<not> nodeRecognizedAsLeader r then Some lp
          else Some (lp\<lparr>lp_lease := lease_heartbeat (rt_target rt) contact (lp_lease lp)\<rparr>) }) }"

subsection \<open>Trackers come and go\<close>

definition newReplicaTracker ::
  "raft_server \<Rightarrow> state_snapshot \<Rightarrow> nat \<Rightarrow> 'db leader_parts \<Rightarrow> (replica_tracker \<times> 'db leader_parts) option" where
  "newReplicaTracker trg sn p lp = do {
     let n = lp_node lp;
     let ct = (lp_tracker lp)\<lparr>ct_registrations := getHandlerInternal trg (ct_registrations (lp_tracker lp))\<rparr>;
     let l = lease_getHandler trg (lp_lease lp);
     tm \<leftarrow> newBlock p 0 (lp_trimmer lp);
     assert_that (trg \<noteq> myself n);
     assert_that (sn_term sn \<le> n_term n);
     assert_that (sn_term sn < n_term n \<or> n_status n = LEADER \<or> n_status n = SHUTDOWN);
     Some (\<lparr>rt_target = trg, snapshot = sn, rt_block = p, running = (sn_term sn = n_term n),
            nextIndex = logSize (journal n), payloadLimit = 1, onlineTracker = \<lparr>ot_online = False, lastSeen = 0\<rparr>,
            needResilvering = False, resilverer = None, streamingUpdates = False, inFlight = [], ackItem = None,
            statusOnline = False, statusLogSize = - 1, statusNodeVersion = ''N/A'', statusResilveringProgress = []\<rparr>,
           lp\<lparr>lp_tracker := ct, lp_lease := l, lp_trimmer := tm\<rparr>) }"

definition destroyReplicaTracker :: "replica_tracker \<Rightarrow> 'db leader_parts \<Rightarrow> 'db leader_parts option" where
  "destroyReplicaTracker rt lp = do {
     tm \<leftarrow> destroyBlock (rt_block rt) (lp_trimmer lp);
     Some (lp\<lparr>lp_trimmer := tm\<rparr>) }"

subsection \<open>The replicator\<close>

record replicator =
  rp_snapshot :: "state_snapshot option"
  rp_targets :: "(raft_server \<times> replica_tracker) list"

fun exceptMyself :: "raft_server \<Rightarrow> nat \<Rightarrow> raft_server list \<Rightarrow> (raft_server list \<times> nat) option" where
  "exceptMyself me skipped [] = Some ([], skipped)"
| "exceptMyself me skipped (s # ss) =
     (if me = s then do { assert_that (skipped = 0); exceptMyself me (skipped + 1) ss }
      else do { (rs, k) \<leftarrow> exceptMyself me skipped ss; Some (s # rs, k) })"

definition all_servers_except_myself :: "raft_server list \<Rightarrow> raft_server \<Rightarrow> raft_server list option" where
  "all_servers_except_myself ns me = do {
     (remaining, skipped) \<leftarrow> exceptMyself me 0 ns;
     assert_that (skipped = 1);
     assert_that (int (length remaining) = int (length ns) - 1);
     Some remaining }"

text \<open>The map keeps its keys in the order of \<open>RaftServer::operator<\<close>; a new tracker gets a free address for its block.\<close>

fun insertTracker :: "raft_server \<Rightarrow> replica_tracker \<Rightarrow> (raft_server \<times> replica_tracker) list \<Rightarrow> (raft_server \<times> replica_tracker) list" where
  "insertTracker s rt [] = [(s, rt)]"
| "insertTracker s rt ((t, r) # rest) = (if serverLess s t then (s, rt) # (t, r) # rest else (t, r) # insertTracker s rt rest)"

definition freshAddress :: "trimmer \<Rightarrow> (raft_server \<times> replica_tracker) list \<Rightarrow> nat" where
  "freshAddress tm ts = Suc (Max (set (0 # blocks tm @ map (rt_block \<circ> snd) ts)))"

fun addTargets ::
  "state_snapshot \<Rightarrow> raft_server list \<Rightarrow> (raft_server \<times> replica_tracker) list \<Rightarrow> 'db leader_parts
    \<Rightarrow> ((raft_server \<times> replica_tracker) list \<times> 'db leader_parts) option" where
  "addTargets sn [] ts lp = Some (ts, lp)"
| "addTargets sn (s # ss) ts lp =
     (if s \<in> fst ` set ts then addTargets sn ss ts lp
      else do {
        (rt, lp) \<leftarrow> newReplicaTracker s sn (freshAddress (lp_trimmer lp) ts) lp;
        addTargets sn ss (insertTracker s rt ts) lp })"

fun removeTargets ::
  "raft_server list \<Rightarrow> (raft_server \<times> replica_tracker) list \<Rightarrow> 'db leader_parts
    \<Rightarrow> ((raft_server \<times> replica_tracker) list \<times> 'db leader_parts) option" where
  "removeTargets keep [] lp = Some ([], lp)"
| "removeTargets keep ((s, rt) # ts) lp =
     (if contains keep s then do { (ts, lp) \<leftarrow> removeTargets keep ts lp; Some ((s, rt) # ts, lp) }
      else do { lp \<leftarrow> destroyReplicaTracker rt lp; removeTargets keep ts lp })"

text \<open>Without a snapshot a new tracker follows a null pointer.\<close>

definition setTargets ::
  "raft_server list \<Rightarrow> replicator \<Rightarrow> 'db leader_parts \<Rightarrow> (replicator \<times> 'db leader_parts) option" where
  "setTargets newTargets rp lp = do {
     (ts, lp) \<leftarrow> (case rp_snapshot rp of
         Some sn \<Rightarrow> addTargets sn newTargets (rp_targets rp) lp
       | None \<Rightarrow> do { assert_that (\<forall>s \<in> set newTargets. s \<in> fst ` set (rp_targets rp)); Some (rp_targets rp, lp) });
     (ts, lp) \<leftarrow> removeTargets newTargets ts lp;
     Some (rp\<lparr>rp_targets := ts\<rparr>, lp) }"

definition reconfigure :: "replicator \<Rightarrow> 'db leader_parts \<Rightarrow> (replicator \<times> 'db leader_parts) option" where
  "reconfigure rp lp = do {
     let n = lp_node lp;
     let membership = members (journal n);
     full_nodes \<leftarrow> all_servers_except_myself (nodes membership) (myself n);
     assert_that (myself n \<notin> set (observers membership));
     ct \<leftarrow> ct_updateTargets full_nodes (lp_tracker lp);
     setTargets (full_nodes @ observers membership) rp
       (lp\<lparr>lp_tracker := ct, lp_lease := lease_updateTargets full_nodes (lp_lease lp)\<rparr>) }"

definition activate :: "state_snapshot \<Rightarrow> replicator \<Rightarrow> 'db leader_parts \<Rightarrow> (replicator \<times> 'db leader_parts) option" where
  "activate sn rp lp = do {
     assert_that (rp_targets rp = []);
     reconfigure (rp\<lparr>rp_snapshot := Some sn\<rparr>) (lp\<lparr>lp_tracker := ct_reset (lp_tracker lp)\<rparr>) }"

definition deactivate :: "replicator \<Rightarrow> 'db leader_parts \<Rightarrow> (replicator \<times> 'db leader_parts) option" where
  "deactivate rp lp = do {
     (ts, lp) \<leftarrow> removeTargets [] (rp_targets rp) lp;
     Some (\<lparr>rp_snapshot = None, rp_targets = ts\<rparr>, lp\<lparr>lp_tracker := ct_reset (lp_tracker lp)\<rparr>) }"

fun addReplicas :: "replica_tracker list \<Rightarrow> replica_status list \<Rightarrow> replica_status list option" where
  "addReplicas [] rs = Some rs"
| "addReplicas (t # ts) rs = do { rs \<leftarrow> addReplica (rt_getStatus t) rs; addReplicas ts rs }"

text \<open>The statuses of the targets, and whether the quorum is shaky.\<close>

definition rp_getStatus :: "int \<Rightarrow> replicator \<Rightarrow> 'db leader_parts \<Rightarrow> (replica_status list \<times> bool) option" where
  "rp_getStatus now rp lp = do {
     rs \<leftarrow> addReplicas (map snd (rp_targets rp)) [];
     deadline \<leftarrow> getShakyQuorumDeadline now (lp_lease lp);
     Some (rs, deadline < now) }"

end
