(* ===== verification/Replication.thy ===== *)
theory Replication
  imports RaftReplicators
begin

text \<open>
  What a replica tracker sends and what it concludes from the replies.  A payload is the slice of the
  leader's log from \<open>nextIndex\<close> on, and the target reads it as such.  The match index of a
  target only moves on acknowledgements of entries of the leader's own term.
\<close>

subsection \<open>Slices of the log\<close>

definition logSlice :: "('db, 'wb) rocksdb \<Rightarrow> 'db raft_journal \<Rightarrow> int \<Rightarrow> nat \<Rightarrow> raft_entry list" where
  "logSlice api j p m = map (\<lambda>k. the (entryAt api j (p + int k))) [0..<m]"

lemma length_logSlice [simp]: "length (logSlice api j p m) = m"
  by (simp add: logSlice_def)

lemma logSlice_nth [simp]: "k < m \<Longrightarrow> logSlice api j p m ! k = the (entryAt api j (p + int k))"
  by (simp add: logSlice_def)

lemma logSlice_Suc: "logSlice api j p (Suc m) = the (entryAt api j p) # logSlice api j (p + 1) m"
  by (rule nth_equalityI) (auto simp: nth_Cons' algebra_simps of_nat_diff)

lemma entry_term_bound:
  assumes "journalInv api j" "logStart j \<le> i" "entryAt api j i = Some e" "i < logSize j"
  shows "entryTerm e \<le> currentTerm j"
proof -
  obtain x where "logEntry (jview api j) (logSize j - 1) = Some x" "entryTerm x \<le> currentTerm j"
    using journalInvD(6) [OF assms(1)] by (auto simp: lastTermOk_def)
  moreover have "entryTerm e \<le> entryTerm x"
    using journalInvD(5) [OF assms(1), unfolded termsSorted_def, rule_format, of i "logSize j - 1" e x] assms(2-4) calculation(1)
    by (simp add: entryAt_def)
  ultimately show ?thesis by simp
qed

lemma slice_entries:
  assumes "journalInv api j" "logStart j \<le> p" "p + int m \<le> logSize j" "e \<in> set (logSlice api j p m)"
  shows "okLogEntry e" "entryTerm e \<le> currentTerm j"
proof -
  from assms(4) obtain k where k: "k < m" "e = the (entryAt api j (p + int k))" by (auto simp: logSlice_def)
  obtain x where x: "okLogEntry x" "entryAt api j (p + int k) = Some x"
    using log_entry [OF assms(1), of "p + int k"] assms(2,3) k(1) by auto
  then show "okLogEntry e" using k by simp
  show "entryTerm e \<le> currentTerm j"
    using entry_term_bound [OF assms(1) _ x(2)] x(2) k assms(2,3) by simp
qed

subsection \<open>Payloads\<close>

lemma payloadLoop_ok:
  assumes inv: "journalInv api j" and "standsAt api j p it" "logStart j \<le> p" "p + int m \<le> logSize j" and t: "currentTerm j \<le> t"
  shows "payloadLoop t m it trm es =
    Some (Some (es @ map serializeEntry (logSlice api j p m), if m = 0 then trm else entryTerm (last (logSlice api j p m))))"
  using assms(2-4)
proof (induction m arbitrary: p it trm es)
  case 0
  then show ?case by (simp add: logSlice_def)
next
  case (Suc m)
  have p: "p < logSize j" using Suc.prems(3) by simp
  obtain e where e: "okLogEntry e" "entryAt api j p = Some e" using log_entry [OF inv Suc.prems(2) p] by metis
  obtain it' where n: "it_next it = Some it'" "standsAt api j (p + 1) it'" using it_next_ok [OF Suc.prems(1) p] by blast
  have c: "it_valid it" "it_current it = Some (serializeEntry e)"
    using standsAt_valid [OF Suc.prems(1)] it_current_ok [OF Suc.prems(1) p] storedAt_entry(2) [OF inv Suc.prems(2) p e(2)] p
    by simp_all
  have "\<not> t < entryTerm e" using entry_term_bound [OF inv Suc.prems(2) e(2) p] t by simp
  then have "payloadLoop t (Suc m) it trm es = payloadLoop t m it' (entryTerm e) (es @ [serializeEntry e])"
    using c n(1) e(1) by (simp add: okLogEntry_def)
  also have "\<dots> = Some (Some ((es @ [serializeEntry e]) @ map serializeEntry (logSlice api j (p + 1) m),
      if m = 0 then entryTerm e else entryTerm (last (logSlice api j (p + 1) m))))"
    by (rule Suc.IH) (use n(2) Suc.prems in simp_all)
  also have "\<dots> = Some (Some (es @ map serializeEntry (logSlice api j p (Suc m)), entryTerm (last (logSlice api j p (Suc m)))))"
  proof -
    have "m \<noteq> 0 \<Longrightarrow> logSlice api j (p + 1) m \<noteq> []" by (metis length_logSlice list.size(3))
    then show ?thesis using e(2) by (auto simp: logSlice_Suc, simp add: logSlice_def)
  qed
  finally show ?case by simp
qed

lemma getIterator_end:
  assumes "journalInv api j"
  shows "\<exists>it. getIterator api j (logSize j) True = Some it"
proof -
  have "logStart j \<le> logSize j" using journalInvD(3) [OF assms(1)] by (simp add: bounds_def)
  from journal_iteration [OF assms this order_refl] obtain others where
    o: "db_iter api (j_db j) (encodeEntryKey (logSize j)) = others" "\<forall>e \<in> set others. fst e \<noteq> [] \<and> hd (fst e) \<noteq> CHR ''E''"
    by auto
  show ?thesis
  proof (cases others)
    case Nil
    with o(1) show ?thesis by (simp add: getIterator_def it_valid_def)
  next
    case (Cons e es)
    with o(2) have "fst e \<noteq> encodeEntryKey (logSize j)" by (auto simp: encodeEntryKey_def)
    with o(1) Cons show ?thesis by (simp add: getIterator_def it_valid_def it_entry_def)
  qed
qed

text \<open>The number of entries a payload carries.\<close>

definition payloadLength :: "'db raft_journal \<Rightarrow> int \<Rightarrow> int \<Rightarrow> nat" where
  "payloadLength j p limit = nat (min limit (logSize j - p))"

lemma buildPayload_ok:
  assumes inv: "journalInv api j" and p: "logStart j \<le> p" "p \<le> logSize j"
    and t: "currentTerm j \<le> t" and limit: "0 \<le> limit"
  shows "buildPayload api j t p limit = (let es = logSlice api j p (payloadLength j p limit) in
    Some (Some (map serializeEntry es, if es = [] then - 1 else entryTerm (last es))))"
proof -
  let ?m = "payloadLength j p limit"
  have m: "0 \<le> min limit (logSize j - p)" "int ?m = min limit (logSize j - p)" using p limit by (simp_all add: payloadLength_def)
  have z: "logSlice api j p ?m = [] \<longleftrightarrow> ?m = 0" by (metis length_0_conv length_logSlice)
  show ?thesis
  proof (cases "p < logSize j")
    case True
    from getIterator_ok [OF inv p(1) True] obtain it where it: "getIterator api j p True = Some it" "standsAt api j p it" by blast
    have "payloadLoop t ?m it (- 1) [] =
        Some (Some ([] @ map serializeEntry (logSlice api j p ?m), if ?m = 0 then - 1 else entryTerm (last (logSlice api j p ?m))))"
      by (rule payloadLoop_ok [OF inv it(2) p(1) _ t]) (use m in linarith)
    then show ?thesis unfolding buildPayload_def Let_def z payloadLength_def [symmetric] using it(1) m(1) by simp
  next
    case False
    then have e: "p = logSize j" "?m = 0" using p(2) limit by (simp_all add: payloadLength_def)
    with getIterator_end [OF inv] z limit show ?thesis by (auto simp: buildPayload_def Let_def)
  qed
qed

subsection \<open>Messages\<close>

text \<open>The request a leader means when it sends from position \<open>p\<close>.\<close>

definition meantRequest :: "('db, 'wb) rocksdb \<Rightarrow> 'db raft_node \<Rightarrow> int \<Rightarrow> int \<Rightarrow> append_entries_request" where
  "meantRequest api n p limit =
     \<lparr>ae_term = n_term n, ae_leader = myself n, prevIndex = p - 1, prevTerm = entryTerm (the (entryAt api (journal n) (p - 1))),
      ae_commitIndex = commitIndex (journal n), entries = logSlice api (journal n) p (payloadLength (journal n) p limit)\<rparr>"

lemma sendPayload_ok:
  assumes inv: "nodeInv api n" and sn: "sn_term sn = n_term n"
    and p: "logStart (journal n) < p" "p \<le> logSize (journal n)" and limit: "0 \<le> limit" "limit \<le> 1024"
  shows "\<exists>msg. sendPayload api sn p limit n =
      Some (Some (msg, int (payloadLength (journal n) p limit),
         let es = entries (meantRequest api n p limit) in if es = [] then - 1 else entryTerm (last es)), n)
    \<and> parseAppendEntries msg = Some (Some (meantRequest api n p limit))"
proof -
  let ?j = "journal n" and ?r = "meantRequest api n p limit" and ?es = "logSlice api (journal n) p (payloadLength (journal n) p limit)"
  note J = nodeInvD(1) [OF inv]
  have t: "n_term n = currentTerm ?j" by (rule nodeInvD(3) [OF inv])
  have b: "0 \<le> logStart ?j" "int64 (logSize ?j)" "int64 (currentTerm ?j)" "0 \<le> commitIndex ?j" "commitIndex ?j < logSize ?j"
    using journalInvD(3) [OF J] by (auto simp: bounds_def)
  obtain e where e: "okLogEntry e" "entryAt api ?j (p - 1) = Some e" "fetch api ?j (p - 1) = Some (Some e)"
    using log_entry [OF J, of "p - 1"] p by auto
  have et: "entryTerm e \<le> currentTerm ?j" using entry_term_bound [OF J _ e(2)] p by simp
  have len: "int (payloadLength ?j p limit) = min limit (logSize ?j - p)" using limit p by (simp add: payloadLength_def)
  have all: "okLogEntry x \<and> entryTerm x \<le> currentTerm ?j" if "x \<in> set ?es" for x
    using slice_entries [OF J _ _ that] p len by auto
  have "\<exists>msg. talkAppendEntries (ae_term ?r) (ae_leader ?r) (prevIndex ?r) (prevTerm ?r) (ae_commitIndex ?r)
      (map serializeEntry (entries ?r)) = Some msg \<and> parseAppendEntries msg = Some (Some ?r)"
  proof (rule append_entries_roundtrip)
    show "length (entries ?r) + 3 < 2 ^ 31" using len limit by (simp add: meantRequest_def)
  qed (use all e et t b p nodeInvD(2) [OF inv] in \<open>auto simp: meantRequest_def okLogEntry_def okEntry_def int64_def\<close>)
  then obtain msg where "talkAppendEntries (n_term n) (myself n) (p - 1) (entryTerm e) (commitIndex ?j) (map serializeEntry ?es) = Some msg"
      "parseAppendEntries msg = Some (Some ?r)"
    using e(2) by (auto simp: meantRequest_def)
  moreover have "buildPayload api ?j (sn_term sn) p limit = Some (Some (map serializeEntry ?es, if ?es = [] then - 1 else entryTerm (last ?es)))"
    using buildPayload_ok [OF J, of p "sn_term sn" limit] p limit sn t by (simp add: Let_def)
  ultimately show ?thesis
    using e(3) et sn t unfolding sendPayload_def by (auto simp: Let_def meantRequest_def)
qed

end
