(* ===== verification/RaftSpec.thy ===== *)
theory RaftSpec
  imports RaftTypes
begin

text \<open>
  The protocol the nodes of a cluster follow, as an abstract specification: logs are lists that are
  never trimmed, and the state also remembers what happened (who voted for whom and with which log,
  which logs were acknowledged, the log of the leader of each term).  The steps say what a node may do
  in terms of these; \<open>ClusterRefinement\<close> shows that the code makes no other steps.

  The result is leader completeness: what a quorum has acknowledged in a term is in the log of
  every leader of a later term.  A candidate may ask for votes with an older log than the one it
  wins with, since the director reads the log before it asks for pre-votes.
\<close>

subsection \<open>State and steps\<close>

record ('s, 'e) raft_spec =
  cur :: "'s \<Rightarrow> int"
  slog :: "'s \<Rightarrow> 'e list"
  past :: "('s \<times> int \<times> 'e list) set"
  claims :: "'s \<Rightarrow> int \<Rightarrow> 'e list option"
  votes :: "('s \<times> int \<times> 's \<times> 'e list) set"
  leaderOf :: "int \<Rightarrow> 's option"
  baseLog :: "int \<Rightarrow> 'e list"
  leaderLog :: "int \<Rightarrow> 'e list"
  followed :: "('s \<times> int) set"
  ackd :: "('s \<times> int \<times> 'e list) set"

definition moreRecent :: "('e \<Rightarrow> int) \<Rightarrow> 'e list \<Rightarrow> 'e list \<Rightarrow> bool" where
  "moreRecent tm L Lv \<longleftrightarrow> tm (last Lv) < tm (last L) \<or> tm (last L) = tm (last Lv) \<and> length Lv \<le> length L"

text \<open>Replacing the end of a log by that of the leader keeps what the two have in common.\<close>

definition follows :: "'e list \<Rightarrow> 'e list \<Rightarrow> 'e list \<Rightarrow> bool" where
  "follows L M L' \<longleftrightarrow> L' = L \<or> prefix L' M \<and> L' \<noteq> [] \<and> (\<forall>P. prefix P L \<longrightarrow> prefix P M \<longrightarrow> prefix P L')"

inductive raft_step :: "('s set \<Rightarrow> bool) \<Rightarrow> ('e \<Rightarrow> int) \<Rightarrow> ('s, 'e) raft_spec \<Rightarrow> ('s, 'e) raft_spec \<Rightarrow> bool" for quorum tm where
  advance: "cur x s \<le> T \<Longrightarrow> raft_step quorum tm x (x\<lparr>cur := (cur x)(s := T)\<rparr>)"
| prepare: "raft_step quorum tm x (x\<lparr>past := insert (s, cur x s, slog x s) (past x)\<rparr>)"
| campaign: "(s, u, L) \<in> past x \<Longrightarrow> u < T \<Longrightarrow> cur x s \<le> T \<Longrightarrow> claims x s T = None \<Longrightarrow> \<forall>c Lv. (s, T, c, Lv) \<notin> votes x \<Longrightarrow> (s, T) \<notin> followed x \<Longrightarrow>
    raft_step quorum tm x (x\<lparr>cur := (cur x)(s := T), claims := (claims x)(s := (claims x s)(T \<mapsto> L)),
      votes := insert (s, T, s, slog x s) (votes x), past := insert (s, T, slog x s) (past x)\<rparr>)"
| vote: "s \<noteq> c \<Longrightarrow> cur x s \<le> T \<Longrightarrow> claims x c T = Some L \<Longrightarrow> \<forall>c Lv. (s, T, c, Lv) \<notin> votes x \<Longrightarrow> (s, T) \<notin> followed x \<Longrightarrow> moreRecent tm L (slog x s) \<Longrightarrow>
    raft_step quorum tm x (x\<lparr>cur := (cur x)(s := T), votes := insert (s, T, c, slog x s) (votes x)\<rparr>)"
| win: "leaderOf x T = None \<Longrightarrow> cur x c = T \<Longrightarrow> claims x c T = Some L \<Longrightarrow> quorum Q \<Longrightarrow> \<forall>s \<in> Q. \<exists>Lv. (s, T, c, Lv) \<in> votes x \<Longrightarrow> tm e = T \<Longrightarrow>
    raft_step quorum tm x (x\<lparr>slog := (slog x)(c := slog x c @ [e]), leaderOf := (leaderOf x)(T \<mapsto> c),
      baseLog := (baseLog x)(T := slog x c), leaderLog := (leaderLog x)(T := slog x c @ [e])\<rparr>)"
| extend: "leaderOf x T = Some c \<Longrightarrow> cur x c = T \<Longrightarrow> slog x c = leaderLog x T \<Longrightarrow> tm e = T \<Longrightarrow>
    raft_step quorum tm x (x\<lparr>slog := (slog x)(c := slog x c @ [e]), leaderLog := (leaderLog x)(T := leaderLog x T @ [e])\<rparr>)"
| follow: "leaderOf x T = Some c \<Longrightarrow> s \<noteq> c \<Longrightarrow> cur x s \<le> T \<Longrightarrow> follows (slog x s) (leaderLog x T) L \<Longrightarrow>
    raft_step quorum tm x (x\<lparr>cur := (cur x)(s := T), slog := (slog x)(s := L), followed := insert (s, T) (followed x)\<rparr>)"
| ack: "leaderOf x T = Some c \<Longrightarrow> cur x s = T \<Longrightarrow> tm (last (slog x s)) = T \<Longrightarrow>
    raft_step quorum tm x (x\<lparr>ackd := insert (s, T, slog x s) (ackd x)\<rparr>)"

definition raft_init :: "('e \<Rightarrow> int) \<Rightarrow> 'e \<Rightarrow> ('s, 'e) raft_spec \<Rightarrow> bool" where
  "raft_init tm e x \<longleftrightarrow> tm e = 0 \<and> (\<forall>s. 0 \<le> cur x s \<and> slog x s = [e]) \<and> past x = {} \<and> claims x = (\<lambda>_ _. None) \<and> votes x = {}
     \<and> leaderOf x = (\<lambda>_. None) \<and> leaderLog x = (\<lambda>_. [])(0 := [e]) \<and> followed x = {} \<and> ackd x = {}"

text \<open>A quorum has acknowledged \<open>P\<close> in term \<open>t\<close>, to which its last entry belongs.\<close>

definition committed :: "('s set \<Rightarrow> bool) \<Rightarrow> ('e \<Rightarrow> int) \<Rightarrow> ('s, 'e) raft_spec \<Rightarrow> int \<Rightarrow> 'e list \<Rightarrow> bool" where
  "committed quorum tm x t P \<longleftrightarrow> P \<noteq> [] \<and> tm (last P) = t \<and> (\<exists>Q. quorum Q \<and> (\<forall>s \<in> Q. \<exists>P'. (s, t, P') \<in> ackd x \<and> prefix P P'))"

subsection \<open>Invariants\<close>

text \<open>A log agrees with the log of the leader of the term of each of its entries, up to that entry.\<close>

definition matching :: "('e \<Rightarrow> int) \<Rightarrow> ('s, 'e) raft_spec \<Rightarrow> 'e list \<Rightarrow> bool" where
  "matching tm x L \<longleftrightarrow> L \<noteq> [] \<and> (\<forall>P. P \<noteq> [] \<longrightarrow> prefix P L \<longrightarrow> prefix P (leaderLog x (tm (last P))))
     \<and> (\<forall>e \<in> set L. tm e = 0 \<or> leaderOf x (tm e) \<noteq> None) \<and> sorted_wrt (\<lambda>a b. tm a \<le> tm b) L"

definition logsInv :: "('e \<Rightarrow> int) \<Rightarrow> ('s, 'e) raft_spec \<Rightarrow> bool" where
  "logsInv tm x \<longleftrightarrow>
     (\<forall>s. matching tm x (slog x s) \<and> 0 \<le> cur x s \<and> tm (last (slog x s)) \<le> cur x s)
     \<and> (\<forall>s u L. (s, u, L) \<in> past x \<longrightarrow> matching tm x L \<and> 0 \<le> u \<and> u \<le> cur x s \<and> tm (last L) \<le> u)
     \<and> (\<forall>s T c L. (s, T, c, L) \<in> votes x \<longrightarrow> matching tm x L)
     \<and> (\<forall>c T L. claims x c T = Some L \<longrightarrow> matching tm x L \<and> tm (last L) < T \<and> 0 < T)"

definition leadersInv :: "('s set \<Rightarrow> bool) \<Rightarrow> ('e \<Rightarrow> int) \<Rightarrow> ('s, 'e) raft_spec \<Rightarrow> bool" where
  "leadersInv quorum tm x \<longleftrightarrow>
     leaderOf x 0 = None \<and> (\<forall>T c. leaderOf x T = Some c \<longrightarrow>
       matching tm x (leaderLog x T) \<and> prefix (baseLog x T) (leaderLog x T) \<and> (\<forall>e \<in> set (baseLog x T). tm e < T)
       \<and> tm (last (leaderLog x T)) = T \<and> T \<le> cur x c \<and> claims x c T \<noteq> None \<and> (\<exists>Q. quorum Q \<and> (\<forall>s \<in> Q. \<exists>Lv. (s, T, c, Lv) \<in> votes x)))"

text \<open>Votes are unique, and a voter has compared logs.\<close>

definition votesInv :: "('e \<Rightarrow> int) \<Rightarrow> ('s, 'e) raft_spec \<Rightarrow> bool" where
  "votesInv tm x \<longleftrightarrow>
     (\<forall>s T c Lv. (s, T, c, Lv) \<in> votes x \<longrightarrow> T \<le> cur x s \<and> (\<exists>L. claims x c T = Some L \<and> (s \<noteq> c \<longrightarrow> moreRecent tm L Lv)))
     \<and> (\<forall>s T c Lv c' Lv'. (s, T, c, Lv) \<in> votes x \<longrightarrow> (s, T, c', Lv') \<in> votes x \<longrightarrow> c = c' \<and> Lv = Lv')
     \<and> (\<forall>s T. (s, T) \<in> followed x \<longrightarrow> T \<le> cur x s \<and> (\<exists>c. leaderOf x T = Some c))"

text \<open>
  How logs descend from earlier ones.  \<open>P\<close> stays in the log of a node as long as the leaders it follows
  started with \<open>P\<close> in their logs.
\<close>

definition kept :: "('e \<Rightarrow> int) \<Rightarrow> ('s, 'e) raft_spec \<Rightarrow> 's \<Rightarrow> 'e list \<Rightarrow> 'e list \<Rightarrow> bool" where
  "kept tm x s L L' \<longleftrightarrow> (\<forall>P. P \<noteq> [] \<longrightarrow> prefix P L \<longrightarrow>
     (\<forall>t. (s, t) \<in> followed x \<longrightarrow> tm (last P) < t \<longrightarrow> prefix P (baseLog x t)) \<longrightarrow> prefix P L')"

definition keptBefore :: "('e \<Rightarrow> int) \<Rightarrow> ('s, 'e) raft_spec \<Rightarrow> int \<Rightarrow> 'e list \<Rightarrow> 'e list \<Rightarrow> bool" where
  "keptBefore tm x T L L' \<longleftrightarrow> (\<forall>P. P \<noteq> [] \<longrightarrow> prefix P L \<longrightarrow>
     (\<forall>t. leaderOf x t \<noteq> None \<longrightarrow> tm (last P) < t \<longrightarrow> t < T \<longrightarrow> prefix P (baseLog x t)) \<longrightarrow> prefix P L')"

definition descentInv :: "('e \<Rightarrow> int) \<Rightarrow> ('s, 'e) raft_spec \<Rightarrow> bool" where
  "descentInv tm x \<longleftrightarrow>
     (\<forall>s u L. (s, u, L) \<in> past x \<longrightarrow> kept tm x s L (slog x s))
     \<and> (\<forall>s t L. (s, t, L) \<in> ackd x \<longrightarrow> L \<noteq> [] \<and> tm (last L) = t \<and> t \<le> cur x s \<and> leaderOf x t \<noteq> None \<and> prefix L (leaderLog x t) \<and> kept tm x s L (slog x s))
     \<and> (\<forall>s t L T c Lv. (s, t, L) \<in> ackd x \<longrightarrow> (s, T, c, Lv) \<in> votes x \<longrightarrow> t < T \<longrightarrow> keptBefore tm x T L Lv)
     \<and> (\<forall>c T L. claims x c T = Some L \<longrightarrow> (\<exists>u. (c, u, L) \<in> past x))
     \<and> (\<forall>c T Lv. (c, T, c, Lv) \<in> votes x \<longrightarrow> (c, T, Lv) \<in> past x)
     \<and> (\<forall>c T L. leaderOf x T = Some c \<longrightarrow> claims x c T = Some L \<or> (c, T, c, L) \<in> votes x \<longrightarrow> keptBefore tm x T L (baseLog x T))"

definition specInv :: "('s set \<Rightarrow> bool) \<Rightarrow> ('e \<Rightarrow> int) \<Rightarrow> ('s, 'e) raft_spec \<Rightarrow> bool" where
  "specInv quorum tm x \<longleftrightarrow> logsInv tm x \<and> leadersInv quorum tm x \<and> votesInv tm x \<and> descentInv tm x"

subsection \<open>What every step keeps\<close>

text \<open>The history only grows, and leaders only add to their logs.\<close>

definition grows :: "('s, 'e) raft_spec \<Rightarrow> ('s, 'e) raft_spec \<Rightarrow> bool" where
  "grows x y \<longleftrightarrow>
     (\<forall>T c. leaderOf x T = Some c \<longrightarrow> leaderOf y T = Some c \<and> baseLog y T = baseLog x T \<and> prefix (leaderLog x T) (leaderLog y T))
     \<and> (leaderOf y 0 = None \<longrightarrow> leaderLog y 0 = leaderLog x 0) \<and> (\<forall>s. cur x s \<le> cur y s) \<and> (\<forall>c T L. claims x c T = Some L \<longrightarrow> claims y c T = Some L)
     \<and> past x \<subseteq> past y \<and> votes x \<subseteq> votes y \<and> followed x \<subseteq> followed y \<and> ackd x \<subseteq> ackd y"

lemma step_grows: "raft_step quorum tm x y \<Longrightarrow> grows x y"
  by (induction rule: raft_step.induct) (auto simp: grows_def)

lemma growsD:
  assumes "grows x y"
  shows "leaderOf x T = Some c \<Longrightarrow> leaderOf y T = Some c" "leaderOf x T = Some c \<Longrightarrow> baseLog y T = baseLog x T"
    "leaderOf x T = Some c \<Longrightarrow> prefix (leaderLog x T) (leaderLog y T)" "leaderOf y 0 = None \<Longrightarrow> leaderLog y 0 = leaderLog x 0"
    "cur x s \<le> cur y s" "claims x c T = Some L \<Longrightarrow> claims y c T = Some L"
    "past x \<subseteq> past y" "votes x \<subseteq> votes y" "followed x \<subseteq> followed y" "ackd x \<subseteq> ackd y"
  using assms by (auto simp: grows_def)

lemma grows_refl: "grows x x"
  by (simp add: grows_def)

lemma grows_trans:
  assumes "grows x y" "grows y z" "leaderOf y 0 = None"
  shows "grows x z"
proof -
  note a = growsD [OF assms(1)] and b = growsD [OF assms(2)]
  have "leaderOf z T = Some c \<and> baseLog z T = baseLog x T \<and> prefix (leaderLog x T) (leaderLog z T)" if "leaderOf x T = Some c" for T c
    using a(1-3) [OF that] b(1-3) [OF a(1) [OF that]] by (simp add: prefix_order.trans)
  moreover have "cur x s \<le> cur z s" for s using a(5) [of s] b(5) [of s] by simp
  moreover have "leaderOf z 0 = None \<longrightarrow> leaderLog z 0 = leaderLog x 0" using a(4) b(4) assms(3) by simp
  moreover have "past x \<subseteq> past z" "votes x \<subseteq> votes z" "followed x \<subseteq> followed z" "ackd x \<subseteq> ackd z"
    using a(7-10) b(7-10) by blast+
  ultimately show ?thesis using a(6) b(6) unfolding grows_def by blast
qed

subsection \<open>Matching logs\<close>

lemma matchingD:
  assumes "matching tm x L"
  shows "L \<noteq> []" "P \<noteq> [] \<Longrightarrow> prefix P L \<Longrightarrow> prefix P (leaderLog x (tm (last P)))"
    "e \<in> set L \<Longrightarrow> tm e = 0 \<or> leaderOf x (tm e) \<noteq> None" "sorted_wrt (\<lambda>a b. tm a \<le> tm b) L"
  using assms by (auto simp: matching_def)

lemma matching_last:
  assumes "matching tm x L" "e \<in> set L"
  shows "tm e \<le> tm (last L)"
proof -
  obtain M l where "L = M @ [l]" using matchingD(1) [OF assms(1)] by (metis append_butlast_last_id)
  with matchingD(4) [OF assms(1)] assms(2) show ?thesis by (auto simp: sorted_wrt_append)
qed

lemma matching_prefix: "matching tm x L \<Longrightarrow> prefix M L \<Longrightarrow> M \<noteq> [] \<Longrightarrow> matching tm x M"
  unfolding matching_def by (auto simp: prefix_def sorted_wrt_append)

lemma matching_prefix_last: "matching tm x L \<Longrightarrow> prefix P L \<Longrightarrow> P \<noteq> [] \<Longrightarrow> tm (last P) \<le> tm (last L)"
  using matching_last [of tm x L "last P"] by (metis last_in_set prefix_order.dual_order.trans set_mono_prefix subsetD)

lemma matching_whole: "matching tm x L \<Longrightarrow> prefix L (leaderLog x (tm (last L)))"
  using matchingD(1,2) by (metis prefix_order.refl)

lemma matching_grows:
  assumes "matching tm x L" "grows x y" "leaderOf y 0 = None"
  shows "matching tm y L"
proof -
  note g = growsD [OF assms(2)]
  have "prefix P (leaderLog y (tm (last P)))" if "P \<noteq> []" "prefix P L" for P
  proof -
    have "last P \<in> set L" using that by (metis last_in_set set_mono_prefix subsetD)
    with matchingD(3) [OF assms(1)] consider "tm (last P) = 0" | c where "leaderOf x (tm (last P)) = Some c" by blast
    then show ?thesis
      using matchingD(2) [OF assms(1) that] g(3,4) assms(3) by cases (auto intro: prefix_order.trans)
  qed
  moreover have "tm e = 0 \<or> leaderOf y (tm e) \<noteq> None" if "e \<in> set L" for e
    using matchingD(3) [OF assms(1) that] g(1) by fastforce
  ultimately show ?thesis using matchingD(1,4) [OF assms(1)] unfolding matching_def by blast
qed

lemma matching_append:
  assumes "matching tm x L" "tm (last L) \<le> tm e" "leaderLog x (tm e) = L @ [e]" "leaderOf x (tm e) \<noteq> None"
  shows "matching tm x (L @ [e])"
proof -
  have "prefix P (leaderLog x (tm (last P)))" if "P \<noteq> []" "prefix P (L @ [e])" for P
    using that matchingD(2) [OF assms(1)] assms(3) by (auto simp: prefix_snoc)
  moreover have "sorted_wrt (\<lambda>a b. tm a \<le> tm b) (L @ [e])"
    using matchingD(4) [OF assms(1)] matching_last [OF assms(1)] assms(2) by (fastforce simp: sorted_wrt_append)
  ultimately show ?thesis using matchingD(3) [OF assms(1)] assms(4) unfolding matching_def by auto
qed

subsection \<open>The invariant holds\<close>

lemma logsInvD:
  assumes "logsInv tm x"
  shows "matching tm x (slog x s)" "0 \<le> cur x s" "tm (last (slog x s)) \<le> cur x s"
    "(s, u, L) \<in> past x \<Longrightarrow> matching tm x L \<and> 0 \<le> u \<and> u \<le> cur x s \<and> tm (last L) \<le> u"
    "(s, T, c, L) \<in> votes x \<Longrightarrow> matching tm x L" "claims x c T = Some L \<Longrightarrow> matching tm x L \<and> tm (last L) < T \<and> 0 < T"
  using assms by (auto simp: logsInv_def)

lemma leadersInvD:
  assumes "leadersInv quorum tm x"
  shows "leaderOf x 0 = None" "leaderOf x T = Some c \<Longrightarrow> matching tm x (leaderLog x T)"
    "leaderOf x T = Some c \<Longrightarrow> prefix (baseLog x T) (leaderLog x T)" "leaderOf x T = Some c \<Longrightarrow> e \<in> set (baseLog x T) \<Longrightarrow> tm e < T"
    "leaderOf x T = Some c \<Longrightarrow> tm (last (leaderLog x T)) = T" "leaderOf x T = Some c \<Longrightarrow> T \<le> cur x c"
    "leaderOf x T = Some c \<Longrightarrow> claims x c T \<noteq> None"
    "leaderOf x T = Some c \<Longrightarrow> \<exists>Q. quorum Q \<and> (\<forall>s \<in> Q. \<exists>Lv. (s, T, c, Lv) \<in> votes x)"
  using assms unfolding leadersInv_def by simp_all

lemma votesInvD:
  assumes "votesInv tm x"
  shows "(s, T, c, Lv) \<in> votes x \<Longrightarrow> T \<le> cur x s \<and> (\<exists>L. claims x c T = Some L \<and> (s \<noteq> c \<longrightarrow> moreRecent tm L Lv))"
    "(s, T, c, Lv) \<in> votes x \<Longrightarrow> (s, T, c', Lv') \<in> votes x \<Longrightarrow> c = c' \<and> Lv = Lv'"
    "(s, T) \<in> followed x \<Longrightarrow> T \<le> cur x s \<and> (\<exists>c. leaderOf x T = Some c)"
  using assms unfolding votesInv_def by simp_all

lemma descentInvD:
  assumes "descentInv tm x"
  shows "(s, u, L) \<in> past x \<Longrightarrow> kept tm x s L (slog x s)"
    "(s, t, L) \<in> ackd x \<Longrightarrow> L \<noteq> [] \<and> tm (last L) = t \<and> t \<le> cur x s \<and> leaderOf x t \<noteq> None \<and> prefix L (leaderLog x t) \<and> kept tm x s L (slog x s)"
    "(s, t, L) \<in> ackd x \<Longrightarrow> (s, T, c, Lv) \<in> votes x \<Longrightarrow> t < T \<Longrightarrow> keptBefore tm x T L Lv"
    "claims x c T = Some L \<Longrightarrow> \<exists>u. (c, u, L) \<in> past x" "(c, T, c, Lv) \<in> votes x \<Longrightarrow> (c, T, Lv) \<in> past x"
    "leaderOf x T = Some c \<Longrightarrow> claims x c T = Some L \<or> (c, T, c, L) \<in> votes x \<Longrightarrow> keptBefore tm x T L (baseLog x T)"
  using assms unfolding descentInv_def by (simp_all, blast)

lemma specInvI:
  "logsInv tm x \<Longrightarrow> leadersInv quorum tm x \<Longrightarrow> votesInv tm x \<Longrightarrow> descentInv tm x \<Longrightarrow> specInv quorum tm x"
  by (simp add: specInv_def)

lemma specInvE:
  assumes "specInv quorum tm x"
  shows "logsInv tm x" "leadersInv quorum tm x" "votesInv tm x" "descentInv tm x"
  using assms by (simp_all add: specInv_def)

lemma init_inv:
  assumes "raft_init tm e x"
  shows "specInv quorum tm x"
proof -
  have "matching tm x [e]" using assms by (auto simp: raft_init_def matching_def prefix_Cons)
  then show ?thesis using assms by (auto simp: specInv_def raft_init_def logsInv_def leadersInv_def votesInv_def descentInv_def)
qed

text \<open>Leaders have positive terms.\<close>

lemma step_no_leader0:
  assumes "raft_step quorum tm x y" "logsInv tm x" "leadersInv quorum tm x"
  shows "leaderOf y 0 = None"
  using assms(1)
proof cases
  case (win T c L Q e)
  then show ?thesis using logsInvD(6) [OF assms(2) win(4)] leadersInvD(1) [OF assms(3)] by auto
qed (use leadersInvD(1) [OF assms(3)] in auto)

lemma step_matching:
  assumes "raft_step quorum tm x y" "logsInv tm x" "leadersInv quorum tm x" "matching tm x L"
  shows "matching tm y L"
  using matching_grows [OF assms(4) step_grows step_no_leader0] assms(1-3) by blast

lemma step_append:
  assumes "raft_step quorum tm x y" "logsInv tm x" "leadersInv quorum tm x"
    and "tm e = cur x c" "leaderLog y (cur x c) = slog x c @ [e]" "leaderOf y (cur x c) \<noteq> None"
  shows "matching tm y (slog x c @ [e])"
  by (rule matching_append)
    (use assms(4-6) logsInvD(3) [OF assms(2), of c] step_matching [OF assms(1-3) logsInvD(1) [OF assms(2)]] in simp_all)

lemma follow_matching:
  assumes "logsInv tm x" "leadersInv quorum tm x" "leaderOf x T = Some c" "cur x s \<le> T" "follows (slog x s) (leaderLog x T) L"
  shows "matching tm x L" "tm (last L) \<le> T"
proof -
  note M = leadersInvD(2) [OF assms(2,3)]
  have "matching tm x L \<and> tm (last L) \<le> T"
  proof (cases "L = slog x s")
    case True
    then show ?thesis using logsInvD(1,3) [OF assms(1)] assms(4) by (meson order_trans)
  next
    case False
    then have "prefix L (leaderLog x T)" "L \<noteq> []" using assms(5) by (auto simp: follows_def)
    then show ?thesis using matching_prefix [OF M] matching_prefix_last [OF M] leadersInvD(5) [OF assms(2,3)] by simp
  qed
  then show "matching tm x L" "tm (last L) \<le> T" by simp_all
qed

lemma logs_step:
  assumes st: "raft_step quorum tm x y" and inv: "logsInv tm x" "leadersInv quorum tm x"
  shows "logsInv tm y"
proof -
  note D = logsInvD [OF inv(1)] and m = step_matching [OF st inv]
  have pv: "(s, T, c, L) \<in> votes x \<Longrightarrow> matching tm y L" "claims x c T = Some L \<Longrightarrow> matching tm y L \<and> tm (last L) < T \<and> 0 < T"
    "(s, u, L) \<in> past x \<Longrightarrow> matching tm y L \<and> 0 \<le> u \<and> u \<le> cur y s \<and> tm (last L) \<le> u" for s T c L u
    using D(4,5,6) m growsD(5) [OF step_grows [OF st], of s] by (blast, blast, meson order_trans)
  show ?thesis
    using st
  proof cases
    case (campaign s u L T)
    have "matching tm y L \<and> tm (last L) < T \<and> 0 < T" "matching tm y (slog x s)" using D(4) [OF campaign(2)] campaign(3) m D(1) by auto
    moreover have "0 \<le> T" "tm (last (slog x s)) \<le> T" using D(2,3) [of s] campaign(4) by simp_all
    ultimately show ?thesis using campaign pv D(2,3) m [OF D(1)] unfolding logsInv_def by (auto split: if_splits)
  next
    case (win T c L Q e)
    have "matching tm y (slog x c @ [e])" by (rule step_append [OF st inv]) (use win in simp_all)
    then show ?thesis using win pv D(2,3) m [OF D(1)] unfolding logsInv_def by (auto split: if_splits)
  next
    case (extend T c e)
    have "matching tm y (slog x c @ [e])" by (rule step_append [OF st inv]) (use extend in simp_all)
    then show ?thesis using extend pv D(2,3) m [OF D(1)] unfolding logsInv_def by (auto split: if_splits)
  next
    case (follow T c s L)
    note f = follow_matching [OF inv follow(2,4,5)]
    have "0 \<le> T" using D(2) [of s] follow(4) by simp
    then show ?thesis using follow f(2) m [OF f(1)] pv D(2,3) m [OF D(1)] unfolding logsInv_def by (auto split: if_splits)
  next
    case (advance s T)
    have "0 \<le> T" "tm (last (slog x s)) \<le> T" using D(2,3) [of s] advance(2) by simp_all
    then show ?thesis using advance pv D(2,3) m [OF D(1)] unfolding logsInv_def by (auto split: if_splits)
  next
    case (vote s c T L)
    have "0 \<le> T" "tm (last (slog x s)) \<le> T" using D(2,3) [of s] vote(3) by simp_all
    then show ?thesis using vote pv D(2,3) m [OF D(1)] unfolding logsInv_def by (auto split: if_splits)
  next
    case (prepare s)
    then show ?thesis using pv D(2,3) m [OF D(1)] unfolding logsInv_def by auto
  next
    case (ack T c s)
    then show ?thesis using pv D(2,3) m [OF D(1)] unfolding logsInv_def by auto
  qed
qed

lemma leaders_step:
  assumes st: "raft_step quorum tm x y" and inv: "logsInv tm x" "leadersInv quorum tm x"
  shows "leadersInv quorum tm y"
proof -
  note L = logsInvD [OF inv(1)] and D = leadersInvD [OF inv(2)] and m = step_matching [OF st inv]
  note g = growsD [OF step_grows [OF st]]
  have old: "prefix (baseLog y T) (leaderLog y T) \<and> (\<forall>e \<in> set (baseLog y T). tm e < T) \<and> T \<le> cur y c
       \<and> claims y c T \<noteq> None \<and> (\<exists>Q. quorum Q \<and> (\<forall>s \<in> Q. \<exists>Lv. (s, T, c, Lv) \<in> votes y))"
    if "leaderOf x T = Some c" for T c
  proof -
    have "prefix (baseLog y T) (leaderLog y T)" using D(3) [OF that] g(2,3) [OF that] by (simp add: prefix_order.trans)
    moreover have "\<exists>Q. quorum Q \<and> (\<forall>s \<in> Q. \<exists>Lv. (s, T, c, Lv) \<in> votes y)" using D(8) [OF that] g(8) by (metis subsetD)
    moreover have "T \<le> cur y c" using D(6) [OF that] g(5) [of c] by simp
    ultimately show ?thesis using D(4,7) [OF that] g(2) [OF that] g(6) by fastforce
  qed
  have lead: "matching tm y (leaderLog x T) \<and> tm (last (leaderLog x T)) = T" if "leaderOf x T = Some c" for T c
    using m [OF D(2) [OF that]] D(5) [OF that] by simp
  have goal: "leadersInv quorum tm y"
    if "\<And>T c. leaderOf y T = Some c \<Longrightarrow> leaderOf x T = Some c \<and> leaderLog y T = leaderLog x T \<or>
      matching tm y (leaderLog y T) \<and> tm (last (leaderLog y T)) = T \<and> (leaderOf x T = Some c \<or> prefix (baseLog y T) (leaderLog y T)
        \<and> (\<forall>e \<in> set (baseLog y T). tm e < T) \<and> T \<le> cur y c \<and> claims y c T \<noteq> None \<and> (\<exists>Q. quorum Q \<and> (\<forall>s \<in> Q. \<exists>Lv. (s, T, c, Lv) \<in> votes y)))"
  proof -
    have "matching tm y (leaderLog y T) \<and> prefix (baseLog y T) (leaderLog y T) \<and> (\<forall>e \<in> set (baseLog y T). tm e < T)
       \<and> tm (last (leaderLog y T)) = T \<and> T \<le> cur y c \<and> claims y c T \<noteq> None \<and> (\<exists>Q. quorum Q \<and> (\<forall>s \<in> Q. \<exists>Lv. (s, T, c, Lv) \<in> votes y))"
      if l: "leaderOf y T = Some c" for T c
      using \<open>\<And>T c. leaderOf y T = Some c \<Longrightarrow> _\<close> [OF l] old [of T c] lead [of T c] by (elim disjE conjE) simp_all
    then show ?thesis using step_no_leader0 [OF st inv] unfolding leadersInv_def by blast
  qed
  show ?thesis
    using st
  proof cases
    case (win T c L' Q e)
    have new: "matching tm y (slog x c @ [e])" by (rule step_append [OF st inv]) (use win in simp_all)
    have below: "tm a < T" if "a \<in> set (slog x c)" for a
    proof -
      have "tm a \<le> T" using matching_last [OF L(1) that] L(3) [of c] win(3) by simp
      moreover have "tm a \<noteq> T" using matchingD(3) [OF L(1) that] win(2) L(6) [OF win(4)] by auto
      ultimately show ?thesis by simp
    qed
    show ?thesis by (rule goal) (use win new below in \<open>auto split: if_splits\<close>)
  next
    case (extend T c e)
    have "matching tm y (slog x c @ [e])" by (rule step_append [OF st inv]) (use extend in simp_all)
    then show ?thesis by (intro goal) (use extend in \<open>auto split: if_splits\<close>)
  qed (rule goal; simp)+
qed

lemma votes_step:
  assumes st: "raft_step quorum tm x y" and inv: "votesInv tm x"
  shows "votesInv tm y"
proof -
  note D = votesInvD [OF inv] and g = growsD [OF step_grows [OF st]]
  have old: "T \<le> cur y s \<and> (\<exists>L. claims y c T = Some L \<and> (s \<noteq> c \<longrightarrow> moreRecent tm L Lv))" if "(s, T, c, Lv) \<in> votes x" for s T c Lv
    using D(1) [OF that] g(5) [of s] g(6) by (meson order_trans)
  have f: "T \<le> cur y s \<and> (\<exists>c. leaderOf y T = Some c)" if "(s, T) \<in> followed x" for s T
    using D(3) [OF that] g(5) [of s] g(1) by (meson order_trans)
  have goal: "votesInv tm y" if "votes y = V \<union> votes x" "followed y = F \<union> followed x"
    "\<And>s T c Lv. (s, T, c, Lv) \<in> V \<Longrightarrow> T \<le> cur y s \<and> (\<exists>L. claims y c T = Some L \<and> (s \<noteq> c \<longrightarrow> moreRecent tm L Lv))"
    "\<And>s T c Lv c' Lv'. (s, T, c, Lv) \<in> V \<Longrightarrow> (s, T, c', Lv') \<in> votes y \<Longrightarrow> c = c' \<and> Lv = Lv'"
    "\<And>s T. (s, T) \<in> F \<Longrightarrow> T \<le> cur y s \<and> (\<exists>c. leaderOf y T = Some c)" for V F
    unfolding votesInv_def that(1,2) using old f that(3-5) D(2) that(1) by (metis Un_iff)
  show ?thesis
    using st
  proof cases
    case (campaign s u L T)
    then show ?thesis by (intro goal [of "{(s, T, s, slog x s)}" "{}"]) auto
  next
    case (vote s c T L)
    then show ?thesis by (intro goal [of "{(s, T, c, slog x s)}" "{}"]) auto
  next
    case (follow T c s L)
    then show ?thesis by (intro goal [of "{}" "{(s, T)}"]) auto
  qed (rule goal [of "{}" "{}"]; simp)+
qed

subsection \<open>Descent\<close>

lemma kept_refl: "kept tm x s L L"
  by (simp add: kept_def)

lemma kept_mono:
  assumes "kept tm x s L L'" "prefix L' M" "\<And>t. (s, t) \<in> followed x \<Longrightarrow> (s, t) \<in> followed y \<and> baseLog y t = baseLog x t"
  shows "kept tm y s L M"
  using assms unfolding kept_def by (metis prefix_order.trans)

lemma keptBefore_grows:
  assumes "keptBefore tm x T L L'" "grows x y"
  shows "keptBefore tm y T L L'"
proof -
  have "prefix P L'" if P: "P \<noteq> []" "prefix P L" and b: "\<forall>t. leaderOf y t \<noteq> None \<longrightarrow> tm (last P) < t \<longrightarrow> t < T \<longrightarrow> prefix P (baseLog y t)" for P
  proof -
    have "prefix P (baseLog x t)" if "leaderOf x t \<noteq> None" "tm (last P) < t" "t < T" for t
      using that b growsD(1,2) [OF assms(2)] by (metis option.exhaust option.distinct(1))
    with assms(1) P show ?thesis unfolding keptBefore_def by blast
  qed
  then show ?thesis unfolding keptBefore_def by blast
qed

lemma kept_follow:
  assumes "matching tm x L" "tm (last L) \<le> T" "matching tm x (slog x s)" "follows (slog x s) (leaderLog x T) M"
    and "kept tm x s L (slog x s)" "followed y = insert (s, T) (followed x)" "baseLog y = baseLog x" "prefix (baseLog x T) (leaderLog x T)"
  shows "kept tm y s L M"
proof -
  have "prefix P M" if P: "P \<noteq> []" "prefix P L" and b: "\<forall>t. (s, t) \<in> followed y \<longrightarrow> tm (last P) < t \<longrightarrow> prefix P (baseLog y t)" for P
  proof -
    have old: "prefix P (slog x s)" using assms(5-7) P b unfolding kept_def by auto
    have "tm (last P) \<le> T" using matching_prefix_last [OF assms(1) P(2,1)] assms(2) by simp
    then consider "tm (last P) = T" | "tm (last P) < T" by linarith
    then have "prefix P (leaderLog x T)"
    proof cases
      case 1
      then show ?thesis using matchingD(2) [OF assms(3) P(1) old] by simp
    next
      case 2
      then have "prefix P (baseLog x T)" using b assms(6,7) by auto
      then show ?thesis using assms(8) prefix_order.trans by blast
    qed
    with old assms(4) show ?thesis by (auto simp: follows_def)
  qed
  then show ?thesis unfolding kept_def by blast
qed

text \<open>When a node votes or wins in term \<open>T\<close>, it has followed leaders of earlier terms only.\<close>

lemma kept_keptBefore:
  assumes "kept tm x s L L'" "votesInv tm x" "cur x s \<le> T" "(s, T) \<notin> followed x"
  shows "keptBefore tm x T L L'"
proof -
  have "leaderOf x t \<noteq> None \<and> t < T" if "(s, t) \<in> followed x" for t
    using votesInvD(3) [OF assms(2) that] that assms(3,4) by (metis option.distinct(1) order_le_imp_less_or_eq order_trans)
  with assms(1) show ?thesis unfolding kept_def keptBefore_def by blast
qed

lemma past_kept_step:
  assumes st: "raft_step quorum tm x y" and inv: "specInv quorum tm x"
    and k: "kept tm x s L (slog x s)" "matching tm x L" "tm (last L) \<le> cur x s"
  shows "kept tm y s L (slog y s)"
proof -
  note I = specInvE [OF inv]
  have mono: "kept tm y s L (slog y s)" if "prefix (slog x s) (slog y s)"
    by (rule kept_mono [OF k(1) that])
      (use votesInvD(3) [OF I(3)] growsD(2,9) [OF step_grows [OF st]] in blast)
  show ?thesis
    using st
  proof cases
    case (follow T c s' M)
    show ?thesis
    proof (cases "s' = s")
      case True
      have "kept tm y s L M"
        by (rule kept_follow [OF k(2) _ logsInvD(1) [OF I(1)]])
          (use follow True k leadersInvD(3) [OF I(2)] in auto)
      then show ?thesis using follow True by simp
    next
      case False
      then show ?thesis using mono follow by simp
    qed
  qed (rule mono; simp)+
qed

lemma descent_step:
  assumes st: "raft_step quorum tm x y" and inv: "specInv quorum tm x"
  shows "descentInv tm y"
proof -
  note I = specInvE [OF inv]
  note D = descentInvD [OF I(4)] and V = votesInvD [OF I(3)] and Lg = logsInvD [OF I(1)] and g = step_grows [OF st]
  note G = growsD [OF g]
  have past: "kept tm y s L (slog y s)" if "(s, u, L) \<in> past x" for s u L
    using past_kept_step [OF st inv D(1) [OF that]] Lg(4) [OF that] by (meson order_trans)
  have acked: "L \<noteq> [] \<and> tm (last L) = t \<and> t \<le> cur y s \<and> leaderOf y t \<noteq> None \<and> prefix L (leaderLog y t) \<and> kept tm y s L (slog y s)"
    if a: "(s, t, L) \<in> ackd x" for s t L
  proof -
    from D(2) [OF a] obtain c where c: "leaderOf x t = Some c" "prefix L (leaderLog x t)" "L \<noteq> []" "tm (last L) = t" "t \<le> cur x s" "kept tm x s L (slog x s)"
      by blast
    have "kept tm y s L (slog y s)"
      by (rule past_kept_step [OF st inv c(6) matching_prefix [OF leadersInvD(2) [OF I(2) c(1)] c(2,3)]]) (use c in simp)
    with c G(1,3) [OF c(1)] G(5) [of s] show ?thesis by (auto intro: prefix_order.trans)
  qed
  have before: "keptBefore tm y T L Lv" if "(s, t, L) \<in> ackd x" "(s, T, c, Lv) \<in> votes x" "t < T" for s t L T c Lv
    using keptBefore_grows [OF D(3) [OF that] g] .
  have voted: "keptBefore tm y T L (slog x s)" if "(s, t, L) \<in> ackd x" "cur x s \<le> T" "(s, T) \<notin> followed x" for s t L T
    using keptBefore_grows [OF kept_keptBefore [OF _ I(3) that(2,3)] g] D(2) [OF that(1)] by blast
  have based: "keptBefore tm y T L (baseLog y T)" if "leaderOf x T = Some c" "claims x c T = Some L \<or> (c, T, c, L) \<in> votes x" for c T L
    using keptBefore_grows [OF D(6) [OF that] g] G(2) [OF that(1)] by simp
  have goal: "descentInv tm y"
    if p: "\<And>s u L. (s, u, L) \<in> past y \<Longrightarrow> (s, u, L) \<in> past x \<or> L = slog y s"
      and a: "\<And>s t L. (s, t, L) \<in> ackd y \<Longrightarrow> (s, t, L) \<in> ackd x \<or> votes y = votes x \<and> L = slog y s \<and> L \<noteq> [] \<and> tm (last L) = t
        \<and> t = cur y s \<and> cur x s = cur y s \<and> leaderOf y t \<noteq> None \<and> prefix L (leaderLog y t)"
      and v: "\<And>s T c Lv. (s, T, c, Lv) \<in> votes y \<Longrightarrow> (s, T, c, Lv) \<in> votes x
        \<or> ackd y = ackd x \<and> Lv = slog x s \<and> cur x s \<le> T \<and> (s, T) \<notin> followed x \<and> (s = c \<longrightarrow> (s, T, Lv) \<in> past y \<and> leaderOf y T \<noteq> Some s)"
      and k: "\<And>c T L. claims y c T = Some L \<Longrightarrow> claims x c T = Some L \<or> (\<exists>u. (c, u, L) \<in> past y) \<and> leaderOf y T \<noteq> Some c"
      and l: "\<And>c T L. leaderOf y T = Some c \<Longrightarrow> leaderOf x T = Some c \<or> keptBefore tm y T L (baseLog y T) \<or> \<not> (claims y c T = Some L \<or> (c, T, c, L) \<in> votes y)"
    unfolding descentInv_def
  proof (intro conjI allI impI)
    fix s u L assume "(s, u, L) \<in> past y"
    from p [OF this] show "kept tm y s L (slog y s)" using past [of s u L] kept_refl [of tm y s L] by auto
  next
    fix s t L assume "(s, t, L) \<in> ackd y"
    from a [OF this] acked [of s t L] kept_refl [of tm y s L]
    show "L \<noteq> []" "tm (last L) = t" "t \<le> cur y s" "leaderOf y t \<noteq> None" "prefix L (leaderLog y t)" "kept tm y s L (slog y s)" by auto
  next
    fix s t L T c Lv assume 1: "(s, t, L) \<in> ackd y" "(s, T, c, Lv) \<in> votes y" "t < T"
    show "keptBefore tm y T L Lv"
    proof (cases "(s, t, L) \<in> ackd x")
      case True
      then show ?thesis using v [OF 1(2)] before [OF True _ 1(3)] voted [OF True] by blast
    next
      case False
      then have "(s, T, c, Lv) \<in> votes x" "t = cur x s" using a [OF 1(1)] 1(2) by auto
      then show ?thesis using V(1) 1(3) by fastforce
    qed
  next
    fix c T L assume "claims y c T = Some L"
    from k [OF this] D(4) G(7) show "\<exists>u. (c, u, L) \<in> past y" by blast
  next
    fix c T Lv assume "(c, T, c, Lv) \<in> votes y"
    from v [OF this] D(5) G(7) show "(c, T, Lv) \<in> past y" by blast
  next
    fix c T L assume 1: "leaderOf y T = Some c" "claims y c T = Some L \<or> (c, T, c, L) \<in> votes y"
    from l [OF 1(1), of L] 1 k [of c T L] v [of c T c L] based [of T c L] show "keptBefore tm y T L (baseLog y T)" by blast
  qed
  have unclaimed: "leaderOf x T \<noteq> Some c" if "claims x c T = None" for c T using leadersInvD(7) [OF I(2)] that by blast
  show ?thesis
    using st
  proof cases
    case (campaign s u L T)
    have "leaderOf x T \<noteq> Some s" by (rule unclaimed) (rule campaign(5))
    then show ?thesis by (intro goal) (use campaign in \<open>auto split: if_splits\<close>)
  next
    case (win T c L Q e)
    have nf: "(c, T) \<notin> followed x" using V(3) win(2) by fastforce
    have "keptBefore tm y T L' (slog x c)" if cv: "claims x c T = Some L' \<or> (c, T, c, L') \<in> votes x" for L'
    proof -
      obtain u where "(c, u, L') \<in> past x" using cv D(4,5) by blast
      then show ?thesis using keptBefore_grows [OF kept_keptBefore [OF D(1) I(3) _ nf] g] win(3) by simp
    qed
    then show ?thesis by (intro goal) (use win in \<open>auto split: if_splits\<close>)
  next
    case (ack T c s)
    have "slog x s \<noteq> []" "prefix (slog x s) (leaderLog x T)"
      using matchingD(1) [OF Lg(1)] matching_whole [OF Lg(1), of s] ack(4) by auto
    then show ?thesis by (intro goal) (use ack in auto)
  next
    case (vote s c T L)
    then show ?thesis by (intro goal) auto
  qed (rule goal; auto)+
qed

lemma step_inv:
  assumes "raft_step quorum tm x y" "specInv quorum tm x"
  shows "specInv quorum tm y"
  using logs_step leaders_step votes_step descent_step specInvE [OF assms(2)] assms by (metis specInv_def)

lemma run_inv:
  assumes "(raft_step quorum tm)\<^sup>*\<^sup>* x y" "specInv quorum tm x"
  shows "specInv quorum tm y \<and> grows x y"
  using assms
proof (induction rule: rtranclp_induct)
  case base
  then show ?case by (simp add: grows_refl)
next
  case (step y z)
  then have y: "specInv quorum tm y" "grows x y" by simp_all
  have "grows y z" "specInv quorum tm z" using step_grows step_inv [OF _ y(1)] step(2) by blast+
  with y leadersInvD(1) [OF specInvE(2) [OF y(1)]] show ?case using grows_trans by blast
qed

subsection \<open>Leader completeness\<close>

context quorum_system
begin

lemma winner_unique:
  assumes "specInv quorum tm x" "leaderOf x T = Some c" "quorum Q" "\<forall>s \<in> Q. \<exists>Lv. (s, T, c', Lv) \<in> votes x"
  shows "c' = c"
proof -
  note I = specInvE [OF assms(1)]
  obtain Q' where Q': "quorum Q'" "\<forall>s \<in> Q'. \<exists>Lv. (s, T, c, Lv) \<in> votes x" using leadersInvD(8) [OF I(2) assms(2)] by blast
  then obtain s where "s \<in> Q" "s \<in> Q'" using overlap assms(3) by blast
  then show ?thesis using votesInvD(2) [OF I(3)] assms(4) Q'(2) by blast
qed

lemma leader_positive:
  assumes "specInv quorum tm x" "leaderOf x T = Some c"
  shows "0 < T"
  using leadersInvD(7) [OF specInvE(2) [OF assms(1)] assms(2)] logsInvD(6) [OF specInvE(1) [OF assms(1)]] by blast

text \<open>The log a candidate claimed contains what a voter's log contained.\<close>

lemma claim_contains:
  assumes inv: "specInv quorum tm x" and L: "claims x c T = Some L" and Lv: "(s, T, c, Lv) \<in> votes x" "moreRecent tm L Lv"
    and P: "P \<noteq> []" "prefix P Lv" and below: "\<And>t. leaderOf x t \<noteq> None \<Longrightarrow> tm (last P) < t \<Longrightarrow> t < T \<Longrightarrow> prefix P (baseLog x t)"
  shows "prefix P L"
proof -
  note I = specInvE [OF inv]
  have mL: "matching tm x L" "tm (last L) < T" and mv: "matching tm x Lv"
    using logsInvD(5,6) [OF I(1)] L Lv(1) by blast+
  have pl: "tm (last P) \<le> tm (last Lv)" by (rule matching_prefix_last [OF mv P(2,1)])
  from Lv(2) consider "tm (last L) = tm (last Lv)" "length Lv \<le> length L" | "tm (last Lv) < tm (last L)"
    by (auto simp: moreRecent_def)
  then show ?thesis
  proof cases
    case 1
    then have "prefix Lv L" using matching_whole [OF mL(1)] matching_whole [OF mv] by (metis prefix_length_prefix)
    then show ?thesis using P(2) prefix_order.trans by blast
  next
    case 2
    let ?w = "tm (last L)"
    have 3: "tm (last P) < ?w" using 2 pl by simp
    have "last L \<in> set L" using matchingD(1) [OF mL(1)] by simp
    moreover have "last P \<in> set Lv" using P by (metis last_in_set set_mono_prefix subsetD)
    ultimately have "?w \<noteq> 0 \<longrightarrow> leaderOf x ?w \<noteq> None" using matchingD(3) [OF mL(1)] by blast
    show ?thesis
    proof (cases "leaderOf x ?w")
      case (Some d)
      have b: "prefix (baseLog x ?w) (leaderLog x ?w)" "prefix P (baseLog x ?w)"
        using leadersInvD(3) [OF I(2) Some] below [OF _ 3 mL(2)] Some by auto
      have "length (baseLog x ?w) \<le> length L"
      proof (rule ccontr)
        assume "\<not> length (baseLog x ?w) \<le> length L"
        then have "prefix L (baseLog x ?w)" using b(1) matching_whole [OF mL(1)] by (metis nat_le_linear prefix_length_prefix)
        then have "last L \<in> set (baseLog x ?w)" using matchingD(1) [OF mL(1)] by (metis last_in_set set_mono_prefix subsetD)
        from leadersInvD(4) [OF I(2) Some this] show False by simp
      qed
      then have "prefix (baseLog x ?w) L" using b(1) matching_whole [OF mL(1)] by (metis prefix_length_prefix)
      then show ?thesis using b(2) prefix_order.trans by blast
    next
      case None
      then have "?w = 0" using \<open>?w \<noteq> 0 \<longrightarrow> leaderOf x ?w \<noteq> None\<close> by blast
      moreover have "tm (last P) = 0 \<or> leaderOf x (tm (last P)) \<noteq> None" using matchingD(3) [OF mv \<open>last P \<in> set Lv\<close>] .
      ultimately show ?thesis using 3 leader_positive [OF inv] by force
    qed
  qed
qed

lemma completeness:
  assumes inv: "specInv quorum tm x" and com: "committed quorum tm x t P"
  shows "leaderOf x T = Some c \<Longrightarrow> t < T \<Longrightarrow> prefix P (baseLog x T)"
proof (induction "nat (T - t)" arbitrary: T c rule: less_induct)
  case less
  note I = specInvE [OF inv]
  have P: "P \<noteq> []" "tm (last P) = t" using com by (auto simp: committed_def)
  have below: "prefix P (baseLog x u)" if "leaderOf x u \<noteq> None" "tm (last P) < u" "u < T" for u
  proof -
    have "nat (u - t) < nat (T - t)" using that P(2) by simp
    with less.hyps that P(2) show ?thesis by blast
  qed
  obtain Q where Q: "quorum Q" "\<forall>s \<in> Q. \<exists>P'. (s, t, P') \<in> ackd x \<and> prefix P P'" using com by (auto simp: committed_def)
  obtain Q' where Q': "quorum Q'" "\<forall>s \<in> Q'. \<exists>Lv. (s, T, c, Lv) \<in> votes x" using leadersInvD(8) [OF I(2) less.prems(1)] by blast
  obtain s where "s \<in> Q" "s \<in> Q'" using overlap [OF Q(1) Q'(1)] by blast
  with Q(2) Q'(2) obtain P' Lv where a: "(s, t, P') \<in> ackd x" "prefix P P'" and v: "(s, T, c, Lv) \<in> votes x" by blast
  have "keptBefore tm x T P' Lv" using descentInvD(3) [OF I(4) a(1) v less.prems(2)] .
  then have Lv: "prefix P Lv" using a(2) P(1) below unfolding keptBefore_def by blast
  obtain L where L: "claims x c T = Some L" "s \<noteq> c \<longrightarrow> moreRecent tm L Lv" using votesInvD(1) [OF I(3) v] by blast
  show ?case
  proof (cases "s = c")
    case True
    then have "keptBefore tm x T Lv (baseLog x T)" using descentInvD(6) [OF I(4) less.prems(1)] v by blast
    then show ?thesis using Lv P(1) below unfolding keptBefore_def by blast
  next
    case False
    with L have "prefix P L" using claim_contains [OF inv L(1) v _ P(1) Lv] below by blast
    moreover have "keptBefore tm x T L (baseLog x T)" using descentInvD(6) [OF I(4) less.prems(1)] L(1) by blast
    ultimately show ?thesis using P(1) below unfolding keptBefore_def by blast
  qed
qed

end

end
