(* ===== verification/ClusterRuns.thy ===== *)
theory ClusterRuns
  imports Replication ElectionSafety RaftSpec
begin

text \<open>
  A cluster as the nodes and the messages between them.  Each step is a handler or a round of the code
  on one node; a message, once sent, can be delivered at any time, more than once or never, and a node
  can crash and restart between any two steps.  The members of the cluster are \<open>ns\<close> throughout: changes
  of the membership are not among the steps.

  The steps are as fine as the places where the code takes its decisions again.  What a thread does between
  reading a snapshot of the raft state and using it is one step: a leader appends, sends and counts
  acknowledgements while it still leads, in its current term.  Heartbeats take no lock in the code, so
  they are a step of their own between any two others; inside an append request the heartbeat and the
  work on the journal are one step.  (A heartbeat that slips in between changes the term, the vote and the
  leader of the node; of these the rest of the handler reads only the term, as the upper bound of the terms
  the journal accepts.)
  Left out by this granularity is a write of a client that is appended after the node has lost its term:
  \<open>submit\<close> in \<open>WriteTrackers\<close> has it, and the journal accepts it.

  The second half is what the steps do to the log of a node, as a list.
\<close>

subsection \<open>State\<close>

record 'db cluster =
  cl_node :: "raft_server \<Rightarrow> 'db raft_node"
  cl_tracker :: "raft_server \<Rightarrow> commit_tracker"
  preparedVotes :: "(raft_server \<times> vote_request) set"
  voteRequests :: "vote_request set"
  voteGrants :: "(raft_server \<times> int \<times> raft_server) set"
  appendRequests :: "append_entries_request set"
  acknowledgements :: "(raft_server \<times> int \<times> int) set"

definition setNode :: "raft_server \<Rightarrow> 'db raft_node \<Rightarrow> 'db cluster \<Rightarrow> 'db cluster" where
  "setNode s n c = c\<lparr>cl_node := (cl_node c)(s := n)\<rparr>"

text \<open>The vote request the director prepares before it asks for pre-votes.\<close>

definition prepareVote :: "('db, 'wb) rocksdb \<Rightarrow> 'db raft_node \<Rightarrow> vote_request option" where
  "prepareVote api n = do {
     e \<leftarrow> fetch_or_die api (journal n) (logSize (journal n) - 1);
     Some \<lparr>vr_term = n_term n + 1, candidate = noServer, lastIndex = logSize (journal n) - 1, lastTerm = entryTerm e\<rparr> }"

text \<open>An acknowledgement the leader counts: the payload ended in an entry of its own term.\<close>

definition countedAck :: "append_entries_request \<Rightarrow> append_entries_response \<Rightarrow> bool" where
  "countedAck req ans \<longleftrightarrow> aer_outcome ans \<and> entries req \<noteq> [] \<and> entryTerm (last (entries req)) = ae_term req"

text \<open>What the activation of the replicator does to the commit tracker of a new leader.\<close>

definition freshTracker :: "raft_server list \<Rightarrow> raft_server \<Rightarrow> commit_tracker \<Rightarrow> commit_tracker option" where
  "freshTracker ns s ct = do { full_nodes \<leftarrow> all_servers_except_myself ns s; ct_updateTargets full_nodes (ct_reset ct) }"

text \<open>The trackers of observers are registered too, but no quorum counts them.\<close>

definition sameTargets :: "commit_tracker \<Rightarrow> commit_tracker \<Rightarrow> bool" where
  "sameTargets ct ct' \<longleftrightarrow> ct_targets ct' = ct_targets ct \<and> ct_quorumSize ct' = ct_quorumSize ct
     \<and> (\<forall>t i. ct_registrations ct t = Some i \<longrightarrow> ct_registrations ct' t = Some i)"

lemma sameTargets_trans: "sameTargets a b \<Longrightarrow> sameTargets b c \<Longrightarrow> sameTargets a c"
  by (simp add: sameTargets_def)

lemma newReplicaTracker_tracker: "newReplicaTracker s sn a lp = Some (rt, lp') \<Longrightarrow> sameTargets (lp_tracker lp) (lp_tracker lp')"
  by (auto simp: newReplicaTracker_def Let_def Option.bind_eq_Some_conv sameTargets_def getHandlerInternal_def split: if_splits)

lemma addTargets_tracker: "addTargets sn ss ts lp = Some (ts', lp') \<Longrightarrow> sameTargets (lp_tracker lp) (lp_tracker lp')"
proof (induction ss arbitrary: ts lp)
  case (Cons s ss)
  show ?case
  proof (cases "s \<in> fst ` set ts")
    case True
    then show ?thesis using Cons by simp
  next
    case False
    with Cons.prems obtain rt lp1 where "newReplicaTracker s sn (freshAddress (lp_trimmer lp) ts) lp = Some (rt, lp1)"
        "addTargets sn ss (insertTracker s rt ts) lp1 = Some (ts', lp')"
      by (auto simp: Option.bind_eq_Some_conv)
    with newReplicaTracker_tracker Cons.IH show ?thesis using sameTargets_trans by blast
  qed
qed (simp add: sameTargets_def)

lemma removeTargets_tracker: "removeTargets keep ts lp = Some (ts', lp') \<Longrightarrow> lp_tracker lp' = lp_tracker lp"
  by (induction ts arbitrary: lp ts') (auto simp: destroyReplicaTracker_def Let_def Option.bind_eq_Some_conv split: if_splits)

lemma activate_freshTracker:
  assumes "activate sn rp lp = Some (rp', lp')"
  obtains ct where "freshTracker (nodes (members (journal (lp_node lp)))) (myself (lp_node lp)) (lp_tracker lp) = Some ct"
    "sameTargets ct (lp_tracker lp')"
proof -
  obtain full ct l ts lp1 where "all_servers_except_myself (nodes (members (journal (lp_node lp)))) (myself (lp_node lp)) = Some full"
      "ct_updateTargets full (ct_reset (lp_tracker lp)) = Some ct"
      "addTargets sn (full @ observers (members (journal (lp_node lp)))) (rp_targets rp) (lp\<lparr>lp_tracker := ct, lp_lease := l\<rparr>) = Some (ts, lp1)"
      "removeTargets (full @ observers (members (journal (lp_node lp)))) ts lp1 = Some (rp_targets rp', lp')"
    using assms by (auto simp: activate_def reconfigure_def setTargets_def Let_def Option.bind_eq_Some_conv)
  then show thesis
    using that [of ct] addTargets_tracker removeTargets_tracker by (force simp: freshTracker_def)
qed

inductive cluster_step :: "('db, 'wb) rocksdb \<Rightarrow> raft_server list \<Rightarrow> 'db cluster \<Rightarrow> 'db cluster \<Rightarrow> bool" for api ns where
  observe: "s \<in> set ns \<Longrightarrow> observed api t noServer (cl_node c s) = Some (b, n') \<Longrightarrow> int64 t \<Longrightarrow> cluster_step api ns c (setNode s n' c)"
| beat: "s \<in> set ns \<Longrightarrow> heartbeat api now req (cl_node c s) hb = Some (ans, n', hb') \<Longrightarrow> int64 (hb_term req) \<Longrightarrow> okServer (hb_leader req) \<Longrightarrow>
    cluster_step api ns c (setNode s n' c)"
| prepare: "s \<in> set ns \<Longrightarrow> prepareVote api (cl_node c s) = Some req \<Longrightarrow>
    cluster_step api ns c (c\<lparr>preparedVotes := insert (s, req) (preparedVotes c)\<rparr>)"
| campaign: "s \<in> set ns \<Longrightarrow> (s, req) \<in> preparedVotes c \<Longrightarrow> int64 (vr_term req) \<Longrightarrow>
    observed api (vr_term req) noServer (cl_node c s) = Some (True, n) \<Longrightarrow> becomeCandidate api (vr_term req) n = Some (True, n') \<Longrightarrow>
    cluster_step api ns c ((setNode s n' c)\<lparr>voteRequests := insert (req\<lparr>candidate := s\<rparr>) (voteRequests c)\<rparr>)"
| vote: "s \<in> set ns \<Longrightarrow> req \<in> voteRequests c \<Longrightarrow> requestVote api now req False (cl_node c s) hb = Some (ans, n', hb') \<Longrightarrow>
    cluster_step api ns c ((setNode s n' c)\<lparr>voteGrants :=
      (if vresp_vote ans = GRANTED then insert (s, vr_term req, candidate req) (voteGrants c) else voteGrants c)\<rparr>)"
| elect: "s \<in> set ns \<Longrightarrow> registerReplies replies (voters s ns) (newRegistry t False) = Some reg \<Longrightarrow> registryTerms reg \<Longrightarrow> markerFits t (cl_node c s) \<Longrightarrow>
    \<forall>v \<in> set ns - {s}. repliedWith replies GRANTED v \<longrightarrow> (v, t, s) \<in> voteGrants c \<Longrightarrow>
    electionClose api tp t reg (cl_node c s) l = Some (outcome, n', l') \<Longrightarrow> freshTracker ns s (cl_tracker c s) = Some ct \<Longrightarrow>
    cluster_step api ns c ((setNode s n' c)\<lparr>cl_tracker := (if outcome = kElected then (cl_tracker c)(s := ct) else cl_tracker c)\<rparr>)"
| giveUp: "s \<in> set ns \<Longrightarrow> dropOut t (cl_node c s) = (b, n') \<Longrightarrow> cluster_step api ns c (setNode s n' c)"
| halt: "s \<in> set ns \<Longrightarrow> cluster_step api ns c (setNode s (shutdown (cl_node c s)) c)"
| restart: "s \<in> set ns \<Longrightarrow> openJournal api (j_db (journal (cl_node c s))) = Some j \<Longrightarrow> cluster_step api ns c (setNode s (newRaftState j s) c)"
| append: "s \<in> set ns \<Longrightarrow> n_status (cl_node c s) = LEADER \<Longrightarrow> entryTerm e = n_term (cl_node c s) \<Longrightarrow> okLogEntry e \<Longrightarrow> memberEntryOk (journal (cl_node c s)) e \<Longrightarrow>
    int64 (logSize (journal (cl_node c s)) + 1) \<Longrightarrow>
    j_append api (logSize (journal (cl_node c s))) e False (journal (cl_node c s)) = Some (b, j') \<Longrightarrow>
    cluster_step api ns c (setNode s ((cl_node c s)\<lparr>journal := j'\<rparr>) c)"
| send: "s \<in> set ns \<Longrightarrow> n_status (cl_node c s) = LEADER \<Longrightarrow>
    logStart (journal (cl_node c s)) < p \<Longrightarrow> p \<le> logSize (journal (cl_node c s)) \<Longrightarrow> 0 \<le> limit \<Longrightarrow> limit \<le> 1024 \<Longrightarrow>
    sendPayload api (getSnapshot (cl_node c s)) p limit (cl_node c s) = Some (Some (msg, size', lastEntryTerm), n') \<Longrightarrow>
    parseAppendEntries msg = Some (Some req) \<Longrightarrow>
    cluster_step api ns c (c\<lparr>appendRequests := insert req (appendRequests c)\<rparr>)"
| deliver: "s \<in> set ns \<Longrightarrow> req \<in> appendRequests c \<Longrightarrow> ae_leader req \<noteq> s \<Longrightarrow> requestOk api req (journal (cl_node c s)) \<Longrightarrow>
    appendEntries api now appl req (cl_node c s) hb = Some (ans, n', hb') \<Longrightarrow>
    cluster_step api ns c ((setNode s n' c)\<lparr>acknowledgements :=
      (if countedAck req ans then insert (s, ae_term req, aer_logSize ans) (acknowledgements c) else acknowledgements c)\<rparr>)"
| commit: "s \<in> set ns \<Longrightarrow> n_status (cl_node c s) = LEADER \<Longrightarrow> (v, n_term (cl_node c s), size') \<in> acknowledgements c \<Longrightarrow>
    matchIndexUpdate api v (size' - 1) (cl_tracker c s) (journal (cl_node c s)) = Some (ct, j') \<Longrightarrow>
    cluster_step api ns c ((setNode s ((cl_node c s)\<lparr>journal := j'\<rparr>) c)\<lparr>cl_tracker := (cl_tracker c)(s := ct)\<rparr>)"
| trim: "s \<in> set ns \<Longrightarrow> trimUntil api i (journal (cl_node c s)) = Some j' \<Longrightarrow> cluster_step api ns c (setNode s ((cl_node c s)\<lparr>journal := j'\<rparr>) c)"

text \<open>All nodes start with a journal that holds the same first entry, and nothing has been sent.\<close>

definition clusterInit :: "('db, 'wb) rocksdb \<Rightarrow> raft_server list \<Rightarrow> raft_entry \<Rightarrow> 'db cluster \<Rightarrow> bool" where
  "clusterInit api ns e c \<longleftrightarrow> entryTerm e = 0
     \<and> (\<forall>s \<in> set ns. nodeInv api (cl_node c s) \<and> myself (cl_node c s) = s \<and> n_status (cl_node c s) = FOLLOWER \<and> 0 \<le> n_term (cl_node c s)
          \<and> logSize (journal (cl_node c s)) = 1 \<and> entryAt api (journal (cl_node c s)) 0 = Some e)
     \<and> preparedVotes c = {} \<and> voteRequests c = {} \<and> voteGrants c = {} \<and> appendRequests c = {} \<and> acknowledgements c = {}"

subsection \<open>Logs as lists\<close>

text \<open>The journal holds the part of \<open>L\<close> that has not been trimmed.\<close>

definition couples :: "('db, 'wb) rocksdb \<Rightarrow> 'db raft_journal \<Rightarrow> raft_entry list \<Rightarrow> bool" where
  "couples api j L \<longleftrightarrow> int (length L) = logSize j \<and> (\<forall>i e. 0 \<le> i \<longrightarrow> i < logSize j \<longrightarrow> entryAt api j i = Some e \<longrightarrow> L ! nat i = e)"

lemma couplesD:
  assumes "couples api j L"
  shows "int (length L) = logSize j" "0 \<le> i \<Longrightarrow> i < logSize j \<Longrightarrow> entryAt api j i = Some e \<Longrightarrow> L ! nat i = e"
  using assms by (auto simp: couples_def)

lemma couples_same:
  assumes "couples api j L" "logSize j' = logSize j" "\<And>i e. 0 \<le> i \<Longrightarrow> i < logSize j \<Longrightarrow> entryAt api j' i = Some e \<Longrightarrow> entryAt api j i = Some e"
  shows "couples api j' L"
  using assms by (auto simp: couples_def)

lemma couples_present:
  assumes "couples api j L" "journalInv api j" "logStart j \<le> i" "i < logSize j"
  shows "entryAt api j i = Some (L ! nat i)" "0 \<le> i" "nat i < length L"
proof -
  obtain e where e: "entryAt api j i = Some e" using log_entry [OF assms(2-4)] by metis
  have i: "0 \<le> i" using journalInvD(3) [OF assms(2)] assms(3) by (auto simp: bounds_def)
  show "entryAt api j i = Some (L ! nat i)" "0 \<le> i" "nat i < length L"
    using couplesD [OF assms(1)] i e assms(4) by auto
qed

lemma couples_last:
  assumes "couples api j L" "journalInv api j"
  shows "L \<noteq> []" "entryAt api j (logSize j - 1) = Some (last L)" "termOfLastEntry j = entryTerm (last L)"
proof -
  have b: "logStart j \<le> logSize j - 1" "0 \<le> logStart j" using journalInvD(3) [OF assms(2)] by (auto simp: bounds_def)
  note p = couples_present [OF assms b(1)]
  show ne: "L \<noteq> []" using p(3) by auto
  have "nat (logSize j - 1) = length L - 1" using couplesD(1) [OF assms(1)] by simp
  then show e: "entryAt api j (logSize j - 1) = Some (last L)" using p(1) ne by (simp add: last_conv_nth)
  show "termOfLastEntry j = entryTerm (last L)"
    using journalInvD(6) [OF assms(2)] e by (auto simp: lastTermOk_def entryAt_def)
qed

lemma couples_append:
  assumes "couples api j L" "appended api e j j'" "journalInv api j"
  shows "couples api j' (L @ [e])"
proof -
  have b: "0 \<le> logSize j" "int64 (logSize j)" using journalInvD(3) [OF assms(3)] by (auto simp: bounds_def)
  have sz: "logSize j' = logSize j + 1" using assms(2) by (simp add: appended_def)
  have a: "entryAt api j' i = (if i = logSize j then Some e else entryAt api j i)" if "0 \<le> i" "i \<le> logSize j" for i
    using assms(2) that b by (auto simp: appended_def int64_def)
  have "(L @ [e]) ! nat i = x" if "0 \<le> i" "i < logSize j'" "entryAt api j' i = Some x" for i x
    using that a [of i] couplesD [OF assms(1)] b(1) sz by (cases "i = logSize j") (auto simp: nth_append nat_less_iff)
  then show ?thesis using sz couplesD(1) [OF assms(1)] b(1) by (simp add: couples_def)
qed

lemma couples_cut:
  assumes "couples api j L" "logSize j' = i" "0 \<le> i" "i \<le> logSize j" "\<forall>k. 0 \<le> k \<longrightarrow> k < i \<longrightarrow> entryAt api j' k = entryAt api j k"
  shows "couples api j' (take (nat i) L)"
  using assms by (auto simp: couples_def nat_less_iff)

lemma appendAll_log:
  assumes "journalInv api j" "entriesOk j es" "int64 (logSize j + int (length es))" "couples api j L"
    and "appendAll api (logSize j) es j = Some (ok, j')"
  shows "\<exists>k. couples api j' (L @ take k es) \<and> k \<le> length es \<and> (ok \<longrightarrow> k = length es)"
  using assms
proof (induction es arbitrary: j L)
  case Nil
  then show ?case by simp
next
  case (Cons e es)
  have sz: "int64 (logSize j + 1)" using Cons.prems(3) journalInvD(3) [OF Cons.prems(1)] by (auto simp: bounds_def int64_def)
  have e: "okLogEntry e" "memberEntryOk j e" "entriesOk j es" using Cons.prems(2) by (auto simp: entriesOk_def)
  from append_total [OF Cons.prems(1) e(1,2) sz, of False] obtain ok1 j1 where
    j1: "j_append api (logSize j) e False j = Some (ok1, j1)" "if ok1 then appended api e j j1 else j1 = j" by blast
  show ?case
  proof (cases ok1)
    case False
    then have "ok = False" "j' = j" using Cons.prems(5) j1 by auto
    then show ?thesis using Cons.prems(4) by (intro exI [of _ 0]) simp
  next
    case True
    with j1(2) have a: "appended api e j j1" by simp
    then have b: "journalInv api j1" "logSize j1 = logSize j + 1" "clusterID j1 = clusterID j" by (simp_all add: appended_def)
    have "entriesOk j1 es" using e(3) entriesOk_cluster [OF b(3)] by simp
    moreover have "int64 (logSize j1 + int (length es))" using Cons.prems(3) b(2) by (simp add: add.assoc)
    moreover have "appendAll api (logSize j1) es j1 = Some (ok, j')" using Cons.prems(5) j1(1) True b(2) by simp
    ultimately obtain k where "couples api j' ((L @ [e]) @ take k es)" "k \<le> length es" "ok \<longrightarrow> k = length es"
      using Cons.IH [OF b(1) _ _ couples_append [OF Cons.prems(4) a Cons.prems(1)]] by blast
    then show ?thesis by (intro exI [of _ "Suc k"]) simp
  qed
qed

text \<open>What the handler of append requests does to the log.\<close>

definition replacedBy :: "raft_entry list \<Rightarrow> nat \<Rightarrow> raft_entry list \<Rightarrow> raft_entry list \<Rightarrow> bool \<Rightarrow> bool" where
  "replacedBy L start es L' ok \<longleftrightarrow>
     L' = L \<and> (ok \<longrightarrow> start + length es \<le> length L \<and> (\<forall>q < length es. L ! (start + q) = es ! q))
     \<or> (\<exists>d k. d < length es \<and> k \<le> length es - d \<and> start + d \<le> length L \<and> (\<forall>q < d. L ! (start + q) = es ! q)
          \<and> (start + d < length L \<longrightarrow> L ! (start + d) \<noteq> es ! d) \<and> L' = take (start + d) L @ take k (drop d es) \<and> (ok \<longrightarrow> k = length es - d))"

lemma replaceInconsistent_log:
  assumes inv: "journalInv api j" and es: "entriesOk j es" "int64 (start + int (length es))" and st: "logStart j \<le> start"
    and i: "firstDifference api j start es i" and roll: "\<forall>i > commitIndex j. rollbackSafe api j i" and L: "couples api j L"
    and run: "replaceInconsistent api appl start es i j = Some (ok, j')"
  shows "\<exists>L'. couples api j' L' \<and> replacedBy L (nat start) es L' ok"
proof -
  have start: "0 \<le> start" using journalInvD(3) [OF inv] st by (auto simp: bounds_def)
  have fd: "start \<le> i" "i \<le> logSize j" "i \<le> start + int (length es)" using i by (auto simp: firstDifference_def)
  let ?d = "nat (i - start)"
  have agree: "L ! (nat start + q) = es ! q" if "q < ?d" for q
  proof -
    have q: "start + int q < i" "q < length es" using that fd by auto
    then have "entryAt api j (start + int q) = Some (es ! q)" using i by (simp add: firstDifference_def)
    then show ?thesis using couplesD(2) [OF L, of "start + int q"] q fd start by (simp add: nat_add_distrib)
  qed
  show ?thesis
  proof (cases "i - start < int (length es)")
    case False
    with run have r: "ok" "j' = j" by (simp_all add: replaceInconsistent_def)
    have "length es = ?d" "nat start + ?d \<le> length L" using False fd couplesD(1) [OF L] start by auto
    with r L agree show ?thesis by (intro exI [of _ L]) (simp add: replacedBy_def)
  next
    case True
    have c: "commitIndex j < i" using run True by (auto simp: replaceInconsistent_def assert_that_def split: if_splits)
    from removeEntries_cut [OF inv c fd(2)] roll c obtain b j1 where
      j1: "removeEntries api i j = Some (b, j1)" "journal_safe api j j1" "logSize j1 = i" "clusterID j1 = clusterID j"
        "\<forall>k. 0 \<le> k \<longrightarrow> k < i \<longrightarrow> entryAt api j1 k = entryAt api j k"
      by blast
    have inv1: "journalInv api j1" using j1(2) by (simp add: journal_safe_def)
    have L1: "couples api j1 (take (nat i) L)" by (rule couples_cut [OF L j1(3) _ fd(2) j1(5)]) (use fd start in simp)
    have "entriesOk j1 (drop ?d es)" using es(1) j1(4) entriesOk_cluster entriesOk_drop by metis
    moreover have "int64 (logSize j1 + int (length (drop ?d es)))" using es(2) True fd(1) j1(3) by (simp add: of_nat_diff add.commute)
    moreover have "appendAll api (logSize j1) (drop ?d es) j1 = Some (ok, j')"
      using run True j1(1,3) by (auto simp: replaceInconsistent_def assert_that_def split: if_splits)
    ultimately obtain k where k: "couples api j' (take (nat i) L @ take k (drop ?d es))" "k \<le> length (drop ?d es)" "ok \<longrightarrow> k = length (drop ?d es)"
      using appendAll_log [OF inv1 _ _ L1] by blast
    have d: "?d < length es" "nat start + ?d = nat i" "nat i \<le> length L" using True fd start couplesD(1) [OF L] by auto
    have "L ! (nat start + ?d) \<noteq> es ! ?d" if "nat start + ?d < length L"
    proof -
      have "entryAt api j i \<noteq> Some (es ! ?d)" using i True by (simp add: firstDifference_def)
      then show ?thesis using couples_present(1) [OF L inv, of i] that d(2) st fd couplesD(1) [OF L] by auto
    qed
    with d k agree have "replacedBy L (nat start) es (take (nat i) L @ take k (drop ?d es)) ok"
      unfolding replacedBy_def by (intro disjI2 exI [of _ ?d] exI [of _ k]) simp
    with k(1) show ?thesis by blast
  qed
qed

lemma applyEntries_log:
  assumes req: "requestOk api req j" and L: "couples api j L" and run: "applyEntries api appl t req j = Some (ans, j')"
  shows "\<exists>L'. couples api j' L' \<and> (L' = L \<and> \<not> aer_outcome ans
     \<or> nat (prevIndex req) < length L \<and> entryTerm (L ! nat (prevIndex req)) = prevTerm req
       \<and> replacedBy L (nat (prevIndex req) + 1) (entries req) L' (aer_outcome ans))"
proof -
  have inv: "journalInv api j" and es: "entriesOk j (entries req)" and p: "0 \<le> prevIndex req" "0 \<le> prevIndex req + 1"
    and i64: "int64 (prevIndex req + 1 + int (length (entries req)))" and roll: "\<forall>i > commitIndex j. rollbackSafe api j i"
    using req by (auto simp: requestOk_def)
  from run obtain ms where ms: "matchEntries api j (prevIndex req) (prevTerm req) = Some ms"
    by (auto simp: applyEntries_def Option.bind_eq_Some_conv)
  show ?thesis
  proof (cases ms)
    case False
    with run ms have "\<not> aer_outcome ans" "j' = j" by (auto simp: applyEntries_def)
    with L show ?thesis by (intro exI [of _ L]) simp
  next
    case True
    with ms have m: "matchEntries api j (prevIndex req) (prevTerm req) = Some True" by simp
    note match = requestOk_match [OF req m]
    have prev: "nat (prevIndex req) < length L" "entryTerm (L ! nat (prevIndex req)) = prevTerm req"
      using couples_present [OF L inv match(1,2)] match(3) by auto
    from compareEntries_first [OF inv _ _ i64] match(1,2) obtain i where
      i: "compareEntries api j (prevIndex req + 1) (entries req) = Some i" "firstDifference api j (prevIndex req + 1) (entries req) i"
      by auto
    from run m i(1) obtain ok j1 where r: "replaceInconsistent api appl (prevIndex req + 1) (entries req) i j = Some (ok, j1)"
      by (auto simp: applyEntries_def Option.bind_eq_Some_conv)
    have st: "logStart j \<le> prevIndex req + 1" "nat (prevIndex req + 1) = nat (prevIndex req) + 1" using match(1) p by auto
    from replaceInconsistent_log [OF inv es i64 st(1) i(2) roll L r] obtain L' where
      L': "couples api j1 L'" "replacedBy L (nat (prevIndex req) + 1) (entries req) L' ok"
      unfolding st(2) by blast
    show ?thesis
    proof (cases ok)
      case False
      then have "\<not> aer_outcome ans" "j' = j1" using run m i(1) r by (auto simp: applyEntries_def)
      then show ?thesis using L' prev False by (intro exI [of _ L']) auto
    next
      case True
      have j1: "journalInv api j1" using replaceInconsistent_ok [OF inv es i64 p(2) i(2) roll r] by (simp add: journal_safe_def)
      then obtain b j2 where j2: "setCommitIndex api (min (logSize j1 - 1) (ae_commitIndex req)) j1 = Some (b, j2)"
          "logSize j2 = logSize j1" "\<forall>i. entryAt api j2 i = entryAt api j1 i"
        using setCommitIndex_step [OF j1, of "min (logSize j1 - 1) (ae_commitIndex req)"] by (auto simp: min_less_iff_disj)
      have "aer_outcome ans" "j' = j2" using run m i(1) r True j2(1) by (auto simp: applyEntries_def)
      moreover have "couples api j2 L'" by (rule couples_same [OF L'(1) j2(2)]) (use j2(3) in simp)
      ultimately show ?thesis using L'(2) prev True by (intro exI [of _ L']) auto
    qed
  qed
qed

end
