(* ===== verification/ClusterRefinement.thy ===== *)
theory ClusterRefinement
  imports ClusterRuns
begin

text \<open>
  Every step of the cluster is a sequence of steps of \<open>RaftSpec\<close>, on a state that \<open>refines\<close> relates
  to it: its logs are the journals before trimming, its votes and leaders are recorded in the vote and
  status of the nodes, and its messages are those in flight.
\<close>

subsection \<open>Lists\<close>

lemma take_prefix_eq: "prefix P L \<Longrightarrow> P = take (length P) L"
  by (auto simp: prefix_def)

lemma prefix_take: "k \<le> m \<Longrightarrow> prefix (take k L) (take m L)"
  by (metis min.absorb1 take_is_prefix take_take)

lemma matching_common:
  assumes "matching tm x L" "matching tm x M" "p < length L" "p < length M" "tm (L ! p) = tm (M ! p)"
  shows "take (p + 1) L = take (p + 1) M"
proof -
  have "last (take (p + 1) K) = K ! p" if "p < length K" for K :: "'a list"
    using that by (simp add: take_Suc_conv_app_nth)
  moreover have "take (p + 1) L \<noteq> []" "take (p + 1) M \<noteq> []" using assms(3,4) by auto
  ultimately have "prefix (take (p + 1) L) (leaderLog x (tm (L ! p)))" "prefix (take (p + 1) M) (leaderLog x (tm (L ! p)))"
    using matchingD(2) [OF assms(1), of "take (p + 1) L"] matchingD(2) [OF assms(2), of "take (p + 1) M"] assms(3-5)
    by (simp_all add: take_is_prefix)
  then show ?thesis using assms(3,4) by (metis (no_types, lifting) Suc_eq_plus1 Suc_leI length_take min.absorb2 take_prefix_eq)
qed

definition sliceOf :: "raft_entry list \<Rightarrow> append_entries_request \<Rightarrow> bool" where
  "sliceOf M req \<longleftrightarrow> 0 \<le> prevIndex req \<and> nat (prevIndex req) + 1 + length (entries req) \<le> length M
     \<and> entryTerm (M ! nat (prevIndex req)) = prevTerm req \<and> (\<forall>q < length (entries req). M ! (nat (prevIndex req) + 1 + q) = entries req ! q)"

lemma sliceOf_prefix: "sliceOf M req \<Longrightarrow> prefix M M' \<Longrightarrow> sliceOf M' req"
  by (auto simp: sliceOf_def prefix_def nth_append)

lemma replaced_follows:
  assumes m: "matching entryTerm x L" "matching entryTerm x M" and s: "sliceOf M req"
    and p: "nat (prevIndex req) < length L" "entryTerm (L ! nat (prevIndex req)) = prevTerm req"
    and r: "replacedBy L (nat (prevIndex req) + 1) (entries req) L' ok"
  shows "follows L M L'" "ok \<Longrightarrow> prefix (take (nat (prevIndex req) + 1 + length (entries req)) M) L'"
proof -
  let ?s = "nat (prevIndex req) + 1" and ?es = "entries req"
  have sl: "?s + length ?es \<le> length M" "\<And>q. q < length ?es \<Longrightarrow> M ! (?s + q) = ?es ! q" using s by (auto simp: sliceOf_def)
  have base: "take ?s L = take ?s M" by (rule matching_common [OF m]) (use p sl s in \<open>auto simp: sliceOf_def\<close>)
  have eq: "take (?s + d) L = take (?s + d) M" if "d \<le> length ?es" "?s + d \<le> length L" "\<forall>q < d. L ! (?s + q) = ?es ! q" for d
  proof (rule nth_equalityI)
    show "length (take (?s + d) L) = length (take (?s + d) M)" using that sl(1) by simp
    fix i assume "i < length (take (?s + d) L)"
    then have i: "i < ?s + d" by simp
    have "L ! i = M ! i"
    proof (cases "i < ?s")
      case True
      then show ?thesis using base by (metis nth_take)
    next
      case False
      then have q: "i - ?s < d" "?s + (i - ?s) = i" using i by auto
      then have "i - ?s < length ?es" using that(1) by simp
      then show ?thesis using that(3) [rule_format, OF q(1)] sl(2) [of "i - ?s"] q(2) by metis
    qed
    then show "take (?s + d) L ! i = take (?s + d) M ! i" using i by simp
  qed
  from r consider "L' = L" "ok \<longrightarrow> ?s + length ?es \<le> length L \<and> (\<forall>q < length ?es. L ! (?s + q) = ?es ! q)"
    | d k where "d < length ?es" "k \<le> length ?es - d" "?s + d \<le> length L" "\<forall>q < d. L ! (?s + q) = ?es ! q"
        "?s + d < length L \<longrightarrow> L ! (?s + d) \<noteq> ?es ! d" "L' = take (?s + d) L @ take k (drop d ?es)" "ok \<longrightarrow> k = length ?es - d"
    unfolding replacedBy_def by blast
  then have "follows L M L' \<and> (ok \<longrightarrow> prefix (take (?s + length ?es) M) L')"
  proof cases
    case 1
    then show ?thesis using eq [of "length ?es"] by (auto simp: follows_def) (metis take_is_prefix)
  next
    case 2
    have "take k (drop d ?es) = take k (drop (?s + d) M)"
    proof (rule nth_equalityI)
      show "length (take k (drop d ?es)) = length (take k (drop (?s + d) M))" using 2(1,2) sl(1) by simp
      fix i assume "i < length (take k (drop d ?es))"
      then have "i < k" "d + i < length ?es" by auto
      then show "take k (drop d ?es) ! i = take k (drop (?s + d) M) ! i" using sl(1) sl(2) [of "d + i"] by (simp add: add.assoc)
    qed
    moreover have "take (?s + d) L = take (?s + d) M" using eq [OF less_imp_le [OF 2(1)] 2(3,4)] .
    ultimately have L': "L' = take (?s + d + k) M" unfolding take_add [of "?s + d" k M] using 2(6) by argo
    have "prefix P L'" if P: "prefix P L" "prefix P M" for P
    proof -
      have "length P \<le> ?s + d"
      proof (rule ccontr)
        assume long: "\<not> length P \<le> ?s + d"
        then have "L ! (?s + d) = M ! (?s + d)" using P by (auto simp: prefix_def nth_append)
        moreover have "?s + d < length L" using long P(1) prefix_length_le [OF P(1)] by simp
        ultimately show False using 2(1,5) sl(2) by auto
      qed
      then show ?thesis unfolding L' using take_prefix_eq [OF P(2)] by (metis le_add1 order_trans prefix_take)
    qed
    moreover have "L' \<noteq> []" "prefix L' M" using L' sl(1) by (auto simp: take_is_prefix)
    moreover have "ok \<longrightarrow> L' = take (?s + length ?es) M" using L' 2(1,7) by simp
    ultimately show ?thesis by (auto simp: follows_def)
  qed
  then show "follows L M L'" "ok \<Longrightarrow> prefix (take (?s + length ?es) M) L'" by simp_all
qed

subsection \<open>Steps that leave the log alone\<close>

definition quiet :: "('db, 'wb) rocksdb \<Rightarrow> 'db raft_node \<Rightarrow> 'db raft_node \<Rightarrow> bool" where
  "quiet api n n' \<longleftrightarrow> node_safe api n n' \<and> logSize (journal n') = logSize (journal n)
     \<and> (\<forall>i e. 0 \<le> i \<longrightarrow> i < logSize (journal n) \<longrightarrow> entryAt api (journal n') i = Some e \<longrightarrow> entryAt api (journal n) i = Some e)
     \<and> (n_status n' = n_status n \<and> n_term n' = n_term n \<or> n_status n' = FOLLOWER \<or> n_status n' = SHUTDOWN)"

lemma quiet_refl: "nodeInv api n \<Longrightarrow> quiet api n n"
  by (simp add: quiet_def node_safe_refl)

lemma quiet_trans: "quiet api n m \<Longrightarrow> quiet api m k \<Longrightarrow> quiet api n k"
  unfolding quiet_def by (metis node_safe_trans)

lemma quiet_inv: "quiet api n n' \<Longrightarrow> nodeInv api n' \<and> myself n' = myself n"
  by (simp add: quiet_def node_safe_def)

lemma observed_status:
  "observed api t ldr n = Some (b, n') \<Longrightarrow> n_status n' = n_status n \<and> n_term n' = n_term n \<or> n_status n' = FOLLOWER"
  by (auto simp: observed_def updateJournal_def Option.bind_eq_Some_conv Let_def split: if_splits)

lemma observed_quiet:
  assumes "nodeInv api n" "int64 t" "okVote ldr" "observed api t ldr n = Some (b, n')"
  shows "quiet api n n'"
proof -
  from observed_ok [OF assms(1-3)] obtain b' m where "observed api t ldr n = Some (b', m)" "node_safe api n m"
      "logSize (journal m) = logSize (journal n)" "\<forall>i. entryAt api (journal m) i = entryAt api (journal n) i"
    by (elim exE conjE)
  then show ?thesis using assms(4) observed_status [OF assms(4)] by (auto simp: quiet_def)
qed

lemma heartbeat_quiet:
  assumes "nodeInv api n" "int64 (hb_term req)" "okServer (hb_leader req)" "heartbeat api now req n hb = Some (ans, n', hb')"
  shows "quiet api n n'"
proof -
  from assms(4) obtain b where "observed api (hb_term req) (hb_leader req) n = Some (b, n')"
    by (auto simp: heartbeat_def Option.bind_eq_Some_conv split: if_splits)
  then show ?thesis using observed_quiet assms(1-3) okVote_simps(2) by blast
qed

lemma dropOut_quiet:
  assumes "nodeInv api n" "dropOut t n = (b, n')"
  shows "quiet api n n'"
proof -
  have "node_safe api n n'" using dropOut_ok [OF assms(1), of t] assms(2) by auto
  moreover have "journal n' = journal n \<and> (n' = n \<or> n_status n' = FOLLOWER)"
    using assms(2) by (auto simp: dropOut_def split: if_splits)
  ultimately show ?thesis by (auto simp: quiet_def)
qed

lemma shutdown_quiet: "nodeInv api n \<Longrightarrow> quiet api n (shutdown n)"
  using shutdown_ok [of api n] by (simp add: quiet_def) (simp add: shutdown_def)

lemma restart_quiet:
  assumes "nodeInv api n" "openJournal api (j_db (journal n)) = Some j"
  shows "quiet api n (newRaftState j (myself n))"
proof -
  have "j = journal n" using openJournal_ok [OF nodeInvD(1) [OF assms(1)]] assms(2) by simp
  moreover have "node_safe api n (newRaftState j (myself n))" by (rule node_life_safe [OF node_life.restart [OF assms(2)] assms(1)])
  ultimately show ?thesis by (simp add: quiet_def newRaftState_def)
qed

lemma node_safe_journal:
  assumes "nodeInv api n" "journal_safe api (journal n) j" "currentTerm j = currentTerm (journal n)" "votedFor j = votedFor (journal n)"
  shows "node_safe api n (n\<lparr>journal := j\<rparr>)"
  using assms nodeInvD [OF assms(1)] by (auto simp: node_safe_def nodeInv_def journal_safe_def)

lemma trim_quiet:
  assumes inv: "nodeInv api n" and t: "trimUntil api i (journal n) = Some j"
  shows "quiet api n (n\<lparr>journal := j\<rparr>)"
proof -
  note J = nodeInvD(1) [OF inv]
  have safe: "journal_safe api (journal n) j" by (rule trim_safe [OF J t])
  have b: "0 \<le> logSize (journal n)" "int64 (logSize (journal n))" using journalInvD(3) [OF J] by (auto simp: bounds_def)
  consider "i \<le> logStart (journal n)" | "logStart (journal n) < i" "commitIndex (journal n) < i" | "logStart (journal n) < i" "i \<le> commitIndex (journal n)"
    by linarith
  then have "j = journal n \<or> (\<exists>db. j = (journal n)\<lparr>j_db := db, logStart := i\<rparr>
      \<and> (\<forall>k. 0 \<le> k \<longrightarrow> int64 k \<longrightarrow> entryAt api j k = (if k < i then None else entryAt api (journal n) k)))"
  proof cases
    case 1
    then show ?thesis using t by (simp add: trimUntil_def)
  next
    case 2
    then show ?thesis using t trimUntil_rejects [of "journal n" i api] by simp
  next
    case 3
    then show ?thesis using t trimUntil_ok [OF J 3] by fastforce
  qed
  then show ?thesis
  proof
    assume "j = journal n"
    then show ?thesis using quiet_refl [OF inv] by simp
  next
    assume "\<exists>db. j = (journal n)\<lparr>j_db := db, logStart := i\<rparr>
      \<and> (\<forall>k. 0 \<le> k \<longrightarrow> int64 k \<longrightarrow> entryAt api j k = (if k < i then None else entryAt api (journal n) k))"
    then obtain db where j: "j = (journal n)\<lparr>j_db := db, logStart := i\<rparr>"
      "\<And>k. 0 \<le> k \<Longrightarrow> int64 k \<Longrightarrow> entryAt api j k = (if k < i then None else entryAt api (journal n) k)" by blast
    have "node_safe api n (n\<lparr>journal := j\<rparr>)" by (rule node_safe_journal [OF inv safe]) (simp_all add: j(1))
    moreover have "entryAt api (journal n) k = Some e" if "0 \<le> k" "k < logSize (journal n)" "entryAt api j k = Some e" for k e
      using j(2) [of k] that b by (auto simp: int64_def split: if_splits)
    moreover have "logSize j = logSize (journal n)" by (simp add: j(1))
    ultimately show ?thesis by (simp add: quiet_def)
  qed
qed

lemma observeTerms_quiet:
  assumes "nodeInv api n" "\<forall>(s, sv) \<in> set vs. int64 (vresp_term (resp sv))" "observeTermsAndLeases api tp vs n l = Some (n', l')"
  shows "quiet api n n'"
  using assms
proof (induction vs arbitrary: n l)
  case Nil
  then show ?case by (simp add: quiet_refl)
next
  case (Cons v vs)
  obtain s sv where v: "v = (s, sv)" by (cases v)
  show ?case
  proof (cases "netError sv \<or> parseError sv")
    case True
    then show ?thesis using Cons v by simp
  next
    case False
    with Cons.prems(3) v obtain b m l1 where m: "observed api (vresp_term (resp sv)) noServer n = Some (b, m)"
        "observeTermsAndLeases api tp vs m l1 = Some (n', l')"
      by (auto simp: Option.bind_eq_Some_conv)
    have "int64 (vresp_term (resp sv))" using Cons.prems(2) v by auto
    then have q: "quiet api n m" using observed_quiet [OF Cons.prems(1) _ okVote_simps(1) m(1)] by blast
    with Cons.IH [OF _ _ m(2)] quiet_inv [OF q] Cons.prems(2) quiet_trans show ?thesis by (metis list.set_intros(2))
  qed
qed

subsection \<open>The relation\<close>

type_synonym cluster_spec = "(raft_server, raft_entry) raft_spec"

abbreviation spec_step :: "raft_server list \<Rightarrow> cluster_spec \<Rightarrow> cluster_spec \<Rightarrow> bool" where
  "spec_step ns \<equiv> raft_step (isQuorum ns) entryTerm"

definition nodeRel :: "('db, 'wb) rocksdb \<Rightarrow> raft_server \<Rightarrow> 'db raft_node \<Rightarrow> cluster_spec \<Rightarrow> bool" where
  "nodeRel api s n x \<longleftrightarrow>
     nodeInv api n \<and> myself n = s \<and> cur x s = n_term n \<and> couples api (journal n) (slog x s)
     \<and> (\<forall>d Lv. (s, n_term n, d, Lv) \<in> votes x \<longrightarrow> n_votedFor n = d \<and> \<not> serverEmpty d)
     \<and> ((s, n_term n) \<in> followed x \<longrightarrow> \<not> serverEmpty (n_votedFor n))
     \<and> (n_status n = CANDIDATE \<longrightarrow> claims x s (n_term n) \<noteq> None \<and> leaderOf x (n_term n) \<noteq> Some s)
     \<and> (n_status n = LEADER \<longrightarrow> leaderOf x (n_term n) = Some s \<and> slog x s = leaderLog x (n_term n))"

lemma nodeRelD:
  assumes "nodeRel api s n x"
  shows "nodeInv api n" "myself n = s" "cur x s = n_term n" "couples api (journal n) (slog x s)"
    "(s, n_term n, d, Lv) \<in> votes x \<Longrightarrow> n_votedFor n = d \<and> \<not> serverEmpty d"
    "(s, n_term n) \<in> followed x \<Longrightarrow> \<not> serverEmpty (n_votedFor n)"
    "n_status n = CANDIDATE \<Longrightarrow> claims x s (n_term n) \<noteq> None \<and> leaderOf x (n_term n) \<noteq> Some s"
    "n_status n = LEADER \<Longrightarrow> leaderOf x (n_term n) = Some s" "n_status n = LEADER \<Longrightarrow> slog x s = leaderLog x (n_term n)"
  using assms by (auto simp: nodeRel_def)

definition trackerRel :: "raft_server list \<Rightarrow> raft_server \<Rightarrow> int \<Rightarrow> commit_tracker \<Rightarrow> cluster_spec \<Rightarrow> bool" where
  "trackerRel ns s T ct x \<longleftrightarrow> trackerInv ct \<and> set (ct_targets ct) = set ns - {s}
     \<and> (\<forall>t \<in> set (ct_targets ct). ct_registrations ct t = Some 0 \<or> (\<exists>L. (t, T, L) \<in> ackd x \<and> ct_registrations ct t = Some (int (length L) - 1)))"

definition asksWith :: "vote_request \<Rightarrow> raft_entry list \<Rightarrow> bool" where
  "asksWith req L \<longleftrightarrow> lastIndex req = int (length L) - 1 \<and> lastTerm req = entryTerm (last L)"

definition messagesRel :: "'db cluster \<Rightarrow> cluster_spec \<Rightarrow> bool" where
  "messagesRel c x \<longleftrightarrow>
     (\<forall>s req. (s, req) \<in> preparedVotes c \<longrightarrow> (\<exists>L. (s, vr_term req - 1, L) \<in> past x \<and> asksWith req L))
     \<and> (\<forall>req \<in> voteRequests c. int64 (vr_term req) \<and> okServer (candidate req) \<and> (\<exists>L. claims x (candidate req) (vr_term req) = Some L \<and> asksWith req L))
     \<and> (\<forall>s t d. (s, t, d) \<in> voteGrants c \<longrightarrow> (\<exists>Lv. (s, t, d, Lv) \<in> votes x))
     \<and> (\<forall>req \<in> appendRequests c. int64 (ae_term req) \<and> okServer (ae_leader req) \<and> leaderOf x (ae_term req) = Some (ae_leader req)
          \<and> sliceOf (leaderLog x (ae_term req)) req)
     \<and> (\<forall>s t m. (s, t, m) \<in> acknowledgements c \<longrightarrow> (\<exists>L. (s, t, L) \<in> ackd x \<and> m = int (length L)))"

definition ownVotes :: "cluster_spec \<Rightarrow> bool" where
  "ownVotes x \<longleftrightarrow> (\<forall>s T L. claims x s T = Some L \<longrightarrow> (\<exists>Lv. (s, T, s, Lv) \<in> votes x))"

definition refines :: "('db, 'wb) rocksdb \<Rightarrow> raft_server list \<Rightarrow> 'db cluster \<Rightarrow> cluster_spec \<Rightarrow> bool" where
  "refines api ns c x \<longleftrightarrow>
     specInv (isQuorum ns) entryTerm x \<and> ownVotes x \<and> messagesRel c x
     \<and> (\<forall>s \<in> set ns. nodeRel api s (cl_node c s) x \<and> (n_status (cl_node c s) = LEADER \<longrightarrow> trackerRel ns s (n_term (cl_node c s)) (cl_tracker c s) x))"

lemma refinesD:
  assumes "refines api ns c x"
  shows "specInv (isQuorum ns) entryTerm x" "ownVotes x" "messagesRel c x" "s \<in> set ns \<Longrightarrow> nodeRel api s (cl_node c s) x"
    "s \<in> set ns \<Longrightarrow> n_status (cl_node c s) = LEADER \<Longrightarrow> trackerRel ns s (n_term (cl_node c s)) (cl_tracker c s) x"
  using assms by (auto simp: refines_def)

lemma messagesRelD:
  assumes "messagesRel c x"
  shows "(s, req) \<in> preparedVotes c \<Longrightarrow> \<exists>L. (s, vr_term req - 1, L) \<in> past x \<and> asksWith req L"
    "rq \<in> voteRequests c \<Longrightarrow> int64 (vr_term rq) \<and> okServer (candidate rq) \<and> (\<exists>L. claims x (candidate rq) (vr_term rq) = Some L \<and> asksWith rq L)"
    "(s, t, d) \<in> voteGrants c \<Longrightarrow> \<exists>Lv. (s, t, d, Lv) \<in> votes x"
    "ar \<in> appendRequests c \<Longrightarrow> int64 (ae_term ar) \<and> okServer (ae_leader ar) \<and> leaderOf x (ae_term ar) = Some (ae_leader ar)
       \<and> sliceOf (leaderLog x (ae_term ar)) ar"
    "(s, t, m) \<in> acknowledgements c \<Longrightarrow> \<exists>L. (s, t, L) \<in> ackd x \<and> m = int (length L)"
  using assms unfolding messagesRel_def by simp_all

lemma messagesRel_grows:
  assumes "messagesRel c x" "grows x y"
  shows "messagesRel c y"
proof -
  note m = messagesRelD [OF assms(1)] and g = growsD [OF assms(2)]
  have "\<exists>L. claims y (candidate req) (vr_term req) = Some L \<and> asksWith req L" if "req \<in> voteRequests c" for req
    using m(2) [OF that] g(6) by blast
  moreover have "leaderOf y (ae_term req) = Some (ae_leader req) \<and> sliceOf (leaderLog y (ae_term req)) req" if "req \<in> appendRequests c" for req
    using m(4) [OF that] g(1,3) sliceOf_prefix by blast
  moreover have "\<exists>L. (s, vr_term req - 1, L) \<in> past y \<and> asksWith req L" if "(s, req) \<in> preparedVotes c" for s req
    using m(1) [OF that] g(7) by blast
  moreover have "\<exists>Lv. (s, t, d, Lv) \<in> votes y" if "(s, t, d) \<in> voteGrants c" for s t d using m(3) [OF that] g(8) by blast
  moreover have "\<exists>L. (s, t, L) \<in> ackd y \<and> k = int (length L)" if "(s, t, k) \<in> acknowledgements c" for s t k using m(5) [OF that] g(10) by blast
  ultimately show ?thesis using m(2,4) unfolding messagesRel_def by simp
qed

lemma trackerRel_grows: "trackerRel ns s T ct x \<Longrightarrow> grows x y \<Longrightarrow> trackerRel ns s T ct y"
  using growsD(10) unfolding trackerRel_def by blast

lemma ownVotes_step: "spec_step ns x y \<Longrightarrow> ownVotes x \<Longrightarrow> ownVotes y"
  by (induction rule: raft_step.induct) (fastforce simp: ownVotes_def split: if_splits)+

lemma ownVotes_run: "(spec_step ns)\<^sup>*\<^sup>* x y \<Longrightarrow> ownVotes x \<Longrightarrow> ownVotes y"
  by (induction rule: rtranclp_induct) (auto intro: ownVotes_step)

text \<open>The steps from \<open>x\<close> to \<open>y\<close> are those of the node \<open>s\<close>.\<close>

definition acts :: "raft_server \<Rightarrow> cluster_spec \<Rightarrow> cluster_spec \<Rightarrow> bool" where
  "acts s x y \<longleftrightarrow> (\<forall>v. v \<noteq> s \<longrightarrow> cur y v = cur x v \<and> slog y v = slog x v
     \<and> (\<forall>T d Lv. (v, T, d, Lv) \<in> votes y \<longrightarrow> (v, T, d, Lv) \<in> votes x) \<and> (\<forall>T. (v, T) \<in> followed y \<longrightarrow> (v, T) \<in> followed x)
     \<and> (\<forall>T. leaderOf y T = Some v \<longrightarrow> leaderOf x T = Some v) \<and> (\<forall>T. leaderOf x T = Some v \<longrightarrow> leaderLog y T = leaderLog x T))"

lemma nodeRel_other:
  assumes "nodeRel api v n x" "acts s x y" "grows x y" "v \<noteq> s"
  shows "nodeRel api v n y"
proof -
  note a = nodeRelD [OF assms(1)] and g = growsD [OF assms(3)]
  have v: "cur y v = cur x v" "slog y v = slog x v" "(v, T, d, Lv) \<in> votes y \<Longrightarrow> (v, T, d, Lv) \<in> votes x"
    "(v, T) \<in> followed y \<Longrightarrow> (v, T) \<in> followed x" "leaderOf y T = Some v \<Longrightarrow> leaderOf x T = Some v"
    "leaderOf x T = Some v \<Longrightarrow> leaderLog y T = leaderLog x T" for T d Lv
    using assms(2,4) unfolding acts_def by blast+
  have "claims y v (n_term n) \<noteq> None \<and> leaderOf y (n_term n) \<noteq> Some v" if "n_status n = CANDIDATE"
    using a(7) [OF that] g(6) v(5) by blast
  moreover have "leaderOf y (n_term n) = Some v \<and> slog y v = leaderLog y (n_term n)" if "n_status n = LEADER"
    using a(8,9) [OF that] g(1) v(2,6) by simp
  ultimately show ?thesis unfolding nodeRel_def using a(1-4) v(1,2) a(5) [OF v(3)] a(6) [OF v(4)] by simp
qed

lemma refines_update:
  assumes r: "refines api ns c x" and run: "(spec_step ns)\<^sup>*\<^sup>* x y" and act: "acts s x y"
    and n: "nodeRel api s n' y" "n_status n' = LEADER \<Longrightarrow> trackerRel ns s (n_term n') (cl_tracker c' s) y"
    and c': "cl_node c' = (cl_node c)(s := n')" "\<And>v. v \<noteq> s \<Longrightarrow> cl_tracker c' v = cl_tracker c v" "messagesRel c' y"
  shows "refines api ns c' y"
proof -
  have inv: "specInv (isQuorum ns) entryTerm y" "grows x y" using run_inv [OF run refinesD(1) [OF r]] by simp_all
  have "nodeRel api v (cl_node c' v) y \<and> (n_status (cl_node c' v) = LEADER \<longrightarrow> trackerRel ns v (n_term (cl_node c' v)) (cl_tracker c' v) y)"
    if v: "v \<in> set ns" for v
  proof (cases "v = s")
    case True
    then show ?thesis using n c'(1) by simp
  next
    case False
    then show ?thesis
      using nodeRel_other [OF refinesD(4) [OF r v] act inv(2)] trackerRel_grows [OF refinesD(5) [OF r v] inv(2)] c'(1,2) by simp
  qed
  then show ?thesis using inv(1) ownVotes_run [OF run refinesD(2) [OF r]] c'(3) unfolding refines_def by blast
qed

lemma setNode_simps [simp]:
  "cl_node (setNode s n c) = (cl_node c)(s := n)" "cl_tracker (setNode s n c) = cl_tracker c"
  "preparedVotes (setNode s n c) = preparedVotes c" "voteRequests (setNode s n c) = voteRequests c" "voteGrants (setNode s n c) = voteGrants c"
  "appendRequests (setNode s n c) = appendRequests c" "acknowledgements (setNode s n c) = acknowledgements c"
  "setNode s n (setNode s m c) = setNode s n c"
  by (simp_all add: setNode_def)

lemma messagesRel_setNode [simp]: "messagesRel (setNode s n c) x = messagesRel c x"
  by (simp add: messagesRel_def)

end
