(* ===== verification/ClusterSimulation.thy ===== *)
theory ClusterSimulation
  imports ClusterRefinement
begin

text \<open>
  Each step of the cluster, as steps of \<open>RaftSpec\<close> that keep \<open>refines\<close>.  Most handlers first observe a
  term and then act on the node that results; the lemmas below are on the second part.
\<close>

subsection \<open>Steps that leave the log alone\<close>

lemma quiet_nodeRel:
  assumes r: "nodeRel api s n x" and inv: "specInv (isQuorum ns) entryTerm x" and q: "quiet api n n'"
  shows "nodeRel api s n' (x\<lparr>cur := (cur x)(s := n_term n')\<rparr>)"
proof -
  note a = nodeRelD [OF r] and V = votesInvD [OF specInvE(3) [OF inv]]
  have safe: "nodeInv api n'" "myself n' = s" "n_term n \<le> n_term n'"
    "n_term n' = n_term n \<Longrightarrow> \<not> serverEmpty (n_votedFor n) \<Longrightarrow> n_votedFor n' = n_votedFor n"
    and st: "n_status n' = n_status n \<and> n_term n' = n_term n \<or> n_status n' = FOLLOWER \<or> n_status n' = SHUTDOWN"
    using q a(2) by (auto simp: quiet_def node_safe_def)
  have same: "n_term n' = n_term n" if "n_term n' \<le> cur x s" using that safe(3) a(3) by simp
  have "couples api (journal n') (slog x s)"
    by (rule couples_same [OF a(4)]) (use q in \<open>auto simp: quiet_def\<close>)
  moreover have "n_votedFor n' = d \<and> \<not> serverEmpty d" if "(s, n_term n', d, Lv) \<in> votes x" for d Lv
    using V(1) [OF that] same a(5) [of d Lv] that safe(4) by auto
  moreover have "\<not> serverEmpty (n_votedFor n')" if "(s, n_term n') \<in> followed x"
    using V(3) [OF that] same a(6) that safe(4) by auto
  moreover have "claims x s (n_term n') \<noteq> None \<and> leaderOf x (n_term n') \<noteq> Some s" if "n_status n' = CANDIDATE"
    using st that a(7) by auto
  moreover have "leaderOf x (n_term n') = Some s \<and> slog x s = leaderLog x (n_term n')" if "n_status n' = LEADER"
    using st that a(8,9) by auto
  ultimately show ?thesis using safe(1,2) unfolding nodeRel_def by simp
qed

lemma quiet_refines:
  assumes r: "refines api ns c x" and s: "s \<in> set ns" and q: "quiet api (cl_node c s) n'"
  shows "\<exists>y. (spec_step ns)\<^sup>*\<^sup>* x y \<and> refines api ns (setNode s n' c) y"
proof -
  let ?n = "cl_node c s" and ?y = "x\<lparr>cur := (cur x)(s := n_term n')\<rparr>"
  note rel = refinesD(4) [OF r s]
  have "cur x s \<le> n_term n'" using nodeRelD(3) [OF rel] q by (simp add: quiet_def node_safe_def)
  then have step: "spec_step ns x ?y" by (rule raft_step.advance)
  have g: "grows x ?y" by (rule step_grows [OF step])
  have "refines api ns (setNode s n' c) ?y"
  proof (rule refines_update [OF r r_into_rtranclp [of "spec_step ns", OF step]])
    show "acts s x ?y" by (simp add: acts_def)
    show "nodeRel api s n' ?y" by (rule quiet_nodeRel [OF rel refinesD(1) [OF r] q])
    show "messagesRel (setNode s n' c) ?y" using messagesRel_grows [OF refinesD(3) [OF r] g] by simp
    assume "n_status n' = LEADER"
    then have "n_status ?n = LEADER" "n_term n' = n_term ?n" using q by (auto simp: quiet_def)
    then show "trackerRel ns s (n_term n') (cl_tracker (setNode s n' c) s) ?y"
      using trackerRel_grows [OF refinesD(5) [OF r s] g] by simp
  qed simp_all
  with step show ?thesis by blast
qed

text \<open>A message that leaves the nodes as they are.\<close>

lemma message_refines:
  assumes r: "refines api ns c x" and run: "(spec_step ns)\<^sup>*\<^sup>* x y" and act: "\<And>s. acts s x y" and s: "s \<in> set ns"
    and same: "cur y s = cur x s" "slog y s = slog x s" "votes y = votes x" "followed y = followed x" "claims y = claims x"
      "leaderOf y = leaderOf x" "leaderLog y = leaderLog x"
    and c': "cl_node c' = cl_node c" "cl_tracker c' = cl_tracker c" "messagesRel c' y"
  shows "refines api ns c' y"
proof (rule refines_update [OF r run act, where s = s and n' = "cl_node c s"])
  show "nodeRel api s (cl_node c s) y" using refinesD(4) [OF r s] same unfolding nodeRel_def by simp
  have "grows x y" using run_inv [OF run refinesD(1) [OF r]] by simp
  then show "trackerRel ns s (n_term (cl_node c s)) (cl_tracker c' s) y" if "n_status (cl_node c s) = LEADER"
    using trackerRel_grows [OF refinesD(5) [OF r s that]] c'(2) by simp
qed (use c' in simp_all)

subsection \<open>Elections\<close>

lemma prepare_refines:
  assumes r: "refines api ns c x" and s: "s \<in> set ns" and p: "prepareVote api (cl_node c s) = Some req"
  shows "\<exists>y. (spec_step ns)\<^sup>*\<^sup>* x y \<and> refines api ns (c\<lparr>preparedVotes := insert (s, req) (preparedVotes c)\<rparr>) y"
proof -
  let ?n = "cl_node c s" and ?y = "x\<lparr>past := insert (s, cur x s, slog x s) (past x)\<rparr>"
  note rel = nodeRelD [OF refinesD(4) [OF r s]]
  note J = nodeInvD(1) [OF rel(1)]
  have step: "spec_step ns x ?y" by (rule raft_step.prepare)
  note l = couples_last [OF rel(4) J]
  obtain e where e: "fetch_or_die api (journal ?n) (logSize (journal ?n) - 1) = Some e"
      "req = \<lparr>vr_term = n_term ?n + 1, candidate = noServer, lastIndex = logSize (journal ?n) - 1, lastTerm = entryTerm e\<rparr>"
    using p by (auto simp: prepareVote_def Option.bind_eq_Some_conv)
  obtain e' where e': "fetch api (journal ?n) (logSize (journal ?n) - 1) = Some (Some e')" "entryTerm e' = termOfLastEntry (journal ?n)"
    by (rule last_entry [OF J])
  have "e = e'" using e(1) e'(1) by (simp add: fetch_or_die_def)
  then have "asksWith req (slog x s)" using e(2) e'(2) l(3) couplesD(1) [OF rel(4)] by (simp add: asksWith_def)
  moreover have "vr_term req - 1 = cur x s" using e(2) rel(3) by simp
  moreover have "messagesRel c ?y" by (rule messagesRel_grows [OF refinesD(3) [OF r] step_grows [OF step]])
  ultimately have m: "messagesRel (c\<lparr>preparedVotes := insert (s, req) (preparedVotes c)\<rparr>) ?y"
    unfolding messagesRel_def by auto
  have "refines api ns (c\<lparr>preparedVotes := insert (s, req) (preparedVotes c)\<rparr>) ?y"
    by (rule message_refines [OF r r_into_rtranclp [of "spec_step ns", OF step] _ s]) (use m in \<open>simp_all add: acts_def\<close>)
  with step show ?thesis by blast
qed

text \<open>Taking a vote leaves the log alone.\<close>

lemma takeVote_log:
  assumes inv: "nodeInv api n" and v: "okServer v" "serverEmpty (n_votedFor n)" and u: "updateJournal api (n\<lparr>n_votedFor := v\<rparr>) = Some n'"
  shows "n_status n' = n_status n" "logSize (journal n') = logSize (journal n)" "\<forall>i. entryAt api (journal n') i = entryAt api (journal n) i"
proof -
  note D = nodeInvD [OF inv]
  have "\<exists>j'. updateJournal api (n\<lparr>n_votedFor := v\<rparr>) = Some (n\<lparr>n_votedFor := v, journal := j'\<rparr>)
      \<and> logSize j' = logSize (journal n) \<and> (\<forall>i. entryAt api j' i = entryAt api (journal n) i)"
    using updateJournal_ok [of api "n\<lparr>n_votedFor := v\<rparr>"] D v int64_term [OF D(1)] by auto
  then show "n_status n' = n_status n" "logSize (journal n') = logSize (journal n)" "\<forall>i. entryAt api (journal n') i = entryAt api (journal n) i"
    using u by auto
qed

lemma unclaimed:
  assumes r: "refines api ns c x" and s: "s \<in> set ns" and free: "serverEmpty (n_votedFor (cl_node c s))"
  shows "(s, n_term (cl_node c s), d, Lv) \<notin> votes x" "(s, n_term (cl_node c s)) \<notin> followed x" "claims x s (n_term (cl_node c s)) = None"
proof -
  note rel = nodeRelD [OF refinesD(4) [OF r s]]
  show v: "(s, n_term (cl_node c s), d, Lv) \<notin> votes x" for d Lv using rel(5) free by blast
  show "(s, n_term (cl_node c s)) \<notin> followed x" using rel(6) free by blast
  show "claims x s (n_term (cl_node c s)) = None" using v refinesD(2) [OF r] unfolding ownVotes_def by fastforce
qed

lemma candidate_refines:
  assumes r: "refines api ns c x" and s: "s \<in> set ns" and req: "(s, req) \<in> preparedVotes c" "int64 (vr_term req)"
    and b: "becomeCandidate api (vr_term req) (cl_node c s) = Some (True, n')"
  shows "\<exists>y. (spec_step ns)\<^sup>*\<^sup>* x y \<and> refines api ns ((setNode s n' c)\<lparr>voteRequests := insert (req\<lparr>candidate := s\<rparr>) (voteRequests c)\<rparr>) y"
proof -
  let ?n = "cl_node c s" and ?T = "vr_term req" and ?c = "(setNode s n' c)\<lparr>voteRequests := insert (req\<lparr>candidate := s\<rparr>) (voteRequests c)\<rparr>"
  note rel = nodeRelD [OF refinesD(4) [OF r s]]
  have free: "serverEmpty (n_votedFor ?n)" and T: "n_term ?n = ?T" "n_term n' = ?T" and n': "n_status n' = CANDIDATE" "n_votedFor n' = s"
    and safe: "nodeInv api n'" "myself n' = s"
    using becomeCandidate_ok [OF rel(1), of ?T] b rel(2) by (auto simp: node_safe_def)
  have okS: "okServer s" using nodeInvD(2) [OF rel(1)] rel(2) by simp
  obtain m where m: "updateJournal api (?n\<lparr>n_votedFor := s\<rparr>) = Some m" "n' = updateStatus CANDIDATE m"
    using b rel(2) by (auto simp: becomeCandidate_def Option.bind_eq_Some_conv split: if_splits)
  note j = takeVote_log [OF rel(1) okS free m(1)]
  note none = unclaimed [OF r s free, unfolded T]
  from messagesRelD(1) [OF refinesD(3) [OF r] req(1)] obtain L where L: "(s, ?T - 1, L) \<in> past x" "asksWith req L" by blast
  let ?y = "x\<lparr>cur := (cur x)(s := ?T), claims := (claims x)(s := (claims x s)(?T \<mapsto> L)),
      votes := insert (s, ?T, s, slog x s) (votes x), past := insert (s, ?T, slog x s) (past x)\<rparr>"
  have step: "spec_step ns x ?y"
    by (rule raft_step.campaign [OF L(1)]) (use none rel(3) T in simp_all)
  have "messagesRel c ?y" by (rule messagesRel_grows [OF refinesD(3) [OF r] step_grows [OF step]])
  moreover have "asksWith (req\<lparr>candidate := s\<rparr>) L" using L(2) by (simp add: asksWith_def)
  ultimately have msg: "messagesRel ?c ?y" using okS req(2) unfolding messagesRel_def by simp
  have unled: "leaderOf x ?T \<noteq> Some s" using leadersInvD(7) [OF specInvE(2) [OF refinesD(1) [OF r]]] none(3) by blast
  have "refines api ns ?c ?y"
  proof (rule refines_update [OF r r_into_rtranclp [of "spec_step ns", OF step]])
    show "acts s x ?y" by (simp add: acts_def)
    have "couples api (journal n') (slog x s)" by (rule couples_same [OF rel(4)]) (use j m(2) in simp_all)
    then show "nodeRel api s n' ?y" using safe T(2) n' okS none unled unfolding nodeRel_def by auto
  qed (use msg n' in simp_all)
  with step show ?thesis by blast
qed

text \<open>A vote is refused by a node that has only observed a term, or granted.\<close>

lemma requestVote_outcome:
  assumes inv: "nodeInv api n" and req: "int64 (vr_term req)" "okServer (candidate req)"
    and run: "requestVote api now req False n hb = Some (ans, n', hb')"
  shows "vresp_vote ans \<noteq> GRANTED \<and> quiet api n n'
    \<or> vresp_vote ans = GRANTED \<and> candidate req \<noteq> myself n
      \<and> (\<exists>m. quiet api n m \<and> candidateUpToDate req (journal m) \<and> grantVote api (vr_term req) (candidate req) m = Some (True, n'))"
proof -
  have me: "candidate req \<noteq> myself n" using run by (auto simp: requestVote_def assert_that_def split: if_splits)
  show ?thesis
  proof (cases "candidate req \<notin> set (nodes (members (journal n))) \<and> \<not> serverEmpty (n_leader n)")
    case True
    with run me have "ans = \<lparr>vresp_term = n_term n, vresp_vote = VETO\<rparr>" "n' = n" by (auto simp: requestVote_def)
    with inv show ?thesis by (simp add: quiet_refl)
  next
    case outsider: False
    obtain b0 m where o: "observed api (vr_term req) noServer n = Some (b0, m)"
      using observed_ok [OF inv req(1), of noServer] by auto
    have q: "quiet api n m" by (rule observed_quiet [OF inv req(1) okVote_simps(1) o])
    have invm: "nodeInv api m" using quiet_inv [OF q] by simp
    note J = nodeInvD(1) [OF invm]
    obtain b k where g: "grantVote api (vr_term req) (candidate req) m = Some (b, k)" "\<not> b \<longrightarrow> k = m"
      using grantVote_ok [OF invm req(2), of "vr_term req"] by (metis (full_types))
    have "n' = m \<and> vresp_vote ans \<noteq> GRANTED \<or> n' = k \<and> \<not> b \<and> vresp_vote ans = REFUSED
       \<or> n' = k \<and> b \<and> vresp_vote ans = GRANTED \<and> candidateUpToDate req (journal m)"
      using run me outsider o g(1) vetoCheck_ok [OF J, of req] moreUpToDate_ok [OF J, of req]
      by (auto simp: requestVote_def assert_that_def Let_def split: if_splits)
    then show ?thesis using q g me by auto
  qed
qed

lemma grant_refines:
  assumes r: "refines api ns c x" and s: "s \<in> set ns" and req: "req \<in> voteRequests c" "candidate req \<noteq> s"
    and up: "candidateUpToDate req (journal (cl_node c s))" and g: "grantVote api (vr_term req) (candidate req) (cl_node c s) = Some (True, n')"
  shows "\<exists>y. (spec_step ns)\<^sup>*\<^sup>* x y \<and> refines api ns ((setNode s n' c)\<lparr>voteGrants := insert (s, vr_term req, candidate req) (voteGrants c)\<rparr>) y"
proof -
  let ?n = "cl_node c s" and ?T = "vr_term req" and ?d = "candidate req"
    and ?c = "(setNode s n' c)\<lparr>voteGrants := insert (s, vr_term req, candidate req) (voteGrants c)\<rparr>"
  note rel = nodeRelD [OF refinesD(4) [OF r s]]
  from messagesRelD(2) [OF refinesD(3) [OF r] req(1)] obtain L where
    L: "okServer ?d" "claims x ?d ?T = Some L" "asksWith req L" by blast
  have free: "serverEmpty (n_votedFor ?n)" and T: "n_term ?n = ?T" "n_term n' = ?T" and n': "n_votedFor n' = ?d"
    and safe: "nodeInv api n'" "myself n' = s"
    and j: "logSize (journal n') = logSize (journal ?n)" "\<forall>i. entryAt api (journal n') i = entryAt api (journal ?n) i"
    using grantVote_ok [OF rel(1) L(1), of ?T] g rel(2) by (auto simp: node_safe_def)
  have st: "n_status n' = FOLLOWER"
    using g by (auto simp: grantVote_def updateJournal_def Option.bind_eq_Some_conv split: if_splits)
  note none = unclaimed [OF r s free, unfolded T]
  note l = couples_last [OF rel(4) nodeInvD(1) [OF rel(1)]]
  have "moreRecent entryTerm L (slog x s)"
    using up L(3) l(3) couplesD(1) [OF rel(4)] by (auto simp: candidateUpToDate_def asksWith_def moreRecent_def)
  then have step: "spec_step ns x (x\<lparr>cur := (cur x)(s := ?T), votes := insert (s, ?T, ?d, slog x s) (votes x)\<rparr>)" (is "raft_step _ _ x ?y")
    by (intro raft_step.vote [where L = L]) (use none L(2) req(2) rel(3) T in auto)
  have "messagesRel c ?y" by (rule messagesRel_grows [OF refinesD(3) [OF r] step_grows [OF step]])
  then have msg: "messagesRel ?c ?y" unfolding messagesRel_def by auto
  have "refines api ns ?c ?y"
  proof (rule refines_update [OF r r_into_rtranclp [of "spec_step ns", OF step]])
    show "acts s x ?y" by (simp add: acts_def)
    have "couples api (journal n') (slog x s)" by (rule couples_same [OF rel(4)]) (use j in simp_all)
    then show "nodeRel api s n' ?y" using safe T(2) n' st L(1) none unfolding nodeRel_def by auto
  qed (use msg st in simp_all)
  with step show ?thesis by blast
qed

lemma elected_quorum:
  assumes reg: "registerReplies replies (voters s ns) (newRegistry t False) = Some reg" "determineOutcome reg = kElected"
    and ns: "distinct ns" "s \<in> set ns" and P: "P s" "\<And>v. v \<in> set ns - {s} \<Longrightarrow> repliedWith replies GRANTED v \<Longrightarrow> P v"
  shows "isQuorum ns {v. P v}"
proof -
  let ?Q = "insert s (answered GRANTED reg)"
  from fresh_replies [of replies s ns t False] reg(1) have
    r: "registryInv reg" "\<not> vr_preVote reg" "set (contacted reg) = set ns - {s}" "answered GRANTED reg = {v \<in> set ns - {s}. repliedWith replies GRANTED v}"
    by auto
  then have "isQuorum (s # contacted reg) ?Q" using determineOutcome_ok [OF r(1,2), of s] reg(2) by (simp split: if_splits)
  moreover have "distinct (s # contacted reg)" using r by (simp add: registryInv_def contacted_def)
  then have "length (s # contacted reg) = length ns"
    using ns r(3) distinct_card [of "s # contacted reg"] distinct_card [of ns] by (simp add: insert_absorb)
  moreover have "card (?Q \<inter> set ns) \<le> card ({v. P v} \<inter> set ns)" using r(4) P by (intro card_mono) auto
  moreover have "set (s # contacted reg) = set ns" using r(3) ns(2) by auto
  ultimately show ?thesis unfolding isQuorum_def by (metis le_trans)
qed

lemma exceptMyself_filter: "exceptMyself me k ss = Some (rs, m) \<Longrightarrow> rs = filter (\<lambda>s. s \<noteq> me) ss"
  by (induction ss arbitrary: k rs m) (auto simp: Option.bind_eq_Some_conv assert_that_def split: if_splits)

lemma fold_getHandler_empty:
  "t \<in> set ts \<Longrightarrow> regs t = None \<Longrightarrow> fold getHandlerInternal ts regs t = Some 0"
proof (induction ts arbitrary: regs)
  case (Cons u ts)
  show ?case
  proof (cases "u = t")
    case True
    then have "getHandlerInternal u regs t = Some 0" using Cons.prems by (simp add: getHandlerInternal_def)
    then show ?thesis using fold_getHandler(2) [of "getHandlerInternal u regs" t 0 ts] by simp
  next
    case False
    then show ?thesis using Cons by (simp add: getHandlerInternal_def)
  qed
qed simp

lemma freshTracker_rel:
  assumes "freshTracker ns s ct0 = Some ct" "distinct ns"
  shows "trackerRel ns s T ct x"
proof -
  from assms(1) obtain ts where ts: "all_servers_except_myself ns s = Some ts" "ct_updateTargets ts (ct_reset ct0) = Some ct"
    by (auto simp: freshTracker_def Option.bind_eq_Some_conv)
  have f: "ts = filter (\<lambda>v. v \<noteq> s) ns" using ts(1) exceptMyself_filter
    by (auto simp: all_servers_except_myself_def Option.bind_eq_Some_conv assert_that_def split: if_splits)
  then have d: "distinct ts" "set ts = set ns - {s}" using assms(2) by auto
  have "trackerInv ct" "ct_targets ct = ts" using ct_updateTargets_ok [OF d(1), of "ct_reset ct0"] ts(2) by auto
  moreover have "ct_registrations ct = fold getHandlerInternal ts Map.empty"
    using ts(2) by (auto simp: ct_updateTargets_def ct_reset_def assert_that_def Let_def split: if_splits)
  ultimately show ?thesis using d(2) fold_getHandler_empty [of _ ts Map.empty] by (simp add: trackerRel_def)
qed

lemma ascend_log:
  assumes inv: "nodeInv api n" and ok: "markerOk n" and a: "ascend api t n = Some (True, n')"
  shows "appended api (leadershipMarkerEntry t (myself n)) (journal n) (journal n')"
proof -
  let ?e = "leadershipMarkerEntry t (myself n)" and ?j = "journal n"
  have t: "t = n_term n" using a by (auto simp: ascend_def split: if_splits)
  have e: "okLogEntry ?e" "int64 (logSize ?j + 1)" using ok t by (simp_all add: markerOk_def)
  obtain ok1 j1 where j1: "j_append api (logSize ?j) ?e True ?j = Some (ok1, j1)" "if ok1 then appended api ?e ?j j1 else j1 = ?j"
    using append_total [OF nodeInvD(1) [OF inv] e(1) marker_memberEntryOk e(2), of True] by blast
  then show ?thesis
    using a by (auto simp: ascend_def appendLeadershipMarker_def Let_def split: if_splits)
qed

lemma ascend_refused:
  assumes "nodeInv api n" "markerOk n" "ascend api t n = Some (False, n')"
  shows "n' = n"
proof -
  from ascend_ok [OF assms(1,2), of t] obtain b k where k: "ascend api t n = Some (b, k)"
      "if b then n_status n = CANDIDATE \<and> n_status k = LEADER \<and> n_term k = t \<and> n_term n = t
            \<and> n_leader k = myself n \<and> n_votedFor k = myself n \<and> serverEmpty (n_leader n)
            \<and> leadershipMarker k = logSize (journal n) \<and> logSize (journal k) = logSize (journal n) + 1
            \<and> entryAt api (journal k) (leadershipMarker k) = Some (leadershipMarkerEntry t (myself n))
       else k = n"
    by (elim exE conjE)
  with assms(3) show ?thesis by (simp split: if_splits)
qed

lemma ascend_refines:
  assumes r: "refines api ns c x" and s: "s \<in> set ns" and ns: "distinct ns"
    and reg: "registerReplies replies (voters s ns) (newRegistry t False) = Some reg" "determineOutcome reg = kElected"
    and grants: "\<forall>v \<in> set ns - {s}. repliedWith replies GRANTED v \<longrightarrow> (v, t, s) \<in> voteGrants c"
    and a: "ascend api t (cl_node c s) = Some (True, n')" "markerOk (cl_node c s)" and ct: "freshTracker ns s ct0 = Some ct"
  shows "\<exists>y. (spec_step ns)\<^sup>*\<^sup>* x y \<and> refines api ns ((setNode s n' c)\<lparr>cl_tracker := (cl_tracker c)(s := ct)\<rparr>) y"
proof -
  let ?n = "cl_node c s" and ?e = "leadershipMarkerEntry t s" and ?c = "(setNode s n' c)\<lparr>cl_tracker := (cl_tracker c)(s := ct)\<rparr>"
  note rel = nodeRelD [OF refinesD(4) [OF r s]] and inv = refinesD(1) [OF r]
  have n: "n_status ?n = CANDIDATE" "n_term ?n = t" and n': "n_status n' = LEADER" "n_term n' = t" "n_votedFor n' = s" and safe: "nodeInv api n'" "myself n' = s"
    using ascend_ok [OF rel(1) a(2), of t] a(1) rel(2) by (auto simp: node_safe_def)
  have log: "appended api ?e (journal ?n) (journal n')" using ascend_log [OF rel(1) a(2,1)] rel(2) by simp
  obtain L where L: "claims x s t = Some L" "leaderOf x t \<noteq> Some s" using rel(7) n by auto
  obtain Lo where own: "(s, t, s, Lo) \<in> votes x" using L(1) refinesD(2) [OF r] unfolding ownVotes_def by blast
  define Q where "Q = {v. \<exists>Lv. (v, t, s, Lv) \<in> votes x}"
  have Q: "isQuorum ns Q" unfolding Q_def
    by (rule elected_quorum [OF reg ns s]) (use own grants messagesRelD(3) [OF refinesD(3) [OF r]] in blast)+
  have free: "leaderOf x t = None"
  proof (cases "leaderOf x t")
    case (Some d)
    from majority.winner_unique [OF inv Some Q, of s] L(2) Some show ?thesis by (auto simp: Q_def)
  qed
  have step: "spec_step ns x (x\<lparr>slog := (slog x)(s := slog x s @ [?e]), leaderOf := (leaderOf x)(t \<mapsto> s),
      baseLog := (baseLog x)(t := slog x s), leaderLog := (leaderLog x)(t := slog x s @ [?e])\<rparr>)" (is "raft_step _ _ x ?y")
    by (rule raft_step.win [where quorum = "isQuorum ns" and L = L and Q = Q]) (use free L(1) Q rel(3) n in \<open>simp_all add: Q_def leadershipMarkerEntry_def\<close>)
  have "messagesRel c ?y" by (rule messagesRel_grows [OF refinesD(3) [OF r] step_grows [OF step]])
  then have msg: "messagesRel ?c ?y" unfolding messagesRel_def by simp
  have "refines api ns ?c ?y"
  proof (rule refines_update [OF r r_into_rtranclp [of "spec_step ns", OF step]])
    show "acts s x ?y" using free by (auto simp: acts_def)
    have "couples api (journal n') (slog x s @ [?e])" by (rule couples_append [OF rel(4) log nodeInvD(1) [OF rel(1)]])
    moreover have "okServer s" using nodeInvD(2) [OF safe(1)] safe(2) by simp
    ultimately show "nodeRel api s n' ?y" using safe n n' rel(3) rel(5) nodeInvD(5) [OF rel(1)] rel(2) unfolding nodeRel_def by auto
    show "trackerRel ns s (n_term n') (cl_tracker ?c s) ?y" using freshTracker_rel [OF ct ns] by simp
  qed (use msg in simp_all)
  with step show ?thesis by blast
qed

lemma elect_refines:
  assumes r: "refines api ns c x" and s: "s \<in> set ns" and ns: "distinct ns"
    and reg: "registerReplies replies (voters s ns) (newRegistry t False) = Some reg" "registryTerms reg" and fits: "markerFits t (cl_node c s)"
    and grants: "\<forall>v \<in> set ns - {s}. repliedWith replies GRANTED v \<longrightarrow> (v, t, s) \<in> voteGrants c"
    and e: "electionClose api tp t reg (cl_node c s) l = Some (outcome, n', l')" and ct: "freshTracker ns s (cl_tracker c s) = Some ct"
  shows "\<exists>y. (spec_step ns)\<^sup>*\<^sup>* x y
    \<and> refines api ns ((setNode s n' c)\<lparr>cl_tracker := (if outcome = kElected then (cl_tracker c)(s := ct) else cl_tracker c)\<rparr>) y"
proof -
  let ?n = "cl_node c s"
  note rel = nodeRelD [OF refinesD(4) [OF r s]]
  from e obtain m l1 where o: "observeTermsAndLeases api tp (vr_contents reg) ?n l = Some (m, l1)"
    by (auto simp: electionClose_def Option.bind_eq_Some_conv)
  have q: "quiet api ?n m" by (rule observeTerms_quiet [OF rel(1) _ o]) (use reg(2) in \<open>simp add: registryTerms_def\<close>)
  then have m: "nodeInv api m" "myself m = s" "logSize (journal m) = logSize (journal ?n)" using quiet_inv [OF q] rel(2) by (simp_all add: quiet_def)
  obtain y where y: "(spec_step ns)\<^sup>*\<^sup>* x y" "refines api ns (setNode s m c) y" using quiet_refines [OF r s q] by blast
  have kept: ?thesis if "outcome \<noteq> kElected" "n' = m"
  proof -
    have same: "(setNode s m c)\<lparr>cl_tracker := cl_tracker c\<rparr> = setNode s m c" by (simp add: setNode_def)
    show ?thesis unfolding if_not_P [OF that(1)] that(2) same using y by blast
  qed
  show ?thesis
  proof (cases "determineOutcome reg = kElected")
    case False
    then have "outcome \<noteq> kElected" "n' = m" using e o by (auto simp: electionClose_def assert_that_def split: if_splits)
    then show ?thesis by (rule kept)
  next
    case True
    with e o obtain ok where a: "ascend api t m = Some (ok, n')" "outcome = (if ok then kElected else kNotElected)"
      by (auto simp: electionClose_def assert_that_def Option.bind_eq_Some_conv split: if_splits)
    show ?thesis
    proof (cases ok)
      case False
      have "n' = m"
      proof (cases "t = n_term m")
        case t: True
        have "markerOk m" using fits t m(2,3) rel(2) by (simp add: markerFits_def markerOk_def)
        with ascend_refused [OF m(1) this] a(1) False show ?thesis by simp
      next
        case False
        then show ?thesis using a(1) by (simp add: ascend_def)
      qed
      moreover have "outcome \<noteq> kElected" using a(2) False by simp
      ultimately show ?thesis using kept by blast
    next
      case ok: True
      then have t: "t = n_term m" using a(1) by (auto simp: ascend_def split: if_splits)
      have mk: "markerOk m" using fits t m(2,3) rel(2) by (simp add: markerFits_def markerOk_def)
      have "\<exists>z. (spec_step ns)\<^sup>*\<^sup>* y z \<and> refines api ns ((setNode s n' (setNode s m c))\<lparr>cl_tracker := (cl_tracker (setNode s m c))(s := ct)\<rparr>) z"
        by (rule ascend_refines [OF y(2) s ns reg(1) True _ _ _ ct]) (use grants a(1) ok mk in simp_all)
      then show ?thesis using y(1) a(2) ok by (auto intro: rtranclp_trans)
    qed
  qed
qed

subsection \<open>Replication\<close>

lemma append_refines:
  assumes r: "refines api ns c x" and s: "s \<in> set ns" and st: "n_status (cl_node c s) = LEADER"
    and e: "entryTerm e = n_term (cl_node c s)" "okLogEntry e" "memberEntryOk (journal (cl_node c s)) e" "int64 (logSize (journal (cl_node c s)) + 1)"
    and a: "j_append api (logSize (journal (cl_node c s))) e False (journal (cl_node c s)) = Some (b, j')"
  shows "\<exists>y. (spec_step ns)\<^sup>*\<^sup>* x y \<and> refines api ns (setNode s ((cl_node c s)\<lparr>journal := j'\<rparr>) c) y"
proof -
  let ?n = "cl_node c s" and ?T = "n_term (cl_node c s)"
  note rel = nodeRelD [OF refinesD(4) [OF r s]] and J = nodeInvD(1) [OF nodeRelD(1) [OF refinesD(4) [OF r s]]]
  from append_total [OF J e(2-4), of False] a have j': "if b then appended api e (journal ?n) j' else j' = journal ?n" by auto
  show ?thesis
  proof (cases b)
    case False
    then have "setNode s (?n\<lparr>journal := j'\<rparr>) c = c" using j' by (simp add: setNode_def)
    then show ?thesis using r by auto
  next
    case True
    then have j: "appended api e (journal ?n) j'" using j' by simp
    have step: "spec_step ns x (x\<lparr>slog := (slog x)(s := slog x s @ [e]), leaderLog := (leaderLog x)(?T := leaderLog x ?T @ [e])\<rparr>)" (is "raft_step _ _ x ?y")
      by (rule raft_step.extend) (use rel(3,8,9) st e(1) in simp_all)
    have safe: "node_safe api ?n (?n\<lparr>journal := j'\<rparr>)"
      by (rule node_safe_journal [OF rel(1) append_safe [OF J j]]) (use j in \<open>simp_all add: appended_def\<close>)
    have g: "grows x ?y" by (rule step_grows [OF step])
    have "refines api ns (setNode s (?n\<lparr>journal := j'\<rparr>) c) ?y"
    proof (rule refines_update [OF r r_into_rtranclp [of "spec_step ns", OF step]])
      show "acts s x ?y" using rel(8) [OF st] by (auto simp: acts_def)
      have "couples api j' (slog x s @ [e])" by (rule couples_append [OF rel(4) j J])
      then show "nodeRel api s (?n\<lparr>journal := j'\<rparr>) ?y"
        using safe rel(2,3,8,9) rel(5,6) st unfolding nodeRel_def node_safe_def by auto
      show "messagesRel (setNode s (?n\<lparr>journal := j'\<rparr>) c) ?y" using messagesRel_grows [OF refinesD(3) [OF r] g] by simp
      show "trackerRel ns s (n_term (?n\<lparr>journal := j'\<rparr>)) (cl_tracker (setNode s (?n\<lparr>journal := j'\<rparr>) c) s) ?y"
        using trackerRel_grows [OF refinesD(5) [OF r s st] g] by simp
    qed simp_all
    with step show ?thesis by blast
  qed
qed

lemma send_refines:
  assumes r: "refines api ns c x" and s: "s \<in> set ns" and st: "n_status (cl_node c s) = LEADER"
    and p: "logStart (journal (cl_node c s)) < p" "p \<le> logSize (journal (cl_node c s))" "0 \<le> limit" "limit \<le> 1024"
    and send: "sendPayload api (getSnapshot (cl_node c s)) p limit (cl_node c s) = Some (Some (msg, size', lastEntryTerm), n')"
      "parseAppendEntries msg = Some (Some req)"
  shows "\<exists>y. (spec_step ns)\<^sup>*\<^sup>* x y \<and> refines api ns (c\<lparr>appendRequests := insert req (appendRequests c)\<rparr>) y"
proof -
  let ?n = "cl_node c s" and ?j = "journal (cl_node c s)" and ?L = "slog x s"
  note rel = nodeRelD [OF refinesD(4) [OF r s]] and J = nodeInvD(1) [OF nodeRelD(1) [OF refinesD(4) [OF r s]]]
  have req: "req = meantRequest api ?n p limit"
    using sendPayload_ok [OF rel(1) _ p, of "getSnapshot ?n"] send by (auto simp: getSnapshot_def)
  let ?m = "payloadLength ?j p limit"
  have m: "int ?m \<le> logSize ?j - p" using p by (simp add: payloadLength_def)
  have b: "0 \<le> logStart ?j" using journalInvD(3) [OF J] by (simp add: bounds_def)
  have at: "entryAt api ?j i = Some (?L ! nat i)" "0 \<le> i" "nat i < length ?L" if "logStart ?j \<le> i" "i < logSize ?j" for i
    using couples_present [OF rel(4) J that] by simp_all
  have "?L ! (nat (p - 1) + 1 + q) = the (entryAt api ?j (p + int q))" if "q < ?m" for q
  proof -
    have "nat (p + int q) = nat (p - 1) + 1 + q" using b p(1) by (simp add: nat_add_distrib nat_diff_distrib)
    then show ?thesis using at(1) [of "p + int q"] that m p(1) by simp
  qed
  moreover have "entryTerm (?L ! nat (p - 1)) = entryTerm (the (entryAt api ?j (p - 1)))" using at(1) [of "p - 1"] p by simp
  moreover have "nat (p - 1) + 1 + ?m \<le> length ?L" using m couplesD(1) [OF rel(4)] b p(1) by linarith
  ultimately have "sliceOf ?L req" using b p(1) unfolding sliceOf_def req meantRequest_def by simp
  then have "sliceOf (leaderLog x (ae_term req)) req" "leaderOf x (ae_term req) = Some (ae_leader req)"
    using rel(2,8,9) st by (simp_all add: req meantRequest_def)
  moreover have "int64 (ae_term req)" "okServer (ae_leader req)"
    using int64_term [OF J] nodeInvD(2,3) [OF rel(1)] by (simp_all add: req meantRequest_def)
  ultimately have "messagesRel (c\<lparr>appendRequests := insert req (appendRequests c)\<rparr>) x"
    using refinesD(3) [OF r] unfolding messagesRel_def by simp
  then have "refines api ns (c\<lparr>appendRequests := insert req (appendRequests c)\<rparr>) x" using r unfolding refines_def by simp
  then show ?thesis by blast
qed

lemma follow_refines:
  assumes r: "refines api ns c x" and s: "s \<in> set ns" and req: "req \<in> appendRequests c" "ae_leader req \<noteq> s" "requestOk api req (journal (cl_node c s))"
    and n: "n_term (cl_node c s) = ae_term req" "n_leader (cl_node c s) = ae_leader req"
    and a: "applyEntries api appl t req (journal (cl_node c s)) = Some (ans, j)"
  shows "\<exists>y. (spec_step ns)\<^sup>*\<^sup>* x y \<and> refines api ns ((setNode s ((cl_node c s)\<lparr>journal := j\<rparr>) c)\<lparr>acknowledgements :=
    (if countedAck req ans then insert (s, ae_term req, aer_logSize ans) (acknowledgements c) else acknowledgements c)\<rparr>) y"
proof -
  let ?n = "cl_node c s" and ?T = "ae_term req" and ?L = "slog x s" and ?n' = "(cl_node c s)\<lparr>journal := j\<rparr>"
  note rel = nodeRelD [OF refinesD(4) [OF r s]] and I = specInvE [OF refinesD(1) [OF r]]
  from messagesRelD(4) [OF refinesD(3) [OF r] req(1)] have
    ldr: "okServer (ae_leader req)" "leaderOf x ?T = Some (ae_leader req)" "sliceOf (leaderLog x ?T) req" by simp_all
  note m = logsInvD(1) [OF I(1), of s] and M = leadersInvD(2) [OF I(2) ldr(2)]
  from applyEntries_log [OF req(3) rel(4) a] obtain L' where L': "couples api j L'"
    "L' = ?L \<and> \<not> aer_outcome ans \<or> nat (prevIndex req) < length ?L \<and> entryTerm (?L ! nat (prevIndex req)) = prevTerm req
       \<and> replacedBy ?L (nat (prevIndex req) + 1) (entries req) L' (aer_outcome ans)"
    by blast
  have f: "follows ?L (leaderLog x ?T) L'" using L'(2) replaced_follows(1) [OF m M ldr(3)] by (auto simp: follows_def)
  let ?y = "x\<lparr>cur := (cur x)(s := ?T), slog := (slog x)(s := L'), followed := insert (s, ?T) (followed x)\<rparr>"
  have step: "spec_step ns x ?y" by (rule raft_step.follow [OF ldr(2) _ _ f]) (use req(2) rel(3) n in auto)
  note inv = step_inv [OF step refinesD(1) [OF r]]
  have safe: "node_safe api ?n ?n'" and sz: "aer_logSize ans = logSize j"
    using applyEntries_ok [OF req(3) a] node_safe_journal [OF rel(1)] by simp_all
  have blocked: "\<not> serverEmpty (n_votedFor ?n)" using nodeInvD(9) [OF rel(1)] n(2) ldr(1) by simp
  have nl: "n_status ?n \<noteq> LEADER" using rel(8) n(1) ldr(2) req(2) by auto
  have node: "nodeRel api s ?n' y" if "votes y = votes x" "followed y = insert (s, ?T) (followed x)" "claims y = claims x" "leaderOf y = leaderOf x"
      "cur y s = ?T" "slog y s = L'" for y
    using that safe L'(1) rel(2,5,7) n(1) blocked nl unfolding nodeRel_def node_safe_def by auto
  have new: "refines api ns c' y" if y: "(spec_step ns)\<^sup>*\<^sup>* x y" "acts s x y" "nodeRel api s ?n' y"
      "cl_node c' = (cl_node c)(s := ?n')" "cl_tracker c' = cl_tracker c" "messagesRel c' y" for c' y
    by (rule refines_update [OF r y(1-3)]) (use y(4-6) nl in simp_all)
  have msg: "messagesRel c ?y" by (rule messagesRel_grows [OF refinesD(3) [OF r] step_grows [OF step]])
  show ?thesis
  proof (cases "countedAck req ans")
    case False
    have "refines api ns ((setNode s ?n' c)\<lparr>acknowledgements := acknowledgements c\<rparr>) ?y"
      by (rule new [OF r_into_rtranclp [of "spec_step ns", OF step] _ node])
        (use msg in \<open>simp_all add: acts_def messagesRel_def\<close>)
    then show ?thesis using step False by auto
  next
    case True
    then have t: "aer_outcome ans" "entries req \<noteq> []" "entryTerm (last (entries req)) = ?T" by (simp_all add: countedAck_def)
    let ?k = "nat (prevIndex req) + 1 + length (entries req)" and ?M = "leaderLog x ?T"
    have "prefix (take ?k ?M) L'" using L'(2) t(1) replaced_follows(2) [OF m M ldr(3)] by blast
    moreover have k: "?k \<le> length ?M" "?M ! (?k - 1) = last (entries req)"
    proof -
      have q: "length (entries req) - 1 < length (entries req)" "nat (prevIndex req) + 1 + (length (entries req) - 1) = ?k - 1"
        using t(2) by (simp_all add: Suc_le_eq)
      have "\<forall>q < length (entries req). ?M ! (nat (prevIndex req) + 1 + q) = entries req ! q" using ldr(3) by (simp add: sliceOf_def)
      from this [rule_format, OF q(1)] show "?M ! (?k - 1) = last (entries req)" unfolding q(2) by (simp add: last_conv_nth t(2))
      show "?k \<le> length ?M" using ldr(3) by (simp add: sliceOf_def)
    qed
    moreover have "?M ! (?k - 1) \<in> set (take ?k ?M)" using k(1) by (auto simp: in_set_conv_nth intro!: exI [of _ "?k - 1"])
    ultimately have "last (entries req) \<in> set L'" by (metis set_mono_prefix subsetD)
    then have "?T \<le> entryTerm (last L')" using matching_last [OF logsInvD(1) [OF specInvE(1) [OF inv], of s]] t(3) by fastforce
    moreover have "entryTerm (last L') \<le> ?T" using logsInvD(3) [OF specInvE(1) [OF inv], of s] by simp
    ultimately have "spec_step ns ?y (?y\<lparr>ackd := insert (s, ?T, slog ?y s) (ackd ?y)\<rparr>)"
      by (intro raft_step.ack [where c = "ae_leader req"]) (use ldr(2) in simp_all)
    then have run: "(spec_step ns)\<^sup>*\<^sup>* x (?y\<lparr>ackd := insert (s, ?T, L') (ackd x)\<rparr>)" using step by simp
    let ?z = "?y\<lparr>ackd := insert (s, ?T, L') (ackd x)\<rparr>"
    have "refines api ns ((setNode s ?n' c)\<lparr>acknowledgements := insert (s, ?T, aer_logSize ans) (acknowledgements c)\<rparr>) ?z"
    proof (rule new [OF run _ node])
      have "aer_logSize ans = int (length L')" using sz couplesD(1) [OF L'(1)] by simp
      then have "\<exists>L. (v, t, L) \<in> ackd ?z \<and> m = int (length L)" if "(v, t, m) \<in> insert (s, ?T, aer_logSize ans) (acknowledgements c)" for v t m
        using that messagesRelD(5) [OF msg, of v t m] by auto
      then show "messagesRel ((setNode s ?n' c)\<lparr>acknowledgements := insert (s, ?T, aer_logSize ans) (acknowledgements c)\<rparr>) ?z"
        using msg unfolding messagesRel_def by simp
    qed (simp_all add: acts_def)
    then show ?thesis using run True by auto
  qed
qed

lemma deliver_refines:
  assumes r: "refines api ns c x" and s: "s \<in> set ns" and req: "req \<in> appendRequests c" "ae_leader req \<noteq> s" "requestOk api req (journal (cl_node c s))"
    and a: "appendEntries api now appl req (cl_node c s) hb = Some (ans, n', hb')"
  shows "\<exists>y. (spec_step ns)\<^sup>*\<^sup>* x y \<and> refines api ns ((setNode s n' c)\<lparr>acknowledgements :=
    (if countedAck req ans then insert (s, ae_term req, aer_logSize ans) (acknowledgements c) else acknowledgements c)\<rparr>) y"
proof -
  let ?n = "cl_node c s" and ?h = "\<lparr>hb_term = ae_term req, hb_leader = ae_leader req\<rparr>"
  note rel = nodeRelD [OF refinesD(4) [OF r s]]
  have ok: "int64 (ae_term req)" "okServer (ae_leader req)" using messagesRelD(4) [OF refinesD(3) [OF r] req(1)] by simp_all
  from a obtain b m hb1 where h: "heartbeat api now ?h ?n hb = Some (b, m, hb1)"
    by (auto simp: appendEntries_def Option.bind_eq_Some_conv)
  have q: "quiet api ?n m" by (rule heartbeat_quiet [OF rel(1) _ _ h]) (use ok in simp_all)
  have m: "node_safe api ?n m" "commitIndex (journal m) = commitIndex (journal ?n)" "sameMembership api (journal ?n) (journal m)"
    "nodeRecognizedAsLeader b \<longrightarrow> n_term m = ae_term req \<and> n_leader m = ae_leader req"
    using heartbeat_ok [OF rel(1) _ _ h] ok by simp_all
  have okm: "requestOk api req (journal m)" using req(3) m(1-3) by (rule requestOk_same)
  obtain y where y: "(spec_step ns)\<^sup>*\<^sup>* x y" "refines api ns (setNode s m c) y" using quiet_refines [OF r s q] by blast
  show ?thesis
  proof (cases "nodeRecognizedAsLeader b")
    case False
    with a h have n': "n' = m" "\<not> countedAck req ans" by (auto simp: appendEntries_def countedAck_def)
    have same: "(setNode s m c)\<lparr>acknowledgements := acknowledgements c\<rparr> = setNode s m c" by (simp add: setNode_def)
    show ?thesis unfolding if_not_P [OF n'(2)] n'(1) same using y by blast
  next
    case True
    with a h obtain j where j: "applyEntries api appl (n_term m) req (journal m) = Some (ans, j)" "n' = m\<lparr>journal := j\<rparr>"
      by (auto simp: appendEntries_def Option.bind_eq_Some_conv)
    have "\<exists>z. (spec_step ns)\<^sup>*\<^sup>* y z \<and> refines api ns ((setNode s ((cl_node (setNode s m c) s)\<lparr>journal := j\<rparr>) (setNode s m c))\<lparr>acknowledgements :=
      (if countedAck req ans then insert (s, ae_term req, aer_logSize ans) (acknowledgements (setNode s m c)) else acknowledgements (setNode s m c))\<rparr>) z"
      by (rule follow_refines [OF y(2) s _ req(2)]) (use req(1) okm True m(4) j(1) in simp_all)
    then show ?thesis using y(1) j(2) by (auto intro: rtranclp_trans)
  qed
qed

subsection \<open>Commits\<close>

lemma isQuorum_same: "distinct xs \<Longrightarrow> distinct ys \<Longrightarrow> set xs = set ys \<Longrightarrow> isQuorum xs Q = isQuorum ys Q"
  unfolding isQuorum_def by (metis distinct_card)

text \<open>Recalculating the commit index changes nothing else, and sets it to one of the match indexes.\<close>

lemma recalculate_step:
  assumes ct: "trackerInv ct" and j: "journalInv api j" and top: "\<forall>t \<in> set (ct_targets ct). the (ct_registrations ct t) < logSize j"
    and run: "recalculateCommitIndex api ct j = Some (ct', j')"
  shows "ct_targets ct' = ct_targets ct" "ct_registrations ct' = ct_registrations ct" "trackerInv ct'"
    "journal_safe api j j'" "logSize j' = logSize j" "currentTerm j' = currentTerm j" "votedFor j' = votedFor j"
    "\<forall>i. entryAt api j' i = entryAt api j i" "commitIndex j' \<in> insert (commitIndex j) (set (matchIndexes ct))"
proof -
  let ?c = "sort (matchIndexes ct) ! (length (matchIndexes ct) + 1 - ct_quorumSize ct)"
  have safe: "journal_safe api j j" by (rule journal_safe_refl [OF j])
  have "ct_targets ct' = ct_targets ct \<and> ct_registrations ct' = ct_registrations ct \<and> ct_quorumSize ct' = ct_quorumSize ct
    \<and> journal_safe api j j' \<and> logSize j' = logSize j \<and> currentTerm j' = currentTerm j \<and> votedFor j' = votedFor j
    \<and> (\<forall>i. entryAt api j' i = entryAt api j i) \<and> commitIndex j' \<in> insert (commitIndex j) (set (matchIndexes ct))"
  proof (cases "ct_targets ct = []")
    case True
    then show ?thesis using run safe by (simp add: recalculateCommitIndex_def)
  next
    case False
    have "2 \<le> ct_quorumSize ct" "ct_quorumSize ct \<le> length (matchIndexes ct) + 1"
      using False ct quorum_index_bounds [of "length (ct_targets ct)"] by (simp_all add: trackerInv_def matchIndexes_def)
    then have "length (matchIndexes ct) + 1 - ct_quorumSize ct < length (sort (matchIndexes ct))" by simp
    then have c: "?c \<in> set (matchIndexes ct)" using nth_mem by (metis set_sort)
    then have "?c < logSize j" using top by (auto simp: matchIndexes_def)
    from setCommitIndex_step [OF j this] obtain b k where
      k: "setCommitIndex api ?c j = Some (b, k)" "journal_safe api j k" "logSize k = logSize j" "currentTerm k = currentTerm j" "votedFor k = votedFor j"
        "commitIndex k = max (commitIndex j) ?c" "\<forall>i. entryAt api k i = entryAt api j i"
      by blast
    have u: "updateCommitIndex api ?c ct j = Some (ct', j')" using run False by (simp add: recalculateCommitIndex_def)
    show ?thesis
    proof (cases "?c < commitIndex j")
      case True
      then show ?thesis using u safe by (auto simp: updateCommitIndex_def)
    next
      case False
      then have "j' = k" "ct' = ct\<lparr>commitIndexLagging := False, ct_commitIndex := ?c\<rparr>" using u k(1) by (simp_all add: updateCommitIndex_def)
      then show ?thesis using k c by (simp add: max_def)
    qed
  qed
  then show "ct_targets ct' = ct_targets ct" "ct_registrations ct' = ct_registrations ct" "trackerInv ct'"
    "journal_safe api j j'" "logSize j' = logSize j" "currentTerm j' = currentTerm j" "votedFor j' = votedFor j"
    "\<forall>i. entryAt api j' i = entryAt api j i" "commitIndex j' \<in> insert (commitIndex j) (set (matchIndexes ct))"
    using ct by (auto simp: trackerInv_def)
qed

text \<open>An index that a quorum has acknowledged to the leader \<open>s\<close> is committed.\<close>

lemma acknowledged_committed:
  assumes inv: "specInv (isQuorum ns) entryTerm x" and ct: "trackerRel ns s T ct x" and s: "s \<in> set ns" "distinct ns"
    and ldr: "leaderOf x T = Some s" "(s, T, leaderLog x T) \<in> ackd x"
    and k: "0 < k" "k \<in> set (matchIndexes ct)"
    and q: "isQuorum (s # ct_targets ct) (insert s {t \<in> set (ct_targets ct). k \<le> the (ct_registrations ct t)})"
  shows "committed (isQuorum ns) entryTerm x T (take (nat k + 1) (leaderLog x T))"
proof -
  let ?P = "take (nat k + 1) (leaderLog x T)" and ?Q = "insert s {t \<in> set (ct_targets ct). k \<le> the (ct_registrations ct t)}"
  note D = descentInvD(2) [OF specInvE(4) [OF inv]]
  have ct': "distinct (ct_targets ct)" "set (ct_targets ct) = set ns - {s}" using ct by (auto simp: trackerRel_def trackerInv_def)
  have reg: "ct_registrations ct t = Some 0 \<or> (\<exists>L. (t, T, L) \<in> ackd x \<and> ct_registrations ct t = Some (int (length L) - 1))" if "t \<in> set (ct_targets ct)" for t
    using ct that by (simp add: trackerRel_def)
  have acked: "\<exists>L. (t, T, L) \<in> ackd x \<and> the (ct_registrations ct t) = int (length L) - 1 \<and> prefix L (leaderLog x T) \<and> entryTerm (last L) = T"
    if "t \<in> set (ct_targets ct)" "k \<le> the (ct_registrations ct t)" for t
    using reg [OF that(1)] that(2) k(1) D by fastforce
  have cover: "prefix ?P L" if "prefix L (leaderLog x T)" "k \<le> int (length L) - 1" for L
  proof -
    have "nat k + 1 \<le> length L" using that(2) k(1) by linarith
    from prefix_take [OF this, of "leaderLog x T"] show ?thesis using take_prefix_eq [OF that(1)] by simp
  qed
  from k(2) obtain t where t: "t \<in> set (ct_targets ct)" "k = the (ct_registrations ct t)" by (auto simp: matchIndexes_def)
  with acked obtain L where L: "k = int (length L) - 1" "prefix L (leaderLog x T)" "entryTerm (last L) = T" by auto
  then have "nat k + 1 = length L" using k(1) by simp
  then have P: "?P = L" using take_prefix_eq [OF L(2)] by simp
  have "isQuorum ns ?Q" using q isQuorum_same [of "s # ct_targets ct" ns ?Q] ct' s by (simp add: insert_absorb)
  moreover have "\<exists>P'. (v, T, P') \<in> ackd x \<and> prefix ?P P'" if "v \<in> ?Q" for v
    using that ldr(2) acked [of v] cover by (auto simp: take_is_prefix) (metis cover)
  ultimately show ?thesis using P L(1,3) k(1) unfolding committed_def by auto
qed

lemma trackerRel_tracker:
  "trackerRel ns s T ct x \<Longrightarrow> ct_targets ct' = ct_targets ct \<Longrightarrow> ct_registrations ct' = ct_registrations ct \<Longrightarrow> trackerInv ct' \<Longrightarrow> trackerRel ns s T ct' x"
  by (simp add: trackerRel_def)

lemma trackerRel_register:
  assumes "trackerRel ns s T ct x" "(v, T, L) \<in> ackd x"
  shows "trackerRel ns s T (ct\<lparr>ct_registrations := (ct_registrations ct)(v \<mapsto> int (length L) - 1)\<rparr>) x"
  using assms by (auto simp: trackerRel_def trackerInv_def)

lemma trackerRel_top:
  assumes "trackerRel ns s T ct x" "specInv quorum entryTerm x" "t \<in> set (ct_targets ct)" "0 < length (leaderLog x T)"
  shows "the (ct_registrations ct t) < int (length (leaderLog x T))"
proof -
  have "length L \<le> length (leaderLog x T)" if "(t, T, L) \<in> ackd x" for L
    using descentInvD(2) [OF specInvE(4) [OF assms(2)] that] prefix_length_le by blast
  moreover have "ct_registrations ct t = Some 0 \<or> (\<exists>L. (t, T, L) \<in> ackd x \<and> ct_registrations ct t = Some (int (length L) - 1))"
    using assms(1,3) by (simp add: trackerRel_def)
  ultimately show ?thesis using assms(4) by fastforce
qed

lemma commit_refines:
  assumes r: "refines api ns c x" and s: "s \<in> set ns" and ns: "distinct ns" and st: "n_status (cl_node c s) = LEADER"
    and ack: "(v, n_term (cl_node c s), size') \<in> acknowledgements c"
    and u: "matchIndexUpdate api v (size' - 1) (cl_tracker c s) (journal (cl_node c s)) = Some (ct, j')"
  shows "\<exists>y. (spec_step ns)\<^sup>*\<^sup>* x y
    \<and> refines api ns ((setNode s ((cl_node c s)\<lparr>journal := j'\<rparr>) c)\<lparr>cl_tracker := (cl_tracker c)(s := ct)\<rparr>) y
    \<and> (commitIndex (journal (cl_node c s)) < commitIndex j' \<longrightarrow>
        committed (isQuorum ns) entryTerm y (n_term (cl_node c s)) (take (nat (commitIndex j') + 1) (leaderLog y (n_term (cl_node c s)))))"
proof -
  let ?n = "cl_node c s" and ?T = "n_term (cl_node c s)" and ?j = "journal (cl_node c s)" and ?L = "slog x s"
  let ?n' = "?n\<lparr>journal := j'\<rparr>" and ?c = "(setNode s (?n\<lparr>journal := j'\<rparr>) c)\<lparr>cl_tracker := (cl_tracker c)(s := ct)\<rparr>"
  note rel = nodeRelD [OF refinesD(4) [OF r s]] and inv = refinesD(1) [OF r] and J = nodeInvD(1) [OF nodeRelD(1) [OF refinesD(4) [OF r s]]]
  have ldr: "leaderOf x ?T = Some s" "?L = leaderLog x ?T" using rel(8,9) st by simp_all
  obtain L where L: "(v, ?T, L) \<in> ackd x" "size' = int (length L)" using messagesRelD(5) [OF refinesD(3) [OF r] ack] by blast
  define ct1 where "ct1 = (cl_tracker c s)\<lparr>ct_registrations := (ct_registrations (cl_tracker c s))(v \<mapsto> size' - 1)\<rparr>"
  have t1: "trackerRel ns s ?T ct1 x" unfolding ct1_def L(2) by (rule trackerRel_register [OF refinesD(5) [OF r s st] L(1)])
  have inv1: "trackerInv ct1" "set (ct_targets ct1) = set ns - {s}" using t1 by (simp_all add: trackerRel_def)
  have "0 < length (leaderLog x ?T)" using couples_last(1) [OF rel(4) J] ldr(2) by simp
  then have top: "\<forall>t \<in> set (ct_targets ct1). the (ct_registrations ct1 t) < logSize ?j"
    using trackerRel_top [OF t1 inv] couplesD(1) [OF rel(4)] ldr(2) by simp
  have cases: "ct = ct1 \<and> j' = ?j \<or> recalculateCommitIndex api ct1 ?j = Some (ct, j')"
    using u by (auto simp: matchIndexUpdate_def ct_updated_def ct1_def [symmetric] split: if_splits)
  note rec = recalculate_step [OF inv1(1) J top]
  have ct: "trackerRel ns s ?T ct x" using cases t1 trackerRel_tracker [OF t1] rec(1-3) by blast
  have j': "journal_safe api ?j j'" "logSize j' = logSize ?j" "currentTerm j' = currentTerm ?j" "votedFor j' = votedFor ?j"
    "\<forall>i. entryAt api j' i = entryAt api ?j i"
    using cases rec(4-8) journal_safe_refl [OF J] by blast+
  have step: "spec_step ns x (x\<lparr>ackd := insert (s, ?T, slog x s) (ackd x)\<rparr>)" (is "raft_step _ _ x ?y")
    by (rule raft_step.ack [OF ldr(1)]) (use rel(3) ldr leadersInvD(5) [OF specInvE(2) [OF inv] ldr(1)] in simp_all)
  note g = step_grows [OF step] and run = r_into_rtranclp [of "spec_step ns", OF step]
  have "refines api ns ?c ?y"
  proof (rule refines_update [OF r run])
    show "acts s x ?y" by (simp add: acts_def)
    have "couples api j' ?L" by (rule couples_same [OF rel(4) j'(2)]) (use j'(5) in simp)
    then show "nodeRel api s ?n' ?y"
      using node_safe_journal [OF rel(1) j'(1,3,4)] rel(2,3,5,6) ldr st unfolding nodeRel_def node_safe_def by auto
    show "messagesRel ?c ?y" using messagesRel_grows [OF refinesD(3) [OF r] g] unfolding messagesRel_def by simp
    show "trackerRel ns s (n_term ?n') (cl_tracker ?c s) ?y" using trackerRel_grows [OF ct g] by simp
  qed simp_all
  moreover have "committed (isQuorum ns) entryTerm ?y ?T (take (nat (commitIndex j') + 1) (leaderLog ?y ?T))" if up: "commitIndex ?j < commitIndex j'"
  proof -
    have recalc: "recalculateCommitIndex api ct1 ?j = Some (ct, j')" using cases up by auto
    have ci: "0 < commitIndex j'" "commitIndex j' \<in> set (matchIndexes ct1)"
      using rec(9) [OF recalc] up journalInvD(3) [OF J] by (auto simp: bounds_def)
    have "ct_targets ct1 \<noteq> []"
    proof
      assume "ct_targets ct1 = []"
      then show False using ci(2) by (simp add: matchIndexes_def)
    qed
    moreover have "s \<notin> set (ct_targets ct1)" unfolding inv1(2) by simp
    ultimately have ne: "ct_targets ct1 \<noteq> []" "s \<notin> set (ct_targets ct1)" .
    have q: "isQuorum (s # ct_targets ct1) (insert s {t \<in> set (ct_targets ct1). commitIndex j' \<le> the (ct_registrations ct1 t)})"
    proof -
      from recalculateCommitIndex_ok [OF inv1(1) ne J top] obtain k where "commitIndex j' = max (commitIndex ?j) k"
          "isQuorum (s # ct_targets ct1) (insert s {t \<in> set (ct_targets ct1). k \<le> the (ct_registrations ct1 t)})"
        by (elim exE conjE) (simp add: recalc)
      then show ?thesis using up by (simp add: max_def split: if_splits)
    qed
    show ?thesis
      by (rule acknowledged_committed [OF step_inv [OF step inv] trackerRel_grows [OF t1 g] s ns _ _ ci q]) (use ldr in simp_all)
  qed
  ultimately show ?thesis using run by blast
qed

end
