(* ===== verification/ClusterSafety.thy ===== *)
theory ClusterSafety
  imports ClusterSimulation
begin

text \<open>
  Every run of a cluster is a run of \<open>RaftSpec\<close>.  From the completeness of the specification follows
  that of the code: what a leader has committed is in the log of every leader of the same or a later
  term, and logs that agree on the term of an entry agree up to it.
\<close>

lemma vote_refines:
  assumes r: "refines api ns c x" and s: "s \<in> set ns" and req: "req \<in> voteRequests c"
    and v: "requestVote api now req False (cl_node c s) hb = Some (ans, n', hb')"
  shows "\<exists>y. (spec_step ns)\<^sup>*\<^sup>* x y \<and> refines api ns ((setNode s n' c)\<lparr>voteGrants :=
    (if vresp_vote ans = GRANTED then insert (s, vr_term req, candidate req) (voteGrants c) else voteGrants c)\<rparr>) y"
proof -
  note rel = nodeRelD [OF refinesD(4) [OF r s]]
  have ok: "int64 (vr_term req)" "okServer (candidate req)" using messagesRelD(2) [OF refinesD(3) [OF r] req] by simp_all
  from requestVote_outcome [OF rel(1) ok v] show ?thesis
  proof (elim disjE conjE exE)
    assume a: "vresp_vote ans \<noteq> GRANTED" "quiet api (cl_node c s) n'"
    have same: "(setNode s n' c)\<lparr>voteGrants := voteGrants c\<rparr> = setNode s n' c" by (simp add: setNode_def)
    show ?thesis unfolding if_not_P [OF a(1)] same by (rule quiet_refines [OF r s a(2)])
  next
    fix m assume a: "vresp_vote ans = GRANTED" "candidate req \<noteq> myself (cl_node c s)" "quiet api (cl_node c s) m"
      "candidateUpToDate req (journal m)" "grantVote api (vr_term req) (candidate req) m = Some (True, n')"
    obtain y where y: "(spec_step ns)\<^sup>*\<^sup>* x y" "refines api ns (setNode s m c) y" using quiet_refines [OF r s a(3)] by blast
    have "\<exists>z. (spec_step ns)\<^sup>*\<^sup>* y z \<and> refines api ns ((setNode s n' (setNode s m c))\<lparr>voteGrants :=
        insert (s, vr_term req, candidate req) (voteGrants (setNode s m c))\<rparr>) z"
      by (rule grant_refines [OF y(2) s]) (use req a rel(2) in simp_all)
    then show ?thesis using y(1) a(1) by (auto intro: rtranclp_trans)
  qed
qed

lemma campaign_refines:
  assumes r: "refines api ns c x" and s: "s \<in> set ns" and req: "(s, req) \<in> preparedVotes c" "int64 (vr_term req)"
    and ob: "observed api (vr_term req) noServer (cl_node c s) = Some (True, n)" and b: "becomeCandidate api (vr_term req) n = Some (True, n')"
  shows "\<exists>y. (spec_step ns)\<^sup>*\<^sup>* x y \<and> refines api ns ((setNode s n' c)\<lparr>voteRequests := insert (req\<lparr>candidate := s\<rparr>) (voteRequests c)\<rparr>) y"
proof -
  have "quiet api (cl_node c s) n"
    by (rule observed_quiet [OF nodeRelD(1) [OF refinesD(4) [OF r s]] req(2) okVote_simps(1) ob])
  then obtain y where y: "(spec_step ns)\<^sup>*\<^sup>* x y" "refines api ns (setNode s n c) y" using quiet_refines [OF r s] by blast
  have "\<exists>z. (spec_step ns)\<^sup>*\<^sup>* y z \<and> refines api ns ((setNode s n' (setNode s n c))\<lparr>voteRequests :=
      insert (req\<lparr>candidate := s\<rparr>) (voteRequests (setNode s n c))\<rparr>) z"
    by (rule candidate_refines [OF y(2) s]) (use req b in simp_all)
  then show ?thesis using y(1) by (auto intro: rtranclp_trans)
qed

text \<open>The simulation.\<close>

lemma step_refines:
  assumes "cluster_step api ns c c'" "distinct ns" "refines api ns c x"
  shows "\<exists>y. (spec_step ns)\<^sup>*\<^sup>* x y \<and> refines api ns c' y"
  using assms(1)
proof cases
  case (observe s t b n')
  note inv = nodeRelD(1,2) [OF refinesD(4) [OF assms(3) observe(2)]]
  show ?thesis unfolding observe(1)
    by (rule quiet_refines [OF assms(3) observe(2) observed_quiet [OF inv(1) observe(4) okVote_simps(1) observe(3)]])
next
  case (beat s now req hb ans n' hb')
  note inv = nodeRelD(1,2) [OF refinesD(4) [OF assms(3) beat(2)]]
  show ?thesis unfolding beat(1)
    by (rule quiet_refines [OF assms(3) beat(2) heartbeat_quiet [OF inv(1) beat(4,5,3)]])
next
  case (prepare s req)
  then show ?thesis using prepare_refines [OF assms(3)] by blast
next
  case (campaign s req n n')
  then show ?thesis using campaign_refines [OF assms(3)] by blast
next
  case (vote s req now hb ans n' hb')
  show ?thesis unfolding vote(1) by (rule vote_refines [OF assms(3) vote(2-4)])
next
  case (elect s replies t reg tp l outcome n' l' ct)
  show ?thesis unfolding elect(1) by (rule elect_refines [OF assms(3) elect(2) assms(2) elect(3-8)])
next
  case (giveUp s t b n')
  note inv = nodeRelD(1,2) [OF refinesD(4) [OF assms(3) giveUp(2)]]
  show ?thesis unfolding giveUp(1) by (rule quiet_refines [OF assms(3) giveUp(2) dropOut_quiet [OF inv(1) giveUp(3)]])
next
  case (halt s)
  note inv = nodeRelD(1,2) [OF refinesD(4) [OF assms(3) halt(2)]]
  show ?thesis unfolding halt(1) by (rule quiet_refines [OF assms(3) halt(2) shutdown_quiet [OF inv(1)]])
next
  case (restart s j)
  note inv = nodeRelD(1,2) [OF refinesD(4) [OF assms(3) restart(2)]]
  show ?thesis unfolding restart(1)
    by (rule quiet_refines [OF assms(3) restart(2)]) (use restart_quiet [OF inv(1) restart(3)] inv(2) in simp)
next
  case (append s e b j')
  show ?thesis unfolding append(1) by (rule append_refines [OF assms(3) append(2-8)])
next
  case (send s p limit msg size' lastEntryTerm n' req)
  show ?thesis unfolding send(1) by (rule send_refines [OF assms(3) send(2-9)])
next
  case (deliver s req now appl hb ans n' hb')
  show ?thesis unfolding deliver(1) by (rule deliver_refines [OF assms(3) deliver(2-6)])
next
  case (commit s v size' ct j')
  show ?thesis unfolding commit(1) using commit_refines [OF assms(3) commit(2) assms(2) commit(3-5)] by blast
next
  case (trim s i j')
  note inv = nodeRelD(1,2) [OF refinesD(4) [OF assms(3) trim(2)]]
  show ?thesis unfolding trim(1) by (rule quiet_refines [OF assms(3) trim(2) trim_quiet [OF inv(1) trim(3)]])
qed

lemma run_refines:
  assumes "(cluster_step api ns)\<^sup>*\<^sup>* c c'" "distinct ns" "refines api ns c x"
  shows "\<exists>y. (spec_step ns)\<^sup>*\<^sup>* x y \<and> refines api ns c' y"
  using assms(1)
proof (induction rule: rtranclp_induct)
  case base
  then show ?case using assms(3) by blast
next
  case (step c1 c2)
  then obtain y where "(spec_step ns)\<^sup>*\<^sup>* x y" "refines api ns c1 y" by blast
  with step_refines [OF step(2) assms(2)] show ?case by (meson rtranclp_trans)
qed

lemma init_refines:
  assumes "clusterInit api ns e c"
  shows "\<exists>x. raft_init entryTerm e x \<and> refines api ns c x"
proof -
  define x :: cluster_spec where "x = \<lparr>cur = (\<lambda>s. if s \<in> set ns then n_term (cl_node c s) else 0), slog = (\<lambda>_. [e]), past = {}, claims = (\<lambda>_ _. None),
    votes = {}, leaderOf = (\<lambda>_. None), baseLog = (\<lambda>_. []), leaderLog = (\<lambda>_. [])(0 := [e]), followed = {}, ackd = {}\<rparr>"
  have i: "raft_init entryTerm e x" using assms by (auto simp: raft_init_def x_def clusterInit_def)
  have "nodeRel api s (cl_node c s) x" if "s \<in> set ns" for s
  proof -
    have n: "nodeInv api (cl_node c s)" "myself (cl_node c s) = s" "n_status (cl_node c s) = FOLLOWER"
      "logSize (journal (cl_node c s)) = 1" "entryAt api (journal (cl_node c s)) 0 = Some e"
      using assms that by (simp_all add: clusterInit_def)
    have "[e] ! nat i = d" if "0 \<le> i" "i < 1" "entryAt api (journal (cl_node c s)) i = Some d" for i d
    proof -
      have "i = 0" using that(1,2) by simp
      then show ?thesis using that(3) n(5) by simp
    qed
    then have "couples api (journal (cl_node c s)) [e]" using n(4) by (simp add: couples_def)
    with n that show ?thesis by (simp add: nodeRel_def x_def)
  qed
  moreover have "messagesRel c x" using assms by (simp add: clusterInit_def messagesRel_def)
  moreover have "ownVotes x" by (simp add: ownVotes_def x_def)
  moreover have "n_status (cl_node c s) \<noteq> LEADER" if "s \<in> set ns" for s using assms that by (simp add: clusterInit_def)
  ultimately have "refines api ns c x" using init_inv [OF i] unfolding refines_def by blast
  with i show ?thesis by blast
qed

lemma reachable_refines:
  assumes "clusterInit api ns e c0" "distinct ns" "(cluster_step api ns)\<^sup>*\<^sup>* c0 c"
  obtains x where "refines api ns c x"
  using init_refines [OF assms(1)] run_refines [OF assms(3,2)] by blast

subsection \<open>Consequences\<close>

lemma one_leader:
  assumes "refines api ns c x" "s \<in> set ns" "u \<in> set ns" "n_status (cl_node c s) = LEADER" "n_status (cl_node c u) = LEADER"
    and "n_term (cl_node c s) = n_term (cl_node c u)"
  shows "s = u"
proof -
  have "Some s = leaderOf x (n_term (cl_node c s))" "leaderOf x (n_term (cl_node c u)) = Some u"
    using nodeRelD(8) [OF refinesD(4) [OF assms(1,2)] assms(4)] nodeRelD(8) [OF refinesD(4) [OF assms(1,3)] assms(5)] by simp_all
  then show ?thesis unfolding assms(6) by simp
qed

lemma logs_match:
  assumes r: "refines api ns c x" and s: "s \<in> set ns" "u \<in> set ns"
    and k: "0 \<le> k" "k < logSize (journal (cl_node c s))" "k < logSize (journal (cl_node c u))"
    and e: "entryAt api (journal (cl_node c s)) k = Some e" "entryAt api (journal (cl_node c u)) k = Some e'" "entryTerm e = entryTerm e'"
    and i: "0 \<le> i" "i \<le> k" "entryAt api (journal (cl_node c s)) i = Some d" "entryAt api (journal (cl_node c u)) i = Some d'"
  shows "d = d'"
proof -
  note cs = couplesD [OF nodeRelD(4) [OF refinesD(4) [OF r s(1)]]] and cu = couplesD [OF nodeRelD(4) [OF refinesD(4) [OF r s(2)]]]
  note I = logsInvD(1) [OF specInvE(1) [OF refinesD(1) [OF r]]]
  have "take (nat k + 1) (slog x s) = take (nat k + 1) (slog x u)"
    by (rule matching_common [OF I I]) (use cs cu k e in \<open>auto simp: nat_less_iff\<close>)
  then have "slog x s ! nat i = slog x u ! nat i" using i(1,2) by (metis Suc_eq_plus1 le_imp_less_Suc nat_mono nth_take)
  with cs(2) [OF i(1) _ i(3)] cu(2) [OF i(1) _ i(4)] k i show ?thesis by simp
qed

text \<open>The leader \<open>s\<close> raises its commit index to \<open>i\<close> or further when an acknowledgement arrives.\<close>

definition commits :: "('db, 'wb) rocksdb \<Rightarrow> raft_server list \<Rightarrow> raft_server \<Rightarrow> int \<Rightarrow> 'db cluster \<Rightarrow> 'db cluster \<Rightarrow> bool" where
  "commits api ns s i c c' \<longleftrightarrow> s \<in> set ns \<and> n_status (cl_node c s) = LEADER
     \<and> (\<exists>v size' ct j'. (v, n_term (cl_node c s), size') \<in> acknowledgements c
          \<and> matchIndexUpdate api v (size' - 1) (cl_tracker c s) (journal (cl_node c s)) = Some (ct, j')
          \<and> c' = (setNode s ((cl_node c s)\<lparr>journal := j'\<rparr>) c)\<lparr>cl_tracker := (cl_tracker c)(s := ct)\<rparr>
          \<and> commitIndex (journal (cl_node c s)) < i \<and> i \<le> commitIndex j')"

lemma commits_step: "commits api ns s i c c' \<Longrightarrow> cluster_step api ns c c'"
  unfolding commits_def by (elim conjE exE) (simp add: cluster_step.commit)

lemma committed_grows: "committed quorum tm x t P \<Longrightarrow> grows x y \<Longrightarrow> committed quorum tm y t P"
  unfolding committed_def using growsD(10) by blast

lemma committed_in_leader:
  assumes r: "refines api ns c1 x" and ns: "distinct ns" and com: "commits api ns s i c1 c2" and run: "(cluster_step api ns)\<^sup>*\<^sup>* c2 c3"
    and u: "u \<in> set ns" "n_status (cl_node c3 u) = LEADER" "n_term (cl_node c1 s) \<le> n_term (cl_node c3 u)"
  shows "i < logSize (journal (cl_node c3 u))"
    "0 \<le> k \<Longrightarrow> k \<le> i \<Longrightarrow> entryAt api (journal (cl_node c2 s)) k = Some e \<Longrightarrow> entryAt api (journal (cl_node c3 u)) k = Some e' \<Longrightarrow> e = e'"
proof -
  let ?T = "n_term (cl_node c1 s)" and ?U = "n_term (cl_node c3 u)"
  from com obtain v size' ct j' where c: "s \<in> set ns" "n_status (cl_node c1 s) = LEADER" "(v, ?T, size') \<in> acknowledgements c1"
      "matchIndexUpdate api v (size' - 1) (cl_tracker c1 s) (journal (cl_node c1 s)) = Some (ct, j')"
      "c2 = (setNode s ((cl_node c1 s)\<lparr>journal := j'\<rparr>) c1)\<lparr>cl_tracker := (cl_tracker c1)(s := ct)\<rparr>"
      "commitIndex (journal (cl_node c1 s)) < i" "i \<le> commitIndex j'"
    unfolding commits_def by blast
  have n2: "n_status (cl_node c2 s) = LEADER" "n_term (cl_node c2 s) = ?T" "journal (cl_node c2 s) = j'" using c(2,5) by simp_all
  from commit_refines [OF r c(1) ns c(2-4)] c(5,6,7) obtain y where y: "refines api ns c2 y"
      "committed (isQuorum ns) entryTerm y ?T (take (nat (commitIndex j') + 1) (leaderLog y ?T))" by auto
  from run_refines [OF run ns y(1)] obtain z where z: "(spec_step ns)\<^sup>*\<^sup>* y z" "refines api ns c3 z" by blast
  have g: "grows y z" using run_inv [OF z(1) refinesD(1) [OF y(1)]] by simp
  note rs = nodeRelD [OF refinesD(4) [OF y(1) c(1)]] and ru = nodeRelD [OF refinesD(4) [OF z(2) u(1)]]
  define P where "P = take (nat (commitIndex j') + 1) (leaderLog y ?T)"
  have ls: "leaderOf y ?T = Some s" "slog y s = leaderLog y ?T" using rs(8,9) n2 by simp_all
  have lu: "leaderOf z ?U = Some u" "slog z u = leaderLog z ?U" using ru(8,9) u(2) by simp_all
  have "prefix P (leaderLog z ?U)"
  proof (cases "?T = ?U")
    case True
    have "prefix P (leaderLog y ?T)" by (simp add: P_def take_is_prefix)
    then show ?thesis using growsD(3) [OF g ls(1)] True prefix_order.trans by metis
  next
    case False
    then have "prefix P (baseLog z ?U)"
      using majority.completeness [OF refinesD(1) [OF z(2)] committed_grows [OF y(2) g] lu(1)] u(3) by (simp add: P_def)
    then show ?thesis using leadersInvD(3) [OF specInvE(2) [OF refinesD(1) [OF z(2)]] lu(1)] prefix_order.trans by blast
  qed
  then have P: "prefix P (slog z u)" using lu(2) by simp
  have b: "0 \<le> commitIndex j'" "commitIndex j' < logSize j'" using journalInvD(3) [OF nodeInvD(1) [OF rs(1)]] n2(3) by (auto simp: bounds_def)
  have len: "int (length P) = commitIndex j' + 1" using b couplesD(1) [OF rs(4)] n2(3) ls(2) by (simp add: P_def)
  then show sz: "i < logSize (journal (cl_node c3 u))" using prefix_length_le [OF P] couplesD(1) [OF ru(4)] c(7) by simp
  show "e = e'" if k: "0 \<le> k" "k \<le> i" "entryAt api (journal (cl_node c2 s)) k = Some e" "entryAt api (journal (cl_node c3 u)) k = Some e'"
  proof -
    have "P ! nat k = e" using couplesD(2) [OF rs(4) k(1) _ k(3)] k b c(7) n2(3) ls(2) by (simp add: P_def)
    moreover have "slog z u ! nat k = e'" using couplesD(2) [OF ru(4) k(1) _ k(4)] k(2) sz by simp
    moreover have "nat k < length P" using k len c(7) by simp
    ultimately show ?thesis using P by (auto simp: prefix_def nth_append)
  qed
qed

end
