(* ===== verification/SampleCluster.thy ===== *)
theory SampleCluster
  imports ClusterSafety ClusterProperties
begin

text \<open>
  A cluster of two nodes in which one is elected, replicates its leadership marker and commits it:
  the witnesses of the properties of whole clusters are about this run.
\<close>

subsection \<open>Nodes whose journal holds the first entry only\<close>

lemma single_entry:
  assumes "journalInv api j" "logSize j = 1"
  shows "logStart j = 0" "commitIndex j = 0" "\<exists>e. entryAt api j 0 = Some e" "i > commitIndex j \<Longrightarrow> rollbackSafe api j i"
proof -
  have b: "0 \<le> logStart j" "logStart j \<le> commitIndex j" "commitIndex j < logSize j" "membershipEpoch j < logSize j"
    using journalInvD(3) [OF assms(1)] by (auto simp: bounds_def)
  then show s: "logStart j = 0" "commitIndex j = 0" using assms(2) by simp_all
  show "\<exists>e. entryAt api j 0 = Some e" using log_entry [OF assms(1), of 0] s assms(2) by auto
  show "rollbackSafe api j i" if "i > commitIndex j" using that b(1,4) s assms(2) by (simp add: rollbackSafe_def)
qed

lemma quiet_single:
  assumes "quiet api n m" "logSize (journal n) = 1" "entryAt api (journal n) 0 = Some e"
  shows "logSize (journal m) = 1" "entryAt api (journal m) 0 = Some e"
proof -
  show l: "logSize (journal m) = 1" using assms(1,2) by (simp add: quiet_def)
  have "journalInv api (journal m)" using quiet_inv [OF assms(1)] nodeInvD(1) by blast
  from single_entry(3) [OF this l] obtain d where "entryAt api (journal m) 0 = Some d" by blast
  moreover from this have "entryAt api (journal n) 0 = Some d" using assms(1,2) by (auto simp: quiet_def)
  ultimately show "entryAt api (journal m) 0 = Some e" using assms(3) by simp
qed

text \<open>A request with one entry for the end of a log that matches is acknowledged.\<close>

lemma append_next:
  assumes inv: "journalInv api j" and l: "logSize j = 1" "entryAt api j 0 = Some d"
    and req: "prevIndex req = 0" "prevTerm req = entryTerm d" "entries req = [e]" "ae_commitIndex req = 0"
    and e: "okLogEntry e" "memberEntryOk j e" "entryTerm d \<le> entryTerm e" "entryTerm e \<le> currentTerm j" and appl: "appl \<le> 0"
  shows "\<exists>ans j'. applyEntries api appl t req j = Some (ans, j') \<and> aer_outcome ans \<and> aer_logSize ans = 2
    \<and> logSize j' = 2 \<and> entryAt api j' 0 = Some d \<and> entryAt api j' 1 = Some e"
proof -
  note s = single_entry [OF inv l(1)]
  have i64: "int64 0" "int64 2" by (simp_all add: int64_def)
  have m: "matchEntries api j 0 (prevTerm req) = Some True" using matchEntries_ok [OF inv _ i64(1), of "prevTerm req"] l(2) req(2) by simp
  obtain i where i: "compareEntries api j 1 [e] = Some i" "firstDifference api j 1 [e] i"
    using compareEntries_first [OF inv, of 1 "[e]"] s(1) l(1) i64(2) by auto
  then have i1: "i = 1" using l(1) by (simp add: firstDifference_def)
  have "termOfLastEntry j = entryTerm d" using journalInvD(6) [OF inv] l by (auto simp: lastTermOk_def entryAt_def)
  then obtain j1 where "appendNoLock api (logSize j) e False j = Some (True, j1)" and a: "appended api e j j1"
    using append_ok [OF inv e(1) _ e(4) _ e(2), of False] e(3) l(1) i64 by (auto simp: int64_def)
  then have "appendAll api 1 [e] j = Some (True, j1)" using l(1) by (simp add: j_append_def)
  then have r: "replaceInconsistent api appl 1 [e] 1 j = Some (True, j1)"
    using s(2) l(1) appl by (simp add: replaceInconsistent_def removeEntries_def)
  have j1: "journalInv api j1" "logSize j1 = 2" "entryAt api j1 0 = Some d" "entryAt api j1 1 = Some e"
    using a l by (simp_all add: appended_def int64_def)
  obtain b j2 where "setCommitIndex api (min (logSize j1 - 1) 0) j1 = Some (b, j2)" "logSize j2 = logSize j1"
      "\<forall>i. entryAt api j2 i = entryAt api j1 i"
    using setCommitIndex_step [OF j1(1), of "min (logSize j1 - 1) 0"] j1(2) by auto
  then show ?thesis using req m i(1) i1 r j1(2-4) by (simp add: applyEntries_def)
qed

subsection \<open>Two nodes\<close>

definition pairMembers :: raft_members where
  "pairMembers = \<lparr>nodes = [sampleServer, otherServer], observers = []\<rparr>"

definition pairJournal :: "mem_db raft_journal" where
  "pairJournal = the (createJournal memApi [] ''cluster'' [sampleServer, otherServer] 0 kAlways)"

definition pairStart :: "mem_db cluster" where
  "pairStart = \<lparr>cl_node = newRaftState pairJournal, cl_tracker = (\<lambda>_. sampleTracker), preparedVotes = {}, voteRequests = {}, voteGrants = {},
     appendRequests = {}, acknowledgements = {}\<rparr>"

lemma pair_lengths: "length (serverToString otherServer) = 9" "length (to_string 1) = 1"
  by (simp_all add: otherServer_def serverToString_def sample_digits) (simp add: to_string_def digits_of.simps [of "Suc 0"])

lemma pair_journal [simp]:
  "journalInv memApi pairJournal" "logSize pairJournal = 1" "currentTerm pairJournal = 0" "votedFor pairJournal = noServer"
  "members pairJournal = pairMembers" "entryAt memApi pairJournal 0 = Some (membersEntry pairMembers ''cluster'')"
proof -
  have "okMembers pairMembers" by (simp add: okMembers_def membersInv_def pairMembers_def)
  moreover have "length (membersToString pairMembers) < 2 ^ 63"
    by (simp add: membersToString_def pairMembers_def sample_digits pair_lengths)
  moreover have "int64 (0 + 1)" by (simp add: int64_def)
  ultimately show "journalInv memApi pairJournal" "logSize pairJournal = 1" "currentTerm pairJournal = 0" "votedFor pairJournal = noServer"
    "members pairJournal = pairMembers" "entryAt memApi pairJournal 0 = Some (membersEntry pairMembers ''cluster'')"
    using createJournal_ok [OF memApi_laws _ _ pairMembers_def, of 0 "''cluster''" "[]" kAlways] by (auto simp: pairJournal_def)
qed

lemma pair_node [simp]:
  "okServer s \<Longrightarrow> nodeInv memApi (newRaftState pairJournal s)" "journal (newRaftState pairJournal s) = pairJournal" "myself (newRaftState pairJournal s) = s"
  "n_term (newRaftState pairJournal s) = 0" "n_status (newRaftState pairJournal s) = FOLLOWER" "n_leader (newRaftState pairJournal s) = noServer"
  by (simp_all add: newRaftState_ok) (simp_all add: newRaftState_def)

lemma pair_init: "clusterInit memApi [sampleServer, otherServer] (membersEntry pairMembers ''cluster'') pairStart"
  by (auto simp: clusterInit_def pairStart_def membersEntry_def)

text \<open>The first node becomes a candidate in term 1, and the second votes for it.\<close>

definition pairRequest :: vote_request where
  "pairRequest = \<lparr>vr_term = 1, candidate = noServer, lastIndex = 0, lastTerm = 0\<rparr>"

lemma pair_prepare: "prepareVote memApi (newRaftState pairJournal s) = Some pairRequest"
proof -
  have "entryAt memApi pairJournal 0 = Some e \<Longrightarrow> entryTerm e = 0" for e by (auto simp: membersEntry_def)
  then have "\<exists>e. fetch_or_die memApi pairJournal 0 = Some e \<and> entryTerm e = 0"
    using log_entry [of memApi pairJournal 0] single_entry(1) [OF pair_journal(1,2)] by (metis pair_journal(1,2) order_refl zero_less_one)
  then show ?thesis by (auto simp: prepareVote_def pairRequest_def)
qed

lemma pair_candidate:
  obtains m k where "observed memApi 1 noServer (newRaftState pairJournal sampleServer) = Some (True, m)" "becomeCandidate memApi 1 m = Some (True, k)"
    "nodeInv memApi k" "myself k = sampleServer" "n_status k = CANDIDATE" "n_term k = 1" "n_leader k = noServer" "logSize (journal k) = 1"
    "members (journal k) = pairMembers" "node_safe memApi (newRaftState pairJournal sampleServer) k"
proof -
  let ?n = "newRaftState pairJournal sampleServer"
  have i64: "int64 1" by (simp add: int64_def)
  have inv: "nodeInv memApi ?n" by simp
  from observed_ok [OF inv i64 okVote_simps(1)] obtain b m where
    m: "observed memApi 1 noServer ?n = Some (b, m)" "node_safe memApi ?n m" "logSize (journal m) = logSize (journal ?n)"
      "sameMembership memApi (journal ?n) (journal m)"
      "n_status ?n \<noteq> SHUTDOWN \<longrightarrow> n_term m = max (n_term ?n) 1 \<and> n_status m \<noteq> SHUTDOWN"
      "n_status ?n \<noteq> SHUTDOWN \<longrightarrow> n_term ?n < 1 \<longrightarrow> n_status m = FOLLOWER \<and> n_leader m = noServer"
    by (elim exE conjE)
  have b: "b" "n_votedFor m = noServer" using observed_newer [OF m(1)] by simp_all
  have mi: "nodeInv memApi m" "myself m = sampleServer" "members (journal m) = pairMembers" "n_term m = 1" "n_status m = FOLLOWER" "n_leader m = noServer"
    using m(2,4-6) by (simp_all add: node_safe_def sameMembership_def)
  have "\<exists>n'. becomeCandidate memApi (n_term m) m = Some (True, n') \<and> node_safe memApi m n' \<and> n_status n' = CANDIDATE \<and> n_term n' = n_term m
    \<and> n_leader n' = n_leader m \<and> logSize (journal n') = logSize (journal m) \<and> members (journal n') = members (journal m)"
    by (rule becomeCandidate_keeps [OF mi(1)]) (simp_all add: mi b pairMembers_def)
  then obtain k where k: "becomeCandidate memApi 1 m = Some (True, k)" "node_safe memApi m k" "n_status k = CANDIDATE" "n_term k = 1"
      "n_leader k = noServer" "logSize (journal k) = 1" "members (journal k) = pairMembers"
    unfolding mi m(3) by (auto simp: m(3))
  have "node_safe memApi ?n k" by (rule node_safe_trans [OF m(2) k(2)])
  then show thesis by (intro that [OF _ k(1)]) (use k m(1) b mi in \<open>simp_all add: node_safe_def\<close>)
qed

lemma pair_voter:
  obtains v hb' where "requestVote memApi 40 (pairRequest\<lparr>candidate := sampleServer\<rparr>) False (newRaftState pairJournal otherServer) sampleBeats
      = Some (\<lparr>vresp_term = 1, vresp_vote = GRANTED\<rparr>, v, hb')"
    "nodeInv memApi v" "myself v = otherServer" "n_term v = 1" "n_status v = FOLLOWER" "serverEmpty (n_leader v)" "logSize (journal v) = 1"
    "entryAt memApi (journal v) 0 = Some (membersEntry pairMembers ''cluster'')"
proof -
  let ?n = "newRaftState pairJournal otherServer" and ?r = "pairRequest\<lparr>candidate := sampleServer\<rparr>" and ?e = "membersEntry pairMembers ''cluster''"
  have r: "int64 (vr_term ?r)" "okServer (candidate ?r)" "vr_term ?r = 1" by (simp_all add: pairRequest_def int64_def)
  have inv: "nodeInv memApi ?n" by simp
  note s = single_entry [OF pair_journal(1,2)]
  have t: "termOfLastEntry pairJournal = 0"
    using journalInvD(6) [OF pair_journal(1)] pair_journal(2,6) by (auto simp: lastTermOk_def entryAt_def membersEntry_def)
  have "\<not> contradictsCommitted memApi ?r pairJournal" "candidateUpToDate ?r pairJournal"
    using s t by (simp_all add: contradictsCommitted_def candidateUpToDate_def pairRequest_def membersEntry_def)
  moreover have "n_term ?n < vr_term ?r" "candidate ?r \<noteq> myself ?n" "n_status ?n \<noteq> SHUTDOWN" "serverEmpty (n_leader ?n)" using r by simp_all
  ultimately obtain ans v hb' where v: "requestVote memApi 40 ?r False ?n sampleBeats = Some (ans, v, hb')" "vresp_vote ans = GRANTED" "vresp_term ans = vr_term ?r"
      "n_term v = vr_term ?r" "node_safe memApi ?n v"
    using requestVote_newer [OF inv r(1,2), where now = 40 and hb = sampleBeats] by auto
  from requestVote_outcome [OF inv r(1,2) v(1)] v(2) obtain m where
    m: "quiet memApi ?n m" "grantVote memApi 1 sampleServer m = Some (True, v)" unfolding r(3) by auto
  note q = quiet_single [OF m(1), of ?e]
  have mi: "nodeInv memApi m" using quiet_inv [OF m(1)] by simp
  have l: "logSize (journal v) = logSize (journal m)" "entryAt memApi (journal v) 0 = entryAt memApi (journal m) 0"
    using grantVote_ok [OF mi, of sampleServer 1] m(2) by auto
  have "n_status v = FOLLOWER" "serverEmpty (n_leader v)"
    using m(2) by (auto simp: grantVote_def updateJournal_def Option.bind_eq_Some_conv split: if_splits)
  moreover have "ans = \<lparr>vresp_term = 1, vresp_vote = GRANTED\<rparr>" using v(2,3) r(3) by simp
  ultimately show thesis by (intro that) (use v l q r(3) in \<open>simp_all add: node_safe_def\<close>)
qed

text \<open>The replies reach the candidate, which becomes the leader.\<close>

definition pairReplies :: "raft_server \<Rightarrow> redis_reply option" where
  "pairReplies s = Some (ReplyArray (map ReplyString (voteResponseVector \<lparr>vresp_term = 1, vresp_vote = GRANTED\<rparr>)))"

lemma pair_replies: "parseVoteResponse (pairReplies s) = Some \<lparr>vresp_term = 1, vresp_vote = GRANTED\<rparr>"
  unfolding pairReplies_def by (rule replies_roundtrip(3)) (simp add: readable_def LLONG_MIN_def LLONG_MAX_def)

lemma pair_leader:
  assumes k: "nodeInv memApi k" "myself k = sampleServer" "n_status k = CANDIDATE" "n_term k = 1" "n_leader k = noServer" "logSize (journal k) = 1"
    "members (journal k) = pairMembers"
  obtains reg ldr l' where "registerReplies pairReplies (voters sampleServer [sampleServer, otherServer]) (newRegistry 1 False) = Some reg"
    "registryTerms reg" "markerFits 1 k" "electionClose memApi 0 1 reg k sampleLease = Some (kElected, ldr, l')"
proof -
  have okE: "okLogEntry (leadershipMarkerEntry 1 sampleServer)"
    by (simp add: okLogEntry_def okEntry_def leadershipMarkerEntry_def int64_def sample_digits pair_lengths)
  then have fits: "markerFits 1 k" using k(2,6) by (simp add: markerFits_def int64_def)
  have ns: "nodes (members (journal k)) = [sampleServer, otherServer]" using k(7) by (simp add: pairMembers_def)
  have "\<exists>n' l'. performElection memApi 0 pairReplies (\<lambda>n. n) \<lparr>vr_term = n_term k, candidate = noServer, lastIndex = 0, lastTerm = 0\<rparr> k sampleLease = Some (kElected, n', l')
    \<and> n_status n' = LEADER \<and> n_term n' = n_term k \<and> n_leader n' = myself k \<and> node_safe memApi k n'
    \<and> entryAt memApi (journal n') (logSize (journal k)) = Some (leadershipMarkerEntry (n_term k) (myself k))"
  proof (rule performElection_wins [OF k(1,3)])
    have "repliedWith pairReplies GRANTED s" "\<not> repliedWith pairReplies VETO s" for s using pair_replies by (simp_all add: repliedWith_def)
    then show "supported pairReplies (myself k) (nodes (members (journal k))) (n_term k)"
      using pair_replies k(4) by (simp add: supported_def ns isQuorum_def calculateQuorumSize_def k(2))
  qed (use k ns fits in simp_all)
  then obtain n' l' where "performElection memApi 0 pairReplies (\<lambda>n. n) \<lparr>vr_term = 1, candidate = noServer, lastIndex = 0, lastTerm = 0\<rparr> k sampleLease = Some (kElected, n', l')"
    unfolding k(4) by blast
  then obtain reg where reg: "registerReplies pairReplies (voters sampleServer [sampleServer, otherServer]) (newRegistry 1 False) = Some reg"
      "electionClose memApi 0 1 reg k sampleLease = Some (kElected, n', l')"
    using k(2-5) by (auto simp: performElection_def electionOpen_def assert_that_def ns Option.bind_eq_Some_conv split: if_splits)
  have "\<forall>(s, sv) \<in> set (vr_contents reg). int64 (vresp_term (resp sv))"
    using reg(1) pair_replies by (auto simp: voters_def registerVoteReply_def pairReplies_def [abs_def] registerVote_def addVote_def newRegistry_def int64_def)
  then show thesis using that reg fits by (simp add: registryTerms_def)
qed

lemma pair_led:
  assumes k: "nodeInv memApi k" "myself k = sampleServer" "logSize (journal k) = 1" "node_safe memApi (newRaftState pairJournal sampleServer) k"
    and e: "registryTerms reg" "markerFits 1 k" "electionClose memApi 0 1 reg k sampleLease = Some (kElected, ldr, l')"
  shows "nodeInv memApi ldr" "myself ldr = sampleServer" "logSize (journal ldr) = 2" "logStart (journal ldr) = 0" "commitIndex (journal ldr) = 0"
    "entryAt memApi (journal ldr) 0 = Some (membersEntry pairMembers ''cluster'')"
    "entryAt memApi (journal ldr) 1 = Some (leadershipMarkerEntry 1 sampleServer)"
proof -
  from e(3) obtain m l1 where o: "observeTermsAndLeases memApi 0 (vr_contents reg) k sampleLease = Some (m, l1)"
    by (auto simp: electionClose_def Option.bind_eq_Some_conv)
  have q: "quiet memApi k m" by (rule observeTerms_quiet [OF k(1) _ o]) (use e(1) in \<open>simp add: registryTerms_def\<close>)
  have m: "nodeInv memApi m" "myself m = sampleServer" "logSize (journal m) = 1" "node_safe memApi k m"
    using quiet_inv [OF q] k(2,3) q by (simp_all add: quiet_def)
  have a: "ascend memApi 1 m = Some (True, ldr)"
    using e(3) o by (auto simp: electionClose_def assert_that_def Option.bind_eq_Some_conv split: if_splits)
  then have t: "n_term m = 1" by (auto simp: ascend_def split: if_splits)
  have mk: "markerOk m" using e(2) k(2,3) m(2,3) t by (simp add: markerFits_def markerOk_def)
  have app: "appended memApi (leadershipMarkerEntry 1 sampleServer) (journal m) (journal ldr)" using ascend_log [OF m(1) mk a] m(2) by simp
  have safe: "node_safe memApi m ldr" using ascend_ok [OF m(1) mk, of 1] a by auto
  note s = single_entry [OF nodeInvD(1) [OF m(1)] m(3)]
  show "nodeInv memApi ldr" "myself ldr = sampleServer" using safe m(2) by (simp_all add: node_safe_def)
  show st: "logSize (journal ldr) = 2" "logStart (journal ldr) = 0" "commitIndex (journal ldr) = 0" using app s m(3) by (simp_all add: appended_def)
  show "entryAt memApi (journal ldr) 1 = Some (leadershipMarkerEntry 1 sampleServer)" using app m(3) by (simp add: appended_def int64_def)
  have "node_safe memApi (newRaftState pairJournal sampleServer) ldr" using k(4) m(4) safe node_safe_trans by blast
  then have "entryAt memApi (journal ldr) 0 = entryAt memApi pairJournal 0"
    using st single_entry(2) [OF pair_journal(1,2)] by (simp add: node_safe_def journal_safe_def)
  then show "entryAt memApi (journal ldr) 0 = Some (membersEntry pairMembers ''cluster'')" by simp
qed

lemma pair_tracker:
  "freshTracker [sampleServer, otherServer] sampleServer ct
    = Some (ct\<lparr>ct_targets := [otherServer], ct_quorumSize := 2, ct_registrations := [otherServer \<mapsto> 0], ct_commitIndex := 0\<rparr>)"
  by (simp add: freshTracker_def all_servers_except_myself_def ct_updateTargets_def ct_reset_def calculateQuorumSize_def getHandlerInternal_def)

definition pairTracker :: commit_tracker where
  "pairTracker = sampleTracker\<lparr>ct_targets := [otherServer], ct_quorumSize := 2, ct_registrations := [otherServer \<mapsto> 0], ct_commitIndex := 0\<rparr>"

lemma pair_commit:
  assumes "journalInv memApi j" "logSize j = 2" "commitIndex j = 0"
  obtains ct j' where "matchIndexUpdate memApi otherServer (2 - 1) pairTracker j = Some (ct, j')" "commitIndex j' = 1"
proof -
  obtain b j' where "setCommitIndex memApi 1 j = Some (b, j')" "commitIndex j' = max (commitIndex j) 1"
    using setCommitIndex_step [OF assms(1), of 1] assms(2) by auto
  then show thesis
    using that assms(3) by (simp add: matchIndexUpdate_def ct_updated_def recalculateCommitIndex_def updateCommitIndex_def matchIndexes_def pairTracker_def)
qed

text \<open>The state after the election.\<close>

lemma pair_elected:
  obtains c where "(cluster_step memApi [sampleServer, otherServer])\<^sup>*\<^sup>* pairStart c"
    "n_status (cl_node c sampleServer) = LEADER" "n_term (cl_node c sampleServer) = 1" "cl_tracker c sampleServer = pairTracker"
    "logSize (journal (cl_node c sampleServer)) = 2" "commitIndex (journal (cl_node c sampleServer)) = 0"
    "nodeInv memApi (cl_node c sampleServer)" "myself (cl_node c sampleServer) = sampleServer"
    "logStart (journal (cl_node c sampleServer)) = 0"
    "entryAt memApi (journal (cl_node c sampleServer)) 0 = Some (membersEntry pairMembers ''cluster'')"
    "entryAt memApi (journal (cl_node c sampleServer)) 1 = Some (leadershipMarkerEntry 1 sampleServer)"
    "nodeInv memApi (cl_node c otherServer)" "myself (cl_node c otherServer) = otherServer" "n_term (cl_node c otherServer) = 1"
    "n_status (cl_node c otherServer) = FOLLOWER" "serverEmpty (n_leader (cl_node c otherServer))" "logSize (journal (cl_node c otherServer)) = 1"
    "entryAt memApi (journal (cl_node c otherServer)) 0 = Some (membersEntry pairMembers ''cluster'')"
proof -
  let ?ns = "[sampleServer, otherServer]" and ?step = "cluster_step memApi [sampleServer, otherServer]" and ?e = "membersEntry pairMembers ''cluster''"
  obtain m k where k: "observed memApi 1 noServer (newRaftState pairJournal sampleServer) = Some (True, m)" "becomeCandidate memApi 1 m = Some (True, k)"
      "nodeInv memApi k" "myself k = sampleServer" "n_status k = CANDIDATE" "n_term k = 1" "n_leader k = noServer" "logSize (journal k) = 1"
      "members (journal k) = pairMembers" "node_safe memApi (newRaftState pairJournal sampleServer) k"
    by (rule pair_candidate)
  obtain v hb' where v: "requestVote memApi 40 (pairRequest\<lparr>candidate := sampleServer\<rparr>) False (newRaftState pairJournal otherServer) sampleBeats
        = Some (\<lparr>vresp_term = 1, vresp_vote = GRANTED\<rparr>, v, hb')"
      "nodeInv memApi v" "myself v = otherServer" "n_term v = 1" "n_status v = FOLLOWER" "serverEmpty (n_leader v)" "logSize (journal v) = 1"
      "entryAt memApi (journal v) 0 = Some ?e"
    by (rule pair_voter)
  obtain reg ldr l' where reg: "registerReplies pairReplies (voters sampleServer ?ns) (newRegistry 1 False) = Some reg" "registryTerms reg" "markerFits 1 k"
      "electionClose memApi 0 1 reg k sampleLease = Some (kElected, ldr, l')"
    by (rule pair_leader [OF k(3-9)])
  let ?c1 = "pairStart\<lparr>preparedVotes := insert (sampleServer, pairRequest) (preparedVotes pairStart)\<rparr>"
  let ?c2 = "(setNode sampleServer k ?c1)\<lparr>voteRequests := insert (pairRequest\<lparr>candidate := sampleServer\<rparr>) (voteRequests ?c1)\<rparr>"
  let ?c3 = "(setNode otherServer v ?c2)\<lparr>voteGrants := insert (otherServer, 1, sampleServer) (voteGrants ?c2)\<rparr>"
  let ?c4 = "(setNode sampleServer ldr ?c3)\<lparr>cl_tracker := (cl_tracker ?c3)(sampleServer := pairTracker)\<rparr>"
  have n: "cl_node pairStart = newRaftState pairJournal" by (simp add: pairStart_def)
  have "?step pairStart ?c1" by (rule cluster_step.prepare) (simp_all add: n pair_prepare)
  moreover have "?step ?c1 ?c2"
    by (rule cluster_step.campaign [where n = m]) (use k(1,2) in \<open>simp_all add: n pairRequest_def int64_def\<close>)
  moreover have "?step ?c2 ?c3"
  proof -
    let ?r = "pairRequest\<lparr>candidate := sampleServer\<rparr>" and ?ans = "\<lparr>vresp_term = 1, vresp_vote = GRANTED\<rparr>"
    have "?step ?c2 ((setNode otherServer v ?c2)\<lparr>voteGrants :=
        (if vresp_vote ?ans = GRANTED then insert (otherServer, vr_term ?r, candidate ?r) (voteGrants ?c2) else voteGrants ?c2)\<rparr>)"
      by (rule cluster_step.vote [where now = 40 and hb = sampleBeats and hb' = hb']) (use v(1) in \<open>simp_all add: n\<close>)
    then show ?thesis by (simp add: pairRequest_def)
  qed
  moreover have "?step ?c3 ?c4"
  proof -
    have "?step ?c3 ((setNode sampleServer ldr ?c3)\<lparr>cl_tracker := (if kElected = kElected then (cl_tracker ?c3)(sampleServer := pairTracker) else cl_tracker ?c3)\<rparr>)"
      by (rule cluster_step.elect [where replies = pairReplies and t = 1 and reg = reg and tp = 0 and l = sampleLease and l' = l'])
        (use reg pair_tracker [of sampleTracker] in \<open>auto simp: pairTracker_def pairStart_def\<close>)
    then show ?thesis by simp
  qed
  ultimately have run: "?step\<^sup>*\<^sup>* pairStart ?c4" by (meson r_into_rtranclp rtranclp.rtrancl_into_rtrancl)
  have l: "cl_node ?c4 sampleServer = ldr" "cl_node ?c4 otherServer = v" "cl_tracker ?c4 sampleServer = pairTracker" by simp_all
  note won = electionClose_elected [OF reg(4)]
  note led = pair_led [OF k(3,4,8,10) reg(2-4)]
  show thesis by (rule that [OF run]) (simp_all only: l won(3,4) led v(2-8))
qed

text \<open>The marker is sent, acknowledged and committed.\<close>

definition pairAppend :: append_entries_request where
  "pairAppend = \<lparr>ae_term = 1, ae_leader = sampleServer, prevIndex = 0, prevTerm = 0, ae_commitIndex = 0, entries = [leadershipMarkerEntry 1 sampleServer]\<rparr>"

lemma pair_marker: "okLogEntry (leadershipMarkerEntry 1 sampleServer)"
  by (simp add: okLogEntry_def okEntry_def leadershipMarkerEntry_def int64_def sample_digits pair_lengths)

lemma pair_deliver:
  assumes v: "nodeInv memApi v" "myself v = otherServer" "n_term v = 1" "n_status v = FOLLOWER" "serverEmpty (n_leader v)" "logSize (journal v) = 1"
    "entryAt memApi (journal v) 0 = Some (membersEntry pairMembers ''cluster'')"
  obtains ans n' hb' where "requestOk memApi pairAppend (journal v)" "appendEntries memApi 50 0 pairAppend v sampleBeats = Some (ans, n', hb')"
    "countedAck pairAppend ans" "aer_logSize ans = 2" "logSize (journal n') = 2"
    "entryAt memApi (journal n') 0 = Some (membersEntry pairMembers ''cluster'')" "entryAt memApi (journal n') 1 = Some (leadershipMarkerEntry 1 sampleServer)"
proof -
  let ?h = "\<lparr>hb_term = ae_term pairAppend, hb_leader = ae_leader pairAppend\<rparr>"
  have r: "int64 (hb_term ?h)" "okServer (hb_leader ?h)" "hb_term ?h = 1" "hb_leader ?h \<noteq> myself v" using v(2) by (simp_all add: pairAppend_def int64_def)
  note s = single_entry [OF nodeInvD(1) [OF v(1)] v(6)]
  have ok: "requestOk memApi pairAppend (journal v)"
    using nodeInvD(1) [OF v(1)] s pair_marker by (simp add: requestOk_def pairAppend_def entriesOk_def marker_memberEntryOk int64_def)
  have "\<exists>a m hb1. heartbeat memApi 50 ?h v sampleBeats = Some (a, m, hb1) \<and> nodeRecognizedAsLeader a = (n_status v \<noteq> SHUTDOWN \<and> n_term v \<le> hb_term ?h)"
    by (rule heartbeat_answers [OF v(1) r(1,2,4)]) (use v(5) in simp)
  then obtain a m hb1 where h: "heartbeat memApi 50 ?h v sampleBeats = Some (a, m, hb1)" "nodeRecognizedAsLeader a" using v(3,4) r(3) by auto
  from heartbeat_ok [OF v(1) r(1,2) h(1)] h(2) r(3) v(6,7) have
    m: "nodeInv memApi m" "logSize (journal m) = 1" "entryAt memApi (journal m) 0 = Some (membersEntry pairMembers ''cluster'')" "n_term m = 1"
    by (simp_all add: node_safe_def)
  have "\<exists>ans j'. applyEntries memApi 0 (n_term m) pairAppend (journal m) = Some (ans, j') \<and> aer_outcome ans \<and> aer_logSize ans = 2
      \<and> logSize j' = 2 \<and> entryAt memApi j' 0 = Some (membersEntry pairMembers ''cluster'') \<and> entryAt memApi j' 1 = Some (leadershipMarkerEntry 1 sampleServer)"
    by (rule append_next [OF nodeInvD(1) [OF m(1)] m(2,3), where e = "leadershipMarkerEntry 1 sampleServer"])
      (use m(4) nodeInvD(3) [OF m(1)] pair_marker in \<open>simp_all add: pairAppend_def membersEntry_def marker_memberEntryOk, simp_all add: leadershipMarkerEntry_def\<close>)
  then obtain ans j' where "applyEntries memApi 0 (n_term m) pairAppend (journal m) = Some (ans, j')" "aer_outcome ans" "aer_logSize ans = 2"
      "logSize j' = 2" "entryAt memApi j' 0 = Some (membersEntry pairMembers ''cluster'')" "entryAt memApi j' 1 = Some (leadershipMarkerEntry 1 sampleServer)"
    by blast
  with h ok show thesis by (intro that [where ans = ans and n' = "m\<lparr>journal := j'\<rparr>"]) (simp_all add: appendEntries_def countedAck_def, simp_all add: pairAppend_def leadershipMarkerEntry_def)
qed

lemma pair_commits:
  obtains c1 c2 where "(cluster_step memApi [sampleServer, otherServer])\<^sup>*\<^sup>* pairStart c1" "commits memApi [sampleServer, otherServer] sampleServer 1 c1 c2"
    "n_status (cl_node c2 sampleServer) = LEADER" "n_term (cl_node c2 sampleServer) = n_term (cl_node c1 sampleServer)"
    "\<forall>s \<in> {sampleServer, otherServer}. logSize (journal (cl_node c1 s)) = 2
       \<and> entryAt memApi (journal (cl_node c1 s)) 0 = Some (membersEntry pairMembers ''cluster'')
       \<and> entryAt memApi (journal (cl_node c1 s)) 1 = Some (leadershipMarkerEntry 1 sampleServer)"
    "commitIndex (journal (cl_node c2 sampleServer)) = 1"
proof -
  let ?ns = "[sampleServer, otherServer]" and ?step = "cluster_step memApi [sampleServer, otherServer]" and ?e = "membersEntry pairMembers ''cluster''"
  obtain c where c: "?step\<^sup>*\<^sup>* pairStart c"
    "n_status (cl_node c sampleServer) = LEADER" "n_term (cl_node c sampleServer) = 1" "cl_tracker c sampleServer = pairTracker"
    "logSize (journal (cl_node c sampleServer)) = 2" "commitIndex (journal (cl_node c sampleServer)) = 0"
    "nodeInv memApi (cl_node c sampleServer)" "myself (cl_node c sampleServer) = sampleServer"
    "logStart (journal (cl_node c sampleServer)) = 0" "entryAt memApi (journal (cl_node c sampleServer)) 0 = Some ?e"
    "entryAt memApi (journal (cl_node c sampleServer)) 1 = Some (leadershipMarkerEntry 1 sampleServer)"
    "nodeInv memApi (cl_node c otherServer)" "myself (cl_node c otherServer) = otherServer" "n_term (cl_node c otherServer) = 1"
    "n_status (cl_node c otherServer) = FOLLOWER" "serverEmpty (n_leader (cl_node c otherServer))" "logSize (journal (cl_node c otherServer)) = 1"
    "entryAt memApi (journal (cl_node c otherServer)) 0 = Some ?e"
    by (rule pair_elected)
  let ?l = "cl_node c sampleServer" and ?v = "cl_node c otherServer"
  have req: "meantRequest memApi ?l 1 1 = pairAppend"
    using c(3,5,6,8,10,11) by (simp add: meantRequest_def pairAppend_def payloadLength_def logSlice_def membersEntry_def)
  obtain msg where msg: "sendPayload memApi (getSnapshot ?l) 1 1 ?l = Some (Some (msg, int (payloadLength (journal ?l) 1 1),
      let es = entries (meantRequest memApi ?l 1 1) in if es = [] then - 1 else entryTerm (last es)), ?l)"
      "parseAppendEntries msg = Some (Some pairAppend)"
    using sendPayload_ok [OF c(7), of "getSnapshot ?l" 1 1] c(5,9) req by (auto simp: getSnapshot_def)
  obtain ans n' hb' where d: "requestOk memApi pairAppend (journal ?v)" "appendEntries memApi 50 0 pairAppend ?v sampleBeats = Some (ans, n', hb')"
      "countedAck pairAppend ans" "aer_logSize ans = 2" "logSize (journal n') = 2"
      "entryAt memApi (journal n') 0 = Some ?e" "entryAt memApi (journal n') 1 = Some (leadershipMarkerEntry 1 sampleServer)"
    by (rule pair_deliver [OF c(12-18)])
  obtain ct j' where j': "matchIndexUpdate memApi otherServer (2 - 1) pairTracker (journal ?l) = Some (ct, j')" "commitIndex j' = 1"
    by (rule pair_commit [OF nodeInvD(1) [OF c(7)] c(5,6)])
  let ?c1 = "c\<lparr>appendRequests := insert pairAppend (appendRequests c)\<rparr>"
  let ?c2 = "(setNode otherServer n' ?c1)\<lparr>acknowledgements := insert (otherServer, 1, 2) (acknowledgements ?c1)\<rparr>"
  let ?c3 = "(setNode sampleServer (?l\<lparr>journal := j'\<rparr>) ?c2)\<lparr>cl_tracker := (cl_tracker ?c2)(sampleServer := ct)\<rparr>"
  have "?step c ?c1"
    by (rule cluster_step.send [OF _ c(2) _ _ _ _ msg]) (use c(5,9) in simp_all)
  moreover have "?step ?c1 ?c2"
  proof -
    have "?step ?c1 ((setNode otherServer n' ?c1)\<lparr>acknowledgements := (if countedAck pairAppend ans
        then insert (otherServer, ae_term pairAppend, aer_logSize ans) (acknowledgements ?c1) else acknowledgements ?c1)\<rparr>)"
      by (rule cluster_step.deliver [where now = 50 and appl = 0 and hb = sampleBeats and hb' = hb']) (use d in \<open>simp_all, simp add: pairAppend_def\<close>)
    moreover have "ae_term pairAppend = 1" by (simp add: pairAppend_def)
    ultimately show ?thesis unfolding if_P [OF d(3)] d(4) by simp
  qed
  ultimately have run: "?step\<^sup>*\<^sup>* pairStart ?c2" using c(1) by (meson rtranclp.rtrancl_into_rtrancl)
  have same: "cl_node ?c2 sampleServer = ?l" "cl_tracker ?c2 sampleServer = pairTracker" "(otherServer, n_term ?l, 2) \<in> acknowledgements ?c2"
    using c(3,4) by simp_all
  have "commits memApi ?ns sampleServer 1 ?c2 ?c3"
    unfolding commits_def same(1,2) using c(2,6) j' same(3)
    by (intro conjI exI [of _ otherServer] exI [of _ 2] exI [of _ ct] exI [of _ j']) simp_all
  then show thesis by (rule that [OF run]) (use c(2,5,10,11) d(5-7) j'(2) in simp_all)
qed

end
