(* ===== verification/ClusterCommits.thy ===== *)
theory ClusterCommits
  imports ClusterSafety
begin

text \<open>
  The commit indexes of the nodes of a cluster, against the abstract run.

  A commit index is backed when a log at least that long was acknowledged by a quorum of the nodes, in
  a term not newer than that of the node.  The commit index moves in two places only: a leader raises
  it when it counts acknowledgements, and a follower takes it from a request of its leader.  Every
  other step keeps it.
\<close>

subsection \<open>Steps that keep the commit index\<close>

named_theorems commit_kept \<open>operations that leave the commit index of the journal alone\<close>

lemma commitBatch_commit [commit_kept]: "j_commitBatch api b i important j = Some j' \<Longrightarrow> commitIndex j' = commitIndex j"
  by (auto simp: j_commitBatch_def case_prod_beta Option.bind_eq_Some_conv split: if_splits)

lemma setCurrentTerm_commit [commit_kept]: "setCurrentTerm api t v j = Some (b, j') \<Longrightarrow> commitIndex j' = commitIndex j"
  by (auto simp: setCurrentTerm_def Option.bind_eq_Some_conv dest: commitBatch_commit split: if_splits)

lemma append_keeps_commit [commit_kept]: "j_append api i e important j = Some (b, j') \<Longrightarrow> commitIndex j' = commitIndex j"
  by (auto simp: j_append_def appendNoLock_def Option.bind_eq_Some_conv dest!: commitBatch_commit split: if_splits)

lemma appendAll_commit [commit_kept]: "appendAll api i es j = Some (b, j') \<Longrightarrow> commitIndex j' = commitIndex j"
  by (induction es arbitrary: i j) (auto simp: Option.bind_eq_Some_conv dest!: append_keeps_commit split: if_splits)

lemma trimUntil_commit [commit_kept]: "trimUntil api i j = Some j' \<Longrightarrow> commitIndex j' = commitIndex j"
  by (auto simp: trimUntil_def Option.bind_eq_Some_conv dest!: commitBatch_commit split: if_splits)

lemma removeEntries_commit [commit_kept]: "removeEntries api i j = Some (b, j') \<Longrightarrow> commitIndex j' = commitIndex j"
  by (auto simp: removeEntries_def Option.bind_eq_Some_conv dest!: commitBatch_commit split: if_splits)

lemma updateJournal_commit [commit_kept]: "updateJournal api n = Some n' \<Longrightarrow> commitIndex (journal n') = commitIndex (journal n)"
  by (auto simp: updateJournal_def Option.bind_eq_Some_conv dest: setCurrentTerm_commit)

lemma observed_commit [commit_kept]: "observed api t l n = Some (b, n') \<Longrightarrow> commitIndex (journal n') = commitIndex (journal n)"
  by (auto simp: observed_def updateStatus_def Let_def Option.bind_eq_Some_conv dest!: updateJournal_commit split: if_splits)

lemma becomeCandidate_commit [commit_kept]: "becomeCandidate api t n = Some (b, n') \<Longrightarrow> commitIndex (journal n') = commitIndex (journal n)"
  by (auto simp: becomeCandidate_def updateStatus_def Option.bind_eq_Some_conv dest!: updateJournal_commit split: if_splits)

lemma grantVote_commit [commit_kept]: "grantVote api t v n = Some (b, n') \<Longrightarrow> commitIndex (journal n') = commitIndex (journal n)"
  by (auto simp: grantVote_def Option.bind_eq_Some_conv dest!: updateJournal_commit split: if_splits)

lemma ascend_commit [commit_kept]: "ascend api t n = Some (b, n') \<Longrightarrow> commitIndex (journal n') = commitIndex (journal n)"
  by (auto simp: ascend_def appendLeadershipMarker_def updateStatus_def Let_def Option.bind_eq_Some_conv dest!: append_keeps_commit split: if_splits)

lemma dropOut_commit [commit_kept]: "dropOut t n = (b, n') \<Longrightarrow> commitIndex (journal n') = commitIndex (journal n)"
  by (auto simp: dropOut_def updateStatus_def split: if_splits)

lemma heartbeat_commit [commit_kept]: "heartbeat api now req n hb = Some (ans, n', hb') \<Longrightarrow> commitIndex (journal n') = commitIndex (journal n)"
  by (auto simp: heartbeat_def Option.bind_eq_Some_conv dest!: observed_commit split: if_splits)

lemma requestVote_commit [commit_kept]:
  "requestVote api now req p n hb = Some (ans, n', hb') \<Longrightarrow> commitIndex (journal n') = commitIndex (journal n)"
  by (auto simp: requestVote_def Let_def Option.bind_eq_Some_conv dest!: observed_commit grantVote_commit split: if_splits option.splits)

lemma observeTerms_commit [commit_kept]:
  "observeTermsAndLeases api tp vs n l = Some (n', l') \<Longrightarrow> commitIndex (journal n') = commitIndex (journal n)"
  by (induction vs arbitrary: n l) (auto simp: Option.bind_eq_Some_conv dest!: observed_commit split: if_splits)

lemma electionClose_commit [commit_kept]:
  "electionClose api tp t reg n l = Some (o', n', l') \<Longrightarrow> commitIndex (journal n') = commitIndex (journal n)"
  by (auto simp: electionClose_def Option.bind_eq_Some_conv dest!: observeTerms_commit ascend_commit split: if_splits)

text \<open>A follower takes over at most the commit index of the request, in the term of the request.\<close>

lemma replaceInconsistent_commit [commit_kept]:
  "replaceInconsistent api appl start es i j = Some (b, j') \<Longrightarrow> commitIndex j' = commitIndex j"
  by (auto simp: replaceInconsistent_def Let_def Option.bind_eq_Some_conv dest!: removeEntries_commit appendAll_commit split: if_splits)

lemma applyEntries_commit:
  assumes "applyEntries api appl t req j = Some (ans, j')"
  shows "commitIndex j' = commitIndex j \<or> commitIndex j' \<le> ae_commitIndex req"
proof -
  have r: "commitIndex k' = max (commitIndex k) i" if "setCommitIndex api i k = Some (b, k')" for i k b k'
    using that by (auto simp: setCommitIndex_def rawSetCommitIndex_def Option.bind_eq_Some_conv split: if_splits)
  show ?thesis
    using assms by (auto simp: applyEntries_def Option.bind_eq_Some_conv dest!: r replaceInconsistent_commit split: if_splits)
qed

lemma appendEntries_commit:
  assumes "appendEntries api now appl req n hb = Some (ans, n', hb')"
  shows "commitIndex (journal n') = commitIndex (journal n) \<or> commitIndex (journal n') \<le> ae_commitIndex req \<and> ae_term req = n_term n'"
proof -
  obtain h m hb1 where h: "heartbeat api now \<lparr>hb_term = ae_term req, hb_leader = ae_leader req\<rparr> n hb = Some (h, m, hb1)"
    using assms by (auto simp: appendEntries_def Option.bind_eq_Some_conv)
  have t: "nodeRecognizedAsLeader h \<Longrightarrow> ae_term req = n_term m"
    using h by (auto simp: heartbeat_def Option.bind_eq_Some_conv split: if_splits)
  show ?thesis
    using assms h t heartbeat_commit [OF h]
    by (auto simp: appendEntries_def Option.bind_eq_Some_conv dest!: applyEntries_commit split: if_splits)
qed

subsection \<open>Backed commit indexes\<close>

definition backed :: "raft_server list \<Rightarrow> cluster_spec \<Rightarrow> int \<Rightarrow> int \<Rightarrow> bool" where
  "backed ns x T i \<longleftrightarrow> i \<le> 0 \<or> (\<exists>t P. t \<le> T \<and> committed (isQuorum ns) entryTerm x t P \<and> i < int (length P))"

definition commitsBacked :: "raft_server list \<Rightarrow> 'db cluster \<Rightarrow> cluster_spec \<Rightarrow> bool" where
  "commitsBacked ns c x \<longleftrightarrow>
     (\<forall>s \<in> set ns. backed ns x (n_term (cl_node c s)) (commitIndex (journal (cl_node c s))))
     \<and> (\<forall>req \<in> appendRequests c. backed ns x (ae_term req) (ae_commitIndex req))"

lemma backed_mono:
  assumes "backed ns x T i" "grows x y" "T \<le> T'" "i' \<le> i"
  shows "backed ns y T' i'"
  using assms committed_grows [of "isQuorum ns" entryTerm x _ _ y] unfolding backed_def by (meson order.trans order.strict_trans1)

lemma commitsBackedD:
  assumes "commitsBacked ns c x"
  shows "s \<in> set ns \<Longrightarrow> backed ns x (n_term (cl_node c s)) (commitIndex (journal (cl_node c s)))"
    "req \<in> appendRequests c \<Longrightarrow> backed ns x (ae_term req) (ae_commitIndex req)"
  using assms by (simp_all add: commitsBacked_def)

text \<open>A step in which indexes stay, or go from a leader to a request, or from a request to a node.\<close>

definition commitsMove :: "raft_server list \<Rightarrow> 'db cluster \<Rightarrow> 'db cluster \<Rightarrow> bool" where
  "commitsMove ns c c' \<longleftrightarrow>
     (\<forall>s \<in> set ns. commitIndex (journal (cl_node c' s)) = commitIndex (journal (cl_node c s))
        \<or> (\<exists>req \<in> appendRequests c. ae_term req = n_term (cl_node c' s) \<and> commitIndex (journal (cl_node c' s)) \<le> ae_commitIndex req))
     \<and> (\<forall>req \<in> appendRequests c'. req \<in> appendRequests c
        \<or> (\<exists>s \<in> set ns. ae_term req = n_term (cl_node c s) \<and> ae_commitIndex req = commitIndex (journal (cl_node c s))))"

lemma commitsMove_backed:
  assumes m: "commitsMove ns c c'" and b: "commitsBacked ns c x" and g: "grows x y"
    and r: "refines api ns c x" "refines api ns c' y"
  shows "commitsBacked ns c' y"
proof -
  have T: "n_term (cl_node c s) \<le> n_term (cl_node c' s)" if "s \<in> set ns" for s
    using nodeRelD(3) [OF refinesD(4) [OF r(1) that]] nodeRelD(3) [OF refinesD(4) [OF r(2) that]] growsD(5) [OF g, of s] by simp
  have "backed ns y (n_term (cl_node c' s)) (commitIndex (journal (cl_node c' s)))" if s: "s \<in> set ns" for s
    using m s commitsBackedD [OF b] backed_mono [OF _ g] T [OF s] unfolding commitsMove_def by (metis order.refl)
  moreover have "backed ns y (ae_term req) (ae_commitIndex req)" if "req \<in> appendRequests c'" for req
    using m that commitsBackedD [OF b] backed_mono [OF _ g] unfolding commitsMove_def by (metis order.refl)
  ultimately show ?thesis by (simp add: commitsBacked_def)
qed

lemma setNode_moves:
  assumes "commitIndex (journal n') = commitIndex (journal (cl_node c s))" "cl_node c' = (cl_node c)(s := n')" "appendRequests c' = appendRequests c"
  shows "commitsMove ns c c'"
  using assms by (simp add: commitsMove_def)

lemma send_meant:
  assumes "refines api ns c x" "s \<in> set ns"
    and "logStart (journal (cl_node c s)) < p" "p \<le> logSize (journal (cl_node c s))" "0 \<le> limit" "limit \<le> 1024"
    and "sendPayload api (getSnapshot (cl_node c s)) p limit (cl_node c s) = Some (Some (msg, size', lastEntryTerm), n')"
      "parseAppendEntries msg = Some (Some req)"
  shows "req = meantRequest api (cl_node c s) p limit"
  using sendPayload_ok [OF nodeRelD(1) [OF refinesD(4) [OF assms(1,2)]] _ assms(3-6), of "getSnapshot (cl_node c s)"] assms(7,8)
  by (auto simp: getSnapshot_def)

text \<open>Every step but the counting of acknowledgements.\<close>

lemma step_moves:
  assumes step: "cluster_step api ns c c'" and r: "refines api ns c x"
    and other: "\<not> (\<exists>s v size' ct j'. s \<in> set ns \<and> n_status (cl_node c s) = LEADER \<and> (v, n_term (cl_node c s), size') \<in> acknowledgements c
      \<and> matchIndexUpdate api v (size' - 1) (cl_tracker c s) (journal (cl_node c s)) = Some (ct, j')
      \<and> c' = (setNode s ((cl_node c s)\<lparr>journal := j'\<rparr>) c)\<lparr>cl_tracker := (cl_tracker c)(s := ct)\<rparr>)"
  shows "commitsMove ns c c'"
  using step
proof cases
  case (observe s t b n')
  then show ?thesis by (intro setNode_moves [of n']) (auto dest: commit_kept)
next
  case (beat s now req hb ans n' hb')
  then show ?thesis by (intro setNode_moves [of n']) (auto dest: commit_kept)
next
  case (prepare s req)
  then show ?thesis by (simp add: commitsMove_def)
next
  case (campaign s req n n')
  then show ?thesis using observed_commit [OF campaign(5)] becomeCandidate_commit [OF campaign(6)] by (intro setNode_moves [of n']) simp_all
next
  case (vote s req now hb ans n' hb')
  then show ?thesis by (intro setNode_moves [of n']) (auto dest: commit_kept)
next
  case (elect s replies t reg tp l outcome n' l' ct)
  then show ?thesis by (intro setNode_moves [of n']) (auto dest: commit_kept)
next
  case (giveUp s t b n')
  then show ?thesis by (intro setNode_moves [of n']) (auto dest: commit_kept)
next
  case (halt s)
  then show ?thesis by (intro setNode_moves) (auto simp: shutdown_def updateStatus_def)
next
  case (restart s j)
  have "j = journal (cl_node c s)"
    using openJournal_ok [OF nodeInvD(1) [OF nodeRelD(1) [OF refinesD(4) [OF r restart(2)]]]] restart(3) by simp
  with restart show ?thesis by (intro setNode_moves) (auto simp: newRaftState_def)
next
  case (append s e b j')
  then show ?thesis by (intro setNode_moves [of "(cl_node c s)\<lparr>journal := j'\<rparr>"]) (auto dest: commit_kept)
next
  case (send s p limit msg size' lastEntryTerm n' req)
  have "req = meantRequest api (cl_node c s) p limit" by (rule send_meant [OF r send(2,4-9)])
  with send show ?thesis by (auto simp: commitsMove_def meantRequest_def)
next
  case (deliver s req now appl hb ans n' hb')
  then show ?thesis using appendEntries_commit [OF deliver(6)] by (auto simp: commitsMove_def)
next
  case (commit s v size' ct j')
  then show ?thesis using other by blast
next
  case (trim s i j')
  then show ?thesis by (intro setNode_moves [of "(cl_node c s)\<lparr>journal := j'\<rparr>"]) (auto dest: commit_kept)
qed

lemma commit_backed:
  assumes r: "refines api ns c x" and s: "s \<in> set ns" and ns: "distinct ns" and st: "n_status (cl_node c s) = LEADER"
    and ack: "(v, n_term (cl_node c s), size') \<in> acknowledgements c"
    and u: "matchIndexUpdate api v (size' - 1) (cl_tracker c s) (journal (cl_node c s)) = Some (ct, j')"
    and c': "c' = (setNode s ((cl_node c s)\<lparr>journal := j'\<rparr>) c)\<lparr>cl_tracker := (cl_tracker c)(s := ct)\<rparr>"
    and b: "commitsBacked ns c x"
  shows "\<exists>y. (spec_step ns)\<^sup>*\<^sup>* x y \<and> refines api ns c' y \<and> commitsBacked ns c' y"
proof -
  let ?T = "n_term (cl_node c s)" and ?j = "journal (cl_node c s)"
  from commit_refines [OF r s ns st ack u] obtain y where y: "(spec_step ns)\<^sup>*\<^sup>* x y" "refines api ns c' y"
      "commitIndex ?j < commitIndex j' \<longrightarrow> committed (isQuorum ns) entryTerm y ?T (take (nat (commitIndex j') + 1) (leaderLog y ?T))"
    unfolding c' by blast
  have g: "grows x y" using run_inv [OF y(1) refinesD(1) [OF r]] by simp
  have n: "n_status (cl_node c' s) = LEADER" "n_term (cl_node c' s) = ?T" "journal (cl_node c' s) = j'" using st by (simp_all add: c')
  note rel = nodeRelD [OF refinesD(4) [OF y(2) s]]
  have len: "commitIndex j' < int (length (leaderLog y ?T))" "0 \<le> commitIndex j'"
    using journalInvD(3) [OF nodeInvD(1) [OF rel(1)]] couplesD(1) [OF rel(4)] rel(9) n by (auto simp: bounds_def)
  have "backed ns y ?T (commitIndex j')"
  proof (cases "commitIndex ?j < commitIndex j'")
    case True
    then show ?thesis using y(3) len unfolding backed_def by (metis (no_types, lifting) length_take min.absorb2 nat_less_iff
        Suc_eq_plus1 Suc_leI lessI nat_int of_nat_less_iff order.refl zless_nat_eq_int_zless)
  next
    case False
    then show ?thesis using backed_mono [OF commitsBackedD(1) [OF b s] g] by simp
  qed
  moreover have "backed ns y (n_term (cl_node c' w)) (commitIndex (journal (cl_node c' w)))" if "w \<in> set ns" "w \<noteq> s" for w
    using backed_mono [OF commitsBackedD(1) [OF b that(1)] g] that(2) by (simp add: c')
  moreover have "backed ns y (ae_term req) (ae_commitIndex req)" if "req \<in> appendRequests c'" for req
    using backed_mono [OF commitsBackedD(2) [OF b] g] that by (simp add: c')
  ultimately have "commitsBacked ns c' y" unfolding commitsBacked_def using n(2,3) by metis
  with y(1,2) show ?thesis by blast
qed

lemma step_backed:
  assumes step: "cluster_step api ns c c'" and ns: "distinct ns" and r: "refines api ns c x" and b: "commitsBacked ns c x"
  shows "\<exists>y. (spec_step ns)\<^sup>*\<^sup>* x y \<and> refines api ns c' y \<and> commitsBacked ns c' y"
proof (cases "\<exists>s v size' ct j'. s \<in> set ns \<and> n_status (cl_node c s) = LEADER \<and> (v, n_term (cl_node c s), size') \<in> acknowledgements c
      \<and> matchIndexUpdate api v (size' - 1) (cl_tracker c s) (journal (cl_node c s)) = Some (ct, j')
      \<and> c' = (setNode s ((cl_node c s)\<lparr>journal := j'\<rparr>) c)\<lparr>cl_tracker := (cl_tracker c)(s := ct)\<rparr>")
  case True
  then show ?thesis using commit_backed [OF r _ ns _ _ _ _ b] by blast
next
  case False
  obtain y where y: "(spec_step ns)\<^sup>*\<^sup>* x y" "refines api ns c' y" using step_refines [OF step ns r] by blast
  have "grows x y" using run_inv [OF y(1) refinesD(1) [OF r]] by simp
  from commitsMove_backed [OF step_moves [OF step r False] b this r y(2)] y show ?thesis by blast
qed

lemma run_backed:
  assumes "(cluster_step api ns)\<^sup>*\<^sup>* c c'" "distinct ns" "refines api ns c x" "commitsBacked ns c x"
  shows "\<exists>y. (spec_step ns)\<^sup>*\<^sup>* x y \<and> refines api ns c' y \<and> commitsBacked ns c' y"
  using assms(1)
proof (induction rule: rtranclp_induct)
  case base
  then show ?case using assms(3,4) by blast
next
  case (step c1 c2)
  then obtain y where "(spec_step ns)\<^sup>*\<^sup>* x y" "refines api ns c1 y" "commitsBacked ns c1 y" by blast
  with step_backed [OF step(2) assms(2)] show ?case by (meson rtranclp_trans)
qed

lemma init_backed:
  assumes "clusterInit api ns e c"
  shows "commitsBacked ns c x"
proof -
  have "commitIndex (journal (cl_node c s)) \<le> 0" if "s \<in> set ns" for s
  proof -
    have "nodeInv api (cl_node c s)" "logSize (journal (cl_node c s)) = 1" using assms that by (auto simp: clusterInit_def)
    then show ?thesis using journalInvD(3) [OF nodeInvD(1), of api "cl_node c s"] by (simp add: bounds_def)
  qed
  moreover have "appendRequests c = {}" using assms by (simp add: clusterInit_def)
  ultimately show ?thesis by (simp add: commitsBacked_def backed_def)
qed

text \<open>What a leader shows as committed is acknowledged by a quorum, entry by entry.\<close>

lemma leader_backed:
  assumes r: "refines api ns c x" and b: "commitsBacked ns c x" and s: "s \<in> set ns" "n_status (cl_node c s) = LEADER"
    and i: "0 < commitIndex (journal (cl_node c s))"
  shows "\<exists>t P. t \<le> n_term (cl_node c s) \<and> committed (isQuorum ns) entryTerm x t P \<and> prefix P (slog x s)
    \<and> commitIndex (journal (cl_node c s)) < int (length P)"
proof -
  let ?T = "n_term (cl_node c s)"
  note rel = nodeRelD [OF refinesD(4) [OF r s(1)]] and inv = refinesD(1) [OF r]
  obtain t P where P: "t \<le> ?T" "committed (isQuorum ns) entryTerm x t P" "commitIndex (journal (cl_node c s)) < int (length P)"
    using commitsBackedD(1) [OF b s(1)] i by (auto simp: backed_def)
  have "prefix P (leaderLog x ?T)"
  proof (cases "t = ?T")
    case True
    obtain Q where Q: "isQuorum ns Q" "\<forall>v \<in> Q. \<exists>P'. (v, t, P') \<in> ackd x \<and> prefix P P'" using P(2) by (auto simp: committed_def)
    then obtain v P' where "(v, t, P') \<in> ackd x" "prefix P P'" using majority.overlap [OF Q(1) Q(1)] by blast
    then show ?thesis
      using descentInvD(2) [OF specInvE(4) [OF inv]] True prefix_order.trans by blast
  next
    case False
    then have "prefix P (baseLog x ?T)" using majority.completeness [OF inv P(2) rel(8) [OF s(2)]] P(1) by simp
    then show ?thesis using leadersInvD(3) [OF specInvE(2) [OF inv] rel(8) [OF s(2)]] prefix_order.trans by blast
  qed
  then show ?thesis using P rel(9) [OF s(2)] by auto
qed

end
