(* ===== verification/ReplicationProperties.thy ===== *)
theory ReplicationProperties
  imports SampleCluster ClusterCommits
begin

text \<open>
  The properties of replication: whole clusters follow the protocol of \<open>RaftSpec\<close>, so that what is
  committed stays; the messages carry the log of the leader; trimming keeps what is still needed.
\<close>

subsection \<open>Elections\<close>

text \<open>
C15. A member that runs for leader, gets votes of a quorum, no veto and no reply of a newer term,
in the pre-vote round too when there is one, and is not moved by other threads meanwhile, ends as
leader of the next term with its leadership marker in the journal.
\<close>

theorem supported_node_leads:
  assumes "nodeInv api n" "n_status n \<noteq> SHUTDOWN" "myself n \<in> set (nodes (members (journal n)))"
    and "distinct (nodes (members (journal n)))" "int64 (n_term n + 1)" "markerFits (n_term n + 1) n"
    and "lastDone \<le> commitIndex (journal n)"
    and "preVote \<longrightarrow> supported preReplies (myself n) (nodes (members (journal n))) (n_term n + 1)"
    and "supported replies (myself n) (nodes (members (journal n))) (n_term n + 1)"
  shows "\<exists>n' l'. runForLeader api lastDone tp preReplies replies (\<lambda>n. n) (\<lambda>n. n) preVote n hb l veto = Some (n', l', veto)
    \<and> n_status n' = LEADER \<and> n_term n' = n_term n + 1 \<and> n_leader n' = myself n \<and> node_safe api n n'
    \<and> entryAt api (journal n') (logSize (journal n)) = Some (leadershipMarkerEntry (n_term n + 1) (myself n))"
  using runForLeader_wins [OF assms] .

lemma pair_supported:
  "supported pairReplies sampleServer (nodes pairMembers) 1"
  using pair_replies by (simp add: supported_def repliedWith_def pairMembers_def isQuorum_def calculateQuorumSize_def)

theorem supported_node_leads_witness:
  "\<exists>n' l'. runForLeader memApi 0 30 pairReplies pairReplies (\<lambda>n. n) (\<lambda>n. n) True (newRaftState pairJournal sampleServer) sampleBeats sampleLease 0
      = Some (n', l', 0)
    \<and> n_status n' = LEADER \<and> n_term n' = 1 \<and> n_leader n' = sampleServer \<and> node_safe memApi (newRaftState pairJournal sampleServer) n'
    \<and> entryAt memApi (journal n') 1 = Some (leadershipMarkerEntry 1 sampleServer)"
proof -
  let ?n = "newRaftState pairJournal sampleServer"
  have "okLogEntry (leadershipMarkerEntry 1 sampleServer)"
    by (simp add: okLogEntry_def okEntry_def leadershipMarkerEntry_def int64_def sample_digits pair_lengths)
  then have "markerFits (n_term ?n + 1) ?n" by (simp add: markerFits_def int64_def)
  moreover have "distinct (nodes pairMembers)" "sampleServer \<in> set (nodes pairMembers)" "int64 1" "0 \<le> commitIndex pairJournal"
    using single_entry(2) [OF pair_journal(1,2)] by (simp_all add: pairMembers_def int64_def)
  ultimately show ?thesis
    using supported_node_leads [of memApi ?n 0 True pairReplies pairReplies 30 sampleBeats sampleLease 0] pair_supported by simp
qed

subsection \<open>Clusters\<close>

text \<open>
C2. Every run of the handlers and replication rounds of the nodes of a cluster, with crashes,
restarts and trimming, simulates a run of the abstract Raft protocol: its terms, votes, logs and
acknowledgements are those of the nodes and their messages. Every commit index, of a node or in a
message, is below the length of a log that a quorum acknowledged in the abstract run in a term not
newer than its own; for a leader that log is a prefix of its own. A step is a handler or the use
of a snapshot while it is current.
\<close>

theorem cluster_refines_raft:
  assumes "clusterInit api ns e c0" "distinct ns" "(cluster_step api ns)\<^sup>*\<^sup>* c0 c"
  shows "\<exists>x y. raft_init entryTerm e x \<and> refines api ns c0 x \<and> (raft_step (isQuorum ns) entryTerm)\<^sup>*\<^sup>* x y \<and> refines api ns c y
    \<and> commitsBacked ns c y
    \<and> (\<forall>s \<in> set ns. n_status (cl_node c s) = LEADER \<and> 0 < commitIndex (journal (cl_node c s)) \<longrightarrow>
        (\<exists>t P. t \<le> n_term (cl_node c s) \<and> committed (isQuorum ns) entryTerm y t P \<and> prefix P (slog y s)
          \<and> commitIndex (journal (cl_node c s)) < int (length P)))"
proof -
  obtain x where x: "raft_init entryTerm e x" "refines api ns c0 x" using init_refines [OF assms(1)] by blast
  from run_backed [OF assms(3,2) x(2) init_backed [OF assms(1)]] obtain y where
    y: "(raft_step (isQuorum ns) entryTerm)\<^sup>*\<^sup>* x y" "refines api ns c y" "commitsBacked ns c y" by blast
  show ?thesis
    by (intro exI [of _ x] exI [of _ y] conjI ballI impI x y) (use leader_backed [OF y(2,3)] in blast)
qed

theorem cluster_refines_raft_witness:
  "\<exists>c x y t P. n_status (cl_node c sampleServer) = LEADER \<and> commitIndex (journal (cl_node c sampleServer)) = 1
     \<and> raft_init entryTerm (membersEntry pairMembers ''cluster'') x
     \<and> (raft_step (isQuorum [sampleServer, otherServer]) entryTerm)\<^sup>*\<^sup>* x y \<and> refines memApi [sampleServer, otherServer] c y
     \<and> committed (isQuorum [sampleServer, otherServer]) entryTerm y t P \<and> prefix P (slog y sampleServer) \<and> 1 < length P"
proof -
  let ?ns = "[sampleServer, otherServer]"
  obtain c1 c2 where c: "(cluster_step memApi ?ns)\<^sup>*\<^sup>* pairStart c1" "commits memApi ?ns sampleServer 1 c1 c2"
      "n_status (cl_node c2 sampleServer) = LEADER" "commitIndex (journal (cl_node c2 sampleServer)) = 1"
    by (rule pair_commits)
  have "(cluster_step memApi ?ns)\<^sup>*\<^sup>* pairStart c2" using c(1) commits_step [OF c(2)] by (rule rtranclp.rtrancl_into_rtrancl)
  from cluster_refines_raft [OF pair_init _ this] c(3,4) show ?thesis by fastforce
qed





subsection \<open>Messages and replies\<close>

text \<open>
C16. A leader can always send a target the entries from a position it still holds, and the target
parses the message as the term, the preceding entry, the commit index and exactly those entries.
\<close>

theorem payload_roundtrip:
  assumes "nodeInv api n" "sn_term sn = n_term n" "logStart (journal n) < p" "p \<le> logSize (journal n)" "0 \<le> limit" "limit \<le> 1024"
  shows "\<exists>msg size' lastEntryTerm. sendPayload api sn p limit n = Some (Some (msg, size', lastEntryTerm), n)
    \<and> parseAppendEntries msg = Some (Some \<lparr>ae_term = n_term n, ae_leader = myself n, prevIndex = p - 1,
         prevTerm = entryTerm (the (entryAt api (journal n) (p - 1))), ae_commitIndex = commitIndex (journal n),
         entries = map (\<lambda>k. the (entryAt api (journal n) (p + int k))) [0..<nat (min limit (logSize (journal n) - p))]\<rparr>)"
  using sendPayload_ok [OF assms] by (auto simp: meantRequest_def logSlice_def payloadLength_def)

theorem payload_roundtrip_witness:
  "\<exists>msg size' lastEntryTerm. sendPayload memApi (getSnapshot sampleNode) 1 5 sampleNode = Some (Some (msg, size', lastEntryTerm), sampleNode)
    \<and> parseAppendEntries msg = Some (Some \<lparr>ae_term = n_term sampleNode, ae_leader = myself sampleNode, prevIndex = 1 - 1,
         prevTerm = entryTerm (the (entryAt memApi (journal sampleNode) (1 - 1))), ae_commitIndex = commitIndex (journal sampleNode),
         entries = map (\<lambda>k. the (entryAt memApi (journal sampleNode) (1 + int k))) [0..<nat (min 5 (logSize (journal sampleNode) - 1))]\<rparr>)"
  by (rule payload_roundtrip) (simp_all add: getSnapshot_def)

text \<open>The match index of a target moves only for an acknowledged payload that ends in an entry of the leader's own term.\<close>

lemma finishRound_tracker: "finishRound now progress k r l = Some (r', l') \<Longrightarrow> lp_tracker l' = lp_tracker l"
  by (auto simp: finishRound_def Option.bind_eq_Some_conv)

lemma adjustNextIndex_tracker:
  assumes "adjustNextIndex api item r rt lp = Some (rt', lp')" "lp_tracker lp' \<noteq> lp_tracker lp"
  shows "pr_lastEntryTerm item = sn_term (snapshot rt) \<and> aer_outcome r"
  using assms by (auto simp: adjustNextIndex_def Let_def Option.bind_eq_Some_conv split: if_splits)

text \<open>
C17. A round of replication changes the commit tracker only on a positive reply of no newer term
to a payload whose last entry is of the leader's own term.
\<close>

theorem replies_commit_own_term:
  assumes "endRound sapi sm api now progress item arrived rt lp = Some (rt', lp')" "lp_tracker lp' \<noteq> lp_tracker lp"
  shows "pr_lastEntryTerm item = sn_term (snapshot rt)
    \<and> (\<exists>r. retrieve_response arrived = Some (kOk r) \<and> aer_outcome r \<and> aer_term r \<le> sn_term (snapshot rt))"
proof -
  obtain r where r: "retrieve_response arrived = Some (kOk r)"
  proof (cases "retrieve_response arrived")
    case (Some x)
    then show ?thesis using assms that by (cases x) (auto simp: endRound_def dest: finishRound_tracker)
  qed (use assms in \<open>simp add: endRound_def\<close>)
  define rt1 where "rt1 = (if \<not> ot_online (onlineTracker rt) then rt\<lparr>onlineTracker := seenOnline now (onlineTracker rt)\<rparr> else rt)"
  have sn: "snapshot rt1 = snapshot rt" by (simp add: rt1_def)
  obtain b n where o: "observed api (aer_term r) noServer (lp_node lp) = Some (b, n)"
    using assms(1) r by (cases "observed api (aer_term r) noServer (lp_node lp)") (auto simp: endRound_def Let_def)
  let ?lp = "lp\<lparr>lp_node := n, lp_lease := lease_heartbeat (rt_target rt1) (pr_sent item) (lp_lease lp)\<rparr>"
  have t: "aer_term r \<le> sn_term (snapshot rt)"
    using assms r o by (auto simp: endRound_def rt1_def [symmetric] sn Let_def split: if_splits)
  with assms(1) r o obtain rt2 lp2 where
    m: "(if aer_logSize r \<le> logStart (journal n) then do { rt \<leftarrow> needsResilvering sapi sm rt1 ?lp; Some (rt, ?lp) }
         else adjustNextIndex api item r rt1 ?lp) = Some (rt2, lp2)" "finishRound now progress (aer_logSize r) rt2 lp2 = Some (rt', lp')"
    by (auto simp: endRound_def rt1_def [symmetric] sn Let_def Option.bind_eq_Some_conv split: if_splits)
  then have "lp_tracker lp2 \<noteq> lp_tracker ?lp" using assms(2) finishRound_tracker by fastforce
  with m(1) have "pr_lastEntryTerm item = sn_term (snapshot rt1) \<and> aer_outcome r"
    by (cases "aer_logSize r \<le> logStart (journal n)") (auto simp: Option.bind_eq_Some_conv dest!: adjustNextIndex_tracker)
  with r t sn show ?thesis by auto
qed

text \<open>
  A reply that cannot be parsed and is no string ends the process: the code reads the string of the
  reply, which is a null pointer.
\<close>

theorem garbled_reply_throws:
  assumes "parseAppendEntriesResponse (Some rep) = None" "\<And>t. rep \<noteq> ReplyString t" "\<And>t. rep \<noteq> ReplyError t" "ackItem rt \<noteq> None"
  shows "monitorReply api progress (Some (Some rep)) rt lp = None \<and> endRound sapi sm api now progress item (Some (Some rep)) rt lp = None"
proof -
  have "replyText rep = None" using assms(2,3) by (auto simp: replyText_def split: redis_reply.splits)
  then have "retrieve_response (Some (Some rep)) = None" using assms(1) by (simp add: retrieve_response_def)
  then show ?thesis
    using assms(4) by (auto simp: monitorReply_def endRound_def)
qed

definition noBlocks :: trimmer where
  "noBlocks = \<lparr>blockObjects = Map.empty, blocks = []\<rparr>"

lemma sample_blocks [simp]: "blocksInv noBlocks"
  by (simp add: blocksInv_def noBlocks_def)

definition sampleItem :: pending_response where
  "sampleItem = \<lparr>pr_sent = 30, pushedFrom = 1, pr_payloadSize = 1, pr_lastEntryTerm = 0\<rparr>"

definition sampleReplica :: replica_tracker where
  "sampleReplica = \<lparr>rt_target = otherServer, snapshot = getSnapshot sampleNode, rt_block = 1, running = True, nextIndex = 1, payloadLimit = 1,
     onlineTracker = \<lparr>ot_online = True, lastSeen = 30\<rparr>, needResilvering = False, resilverer = None, streamingUpdates = True, inFlight = [],
     ackItem = Some sampleItem, statusOnline = True, statusLogSize = 1, statusNodeVersion = ''N/A'', statusResilveringProgress = []\<rparr>"

definition sampleParts :: "mem_db leader_parts" where
  "sampleParts = \<lparr>lp_node = sampleNode, lp_lease = sampleLease, lp_tracker = ct_reset sampleTracker, lp_trimmer = placed 1 0 noBlocks\<rparr>"

theorem garbled_reply_throws_witness:
  "monitorReply memApi [] (Some (Some (ReplyArray []))) sampleReplica sampleParts = None
    \<and> endRound memApi sampleMachine memApi 40 [] sampleItem (Some (Some (ReplyArray []))) sampleReplica sampleParts = None"
  by (rule garbled_reply_throws) (simp_all add: parseAppendEntriesResponse_def stringArray_def sampleReplica_def)

definition sampleReply :: "redis_reply option option" where
  "sampleReply = Some (Some (ReplyArray (map ReplyString (appendEntriesResponseVector \<lparr>aer_term = 0, aer_logSize = 1, aer_outcome = True, aer_err = []\<rparr>))))"

lemma sample_reply: "retrieve_response sampleReply = Some (kOk \<lparr>aer_term = 0, aer_logSize = 1, aer_outcome = True, aer_err = []\<rparr>)"
proof -
  let ?r = "\<lparr>aer_term = 0, aer_logSize = 1, aer_outcome = True, aer_err = []\<rparr>"
  have "parseAppendEntriesResponse (Some (ReplyArray (map ReplyString (appendEntriesResponseVector ?r)))) = Some ?r"
    by (rule replies_roundtrip(2)) (simp_all add: readable_def LLONG_MIN_def LLONG_MAX_def)
  then show ?thesis by (simp only: sampleReply_def retrieve_response_def option.case)
qed

lemma sample_round:
  "\<exists>rt' lp'. endRound memApi sampleMachine memApi 40 [] sampleItem sampleReply sampleReplica sampleParts = Some (rt', lp')
    \<and> lp_tracker lp' \<noteq> lp_tracker sampleParts"
proof -
  let ?r = "\<lparr>aer_term = 0, aer_logSize = 1, aer_outcome = True, aer_err = []\<rparr>" and ?n = "sampleNode\<lparr>n_leader := noServer\<rparr>"
  let ?lp = "sampleParts\<lparr>lp_node := ?n, lp_lease := lease_heartbeat otherServer 30 sampleLease\<rparr>"
  have o: "observed memApi 0 noServer sampleNode = Some (True, ?n)" by (simp add: observed_def)
  have a: "\<exists>rt2 lp2. adjustNextIndex memApi sampleItem ?r sampleReplica ?lp = Some (rt2, lp2) \<and> lp_trimmer lp2 = placed 1 0 noBlocks \<and> rt_block rt2 = 1
      \<and> lp_tracker lp2 \<noteq> ct_reset sampleTracker"
    by (simp add: adjustNextIndex_def sampleReplica_def sampleItem_def getSnapshot_def matchIndexUpdate_def ct_updated_def sampleParts_def ct_reset_def sampleTracker_def)
  then obtain rt2 lp2 where lp2: "adjustNextIndex memApi sampleItem ?r sampleReplica ?lp = Some (rt2, lp2)" "lp_trimmer lp2 = placed 1 0 noBlocks" "rt_block rt2 = 1"
      "lp_tracker lp2 \<noteq> ct_reset sampleTracker" by blast
  have "preserves (placed 1 0 noBlocks) 1 \<noteq> None" by (simp add: placed_ok)
  then have "enforceBlock 1 l (placed 1 0 noBlocks) = Some (placed 1 l (placed 1 0 noBlocks))" for l
    using enforceBlock_eq placed_ok(1) [OF sample_blocks] by blast
  then have "\<exists>rt' lp'. finishRound 40 [] 1 rt2 lp2 = Some (rt', lp')" using lp2(2,3) by (simp add: finishRound_def liftBlock_def)
  then obtain rt' lp' where f: "finishRound 40 [] 1 rt2 lp2 = Some (rt', lp')" by blast
  have "endRound memApi sampleMachine memApi 40 [] sampleItem sampleReply sampleReplica sampleParts = Some (rt', lp')"
    unfolding endRound_def sample_reply using o f lp2(1)
    by (simp add: sampleReplica_def sampleParts_def getSnapshot_def Let_def sampleItem_def)
  moreover have "lp_tracker lp' \<noteq> lp_tracker sampleParts" using finishRound_tracker [OF f] lp2(4) by (simp add: sampleParts_def)
  ultimately show ?thesis by blast
qed

theorem replies_commit_own_term_witness:
  "\<exists>r. retrieve_response sampleReply = Some (kOk r) \<and> aer_outcome r \<and> aer_term r \<le> sn_term (snapshot sampleReplica)"
proof -
  obtain rt' lp' where "endRound memApi sampleMachine memApi 40 [] sampleItem sampleReply sampleReplica sampleParts = Some (rt', lp')"
      "lp_tracker lp' \<noteq> lp_tracker sampleParts" using sample_round by blast
  from replies_commit_own_term [OF this] show ?thesis by blast
qed

subsection \<open>Trimming\<close>

text \<open>
C28. A round of the trimmer with a readable configuration removes the first step entries when
enough entries stay, no replica needs them, and they are committed and applied, and otherwise
nothing; the other entries are untouched.
\<close>

theorem trim_round_spec:
  assumes "getTrimmingConfig junk api sm = Some c" "int64 (keepAtLeast c + tc_step c)" "int64 (logStart j + tc_step c)"
    and "journalInv japi j" "blocksInv tm"
  shows "\<exists>waits db' j'. trimRound junk api sm japi tm j = Some (waits, j') \<and> journalInv japi j'
    \<and> j' = j\<lparr>j_db := db', logStart := (if trimmable c (lastApplied sm) tm j then max (logStart j) (logStart j + tc_step c) else logStart j)\<rparr>
    \<and> (\<forall>i. 0 \<le> i \<longrightarrow> int64 i \<longrightarrow> entryAt japi j' i = (if i < logStart j' then None else entryAt japi j i))"
  using trimRound_ok [OF assms] .

lemma sample_config: "getTrimmingConfig junk memApi sampleMachine = Some \<lparr>keepAtLeast = 50000000, tc_step = 200000\<rparr>"
proof -
  have "db_get memApi sampleDb (configurationLocator kTrimConfigKey) = GetNotFound"
    by (simp add: memApi_def sampleDb_def configurationLocator_def kConfiguration_def kTrimConfigKey_def kStateMachine_LastApplied_def
        kStateMachine_Clock_def kStateMachine_InBulkload_def kStateMachine_Format_def)
  then show ?thesis
    by (simp add: getTrimmingConfig_def sm_configGet_def configGet_def sa_get_def snapshotGet_def newStagingArea_def sampleMachine_def)
qed

theorem trim_round_spec_witness:
  "\<exists>waits db' j'. trimRound \<lparr>keepAtLeast = 0, tc_step = 0\<rparr> memApi sampleMachine memApi noBlocks sampleJournal = Some (waits, j') \<and> journalInv memApi j'
    \<and> j' = sampleJournal\<lparr>j_db := db', logStart := (if trimmable \<lparr>keepAtLeast = 50000000, tc_step = 200000\<rparr> (lastApplied sampleMachine) noBlocks sampleJournal
         then max (logStart sampleJournal) (logStart sampleJournal + tc_step \<lparr>keepAtLeast = 50000000, tc_step = 200000\<rparr>) else logStart sampleJournal)\<rparr>
    \<and> (\<forall>i. 0 \<le> i \<longrightarrow> int64 i \<longrightarrow> entryAt memApi j' i = (if i < logStart j' then None else entryAt memApi sampleJournal i))"
  by (rule trim_round_spec) (simp_all add: sample_config int64_def)

text \<open>A replica that is not offline for long keeps the leader from trimming what it still has to get.\<close>

text \<open>
C29. After a round of replication to a target that has not been offline for long, a round of the
trimmer removes no entry from two before the next one to send.
\<close>

theorem replica_entries_kept:
  assumes "blocksInv (lp_trimmer lp)" "preserves (lp_trimmer lp) (rt_block rt) \<noteq> None" "\<not> hasBeenOfflineForLong now (onlineTracker rt)"
    and "getTrimmingConfig junk api sm = Some c" "int64 (keepAtLeast c + tc_step c)" "int64 (logStart j + tc_step c)" "journalInv japi j"
  shows "\<exists>rt' lp' waits j'. finishRound now progress size' rt lp = Some (rt', lp') \<and> trimRound junk api sm japi (lp_trimmer lp') j = Some (waits, j')
    \<and> (\<forall>i. 0 \<le> i \<longrightarrow> int64 i \<longrightarrow> nextIndex rt - 2 \<le> i \<longrightarrow> entryAt japi j' i = entryAt japi j i)"
proof -
  from enforceBlock_ok [OF assms(1,2)] obtain tm where
    tm: "enforceBlock (rt_block rt) (nextIndex rt - 2) (lp_trimmer lp) = Some tm" "blocksInv tm" "preserves tm = (preserves (lp_trimmer lp))(rt_block rt \<mapsto> nextIndex rt - 2)"
    by blast
  have f: "finishRound now progress size' rt lp = Some (rt_updateStatus progress (ot_online (onlineTracker rt)) size' rt, lp\<lparr>lp_trimmer := tm\<rparr>)"
    using assms(3) tm(1) by (simp add: finishRound_def)
  from tm(3) obtain b where b: "blockObjects tm (rt_block rt) = Some b" "preserveIndex b = nextIndex rt - 2"
    by (metis (no_types, lifting) fun_upd_same map_option_eq_Some preserves_def)
  from trimRound_ok [OF assms(4-7) tm(2)] obtain waits db' j' where
    j': "trimRound junk api sm japi tm j = Some (waits, j')"
      "j' = j\<lparr>j_db := db', logStart := (if trimmable c (lastApplied sm) tm j then max (logStart j) (logStart j + tc_step c) else logStart j)\<rparr>"
      "\<And>i. 0 \<le> i \<Longrightarrow> int64 i \<Longrightarrow> entryAt japi j' i = (if i < logStart j' then None else entryAt japi j i)"
    by blast
  have low: "logStart j' \<le> max (logStart j) (nextIndex rt - 3)"
  proof (cases "trimmable c (lastApplied sm) tm j")
    case True
    then have "\<forall>p b. blockObjects tm p = Some b \<longrightarrow> logStart j + tc_step c < preserveIndex b" by (simp add: trimmable_def)
    with b have "logStart j + tc_step c < nextIndex rt - 2" by metis
    then show ?thesis using j'(2) True by simp
  qed (use j'(2) in simp)
  have "entryAt japi j' i = entryAt japi j i" if i: "0 \<le> i" "int64 i" "nextIndex rt - 2 \<le> i" for i
  proof (cases "i < logStart j'")
    case True
    then have "i < logStart j" using low i(3) by linarith
    then show ?thesis using j'(3) [OF i(1,2)] True entryAt_below_start [OF assms(7) i(1,2)] by simp
  qed (use j'(3) [OF i(1,2)] in simp)
  with f j'(1) show ?thesis by auto
qed

theorem replica_entries_kept_witness:
  "\<exists>rt' lp' waits j'. finishRound 40 [] 1 sampleReplica sampleParts = Some (rt', lp')
    \<and> trimRound \<lparr>keepAtLeast = 0, tc_step = 0\<rparr> memApi sampleMachine memApi (lp_trimmer lp') sampleJournal = Some (waits, j')
    \<and> (\<forall>i. 0 \<le> i \<longrightarrow> int64 i \<longrightarrow> nextIndex sampleReplica - 2 \<le> i \<longrightarrow> entryAt memApi j' i = entryAt memApi sampleJournal i)"
  by (rule replica_entries_kept [OF _ _ _ sample_config])
    (simp_all add: sampleParts_def placed_ok, simp_all add: sampleReplica_def hasBeenOfflineForLong_def int64_def)

text \<open>With a step of zero or less a round that could trim does nothing, and the thread does not wait.\<close>

theorem trim_round_spins:
  assumes "getTrimmingConfig junk api sm = Some c" "int64 (keepAtLeast c + tc_step c)" "int64 (logStart j + tc_step c)"
    and "journalInv japi j" "blocksInv tm" "trimmable c (lastApplied sm) tm j" "tc_step c \<le> 0"
  shows "trimRound junk api sm japi tm j = Some (False, j)"
  using trimRound_spins [OF assms] .

definition spinMachine :: "mem_db state_machine" where
  "spinMachine = sampleMachine\<lparr>sm_db := (configurationLocator kTrimConfigKey, trimmingConfigToString \<lparr>keepAtLeast = 0, tc_step = - 1\<rparr>) # sampleDb\<rparr>"

lemma spin_config: "getTrimmingConfig junk memApi spinMachine = Some \<lparr>keepAtLeast = 0, tc_step = - 1\<rparr>"
proof -
  have "parseTrimmingConfig (trimmingConfigToString \<lparr>keepAtLeast = 0, tc_step = - 1\<rparr>) = Some \<lparr>keepAtLeast = 0, tc_step = - 1\<rparr>"
    by (rule trimming_config_parse) (simp_all add: LLONG_MIN_def LLONG_MAX_def)
  then show ?thesis
    by (simp add: getTrimmingConfig_def sm_configGet_def configGet_def sa_get_def snapshotGet_def newStagingArea_def spinMachine_def sampleMachine_def memApi_def)
qed

theorem trim_round_spins_witness:
  "trimRound \<lparr>keepAtLeast = 0, tc_step = 0\<rparr> memApi spinMachine memApi noBlocks sampleJournal = Some (False, sampleJournal)"
  by (rule trim_round_spins [OF spin_config])
    (simp_all add: int64_def, simp add: trimmable_def noBlocks_def spinMachine_def sampleMachine_def)

theorem trimming_config_roundtrip:
  assumes "LLONG_MIN < keepAtLeast c" "keepAtLeast c < LLONG_MAX" "LLONG_MIN < tc_step c" "tc_step c < LLONG_MAX"
  shows "parseTrimmingConfig (trimmingConfigToString c) = Some c"
  using trimming_config_parse [OF assms] .

theorem trimming_config_roundtrip_witness:
  "parseTrimmingConfig (trimmingConfigToString \<lparr>keepAtLeast = 1000000, tc_step = 20000\<rparr>) = Some \<lparr>keepAtLeast = 1000000, tc_step = 20000\<rparr>"
  by (rule trimming_config_roundtrip) (simp_all add: LLONG_MIN_def LLONG_MAX_def)

end
