(* ===== verification/Spec2Isabelle.thy ===== *)
theory Spec2Isabelle
  imports StoreProperties ClusterProperties FrontendProperties ScanProperties ReplicationProperties
begin

text \<open>
  \<^bold>\<open>QuarkDB\<close>, a replicated store that speaks the protocol of redis.  A client's bytes are parsed into
  requests and grouped into transactions; a leader appends each transaction with writes to its journal
  and replicates the journal to the other nodes with the Raft protocol; what a quorum holds is committed,
  applied in order to a state machine over RocksDB, and answered.  The theories follow that path from the
  bottom up.  Files are named below \<^verbatim>\<open>src/src/\<close>.

  \<^bold>\<open>Conventions.\<close>  Strings are lists of bytes.  C++ integers that never leave their range are \<open>int\<close>
  with the range as a hypothesis (\<open>int64\<close>); where the code wraps around, as in the markers of deques,
  they are words; a signed addition that may overflow is \<open>checkedAdd\<close>, which then has no result.  State is passed explicitly.  The result \<^const>\<open>None\<close> of an operation stands for
  everything after which the process does not go on: \<open>qdb_throw\<close>, \<open>qdb_assert\<close>, an index out of bounds or
  another undefined behaviour, and a loop that does not end; statuses and error replies are values.
  Loops that need not end are defined with \<^verbatim>\<open>partial_function (option)\<close>, and that they do end
  is part of the theorems about them.  The only fuel is in the reference decoder of
  \<open>Formatters\<close>, for which any fuel beyond a bound gives the result.

  \<^bold>\<open>Parameters.\<close>  RocksDB is a record of operations, \<open>rocksdb\<close>, and \<open>rocksdb_laws\<close> is what its
  documentation promises: gets see puts and deletes, a batch is applied as a whole, iterators list the
  entries in order, and a crash of the process loses nothing that was written with the write-ahead log
  (\<open>db_recover\<close>).  Every write carries its options; a loss of power, against which \<open>sync\<close> guards, is not
  modelled.  A \<open>SingleDelete\<close> is taken to act like a \<open>Delete\<close>; an
  iterator is the list of entries at the moment it is made.  \<open>MemStore\<close> is an engine that satisfies the laws, on
  which all witnesses run.  Floating point operations, clocks, the texts of RocksDB statuses, and the byte
  that lies in memory behind a pattern are arguments.

  \<^bold>\<open>Shared vocabulary.\<close>
  \<^item> \<open>QPrelude\<close>: bytes, the collections of simplification rules, assertions, generic lemmas.
  \<^item> \<open>BinaryString\<close>, \<open>TextUtils\<close>: \<^verbatim>\<open>utils/IntToBinaryString.hh\<close>, \<^verbatim>\<open>utils/ParseUtils.hh\<close> and the
    text helpers; encodings round-trip and keep the order.

  \<^bold>\<open>The state machine\<close> (\<^verbatim>\<open>StateMachine.cc\<close>, \<^verbatim>\<open>storage/\<close>).
  \<^item> \<open>KeyDescriptors\<close>, \<open>KeyLocators\<close>, \<open>ReverseLocators\<close>: the layout of the entries and its parser.  Keys that end in a
    bar share entries with others (\<open>escaping_collides\<close>), so the theorems speak of keys with
    \<open>okKey\<close>.
  \<^item> \<open>RocksStore\<close>, \<open>StagingAreas\<close>, \<open>WriteOperations\<close>: the engine, the staging area of a transaction, the locking of a
    descriptor.  The locales \<open>kv_staging\<close> and \<open>kv_writable\<close> are the interface the commands use.
  \<^item> \<open>ExpirationCache\<close>, \<open>Timekeepers\<close>: the deadlines of leases, the clock of a leader.
  \<^item> \<open>StoreModel\<close>, \<open>FieldContainers\<close>: the abstract value of a key (\<open>absVal\<close>) and the
    invariant of its encoding.
  \<^item> \<open>HashOps\<close>, \<open>SetOps\<close>, \<open>LeaseOps\<close>, \<open>CoreOps\<close>, \<open>DequeOps\<close>, \<open>LocalityOps\<close>, \<open>VersionedHashOps\<close>, \<open>GlobMatching\<close>,
    \<open>ScanOps\<close>: one definition per command, and what it does to the abstract value.  The matcher of patterns is the
    case-sensitive half of \<^verbatim>\<open>deps/StringMatchLen.h\<close>, the one the program calls.
  \<^item> \<open>StateMachines\<close>: opening, committing, resetting.  \<open>SampleStore\<close>: a machine for the witnesses.
  \<^item> \<open>StoreProperties\<close>, \<open>ScanProperties\<close>: a commit is applied once and, with the write-ahead log on, durable; each command has the effect on
    the value of its key that its data type promises and none on other keys; scans visit everything once;
    the matcher decides the usual meaning of patterns.

  \<^bold>\<open>Consensus\<close> (\<^verbatim>\<open>raft/\<close>).
  \<^item> \<open>RaftTypes\<close>, \<open>RaftMessages\<close>: servers, entries, members, requests and replies, with round trips.  The locale
    \<open>quorum_system\<close> is what majorities promise.
  \<^item> \<open>RaftJournals\<close>, \<open>RaftLog\<close>, \<open>JournalScans\<close>: the journal in the database, its invariant, and its view as a log.
  \<^item> \<open>RaftTrackers\<close>, \<open>RaftStates\<close>: commit tracker, leader lease, vote registry; the state of a node with its crashes.
  \<^item> \<open>RaftHandlers\<close>, \<open>RaftElections\<close>, \<open>ElectionSafety\<close>: the handlers of \<^verbatim>\<open>RaftDispatcher.cc\<close> and the rounds of the director.
    Append and vote requests run one at a time under the lock \<open>raftCommand\<close>; heartbeats take no lock.  What other threads do
    to a node while a candidate waits for replies is an argument of \<open>runForLeader\<close>.
  \<^item> \<open>RaftTrimmers\<close>, \<open>RaftReplicators\<close>, \<open>Replication\<close>: the configuration, the trimmer, replication.  A round that
    waits for a reply is two steps.
  \<^item> \<open>RaftSpec\<close>: the protocol as an abstract machine with its safety proof.  \<open>ClusterRuns\<close>: a
    cluster of nodes that run the code, over a network that loses, repeats and reorders messages.
    \<open>ClusterRefinement\<close>, \<open>ClusterSimulation\<close>, \<open>ClusterSafety\<close>: every run of the cluster is one of
    the abstract machine.  \<open>ClusterCommits\<close>: what a node shows as committed was acknowledged by a quorum there.  \<open>SampleCluster\<close>: a run in which a node is elected and commits.
  \<^item> \<open>RaftProperties\<close>, \<open>ClusterProperties\<close>, \<open>ReplicationProperties\<close>: committed entries and votes survive crashes; one leader per term;
    logs match; later leaders have what was committed; supported candidates win; leaders without a
    lease step down; trimming keeps what replicas need.

  \<^bold>\<open>The front end\<close>.
  \<^item> \<open>RedisCommands\<close>, \<open>Transactions\<close>, \<open>Formatters\<close>: the table of commands, transactions and their packing, replies.
  \<^item> \<open>RedisParsers\<close>, \<open>ParserStreams\<close>: \<^verbatim>\<open>BufferedReader.cc\<close> and \<^verbatim>\<open>RedisParser.cc\<close>; the locale \<open>byte_reader\<close> is what the parser
    needs of the reader.
  \<^item> \<open>Dispatchers\<close>, \<open>DispatchReads\<close>, \<open>DispatchTx\<close>: \<^verbatim>\<open>Dispatcher.cc\<close>.  \<open>DispatchSpec\<close>: the abstract machine clients see and
    the refinement.
  \<^item> \<open>Connections\<close>, \<open>WriteTrackers\<close>: pending queues, blocked writes, \<open>RaftDispatcher::service\<close>.  \<open>service\<close> decides from a
    snapshot of the raft state, which may be old; \<open>submit\<close> appends under the lock.  Their
    outcomes \<open>Wait\<close> and \<open>Retry\<close> stand for the sleep and for the call of itself.
  \<^item> \<open>FrontendProperties\<close>: requests are delivered whatever pieces the link brings; a transaction is answered when it
    is committed, with the answers and effects of the abstract machine, which has the commands on strings, keys, hashes, sets and
    locality hashes, with their type errors.

  \<^bold>\<open>Assumptions of the theorems on clusters.\<close>  The members are fixed during a run; changes of them are covered
  by \<open>membership_change_overlap\<close> and by \<open>election_safety\<close> across one change.  A request
  that is delivered fits the 64-bit range, and a roll-back does not cross two
  membership epochs (\<open>rollbackSafe\<close>, part of \<open>requestOk\<close>).  A leader appends, sends and counts
  acknowledgements while its snapshot is current: in the code a client's write can be appended just after the node has lost
  its term (\<open>stale_write_appended\<close>), and then logs need not match.  Snapshots of the state are compared by contents, the
  code compares addresses.

  \<^bold>\<open>Not modelled.\<close>  Sockets, threads and the waiting on condition variables; the copying of a checkpoint to a replica that
  is too far behind (\<^verbatim>\<open>RaftResilverer.cc\<close>, \<^verbatim>\<open>ShardDirectory.cc\<close>) and the trimming block it holds; the delivery of published
  messages; authentication; statistics, manual compaction, bulk loading; the XRootD plugin, tools and
  vendored code.
\<close>

end
